(* ===== verification/Prelude.thy ===== *)
theory Prelude
  imports Main "HOL-Library.Word" "HOL-Library.Monad_Syntax"
begin

text \<open>
  Shared ground of the development: the C types and the memory model the components use, the
  allocation oracle, the error numbers, and the generic lemmas the component proofs rest on.

  \<^item> A memory block is the list of its bytes (or of its elements), a pointer into it an offset. Reading or
    writing outside the block is undefined behaviour in C: here the operation returns \<open>None\<close>.
    An operation of result type \<open>'a option\<close> that returns \<open>Some\<close> has stayed inside its blocks.
  \<^item> A C string argument is a HOL \<open>string\<close> without its terminator; a string inside a block
    is found by \<open>c_strlen\<close>, which looks for the terminator.
  \<^item> \<open>size_t\<close> arithmetic is \<open>nat\<close> with the wrap at \<open>2 ^ 64\<close> written out.
  \<^item> \<open>malloc\<close> and its relatives may fail: an operation that allocates takes a list of
    answers, one per call in the order of the calls, and returns the answers it has not used;
    once the list is used up every allocation succeeds.
\<close>

named_theorems mem_simps \<open>equations of the memory operations under their side conditions\<close>

section \<open>Errors\<close>

datatype errno = NOERR | ENOMEM | EINVAL | ERANGE | ESRCH | ENOENT | EPERM | EBADF
  | ENOTSUP | EOPNOTSUPP | ENOTSOCK | ENOTCONN | EINTR | EAGAIN | EIO

section \<open>Characters\<close>

abbreviation NUL :: char where "NUL \<equiv> CHR 0x00"

text \<open>A \<open>char\<close> read as \<open>unsigned char\<close>, and as the signed \<open>char\<close> of the Darwin targets.\<close>

definition uchar :: "char \<Rightarrow> nat" where
  "uchar c = of_char c"

definition schar :: "char \<Rightarrow> int" where
  "schar c = (if uchar c < 128 then int (uchar c) else int (uchar c) - 256)"

definition isdigit :: "char \<Rightarrow> bool" where
  "isdigit c \<longleftrightarrow> 48 \<le> uchar c \<and> uchar c \<le> 57"

text \<open>\<open>isspace\<close> in the C locale: space and the range from tab to carriage return.\<close>

definition isspace :: "char \<Rightarrow> bool" where
  "isspace c \<longleftrightarrow> uchar c = 32 \<or> (9 \<le> uchar c \<and> uchar c \<le> 13)"

lemma uchar_lt [simp]: "uchar c < 256"
  by (simp add: uchar_def)

lemma uchar_eq_iff [simp]: "uchar c = uchar d \<longleftrightarrow> c = d"
  by (simp add: uchar_def)

lemma uchar_NUL [simp]: "uchar NUL = 0"
  by (simp add: uchar_def)

lemma uchar_eq_0_iff [simp]: "uchar c = 0 \<longleftrightarrow> c = NUL"
  using uchar_eq_iff [of c NUL] by simp

lemma schar_NUL [simp]: "schar NUL = 0"
  by (simp add: schar_def)

lemma schar_eq_iff [simp]: "schar c = schar d \<longleftrightarrow> c = d"
proof
  assume eq: "schar c = schar d"
  have "uchar c < 256" "uchar d < 256" by (rule uchar_lt)+
  with eq have "uchar c = uchar d"
    unfolding schar_def by (simp del: uchar_eq_iff uchar_lt split: if_splits)
  then show "c = d" by simp
qed simp

lemma schar_eq_0_iff [simp]: "schar c = 0 \<longleftrightarrow> c = NUL"
  using schar_eq_iff [of c NUL] by simp

lemma isdigit_NUL [simp]: "\<not> isdigit NUL"
  by (simp add: isdigit_def)

lemma isspace_NUL [simp]: "\<not> isspace NUL"
  by (simp add: isspace_def)

section \<open>\<open>size_t\<close> arithmetic\<close>

definition size_add :: "nat \<Rightarrow> nat \<Rightarrow> nat" where
  "size_add a b = (a + b) mod 2 ^ 64"

definition size_sub :: "nat \<Rightarrow> nat \<Rightarrow> nat" where
  "size_sub a b = (a + 2 ^ 64 - b mod 2 ^ 64) mod 2 ^ 64"

lemma size_add_id [mem_simps]: "a + b < 2 ^ 64 \<Longrightarrow> size_add a b = a + b"
  by (simp add: size_add_def)

lemma size_sub_id [mem_simps]:
  assumes "b \<le> a" and "a < 2 ^ 64"
  shows "size_sub a b = a - b"
proof -
  from assms have "b mod 2 ^ 64 = b" by simp
  with assms have "size_sub a b = ((a - b) + 2 ^ 64) mod 2 ^ 64"
    by (simp add: size_sub_def)
  also have "\<dots> = (a - b) mod 2 ^ 64" by simp
  also have "\<dots> = a - b" using assms by simp
  finally show ?thesis .
qed

section \<open>Allocation\<close>

type_synonym answers = "bool list"

fun alloc :: "answers \<Rightarrow> bool \<times> answers" where
  "alloc [] = (True, [])"
| "alloc (ok # os) = (ok, os)"

section \<open>Blocks\<close>

text \<open>The bytes of a fresh allocation are not specified; no operation may depend on them.\<close>

abbreviation garbage :: char where "garbage \<equiv> CHR 0xA5"

definition mem_realloc :: "char list option \<Rightarrow> nat \<Rightarrow> char list" where
  "mem_realloc b n = (case b of
      None \<Rightarrow> replicate n garbage
    | Some bs \<Rightarrow> take n bs @ replicate (n - length bs) garbage)"

definition mem_read :: "'a list \<Rightarrow> nat \<Rightarrow> 'a option" where
  "mem_read b i = (if i < length b then Some (b ! i) else None)"

definition mem_write :: "'a list \<Rightarrow> nat \<Rightarrow> 'a list \<Rightarrow> 'a list option" where
  "mem_write b off src =
     (if off + length src \<le> length b
      then Some (take off b @ src @ drop (off + length src) b) else None)"

definition mem_move :: "'a list \<Rightarrow> nat \<Rightarrow> nat \<Rightarrow> nat \<Rightarrow> 'a list option" where
  "mem_move b dst src n =
     (if dst + n \<le> length b \<and> src + n \<le> length b
      then mem_write b dst (take n (drop src b)) else None)"

definition c_strlen :: "char list \<Rightarrow> nat \<Rightarrow> nat option" where
  "c_strlen b i =
     (let n = length (takeWhile (\<lambda>c. c \<noteq> NUL) (drop i b))
      in if i + n < length b then Some n else None)"

text \<open>The C string that starts at an offset; \<open>None\<close> when the block holds no terminator for it.\<close>

definition cstr_at :: "char list \<Rightarrow> nat \<Rightarrow> string option" where
  "cstr_at b i = map_option (\<lambda>n. take n (drop i b)) (c_strlen b i)"

lemma takeWhile_NUL [simp]:
  "NUL \<notin> set s \<Longrightarrow> takeWhile (\<lambda>c. c \<noteq> NUL) (s @ NUL # rest) = s"
  by (induction s) auto

lemma c_strlen_at [mem_simps]:
  assumes "NUL \<notin> set s" and "b = pre @ s @ NUL # rest" and "i = length pre"
  shows "c_strlen b i = Some (length s)"
  using assms by (simp add: c_strlen_def Let_def)

lemma cstr_at_at [mem_simps]:
  assumes "NUL \<notin> set s" and "b = pre @ s @ NUL # rest" and "i = length pre"
  shows "cstr_at b i = Some s"
  using assms by (simp add: cstr_at_def c_strlen_at)

lemma c_strlen_bound: "c_strlen b i = Some n \<Longrightarrow> i + n < length b"
  by (auto simp: c_strlen_def Let_def split: if_splits)

lemma length_mem_realloc [simp]: "length (mem_realloc b n) = n"
  by (auto simp: mem_realloc_def split: option.split)

lemma mem_realloc_Some [mem_simps]:
  "length bs \<le> n \<Longrightarrow> mem_realloc (Some bs) n = bs @ replicate (n - length bs) garbage"
  by (simp add: mem_realloc_def)

lemma mem_write_mid [mem_simps]:
  "length old = length src \<Longrightarrow>
     mem_write (pre @ old @ post) (length pre) src = Some (pre @ src @ post)"
  by (simp add: mem_write_def)

lemma mem_write_at:
  "length src \<le> length x \<Longrightarrow> off = length pre \<Longrightarrow>
     mem_write (pre @ x) off src = Some (pre @ src @ drop (length src) x)"
  by (simp add: mem_write_def)

lemma mem_move_at:
  assumes "b = pre @ x" and "dst = length pre" and "n \<le> length x"
    and "b = pre' @ y @ z" and "src = length pre'" and "n = length y"
  shows "mem_move b dst src n = Some (pre @ y @ drop n x)"
proof -
  have "take n (drop src b) = y" using assms(4-6) by simp
  moreover have "dst + n \<le> length b" using assms(1-3) by simp
  moreover have "src + n \<le> length b" using assms(4-6) by simp
  ultimately have "mem_move b dst src n = mem_write b dst y" by (simp add: mem_move_def)
  also have "\<dots> = Some (pre @ y @ drop n x)"
    using assms(1,2,3,6) mem_write_at [of y x dst pre] by simp
  finally show ?thesis .
qed

lemma mem_read_at [mem_simps]: "b = pre @ c # post \<Longrightarrow> i = length pre \<Longrightarrow> mem_read b i = Some c"
  by (simp add: mem_read_def)

lemma mem_read_lt [mem_simps]: "i < length b \<Longrightarrow> mem_read b i = Some (b ! i)"
  by (simp add: mem_read_def)

lemma mem_write_1 [mem_simps]: "i < length b \<Longrightarrow> mem_write b i [x] = Some (b[i := x])"
  by (simp add: mem_write_def upd_conv_take_nth_drop)

lemma mem_write_take:
  "off + length src \<le> length b \<Longrightarrow>
     mem_write b off src = Some (take off b @ src @ drop (off + length src) b)"
  by (simp add: mem_write_def)

lemma length_mem_write: "mem_write b off src = Some b' \<Longrightarrow> length b' = length b"
  by (auto simp: mem_write_def split: if_splits)

lemma length_mem_move: "mem_move b d s n = Some b' \<Longrightarrow> length b' = length b"
  by (auto simp: mem_move_def length_mem_write split: if_splits)

section \<open>Substrings\<close>

text \<open>\<open>strstr\<close>: the offset of the first occurrence, the empty needle occurring at once.\<close>

fun c_strstr :: "string \<Rightarrow> string \<Rightarrow> nat option" where
  "c_strstr hay needle =
     (if take (length needle) hay = needle then Some 0
      else case hay of [] \<Rightarrow> None | _ # hs \<Rightarrow> map_option Suc (c_strstr hs needle))"

declare c_strstr.simps [simp del]

lemma c_strstr_bound:
  "c_strstr hay needle = Some m \<Longrightarrow> m + length needle \<le> length hay"
proof (induction hay needle arbitrary: m rule: c_strstr.induct)
  case (1 hay needle)
  show ?case
  proof (cases "take (length needle) hay = needle")
    case True
    then have "length needle \<le> length hay"
      by (metis length_take min.cobounded1)
    with True "1.prems" show ?thesis by (simp add: c_strstr.simps [of hay])
  next
    case False
    with "1.prems" obtain h hs m' where
      "hay = h # hs" and "c_strstr hs needle = Some m'" and "m = Suc m'"
      by (auto simp: c_strstr.simps [of hay] split: list.splits)
    with "1.IH" [OF False] show ?thesis by force
  qed
qed

lemma c_strstr_occurs:
  "c_strstr hay needle = Some m \<Longrightarrow>
     hay = take m hay @ needle @ drop (m + length needle) hay"
proof (induction hay needle arbitrary: m rule: c_strstr.induct)
  case (1 hay needle)
  show ?case
  proof (cases "take (length needle) hay = needle")
    case True
    with "1.prems" show ?thesis
      by (simp add: c_strstr.simps [of hay]) (metis append_take_drop_id)
  next
    case False
    with "1.prems" obtain h hs m' where hs:
      "hay = h # hs" "c_strstr hs needle = Some m'" "m = Suc m'"
      by (auto simp: c_strstr.simps [of hay] split: list.splits)
    then have "hs = take m' hs @ needle @ drop (m' + length needle) hs"
      using "1.IH" [OF False] by blast
    with hs show ?thesis by simp
  qed
qed

end
