(* ===== verification/Getopt.thy ===== *)
theory Getopt
  imports Prelude "HOL-Library.Multiset" "HOL-Library.Sublist"
begin

text \<open>
  GNU \<open>getopt\<close> from src/src/unistd/getopt.c, getopt1.c and getopt_int.h: permuting the argument vector,
  short and long options, abbreviations, and the scan from call to call.

  \<^item> The argument vector is a list of strings or NULL pointers; reading outside it is \<open>None\<close>. A pointer into
    an argument is the text from there to its end: no code writes into the arguments.
  \<^item> The indices are natural numbers. A caller that sets \<open>optind\<close> to a negative number makes the code
    read in front of the vector; that is outside the model.
  \<^item> A message to the standard error stream is an element of \<open>message\<close>, in the order of the output.
  \<^item> An option's \<open>flag\<close> is the address of the variable it stores to.
\<close>

section \<open>State\<close>

datatype ordering = REQUIRE_ORDER | PERMUTE | RETURN_IN_ORDER

record getopt_data =
  optind :: nat
  opterr :: int
  optopt :: int
  optarg :: "string option"
  initialized :: bool
  nextchar :: "string option"
  ordering :: ordering
  first_nonopt :: nat
  last_nonopt :: nat

record long_option =
  opt_name :: string
  has_arg :: int
  flag :: "nat option"
  val :: int

datatype message =
    Ambiguous string string
  | Ambiguous_among string string "string list"
  | Unrecognized string string
  | Takes_no_argument string string
  | Requires_argument string string
  | Invalid_option char
  | Requires_argument_short char

text \<open>What the calls read and write besides their own data: the argument vector, the caller's
  \<open>longind\<close> (\<open>None\<close> when the pointer is NULL), the variables the options' flags point to, the messages, and the
  allocator.\<close>

record world =
  argv :: "string option list"
  longind :: "int option"
  flag_vars :: "nat \<Rightarrow> int"
  messages :: "message list"
  mallocs :: answers

abbreviation DASH :: char where "DASH \<equiv> CHR ''-''"
abbreviation QUESTION :: int where "QUESTION \<equiv> 63"
abbreviation COLON :: int where "COLON \<equiv> 58"

definition report :: "bool \<Rightarrow> message \<Rightarrow> world \<Rightarrow> world" where
  "report print_errors m w = (if print_errors then w\<lparr>messages := messages w @ [m]\<rparr> else w)"

section \<open>Permutation\<close>

text \<open>The two inner loops of \<open>exchange\<close>: swapping \<open>n\<close> elements from \<open>i\<close> and from \<open>j\<close> on.\<close>

fun swap_run :: "'a list \<Rightarrow> nat \<Rightarrow> nat \<Rightarrow> nat \<Rightarrow> 'a list option" where
  "swap_run xs i j 0 = Some xs"
| "swap_run xs i j (Suc n) =
     do { tem \<leftarrow> mem_read xs i; x \<leftarrow> mem_read xs j;
          xs \<leftarrow> mem_write xs i [x]; xs \<leftarrow> mem_write xs j [tem];
          swap_run xs (Suc i) (Suc j) n }"

function exchange_loop :: "'a list \<Rightarrow> nat \<Rightarrow> nat \<Rightarrow> nat \<Rightarrow> 'a list option" where
  "exchange_loop xs lower middle upper =
     (if middle < upper \<and> lower < middle then
        if middle - lower < upper - middle then
          (case swap_run xs lower (upper - (middle - lower)) (middle - lower) of
             None \<Rightarrow> None
           | Some xs \<Rightarrow> exchange_loop xs lower middle (upper - (middle - lower)))
        else
          (case swap_run xs lower middle (upper - middle) of
             None \<Rightarrow> None
           | Some xs \<Rightarrow> exchange_loop xs (lower + (upper - middle)) middle upper)
      else Some xs)"
  by pat_completeness auto
termination by (relation "measure (\<lambda>(xs, lower, middle, upper). upper - lower)") auto

declare exchange_loop.simps [simp del]

definition exchange :: "string option list \<Rightarrow> getopt_data \<Rightarrow> (string option list \<times> getopt_data) option" where
  "exchange v d =
     do { v \<leftarrow> exchange_loop v (first_nonopt d) (last_nonopt d) (optind d);
          Some (v, d\<lparr>first_nonopt := first_nonopt d + (optind d - last_nonopt d), last_nonopt := optind d\<rparr>) }"

section \<open>Long options\<close>

definition name_matches :: "string \<Rightarrow> nat \<Rightarrow> long_option \<Rightarrow> bool" where
  "name_matches text namelen p \<longleftrightarrow> take namelen (opt_name p) = take namelen text"

text \<open>The first loop: an exact match and its index, and the number of options counted.\<close>

fun exact_loop :: "string \<Rightarrow> nat \<Rightarrow> long_option list \<Rightarrow> nat \<Rightarrow> long_option option \<times> nat" where
  "exact_loop text namelen [] n = (None, n)"
| "exact_loop text namelen (p # ps) n =
     (if name_matches text namelen p \<and> namelen = length (opt_name p) then (Some p, n)
      else exact_loop text namelen ps (n + 1))"

record abbreviations =
  pfound :: "long_option option"
  indfound :: int
  ambig_set :: "bool list option"
  ambig_fallback :: bool

text \<open>A second or later match that does not mean the same option.\<close>

definition note_ambiguous :: "bool \<Rightarrow> nat \<Rightarrow> nat \<Rightarrow> abbreviations \<Rightarrow> answers \<Rightarrow> (abbreviations \<times> answers) option" where
  "note_ambiguous print_errors n_options option_index a os =
     (if ambig_fallback a then Some (a, os)
      else if \<not> print_errors then Some (a\<lparr>ambig_fallback := True\<rparr>, os)
      else
        do { (a, os) \<leftarrow>
               (if ambig_set a = None then
                  let (ok, os) = alloc os
                  in if \<not> ok then Some (a\<lparr>ambig_fallback := True\<rparr>, os)
                     else do { s \<leftarrow> mem_write (replicate n_options False) (nat (indfound a)) [True];
                               Some (a\<lparr>ambig_set := Some s\<rparr>, os) }
                else Some (a, os));
             (case ambig_set a of
                None \<Rightarrow> Some (a, os)
              | Some s \<Rightarrow> do { s \<leftarrow> mem_write s option_index [True]; Some (a\<lparr>ambig_set := Some s\<rparr>, os) }) })"

fun abbrev_loop :: "bool \<Rightarrow> bool \<Rightarrow> nat \<Rightarrow> string \<Rightarrow> nat \<Rightarrow> long_option list \<Rightarrow> nat \<Rightarrow> abbreviations \<Rightarrow> answers
    \<Rightarrow> (abbreviations \<times> answers) option" where
  "abbrev_loop long_only print_errors n_options text namelen [] option_index a os = Some (a, os)"
| "abbrev_loop long_only print_errors n_options text namelen (p # ps) option_index a os =
     (if name_matches text namelen p then
        (case pfound a of
           None \<Rightarrow> abbrev_loop long_only print_errors n_options text namelen ps (option_index + 1)
                     (a\<lparr>pfound := Some p, indfound := int option_index\<rparr>) os
         | Some q \<Rightarrow>
             if long_only \<or> has_arg q \<noteq> has_arg p \<or> flag q \<noteq> flag p \<or> val q \<noteq> val p then
               do { (a, os) \<leftarrow> note_ambiguous print_errors n_options option_index a os;
                    abbrev_loop long_only print_errors n_options text namelen ps (option_index + 1) a os }
             else abbrev_loop long_only print_errors n_options text namelen ps (option_index + 1) a os)
      else abbrev_loop long_only print_errors n_options text namelen ps (option_index + 1) a os)"

text \<open>The names the message about an ambiguous option lists.\<close>

fun listed :: "bool list \<Rightarrow> long_option list \<Rightarrow> string list" where
  "listed (b # bs) (p # ps) = (if b then opt_name p # listed bs ps else listed bs ps)"
| "listed _ _ = []"

text \<open>Consuming the option \<open>p\<close> that was found.\<close>

definition consume_long_option :: "nat \<Rightarrow> string \<Rightarrow> long_option \<Rightarrow> int \<Rightarrow> string \<Rightarrow> getopt_data \<Rightarrow> world
    \<Rightarrow> bool \<Rightarrow> string \<Rightarrow> (int \<times> getopt_data \<times> world) option" where
  "consume_long_option argc optstring p option_index nameend d w print_errors pfx =
     (let d = d\<lparr>optind := optind d + 1, nextchar := None\<rparr> in
      if nameend \<noteq> [] \<and> has_arg p = 0 then
        Some (QUESTION, d\<lparr>optopt := val p\<rparr>, report print_errors (Takes_no_argument pfx (opt_name p)) w)
      else if nameend = [] \<and> has_arg p = 1 \<and> \<not> optind d < argc then
        Some (if take 1 optstring = '':'' then COLON else QUESTION,
              d\<lparr>optopt := val p\<rparr>, report print_errors (Requires_argument pfx (opt_name p)) w)
      else
        do { d \<leftarrow>
               (if nameend \<noteq> [] then Some (d\<lparr>optarg := Some (tl nameend)\<rparr>)
                else if has_arg p = 1 then
                  do { x \<leftarrow> mem_read (argv w) (optind d); Some (d\<lparr>optarg := x, optind := optind d + 1\<rparr>) }
                else Some d);
             let w = (if longind w = None then w else w\<lparr>longind := Some option_index\<rparr>);
             (case flag p of
                Some a \<Rightarrow> Some (0, d, w\<lparr>flag_vars := (flag_vars w)(a := val p)\<rparr>)
              | None \<Rightarrow> Some (val p, d\<lparr>optopt := val p\<rparr>, w)) })"

text \<open>An option that was not found: an error, or -1 when it may be a short option.\<close>

definition no_long_option :: "string \<Rightarrow> bool \<Rightarrow> string \<Rightarrow> getopt_data \<Rightarrow> world \<Rightarrow> bool \<Rightarrow> string
    \<Rightarrow> (int \<times> getopt_data \<times> world) option" where
  "no_long_option optstring long_only text d w print_errors pfx =
     do { short \<leftarrow>
            (if \<not> long_only then Some False
             else do { x \<leftarrow> mem_read (argv w) (optind d); s \<leftarrow> x;
                       c1 \<leftarrow> mem_read (s @ [NUL]) 1; c \<leftarrow> mem_read (text @ [NUL]) 0;
                       Some (c1 \<noteq> DASH \<and> c \<in> set (optstring @ [NUL])) });
          if short then Some (-1, d, w)
          else Some (QUESTION, d\<lparr>nextchar := None, optind := optind d + 1, optopt := 0\<rparr>,
                     report print_errors (Unrecognized pfx text) w) }"

definition process_long_option :: "nat \<Rightarrow> string \<Rightarrow> long_option list \<Rightarrow> bool \<Rightarrow> getopt_data \<Rightarrow> world
    \<Rightarrow> bool \<Rightarrow> string \<Rightarrow> (int \<times> getopt_data \<times> world) option" where
  "process_long_option argc optstring longopts long_only d w print_errors pfx =
     do { text \<leftarrow> nextchar d;
          let namelen = length (takeWhile (\<lambda>c. c \<noteq> CHR ''='') text);
          let nameend = drop namelen text;
          (case exact_loop text namelen longopts 0 of
             (Some p, i) \<Rightarrow> consume_long_option argc optstring p (int i) nameend d w print_errors pfx
           | (None, n_options) \<Rightarrow>
               do { (a, os) \<leftarrow> abbrev_loop long_only print_errors n_options text namelen longopts 0
                      \<lparr>pfound = None, indfound = -1, ambig_set = None, ambig_fallback = False\<rparr> (mallocs w);
                    let w = w\<lparr>mallocs := os\<rparr>;
                    if ambig_set a \<noteq> None \<or> ambig_fallback a then
                      let m = (if ambig_fallback a then Ambiguous pfx text
                               else Ambiguous_among pfx text (listed (the (ambig_set a)) longopts))
                      in Some (QUESTION, d\<lparr>nextchar := Some '''', optind := optind d + 1, optopt := 0\<rparr>,
                               report print_errors m w)
                    else
                      (case pfound a of
                         None \<Rightarrow> no_long_option optstring long_only text d w print_errors pfx
                       | Some p \<Rightarrow> consume_long_option argc optstring p (indfound a) nameend d w print_errors pfx) }) }"

section \<open>Scanning\<close>

definition getopt_initialize :: "string \<Rightarrow> getopt_data \<Rightarrow> bool \<Rightarrow> string \<times> getopt_data" where
  "getopt_initialize optstring d posixly_correct =
     (let d = (if optind d = 0 then d\<lparr>optind := 1\<rparr> else d);
          d = d\<lparr>first_nonopt := optind d, last_nonopt := optind d, nextchar := None\<rparr>;
          (optstring, ord) =
            (if take 1 optstring = ''-'' then (tl optstring, RETURN_IN_ORDER)
             else if take 1 optstring = ''+'' then (tl optstring, REQUIRE_ORDER)
             else if posixly_correct then (optstring, REQUIRE_ORDER)
             else (optstring, PERMUTE))
      in (optstring, d\<lparr>ordering := ord, initialized := True\<rparr>))"

definition nonoption :: "string \<Rightarrow> bool" where
  "nonoption s \<longleftrightarrow> take 1 s \<noteq> ''-'' \<or> length s = 1"

text \<open>\<open>NONOPTION_P\<close>.\<close>

definition nonoption_at :: "string option list \<Rightarrow> nat \<Rightarrow> bool option" where
  "nonoption_at v i = do { x \<leftarrow> mem_read v i; Some (case x of None \<Rightarrow> False | Some s \<Rightarrow> nonoption s) }"

text \<open>The loop that skips non-options; \<open>n\<close> is \<open>argc - optind\<close>.\<close>

fun skip_nonoptions :: "string option list \<Rightarrow> nat \<Rightarrow> nat \<Rightarrow> nat option" where
  "skip_nonoptions v i 0 = Some i"
| "skip_nonoptions v i (Suc n) =
     do { b \<leftarrow> nonoption_at v i; if b then skip_nonoptions v (i + 1) n else Some i }"

definition clamp_nonopts :: "getopt_data \<Rightarrow> getopt_data" where
  "clamp_nonopts d =
     (let d = (if optind d < last_nonopt d then d\<lparr>last_nonopt := optind d\<rparr> else d)
      in if optind d < first_nonopt d then d\<lparr>first_nonopt := optind d\<rparr> else d)"

definition permute :: "nat \<Rightarrow> string option list \<Rightarrow> getopt_data \<Rightarrow> (string option list \<times> getopt_data) option" where
  "permute argc v d =
     do { (v, d) \<leftarrow>
            (if first_nonopt d \<noteq> last_nonopt d \<and> last_nonopt d \<noteq> optind d then exchange v d
             else if last_nonopt d \<noteq> optind d then Some (v, d\<lparr>first_nonopt := optind d\<rparr>)
             else Some (v, d));
          i \<leftarrow> skip_nonoptions v (optind d) (argc - optind d);
          Some (v, d\<lparr>optind := i, last_nonopt := i\<rparr>) }"

text \<open>The element \<open>--\<close>.\<close>

definition end_of_options :: "nat \<Rightarrow> string option list \<Rightarrow> getopt_data \<Rightarrow> (string option list \<times> getopt_data) option" where
  "end_of_options argc v d =
     (if optind d = argc then Some (v, d)
      else
        do { x \<leftarrow> mem_read v (optind d);
             if x \<noteq> Some ''--'' then Some (v, d)
             else
               do { let d = d\<lparr>optind := optind d + 1\<rparr>;
                    (v, d) \<leftarrow>
                      (if first_nonopt d \<noteq> last_nonopt d \<and> last_nonopt d \<noteq> optind d then exchange v d
                       else if first_nonopt d = last_nonopt d then Some (v, d\<lparr>first_nonopt := optind d\<rparr>)
                       else Some (v, d));
                    Some (v, d\<lparr>last_nonopt := argc, optind := argc\<rparr>) } })"

text \<open>What the part that advances to the next element ends with: a result, or the go-ahead for the next
  short option character, at \<open>nextchar\<close>.\<close>

datatype advanced = Return int getopt_data world | Short getopt_data world

definition start_short :: "getopt_data \<Rightarrow> world \<Rightarrow> advanced option" where
  "start_short d w =
     do { x \<leftarrow> mem_read (argv w) (optind d); s \<leftarrow> x; Some (Short (d\<lparr>nextchar := Some (drop 1 s)\<rparr>) w) }"

definition next_element :: "nat \<Rightarrow> string \<Rightarrow> long_option list option \<Rightarrow> bool \<Rightarrow> bool \<Rightarrow> getopt_data \<Rightarrow> world
    \<Rightarrow> advanced option" where
  "next_element argc optstring longopts long_only print_errors d w =
     do { x \<leftarrow> mem_read (argv w) (optind d);
          (case (x, longopts) of
             (Some s, Some lo) \<Rightarrow>
               if take 1 (drop 1 s) = ''-'' then
                 do { (r, d, w) \<leftarrow> process_long_option argc optstring lo long_only
                        (d\<lparr>nextchar := Some (drop 2 s)\<rparr>) w print_errors ''--'';
                      Some (Return r d w) }
               else if long_only \<and> (2 < length s \<or> (s @ [NUL]) ! 1 \<notin> set (optstring @ [NUL])) then
                 do { (r, d, w) \<leftarrow> process_long_option argc optstring lo long_only
                        (d\<lparr>nextchar := Some (drop 1 s)\<rparr>) w print_errors ''-'';
                      if r \<noteq> -1 then Some (Return r d w) else start_short d w }
               else start_short d w
           | _ \<Rightarrow> start_short d w) }"

definition advance :: "nat \<Rightarrow> string \<Rightarrow> long_option list option \<Rightarrow> bool \<Rightarrow> bool \<Rightarrow> getopt_data \<Rightarrow> world
    \<Rightarrow> advanced option" where
  "advance argc optstring longopts long_only print_errors d w =
     do { let d = clamp_nonopts d;
          (v, d) \<leftarrow> (if ordering d = PERMUTE then permute argc (argv w) d else Some (argv w, d));
          (v, d) \<leftarrow> end_of_options argc v d;
          let w = w\<lparr>argv := v\<rparr>;
          stop \<leftarrow> (if optind d = argc then Some True
                   else if optind d < argc then do { x \<leftarrow> mem_read v (optind d); Some (x = None) }
                   else Some False);
          if stop then
            Some (Return (-1) (if first_nonopt d \<noteq> last_nonopt d then d\<lparr>optind := first_nonopt d\<rparr> else d) w)
          else
            do { b \<leftarrow> nonoption_at v (optind d);
                 if b then
                   if ordering d = REQUIRE_ORDER then Some (Return (-1) d w)
                   else do { x \<leftarrow> mem_read v (optind d);
                             Some (Return 1 (d\<lparr>optarg := x, optind := optind d + 1\<rparr>) w) }
                 else next_element argc optstring longopts long_only print_errors d w } }"

text \<open>\<open>strchr\<close> in the list of short options: the specification from the option's character on. The
  terminator is a character \<open>strchr\<close> finds.\<close>

fun find_short :: "char \<Rightarrow> string \<Rightarrow> string option" where
  "find_short c [] = (if c = NUL then Some [] else None)"
| "find_short c (x # xs) = (if c = x then Some (x # xs) else find_short c xs)"

definition missing_argument :: "string \<Rightarrow> char \<Rightarrow> int" where
  "missing_argument optstring c = (if take 1 optstring = '':'' then COLON else QUESTION)"

text \<open>An option that takes an argument.\<close>

definition short_argument :: "nat \<Rightarrow> string \<Rightarrow> string \<Rightarrow> char \<Rightarrow> string \<Rightarrow> bool \<Rightarrow> getopt_data \<Rightarrow> world
    \<Rightarrow> (int \<times> getopt_data \<times> world) option" where
  "short_argument argc optstring temp c rest print_errors d w =
     (if take 1 (drop 2 temp) = '':'' then
        if rest \<noteq> [] then Some (schar c, d\<lparr>optarg := Some rest, optind := optind d + 1, nextchar := None, optopt := schar c\<rparr>, w)
        else Some (schar c, d\<lparr>optarg := None, nextchar := None, optopt := schar c\<rparr>, w)
      else if rest \<noteq> [] then
        Some (schar c, d\<lparr>optarg := Some rest, optind := optind d + 1, nextchar := None, optopt := schar c\<rparr>, w)
      else if optind d = argc then
        let r = missing_argument optstring c
        in Some (r, d\<lparr>nextchar := None, optopt := r\<rparr>, report print_errors (Requires_argument_short c) w)
      else
        do { x \<leftarrow> mem_read (argv w) (optind d);
             Some (schar c, d\<lparr>optarg := x, optind := optind d + 1, nextchar := None, optopt := schar c\<rparr>, w) })"

text \<open>\<open>-W foo\<close>, when the list of short options holds \<open>W;\<close>.\<close>

definition short_W :: "nat \<Rightarrow> string \<Rightarrow> long_option list \<Rightarrow> char \<Rightarrow> string \<Rightarrow> bool \<Rightarrow> getopt_data \<Rightarrow> world
    \<Rightarrow> (int \<times> getopt_data \<times> world) option" where
  "short_W argc optstring lo c rest print_errors d w =
     (if rest = [] \<and> optind d = argc then
        Some (missing_argument optstring c, d\<lparr>optopt := schar c\<rparr>, report print_errors (Requires_argument_short c) w)
      else
        do { x \<leftarrow> (if rest \<noteq> [] then Some (Some rest) else mem_read (argv w) (optind d));
             process_long_option argc optstring lo False (d\<lparr>nextchar := x, optarg := None\<rparr>) w print_errors ''-W '' })"

definition short_option :: "nat \<Rightarrow> string \<Rightarrow> long_option list option \<Rightarrow> bool \<Rightarrow> getopt_data \<Rightarrow> world
    \<Rightarrow> (int \<times> getopt_data \<times> world) option" where
  "short_option argc optstring longopts print_errors d w =
     do { s \<leftarrow> nextchar d;
          (case s of
             [] \<Rightarrow> None
           | c # rest \<Rightarrow>
               let d = d\<lparr>nextchar := Some rest, optind := (if rest = [] then optind d + 1 else optind d)\<rparr> in
               (case find_short c optstring of
                  None \<Rightarrow> Some (QUESTION, d\<lparr>optopt := schar c\<rparr>, report print_errors (Invalid_option c) w)
                | Some temp \<Rightarrow>
                    if c = CHR '':'' \<or> c = CHR '';'' then
                      Some (QUESTION, d\<lparr>optopt := schar c\<rparr>, report print_errors (Invalid_option c) w)
                    else if take 2 temp = ''W;'' \<and> longopts \<noteq> None then
                      short_W argc optstring (the longopts) c rest print_errors d w
                    else if take 1 (drop 1 temp) = '':'' then
                      short_argument argc optstring temp c rest print_errors d w
                    else Some (schar c, d\<lparr>optopt := schar c\<rparr>, w))) }"

text \<open>\<open>posixly_correct\<close> stands for the argument or the environment variable.\<close>

definition getopt_internal_r :: "nat \<Rightarrow> string \<Rightarrow> long_option list option \<Rightarrow> bool \<Rightarrow> bool \<Rightarrow> getopt_data \<Rightarrow> world
    \<Rightarrow> (int \<times> getopt_data \<times> world) option" where
  "getopt_internal_r argc optstring longopts long_only posixly_correct d w =
     (if argc < 1 then Some (-1, d, w)
      else
        let print_errors = (opterr d \<noteq> 0); d = d\<lparr>optarg := None\<rparr>;
            (optstring, d) =
              (if optind d = 0 \<or> \<not> initialized d then getopt_initialize optstring d posixly_correct
               else (if take 1 optstring = ''-'' \<or> take 1 optstring = ''+'' then tl optstring else optstring, d));
            print_errors = (if take 1 optstring = '':'' then False else print_errors)
        in if nextchar d = None \<or> nextchar d = Some [] then
             do { a \<leftarrow> advance argc optstring longopts long_only print_errors d w;
                  (case a of
                     Return r d w \<Rightarrow> Some (r, d, w)
                   | Short d w \<Rightarrow> short_option argc optstring longopts print_errors d w) }
           else short_option argc optstring longopts print_errors d w)"

text \<open>The globals that \<open>getopt\<close> communicates through, beside the static copy of the data.\<close>

record getopt_globals =
  g_optind :: nat
  g_opterr :: int
  g_optopt :: int
  g_optarg :: "string option"
  data :: getopt_data

definition getopt_internal :: "nat \<Rightarrow> string \<Rightarrow> long_option list option \<Rightarrow> bool \<Rightarrow> bool \<Rightarrow> getopt_globals \<Rightarrow> world
    \<Rightarrow> (int \<times> getopt_globals \<times> world) option" where
  "getopt_internal argc optstring longopts long_only posixly_correct g w =
     do { let d = (data g)\<lparr>optind := g_optind g, opterr := g_opterr g\<rparr>;
          (r, d, w) \<leftarrow> getopt_internal_r argc optstring longopts long_only posixly_correct d w;
          Some (r, g\<lparr>g_optind := optind d, g_optarg := optarg d, g_optopt := optopt d, data := d\<rparr>, w) }"

text \<open>The entry points. \<open>env\<close>: whether \<open>POSIXLY_CORRECT\<close> is in the environment.\<close>

definition compat_getopt where
  "compat_getopt argc optstring env g w = getopt_internal argc optstring None False env g w"

definition posix_getopt where
  "posix_getopt argc optstring env g w = getopt_internal argc optstring None False True g w"

definition compat_getopt_long where
  "compat_getopt_long argc options long_options env g w = getopt_internal argc options long_options False env g w"

definition compat_getopt_long_only where
  "compat_getopt_long_only argc options long_options env g w = getopt_internal argc options long_options True env g w"

definition getopt_long_r where
  "getopt_long_r argc options long_options env d w = getopt_internal_r argc options long_options False env d w"

definition getopt_long_only_r where
  "getopt_long_only_r argc options long_options env d w = getopt_internal_r argc options long_options True env d w"

section \<open>The argument vector\<close>

subsection \<open>Exchanging two blocks\<close>

lemma swap_run_ok:
  "length A = n \<Longrightarrow> length B = n \<Longrightarrow> xs = P @ A @ M @ B @ S \<Longrightarrow> i = length P \<Longrightarrow> j = length P + n + length M
    \<Longrightarrow> swap_run xs i j n = Some (P @ B @ M @ A @ S)"
proof (induction n arbitrary: A B P M xs i j)
  case (Suc n)
  obtain a A' where A: "A = a # A'" using Suc.prems(1) by (cases A) auto
  obtain b B' where B: "B = b # B'" using Suc.prems(2) by (cases B) auto
  let ?ys = "(P @ [b]) @ A' @ (M @ [a]) @ B' @ S"
  have "swap_run ?ys (Suc i) (Suc j) n = Some ((P @ [b]) @ B' @ (M @ [a]) @ A' @ S)"
    by (rule Suc.IH) (use Suc.prems A B in simp_all)
  moreover have "mem_read xs i = Some a"
    by (rule mem_read_at [of xs P a "A' @ M @ B @ S"]) (use Suc.prems A in simp_all)
  moreover have "mem_read xs j = Some b"
    by (rule mem_read_at [of xs "P @ A @ M" b "B' @ S"]) (use Suc.prems B in simp_all)
  moreover have "mem_write xs i [b] = Some (P @ b # A' @ M @ B @ S)"
    using Suc.prems A by (simp add: mem_write_def)
  moreover have "mem_write (P @ b # A' @ M @ B @ S) j [a] = Some ?ys"
    using Suc.prems A B by (simp add: mem_write_def)
  ultimately show ?case using A B by simp
qed simp

lemma exchange_loop_ok:
  "xs = P @ N @ Q @ S \<Longrightarrow> lower = length P \<Longrightarrow> middle = length (P @ N) \<Longrightarrow> upper = length (P @ N @ Q)
    \<Longrightarrow> exchange_loop xs lower middle upper = Some (P @ Q @ N @ S)"
proof (induction "length N + length Q" arbitrary: P N Q S xs lower middle upper rule: less_induct)
  case less
  note at = less.prems
  consider (none) "N = [] \<or> Q = []" | (short) "N \<noteq> []" "length N < length Q" | (long) "Q \<noteq> []" "length Q \<le> length N"
    by (metis length_0_conv less_eq_nat.simps(1) not_less)
  then show ?case
  proof cases
    case none
    with at show ?thesis by (subst exchange_loop.simps) auto
  next
    case short
    define Q1 where "Q1 = take (length Q - length N) Q"
    define Q2 where "Q2 = drop (length Q - length N) Q"
    have Q: "Q = Q1 @ Q2" "length Q2 = length N" using short by (simp_all add: Q1_def Q2_def)
    have "swap_run xs lower (upper - (middle - lower)) (middle - lower) = Some (P @ Q2 @ Q1 @ N @ S)"
      by (rule swap_run_ok [where A = N and B = Q2]) (use at Q in simp_all)
    moreover have "exchange_loop (P @ Q2 @ Q1 @ N @ S) lower middle (upper - (middle - lower)) = Some (P @ Q1 @ Q2 @ N @ S)"
      by (rule less.hyps [of Q2 Q1]) (use at Q short in simp_all)
    ultimately show ?thesis
      unfolding exchange_loop.simps [of xs] using short Q at by (simp add: add_ac)
  next
    case long
    define N1 where "N1 = take (length Q) N"
    define N2 where "N2 = drop (length Q) N"
    have N: "N = N1 @ N2" "length N1 = length Q" using long by (simp_all add: N1_def N2_def)
    have "swap_run xs lower middle (upper - middle) = Some (P @ Q @ N2 @ N1 @ S)"
      by (rule swap_run_ok [where A = N1 and B = Q]) (use at N in simp_all)
    moreover have "exchange_loop (P @ Q @ N2 @ N1 @ S) (lower + (upper - middle)) middle upper = Some ((P @ Q) @ N1 @ N2 @ S)"
      by (rule less.hyps [of N2 N1]) (use at N long in simp_all)
    ultimately show ?thesis
      unfolding exchange_loop.simps [of xs] using long N at by (auto simp: add_ac)
  qed
qed

text \<open>The vector cut at the indices: elements done with, skipped non-options, options and their arguments
  since, elements to come, and what lies behind \<open>argc\<close>.\<close>

definition cut_at :: "nat \<Rightarrow> getopt_data \<Rightarrow> string option list \<Rightarrow> string option list \<Rightarrow> string option list
    \<Rightarrow> string option list \<Rightarrow> string option list \<Rightarrow> string option list \<Rightarrow> bool" where
  "cut_at argc d v P N Q R T \<longleftrightarrow> v = P @ N @ Q @ R @ T \<and> first_nonopt d = length P \<and> last_nonopt d = length (P @ N)
     \<and> optind d = length (P @ N @ Q) \<and> argc = length (P @ N @ Q @ R)"

lemma exchange_ok:
  "cut_at argc d v P N Q R T \<Longrightarrow> exchange v d =
     Some (P @ Q @ N @ R @ T, d\<lparr>first_nonopt := length (P @ Q), last_nonopt := length (P @ Q @ N)\<rparr>)"
  using exchange_loop_ok [of v P N Q "R @ T" "first_nonopt d" "last_nonopt d" "optind d"]
  by (simp add: exchange_def cut_at_def add.commute add.left_commute)

fun is_nonoption :: "string option \<Rightarrow> bool" where
  "is_nonoption None = False"
| "is_nonoption (Some s) = nonoption s"

lemma skip_ok:
  "v = A @ R @ T \<Longrightarrow> i = length A \<Longrightarrow> n = length R \<Longrightarrow>
     skip_nonoptions v i n = Some (i + length (takeWhile is_nonoption R))"
proof (induction R arbitrary: A i n)
  case (Cons x R)
  have "mem_read v i = Some x" by (rule mem_read_at [of v A x "R @ T"]) (use Cons.prems in simp_all)
  moreover have "skip_nonoptions v (i + 1) (length R) = Some (i + 1 + length (takeWhile is_nonoption R))"
    by (rule Cons.IH [of "A @ [x]"]) (use Cons.prems in simp_all)
  ultimately show ?case using Cons.prems(3)
    by (cases x) (simp_all add: nonoption_at_def)
qed simp

text \<open>Permuting: the options since the last non-options move in front of them, and the non-options that follow
  join them.\<close>

lemma permute_ok:
  assumes "cut_at argc d v P N Q R T"
  defines "R1 \<equiv> takeWhile is_nonoption R" and "R2 \<equiv> dropWhile is_nonoption R"
  shows "\<exists>d'. permute argc v d = Some (P @ Q @ N @ R @ T, d') \<and> cut_at argc d' (P @ Q @ N @ R @ T) (P @ Q) (N @ R1) [] R2 T
    \<and> ordering d' = ordering d \<and> nextchar d' = nextchar d \<and> initialized d' = initialized d \<and> opterr d' = opterr d
    \<and> optarg d' = optarg d"
proof -
  have R: "R = R1 @ R2" by (simp add: R1_def R2_def)
  have skip: "skip_nonoptions (P @ Q @ N @ R @ T) (optind d) (argc - optind d) = Some (optind d + length R1)"
    unfolding R1_def by (rule skip_ok [of _ "P @ Q @ N" _ T]) (use assms(1) in \<open>simp_all add: cut_at_def\<close>)
  let ?d = "d\<lparr>first_nonopt := length (P @ Q), optind := optind d + length R1, last_nonopt := optind d + length R1\<rparr>"
  have c: "cut_at argc ?d (P @ Q @ N @ R @ T) (P @ Q) (N @ R1) [] R2 T"
    using assms(1) R by (simp add: cut_at_def)
  have "\<exists>d'. permute argc v d = Some (P @ Q @ N @ R @ T, d') \<and> d' = ?d"
  proof (cases "N = [] \<or> Q = []")
    case True
    then have v: "v = P @ Q @ N @ R @ T" using assms(1) by (auto simp: cut_at_def)
    show ?thesis using True skip assms(1) v by (auto simp: permute_def cut_at_def)
  next
    case False
    then show ?thesis using exchange_ok [OF assms(1)] skip assms(1) by (simp add: permute_def cut_at_def)
  qed
  with c show ?thesis by simp
qed

lemma end_of_options_ok:
  assumes "cut_at argc d v P N Q R T"
  shows "\<exists>v' d'. end_of_options argc v d = Some (v', d') \<and>
    (if R \<noteq> [] \<and> hd R = Some ''--''
     then v' = P @ Q @ [Some ''--''] @ N @ tl R @ T
       \<and> d' = d\<lparr>optind := argc, first_nonopt := length (P @ Q) + 1, last_nonopt := argc\<rparr>
     else v' = v \<and> d' = d)"
proof (cases R)
  case Nil
  with assms show ?thesis by (simp add: end_of_options_def cut_at_def)
next
  case (Cons x R')
  have ne: "optind d \<noteq> argc" using assms Cons by (simp add: cut_at_def)
  have rd: "mem_read v (optind d) = Some x"
    by (rule mem_read_at [of v "P @ N @ Q" x "R' @ T"]) (use assms Cons in \<open>simp_all add: cut_at_def\<close>)
  show ?thesis
  proof (cases "x = Some ''--''")
    case False
    with Cons ne rd show ?thesis by (simp add: end_of_options_def)
  next
    case True
    let ?d = "d\<lparr>optind := optind d + 1\<rparr>"
    have c: "cut_at argc ?d v P N (Q @ [x]) R' T" using assms Cons by (simp add: cut_at_def)
    show ?thesis
    proof (cases "N = []")
      case n: True
      then show ?thesis using Cons True ne rd assms by (simp add: end_of_options_def cut_at_def)
    next
      case n: False
      have "exchange v ?d = Some (P @ (Q @ [x]) @ N @ R' @ T,
          ?d\<lparr>first_nonopt := length (P @ Q @ [x]), last_nonopt := length (P @ (Q @ [x]) @ N)\<rparr>)"
        using exchange_ok [OF c] by simp
      then show ?thesis using Cons True n ne rd assms by (simp add: end_of_options_def cut_at_def)
    qed
  qed
qed


section \<open>One call\<close>

definition pending :: "getopt_data \<Rightarrow> bool" where
  "pending d \<longleftrightarrow> nextchar d \<noteq> None \<and> nextchar d \<noteq> Some []"

text \<open>An element, or an option in it with its argument, has been consumed.\<close>

definition consumed :: "nat \<Rightarrow> getopt_data \<Rightarrow> world \<Rightarrow> getopt_data \<Rightarrow> world \<Rightarrow> bool" where
  "consumed argc d w d' w' \<longleftrightarrow> argv w' = argv w \<and> optind d < optind d' \<and> optind d' \<le> argc \<and> \<not> pending d'
     \<and> first_nonopt d' = first_nonopt d \<and> last_nonopt d' = last_nonopt d \<and> ordering d' = ordering d
     \<and> initialized d' = initialized d"

lemma argv_report [simp]: "argv (report b m w) = argv w"
  by (simp add: report_def)

lemma consume_long_option_ok:
  assumes "optind d < argc" and "argc \<le> length (argv w)" and "val p \<noteq> -1"
  shows "\<exists>r d' w'. consume_long_option argc optstring p i nameend d w pe pfx = Some (r, d', w')
    \<and> r \<noteq> -1 \<and> consumed argc d w d' w'"
proof -
  consider (no_arg) "nameend \<noteq> []" "has_arg p = 0" | (given) "nameend \<noteq> []" "has_arg p \<noteq> 0"
    | (missing) "nameend = []" "has_arg p = 1" "\<not> Suc (optind d) < argc"
    | (following) "nameend = []" "has_arg p = 1" "Suc (optind d) < argc" | (plain) "nameend = []" "has_arg p \<noteq> 1" by blast
  then show ?thesis
  proof cases
    case following
    then have "mem_read (argv w) (Suc (optind d)) = Some (argv w ! Suc (optind d))"
      using assms by (simp add: mem_read_def)
    with following assms show ?thesis
      by (cases "flag p") (auto simp: consume_long_option_def consumed_def pending_def Let_def)
  qed (use assms in \<open>cases "flag p"; auto simp: consume_long_option_def consumed_def pending_def Let_def\<close>)+
qed

definition abbreviations_ok :: "nat \<Rightarrow> long_option set \<Rightarrow> abbreviations \<Rightarrow> bool" where
  "abbreviations_ok n ps a \<longleftrightarrow> (\<forall>p. pfound a = Some p \<longrightarrow> p \<in> ps \<and> 0 \<le> indfound a \<and> indfound a < int n)
     \<and> (\<forall>s. ambig_set a = Some s \<longrightarrow> length s = n)"

lemma note_ambiguous_ok:
  assumes ok: "abbreviations_ok n ps a" and "pfound a \<noteq> None" and i: "i < n"
  shows "\<exists>a' os'. note_ambiguous pe n i a os = Some (a', os') \<and> abbreviations_ok n ps a' \<and> pfound a' = pfound a"
proof -
  have ind: "nat (indfound a) < n" using assms by (auto simp: abbreviations_ok_def)
  have old: "length s = n" if "ambig_set a = Some s" for s using ok that by (simp add: abbreviations_ok_def)
  obtain b os1 where al: "alloc os = (b, os1)" by force
  show ?thesis
    using ok i ind old al
    by (cases "ambig_fallback a"; cases pe; cases "ambig_set a"; cases b)
      (auto simp: note_ambiguous_def mem_write_1 abbreviations_ok_def)
qed

lemma abbrev_loop_ok:
  "abbreviations_ok n S a \<Longrightarrow> i + length ps = n \<Longrightarrow> set ps \<subseteq> S \<Longrightarrow>
     \<exists>a' os'. abbrev_loop lo pe n text len ps i a os = Some (a', os') \<and> abbreviations_ok n S a'"
proof (induction ps arbitrary: i a os)
  case (Cons p ps)
  have IH: "\<exists>a' os'. abbrev_loop lo pe n text len ps (i + 1) b os1 = Some (a', os') \<and> abbreviations_ok n S a'"
    if "abbreviations_ok n S b" for b os1
    by (rule Cons.IH) (use that Cons.prems in simp_all)
  show ?case
  proof (cases "name_matches text len p")
    case False
    with IH [OF Cons.prems(1)] show ?thesis by simp
  next
    case match: True
    show ?thesis
    proof (cases "pfound a")
      case None
      have "abbreviations_ok n S (a\<lparr>pfound := Some p, indfound := int i\<rparr>)"
        using Cons.prems by (simp add: abbreviations_ok_def)
      from IH [OF this, of os] match None show ?thesis by simp
    next
      case (Some q)
      obtain a1 os1 where n: "note_ambiguous pe n i a os = Some (a1, os1)" "abbreviations_ok n S a1"
        using note_ambiguous_ok [OF Cons.prems(1), of i pe os] Some Cons.prems(2) by auto
      from IH [OF n(2), of os1] IH [OF Cons.prems(1), of os] match Some n(1) show ?thesis
        by (cases lo) simp_all
    qed
  qed
qed simp

lemma exact_loop_ok: "exact_loop text len ps n = (r, m) \<Longrightarrow>
    (case r of None \<Rightarrow> m = n + length ps | Some p \<Rightarrow> p \<in> set ps)"
proof (induction ps arbitrary: n)
  case (Cons p ps)
  show ?case
  proof (cases "name_matches text len p \<and> len = length (opt_name p)")
    case True
    with Cons.prems show ?thesis by auto
  next
    case False
    then have "exact_loop text len ps (n + 1) = (r, m)" using Cons.prems by auto
    from Cons.IH [OF this] show ?thesis by (cases r) simp_all
  qed
qed auto

lemma process_long_option_ok:
  assumes nc: "nextchar d = Some text" and i: "optind d < argc" and len: "argc \<le> length (argv w)"
    and vals: "\<And>p. p \<in> set longopts \<Longrightarrow> val p \<noteq> -1"
    and elem: "long_only \<Longrightarrow> \<exists>s. argv w ! optind d = Some s \<and> s \<noteq> []"
  shows "\<exists>r d' w'. process_long_option argc optstring longopts long_only d w pe pfx = Some (r, d', w') \<and>
    (r \<noteq> -1 \<and> consumed argc d w d' w' \<or> r = -1 \<and> long_only \<and> d' = d \<and> argv w' = argv w)"
proof -
  let ?n = "length (takeWhile (\<lambda>c. c \<noteq> CHR ''='') text)"
  obtain r m where e: "exact_loop text ?n longopts 0 = (r, m)" by force
  show ?thesis
  proof (cases r)
    case (Some p)
    then have "p \<in> set longopts" using exact_loop_ok [OF e] by simp
    from consume_long_option_ok [OF i len vals [OF this]] Some e nc show ?thesis
      by (simp add: process_long_option_def Let_def) blast
  next
    case None
    then have m: "m = length longopts" using exact_loop_ok [OF e] by simp
    let ?init = "\<lparr>pfound = None, indfound = -1, ambig_set = None, ambig_fallback = False\<rparr>"
    obtain a os where a: "abbrev_loop long_only pe m text ?n longopts 0 ?init (mallocs w) = Some (a, os)"
        "abbreviations_ok m (set longopts) a"
      using abbrev_loop_ok [of m "set longopts" ?init 0 longopts long_only pe "text" ?n "mallocs w"] m
      by (auto simp: abbreviations_ok_def)
    let ?w = "w\<lparr>mallocs := os\<rparr>"
    note start = None e nc a(1)
    show ?thesis
    proof (cases "ambig_set a \<noteq> None \<or> ambig_fallback a")
      case True
      with start i show ?thesis by (simp add: process_long_option_def Let_def consumed_def pending_def)
    next
      case False
      show ?thesis
      proof (cases "pfound a")
        case (Some p)
        then have "p \<in> set longopts" using a(2) by (simp add: abbreviations_ok_def)
        from consume_long_option_ok [of d argc ?w, OF i _ vals [OF this]] len Some start False show ?thesis
          by (simp add: process_long_option_def Let_def consumed_def) blast
      next
        case nf: None
        have "\<exists>r d' w'. no_long_option optstring long_only text d ?w pe pfx = Some (r, d', w') \<and>
          (r \<noteq> -1 \<and> consumed argc d ?w d' w' \<or> r = -1 \<and> long_only \<and> d' = d \<and> argv w' = argv ?w)"
        proof (cases long_only)
          case t: True
          then obtain s where s: "argv w ! optind d = Some s" "s \<noteq> []" using elem by auto
          have "mem_read (argv w) (optind d) = Some (Some s)" using i len s(1) by (simp add: mem_read_lt)
          moreover have "mem_read (s @ [NUL]) 1 = Some ((s @ [NUL]) ! 1)"
            using s(2) by (cases s) (simp_all add: mem_read_def)
          moreover have "mem_read (text @ [NUL]) 0 = Some ((text @ [NUL]) ! 0)" by (simp add: mem_read_def)
          ultimately show ?thesis using t i by (auto simp: no_long_option_def consumed_def pending_def)
        qed (use i in \<open>simp add: no_long_option_def consumed_def pending_def\<close>)
        with nf start False show ?thesis by (simp add: process_long_option_def Let_def consumed_def)
      qed
    qed
  qed
qed


text \<open>A short option has been taken from \<open>nextchar\<close>, and the element with it when it was the last in it.\<close>

definition moved :: "nat \<Rightarrow> getopt_data \<Rightarrow> world \<Rightarrow> getopt_data \<Rightarrow> world \<Rightarrow> bool" where
  "moved argc d w d' w' \<longleftrightarrow> argv w' = argv w \<and> first_nonopt d' = first_nonopt d \<and> last_nonopt d' = last_nonopt d
     \<and> ordering d' = ordering d \<and> initialized d' = initialized d \<and> optind d' \<le> argc
     \<and> (optind d < optind d' \<and> \<not> pending d' \<or>
        optind d' = optind d \<and> pending d' \<and> length (the (nextchar d')) < length (the (nextchar d)))"

definition vals_ok :: "long_option list option \<Rightarrow> bool" where
  "vals_ok longopts \<longleftrightarrow> (case longopts of None \<Rightarrow> True | Some lo \<Rightarrow> \<forall>p \<in> set lo. val p \<noteq> -1)"

lemma full_at:
  assumes "None \<notin> set (take argc v)" and "argc \<le> length v" and "i < argc"
  shows "\<exists>s. v ! i = Some s"
proof -
  have "v ! i \<in> set (take argc v)" using assms(2,3) by (auto simp: in_set_conv_nth intro: exI [of _ i])
  then have "v ! i \<noteq> None" using assms(1) by metis
  then show ?thesis by simp
qed

lemma missing_argument_neq: "missing_argument optstring c \<noteq> -1"
  by (simp add: missing_argument_def)

lemma short_argument_ok:
  assumes "optind d \<le> argc" and "rest \<noteq> [] \<Longrightarrow> optind d < argc" and "argc \<le> length (argv w)"
  shows "\<exists>r d' w'. short_argument argc optstring temp c rest pe d w = Some (r, d', w') \<and> (r = schar c \<or> r \<noteq> -1) \<and> argv w' = argv w
    \<and> optind d \<le> optind d' \<and> (rest \<noteq> [] \<longrightarrow> optind d < optind d') \<and> optind d' \<le> argc \<and> \<not> pending d'
    \<and> first_nonopt d' = first_nonopt d \<and> last_nonopt d' = last_nonopt d \<and> ordering d' = ordering d
    \<and> initialized d' = initialized d"
proof -
  have "optind d \<noteq> argc \<Longrightarrow> mem_read (argv w) (optind d) = Some (argv w ! optind d)"
    using assms by (simp add: mem_read_def)
  with assms show ?thesis
    by (cases "take 1 (drop 2 temp) = '':''"; cases "rest = []"; cases "optind d = argc")
      (auto simp: short_argument_def pending_def missing_argument_neq Let_def)
qed

lemma schar_minus_1: "schar c = -1 \<longleftrightarrow> c = CHR 0xFF"
proof -
  have "schar (CHR 0xFF) = -1" by (simp add: schar_def uchar_def)
  then show ?thesis using schar_eq_iff [of c "CHR 0xFF"] by simp
qed

lemma find_short_in: "find_short c xs = Some temp \<Longrightarrow> c \<in> set xs \<or> c = NUL"
  by (induction xs) (auto split: if_splits)

lemma short_option_ok:
  assumes nc: "nextchar d = Some (c # rest)" and i: "optind d < argc" and len: "argc \<le> length (argv w)"
    and full: "None \<notin> set (take argc (argv w))" and vals: "vals_ok longopts" and ff: "CHR 0xFF \<notin> set optstring"
  shows "\<exists>r d' w'. short_option argc optstring longopts pe d w = Some (r, d', w') \<and> r \<noteq> -1 \<and> moved argc d w d' w'"
proof -
  let ?d = "d\<lparr>nextchar := Some rest, optind := (if rest = [] then optind d + 1 else optind d)\<rparr>"
  have le: "optind ?d \<le> argc" "rest \<noteq> [] \<Longrightarrow> optind ?d < argc" using i by simp_all
  have plain: "moved argc d w (?d\<lparr>optopt := x\<rparr>) (if b then w else report e m w)" for x b e m
    using nc le by (simp add: moved_def pending_def)
  have plain': "moved argc d w (?d\<lparr>optopt := x\<rparr>) w" "moved argc d w (?d\<lparr>optopt := x\<rparr>) (report e m w)" for x e m
    using plain [where b = True] plain [where b = False] by simp_all
  have r: "schar c \<noteq> -1" if "find_short c optstring = Some temp" for temp
    using find_short_in [OF that] ff by (auto simp: schar_minus_1)
  show ?thesis
  proof (cases "find_short c optstring")
    case None
    with nc plain' show ?thesis by (simp add: short_option_def Let_def)
  next
    case (Some temp)
    consider (invalid) "c = CHR '':'' \<or> c = CHR '';''"
      | (W) lo where "\<not> (c = CHR '':'' \<or> c = CHR '';'')" "take 2 temp = ''W;''" "longopts = Some lo"
      | (arg) "\<not> (c = CHR '':'' \<or> c = CHR '';'')" "\<not> (take 2 temp = ''W;'' \<and> longopts \<noteq> None)" "take 1 (drop 1 temp) = '':''"
      | (flag) "\<not> (c = CHR '':'' \<or> c = CHR '';'')" "\<not> (take 2 temp = ''W;'' \<and> longopts \<noteq> None)" "take 1 (drop 1 temp) \<noteq> '':''"
      by blast
    then show ?thesis
    proof cases
      case invalid
      with Some nc plain' show ?thesis by (auto simp: short_option_def Let_def)
    next
      case flag
      with Some nc plain' r [OF Some] show ?thesis by (auto simp: short_option_def Let_def)
    next
      case arg
      from short_argument_ok [where optstring = optstring and temp = temp and c = c and pe = pe, OF le len] obtain r d' w' where
        "short_argument argc optstring temp c rest pe ?d w = Some (r, d', w')" "r = schar c \<or> r \<noteq> -1" "argv w' = argv w" "optind ?d \<le> optind d'"
        "rest \<noteq> [] \<longrightarrow> optind ?d < optind d'" "optind d' \<le> argc" "\<not> pending d'" "first_nonopt d' = first_nonopt ?d"
        "last_nonopt d' = last_nonopt ?d" "ordering d' = ordering ?d" "initialized d' = initialized ?d" by blast
      with arg Some nc r [OF Some] show ?thesis by (cases "rest = []") (auto simp: short_option_def moved_def Let_def)
    next
      case W
      have "\<exists>r d' w'. short_W argc optstring lo c rest pe ?d w = Some (r, d', w') \<and> r \<noteq> -1 \<and> moved argc d w d' w'"
      proof (cases "rest = [] \<and> optind ?d = argc")
        case True
        have "short_W argc optstring lo c rest pe ?d w = Some (missing_argument optstring c,
            ?d\<lparr>optopt := schar c\<rparr>, report pe (Requires_argument_short c) w)"
          unfolding short_W_def if_P [OF True] ..
        then show ?thesis using plain'(2) [of "schar c" pe "Requires_argument_short c"] missing_argument_neq by blast
      next
        case False
        then have lt: "optind ?d < argc" using le by auto
        have rd: "mem_read (argv w) (optind ?d) = Some (argv w ! optind ?d)" using lt len by (simp add: mem_read_lt)
        obtain s where s: "argv w ! optind ?d = Some s" using full_at [OF full len lt] by blast
        let ?x = "if rest \<noteq> [] then rest else s"
        have "\<exists>r d' w'. process_long_option argc optstring lo False (?d\<lparr>nextchar := Some ?x, optarg := None\<rparr>) w pe ''-W ''
            = Some (r, d', w') \<and> (r \<noteq> -1 \<and> consumed argc (?d\<lparr>nextchar := Some ?x, optarg := None\<rparr>) w d' w' \<or>
              r = -1 \<and> False \<and> d' = ?d\<lparr>nextchar := Some ?x, optarg := None\<rparr> \<and> argv w' = argv w)"
          by (rule process_long_option_ok) (use lt len vals W(3) in \<open>auto simp: vals_ok_def\<close>)
        then obtain r d' w' where
          "process_long_option argc optstring lo False (?d\<lparr>nextchar := Some ?x, optarg := None\<rparr>) w pe ''-W '' = Some (r, d', w')" "r \<noteq> -1"
          "consumed argc (?d\<lparr>nextchar := Some ?x, optarg := None\<rparr>) w d' w'" by blast
        then show ?thesis using False rd s
          by (cases "rest = []") (auto simp: short_W_def consumed_def moved_def)
      qed
      then show ?thesis using W Some nc by (simp add: short_option_def Let_def)
    qed
  qed
qed


subsection \<open>The state between calls\<close>

definition fresh :: "getopt_data \<Rightarrow> bool" where
  "fresh d \<longleftrightarrow> \<not> initialized d \<or> optind d = 0"

definition vector_ok :: "nat \<Rightarrow> world \<Rightarrow> bool" where
  "vector_ok argc w \<longleftrightarrow> argc \<le> length (argv w) \<and> None \<notin> set (take argc (argv w))"

text \<open>Until the first call nothing is asked of the indices. Afterwards the caller may move \<open>optind\<close> back between
  elements; the skipped block counts only up to there.\<close>

definition scan_ok :: "nat \<Rightarrow> getopt_data \<Rightarrow> world \<Rightarrow> bool" where
  "scan_ok argc d w \<longleftrightarrow> vector_ok argc w \<and> optind d \<le> argc \<and>
     (\<not> fresh d \<longrightarrow> 0 < first_nonopt d \<and> first_nonopt d \<le> last_nonopt d \<and> (pending d \<longrightarrow> optind d < argc \<and> last_nonopt d \<le> optind d) \<and>
        (\<forall>x \<in> set (drop (first_nonopt d) (take (min (last_nonopt d) (optind d)) (argv w))). is_nonoption x))"

text \<open>The vector has been permuted within its first \<open>argc\<close> elements.\<close>

definition permuted :: "nat \<Rightarrow> string option list \<Rightarrow> string option list \<Rightarrow> bool" where
  "permuted argc v v' \<longleftrightarrow> mset (take argc v') = mset (take argc v) \<and> drop argc v' = drop argc v \<and> length v' = length v"

lemma permuted_refl [simp]: "permuted argc v v"
  by (simp add: permuted_def)

lemma permuted_trans: "permuted argc a b \<Longrightarrow> permuted argc b c \<Longrightarrow> permuted argc a c"
  by (simp add: permuted_def)

lemma permuted_set: "permuted argc v v' \<Longrightarrow> set (take argc v') = set (take argc v)"
  by (metis permuted_def set_mset_mset)

lemma permuted_vector_ok: "permuted argc (argv w) (argv w') \<Longrightarrow> vector_ok argc w \<Longrightarrow> vector_ok argc w'"
  using permuted_set [of argc "argv w" "argv w'"] by (simp add: vector_ok_def permuted_def)

lemma cut_exists:
  assumes "first_nonopt d \<le> last_nonopt d" and "last_nonopt d \<le> optind d" and "optind d \<le> argc" and "argc \<le> length v"
  shows "cut_at argc d v (take (first_nonopt d) v) (drop (first_nonopt d) (take (last_nonopt d) v))
    (drop (last_nonopt d) (take (optind d) v)) (drop (optind d) (take argc v)) (drop argc v)"
proof -
  have split: "take b v = take a v @ drop a (take b v)" if "a \<le> b" for a b
    using that by (metis append_take_drop_id min.absorb1 take_take)
  have "v = take argc v @ drop argc v" by simp
  also have "take argc v = take (optind d) v @ drop (optind d) (take argc v)" by (rule split [OF assms(3)])
  also have "take (optind d) v = take (last_nonopt d) v @ drop (last_nonopt d) (take (optind d) v)"
    by (rule split [OF assms(2)])
  also have "take (last_nonopt d) v = take (first_nonopt d) v @ drop (first_nonopt d) (take (last_nonopt d) v)"
    by (rule split [OF assms(1)])
  finally have "v = take (first_nonopt d) v @ drop (first_nonopt d) (take (last_nonopt d) v) @
      drop (last_nonopt d) (take (optind d) v) @ drop (optind d) (take argc v) @ drop argc v"
    by (simp only: append_assoc)
  then show ?thesis using assms unfolding cut_at_def by simp
qed

lemma clamp_simps [simp]:
  "optind (clamp_nonopts d) = optind d" "nextchar (clamp_nonopts d) = nextchar d" "ordering (clamp_nonopts d) = ordering d"
  "initialized (clamp_nonopts d) = initialized d"
  "last_nonopt (clamp_nonopts d) = min (last_nonopt d) (optind d)"
  "first_nonopt (clamp_nonopts d) = min (first_nonopt d) (optind d)"
  by (auto simp: clamp_nonopts_def Let_def)

lemma scan_cut:
  assumes "scan_ok argc d w" and "\<not> fresh d"
  obtains P N Q R T where "cut_at argc (clamp_nonopts d) (argv w) P N Q R T" and "\<forall>x \<in> set N. is_nonoption x"
    and "P \<noteq> []"
proof -
  let ?d = "clamp_nonopts d"
  have le: "first_nonopt ?d \<le> last_nonopt ?d" "last_nonopt ?d \<le> optind ?d" "optind ?d \<le> argc" "argc \<le> length (argv w)"
    using assms by (auto simp: scan_ok_def vector_ok_def)
  have "\<forall>x \<in> set (drop (first_nonopt ?d) (take (last_nonopt ?d) (argv w))). is_nonoption x"
  proof (cases "first_nonopt d \<le> optind d")
    case True
    with assms show ?thesis by (simp add: scan_ok_def)
  next
    case False
    then have "first_nonopt ?d = optind d" "last_nonopt ?d \<le> optind d" by simp_all
    then show ?thesis by simp
  qed
  moreover have "0 < min (first_nonopt d) (optind d)" using assms by (simp add: scan_ok_def fresh_def)
  then have "length (take (first_nonopt ?d) (argv w)) > 0" using le by simp
  ultimately show thesis using cut_exists [OF le] that by blast
qed

lemma cut_permuted:
  assumes "cut_at argc d v P N Q R T" and "cut_at argc d' v' P' N' Q' R' T"
    and "mset (P @ N @ Q @ R) = mset (P' @ N' @ Q' @ R')"
  shows "permuted argc v v'"
proof -
  have "take argc v = P @ N @ Q @ R" "take argc v' = P' @ N' @ Q' @ R'" "drop argc v = T" "drop argc v' = T"
    "length v = argc + length T" "length v' = argc + length T"
    using assms(1,2) by (auto simp: cut_at_def)
  with assms(3) show ?thesis by (simp add: permuted_def)
qed

lemma cut_scan_ok:
  assumes "cut_at argc d (argv w) P N Q R T" and "vector_ok argc w" and "\<forall>x \<in> set N. is_nonoption x" and "P \<noteq> []"
    and "first_nonopt d' = first_nonopt d" and "last_nonopt d' = last_nonopt d" and "optind d \<le> optind d'"
    and "optind d' \<le> argc" and "pending d' \<Longrightarrow> optind d' < argc"
  shows "scan_ok argc d' w"
proof -
  have "min (last_nonopt d') (optind d') = last_nonopt d" using assms(1,6,7) by (simp add: cut_at_def)
  moreover have "drop (first_nonopt d) (take (last_nonopt d) (argv w)) = N" using assms(1) by (simp add: cut_at_def)
  moreover have "first_nonopt d \<le> last_nonopt d" using assms(1) by (simp add: cut_at_def)
  moreover have "0 < first_nonopt d'" using assms(1,4,5) by (simp add: cut_at_def)
  moreover have "last_nonopt d' \<le> optind d'" using assms(1,6,7) by (simp add: cut_at_def)
  ultimately show ?thesis using assms by (simp add: scan_ok_def)
qed


text \<open>An element that starts with two dashes is never taken for short options.\<close>

lemma consume_neq: "val p \<noteq> -1 \<Longrightarrow>
    consume_long_option argc optstring p i nameend d w pe pfx = Some (r, d', w') \<Longrightarrow> r \<noteq> -1"
  by (auto simp: consume_long_option_def Let_def split: if_splits option.splits Option.bind_splits)

lemma process_long_dashes:
  assumes "process_long_option argc optstring lo long_only d w pe pfx = Some (r, d', w')"
    and "mem_read (argv w) (optind d) = Some (Some (x # DASH # u))" and "\<And>p. p \<in> set lo \<Longrightarrow> val p \<noteq> -1"
  shows "r \<noteq> -1"
proof -
  obtain t where t: "nextchar d = Some t" using assms(1) by (auto simp: process_long_option_def split: Option.bind_splits)
  let ?n = "length (takeWhile (\<lambda>c. c \<noteq> CHR ''='') t)"
  obtain q m where e: "exact_loop t ?n lo 0 = (q, m)" by force
  show ?thesis
  proof (cases q)
    case (Some p)
    then have "p \<in> set lo" using exact_loop_ok [OF e] by simp
    moreover have "consume_long_option argc optstring p (int m) (drop ?n t) d w pe pfx = Some (r, d', w')"
      using assms(1) t e Some by (simp add: process_long_option_def Let_def)
    ultimately show ?thesis using consume_neq assms(3) by blast
  next
    case None
    then have m: "m = length lo" using exact_loop_ok [OF e] by simp
    let ?init = "\<lparr>pfound = None, indfound = -1, ambig_set = None, ambig_fallback = False\<rparr>"
    obtain a os where a: "abbrev_loop long_only pe m t ?n lo 0 ?init (mallocs w) = Some (a, os)"
        "abbreviations_ok m (set lo) a"
      using abbrev_loop_ok [of m "set lo" ?init 0 lo long_only pe t ?n "mallocs w"] m
      by (auto simp: abbreviations_ok_def)
    note start = assms(1) None e t a(1)
    show ?thesis
    proof (cases "ambig_set a \<noteq> None \<or> ambig_fallback a")
      case True
      with start show ?thesis by (auto simp: process_long_option_def Let_def)
    next
      case False
      show ?thesis
      proof (cases "pfound a")
        case (Some p)
        then have "p \<in> set lo" using a(2) by (simp add: abbreviations_ok_def)
        moreover have "consume_long_option argc optstring p (indfound a) (drop ?n t) d (w\<lparr>mallocs := os\<rparr>) pe pfx
            = Some (r, d', w')"
          using start False Some by (simp add: process_long_option_def Let_def)
        ultimately show ?thesis using consume_neq assms(3) by blast
      next
        case nf: None
        then have "no_long_option optstring long_only t d (w\<lparr>mallocs := os\<rparr>) pe pfx = Some (r, d', w')"
          using start False by (simp add: process_long_option_def Let_def)
        then show ?thesis using assms(2)
          by (cases long_only) (auto simp: no_long_option_def mem_read_def)
      qed
    qed
  qed
qed

lemma not_nonoption: "\<not> nonoption s \<Longrightarrow> \<exists>c rest. s = DASH # c # rest"
  by (cases s; cases "tl s") (auto simp: nonoption_def split: if_splits)

lemma next_element_ok:
  assumes s: "argv w ! optind d = Some s" "\<not> nonoption s" and i: "optind d < argc" and len: "argc \<le> length (argv w)"
    and vals: "vals_ok longopts"
  shows "\<exists>a. next_element argc optstring longopts long_only pe d w = Some a \<and>
    (case a of Return r d' w' \<Rightarrow> r \<noteq> -1 \<and> consumed argc d w d' w'
     | Short d' w' \<Rightarrow> argv w' = argv w \<and> d' = d\<lparr>nextchar := Some (drop 1 s)\<rparr>)"
proof -
  have rd: "mem_read (argv w) (optind d) = Some (Some s)" using s(1) i len by (simp add: mem_read_lt)
  have short: "start_short d1 w1 = Some (Short (d1\<lparr>nextchar := Some (drop 1 s)\<rparr>) w1)"
    if "argv w1 = argv w" "optind d1 = optind d" for d1 w1 using rd that by (simp add: start_short_def)
  show ?thesis
  proof (cases longopts)
    case None
    with rd short show ?thesis by (simp add: next_element_def)
  next
    case (Some lo)
    have lv: "\<And>p. p \<in> set lo \<Longrightarrow> val p \<noteq> -1" using vals Some by (simp add: vals_ok_def)
    let ?p = "\<lambda>n pre. process_long_option argc optstring lo long_only (d\<lparr>nextchar := Some (drop n s)\<rparr>) w pe pre"
    have long: "\<exists>r d' w'. ?p n pre = Some (r, d', w') \<and> (r \<noteq> -1 \<and> consumed argc (d\<lparr>nextchar := Some (drop n s)\<rparr>) w d' w' \<or>
        r = -1 \<and> long_only \<and> d' = d\<lparr>nextchar := Some (drop n s)\<rparr> \<and> argv w' = argv w)" for n pre
      by (rule process_long_option_ok) (use s i len lv in \<open>auto simp: nonoption_def\<close>)
    show ?thesis
    proof (cases "take 1 (drop 1 s) = ''-''")
      case True
      obtain r d' w' where p: "?p 2 ''--'' = Some (r, d', w')"
        "r \<noteq> -1 \<and> consumed argc (d\<lparr>nextchar := Some (drop 2 s)\<rparr>) w d' w' \<or>
         r = -1 \<and> long_only \<and> d' = d\<lparr>nextchar := Some (drop 2 s)\<rparr> \<and> argv w' = argv w" using long by blast
      show ?thesis
      proof (cases "r = -1")
        case False
        with p True rd Some show ?thesis by (simp add: next_element_def consumed_def)
      next
        case minus: True
        obtain u where u: "s = DASH # DASH # u" using not_nonoption [OF s(2)] True by auto
        have "r \<noteq> -1" by (rule process_long_dashes [OF p(1)]) (use rd u lv in auto)
        with minus show ?thesis by simp
      qed
    next
      case False
      show ?thesis
      proof (cases "long_only \<and> (2 < length s \<or> (s @ [NUL]) ! 1 \<notin> set (optstring @ [NUL]))")
        case True
        obtain r d' w' where p: "?p 1 ''-'' = Some (r, d', w')"
          "r \<noteq> -1 \<and> consumed argc (d\<lparr>nextchar := Some (drop 1 s)\<rparr>) w d' w' \<or>
           r = -1 \<and> long_only \<and> d' = d\<lparr>nextchar := Some (drop 1 s)\<rparr> \<and> argv w' = argv w" using long by blast
        then show ?thesis using True False rd Some short [of w' d']
          by (cases "r = -1") (simp_all add: next_element_def consumed_def)
      next
        case f: False
        have "next_element argc optstring longopts long_only pe d w = start_short d w"
          using rd Some by (simp only: next_element_def bind.bind_lunit prod.case option.case if_not_P [OF False] if_not_P [OF f])
        with short show ?thesis by simp
      qed
    qed
  qed
qed


subsection \<open>Advancing to the next element\<close>

definition same_control :: "getopt_data \<Rightarrow> getopt_data \<Rightarrow> bool" where
  "same_control d d' \<longleftrightarrow> ordering d' = ordering d \<and> nextchar d' = nextchar d \<and> initialized d' = initialized d"

text \<open>The vector before the next element is looked at: permuted when the ordering asks for it.\<close>

lemma arrange_ok:
  assumes ok: "scan_ok argc d w" and nf: "\<not> fresh d"
  obtains v d1 P N Q R T where
    "(do { let d = clamp_nonopts d; if ordering d = PERMUTE then permute argc (argv w) d else Some (argv w, d) }) = Some (v, d1)"
    and "cut_at argc d1 v P N Q R T" and "\<forall>x \<in> set N. is_nonoption x" and "P \<noteq> []" and "permuted argc (argv w) v"
    and "same_control d d1" and "optind d \<le> optind d1"
    and "ordering d = PERMUTE \<longrightarrow> Q = [] \<and> (R \<noteq> [] \<longrightarrow> \<not> is_nonoption (hd R))"
proof -
  obtain P N Q R T where c: "cut_at argc (clamp_nonopts d) (argv w) P N Q R T" "\<forall>x \<in> set N. is_nonoption x" "P \<noteq> []"
    using scan_cut [OF ok nf] .
  show thesis
  proof (cases "ordering d = PERMUTE")
    case False
    with c that [of "argv w" "clamp_nonopts d" P N Q R T] show thesis by (simp add: same_control_def)
  next
    case True
    let ?R1 = "takeWhile is_nonoption R" and ?R2 = "dropWhile is_nonoption R" and ?v = "P @ Q @ N @ R @ T"
    obtain d1 where p: "permute argc (argv w) (clamp_nonopts d) = Some (?v, d1)"
        "cut_at argc d1 ?v (P @ Q) (N @ ?R1) [] ?R2 T" "ordering d1 = ordering d" "nextchar d1 = nextchar d"
        "initialized d1 = initialized d"
      using permute_ok [OF c(1)] by auto
    have perm: "permuted argc (argv w) ?v"
    proof (rule cut_permuted [OF c(1) p(2)])
      have "mset R = mset ?R1 + mset ?R2" by (metis mset_append takeWhile_dropWhile_id)
      then show "mset (P @ N @ Q @ R) = mset ((P @ Q) @ (N @ ?R1) @ [] @ ?R2)" by simp
    qed
    have N: "\<forall>x \<in> set (N @ ?R1). is_nonoption x" using c(2) by (auto dest: set_takeWhileD)
    have hd: "?R2 \<noteq> [] \<Longrightarrow> \<not> is_nonoption (hd ?R2)" by (rule hd_dropWhile) simp
    have le: "optind d \<le> optind d1" using c(1) p(2) by (simp add: cut_at_def)
    show thesis
      by (rule that [OF _ p(2) N _ perm _ le]) (use p True hd c(3) in \<open>auto simp: same_control_def\<close>)
  qed
qed

text \<open>The index to report when nothing is left.\<close>

definition back_over :: "getopt_data \<Rightarrow> getopt_data" where
  "back_over d = (if first_nonopt d \<noteq> last_nonopt d then d\<lparr>optind := first_nonopt d\<rparr> else d)"

lemma ordering_back_over [simp]: "ordering (back_over d) = ordering d"
  by (simp add: back_over_def)

lemma back_over_scan_ok:
  "vector_ok argc w \<Longrightarrow> 0 < first_nonopt d \<Longrightarrow> first_nonopt d \<le> last_nonopt d \<Longrightarrow> last_nonopt d \<le> argc \<Longrightarrow> optind d = argc \<Longrightarrow> \<not> pending d
    \<Longrightarrow> scan_ok argc (back_over d) w"
  by (auto simp: back_over_def scan_ok_def pending_def)

text \<open>The step over a \<open>--\<close>, or none: either the scan is over, or an element is to be looked at.\<close>

lemma end_step:
  assumes c: "cut_at argc d v P N Q R T" and P: "P \<noteq> []" and np: "\<not> pending d" and vec: "vector_ok argc (w\<lparr>argv := v\<rparr>)"
  obtains
    (over) v' d' where "end_of_options argc v d = Some (v', d')" and "optind d' = argc" and "permuted argc v v'"
      and "scan_ok argc (back_over d') (w\<lparr>argv := v'\<rparr>)"
      and "same_control d d'" and "0 < optind (back_over d')"
  | (element) x R' where "end_of_options argc v d = Some (v, d)" and "R = x # R'" and "x \<noteq> Some ''--''"
proof -
  obtain v' d' where e: "end_of_options argc v d = Some (v', d')"
    "if R \<noteq> [] \<and> hd R = Some ''--''
     then v' = P @ Q @ [Some ''--''] @ N @ tl R @ T
       \<and> d' = d\<lparr>optind := argc, first_nonopt := length (P @ Q) + 1, last_nonopt := argc\<rparr>
     else v' = v \<and> d' = d" using end_of_options_ok [OF c] by blast
  show thesis
  proof (cases "R \<noteq> [] \<and> hd R = Some ''--''")
    case True
    then obtain R' where R: "R = Some ''--'' # R'" by (cases R) auto
    let ?P = "P @ Q @ [Some ''--'']"
    have v': "v' = ?P @ N @ R' @ T" and d': "d' = d\<lparr>optind := argc, first_nonopt := length ?P, last_nonopt := argc\<rparr>"
      using e(2) R by simp_all
    have argc: "argc = length (?P @ N @ R')" using c R by (simp add: cut_at_def)
    have "cut_at argc (d'\<lparr>optind := length ?P + length N, last_nonopt := length ?P + length N\<rparr>) v' ?P N [] R' T"
      using v' d' argc by (simp add: cut_at_def)
    then have perm: "permuted argc v v'" by (rule cut_permuted [OF c]) (simp add: R)
    have vec': "vector_ok argc (w\<lparr>argv := v'\<rparr>)" using permuted_vector_ok [of argc "w\<lparr>argv := v\<rparr>" "w\<lparr>argv := v'\<rparr>"] perm vec by simp
    have "scan_ok argc (back_over d') (w\<lparr>argv := v'\<rparr>)"
      by (rule back_over_scan_ok) (use vec' d' argc np in \<open>auto simp: pending_def\<close>)
    moreover have "0 < optind (back_over d')" using d' argc by (simp add: back_over_def)
    ultimately show thesis using over e(1) d' perm by (auto simp: same_control_def)
  next
    case False
    show thesis
    proof (cases R)
      case Nil
      then have o: "optind d = argc" and le: "first_nonopt d \<le> last_nonopt d" "last_nonopt d \<le> argc" "0 < first_nonopt d" using c P by (simp_all add: cut_at_def)
      have "scan_ok argc (back_over d) (w\<lparr>argv := v\<rparr>)" by (rule back_over_scan_ok [OF vec le(3,1,2) o np])
      moreover have "0 < optind (back_over d)" using c P by (simp add: back_over_def cut_at_def)
      ultimately show thesis using over [of v d] e False o by (simp add: same_control_def)
    next
      case (Cons x R')
      with element e False show thesis by simp
    qed
  qed
qed


definition bounded :: "nat \<Rightarrow> nat \<Rightarrow> string option list \<Rightarrow> bool" where
  "bounded M argc v \<longleftrightarrow> (\<forall>s. Some s \<in> set (take argc v) \<longrightarrow> length s \<le> M)"

lemma permuted_bounded: "permuted argc v v' \<Longrightarrow> bounded M argc v \<Longrightarrow> bounded M argc v'"
  by (simp add: bounded_def permuted_set)

definition advanced_to :: "nat \<Rightarrow> nat \<Rightarrow> getopt_data \<Rightarrow> world \<Rightarrow> advanced \<Rightarrow> bool" where
  "advanced_to M argc d w a \<longleftrightarrow> (case a of
     Return r d' w' \<Rightarrow> permuted argc (argv w) (argv w') \<and> ordering d' = ordering d \<and> initialized d' = initialized d
       \<and> scan_ok argc d' w' \<and> 0 < optind d' \<and> (r = -1 \<or> optind d < optind d' \<and> \<not> pending d')
   | Short d' w' \<Rightarrow> permuted argc (argv w) (argv w') \<and> ordering d' = ordering d \<and> initialized d' = initialized d
       \<and> optind d \<le> optind d' \<and> optind d' < argc
       \<and> (\<exists>P N Q R T. cut_at argc d' (argv w') P N Q R T \<and> (\<forall>x \<in> set N. is_nonoption x) \<and> P \<noteq> [])
       \<and> (\<exists>c rest. nextchar d' = Some (c # rest) \<and> length (c # rest) \<le> M))"

lemma advance_ok:
  assumes ok: "scan_ok argc d w" and nf: "\<not> fresh d" and np: "\<not> pending d" and vals: "vals_ok longopts"
    and M: "bounded M argc (argv w)"
  shows "\<exists>a. advance argc optstring longopts long_only pe d w = Some a \<and> advanced_to M argc d w a"
proof -
  obtain v d1 P N Q R T where a:
    "(do { let d = clamp_nonopts d; if ordering d = PERMUTE then permute argc (argv w) d else Some (argv w, d) }) = Some (v, d1)"
    and c: "cut_at argc d1 v P N Q R T" and N: "\<forall>x \<in> set N. is_nonoption x" and P: "P \<noteq> []" and perm: "permuted argc (argv w) v"
    and ctl: "same_control d d1" and le: "optind d \<le> optind d1"
    and Q: "ordering d = PERMUTE \<longrightarrow> Q = [] \<and> (R \<noteq> [] \<longrightarrow> \<not> is_nonoption (hd R))"
    using arrange_ok [OF ok nf] .
  note a = a [unfolded Let_def]
  have np1: "\<not> pending d1" using np ctl by (simp add: pending_def same_control_def)
  have vec: "vector_ok argc (w\<lparr>argv := v\<rparr>)"
    using permuted_vector_ok [of argc w "w\<lparr>argv := v\<rparr>"] perm ok by (simp add: scan_ok_def)
  show ?thesis
  proof (rule end_step [OF c P np1 vec])
    fix v' d'
    assume over: "end_of_options argc v d1 = Some (v', d')" "optind d' = argc" "permuted argc v v'"
      "scan_ok argc (back_over d') (w\<lparr>argv := v'\<rparr>)"
      "same_control d1 d'" "0 < optind (back_over d')"
    let ?w = "w\<lparr>argv := v'\<rparr>"
    have adv: "advance argc optstring longopts long_only pe d w = Some (Return (-1) (back_over d') ?w)"
      using a over(1,2) by (simp add: advance_def back_over_def)
    have "permuted argc (argv w) v'" using perm over(3) by (rule permuted_trans)
    then have "advanced_to M argc d w (Return (-1) (back_over d') ?w)"
      using over ctl by (simp add: advanced_to_def same_control_def) (simp add: back_over_def)
    with adv show ?thesis by blast
  next
    fix x R'
    assume element: "end_of_options argc v d1 = Some (v, d1)" "R = x # R'" "x \<noteq> Some ''--''"
    let ?w = "w\<lparr>argv := v\<rparr>"
    have i: "optind d1 < argc" and at: "v ! optind d1 = x"
      using c element(2) by (auto simp: cut_at_def nth_append)
    have len: "argc \<le> length v" using vec by (simp add: vector_ok_def)
    obtain s where s: "x = Some s" using full_at [of argc v "optind d1"] vec i at by (auto simp: vector_ok_def)
    have rd: "mem_read v (optind d1) = Some (Some s)" using i len at s by (simp add: mem_read_lt)
    have b: "nonoption_at v (optind d1) = Some (nonoption s)" using rd by (simp add: nonoption_at_def)
    have start: "advance argc optstring longopts long_only pe d w =
       (if nonoption s then
          if ordering d1 = REQUIRE_ORDER then Some (Return (-1) d1 ?w)
          else Some (Return 1 (d1\<lparr>optarg := Some s, optind := optind d1 + 1\<rparr>) ?w)
        else next_element argc optstring longopts long_only pe d1 ?w)"
      using a element(1) i rd b by (simp add: advance_def)
    have pos: "0 < optind d1" using c P by (simp add: cut_at_def)
    have scan: "scan_ok argc d' w'" if "argv w' = v" "first_nonopt d' = first_nonopt d1" "last_nonopt d' = last_nonopt d1"
      "optind d1 \<le> optind d'" "optind d' \<le> argc" "\<not> pending d'" for d' w'
      by (rule cut_scan_ok [of argc d1 w' P N Q R T]) (use that c N P vec in \<open>simp_all add: vector_ok_def\<close>)
    show ?thesis
    proof (cases "nonoption s")
      case True
      then have "ordering d \<noteq> PERMUTE" using Q element(2) s by auto
      then have np': "ordering d1 \<noteq> PERMUTE" using ctl by (simp add: same_control_def)
      show ?thesis
      proof (cases "ordering d1 = REQUIRE_ORDER")
        case r: True
        have "advanced_to M argc d w (Return (-1) d1 ?w)"
          using perm ctl np' scan [of ?w d1] i np1 pos by (simp add: advanced_to_def same_control_def)
        with start True r show ?thesis by simp
      next
        case r: False
        let ?d = "d1\<lparr>optarg := Some s, optind := optind d1 + 1\<rparr>"
        have "\<not> pending ?d" using np1 by (simp add: pending_def)
        then have "advanced_to M argc d w (Return 1 ?d ?w)"
          using perm ctl scan [of ?w ?d] i le by (simp add: advanced_to_def same_control_def)
        with start True r show ?thesis by simp
      qed
    next
      case False
      obtain a' where n: "next_element argc optstring longopts long_only pe d1 ?w = Some a'"
        "case a' of Return r d' w' \<Rightarrow> r \<noteq> -1 \<and> consumed argc d1 ?w d' w'
         | Short d' w' \<Rightarrow> argv w' = argv ?w \<and> d' = d1\<lparr>nextchar := Some (drop 1 s)\<rparr>"
        using next_element_ok [of ?w d1 s argc longopts optstring long_only pe] at s False i len vals by auto
      have "advanced_to M argc d w a'"
      proof (cases a')
        case (Return r d' w')
        with n(2) have "r \<noteq> -1" "consumed argc d1 ?w d' w'" by simp_all
        then show ?thesis using Return perm ctl scan [of w' d'] le
          by (simp add: advanced_to_def consumed_def same_control_def)
      next
        case (Short d' w')
        with n(2) have d': "argv w' = v" "d' = d1\<lparr>nextchar := Some (drop 1 s)\<rparr>" by simp_all
        obtain ch rest where ch: "s = DASH # ch # rest" using not_nonoption [OF False] by blast
        have "Some s \<in> set (take argc v)" using i len at s by (auto simp: in_set_conv_nth intro: exI [of _ "optind d1"])
        then have "length s \<le> M" using permuted_bounded [OF perm M] by (simp add: bounded_def)
        moreover have "cut_at argc d' v P N Q R T" using c d' by (simp add: cut_at_def)
        then have "\<exists>P N Q R T. cut_at argc d' (argv w') P N Q R T \<and> (\<forall>x \<in> set N. is_nonoption x) \<and> P \<noteq> []"
          unfolding d'(1) using N P by blast
        ultimately show ?thesis using Short d' perm ctl i le ch
          by (simp add: advanced_to_def same_control_def)
      qed
      with start n(1) False show ?thesis by simp
    qed
  qed
qed


subsection \<open>A call, and a scan\<close>

definition room :: "nat \<Rightarrow> getopt_data \<Rightarrow> nat" where
  "room M d = (if \<not> fresh d \<and> pending d then length (the (nextchar d)) else M + 1)"

text \<open>What is left to do, when no argument is longer than \<open>M\<close>.\<close>

definition work :: "nat \<Rightarrow> nat \<Rightarrow> getopt_data \<Rightarrow> nat" where
  "work M argc d = (argc - optind d) * (M + 2) + room M d"

lemma work_element:
  assumes "optind d < optind d'" and "optind d' \<le> argc" and "\<not> pending d'"
  shows "work M argc d' < work M argc d"
proof -
  define j k where "j = argc - optind d" and "k = argc - optind d'"
  have "k + 1 \<le> j" using assms(1,2) by (simp add: j_def k_def)
  then have "(k + 1) * (M + 2) \<le> j * (M + 2)" by (rule mult_le_mono1)
  then have "k * (M + 2) + (M + 2) \<le> j * (M + 2)" by (simp only: add_mult_distrib mult_1)
  moreover have "work M argc d' = k * (M + 2) + (M + 1)" using assms(3) by (simp add: work_def room_def k_def)
  moreover have "j * (M + 2) \<le> work M argc d" by (simp add: work_def j_def)
  ultimately show ?thesis by linarith
qed

lemma work_character:
  assumes "optind d \<le> optind d'" and "pending d'" and "\<not> fresh d'" and "length (the (nextchar d')) < room M d"
  shows "work M argc d' < work M argc d"
proof -
  have "(argc - optind d') * (M + 2) \<le> (argc - optind d) * (M + 2)"
    using assms(1) by (intro mult_le_mono1) simp
  with assms show ?thesis by (simp add: work_def room_def)
qed

text \<open>The mode the first call chooses.\<close>

definition mode :: "string \<Rightarrow> bool \<Rightarrow> ordering" where
  "mode optstring posixly_correct =
     (if take 1 optstring = ''-'' then RETURN_IN_ORDER
      else if take 1 optstring = ''+'' \<or> posixly_correct then REQUIRE_ORDER else PERMUTE)"

definition call_result :: "nat \<Rightarrow> nat \<Rightarrow> ordering \<Rightarrow> getopt_data \<Rightarrow> world \<Rightarrow> int \<times> getopt_data \<times> world \<Rightarrow> bool" where
  "call_result M argc ord d w res \<longleftrightarrow> (case res of (r, d', w') \<Rightarrow>
     permuted argc (argv w) (argv w') \<and> scan_ok argc d' w' \<and> \<not> fresh d' \<and> ordering d' = ord
     \<and> (r = -1 \<or> work M argc d' < work M argc d))"

lemma short_call:
  assumes c: "cut_at argc d (argv w) P N Q R T" "\<forall>x \<in> set N. is_nonoption x" "P \<noteq> []" and vec: "vector_ok argc w"
    and i: "optind d < argc" "initialized d" and nc: "nextchar d = Some (c # rest)" and vals: "vals_ok longopts"
    and ff: "CHR 0xFF \<notin> set optstring"
  shows "\<exists>r d' w'. short_option argc optstring longopts pe d w = Some (r, d', w') \<and> r \<noteq> -1
    \<and> scan_ok argc d' w' \<and> \<not> fresh d' \<and> ordering d' = ordering d \<and> argv w' = argv w
    \<and> (optind d < optind d' \<and> \<not> pending d' \<or>
       optind d' = optind d \<and> pending d' \<and> length (the (nextchar d')) < length (c # rest))"
proof -
  have v: "argc \<le> length (argv w)" "None \<notin> set (take argc (argv w))" using vec by (simp_all add: vector_ok_def)
  obtain r d' w' where r: "short_option argc optstring longopts pe d w = Some (r, d', w')" "r \<noteq> -1"
    and m: "moved argc d w d' w'"
    using short_option_ok [OF nc i(1) v vals ff] by blast
  have eq: "argv w' = argv w" using m by (simp add: moved_def)
  have le: "optind d \<le> optind d'" "optind d' \<le> argc" using m by (auto simp: moved_def)
  have c': "cut_at argc d (argv w') P N Q R T" using c(1) eq by simp
  have vec': "vector_ok argc w'" using vec eq by (simp add: vector_ok_def)
  have "scan_ok argc d' w'"
  proof (rule cut_scan_ok [OF c' vec' c(2,3) _ _ le])
    show "optind d' < argc" if "pending d'" using m that i(1) by (auto simp: moved_def)
  qed (use m in \<open>simp_all add: moved_def\<close>)
  moreover have "\<not> fresh d'"
  proof -
    have "0 < optind d" using c(1,3) by (simp add: cut_at_def)
    with m i(2) le show ?thesis by (auto simp: moved_def fresh_def)
  qed
  ultimately show ?thesis using r m nc by (auto simp: moved_def)
qed

lemma getopt_call:
  assumes ok: "scan_ok argc d w" and nf: "\<not> fresh d" and vals: "vals_ok longopts" and ff: "CHR 0xFF \<notin> set optstring"
    and M: "bounded M argc (argv w)"
  shows "\<exists>res. (if nextchar d = None \<or> nextchar d = Some [] then
        do { a \<leftarrow> advance argc optstring longopts long_only pe d w;
             (case a of Return r d w \<Rightarrow> Some (r, d, w)
              | Short d w \<Rightarrow> short_option argc optstring longopts pe d w) }
      else short_option argc optstring longopts pe d w) = Some res \<and> call_result M argc (ordering d) d w res"
proof (cases "nextchar d = None \<or> nextchar d = Some []")
  case True
  then have np: "\<not> pending d" by (auto simp: pending_def)
  obtain a where a: "advance argc optstring longopts long_only pe d w = Some a" "advanced_to M argc d w a"
    using advance_ok [OF ok nf np vals M] by blast
  show ?thesis
  proof (cases a)
    case (Return r d' w')
    have "\<not> fresh d'" using a(2) Return nf by (simp add: advanced_to_def fresh_def)
    moreover have "r \<noteq> -1 \<Longrightarrow> work M argc d' < work M argc d"
      by (rule work_element) (use a(2) Return in \<open>auto simp: advanced_to_def scan_ok_def\<close>)
    ultimately have "call_result M argc (ordering d) d w (r, d', w')"
      using a(2) Return by (auto simp: call_result_def advanced_to_def)
    with True a(1) Return show ?thesis by auto
  next
    case (Short d' w')
    have s: "permuted argc (argv w) (argv w')" "ordering d' = ordering d" "initialized d' = initialized d"
      "optind d \<le> optind d'" "optind d' < argc"
      "\<exists>P N Q R T. cut_at argc d' (argv w') P N Q R T \<and> (\<forall>x \<in> set N. is_nonoption x) \<and> P \<noteq> []"
      "\<exists>c rest. nextchar d' = Some (c # rest) \<and> length (c # rest) \<le> M"
      using a(2) Short by (auto simp: advanced_to_def)
    obtain P N Q R T where c: "cut_at argc d' (argv w') P N Q R T" "\<forall>x \<in> set N. is_nonoption x" "P \<noteq> []"
      using s(6) by blast
    obtain ch rest where ch: "nextchar d' = Some (ch # rest)" "length (ch # rest) \<le> M" using s(7) by blast
    have vec: "vector_ok argc w'" using permuted_vector_ok [OF s(1)] ok by (simp add: scan_ok_def)
    have init: "initialized d'" using s(3) nf by (simp add: fresh_def)
    obtain r d2 w2 where r: "short_option argc optstring longopts pe d' w' = Some (r, d2, w2)" "r \<noteq> -1"
        "scan_ok argc d2 w2" "\<not> fresh d2" "ordering d2 = ordering d'" "argv w2 = argv w'"
        "optind d' < optind d2 \<and> \<not> pending d2 \<or> optind d2 = optind d' \<and> pending d2 \<and> length (the (nextchar d2)) < length (ch # rest)"
      using short_call [OF c vec s(5) init ch(1) vals ff] by blast
    have "work M argc d2 < work M argc d"
    proof (cases "pending d2")
      case False
      with r(3,7) s(4) show ?thesis by (intro work_element) (auto simp: scan_ok_def)
    next
      case True
      show ?thesis
        by (rule work_character) (use True r(3,4,7) s(4) ch np nf in \<open>auto simp: room_def\<close>)
    qed
    then have "call_result M argc (ordering d) d w (r, d2, w2)"
      using r s(1,2) by (simp add: call_result_def)
    with True a(1) Short r(1) show ?thesis by auto
  qed
next
  case False
  then obtain ch rest where ch: "nextchar d = Some (ch # rest)" by (cases "nextchar d"; cases "the (nextchar d)") auto
  then have p: "pending d" by (simp add: pending_def)
  have o: "vector_ok argc w" "optind d \<le> argc" "0 < first_nonopt d" "first_nonopt d \<le> last_nonopt d" "optind d < argc"
    "last_nonopt d \<le> optind d" "argc \<le> length (argv w)" using ok nf p by (simp_all add: scan_ok_def vector_ok_def)
  have c: "cut_at argc d (argv w) (take (first_nonopt d) (argv w)) (drop (first_nonopt d) (take (last_nonopt d) (argv w)))
      (drop (last_nonopt d) (take (optind d) (argv w))) (drop (optind d) (take argc (argv w))) (drop argc (argv w))"
    using cut_exists o by blast
  have N: "\<forall>x \<in> set (drop (first_nonopt d) (take (last_nonopt d) (argv w))). is_nonoption x"
    using ok nf o(6) by (simp add: scan_ok_def min_absorb1)
  have P: "take (first_nonopt d) (argv w) \<noteq> []" using o by auto
  have init: "initialized d" using nf by (simp add: fresh_def)
  obtain r d2 w2 where r: "short_option argc optstring longopts pe d w = Some (r, d2, w2)" "r \<noteq> -1"
      "scan_ok argc d2 w2" "\<not> fresh d2" "ordering d2 = ordering d" "argv w2 = argv w"
      "optind d < optind d2 \<and> \<not> pending d2 \<or> optind d2 = optind d \<and> pending d2 \<and> length (the (nextchar d2)) < length (ch # rest)"
    using short_call [OF c N P o(1,5) init ch vals ff] by blast
  have "work M argc d2 < work M argc d"
  proof (cases "pending d2")
    case False
    with r(3,7) show ?thesis by (intro work_element) (auto simp: scan_ok_def)
  next
    case True
    show ?thesis by (rule work_character) (use True r(4,7) ch p nf in \<open>auto simp: room_def\<close>)
  qed
  then have "call_result M argc (ordering d) d w (r, d2, w2)"
    using r by (simp add: call_result_def)
  with False r(1) show ?thesis by auto
qed


lemma optarg_irrelevant [simp]: "fresh (d\<lparr>optarg := x\<rparr>) = fresh d" "pending (d\<lparr>optarg := x\<rparr>) = pending d"
  by (simp_all add: fresh_def pending_def)

lemma initialize_ok:
  assumes "vector_ok argc w" and "optind d \<le> argc" and "0 < argc"
  shows "\<exists>optstring' d'. getopt_initialize optstring d px = (optstring', d') \<and> scan_ok argc d' w \<and> \<not> fresh d'
    \<and> ordering d' = mode optstring px \<and> nextchar d' = None \<and> optind d \<le> optind d' \<and> set optstring' \<subseteq> set optstring"
  using assms by (cases optstring)
    (auto simp: getopt_initialize_def scan_ok_def fresh_def pending_def mode_def Let_def)

lemma work_fresh: "fresh d \<Longrightarrow> optind d \<le> optind d' \<Longrightarrow> nextchar d' = None \<Longrightarrow> work M argc d' \<le> work M argc d"
  by (simp add: work_def room_def pending_def add_mono mult_le_mono1 diff_le_mono2)

definition mode_after :: "string \<Rightarrow> bool \<Rightarrow> getopt_data \<Rightarrow> ordering" where
  "mode_after optstring px d = (if fresh d then mode optstring px else ordering d)"

lemma getopt_internal_r_ok:
  assumes ok: "scan_ok argc d w" and argc: "0 < argc" and vals: "vals_ok longopts" and ff: "CHR 0xFF \<notin> set optstring"
    and M: "bounded M argc (argv w)"
  shows "\<exists>res. getopt_internal_r argc optstring longopts long_only px d w = Some res
    \<and> call_result M argc (mode_after optstring px d) d w res"
proof -
  let ?d = "d\<lparr>optarg := None\<rparr>"
  have opt: "scan_ok argc ?d w" "fresh ?d = fresh d" "ordering ?d = ordering d" "work M argc ?d = work M argc d"
    using ok by (simp_all add: scan_ok_def work_def room_def)
  obtain os1 d1 where start: "(if optind ?d = 0 \<or> \<not> initialized ?d then getopt_initialize optstring ?d px
        else (if take 1 optstring = ''-'' \<or> take 1 optstring = ''+'' then tl optstring else optstring, ?d)) = (os1, d1)"
    and s: "scan_ok argc d1 w" "\<not> fresh d1" "ordering d1 = mode_after optstring px d" "work M argc d1 \<le> work M argc d"
      "set os1 \<subseteq> set optstring"
  proof (cases "fresh d")
    case True
    have "vector_ok argc w" "optind ?d \<le> argc" using ok by (simp_all add: scan_ok_def)
    from initialize_ok [OF this argc, of optstring px] obtain os1 d1 where
      "getopt_initialize optstring ?d px = (os1, d1)" "scan_ok argc d1 w" "\<not> fresh d1" "ordering d1 = mode optstring px"
      "nextchar d1 = None" "optind ?d \<le> optind d1" "set os1 \<subseteq> set optstring" by blast
    with True work_fresh [of ?d d1 M argc] opt that [of os1 d1] show thesis
      by (auto simp: mode_after_def fresh_def)
  next
    case False
    have "set (tl optstring) \<subseteq> set optstring" by (cases optstring) auto
    with False opt that show thesis by (auto simp: mode_after_def fresh_def)
  qed
  have ff1: "CHR 0xFF \<notin> set os1" using ff s(5) by blast
  let ?pe = "if take 1 os1 = '':'' then False else opterr d \<noteq> 0"
  obtain res where res: "(if nextchar d1 = None \<or> nextchar d1 = Some [] then
        do { a \<leftarrow> advance argc os1 longopts long_only ?pe d1 w;
             (case a of Return r d w \<Rightarrow> Some (r, d, w)
              | Short d w \<Rightarrow> short_option argc os1 longopts ?pe d w) }
      else short_option argc os1 longopts ?pe d1 w) = Some res"
    "call_result M argc (ordering d1) d1 w res"
    using getopt_call [OF s(1,2) vals ff1 M] by blast
  have "\<not> argc < 1" using argc by simp
  then have "getopt_internal_r argc optstring longopts long_only px d w = Some res"
    unfolding getopt_internal_r_def Let_def start prod.case res(1) by simp
  moreover have "call_result M argc (mode_after optstring px d) d w res"
    using res(2) s(3,4) by (auto simp: call_result_def)
  ultimately show ?thesis by blast
qed

text \<open>A caller that calls until -1 is returned; \<open>fuel\<close> bounds the calls.\<close>

fun getopt_scan :: "nat \<Rightarrow> nat \<Rightarrow> string \<Rightarrow> long_option list option \<Rightarrow> bool \<Rightarrow> bool \<Rightarrow> getopt_data \<Rightarrow> world
    \<Rightarrow> (int list \<times> getopt_data \<times> world) option" where
  "getopt_scan 0 argc optstring longopts long_only px d w = None"
| "getopt_scan (Suc fuel) argc optstring longopts long_only px d w =
     do { (r, d, w) \<leftarrow> getopt_internal_r argc optstring longopts long_only px d w;
          if r = -1 then Some ([], d, w)
          else do { (rs, d, w) \<leftarrow> getopt_scan fuel argc optstring longopts long_only px d w; Some (r # rs, d, w) } }"

lemma getopt_scan_ok:
  assumes argc: "0 < argc" and vals: "vals_ok longopts" and ff: "CHR 0xFF \<notin> set optstring"
  shows "scan_ok argc d w \<Longrightarrow> bounded M argc (argv w) \<Longrightarrow> work M argc d < fuel \<Longrightarrow>
    \<exists>rs d' w'. getopt_scan fuel argc optstring longopts long_only px d w = Some (rs, d', w')
      \<and> permuted argc (argv w) (argv w')"
proof (induction fuel arbitrary: d w)
  case (Suc fuel)
  obtain r d1 w1 where c: "getopt_internal_r argc optstring longopts long_only px d w = Some (r, d1, w1)"
    and res: "permuted argc (argv w) (argv w1)" "scan_ok argc d1 w1" "\<not> fresh d1" "ordering d1 = mode_after optstring px d"
      "r = -1 \<or> work M argc d1 < work M argc d"
    using getopt_internal_r_ok [OF Suc.prems(1) argc vals ff Suc.prems(2), of long_only px]
    by (auto simp: call_result_def)
  show ?case
  proof (cases "r = -1")
    case True
    with c res show ?thesis by simp
  next
    case False
    then have "work M argc d1 < fuel" using res(5) Suc.prems(3) by simp
    from Suc.IH [OF res(2) permuted_bounded [OF res(1) Suc.prems(2)] this] obtain rs d' w' where
      "getopt_scan fuel argc optstring longopts long_only px d1 w1 = Some (rs, d', w')"
      "permuted argc (argv w1) (argv w')" by blast
    with False c res(1,3,4) permuted_trans show ?thesis by (auto simp: mode_after_def)
  qed
qed simp


section \<open>Which long option is meant\<close>

datatype lookup = Match nat | Ambig | Unknown

definition differs :: "bool \<Rightarrow> long_option \<Rightarrow> long_option \<Rightarrow> bool" where
  "differs long_only q p \<longleftrightarrow> long_only \<or> has_arg q \<noteq> has_arg p \<or> flag q \<noteq> flag p \<or> val q \<noteq> val p"

text \<open>The rule: the first option with that very name; else the first one the name abbreviates, unless another one
  it abbreviates means something else.\<close>

definition long_lookup :: "bool \<Rightarrow> string \<Rightarrow> long_option list \<Rightarrow> lookup" where
  "long_lookup long_only name lo =
     (case find (\<lambda>i. opt_name (lo ! i) = name) [0..<length lo] of
        Some i \<Rightarrow> Match i
      | None \<Rightarrow>
          (case filter (\<lambda>i. prefix name (opt_name (lo ! i))) [0..<length lo] of
             [] \<Rightarrow> Unknown
           | i # js \<Rightarrow> if \<exists>j \<in> set js. differs long_only (lo ! i) (lo ! j) then Ambig else Match i))"

abbreviation flagged :: "abbreviations \<Rightarrow> bool" where
  "flagged a \<equiv> ambig_set a \<noteq> None \<or> ambig_fallback a"

lemma name_matches_prefix:
  "name_matches t (length (takeWhile P t)) p \<longleftrightarrow> prefix (takeWhile P t) (opt_name p)"
proof -
  have "take (length (takeWhile P t)) t = takeWhile P t" by (metis takeWhile_eq_take)
  then show ?thesis
    by (auto simp: name_matches_def prefix_def) (metis append_take_drop_id)
qed

lemma exact_loop_find:
  "ps = drop k lo \<Longrightarrow> k \<le> length lo \<Longrightarrow>
     exact_loop t (length (takeWhile P t)) ps k =
       (case find (\<lambda>i. opt_name (lo ! i) = takeWhile P t) [k..<length lo] of
          Some i \<Rightarrow> (Some (lo ! i), i) | None \<Rightarrow> (None, length lo))"
proof (induction ps arbitrary: k)
  case (Cons p ps)
  have k: "k < length lo" using Cons.prems by (metis drop_eq_Nil list.distinct(1) not_le)
  have p: "lo ! k = p" "ps = drop (Suc k) lo" using Cons.prems(1) k by (simp_all add: Cons_nth_drop_Suc [symmetric])
  have eq: "name_matches t (length (takeWhile P t)) p \<and> length (takeWhile P t) = length (opt_name p)
      \<longleftrightarrow> opt_name p = takeWhile P t"
    unfolding name_matches_prefix by (auto simp: prefix_def)
  have up: "[k..<length lo] = k # [Suc k..<length lo]" using k by (simp add: upt_conv_Cons)
  show ?case
  proof (cases "opt_name p = takeWhile P t")
    case True
    then have "exact_loop t (length (takeWhile P t)) (p # ps) k = (Some p, k)" using eq by simp
    with up p(1) True show ?thesis by simp
  next
    case False
    then have "exact_loop t (length (takeWhile P t)) (p # ps) k = exact_loop t (length (takeWhile P t)) ps (Suc k)"
      using eq by auto
    with up p False Cons.IH [of "Suc k"] k show ?thesis by simp
  qed
qed simp

lemma note_ambiguous_flagged:
  "note_ambiguous pe n i a os = Some (a', os') \<Longrightarrow> flagged a' \<and> pfound a' = pfound a \<and> indfound a' = indfound a"
  by (auto simp: note_ambiguous_def Let_def split: if_splits option.splits prod.splits Option.bind_splits)

lemma abbrev_loop_found:
  "abbrev_loop lo_only pe n t (length (takeWhile P t)) ps k a os = Some (a', os') \<Longrightarrow> pfound a = Some q \<Longrightarrow>
     ps = drop k lo \<Longrightarrow> k \<le> length lo \<Longrightarrow>
     pfound a' = pfound a \<and> indfound a' = indfound a \<and>
     (flagged a' \<longleftrightarrow> flagged a \<or>
        (\<exists>j \<in> set (filter (\<lambda>i. prefix (takeWhile P t) (opt_name (lo ! i))) [k..<length lo]). differs lo_only q (lo ! j)))"
proof (induction ps arbitrary: k a os)
  case (Cons p ps)
  have k: "k < length lo" using Cons.prems by (metis drop_eq_Nil list.distinct(1) not_le)
  have p: "lo ! k = p" "ps = drop (Suc k) lo" using Cons.prems(3) k by (simp_all add: Cons_nth_drop_Suc [symmetric])
  have up: "[k..<length lo] = k # [Suc k..<length lo]" using k by (simp add: upt_conv_Cons)
  note IH = Cons.IH [OF _ _ p(2) Suc_leI [OF k]]
  consider (no) "\<not> prefix (takeWhile P t) (opt_name p)" | (same) "prefix (takeWhile P t) (opt_name p)" "\<not> differs lo_only q p"
    | (other) "prefix (takeWhile P t) (opt_name p)" "differs lo_only q p" by blast
  then show ?case
  proof cases
    case no
    then have "abbrev_loop lo_only pe n t (length (takeWhile P t)) ps (Suc k) a os = Some (a', os')"
      using Cons.prems(1) by (simp add: name_matches_prefix)
    from IH [OF this Cons.prems(2)] no up p(1) show ?thesis by simp
  next
    case same
    then have "abbrev_loop lo_only pe n t (length (takeWhile P t)) ps (Suc k) a os = Some (a', os')"
      using Cons.prems(1,2) by (auto simp: name_matches_prefix differs_def)
    from IH [OF this Cons.prems(2)] same up p(1) show ?thesis by simp
  next
    case other
    then obtain a1 os1 where n: "note_ambiguous pe n k a os = Some (a1, os1)"
      "abbrev_loop lo_only pe n t (length (takeWhile P t)) ps (Suc k) a1 os1 = Some (a', os')"
      using Cons.prems(1,2) by (auto simp: name_matches_prefix differs_def split: Option.bind_splits)
    from IH [OF n(2)] note_ambiguous_flagged [OF n(1)] Cons.prems(2) other up p(1) show ?thesis by auto
  qed
qed simp

lemma abbrev_loop_none:
  "abbrev_loop lo_only pe n t (length (takeWhile P t)) ps k a os = Some (a', os') \<Longrightarrow> pfound a = None \<Longrightarrow> \<not> flagged a \<Longrightarrow>
     ps = drop k lo \<Longrightarrow> k \<le> length lo \<Longrightarrow>
     (case filter (\<lambda>i. prefix (takeWhile P t) (opt_name (lo ! i))) [k..<length lo] of
        [] \<Rightarrow> pfound a' = None \<and> \<not> flagged a'
      | i # js \<Rightarrow> pfound a' = Some (lo ! i) \<and> indfound a' = int i \<and>
          (flagged a' \<longleftrightarrow> (\<exists>j \<in> set js. differs lo_only (lo ! i) (lo ! j))))"
proof (induction ps arbitrary: k a os)
  case (Cons p ps)
  have k: "k < length lo" using Cons.prems by (metis drop_eq_Nil list.distinct(1) not_le)
  have p: "lo ! k = p" "ps = drop (Suc k) lo" using Cons.prems(4) k by (simp_all add: Cons_nth_drop_Suc [symmetric])
  have up: "[k..<length lo] = k # [Suc k..<length lo]" using k by (simp add: upt_conv_Cons)
  show ?case
  proof (cases "prefix (takeWhile P t) (opt_name p)")
    case False
    then have "abbrev_loop lo_only pe n t (length (takeWhile P t)) ps (Suc k) a os = Some (a', os')"
      using Cons.prems(1) by (simp add: name_matches_prefix)
    from Cons.IH [OF this Cons.prems(2,3) p(2) Suc_leI [OF k]] False up p(1) show ?thesis by simp
  next
    case True
    let ?a = "a\<lparr>pfound := Some p, indfound := int k\<rparr>"
    have "abbrev_loop lo_only pe n t (length (takeWhile P t)) ps (Suc k) ?a os = Some (a', os')"
      using Cons.prems(1,2) True by (simp add: name_matches_prefix)
    from abbrev_loop_found [OF this _ p(2) Suc_leI [OF k], of p] Cons.prems(3) True up p(1) show ?thesis by auto
  qed
qed auto


definition option_name :: "string \<Rightarrow> string" where
  "option_name t = takeWhile (\<lambda>c. c \<noteq> CHR ''='') t"

lemma process_long_looked_up:
  assumes "nextchar d = Some t"
  shows "\<exists>os m. process_long_option argc optstring lo long_only d w pe pfx =
    (case long_lookup long_only (option_name t) lo of
       Match i \<Rightarrow> consume_long_option argc optstring (lo ! i) (int i) (drop (length (option_name t)) t) d
                    (w\<lparr>mallocs := os\<rparr>) pe pfx
     | Ambig \<Rightarrow> Some (QUESTION, d\<lparr>nextchar := Some [], optind := optind d + 1, optopt := 0\<rparr>,
                    report pe m (w\<lparr>mallocs := os\<rparr>))
     | Unknown \<Rightarrow> no_long_option optstring long_only t d (w\<lparr>mallocs := os\<rparr>) pe pfx)"
proof -
  let ?n = "length (takeWhile (\<lambda>c. c \<noteq> CHR ''='') t)" and ?name = "takeWhile (\<lambda>c. c \<noteq> CHR ''='') t"
  let ?init = "\<lparr>pfound = None, indfound = -1, ambig_set = None, ambig_fallback = False\<rparr>"
  have e: "exact_loop t ?n lo 0 = (case find (\<lambda>i. opt_name (lo ! i) = ?name) [0..<length lo] of
      Some i \<Rightarrow> (Some (lo ! i), i) | None \<Rightarrow> (None, length lo))"
    using exact_loop_find [of lo 0 lo t] by simp
  show ?thesis
  proof (cases "find (\<lambda>i. opt_name (lo ! i) = ?name) [0..<length lo]")
    case (Some i)
    have "w\<lparr>mallocs := mallocs w\<rparr> = w" by simp
    then have "process_long_option argc optstring lo long_only d w pe pfx =
        consume_long_option argc optstring (lo ! i) (int i) (drop ?n t) d (w\<lparr>mallocs := mallocs w\<rparr>) pe pfx"
      using e Some assms by (simp add: process_long_option_def Let_def)
    then show ?thesis using Some by (auto simp: long_lookup_def option_name_def intro: exI [of _ "mallocs w"])
  next
    case None
    obtain a os where a: "abbrev_loop long_only pe (length lo) t ?n lo 0 ?init (mallocs w) = Some (a, os)"
      using abbrev_loop_ok [of "length lo" "set lo" ?init 0 lo long_only pe t ?n "mallocs w"]
      by (auto simp: abbreviations_ok_def)
    note found = abbrev_loop_none [OF a, of lo, simplified]
    note start = e None assms a
    let ?js = "filter (\<lambda>i. prefix ?name (opt_name (lo ! i))) [0..<length lo]"
    consider (unknown) "long_lookup long_only ?name lo = Unknown" "pfound a = None" "\<not> flagged a"
      | (ambig) "long_lookup long_only ?name lo = Ambig" "flagged a"
      | (one) i where "long_lookup long_only ?name lo = Match i" "pfound a = Some (lo ! i)" "indfound a = int i" "\<not> flagged a"
    proof (cases ?js)
      case Nil
      with found None that(1) show thesis by (simp add: long_lookup_def)
    next
      case (Cons i js)
      note at = found [unfolded Cons list.case]
      show thesis
      proof (cases "\<exists>j \<in> set js. differs long_only (lo ! i) (lo ! j)")
        case True
        with at None Cons that(2) show thesis by (simp add: long_lookup_def)
      next
        case False
        with at None Cons that(3) [of i] show thesis by (simp add: long_lookup_def)
      qed
    qed
    then show ?thesis
    proof cases
      case unknown
      then have "process_long_option argc optstring lo long_only d w pe pfx =
          no_long_option optstring long_only t d (w\<lparr>mallocs := os\<rparr>) pe pfx"
        using start by (simp add: process_long_option_def Let_def)
      with unknown(1) show ?thesis by (auto simp: option_name_def)
    next
      case ambig
      then have "\<exists>m. process_long_option argc optstring lo long_only d w pe pfx =
          Some (QUESTION, d\<lparr>nextchar := Some [], optind := optind d + 1, optopt := 0\<rparr>, report pe m (w\<lparr>mallocs := os\<rparr>))"
        using start by (simp add: process_long_option_def Let_def) blast
      with ambig(1) show ?thesis by (auto simp: option_name_def)
    next
      case one
      then have "process_long_option argc optstring lo long_only d w pe pfx =
          consume_long_option argc optstring (lo ! i) (int i) (drop ?n t) d (w\<lparr>mallocs := os\<rparr>) pe pfx"
        using start by (simp add: process_long_option_def Let_def)
      with one(1) show ?thesis by (auto simp: option_name_def)
    qed
  qed
qed


text \<open>A list of options to look up: \<open>--al\<close> abbreviates \<open>all\<close> and \<open>also\<close>, \<open>--dir=x\<close> only \<open>directory\<close>.\<close>

text \<open>C32: A long option is found by its name up to the equals sign: the first option of that very name, else the first
  it abbreviates unless a further one it abbreviates means something else, which is reported as ambiguous; without
  one it is unknown. Whether the set of ambiguous options can be allocated changes the message only.\<close>

theorem long_option_is_looked_up:
  assumes "nextchar d = Some t"
  shows "\<exists>os m. process_long_option argc optstring lo long_only d w pe pfx =
    (case long_lookup long_only (option_name t) lo of
       Match i \<Rightarrow> consume_long_option argc optstring (lo ! i) (int i) (drop (length (option_name t)) t) d
                    (w\<lparr>mallocs := os\<rparr>) pe pfx
     | Ambig \<Rightarrow> Some (QUESTION, d\<lparr>nextchar := Some [], optind := optind d + 1, optopt := 0\<rparr>,
                    report pe m (w\<lparr>mallocs := os\<rparr>))
     | Unknown \<Rightarrow> no_long_option optstring long_only t d (w\<lparr>mallocs := os\<rparr>) pe pfx)"
  by (rule process_long_looked_up [OF assms])

definition sample_options :: "long_option list" where
  "sample_options = [\<lparr>opt_name = ''all'', has_arg = 0, flag = None, val = 97\<rparr>,
     \<lparr>opt_name = ''also'', has_arg = 0, flag = None, val = 98\<rparr>,
     \<lparr>opt_name = ''directory'', has_arg = 1, flag = None, val = 100\<rparr>]"

definition sample_data :: getopt_data where
  "sample_data = \<lparr>optind = 1, opterr = 1, optopt = 0, optarg = None, initialized = False, nextchar = None,
     ordering = REQUIRE_ORDER, first_nonopt = 0, last_nonopt = 0\<rparr>"

definition sample_world :: "string list \<Rightarrow> world" where
  "sample_world args = \<lparr>argv = map Some args @ [None], longind = None, flag_vars = (\<lambda>a. 0), messages = [], mallocs = []\<rparr>"

lemma sample_lookup:
  "long_lookup False ''al'' sample_options = Ambig" "long_lookup False ''dir'' sample_options = Match 2"
  "long_lookup False ''x'' sample_options = Unknown"
  by (simp_all add: long_lookup_def sample_options_def differs_def upt_rec numeral_eq_Suc)

lemma long_option_is_looked_up_witness:
  "\<exists>os. process_long_option 2 '''' sample_options False (sample_data\<lparr>nextchar := Some ''dir=x''\<rparr>)
     (sample_world [''prog'', ''--dir=x'']) True ''--'' =
   Some (100, sample_data\<lparr>nextchar := None, optind := 2, optarg := Some ''x'', optopt := 100\<rparr>,
     (sample_world [''prog'', ''--dir=x''])\<lparr>mallocs := os\<rparr>)"
proof -
  let ?d = "sample_data\<lparr>nextchar := Some ''dir=x''\<rparr>" and ?w = "sample_world [''prog'', ''--dir=x'']"
  have name: "option_name ''dir=x'' = ''dir''" by (simp add: option_name_def)
  have nc: "nextchar ?d = Some ''dir=x''" by simp
  obtain os where os: "process_long_option 2 '''' sample_options False ?d ?w True ''--'' =
      consume_long_option 2 '''' (sample_options ! 2) (int 2) (drop (length ''dir'') ''dir=x'') ?d (?w\<lparr>mallocs := os\<rparr>) True ''--''"
    using long_option_is_looked_up [OF nc, of 2 "''''" sample_options False ?w True "''--''"]
    unfolding name sample_lookup(2) lookup.case by blast
  show ?thesis
    unfolding os by (rule exI [of _ os]) (simp add: consume_long_option_def sample_options_def sample_world_def sample_data_def)
qed


section \<open>Properties\<close>

text \<open>C33: The block of skipped non-options and the block of options behind it change places, each in its order, and
  the indices move with the non-options; nothing else of the vector changes.\<close>

theorem exchange_swaps_blocks:
  assumes "v = P @ N @ Q @ S" and "first_nonopt d = length P" and "last_nonopt d = length (P @ N)"
    and "optind d = length (P @ N @ Q)"
  shows "exchange v d = Some (P @ Q @ N @ S, d\<lparr>first_nonopt := length (P @ Q), last_nonopt := length (P @ Q @ N)\<rparr>)"
  using exchange_loop_ok [OF assms(1) assms(2,3,4)] assms by (simp add: exchange_def add_ac)

lemma exchange_swaps_blocks_witness:
  "exchange (map Some [''p'', ''x'', ''y'', ''-a'', ''z''])
     (sample_data\<lparr>first_nonopt := 1, last_nonopt := 3, optind := 4\<rparr>) =
   Some (map Some [''p'', ''-a'', ''x'', ''y'', ''z''], sample_data\<lparr>optind := 4, first_nonopt := 2, last_nonopt := 4\<rparr>)"
  using exchange_swaps_blocks [of "map Some [''p'', ''x'', ''y'', ''-a'', ''z'']" "[Some ''p'']" "[Some ''x'', Some ''y'']"
    "[Some ''-a'']" "[Some ''z'']" "sample_data\<lparr>first_nonopt := 1, last_nonopt := 3, optind := 4\<rparr>"]
  by (simp add: sample_data_def)

text \<open>C31: A call never reads or writes outside the argument vector, permutes its first \<open>argc\<close> elements, leaves the
  state between the calls well formed, and unless it returns -1 leaves less work to do.\<close>

theorem getopt_call_keeps_scan:
  assumes "scan_ok argc d w" and "0 < argc" and "vals_ok longopts" and "CHR 0xFF \<notin> set optstring"
    and "bounded M argc (argv w)"
  shows "\<exists>r d' w'. getopt_internal_r argc optstring longopts long_only px d w = Some (r, d', w')
    \<and> permuted argc (argv w) (argv w') \<and> scan_ok argc d' w'
    \<and> (r \<noteq> -1 \<longrightarrow> work M argc d' < work M argc d)"
  using getopt_internal_r_ok [OF assms, of long_only px] by (auto simp: call_result_def)

lemma sample_scan_ok:
  "length args = argc \<Longrightarrow> 0 < argc \<Longrightarrow> scan_ok argc sample_data (sample_world args)"
  "length args = argc \<Longrightarrow> (\<forall>s \<in> set args. length s \<le> M) \<Longrightarrow> bounded M argc (argv (sample_world args))"
  by (auto simp: scan_ok_def sample_data_def sample_world_def fresh_def vector_ok_def bounded_def)

lemma sample_vector:
  "scan_ok 3 sample_data (sample_world [''p'', ''x'', ''-a''])" "bounded 2 3 (argv (sample_world [''p'', ''x'', ''-a'']))"
  by (rule sample_scan_ok; simp)+

lemma getopt_call_keeps_scan_witness:
  "\<exists>r d' w'. getopt_internal_r 3 ''ab:'' None False False sample_data (sample_world [''p'', ''x'', ''-a'']) = Some (r, d', w')
    \<and> permuted 3 (argv (sample_world [''p'', ''x'', ''-a''])) (argv w') \<and> scan_ok 3 d' w'
    \<and> (r \<noteq> -1 \<longrightarrow> work 2 3 d' < work 2 3 sample_data)"
  using getopt_call_keeps_scan [of 3 sample_data "sample_world [''p'', ''x'', ''-a'']" None "''ab:''" 2 False False]
    sample_vector
  by (simp add: vals_ok_def)

text \<open>A scan from the start ends.\<close>

lemma getopt_scan_from_start:
  assumes "fresh d" and "optind d \<le> argc" and "vector_ok argc w" and "0 < argc" and "vals_ok longopts"
    and "CHR 0xFF \<notin> set optstring" and "bounded M argc (argv w)"
  shows "\<exists>rs d' w'. getopt_scan ((argc + 1) * (M + 2)) argc optstring longopts long_only px d w = Some (rs, d', w')
    \<and> permuted argc (argv w) (argv w')"
proof -
  have ok: "scan_ok argc d w" using assms by (simp add: scan_ok_def)
  have "(argc - optind d) * (M + 2) \<le> argc * (M + 2)" by (rule mult_le_mono1) simp
  then have "work M argc d < (argc + 1) * (M + 2)"
    using assms(1) by (simp add: work_def room_def add_mult_distrib)
  from getopt_scan_ok [OF assms(4-6) ok assms(7) this] show ?thesis .
qed

text \<open>C34: When the required argument of the last short option is missing, \<open>optopt\<close> does not get the option's
  character, as the header promises, but the result: the code overwrites the variable it then stores.\<close>

theorem missing_argument_loses_option:
  assumes "nextchar d = Some [c]" and "optind d + 1 = argc" and "find_short c optstring = Some (c # CHR '':'' # rest)"
    and "take 1 rest \<noteq> '':''" and "c \<noteq> CHR '':''" and "c \<noteq> CHR '';''"
  shows "\<exists>d'. short_option argc optstring longopts pe d w
      = Some (missing_argument optstring c, d', report pe (Requires_argument_short c) w)
    \<and> optopt d' = missing_argument optstring c \<and> (c \<noteq> CHR ''?'' \<longrightarrow> optopt d' \<noteq> schar c)"
proof -
  have "schar c \<noteq> QUESTION" if "c \<noteq> CHR ''?''"
    using schar_eq_iff [of c "CHR ''?''"] that by (simp add: schar_def uchar_def)
  moreover have "schar c \<noteq> COLON"
    using schar_eq_iff [of c "CHR '':''"] assms(5) by (simp add: schar_def uchar_def)
  ultimately show ?thesis
    using assms by (simp add: short_option_def short_argument_def missing_argument_def Let_def)
qed

lemma missing_argument_loses_option_witness:
  "\<exists>d'. short_option 2 ''ab:'' None True (sample_data\<lparr>nextchar := Some ''b''\<rparr>) (sample_world [''p'', ''-b''])
      = Some (QUESTION, d', (sample_world [''p'', ''-b''])\<lparr>messages := [Requires_argument_short (CHR ''b'')]\<rparr>)
    \<and> optopt d' = QUESTION \<and> optopt d' \<noteq> schar (CHR ''b'')"
  using missing_argument_loses_option [of "sample_data\<lparr>nextchar := Some ''b''\<rparr>" "CHR ''b''" 2 "''ab:''" "[]" None True
    "sample_world [''p'', ''-b'']"]
  by (simp add: sample_data_def sample_world_def missing_argument_def report_def)

end
