(* ===== verification/GetoptOrder.thy ===== *)
theory GetoptOrder
  imports Getopt
begin

text \<open>
  The order in which a scan of src/src/unistd/getopt.c leaves the argument vector. \<open>arranged\<close> sorts the arguments into options,
  each with the arguments that its description calls for, and operands, without a look at the indices of the code; the
  vector that the calls of \<open>getopt\<close> leave behind in the mode PERMUTE is shown to be this one.
\<close>

section \<open>Options and operands\<close>

text \<open>How many of the following elements \<open>ys\<close> a long option takes that is written \<open>t\<close>: one when it requires an argument and
  has none behind an equals sign.\<close>

definition long_takes :: "bool \<Rightarrow> long_option list \<Rightarrow> string \<Rightarrow> string option list \<Rightarrow> nat" where
  "long_takes long_only lo t ys =
     (case long_lookup long_only (option_name t) lo of
        Match i \<Rightarrow> if has_arg (lo ! i) = 1 \<and> option_name t = t \<and> ys \<noteq> [] then 1 else 0
      | _ \<Rightarrow> 0)"

text \<open>The same for a run of short options. The first one that may have an argument ends the run.\<close>

fun short_takes :: "string \<Rightarrow> long_option list option \<Rightarrow> string \<Rightarrow> string option list \<Rightarrow> nat" where
  "short_takes optstring longopts [] ys = 0"
| "short_takes optstring longopts (c # cs) ys =
     (case find_short c optstring of
        None \<Rightarrow> short_takes optstring longopts cs ys
      | Some spec \<Rightarrow>
          if c = CHR '':'' \<or> c = CHR '';'' then short_takes optstring longopts cs ys
          else if take 2 spec = ''W;'' \<and> longopts \<noteq> None then
            (if cs \<noteq> [] then long_takes False (the longopts) cs ys
             else (case ys of [] \<Rightarrow> 0 | y # ys \<Rightarrow> 1 + long_takes False (the longopts) (the y) ys))
          else if take 1 (drop 1 spec) = '':'' then
            (if cs = [] \<and> take 1 (drop 2 spec) \<noteq> '':'' \<and> ys \<noteq> [] then 1 else 0)
          else short_takes optstring longopts cs ys)"

text \<open>Behind a single dash a long option is looked for only by \<open>getopt_long_only\<close>, and given up for short options when none
  has the name and the first character is one.\<close>

definition taken_as_long :: "string \<Rightarrow> long_option list \<Rightarrow> bool \<Rightarrow> string \<Rightarrow> bool" where
  "taken_as_long optstring lo long_only t \<longleftrightarrow>
     (let short = (hd t \<in> set (optstring @ [NUL]))
      in long_only \<and> (2 \<le> length t \<or> \<not> short) \<and> \<not> (long_lookup long_only (option_name t) lo = Unknown \<and> short))"

definition option_takes :: "string \<Rightarrow> long_option list option \<Rightarrow> bool \<Rightarrow> string \<Rightarrow> string option list \<Rightarrow> nat" where
  "option_takes optstring longopts long_only s ys =
     (case longopts of
        None \<Rightarrow> short_takes optstring longopts (tl s) ys
      | Some lo \<Rightarrow>
          if take 1 (tl s) = ''-'' then long_takes long_only lo (drop 2 s) ys
          else if taken_as_long optstring lo long_only (tl s) then long_takes long_only lo (tl s) ys
          else short_takes optstring longopts (tl s) ys)"

text \<open>The options with their arguments, up to and with a \<open>--\<close>, and the operands.\<close>

function arranged :: "string \<Rightarrow> long_option list option \<Rightarrow> bool \<Rightarrow> string option list \<Rightarrow> string option list \<times> string option list" where
  "arranged optstring longopts long_only [] = ([], [])"
| "arranged optstring longopts long_only (x # xs) =
     (if x = Some ''--'' then ([x], xs)
      else if is_nonoption x then
        (let (os, ns) = arranged optstring longopts long_only xs in (os, x # ns))
      else
        (let k = option_takes optstring longopts long_only (the x) xs;
             (os, ns) = arranged optstring longopts long_only (drop k xs)
         in (x # take k xs @ os, ns)))"
  by pat_completeness auto
termination by (relation "measure (\<lambda>(_, _, _, xs). length xs)") auto

lemma arranged_skip:
  "arranged os lo b xs = (fst (arranged os lo b (dropWhile is_nonoption xs)),
     takeWhile is_nonoption xs @ snd (arranged os lo b (dropWhile is_nonoption xs)))"
proof (induction xs)
  case (Cons x xs)
  show ?case
  proof (cases "is_nonoption x")
    case True
    then have "x \<noteq> Some ''--''" by (auto simp: nonoption_def)
    with True Cons.IH show ?thesis by (simp add: case_prod_beta)
  qed simp
qed simp

section \<open>How far a call moves\<close>

text \<open>The elements behind the current one.\<close>

abbreviation behind :: "nat \<Rightarrow> getopt_data \<Rightarrow> world \<Rightarrow> string option list" where
  "behind argc d w \<equiv> drop (Suc (optind d)) (take argc (argv w))"

lemma behind_empty: "argc \<le> length v \<Longrightarrow> drop i (take argc v) = [] \<longleftrightarrow> argc \<le> i"
  by simp

lemma consume_moves:
  "consume_long_option argc optstring p i nameend d w pe pfx = Some (r, d', w') \<Longrightarrow>
     optind d' = Suc (optind d) + (if has_arg p = 1 \<and> nameend = [] \<and> Suc (optind d) < argc then 1 else 0)"
  by (auto simp: consume_long_option_def Let_def split: if_splits option.splits Option.bind_splits)

lemma option_name_all: "drop (length (option_name t)) t = [] \<longleftrightarrow> option_name t = t"
proof -
  have "t = option_name t @ drop (length (option_name t)) t"
    unfolding option_name_def by (metis append_eq_conv_conj takeWhile_dropWhile_id)
  then show ?thesis by (metis append_Nil2 append_self_conv)
qed

lemma long_moves:
  assumes p: "process_long_option argc optstring lo long_only d w pe pfx = Some (r, d', w')" and t: "nextchar d = Some t"
    and r: "r \<noteq> -1" and len: "argc \<le> length (argv w)"
  shows "optind d' = Suc (optind d) + long_takes long_only lo t (behind argc d w)"
proof -
  obtain os m where e: "process_long_option argc optstring lo long_only d w pe pfx =
    (case long_lookup long_only (option_name t) lo of
       Match i \<Rightarrow> consume_long_option argc optstring (lo ! i) (int i) (drop (length (option_name t)) t) d (w\<lparr>mallocs := os\<rparr>) pe pfx
     | Ambig \<Rightarrow> Some (QUESTION, d\<lparr>nextchar := Some [], optind := optind d + 1, optopt := 0\<rparr>, report pe m (w\<lparr>mallocs := os\<rparr>))
     | Unknown \<Rightarrow> no_long_option optstring long_only t d (w\<lparr>mallocs := os\<rparr>) pe pfx)"
    using process_long_looked_up [OF t] by blast
  show ?thesis
  proof (cases "long_lookup long_only (option_name t) lo")
    case (Match i)
    then have "consume_long_option argc optstring (lo ! i) (int i) (drop (length (option_name t)) t) d (w\<lparr>mallocs := os\<rparr>) pe pfx = Some (r, d', w')"
      using p e by simp
    from consume_moves [OF this] show ?thesis using Match len unfolding option_name_all by (auto simp: long_takes_def)
  next
    case Ambig
    then show ?thesis using p e by (auto simp: long_takes_def)
  next
    case Unknown
    then have "no_long_option optstring long_only t d (w\<lparr>mallocs := os\<rparr>) pe pfx = Some (r, d', w')" using p e by simp
    then show ?thesis using Unknown r by (auto simp: long_takes_def no_long_option_def split: if_splits Option.bind_splits)
  qed
qed

lemma match_lt:
  assumes "long_lookup long_only nm lo = Match i"
  shows "i < length lo"
proof (cases "find (\<lambda>i. opt_name (lo ! i) = nm) [0..<length lo]")
  case (Some j)
  then have "i = j" using assms by (simp add: long_lookup_def)
  then show ?thesis using Some by (auto simp: find_Some_iff)
next
  case None
  let ?js = "filter (\<lambda>i. prefix nm (opt_name (lo ! i))) [0..<length lo]"
  obtain js where "?js = i # js" using assms None by (auto simp: long_lookup_def split: list.splits if_splits)
  then have "i \<in> set ?js" by simp
  then show ?thesis by simp
qed

text \<open>When a long option is given up for short ones.\<close>

lemma long_given_up:
  assumes p: "process_long_option argc optstring lo long_only d w pe pfx = Some (r, d', w')" and t: "nextchar d = Some (c # t)"
    and s: "mem_read (argv w) (optind d) = Some (Some (DASH # c # t))" and c: "c \<noteq> DASH" and lo: "\<And>p. p \<in> set lo \<Longrightarrow> val p \<noteq> -1"
  shows "r = -1 \<longleftrightarrow> long_only \<and> long_lookup long_only (option_name (c # t)) lo = Unknown \<and> c \<in> set (optstring @ [NUL])"
proof -
  obtain os m where e: "process_long_option argc optstring lo long_only d w pe pfx =
    (case long_lookup long_only (option_name (c # t)) lo of
       Match i \<Rightarrow> consume_long_option argc optstring (lo ! i) (int i) (drop (length (option_name (c # t))) (c # t)) d (w\<lparr>mallocs := os\<rparr>) pe pfx
     | Ambig \<Rightarrow> Some (QUESTION, d\<lparr>nextchar := Some [], optind := optind d + 1, optopt := 0\<rparr>, report pe m (w\<lparr>mallocs := os\<rparr>))
     | Unknown \<Rightarrow> no_long_option optstring long_only (c # t) d (w\<lparr>mallocs := os\<rparr>) pe pfx)"
    using process_long_looked_up [OF t] by blast
  show ?thesis
  proof (cases "long_lookup long_only (option_name (c # t)) lo")
    case (Match i)
    have "lo ! i \<in> set lo" using match_lt [OF Match] by simp
    from consume_neq [OF lo [OF this]] have "r \<noteq> -1" using p e Match by simp
    then show ?thesis using Match by simp
  next
    case Ambig
    then show ?thesis using p e by auto
  next
    case Unknown
    then have "no_long_option optstring long_only (c # t) d (w\<lparr>mallocs := os\<rparr>) pe pfx = Some (r, d', w')" using p e by simp
    then show ?thesis using Unknown s c by (auto simp: no_long_option_def mem_read_def split: if_splits)
  qed
qed

text \<open>A short option: the run goes on, or the element is finished.\<close>

lemma short_moves:
  assumes o: "short_option argc optstring longopts pe d w = Some (r, d', w')" and t: "nextchar d = Some (c # cs)"
    and i: "optind d < argc" and len: "argc \<le> length (argv w)" and full: "None \<notin> set (take argc (argv w))" and vals: "vals_ok longopts"
  shows "if pending d' then nextchar d' = Some cs \<and> optind d' = optind d
      \<and> short_takes optstring longopts (c # cs) (behind argc d w) = short_takes optstring longopts cs (behind argc d w)
    else optind d' = Suc (optind d) + short_takes optstring longopts (c # cs) (behind argc d w)"
proof -
  let ?d = "d\<lparr>nextchar := Some cs, optind := (if cs = [] then optind d + 1 else optind d)\<rparr>" and ?ys = "behind argc d w"
  have ys: "?ys = [] \<longleftrightarrow> \<not> Suc (optind d) < argc" using len by auto
  note def = o [unfolded short_option_def t bind.bind_lunit list.case Let_def]
  have plain: "if pending (?d\<lparr>optopt := x\<rparr>) then nextchar (?d\<lparr>optopt := x\<rparr>) = Some cs \<and> optind (?d\<lparr>optopt := x\<rparr>) = optind d \<and> k = short_takes optstring longopts cs ?ys
    else optind (?d\<lparr>optopt := x\<rparr>) = Suc (optind d) + k" if "k = short_takes optstring longopts cs ?ys" for k x
    using that by (simp add: pending_def)
  show ?thesis
  proof (cases "find_short c optstring")
    case None
    then have "d' = ?d\<lparr>optopt := schar c\<rparr>" using def by simp
    then show ?thesis using plain [OF refl] None by simp
  next
    case (Some spec)
    consider (invalid) "c = CHR '':'' \<or> c = CHR '';''"
      | (W) lo where "\<not> (c = CHR '':'' \<or> c = CHR '';'')" "take 2 spec = ''W;''" "longopts = Some lo"
      | (arg) "\<not> (c = CHR '':'' \<or> c = CHR '';'')" "\<not> (take 2 spec = ''W;'' \<and> longopts \<noteq> None)" "take 1 (drop 1 spec) = '':''"
      | (flag) "\<not> (c = CHR '':'' \<or> c = CHR '';'')" "\<not> (take 2 spec = ''W;'' \<and> longopts \<noteq> None)" "take 1 (drop 1 spec) \<noteq> '':''"
      by blast
    then show ?thesis
    proof cases
      case invalid
      then have "d' = ?d\<lparr>optopt := schar c\<rparr>" using def Some by auto
      moreover have "short_takes optstring longopts (c # cs) ?ys = short_takes optstring longopts cs ?ys" using invalid Some by auto
      ultimately show ?thesis using plain by presburger
    next
      case flag
      then have "d' = ?d\<lparr>optopt := schar c\<rparr>" using def Some by (auto simp: not_None_eq [symmetric] simp del: not_None_eq)
      moreover have "short_takes optstring longopts (c # cs) ?ys = short_takes optstring longopts cs ?ys" using flag Some by auto
      ultimately show ?thesis using plain by presburger
    next
      case arg
      then have a: "short_argument argc optstring spec c cs pe ?d w = Some (r, d', w')" using def Some by auto
      have "short_takes optstring longopts (c # cs) ?ys = (if cs = [] \<and> take 1 (drop 2 spec) \<noteq> '':'' \<and> ?ys \<noteq> [] then 1 else 0)"
        using arg Some by auto
      moreover have "\<not> pending d' \<and> optind d' = Suc (optind d) + (if cs = [] \<and> take 1 (drop 2 spec) \<noteq> '':'' \<and> Suc (optind d) < argc then 1 else 0)"
        using a i by (auto simp: short_argument_def pending_def Let_def split: if_splits Option.bind_splits)
      ultimately show ?thesis using ys by simp
    next
      case W
      then have a: "short_W argc optstring lo c cs pe ?d w = Some (r, d', w')" using def Some by auto
      have k: "short_takes optstring longopts (c # cs) ?ys = (if cs \<noteq> [] then long_takes False lo cs ?ys
          else (case ?ys of [] \<Rightarrow> 0 | y # ys \<Rightarrow> 1 + long_takes False lo (the y) ys))"
        using W Some by (auto cong: list.case_cong)
      have vl: "\<And>p. p \<in> set lo \<Longrightarrow> val p \<noteq> -1" using vals W(3) by (simp add: vals_ok_def)
      show ?thesis
      proof (cases "cs = [] \<and> optind ?d = argc")
        case True
        then have "optind d' = Suc (optind d)" "\<not> pending d'" using a by (auto simp: short_W_def pending_def)
        moreover have "?ys = []" using True by auto
        ultimately show ?thesis using k True by simp
      next
        case False
        then have lt: "optind ?d < argc" using i by auto
        obtain y where y: "argv w ! optind ?d = Some y" using full_at [OF full len lt] by blast
        have rd: "mem_read (argv w) (optind ?d) = Some (Some y)" using lt len y by (simp add: mem_read_lt)
        let ?x = "if cs \<noteq> [] then cs else y" and ?d2 = "?d\<lparr>nextchar := Some (if cs \<noteq> [] then cs else y), optarg := None\<rparr>"
        have p: "process_long_option argc optstring lo False ?d2 w pe ''-W '' = Some (r, d', w')"
          using a False rd by (cases "cs = []") (auto simp: short_W_def)
        have "\<exists>r d' w'. process_long_option argc optstring lo False ?d2 w pe ''-W ''
            = Some (r, d', w') \<and> (r \<noteq> -1 \<and> consumed argc ?d2 w d' w' \<or> r = -1 \<and> False \<and> d' = ?d2 \<and> argv w' = argv w)"
          by (rule process_long_option_ok) (use lt len vl in auto)
        then have r: "r \<noteq> -1" "\<not> pending d'" using p by (auto simp: consumed_def)
        have m: "optind d' = Suc (optind ?d2) + long_takes False lo ?x (behind argc ?d2 w)"
          by (rule long_moves [OF p _ r(1) len]) simp
        show ?thesis
        proof (cases "cs = []")
          case f: False
          then show ?thesis using m k r(2) by simp
        next
          case t: True
          have "?ys = Some y # drop (Suc (Suc (optind d))) (take argc (argv w))"
            using lt len y t Cons_nth_drop_Suc [of "Suc (optind d)" "take argc (argv w)"] by simp
          then show ?thesis using m k r(2) t by simp
        qed
      qed
    qed
  qed
qed

text \<open>The next element: a long option with what it takes, or a run of short ones.\<close>

lemma next_element_moves:
  assumes n: "next_element argc optstring longopts long_only pe d w = Some a" and at: "mem_read (argv w) (optind d) = Some (Some s)" "\<not> nonoption s"
    and i: "optind d < argc" and len: "argc \<le> length (argv w)" and vals: "vals_ok longopts"
  shows "case a of
      Return r d' w' \<Rightarrow> optind d' = Suc (optind d) + option_takes optstring longopts long_only s (behind argc d w)
    | Short d' w' \<Rightarrow> option_takes optstring longopts long_only s (behind argc d w) = short_takes optstring longopts (drop 1 s) (behind argc d w)"
proof -
  obtain c t where s: "s = DASH # c # t" using not_nonoption [OF at(2)] by blast
  have at': "argv w ! optind d = Some s" using at(1) by (auto simp: mem_read_def split: if_splits)
  obtain a' where a': "next_element argc optstring longopts long_only pe d w = Some a'"
    "case a' of Return r d' w' \<Rightarrow> r \<noteq> -1 \<and> consumed argc d w d' w' | Short d' w' \<Rightarrow> argv w' = argv w \<and> d' = d\<lparr>nextchar := Some (drop 1 s)\<rparr>"
    using next_element_ok [of w d s argc longopts optstring long_only pe] at' at(2) i len vals by auto
  have a: "case a of Return r d' w' \<Rightarrow> r \<noteq> -1 \<and> consumed argc d w d' w' | Short d' w' \<Rightarrow> argv w' = argv w \<and> d' = d\<lparr>nextchar := Some (drop 1 s)\<rparr>"
    using n a' by simp
  have shorts: "\<exists>d' w'. start_short d1 w1 = Some (Short d' w')" if "argv w1 = argv w" "optind d1 = optind d" for d1 w1
    using at(1) that by (simp add: start_short_def)
  show ?thesis
  proof (cases longopts)
    case None
    then show ?thesis using n at(1) shorts [of w d] by (auto simp: next_element_def option_takes_def s)
  next
    case (Some lo)
    have lv: "\<And>p. p \<in> set lo \<Longrightarrow> val p \<noteq> -1" using vals Some by (simp add: vals_ok_def)
    show ?thesis
    proof (cases "c = DASH")
      case True
      then obtain r d' w' where p: "process_long_option argc optstring lo long_only (d\<lparr>nextchar := Some (drop 2 s)\<rparr>) w pe ''--'' = Some (r, d', w')"
        "a = Return r d' w'" using n at(1) Some by (auto simp: next_element_def s split: Option.bind_splits)
      have "r \<noteq> -1" using a p(2) by simp
      from long_moves [OF p(1) _ this len] p(2) True Some show ?thesis by (simp add: option_takes_def s)
    next
      case False
      let ?p = "process_long_option argc optstring lo long_only (d\<lparr>nextchar := Some (drop 1 s)\<rparr>) w pe ''-''"
      show ?thesis
      proof (cases "long_only \<and> (2 < length s \<or> (s @ [NUL]) ! 1 \<notin> set (optstring @ [NUL]))")
        case no: False
        have "next_element argc optstring longopts long_only pe d w = start_short d w"
          using at(1) Some False by (simp only: next_element_def bind.bind_lunit prod.case option.case if_not_P [OF no]) (simp add: s)
        moreover have "\<not> taken_as_long optstring lo long_only (tl s)" using no by (auto simp: taken_as_long_def s Let_def)
        ultimately show ?thesis using n shorts [of w d] Some False by (auto simp: option_takes_def s)
      next
        case yes: True
        have step: "next_element argc optstring longopts long_only pe d w =
          do { (r, d, w) \<leftarrow> ?p; if r \<noteq> -1 then Some (Return r d w) else start_short d w }"
          using at(1) Some False by (simp only: next_element_def bind.bind_lunit prod.case option.case if_P [OF yes]) (simp add: s)
        obtain r d' w' where p: "?p = Some (r, d', w')" using n step by (cases ?p) auto
        have given_up: "r = -1 \<longleftrightarrow> long_only \<and> long_lookup long_only (option_name (c # t)) lo = Unknown \<and> c \<in> set (optstring @ [NUL])"
          by (rule long_given_up [OF p]) (use at(1) s False lv in simp_all)
        show ?thesis
        proof (cases "r = -1")
          case r: False
          then have "a = Return r d' w'" using n step p by simp
          moreover have "taken_as_long optstring lo long_only (tl s)" using yes given_up r by (auto simp: taken_as_long_def s Let_def Suc_le_eq)
          ultimately show ?thesis using long_moves [OF p _ r len] Some False by (simp add: option_takes_def s)
        next
          case r: True
          have "\<not> taken_as_long optstring lo long_only (tl s)" using given_up r by (auto simp: taken_as_long_def s Let_def)
          then have k: "option_takes optstring longopts long_only s (behind argc d w) = short_takes optstring longopts (drop 1 s) (behind argc d w)"
            using Some False by (simp add: option_takes_def s)
          have st: "start_short d' w' = Some a" using n step p r by simp
          have "\<exists>d1 w1. a = Short d1 w1" using st by (auto simp: start_short_def split: Option.bind_splits)
          then show ?thesis using k by auto
        qed
      qed
    qed
  qed
qed

section \<open>The scan\<close>

text \<open>What the scan still has to arrange: from the next element on, or from within a run of short options.\<close>

definition due :: "string \<Rightarrow> long_option list option \<Rightarrow> bool \<Rightarrow> getopt_data \<Rightarrow> string option list \<Rightarrow> string option list \<times> string option list" where
  "due optstring longopts long_only d R =
     (if pending d then
        (case R of
           [] \<Rightarrow> ([], [])
         | x # xs \<Rightarrow>
             (let k = short_takes optstring longopts (the (nextchar d)) xs;
                  (os, ns) = arranged optstring longopts long_only (drop k xs)
              in (x # take k xs @ os, ns)))
      else arranged optstring longopts long_only R)"

text \<open>The scan will end with the options \<open>A\<close> and the operands \<open>B\<close>.\<close>

definition on_course :: "string \<Rightarrow> long_option list option \<Rightarrow> bool \<Rightarrow> nat \<Rightarrow> string option list \<Rightarrow> string option list \<Rightarrow> string option list
    \<Rightarrow> getopt_data \<Rightarrow> world \<Rightarrow> bool" where
  "on_course optstring longopts long_only argc A B T d w \<longleftrightarrow>
     (\<exists>P N Q R. cut_at argc d (argv w) P N Q R T \<and> A = P @ Q @ fst (due optstring longopts long_only d R)
        \<and> B = N @ snd (due optstring longopts long_only d R))"

lemma cut_behind: "cut_at argc d (argv w) P N Q (x # R) T \<Longrightarrow> behind argc d w = R"
  by (simp add: cut_at_def)

lemma cut_move:
  assumes "cut_at argc d v P N Q (x # R) T" and "optind d' = Suc (optind d) + k" and "optind d' \<le> argc"
    and "first_nonopt d' = first_nonopt d" and "last_nonopt d' = last_nonopt d"
  shows "cut_at argc d' v P N (Q @ x # take k R) (drop k R) T"
  using assms by (auto simp: cut_at_def min_def)

lemma short_course:
  assumes c: "on_course optstring longopts long_only argc A B T d w" and p: "pending d"
    and o: "short_option argc optstring longopts pe d w = Some (r, d', w')"
    and i: "optind d < argc" and vec: "vector_ok argc w" and vals: "vals_ok longopts" and ff: "CHR 0xFF \<notin> set optstring"
  shows "on_course optstring longopts long_only argc A B T d' w'"
proof -
  obtain ch cs where t: "nextchar d = Some (ch # cs)" using p by (cases "nextchar d"; cases "the (nextchar d)") (auto simp: pending_def)
  have v: "argc \<le> length (argv w)" "None \<notin> set (take argc (argv w))" using vec by (simp_all add: vector_ok_def)
  have m: "moved argc d w d' w'" using short_option_ok [OF t i v vals ff, of pe] o by auto
  obtain P N Q R where k: "cut_at argc d (argv w) P N Q R T" "A = P @ Q @ fst (due optstring longopts long_only d R)"
    "B = N @ snd (due optstring longopts long_only d R)" using c by (auto simp: on_course_def)
  have "R \<noteq> []" using k(1) i by (auto simp: cut_at_def)
  then obtain x xs where R: "R = x # xs" by (cases R) auto
  have b: "behind argc d w = xs" using cut_behind k(1) R by simp
  note s = short_moves [OF o t i v vals, unfolded b]
  have ns: "argv w' = argv w" "first_nonopt d' = first_nonopt d" "last_nonopt d' = last_nonopt d" "optind d' \<le> argc" using m by (simp_all add: moved_def)
  show ?thesis
  proof (cases "pending d'")
    case True
    then have e: "nextchar d' = Some cs" "optind d' = optind d"
      "short_takes optstring longopts (ch # cs) xs = short_takes optstring longopts cs xs" using s by simp_all
    have "cut_at argc d' (argv w') P N Q R T" using k(1) e(2) ns by (simp add: cut_at_def)
    moreover have "due optstring longopts long_only d' R = due optstring longopts long_only d R"
      using True p e(1,3) t R by (simp add: due_def)
    ultimately show ?thesis using k(2,3) unfolding on_course_def by metis
  next
    case False
    let ?k = "short_takes optstring longopts (ch # cs) xs"
    have e: "optind d' = Suc (optind d) + ?k" using s False by simp
    have "cut_at argc d' (argv w') P N (Q @ x # take ?k xs) (drop ?k xs) T"
      unfolding ns(1) by (rule cut_move [OF k(1) [unfolded R] e ns(4,2,3)])
    moreover have "A = P @ (Q @ x # take ?k xs) @ fst (due optstring longopts long_only d' (drop ?k xs))"
      "B = N @ snd (due optstring longopts long_only d' (drop ?k xs))"
      using k(2,3) p False t R by (simp_all add: due_def case_prod_beta Let_def del: short_takes.simps)
    ultimately show ?thesis unfolding on_course_def by blast
  qed
qed

lemma advance_course:
  assumes c: "on_course optstring longopts long_only argc A B T d w" and np: "\<not> pending d" and ord: "ordering d = PERMUTE"
    and vec: "vector_ok argc w" and vals: "vals_ok longopts" and a: "advance argc optstring longopts long_only pe d w = Some a"
  shows "case a of
      Return r d' w' \<Rightarrow> if r = -1 then argv w' = A @ B @ T \<and> optind d' = length A else on_course optstring longopts long_only argc A B T d' w'
    | Short d' w' \<Rightarrow> pending d' \<and> optind d' < argc \<and> vector_ok argc w' \<and> on_course optstring longopts long_only argc A B T d' w'"
proof -
  obtain P N Q R where k: "cut_at argc d (argv w) P N Q R T" and due: "A = P @ Q @ fst (arranged optstring longopts long_only R)"
    "B = N @ snd (arranged optstring longopts long_only R)" using c np by (auto simp: on_course_def due_def)
  have clamp: "clamp_nonopts d = d" using k by (simp add: clamp_nonopts_def cut_at_def)
  let ?R1 = "takeWhile is_nonoption R" and ?R2 = "dropWhile is_nonoption R" and ?v = "P @ Q @ N @ R @ T"
  obtain d1 where p: "permute argc (argv w) d = Some (?v, d1)" "cut_at argc d1 ?v (P @ Q) (N @ ?R1) [] ?R2 T" "ordering d1 = ordering d"
    "nextchar d1 = nextchar d" using permute_ok [OF k] by blast
  have np1: "\<not> pending d1" using np p(4) by (simp add: pending_def)
  have A: "A = (P @ Q) @ fst (arranged optstring longopts long_only ?R2)" and B: "B = (N @ ?R1) @ snd (arranged optstring longopts long_only ?R2)"
    using due arranged_skip [of optstring longopts long_only R] by (simp_all add: prod_eq_iff)
  obtain v' d' where e: "end_of_options argc ?v d1 = Some (v', d')"
    "if ?R2 \<noteq> [] \<and> hd ?R2 = Some ''--''
     then v' = (P @ Q) @ [] @ [Some ''--''] @ (N @ ?R1) @ tl ?R2 @ T
       \<and> d' = d1\<lparr>optind := argc, first_nonopt := length ((P @ Q) @ []) + 1, last_nonopt := argc\<rparr>
     else v' = ?v \<and> d' = d1" using end_of_options_ok [OF p(2)] by blast
  let ?w = "w\<lparr>argv := v'\<rparr>"
  note adv = a [unfolded advance_def clamp Let_def if_P [OF ord] p(1) bind.bind_lunit prod.case e(1)]
  have v: "?v = (P @ Q) @ (N @ ?R1) @ ?R2 @ T" by simp
  consider (ends) "?R2 \<noteq> []" "hd ?R2 = Some ''--''" | (over) "?R2 = []" | (elem) "?R2 \<noteq> []" "hd ?R2 \<noteq> Some ''--''" by blast
  then show ?thesis
  proof cases
    case ends
    then obtain R' where R2: "?R2 = Some ''--'' # R'" by (cases ?R2) auto
    have d': "d' = d1\<lparr>optind := argc, first_nonopt := length (P @ Q) + 1, last_nonopt := argc\<rparr>" and v': "v' = A @ B @ T"
      using e(2) ends A B R2 by simp_all
    have len: "length A = length (P @ Q) + 1" using A R2 by simp
    have le: "length A \<le> argc" using p(2) len R2 by (simp add: cut_at_def)
    have "a = Return (-1) (if first_nonopt d' \<noteq> last_nonopt d' then d'\<lparr>optind := first_nonopt d'\<rparr> else d') ?w"
      using adv d' by simp
    then show ?thesis using d' v' len le by simp
  next
    case over
    then have d': "d' = d1" "v' = ?v" using e(2) by simp_all
    have argc: "argc = length (P @ Q) + length (N @ ?R1)" "optind d1 = argc" "first_nonopt d1 = length (P @ Q)" "last_nonopt d1 = argc"
      using p(2) over by (simp_all add: cut_at_def)
    have a: "a = Return (-1) (if first_nonopt d' \<noteq> last_nonopt d' then d'\<lparr>optind := first_nonopt d'\<rparr> else d') ?w"
      using adv d' argc(2) by simp
    have "v' = A @ B @ T" using A B over d'(2) v by simp
    moreover have "length A = length (P @ Q)" using A over by simp
    ultimately show ?thesis using a argc d'(1) by simp
  next
    case elem
    then obtain x R' where R2: "?R2 = x # R'" by (cases ?R2) auto
    have d': "d' = d1" "v' = ?v" using e(2) elem by simp_all
    have i: "optind d1 < argc" using p(2) R2 by (simp add: cut_at_def)
    have mset: "set (take argc ?v) = set (take argc (argv w))" using k by (auto simp: cut_at_def)
    have vec': "vector_ok argc ?w" using vec mset k d'(2) by (simp add: vector_ok_def cut_at_def)
    then have len: "argc \<le> length ?v" using d'(2) by (simp add: vector_ok_def)
    have at: "?v ! optind d1 = x" using p(2) R2 by (simp only: v) (simp add: cut_at_def nth_append)
    obtain s where s: "x = Some s" using full_at [of argc ?v "optind d1"] vec' i at d'(2) by (auto simp: vector_ok_def)
    have rd: "mem_read ?v (optind d1) = Some (Some s)" using i len at s by (simp add: mem_read_lt)
    have "\<not> is_nonoption x" using R2 by (metis hd_dropWhile list.distinct(1) list.sel(1))
    then have non: "\<not> nonoption s" using s by simp
    have b: "nonoption_at ?v (optind d1) = Some False" using rd non by (simp add: nonoption_at_def)
    have n: "next_element argc optstring longopts long_only pe d1 ?w = Some a"
      using adv d' i rd b by simp
    obtain a' where a': "next_element argc optstring longopts long_only pe d1 ?w = Some a'"
      "case a' of Return r d' w' \<Rightarrow> r \<noteq> -1 \<and> consumed argc d1 ?w d' w' | Short d' w' \<Rightarrow> argv w' = argv ?w \<and> d' = d1\<lparr>nextchar := Some (drop 1 s)\<rparr>"
      using next_element_ok [of ?w d1 s argc longopts optstring long_only pe] at s non i len vals d'(2) by auto
    have ok: "case a of Return r d' w' \<Rightarrow> r \<noteq> -1 \<and> consumed argc d1 ?w d' w' | Short d' w' \<Rightarrow> argv w' = argv ?w \<and> d' = d1\<lparr>nextchar := Some (drop 1 s)\<rparr>"
      using a' n by simp
    have c1: "cut_at argc d1 (argv ?w) (P @ Q) (N @ ?R1) [] (x # R') T" using p(2) R2 d'(2) by simp
    have bh: "behind argc d1 ?w = R'" by (rule cut_behind [OF c1])
    have m: "case a of
        Return r d' w' \<Rightarrow> optind d' = Suc (optind d1) + option_takes optstring longopts long_only s R'
      | Short d' w' \<Rightarrow> option_takes optstring longopts long_only s R' = short_takes optstring longopts (drop 1 s) R'"
      using next_element_moves [OF n _ non i _ vals] rd len d'(2) unfolding bh by simp
    let ?k = "option_takes optstring longopts long_only s R'" and ?rest = "\<lambda>k. arranged optstring longopts long_only (drop k R')"
    have arr: "arranged optstring longopts long_only ?R2 = (x # take ?k R' @ fst (?rest ?k), snd (?rest ?k))"
      using R2 elem(2) non s by (simp add: case_prod_beta Let_def)
    show ?thesis
    proof (cases a)
      case (Return r d2 w2)
      have r: "r \<noteq> -1" "consumed argc d1 ?w d2 w2" using ok Return by simp_all
      have e2: "optind d2 = Suc (optind d1) + ?k" using m Return by simp
      have f: "argv w2 = argv ?w" "optind d2 \<le> argc" "first_nonopt d2 = first_nonopt d1" "last_nonopt d2 = last_nonopt d1" "\<not> pending d2"
        using r(2) by (simp_all add: consumed_def)
      have "cut_at argc d2 (argv w2) (P @ Q) (N @ ?R1) ([] @ x # take ?k R') (drop ?k R') T"
        unfolding f(1) by (rule cut_move [OF c1 e2 f(2-4)])
      moreover have "A = (P @ Q) @ ([] @ x # take ?k R') @ fst (due optstring longopts long_only d2 (drop ?k R'))"
        "B = (N @ ?R1) @ snd (due optstring longopts long_only d2 (drop ?k R'))"
        using A B arr f(5) by (simp_all add: due_def)
      ultimately have "on_course optstring longopts long_only argc A B T d2 w2" unfolding on_course_def by blast
      then show ?thesis using Return r(1) by simp
    next
      case (Short d2 w2)
      have d2: "argv w2 = argv ?w" "d2 = d1\<lparr>nextchar := Some (drop 1 s)\<rparr>" using ok Short by simp_all
      have pend: "pending d2" using d2(2) not_nonoption [OF non] by (auto simp: pending_def)
      have k2: "?k = short_takes optstring longopts (drop 1 s) R'" using m Short by simp
      have "cut_at argc d2 (argv w2) (P @ Q) (N @ ?R1) [] (x # R') T" using c1 d2 by (simp add: cut_at_def)
      moreover have "due optstring longopts long_only d2 (x # R') = (x # take ?k R' @ fst (?rest ?k), snd (?rest ?k))"
        using pend d2(2) k2 by (simp add: due_def case_prod_beta Let_def)
      then have "A = (P @ Q) @ [] @ fst (due optstring longopts long_only d2 (x # R'))"
        "B = (N @ ?R1) @ snd (due optstring longopts long_only d2 (x # R'))"
        using A B arr by simp_all
      ultimately have "on_course optstring longopts long_only argc A B T d2 w2" unfolding on_course_def by blast
      moreover have "vector_ok argc w2" using vec' d2(1) by (simp add: vector_ok_def)
      ultimately show ?thesis using Short pend d2(2) i by simp
    qed
  qed
qed

lemma due_optarg [simp]: "due optstring longopts long_only (d\<lparr>optarg := x\<rparr>) R = due optstring longopts long_only d R"
  by (cases R) (simp_all add: due_def)

lemma cut_optarg [simp]: "cut_at argc (d\<lparr>optarg := x\<rparr>) v P N Q R T = cut_at argc d v P N Q R T"
  by (simp add: cut_at_def)

lemma on_course_optarg [simp]:
  "on_course optstring longopts long_only argc A B T (d\<lparr>optarg := x\<rparr>) w = on_course optstring longopts long_only argc A B T d w"
  by (simp add: on_course_def)

lemma mode_permute: "mode optstring px = PERMUTE \<Longrightarrow> take 1 optstring \<noteq> ''-'' \<and> take 1 optstring \<noteq> ''+'' \<and> \<not> px"
  by (auto simp: mode_def split: if_splits)

text \<open>A call in the middle of the scan.\<close>

lemma step_course:
  assumes c: "on_course optstring longopts long_only argc A B T d w" and ord: "ordering d = PERMUTE" and i: "pending d \<Longrightarrow> optind d < argc"
    and vec: "vector_ok argc w" and vals: "vals_ok longopts" and ff: "CHR 0xFF \<notin> set optstring"
    and r: "(if nextchar d = None \<or> nextchar d = Some [] then
        do { a \<leftarrow> advance argc optstring longopts long_only pe d w;
             (case a of Return r d w \<Rightarrow> Some (r, d, w) | Short d w \<Rightarrow> short_option argc optstring longopts pe d w) }
      else short_option argc optstring longopts pe d w) = Some (r, d', w')"
  shows "if r = -1 then argv w' = A @ B @ T \<and> optind d' = length A else on_course optstring longopts long_only argc A B T d' w'"
proof (cases "pending d")
  case True
  then have "\<not> (nextchar d = None \<or> nextchar d = Some [])" by (simp add: pending_def)
  then have o: "short_option argc optstring longopts pe d w = Some (r, d', w')" using r by (simp only: if_False)
  obtain ch cs where t: "nextchar d = Some (ch # cs)" using True by (cases "nextchar d"; cases "the (nextchar d)") (auto simp: pending_def)
  have "r \<noteq> -1" using short_option_ok [OF t i [OF True] _ _ vals ff, of w pe] vec o by (auto simp: vector_ok_def)
  then show ?thesis using short_course [OF c True o i [OF True] vec vals ff] by simp
next
  case False
  then have "nextchar d = None \<or> nextchar d = Some []" by (simp add: pending_def)
  then obtain a where a: "advance argc optstring longopts long_only pe d w = Some a"
    "(case a of Return r d w \<Rightarrow> Some (r, d, w) | Short d w \<Rightarrow> short_option argc optstring longopts pe d w) = Some (r, d', w')"
    using r by (auto split: Option.bind_splits)
  note adv = advance_course [OF c False ord vec vals a(1)]
  show ?thesis
  proof (cases a)
    case (Return r1 d1 w1)
    then show ?thesis using adv a(2) by auto
  next
    case (Short d1 w1)
    then have s: "pending d1" "optind d1 < argc" "on_course optstring longopts long_only argc A B T d1 w1" and v1: "vector_ok argc w1"
      and o: "short_option argc optstring longopts pe d1 w1 = Some (r, d', w')" using adv a(2) by simp_all
    obtain ch cs where t: "nextchar d1 = Some (ch # cs)" using s(1) by (cases "nextchar d1"; cases "the (nextchar d1)") (auto simp: pending_def)
    have "r \<noteq> -1" using short_option_ok [OF t s(2) _ _ vals ff, of w1 pe] v1 o by (auto simp: vector_ok_def)
    then show ?thesis using short_course [OF s(3,1) o s(2) v1 vals ff] by simp
  qed
qed

lemma call_course:
  assumes ok: "scan_ok argc d w" and nf: "\<not> fresh d" and c: "on_course optstring longopts long_only argc A B T d w" and ord: "ordering d = PERMUTE"
    and m: "mode optstring px = PERMUTE" and vals: "vals_ok longopts" and ff: "CHR 0xFF \<notin> set optstring" and argc: "0 < argc"
    and r: "getopt_internal_r argc optstring longopts long_only px d w = Some (r, d', w')"
  shows "if r = -1 then argv w' = A @ B @ T \<and> optind d' = length A else on_course optstring longopts long_only argc A B T d' w'"
proof -
  let ?d = "d\<lparr>optarg := None\<rparr>"
  have n: "\<not> argc < 1" using argc by simp
  have start: "(if optind ?d = 0 \<or> \<not> initialized ?d then getopt_initialize optstring ?d px
      else (if take 1 optstring = ''-'' \<or> take 1 optstring = ''+'' then tl optstring else optstring, ?d)) = (optstring, ?d)"
    using nf mode_permute [OF m] by (auto simp: fresh_def)
  show ?thesis
    by (rule step_course [OF _ _ _ _ vals ff r [unfolded getopt_internal_r_def Let_def if_not_P [OF n] start prod.case]])
      (use ok nf c ord in \<open>simp_all add: scan_ok_def\<close>)
qed

text \<open>The first call: everything from \<open>optind\<close> on is still to be arranged.\<close>

lemma start_course:
  assumes f: "fresh d" and le: "optind d \<le> argc" "0 < argc" and len: "argc \<le> length (argv w)" and m: "mode optstring px = PERMUTE"
  obtains d1 where "getopt_initialize optstring (d\<lparr>optarg := None\<rparr>) px = (optstring, d1)" "ordering d1 = PERMUTE" "\<not> pending d1"
    "on_course optstring longopts long_only argc
       (take (max 1 (optind d)) (argv w) @ fst (arranged optstring longopts long_only (drop (max 1 (optind d)) (take argc (argv w)))))
       (snd (arranged optstring longopts long_only (drop (max 1 (optind d)) (take argc (argv w))))) (drop argc (argv w)) d1 w"
proof -
  let ?i = "max 1 (optind d)"
  let ?d = "d\<lparr>optarg := None, optind := ?i, first_nonopt := ?i, last_nonopt := ?i, nextchar := None, ordering := PERMUTE, initialized := True\<rparr>"
  have i: "?i \<le> argc" using le by simp
  have v: "argv w = take ?i (argv w) @ drop ?i (take argc (argv w)) @ drop argc (argv w)"
    using i by (metis append.assoc append_take_drop_id min.absorb1 take_take)
  have "getopt_initialize optstring (d\<lparr>optarg := None\<rparr>) px = (optstring, ?d)"
    using mode_permute [OF m] by (cases "optind d = 0") (auto simp: getopt_initialize_def Let_def max_def)
  moreover have c: "cut_at argc ?d (argv w) (take ?i (argv w)) [] [] (drop ?i (take argc (argv w))) (drop argc (argv w))"
    unfolding cut_at_def using v i len by simp
  have np: "\<not> pending ?d" by (simp add: pending_def)
  have due: "due optstring longopts long_only ?d R = arranged optstring longopts long_only R" for R
    unfolding due_def if_not_P [OF np] ..
  have "on_course optstring longopts long_only argc
       (take ?i (argv w) @ fst (arranged optstring longopts long_only (drop ?i (take argc (argv w)))))
       (snd (arranged optstring longopts long_only (drop ?i (take argc (argv w))))) (drop argc (argv w)) ?d w"
    unfolding on_course_def
    by (rule exI [of _ "take ?i (argv w)"], rule exI [of _ "[]"], rule exI [of _ "[]"], rule exI [of _ "drop ?i (take argc (argv w))"])
      (simp only: due c append_Nil simp_thms)
  ultimately show thesis using that np by simp
qed

lemma first_course:
  assumes f: "fresh d" and le: "optind d \<le> argc" "0 < argc" and vec: "vector_ok argc w" and m: "mode optstring px = PERMUTE"
    and vals: "vals_ok longopts" and ff: "CHR 0xFF \<notin> set optstring"
    and r: "getopt_internal_r argc optstring longopts long_only px d w = Some (r, d', w')"
  defines "A \<equiv> take (max 1 (optind d)) (argv w) @ fst (arranged optstring longopts long_only (drop (max 1 (optind d)) (take argc (argv w))))"
    and "B \<equiv> snd (arranged optstring longopts long_only (drop (max 1 (optind d)) (take argc (argv w))))" and "T \<equiv> drop argc (argv w)"
  shows "if r = -1 then argv w' = A @ B @ T \<and> optind d' = length A else on_course optstring longopts long_only argc A B T d' w'"
proof -
  have len: "argc \<le> length (argv w)" using vec by (simp add: vector_ok_def)
  obtain d1 where s: "getopt_initialize optstring (d\<lparr>optarg := None\<rparr>) px = (optstring, d1)" "ordering d1 = PERMUTE" "\<not> pending d1"
    and c: "on_course optstring longopts long_only argc A B T d1 w"
    using start_course [OF f le len m] unfolding A_def B_def T_def by blast
  let ?d = "d\<lparr>optarg := None\<rparr>"
  have n: "\<not> argc < 1" using le by simp
  have start: "(if optind ?d = 0 \<or> \<not> initialized ?d then getopt_initialize optstring ?d px
      else (if take 1 optstring = ''-'' \<or> take 1 optstring = ''+'' then tl optstring else optstring, ?d)) = (optstring, d1)"
    using f s(1) by (auto simp: fresh_def)
  show ?thesis
    by (rule step_course [OF c s(2) _ vec vals ff r [unfolded getopt_internal_r_def Let_def if_not_P [OF n] start prod.case]])
      (use s(3) in simp)
qed

lemma scan_course:
  assumes argc: "0 < argc" and m: "mode optstring px = PERMUTE" and vals: "vals_ok longopts" and ff: "CHR 0xFF \<notin> set optstring"
  shows "scan_ok argc d w \<Longrightarrow> \<not> fresh d \<Longrightarrow> ordering d = PERMUTE \<Longrightarrow> bounded M argc (argv w) \<Longrightarrow>
    on_course optstring longopts long_only argc A B T d w \<Longrightarrow>
    getopt_scan n argc optstring longopts long_only px d w = Some (rs, d', w') \<Longrightarrow> argv w' = A @ B @ T \<and> optind d' = length A"
proof (induction n arbitrary: d w rs)
  case (Suc n)
  obtain r d1 w1 where c: "getopt_internal_r argc optstring longopts long_only px d w = Some (r, d1, w1)"
    and res: "permuted argc (argv w) (argv w1)" "scan_ok argc d1 w1" "\<not> fresh d1" "ordering d1 = mode_after optstring px d"
    using getopt_internal_r_ok [OF Suc.prems(1) argc vals ff Suc.prems(4), of long_only px] by (auto simp: call_result_def)
  note step = call_course [OF Suc.prems(1,2,5,3) m vals ff argc c]
  show ?case
  proof (cases "r = -1")
    case True
    then show ?thesis using step Suc.prems(6) c by simp
  next
    case False
    then obtain rs' where "getopt_scan n argc optstring longopts long_only px d1 w1 = Some (rs', d', w')"
      using Suc.prems(6) c by (auto split: Option.bind_splits)
    moreover have "ordering d1 = PERMUTE" using res(4) Suc.prems(2,3) by (simp add: mode_after_def)
    ultimately show ?thesis using Suc.IH [OF res(2,3) _ permuted_bounded [OF res(1) Suc.prems(4)]] step False by simp
  qed
qed simp

text \<open>C30: Calling \<open>getopt\<close> from the start until it returns -1 ends (when no long option has the val -1 and no character of the option string is 0xFF), within a number of calls bounded by the length of the
  arguments. The vector is then a permutation of the given one, and unless the caller or the environment asked for another
  order it is determined: behind the elements in front of the first \<open>optind\<close> come the options, each with the elements that its
  description makes its arguments, in their order and up to a \<open>--\<close> if there is one, then everything else in its order;
  and \<open>optind\<close> points to the first element behind the options. \<open>arranged\<close> says what the options and the others are.\<close>

theorem getopt_scan_arranges:
  assumes "fresh d" and "optind d \<le> argc" and "vector_ok argc w" and "0 < argc" and "vals_ok longopts"
    and "CHR 0xFF \<notin> set optstring" and "bounded M argc (argv w)"
  shows "\<exists>rs d' w'. getopt_scan ((argc + 1) * (M + 2)) argc optstring longopts long_only px d w = Some (rs, d', w')
    \<and> permuted argc (argv w) (argv w')
    \<and> (mode optstring px = PERMUTE \<longrightarrow>
         (let i = max 1 (optind d); (os, ns) = arranged optstring longopts long_only (drop i (take argc (argv w)))
          in argv w' = take i (argv w) @ os @ ns @ drop argc (argv w) \<and> optind d' = i + length os))"
proof -
  have ok: "scan_ok argc d w" using assms by (simp add: scan_ok_def)
  obtain rs d' w' where s: "getopt_scan ((argc + 1) * (M + 2)) argc optstring longopts long_only px d w = Some (rs, d', w')"
    "permuted argc (argv w) (argv w')"
    using getopt_scan_from_start [OF assms] by blast
  let ?i = "max 1 (optind d)" and ?a = "arranged optstring longopts long_only (drop (max 1 (optind d)) (take argc (argv w)))"
  have "argv w' = take ?i (argv w) @ fst ?a @ snd ?a @ drop argc (argv w) \<and> optind d' = ?i + length (fst ?a)" if m: "mode optstring px = PERMUTE"
  proof -
    let ?n = "argc * (M + 2) + M + 1"
    have "(argc + 1) * (M + 2) = Suc ?n" by simp
    note s' = s(1) [unfolded this]
    obtain r d1 w1 where c: "getopt_internal_r argc optstring longopts long_only px d w = Some (r, d1, w1)"
      and res: "permuted argc (argv w) (argv w1)" "scan_ok argc d1 w1" "\<not> fresh d1" "ordering d1 = mode_after optstring px d"
      using getopt_internal_r_ok [OF ok assms(4-7), of long_only px] by (auto simp: call_result_def)
    note step = first_course [OF assms(1,2,4,3) m assms(5,6) c]
    have len: "length (take ?i (argv w)) = ?i" using assms(2-4) by (simp add: vector_ok_def)
    show ?thesis
    proof (cases "r = -1")
      case True
      then show ?thesis using step s' c len by simp
    next
      case False
      then obtain rs' where t: "getopt_scan ?n argc optstring longopts long_only px d1 w1 = Some (rs', d', w')"
        using s' c by (auto split: Option.bind_splits)
      have o: "ordering d1 = PERMUTE" using res(4) assms(1) m by (simp add: mode_after_def)
      have "on_course optstring longopts long_only argc (take ?i (argv w) @ fst ?a) (snd ?a) (drop argc (argv w)) d1 w1"
        using step False by simp
      from scan_course [OF assms(4) m assms(5,6) res(2,3) o permuted_bounded [OF res(1) assms(7)] this t] show ?thesis using len by simp
    qed
  qed
  with s show ?thesis by (simp add: Let_def case_prod_beta)
qed

text \<open>The arguments \<open>p x -bv y -a -- -c\<close>, where \<open>-b\<close> takes an argument.\<close>

abbreviation sample_arguments :: "string list" where
  "sample_arguments \<equiv> [''p'', ''x'', ''-ab'', ''v'', ''y'', ''-a'', ''--'', ''-c'']"

lemma sample_arranged:
  "arranged ''ab:'' None False (map Some (tl sample_arguments)) = (map Some [''-ab'', ''v'', ''-a'', ''--''], map Some [''x'', ''y'', ''-c''])"
  by (simp add: nonoption_def option_takes_def Let_def)

theorem getopt_scan_arranges_witness:
  "\<exists>rs d' w'. getopt_scan 45 8 ''ab:'' None False False sample_data (sample_world sample_arguments) = Some (rs, d', w')
    \<and> take 8 (argv w') = map Some [''p'', ''-ab'', ''v'', ''-a'', ''--'', ''x'', ''y'', ''-c''] \<and> optind d' = 5"
proof -
  let ?w = "sample_world sample_arguments"
  have "fresh sample_data" "optind sample_data \<le> 8" "vector_ok 8 ?w" "vals_ok None" "CHR 0xFF \<notin> set ''ab:''" "mode ''ab:'' False = PERMUTE"
    "bounded 3 8 (argv ?w)" by (simp_all add: fresh_def sample_data_def vector_ok_def vals_ok_def mode_def bounded_def sample_world_def)
  note P = getopt_scan_arranges [OF this(1-3) _ this(4,5,7), of False False] this(6)
  have i: "max 1 (optind sample_data) = 1" by (simp add: sample_data_def)
  have v: "drop 1 (take 8 (argv ?w)) = map Some (tl sample_arguments)" "take 1 (argv ?w) = [Some ''p'']" "drop 8 (argv ?w) = [None]"
    by (simp_all add: sample_world_def)
  from P show ?thesis unfolding i Let_def v sample_arranged prod.case by auto
qed

end
