(* ===== verification/Netconfig.thy ===== *)
theory Netconfig
  imports Prelude
begin

text \<open>
  The network configuration database and the NETPATH iterator: src/src/rpc/getnetconfig.c and getnetpath.c.

  \<^item> Of the heap the model keeps the answers of the allocator and the number of live blocks, so that what is
    leaked or freed twice shows in the count. A pointer to a string of its own is the string, or \<open>None\<close> for NULL.
  \<^item> The database is the list of the entries written so far; the array behind it has room for \<open>g_entry_cap\<close>
    of them. A pointer into it is an index.
  \<^item> Handles live in a list of cells indexed by their address; a freed one is an empty cell, and reading it is
    undefined: the result is \<open>None\<close>.
  \<^item> The content of the file, the answers of the SystemConfiguration framework and the environment
    variable are arguments. The mutex makes each operation one step.
\<close>

section \<open>Memory\<close>

record heap =
  mallocs :: answers
  live :: int

definition block_take :: "heap \<Rightarrow> bool \<times> heap" where
  "block_take h = (let (ok, os) = alloc (mallocs h)
     in (ok, h\<lparr>mallocs := os, live := live h + (if ok then 1 else 0)\<rparr>))"

definition block_free :: "'a option \<Rightarrow> heap \<Rightarrow> heap" where
  "block_free p h = (if p = None then h else h\<lparr>live := live h - 1\<rparr>)"

text \<open>\<open>realloc\<close>: the block moves, or is new when there was none.\<close>

definition block_realloc :: "'a option \<Rightarrow> heap \<Rightarrow> bool \<times> heap" where
  "block_realloc p h = (let (ok, h') = block_take h in (ok, if ok then block_free p h' else h'))"

definition dup_cstr :: "string option \<Rightarrow> heap \<Rightarrow> string option \<times> heap" where
  "dup_cstr s h = (case s of
     None \<Rightarrow> (None, h)
   | Some s \<Rightarrow> let (ok, h) = block_take h in (if ok then Some s else None, h))"

definition size_mul_ok :: "nat \<Rightarrow> nat \<Rightarrow> nat option" where
  "size_mul_ok a b = (if a \<noteq> 0 \<and> (2 ^ 64 - 1) div a < b then None else Some (a * b))"

section \<open>Entries\<close>

record netconfig =
  nc_netid :: "string option"
  nc_semantics :: nat
  nc_flag :: "64 word"
  nc_protofmly :: "string option"
  nc_proto :: "string option"
  nc_device :: "string option"
  nc_nlookups :: nat
  nc_lookups :: "string option list option"
  nc_unused :: "64 word list"

definition zeroed :: netconfig where
  "zeroed = \<lparr>nc_netid = None, nc_semantics = 0, nc_flag = 0, nc_protofmly = None, nc_proto = None, nc_device = None,
     nc_nlookups = 0, nc_lookups = None, nc_unused = replicate 9 0\<rparr>"

abbreviation NC_VISIBLE :: "64 word" where "NC_VISIBLE \<equiv> 1"
abbreviation NC_BROADCAST :: "64 word" where "NC_BROADCAST \<equiv> 2"

text \<open>Freeing the first \<open>n\<close> strings of an array and the array.\<close>

definition free_strings :: "string option list option \<Rightarrow> nat \<Rightarrow> heap \<Rightarrow> heap option" where
  "free_strings xs n h = (case xs of
     None \<Rightarrow> Some h
   | Some ys \<Rightarrow> if n \<le> length ys then Some (block_free xs (fold block_free (take n ys) h)) else None)"

definition free_netconfig_fields :: "netconfig \<Rightarrow> heap \<Rightarrow> (netconfig \<times> heap) option" where
  "free_netconfig_fields nc h =
     do { let h = block_free (nc_device nc) (block_free (nc_proto nc) (block_free (nc_protofmly nc) (block_free (nc_netid nc) h)));
          h \<leftarrow> free_strings (nc_lookups nc) (nc_nlookups nc) h;
          Some (zeroed, h) }"

definition parse_semantics :: "string \<Rightarrow> nat option" where
  "parse_semantics token =
     (if token = ''tpi_cots_ord'' then Some 3
      else if token = ''tpi_cots'' then Some 2
      else if token = ''tpi_clts'' then Some 1
      else if token = ''tpi_raw'' then Some 4
      else None)"

fun flags_loop :: "string \<Rightarrow> 64 word \<Rightarrow> 64 word option" where
  "flags_loop [] flags = Some flags"
| "flags_loop (c # cs) flags =
     (if c = CHR ''-'' then flags_loop cs flags
      else if c = CHR ''v'' then flags_loop cs (or flags NC_VISIBLE)
      else if c = CHR ''b'' then flags_loop cs (or flags NC_BROADCAST)
      else None)"

definition parse_flags :: "string \<Rightarrow> 64 word option" where
  "parse_flags token = flags_loop token 0"

text \<open>\<open>strtok_r\<close>: the next token and what is behind its delimiter.\<close>

definition strtok_r :: "string \<Rightarrow> string \<Rightarrow> (string \<times> string) option" where
  "strtok_r delims s =
     (let s = dropWhile (\<lambda>c. c \<in> set delims) s
      in if s = [] then None
         else Some (takeWhile (\<lambda>c. c \<notin> set delims) s, drop 1 (dropWhile (\<lambda>c. c \<notin> set delims) s)))"

lemma strtok_r_shorter: "strtok_r delims s = Some (t, r) \<Longrightarrow> length r < length s"
proof -
  assume a: "strtok_r delims s = Some (t, r)"
  let ?s = "dropWhile (\<lambda>c. c \<in> set delims) s"
  have "length (dropWhile (\<lambda>c. c \<notin> set delims) ?s) \<le> length ?s" "length ?s \<le> length s"
    by (rule length_dropWhile_le)+
  moreover have "?s \<noteq> []" "r = drop 1 (dropWhile (\<lambda>c. c \<notin> set delims) ?s)"
    using a by (auto simp: strtok_r_def Let_def split: if_splits)
  ultimately show ?thesis by (cases ?s) auto
qed

text \<open>The strings of the lookup array, in a block with room for \<open>cap\<close> pointers.\<close>

definition cells :: "'a list option \<Rightarrow> 'a list" where
  "cells xs = (case xs of None \<Rightarrow> [] | Some ys \<Rightarrow> ys)"

function lookups_loop :: "string \<Rightarrow> string option list option \<Rightarrow> nat \<Rightarrow> heap
    \<Rightarrow> (bool \<times> string option list option \<times> heap) option" where
  "lookups_loop rest lookups cap h =
     (case strtok_r '','' rest of
        None \<Rightarrow> Some (True, lookups, h)
      | Some (segment, rest') \<Rightarrow>
          if segment \<noteq> [] then
            do { let (ok, lookups', cap', h) =
                   (if length (cells lookups) = cap then
                      let new_cap = (if cap = 0 then 4 else cap * 2) in
                      (case size_mul_ok new_cap 8 of
                         None \<Rightarrow> (False, lookups, cap, h)
                       | Some bytes \<Rightarrow>
                           let (ok, h) = block_realloc lookups h
                           in if ok then (True, Some (cells lookups), new_cap, h) else (False, lookups, cap, h))
                    else (True, lookups, cap, h));
                 if \<not> ok then Some (False, lookups', h)
                 else
                   do { let (v, h) = dup_cstr (Some segment) h;
                        if v = None then Some (False, lookups', h)
                        else if length (cells lookups') < cap' then lookups_loop rest' (Some (cells lookups' @ [v])) cap' h
                        else None } }
          else lookups_loop rest' lookups cap h)"
  by pat_completeness auto
termination by (relation "measure (\<lambda>(rest, lookups, cap, h). length rest)") (auto dest: strtok_r_shorter)

declare lookups_loop.simps [simp del]

text \<open>The count and the array, or a failure.\<close>

definition parse_lookups :: "string \<Rightarrow> heap \<Rightarrow> ((nat \<times> string option list option) option \<times> heap) option" where
  "parse_lookups token h =
     (if token = ''-'' then Some (Some (0, None), h)
      else
        let (work, h) = dup_cstr (Some token) h in
        if work = None then Some (None, h)
        else
          do { (ok, lookups, h) \<leftarrow> lookups_loop token None 0 h;
               if ok then Some (Some (length (cells lookups), lookups), block_free work h)
               else do { h \<leftarrow> free_strings lookups (length (cells lookups)) h; Some (None, block_free work h) } })"

fun next_fields :: "nat \<Rightarrow> string \<Rightarrow> string list option" where
  "next_fields 0 line = Some []"
| "next_fields (Suc n) line =
     do { (t, rest) \<leftarrow> strtok_r [CHR '' '', CHR 0x09] line; ts \<leftarrow> next_fields n rest; Some (t # ts) }"

text \<open>The result, the entry and whether it is one.\<close>

definition parse_netconfig_line :: "string option \<Rightarrow> heap \<Rightarrow> (bool \<times> netconfig \<times> bool \<times> heap) option" where
  "parse_netconfig_line line h =
     (case line of
        None \<Rightarrow> Some (False, zeroed, False, h)
      | Some l \<Rightarrow>
          (case next_fields 7 (takeWhile (\<lambda>c. c \<noteq> CHR 0x0D \<and> c \<noteq> CHR 0x0A) l) of
             None \<Rightarrow> Some (False, zeroed, False, h)
           | Some fs \<Rightarrow>
               let (netid, h) = dup_cstr (Some (fs ! 0)) h;
                   (protofmly, h) = dup_cstr (Some (fs ! 3)) h;
                   (proto, h) = dup_cstr (Some (fs ! 4)) h;
                   (device, h) = dup_cstr (Some (fs ! 5)) h;
                   out = zeroed\<lparr>nc_netid := netid, nc_protofmly := protofmly, nc_proto := proto, nc_device := device\<rparr>;
                   fail = (\<lambda>out h. do { (out, h) \<leftarrow> free_netconfig_fields out h; Some (False, out, False, h) })
               in if netid = None \<or> protofmly = None \<or> proto = None \<or> device = None then fail out h
                  else
                    (case parse_semantics (fs ! 1) of
                       None \<Rightarrow> fail out h
                     | Some semantics \<Rightarrow>
                         let out = out\<lparr>nc_semantics := semantics\<rparr> in
                         (case parse_flags (fs ! 2) of
                            None \<Rightarrow> fail out h
                          | Some flags \<Rightarrow>
                              let out = out\<lparr>nc_flag := flags\<rparr> in
                              do { (r, h) \<leftarrow> parse_lookups (fs ! 6) h;
                                   (case r of
                                      None \<Rightarrow> fail out h
                                    | Some (n, lookups) \<Rightarrow>
                                        Some (True, out\<lparr>nc_nlookups := n, nc_lookups := lookups\<rparr>, True, h)) }))))"


section \<open>The database\<close>

datatype nc_error = NC_NOERROR | NC_NONETCONFIG | NC_NOMEM | NC_NOTINIT | NC_BADFILE | NC_NOTFOUND

record nc_handle =
  magic :: nat
  index :: nat

abbreviation NC_HANDLE_MAGIC :: nat where "NC_HANDLE_MAGIC \<equiv> 0x4e434647"
abbreviation NP_HANDLE_MAGIC :: nat where "NP_HANDLE_MAGIC \<equiv> 0x4e505448"

record nc_state =
  g_entries :: "netconfig list option"
  g_entry_cap :: nat
  g_refcount :: "32 word"
  g_loaded :: bool
  g_nc_error :: nc_error
  handles :: "nc_handle option list"
  heap :: heap

definition nc_set_error :: "nc_error \<Rightarrow> nc_state \<Rightarrow> nc_state" where
  "nc_set_error err s = s\<lparr>g_nc_error := err\<rparr>"

definition nc_get_error :: "nc_state \<Rightarrow> nc_error" where
  "nc_get_error s = g_nc_error s"

text \<open>\<open>sizeof(struct netconfig)\<close> is 136.\<close>

definition append_global_entry :: "netconfig \<Rightarrow> nc_state \<Rightarrow> (bool \<times> netconfig \<times> nc_state) option" where
  "append_global_entry entry s =
     do { let (ok, s) =
            (if length (cells (g_entries s)) = g_entry_cap s then
               let new_cap = (if g_entry_cap s = 0 then 8 else g_entry_cap s * 2) in
               (case size_mul_ok new_cap 136 of
                  None \<Rightarrow> (False, s)
                | Some bytes \<Rightarrow>
                    let (ok, h) = block_realloc (g_entries s) (heap s)
                    in if ok then (True, s\<lparr>g_entries := Some (cells (g_entries s)), g_entry_cap := new_cap, heap := h\<rparr>)
                       else (False, s\<lparr>heap := h\<rparr>))
             else (True, s));
          if \<not> ok then Some (False, entry, s)
          else if length (cells (g_entries s)) < g_entry_cap s then
            Some (True, zeroed, s\<lparr>g_entries := Some (cells (g_entries s) @ [entry])\<rparr>)
          else None }"

fun free_entries :: "netconfig list \<Rightarrow> heap \<Rightarrow> heap option" where
  "free_entries [] h = Some h"
| "free_entries (nc # ncs) h = do { (_, h) \<leftarrow> free_netconfig_fields nc h; free_entries ncs h }"

definition clear_global_entries :: "nc_state \<Rightarrow> nc_state option" where
  "clear_global_entries s =
     do { h \<leftarrow> free_entries (cells (g_entries s)) (heap s);
          Some (s\<lparr>g_entries := None, g_entry_cap := 0, g_loaded := False, heap := block_free (g_entries s) h\<rparr>) }"

subsection \<open>Loading\<close>

datatype load_state = LOAD_STATE_OK | LOAD_STATE_NOFILE | LOAD_STATE_ERROR

abbreviation LF :: char where "LF \<equiv> CHR 0x0A"

text \<open>\<open>fgets\<close> with a buffer of \<open>n + 1\<close> bytes: the bytes read, what is left of the file, and the end-of-file
  indicator, which is set when the end was met before the buffer was full.\<close>

fun fgets :: "nat \<Rightarrow> string \<Rightarrow> string \<times> string \<times> bool" where
  "fgets 0 cs = ([], cs, False)"
| "fgets (Suc n) [] = ([], [], True)"
| "fgets (Suc n) (c # cs) =
     (if c = LF then ([c], cs, False) else let (l, rest, eof) = fgets n cs in (c # l, rest, eof))"

lemma fgets_shorter: "fgets (Suc n) (c # cs) = (l, rest, eof) \<Longrightarrow> length rest < length (c # cs)"
proof -
  have "fgets n cs = (l, rest, eof) \<Longrightarrow> length rest \<le> length cs" for n cs l rest eof
    by (induction n cs arbitrary: l rest eof rule: fgets.induct) (auto split: if_splits prod.splits intro: le_SucI)
  then show "fgets (Suc n) (c # cs) = (l, rest, eof) \<Longrightarrow> length rest < length (c # cs)"
    by (auto split: if_splits prod.splits simp: less_Suc_eq_le)
qed

text \<open>The string in the buffer ends at the first NUL byte.\<close>

definition c_line :: "string \<Rightarrow> string" where
  "c_line l = takeWhile (\<lambda>c. c \<noteq> NUL) l"

definition MAXNETCONFIGLINE :: nat where "MAXNETCONFIGLINE = 1000"

function load_file_loop :: "string \<Rightarrow> bool \<Rightarrow> nc_state \<Rightarrow> (load_state \<times> nc_state) option" where
  "load_file_loop content saw_data s =
     (if content = [] then
        if saw_data then Some (LOAD_STATE_OK, s) else Some (LOAD_STATE_ERROR, nc_set_error NC_BADFILE s)
      else
        (case fgets (Suc (MAXNETCONFIGLINE - 2)) content of
           (l, rest, eof) \<Rightarrow>
             if take 1 (c_line l) = ''#'' then load_file_loop rest saw_data s
             else if LF \<notin> set (c_line l) \<and> \<not> eof then Some (LOAD_STATE_ERROR, nc_set_error NC_BADFILE s)
             else
               (case parse_netconfig_line (Some (c_line l)) (heap s) of
                  None \<Rightarrow> None
                | Some (ok, entry, is_entry, h) \<Rightarrow>
                    let s = s\<lparr>heap := h\<rparr> in
                    if \<not> ok then Some (LOAD_STATE_ERROR, nc_set_error NC_BADFILE s)
                    else
                      (case append_global_entry entry s of
                         None \<Rightarrow> None
                       | Some (ok, entry, s) \<Rightarrow>
                           if ok then load_file_loop rest True s
                           else
                             do { (_, h) \<leftarrow> free_netconfig_fields entry (heap s);
                                  Some (LOAD_STATE_ERROR, nc_set_error NC_NOMEM (s\<lparr>heap := h\<rparr>)) }))))"
  by pat_completeness auto
termination
  by (relation "measure (\<lambda>(content, saw_data, s). length content)")
    (auto simp: neq_Nil_conv simp del: fgets.simps dest!: fgets_shorter [OF sym])

declare load_file_loop.simps [simp del]

text \<open>\<open>file\<close>: the content of /etc/netconfig, when it can be opened.\<close>

definition load_file_entries :: "string option \<Rightarrow> nc_state \<Rightarrow> (load_state \<times> nc_state) option" where
  "load_file_entries file s = (case file of
     None \<Rightarrow> Some (LOAD_STATE_NOFILE, s)
   | Some content \<Rightarrow> load_file_loop content False s)"

definition default_lines :: "bool \<Rightarrow> bool \<Rightarrow> string list" where
  "default_lines v4_visible v6_visible =
     (let v4_flag = (if v4_visible then ''v'' else ''-''); v6_flag = (if v6_visible then ''v'' else ''-'')
      in [''udp6 tpi_clts '' @ v6_flag @ '' inet6 udp - -'',
          ''tcp6 tpi_cots_ord '' @ v6_flag @ '' inet6 tcp - -'',
          ''udp tpi_clts '' @ v4_flag @ '' inet udp - -'',
          ''tcp tpi_cots_ord '' @ v4_flag @ '' inet tcp - -'',
          ''rawip tpi_raw - inet - - -'',
          ''local tpi_cots_ord - loopback - - -''])"

fun load_default_loop :: "string list \<Rightarrow> nc_state \<Rightarrow> (bool \<times> nc_state) option" where
  "load_default_loop [] s = Some (True, s)"
| "load_default_loop (l # ls) s =
     (if MAXNETCONFIGLINE < length l + 1 then Some (False, nc_set_error NC_BADFILE s)
      else
        do { (ok, entry, is_entry, h) \<leftarrow> parse_netconfig_line (Some l) (heap s);
             let s = s\<lparr>heap := h\<rparr>;
             if \<not> ok \<or> \<not> is_entry then
               do { (_, h) \<leftarrow> free_netconfig_fields entry (heap s);
                    Some (False, nc_set_error NC_BADFILE (s\<lparr>heap := h\<rparr>)) }
             else
               do { (ok, entry, s) \<leftarrow> append_global_entry entry s;
                    if ok then load_default_loop ls s
                    else
                      do { (_, h) \<leftarrow> free_netconfig_fields entry (heap s);
                           Some (False, nc_set_error NC_NOMEM (s\<lparr>heap := h\<rparr>)) } } })"

definition load_default_entries_with_visibility :: "bool \<Rightarrow> bool \<Rightarrow> nc_state \<Rightarrow> (bool \<times> nc_state) option" where
  "load_default_entries_with_visibility v4_visible v6_visible s = load_default_loop (default_lines v4_visible v6_visible) s"

definition load_default_entries :: "nc_state \<Rightarrow> (bool \<times> nc_state) option" where
  "load_default_entries s = load_default_entries_with_visibility True True s"

text \<open>The SystemConfiguration framework: whether it and the symbols it needs could be loaded, and its functions on keys and
  values. A value is given by its type and, for a dictionary, its number of entries.\<close>

record sc_runtime =
  dlopen_framework :: bool
  dlsym :: "string \<Rightarrow> bool"
  CFStringCreateWithCString :: "string \<Rightarrow> nat option"
  SCDynamicStoreCopyValue :: "nat \<Rightarrow> (nat \<times> int) option"
  CFDictionaryGetTypeID :: nat

definition sc_runtime_ready :: "sc_runtime \<Rightarrow> bool" where
  "sc_runtime_ready sc \<longleftrightarrow> dlopen_framework sc \<and> dlsym sc ''SCDynamicStoreCopyValue''
     \<and> dlsym sc ''CFStringCreateWithCString'' \<and> dlsym sc ''CFRelease'' \<and> dlsym sc ''CFGetTypeID''
     \<and> dlsym sc ''CFDictionaryGetTypeID'' \<and> dlsym sc ''CFDictionaryGetCount''"

definition sc_has_global_entity_key :: "sc_runtime \<Rightarrow> string \<Rightarrow> bool" where
  "sc_has_global_entity_key sc key_path =
     (if \<not> sc_runtime_ready sc then False
      else case CFStringCreateWithCString sc key_path of
        None \<Rightarrow> False
      | Some key \<Rightarrow>
          (case SCDynamicStoreCopyValue sc key of
             None \<Rightarrow> False
           | Some (type_id, n) \<Rightarrow> type_id = CFDictionaryGetTypeID sc \<and> 0 < n))"

definition load_systemconfiguration_entries :: "sc_runtime \<Rightarrow> nc_state \<Rightarrow> (load_state \<times> nc_state) option" where
  "load_systemconfiguration_entries sc s =
     (let have_v4 = sc_has_global_entity_key sc ''State:/Network/Global/IPv4'';
          have_v6 = sc_has_global_entity_key sc ''State:/Network/Global/IPv6'';
          (have_v4, have_v6, have_signal) =
            (if \<not> (have_v4 \<or> have_v6) then
               let setup_v4 = sc_has_global_entity_key sc ''Setup:/Network/Global/IPv4'';
                   setup_v6 = sc_has_global_entity_key sc ''Setup:/Network/Global/IPv6''
               in (have_v4 \<or> setup_v4, have_v6 \<or> setup_v6, setup_v4 \<or> setup_v6)
             else (have_v4, have_v6, True))
      in if \<not> have_signal then Some (LOAD_STATE_NOFILE, s)
         else do { (ok, s) \<leftarrow> load_default_entries_with_visibility have_v4 have_v6 s;
                   Some (if ok then LOAD_STATE_OK else LOAD_STATE_ERROR, s) })"

definition ensure_entries_loaded :: "string option \<Rightarrow> sc_runtime \<Rightarrow> nc_state \<Rightarrow> (bool \<times> nc_state) option" where
  "ensure_entries_loaded file sc s =
     (if g_loaded s then Some (True, s)
      else
        do { (status, s) \<leftarrow> load_file_entries file s;
             if status = LOAD_STATE_OK then Some (True, s\<lparr>g_loaded := True\<rparr>)
             else if status = LOAD_STATE_ERROR then do { s \<leftarrow> clear_global_entries s; Some (False, s) }
             else
               do { (status, s) \<leftarrow> load_systemconfiguration_entries sc s;
                    if status = LOAD_STATE_OK then Some (True, s\<lparr>g_loaded := True\<rparr>)
                    else if status = LOAD_STATE_ERROR then do { s \<leftarrow> clear_global_entries s; Some (False, s) }
                    else
                      do { (ok, s) \<leftarrow> load_default_entries s;
                           if \<not> ok then
                             do { s \<leftarrow> clear_global_entries s;
                                  Some (False, if g_nc_error s = NC_NOERROR then nc_set_error NC_NONETCONFIG s else s) }
                           else Some (True, s\<lparr>g_loaded := True\<rparr>) } } })"

subsection \<open>Operations\<close>

fun dup_lookups :: "string option list \<Rightarrow> string option list \<Rightarrow> heap \<Rightarrow> bool \<times> string option list \<times> heap" where
  "dup_lookups done [] h = (True, done, h)"
| "dup_lookups done (l # ls) h =
     (let (v, h) = dup_cstr l h
      in if v = None then (False, done @ replicate (length (l # ls)) None, h) else dup_lookups (done @ [v]) ls h)"

text \<open>A copy of an entry, in blocks of its own. The array of lookups is cleared before it is filled.\<close>

definition dup_entry :: "netconfig \<Rightarrow> heap \<Rightarrow> (netconfig option \<times> heap) option" where
  "dup_entry source h =
     (let (ok, h) = block_take h in
      if \<not> ok then Some (None, h)
      else
        let (netid, h) = dup_cstr (nc_netid source) h;
            (protofmly, h) = dup_cstr (nc_protofmly source) h;
            (proto, h) = dup_cstr (nc_proto source) h;
            (device, h) = dup_cstr (nc_device source) h;
            copy = zeroed\<lparr>nc_semantics := nc_semantics source, nc_flag := nc_flag source,
                     nc_nlookups := nc_nlookups source, nc_unused := nc_unused source,
                     nc_netid := netid, nc_protofmly := protofmly, nc_proto := proto, nc_device := device\<rparr>;
            fail = (\<lambda>copy h. do { (copy, h) \<leftarrow> free_netconfig_fields copy h; Some (None, block_free (Some copy) h) })
        in if netid = None \<or> protofmly = None \<or> proto = None \<or> device = None then fail copy h
           else if nc_nlookups source = 0 then Some (Some copy, h)
           else
             (case size_mul_ok (nc_nlookups source) 8 of
                None \<Rightarrow> fail copy h
              | Some bytes \<Rightarrow>
                  let (ok, h) = block_take h in
                  if \<not> ok then fail copy h
                  else
                    do { ls \<leftarrow> nc_lookups source;
                         if nc_nlookups source \<le> length ls then
                           let (ok, new, h) = dup_lookups [] (take (nc_nlookups source) ls) h;
                               copy = copy\<lparr>nc_lookups := Some new\<rparr>
                           in if ok then Some (Some copy, h) else fail copy h
                         else None }))"

definition freenetconfigent :: "netconfig option \<Rightarrow> nc_state \<Rightarrow> nc_state option" where
  "freenetconfigent p s = (case p of
     None \<Rightarrow> Some s
   | Some nc \<Rightarrow> do { (nc, h) \<leftarrow> free_netconfig_fields nc (heap s); Some (s\<lparr>heap := block_free (Some nc) h\<rparr>) })"

text \<open>The handle at an address. A null pointer and a wrong magic number are the caller's error; a freed cell is undefined.\<close>

definition handle_at :: "nc_handle option list \<Rightarrow> nat \<Rightarrow> nc_handle option" where
  "handle_at hs a = (if a < length hs then hs ! a else None)"

definition setnetconfig :: "string option \<Rightarrow> sc_runtime \<Rightarrow> nc_state \<Rightarrow> (nat option \<times> nc_state) option" where
  "setnetconfig file sc s =
     (let (ok, h) = block_take (heap s); s = s\<lparr>heap := h\<rparr> in
      if \<not> ok then Some (None, nc_set_error NC_NOMEM s)
      else
        do { (ok, s) \<leftarrow> ensure_entries_loaded file sc s;
             if \<not> ok then Some (None, s\<lparr>heap := block_free (Some ()) (heap s)\<rparr>)
             else Some (Some (length (handles s)),
                    s\<lparr>g_refcount := g_refcount s + 1,
                      handles := handles s @ [Some \<lparr>magic = NC_HANDLE_MAGIC, index = 0\<rparr>]\<rparr>) })"

text \<open>The pointer returned is the index of an entry of the database.\<close>

definition getnetconfig :: "nat option \<Rightarrow> nc_state \<Rightarrow> (nat option \<times> nc_state) option" where
  "getnetconfig handlep s =
     (case handlep of
        None \<Rightarrow> Some (None, nc_set_error NC_NOTINIT s)
      | Some a \<Rightarrow>
          do { handle \<leftarrow> handle_at (handles s) a;
               if magic handle \<noteq> NC_HANDLE_MAGIC then Some (None, nc_set_error NC_NOTINIT s)
               else if \<not> g_loaded s then Some (None, nc_set_error NC_NOTINIT s)
               else if index handle < length (cells (g_entries s)) then
                 Some (Some (index handle), s\<lparr>handles := (handles s)[a := Some (handle\<lparr>index := index handle + 1\<rparr>)]\<rparr>)
               else Some (None, s) })"

definition endnetconfig :: "nat option \<Rightarrow> nc_state \<Rightarrow> (int \<times> nc_state) option" where
  "endnetconfig handlep s =
     (case handlep of
        None \<Rightarrow> Some (-1, nc_set_error NC_NOTINIT s)
      | Some a \<Rightarrow>
          do { handle \<leftarrow> handle_at (handles s) a;
               if magic handle \<noteq> NC_HANDLE_MAGIC then Some (-1, nc_set_error NC_NOTINIT s)
               else
                 do { let s = (if 0 < g_refcount s then s\<lparr>g_refcount := g_refcount s - 1\<rparr> else s);
                      s \<leftarrow> (if g_refcount s = 0 then clear_global_entries s else Some s);
                      Some (0, s\<lparr>handles := (handles s)[a := None], heap := block_free (Some handle) (heap s)\<rparr>) } })"

fun find_entry :: "string \<Rightarrow> netconfig list \<Rightarrow> netconfig option" where
  "find_entry netid [] = None"
| "find_entry netid (nc # ncs) = (if nc_netid nc = Some netid then Some nc else find_entry netid ncs)"

definition getnetconfigent :: "string option \<Rightarrow> string option \<Rightarrow> sc_runtime \<Rightarrow> nc_state
    \<Rightarrow> (netconfig option \<times> nc_state) option" where
  "getnetconfigent netid file sc s =
     (let s = nc_set_error NC_NOTFOUND s in
      case netid of
        None \<Rightarrow> Some (None, s)
      | Some netid \<Rightarrow>
          if netid = [] then Some (None, s)
          else
            do { (ok, s) \<leftarrow> ensure_entries_loaded file sc s;
                 if \<not> ok then Some (None, s)
                 else
                   (case find_entry netid (cells (g_entries s)) of
                      None \<Rightarrow> Some (None, if g_nc_error s = NC_NOERROR then nc_set_error NC_NOTFOUND s else s)
                    | Some source \<Rightarrow>
                        do { (copy, h) \<leftarrow> dup_entry source (heap s);
                             let s = s\<lparr>heap := h\<rparr>;
                             Some (copy, if copy = None then nc_set_error NC_NOMEM s else s) }) })"

definition nc_sperror :: "nc_state \<Rightarrow> string" where
  "nc_sperror s = (case g_nc_error s of
      NC_NONETCONFIG \<Rightarrow> ''Netconfig database not found''
    | NC_NOMEM \<Rightarrow> ''Not enough memory''
    | NC_NOTINIT \<Rightarrow> ''Not initialized''
    | NC_BADFILE \<Rightarrow> ''Netconfig database has invalid format''
    | NC_NOTFOUND \<Rightarrow> ''Netid not found in netconfig database''
    | _ \<Rightarrow> ''Unknown network selection error'')"

definition nc_perror :: "string \<Rightarrow> nc_state \<Rightarrow> string" where
  "nc_perror prefix_text s = prefix_text @ '': '' @ nc_sperror s @ [LF]"

section \<open>The NETPATH iterator\<close>

record np_handle =
  np_magic :: nat
  use_visible :: bool
  np_nc_handle :: "nat option"
  netpath_buf :: "string option"
  cursor :: "string option"
  tracked :: "netconfig list"

record np_state =
  conf :: nc_state
  paths :: "np_handle option list"
  np_errno :: errno

fun netpath_unescape :: "string \<Rightarrow> string" where
  "netpath_unescape [] = []"
| "netpath_unescape (c # cs) =
     (if c = CHR 0x5C \<and> cs \<noteq> [] then hd cs # netpath_unescape (tl cs) else c # netpath_unescape cs)"

text \<open>The scan for the delimiter: the token as it stands, and what is behind the delimiter.\<close>

fun token_scan :: "char \<Rightarrow> bool \<Rightarrow> string \<Rightarrow> string \<times> string option" where
  "token_scan delim escaped [] = ([], None)"
| "token_scan delim escaped (c # cs) =
     (if \<not> escaped \<and> c = CHR 0x5C then let (t, rest) = token_scan delim True cs in (c # t, rest)
      else if \<not> escaped \<and> c = delim then ([], Some cs)
      else let (t, rest) = token_scan delim False cs in (c # t, rest))"

text \<open>The token left at the front of the text, and the pointer returned.\<close>

definition netpath_next_token :: "string \<Rightarrow> char \<Rightarrow> string \<times> string option" where
  "netpath_next_token s delim =
     (if s = [] then ([], None)
      else let (t, rest) = token_scan delim False s in (netpath_unescape t, rest))"

text \<open>A list cell for the entry, at the tail.\<close>

definition netpath_track_entry :: "np_handle \<Rightarrow> netconfig \<Rightarrow> heap \<Rightarrow> bool \<times> np_handle \<times> heap" where
  "netpath_track_entry np entry h =
     (let (ok, h) = block_take h in if ok then (True, np\<lparr>tracked := tracked np @ [entry]\<rparr>, h) else (False, np, h))"

definition path_at :: "np_handle option list \<Rightarrow> nat \<Rightarrow> np_handle option" where
  "path_at ps a = (if a < length ps then ps ! a else None)"

text \<open>\<open>env\<close>: the value of NETPATH.\<close>

definition setnetpath :: "string option \<Rightarrow> string option \<Rightarrow> sc_runtime \<Rightarrow> np_state \<Rightarrow> (nat option \<times> np_state) option" where
  "setnetpath env file sc s =
     (let (ok, h) = block_take (heap (conf s)); s = s\<lparr>conf := (conf s)\<lparr>heap := h\<rparr>\<rparr> in
      if \<not> ok then Some (None, s\<lparr>conf := nc_set_error NC_NOMEM (conf s)\<rparr>)
      else
        let np = \<lparr>np_magic = NP_HANDLE_MAGIC, use_visible = False, np_nc_handle = None, netpath_buf = None,
                   cursor = None, tracked = []\<rparr>;
            free_np = (\<lambda>s. s\<lparr>conf := (conf s)\<lparr>heap := block_free (Some np) (heap (conf s))\<rparr>\<rparr>);
            new = (\<lambda>np s. (Some (length (paths s)), s\<lparr>paths := paths s @ [Some np]\<rparr>))
        in if env = None \<or> env = Some [] then
             do { (p, c) \<leftarrow> setnetconfig file sc (conf s);
                  let s = s\<lparr>conf := c\<rparr>;
                  if p = None then Some (None, free_np s)
                  else Some (new (np\<lparr>use_visible := True, np_nc_handle := p\<rparr>) s) }
           else
             let (buf, h) = dup_cstr env (heap (conf s)); s = s\<lparr>conf := (conf s)\<lparr>heap := h\<rparr>\<rparr> in
             if buf = None then Some (None, free_np (s\<lparr>conf := nc_set_error NC_NOMEM (conf s)\<rparr>))
             else Some (new (np\<lparr>netpath_buf := buf, cursor := buf\<rparr>) s))"

text \<open>What \<open>getnetpath\<close> returns points into the database or is a copy the handle keeps.\<close>

datatype entry_ptr = Database nat | Copy netconfig

text \<open>The loop over the visible entries; \<open>fuel\<close> is more than there are entries.\<close>

fun visible_loop :: "nat \<Rightarrow> nat option \<Rightarrow> nc_state \<Rightarrow> (nat option \<times> nc_state) option" where
  "visible_loop 0 p s = None"
| "visible_loop (Suc fuel) p s =
     do { (e, s) \<leftarrow> getnetconfig p s;
          (case e of
             None \<Rightarrow> Some (None, s)
           | Some i \<Rightarrow>
               do { entry \<leftarrow> mem_read (cells (g_entries s)) i;
                    if and (nc_flag entry) NC_VISIBLE = 0 then visible_loop fuel p s else Some (Some i, s) }) }"

lemma token_scan_shorter: "snd (token_scan delim escaped s) = Some rest \<Longrightarrow> length rest < length s"
  by (induction delim escaped s arbitrary: rest rule: token_scan.induct)
    (auto split: if_splits prod.splits simp: less_SucI)

lemma next_token_shorter: "netpath_next_token s delim = (t, Some rest) \<Longrightarrow> length rest < length s"
  using token_scan_shorter [of delim False s rest]
  by (auto simp: netpath_next_token_def split: if_splits prod.splits)

text \<open>The loop over the tokens of NETPATH from the cursor on.\<close>

function path_loop :: "string option \<Rightarrow> sc_runtime \<Rightarrow> np_handle \<Rightarrow> nc_state
    \<Rightarrow> (netconfig option \<times> np_handle \<times> nc_state) option" where
  "path_loop file sc np c =
     (case cursor np of
        None \<Rightarrow> Some (None, np, c)
      | Some s \<Rightarrow>
          (case netpath_next_token s CHR '':'' of
             (token, rest) \<Rightarrow>
               let np = np\<lparr>cursor := rest\<rparr> in
               if token = [] then path_loop file sc np c
               else
                 (case getnetconfigent (Some token) file sc c of
                    None \<Rightarrow> None
                  | Some (None, c) \<Rightarrow>
                      if nc_get_error c = NC_NOTFOUND then path_loop file sc np (nc_set_error NC_NOERROR c)
                      else Some (None, np, c)
                  | Some (Some entry, c) \<Rightarrow>
                      let (ok, np, h) = netpath_track_entry np entry (heap c); c = c\<lparr>heap := h\<rparr> in
                      if ok then Some (Some entry, np, c)
                      else do { c \<leftarrow> freenetconfigent (Some entry) c; Some (None, np, nc_set_error NC_NOMEM c) })))"
  by pat_completeness auto
termination
proof (relation "measure (\<lambda>(file, sc, np, c). case cursor np of None \<Rightarrow> 0 | Some s \<Rightarrow> Suc (length s))")
qed (auto split: option.split dest!: next_token_shorter [OF sym])

declare path_loop.simps [simp del]

definition getnetpath :: "nat option \<Rightarrow> string option \<Rightarrow> sc_runtime \<Rightarrow> np_state \<Rightarrow> (entry_ptr option \<times> np_state) option" where
  "getnetpath handlep file sc s =
     (case handlep of
        None \<Rightarrow> Some (None, s\<lparr>np_errno := EINVAL, conf := nc_set_error NC_NOTINIT (conf s)\<rparr>)
      | Some a \<Rightarrow>
          do { np \<leftarrow> path_at (paths s) a;
               if np_magic np \<noteq> NP_HANDLE_MAGIC then
                 Some (None, s\<lparr>np_errno := EINVAL, conf := nc_set_error NC_NOTINIT (conf s)\<rparr>)
               else if use_visible np then
                 do { (e, c) \<leftarrow> visible_loop (length (cells (g_entries (conf s))) + 1) (np_nc_handle np) (conf s);
                      Some (map_option Database e, s\<lparr>conf := c\<rparr>) }
               else
                 do { (e, np, c) \<leftarrow> path_loop file sc np (conf s);
                      Some (map_option Copy e, s\<lparr>conf := c, paths := (paths s)[a := Some np]\<rparr>) } })"

fun free_tracked :: "netconfig list \<Rightarrow> nc_state \<Rightarrow> nc_state option" where
  "free_tracked [] c = Some c"
| "free_tracked (e # es) c =
     do { c \<leftarrow> freenetconfigent (Some e) c; free_tracked es (c\<lparr>heap := block_free (Some e) (heap c)\<rparr>) }"

definition endnetpath :: "nat option \<Rightarrow> np_state \<Rightarrow> (int \<times> np_state) option" where
  "endnetpath handlep s =
     (case handlep of
        None \<Rightarrow> Some (-1, s\<lparr>np_errno := EINVAL\<rparr>)
      | Some a \<Rightarrow>
          do { np \<leftarrow> path_at (paths s) a;
               if np_magic np \<noteq> NP_HANDLE_MAGIC then Some (-1, s\<lparr>np_errno := EINVAL\<rparr>)
               else
                 do { c \<leftarrow> (case np_nc_handle np of
                              None \<Rightarrow> Some (conf s)
                            | Some p \<Rightarrow> do { (r, c) \<leftarrow> endnetconfig (Some p) (conf s); Some c });
                      let c = c\<lparr>heap := block_free (netpath_buf np) (heap c)\<rparr>;
                      c \<leftarrow> free_tracked (tracked np) c;
                      Some (0, s\<lparr>conf := c\<lparr>heap := block_free (Some np) (heap c)\<rparr>, paths := (paths s)[a := None]\<rparr>) } })"

end
