(* ===== verification/NetOwnership.thy ===== *)
theory NetOwnership
  imports Netconfig "HOL-Library.Multiset"
begin

text \<open>
  Which block of the netconfig library belongs to what: every operation of \<open>Netconfig\<close> keeps the count of live blocks equal
  to what the database, the open handles, the walks and the client's copies own, whatever allocations fail.
\<close>

section \<open>Ownership\<close>

text \<open>The number of blocks behind a pointer, an array of strings, and an entry.\<close>

definition owns :: "'a option \<Rightarrow> int" where
  "owns p = (if p = None then 0 else 1)"

definition array_blocks :: "string option list option \<Rightarrow> int" where
  "array_blocks xs = owns xs + (\<Sum>x\<leftarrow>cells xs. owns x)"

definition entry_blocks :: "netconfig \<Rightarrow> int" where
  "entry_blocks nc = owns (nc_netid nc) + owns (nc_protofmly nc) + owns (nc_proto nc) + owns (nc_device nc)
     + array_blocks (nc_lookups nc)"

definition entry_ok :: "netconfig \<Rightarrow> bool" where
  "entry_ok nc \<longleftrightarrow> (\<forall>ls. nc_lookups nc = Some ls \<longrightarrow> nc_nlookups nc = length ls)"

definition complete :: "netconfig \<Rightarrow> bool" where
  "complete nc \<longleftrightarrow> nc_nlookups nc = length (cells (nc_lookups nc)) \<and> nc_netid nc \<noteq> None \<and> nc_protofmly nc \<noteq> None \<and> nc_proto nc \<noteq> None \<and> nc_device nc \<noteq> None
     \<and> None \<notin> set (cells (nc_lookups nc)) \<and> nc_lookups nc \<noteq> Some []"

named_theorems live_simps \<open>what the operations do to the number of live blocks\<close>

lemma owns_simps [simp]: "owns None = 0" "owns (Some x) = 1"
  by (simp_all add: owns_def)

lemma cells_simps [simp]: "cells None = []" "cells (Some xs) = xs"
  by (simp_all add: cells_def)

lemma entry_zeroed [simp]: "entry_blocks zeroed = 0" "entry_ok zeroed"
  by (simp_all add: entry_blocks_def entry_ok_def zeroed_def array_blocks_def)

lemma live_block_free [live_simps]: "live (block_free p h) = live h - owns p"
  by (simp add: block_free_def owns_def)

lemma live_fold_free [live_simps]: "live (fold block_free xs h) = live h - (\<Sum>x\<leftarrow>xs. owns x)"
  by (induction xs arbitrary: h) (simp_all add: live_block_free)

lemma live_block_take [live_simps]: "block_take h = (ok, h') \<Longrightarrow> live h' = live h + (if ok then 1 else 0)"
  by (auto simp: block_take_def Let_def split: prod.splits)

lemma live_block_realloc [live_simps]: "block_realloc p h = (ok, h') \<Longrightarrow> live h' = live h + (if ok then 1 - owns p else 0)"
  by (auto simp: block_realloc_def Let_def live_block_free split: prod.splits if_splits dest!: live_block_take)

lemma dup_cstr_ok:
  assumes "dup_cstr s h = (v, h')"
  shows "live h' = live h + owns v" and "v \<noteq> None \<Longrightarrow> v = s"
  using assms by (auto simp: dup_cstr_def Let_def split: prod.splits option.splits if_splits dest!: live_block_take)

lemma free_strings_ok:
  assumes "\<forall>ys. xs = Some ys \<longrightarrow> n = length ys"
  shows "\<exists>h'. free_strings xs n h = Some h' \<and> live h' = live h - array_blocks xs"
  using assms by (cases xs) (simp_all add: free_strings_def array_blocks_def live_simps)

lemma free_fields_ok:
  assumes "entry_ok nc"
  shows "\<exists>h'. free_netconfig_fields nc h = Some (zeroed, h') \<and> live h' = live h - entry_blocks nc"
proof -
  let ?h = "block_free (nc_device nc) (block_free (nc_proto nc) (block_free (nc_protofmly nc) (block_free (nc_netid nc) h)))"
  obtain h' where "free_strings (nc_lookups nc) (nc_nlookups nc) ?h = Some h'" "live h' = live ?h - array_blocks (nc_lookups nc)"
    using free_strings_ok [of "nc_lookups nc" "nc_nlookups nc" ?h] assms by (auto simp: entry_ok_def)
  then show ?thesis by (simp add: free_netconfig_fields_def entry_blocks_def live_simps)
qed

lemma array_blocks_snoc: "array_blocks (Some (xs @ [Some x])) = array_blocks (Some xs) + 1"
  by (simp add: array_blocks_def)

lemma array_blocks_Some: "array_blocks (Some (cells xs)) = array_blocks xs + 1 - owns xs"
  by (cases xs) (simp_all add: array_blocks_def)

lemma complete_entry_ok: "complete nc \<Longrightarrow> entry_ok nc"
  by (auto simp: complete_def entry_ok_def)

subsection \<open>Parsing a line\<close>

lemma lookups_loop_ok:
  "length (cells lookups) \<le> cap \<Longrightarrow> (lookups = None \<longrightarrow> cap = 0) \<Longrightarrow> None \<notin> set (cells lookups) \<Longrightarrow> lookups \<noteq> Some [] \<Longrightarrow>
     \<exists>ok lookups' h'. lookups_loop rest lookups cap h = Some (ok, lookups', h') \<and> None \<notin> set (cells lookups')
       \<and> (ok \<longrightarrow> lookups' \<noteq> Some []) \<and> live h' - array_blocks lookups' = live h - array_blocks lookups"
proof (induction rest lookups cap h rule: lookups_loop.induct)
  case (1 rest lookups cap h)
  show ?case
  proof (cases "strtok_r '','' rest")
    case None
    with 1 show ?thesis by (auto simp: lookups_loop.simps [of rest])
  next
    case (Some tr)
    obtain segment rest' where tr: "tr = (segment, rest')" by force
    show ?thesis
    proof (cases "segment = []")
      case True
      with "1.IH"(2) Some tr "1.prems" show ?thesis by (simp add: lookups_loop.simps [of rest])
    next
      case seg: False
      define grow where "grow = (if length (cells lookups) = cap then
                      let new_cap = (if cap = 0 then 4 else cap * 2) in
                      (case size_mul_ok new_cap 8 of
                         None \<Rightarrow> (False, lookups, cap, h)
                       | Some bytes \<Rightarrow>
                           let (ok, h) = block_realloc lookups h
                           in if ok then (True, Some (cells lookups), new_cap, h) else (False, lookups, cap, h))
                    else (True, lookups, cap, h))"
      obtain ok lookups1 cap1 h1 where g: "grow = (ok, lookups1, cap1, h1)" by (cases grow) auto
      have g1: "cells lookups1 = cells lookups" "live h1 - array_blocks lookups1 = live h - array_blocks lookups"
        "ok \<Longrightarrow> length (cells lookups) < cap1 \<and> lookups1 \<noteq> None"
        using g "1.prems"(1,2) array_blocks_Some [of lookups] unfolding grow_def
        by (auto simp: Let_def split: if_splits option.splits prod.splits dest!: live_block_realloc)
      obtain v h2 where v: "dup_cstr (Some segment) h1 = (v, h2)" by force
      note eq = lookups_loop.simps [of rest lookups cap h, folded grow_def]
      show ?thesis
      proof (cases "\<not> ok \<or> v = None")
        case True
        have "lookups_loop rest lookups cap h = Some (False, lookups1, if ok then h2 else h1)"
          using True Some tr seg g v unfolding eq by auto
        moreover have "live (if ok then h2 else h1) = live h1"
          using dup_cstr_ok(1) [OF v] True by auto
        ultimately show ?thesis using g1 "1.prems"(3) by auto
      next
        case False
        then have v': "v = Some segment" using dup_cstr_ok(2) [OF v] by simp
        have step: "lookups_loop rest lookups cap h = lookups_loop rest' (Some (cells lookups1 @ [v])) cap1 h2"
          using False Some tr seg g v g1 unfolding eq by auto
        have "array_blocks (Some (cells lookups1 @ [v])) = array_blocks lookups1 + 1"
          using v' g1(3) False by (auto simp: array_blocks_snoc)
        moreover have "live h2 = live h1 + 1" using dup_cstr_ok(1) [OF v] v' by simp
        moreover have "\<exists>ok' lookups' h'. lookups_loop rest' (Some (cells lookups1 @ [v])) cap1 h2 = Some (ok', lookups', h')
            \<and> None \<notin> set (cells lookups') \<and> (ok' \<longrightarrow> lookups' \<noteq> Some []) \<and> live h' - array_blocks lookups' = live h2 - array_blocks (Some (cells lookups1 @ [v]))"
          by (rule "1.IH"(1) [OF Some tr [symmetric] seg g [unfolded grow_def, symmetric] refl refl refl _ refl v [symmetric]])
            (use False v' g1 "1.prems" in auto)
        ultimately show ?thesis using step g1(2) by auto
      qed
    qed
  qed
qed


lemma parse_lookups_ok:
  "\<exists>r h'. parse_lookups token h = Some (r, h') \<and> (case r of
     None \<Rightarrow> live h' = live h
   | Some (n, xs) \<Rightarrow> live h' = live h + array_blocks xs \<and> n = length (cells xs) \<and> None \<notin> set (cells xs) \<and> xs \<noteq> Some [])"
proof (cases "token = ''-''")
  case True
  then show ?thesis by (simp add: parse_lookups_def array_blocks_def)
next
  case False
  obtain work h1 where w: "dup_cstr (Some token) h = (work, h1)" by force
  show ?thesis
  proof (cases work)
    case None
    with False w dup_cstr_ok(1) [OF w] show ?thesis by (simp add: parse_lookups_def)
  next
    case (Some x)
    obtain ok xs h2 where l: "lookups_loop token None 0 h1 = Some (ok, xs, h2)" "None \<notin> set (cells xs)"
      "ok \<longrightarrow> xs \<noteq> Some []" "live h2 = live h1 + array_blocks xs"
      using lookups_loop_ok [of None 0 token h1] by (auto simp: array_blocks_def)
    obtain h3 where "free_strings xs (length (cells xs)) h2 = Some h3" "live h3 = live h2 - array_blocks xs"
      using free_strings_ok [of xs "length (cells xs)" h2] by auto
    with False w Some l dup_cstr_ok(1) [OF w] show ?thesis
      by (cases ok) (simp_all add: parse_lookups_def live_simps)
  qed
qed

definition parsed :: "heap \<Rightarrow> (bool \<times> netconfig \<times> bool \<times> heap) option \<Rightarrow> bool" where
  "parsed h res \<longleftrightarrow> (\<exists>ok out h'. res = Some (ok, out, ok, h') \<and> live h' = live h + entry_blocks out \<and>
     (if ok then complete out else out = zeroed))"

lemma parsed_fail:
  assumes "entry_ok out" and "live h' = live h + entry_blocks out"
  shows "parsed h (do { (out, h) \<leftarrow> free_netconfig_fields out h'; Some (False, out, False, h) })"
  using free_fields_ok [OF assms(1), of h'] assms(2) by (auto simp: parsed_def)

lemma parse_line_ok: "parsed h (parse_netconfig_line line h)"
proof (cases line)
  case None
  then show ?thesis by (auto simp: parse_netconfig_line_def parsed_def)
next
  case (Some l)
  show ?thesis
  proof (cases "next_fields 7 (takeWhile (\<lambda>c. c \<noteq> CHR 0x0D \<and> c \<noteq> CHR 0x0A) l)")
    case None
    with Some show ?thesis by (auto simp: parse_netconfig_line_def parsed_def)
  next
    case fs: (Some fs)
    obtain netid h1 where d1: "dup_cstr (Some (fs ! 0)) h = (netid, h1)" by force
    obtain protofmly h2 where d2: "dup_cstr (Some (fs ! 3)) h1 = (protofmly, h2)" by force
    obtain proto h3 where d3: "dup_cstr (Some (fs ! 4)) h2 = (proto, h3)" by force
    obtain device h4 where d4: "dup_cstr (Some (fs ! 5)) h3 = (device, h4)" by force
    let ?out = "zeroed\<lparr>nc_netid := netid, nc_protofmly := protofmly, nc_proto := proto, nc_device := device\<rparr>"
    have out: "entry_ok ?out" "live h4 = live h + entry_blocks ?out"
      using dup_cstr_ok(1) [OF d1] dup_cstr_ok(1) [OF d2] dup_cstr_ok(1) [OF d3] dup_cstr_ok(1) [OF d4]
      by (simp_all add: entry_ok_def zeroed_def entry_blocks_def array_blocks_def)
    obtain r h5 where r: "parse_lookups (fs ! 6) h4 = Some (r, h5)"
      and r': "case r of None \<Rightarrow> live h5 = live h4
        | Some (n, xs) \<Rightarrow> live h5 = live h4 + array_blocks xs \<and> n = length (cells xs) \<and> None \<notin> set (cells xs) \<and> xs \<noteq> Some []"
      using parse_lookups_ok [of "fs ! 6" h4] by auto
    note start = Some fs d1 d2 d3 d4
    consider (bad) "netid = None \<or> protofmly = None \<or> proto = None \<or> device = None"
        "parse_netconfig_line line h = (do { (out, h) \<leftarrow> free_netconfig_fields ?out h4; Some (False, out, False, h) })"
      | (semantics) "parse_netconfig_line line h = (do { (out, h) \<leftarrow> free_netconfig_fields ?out h4; Some (False, out, False, h) })"
      | (flags) s where "parse_netconfig_line line h =
          (do { (out, h) \<leftarrow> free_netconfig_fields (?out\<lparr>nc_semantics := s\<rparr>) h4; Some (False, out, False, h) })"
      | (lookups) s f where "r = None" "parse_netconfig_line line h =
          (do { (out, h) \<leftarrow> free_netconfig_fields (?out\<lparr>nc_semantics := s, nc_flag := f\<rparr>) h5; Some (False, out, False, h) })"
      | (entry) s f n xs where "\<not> (netid = None \<or> protofmly = None \<or> proto = None \<or> device = None)" "r = Some (n, xs)"
          "parse_netconfig_line line h =
             Some (True, ?out\<lparr>nc_semantics := s, nc_flag := f, nc_nlookups := n, nc_lookups := xs\<rparr>, True, h5)"
    proof (cases "netid = None \<or> protofmly = None \<or> proto = None \<or> device = None")
      case True
      have "parse_netconfig_line line h = (do { (out, h) \<leftarrow> free_netconfig_fields ?out h4; Some (False, out, False, h) })"
        using start by (simp add: parse_netconfig_line_def Let_def if_P [OF True])
      then show thesis by (rule that(1) [OF True])
    next
      case False
      show thesis
      proof (cases "parse_semantics (fs ! 1)")
        case None
        have "parse_netconfig_line line h = (do { (out, h) \<leftarrow> free_netconfig_fields ?out h4; Some (False, out, False, h) })"
          using start None by (simp add: parse_netconfig_line_def Let_def if_not_P [OF False])
        then show thesis by (rule that(2))
      next
        case s: (Some s)
        show thesis
        proof (cases "parse_flags (fs ! 2)")
          case None
          have "parse_netconfig_line line h =
              (do { (out, h) \<leftarrow> free_netconfig_fields (?out\<lparr>nc_semantics := s\<rparr>) h4; Some (False, out, False, h) })"
            using start s None by (simp add: parse_netconfig_line_def Let_def if_not_P [OF False])
          then show thesis by (rule that(3))
        next
          case f: (Some f)
          have eq: "parse_netconfig_line line h = (case r of
              None \<Rightarrow> (do { (out, h) \<leftarrow> free_netconfig_fields (?out\<lparr>nc_semantics := s, nc_flag := f\<rparr>) h5; Some (False, out, False, h) })
            | Some (n, xs) \<Rightarrow> Some (True, ?out\<lparr>nc_semantics := s, nc_flag := f, nc_nlookups := n, nc_lookups := xs\<rparr>, True, h5))"
            using start s f r by (simp add: parse_netconfig_line_def Let_def if_not_P [OF False])
          show thesis
          proof (cases r)
            case None
            show thesis by (rule that(4) [OF None]) (simp add: eq None)
          next
            case (Some p)
            obtain n xs where p: "p = (n, xs)" by force
            show thesis by (rule that(5) [where n = n and xs = xs and s = s and f = f, OF False]) (simp_all add: eq Some p)
          qed
        qed
      qed
    qed
    then show ?thesis
    proof cases
      case bad
      then show ?thesis using parsed_fail [OF out] by simp
    next
      case semantics
      then show ?thesis using parsed_fail [OF out] by simp
    next
      case flags
      have "entry_ok (?out\<lparr>nc_semantics := s\<rparr>)" "live h4 = live h + entry_blocks (?out\<lparr>nc_semantics := s\<rparr>)"
        using out by (simp_all add: entry_ok_def entry_blocks_def)
      from parsed_fail [OF this] flags show ?thesis by simp
    next
      case lookups
      have "entry_ok (?out\<lparr>nc_semantics := s, nc_flag := f\<rparr>)" "live h5 = live h + entry_blocks (?out\<lparr>nc_semantics := s, nc_flag := f\<rparr>)"
        using out r' lookups(1) by (simp_all add: entry_ok_def entry_blocks_def)
      from parsed_fail [OF this] lookups show ?thesis by simp
    next
      case entry
      then show ?thesis
        using out r' by (auto simp: parsed_def complete_def entry_ok_def entry_blocks_def zeroed_def array_blocks_def)
    qed
  qed
qed


subsection \<open>The database\<close>

definition db_blocks :: "nc_state \<Rightarrow> int" where
  "db_blocks s = owns (g_entries s) + (\<Sum>nc\<leftarrow>cells (g_entries s). entry_blocks nc)"

text \<open>The blocks that are not the database's.\<close>

definition outside :: "nc_state \<Rightarrow> int" where
  "outside s = live (heap s) - db_blocks s"

definition db_ok :: "nc_state \<Rightarrow> bool" where
  "db_ok s \<longleftrightarrow> length (cells (g_entries s)) \<le> g_entry_cap s \<and> (g_entries s = None \<longrightarrow> g_entry_cap s = 0)
     \<and> (\<forall>nc \<in> set (cells (g_entries s)). complete nc)"

definition keeps :: "nc_state \<Rightarrow> nc_state \<Rightarrow> bool" where
  "keeps s s' \<longleftrightarrow> outside s' = outside s \<and> db_ok s' \<and> handles s' = handles s \<and> g_refcount s' = g_refcount s"

lemma keeps_refl: "db_ok s \<Longrightarrow> keeps s s"
  by (simp add: keeps_def)

lemma keeps_trans: "keeps s t \<Longrightarrow> keeps t u \<Longrightarrow> keeps s u"
  by (simp add: keeps_def)

lemma set_error_simps [simp]:
  "outside (nc_set_error e s) = outside s" "db_ok (nc_set_error e s) = db_ok s" "handles (nc_set_error e s) = handles s"
  "g_refcount (nc_set_error e s) = g_refcount s" "g_loaded (nc_set_error e s) = g_loaded s"
  "g_entries (nc_set_error e s) = g_entries s" "g_entry_cap (nc_set_error e s) = g_entry_cap s" "heap (nc_set_error e s) = heap s"
  "g_nc_error (nc_set_error e s) = e"
  by (simp_all add: nc_set_error_def outside_def db_ok_def db_blocks_def)

lemma outside_heap: "outside (s\<lparr>heap := h\<rparr>) = outside s + (live h - live (heap s))"
  by (simp add: outside_def db_blocks_def)

lemma db_ok_heap [simp]: "db_ok (s\<lparr>heap := h\<rparr>) = db_ok s"
  by (simp add: db_ok_def)

lemma append_ok:
  assumes ok: "db_ok s" and e: "complete entry"
  shows "\<exists>r entry' s'. append_global_entry entry s = Some (r, entry', s') \<and> db_ok s' \<and> handles s' = handles s
    \<and> g_refcount s' = g_refcount s \<and> g_loaded s' = g_loaded s
    \<and> (if r then outside s' = outside s - entry_blocks entry else entry' = entry \<and> outside s' = outside s)"
proof -
  define grow where "grow = (if length (cells (g_entries s)) = g_entry_cap s then
               let new_cap = (if g_entry_cap s = 0 then 8 else g_entry_cap s * 2) in
               (case size_mul_ok new_cap 136 of
                  None \<Rightarrow> (False, s)
                | Some bytes \<Rightarrow>
                    let (ok, h) = block_realloc (g_entries s) (heap s)
                    in if ok then (True, s\<lparr>g_entries := Some (cells (g_entries s)), g_entry_cap := new_cap, heap := h\<rparr>)
                       else (False, s\<lparr>heap := h\<rparr>))
             else (True, s))"
  obtain r s1 where g: "grow = (r, s1)" by force
  have s1: "db_ok s1" "outside s1 = outside s" "handles s1 = handles s" "g_refcount s1 = g_refcount s" "g_loaded s1 = g_loaded s"
    "r \<Longrightarrow> length (cells (g_entries s1)) < g_entry_cap s1 \<and> g_entries s1 \<noteq> None"
    using g ok unfolding grow_def
    by (auto simp: Let_def db_ok_def outside_def db_blocks_def split: if_splits option.splits prod.splits dest!: live_block_realloc)
  note eq = append_global_entry_def [of entry s, folded grow_def]
  show ?thesis
  proof (cases r)
    case True
    have "append_global_entry entry s = Some (True, zeroed, s1\<lparr>g_entries := Some (cells (g_entries s1) @ [entry])\<rparr>)"
      using True g s1(6) by (simp add: eq)
    moreover have "outside (s1\<lparr>g_entries := Some (cells (g_entries s1) @ [entry])\<rparr>) = outside s1 - entry_blocks entry"
      using s1(6) True by (auto simp: outside_def db_blocks_def)
    ultimately show ?thesis using True s1 e by (auto simp: db_ok_def)
  qed (use g s1 in \<open>auto simp: eq\<close>)
qed

lemma free_entries_ok:
  "\<forall>nc \<in> set ncs. complete nc \<Longrightarrow>
     \<exists>h'. free_entries ncs h = Some h' \<and> live h' = live h - (\<Sum>nc\<leftarrow>ncs. entry_blocks nc)"
proof (induction ncs arbitrary: h)
  case (Cons nc ncs)
  obtain h1 where "free_netconfig_fields nc h = Some (zeroed, h1)" "live h1 = live h - entry_blocks nc"
    using free_fields_ok [of nc h] Cons.prems complete_entry_ok by auto
  with Cons.IH [of h1] Cons.prems show ?case by auto
qed simp

lemma clear_ok:
  assumes "db_ok s"
  shows "\<exists>s'. clear_global_entries s = Some s' \<and> keeps s s' \<and> g_entries s' = None \<and> \<not> g_loaded s'"
proof -
  obtain h where "free_entries (cells (g_entries s)) (heap s) = Some h"
    "live h = live (heap s) - (\<Sum>nc\<leftarrow>cells (g_entries s). entry_blocks nc)"
    using free_entries_ok [of "cells (g_entries s)" "heap s"] assms by (auto simp: db_ok_def)
  then show ?thesis
    by (simp add: clear_global_entries_def keeps_def outside_def db_blocks_def db_ok_def live_simps)
qed

text \<open>What a load leaves: whatever its status, nothing outside the database has changed.\<close>

definition loads :: "nc_state \<Rightarrow> ('a \<times> nc_state) option \<Rightarrow> bool" where
  "loads s res \<longleftrightarrow> (\<exists>st s'. res = Some (st, s') \<and> keeps s s' \<and> g_loaded s' = g_loaded s)"

lemma loadsI: "keeps s s' \<Longrightarrow> g_loaded s' = g_loaded s \<Longrightarrow> loads s (Some (st, s'))"
  by (simp add: loads_def)

lemma keeps_error: "db_ok s \<Longrightarrow> keeps s (nc_set_error e s)"
  by (simp add: keeps_def)

lemma append_step:
  assumes ok: "db_ok s" and p: "parsed (heap s) (Some (True, entry, ie, h))"
    and r: "append_global_entry entry (s\<lparr>heap := h\<rparr>) = Some (r, entry', s1)"
  shows "r \<Longrightarrow> keeps s s1 \<and> g_loaded s1 = g_loaded s"
    and "\<not> r \<Longrightarrow> \<exists>h'. free_netconfig_fields entry' (heap s1) = Some (zeroed, h') \<and> keeps s (s1\<lparr>heap := h'\<rparr>) \<and> g_loaded s1 = g_loaded s"
proof -
  have e: "complete entry" "live h = live (heap s) + entry_blocks entry" using p by (auto simp: parsed_def)
  obtain r' entry'' s2 where a: "append_global_entry entry (s\<lparr>heap := h\<rparr>) = Some (r', entry'', s2)"
    "db_ok s2" "handles s2 = handles s" "g_refcount s2 = g_refcount s" "g_loaded s2 = g_loaded s"
    "if r' then outside s2 = outside (s\<lparr>heap := h\<rparr>) - entry_blocks entry else entry'' = entry \<and> outside s2 = outside (s\<lparr>heap := h\<rparr>)"
    using append_ok [of "s\<lparr>heap := h\<rparr>" entry] ok e by auto
  have same: "r' = r" "entry'' = entry'" "s2 = s1" using a(1) r by simp_all
  show "keeps s s1 \<and> g_loaded s1 = g_loaded s" if "r"
    using a same e that by (simp add: keeps_def outside_heap)
  show "\<exists>h'. free_netconfig_fields entry' (heap s1) = Some (zeroed, h') \<and> keeps s (s1\<lparr>heap := h'\<rparr>) \<and> g_loaded s1 = g_loaded s"
    if "\<not> r"
  proof -
    obtain h' where "free_netconfig_fields entry (heap s1) = Some (zeroed, h')" "live h' = live (heap s1) - entry_blocks entry"
      using free_fields_ok [OF complete_entry_ok [OF e(1)], of "heap s1"] by auto
    with a same e that show ?thesis by (auto simp: keeps_def outside_heap)
  qed
qed

lemma parse_fail_keeps:
  assumes "db_ok s" and "parsed (heap s) (Some (False, entry, ie, h))"
  shows "keeps s (s\<lparr>heap := h\<rparr>)"
  using assms by (auto simp: parsed_def keeps_def outside_heap)

lemma load_file_loop_ok: "db_ok s \<Longrightarrow> loads s (load_file_loop content saw_data s)"
proof (induction content saw_data s rule: load_file_loop.induct)
  case (1 content saw_data s)
  note eq = load_file_loop.simps [of content saw_data s]
  show ?case
  proof (cases "content = []")
    case True
    then show ?thesis unfolding eq using "1.prems" by (simp add: loadsI keeps_refl keeps_error)
  next
    case ne: False
    obtain l rest eof where f: "fgets (Suc (MAXNETCONFIGLINE - 2)) content = (l, rest, eof)" by (metis prod_cases3)
    show ?thesis
    proof (cases "take 1 (c_line l) = ''#''")
      case True
      from "1.IH"(1) [OF ne f [symmetric] refl True "1.prems"] show ?thesis using ne f True by (simp add: eq)
    next
      case nc: False
      show ?thesis
      proof (cases "LF \<notin> set (c_line l) \<and> \<not> eof")
        case True
        then show ?thesis using ne f nc "1.prems" by (simp add: eq loadsI keeps_error)
      next
        case whole: False
        obtain ok entry ie h where p: "parse_netconfig_line (Some (c_line l)) (heap s) = Some (ok, entry, ie, h)"
          and p': "parsed (heap s) (Some (ok, entry, ie, h))"
          using parse_line_ok [of "heap s" "Some (c_line l)"] by (auto simp: parsed_def)
        show ?thesis
        proof (cases ok)
          case False
          have "load_file_loop content saw_data s = Some (LOAD_STATE_ERROR, nc_set_error NC_BADFILE (s\<lparr>heap := h\<rparr>))"
            unfolding eq using ne f nc p False by (simp add: if_not_P [OF whole])
          moreover have "keeps s (s\<lparr>heap := h\<rparr>)" using parse_fail_keeps [OF "1.prems"] p' False by simp
          ultimately show ?thesis by (simp add: loads_def keeps_def)
        next
          case True
          have p'': "parsed (heap s) (Some (True, entry, ie, h))" using p' True by simp
          obtain r entry' s1 where a: "append_global_entry entry (s\<lparr>heap := h\<rparr>) = Some (r, entry', s1)"
            using append_ok [of "s\<lparr>heap := h\<rparr>" entry] "1.prems" p'' by (auto simp: parsed_def)
          note st = append_step [OF "1.prems" p'' a]
          show ?thesis
          proof (cases r)
            case r: True
            have "load_file_loop content saw_data s = load_file_loop rest True s1"
              unfolding eq using ne f nc p True a r by (simp add: if_not_P [OF whole])
            moreover have "loads s1 (load_file_loop rest True s1)"
              by (rule "1.IH"(2)) (use ne f nc whole p True a r st(1) in \<open>auto simp: keeps_def\<close>)
            ultimately show ?thesis using st(1) [OF r] keeps_trans by (auto simp: loads_def)
          next
            case r: False
            obtain h' where h': "free_netconfig_fields entry' (heap s1) = Some (zeroed, h')" "keeps s (s1\<lparr>heap := h'\<rparr>)"
              "g_loaded s1 = g_loaded s" using st(2) [OF r] by auto
            have "load_file_loop content saw_data s = Some (LOAD_STATE_ERROR, nc_set_error NC_NOMEM (s1\<lparr>heap := h'\<rparr>))"
              unfolding eq using ne f nc p True a r h'(1) by (simp add: if_not_P [OF whole])
            then show ?thesis using h'(2,3) by (simp add: loads_def keeps_def)
          qed
        qed
      qed
    qed
  qed
qed


lemma load_default_loop_ok: "db_ok s \<Longrightarrow> loads s (load_default_loop ls s)"
proof (induction ls arbitrary: s)
  case (Cons l ls)
  show ?case
  proof (cases "MAXNETCONFIGLINE < length l + 1")
    case True
    then show ?thesis using Cons.prems by (simp add: loadsI keeps_error)
  next
    case short: False
    obtain ok entry ie h where p: "parse_netconfig_line (Some l) (heap s) = Some (ok, entry, ie, h)"
      and p': "parsed (heap s) (Some (ok, entry, ie, h))"
      using parse_line_ok [of "heap s" "Some l"] by (auto simp: parsed_def)
    show ?thesis
    proof (cases ok)
      case False
      then have "entry = zeroed" "keeps s (s\<lparr>heap := h\<rparr>)" using p' parse_fail_keeps [OF Cons.prems] by (auto simp: parsed_def)
      moreover obtain h' where "free_netconfig_fields zeroed h = Some (zeroed, h')" "live h' = live h"
        using free_fields_ok [of zeroed h] by auto
      ultimately show ?thesis using short p False Cons.prems
        by (auto simp: loads_def keeps_def outside_heap)
    next
      case True
      have p'': "parsed (heap s) (Some (True, entry, ie, h))" "ie" using p' True by (auto simp: parsed_def)
      obtain r entry' s1 where a: "append_global_entry entry (s\<lparr>heap := h\<rparr>) = Some (r, entry', s1)"
        using append_ok [of "s\<lparr>heap := h\<rparr>" entry] Cons.prems p'' by (auto simp: parsed_def)
      note st = append_step [OF Cons.prems p''(1) a]
      show ?thesis
      proof (cases r)
        case r: True
        have "loads s1 (load_default_loop ls s1)" by (rule Cons.IH) (use st(1) [OF r] in \<open>simp add: keeps_def\<close>)
        then obtain st2 s2 where "load_default_loop ls s1 = Some (st2, s2)" "keeps s1 s2" "g_loaded s2 = g_loaded s1"
          by (auto simp: loads_def)
        moreover have "keeps s s2" using keeps_trans st(1) [OF r] calculation(2) by blast
        ultimately show ?thesis using short p True p'' a r st(1) [OF r] by (simp add: loads_def)
      next
        case r: False
        obtain h' where h': "free_netconfig_fields entry' (heap s1) = Some (zeroed, h')" "keeps s (s1\<lparr>heap := h'\<rparr>)"
          "g_loaded s1 = g_loaded s" using st(2) [OF r] by auto
        then show ?thesis using short p True p'' a r by (auto simp: loads_def keeps_def)
      qed
    qed
  qed
qed (simp add: loadsI keeps_refl)

lemma load_sc_ok: "db_ok s \<Longrightarrow> loads s (load_systemconfiguration_entries sc s)"
proof -
  assume db: "db_ok s"
  have step: "loads s (do { (ok, s) \<leftarrow> load_default_entries_with_visibility v4 v6 s; Some (if ok then LOAD_STATE_OK else LOAD_STATE_ERROR, s) })" for v4 v6
    using load_default_loop_ok [OF db, of "default_lines v4 v6"]
    by (auto simp: load_default_entries_with_visibility_def loads_def)
  have stay: "loads s (Some (LOAD_STATE_NOFILE, s))" using db by (simp add: loadsI keeps_refl)
  show "loads s (load_systemconfiguration_entries sc s)"
    unfolding load_systemconfiguration_entries_def Let_def using step stay by (auto split: prod.splits)
qed

text \<open>A database that is not loaded is empty.\<close>

definition loaded_ok :: "nc_state \<Rightarrow> bool" where
  "loaded_ok s \<longleftrightarrow> db_ok s \<and> (\<not> g_loaded s \<longrightarrow> g_entries s = None)"

lemma ensure_ok:
  assumes ok: "loaded_ok s"
  shows "\<exists>r s'. ensure_entries_loaded file sc s = Some (r, s') \<and> keeps s s' \<and> loaded_ok s' \<and> g_loaded s' = r
    \<and> (g_loaded s \<longrightarrow> s' = s)"
proof (cases "g_loaded s")
  case True
  then show ?thesis using ok by (auto simp: ensure_entries_loaded_def loaded_ok_def keeps_refl)
next
  case nl: False
  have db: "db_ok s" using ok by (simp add: loaded_ok_def)
  have fin: "keeps s (t\<lparr>g_loaded := True\<rparr>) \<and> loaded_ok (t\<lparr>g_loaded := True\<rparr>)" if "keeps s t" for t
    using that by (simp add: keeps_def loaded_ok_def db_ok_def outside_def db_blocks_def)
  have cleared: "\<exists>u. clear_global_entries t = Some u \<and> keeps s u \<and> loaded_ok u \<and> \<not> g_loaded u" if "keeps s t" for t
    using clear_ok [of t] that keeps_trans [OF that] by (auto simp: keeps_def loaded_ok_def)
  obtain st t where f: "load_file_entries file s = Some (st, t)" "keeps s t"
  proof (cases "file")
    case None
    then show thesis using that [of LOAD_STATE_NOFILE s] db by (simp add: load_file_entries_def keeps_refl)
  next
    case (Some content)
    then show thesis using that load_file_loop_ok [OF db, of content False] by (auto simp: load_file_entries_def loads_def)
  qed
  show ?thesis
  proof (cases st)
    case LOAD_STATE_OK
    then show ?thesis using nl f fin [OF f(2)] by (auto simp: ensure_entries_loaded_def)
  next
    case LOAD_STATE_ERROR
    then show ?thesis using nl f cleared [OF f(2)] by (auto simp: ensure_entries_loaded_def)
  next
    case LOAD_STATE_NOFILE
    obtain st2 t2 where sc: "load_systemconfiguration_entries sc t = Some (st2, t2)" "keeps s t2"
      using load_sc_ok [of t sc] f(2) keeps_trans by (auto simp: loads_def keeps_def)
    show ?thesis
    proof (cases st2)
      case LOAD_STATE_OK
      then show ?thesis using nl f sc \<open>st = LOAD_STATE_NOFILE\<close> fin [OF sc(2)] by (auto simp: ensure_entries_loaded_def)
    next
      case LOAD_STATE_ERROR
      then show ?thesis using nl f sc \<open>st = LOAD_STATE_NOFILE\<close> cleared [OF sc(2)] by (auto simp: ensure_entries_loaded_def)
    next
      case LOAD_STATE_NOFILE
      obtain r t3 where d: "load_default_entries t2 = Some (r, t3)" "keeps s t3"
        using load_default_loop_ok [of t2 "default_lines True True"] sc(2) keeps_trans
        by (auto simp: loads_def keeps_def load_default_entries_def load_default_entries_with_visibility_def)
      show ?thesis
      proof (cases r)
        case True
        then show ?thesis using nl f sc d \<open>st = LOAD_STATE_NOFILE\<close> \<open>st2 = LOAD_STATE_NOFILE\<close> fin [OF d(2)]
          by (auto simp: ensure_entries_loaded_def)
      next
        case False
        then show ?thesis using nl f sc d \<open>st = LOAD_STATE_NOFILE\<close> \<open>st2 = LOAD_STATE_NOFILE\<close> cleared [OF d(2)]
          by (auto simp: ensure_entries_loaded_def keeps_def loaded_ok_def)
      qed
    qed
  qed
qed


subsection \<open>Copies\<close>

lemma dup_lookups_ok:
  "None \<notin> set ls \<Longrightarrow> None \<notin> set acc \<Longrightarrow> dup_lookups acc ls h = (ok, new, h') \<Longrightarrow>
     length new = length acc + length ls \<and> live h' - (\<Sum>x\<leftarrow>new. owns x) = live h - (\<Sum>x\<leftarrow>acc. owns x) \<and> (ok \<longrightarrow> new = acc @ ls)"
proof (induction ls arbitrary: acc h)
  case (Cons l ls)
  obtain v h1 where v: "dup_cstr l h = (v, h1)" by force
  show ?case
  proof (cases v)
    case None
    with Cons.prems v dup_cstr_ok(1) [OF v] show ?thesis by (auto simp: sum_list_replicate)
  next
    case (Some x)
    then have "v = l" using dup_cstr_ok(2) [OF v] by simp
    with Some have "None \<notin> set (acc @ [v])" "dup_lookups (acc @ [v]) ls h1 = (ok, new, h')"
      using Cons.prems v by auto
    from Cons.IH [OF _ this] Cons.prems(1) Some dup_cstr_ok(1) [OF v] \<open>v = l\<close> show ?thesis by auto
  qed
qed auto

definition copied :: "netconfig \<Rightarrow> heap \<Rightarrow> (netconfig option \<times> heap) option \<Rightarrow> bool" where
  "copied source h res \<longleftrightarrow> (\<exists>r h'. res = Some (r, h') \<and> (case r of
     None \<Rightarrow> live h' = live h | Some nc \<Rightarrow> nc = source \<and> live h' = live h + 1 + entry_blocks source))"

lemma copied_fail:
  assumes "entry_ok out" and "live h' = live h + 1 + entry_blocks out"
  shows "copied source h (do { (out, h) \<leftarrow> free_netconfig_fields out h'; Some (None, block_free (Some out) h) })"
  using free_fields_ok [OF assms(1), of h'] assms(2) by (auto simp: copied_def live_simps)

lemma array_blocks_replicate: "array_blocks (Some (replicate n None)) = 1"
  by (simp add: array_blocks_def sum_list_replicate)

lemma dup_entry_ok:
  assumes src: "complete source"
  shows "copied source h (dup_entry source h)"
proof -
  obtain ok h0 where t: "block_take h = (ok, h0)" by force
  obtain netid h1 where d1: "dup_cstr (nc_netid source) h0 = (netid, h1)" by force
  obtain protofmly h2 where d2: "dup_cstr (nc_protofmly source) h1 = (protofmly, h2)" by force
  obtain proto h3 where d3: "dup_cstr (nc_proto source) h2 = (proto, h3)" by force
  obtain device h4 where d4: "dup_cstr (nc_device source) h3 = (device, h4)" by force
  define out where "out = zeroed\<lparr>nc_semantics := nc_semantics source, nc_flag := nc_flag source,
                     nc_nlookups := nc_nlookups source, nc_unused := nc_unused source,
                     nc_netid := netid, nc_protofmly := protofmly, nc_proto := proto, nc_device := device\<rparr>"
  let ?fail = "\<lambda>h. do { (out, h) \<leftarrow> free_netconfig_fields out h; Some (None, block_free (Some out) h) }"
  have out: "live h4 = live h0 + entry_blocks out" "nc_lookups out = None"
    using dup_cstr_ok(1) [OF d1] dup_cstr_ok(1) [OF d2] dup_cstr_ok(1) [OF d3] dup_cstr_ok(1) [OF d4]
    by (simp_all add: zeroed_def entry_blocks_def array_blocks_def out_def)
  have out': "entry_ok out" using out(2) by (simp add: entry_ok_def)
  have done_if: "out = source" if "nc_lookups source = None" "\<not> (netid = None \<or> protofmly = None \<or> proto = None \<or> device = None)"
    using that dup_cstr_ok(2) [OF d1] dup_cstr_ok(2) [OF d2] dup_cstr_ok(2) [OF d3] dup_cstr_ok(2) [OF d4]
    by (simp add: out_def zeroed_def)
  note start = dup_entry_def [of source h, unfolded t d1 d2 d3 d4 Let_def prod.case, folded out_def]
  show ?thesis
  proof (cases "ok")
    case False
    then show ?thesis using live_block_take [OF t] by (simp add: start copied_def)
  next
    case ok: True
    have h0: "live h0 = live h + 1" using live_block_take [OF t] ok by simp
    show ?thesis
    proof (cases "netid = None \<or> protofmly = None \<or> proto = None \<or> device = None")
      case True
      have "dup_entry source h = ?fail h4" using ok by (simp add: start if_P [OF True])
      then show ?thesis using copied_fail [OF out'] out(1) h0 by simp
    next
      case all: False
      have step: "dup_entry source h =
          (if nc_nlookups source = 0 then Some (Some out, h4)
           else
             (case size_mul_ok (nc_nlookups source) 8 of
                None \<Rightarrow> ?fail h4
              | Some bytes \<Rightarrow>
                  let (ok, h) = block_take h4 in
                  if \<not> ok then ?fail h
                  else
                    do { ls \<leftarrow> nc_lookups source;
                         if nc_nlookups source \<le> length ls then
                           let (ok, new, h) = dup_lookups [] (take (nc_nlookups source) ls) h;
                               copy = out\<lparr>nc_lookups := Some new\<rparr>
                           in if ok then Some (Some copy, h)
                              else do { (copy, h) \<leftarrow> free_netconfig_fields copy h; Some (None, block_free (Some copy) h) }
                         else None }))"
        unfolding start if_not_P [OF all] Let_def by (simp only: ok not_True_eq_False if_False)
      show ?thesis
      proof (cases "nc_lookups source")
        case None
        then have "nc_nlookups source = 0" using src by (simp add: complete_def)
        with None all out(1) h0 done_if show ?thesis by (simp add: step copied_def)
      next
        case (Some ls)
        then have n: "nc_nlookups source = length ls" "ls \<noteq> []" "None \<notin> set ls" using src by (auto simp: complete_def)
        obtain ok5 h5 where t5: "block_take h4 = (ok5, h5)" by force
        show ?thesis
        proof (cases "size_mul_ok (nc_nlookups source) 8 = None \<or> \<not> ok5")
          case True
          then have "dup_entry source h = ?fail (if size_mul_ok (nc_nlookups source) 8 = None then h4 else h5)"
            using n t5 by (auto simp: step)
          then show ?thesis using copied_fail [OF out', of _ h] out(1) h0 True live_block_take [OF t5] by auto
        next
          case False
          obtain ok6 new h6 where l: "dup_lookups [] ls h5 = (ok6, new, h6)" by (metis prod_cases3)
          have new: "length new = length ls" "live h6 = live h5 + (\<Sum>x\<leftarrow>new. owns x)" "ok6 \<Longrightarrow> new = ls"
            using dup_lookups_ok [OF n(3) _ l] by auto
          let ?copy = "out\<lparr>nc_lookups := Some new\<rparr>"
          have copy: "entry_ok ?copy" "live h6 = live h + 1 + entry_blocks ?copy"
            using new out h0 live_block_take [OF t5] False n
            by (auto simp: entry_ok_def entry_blocks_def array_blocks_def out_def)
          have eq: "dup_entry source h = (if ok6 then Some (Some ?copy, h6)
              else do { (copy, h) \<leftarrow> free_netconfig_fields ?copy h6; Some (None, block_free (Some copy) h) })"
            using n Some t5 l False by (auto simp: step)
          show ?thesis
          proof (cases ok6)
            case True
            have "?copy = source"
              using all new(3) [OF True] Some dup_cstr_ok(2) [OF d1] dup_cstr_ok(2) [OF d2] dup_cstr_ok(2) [OF d3]
                dup_cstr_ok(2) [OF d4] by (simp add: out_def zeroed_def)
            with True copy(2) show ?thesis by (simp add: eq copied_def)
          next
            case False
            then show ?thesis using copied_fail [OF copy, of source] by (simp add: eq)
          qed
        qed
      qed
    qed
  qed
qed


subsection \<open>Handles and the reference count\<close>

definition live_addrs :: "nc_state \<Rightarrow> nat set" where
  "live_addrs s = {a. handle_at (handles s) a \<noteq> None}"

text \<open>The blocks that are neither the database's nor those of a live handle.\<close>

definition spare :: "nc_state \<Rightarrow> int" where
  "spare s = outside s - int (card (live_addrs s))"

definition nc_inv :: "nc_state \<Rightarrow> bool" where
  "nc_inv s \<longleftrightarrow> loaded_ok s \<and> (\<forall>a h. handle_at (handles s) a = Some h \<longrightarrow> magic h = NC_HANDLE_MAGIC)
     \<and> unat (g_refcount s) = card (live_addrs s) \<and> (live_addrs s \<noteq> {} \<longrightarrow> g_loaded s)"

lemma finite_live_addrs [simp]: "finite (live_addrs s)"
  by (rule finite_subset [of _ "{..<length (handles s)}"]) (auto simp: live_addrs_def handle_at_def split: if_splits)

lemma card_live_addrs: "card (live_addrs s) \<le> length (handles s)"
proof -
  have "card (live_addrs s) \<le> card {..<length (handles s)}"
    by (rule card_mono) (auto simp: live_addrs_def handle_at_def split: if_splits)
  then show ?thesis by simp
qed

lemma handle_at_snoc: "handle_at (hs @ [c]) a = (if a = length hs then c else handle_at hs a)"
  by (auto simp: handle_at_def nth_append)

lemma handle_at_update: "a < length hs \<Longrightarrow> handle_at (hs[a := c]) b = (if b = a then c else handle_at hs b)"
  by (auto simp: handle_at_def)

lemma handle_at_lt: "handle_at hs a = Some h \<Longrightarrow> a < length hs"
  by (auto simp: handle_at_def split: if_splits)

lemma live_addrs_cong: "handles s' = handles s \<Longrightarrow> live_addrs s' = live_addrs s"
  by (simp add: live_addrs_def)

lemma spare_keeps: "keeps s s' \<Longrightarrow> spare s' = spare s"
  by (simp add: spare_def keeps_def live_addrs_def)

lemma nc_inv_keeps: "nc_inv s \<Longrightarrow> keeps s s' \<Longrightarrow> loaded_ok s' \<Longrightarrow> (g_loaded s \<longrightarrow> g_loaded s') \<Longrightarrow> nc_inv s'"
  by (simp add: nc_inv_def keeps_def live_addrs_def)

lemma set_error_inv [simp]: "nc_inv (nc_set_error e s) = nc_inv s" "spare (nc_set_error e s) = spare s"
    "live_addrs (nc_set_error e s) = live_addrs s"
  by (simp_all add: nc_inv_def loaded_ok_def spare_def live_addrs_def)

lemma heap_inv [simp]: "nc_inv (s\<lparr>heap := h\<rparr>) = nc_inv s" "live_addrs (s\<lparr>heap := h\<rparr>) = live_addrs s"
  by (simp_all add: nc_inv_def loaded_ok_def live_addrs_def db_ok_def)

lemma spare_heap: "spare (s\<lparr>heap := h\<rparr>) = spare s + (live h - live (heap s))"
  by (simp add: spare_def outside_heap live_addrs_def)

text \<open>What an operation may change: the database's own blocks, the error, and nothing about the handles.\<close>

definition frame :: "nc_state \<Rightarrow> nc_state \<Rightarrow> bool" where
  "frame s s' \<longleftrightarrow> nc_inv s' \<and> live_addrs s' = live_addrs s \<and> length (handles s') = length (handles s)"

lemma setnetconfig_ok:
  assumes inv: "nc_inv s" and few: "length (handles s) + 1 < 2 ^ 32"
  shows "\<exists>p s'. setnetconfig file sc s = Some (p, s') \<and> nc_inv s' \<and> spare s' = spare s \<and> (case p of
      None \<Rightarrow> live_addrs s' = live_addrs s \<and> length (handles s') = length (handles s)
    | Some a \<Rightarrow> a \<notin> live_addrs s \<and> live_addrs s' = insert a (live_addrs s) \<and> length (handles s') = Suc (length (handles s)))"
proof -
  obtain ok h where t: "block_take (heap s) = (ok, h)" by force
  show ?thesis
  proof (cases ok)
    case False
    then show ?thesis using inv live_block_take [OF t] t by (simp add: setnetconfig_def spare_heap)
  next
    case ok: True
    have "loaded_ok (s\<lparr>heap := h\<rparr>)" using inv by (simp add: nc_inv_def loaded_ok_def)
    then obtain r s1 where e: "ensure_entries_loaded file sc (s\<lparr>heap := h\<rparr>) = Some (r, s1)" "keeps (s\<lparr>heap := h\<rparr>) s1"
      "loaded_ok s1" "g_loaded s1 = r" "g_loaded s \<longrightarrow> s1 = s\<lparr>heap := h\<rparr>"
      using ensure_ok [of "s\<lparr>heap := h\<rparr>" "file" sc] by auto
    have sp: "spare s1 = spare s + 1" using spare_keeps [OF e(2)] live_block_take [OF t] ok by (simp add: spare_heap)
    have same: "handles s1 = handles s" "g_refcount s1 = g_refcount s" using e(2) by (simp_all add: keeps_def)
    have inv1: "nc_inv s1" if "g_loaded s \<longrightarrow> r" using nc_inv_keeps [OF _ e(2,3)] inv e(4) that by simp
    show ?thesis
    proof (cases r)
      case False
      moreover have "\<not> g_loaded s" using e(4,5) False by auto
      ultimately show ?thesis
        using t ok e(1) sp inv1 same by (simp add: setnetconfig_def spare_heap live_simps live_addrs_cong [OF same(1)])
    next
      case r: True
      let ?s = "s1\<lparr>g_refcount := g_refcount s1 + 1, handles := handles s1 @ [Some \<lparr>magic = NC_HANDLE_MAGIC, index = 0\<rparr>]\<rparr>"
      have new: "length (handles s) \<notin> live_addrs s" by (simp add: live_addrs_def handle_at_def)
      have la: "live_addrs ?s = insert (length (handles s)) (live_addrs s)"
        by (auto simp: live_addrs_def same handle_at_snoc)
      have lt: "unat (g_refcount s) + 1 < 2 ^ 32" using inv card_live_addrs [of s] few by (simp add: nc_inv_def)
      then have rc: "unat (g_refcount s + 1) = unat (g_refcount s) + 1" by (simp add: unat_word_ariths)
      have "nc_inv ?s"
        using inv1 r e(3,4) rc new la
        by (auto simp: nc_inv_def same loaded_ok_def db_ok_def handle_at_snoc live_addrs_cong [OF same(1)] split: if_splits)
      moreover have "spare ?s = spare s"
        using sp new la by (simp add: spare_def outside_def db_blocks_def live_addrs_cong [OF same(1)])
      ultimately show ?thesis using t ok e(1) r new la by (simp add: setnetconfig_def same)
    qed
  qed
qed

lemma getnetconfig_ok:
  assumes inv: "nc_inv s" and a: "a \<in> live_addrs s"
  shows "\<exists>r s'. getnetconfig (Some a) s = Some (r, s') \<and> frame s s' \<and> spare s' = spare s \<and> g_entries s' = g_entries s
    \<and> (\<forall>i. r = Some i \<longrightarrow> i < length (cells (g_entries s)) \<and> map_option index (handle_at (handles s) a) = Some i
        \<and> map_option index (handle_at (handles s') a) = Some (Suc i))"
proof -
  obtain h where h: "handle_at (handles s) a = Some h" "magic h = NC_HANDLE_MAGIC"
    using inv a by (auto simp: live_addrs_def nc_inv_def)
  have loaded: "g_loaded s" using inv a by (auto simp: nc_inv_def)
  show ?thesis
  proof (cases "index h < length (cells (g_entries s))")
    case False
    then show ?thesis using h loaded inv by (simp add: getnetconfig_def frame_def)
  next
    case True
    let ?s = "s\<lparr>handles := (handles s)[a := Some (h\<lparr>index := index h + 1\<rparr>)]\<rparr>"
    have la: "live_addrs ?s = live_addrs s"
      using h handle_at_lt [OF h(1)] by (auto simp: live_addrs_def handle_at_update split: if_splits)
    have "nc_inv ?s"
      using inv h handle_at_lt [OF h(1)] la
      by (auto simp: nc_inv_def loaded_ok_def db_ok_def handle_at_update split: if_splits)
    then have "frame s ?s" "spare ?s = spare s"
      using la by (simp_all add: frame_def spare_def outside_def db_blocks_def)
    then show ?thesis using True h loaded handle_at_lt [OF h(1)]
      by (simp add: getnetconfig_def handle_at_update)
  qed
qed

lemma endnetconfig_ok:
  assumes inv: "nc_inv s" and a: "a \<in> live_addrs s"
  shows "\<exists>s'. endnetconfig (Some a) s = Some (0, s') \<and> nc_inv s' \<and> live_addrs s' = live_addrs s - {a} \<and> spare s' = spare s
    \<and> length (handles s') = length (handles s)"
proof -
  obtain h where h: "handle_at (handles s) a = Some h" "magic h = NC_HANDLE_MAGIC"
    using inv a by (auto simp: live_addrs_def nc_inv_def)
  have pos: "0 < card (live_addrs s)" using a by (auto simp: card_gt_0_iff)
  have rc: "0 < g_refcount s" using inv pos by (simp add: nc_inv_def word_gt_0 unat_eq_zero flip: unat_gt_0)
  let ?s = "s\<lparr>g_refcount := g_refcount s - 1\<rparr>"
  have rc': "unat (g_refcount s - 1) = card (live_addrs s) - 1"
    using inv rc by (simp add: nc_inv_def unat_minus_one word_gt_0)
  have card': "card (live_addrs s - {a}) = card (live_addrs s) - 1" using a by simp
  have db: "db_ok ?s" using inv by (simp add: nc_inv_def loaded_ok_def db_ok_def)
  obtain s1 where s1: "(if g_refcount ?s = 0 then clear_global_entries ?s else Some ?s) = Some s1"
    "keeps ?s s1" "loaded_ok s1" "g_refcount ?s \<noteq> 0 \<longrightarrow> g_loaded s1"
  proof (cases "g_refcount ?s = 0")
    case True
    then show thesis using that clear_ok [OF db] by (auto simp: loaded_ok_def keeps_def)
  next
    case False
    then show thesis using that [of ?s] db inv pos
      by (auto simp: loaded_ok_def keeps_refl nc_inv_def)
  qed
  let ?t = "s1\<lparr>handles := (handles s1)[a := None], heap := block_free (Some h) (heap s1)\<rparr>"
  have same: "handles s1 = handles s" "g_refcount s1 = g_refcount s - 1" "outside s1 = outside s"
    using s1(2) by (simp_all add: keeps_def outside_def db_blocks_def)
  have la: "live_addrs ?t = live_addrs s - {a}"
    using handle_at_lt [OF h(1)] by (auto simp: live_addrs_def same handle_at_update split: if_splits)
  have "g_refcount s - 1 = 0 \<longrightarrow> live_addrs s - {a} = {}"
    using rc' card' by auto
  then have "nc_inv ?t"
    using inv s1(3,4) rc' card' la handle_at_lt [OF h(1)]
    by (auto simp: nc_inv_def loaded_ok_def db_ok_def same handle_at_update split: if_splits)
  moreover have "spare ?t = spare s"
    using la card' pos same by (simp add: spare_def outside_def db_blocks_def live_simps)
  ultimately show ?thesis using h rc s1(1) la same by (simp add: endnetconfig_def Let_def)
qed


lemma find_entry_in: "find_entry n ncs = Some nc \<Longrightarrow> nc \<in> set ncs \<and> nc_netid nc = Some n"
  by (induction ncs) (auto split: if_splits)

lemma getnetconfigent_ok:
  assumes inv: "nc_inv s"
  shows "\<exists>r s'. getnetconfigent netid file sc s = Some (r, s') \<and> frame s s' \<and> (case r of
      None \<Rightarrow> spare s' = spare s | Some nc \<Rightarrow> complete nc \<and> spare s' = spare s + 1 + entry_blocks nc)"
proof (cases "netid = None \<or> netid = Some []")
  case True
  then show ?thesis using inv by (auto simp: getnetconfigent_def frame_def Let_def)
next
  case False
  then obtain n where n: "netid = Some n" "n \<noteq> []" by auto
  let ?s = "nc_set_error NC_NOTFOUND s"
  have "loaded_ok ?s" using inv by (simp add: nc_inv_def loaded_ok_def)
  then obtain r s1 where e: "ensure_entries_loaded file sc ?s = Some (r, s1)" "keeps ?s s1" "loaded_ok s1" "g_loaded s1 = r"
      "g_loaded s \<longrightarrow> s1 = ?s"
    using ensure_ok [of ?s "file" sc] by auto
  have fr: "frame s s1" "spare s1 = spare s"
    using nc_inv_keeps [OF _ e(2,3)] inv e(4,5) spare_keeps [OF e(2)] e(2)
    by (auto simp: frame_def keeps_def live_addrs_def)
  show ?thesis
  proof (cases "r")
    case False
    then show ?thesis using n e(1) fr by (simp add: getnetconfigent_def)
  next
    case r: True
    show ?thesis
    proof (cases "find_entry n (cells (g_entries s1))")
      case None
      then show ?thesis using n e(1) r fr by (simp add: getnetconfigent_def frame_def)
    next
      case (Some source)
      then have src: "complete source" using find_entry_in [OF Some] e(3) by (auto simp: loaded_ok_def db_ok_def)
      obtain copy h where d: "dup_entry source (heap s1) = Some (copy, h)"
        "case copy of None \<Rightarrow> live h = live (heap s1) | Some nc \<Rightarrow> nc = source \<and> live h = live (heap s1) + 1 + entry_blocks source"
        using dup_entry_ok [OF src, of "heap s1"] by (auto simp: copied_def)
      show ?thesis
        using n e(1) r Some d fr src
        by (cases copy) (simp_all add: getnetconfigent_def frame_def spare_heap)
    qed
  qed
qed

lemma freenetconfigent_ok:
  assumes "complete nc"
  shows "\<exists>h'. freenetconfigent (Some nc) s = Some (s\<lparr>heap := h'\<rparr>) \<and> live h' = live (heap s) - 1 - entry_blocks nc"
  using free_fields_ok [OF complete_entry_ok [OF assms], of "heap s"]
  by (auto simp: freenetconfigent_def live_simps)

subsection \<open>Walks\<close>

lemma frame_trans: "frame s t \<Longrightarrow> frame t u \<Longrightarrow> frame s u"
  by (simp add: frame_def)

lemma visible_loop_ok:
  "nc_inv s \<Longrightarrow> a \<in> live_addrs s \<Longrightarrow> handle_at (handles s) a = Some h \<Longrightarrow> length (cells (g_entries s)) - index h < fuel \<Longrightarrow>
     \<exists>r s'. visible_loop fuel (Some a) s = Some (r, s') \<and> frame s s' \<and> spare s' = spare s \<and> g_entries s' = g_entries s
       \<and> (\<forall>i. r = Some i \<longrightarrow> i < length (cells (g_entries s)) \<and> and (nc_flag (cells (g_entries s) ! i)) NC_VISIBLE \<noteq> 0)"
proof (induction fuel arbitrary: s h)
  case (Suc fuel)
  obtain r s1 where g: "getnetconfig (Some a) s = Some (r, s1)" "frame s s1" "spare s1 = spare s" "g_entries s1 = g_entries s"
      "\<forall>i. r = Some i \<longrightarrow> i < length (cells (g_entries s)) \<and> map_option index (handle_at (handles s) a) = Some i
        \<and> map_option index (handle_at (handles s1) a) = Some (Suc i)"
    using getnetconfig_ok [OF Suc.prems(1,2)] by blast
  show ?case
  proof (cases r)
    case None
    then show ?thesis using g by simp
  next
    case (Some i)
    then have i: "i < length (cells (g_entries s))" "index h = i" "map_option index (handle_at (handles s1) a) = Some (Suc i)"
      using g(5) Suc.prems(3) by auto
    have rd: "mem_read (cells (g_entries s1)) i = Some (cells (g_entries s) ! i)" using g(4) i by (simp add: mem_read_def)
    show ?thesis
    proof (cases "and (nc_flag (cells (g_entries s) ! i)) NC_VISIBLE = 0")
      case False
      then show ?thesis using g Some i rd by simp
    next
      case True
      obtain h1 where h1: "handle_at (handles s1) a = Some h1" "index h1 = Suc i" using i(3) by auto
      have "nc_inv s1" "a \<in> live_addrs s1" using g(2) Suc.prems(2) by (simp_all add: frame_def)
      moreover have "length (cells (g_entries s1)) - index h1 < fuel" using Suc.prems(4) i h1 g(4) by simp
      ultimately obtain r s2 where "visible_loop fuel (Some a) s1 = Some (r, s2)" "frame s1 s2" "spare s2 = spare s1" "g_entries s2 = g_entries s1"
        "\<forall>i. r = Some i \<longrightarrow> i < length (cells (g_entries s1)) \<and> and (nc_flag (cells (g_entries s1) ! i)) NC_VISIBLE \<noteq> 0"
        using Suc.IH [OF _ _ h1(1)] by blast
      then show ?thesis using g Some rd True frame_trans by auto
    qed
  qed
qed simp

definition track_blocks :: "np_handle \<Rightarrow> int" where
  "track_blocks np = (\<Sum>e\<leftarrow>tracked np. 2 + entry_blocks e)"

lemma path_loop_ok:
  "nc_inv c \<Longrightarrow> \<forall>e \<in> set (tracked np). complete e \<Longrightarrow>
     \<exists>r np' c'. path_loop file sc np c = Some (r, np', c') \<and> frame c c' \<and> np_magic np' = np_magic np
       \<and> use_visible np' = use_visible np \<and> np_nc_handle np' = np_nc_handle np \<and> netpath_buf np' = netpath_buf np
       \<and> (\<forall>e \<in> set (tracked np'). complete e) \<and> spare c' - track_blocks np' = spare c - track_blocks np"
proof (induction "file" sc np c rule: path_loop.induct)
  case (1 "file" sc np c)
  note eq = path_loop.simps [of "file" sc np c]
  show ?case
  proof (cases "cursor np")
    case None
    then show ?thesis using "1.prems" by (simp add: eq frame_def)
  next
    case (Some s)
    obtain token rest where t: "netpath_next_token s CHR '':'' = (token, rest)" by force
    let ?np = "np\<lparr>cursor := rest\<rparr>"
    have np: "track_blocks ?np = track_blocks np" by (simp add: track_blocks_def)
    show ?thesis
    proof (cases "token = []")
      case True
      have "path_loop file sc np c = path_loop file sc ?np c" by (simp add: eq Some t True)
      moreover note "1.IH"(1) [OF Some t [symmetric] refl True "1.prems"(1)]
      ultimately show ?thesis using "1.prems" np by auto
    next
      case tok: False
      obtain r c1 where g: "getnetconfigent (Some token) file sc c = Some (r, c1)" "frame c c1"
        "case r of None \<Rightarrow> spare c1 = spare c | Some nc \<Rightarrow> complete nc \<and> spare c1 = spare c + 1 + entry_blocks nc"
        using getnetconfigent_ok [OF "1.prems"(1)] by metis
      show ?thesis
      proof (cases r)
        case r: None
        show ?thesis
        proof (cases "nc_get_error c1 = NC_NOTFOUND")
          case True
          have "path_loop file sc np c = path_loop file sc ?np (nc_set_error NC_NOERROR c1)"
            using g(1) r True tok by (simp add: eq Some t)
          moreover have "\<exists>r np' c'. path_loop file sc ?np (nc_set_error NC_NOERROR c1) = Some (r, np', c')
             \<and> frame (nc_set_error NC_NOERROR c1) c' \<and> np_magic np' = np_magic ?np
             \<and> use_visible np' = use_visible ?np \<and> np_nc_handle np' = np_nc_handle ?np \<and> netpath_buf np' = netpath_buf ?np
             \<and> (\<forall>e \<in> set (tracked np'). complete e)
             \<and> spare c' - track_blocks np' = spare (nc_set_error NC_NOERROR c1) - track_blocks ?np"
            by (rule "1.IH"(2)) (use Some t tok g r True "1.prems" in \<open>auto simp: frame_def\<close>)
          ultimately show ?thesis using g(2,3) r np by (auto simp: frame_def)
        next
          case False
          then show ?thesis using g r tok "1.prems" np by (simp add: eq Some t)
        qed
      next
        case (Some entry)
        note r = Some
        have e: "complete entry" "spare c1 = spare c + 1 + entry_blocks entry" using g(3) r by simp_all
        obtain ok h where tk: "block_take (heap c1) = (ok, h)" by force
        show ?thesis
        proof (cases ok)
          case True
          then show ?thesis
            using g r tok tk e "1.prems" live_block_take [OF tk] \<open>cursor np = Some s\<close>
            by (simp add: eq t netpath_track_entry_def frame_def spare_heap track_blocks_def)
        next
          case False
          obtain h' where "freenetconfigent (Some entry) (c1\<lparr>heap := h\<rparr>) = Some ((c1\<lparr>heap := h\<rparr>)\<lparr>heap := h'\<rparr>)"
            "live h' = live h - 1 - entry_blocks entry"
            using freenetconfigent_ok [OF e(1), of "c1\<lparr>heap := h\<rparr>"] by auto
          then show ?thesis
            using False g r tok tk e "1.prems" live_block_take [OF tk] np \<open>cursor np = Some s\<close>
            by (simp add: eq t netpath_track_entry_def frame_def spare_heap)
        qed
      qed
    qed
  qed
qed


section \<open>A client\<close>

text \<open>A client calls the operations in any order, with the handles it holds: those of the database it opened, the walks
  over NETPATH, and the copies it has not freed yet. An index past what it holds does nothing. What the file
  holds may differ from call to call.\<close>

record client =
  st :: np_state
  opened :: "nat list"
  walks :: "nat list"
  held :: "netconfig list"

datatype client_op =
    OpenConfig "string option"
  | NextConfig nat
  | CloseConfig nat
  | Lookup "string option" "string option"
  | Release nat
  | OpenPath "string option" "string option"
  | NextPath nat "string option"
  | ClosePath nat

definition drop_nth :: "nat \<Rightarrow> 'a list \<Rightarrow> 'a list" where
  "drop_nth k xs = take k xs @ drop (Suc k) xs"

fun client_step :: "sc_runtime \<Rightarrow> client_op \<Rightarrow> client \<Rightarrow> client option" where
  "client_step sc (OpenConfig file) c =
     do { (p, n) \<leftarrow> setnetconfig file sc (conf (st c));
          Some (c\<lparr>st := (st c)\<lparr>conf := n\<rparr>, opened := opened c @ (case p of None \<Rightarrow> [] | Some a \<Rightarrow> [a])\<rparr>) }"
| "client_step sc (NextConfig k) c =
     (if k < length (opened c) then
        do { (e, n) \<leftarrow> getnetconfig (Some (opened c ! k)) (conf (st c)); Some (c\<lparr>st := (st c)\<lparr>conf := n\<rparr>\<rparr>) }
      else Some c)"
| "client_step sc (CloseConfig k) c =
     (if k < length (opened c) then
        do { (r, n) \<leftarrow> endnetconfig (Some (opened c ! k)) (conf (st c));
             Some (c\<lparr>st := (st c)\<lparr>conf := n\<rparr>, opened := drop_nth k (opened c)\<rparr>) }
      else Some c)"
| "client_step sc (Lookup netid file) c =
     do { (e, n) \<leftarrow> getnetconfigent netid file sc (conf (st c));
          Some (c\<lparr>st := (st c)\<lparr>conf := n\<rparr>, held := held c @ (case e of None \<Rightarrow> [] | Some nc \<Rightarrow> [nc])\<rparr>) }"
| "client_step sc (Release k) c =
     (if k < length (held c) then
        do { n \<leftarrow> freenetconfigent (Some (held c ! k)) (conf (st c));
             Some (c\<lparr>st := (st c)\<lparr>conf := n\<rparr>, held := drop_nth k (held c)\<rparr>) }
      else Some c)"
| "client_step sc (OpenPath env file) c =
     do { (p, s) \<leftarrow> setnetpath env file sc (st c);
          Some (c\<lparr>st := s, walks := walks c @ (case p of None \<Rightarrow> [] | Some a \<Rightarrow> [a])\<rparr>) }"
| "client_step sc (NextPath k file) c =
     (if k < length (walks c) then
        do { (e, s) \<leftarrow> getnetpath (Some (walks c ! k)) file sc (st c); Some (c\<lparr>st := s\<rparr>) }
      else Some c)"
| "client_step sc (ClosePath k) c =
     (if k < length (walks c) then
        do { (r, s) \<leftarrow> endnetpath (Some (walks c ! k)) (st c); Some (c\<lparr>st := s, walks := drop_nth k (walks c)\<rparr>) }
      else Some c)"

fun client_run :: "sc_runtime \<Rightarrow> client_op list \<Rightarrow> client \<Rightarrow> client option" where
  "client_run sc [] c = Some c"
| "client_run sc (x # xs) c = do { c \<leftarrow> client_step sc x c; client_run sc xs c }"

text \<open>Before anything was opened; \<open>os\<close> are the answers of the allocator.\<close>

definition client_start :: "answers \<Rightarrow> client" where
  "client_start os = \<lparr>st = \<lparr>conf = \<lparr>g_entries = None, g_entry_cap = 0, g_refcount = 0, g_loaded = False,
       g_nc_error = NC_NOERROR, handles = [], heap = \<lparr>mallocs = os, live = 0\<rparr>\<rparr>, paths = [], np_errno = NOERR\<rparr>,
     opened = [], walks = [], held = []\<rparr>"

subsection \<open>What the blocks belong to\<close>

definition handle_of :: "np_handle option \<Rightarrow> nat multiset" where
  "handle_of cell = (case cell of Some np \<Rightarrow> (case np_nc_handle np of Some p \<Rightarrow> {#p#} | None \<Rightarrow> {#}) | None \<Rightarrow> {#})"

definition path_blocks :: "np_handle option \<Rightarrow> int" where
  "path_blocks cell = (case cell of None \<Rightarrow> 0 | Some np \<Rightarrow> 1 + owns (netpath_buf np) + track_blocks np)"

definition path_ok :: "np_handle \<Rightarrow> bool" where
  "path_ok np \<longleftrightarrow> np_magic np = NP_HANDLE_MAGIC \<and> (\<forall>e \<in> set (tracked np). complete e)
     \<and> (use_visible np \<longleftrightarrow> np_nc_handle np \<noteq> None)"

definition path_addrs :: "np_handle option list \<Rightarrow> nat set" where
  "path_addrs ps = {a. path_at ps a \<noteq> None}"

definition owned_blocks :: "client \<Rightarrow> int" where
  "owned_blocks c = (\<Sum>cell\<leftarrow>paths (st c). path_blocks cell) + (\<Sum>e\<leftarrow>held c. 1 + entry_blocks e)"

definition client_ok :: "client \<Rightarrow> bool" where
  "client_ok c \<longleftrightarrow> nc_inv (conf (st c)) \<and> (\<forall>np. Some np \<in> set (paths (st c)) \<longrightarrow> path_ok np)
     \<and> mset (opened c) + (\<Sum>cell\<leftarrow>paths (st c). handle_of cell) = mset_set (live_addrs (conf (st c)))
     \<and> mset (walks c) = mset_set (path_addrs (paths (st c)))
     \<and> (\<forall>e \<in> set (held c). complete e) \<and> spare (conf (st c)) = owned_blocks c"


subsection \<open>Every step accounts for its blocks\<close>

lemma drop_nth_mset: "k < length xs \<Longrightarrow> mset (drop_nth k xs) = mset xs - {#xs ! k#}"
proof -
  assume k: "k < length xs"
  have "mset xs = mset (take k xs @ xs ! k # drop (Suc k) xs)" using id_take_nth_drop [OF k] by simp
  then show ?thesis by (simp add: drop_nth_def)
qed

lemma drop_nth_sum: "k < length xs \<Longrightarrow> (\<Sum>x\<leftarrow>drop_nth k xs. f x) = (\<Sum>x\<leftarrow>xs. f x) - (f (xs ! k) :: int)"
proof -
  assume k: "k < length xs"
  have "(\<Sum>x\<leftarrow>xs. f x) = (\<Sum>x\<leftarrow>take k xs @ xs ! k # drop (Suc k) xs. f x)" using id_take_nth_drop [OF k] by simp
  then show ?thesis by (simp add: drop_nth_def)
qed

lemma set_drop_nth: "set (drop_nth k xs) \<subseteq> set xs"
  using set_take_subset [of k xs] set_drop_subset [of "Suc k" xs] by (auto simp: drop_nth_def)

lemma sum_list_update_add:
  fixes f :: "'a \<Rightarrow> 'b::comm_monoid_add"
  shows "i < length xs \<Longrightarrow> (\<Sum>x\<leftarrow>xs[i := y]. f x) + f (xs ! i) = (\<Sum>x\<leftarrow>xs. f x) + f y"
proof -
  assume i: "i < length xs"
  have "(\<Sum>x\<leftarrow>xs. f x) = (\<Sum>x\<leftarrow>take i xs @ xs ! i # drop (Suc i) xs. f x)" using id_take_nth_drop [OF i] by simp
  then show ?thesis using i by (simp add: upd_conv_take_nth_drop ac_simps)
qed

lemma path_at_lt: "path_at ps a = Some np \<Longrightarrow> a < length ps \<and> ps ! a = Some np"
  by (auto simp: path_at_def split: if_splits)

lemma path_at_update: "a < length ps \<Longrightarrow> path_at (ps[a := cell]) b = (if b = a then cell else path_at ps b)"
  by (auto simp: path_at_def)

lemma finite_path_addrs [simp]: "finite (path_addrs ps)"
  by (rule finite_subset [of _ "{..<length ps}"]) (auto simp: path_addrs_def path_at_def split: if_splits)

lemma path_addrs_simps:
  "path_addrs (ps @ [Some np]) = insert (length ps) (path_addrs ps)" "length ps \<notin> path_addrs ps"
  "a < length ps \<Longrightarrow> path_addrs (ps[a := None]) = path_addrs ps - {a}"
  "a \<in> path_addrs ps \<Longrightarrow> path_addrs (ps[a := Some np]) = path_addrs ps"
  by (auto simp: path_addrs_def path_at_def nth_append nth_list_update split: if_splits)

lemma client_parts:
  assumes ok: "client_ok c"
  shows "k < length (opened c) \<Longrightarrow> opened c ! k \<in> live_addrs (conf (st c))"
    and "k < length (walks c) \<Longrightarrow> \<exists>np. path_at (paths (st c)) (walks c ! k) = Some np \<and> path_ok np
        \<and> (\<forall>p. np_nc_handle np = Some p \<longrightarrow> p \<in> live_addrs (conf (st c)))"
proof -
  assume "k < length (opened c)"
  then have "opened c ! k \<in># mset (opened c)" by simp
  then have "opened c ! k \<in># mset_set (live_addrs (conf (st c)))" using ok unfolding client_ok_def
    by (metis mset_subset_eqD mset_subset_eq_add_left)
  then show "opened c ! k \<in> live_addrs (conf (st c))" by simp
next
  assume "k < length (walks c)"
  then have "walks c ! k \<in># mset (walks c)" by simp
  moreover have "mset (walks c) = mset_set (path_addrs (paths (st c)))" using ok by (simp add: client_ok_def)
  ultimately have "walks c ! k \<in># mset_set (path_addrs (paths (st c)))" by (simp only:)
  then have "walks c ! k \<in> path_addrs (paths (st c))" by simp
  then obtain np where np: "path_at (paths (st c)) (walks c ! k) = Some np" by (auto simp: path_addrs_def)
  then have i: "walks c ! k < length (paths (st c))" "paths (st c) ! (walks c ! k) = Some np" using path_at_lt by blast+
  then have mem: "Some np \<in> set (paths (st c))" by (metis nth_mem)
  have "p \<in> live_addrs (conf (st c))" if "np_nc_handle np = Some p" for p
  proof -
    obtain xs ys where split: "paths (st c) = xs @ Some np # ys" using split_list [OF mem] by blast
    have "p \<in># handle_of (Some np)" using that by (simp add: handle_of_def)
    then have "p \<in># mset (opened c) + (\<Sum>cell\<leftarrow>paths (st c). handle_of cell)" by (simp add: split)
    also have "mset (opened c) + (\<Sum>cell\<leftarrow>paths (st c). handle_of cell) = mset_set (live_addrs (conf (st c)))"
      using ok by (simp add: client_ok_def)
    finally show ?thesis by simp
  qed
  with np mem ok show "\<exists>np. path_at (paths (st c)) (walks c ! k) = Some np \<and> path_ok np
        \<and> (\<forall>p. np_nc_handle np = Some p \<longrightarrow> p \<in> live_addrs (conf (st c)))"
    by (auto simp: client_ok_def)
qed

definition steps_to :: "client \<Rightarrow> client option \<Rightarrow> bool" where
  "steps_to c res \<longleftrightarrow> (\<exists>c'. res = Some c' \<and> client_ok c'
     \<and> length (handles (conf (st c'))) \<le> Suc (length (handles (conf (st c)))))"

lemma open_config_ok:
  assumes ok: "client_ok c" and few: "length (handles (conf (st c))) + 1 < 2 ^ 32"
  shows "steps_to c (client_step sc (OpenConfig file) c)"
proof -
  have inv: "nc_inv (conf (st c))" using ok by (simp add: client_ok_def)
  obtain p n where "setnetconfig file sc (conf (st c)) = Some (p, n)" "nc_inv n" "spare n = spare (conf (st c))"
    "case p of None \<Rightarrow> live_addrs n = live_addrs (conf (st c)) \<and> length (handles n) = length (handles (conf (st c)))
      | Some a \<Rightarrow> a \<notin> live_addrs (conf (st c)) \<and> live_addrs n = insert a (live_addrs (conf (st c)))
          \<and> length (handles n) = Suc (length (handles (conf (st c))))"
    using setnetconfig_ok [OF inv few, of "file" sc] by blast
  with ok show ?thesis
    by (cases p) (simp_all add: steps_to_def client_ok_def owned_blocks_def)
qed

lemma next_config_ok:
  assumes ok: "client_ok c"
  shows "steps_to c (client_step sc (NextConfig k) c)"
proof (cases "k < length (opened c)")
  case True
  have inv: "nc_inv (conf (st c))" using ok by (simp add: client_ok_def)
  obtain e n where "getnetconfig (Some (opened c ! k)) (conf (st c)) = Some (e, n)" "frame (conf (st c)) n" "spare n = spare (conf (st c))"
    using getnetconfig_ok [OF inv client_parts(1) [OF ok True]] by blast
  with True ok show ?thesis by (simp add: steps_to_def client_ok_def owned_blocks_def frame_def)
qed (use ok in \<open>simp add: steps_to_def\<close>)

lemma close_config_ok:
  assumes ok: "client_ok c"
  shows "steps_to c (client_step sc (CloseConfig k) c)"
proof (cases "k < length (opened c)")
  case True
  have inv: "nc_inv (conf (st c))" using ok by (simp add: client_ok_def)
  let ?a = "opened c ! k"
  have a: "?a \<in> live_addrs (conf (st c))" by (rule client_parts(1) [OF ok True])
  obtain n where n: "endnetconfig (Some ?a) (conf (st c)) = Some (0, n)" "nc_inv n" "live_addrs n = live_addrs (conf (st c)) - {?a}"
    "spare n = spare (conf (st c))" "length (handles n) = length (handles (conf (st c)))"
    using endnetconfig_ok [OF inv a] by blast
  have "mset (drop_nth k (opened c)) + (\<Sum>cell\<leftarrow>paths (st c). handle_of cell) = mset_set (live_addrs n)"
    using ok True a n(3) by (simp add: client_ok_def drop_nth_mset mset_set.remove flip: diff_union_single_conv)
  with True ok n show ?thesis by (simp add: steps_to_def client_ok_def owned_blocks_def)
qed (use ok in \<open>simp add: steps_to_def\<close>)

lemma lookup_ok:
  assumes ok: "client_ok c"
  shows "steps_to c (client_step sc (Lookup netid file) c)"
proof -
  have inv: "nc_inv (conf (st c))" using ok by (simp add: client_ok_def)
  obtain e n where "getnetconfigent netid file sc (conf (st c)) = Some (e, n)" "frame (conf (st c)) n"
    "case e of None \<Rightarrow> spare n = spare (conf (st c)) | Some nc \<Rightarrow> complete nc \<and> spare n = spare (conf (st c)) + 1 + entry_blocks nc"
    using getnetconfigent_ok [OF inv, of netid "file" sc] by blast
  with ok show ?thesis
    by (cases e) (simp_all add: steps_to_def client_ok_def owned_blocks_def frame_def)
qed

lemma release_ok:
  assumes ok: "client_ok c"
  shows "steps_to c (client_step sc (Release k) c)"
proof (cases "k < length (held c)")
  case True
  have "complete (held c ! k)" using ok True by (simp add: client_ok_def)
  from freenetconfigent_ok [OF this, of "conf (st c)"] obtain h where
    "freenetconfigent (Some (held c ! k)) (conf (st c)) = Some ((conf (st c))\<lparr>heap := h\<rparr>)"
    "live h = live (heap (conf (st c))) - 1 - entry_blocks (held c ! k)" by blast
  with True ok set_drop_nth [of k "held c"] show ?thesis
    by (auto simp: steps_to_def client_ok_def owned_blocks_def spare_heap drop_nth_sum)
qed (use ok in \<open>simp add: steps_to_def\<close>)


lemma setnetpath_ok:
  assumes inv: "nc_inv (conf s)" and few: "length (handles (conf s)) + 1 < 2 ^ 32"
  shows "\<exists>p s'. setnetpath env file sc s = Some (p, s') \<and> nc_inv (conf s') \<and> length (handles (conf s')) \<le> Suc (length (handles (conf s)))
    \<and> (case p of
         None \<Rightarrow> paths s' = paths s \<and> live_addrs (conf s') = live_addrs (conf s) \<and> spare (conf s') = spare (conf s)
       | Some a \<Rightarrow> a = length (paths s) \<and> (\<exists>np. paths s' = paths s @ [Some np] \<and> path_ok np
           \<and> spare (conf s') = spare (conf s) + path_blocks (Some np)
           \<and> mset_set (live_addrs (conf s')) = mset_set (live_addrs (conf s)) + handle_of (Some np)))"
proof -
  obtain ok h where t: "block_take (heap (conf s)) = (ok, h)" by force
  let ?np = "\<lparr>np_magic = NP_HANDLE_MAGIC, use_visible = False, np_nc_handle = None, netpath_buf = None,
                   cursor = None, tracked = []\<rparr>"
  let ?n = "(conf s)\<lparr>heap := h\<rparr>"
  note start = setnetpath_def [of env "file" sc s, unfolded t Let_def prod.case]
  show ?thesis
  proof (cases ok)
    case False
    then show ?thesis using inv live_block_take [OF t] by (simp add: start spare_heap)
  next
    case ok: True
    have n: "nc_inv ?n" "spare ?n = spare (conf s) + 1" using inv ok live_block_take [OF t] by (simp_all add: spare_heap)
    show ?thesis
    proof (cases "env = None \<or> env = Some []")
      case True
      obtain p c where c: "setnetconfig file sc ?n = Some (p, c)" "nc_inv c" "spare c = spare ?n"
        "case p of None \<Rightarrow> live_addrs c = live_addrs ?n \<and> length (handles c) = length (handles ?n)
          | Some a \<Rightarrow> a \<notin> live_addrs ?n \<and> live_addrs c = insert a (live_addrs ?n) \<and> length (handles c) = Suc (length (handles ?n))"
        using setnetconfig_ok [OF n(1), of "file" sc] few by auto
      have eq: "setnetpath env file sc s = (if p = None then Some (None, s\<lparr>conf := c\<lparr>heap := block_free (Some ?np) (heap c)\<rparr>\<rparr>)
          else Some (Some (length (paths s)), s\<lparr>conf := c, paths := paths s @ [Some (?np\<lparr>use_visible := True, np_nc_handle := p\<rparr>)]\<rparr>))"
        using ok c(1) unfolding start if_P [OF True] by simp
      show ?thesis
      proof (cases p)
        case None
        then show ?thesis using c n by (simp add: eq spare_heap live_simps)
      next
        case (Some a)
        then show ?thesis using c n by (simp add: eq path_ok_def path_blocks_def handle_of_def track_blocks_def)
      qed
    next
      case False
      obtain buf h2 where b: "dup_cstr env h = (buf, h2)" by force
      have nf: "\<not> (env = None \<or> env = Some [])" by (fact False)
      have sp: "spare (?n\<lparr>heap := h2\<rparr>) = spare (conf s) + 1 + owns buf"
        using n(2) dup_cstr_ok(1) [OF b] by (simp add: spare_heap)
      have eq: "setnetpath env file sc s = (if buf = None
          then Some (None, s\<lparr>conf := (nc_set_error NC_NOMEM (?n\<lparr>heap := h2\<rparr>))\<lparr>heap := block_free (Some ?np) h2\<rparr>\<rparr>)
          else Some (Some (length (paths s)),
            s\<lparr>conf := ?n\<lparr>heap := h2\<rparr>, paths := paths s @ [Some (?np\<lparr>netpath_buf := buf, cursor := buf\<rparr>)]\<rparr>))"
        using ok b unfolding start if_not_P [OF nf] by simp
      show ?thesis
      proof (cases buf)
        case None
        then show ?thesis using sp inv n dup_cstr_ok(1) [OF b]
          by (simp add: eq spare_heap live_simps)
      next
        case (Some x)
        then show ?thesis using sp inv
          by (simp add: eq path_ok_def path_blocks_def handle_of_def track_blocks_def)
      qed
    qed
  qed
qed

lemma open_path_ok:
  assumes ok: "client_ok c" and few: "length (handles (conf (st c))) + 1 < 2 ^ 32"
  shows "steps_to c (client_step sc (OpenPath env file) c)"
proof -
  have inv: "nc_inv (conf (st c))" using ok by (simp add: client_ok_def)
  obtain p s where s: "setnetpath env file sc (st c) = Some (p, s)" "nc_inv (conf s)"
    "length (handles (conf s)) \<le> Suc (length (handles (conf (st c))))"
    "case p of
         None \<Rightarrow> paths s = paths (st c) \<and> live_addrs (conf s) = live_addrs (conf (st c)) \<and> spare (conf s) = spare (conf (st c))
       | Some a \<Rightarrow> a = length (paths (st c)) \<and> (\<exists>np. paths s = paths (st c) @ [Some np] \<and> path_ok np
           \<and> spare (conf s) = spare (conf (st c)) + path_blocks (Some np)
           \<and> mset_set (live_addrs (conf s)) = mset_set (live_addrs (conf (st c))) + handle_of (Some np))"
    using setnetpath_ok [OF inv few, of env "file" sc] by blast
  show ?thesis
  proof (cases p)
    case None
    with s ok show ?thesis by (simp add: steps_to_def client_ok_def owned_blocks_def)
  next
    case (Some a)
    then obtain np where np: "paths s = paths (st c) @ [Some np]" "path_ok np" "a = length (paths (st c))"
      "spare (conf s) = spare (conf (st c)) + path_blocks (Some np)"
      "mset_set (live_addrs (conf s)) = mset_set (live_addrs (conf (st c))) + handle_of (Some np)" using s(4) by auto
    have m: "mset (opened c) + (\<Sum>cell\<leftarrow>paths (st c). handle_of cell) = mset_set (live_addrs (conf (st c)))"
      using ok by (simp add: client_ok_def)
    have "mset (opened c) + (\<Sum>cell\<leftarrow>paths s. handle_of cell) = mset_set (live_addrs (conf s))"
      by (simp add: np(1) np(5) flip: m)
    with np s(1-3) ok Some show ?thesis
      by (auto simp: steps_to_def client_ok_def owned_blocks_def path_addrs_simps)
  qed
qed

lemma next_path_ok:
  assumes ok: "client_ok c"
  shows "steps_to c (client_step sc (NextPath k file) c)"
proof (cases "k < length (walks c)")
  case k: True
  have inv: "nc_inv (conf (st c))" using ok by (simp add: client_ok_def)
  let ?a = "walks c ! k"
  obtain np where np: "path_at (paths (st c)) ?a = Some np" "path_ok np"
    "\<forall>p. np_nc_handle np = Some p \<longrightarrow> p \<in> live_addrs (conf (st c))"
    using client_parts(2) [OF ok k] by blast
  have i: "?a < length (paths (st c))" "paths (st c) ! ?a = Some np" using path_at_lt [OF np(1)] by blast+
  show ?thesis
  proof (cases "use_visible np")
    case True
    then obtain p where p: "np_nc_handle np = Some p" "p \<in> live_addrs (conf (st c))" using np(2,3) by (auto simp: path_ok_def)
    then obtain h where h: "handle_at (handles (conf (st c))) p = Some h" by (auto simp: live_addrs_def)
    have lt: "length (cells (g_entries (conf (st c)))) - index h < length (cells (g_entries (conf (st c)))) + 1" by simp
    obtain r n where "visible_loop (length (cells (g_entries (conf (st c)))) + 1) (Some p) (conf (st c)) = Some (r, n)"
      "frame (conf (st c)) n" "spare n = spare (conf (st c))"
      using visible_loop_ok [OF inv p(2) h lt] by blast
    then show ?thesis using k np(1,2) True p ok
      by (simp add: getnetpath_def path_ok_def steps_to_def client_ok_def owned_blocks_def frame_def)
  next
    case False
    obtain r np' n where l: "path_loop file sc np (conf (st c)) = Some (r, np', n)" "frame (conf (st c)) n" "np_magic np' = np_magic np"
      "use_visible np' = use_visible np" "np_nc_handle np' = np_nc_handle np" "netpath_buf np' = netpath_buf np"
      "\<forall>e \<in> set (tracked np'). complete e" "spare n - track_blocks np' = spare (conf (st c)) - track_blocks np"
      using path_loop_ok [OF inv, of np "file" sc] np(2) by (auto simp: path_ok_def)
    let ?ps = "(paths (st c))[?a := Some np']"
    have np': "path_ok np'" using l np(2) by (simp add: path_ok_def)
    have "handle_of (Some np') = handle_of (Some np)" using l by (simp add: handle_of_def)
    then have m: "(\<Sum>cell\<leftarrow>?ps. handle_of cell) = (\<Sum>cell\<leftarrow>paths (st c). handle_of cell)"
      using sum_list_update_add [OF i(1), of handle_of "Some np'"] i(2) by simp
    have b: "(\<Sum>cell\<leftarrow>?ps. path_blocks cell) = (\<Sum>cell\<leftarrow>paths (st c). path_blocks cell) + track_blocks np' - track_blocks np"
      using sum_list_update_add [OF i(1), of path_blocks "Some np'"] i(2) l(6) by (simp add: path_blocks_def)
    have pa: "path_addrs ?ps = path_addrs (paths (st c))"
      by (rule path_addrs_simps(4)) (simp add: path_addrs_def np(1))
    have all: "path_ok q" if "Some q \<in> set ?ps" for q
      using that np' ok set_update_subset_insert [of "paths (st c)" ?a "Some np'"] by (auto simp: client_ok_def)
    show ?thesis using k np(1,2) False l ok m b pa all
      by (auto simp: getnetpath_def path_ok_def steps_to_def client_ok_def owned_blocks_def frame_def)
  qed
qed (use ok in \<open>simp add: steps_to_def\<close>)

lemma free_tracked_ok:
  "\<forall>e \<in> set es. complete e \<Longrightarrow>
     \<exists>h. free_tracked es c = Some (c\<lparr>heap := h\<rparr>) \<and> live h = live (heap c) - (\<Sum>e\<leftarrow>es. 2 + entry_blocks e)"
proof (induction es arbitrary: c)
  case Nil
  show ?case by (rule exI [of _ "heap c"]) simp
next
  case (Cons e es)
  obtain h where h: "freenetconfigent (Some e) c = Some (c\<lparr>heap := h\<rparr>)" "live h = live (heap c) - 1 - entry_blocks e"
    using freenetconfigent_ok [of e c] Cons.prems by auto
  obtain h2 where "free_tracked es (c\<lparr>heap := block_free (Some e) h\<rparr>) = Some ((c\<lparr>heap := block_free (Some e) h\<rparr>)\<lparr>heap := h2\<rparr>)"
    "live h2 = live (block_free (Some e) h) - (\<Sum>e\<leftarrow>es. 2 + entry_blocks e)"
    using Cons.IH [of "c\<lparr>heap := block_free (Some e) h\<rparr>"] Cons.prems by auto
  with h show ?case by (intro exI [of _ h2]) (simp add: live_simps)
qed

lemma close_path_ok:
  assumes ok: "client_ok c"
  shows "steps_to c (client_step sc (ClosePath k) c)"
proof (cases "k < length (walks c)")
  case k: True
  have inv: "nc_inv (conf (st c))" using ok by (simp add: client_ok_def)
  let ?a = "walks c ! k"
  obtain np where np: "path_at (paths (st c)) ?a = Some np" "path_ok np"
    "\<forall>p. np_nc_handle np = Some p \<longrightarrow> p \<in> live_addrs (conf (st c))"
    using client_parts(2) [OF ok k] by blast
  have i: "?a < length (paths (st c))" "paths (st c) ! ?a = Some np" using path_at_lt [OF np(1)] by blast+
  obtain n where n: "(case np_nc_handle np of None \<Rightarrow> Some (conf (st c))
      | Some p \<Rightarrow> do { (r, n) \<leftarrow> endnetconfig (Some p) (conf (st c)); Some n }) = Some n"
    and n': "nc_inv n" "spare n = spare (conf (st c))" "length (handles n) = length (handles (conf (st c)))"
      "mset_set (live_addrs n) + handle_of (Some np) = mset_set (live_addrs (conf (st c)))"
  proof (cases "np_nc_handle np")
    case None
    then show thesis using that inv by (simp add: handle_of_def)
  next
    case (Some p)
    then have p: "p \<in> live_addrs (conf (st c))" using np(3) by simp
    obtain n where "endnetconfig (Some p) (conf (st c)) = Some (0, n)" "nc_inv n" "live_addrs n = live_addrs (conf (st c)) - {p}"
      "spare n = spare (conf (st c))" "length (handles n) = length (handles (conf (st c)))"
      using endnetconfig_ok [OF inv p] by blast
    with Some p show thesis using that by (simp add: handle_of_def mset_set.remove)
  qed
  let ?n = "n\<lparr>heap := block_free (netpath_buf np) (heap n)\<rparr>"
  obtain h where h: "free_tracked (tracked np) ?n = Some (?n\<lparr>heap := h\<rparr>)" "live h = live (heap ?n) - track_blocks np"
    using free_tracked_ok [of "tracked np" ?n] np(2) by (auto simp: path_ok_def track_blocks_def)
  let ?m = "n\<lparr>heap := block_free (Some np) h\<rparr>"
  have e: "endnetpath (Some ?a) (st c) = Some (0, (st c)\<lparr>conf := ?m, paths := (paths (st c))[?a := None]\<rparr>)"
    using np(1,2) n h(1) by (simp add: endnetpath_def path_ok_def Let_def)
  have sp: "spare ?m = spare (conf (st c)) - path_blocks (Some np)"
    using n'(2) h(2) by (simp add: spare_heap live_simps path_blocks_def)
  let ?ps = "(paths (st c))[?a := None]"
  have ms: "(\<Sum>cell\<leftarrow>?ps. handle_of cell) + handle_of (Some np) = (\<Sum>cell\<leftarrow>paths (st c). handle_of cell)"
    using sum_list_update_add [OF i(1), of handle_of None] i(2) by (simp add: handle_of_def)
  have b: "(\<Sum>cell\<leftarrow>?ps. path_blocks cell) = (\<Sum>cell\<leftarrow>paths (st c). path_blocks cell) - path_blocks (Some np)"
    using sum_list_update_add [OF i(1), of path_blocks None] i(2) by (simp add: path_blocks_def)
  have pa: "path_addrs ?ps = path_addrs (paths (st c)) - {?a}" by (rule path_addrs_simps(3) [OF i(1)])
  have "?a \<in> path_addrs (paths (st c))" by (simp add: path_addrs_def np(1))
  then have w: "mset (drop_nth k (walks c)) = mset_set (path_addrs ?ps)"
    using ok k by (simp add: client_ok_def drop_nth_mset pa mset_set.remove)
  have all: "path_ok q" if "Some q \<in> set ?ps" for q
    using that ok set_update_subset_insert [of "paths (st c)" ?a None] by (auto simp: client_ok_def)
  have "mset (opened c) + (\<Sum>cell\<leftarrow>paths (st c). handle_of cell) = mset_set (live_addrs (conf (st c)))"
    using ok by (simp add: client_ok_def)
  then have lv: "mset (opened c) + (\<Sum>cell\<leftarrow>?ps. handle_of cell) = mset_set (live_addrs n)"
    unfolding n'(4) [symmetric] ms [symmetric] by (simp add: add.assoc [symmetric])
  show ?thesis using k e sp b w all lv ok n'
    by (simp add: steps_to_def client_ok_def owned_blocks_def)
qed (use ok in \<open>simp add: steps_to_def\<close>)

lemma client_step_ok:
  assumes "client_ok c" and "length (handles (conf (st c))) + 1 < 2 ^ 32"
  shows "steps_to c (client_step sc x c)"
  by (cases x) (simp_all only: open_config_ok [OF assms] next_config_ok [OF assms(1)] close_config_ok [OF assms(1)]
    lookup_ok [OF assms(1)] release_ok [OF assms(1)] open_path_ok [OF assms] next_path_ok [OF assms(1)] close_path_ok [OF assms(1)])

end
