(* ===== verification/NetDatabase.thy ===== *)
theory NetDatabase
  imports NetOwnership
begin

text \<open>
  What the netconfig database and the NETPATH iterator deliver when memory does not run out: a file written out from
  entries is read back as those entries, and a walk visits the entries it should. The properties of the component
  are at the end.
\<close>

section \<open>A database file and its entries\<close>

definition semantics_name :: "nat \<Rightarrow> string" where
  "semantics_name n = (if n = 1 then ''tpi_clts'' else if n = 2 then ''tpi_cots'' else if n = 3 then ''tpi_cots_ord'' else ''tpi_raw'')"

definition flags_name :: "64 word \<Rightarrow> string" where
  "flags_name f = (if f = 0 then ''-'' else if f = 1 then ''v'' else if f = 2 then ''b'' else ''vb'')"

fun join_with :: "char \<Rightarrow> string list \<Rightarrow> string" where
  "join_with d [] = []"
| "join_with d [x] = x"
| "join_with d (x # y # xs) = x @ d # join_with d (y # xs)"

definition lookups_name :: "string option list option \<Rightarrow> string" where
  "lookups_name xs = (case xs of None \<Rightarrow> ''-'' | Some ys \<Rightarrow> join_with CHR '','' (map the ys))"

definition entry_tokens :: "netconfig \<Rightarrow> string list" where
  "entry_tokens nc = [the (nc_netid nc), semantics_name (nc_semantics nc), flags_name (nc_flag nc),
     the (nc_protofmly nc), the (nc_proto nc), the (nc_device nc), lookups_name (nc_lookups nc)]"

definition word_ok :: "char set \<Rightarrow> string \<Rightarrow> bool" where
  "word_ok bad w \<longleftrightarrow> w \<noteq> [] \<and> set w \<inter> bad = {}"

abbreviation blanks :: "char set" where
  "blanks \<equiv> {CHR '' '', CHR 0x09, CHR 0x0D, CHR 0x0A, NUL}"

text \<open>Entries that a line of the file can hold.\<close>

definition printable :: "netconfig \<Rightarrow> bool" where
  "printable nc \<longleftrightarrow> complete nc \<and> nc_semantics nc \<in> {1, 2, 3, 4} \<and> nc_flag nc \<in> {0, 1, 2, 3} \<and> nc_unused nc = replicate 9 0
     \<and> list_all (word_ok blanks) [the (nc_netid nc), the (nc_protofmly nc), the (nc_proto nc), the (nc_device nc)]
     \<and> hd (the (nc_netid nc)) \<noteq> CHR ''#''
     \<and> list_all (\<lambda>x. word_ok (insert CHR '','' blanks) (the x)) (cells (nc_lookups nc)) \<and> nc_lookups nc \<noteq> Some [Some ''-'']
     \<and> length (join_with CHR '' '' (entry_tokens nc)) < 999"

datatype db_line = Comment string | Entry netconfig

fun show_line :: "db_line \<Rightarrow> string" where
  "show_line (Comment t) = CHR ''#'' # t @ [LF]"
| "show_line (Entry nc) = join_with CHR '' '' (entry_tokens nc) @ [LF]"

fun line_ok :: "db_line \<Rightarrow> bool" where
  "line_ok (Comment t) \<longleftrightarrow> LF \<notin> set t \<and> length t < 998"
| "line_ok (Entry nc) \<longleftrightarrow> printable nc"

fun line_entries :: "db_line \<Rightarrow> netconfig list" where
  "line_entries (Comment t) = []"
| "line_entries (Entry nc) = [nc]"

subsection \<open>Tokens\<close>

lemma dropWhile_word: "w \<noteq> [] \<Longrightarrow> set w \<inter> set ds = {} \<Longrightarrow> dropWhile (\<lambda>c. c \<in> set ds) (w @ rest) = w @ rest"
  by (cases w) auto

lemma strtok_word:
  assumes "word_ok bad w" and "set ds \<subseteq> bad" and "d \<in> set ds"
  shows "strtok_r ds (w @ d # rest) = Some (w, rest)" and "strtok_r ds w = Some (w, [])"
proof -
  have w: "w \<noteq> []" "set w \<inter> set ds = {}" "\<forall>c \<in> set w. c \<notin> set ds" using assms by (auto simp: word_ok_def)
  have nil: "dropWhile (\<lambda>c. c \<notin> set ds) w = []" using w(3) by (simp add: dropWhile_eq_Nil_conv)
  show "strtok_r ds (w @ d # rest) = Some (w, rest)"
    using w dropWhile_word [OF w(1,2), of "d # rest"] assms(3) by (simp add: strtok_r_def Let_def)
  show "strtok_r ds w = Some (w, [])"
    using w dropWhile_word [OF w(1,2), of "[]"] by (simp add: strtok_r_def Let_def nil)
qed

lemma next_fields_join:
  "list_all (word_ok blanks) ws \<Longrightarrow> next_fields (length ws) (join_with CHR '' '' ws) = Some ws"
proof (induction "CHR '' ''" ws rule: join_with.induct)
  case (3 x y xs)
  have tok: "strtok_r [CHR '' '', CHR 0x09] (x @ CHR '' '' # join_with CHR '' '' (y # xs)) = Some (x, join_with CHR '' '' (y # xs))"
    by (rule strtok_word(1) [of blanks]) (use 3 in auto)
  have "next_fields (Suc (length xs)) (join_with CHR '' '' (y # xs)) = Some (y # xs)" using 3 by simp
  with tok show ?case
    unfolding length_Cons join_with.simps next_fields.simps(2) [of "Suc (length xs)"] by (simp only: bind.bind_lunit prod.case)
next
  case (2 x)
  then show ?case using strtok_word(2) [of blanks x "[CHR '' '', CHR 0x09]" "CHR '' ''"] by simp
qed simp

lemma join_with_set: "set (join_with d ws) \<subseteq> insert d (\<Union> (set ` set ws))"
  by (induction d ws rule: join_with.induct) auto

lemma join_with_Nil: "join_with d ws = [] \<Longrightarrow> ws \<noteq> [] \<Longrightarrow> hd ws = []"
  by (induction d ws rule: join_with.induct) auto

lemma hd_join_with: "ws \<noteq> [] \<Longrightarrow> hd ws \<noteq> [] \<Longrightarrow> hd (join_with d ws) = hd (hd ws)"
  by (induction d ws rule: join_with.induct) auto

subsection \<open>With memory to spare\<close>

abbreviation plenty :: "heap \<Rightarrow> bool" where
  "plenty h \<equiv> mallocs h = []"

lemma block_take_plenty [simp]: "plenty h \<Longrightarrow> block_take h = (True, h\<lparr>live := live h + 1\<rparr>)"
  by (simp add: block_take_def)

lemma block_free_plenty [simp]: "mallocs (block_free p h) = mallocs h"
  by (simp add: block_free_def)

lemma block_realloc_plenty: "plenty h \<Longrightarrow> \<exists>h'. block_realloc p h = (True, h') \<and> plenty h'"
  by (simp add: block_realloc_def)

lemma dup_cstr_plenty [simp]: "plenty h \<Longrightarrow> dup_cstr (Some s) h = (Some s, h\<lparr>live := live h + 1\<rparr>)"
  by (simp add: dup_cstr_def)

lemma size_mul_fits: "a * b \<le> 2 ^ 64 - 1 \<Longrightarrow> size_mul_ok a b = Some (a * b)"
proof (cases "a = 0")
  case False
  assume "a * b \<le> 2 ^ 64 - 1"
  then have "b \<le> (2 ^ 64 - 1) div a" using False by (simp only: less_eq_div_iff_mult_less_eq mult.commute [of b a])
  then show ?thesis by (simp only: size_mul_ok_def not_less [symmetric] if_False simp_thms)
qed (simp add: size_mul_ok_def)

lemma lookups_loop_names:
  "plenty h \<Longrightarrow> list_all (word_ok {CHR '',''}) ws \<Longrightarrow> length (cells acc) \<le> cap \<Longrightarrow> cap \<le> 4 + 2 * length (cells acc)
     \<Longrightarrow> (acc = None \<longrightarrow> cap = 0) \<Longrightarrow> length (cells acc) + length ws < 2 ^ 40 \<Longrightarrow>
     \<exists>h'. lookups_loop (join_with CHR '','' ws) acc cap h =
       Some (True, if ws = [] then acc else Some (cells acc @ map Some ws), h') \<and> plenty h'"
proof (induction ws arbitrary: acc cap h)
  case Nil
  then show ?case by (simp add: lookups_loop.simps [of "[]"] strtok_r_def)
next
  case (Cons w ws)
  have w: "w \<noteq> []" using Cons.prems(2) by (simp add: word_ok_def)
  have tok: "strtok_r '','' (join_with CHR '','' (w # ws)) = Some (w, join_with CHR '','' ws)"
    using Cons.prems(2) strtok_word [of "{CHR '',''}" w "'',''" "CHR '',''"] by (cases ws) auto
  have mul: "size_mul_ok n 8 = Some (n * 8)" if "n \<le> 2 ^ 42" for n
    by (rule size_mul_fits) (use that in simp)
  define grow where "grow = (if length (cells acc) = cap then
                      let new_cap = (if cap = 0 then 4 else cap * 2) in
                      (case size_mul_ok new_cap 8 of
                         None \<Rightarrow> (False, acc, cap, h)
                       | Some bytes \<Rightarrow>
                           let (ok, h) = block_realloc acc h
                           in if ok then (True, Some (cells acc), new_cap, h) else (False, acc, cap, h))
                    else (True, acc, cap, h))"
  note eq = lookups_loop.simps [of "join_with CHR '','' (w # ws)" acc cap h, folded grow_def]
  obtain h1 where r: "block_realloc acc h = (True, h1)" "plenty h1" using block_realloc_plenty [OF Cons.prems(1)] by blast
  obtain acc1 cap1 h2 where g: "grow = (True, acc1, cap1, h2)" "plenty h2" "cells acc1 = cells acc" "length (cells acc) < cap1"
    "cap1 \<le> 4 + 2 * length (cells acc)"
  proof (cases "length (cells acc) = cap")
    case True
    then have "(if cap = 0 then 4 else cap * 2) \<le> 2 ^ 42" using Cons.prems(6) by auto
    then have "grow = (True, Some (cells acc), if cap = 0 then 4 else cap * 2, h1)"
      unfolding grow_def Let_def by (simp only: True simp_thms if_True mul option.case r prod.case)
    then show thesis by (rule that) (use True r in auto)
  next
    case False
    then show thesis using that [of acc cap h] Cons.prems by (simp add: grow_def)
  qed
  have IH: "\<exists>h'. lookups_loop (join_with CHR '','' ws) (Some (cells acc1 @ [Some w])) cap1 (h2\<lparr>live := live h2 + 1\<rparr>) =
      Some (True, if ws = [] then Some (cells acc1 @ [Some w]) else Some (cells (Some (cells acc1 @ [Some w])) @ map Some ws), h')
      \<and> plenty h'"
    by (rule Cons.IH) (use Cons.prems g in auto)
  have "lookups_loop (join_with CHR '','' (w # ws)) acc cap h =
      lookups_loop (join_with CHR '','' ws) (Some (cells acc1 @ [Some w])) cap1 (h2\<lparr>live := live h2 + 1\<rparr>)"
    unfolding eq using tok w g by simp
  with IH g(3) show ?case by auto
qed


lemma parse_semantics_name: "n \<in> {1, 2, 3, 4} \<Longrightarrow> parse_semantics (semantics_name n) = Some n"
  by (auto simp: parse_semantics_def semantics_name_def)

lemma parse_flags_name: "f \<in> {0, 1, 2, 3} \<Longrightarrow> parse_flags (flags_name f) = Some f"
  by (auto simp: parse_flags_def flags_name_def)

lemma parse_lookups_name:
  assumes ok: "plenty h" and ws: "list_all (\<lambda>x. word_ok (insert CHR '','' blanks) (the x)) (cells xs)" and none: "None \<notin> set (cells xs)"
    and few: "length (cells xs) < 2 ^ 40" and ne: "xs \<noteq> Some []" "xs \<noteq> Some [Some ''-'']"
  shows "\<exists>h'. parse_lookups (lookups_name xs) h = Some (Some (length (cells xs), xs), h') \<and> plenty h'"
proof (cases xs)
  case None
  with ok show ?thesis by (simp add: lookups_name_def parse_lookups_def)
next
  case (Some ys)
  let ?ws = "map the ys"
  have ws': "list_all (word_ok {CHR '',''}) ?ws" using ws Some by (auto simp: list_all_iff word_ok_def)
  have some: "map Some ?ws = ys" using none Some by (auto simp: list_eq_iff_nth_eq) (metis nth_mem option.exhaust_sel)
  have ne': "?ws \<noteq> []" using ne(1) Some by auto
  have nd: "join_with CHR '','' ?ws \<noteq> ''-''"
  proof
    assume dash: "join_with CHR '','' ?ws = ''-''"
    have "?ws = [''-'']"
    proof (cases ?ws)
      case (Cons w ws)
      then have w: "w \<noteq> []" using ws' by (simp add: word_ok_def)
      show ?thesis
      proof (cases ws)
        case Nil
        with Cons dash show ?thesis by simp
      next
        case (Cons w2 ws2)
        with \<open>?ws = w # ws\<close> dash have "length (w @ CHR '','' # join_with CHR '','' (w2 # ws2)) = 1" by simp
        with w show ?thesis by simp
      qed
    qed (use ne' in simp)
    then have "ys = [Some ''-'']" using some by (metis list.simps(8) list.simps(9))
    with ne(2) Some show False by simp
  qed
  obtain h' where "lookups_loop (join_with CHR '','' ?ws) None 0 (h\<lparr>live := live h + 1\<rparr>) = Some (True, Some ys, h')" "plenty h'"
    using lookups_loop_names [of "h\<lparr>live := live h + 1\<rparr>" ?ws None 0] ok ws' ne' few some Some by auto
  then show ?thesis using Some ok nd by (simp add: parse_lookups_def lookups_name_def)
qed

lemma flags_name_ok: "f \<in> {0, 1, 2, 3} \<Longrightarrow> word_ok blanks (flags_name f)"
  by (auto simp: flags_name_def word_ok_def)

lemma semantics_name_ok: "word_ok blanks (semantics_name n)"
  by (auto simp: semantics_name_def word_ok_def)

lemma lookups_name_ok:
  assumes "list_all (\<lambda>x. word_ok (insert CHR '','' blanks) (the x)) (cells xs)" and "xs \<noteq> Some []"
  shows "word_ok blanks (lookups_name xs)"
proof (cases xs)
  case (Some ys)
  then have ys: "ys \<noteq> []" "\<forall>x \<in> set ys. word_ok (insert CHR '','' blanks) (the x)" using assms by (auto simp: list_all_iff)
  have "join_with CHR '','' (map the ys) \<noteq> []"
    using join_with_Nil [of "CHR '',''" "map the ys"] ys by (cases ys) (auto simp: word_ok_def)
  moreover have "set (join_with CHR '','' (map the ys)) \<inter> blanks = {}"
    using join_with_set [of "CHR '',''" "map the ys"] ys(2) by (auto simp: word_ok_def)
  ultimately show ?thesis using Some by (simp add: word_ok_def lookups_name_def)
qed (simp add: lookups_name_def word_ok_def)

lemma entry_tokens_ok: "printable nc \<Longrightarrow> list_all (word_ok blanks) (entry_tokens nc)"
  using flags_name_ok semantics_name_ok lookups_name_ok
  by (simp add: printable_def entry_tokens_def complete_def)

lemma length_join_with:
  "list_all (word_ok bad) ws \<Longrightarrow> length ws \<le> length (join_with d ws)"
  "w \<in> set ws \<Longrightarrow> length w \<le> length (join_with d ws)"
proof -
  show "list_all (word_ok bad) ws \<Longrightarrow> length ws \<le> length (join_with d ws)"
  proof (induction d ws rule: join_with.induct)
    case (3 d x y xs)
    then have "x \<noteq> []" by (simp add: word_ok_def)
    with 3 show ?case by (cases x) auto
  qed (auto simp: word_ok_def neq_Nil_conv)
  show "w \<in> set ws \<Longrightarrow> length w \<le> length (join_with d ws)"
    by (induction d ws rule: join_with.induct) auto
qed

lemma parse_line_plenty:
  assumes "next_fields 7 (takeWhile (\<lambda>c. c \<noteq> CHR 0x0D \<and> c \<noteq> LF) line) = Some [a, s, f, b, c, d, l]" and "plenty h"
    and "parse_semantics s = Some sv" and "parse_flags f = Some fv"
    and "parse_lookups l (h\<lparr>live := 4 + live h\<rparr>) = Some (Some (n, xs), h')"
  shows "parse_netconfig_line (Some line) h = Some (True, zeroed\<lparr>nc_netid := Some a, nc_protofmly := Some b, nc_proto := Some c,
    nc_device := Some d, nc_semantics := sv, nc_flag := fv, nc_nlookups := n, nc_lookups := xs\<rparr>, True, h')"
  by (simp add: parse_netconfig_line_def Let_def assms)

lemma parse_entry_line:
  assumes p: "printable nc" and h: "plenty h" and rest: "rest = [] \<or> rest = [LF]"
  shows "\<exists>h'. parse_netconfig_line (Some (join_with CHR '' '' (entry_tokens nc) @ rest)) h = Some (True, nc, True, h') \<and> plenty h'"
proof -
  let ?l = "join_with CHR '' '' (entry_tokens nc)"
  have toks: "list_all (word_ok blanks) (entry_tokens nc)" by (rule entry_tokens_ok [OF p])
  have plain: "c \<noteq> CHR 0x0D \<and> c \<noteq> LF" if "c \<in> set ?l" for c
  proof -
    have "c = CHR '' '' \<or> (\<exists>w \<in> set (entry_tokens nc). c \<in> set w)" using that join_with_set by blast
    moreover have "c \<notin> blanks" if "w \<in> set (entry_tokens nc)" "c \<in> set w" for w
      using toks that unfolding list_all_iff word_ok_def by blast
    ultimately show ?thesis by auto
  qed
  have tw: "takeWhile (\<lambda>c. c \<noteq> CHR 0x0D \<and> c \<noteq> LF) (?l @ rest) = ?l" using rest plain by (auto simp: takeWhile_append2)
  have "length (entry_tokens nc) = 7" by (simp add: entry_tokens_def)
  then have fs: "next_fields 7 ?l = Some (entry_tokens nc)" using next_fields_join [OF toks] by (simp only:)
  have c: "complete nc" using p by (simp add: printable_def)
  have toks4: "entry_tokens nc = [the (nc_netid nc), semantics_name (nc_semantics nc), flags_name (nc_flag nc),
     the (nc_protofmly nc), the (nc_proto nc), the (nc_device nc), lookups_name (nc_lookups nc)]" by (simp add: entry_tokens_def)
  have "length (cells (nc_lookups nc)) \<le> length (lookups_name (nc_lookups nc))"
    using length_join_with(1) [of "{CHR '',''}" "map the (cells (nc_lookups nc))" "CHR '',''"] p
    by (cases "nc_lookups nc") (auto simp: printable_def lookups_name_def list_all_iff word_ok_def)
  also have "\<dots> \<le> length ?l" by (rule length_join_with(2)) (simp add: entry_tokens_def)
  also have "\<dots> < 2 ^ 40" using p by (simp add: printable_def)
  finally obtain h' where l: "parse_lookups (lookups_name (nc_lookups nc)) (h\<lparr>live := 4 + live h\<rparr>) =
      Some (Some (nc_nlookups nc, nc_lookups nc), h')" "plenty h'"
    using parse_lookups_name [of "h\<lparr>live := 4 + live h\<rparr>" "nc_lookups nc"] p h c
    by (auto simp: printable_def complete_def)
  have sf: "parse_semantics (semantics_name (nc_semantics nc)) = Some (nc_semantics nc)"
    "parse_flags (flags_name (nc_flag nc)) = Some (nc_flag nc)"
    using p parse_semantics_name parse_flags_name by (simp_all add: printable_def)
  have "zeroed\<lparr>nc_netid := Some (the (nc_netid nc)), nc_protofmly := Some (the (nc_protofmly nc)), nc_proto := Some (the (nc_proto nc)),
      nc_device := Some (the (nc_device nc)), nc_semantics := nc_semantics nc, nc_flag := nc_flag nc, nc_nlookups := nc_nlookups nc,
      nc_lookups := nc_lookups nc\<rparr> = nc"
    using p c by (auto simp: zeroed_def printable_def complete_def)
  moreover have "next_fields 7 (takeWhile (\<lambda>c. c \<noteq> CHR 0x0D \<and> c \<noteq> LF) (?l @ rest)) = Some [the (nc_netid nc),
      semantics_name (nc_semantics nc), flags_name (nc_flag nc), the (nc_protofmly nc), the (nc_proto nc), the (nc_device nc),
      lookups_name (nc_lookups nc)]"
    unfolding tw fs by (simp only: toks4)
  note parse_line_plenty [OF this h sf l(1)]
  ultimately show ?thesis using l(2) by auto
qed


subsection \<open>Lines\<close>

lemma fgets_line: "LF \<notin> set l \<Longrightarrow> length l < n \<Longrightarrow> fgets n (l @ LF # rest) = (l @ [LF], rest, False)"
proof (induction l arbitrary: n)
  case Nil
  then show ?case by (cases n) auto
next
  case (Cons c l)
  then show ?case by (cases n) auto
qed

definition room_ok :: "nc_state \<Rightarrow> bool" where
  "room_ok s \<longleftrightarrow> length (cells (g_entries s)) \<le> g_entry_cap s \<and> g_entry_cap s \<le> 8 + 2 * length (cells (g_entries s))
     \<and> plenty (heap s)"

lemma append_plenty:
  assumes ok: "room_ok s" and few: "length (cells (g_entries s)) < 2 ^ 40"
  shows "\<exists>s'. append_global_entry entry s = Some (True, zeroed, s') \<and> cells (g_entries s') = cells (g_entries s) @ [entry]
    \<and> room_ok s'"
proof -
  obtain h where h: "block_realloc (g_entries s) (heap s) = (True, h)" "plenty h"
    using block_realloc_plenty ok by (auto simp: room_ok_def)
  show ?thesis
  proof (cases "length (cells (g_entries s)) = g_entry_cap s")
    case True
    define new_cap where "new_cap = (if g_entry_cap s = 0 then 8 else g_entry_cap s * 2)"
    have "new_cap \<le> 2 ^ 42" "length (cells (g_entries s)) < new_cap" "new_cap \<le> 8 + 2 * length (cells (g_entries s))"
      using few True by (auto simp: new_cap_def)
    moreover have "size_mul_ok new_cap 136 = Some (new_cap * 136)"
      by (rule size_mul_fits) (use calculation(1) in simp)
    ultimately show ?thesis
      using h unfolding append_global_entry_def Let_def new_cap_def [symmetric] if_P [OF True] by (simp add: room_ok_def)
  next
    case False
    then show ?thesis using ok unfolding append_global_entry_def Let_def if_not_P [OF False] by (simp add: room_ok_def)
  qed
qed

lemma c_line_id: "NUL \<notin> set l \<Longrightarrow> c_line l = l"
  by (simp add: c_line_def takeWhile_eq_all_conv) blast

lemma entry_line:
  assumes p: "printable nc"
  shows "set (join_with CHR '' '' (entry_tokens nc)) \<inter> {LF, NUL} = {}"
    and "join_with CHR '' '' (entry_tokens nc) \<noteq> []" and "hd (join_with CHR '' '' (entry_tokens nc)) \<noteq> CHR ''#''"
    and "length (join_with CHR '' '' (entry_tokens nc)) < 999"
proof -
  let ?l = "join_with CHR '' '' (entry_tokens nc)"
  have toks: "list_all (word_ok blanks) (entry_tokens nc)" by (rule entry_tokens_ok [OF p])
  have "c \<noteq> LF \<and> c \<noteq> NUL" if "c \<in> set ?l" for c
  proof -
    have "c = CHR '' '' \<or> (\<exists>w \<in> set (entry_tokens nc). c \<in> set w)" using that join_with_set by blast
    moreover have "c \<notin> blanks" if "w \<in> set (entry_tokens nc)" "c \<in> set w" for w
      using toks that unfolding list_all_iff word_ok_def by blast
    ultimately show ?thesis by auto
  qed
  then show "set ?l \<inter> {LF, NUL} = {}" by auto
  have w: "hd (entry_tokens nc) \<noteq> []" "hd (hd (entry_tokens nc)) \<noteq> CHR ''#''" "entry_tokens nc \<noteq> []"
    using p by (simp_all add: printable_def word_ok_def entry_tokens_def)
  show "?l \<noteq> []" using join_with_Nil w by blast
  show "hd ?l \<noteq> CHR ''#''" using hd_join_with w by metis
  show "length ?l < 999" using p by (simp add: printable_def)
qed

lemma load_lines:
  "\<forall>x \<in> set ls. line_ok x \<Longrightarrow> room_ok s \<Longrightarrow> length (cells (g_entries s)) + length ls < 2 ^ 40 \<Longrightarrow>
     saw \<or> concat (map line_entries ls) \<noteq> [] \<Longrightarrow>
     \<exists>s'. load_file_loop (concat (map show_line ls)) saw s = Some (LOAD_STATE_OK, s') \<and> room_ok s'
       \<and> cells (g_entries s') = cells (g_entries s) @ concat (map line_entries ls)"
proof (induction ls arbitrary: saw s)
  case Nil
  then show ?case by (simp add: load_file_loop.simps [of "[]"])
next
  case (Cons x ls)
  let ?rest = "concat (map show_line ls)"
  have n: "Suc (MAXNETCONFIGLINE - 2) = 999" by (simp add: MAXNETCONFIGLINE_def)
  show ?case
  proof (cases x)
    case (Comment t)
    let ?l = "CHR ''#'' # t"
    have t: "LF \<notin> set ?l" "length ?l < 999" using Cons.prems(1) Comment by auto
    have g: "fgets 999 (?l @ LF # ?rest) = (?l @ [LF], ?rest, False)" by (rule fgets_line [OF t])
    have "take 1 (c_line (?l @ [LF])) = ''#''" by (simp add: c_line_def)
    then have "load_file_loop (?l @ LF # ?rest) saw s = load_file_loop ?rest saw s"
      unfolding load_file_loop.simps [of "?l @ LF # ?rest"] n g by simp
    moreover have "\<exists>s'. load_file_loop ?rest saw s = Some (LOAD_STATE_OK, s') \<and> room_ok s'
       \<and> cells (g_entries s') = cells (g_entries s) @ concat (map line_entries ls)"
      by (rule Cons.IH) (use Cons.prems Comment in auto)
    ultimately show ?thesis using Comment by simp
  next
    case (Entry nc)
    let ?l = "join_with CHR '' '' (entry_tokens nc)"
    have p: "printable nc" using Cons.prems(1) Entry by simp
    note l = entry_line [OF p]
    have g: "fgets 999 (?l @ LF # ?rest) = (?l @ [LF], ?rest, False)" by (rule fgets_line) (use l in auto)
    have cl: "c_line (?l @ [LF]) = ?l @ [LF]" by (rule c_line_id) (use l(1) in auto)
    have nc: "take 1 (?l @ [LF]) \<noteq> ''#''" using l(2,3) by (cases ?l) auto
    have nl: "\<not> (LF \<notin> set (?l @ [LF]) \<and> \<not> False)" by simp
    obtain h where h: "parse_netconfig_line (Some (?l @ [LF])) (heap s) = Some (True, nc, True, h)" "plenty h"
      using parse_entry_line [OF p, of "heap s" "[LF]"] Cons.prems(2) by (auto simp: room_ok_def)
    have "room_ok (s\<lparr>heap := h\<rparr>)" using Cons.prems(2) h(2) by (simp add: room_ok_def)
    then obtain s1 where a: "append_global_entry nc (s\<lparr>heap := h\<rparr>) = Some (True, zeroed, s1)"
      "cells (g_entries s1) = cells (g_entries s) @ [nc]" "room_ok s1"
      using append_plenty [of "s\<lparr>heap := h\<rparr>" nc] Cons.prems(3) by auto
    have "load_file_loop (?l @ LF # ?rest) saw s = load_file_loop ?rest True s1"
      unfolding load_file_loop.simps [of "?l @ LF # ?rest"] n g prod.case cl if_not_P [OF nc] if_not_P [OF nl] h(1) option.case
      using a(1) by simp
    moreover have "\<exists>s'. load_file_loop ?rest True s1 = Some (LOAD_STATE_OK, s') \<and> room_ok s'
       \<and> cells (g_entries s') = cells (g_entries s1) @ concat (map line_entries ls)"
      by (rule Cons.IH) (use Cons.prems a in auto)
    ultimately show ?thesis using Entry a(2) by auto
  qed
qed


section \<open>Walking over NETPATH\<close>

definition escape_name :: "string \<Rightarrow> string" where
  "escape_name n = concat (map (\<lambda>c. if c = CHR 0x5C \<or> c = CHR '':'' then [CHR 0x5C, c] else [c]) n)"

definition path_of :: "string list \<Rightarrow> string" where
  "path_of ns = join_with CHR '':'' (map escape_name ns)"

lemma escape_name_simps [simp]: "escape_name [] = []"
    "escape_name (c # cs) = (if c = CHR 0x5C \<or> c = CHR '':'' then [CHR 0x5C, c] else [c]) @ escape_name cs"
  by (simp_all add: escape_name_def)

lemma unescape_escape: "netpath_unescape (escape_name n) = n"
proof (induction n)
  case (Cons c cs)
  then show ?case by (cases "c = CHR 0x5C \<or> c = CHR '':''") auto
qed simp

lemma token_scan_escape:
  "token_scan CHR '':'' False (escape_name n @ rest) = (let (t, r) = token_scan CHR '':'' False rest in (escape_name n @ t, r))"
proof (induction n)
  case (Cons c cs)
  then show ?case by (cases "token_scan CHR '':'' False rest") (auto simp: Let_def)
qed (simp add: Let_def split: prod.splits)

lemma next_token_escape:
  assumes "n \<noteq> []"
  shows "netpath_next_token (escape_name n) CHR '':'' = (n, None)"
    and "netpath_next_token (escape_name n @ CHR '':'' # rest) CHR '':'' = (n, Some rest)"
proof -
  have ne: "escape_name n \<noteq> []" using assms by (cases n) auto
  show "netpath_next_token (escape_name n) CHR '':'' = (n, None)"
    using ne token_scan_escape [of n "[]"] by (simp add: netpath_next_token_def unescape_escape)
  show "netpath_next_token (escape_name n @ CHR '':'' # rest) CHR '':'' = (n, Some rest)"
    using token_scan_escape [of n "CHR '':'' # rest"] by (simp add: netpath_next_token_def unescape_escape)
qed

definition cursor_at :: "string list \<Rightarrow> string option" where
  "cursor_at ns = (if ns = [] then None else Some (path_of ns))"

lemma next_token_path: "n \<noteq> [] \<Longrightarrow> netpath_next_token (path_of (n # ns)) CHR '':'' = (n, cursor_at ns)"
  using next_token_escape by (cases ns) (simp_all add: path_of_def cursor_at_def)

text \<open>A loaded database, and memory.\<close>

definition ready :: "netconfig list \<Rightarrow> nc_state \<Rightarrow> bool" where
  "ready db c \<longleftrightarrow> loaded_ok c \<and> g_loaded c \<and> plenty (heap c) \<and> cells (g_entries c) = db \<and> (\<forall>nc \<in> set db. nc_nlookups nc < 2 ^ 60)"

lemma ready_error [simp]: "ready db (nc_set_error e c) = ready db c"
  by (simp add: ready_def loaded_ok_def)

lemma ready_heap: "ready db c \<Longrightarrow> plenty h \<Longrightarrow> ready db (c\<lparr>heap := h\<rparr>)"
  by (auto simp: ready_def loaded_ok_def db_ok_def)

lemma dup_lookups_plenty:
  "plenty h \<Longrightarrow> None \<notin> set ls \<Longrightarrow> \<exists>h'. dup_lookups acc ls h = (True, acc @ ls, h') \<and> plenty h'"
proof (induction ls arbitrary: acc h)
  case (Cons l ls)
  then obtain x where l: "l = Some x" by (cases l) auto
  then show ?case using Cons.IH [of "h\<lparr>live := live h + 1\<rparr>" "acc @ [Some x]"] Cons.prems by simp
qed simp

lemma dup_entry_plenty:
  assumes src: "complete source" and few: "nc_nlookups source < 2 ^ 60" and h: "plenty h"
  shows "\<exists>h'. dup_entry source h = Some (Some source, h') \<and> plenty h'"
proof -
  obtain a b c d where f: "nc_netid source = Some a" "nc_protofmly source = Some b" "nc_proto source = Some c" "nc_device source = Some d"
    using src by (auto simp: complete_def)
  show ?thesis
  proof (cases "nc_lookups source")
    case None
    then have "nc_nlookups source = 0" using src by (simp add: complete_def)
    then show ?thesis using None f h by (simp add: dup_entry_def zeroed_def)
  next
    case (Some ls)
    then have ls: "nc_nlookups source = length ls" "ls \<noteq> []" "None \<notin> set ls" using src by (auto simp: complete_def)
    have mul: "size_mul_ok (length ls) 8 = Some (length ls * 8)" by (rule size_mul_fits) (use few ls in simp)
    obtain h' where "dup_lookups [] ls (h\<lparr>live := 6 + live h\<rparr>) = (True, ls, h')" "plenty h'"
      using dup_lookups_plenty [of "h\<lparr>live := 6 + live h\<rparr>" ls "[]"] h ls by auto
    then show ?thesis using Some f h ls mul by (simp add: dup_entry_def zeroed_def)
  qed
qed

lemma lookup_ready:
  assumes r: "ready db c" and n: "n \<noteq> []"
  shows "\<exists>c'. getnetconfigent (Some n) file sc c = Some (find_entry n db, c') \<and> ready db c' \<and> g_nc_error c' = NC_NOTFOUND
    \<and> handles c' = handles c"
proof -
  have e: "ensure_entries_loaded file sc (nc_set_error NC_NOTFOUND c) = Some (True, nc_set_error NC_NOTFOUND c)"
    using r by (simp add: ensure_entries_loaded_def ready_def)
  have db: "cells (g_entries c) = db" using r by (simp add: ready_def)
  show ?thesis
  proof (cases "find_entry n db")
    case None
    then show ?thesis using n e r db by (simp add: getnetconfigent_def)
  next
    case (Some source)
    have "source \<in> set db" using find_entry_in [OF Some] by simp
    then have "complete source" "nc_nlookups source < 2 ^ 60" "plenty (heap c)" using r by (auto simp: ready_def loaded_ok_def db_ok_def)
    from dup_entry_plenty [OF this] obtain h where h: "dup_entry source (heap c) = Some (Some source, h)" "plenty h" by blast
    have "ready db (nc_set_error NC_NOTFOUND c\<lparr>heap := h\<rparr>)" by (rule ready_heap) (use r h in simp_all)
    then show ?thesis using n e db Some h by (simp add: getnetconfigent_def)
  qed
qed

text \<open>What one call of the iterator finds among the names left.\<close>

lemma path_loop_names:
  "ready db c \<Longrightarrow> [] \<notin> set ns \<Longrightarrow> cursor np = cursor_at ns \<Longrightarrow>
     \<exists>np' c'. path_loop file sc np c = Some (
         (case dropWhile (\<lambda>n. find_entry n db = None) ns of [] \<Rightarrow> None | n # _ \<Rightarrow> find_entry n db), np', c')
       \<and> ready db c' \<and> cursor np' = cursor_at (tl (dropWhile (\<lambda>n. find_entry n db = None) ns)) \<and> np_magic np' = np_magic np
       \<and> use_visible np' = use_visible np"
proof (induction ns arbitrary: np c)
  case Nil
  then show ?case by (simp add: path_loop.simps [of _ _ np] cursor_at_def)
next
  case (Cons n ns)
  have cur: "cursor np = Some (path_of (n # ns))" using Cons.prems(3) by (simp add: cursor_at_def)
  have n: "n \<noteq> []" using Cons.prems(2) by auto
  let ?np = "np\<lparr>cursor := cursor_at ns\<rparr>"
  obtain c1 where g: "getnetconfigent (Some n) file sc c = Some (find_entry n db, c1)" "ready db c1" "g_nc_error c1 = NC_NOTFOUND"
    using lookup_ready [OF Cons.prems(1) n] by blast
  note eq = path_loop.simps [of "file" sc np c]
  show ?case
  proof (cases "find_entry n db")
    case None
    have "path_loop file sc np c = path_loop file sc ?np (nc_set_error NC_NOERROR c1)"
      using g(1,3) None n by (simp add: eq cur next_token_path nc_get_error_def)
    moreover note Cons.IH [of "nc_set_error NC_NOERROR c1" ?np]
    ultimately show ?thesis using g(2) Cons.prems(2) None by simp
  next
    case (Some entry)
    have pl: "plenty (heap c1)" using g(2) by (simp add: ready_def)
    have "ready db (c1\<lparr>heap := (heap c1)\<lparr>live := live (heap c1) + 1\<rparr>\<rparr>)" by (rule ready_heap) (use g(2) pl in simp_all)
    then show ?thesis using g(1) Some n pl
      by (simp add: eq cur next_token_path netpath_track_entry_def)
  qed
qed


text \<open>Calling the iterator until it returns NULL, and what the pointers it returned point to.\<close>

fun walk :: "nat \<Rightarrow> string option \<Rightarrow> sc_runtime \<Rightarrow> nat \<Rightarrow> np_state \<Rightarrow> (netconfig list \<times> np_state) option" where
  "walk 0 file sc a s = None"
| "walk (Suc n) file sc a s =
     do { (e, s) \<leftarrow> getnetpath (Some a) file sc s;
          (case e of
             None \<Rightarrow> Some ([], s)
           | Some (Copy nc) \<Rightarrow> do { (ncs, s) \<leftarrow> walk n file sc a s; Some (nc # ncs, s) }
           | Some (Database i) \<Rightarrow>
               do { nc \<leftarrow> mem_read (cells (g_entries (conf s))) i; (ncs, s) \<leftarrow> walk n file sc a s; Some (nc # ncs, s) }) }"

definition named :: "netconfig list \<Rightarrow> string list \<Rightarrow> netconfig list" where
  "named db ns = concat (map (\<lambda>n. case find_entry n db of None \<Rightarrow> [] | Some nc \<Rightarrow> [nc]) ns)"

definition visible :: "netconfig \<Rightarrow> bool" where
  "visible nc \<longleftrightarrow> and (nc_flag nc) NC_VISIBLE \<noteq> 0"

lemma named_dropWhile: "named db ns = (case dropWhile (\<lambda>n. find_entry n db = None) ns of
     [] \<Rightarrow> [] | n # ns' \<Rightarrow> the (find_entry n db) # named db ns')"
  by (induction ns) (auto simp: named_def split: option.split)

lemma dropWhile_hd: "dropWhile P xs = y # ys \<Longrightarrow> \<not> P y"
  by (induction xs) (auto split: if_splits)

lemma length_dropWhile_Cons: "dropWhile P xs = y # ys \<Longrightarrow> length ys < length xs"
  using length_dropWhile_le [of P xs] by simp

lemma walk_names:
  "ready db (conf s) \<Longrightarrow> path_at (paths s) a = Some np \<Longrightarrow> np_magic np = NP_HANDLE_MAGIC \<Longrightarrow> \<not> use_visible np \<Longrightarrow>
     cursor np = cursor_at ns \<Longrightarrow> [] \<notin> set ns \<Longrightarrow> length ns < fuel \<Longrightarrow>
     \<exists>s'. walk fuel file sc a s = Some (named db ns, s')"
proof (induction fuel arbitrary: s np ns)
  case (Suc fuel)
  obtain np' c' where l: "path_loop file sc np (conf s) = Some (
         (case dropWhile (\<lambda>n. find_entry n db = None) ns of [] \<Rightarrow> None | n # _ \<Rightarrow> find_entry n db), np', c')"
      "ready db c'" "cursor np' = cursor_at (tl (dropWhile (\<lambda>n. find_entry n db = None) ns))" "np_magic np' = np_magic np"
      "use_visible np' = use_visible np"
    using path_loop_names [OF Suc.prems(1) Suc.prems(6,5)] by blast
  let ?s = "s\<lparr>conf := c', paths := (paths s)[a := Some np']\<rparr>"
  have a: "a < length (paths s)" using path_at_lt [OF Suc.prems(2)] by simp
  show ?case
  proof (cases "dropWhile (\<lambda>n. find_entry n db = None) ns")
    case Nil
    then have "named db ns = []" using named_dropWhile [of db ns] by (simp only: list.case)
    with Suc.prems l(1) [unfolded Nil list.case] show ?thesis by (simp add: getnetpath_def)
  next
    case (Cons n ns')
    then obtain nc where nc: "find_entry n db = Some nc" using dropWhile_hd [OF Cons] by auto
    have "[] \<notin> set ns'" using Suc.prems(6) set_dropWhileD [of _ _ ns] Cons by (metis list.set_intros(2))
    moreover have "length ns' < fuel" using length_dropWhile_Cons [OF Cons] Suc.prems(7) by simp
    ultimately obtain s' where "walk fuel file sc a ?s = Some (named db ns', s')"
      using Suc.IH [of ?s np' ns'] l(2,4,5) l(3) [unfolded Cons] Suc.prems(3,4) a by (auto simp: path_at_update)
    moreover have "named db ns = nc # named db ns'"
      using nc by (simp only: named_dropWhile [of db ns] Cons list.case option.sel)
    ultimately show ?thesis using l(1) [unfolded Cons list.case nc] Suc.prems by (simp add: getnetpath_def)
  qed
qed simp

lemma visible_loop_next:
  "handle_at (handles c) p = Some \<lparr>magic = NC_HANDLE_MAGIC, index = i\<rparr> \<Longrightarrow> g_loaded c \<Longrightarrow> cells (g_entries c) = db \<Longrightarrow>
     length db - i < fuel \<Longrightarrow>
     \<exists>r c'. visible_loop fuel (Some p) c = Some (r, c') \<and> g_loaded c' \<and> cells (g_entries c') = db \<and>
       (case r of
          None \<Rightarrow> filter visible (drop i db) = []
        | Some j \<Rightarrow> i \<le> j \<and> j < length db \<and> filter visible (drop i db) = db ! j # filter visible (drop (Suc j) db)
            \<and> handle_at (handles c') p = Some \<lparr>magic = NC_HANDLE_MAGIC, index = Suc j\<rparr>)"
proof (induction fuel arbitrary: c i)
  case (Suc fuel)
  show ?case
  proof (cases "i < length db")
    case False
    then show ?thesis using Suc.prems by (simp add: getnetconfig_def)
  next
    case True
    let ?c = "c\<lparr>handles := (handles c)[p := Some \<lparr>magic = NC_HANDLE_MAGIC, index = Suc i\<rparr>]\<rparr>"
    have g: "getnetconfig (Some p) c = Some (Some i, ?c)" using Suc.prems True by (simp add: getnetconfig_def)
    have h: "handle_at (handles ?c) p = Some \<lparr>magic = NC_HANDLE_MAGIC, index = Suc i\<rparr>"
      using handle_at_lt [OF Suc.prems(1)] by (simp add: handle_at_update)
    have rd: "mem_read (cells (g_entries ?c)) i = Some (db ! i)" using Suc.prems(3) True by (simp add: mem_read_def)
    have split: "drop i db = db ! i # drop (Suc i) db" using True by (simp add: Cons_nth_drop_Suc)
    show ?thesis
    proof (cases "visible (db ! i)")
      case vis: True
      then have "visible_loop (Suc fuel) (Some p) c = Some (Some i, ?c)" using g rd by (simp add: visible_def)
      then show ?thesis using h vis True split Suc.prems by simp
    next
      case False
      then have "visible_loop (Suc fuel) (Some p) c = visible_loop fuel (Some p) ?c" using g rd by (simp add: visible_def)
      moreover have "length db - Suc i < fuel" using Suc.prems(4) True by simp
      ultimately obtain r c' where "visible_loop (Suc fuel) (Some p) c = Some (r, c')" "g_loaded c'" "cells (g_entries c') = db"
        and r: "case r of
          None \<Rightarrow> filter visible (drop (Suc i) db) = []
        | Some j \<Rightarrow> Suc i \<le> j \<and> j < length db \<and> filter visible (drop (Suc i) db) = db ! j # filter visible (drop (Suc j) db)
            \<and> handle_at (handles c') p = Some \<lparr>magic = NC_HANDLE_MAGIC, index = Suc j\<rparr>"
        using Suc.IH [OF h] Suc.prems(2,3) by auto
      then show ?thesis using False split by (cases r) auto
    qed
  qed
qed simp

lemma walk_visible:
  "path_at (paths s) a = Some np \<Longrightarrow> np_magic np = NP_HANDLE_MAGIC \<Longrightarrow> use_visible np \<Longrightarrow> np_nc_handle np = Some p \<Longrightarrow>
     handle_at (handles (conf s)) p = Some \<lparr>magic = NC_HANDLE_MAGIC, index = i\<rparr> \<Longrightarrow> g_loaded (conf s) \<Longrightarrow>
     cells (g_entries (conf s)) = db \<Longrightarrow> length db - i < fuel \<Longrightarrow>
     \<exists>s'. walk fuel file sc a s = Some (filter visible (drop i db), s')"
proof (induction fuel arbitrary: s i)
  case (Suc fuel)
  have lt: "length db - i < length db + 1" by simp
  obtain r c where v: "visible_loop (length db + 1) (Some p) (conf s) = Some (r, c)" "g_loaded c" "cells (g_entries c) = db"
    "case r of None \<Rightarrow> filter visible (drop i db) = []
        | Some j \<Rightarrow> i \<le> j \<and> j < length db \<and> filter visible (drop i db) = db ! j # filter visible (drop (Suc j) db)
            \<and> handle_at (handles c) p = Some \<lparr>magic = NC_HANDLE_MAGIC, index = Suc j\<rparr>"
    using visible_loop_next [OF Suc.prems(5,6,7) lt] by blast
  have g: "getnetpath (Some a) file sc s = Some (map_option Database r, s\<lparr>conf := c\<rparr>)"
    using Suc.prems(1-4,7) v(1) by (simp add: getnetpath_def del: visible_loop.simps)
  show ?case
  proof (cases r)
    case None
    then show ?thesis using g v(4) by simp
  next
    case (Some j)
    then have j: "i \<le> j" "j < length db" "filter visible (drop i db) = db ! j # filter visible (drop (Suc j) db)"
      "handle_at (handles c) p = Some \<lparr>magic = NC_HANDLE_MAGIC, index = Suc j\<rparr>" using v(4) by auto
    have "length db - Suc j < fuel" using j(1,2) Suc.prems(8) by simp
    then obtain s' where "walk fuel file sc a (s\<lparr>conf := c\<rparr>) = Some (filter visible (drop (Suc j) db), s')"
      using Suc.IH [of "s\<lparr>conf := c\<rparr>" "Suc j"] Suc.prems(1-4) j(4) v(2,3) by auto
    then show ?thesis using g Some j v(3) by (simp add: mem_read_def)
  qed
qed simp



section \<open>Properties\<close>

lemma sum_list_zero: "\<forall>x \<in> set xs. f x = 0 \<Longrightarrow> (\<Sum>x\<leftarrow>xs. f x) = (0 :: 'a::comm_monoid_add)"
  by (induction xs) auto

text \<open>C35: The operations account for every block, whichever allocations are refused and whatever the file holds: no
  sequence of calls by a client touches a freed handle or reads outside an array, and after it the live blocks are
  those of the loaded database, one for each open handle, and those of the walks and copies the client still
  holds. Once it has closed and freed what it got, only the database is left, and nothing when that is not loaded.\<close>

theorem netconfig_accounts_for_blocks:
  assumes "length ops < 2 ^ 32"
  shows "\<exists>c. client_run sc ops (client_start os) = Some c \<and>
    live (heap (conf (st c))) = db_blocks (conf (st c)) + int (card (live_addrs (conf (st c)))) + owned_blocks c \<and>
    (opened c = [] \<and> walks c = [] \<and> held c = [] \<longrightarrow>
       live (heap (conf (st c))) = (if g_loaded (conf (st c)) then db_blocks (conf (st c)) else 0))"
proof -
  have run: "length (handles (conf (st c))) + length xs < 2 ^ 32 \<Longrightarrow> client_ok c \<Longrightarrow>
      \<exists>c'. client_run sc xs c = Some c' \<and> client_ok c'" for xs c
  proof (induction xs arbitrary: c)
    case (Cons x xs)
    obtain c1 where "client_step sc x c = Some c1" "client_ok c1"
      "length (handles (conf (st c1))) \<le> Suc (length (handles (conf (st c))))"
      using client_step_ok [OF Cons.prems(2), of sc x] Cons.prems(1) by (auto simp: steps_to_def)
    with Cons.IH [of c1] Cons.prems(1) show ?case by simp
  qed simp
  have "client_ok (client_start os)"
    by (auto simp: client_ok_def client_start_def nc_inv_def loaded_ok_def db_ok_def live_addrs_def handle_at_def
        path_addrs_def path_at_def spare_def outside_def db_blocks_def owned_blocks_def)
  then obtain c where c: "client_run sc ops (client_start os) = Some c" "client_ok c"
    using run [of "client_start os" ops] assms by (auto simp: client_start_def)
  have "live (heap (conf (st c))) = db_blocks (conf (st c)) + int (card (live_addrs (conf (st c)))) + owned_blocks c"
    using c(2) by (simp add: client_ok_def spare_def outside_def)
  moreover have "card (live_addrs (conf (st c))) = 0 \<and> owned_blocks c = 0" if "opened c = []" "walks c = []" "held c = []"
  proof -
    have ok: "mset (opened c) + (\<Sum>cell\<leftarrow>paths (st c). handle_of cell) = mset_set (live_addrs (conf (st c)))"
      "mset (walks c) = mset_set (path_addrs (paths (st c)))" using c(2) by (simp_all add: client_ok_def)
    have "path_addrs (paths (st c)) = {}" using ok(2) that(2) by (simp add: mset_set_empty_iff)
    then have "path_at (paths (st c)) i = None" for i by (simp add: path_addrs_def)
    then have none: "\<forall>cell \<in> set (paths (st c)). cell = None"
      unfolding Ball_def in_set_conv_nth by (metis path_at_def)
    then have "(\<Sum>cell\<leftarrow>paths (st c). handle_of cell) = {#}" "(\<Sum>cell\<leftarrow>paths (st c). path_blocks cell) = 0"
      by (auto simp: handle_of_def path_blocks_def intro!: sum_list_zero)
    then show ?thesis using ok(1) that by (simp add: owned_blocks_def mset_set_empty_iff)
  qed
  moreover have "\<not> g_loaded (conf (st c)) \<Longrightarrow> db_blocks (conf (st c)) = 0"
    using c(2) by (simp add: client_ok_def nc_inv_def loaded_ok_def db_blocks_def)
  ultimately show ?thesis using c(1) by auto
qed


text \<open>A database of two entries, as a file with a comment, and a client that walks over it.\<close>

definition sample_entry :: "string \<Rightarrow> 64 word \<Rightarrow> string list \<Rightarrow> netconfig" where
  "sample_entry netid flags lookups = zeroed\<lparr>nc_netid := Some netid, nc_semantics := 3, nc_flag := flags, nc_protofmly := Some ''inet'',
     nc_proto := Some ''tcp'', nc_device := Some ''-'', nc_nlookups := length lookups,
     nc_lookups := (if lookups = [] then None else Some (map Some lookups))\<rparr>"

definition sample_lines :: "db_line list" where
  "sample_lines = [Comment '' networks'', Entry (sample_entry ''tcp'' 1 [''a.so'', ''b'']), Entry (sample_entry ''a:b'' 0 [])]"

definition sample_sc :: sc_runtime where
  "sample_sc = \<lparr>dlopen_framework = False, dlsym = (\<lambda>s. False), CFStringCreateWithCString = (\<lambda>s. None),
     SCDynamicStoreCopyValue = (\<lambda>k. None), CFDictionaryGetTypeID = 0\<rparr>"

lemma netconfig_accounts_for_blocks_witness:
  "\<exists>c. client_run sample_sc [OpenConfig None, OpenPath (Some ''udp:x'') None, NextPath 0 None, ClosePath 0, CloseConfig 0]
      (client_start [True, True, False]) = Some c \<and>
    live (heap (conf (st c))) = db_blocks (conf (st c)) + int (card (live_addrs (conf (st c)))) + owned_blocks c"
  using netconfig_accounts_for_blocks [of "[OpenConfig None, OpenPath (Some ''udp:x'') None, NextPath 0 None, ClosePath 0, CloseConfig 0]"
    sample_sc "[True, True, False]"] by auto

text \<open>C36: A database written out line by line, with comments between the entries, is read back as it was: the same
  entries in their order, with their flags, semantics and lookup libraries, as long as each line fits the buffer.\<close>

theorem netconfig_file_roundtrip:
  assumes lines: "\<forall>x \<in> set ls. line_ok x" and some: "concat (map line_entries ls) \<noteq> []" and few: "length ls < 2 ^ 40"
    and s: "\<not> g_loaded s" "g_entries s = None" "g_entry_cap s = 0" "mallocs (heap s) = []"
  shows "\<exists>s'. ensure_entries_loaded (Some (concat (map show_line ls))) sc s = Some (True, s') \<and> g_loaded s'
    \<and> g_entries s' = Some (concat (map line_entries ls))"
proof -
  obtain s' where l: "load_file_loop (concat (map show_line ls)) False s = Some (LOAD_STATE_OK, s')"
    "cells (g_entries s') = concat (map line_entries ls)"
    using load_lines [OF lines, of s False] some few s by (auto simp: room_ok_def)
  then have "g_entries s' = Some (concat (map line_entries ls))" using some by (cases "g_entries s'") auto
  with l(1) s(1) show ?thesis by (simp add: ensure_entries_loaded_def load_file_entries_def)
qed

lemma sample_printable:
  "printable (sample_entry ''tcp'' 1 [''a.so'', ''b''])" "printable (sample_entry ''a:b'' 0 [])"
  by (simp_all add: printable_def sample_entry_def complete_def zeroed_def word_ok_def entry_tokens_def lookups_name_def
      semantics_name_def flags_name_def)

lemma netconfig_file_roundtrip_witness:
  "\<exists>s'. ensure_entries_loaded (Some (concat (map show_line sample_lines))) sample_sc (conf (st (client_start []))) = Some (True, s')
    \<and> g_loaded s' \<and> g_entries s' = Some [sample_entry ''tcp'' 1 [''a.so'', ''b''], sample_entry ''a:b'' 0 []]"
  using netconfig_file_roundtrip [of sample_lines "conf (st (client_start []))" sample_sc] sample_printable
  by (simp add: sample_lines_def client_start_def)

text \<open>C37: The iterator without NETPATH returns the visible entries of the database in its order. With NETPATH it returns
  a copy of the entry of each name in it that the database has, in the order of the names, whatever characters
  the names hold when colons and backslashes are escaped.\<close>

theorem netpath_visits:
  assumes s: "ready db (conf s)"
  shows "(\<exists>a s1 s2. setnetpath None file sc s = Some (Some a, s1) \<and>
      walk (length db + 1) file sc a s1 = Some (filter visible db, s2)) \<and>
    (ns \<noteq> [] \<and> [] \<notin> set ns \<longrightarrow> (\<exists>a s1 s2. setnetpath (Some (path_of ns)) file sc s = Some (Some a, s1) \<and>
      walk (length ns + 1) file sc a s1 = Some (named db ns, s2)))"
proof -
  let ?h = "\<lambda>n. (heap (conf s))\<lparr>live := live (heap (conf s)) + n\<rparr>"
  let ?np = "\<lparr>np_magic = NP_HANDLE_MAGIC, use_visible = False, np_nc_handle = None, netpath_buf = None, cursor = None, tracked = []\<rparr>"
  have pl: "mallocs (heap (conf s)) = []" and ld: "g_loaded (conf s)" and db: "cells (g_entries (conf s)) = db"
    using s by (simp_all add: ready_def)
  have "\<exists>a s1 s2. setnetpath None file sc s = Some (Some a, s1) \<and> walk (length db + 1) file sc a s1 = Some (filter visible db, s2)"
  proof -
    let ?p = "length (handles (conf s))"
    let ?s = "s\<lparr>conf := (conf s)\<lparr>heap := ?h 2, g_refcount := g_refcount (conf s) + 1,
        handles := handles (conf s) @ [Some \<lparr>magic = NC_HANDLE_MAGIC, index = 0\<rparr>]\<rparr>,
      paths := paths s @ [Some (?np\<lparr>use_visible := True, np_nc_handle := Some ?p\<rparr>)]\<rparr>"
    have "setnetpath None file sc s = Some (Some (length (paths s)), ?s)"
      using pl ld by (simp add: setnetpath_def setnetconfig_def ensure_entries_loaded_def)
    moreover have "\<exists>s2. walk (length db + 1) file sc (length (paths s)) ?s = Some (filter visible (drop 0 db), s2)"
      by (rule walk_visible [where np = "?np\<lparr>use_visible := True, np_nc_handle := Some ?p\<rparr>" and p = ?p])
        (use ld db in \<open>simp_all add: path_at_def handle_at_snoc\<close>)
    ultimately show ?thesis by auto
  qed
  moreover have "\<exists>a s1 s2. setnetpath (Some (path_of ns)) file sc s = Some (Some a, s1) \<and>
      walk (length ns + 1) file sc a s1 = Some (named db ns, s2)" if ns: "ns \<noteq> []" "[] \<notin> set ns"
  proof -
    let ?buf = "Some (path_of ns)"
    let ?s = "s\<lparr>conf := (conf s)\<lparr>heap := ?h 2\<rparr>, paths := paths s @ [Some (?np\<lparr>netpath_buf := ?buf, cursor := ?buf\<rparr>)]\<rparr>"
    obtain n ns' where "ns = n # ns'" "n \<noteq> []" using ns by (cases ns) auto
    then have "hd (map escape_name ns) \<noteq> []" by (cases n) simp_all
    then have ne: "path_of ns \<noteq> []" using join_with_Nil [of "CHR '':''" "map escape_name ns"] ns(1) by (auto simp: path_of_def)
    have "setnetpath ?buf file sc s = Some (Some (length (paths s)), ?s)"
      using pl ne by (simp add: setnetpath_def)
    moreover have "ready db (conf ?s)" using ready_heap [OF s, of "?h 2"] pl by simp
    then have "\<exists>s2. walk (length ns + 1) file sc (length (paths s)) ?s = Some (named db ns, s2)"
      by (rule walk_names [where np = "?np\<lparr>netpath_buf := ?buf, cursor := ?buf\<rparr>"])
        (use ns in \<open>simp_all add: path_at_def cursor_at_def\<close>)
    ultimately show ?thesis by blast
  qed
  ultimately show ?thesis by blast
qed

definition sample_ready :: np_state where
  "sample_ready = (st (client_start []))\<lparr>conf := (conf (st (client_start [])))\<lparr>g_loaded := True, g_entry_cap := 8,
     g_entries := Some [sample_entry ''tcp'' 1 [''a.so'', ''b''], sample_entry ''a:b'' 0 []]\<rparr>\<rparr>"

lemma netpath_visits_witness:
  "\<exists>a s1 s2. setnetpath (Some (CHR ''a'' # CHR 0x5C # '':b:udp:tcp'')) None sample_sc sample_ready = Some (Some a, s1) \<and>
     walk 4 None sample_sc a s1 = Some ([sample_entry ''a:b'' 0 [], sample_entry ''tcp'' 1 [''a.so'', ''b'']], s2)"
proof -
  let ?db = "[sample_entry ''tcp'' 1 [''a.so'', ''b''], sample_entry ''a:b'' 0 []]"
  have r: "ready ?db (conf sample_ready)"
    using sample_printable by (simp add: ready_def sample_ready_def client_start_def loaded_ok_def db_ok_def printable_def)
      (simp add: sample_entry_def)
  have path: "path_of [''a:b'', ''udp'', ''tcp''] = (CHR ''a'' # CHR 0x5C # '':b:udp:tcp'')" by (simp add: path_of_def)
  have named: "named ?db [''a:b'', ''udp'', ''tcp''] = [sample_entry ''a:b'' 0 [], sample_entry ''tcp'' 1 [''a.so'', ''b'']]"
    by (simp add: named_def sample_entry_def zeroed_def)
  have n: "length [''a:b'', ''udp'', ''tcp''] + 1 = 4" by simp
  have c: "[''a:b'', ''udp'', ''tcp''] \<noteq> [] \<and> [] \<notin> set [''a:b'', ''udp'', ''tcp'']" by simp
  show ?thesis
    by (rule netpath_visits [OF r, of None sample_sc "[''a:b'', ''udp'', ''tcp'']", THEN conjunct2, THEN mp, OF c,
          unfolded path named n])
qed

end
