(* ===== verification/Obstack.thy ===== *)
theory Obstack
  imports Prelude
begin

text \<open>
  Object stacks: src/src/malloc/obstack.c and the macros of obstack.h.

  \<^item> Addresses are natural numbers. A chunk is the block from its address to \<open>limit\<close> and the bytes in it; the first
    16 hold \<open>limit\<close> and \<open>prev\<close>. The chain linked by \<open>prev\<close> is the list of the chunks, the current one first.
  \<^item> The client's \<open>chunkfun\<close> is an argument: given the live chunks and a size it returns an address or fails. What the
    code relies on is \<open>chunk_allocator\<close> of ObstackClient. With \<open>use_extra_arg\<close> it gets the extra argument too.
  \<^item> An operation ends, calls the failure handler, which does not return, aborts, or is undefined: it would access
    memory outside a chunk or in a chunk's header.
  \<^item> Lengths are natural numbers, as the macros convert them to \<open>int\<close>: they are below \<open>2 ^ 31\<close>.
\<close>

section \<open>State\<close>

record chunk =
  chunk_addr :: nat
  limit :: nat
  chunk_bytes :: "char list"

record obstack =
  chunk_size :: nat
  chain :: "chunk list"
  object_base :: nat
  next_free :: nat
  chunk_limit :: nat
  alignment_mask :: nat
  extra_arg :: "nat option"
  maybe_empty_object :: bool

datatype 'a outcome = Done 'a | Exhausted | Aborted | Undefined

definition andthen :: "'a outcome \<Rightarrow> ('a \<Rightarrow> 'b outcome) \<Rightarrow> 'b outcome" where
  "andthen r f = (case r of Done x \<Rightarrow> f x | Exhausted \<Rightarrow> Exhausted | Aborted \<Rightarrow> Aborted | Undefined \<Rightarrow> Undefined)"

type_synonym chunkfun = "nat option \<Rightarrow> (nat \<times> nat) list \<Rightarrow> nat \<Rightarrow> nat option"

text \<open>\<open>offsetof (struct _obstack_chunk, contents)\<close>, and the union of the widest types, on x86-64.\<close>

definition CONTENTS :: nat where "CONTENTS = 16"
definition DEFAULT_ALIGNMENT :: nat where "DEFAULT_ALIGNMENT = 16"
definition DEFAULT_ROUNDING :: nat where "DEFAULT_ROUNDING = 16"

section \<open>Memory\<close>

text \<open>\<open>__PTR_ALIGN\<close>, relative to 0.\<close>

definition ptr_align :: "nat \<Rightarrow> nat \<Rightarrow> nat" where
  "ptr_align p amask = nat (and (int p + int amask) (not (int amask)))"

definition live_blocks :: "chunk list \<Rightarrow> (nat \<times> nat) list" where
  "live_blocks cs = map (\<lambda>c. (chunk_addr c, limit c)) cs"

definition holds :: "chunk \<Rightarrow> nat \<Rightarrow> nat \<Rightarrow> bool" where
  "holds c p n \<longleftrightarrow> chunk_addr c + CONTENTS \<le> p \<and> p + n \<le> limit c"

definition poke :: "chunk \<Rightarrow> nat \<Rightarrow> char list \<Rightarrow> chunk" where
  "poke c p bs = (let i = p - chunk_addr c; cb = chunk_bytes c
     in c\<lparr>chunk_bytes := take i cb @ bs @ drop (i + length bs) cb\<rparr>)"

definition peek :: "chunk \<Rightarrow> nat \<Rightarrow> nat \<Rightarrow> char list" where
  "peek c p n = take n (drop (p - chunk_addr c) (chunk_bytes c))"

fun read_mem :: "chunk list \<Rightarrow> nat \<Rightarrow> nat \<Rightarrow> char list outcome" where
  "read_mem [] p n = (if n = 0 then Done [] else Undefined)"
| "read_mem (c # cs) p n = (if n = 0 then Done [] else if holds c p n then Done (peek c p n) else read_mem cs p n)"

fun write_mem :: "chunk list \<Rightarrow> nat \<Rightarrow> char list \<Rightarrow> chunk list outcome" where
  "write_mem [] p bs = (if bs = [] then Done [] else Undefined)"
| "write_mem (c # cs) p bs =
     (if bs = [] then Done (c # cs)
      else if holds c p (length bs) then Done (poke c p bs # cs)
      else andthen (write_mem cs p bs) (\<lambda>cs. Done (c # cs)))"

text \<open>Copying \<open>sizeof (COPYING_UNIT)\<close> bytes at a time, from the last unit down, and byte by byte.\<close>

fun copy_units :: "nat \<Rightarrow> chunk list \<Rightarrow> nat \<Rightarrow> nat \<Rightarrow> chunk list outcome" where
  "copy_units 0 cs dst src = Done cs"
| "copy_units (Suc i) cs dst src =
     andthen (read_mem cs (src + 4 * i) 4) (\<lambda>bs. andthen (write_mem cs (dst + 4 * i) bs) (\<lambda>cs. copy_units i cs dst src))"

fun copy_rest :: "nat \<Rightarrow> nat \<Rightarrow> chunk list \<Rightarrow> nat \<Rightarrow> nat \<Rightarrow> chunk list outcome" where
  "copy_rest 0 i cs dst src = Done cs"
| "copy_rest (Suc n) i cs dst src =
     andthen (read_mem cs (src + i) 1) (\<lambda>bs. andthen (write_mem cs (dst + i) bs) (\<lambda>cs. copy_rest n (Suc i) cs dst src))"

section \<open>Chunks\<close>

text \<open>A chunk fresh from the allocator, its header written.\<close>

definition fresh_chunk :: "nat \<Rightarrow> nat \<Rightarrow> chunk" where
  "fresh_chunk a n = \<lparr>chunk_addr = a, limit = a + n, chunk_bytes = replicate n garbage\<rparr>"

definition default_size :: nat where
  "default_size = 4096 - ptr_align (ptr_align 12 (DEFAULT_ROUNDING - 1) + 4) (DEFAULT_ROUNDING - 1)"

definition begin_with :: "chunkfun \<Rightarrow> nat option \<Rightarrow> nat \<Rightarrow> nat \<Rightarrow> obstack outcome" where
  "begin_with chunkfun arg size1 alignment1 =
     (let alignment = (if alignment1 = 0 then DEFAULT_ALIGNMENT else alignment1);
          size1 = (if size1 = 0 then default_size else size1)
      in case chunkfun arg [] size1 of
           None \<Rightarrow> Exhausted
         | Some a \<Rightarrow>
             if size1 < CONTENTS then Undefined
             else
               let p = ptr_align (a + CONTENTS) (alignment - 1)
               in Done \<lparr>chunk_size = size1, chain = [fresh_chunk a size1], object_base = p, next_free = p,
                        chunk_limit = a + size1, alignment_mask = alignment - 1, extra_arg = arg,
                        maybe_empty_object = False\<rparr>)"

definition obstack_begin :: "chunkfun \<Rightarrow> nat \<Rightarrow> nat \<Rightarrow> obstack outcome" where
  "obstack_begin chunkfun size1 alignment = begin_with chunkfun None size1 alignment"

definition obstack_begin_1 :: "chunkfun \<Rightarrow> nat \<Rightarrow> nat \<Rightarrow> nat \<Rightarrow> obstack outcome" where
  "obstack_begin_1 chunkfun size1 alignment arg = begin_with chunkfun (Some arg) size1 alignment"

definition copy_object :: "chunk list \<Rightarrow> nat \<Rightarrow> nat \<Rightarrow> nat \<Rightarrow> nat \<Rightarrow> chunk list outcome" where
  "copy_object cs dst src obj_size amask =
     (if DEFAULT_ALIGNMENT \<le> amask + 1 then
        andthen (copy_units (obj_size div 4) cs dst src)
          (\<lambda>cs. let already = obj_size div 4 * 4 in copy_rest (obj_size - already) already cs dst src)
      else copy_rest obj_size 0 cs dst src)"

definition obstack_newchunk :: "chunkfun \<Rightarrow> obstack \<Rightarrow> nat \<Rightarrow> obstack outcome" where
  "obstack_newchunk chunkfun h len =
     (let obj_size = next_free h - object_base h;
          new_size = (obj_size + len) + obj_size div 8 + alignment_mask h + 100;
          new_size = (if new_size < chunk_size h then chunk_size h else new_size)
      in case chunkfun (extra_arg h) (live_blocks (chain h)) new_size of
           None \<Rightarrow> Exhausted
         | Some a \<Rightarrow>
             let p = ptr_align (a + CONTENTS) (alignment_mask h)
             in andthen (copy_object (fresh_chunk a new_size # chain h) p (object_base h) obj_size (alignment_mask h))
                  (\<lambda>cs. case chain h of
                     [] \<Rightarrow> Undefined
                   | old # _ \<Rightarrow>
                       let cs = (if \<not> maybe_empty_object h
                                     \<and> object_base h = ptr_align (chunk_addr old + CONTENTS) (alignment_mask h)
                                 then hd cs # tl (tl cs) else cs)
                       in Done (h\<lparr>chain := cs, chunk_limit := a + new_size, object_base := p,
                                  next_free := p + obj_size, maybe_empty_object := False\<rparr>)))"

section \<open>Growing and finishing objects\<close>

definition obstack_object_size :: "obstack \<Rightarrow> nat" where
  "obstack_object_size h = next_free h - object_base h"

definition obstack_room :: "obstack \<Rightarrow> nat" where
  "obstack_room h = chunk_limit h - next_free h"

definition room_for :: "chunkfun \<Rightarrow> obstack \<Rightarrow> nat \<Rightarrow> obstack outcome" where
  "room_for chunkfun h len = (if chunk_limit h < next_free h + len then obstack_newchunk chunkfun h len else Done h)"

definition obstack_make_room :: "chunkfun \<Rightarrow> obstack \<Rightarrow> nat \<Rightarrow> obstack outcome" where
  "obstack_make_room chunkfun h len =
     (if int (chunk_limit h) - int (next_free h) < int len then obstack_newchunk chunkfun h len else Done h)"

definition obstack_empty_p :: "obstack \<Rightarrow> bool" where
  "obstack_empty_p h \<longleftrightarrow> (case chain h of
      [c] \<Rightarrow> next_free h = ptr_align (chunk_addr c + CONTENTS) (alignment_mask h)
    | _ \<Rightarrow> False)"

text \<open>Storing bytes at \<open>next_free\<close>.\<close>

definition put_bytes :: "obstack \<Rightarrow> char list \<Rightarrow> obstack outcome" where
  "put_bytes h bs = andthen (write_mem (chain h) (next_free h) bs)
     (\<lambda>cs. Done (h\<lparr>chain := cs, next_free := next_free h + length bs\<rparr>))"

definition obstack_grow :: "chunkfun \<Rightarrow> obstack \<Rightarrow> char list \<Rightarrow> obstack outcome" where
  "obstack_grow chunkfun h data = andthen (room_for chunkfun h (length data)) (\<lambda>h. put_bytes h data)"

definition obstack_grow0 :: "chunkfun \<Rightarrow> obstack \<Rightarrow> char list \<Rightarrow> obstack outcome" where
  "obstack_grow0 chunkfun h data =
     andthen (room_for chunkfun h (length data + 1)) (\<lambda>h. andthen (put_bytes h data) (\<lambda>h. put_bytes h [NUL]))"

definition obstack_1grow :: "chunkfun \<Rightarrow> obstack \<Rightarrow> char \<Rightarrow> obstack outcome" where
  "obstack_1grow chunkfun h c = andthen (room_for chunkfun h 1) (\<lambda>h. put_bytes h [c])"

text \<open>A pointer or an \<open>int\<close> is given by its bytes in memory.\<close>

definition obstack_ptr_grow :: "chunkfun \<Rightarrow> obstack \<Rightarrow> char list \<Rightarrow> obstack outcome" where
  "obstack_ptr_grow chunkfun h ptr = andthen (room_for chunkfun h 8) (\<lambda>h. put_bytes h (take 8 ptr))"

definition obstack_int_grow :: "chunkfun \<Rightarrow> obstack \<Rightarrow> char list \<Rightarrow> obstack outcome" where
  "obstack_int_grow chunkfun h n = andthen (room_for chunkfun h 4) (\<lambda>h. put_bytes h (take 4 n))"

definition obstack_blank :: "chunkfun \<Rightarrow> obstack \<Rightarrow> nat \<Rightarrow> obstack outcome" where
  "obstack_blank chunkfun h len =
     andthen (obstack_make_room chunkfun h len) (\<lambda>h. Done (h\<lparr>next_free := next_free h + len\<rparr>))"

definition obstack_finish :: "obstack \<Rightarrow> (nat \<times> obstack) outcome" where
  "obstack_finish h =
     (case chain h of
        [] \<Rightarrow> Undefined
      | c # _ \<Rightarrow>
          let v = object_base h;
              h = (if next_free h = v then h\<lparr>maybe_empty_object := True\<rparr> else h);
              p = ptr_align (next_free h) (alignment_mask h);
              p = (if int (chunk_limit h) - int (chunk_addr c) < int p - int (chunk_addr c) then chunk_limit h else p)
          in Done (v, h\<lparr>next_free := p, object_base := p\<rparr>))"

definition obstack_alloc :: "chunkfun \<Rightarrow> obstack \<Rightarrow> nat \<Rightarrow> (nat \<times> obstack) outcome" where
  "obstack_alloc chunkfun h len = andthen (obstack_blank chunkfun h len) obstack_finish"

definition obstack_copy :: "chunkfun \<Rightarrow> obstack \<Rightarrow> char list \<Rightarrow> (nat \<times> obstack) outcome" where
  "obstack_copy chunkfun h data = andthen (obstack_grow chunkfun h data) obstack_finish"

definition obstack_copy0 :: "chunkfun \<Rightarrow> obstack \<Rightarrow> char list \<Rightarrow> (nat \<times> obstack) outcome" where
  "obstack_copy0 chunkfun h data = andthen (obstack_grow0 chunkfun h data) obstack_finish"

section \<open>Freeing\<close>

text \<open>The loops down the chain, to the chunk the address is in.\<close>

fun owner :: "chunk list \<Rightarrow> nat \<Rightarrow> chunk list" where
  "owner [] p = []"
| "owner (c # cs) p = (if p \<le> chunk_addr c \<or> limit c < p then owner cs p else c # cs)"

definition obstack_allocated_p :: "obstack \<Rightarrow> nat \<Rightarrow> bool" where
  "obstack_allocated_p h p \<longleftrightarrow> owner (chain h) p \<noteq> []"

definition obstack_free_fun :: "obstack \<Rightarrow> nat \<Rightarrow> obstack outcome" where
  "obstack_free_fun h p =
     (let cs = owner (chain h) p;
          h' = (if length cs < length (chain h) then h\<lparr>maybe_empty_object := True\<rparr> else h)
      in case cs of
           c # _ \<Rightarrow> Done (h'\<lparr>object_base := p, next_free := p, chunk_limit := limit c, chain := cs\<rparr>)
         | [] \<Rightarrow> if p \<noteq> 0 then Aborted else Done (h'\<lparr>chain := []\<rparr>))"

definition obstack_free :: "obstack \<Rightarrow> nat \<Rightarrow> obstack outcome" where
  "obstack_free h p =
     (case chain h of
        [] \<Rightarrow> Undefined
      | c # _ \<Rightarrow> if chunk_addr c < p \<and> p < chunk_limit h then Done (h\<lparr>next_free := p, object_base := p\<rparr>)
                else obstack_free_fun h p)"

definition obstack_memory_used :: "obstack \<Rightarrow> nat" where
  "obstack_memory_used h = (\<Sum>c\<leftarrow>chain h. limit c - chunk_addr c)"

end
