(* ===== verification/ObstackClient.thy ===== *)
theory ObstackClient
  imports Obstack
begin

text \<open>
  What an obstack is for: the memory laws of Obstack, the layout of the objects in the chunks (\<open>group_ok\<close>, \<open>laid\<close>,
  \<open>ob_inv\<close>), that every operation keeps it, and a client whose objects are never lost. The operations are those of
  Obstack; the client, \<open>ob_run\<close>, and its meaning, \<open>stack_run\<close>, are of this theory.
\<close>


section \<open>Alignment\<close>

lemma and_not_mask_int: "and x (not (mask k)) = x - x mod 2 ^ k" for x :: int
proof -
  have "x - take_bit k x = and x (not (take_bit k x))"
    by (rule disjunctive_diff_eq_and_not) (auto simp: bit_eq_iff bit_simps)
  also have "\<dots> = and x (not (mask k))"
    by (auto simp: bit_eq_iff bit_simps)
  finally show ?thesis by (simp add: take_bit_eq_mod)
qed

lemma ptr_align_eq: "ptr_align p (2 ^ k - 1) = (p + (2 ^ k - 1)) div 2 ^ k * 2 ^ k"
proof -
  have m: "int (2 ^ k - 1) = mask k" by (simp add: mask_eq_exp_minus_1 of_nat_diff)
  have "ptr_align p (2 ^ k - 1) = nat (int (p + (2 ^ k - 1)) - int (p + (2 ^ k - 1)) mod 2 ^ k)"
    unfolding ptr_align_def of_nat_add m and_not_mask_int ..
  also have "\<dots> = nat (int ((p + (2 ^ k - 1)) - (p + (2 ^ k - 1)) mod 2 ^ k))"
    by (simp only: of_nat_diff [OF mod_less_eq_dividend] of_nat_mod of_nat_power of_nat_numeral)
  also have "\<dots> = (p + (2 ^ k - 1)) div 2 ^ k * 2 ^ k" by (simp only: nat_int minus_mod_eq_div_mult)
  finally show ?thesis .
qed

definition mask_ok :: "nat \<Rightarrow> bool" where
  "mask_ok m \<longleftrightarrow> (\<exists>k. m = 2 ^ k - 1)"

lemma ptr_align_bounds:
  assumes "mask_ok m"
  shows "p \<le> ptr_align p m" and "ptr_align p m \<le> p + m" and "m + 1 dvd ptr_align p m"
proof -
  obtain k where k: "m = 2 ^ k - 1" using assms by (auto simp: mask_ok_def)
  have pos: "(2 :: nat) ^ k \<ge> 1" by simp
  have "(p + (2 ^ k - 1)) div 2 ^ k * 2 ^ k + (p + (2 ^ k - 1)) mod 2 ^ k = p + (2 ^ k - 1)" by (rule div_mult_mod_eq)
  moreover have "(p + (2 ^ k - 1)) mod 2 ^ k \<le> 2 ^ k - 1" using pos by (simp add: less_eq_Suc_le [symmetric] Suc_diff_le flip: less_Suc_eq_le)
  ultimately show "p \<le> ptr_align p m" "ptr_align p m \<le> p + m" unfolding k ptr_align_eq by linarith+
  show "m + 1 dvd ptr_align p m" unfolding k ptr_align_eq using pos by simp
qed

section \<open>Reading and writing\<close>

definition chunk_ok :: "chunk \<Rightarrow> bool" where
  "chunk_ok c \<longleftrightarrow> 0 < chunk_addr c \<and> chunk_addr c + CONTENTS \<le> limit c \<and> length (chunk_bytes c) = limit c - chunk_addr c"

definition apart :: "chunk \<Rightarrow> chunk \<Rightarrow> bool" where
  "apart c d \<longleftrightarrow> limit c \<le> chunk_addr d \<or> limit d \<le> chunk_addr c"

definition chain_ok :: "chunk list \<Rightarrow> bool" where
  "chain_ok cs \<longleftrightarrow> (\<forall>c \<in> set cs. chunk_ok c) \<and> sorted_wrt apart cs"

lemma poke_split:
  "chunk_bytes c = A @ X @ B \<Longrightarrow> p = chunk_addr c + length A \<Longrightarrow> length X = length bs \<Longrightarrow>
     poke c p bs = c\<lparr>chunk_bytes := A @ bs @ B\<rparr>"
  by (simp add: poke_def Let_def)

lemma peek_split:
  "chunk_bytes c = A @ X @ B \<Longrightarrow> p = chunk_addr c + length A \<Longrightarrow> length X = n \<Longrightarrow> peek c p n = X"
  by (simp add: peek_def)

lemma poke_simps [simp]:
  "chunk_addr (poke c p bs) = chunk_addr c" "limit (poke c p bs) = limit c" "holds (poke c p bs) q n = holds c q n"
  by (simp_all add: poke_def Let_def holds_def)

lemma poke_Nil [simp]: "poke c p [] = c"
  by (simp add: poke_def)

lemma holds_splitE:
  assumes "chunk_ok c" and "holds c p n"
  obtains A X B where "chunk_bytes c = A @ X @ B" and "p = chunk_addr c + length A" and "length X = n"
proof (rule that)
  let ?i = "p - chunk_addr c" and ?b = "chunk_bytes c"
  have i: "chunk_addr c \<le> p" "?i + n \<le> length ?b"
    using assms by (auto simp: chunk_ok_def holds_def intro: diff_le_mono)
  have "?b = take ?i ?b @ drop ?i ?b" by simp
  also have "drop ?i ?b = take n (drop ?i ?b) @ drop n (drop ?i ?b)" by (rule append_take_drop_id [symmetric])
  finally show "?b = take ?i ?b @ take n (drop ?i ?b) @ drop n (drop ?i ?b)" .
  show "p = chunk_addr c + length (take ?i ?b)" "length (take n (drop ?i ?b)) = n" using i by simp_all
qed

lemma poke_ok:
  assumes ok: "chunk_ok c" and h: "holds c p (length bs)"
  shows "chunk_ok (poke c p bs)"
proof -
  obtain A X B where s: "chunk_bytes c = A @ X @ B" "p = chunk_addr c + length A" "length X = length bs"
    using holds_splitE [OF ok h] by blast
  with ok show ?thesis by (simp add: poke_split chunk_ok_def)
qed

lemma length_peek: "chunk_ok c \<Longrightarrow> holds c p n \<Longrightarrow> length (peek c p n) = n"
  by (erule holds_splitE, assumption) (simp add: peek_split)

lemma peek_poke: "chunk_ok c \<Longrightarrow> holds c p (length bs) \<Longrightarrow> peek (poke c p bs) p (length bs) = bs"
  by (erule holds_splitE, assumption) (simp add: poke_split, rule peek_split; simp)

lemma holds_split2E:
  assumes "chunk_ok c" and "holds c p (m + n)"
  obtains A X Y B where "chunk_bytes c = A @ X @ Y @ B" and "p = chunk_addr c + length A" and "length X = m" and "length Y = n"
proof -
  obtain A Z B where z: "chunk_bytes c = A @ Z @ B" "p = chunk_addr c + length A" "length Z = m + n"
    using holds_splitE [OF assms] by blast
  show thesis by (rule that [of A "take m Z" "drop m Z" B]) (use z in simp_all)
qed

lemma poke_append:
  assumes "chunk_ok c" and "holds c p (length xs + length ys)"
  shows "poke (poke c p xs) (p + length xs) ys = poke c p (xs @ ys)"
    and "poke (poke c (p + length xs) ys) p xs = poke c p (xs @ ys)"
proof -
  obtain A X Y B where s: "chunk_bytes c = A @ X @ Y @ B" "p = chunk_addr c + length A" "length X = length xs" "length Y = length ys"
    using holds_split2E [OF assms] by blast
  then show "poke (poke c p xs) (p + length xs) ys = poke c p (xs @ ys)"
    and "poke (poke c (p + length xs) ys) p xs = poke c p (xs @ ys)"
    by (simp_all add: poke_def Let_def)
qed

lemma peek_append:
  assumes "chunk_ok c" and "holds c p (m + n)"
  shows "peek c p (m + n) = peek c p m @ peek c (p + m) n"
proof -
  obtain A X Y B where "chunk_bytes c = A @ X @ Y @ B" "p = chunk_addr c + length A" "length X = m" "length Y = n"
    using holds_split2E [OF assms] by blast
  then show ?thesis by (simp add: peek_def)
qed

lemma peek_other:
  assumes ok: "chunk_ok c" and w: "holds c p (length bs)" and r: "holds c q n" and apart: "q + n \<le> p \<or> p + length bs \<le> q"
  shows "peek (poke c p bs) q n = peek c q n"
proof -
  obtain A X B where s: "chunk_bytes c = A @ X @ B" "p = chunk_addr c + length A" "length X = length bs"
    using holds_splitE [OF ok w] by blast
  have q: "chunk_addr c \<le> q" using r by (simp add: holds_def)
  show ?thesis
  proof (cases "q + n \<le> p")
    case True
    then have "q - chunk_addr c + n \<le> length A" using s(2) q by simp
    then show ?thesis using s by (simp add: poke_split peek_def)
  next
    case False
    then have "length A + length bs \<le> q - chunk_addr c" using apart s(2) q by simp
    then obtain j where "q - chunk_addr c = length A + length bs + j" using le_Suc_ex by blast
    then show ?thesis using s by (simp add: poke_split peek_def)
  qed
qed

lemma chain_ok_Cons: "chain_ok (c # cs) \<longleftrightarrow> chunk_ok c \<and> (\<forall>d \<in> set cs. apart c d) \<and> chain_ok cs"
  by (auto simp: chain_ok_def)

lemma apart_holds: "apart c d \<Longrightarrow> holds c p n \<Longrightarrow> holds d p n \<Longrightarrow> n = 0"
  by (auto simp: apart_def holds_def)

lemma read_in:
  "chain_ok cs \<Longrightarrow> c \<in> set cs \<Longrightarrow> holds c p n \<Longrightarrow> read_mem cs p n = Done (peek c p n)"
proof (induction cs)
  case (Cons d cs)
  show ?case
  proof (cases "n = 0")
    case True
    then show ?thesis by (simp add: peek_def)
  next
    case False
    have "d = c \<or> \<not> holds d p n"
    proof (cases "d = c")
      case ne: False
      then have "apart d c" using Cons.prems(1,2) by (simp add: chain_ok_Cons)
      then show ?thesis using apart_holds [of d c p n] Cons.prems(3) False by blast
    qed simp
    with False Cons show ?thesis by (auto simp: chain_ok_Cons)
  qed
qed simp

lemma write_in_current: "holds c p (length bs) \<Longrightarrow> write_mem (c # cs) p bs = Done (poke c p bs # cs)"
  by simp

lemma chain_ok_poke: "chain_ok (c # cs) \<Longrightarrow> holds c p (length bs) \<Longrightarrow> chain_ok (poke c p bs # cs)"
  using poke_ok by (auto simp: chain_ok_Cons apart_def)

lemma holds_part: "holds c p n \<Longrightarrow> i + k \<le> n \<Longrightarrow> holds c (p + i) k"
  by (simp add: holds_def)

lemma copy_rest_ok:
  "chain_ok (f # cs) \<Longrightarrow> old \<in> set cs \<Longrightarrow> holds f (dst + i) n \<Longrightarrow> holds old (src + i) n \<Longrightarrow>
     copy_rest n i (f # cs) dst src = Done (poke f (dst + i) (peek old (src + i) n) # cs)"
proof (induction n arbitrary: i f)
  case 0
  then show ?case by (simp add: peek_def)
next
  case (Suc n)
  let ?b = "peek old (src + i) 1"
  have ok: "chunk_ok old" "chunk_ok f" using Suc.prems(1,2) by (auto simp: chain_ok_def)
  have hf: "holds f (dst + i) 1" "holds f (dst + Suc i) n" using Suc.prems(3) by (simp_all add: holds_def)
  have ho: "holds old (src + i) 1" "holds old (src + Suc i) n" using Suc.prems(4) by (simp_all add: holds_def)
  have lb: "length ?b = 1" by (rule length_peek [OF ok(1) ho(1)])
  have "read_mem (f # cs) (src + i) 1 = Done ?b" by (rule read_in [OF Suc.prems(1) _ ho(1)]) (use Suc.prems(2) in simp)
  moreover have "write_mem (f # cs) (dst + i) ?b = Done (poke f (dst + i) ?b # cs)"
    by (rule write_in_current) (use hf lb in simp)
  moreover have "copy_rest n (Suc i) (poke f (dst + i) ?b # cs) dst src =
      Done (poke (poke f (dst + i) ?b) (dst + Suc i) (peek old (src + Suc i) n) # cs)"
    by (rule Suc.IH [OF _ Suc.prems(2)]) (use hf ho lb Suc.prems(1) in \<open>auto intro!: chain_ok_poke\<close>)
  moreover have "poke (poke f (dst + i) ?b) (dst + Suc i) (peek old (src + Suc i) n) = poke f (dst + i) (peek old (src + i) (Suc n))"
  proof -
    have "peek old (src + i) (1 + n) = ?b @ peek old (src + i + 1) n"
      by (rule peek_append [OF ok(1)]) (use Suc.prems(4) in simp)
    then show ?thesis
      using poke_append(1) [OF ok(2), of "dst + i" ?b "peek old (src + Suc i) n"] Suc.prems(3) lb length_peek [OF ok(1) ho(2)] by simp
  qed
  ultimately show ?case by (simp add: andthen_def del: read_mem.simps write_mem.simps)
qed

lemma copy_units_ok:
  "chain_ok (f # cs) \<Longrightarrow> old \<in> set cs \<Longrightarrow> holds f dst (4 * k) \<Longrightarrow> holds old src (4 * k) \<Longrightarrow>
     copy_units k (f # cs) dst src = Done (poke f dst (peek old src (4 * k)) # cs)"
proof (induction k arbitrary: f)
  case 0
  then show ?case by (simp add: peek_def)
next
  case (Suc k)
  let ?b = "peek old (src + 4 * k) 4"
  have ok: "chunk_ok old" "chunk_ok f" using Suc.prems(1,2) by (auto simp: chain_ok_def)
  have hf: "holds f (dst + 4 * k) 4" "holds f dst (4 * k)" using Suc.prems(3) by (simp_all add: holds_def)
  have ho: "holds old (src + 4 * k) 4" "holds old src (4 * k)" using Suc.prems(4) by (simp_all add: holds_def)
  have lb: "length ?b = 4" by (rule length_peek [OF ok(1) ho(1)])
  have "read_mem (f # cs) (src + 4 * k) 4 = Done ?b" by (rule read_in [OF Suc.prems(1) _ ho(1)]) (use Suc.prems(2) in simp)
  moreover have "write_mem (f # cs) (dst + 4 * k) ?b = Done (poke f (dst + 4 * k) ?b # cs)"
    by (rule write_in_current) (use hf lb in simp)
  moreover have "copy_units k (poke f (dst + 4 * k) ?b # cs) dst src =
      Done (poke (poke f (dst + 4 * k) ?b) dst (peek old src (4 * k)) # cs)"
    by (rule Suc.IH [OF _ Suc.prems(2)]) (use hf ho lb Suc.prems(1) in \<open>auto intro!: chain_ok_poke\<close>)
  moreover have "poke (poke f (dst + 4 * k) ?b) dst (peek old src (4 * k)) = poke f dst (peek old src (4 * Suc k))"
  proof -
    have "peek old src (4 * k + 4) = peek old src (4 * k) @ ?b" by (rule peek_append [OF ok(1)]) (use Suc.prems(4) in \<open>simp add: add.commute\<close>)
    then show ?thesis
      using poke_append(2) [OF ok(2), of dst "peek old src (4 * k)" ?b] Suc.prems(3) lb length_peek [OF ok(1) ho(2)]
      by (simp add: add.commute)
  qed
  ultimately show ?case by (simp add: andthen_def del: read_mem.simps write_mem.simps)
qed

lemma copy_object_ok:
  assumes ch: "chain_ok (f # cs)" and old: "old \<in> set cs" and f: "holds f dst n" and o: "holds old src n"
  shows "copy_object (f # cs) dst src n m = Done (poke f dst (peek old src n) # cs)"
proof (cases "DEFAULT_ALIGNMENT \<le> m + 1")
  case False
  then show ?thesis using copy_rest_ok [OF ch old, of dst 0 n src] f o by (simp add: copy_object_def)
next
  case True
  let ?k = "n div 4"
  have n: "n = 4 * ?k + (n - 4 * ?k)" "4 * ?k \<le> n" by simp_all
  have ok: "chunk_ok old" "chunk_ok f" using ch old by (auto simp: chain_ok_def)
  have h: "holds f dst (4 * ?k)" "holds old src (4 * ?k)" "holds f (dst + 4 * ?k) (n - 4 * ?k)" "holds old (src + 4 * ?k) (n - 4 * ?k)"
    using f o n by (auto simp: holds_def)
  let ?b = "peek old src (4 * ?k)"
  have lb: "length ?b = 4 * ?k" by (rule length_peek [OF ok(1) h(2)])
  have "copy_units ?k (f # cs) dst src = Done (poke f dst ?b # cs)" by (rule copy_units_ok [OF ch old h(1,2)])
  moreover have "copy_rest (n - ?k * 4) (?k * 4) (poke f dst ?b # cs) dst src =
      Done (poke (poke f dst ?b) (dst + ?k * 4) (peek old (src + ?k * 4) (n - ?k * 4)) # cs)"
    by (rule copy_rest_ok [OF _ old]) (use ch h lb in \<open>auto intro!: chain_ok_poke simp: mult.commute\<close>)
  moreover have "poke (poke f dst ?b) (dst + 4 * ?k) (peek old (src + 4 * ?k) (n - 4 * ?k)) = poke f dst (peek old src n)"
  proof -
    have "peek old src (4 * ?k + (n - 4 * ?k)) = ?b @ peek old (src + 4 * ?k) (n - 4 * ?k)"
      by (rule peek_append [OF ok(1)]) (use o n in simp)
    then have p: "peek old src n = ?b @ peek old (src + 4 * ?k) (n - 4 * ?k)" using n by simp
    show ?thesis
      unfolding p using poke_append(1) [OF ok(2), of dst ?b "peek old (src + 4 * ?k) (n - 4 * ?k)"] f lb n length_peek [OF ok(1) h(4)]
      by simp
  qed
  ultimately show ?thesis using True by (simp add: copy_object_def andthen_def Let_def mult.commute)
qed


section \<open>Where the objects are\<close>

definition start :: "nat \<Rightarrow> chunk \<Rightarrow> nat" where
  "start m c = ptr_align (chunk_addr c + CONTENTS) m"

text \<open>The objects in one chunk, the newest first: each ends where the one after it begins, the newest below \<open>lim\<close>.\<close>

fun group_ok :: "nat \<Rightarrow> chunk \<Rightarrow> nat \<Rightarrow> (nat \<times> string) list \<Rightarrow> bool" where
  "group_ok m c lim [] \<longleftrightarrow> start m c \<le> lim"
| "group_ok m c lim ((a, s) # os) \<longleftrightarrow>
     a + length s \<le> lim \<and> peek c a (length s) = s \<and> (a < limit c \<longrightarrow> m + 1 dvd a) \<and> group_ok m c a os"

fun laid :: "nat \<Rightarrow> chunk list \<Rightarrow> (nat \<times> string) list \<Rightarrow> bool" where
  "laid m [] objs \<longleftrightarrow> objs = []"
| "laid m (c # cs) objs \<longleftrightarrow> (\<exists>g r. objs = g @ r \<and> group_ok m c (limit c) g \<and> laid m cs r)"

text \<open>The obstack \<open>h\<close> holds the objects \<open>objs\<close>, the newest first, and the object growing is \<open>cur\<close>.\<close>

definition parts_ok :: "obstack \<Rightarrow> chunk \<Rightarrow> chunk list \<Rightarrow> (nat \<times> string) list \<Rightarrow> (nat \<times> string) list \<Rightarrow> string \<Rightarrow> bool" where
  "parts_ok h c cs g r cur \<longleftrightarrow> chain h = c # cs \<and> chain_ok (c # cs) \<and> mask_ok (alignment_mask h) \<and> chunk_limit h = limit c
     \<and> object_base h + length cur = next_free h \<and> next_free h \<le> limit c
     \<and> peek c (object_base h) (length cur) = cur \<and> (object_base h < limit c \<longrightarrow> alignment_mask h + 1 dvd object_base h)
     \<and> group_ok (alignment_mask h) c (object_base h) g \<and> laid (alignment_mask h) cs r
     \<and> (\<forall>b. (b, []) \<in> set g \<and> b = start (alignment_mask h) c \<longrightarrow> maybe_empty_object h)"

definition ob_inv :: "obstack \<Rightarrow> (nat \<times> string) list \<Rightarrow> string \<Rightarrow> bool" where
  "ob_inv h objs cur \<longleftrightarrow> (\<exists>c cs g r. objs = g @ r \<and> parts_ok h c cs g r cur)"

definition chunk_allocator :: "chunkfun \<Rightarrow> bool" where
  "chunk_allocator f \<longleftrightarrow> (\<forall>arg live n a. f arg live n = Some a \<longrightarrow> 0 < a \<and> (\<forall>(b, e) \<in> set live. a + n \<le> b \<or> e \<le> a))"

lemma allocatorD:
  assumes "chunk_allocator f" and "f arg (live_blocks cs) n = Some a"
  shows "0 < a" and "d \<in> set cs \<Longrightarrow> a + n \<le> chunk_addr d \<or> limit d \<le> a"
proof -
  have "0 < a \<and> (\<forall>(b, e) \<in> set (live_blocks cs). a + n \<le> b \<or> e \<le> a)"
    using assms unfolding chunk_allocator_def by blast
  then show "0 < a" and "d \<in> set cs \<Longrightarrow> a + n \<le> chunk_addr d \<or> limit d \<le> a"
    by (auto simp: live_blocks_def)
qed

lemma group_start: "group_ok m c lim g \<Longrightarrow> start m c \<le> lim"
proof (induction g arbitrary: lim)
  case (Cons x g)
  obtain a s where x: "x = (a, s)" by force
  have "start m c \<le> a" by (rule Cons.IH) (use Cons.prems x in simp)
  then show ?case using Cons.prems x by simp
qed simp

lemma group_mono: "group_ok m c lim g \<Longrightarrow> lim \<le> lim' \<Longrightarrow> group_ok m c lim' g"
  by (cases g) auto

lemma start_bounds: "mask_ok m \<Longrightarrow> chunk_addr c + CONTENTS \<le> start m c"
  using ptr_align_bounds(1) by (simp add: start_def)

lemma group_member:
  "group_ok m c lim g \<Longrightarrow> (a, s) \<in> set g \<Longrightarrow>
     start m c \<le> a \<and> a + length s \<le> lim \<and> peek c a (length s) = s \<and> (a < limit c \<longrightarrow> m + 1 dvd a)"
proof (induction g arbitrary: lim)
  case (Cons x g)
  obtain b t where x: "x = (b, t)" by force
  have g: "group_ok m c b g" "b + length t \<le> lim" "peek c b (length t) = t" "b < limit c \<longrightarrow> m + 1 dvd b"
    using Cons.prems(1) x by simp_all
  show ?case
  proof (cases "(a, s) = (b, t)")
    case True
    then show ?thesis using g group_start [OF g(1)] by simp
  next
    case False
    then have "(a, s) \<in> set g" using Cons.prems(2) x by auto
    from Cons.IH [OF g(1) this] g(2) show ?thesis by simp
  qed
qed simp

lemma group_drop: "group_ok m c lim g \<Longrightarrow> k < length g \<Longrightarrow> group_ok m c (fst (g ! k)) (drop (Suc k) g)"
proof (induction g arbitrary: lim k)
  case (Cons o1 g)
  then show ?case by (cases o1; cases k) auto
qed simp

lemma group_poke:
  assumes ok: "chunk_ok c" and w: "holds c p (length bs)" and m: "mask_ok m"
  shows "group_ok m c lim g \<Longrightarrow> lim \<le> p \<Longrightarrow> group_ok m (poke c p bs) lim g"
proof (induction g arbitrary: lim)
  case Nil
  then show ?case by (simp add: start_def)
next
  case (Cons o1 g)
  obtain a s where o1: "o1 = (a, s)" by force
  have "start m c \<le> a" using group_start Cons.prems(1) o1 by fastforce
  then have "holds c a (length s)"
    using Cons.prems o1 w start_bounds [OF m, of c] by (auto simp: holds_def)
  then have "peek (poke c p bs) a (length s) = peek c a (length s)"
    by (rule peek_other [OF ok w]) (use Cons.prems o1 in auto)
  with Cons o1 show ?case by auto
qed

lemma laid_member:
  "laid m cs r \<Longrightarrow> (a, s) \<in> set r \<Longrightarrow> \<exists>c \<in> set cs. start m c \<le> a \<and> a + length s \<le> limit c \<and> peek c a (length s) = s
     \<and> (a < limit c \<longrightarrow> m + 1 dvd a)"
proof (induction cs arbitrary: r)
  case (Cons c cs)
  then obtain g r' where r: "r = g @ r'" "group_ok m c (limit c) g" "laid m cs r'" by auto
  show ?case
  proof (cases "(a, s) \<in> set g")
    case True
    then show ?thesis using group_member [OF r(2)] by auto
  next
    case False
    then show ?thesis using Cons.IH [OF r(3)] Cons.prems(2) r(1) by auto
  qed
qed simp

text \<open>What the invariant is for: every object can be read back where it is.\<close>

lemma objects_readable:
  assumes inv: "ob_inv h objs cur"
  shows "(a, s) \<in> set objs \<Longrightarrow> read_mem (chain h) a (length s) = Done s \<and> (s \<noteq> [] \<longrightarrow> alignment_mask h + 1 dvd a)"
    and "read_mem (chain h) (object_base h) (length cur) = Done cur"
proof -
  obtain c cs g r where o: "objs = g @ r" "parts_ok h c cs g r cur" using inv by (auto simp: ob_inv_def)
  note p = o(2) [unfolded parts_ok_def]
  have m: "mask_ok (alignment_mask h)" using p by simp
  have read: "read_mem (chain h) b (length t) = Done t"
    if "d \<in> set (c # cs)" "start (alignment_mask h) d \<le> b" "b + length t \<le> limit d" "peek d b (length t) = t" for d b t
  proof -
    have "holds d b (length t)" using that start_bounds [OF m, of d] by (simp add: holds_def)
    then show ?thesis using read_in [of "c # cs" d b "length t"] that p by simp
  qed
  show "read_mem (chain h) (object_base h) (length cur) = Done cur"
    by (rule read [of c]) (use p group_start in auto)
  show "read_mem (chain h) a (length s) = Done s \<and> (s \<noteq> [] \<longrightarrow> alignment_mask h + 1 dvd a)" if "(a, s) \<in> set objs"
  proof -
    have "\<exists>d \<in> set (c # cs). start (alignment_mask h) d \<le> a \<and> a + length s \<le> limit d \<and> peek d a (length s) = s
        \<and> (a < limit d \<longrightarrow> alignment_mask h + 1 dvd a)"
    proof (cases "(a, s) \<in> set g")
      case True
      have "group_ok (alignment_mask h) c (limit c) g" by (rule group_mono) (use p in auto)
      then show ?thesis using group_member [OF _ True] by auto
    next
      case False
      then show ?thesis using laid_member [of "alignment_mask h" cs r a s] p that o(1) by auto
    qed
    then obtain d where d: "d \<in> set (c # cs)" "start (alignment_mask h) d \<le> a" "a + length s \<le> limit d" "peek d a (length s) = s"
        "a < limit d \<longrightarrow> alignment_mask h + 1 dvd a" by blast
    show ?thesis using read [OF d(1-4)] d(3,5) by (cases s) auto
  qed
qed

section \<open>The operations\<close>

lemma begin_ok:
  assumes f: "chunk_allocator f" and al: "mask_ok (alignment - 1)" and sz: "CONTENTS + (alignment - 1) \<le> n"
    and n: "size1 \<noteq> 0 \<and> n = size1 \<or> size1 = 0 \<and> n = default_size" and al0: "alignment \<noteq> 0"
  shows "begin_with f arg size1 alignment = Exhausted \<or>
    (\<exists>h. begin_with f arg size1 alignment = Done h \<and> ob_inv h [] [] \<and> alignment_mask h = alignment - 1)"
proof (cases "f arg [] n")
  case None
  with n al0 show ?thesis by (auto simp: begin_with_def)
next
  case (Some a)
  let ?c = "fresh_chunk a n" and ?m = "alignment - 1"
  let ?p = "ptr_align (a + CONTENTS) ?m"
  let ?h = "\<lparr>chunk_size = n, chain = [?c], object_base = ?p, next_free = ?p, chunk_limit = a + n, alignment_mask = ?m,
     extra_arg = arg, maybe_empty_object = False\<rparr>"
  have "begin_with f arg size1 alignment = Done ?h" using Some n al0 sz by (auto simp: begin_with_def Let_def)
  moreover have "0 < a" by (rule allocatorD(1) [OF f, of arg "[]" n]) (use Some in \<open>simp add: live_blocks_def\<close>)
  then have "parts_ok ?h ?c [] [] [] []"
    using ptr_align_bounds [OF al, of "a + CONTENTS"] al sz
    by (simp add: parts_ok_def chain_ok_def chunk_ok_def fresh_chunk_def start_def peek_def)
  ultimately show ?thesis by (auto simp: ob_inv_def)
qed

definition same_setup :: "obstack \<Rightarrow> obstack \<Rightarrow> bool" where
  "same_setup h h' \<longleftrightarrow> chunk_size h' = chunk_size h \<and> alignment_mask h' = alignment_mask h \<and> extra_arg h' = extra_arg h"

lemma newchunk_ok:
  assumes f: "chunk_allocator f" and inv: "ob_inv h objs cur"
  shows "obstack_newchunk f h len = Exhausted \<or> (\<exists>h'. obstack_newchunk f h len = Done h' \<and> ob_inv h' objs cur
    \<and> next_free h' + len \<le> chunk_limit h' \<and> same_setup h h')"
proof -
  obtain c cs g r where o: "objs = g @ r" "parts_ok h c cs g r cur" using inv by (auto simp: ob_inv_def)
  note p = o(2) [unfolded parts_ok_def]
  let ?m = "alignment_mask h" and ?n = "length cur"
  have m: "mask_ok ?m" using p by simp
  have st: "start ?m c \<le> object_base h" using p group_start by blast
  define new_size where "new_size = (if (?n + len) + ?n div 8 + ?m + 100 < chunk_size h then chunk_size h else (?n + len) + ?n div 8 + ?m + 100)"
  have big: "?n + len + ?m + CONTENTS \<le> new_size" by (simp add: new_size_def CONTENTS_def)
  have "object_base h + ?n = next_free h" using p by simp
  then have size1: "next_free h - object_base h = ?n" by linarith
  show ?thesis
  proof (cases "f (extra_arg h) (live_blocks (chain h)) new_size")
    case None
    then show ?thesis by (simp add: obstack_newchunk_def size1 Let_def flip: new_size_def)
  next
    case (Some a)
    let ?f = "fresh_chunk a new_size" and ?p = "ptr_align (a + CONTENTS) ?m"
    have al: "0 < a" "\<forall>d \<in> set (c # cs). a + new_size \<le> chunk_addr d \<or> limit d \<le> a"
      using allocatorD [OF f Some] p by auto
    have fok: "chunk_ok ?f" using al big by (simp add: chunk_ok_def fresh_chunk_def)
    have ch: "chain_ok (?f # c # cs)" using p fok al(2) by (auto simp: chain_ok_Cons apart_def fresh_chunk_def)
    note pb = ptr_align_bounds [OF m, of "a + CONTENTS"]
    have hf: "holds ?f ?p ?n" using pb big by (simp add: holds_def fresh_chunk_def)
    have ho: "holds c (object_base h) ?n" using p st start_bounds [OF m, of c] by (simp add: holds_def)
    have cp: "copy_object (?f # chain h) ?p (object_base h) ?n ?m = Done (poke ?f ?p cur # c # cs)"
      using copy_object_ok [OF ch _ hf ho, of ?m] p by simp
    let ?f' = "poke ?f ?p cur"
    define drop_old where "drop_old \<longleftrightarrow> \<not> maybe_empty_object h \<and> object_base h = ptr_align (chunk_addr c + CONTENTS) ?m"
    let ?cs = "if drop_old then ?f' # cs else ?f' # c # cs"
    let ?h = "h\<lparr>chain := ?cs, chunk_limit := a + new_size, object_base := ?p, next_free := ?p + ?n, maybe_empty_object := False\<rparr>"
    have run: "obstack_newchunk f h len = Done ?h"
      using Some cp p by (simp add: obstack_newchunk_def size1 Let_def andthen_def drop_old_def flip: new_size_def)
    have "g = []" if "drop_old"
    proof (rule ccontr)
      assume "g \<noteq> []"
      then obtain b t where bt: "(b, t) \<in> set g" by (cases g) (auto intro: list.set_intros(1))
      have "group_ok ?m c (object_base h) g" using p by simp
      note gm = group_member [OF this bt]
      have "object_base h = start ?m c" using that by (simp add: drop_old_def start_def)
      then have "b = start ?m c \<and> length t = 0" using gm by linarith
      then have "b = start ?m c" "t = []" by simp_all
      then show False using p bt that by (auto simp: drop_old_def)
    qed
    then have tail: "\<exists>r'. objs = r' \<and> laid ?m (tl ?cs) r'"
    proof (cases drop_old)
      case False
      have "group_ok ?m c (limit c) g" by (rule group_mono) (use p in auto)
      then show ?thesis using False p o(1) by auto
    qed (use p o(1) in simp)
    have "parts_ok ?h ?f' (tl ?cs) [] objs cur"
      using ch tail pb big m poke_ok [OF fok hf] peek_poke [OF fok hf]
      by (auto simp: parts_ok_def chain_ok_Cons start_def fresh_chunk_def apart_def)
    then have "ob_inv ?h objs cur" unfolding ob_inv_def by (metis append_Nil)
    moreover have "next_free ?h + len \<le> chunk_limit ?h" using pb big by simp
    ultimately show ?thesis using run by (auto simp: same_setup_def)
  qed
qed


lemma room_for_ok:
  assumes f: "chunk_allocator f" and inv: "ob_inv h objs cur"
  shows "room_for f h len = Exhausted \<or> (\<exists>h'. room_for f h len = Done h' \<and> ob_inv h' objs cur
    \<and> next_free h' + len \<le> chunk_limit h' \<and> same_setup h h')"
  using newchunk_ok [OF f inv, of len] inv by (auto simp: room_for_def same_setup_def)

lemma make_room_for: "obstack_make_room f h len = room_for f h len"
  by (auto simp: obstack_make_room_def room_for_def)

lemma peek_grow:
  assumes ok: "chunk_ok c" and h: "holds c b (length cur + length bs)" and cur: "peek c b (length cur) = cur"
  shows "peek (poke c (b + length cur) bs) b (length (cur @ bs)) = cur @ bs"
proof -
  have w: "holds c (b + length cur) (length bs)" "holds c b (length cur)" using h by (simp_all add: holds_def)
  have ok': "chunk_ok (poke c (b + length cur) bs)" by (rule poke_ok [OF ok w(1)])
  have "peek (poke c (b + length cur) bs) b (length cur + length bs) =
      peek (poke c (b + length cur) bs) b (length cur) @ peek (poke c (b + length cur) bs) (b + length cur) (length bs)"
    by (rule peek_append [OF ok']) (use h in simp)
  also have "\<dots> = cur @ bs" using peek_other [OF ok w] peek_poke [OF ok w(1)] cur by simp
  finally show ?thesis by simp
qed

lemma put_bytes_ok:
  assumes inv: "ob_inv h objs cur" and room: "next_free h + length bs \<le> chunk_limit h"
  shows "\<exists>h'. put_bytes h bs = Done h' \<and> ob_inv h' objs (cur @ bs) \<and> next_free h' = next_free h + length bs
    \<and> chunk_limit h' = chunk_limit h \<and> same_setup h h'"
proof -
  obtain c cs g r where o: "objs = g @ r" "parts_ok h c cs g r cur" using inv by (auto simp: ob_inv_def)
  note p = o(2) [unfolded parts_ok_def]
  let ?m = "alignment_mask h" and ?c = "poke c (next_free h) bs"
  have m: "mask_ok ?m" and ok: "chunk_ok c" and st: "start ?m c \<le> object_base h" and nf: "object_base h + length cur = next_free h"
    using p group_start by (auto simp: chain_ok_Cons)
  have h: "holds c (object_base h) (length cur + length bs)" and w: "holds c (next_free h) (length bs)"
    using st start_bounds [OF m, of c] room p nf by (auto simp: holds_def)
  let ?h = "h\<lparr>chain := ?c # cs, next_free := next_free h + length bs\<rparr>"
  have "put_bytes h bs = Done ?h"
    using write_in_current [OF w, of cs] p by (simp add: put_bytes_def andthen_def)
  moreover have "chain_ok (?c # cs)" by (rule chain_ok_poke) (use p w in auto)
  moreover have "group_ok ?m ?c (object_base h) g"
    by (rule group_poke [OF ok w m]) (use p in auto)
  moreover have "peek ?c (object_base h) (length (cur @ bs)) = cur @ bs"
    using peek_grow [OF ok h] p unfolding nf [symmetric] by simp
  ultimately have "put_bytes h bs = Done ?h \<and> parts_ok ?h ?c cs g r (cur @ bs)"
    using p room by (auto simp: parts_ok_def start_def)
  then show ?thesis using o(1) by (auto simp: ob_inv_def same_setup_def)
qed

lemma obstack_grow_ok:
  assumes f: "chunk_allocator f" and inv: "ob_inv h objs cur"
  shows "obstack_grow f h bs = Exhausted \<or> (\<exists>h'. obstack_grow f h bs = Done h' \<and> ob_inv h' objs (cur @ bs) \<and> same_setup h h')"
  using room_for_ok [OF f inv, of "length bs"]
proof
  assume "\<exists>h'. room_for f h (length bs) = Done h' \<and> ob_inv h' objs cur \<and> next_free h' + length bs \<le> chunk_limit h' \<and> same_setup h h'"
  then obtain h1 where h1: "room_for f h (length bs) = Done h1" "ob_inv h1 objs cur" "next_free h1 + length bs \<le> chunk_limit h1"
    "same_setup h h1" by blast
  then show ?thesis using put_bytes_ok [OF h1(2,3)] by (auto simp: obstack_grow_def andthen_def same_setup_def)
qed (simp add: obstack_grow_def andthen_def)

lemma grow0_ok:
  assumes f: "chunk_allocator f" and inv: "ob_inv h objs cur"
  shows "obstack_grow0 f h bs = Exhausted \<or>
    (\<exists>h'. obstack_grow0 f h bs = Done h' \<and> ob_inv h' objs (cur @ bs @ [NUL]) \<and> same_setup h h')"
  using room_for_ok [OF f inv, of "length bs + 1"]
proof
  assume "\<exists>h'. room_for f h (length bs + 1) = Done h' \<and> ob_inv h' objs cur \<and> next_free h' + (length bs + 1) \<le> chunk_limit h' \<and> same_setup h h'"
  then obtain h1 where h1: "room_for f h (length bs + 1) = Done h1" "ob_inv h1 objs cur" "next_free h1 + (length bs + 1) \<le> chunk_limit h1"
    "same_setup h h1" by blast
  have "next_free h1 + length bs \<le> chunk_limit h1" using h1(3) by simp
  from put_bytes_ok [OF h1(2) this] obtain h2 where h2: "put_bytes h1 bs = Done h2" "ob_inv h2 objs (cur @ bs)"
    "next_free h2 = next_free h1 + length bs" "chunk_limit h2 = chunk_limit h1" "same_setup h1 h2" by blast
  have "next_free h2 + length [NUL] \<le> chunk_limit h2" using h1(3) h2(3,4) by simp
  from put_bytes_ok [OF h2(2) this] obtain h3 where "put_bytes h2 [NUL] = Done h3" "ob_inv h3 objs ((cur @ bs) @ [NUL])"
    "same_setup h2 h3" by blast
  with h1 h2 show ?thesis by (simp add: obstack_grow0_def andthen_def same_setup_def)
qed (simp add: obstack_grow0_def andthen_def)

lemma blank_ok:
  assumes f: "chunk_allocator f" and inv: "ob_inv h objs cur"
  shows "obstack_blank f h len = Exhausted \<or>
    (\<exists>h' t. obstack_blank f h len = Done h' \<and> ob_inv h' objs (cur @ t) \<and> length t = len \<and> same_setup h h')"
  using room_for_ok [OF f inv, of len]
proof
  assume "\<exists>h'. room_for f h len = Done h' \<and> ob_inv h' objs cur \<and> next_free h' + len \<le> chunk_limit h' \<and> same_setup h h'"
  then obtain h1 where h1: "room_for f h len = Done h1" "ob_inv h1 objs cur" "next_free h1 + len \<le> chunk_limit h1" "same_setup h h1" by blast
  obtain c cs g r where o: "objs = g @ r" "parts_ok h1 c cs g r cur" using h1(2) by (auto simp: ob_inv_def)
  note p = o(2) [unfolded parts_ok_def]
  let ?m = "alignment_mask h1" and ?t = "peek c (next_free h1) len"
  have m: "mask_ok ?m" and ok: "chunk_ok c" and st: "start ?m c \<le> object_base h1" and nf: "object_base h1 + length cur = next_free h1"
    using p group_start by (auto simp: chain_ok_Cons)
  have h: "holds c (object_base h1) (length cur + len)" "holds c (next_free h1) len"
    using st start_bounds [OF m, of c] h1(3) p nf by (auto simp: holds_def)
  have lt: "length ?t = len" by (rule length_peek [OF ok h(2)])
  have "peek c (object_base h1) (length cur + len) = cur @ ?t" using peek_append [OF ok h(1)] p nf by simp
  then have "parts_ok (h1\<lparr>next_free := next_free h1 + len\<rparr>) c cs g r (cur @ ?t)"
    using p h1(3) lt by (auto simp: parts_ok_def)
  then have "ob_inv (h1\<lparr>next_free := next_free h1 + len\<rparr>) objs (cur @ ?t)" using o(1) by (auto simp: ob_inv_def)
  then show ?thesis using h1 lt by (auto simp: obstack_blank_def andthen_def make_room_for same_setup_def)
qed (simp add: obstack_blank_def andthen_def make_room_for)

lemma finish_ok:
  assumes inv: "ob_inv h objs cur"
  shows "\<exists>h'. obstack_finish h = Done (object_base h, h') \<and> ob_inv h' ((object_base h, cur) # objs) [] \<and> same_setup h h'
    \<and> tl (chain h') = tl (chain h) \<and> chain h' = chain h \<and> object_base h + length cur \<le> object_base h'"
proof -
  obtain c cs g r where o: "objs = g @ r" "parts_ok h c cs g r cur" using inv by (auto simp: ob_inv_def)
  note p = o(2) [unfolded parts_ok_def]
  let ?m = "alignment_mask h"
  have m: "mask_ok ?m" and nf: "object_base h + length cur = next_free h" and lim: "next_free h \<le> limit c" "chunk_limit h = limit c"
    and g: "group_ok ?m c (object_base h) g" using p by auto
  have st: "start ?m c \<le> object_base h" by (rule group_start [OF g])
  define q where "q = (if limit c < ptr_align (next_free h) ?m then limit c else ptr_align (next_free h) ?m)"
  have q: "next_free h \<le> q" "q \<le> limit c" "q < limit c \<longrightarrow> ?m + 1 dvd q"
    using ptr_align_bounds [OF m, of "next_free h"] lim by (auto simp: q_def)
  let ?h = "h\<lparr>maybe_empty_object := (next_free h = object_base h \<or> maybe_empty_object h), next_free := q, object_base := q\<rparr>"
  have run: "obstack_finish h = Done (object_base h, ?h)"
    using p by (auto simp: obstack_finish_def Let_def q_def)
  have g': "group_ok ?m c q ((object_base h, cur) # g)" using g p q(1) nf by simp
  have "maybe_empty_object ?h" if "(b, []) \<in> set ((object_base h, cur) # g)" "b = start ?m c" for b
  proof (cases "(b, []) \<in> set g")
    case True
    then show ?thesis using p that(2) by simp
  next
    case False
    then have "cur = []" using that(1) by simp
    then show ?thesis using nf by simp
  qed
  then have "parts_ok ?h c cs ((object_base h, cur) # g) r []"
    using p q g' by (auto simp: parts_ok_def peek_def)
  then have "ob_inv ?h ((object_base h, cur) # objs) []" unfolding ob_inv_def using o(1) by (metis append_Cons)
  then show ?thesis using run q(1) nf by (auto simp: same_setup_def)
qed



section \<open>Freeing\<close>

lemma apart_inside: "apart c d \<Longrightarrow> chunk_addr d < p \<Longrightarrow> p \<le> limit d \<Longrightarrow> p \<le> chunk_addr c \<or> limit c < p"
  by (auto simp: apart_def)

lemma owner_at: "chain_ok (c # cs) \<Longrightarrow> chunk_addr c < p \<Longrightarrow> p \<le> limit c \<Longrightarrow> owner (c # cs) p = c # cs"
  by simp

lemma owner_skip: "chain_ok (c # cs) \<Longrightarrow> d \<in> set cs \<Longrightarrow> chunk_addr d < p \<Longrightarrow> p \<le> limit d \<Longrightarrow> owner (c # cs) p = owner cs p"
  using apart_inside [of c d p] by (auto simp: chain_ok_Cons)

text \<open>The object to free is in its chunk, and so are the older objects in it.\<close>

lemma laid_owner:
  "laid m cs r \<Longrightarrow> chain_ok cs \<Longrightarrow> mask_ok m \<Longrightarrow> k < length r \<Longrightarrow>
     \<exists>d ds g r'. owner cs (fst (r ! k)) = d # ds \<and> d \<in> set cs \<and> chain_ok (d # ds) \<and> length (d # ds) \<le> length cs
       \<and> group_ok m d (fst (r ! k)) g \<and> laid m ds r' \<and> drop (Suc k) r = g @ r'
       \<and> chunk_addr d < fst (r ! k) \<and> fst (r ! k) \<le> limit d \<and> (fst (r ! k) < limit d \<longrightarrow> m + 1 dvd fst (r ! k))"
proof (induction cs arbitrary: r k)
  case (Cons c cs)
  obtain g r' where r: "r = g @ r'" "group_ok m c (limit c) g" "laid m cs r'" using Cons.prems(1) by auto
  show ?case
  proof (cases "k < length g")
    case True
    obtain a s where as: "g ! k = (a, s)" by force
    then have "(a, s) \<in> set g" using True by (metis nth_mem)
    from group_member [OF r(2) this] have a: "start m c \<le> a" "a + length s \<le> limit c" "a < limit c \<longrightarrow> m + 1 dvd a" by simp_all
    have lo: "chunk_addr c < a" using start_bounds [OF Cons.prems(3), of c] a(1) by (simp add: CONTENTS_def)
    have "group_ok m c (fst (g ! k)) (drop (Suc k) g)" by (rule group_drop [OF r(2) True])
    moreover have "r ! k = g ! k" "drop (Suc k) r = drop (Suc k) g @ r'" using True r(1) by (simp_all add: nth_append)
    moreover have "owner (c # cs) a = c # cs" by (rule owner_at [OF Cons.prems(2) lo]) (use a in simp)
    ultimately show ?thesis using as a lo Cons.prems(2) r(3)
      by (intro exI [of _ c] exI [of _ cs] exI [of _ "drop (Suc k) g"] exI [of _ r']) simp
  next
    case False
    let ?k = "k - length g"
    have k: "?k < length r'" "r ! k = r' ! ?k" "drop (Suc k) r = drop (Suc ?k) r'"
      using False Cons.prems(4) r(1) by (auto simp: nth_append Suc_diff_le)
    have ch: "chain_ok cs" using Cons.prems(2) by (simp add: chain_ok_Cons)
    from Cons.IH [OF r(3) ch Cons.prems(3) k(1)] obtain d ds g2 r2 where d: "owner cs (fst (r' ! ?k)) = d # ds" "d \<in> set cs"
      "chain_ok (d # ds)" "length (d # ds) \<le> length cs" "group_ok m d (fst (r' ! ?k)) g2" "laid m ds r2" "drop (Suc ?k) r' = g2 @ r2"
      "chunk_addr d < fst (r' ! ?k)" "fst (r' ! ?k) \<le> limit d" "fst (r' ! ?k) < limit d \<longrightarrow> m + 1 dvd fst (r' ! ?k)" by blast
    have "owner (c # cs) (fst (r' ! ?k)) = d # ds" using owner_skip [OF Cons.prems(2) d(2,8,9)] d(1) by simp
    then show ?thesis
      unfolding k(2,3)
      by (intro exI [of _ d] exI [of _ ds] exI [of _ g2] exI [of _ r2]) (use d in auto)
  qed
qed simp

lemma free_ok:
  assumes inv: "ob_inv h objs cur" and k: "k < length objs"
  shows "\<exists>h'. obstack_free h (fst (objs ! k)) = Done h' \<and> ob_inv h' (drop (Suc k) objs) [] \<and> same_setup h h'"
proof -
  obtain c cs g r where o: "objs = g @ r" "parts_ok h c cs g r cur" using inv by (auto simp: ob_inv_def)
  note p = o(2) [unfolded parts_ok_def]
  let ?m = "alignment_mask h" and ?a = "fst (objs ! k)"
  have m: "mask_ok ?m" and ch: "chain_ok (c # cs)" "chain h = c # cs" and g: "group_ok ?m c (object_base h) g"
    and lim: "object_base h \<le> limit c" "chunk_limit h = limit c" using p by auto
  show ?thesis
  proof (cases "k < length g")
    case True
    then have a: "?a = fst (g ! k)" using o(1) by (simp add: nth_append)
    obtain b s where bs: "g ! k = (b, s)" by force
    then have "(b, s) \<in> set g" using True by (metis nth_mem)
    from group_member [OF g this] have b: "start ?m c \<le> b" "b \<le> limit c" "b < limit c \<longrightarrow> ?m + 1 dvd b" using lim by auto
    have lo: "chunk_addr c < b" using start_bounds [OF m, of c] b(1) by (simp add: CONTENTS_def)
    let ?h = "h\<lparr>object_base := b, next_free := b\<rparr>"
    have "h\<lparr>next_free := b, object_base := b\<rparr> = ?h" by simp
    moreover have "h\<lparr>object_base := b, next_free := b, chunk_limit := limit c, chain := c # cs\<rparr> = ?h"
      using lim ch(2) by simp
    ultimately have "obstack_free h ?a = Done ?h"
      using a bs lo b(2) lim ch(2) by (auto simp: obstack_free_def obstack_free_fun_def Let_def)
    moreover have "parts_ok ?h c cs (drop (Suc k) g) r []"
      using p b group_drop [OF g True] bs by (auto simp: parts_ok_def peek_def dest: in_set_dropD)
    then have "ob_inv ?h (drop (Suc k) objs) []" unfolding ob_inv_def using o(1) True by auto
    ultimately show ?thesis by (auto simp: same_setup_def)
  next
    case False
    let ?k = "k - length g"
    have k': "?k < length r" "objs ! k = r ! ?k" "drop (Suc k) objs = drop (Suc ?k) r"
      using False k o(1) by (auto simp: nth_append Suc_diff_le)
    have "laid ?m cs r" "chain_ok cs" using p by (auto simp: chain_ok_Cons)
    from laid_owner [OF this m k'(1)] obtain d ds g2 r2 where d: "owner cs (fst (r ! ?k)) = d # ds" "d \<in> set cs"
      "chain_ok (d # ds)" "length (d # ds) \<le> length cs" "group_ok ?m d (fst (r ! ?k)) g2" "laid ?m ds r2" "drop (Suc ?k) r = g2 @ r2"
      "chunk_addr d < fst (r ! ?k)" "fst (r ! ?k) \<le> limit d" "fst (r ! ?k) < limit d \<longrightarrow> ?m + 1 dvd fst (r ! ?k)" by blast
    have "apart c d" using ch(1) d(2) by (simp add: chain_ok_Cons)
    then have out: "?a \<le> chunk_addr c \<or> limit c < ?a" using apart_inside d(8,9) k'(2) by simp
    have ow: "owner (chain h) ?a = d # ds" using owner_skip [OF ch(1) d(2,8,9)] d(1) ch(2) k'(2) by simp
    let ?h = "h\<lparr>maybe_empty_object := True, object_base := ?a, next_free := ?a, chunk_limit := limit d, chain := d # ds\<rparr>"
    have "obstack_free h ?a = Done ?h"
      using out ow d(4) ch(2) lim(2) by (auto simp: obstack_free_def obstack_free_fun_def Let_def)
    moreover have "parts_ok ?h d ds g2 r2 []" using d m k'(2) by (simp add: parts_ok_def peek_def)
    then have "ob_inv ?h (drop (Suc k) objs) []" unfolding ob_inv_def k'(3) d(7) by blast
    ultimately show ?thesis by (auto simp: same_setup_def)
  qed
qed

section \<open>Writing into an object\<close>

lemma group_write:
  assumes ok: "chunk_ok c" and m: "mask_ok m"
  shows "group_ok m c lim g \<Longrightarrow> lim \<le> limit c \<Longrightarrow> k < length g \<Longrightarrow> g ! k = (a, t) \<Longrightarrow> length s = length t \<Longrightarrow>
    group_ok m (poke c a s) lim (g[k := (a, s)]) \<and> holds c a (length s)"
proof (induction g arbitrary: lim k)
  case (Cons x g)
  obtain b u where x: "x = (b, u)" by force
  have g: "group_ok m c b g" "b + length u \<le> lim" "peek c b (length u) = u" "b < limit c \<longrightarrow> m + 1 dvd b"
    using Cons.prems(1) x by simp_all
  have sb: "start m c \<le> b" by (rule group_start [OF g(1)])
  show ?case
  proof (cases k)
    case 0
    then have bu: "a = b" "length s = length u" using Cons.prems x by simp_all
    have h: "holds c b (length s)" using sb start_bounds [OF m, of c] g(2) Cons.prems(2) bu by (simp add: holds_def)
    have "group_ok m (poke c b s) b g" by (rule group_poke [OF ok h m g(1)]) simp
    then show ?thesis using 0 x bu g h peek_poke [OF ok h] by auto
  next
    case (Suc j)
    have IH: "group_ok m (poke c a s) b (g[j := (a, s)]) \<and> holds c a (length s)"
      by (rule Cons.IH) (use Cons.prems g Suc x in auto)
    have "(a, t) \<in> set g" using Cons.prems Suc by (metis Suc_less_eq length_Cons nth_Cons_Suc nth_mem)
    from group_member [OF g(1) this] have "a + length s \<le> b" using Cons.prems(5) by simp
    moreover have "holds c b (length u)" using sb start_bounds [OF m, of c] g(2) Cons.prems(2) by (simp add: holds_def)
    ultimately have "peek (poke c a s) b (length u) = u" using peek_other [OF ok] IH g(3) by metis
    then show ?thesis using IH Suc x g by auto
  qed
qed simp

lemma write_skip:
  assumes "chain_ok (c # cs)" and "d \<in> set cs" and "holds d p (length bs)" and "bs \<noteq> []"
  shows "write_mem (c # cs) p bs = andthen (write_mem cs p bs) (\<lambda>cs. Done (c # cs))"
proof -
  have "\<not> holds c p (length bs)" using apart_holds [of c d p "length bs"] assms by (auto simp: chain_ok_Cons)
  then show ?thesis using assms(4) by simp
qed

lemma live_blocks_apart: "live_blocks cs' = live_blocks cs \<Longrightarrow> (\<forall>d \<in> set cs. apart c d) \<Longrightarrow> (\<forall>d \<in> set cs'. apart c d)"
proof
  fix d assume a: "live_blocks cs' = live_blocks cs" "\<forall>d \<in> set cs. apart c d" "d \<in> set cs'"
  have "(chunk_addr d, limit d) \<in> set (live_blocks cs')" using a(3) by (force simp: live_blocks_def)
  then have "(chunk_addr d, limit d) \<in> set (live_blocks cs)" unfolding a(1) .
  then obtain e where "e \<in> set cs" "chunk_addr e = chunk_addr d" "limit e = limit d" by (auto simp: live_blocks_def)
  then show "apart c d" using a(2) by (auto simp: apart_def)
qed

lemma laid_write:
  "laid m cs r \<Longrightarrow> chain_ok cs \<Longrightarrow> mask_ok m \<Longrightarrow> k < length r \<Longrightarrow> r ! k = (a, t) \<Longrightarrow> length s = length t \<Longrightarrow> s \<noteq> [] \<Longrightarrow>
     \<exists>cs'. write_mem cs a s = Done cs' \<and> laid m cs' (r[k := (a, s)]) \<and> chain_ok cs' \<and> live_blocks cs' = live_blocks cs
       \<and> (\<exists>d \<in> set cs. holds d a (length s))"
proof (induction cs arbitrary: r k)
  case (Cons c cs)
  obtain g r' where r: "r = g @ r'" "group_ok m c (limit c) g" "laid m cs r'" using Cons.prems(1) by auto
  have ok: "chunk_ok c" "chain_ok cs" using Cons.prems(2) by (simp_all add: chain_ok_Cons)
  show ?case
  proof (cases "k < length g")
    case True
    then have w: "group_ok m (poke c a s) (limit c) (g[k := (a, s)])" "holds c a (length s)"
      using group_write [OF ok(1) Cons.prems(3) r(2), of k a t s] Cons.prems r(1) by (auto simp: nth_append)
    have "chain_ok (poke c a s # cs)" by (rule chain_ok_poke [OF Cons.prems(2) w(2)])
    then show ?thesis using w r True Cons.prems(7) by (auto simp: list_update_append live_blocks_def)
  next
    case False
    let ?k = "k - length g"
    have k: "?k < length r'" "r' ! ?k = (a, t)" "r[k := (a, s)] = g @ r'[?k := (a, s)]"
      using False Cons.prems(4,5) r(1) by (auto simp: nth_append list_update_append)
    from Cons.IH [OF r(3) ok(2) Cons.prems(3) k(1,2) Cons.prems(6,7)] obtain cs' d where w: "write_mem cs a s = Done cs'"
      "laid m cs' (r'[?k := (a, s)])" "chain_ok cs'" "live_blocks cs' = live_blocks cs" "d \<in> set cs" "holds d a (length s)" by blast
    have "write_mem (c # cs) a s = Done (c # cs')"
      using write_skip [OF Cons.prems(2) w(5,6) Cons.prems(7)] w(1) by (simp add: andthen_def)
    moreover have "\<forall>d \<in> set cs'. apart c d" by (rule live_blocks_apart [OF w(4)]) (use Cons.prems(2) in \<open>simp add: chain_ok_Cons\<close>)
    ultimately show ?thesis using w r ok k(3) by (auto simp: chain_ok_Cons live_blocks_def)
  qed
qed simp

lemma write_object_ok:
  assumes inv: "ob_inv h objs cur" and k: "k < length objs" and at: "objs ! k = (a, t)" and len: "length s = length t"
  shows "\<exists>cs. write_mem (chain h) a s = Done cs \<and> ob_inv (h\<lparr>chain := cs\<rparr>) (objs[k := (a, s)]) cur"
proof (cases "s = []")
  case True
  then have "objs[k := (a, s)] = objs" using at len k by (metis length_0_conv list_update_id)
  moreover have "write_mem (chain h) a s = Done (chain h)" using True by (cases "chain h") simp_all
  ultimately show ?thesis using inv by simp
next
  case ne: False
  obtain c cs g r where o: "objs = g @ r" "parts_ok h c cs g r cur" using inv by (auto simp: ob_inv_def)
  note p = o(2) [unfolded parts_ok_def]
  let ?m = "alignment_mask h"
  have m: "mask_ok ?m" and ch: "chain_ok (c # cs)" "chain h = c # cs" "chunk_ok c" "chain_ok cs"
    and g: "group_ok ?m c (object_base h) g" and lim: "object_base h \<le> limit c" and lr: "laid ?m cs r"
    using p by (auto simp: chain_ok_Cons)
  show ?thesis
  proof (cases "k < length g")
    case True
    have w: "group_ok ?m (poke c a s) (object_base h) (g[k := (a, s)])" "holds c a (length s)"
      using group_write [OF ch(3) m g lim True, of a t s] at len True o(1) by (auto simp: nth_append)
    have "(a, t) \<in> set g" using at True o(1) by (metis nth_append nth_mem)
    from group_member [OF g this] have "a + length s \<le> object_base h" using len by simp
    moreover have "holds c (object_base h) (length cur)"
      using group_start [OF g] start_bounds [OF m, of c] p by (auto simp: holds_def)
    ultimately have cur: "peek (poke c a s) (object_base h) (length cur) = cur"
      using peek_other [OF ch(3) w(2)] p by auto
    have "b = start ?m c \<longrightarrow> maybe_empty_object h" if "(b, []) \<in> set (g[k := (a, s)])" for b
    proof -
      have "(b, []) \<in> insert (a, s) (set g)" using that set_update_subset_insert [of g k "(a, s)"] by blast
      then show ?thesis using ne p by auto
    qed
    then have "parts_ok (h\<lparr>chain := poke c a s # cs\<rparr>) (poke c a s) cs (g[k := (a, s)]) r cur"
      using p w cur chain_ok_poke [OF ch(1) w(2)] by (auto simp: parts_ok_def start_def)
    then have "ob_inv (h\<lparr>chain := poke c a s # cs\<rparr>) (objs[k := (a, s)]) cur"
      unfolding ob_inv_def using o(1) True by (auto simp: list_update_append)
    then show ?thesis using w(2) ch(2) ne by auto
  next
    case False
    let ?k = "k - length g"
    have k': "?k < length r" "r ! ?k = (a, t)" "objs[k := (a, s)] = g @ r[?k := (a, s)]"
      using False k at o(1) by (auto simp: nth_append list_update_append)
    from laid_write [OF lr ch(4) m k'(1,2) len ne] obtain cs' d where w: "write_mem cs a s = Done cs'" "laid ?m cs' (r[?k := (a, s)])"
      "chain_ok cs'" "live_blocks cs' = live_blocks cs" "d \<in> set cs" "holds d a (length s)" by blast
    have "write_mem (c # cs) a s = Done (c # cs')" using write_skip [OF ch(1) w(5,6) ne] w(1) by (simp add: andthen_def)
    moreover have "\<forall>d \<in> set cs'. apart c d" by (rule live_blocks_apart [OF w(4)]) (use ch(1) in \<open>simp add: chain_ok_Cons\<close>)
    then have "parts_ok (h\<lparr>chain := c # cs'\<rparr>) c cs' g (r[?k := (a, s)]) cur"
      using p w ch(3) by (auto simp: parts_ok_def chain_ok_Cons)
    then have "ob_inv (h\<lparr>chain := c # cs'\<rparr>) (objs[k := (a, s)]) cur" unfolding ob_inv_def k'(3) by blast
    ultimately show ?thesis using ch(2) by auto
  qed
qed


section \<open>A client\<close>

text \<open>
  What a client can do. \<open>Alloc s\<close> is \<open>obstack_alloc\<close> of the length of \<open>s\<close>, followed by storing \<open>s\<close> there; \<open>Store k s\<close>
  overwrites its \<open>k\<close>-th newest object, \<open>Free k\<close> frees it. The client keeps the addresses it was given, the newest
  first.
\<close>

datatype ob_op = Grow string | Grow0 string | OneGrow char | MakeRoom nat | Finish | Alloc string | Copy string | Copy0 string
  | Store nat string | Free nat

definition keep :: "nat list \<Rightarrow> (nat \<times> obstack) outcome \<Rightarrow> (obstack \<times> nat list) outcome" where
  "keep ptrs r = andthen r (\<lambda>(a, h). Done (h, a # ptrs))"

definition store :: "obstack \<Rightarrow> nat list \<Rightarrow> nat \<Rightarrow> string \<Rightarrow> (obstack \<times> nat list) outcome" where
  "store h ptrs a s = andthen (write_mem (chain h) a s) (\<lambda>cs. Done (h\<lparr>chain := cs\<rparr>, ptrs))"

fun ob_step :: "chunkfun \<Rightarrow> obstack \<times> nat list \<Rightarrow> ob_op \<Rightarrow> (obstack \<times> nat list) outcome" where
  "ob_step f (h, ptrs) (Grow s) = andthen (obstack_grow f h s) (\<lambda>h. Done (h, ptrs))"
| "ob_step f (h, ptrs) (Grow0 s) = andthen (obstack_grow0 f h s) (\<lambda>h. Done (h, ptrs))"
| "ob_step f (h, ptrs) (OneGrow c) = andthen (obstack_1grow f h c) (\<lambda>h. Done (h, ptrs))"
| "ob_step f (h, ptrs) (MakeRoom n) = andthen (obstack_make_room f h n) (\<lambda>h. Done (h, ptrs))"
| "ob_step f (h, ptrs) Finish = keep ptrs (obstack_finish h)"
| "ob_step f (h, ptrs) (Alloc s) = andthen (keep ptrs (obstack_alloc f h (length s))) (\<lambda>(h, ptrs). store h ptrs (hd ptrs) s)"
| "ob_step f (h, ptrs) (Copy s) = keep ptrs (obstack_copy f h s)"
| "ob_step f (h, ptrs) (Copy0 s) = keep ptrs (obstack_copy0 f h s)"
| "ob_step f (h, ptrs) (Store k s) = store h ptrs (ptrs ! k) s"
| "ob_step f (h, ptrs) (Free k) = andthen (obstack_free h (ptrs ! k)) (\<lambda>h. Done (h, drop (Suc k) ptrs))"

fun ob_run :: "chunkfun \<Rightarrow> obstack \<times> nat list \<Rightarrow> ob_op list \<Rightarrow> (obstack \<times> nat list) outcome" where
  "ob_run f st [] = Done st"
| "ob_run f st (p # ps) = andthen (ob_step f st p) (\<lambda>st. ob_run f st ps)"

text \<open>
  What it means to do: a stack of strings and a string growing on it. \<open>Alloc\<close> needs that no object is growing, storing
  that it fits, and freeing drops the newer objects and the one growing.
\<close>

fun stack_step :: "string list \<times> string \<Rightarrow> ob_op \<Rightarrow> (string list \<times> string) option" where
  "stack_step (xs, cur) (Grow s) = Some (xs, cur @ s)"
| "stack_step (xs, cur) (Grow0 s) = Some (xs, cur @ s @ [NUL])"
| "stack_step (xs, cur) (OneGrow c) = Some (xs, cur @ [c])"
| "stack_step (xs, cur) (MakeRoom n) = Some (xs, cur)"
| "stack_step (xs, cur) Finish = Some (cur # xs, [])"
| "stack_step (xs, cur) (Alloc s) = (if cur = [] then Some (s # xs, []) else None)"
| "stack_step (xs, cur) (Copy s) = Some ((cur @ s) # xs, [])"
| "stack_step (xs, cur) (Copy0 s) = Some ((cur @ s @ [NUL]) # xs, [])"
| "stack_step (xs, cur) (Store k s) = (if k < length xs \<and> length s = length (xs ! k) then Some (xs[k := s], cur) else None)"
| "stack_step (xs, cur) (Free k) = (if k < length xs then Some (drop (Suc k) xs, []) else None)"

fun stack_run :: "string list \<times> string \<Rightarrow> ob_op list \<Rightarrow> (string list \<times> string) option" where
  "stack_run st [] = Some st"
| "stack_run st (p # ps) = (case stack_step st p of None \<Rightarrow> None | Some st \<Rightarrow> stack_run st ps)"

definition represents :: "obstack \<times> nat list \<Rightarrow> string list \<times> string \<Rightarrow> nat \<Rightarrow> bool" where
  "represents st sp m \<longleftrightarrow> (case (st, sp) of ((h, ptrs), (xs, cur)) \<Rightarrow>
     length ptrs = length xs \<and> ob_inv h (zip ptrs xs) cur \<and> alignment_mask h = m)"

definition ends_well :: "(obstack \<times> nat list) outcome \<Rightarrow> string list \<times> string \<Rightarrow> nat \<Rightarrow> bool" where
  "ends_well r sp m \<longleftrightarrow> r = Exhausted \<or> (\<exists>st. r = Done st \<and> represents st sp m)"

lemma ends_wellI: "represents st sp m \<Longrightarrow> ends_well (Done st) sp m"
  by (simp add: ends_well_def)

lemma ends_well_Exhausted [simp]: "ends_well Exhausted sp m"
  by (simp add: ends_well_def)

lemma andthen_simps [simp]:
  "andthen (Done x) f = f x" "andthen Exhausted f = Exhausted" "andthen Aborted f = Aborted" "andthen Undefined f = Undefined"
  by (simp_all add: andthen_def)

lemma andthen_assoc: "andthen (andthen r f) g = andthen r (\<lambda>x. andthen (f x) g)"
  by (cases r) simp_all

lemma grow1_as_grow: "obstack_1grow f h c = obstack_grow f h [c]"
  by (simp add: obstack_1grow_def obstack_grow_def)

lemma same_setup_mask: "same_setup h h' \<Longrightarrow> alignment_mask h' = alignment_mask h"
  by (simp add: same_setup_def)

lemma finish_step:
  assumes "ob_inv h (zip ptrs xs) cur" and "length ptrs = length xs"
  shows "\<exists>h'. keep ptrs (obstack_finish h) = Done (h', object_base h # ptrs)
    \<and> represents (h', object_base h # ptrs) (cur # xs, []) (alignment_mask h)"
  using finish_ok [OF assms(1)] assms(2) same_setup_mask by (fastforce simp: keep_def represents_def)

lemma finish_ends_well:
  assumes "r = Exhausted \<or> (\<exists>h'. r = Done h' \<and> ob_inv h' (zip ptrs xs) cur \<and> same_setup h h')" and "length ptrs = length xs"
  shows "ends_well (keep ptrs (andthen r obstack_finish)) (cur # xs, []) (alignment_mask h)"
  using assms(1)
proof
  assume "r = Exhausted"
  then show ?thesis by (simp add: keep_def)
next
  assume "\<exists>h'. r = Done h' \<and> ob_inv h' (zip ptrs xs) cur \<and> same_setup h h'"
  then obtain h' where h': "r = Done h'" "ob_inv h' (zip ptrs xs) cur" "alignment_mask h' = alignment_mask h"
    by (auto simp: same_setup_mask)
  from finish_step [OF h'(2) assms(2)] show ?thesis using h'(1,3) by (auto simp: ends_well_def)
qed

lemma simple_ends_well:
  assumes "r = Exhausted \<or> (\<exists>h'. r = Done h' \<and> ob_inv h' (zip ptrs xs) cur \<and> same_setup h h')" and "length ptrs = length xs"
  shows "ends_well (andthen r (\<lambda>h. Done (h, ptrs))) (xs, cur) (alignment_mask h)"
  using assms by (auto simp: ends_well_def represents_def same_setup_mask)

lemma store_step:
  assumes inv: "ob_inv h (zip ptrs xs) cur" and len: "length ptrs = length xs" and k: "k < length xs" "length s = length (xs ! k)"
  shows "ends_well (store h ptrs (ptrs ! k) s) (xs[k := s], cur) (alignment_mask h)"
proof -
  have z: "k < length (zip ptrs xs)" "zip ptrs xs ! k = (ptrs ! k, xs ! k)" using len k(1) by simp_all
  have upd: "(zip ptrs xs)[k := (ptrs ! k, s)] = zip ptrs (xs[k := s])"
    using len k(1) by (metis list_update_id zip_update)
  from write_object_ok [OF inv z k(2)] obtain cs where "write_mem (chain h) (ptrs ! k) s = Done cs"
    "ob_inv (h\<lparr>chain := cs\<rparr>) (zip ptrs (xs[k := s])) cur" unfolding upd by blast
  then show ?thesis using len by (simp add: store_def ends_well_def represents_def)
qed

lemma alloc_step:
  assumes f: "chunk_allocator f" and inv: "ob_inv h (zip ptrs xs) []" and len: "length ptrs = length xs"
  shows "ends_well (ob_step f (h, ptrs) (Alloc s)) (s # xs, []) (alignment_mask h)"
proof -
  consider "obstack_blank f h (length s) = Exhausted"
    | h' t where "obstack_blank f h (length s) = Done h'" "ob_inv h' (zip ptrs xs) t" "length t = length s" "same_setup h h'"
    using blank_ok [OF f inv, of "length s"] by auto
  then show ?thesis
  proof cases
    case 1
    then show ?thesis by (simp add: obstack_alloc_def keep_def)
  next
    case 2
    from finish_step [OF 2(2) len] obtain h2 where h2: "keep ptrs (obstack_finish h') = Done (h2, object_base h' # ptrs)"
      "represents (h2, object_base h' # ptrs) (t # xs, []) (alignment_mask h')" by blast
    from h2(2) have r: "ob_inv h2 (zip (object_base h' # ptrs) (t # xs)) []" "alignment_mask h2 = alignment_mask h'"
      by (simp_all add: represents_def)
    have "ends_well (store h2 (object_base h' # ptrs) ((object_base h' # ptrs) ! 0) s) ((t # xs)[0 := s], []) (alignment_mask h2)"
      by (rule store_step [OF r(1)]) (use 2(3) len in simp_all)
    then show ?thesis using h2(1) 2(1) r(2) same_setup_mask [OF 2(4)] by (simp add: obstack_alloc_def)
  qed
qed

lemma step_ends_well:
  assumes f: "chunk_allocator f" and st: "represents st sp m" and step: "stack_step sp p = Some sp'"
  shows "ends_well (ob_step f st p) sp' m"
proof -
  obtain h ptrs xs cur where s: "st = (h, ptrs)" "sp = (xs, cur)" by (metis surj_pair)
  have inv: "ob_inv h (zip ptrs xs) cur" and len: "length ptrs = length xs" and m: "m = alignment_mask h"
    using st s by (auto simp: represents_def)
  show ?thesis
  proof (cases p)
    case (Grow bs)
    then show ?thesis using simple_ends_well [OF obstack_grow_ok [OF f inv] len] step s m by auto
  next
    case (Grow0 bs)
    then show ?thesis using simple_ends_well [OF grow0_ok [OF f inv] len] step s m by auto
  next
    case (OneGrow c)
    then show ?thesis using simple_ends_well [OF obstack_grow_ok [OF f inv] len] step s m by (auto simp: grow1_as_grow)
  next
    case (MakeRoom n)
    have "obstack_make_room f h n = Exhausted \<or> (\<exists>h'. obstack_make_room f h n = Done h' \<and> ob_inv h' (zip ptrs xs) cur \<and> same_setup h h')"
      using room_for_ok [OF f inv] unfolding make_room_for by blast
    then show ?thesis using simple_ends_well [OF _ len] step s m MakeRoom by auto
  next
    case Finish
    then show ?thesis using finish_step [OF inv len] step s m by (auto simp: ends_well_def)
  next
    case (Alloc t)
    then show ?thesis using alloc_step [OF f _ len, of h t] inv step s m by (auto split: if_splits simp del: ob_step.simps)
  next
    case (Copy bs)
    then show ?thesis using finish_ends_well [OF obstack_grow_ok [OF f inv] len] step s m by (auto simp: obstack_copy_def)
  next
    case (Copy0 bs)
    then show ?thesis using finish_ends_well [OF grow0_ok [OF f inv] len] step s m by (auto simp: obstack_copy0_def)
  next
    case (Store k t)
    then have "k < length xs" "length t = length (xs ! k)" "sp' = (xs[k := t], cur)" using step s by (auto split: if_splits)
    then show ?thesis using store_step [OF inv len] Store s m by simp
  next
    case (Free k)
    then have k: "k < length xs" "sp' = (drop (Suc k) xs, [])" using step s by (auto split: if_splits)
    then have "k < length (zip ptrs xs)" "fst (zip ptrs xs ! k) = ptrs ! k" using len by simp_all
    with free_ok [OF inv] obtain h' where "obstack_free h (ptrs ! k) = Done h'" "ob_inv h' (drop (Suc k) (zip ptrs xs)) []"
      "same_setup h h'" by metis
    then show ?thesis using Free s m k len by (simp add: ends_well_def represents_def same_setup_mask drop_zip)
  qed
qed

lemma run_ends_well:
  "chunk_allocator f \<Longrightarrow> represents st sp m \<Longrightarrow> stack_run sp ps = Some sp' \<Longrightarrow> ends_well (ob_run f st ps) sp' m"
proof (induction ps arbitrary: st sp)
  case Nil
  then show ?case by (simp add: ends_well_def)
next
  case (Cons p ps)
  then obtain sp1 where a: "stack_step sp p = Some sp1" "stack_run sp1 ps = Some sp'" by (auto split: option.splits)
  from step_ends_well [OF Cons.prems(1,2) a(1)] consider "ob_step f st p = Exhausted"
    | st1 where "ob_step f st p = Done st1" "represents st1 sp1 m" by (auto simp: ends_well_def)
  then show ?case
  proof cases
    case 1
    then show ?thesis by simp
  next
    case 2
    then show ?thesis using Cons.IH [OF Cons.prems(1) 2(2) a(2)] by simp
  qed
qed


text \<open>C38: What an obstack is for. If \<open>chunkfun\<close> returns non-null blocks apart from the live chunks, then from
  \<open>obstack_begin\<close> on every client that keeps the rules either ends in the failure handler or gets what it should: each
  object not freed is intact and aligned at the address the client was given, through every \<open>obstack_newchunk\<close>,
  overwrite and free, and so is the object growing. No operation aborts or touches memory outside the chunks.\<close>

theorem obstack_refines_stack:
  assumes f: "chunk_allocator f" and sz: "CONTENTS + (2 ^ k - 1) \<le> size1"
    and legal: "stack_run ([], []) ps = Some (xs, cur)"
  shows "obstack_begin f size1 (2 ^ k) = Exhausted \<or> (\<exists>h. obstack_begin f size1 (2 ^ k) = Done h \<and>
    (ob_run f (h, []) ps = Exhausted \<or> (\<exists>h' ptrs. ob_run f (h, []) ps = Done (h', ptrs) \<and> length ptrs = length xs
      \<and> (\<forall>i < length xs. read_mem (chain h') (ptrs ! i) (length (xs ! i)) = Done (xs ! i) \<and> (xs ! i \<noteq> [] \<longrightarrow> 2 ^ k dvd ptrs ! i))
      \<and> read_mem (chain h') (object_base h') (length cur) = Done cur \<and> obstack_object_size h' = length cur)))"
proof -
  have mk: "mask_ok (2 ^ k - 1)" by (auto simp: mask_ok_def)
  have "obstack_begin f size1 (2 ^ k) = Exhausted \<or>
      (\<exists>h. obstack_begin f size1 (2 ^ k) = Done h \<and> ob_inv h [] [] \<and> alignment_mask h = 2 ^ k - 1)"
    unfolding obstack_begin_def by (rule begin_ok [OF f mk sz]) (use sz in \<open>simp_all add: CONTENTS_def\<close>)
  moreover have "ob_run f (h, []) ps = Exhausted \<or> (\<exists>h' ptrs. ob_run f (h, []) ps = Done (h', ptrs) \<and> length ptrs = length xs
      \<and> (\<forall>i < length xs. read_mem (chain h') (ptrs ! i) (length (xs ! i)) = Done (xs ! i) \<and> (xs ! i \<noteq> [] \<longrightarrow> 2 ^ k dvd ptrs ! i))
      \<and> read_mem (chain h') (object_base h') (length cur) = Done cur \<and> obstack_object_size h' = length cur)"
    if h: "ob_inv h [] []" "alignment_mask h = 2 ^ k - 1" for h
  proof -
    have "represents (h, []) ([], []) (2 ^ k - 1)" using h by (simp add: represents_def)
    from run_ends_well [OF f this legal] consider "ob_run f (h, []) ps = Exhausted"
      | h' ptrs where "ob_run f (h, []) ps = Done (h', ptrs)" "represents (h', ptrs) (xs, cur) (2 ^ k - 1)"
      by (auto simp: ends_well_def)
    then show ?thesis
    proof cases
      case 2
      then have r: "length ptrs = length xs" "ob_inv h' (zip ptrs xs) cur" "alignment_mask h' = 2 ^ k - 1"
        by (simp_all add: represents_def)
      have "read_mem (chain h') (ptrs ! i) (length (xs ! i)) = Done (xs ! i) \<and> (xs ! i \<noteq> [] \<longrightarrow> 2 ^ k dvd ptrs ! i)"
        if "i < length xs" for i
      proof -
        have "(ptrs ! i, xs ! i) \<in> set (zip ptrs xs)" using that r(1) by (auto simp: set_zip)
        from objects_readable(1) [OF r(2) this] show ?thesis unfolding r(3) by simp
      qed
      moreover have "obstack_object_size h' = length cur"
      proof -
        have "object_base h' + length cur = next_free h'" using r(2) unfolding ob_inv_def parts_ok_def by blast
        then show ?thesis unfolding obstack_object_size_def by linarith
      qed
      ultimately show ?thesis using 2(1) r(1) objects_readable(2) [OF r(2)] by blast
    qed simp
  qed
  ultimately show ?thesis by blast
qed

text \<open>An allocator that never reuses memory, and never fails.\<close>

definition bump :: chunkfun where
  "bump arg live n = Some (foldr (\<lambda>b p. max (snd b) p) live 16)"

lemma bump_beyond: "b \<in> set live \<Longrightarrow> snd b \<le> foldr (\<lambda>b p. max (snd b) p) live (q :: nat)"
  by (induction live) auto

lemma bump_allocator: "chunk_allocator bump"
proof -
  have "0 < foldr (\<lambda>b p. max (snd b) p) live (16 :: nat)" for live :: "(nat \<times> nat) list"
    by (induction live) auto
  moreover have "e \<le> foldr (\<lambda>b p. max (snd b) p) live 16" if "(b, e) \<in> set live" for live :: "(nat \<times> nat) list" and b e
    using bump_beyond [OF that] by simp
  ultimately show ?thesis by (auto simp: chunk_allocator_def bump_def)
qed

lemma bump_never_fails: "bump arg live n \<noteq> None"
  by (simp add: bump_def)

definition client :: "ob_op list" where
  "client = [Copy ''abc'', Grow ''hello '', Grow0 ''world'', Finish, Alloc ''xyz'', Free 0, OneGrow CHR ''c'']"

lemma client_legal: "stack_run ([], []) client = Some ([''hello world'' @ [NUL], ''abc''], ''c'')"
  by (simp add: client_def)

lemma client_ends:
  "case obstack_begin bump 40 (2 ^ 3) of
     Done h \<Rightarrow> (case ob_run bump (h, []) client of Done (h', ptrs) \<Rightarrow> length (chain h') = 2 | _ \<Rightarrow> False)
   | _ \<Rightarrow> False"
  by code_simp

theorem obstack_refines_stack_witness:
  "\<exists>h h' ptrs. obstack_begin bump 40 (2 ^ 3) = Done h \<and> ob_run bump (h, []) client = Done (h', ptrs)
     \<and> read_mem (chain h') (ptrs ! 1) 3 = Done ''abc'' \<and> 8 dvd ptrs ! 1
     \<and> read_mem (chain h') (ptrs ! 0) 12 = Done (''hello world'' @ [NUL]) \<and> length (chain h') = 2
     \<and> read_mem (chain h') (object_base h') 1 = Done ''c''"
proof -
  have sz: "CONTENTS + (2 ^ 3 - 1) \<le> 40" by (simp add: CONTENTS_def)
  from client_ends obtain h h' ptrs where r: "obstack_begin bump 40 (2 ^ 3) = Done h"
    "ob_run bump (h, []) client = Done (h', ptrs)" "length (chain h') = 2"
    by (auto split: outcome.splits prod.splits)
  have "\<forall>i < length [''hello world'' @ [NUL], ''abc'']. read_mem (chain h') (ptrs ! i) (length ([''hello world'' @ [NUL], ''abc''] ! i))
      = Done ([''hello world'' @ [NUL], ''abc''] ! i) \<and> ([''hello world'' @ [NUL], ''abc''] ! i \<noteq> [] \<longrightarrow> 2 ^ 3 dvd ptrs ! i)"
    and c: "read_mem (chain h') (object_base h') (length ''c'') = Done ''c''"
    using obstack_refines_stack [OF bump_allocator sz client_legal] r(1,2) by auto
  note all = this(1)
  have "1 < length [''hello world'' @ [NUL], ''abc'']" "0 < length [''hello world'' @ [NUL], ''abc'']" by simp_all
  note i = all [rule_format, OF this(1)] all [rule_format, OF this(2)]
  have "read_mem (chain h') (ptrs ! 1) 3 = Done ''abc'' \<and> 8 dvd ptrs ! 1"
    and "read_mem (chain h') (ptrs ! 0) 12 = Done (''hello world'' @ [NUL])" and "read_mem (chain h') (object_base h') 1 = Done ''c''"
    using i c by (simp_all add: eval_nat_numeral)
  with r show ?thesis by blast
qed

end
