(* ===== verification/Argz.thy ===== *)
theory Argz
  imports Prelude
begin

text \<open>
  The argz vectors of src/src/argz: NUL-terminated entries packed one after another in one
  block. The caller's two variables \<open>*argz\<close> and \<open>*argz_len\<close> are the record \<open>argz\<close>; a
  pointer into the vector is its offset. The definitions follow the eleven source files in
  order; \<open>argz_rep\<close> is the abstraction (the list of entries a vector stands for), and the
  lemmas show each operation to be the list operation it is meant to be.
\<close>

record argz =
  argz_buf :: "char list option"
  argz_len :: nat

type_synonym argz_result = "(errno \<times> argz \<times> answers) option"

section \<open>Operations\<close>

subsection \<open>argz-append.c\<close>

definition argz_append :: "argz \<Rightarrow> char list \<Rightarrow> answers \<Rightarrow> argz_result" where
  "argz_append a buf os =
     (let new_len = size_add (argz_len a) (length buf); (ok, os) = alloc os
      in if ok then
           do { b \<leftarrow> mem_write (mem_realloc (argz_buf a) new_len) (argz_len a) buf;
                Some (NOERR, a\<lparr>argz_buf := Some b, argz_len := new_len\<rparr>, os) }
         else Some (ENOMEM, a, os))"

definition argz_add :: "argz \<Rightarrow> string \<Rightarrow> answers \<Rightarrow> argz_result" where
  "argz_add a str os = argz_append a (str @ [NUL]) os"

subsection \<open>argz-addsep.c and argz-ctsep.c\<close>

text \<open>
  The copying loop both files have: \<open>rp\<close> runs over the string and its terminator, \<open>wp\<close> is
  the write offset, \<open>nlen\<close> the length still expected. A delimiter ends the entry being
  written, or is dropped when no entry is open.
\<close>

definition sep_open :: "char list \<Rightarrow> nat \<Rightarrow> bool option" where
  "sep_open b wp =
     (if 0 < wp then map_option (\<lambda>x. x \<noteq> NUL) (mem_read b (wp - 1)) else Some False)"

fun sep_loop :: "int \<Rightarrow> char list \<Rightarrow> char list \<Rightarrow> nat \<Rightarrow> nat \<Rightarrow> (char list \<times> nat) option" where
  "sep_loop delim [] b wp nlen = Some (b, nlen)"
| "sep_loop delim (c # rp) b wp nlen =
     (if schar c = delim then
        do { open \<leftarrow> sep_open b wp;
             if open then do { b \<leftarrow> mem_write b wp [NUL]; sep_loop delim rp b (wp + 1) nlen }
             else sep_loop delim rp b wp (size_sub nlen 1) }
      else do { b \<leftarrow> mem_write b wp [c]; sep_loop delim rp b (wp + 1) nlen })"

definition argz_add_sep :: "argz \<Rightarrow> string \<Rightarrow> int \<Rightarrow> answers \<Rightarrow> argz_result" where
  "argz_add_sep a str delim os =
     (let nlen = size_add (length str) 1
      in if 1 < nlen then
           let (ok, os) = alloc os
           in if ok then
                do { (b, nlen) \<leftarrow> sep_loop delim (str @ [NUL])
                       (mem_realloc (argz_buf a) (size_add (argz_len a) nlen)) (argz_len a) nlen;
                     Some (NOERR, a\<lparr>argz_buf := Some b,
                                      argz_len := size_add (argz_len a) nlen\<rparr>, os) }
              else Some (ENOMEM, a\<lparr>argz_buf := None\<rparr>, os)
         else Some (NOERR, a, os))"

definition argz_create_sep :: "argz \<Rightarrow> string \<Rightarrow> int \<Rightarrow> answers \<Rightarrow> argz_result" where
  "argz_create_sep a str delim os =
     (let nlen = size_add (length str) 1
      in if 1 < nlen then
           let (ok, os) = alloc os
           in if ok then
                do { (b, nlen) \<leftarrow> sep_loop delim (str @ [NUL]) (mem_realloc None nlen) 0 nlen;
                     Some (NOERR, (if nlen = 0 then a\<lparr>argz_buf := None, argz_len := nlen\<rparr>
                                    else a\<lparr>argz_buf := Some b, argz_len := nlen\<rparr>), os) }
              else Some (ENOMEM, a\<lparr>argz_buf := None\<rparr>, os)
         else Some (NOERR, a\<lparr>argz_buf := None, argz_len := 0\<rparr>, os))"

subsection \<open>argz-count.c and argz-extract.c\<close>

text \<open>
  Both walk the entries by \<open>strlen\<close>; the offset grows at every step and stays inside the
  block, which is the termination argument.
\<close>

function argz_count_loop :: "char list \<Rightarrow> nat \<Rightarrow> nat \<Rightarrow> nat \<Rightarrow> nat option" where
  "argz_count_loop b argz len count =
     (if 0 < len then
        case c_strlen b argz of None \<Rightarrow> None
        | Some part_len \<Rightarrow>
            argz_count_loop b (argz + part_len + 1) (size_sub len (part_len + 1)) (count + 1)
      else Some count)"
  by pat_completeness auto
termination
  by (relation "measure (\<lambda>(b, argz, len, count). length b - argz)")
     (auto dest: c_strlen_bound)

definition argz_count :: "char list \<Rightarrow> nat \<Rightarrow> nat option" where
  "argz_count b len = argz_count_loop b 0 len 0"

text \<open>The result is the array \<open>argv\<close> before its final NULL, pointers being offsets.\<close>

function argz_extract_loop :: "char list \<Rightarrow> nat \<Rightarrow> nat \<Rightarrow> nat list \<Rightarrow> nat list option" where
  "argz_extract_loop b argz len argv =
     (if 0 < len then
        case c_strlen b argz of None \<Rightarrow> None
        | Some part_len \<Rightarrow>
            argz_extract_loop b (argz + part_len + 1) (size_sub len (part_len + 1)) (argv @ [argz])
      else Some argv)"
  by pat_completeness auto
termination
  by (relation "measure (\<lambda>(b, argz, len, argv). length b - argz)")
     (auto dest: c_strlen_bound)

definition argz_extract :: "char list \<Rightarrow> nat \<Rightarrow> nat list option" where
  "argz_extract b len = argz_extract_loop b 0 len []"

subsection \<open>argz-create.c\<close>

fun create_len :: "string list \<Rightarrow> nat \<Rightarrow> nat" where
  "create_len [] tlen = tlen"
| "create_len (s # argv) tlen = create_len argv (size_add tlen (length s + 1))"

text \<open>\<open>stpcpy\<close> copies the terminator as well and returns its address; \<open>++p\<close> steps over it.\<close>

fun create_copy :: "string list \<Rightarrow> char list \<Rightarrow> nat \<Rightarrow> char list option" where
  "create_copy [] b p = Some b"
| "create_copy (s # ap) b p =
     do { b \<leftarrow> mem_write b p (s @ [NUL]); create_copy ap b (p + length s + 1) }"

definition argz_create :: "argz \<Rightarrow> string list \<Rightarrow> answers \<Rightarrow> argz_result" where
  "argz_create a argv os =
     (let tlen = create_len argv 0
      in if tlen = 0 then Some (NOERR, a\<lparr>argz_buf := None, argz_len := tlen\<rparr>, os)
         else let (ok, os) = alloc os
              in if ok then
                   do { b \<leftarrow> create_copy argv (mem_realloc None tlen) 0;
                        Some (NOERR, a\<lparr>argz_buf := Some b, argz_len := tlen\<rparr>, os) }
                 else Some (ENOMEM, a\<lparr>argz_buf := None\<rparr>, os))"

subsection \<open>argz-delete.c\<close>

definition argz_delete :: "argz \<Rightarrow> nat option \<Rightarrow> argz option" where
  "argz_delete a entry = (case entry of
      None \<Rightarrow> Some a
    | Some entry \<Rightarrow>
        do { b \<leftarrow> argz_buf a;
             n \<leftarrow> c_strlen b entry;
             let entry_len = n + 1;
             let len = size_sub (argz_len a) entry_len;
             b \<leftarrow> mem_move b entry (entry + entry_len) (size_sub len entry);
             Some (if len = 0 then a\<lparr>argz_buf := None, argz_len := len\<rparr>
                   else a\<lparr>argz_buf := Some b, argz_len := len\<rparr>) })"

subsection \<open>argz-insert.c\<close>

text \<open>Back to the start of an entry. The first byte of the block is read unconditionally.\<close>

fun insert_back :: "char list \<Rightarrow> nat \<Rightarrow> nat option" where
  "insert_back b 0 = None"
| "insert_back b (Suc before) =
     (case mem_read b before of None \<Rightarrow> None
      | Some c \<Rightarrow> if c \<noteq> NUL then insert_back b before else Some (Suc before))"

definition argz_insert :: "argz \<Rightarrow> int option \<Rightarrow> string \<Rightarrow> answers \<Rightarrow> argz_result" where
  "argz_insert a before entry os = (case before of
      None \<Rightarrow> argz_add a entry os
    | Some bp \<Rightarrow>
        if bp < 0 \<or> int (argz_len a) \<le> bp then Some (EINVAL, a, os)
        else
          do { b \<leftarrow> argz_buf a;
               bf \<leftarrow> (if 0 < bp then insert_back b (nat bp) else Some (nat bp));
               let after_before = size_sub (argz_len a) bf;
               let entry_len = size_add (length entry) 1;
               let new_len = size_add (argz_len a) entry_len;
               let (ok, os) = alloc os;
               if ok then
                 do { nb \<leftarrow> mem_move (mem_realloc (Some b) new_len) (bf + entry_len) bf after_before;
                      nb \<leftarrow> mem_write nb bf (entry @ [NUL]);
                      Some (NOERR, a\<lparr>argz_buf := Some nb, argz_len := new_len\<rparr>, os) }
               else Some (ENOMEM, a, os) })"

subsection \<open>argz-next.c\<close>

definition argz_next :: "char list \<Rightarrow> nat \<Rightarrow> nat option \<Rightarrow> nat option option" where
  "argz_next b len entry = (case entry of
      Some e \<Rightarrow>
        if e < len then
          do { n \<leftarrow> c_strlen b e;
               let e = e + n + 1;
               Some (if len \<le> e then None else Some e) }
        else Some None
    | None \<Rightarrow> Some (if 0 < len then Some 0 else None))"

subsection \<open>argz-stringify.c\<close>

function stringify_loop :: "char \<Rightarrow> char list \<Rightarrow> nat \<Rightarrow> nat \<Rightarrow> char list option" where
  "stringify_loop sep b argz len =
     (let part_len = length (takeWhile (\<lambda>c. c \<noteq> NUL) (take len (drop argz b)));
          argz = argz + part_len; len = len - part_len
      in if len \<le> 1 then Some b
         else case mem_write b argz [sep] of None \<Rightarrow> None
              | Some b \<Rightarrow> stringify_loop sep b (argz + 1) (len - 1))"
  by pat_completeness auto
termination
  by (relation "measure (\<lambda>(sep, b, argz, len). len)") auto

definition argz_stringify :: "char list \<Rightarrow> nat \<Rightarrow> char \<Rightarrow> char list option" where
  "argz_stringify b len sep = (if 0 < len then stringify_loop sep b 0 len else Some b)"

subsection \<open>argz-replace.c\<close>

text \<open>\<open>None\<close> is the NULL pointer a failed reallocation leaves behind.\<close>

definition str_append :: "string \<Rightarrow> char list \<Rightarrow> answers \<Rightarrow> string option \<times> answers" where
  "str_append to buf os = (let (ok, os) = alloc os in (if ok then Some (to @ buf) else None, os))"

text \<open>
  The inner loop \<open>while (to && from)\<close>, entered with \<open>from\<close> just behind a match. The searched
  string is \<open>s # tr\<close>: the caller has checked that it is not empty, so \<open>from\<close> shrinks.
\<close>

function replace_in :: "char \<Rightarrow> string \<Rightarrow> string \<Rightarrow> string \<Rightarrow> string \<Rightarrow> answers
    \<Rightarrow> string option \<times> answers" where
  "replace_in s tr subst to from os =
     (case str_append to subst os of
        (None, os) \<Rightarrow> (None, os)
      | (Some to, os) \<Rightarrow>
          (case c_strstr from (s # tr) of
             Some m \<Rightarrow>
               (case str_append to (take m from) os of
                  (None, os) \<Rightarrow> (None, os)
                | (Some to, os) \<Rightarrow>
                    replace_in s tr subst to (drop (m + length (s # tr)) from) os)
           | None \<Rightarrow> str_append to from os))"
  by pat_completeness auto
termination
  by (relation "measure (\<lambda>(s, tr, subst, to, from, os). length from)")
     (auto dest!: c_strstr_bound)

function replace_loop :: "char \<Rightarrow> string \<Rightarrow> string \<Rightarrow> char list \<Rightarrow> nat \<Rightarrow> nat option \<Rightarrow> argz \<Rightarrow> bool
    \<Rightarrow> nat option \<Rightarrow> answers \<Rightarrow> (errno \<times> argz \<times> bool \<times> nat option \<times> answers) option" where
  "replace_loop s tr subst src src_len arg dst delayed count os =
     (case argz_next src src_len arg of
        None \<Rightarrow> None
      | Some None \<Rightarrow> Some (NOERR, dst, delayed, count, os)
      | Some (Some arg) \<Rightarrow> do { a \<leftarrow> cstr_at src arg;
          (case c_strstr a (s # tr) of
             Some m \<Rightarrow>
               (let (ok, os) = alloc os;
                    (to, os) = (if ok then replace_in s tr subst (take m a)
                                             (drop (m + length (s # tr)) a) os
                                else (None, os));
                    count' = map_option (\<lambda>c. (c + 1) mod 2 ^ 32) count
                in case to of
                     None \<Rightarrow> Some (ENOMEM, dst, delayed, count', os)
                   | Some t \<Rightarrow>
                       do { (err, dst, os) \<leftarrow>
                              (if delayed \<and> 0 < arg then argz_append dst (take arg src) os
                               else Some (NOERR, dst, os));
                            (err, dst, os) \<leftarrow>
                              (if err = NOERR then argz_add dst t os else Some (err, dst, os));
                            if err = NOERR
                            then replace_loop s tr subst src src_len (Some arg) dst False count' os
                            else Some (err, dst, False, count', os) })
           | None \<Rightarrow>
               if delayed then replace_loop s tr subst src src_len (Some arg) dst delayed count os
               else do { (err, dst, os) \<leftarrow> argz_add dst a os;
                         if err = NOERR
                         then replace_loop s tr subst src src_len (Some arg) dst delayed count os
                         else Some (err, dst, delayed, count, os) }) })"
  by pat_completeness auto
termination
  by (relation "measure (\<lambda>(s, tr, subst, src, src_len, arg, dst, delayed, count, os).
        case arg of None \<Rightarrow> Suc src_len | Some e \<Rightarrow> src_len - e)")
     (auto simp: argz_next_def Let_def split: option.splits if_splits bind_splits)

definition argz_replace :: "argz \<Rightarrow> string option \<Rightarrow> string \<Rightarrow> nat option \<Rightarrow> answers
    \<Rightarrow> (errno \<times> argz \<times> nat option \<times> answers) option" where
  "argz_replace a str subst count os = (case str of
      Some (s # tr) \<Rightarrow>
        do { (err, dst, delayed, count, os) \<leftarrow>
               replace_loop s tr subst (case argz_buf a of None \<Rightarrow> [] | Some b \<Rightarrow> b) (argz_len a)
                 None \<lparr>argz_buf = None, argz_len = 0\<rparr> True count os;
             Some (err, (if err = NOERR \<and> \<not> delayed
                         then a\<lparr>argz_buf := argz_buf dst, argz_len := argz_len dst\<rparr> else a),
                   count, os) }
    | _ \<Rightarrow> Some (NOERR, a, count, os))"

declare replace_in.simps [simp del] replace_loop.simps [simp del] argz_count_loop.simps [simp del] argz_extract_loop.simps [simp del]
  stringify_loop.simps [simp del]

section \<open>The entries of a vector\<close>

definition argz_join :: "string list \<Rightarrow> char list" where
  "argz_join es = concat (map (\<lambda>s. s @ [NUL]) es)"

definition nul_free :: "string list \<Rightarrow> bool" where
  "nul_free es \<longleftrightarrow> (\<forall>s \<in> set es. NUL \<notin> set s)"

text \<open>
  \<open>argz_rep a es\<close>: the vector holds exactly the entries \<open>es\<close>. The block may be longer than
  \<open>argz_len\<close> (argz_create_sep allocates for the whole string).
\<close>

definition argz_mem :: "argz \<Rightarrow> char list" where
  "argz_mem a = (case argz_buf a of None \<Rightarrow> [] | Some b \<Rightarrow> b)"

definition argz_rep :: "argz \<Rightarrow> string list \<Rightarrow> bool" where
  "argz_rep a es \<longleftrightarrow> nul_free es \<and> argz_len a = length (argz_join es) \<and> argz_len a < 2 ^ 64 \<and>
     take (argz_len a) (argz_mem a) = argz_join es"

text \<open>The offset at which entry \<open>i\<close> starts.\<close>

definition entry_off :: "string list \<Rightarrow> nat \<Rightarrow> nat" where
  "entry_off es i = length (argz_join (take i es))"

lemma argz_join_simps [simp]:
  "argz_join [] = []" "argz_join (s # es) = s @ NUL # argz_join es"
  "argz_join (es @ fs) = argz_join es @ argz_join fs"
  by (simp_all add: argz_join_def)

lemma argz_join_eq_Nil [simp]: "argz_join es = [] \<longleftrightarrow> es = []"
  by (cases es) simp_all

lemma nul_free_simps [simp]:
  "nul_free []" "nul_free (s # es) \<longleftrightarrow> NUL \<notin> set s \<and> nul_free es"
  "nul_free (es @ fs) \<longleftrightarrow> nul_free es \<and> nul_free fs"
  by (auto simp: nul_free_def)

lemma argz_rep_mem:
  assumes "argz_rep a es"
  obtains rest where "argz_mem a = argz_join es @ rest"
  using assms unfolding argz_rep_def by (metis append_take_drop_id)

lemma argz_rep_len: "argz_rep a es \<Longrightarrow> argz_len a = length (argz_join es)"
  by (simp add: argz_rep_def)

lemma argz_rep_nul_free: "argz_rep a es \<Longrightarrow> nul_free es"
  by (simp add: argz_rep_def)

lemma argz_rep_bound: "argz_rep a es \<Longrightarrow> argz_len a < 2 ^ 64"
  by (simp add: argz_rep_def)

lemma argz_repI:
  "nul_free es \<Longrightarrow> argz_len a = length (argz_join es) \<Longrightarrow> argz_len a < 2 ^ 64
    \<Longrightarrow> argz_mem a = argz_join es @ rest \<Longrightarrow> argz_rep a es"
  by (simp add: argz_rep_def)

lemma argz_mem_upd [simp]:
  "argz_mem (a\<lparr>argz_buf := Some b\<rparr>) = b" "argz_mem (a\<lparr>argz_buf := None\<rparr>) = []"
  "argz_mem (a\<lparr>argz_len := n\<rparr>) = argz_mem a"
  by (simp_all add: argz_mem_def)

lemma argz_rep_empty: "argz_rep \<lparr>argz_buf = None, argz_len = 0\<rparr> []"
  by (simp add: argz_rep_def argz_mem_def)

lemma argz_realloc:
  assumes "argz_rep a es" and "argz_len a \<le> n"
  obtains junk where "mem_realloc (argz_buf a) n = argz_join es @ junk"
    and "length junk = n - argz_len a"
proof
  let ?b = "mem_realloc (argz_buf a) n"
  have "take (argz_len a) ?b = argz_join es"
  proof (cases "argz_buf a")
    case None
    with assms have "argz_join es = []" by (simp add: argz_rep_def argz_mem_def)
    with assms show ?thesis by (simp add: argz_rep_def)
  next
    case (Some b)
    with assms have "take (argz_len a) b = argz_join es" "argz_len a \<le> length b"
      by (auto simp: argz_rep_def argz_mem_def) (metis length_take min.cobounded1)
    with Some assms show ?thesis by (simp add: mem_realloc_def min_absorb1)
  qed
  then show "?b = argz_join es @ drop (argz_len a) ?b"
    by (metis append_take_drop_id)
  show "length (drop (argz_len a) ?b) = n - argz_len a" by simp
qed

text \<open>A vector stands for one list of entries only.\<close>

lemma entry_split:
  assumes "NUL \<notin> set s" and "NUL \<notin> set t" and eq: "s @ NUL # x = t @ NUL # y"
  shows "s = t \<and> x = y"
proof -
  have "s = takeWhile (\<lambda>c. c \<noteq> NUL) (s @ NUL # x)" using assms(1) by simp
  also have "\<dots> = t" unfolding eq using assms(2) by simp
  finally have "s = t" .
  with eq show ?thesis by simp
qed

lemma argz_join_inject:
  "nul_free es \<Longrightarrow> nul_free fs \<Longrightarrow> argz_join es = argz_join fs \<Longrightarrow> es = fs"
proof (induction es arbitrary: fs)
  case Nil
  then have "argz_join fs = []" by simp
  then show ?case by simp
next
  case (Cons s es)
  then obtain t ts where fs: "fs = t # ts" by (cases fs) auto
  with Cons.prems entry_split [of s t "argz_join es" "argz_join ts"]
  have st: "s = t" and joins: "argz_join es = argz_join ts" by simp_all
  have "es = ts" by (rule Cons.IH) (use Cons.prems fs joins in simp_all)
  with st fs show ?case by simp
qed

section \<open>Appending\<close>

lemma argz_append_rep:
  assumes rep: "argz_rep a es" and "nul_free fs"
    and fits: "argz_len a + length (argz_join fs) < 2 ^ 64" and ok: "alloc os = (True, os')"
  obtains a' where "argz_append a (argz_join fs) os = Some (NOERR, a', os')"
    and "argz_rep a' (es @ fs)"
proof -
  let ?n = "argz_len a + length (argz_join fs)"
  obtain junk where j: "mem_realloc (argz_buf a) ?n = argz_join es @ junk"
      "length junk = length (argz_join fs)"
    using argz_realloc [OF rep, of ?n] by auto
  have "mem_write (argz_join es @ junk) (argz_len a) (argz_join fs)
      = Some (argz_join es @ argz_join fs)"
    using mem_write_mid [of junk "argz_join fs" "argz_join es" "[]"] j rep
    by (simp add: argz_rep_len)
  with j fits ok have "argz_append a (argz_join fs) os
      = Some (NOERR, a\<lparr>argz_buf := Some (argz_join es @ argz_join fs), argz_len := ?n\<rparr>, os')"
    by (simp add: argz_append_def mem_simps)
  moreover have "argz_rep (a\<lparr>argz_buf := Some (argz_join es @ argz_join fs), argz_len := ?n\<rparr>) (es @ fs)"
    using rep assms(2) fits by (simp add: argz_rep_def)
  ultimately show ?thesis by (rule that)
qed

lemma argz_append_fail:
  "alloc os = (False, os') \<Longrightarrow> argz_append a buf os = Some (ENOMEM, a, os')"
  by (simp add: argz_append_def)

lemma argz_add_rep:
  assumes "argz_rep a es" and "NUL \<notin> set s" and "argz_len a + length s + 1 < 2 ^ 64"
    and "alloc os = (True, os')"
  obtains a' where "argz_add a s os = Some (NOERR, a', os')" and "argz_rep a' (es @ [s])"
  using argz_append_rep [of a es "[s]" os os'] assms by (auto simp: argz_add_def)

lemma argz_add_fail: "alloc os = (False, os') \<Longrightarrow> argz_add a s os = Some (ENOMEM, a, os')"
  by (simp add: argz_add_def argz_append_fail)

section \<open>Walking\<close>

lemma argz_count_loop_rep:
  assumes "nul_free es" and "b = pre @ argz_join es @ rest" and "length (argz_join es) < 2 ^ 64"
  shows "argz_count_loop b (length pre) (length (argz_join es)) n = Some (n + length es)"
  using assms
proof (induction es arbitrary: pre n)
  case Nil
  then show ?case by (simp add: argz_count_loop.simps)
next
  case (Cons s es)
  let ?len = "length (argz_join (s # es))"
  have strlen: "c_strlen b (length pre) = Some (length s)"
    using Cons.prems by (intro c_strlen_at) auto
  have "argz_count_loop b (length (pre @ s @ [NUL])) (length (argz_join es)) (n + 1)
      = Some (n + 1 + length es)"
    using Cons.prems by (intro Cons.IH) simp_all
  moreover have "size_sub ?len (length s + 1) = length (argz_join es)"
    using Cons.prems by (simp add: mem_simps)
  ultimately show ?case
    by (subst argz_count_loop.simps) (simp add: strlen)
qed

lemma argz_extract_loop_rep:
  assumes "nul_free es" and "b = pre @ argz_join es @ rest" and "length (argz_join es) < 2 ^ 64"
  shows "argz_extract_loop b (length pre) (length (argz_join es)) offs
      = Some (offs @ map (\<lambda>i. length pre + entry_off es i) [0..<length es])"
  using assms
proof (induction es arbitrary: pre offs)
  case Nil
  then show ?case by (simp add: argz_extract_loop.simps)
next
  case (Cons s es)
  let ?len = "length (argz_join (s # es))"
  have strlen: "c_strlen b (length pre) = Some (length s)"
    using Cons.prems by (intro c_strlen_at) auto
  have "argz_extract_loop b (length (pre @ s @ [NUL])) (length (argz_join es)) (offs @ [length pre])
      = Some ((offs @ [length pre]) @
          map (\<lambda>i. length (pre @ s @ [NUL]) + entry_off es i) [0..<length es])"
    using Cons.prems by (intro Cons.IH) simp_all
  moreover have "size_sub ?len (length s + 1) = length (argz_join es)"
    using Cons.prems by (simp add: mem_simps)
  moreover have "map (\<lambda>i. length pre + entry_off (s # es) i) [0..<length (s # es)]
      = length pre # map (\<lambda>i. length (pre @ s @ [NUL]) + entry_off es i) [0..<length es]"
    by (simp add: entry_off_def map_upt_Suc del: upt_Suc)
  ultimately show ?case
    by (subst argz_extract_loop.simps) (simp add: strlen del: upt_Suc)
qed

lemma argz_count_rep:
  assumes "argz_rep a es"
  shows "argz_count (argz_mem a) (argz_len a) = Some (length es)"
proof -
  obtain rest where "argz_mem a = argz_join es @ rest" using assms by (rule argz_rep_mem)
  with assms argz_count_loop_rep [of es "argz_mem a" "[]" rest 0] show ?thesis
    by (simp add: argz_count_def argz_rep_def)
qed

lemma argz_extract_rep:
  assumes "argz_rep a es"
  shows "argz_extract (argz_mem a) (argz_len a) = Some (map (entry_off es) [0..<length es])"
proof -
  obtain rest where "argz_mem a = argz_join es @ rest" using assms by (rule argz_rep_mem)
  with assms argz_extract_loop_rep [of es "argz_mem a" "[]" rest "[]"] show ?thesis
    by (simp add: argz_extract_def argz_rep_def)
qed

text \<open>The block around entry \<open>i\<close>.\<close>

lemma argz_rep_entry:
  assumes "argz_rep a es" and "i < length es"
  obtains pre rest where "argz_mem a = pre @ (es ! i) @ NUL # argz_join (drop (Suc i) es) @ rest"
    and "length pre = entry_off es i" and "pre = argz_join (take i es)" and "NUL \<notin> set (es ! i)"
proof -
  obtain rest where "argz_mem a = argz_join es @ rest" using assms(1) by (rule argz_rep_mem)
  moreover have "es = take i es @ es ! i # drop (Suc i) es" using assms(2) by (rule id_take_nth_drop)
  then have "argz_join es = argz_join (take i es) @ es ! i @ NUL # argz_join (drop (Suc i) es)"
    by (metis argz_join_simps(2,3))
  moreover have "NUL \<notin> set (es ! i)"
    using assms argz_rep_nul_free [OF assms(1)] by (simp add: nul_free_def)
  ultimately show ?thesis by (intro that [of "argz_join (take i es)" rest]) (simp_all add: entry_off_def)
qed

lemma argz_entry_at:
  assumes "argz_rep a es" and "i < length es"
  shows "cstr_at (argz_mem a) (entry_off es i) = Some (es ! i)"
    and "c_strlen (argz_mem a) (entry_off es i) = Some (length (es ! i))"
proof -
  obtain pre rest where "argz_mem a = pre @ (es ! i) @ NUL # argz_join (drop (Suc i) es) @ rest"
    and "length pre = entry_off es i" and "NUL \<notin> set (es ! i)"
    using assms by (rule argz_rep_entry)
  then show "cstr_at (argz_mem a) (entry_off es i) = Some (es ! i)"
    and "c_strlen (argz_mem a) (entry_off es i) = Some (length (es ! i))"
    by (auto intro!: cstr_at_at c_strlen_at)
qed

lemma entry_off_0 [simp]: "entry_off es 0 = 0"
  by (simp add: entry_off_def)

lemma entry_off_Suc: "i < length es \<Longrightarrow> entry_off es (Suc i) = entry_off es i + length (es ! i) + 1"
  by (simp add: entry_off_def take_Suc_conv_app_nth)

lemma entry_off_length [simp]: "entry_off es (length es) = length (argz_join es)"
  by (simp add: entry_off_def)

lemma entry_off_split:
  "length (argz_join es) = entry_off es i + length (argz_join (drop i es))"
  unfolding entry_off_def by (metis append_take_drop_id argz_join_simps(3) length_append)

lemma entry_off_less: "i < length es \<Longrightarrow> entry_off es i < length (argz_join es)"
  using entry_off_split [of es i] by simp

lemma argz_next_None_rep:
  "argz_rep a es \<Longrightarrow>
     argz_next (argz_mem a) (argz_len a) None = Some (if es = [] then None else Some (entry_off es 0))"
  by (cases es) (simp_all add: argz_next_def argz_rep_len)

lemma argz_next_Some_rep:
  assumes "argz_rep a es" and "i < length es"
  shows "argz_next (argz_mem a) (argz_len a) (Some (entry_off es i))
      = Some (if Suc i < length es then Some (entry_off es (Suc i)) else None)"
proof (cases "Suc i < length es")
  case True
  then show ?thesis
    using assms entry_off_less [of i es] entry_off_less [of "Suc i" es]
    by (simp add: argz_next_def argz_entry_at argz_rep_len entry_off_Suc)
next
  case False
  then have i: "length es = Suc i" using assms by simp
  have "entry_off es i + length (es ! i) + 1 = length (argz_join es)"
    using entry_off_Suc [OF assms(2)] entry_off_length [of es] i by simp
  then show ?thesis
    using assms entry_off_less [of i es] False
    by (simp add: argz_next_def argz_entry_at argz_rep_len)
qed

section \<open>Creating\<close>

lemma create_len_join:
  "t + length (argz_join argv) < 2 ^ 64 \<Longrightarrow> create_len argv t = t + length (argz_join argv)"
  by (induction argv arbitrary: t) (simp_all add: mem_simps)

lemma create_copy_join:
  "length junk = length (argz_join argv) \<Longrightarrow>
     create_copy argv (pre @ junk @ post) (length pre) = Some (pre @ argz_join argv @ post)"
proof (induction argv arbitrary: pre junk)
  case (Cons s argv)
  let ?j = "drop (length s + 1) junk"
  have "mem_write (pre @ junk @ post) (length pre) (s @ [NUL]) = Some (pre @ (s @ [NUL]) @ ?j @ post)"
    using Cons.prems mem_write_at [of "s @ [NUL]" "junk @ post" "length pre" pre] by simp
  moreover have "create_copy argv ((pre @ s @ [NUL]) @ ?j @ post) (length (pre @ s @ [NUL]))
      = Some ((pre @ s @ [NUL]) @ argz_join argv @ post)"
    using Cons.prems by (intro Cons.IH) simp
  ultimately show ?case by simp
qed simp

lemma argz_create_rep:
  assumes "nul_free argv" and fits: "length (argz_join argv) < 2 ^ 64"
    and ok: "alloc os = (True, os')"
  obtains a' os'' where "argz_create a argv os = Some (NOERR, a', os'')" and "argz_rep a' argv"
proof (cases argv)
  case Nil
  then have "argz_create a argv os = Some (NOERR, a\<lparr>argz_buf := None, argz_len := 0\<rparr>, os)"
    by (simp add: argz_create_def)
  then show ?thesis by (rule that) (simp add: Nil argz_rep_def argz_mem_def)
next
  case (Cons s ss)
  have len: "create_len argv 0 = length (argz_join argv)"
    using create_len_join [of 0 argv] fits by simp
  have "create_copy argv (mem_realloc None (length (argz_join argv))) 0 = Some (argz_join argv)"
    using create_copy_join [of "mem_realloc None (length (argz_join argv))" argv "[]" "[]"] by simp
  with len ok Cons have "argz_create a argv os = Some (NOERR,
      a\<lparr>argz_buf := Some (argz_join argv), argz_len := length (argz_join argv)\<rparr>, os')"
    by (simp add: argz_create_def)
  then show ?thesis by (rule that) (use assms in \<open>simp add: argz_rep_def\<close>)
qed

section \<open>Deleting and inserting\<close>

lemma argz_delete_rep:
  assumes rep: "argz_rep a es" and i: "i < length es"
  obtains a' where "argz_delete a (Some (entry_off es i)) = Some a'"
    and "argz_rep a' (take i es @ drop (Suc i) es)"
proof -
  obtain pre rest where mem: "argz_mem a = pre @ (es ! i) @ NUL # argz_join (drop (Suc i) es) @ rest"
      and pre: "length pre = entry_off es i" "pre = argz_join (take i es)"
    using argz_rep_entry [OF rep i] by metis
  let ?e = "es ! i @ [NUL]" and ?suf = "argz_join (drop (Suc i) es)"
  let ?len = "length (argz_join (take i es @ drop (Suc i) es))"
  have buf: "argz_buf a = Some (argz_mem a)"
    using mem by (cases "argz_buf a") (simp_all add: argz_mem_def)
  have alen: "argz_len a = length pre + length ?e + length ?suf"
    using id_take_nth_drop [OF i] pre(2) argz_rep_len [OF rep]
    by (metis argz_join_simps(2,3) append.assoc append_Cons append_Nil length_append add.assoc)
  then have len: "size_sub (argz_len a) (length (es ! i) + 1) = ?len"
    using argz_rep_bound [OF rep] pre by (simp add: mem_simps)
  have tail: "size_sub ?len (entry_off es i) = length ?suf"
    using argz_rep_bound [OF rep] alen pre by (simp add: mem_simps)
  have "mem_move (argz_mem a) (entry_off es i) (entry_off es i + (length (es ! i) + 1)) (length ?suf)
      = Some (pre @ ?suf @ drop (length ?suf) (?e @ ?suf @ rest))"
    by (rule mem_move_at [where pre' = "pre @ ?e" and z = rest]) (simp_all add: mem pre(1))
  then obtain b where b: "mem_move (argz_mem a) (entry_off es i)
      (entry_off es i + (length (es ! i) + 1)) (length ?suf) = Some (pre @ ?suf @ b)"
    by blast
  let ?a' = "if ?len = 0 then a\<lparr>argz_buf := None, argz_len := ?len\<rparr>
    else a\<lparr>argz_buf := Some (pre @ ?suf @ b), argz_len := ?len\<rparr>"
  have "argz_delete a (Some (entry_off es i)) = Some ?a'"
    using buf b len tail argz_entry_at(2) [OF rep i] by (simp add: argz_delete_def Let_def)
  moreover have "argz_rep ?a' (take i es @ drop (Suc i) es)"
  proof -
    have "nul_free (take i es @ drop (Suc i) es)"
      using argz_rep_nul_free [OF rep] by (auto simp: nul_free_def dest: in_set_takeD in_set_dropD)
    moreover have "?len < 2 ^ 64"
      using argz_rep_bound [OF rep] alen pre(2) by simp
    ultimately show ?thesis using pre(2) by (auto simp: argz_rep_def argz_mem_def)
  qed
  ultimately show ?thesis by (rule that)
qed

lemma insert_back_entry:
  assumes "NUL \<notin> set s" and "b = pre @ NUL # s @ rest" and "k \<le> length s"
  shows "insert_back b (Suc (length pre + k)) = Some (Suc (length pre))"
  using assms(3)
proof (induction k)
  case 0
  then show ?case using assms(2) by (simp add: mem_read_at)
next
  case (Suc k)
  have b: "b = (pre @ NUL # take k s) @ s ! k # drop (Suc k) s @ rest"
    using Suc.prems assms(2) by (simp add: id_take_nth_drop [symmetric])
  have "s ! k \<noteq> NUL" using Suc.prems assms(1) by (metis Suc_le_lessD nth_mem)
  moreover have "mem_read b (Suc (length pre + k)) = Some (s ! k)"
    by (rule mem_read_at [OF b]) (use Suc.prems in simp)
  ultimately show ?case using Suc by simp
qed

lemma insert_back_first:
  "NUL \<notin> set (take k b) \<Longrightarrow> insert_back b k = None"
proof (induction k)
  case (Suc k)
  show ?case
  proof (cases "k < length b")
    case True
    with Suc.prems have "b ! k \<noteq> NUL" "NUL \<notin> set (take k b)"
      by (auto simp: take_Suc_conv_app_nth)
    with Suc.IH True show ?thesis by (simp add: mem_read_def)
  qed (simp add: mem_read_def)
qed simp

text \<open>
  \<open>insert_point es i bp\<close>: the pointer \<open>bp\<close> lies in entry \<open>i\<close>, and for the first entry it is its
  start, so that stepping back ends inside the block.
\<close>

definition insert_point :: "string list \<Rightarrow> nat \<Rightarrow> nat \<Rightarrow> bool" where
  "insert_point es i bp \<longleftrightarrow> i < length es \<and> entry_off es i \<le> bp \<and> bp < entry_off es (Suc i) \<and>
     (i = 0 \<longrightarrow> bp = 0)"

lemma insert_point_back:
  assumes rep: "argz_rep a es" and ip: "insert_point es i bp" and pos: "0 < bp"
  shows "insert_back (argz_mem a) bp = Some (entry_off es i)"
proof -
  from ip pos obtain j where i: "i = Suc j" "i < length es"
    unfolding insert_point_def by (cases i) auto
  obtain pre rest where mem: "argz_mem a = pre @ (es ! i) @ NUL # argz_join (drop (Suc i) es) @ rest"
      and pre: "length pre = entry_off es i" "pre = argz_join (take i es)" and "NUL \<notin> set (es ! i)"
    using argz_rep_entry [OF rep i(2)] by metis
  have "argz_join (take i es) = (argz_join (take j es) @ es ! j) @ [NUL]"
    using i by (simp add: take_Suc_conv_app_nth)
  then obtain pre' where pre': "pre = pre' @ [NUL]" using pre(2) by blast
  then have suc: "Suc (length pre') = entry_off es i" using pre(1) by simp
  have k: "bp = Suc (length pre' + (bp - entry_off es i))"
    using ip suc unfolding insert_point_def by arith
  have "bp - entry_off es i \<le> length (es ! i)"
    using ip entry_off_Suc [OF i(2)] unfolding insert_point_def by arith
  then have "insert_back (argz_mem a) (Suc (length pre' + (bp - entry_off es i)))
      = Some (Suc (length pre'))"
    using \<open>NUL \<notin> set (es ! i)\<close> mem pre' by (intro insert_back_entry) simp_all
  then show ?thesis unfolding k [symmetric] suc .
qed

lemma argz_insert_rep:
  assumes rep: "argz_rep a es" and ip: "insert_point es i bp" and s: "NUL \<notin> set s"
    and fits: "argz_len a + length s + 1 < 2 ^ 64" and ok: "alloc os = (True, os')"
  obtains a' where "argz_insert a (Some (int bp)) s os = Some (NOERR, a', os')"
    and "argz_rep a' (take i es @ s # drop i es)"
proof -
  have i: "i < length es" and bp: "bp < argz_len a"
    using ip entry_off_split [of es "Suc i"] argz_rep_len [OF rep]
    unfolding insert_point_def by auto
  let ?pre = "argz_join (take i es)" and ?suf = "argz_join (drop i es)" and ?s = "s @ [NUL]"
  have es: "argz_join es = ?pre @ ?suf"
    by (metis append_take_drop_id argz_join_simps(3))
  have pre: "length ?pre = entry_off es i" by (simp add: entry_off_def)
  have buf: "argz_buf a = Some (argz_mem a)"
    using bp rep by (cases "argz_buf a") (auto simp: argz_mem_def argz_rep_def)
  have stepped: "(if 0 < bp then insert_back (argz_mem a) bp else Some bp) = Some (entry_off es i)"
    using insert_point_back [OF rep ip] ip by (auto simp: insert_point_def)
  let ?n = "argz_len a + (length s + 1)"
  obtain junk where junk: "mem_realloc (argz_buf a) ?n = argz_join es @ junk" "length junk = length s + 1"
    using argz_realloc [OF rep, of ?n] by auto
  have after: "size_sub (argz_len a) (entry_off es i) = length ?suf"
    using entry_off_split [of es i] argz_rep_len [OF rep] argz_rep_bound [OF rep]
    by (simp add: mem_simps)
  obtain t d where td: "?suf @ junk = t @ d" "length t = length s + 1"
  proof (rule that)
    show "?suf @ junk = take (length s + 1) (?suf @ junk) @ drop (length s + 1) (?suf @ junk)"
      by (simp only: append_take_drop_id)
    show "length (take (length s + 1) (?suf @ junk)) = length s + 1"
      using junk(2) by simp
  qed
  have "length ?suf \<le> length d"
    using arg_cong [OF td(1), of length] td(2) junk(2) by simp
  then have "mem_move (argz_join es @ junk) (entry_off es i + (length s + 1)) (entry_off es i) (length ?suf)
      = Some ((?pre @ t) @ ?suf @ drop (length ?suf) d)"
    by (intro mem_move_at [where x = d and pre' = ?pre and z = junk]) (simp_all add: es pre td)
  then obtain b where mv: "mem_move (argz_join es @ junk) (entry_off es i + (length s + 1))
      (entry_off es i) (length ?suf) = Some (?pre @ t @ ?suf @ b)"
    by simp
  have wr: "mem_write (?pre @ t @ ?suf @ b) (entry_off es i) ?s = Some (?pre @ ?s @ ?suf @ b)"
    using mem_write_at [of ?s "t @ ?suf @ b" "entry_off es i" ?pre] by (simp add: pre td(2))
  let ?a' = "a\<lparr>argz_buf := Some (?pre @ ?s @ ?suf @ b), argz_len := ?n\<rparr>"
  have "argz_insert a (Some (int bp)) s os = Some (NOERR, ?a', os')"
    using bp buf stepped after junk mv wr ok fits
    by (cases "bp = 0") (simp_all add: argz_insert_def mem_simps)
  moreover have "argz_rep ?a' (take i es @ s # drop i es)"
  proof (rule argz_repI)
    show "nul_free (take i es @ s # drop i es)"
      using argz_rep_nul_free [OF rep] s by (auto simp: nul_free_def dest: in_set_takeD in_set_dropD)
    show "argz_len ?a' = length (argz_join (take i es @ s # drop i es))"
      using argz_rep_len [OF rep] es by simp
    show "argz_len ?a' < 2 ^ 64" using fits by simp
    show "argz_mem ?a' = argz_join (take i es @ s # drop i es) @ b"
      by (simp add: argz_mem_def)
  qed
  ultimately show ?thesis by (rule that)
qed

text \<open>A pointer into the middle of the first entry makes the code read before the block.\<close>

lemma argz_insert_first:
  assumes rep: "argz_rep a (s # es)" and bp: "0 < bp" "bp \<le> length s"
  shows "argz_insert a (Some (int bp)) entry os = None"
proof -
  obtain rest where mem: "argz_mem a = argz_join (s # es) @ rest" using rep by (rule argz_rep_mem)
  then have buf: "argz_buf a = Some (argz_mem a)"
    by (cases "argz_buf a") (simp_all add: argz_mem_def)
  have "NUL \<notin> set (take bp (argz_mem a))"
    using mem bp argz_rep_nul_free [OF rep] by (auto dest: in_set_takeD)
  then have "insert_back (argz_mem a) bp = None" by (rule insert_back_first)
  moreover have "bp < argz_len a" using bp argz_rep_len [OF rep] by simp
  ultimately show ?thesis using buf bp by (simp add: argz_insert_def)
qed

section \<open>Stringifying\<close>

fun str_join :: "char \<Rightarrow> string list \<Rightarrow> string" where
  "str_join sep [] = []"
| "str_join sep [s] = s"
| "str_join sep (s # t # es) = s @ sep # str_join sep (t # es)"

lemma stringify_loop_rep:
  assumes "nul_free es" and "es \<noteq> []" and "b = pre @ argz_join es @ rest"
  shows "stringify_loop sep b (length pre) (length (argz_join es))
      = Some (pre @ str_join sep es @ NUL # rest)"
  using assms
proof (induction es arbitrary: pre b)
  case (Cons s es)
  have part: "takeWhile (\<lambda>c. c \<noteq> NUL) (take (length (argz_join (s # es))) (drop (length pre) b)) = s"
    using Cons.prems by simp
  show ?case
  proof (cases es)
    case Nil
    then show ?thesis
      using Cons.prems part by (subst stringify_loop.simps) (simp add: Let_def)
  next
    case (Cons t ts)
    have "mem_write b (length pre + length s) [sep] = Some ((pre @ s @ [sep]) @ argz_join es @ rest)"
      using Cons.prems mem_write_at [of "[sep]" "NUL # argz_join es @ rest" "length pre + length s" "pre @ s"]
      by simp
    moreover have "stringify_loop sep ((pre @ s @ [sep]) @ argz_join es @ rest)
        (length (pre @ s @ [sep])) (length (argz_join es))
        = Some ((pre @ s @ [sep]) @ str_join sep es @ NUL # rest)"
      using Cons.prems Cons by (intro Cons.IH) simp_all
    ultimately show ?thesis
      using part Cons by (subst stringify_loop.simps) (simp add: Let_def)
  qed
qed simp

lemma argz_stringify_rep:
  assumes "argz_rep a es" and "es \<noteq> []"
  obtains rest where
    "argz_stringify (argz_mem a) (argz_len a) sep = Some (str_join sep es @ NUL # rest)"
proof -
  obtain rest where "argz_mem a = argz_join es @ rest" using assms(1) by (rule argz_rep_mem)
  with stringify_loop_rep [of es "argz_mem a" "[]" rest sep] assms show ?thesis
    by (intro that [of rest]) (simp add: argz_stringify_def argz_rep_def)
qed

section \<open>Splitting at a delimiter\<close>

text \<open>
  What the separator loop computes, with \<open>cur\<close> the entry being written: empty fields are
  dropped, except that the last entry is always closed by the terminator, empty or not.
\<close>

fun sep_entries :: "int \<Rightarrow> string \<Rightarrow> string \<Rightarrow> string list" where
  "sep_entries d cur [] = [cur]"
| "sep_entries d cur (c # cs) =
     (if schar c = d then (if cur = [] then sep_entries d [] cs else cur # sep_entries d [] cs)
      else sep_entries d (cur @ [c]) cs)"

text \<open>The fields of a string between delimiters, empty ones included.\<close>

fun fields :: "int \<Rightarrow> string \<Rightarrow> string list" where
  "fields d [] = [[]]"
| "fields d (c # cs) =
     (if schar c = d then [] # fields d cs
      else (case fields d cs of [] \<Rightarrow> [[c]] | f # fs \<Rightarrow> (c # f) # fs))"

lemma fields_not_Nil [simp]: "fields d s \<noteq> []"
  by (induction s) (auto split: list.split)

lemma sep_entries_fields:
  "fields d s = f # fs \<Longrightarrow>
     sep_entries d cur s = filter (\<lambda>e. e \<noteq> []) (butlast ((cur @ f) # fs)) @ [last ((cur @ f) # fs)]"
proof (induction s arbitrary: cur f fs)
  case (Cons c s)
  obtain g gs where g: "fields d s = g # gs" by (cases "fields d s") auto
  show ?case
  proof (cases "schar c = d")
    case True
    then have "f = []" "fs = g # gs" using Cons.prems g by simp_all
    then show ?thesis using Cons.IH [OF g] True by simp
  next
    case False
    then have "f = c # g" "fs = gs" using Cons.prems g by simp_all
    then show ?thesis using Cons.IH [OF g] False by simp
  qed
qed simp

lemma sep_entries_nul_free:
  "NUL \<notin> set s \<Longrightarrow> NUL \<notin> set cur \<Longrightarrow> nul_free (sep_entries d cur s)"
  by (induction s arbitrary: cur) auto

lemma sep_entries_length:
  "length (argz_join (sep_entries d cur s)) \<le> length cur + length s + 1"
proof (induction s arbitrary: cur)
  case (Cons c s)
  show ?case using Cons.IH [of "[]"] Cons.IH [of "cur @ [c]"] by simp
qed simp

lemma sep_entries_not_Nil [simp]: "sep_entries d cur s \<noteq> []"
  by (induction s arbitrary: cur) auto

lemma entry_open:
  assumes "NUL \<notin> set cur"
  shows "sep_open ((argz_join es @ cur) @ x) (length (argz_join es @ cur)) = Some (cur \<noteq> [])"
proof (cases cur rule: rev_cases)
  case Nil
  show ?thesis
  proof (cases es rule: rev_cases)
    case (snoc es' e)
    then have "(argz_join es @ cur) @ x = (argz_join es' @ e) @ NUL # x" using Nil by simp
    then have "mem_read ((argz_join es @ cur) @ x) (length (argz_join es @ cur) - 1) = Some NUL"
      by (rule mem_read_at) (simp add: snoc Nil)
    with snoc Nil show ?thesis by (simp add: sep_open_def)
  qed (simp add: Nil sep_open_def)
next
  case (snoc cur' c)
  have "(argz_join es @ cur) @ x = (argz_join es @ cur') @ c # x" using snoc by simp
  then have "mem_read ((argz_join es @ cur) @ x) (length (argz_join es @ cur) - 1) = Some c"
    by (rule mem_read_at) (simp add: snoc)
  with snoc assms show ?thesis by (auto simp: sep_open_def)
qed

lemma sep_loop_rep:
  assumes "d \<noteq> 0" and "NUL \<notin> set rs" and "NUL \<notin> set cur"
    and "b = (argz_join es @ cur) @ x" and "length rs < length x"
    and "length rs < nlen" and "nlen < 2 ^ 64"
  obtains y where "sep_loop d (rs @ [NUL]) b (length (argz_join es @ cur)) nlen
      = Some (argz_join (es @ sep_entries d cur rs) @ y,
          nlen + length (argz_join (sep_entries d cur rs)) - (length cur + length rs + 1))"
proof -
  have "\<exists>y. sep_loop d (rs @ [NUL]) b (length (argz_join es @ cur)) nlen
      = Some (argz_join (es @ sep_entries d cur rs) @ y,
          nlen + length (argz_join (sep_entries d cur rs)) - (length cur + length rs + 1))"
    using assms
  proof (induction rs arbitrary: cur es x b nlen)
    case Nil
    then obtain z zs where x: "x = z # zs" by (cases x) auto
    then have "mem_write b (length (argz_join es @ cur)) [NUL] = Some ((argz_join es @ cur) @ [NUL] @ zs)"
      using mem_write_at [of "[NUL]" x "length (argz_join es @ cur)" "argz_join es @ cur"] Nil.prems
      by simp
    with Nil.prems(1) show ?case by simp
  next
    case (Cons c rs)
    then obtain z zs where x: "x = z # zs" and zs: "length rs < length zs" by (cases x) auto
    then have lx: "length rs < length x" by simp
    have wr: "mem_write b (length (argz_join es @ cur)) [v] = Some ((argz_join es @ cur) @ [v] @ zs)" for v
      using mem_write_at [of "[v]" x "length (argz_join es @ cur)" "argz_join es @ cur"] x Cons.prems(4)
      by simp
    have opn: "sep_open b (length (argz_join es @ cur)) = Some (cur \<noteq> [])"
      unfolding Cons.prems(4) by (rule entry_open [OF Cons.prems(3)])
    have sub: "size_sub nlen 1 = nlen - 1" using Cons.prems(6,7) by (simp add: mem_simps)
    consider (copy) "schar c \<noteq> d" | (drop) "schar c = d" "cur = []" | (close) "schar c = d" "cur \<noteq> []"
      by blast
    then show ?case
    proof cases
      case copy
      have "\<exists>y. sep_loop d (rs @ [NUL]) ((argz_join es @ cur @ [c]) @ zs)
          (length (argz_join es @ (cur @ [c]))) nlen
        = Some (argz_join (es @ sep_entries d (cur @ [c]) rs) @ y,
            nlen + length (argz_join (sep_entries d (cur @ [c]) rs)) - (length (cur @ [c]) + length rs + 1))"
        using Cons.prems zs by (intro Cons.IH) simp_all
      with copy wr [of c] show ?thesis by simp
    next
      case drop
      have "\<exists>y. sep_loop d (rs @ [NUL]) b (length (argz_join es @ [])) (nlen - 1)
        = Some (argz_join (es @ sep_entries d [] rs) @ y,
            (nlen - 1) + length (argz_join (sep_entries d [] rs)) - (length ([] :: string) + length rs + 1))"
        using Cons.prems drop lx by (intro Cons.IH [where x = x]) simp_all
      moreover have "(nlen - 1) + length (argz_join (sep_entries d [] rs)) - (length rs + 1)
          = nlen + length (argz_join (sep_entries d [] rs)) - (length (c # rs) + 1)"
        using Cons.prems(6) by simp
      ultimately show ?thesis using drop opn sub by simp
    next
      case close
      have "\<exists>y. sep_loop d (rs @ [NUL]) ((argz_join (es @ [cur]) @ []) @ zs)
          (length (argz_join (es @ [cur]) @ [])) nlen
        = Some (argz_join ((es @ [cur]) @ sep_entries d [] rs) @ y,
            nlen + length (argz_join (sep_entries d [] rs)) - (length ([] :: string) + length rs + 1))"
        using Cons.prems zs by (intro Cons.IH) simp_all
      then show ?thesis using close opn wr [of NUL] by simp
    qed
  qed
  then show ?thesis using that by blast
qed

lemma argz_create_sep_rep:
  assumes "d \<noteq> 0" and "NUL \<notin> set s" and "s \<noteq> []" and fits: "length s + 1 < 2 ^ 64"
    and ok: "alloc os = (True, os')"
  obtains a' where "argz_create_sep a s d os = Some (NOERR, a', os')"
    and "argz_rep a' (sep_entries d [] s)"
proof -
  let ?es = "sep_entries d [] s" and ?n = "length s + 1"
  have "length s < length (mem_realloc None ?n)" by simp
  then obtain y where "sep_loop d (s @ [NUL]) (mem_realloc None ?n) (length (argz_join [] @ [])) ?n
      = Some (argz_join ([] @ ?es) @ y, ?n + length (argz_join ?es) - (length ([] :: string) + length s + 1))"
    using sep_loop_rep [of d s "[]" "mem_realloc None ?n" "[]" "mem_realloc None ?n" ?n] assms by auto
  then have "sep_loop d (s @ [NUL]) (mem_realloc None ?n) 0 ?n
      = Some (argz_join ?es @ y, length (argz_join ?es))" by simp
  moreover have "length (argz_join ?es) \<noteq> 0" by simp
  ultimately have "argz_create_sep a s d os
      = Some (NOERR, a\<lparr>argz_buf := Some (argz_join ?es @ y), argz_len := length (argz_join ?es)\<rparr>, os')"
    using assms by (simp add: argz_create_sep_def mem_simps)
  moreover have "length (argz_join ?es) < 2 ^ 64"
    using sep_entries_length [of d "[]" s] fits by simp
  then have "argz_rep (a\<lparr>argz_buf := Some (argz_join ?es @ y), argz_len := length (argz_join ?es)\<rparr>) ?es"
    using assms by (simp add: argz_rep_def sep_entries_nul_free)
  ultimately show ?thesis by (rule that)
qed

lemma argz_create_sep_Nil:
  "argz_create_sep a [] d os = Some (NOERR, a\<lparr>argz_buf := None, argz_len := 0\<rparr>, os)"
  by (simp add: argz_create_sep_def mem_simps)

lemma argz_add_sep_rep:
  assumes rep: "argz_rep a es" and "d \<noteq> 0" and "NUL \<notin> set s" and "s \<noteq> []"
    and fits: "argz_len a + length s + 1 < 2 ^ 64" and ok: "alloc os = (True, os')"
  obtains a' where "argz_add_sep a s d os = Some (NOERR, a', os')"
    and "argz_rep a' (es @ sep_entries d [] s)"
proof -
  let ?fs = "sep_entries d [] s" and ?n = "length s + 1"
  obtain junk where junk: "mem_realloc (argz_buf a) (argz_len a + ?n) = argz_join es @ junk"
      "length junk = ?n"
    using argz_realloc [OF rep, of "argz_len a + ?n"] by auto
  obtain y where "sep_loop d (s @ [NUL]) ((argz_join es @ []) @ junk) (length (argz_join es @ [])) ?n
      = Some (argz_join (es @ ?fs) @ y, ?n + length (argz_join ?fs) - (length ([] :: string) + length s + 1))"
    using sep_loop_rep [of d s "[]" "(argz_join es @ []) @ junk" es junk ?n] assms junk(2) by auto
  then have "sep_loop d (s @ [NUL]) (argz_join es @ junk) (argz_len a) ?n
      = Some (argz_join (es @ ?fs) @ y, length (argz_join ?fs))"
    using argz_rep_len [OF rep] by simp
  moreover have le: "argz_len a + length (argz_join ?fs) < 2 ^ 64"
    using sep_entries_length [of d "[]" s] fits by simp
  ultimately have "argz_add_sep a s d os = Some (NOERR, a\<lparr>argz_buf := Some (argz_join (es @ ?fs) @ y),
      argz_len := argz_len a + length (argz_join ?fs)\<rparr>, os')"
    using assms junk by (simp add: argz_add_sep_def mem_simps)
  moreover have "argz_rep (a\<lparr>argz_buf := Some (argz_join (es @ ?fs) @ y),
      argz_len := argz_len a + length (argz_join ?fs)\<rparr>) (es @ ?fs)"
    using assms le argz_rep_nul_free [OF rep] argz_rep_len [OF rep]
    by (intro argz_repI [where rest = y]) (simp_all add: sep_entries_nul_free)
  ultimately show ?thesis by (rule that)
qed

text \<open>When the reallocation fails the block is lost and \<open>argz_len\<close> still counts it.\<close>

lemma argz_add_sep_fail:
  "s \<noteq> [] \<Longrightarrow> length s + 1 < 2 ^ 64 \<Longrightarrow> alloc os = (False, os') \<Longrightarrow>
     argz_add_sep a s d os = Some (ENOMEM, a\<lparr>argz_buf := None\<rparr>, os')"
  by (simp add: argz_add_sep_def mem_simps)

section \<open>Replacing\<close>

text \<open>The list of answers in which no allocation fails.\<close>

definition all_ok :: "answers \<Rightarrow> bool" where
  "all_ok os \<longleftrightarrow> False \<notin> set os"

lemma all_ok_alloc:
  assumes "all_ok os" obtains os' where "alloc os = (True, os')" and "all_ok os'"
  using assms by (cases os) (auto simp: all_ok_def)

text \<open>One entry with every occurrence replaced, scanning on behind each replacement.\<close>

function subst_all :: "char \<Rightarrow> string \<Rightarrow> string \<Rightarrow> string \<Rightarrow> string" where
  "subst_all s tr subst e =
     (case c_strstr e (s # tr) of None \<Rightarrow> e
      | Some m \<Rightarrow> take m e @ subst @ subst_all s tr subst (drop (m + length (s # tr)) e))"
  by pat_completeness auto
termination
  by (relation "measure (\<lambda>(s, tr, subst, e). length e)") (auto dest!: c_strstr_bound)

declare subst_all.simps [simp del]

lemma str_append_ok:
  assumes "all_ok os"
  obtains os' where "str_append to buf os = (Some (to @ buf), os')" and "all_ok os'"
  using assms by (rule all_ok_alloc) (auto simp: str_append_def)

lemma replace_in_ok:
  "all_ok os \<Longrightarrow>
    \<exists>os'. replace_in s tr subst to from os = (Some (to @ subst @ subst_all s tr subst from), os')
      \<and> all_ok os'"
proof (induction s tr subst to "from" os rule: replace_in.induct)
  case (1 s tr subst to "from" os)
  obtain o1 where o1: "str_append to subst os = (Some (to @ subst), o1)" "all_ok o1"
    using "1.prems" by (rule str_append_ok)
  show ?case
  proof (cases "c_strstr from (s # tr)")
    case None
    obtain o2 where "str_append (to @ subst) from o1 = (Some ((to @ subst) @ from), o2)" "all_ok o2"
      using o1(2) by (rule str_append_ok)
    with None o1 show ?thesis by (simp add: replace_in.simps [of s] subst_all.simps [of s])
  next
    case (Some m)
    obtain o2 where o2: "str_append (to @ subst) (take m from) o1
        = (Some ((to @ subst) @ take m from), o2)" "all_ok o2"
      using o1(2) by (rule str_append_ok)
    from "1.IH" [OF o1(1) [symmetric] refl Some o2(1) [symmetric] refl o2(2)] Some o1 o2
    show ?thesis by (simp add: replace_in.simps [of s tr subst to] subst_all.simps [of s tr subst "from"])
  qed
qed

definition hits :: "string \<Rightarrow> string list \<Rightarrow> nat" where
  "hits str es = length (filter (\<lambda>e. c_strstr e str \<noteq> None) es)"

definition bump :: "nat \<Rightarrow> nat option \<Rightarrow> nat option" where
  "bump n count = map_option (\<lambda>c. (c + n) mod 2 ^ 32) count"

definition count_ok :: "nat option \<Rightarrow> bool" where
  "count_ok count \<longleftrightarrow> (case count of None \<Rightarrow> True | Some c \<Rightarrow> c < 2 ^ 32)"

lemma hits_simps [simp]:
  "hits str [] = 0"
  "hits str (e # es) = (if c_strstr e str = None then hits str es else Suc (hits str es))"
  by (simp_all add: hits_def)

lemma hits_0_iff: "hits str es = 0 \<longleftrightarrow> (\<forall>e \<in> set es. c_strstr e str = None)"
  by (induction es) auto

lemma bump_0: "count_ok count \<Longrightarrow> bump 0 count = count"
  by (cases count) (simp_all add: bump_def count_ok_def)

lemma bump_bump: "bump n (bump m count) = bump (m + n) count"
  by (cases count) (simp_all add: bump_def mod_add_left_eq add.assoc)

lemma count_ok_bump [simp]: "count_ok (bump n count)"
  by (cases count) (simp_all add: bump_def count_ok_def)

lemma subst_all_miss: "c_strstr e (s # tr) = None \<Longrightarrow> subst_all s tr subst e = e"
  by (simp add: subst_all.simps)

lemma map_subst_miss: "hits (s # tr) es = 0 \<Longrightarrow> map (subst_all s tr subst) es = es"
  by (induction es) (auto simp: subst_all_miss split: if_splits)

lemma subst_all_nul_free:
  "NUL \<notin> set e \<Longrightarrow> NUL \<notin> set subst \<Longrightarrow> NUL \<notin> set (subst_all s tr subst e)"
proof (induction s tr subst e rule: subst_all.induct)
  case (1 s tr subst e)
  then show ?case
    by (subst subst_all.simps) (auto split: option.split dest: in_set_takeD in_set_dropD)
qed

lemma length_argz_join_take: "length (argz_join (take j es)) \<le> length (argz_join es)"
  by (metis append_take_drop_id argz_join_simps(3) le_add1 length_append)

text \<open>
  What the loop keeps: up to the first hit nothing has been copied, from then on \<open>dst\<close> holds the
  rewritten entries seen so far.
\<close>

definition replaced :: "char \<Rightarrow> string \<Rightarrow> string \<Rightarrow> argz \<Rightarrow> bool \<Rightarrow> string list \<Rightarrow> bool" where
  "replaced s tr subst dst delayed es \<longleftrightarrow>
     (if delayed then hits (s # tr) es = 0 \<and> dst = \<lparr>argz_buf = None, argz_len = 0\<rparr>
      else argz_rep dst (map (subst_all s tr subst) es))"

lemma replaced_miss:
  assumes "replaced s tr subst dst True es" and "c_strstr e (s # tr) = None"
  shows "replaced s tr subst dst True (es @ [e])"
  using assms by (simp add: replaced_def hits_def)

lemma replaced_add:
  assumes r: "replaced s tr subst dst False es" and e: "NUL \<notin> set e" "NUL \<notin> set subst"
    and fits: "length (argz_join (map (subst_all s tr subst) (es @ [e]))) < 2 ^ 64" and ok: "all_ok os"
  obtains dst' os' where "argz_add dst (subst_all s tr subst e) os = Some (NOERR, dst', os')"
    and "replaced s tr subst dst' False (es @ [e])" and "all_ok os'"
proof -
  obtain os' where al: "alloc os = (True, os')" "all_ok os'" using ok by (rule all_ok_alloc)
  have rep: "argz_rep dst (map (subst_all s tr subst) es)" using r by (simp add: replaced_def)
  obtain dst' where "argz_add dst (subst_all s tr subst e) os = Some (NOERR, dst', os')"
    and "argz_rep dst' (map (subst_all s tr subst) es @ [subst_all s tr subst e])"
    by (rule argz_add_rep [OF rep _ _ al(1), of "subst_all s tr subst e"])
      (use e fits argz_rep_len [OF rep] in \<open>simp_all add: subst_all_nul_free\<close>)
  then show ?thesis using al(2) by (intro that) (simp_all add: replaced_def)
qed

text \<open>The entries before the first hit are copied in one piece.\<close>

lemma replaced_start:
  assumes rep: "argz_rep a es" and j: "j < length es"
    and r: "replaced s tr subst dst True (take j es)" and ok: "all_ok os"
  obtains dst' os' where "(if True \<and> 0 < entry_off es j
        then argz_append dst (take (entry_off es j) (argz_mem a)) os else Some (NOERR, dst, os))
      = Some (NOERR, dst', os')"
    and "replaced s tr subst dst' False (take j es)" and "all_ok os'"
proof (cases "0 < entry_off es j")
  case True
  obtain rest where "argz_mem a = argz_join es @ rest" using rep by (rule argz_rep_mem)
  moreover have "argz_join es = argz_join (take j es) @ argz_join (drop j es)"
    by (metis append_take_drop_id argz_join_simps(3))
  ultimately have cp: "take (entry_off es j) (argz_mem a) = argz_join (take j es)"
    by (simp add: entry_off_def)
  have dst: "dst = \<lparr>argz_buf = None, argz_len = 0\<rparr>" and h: "hits (s # tr) (take j es) = 0"
    using r by (simp_all add: replaced_def)
  obtain os' where al: "alloc os = (True, os')" "all_ok os'" using ok by (rule all_ok_alloc)
  have nf: "nul_free (take j es)"
    using argz_rep_nul_free [OF rep] by (auto simp: nul_free_def dest: in_set_takeD)
  have "length (argz_join (take j es)) < 2 ^ 64"
    using length_argz_join_take [of j es] argz_rep_len [OF rep] argz_rep_bound [OF rep] by simp
  then obtain dst' where "argz_append dst (argz_join (take j es)) os = Some (NOERR, dst', os')"
    and "argz_rep dst' (take j es)"
    using argz_append_rep [OF argz_rep_empty nf _ al(1)] dst by auto
  with True cp al(2) h show ?thesis
    by (intro that) (simp_all add: replaced_def map_subst_miss)
next
  case False
  then have "take j es = []" by (simp add: entry_off_def)
  with False r ok show ?thesis
    by (intro that) (auto simp: replaced_def argz_rep_empty)
qed

lemma hits_drop:
  assumes "j < length es"
  shows "hits str (drop j es)
      = (if c_strstr (es ! j) str = None then hits str (drop (Suc j) es)
         else Suc (hits str (drop (Suc j) es)))"
proof -
  have "drop j es = es ! j # drop (Suc j) es" using assms by (simp add: Cons_nth_drop_Suc)
  then show ?thesis by (simp only: hits_simps)
qed

lemma replace_loop_ok:
  assumes rep: "argz_rep a es" and subst: "NUL \<notin> set subst"
    and fits: "length (argz_join (map (subst_all s tr subst) es)) < 2 ^ 64"
    and "j \<le> length es" and "argz_next (argz_mem a) (argz_len a) arg
      = Some (if j < length es then Some (entry_off es j) else None)"
    and "replaced s tr subst dst delayed (take j es)" and "all_ok os" and "count_ok count"
  shows "\<exists>dst' delayed' os'. replace_loop s tr subst (argz_mem a) (argz_len a) arg dst delayed count os
      = Some (NOERR, dst', delayed', bump (hits (s # tr) (drop j es)) count, os')
      \<and> replaced s tr subst dst' delayed' es"
  using assms(4-)
proof (induction "length es - j" arbitrary: j arg dst delayed count os)
  case 0
  then show ?case by (simp add: replace_loop.simps [of s] bump_0)
next
  case (Suc n)
  then have j: "j < length es" by simp
  let ?e = "es ! j" and ?go = "\<lambda>dst delayed count os. replace_loop s tr subst (argz_mem a) (argz_len a)
      (Some (entry_off es j)) dst delayed count os"
  have e: "cstr_at (argz_mem a) (entry_off es j) = Some ?e" "NUL \<notin> set ?e"
    using argz_entry_at(1) [OF rep j] argz_rep_nul_free [OF rep] j by (simp_all add: nul_free_def)
  have tk: "take (Suc j) es = take j es @ [?e]" using j by (simp add: take_Suc_conv_app_nth)
  have fits': "length (argz_join (map (subst_all s tr subst) (take j es @ [?e]))) < 2 ^ 64"
    using length_argz_join_take [of "Suc j" "map (subst_all s tr subst) es"] fits
    unfolding tk [symmetric] take_map by simp
  have IH: "\<exists>dst' delayed' os'. ?go dst delayed count os
        = Some (NOERR, dst', delayed', bump (hits (s # tr) (drop (Suc j) es)) count, os')
        \<and> replaced s tr subst dst' delayed' es"
    if "replaced s tr subst dst delayed (take j es @ [?e])" "all_ok os" "count_ok count"
    for dst delayed count os
    using Suc.hyps(2) j that argz_next_Some_rep [OF rep j]
    by (intro Suc.hyps(1)) (simp_all add: tk)
  show ?case
  proof (cases "c_strstr ?e (s # tr)")
    case None
    show ?thesis
    proof (cases delayed)
      case True
      with Suc.prems None IH [of dst True os count] replaced_miss [of s tr subst dst "take j es" ?e]
      show ?thesis using j e by (simp add: replace_loop.simps [of s tr subst _ _ arg] hits_drop)
    next
      case False
      obtain dst' os' where d: "argz_add dst (subst_all s tr subst ?e) os = Some (NOERR, dst', os')"
          "replaced s tr subst dst' False (take j es @ [?e])" "all_ok os'"
        using replaced_add [OF _ e(2) subst fits' Suc.prems(4), of dst] Suc.prems(3) False by auto
      with None have "argz_add dst ?e os = Some (NOERR, dst', os')" by (simp add: subst_all_miss)
      with d Suc.prems None False IH [of dst' False os' count]
      show ?thesis using j e by (simp add: replace_loop.simps [of s tr subst _ _ arg] hits_drop)
    qed
  next
    case (Some m)
    obtain o1 where o1: "alloc os = (True, o1)" "all_ok o1" using Suc.prems(4) by (rule all_ok_alloc)
    obtain o2 where o2: "replace_in s tr subst (take m ?e) (drop (m + length (s # tr)) ?e) o1
        = (Some (subst_all s tr subst ?e), o2)" "all_ok o2"
      using replace_in_ok [OF o1(2), of s tr subst "take m ?e" "drop (m + length (s # tr)) ?e"] Some
      by (auto simp: subst_all.simps [of s tr subst ?e])
    obtain d1 o3 where d1: "(if delayed \<and> 0 < entry_off es j
          then argz_append dst (take (entry_off es j) (argz_mem a)) o2 else Some (NOERR, dst, o2))
        = Some (NOERR, d1, o3)" "replaced s tr subst d1 False (take j es)" "all_ok o3"
    proof (cases delayed)
      case True
      with replaced_start [OF rep j _ o2(2), of s tr subst dst] Suc.prems(3) that show ?thesis by auto
    next
      case False
      with Suc.prems(3) o2(2) that show ?thesis by auto
    qed
    obtain d2 o4 where d2: "argz_add d1 (subst_all s tr subst ?e) o3 = Some (NOERR, d2, o4)"
        "replaced s tr subst d2 False (take j es @ [?e])" "all_ok o4"
      using replaced_add [OF d1(2) e(2) subst fits' d1(3)] by blast
    have step: "replace_loop s tr subst (argz_mem a) (argz_len a) arg dst delayed count os
        = ?go d2 False (bump 1 count) o4"
      using Suc.prems j e Some o1 o2(1) d1(1) d2(1)
      by (simp add: replace_loop.simps [of s tr subst _ _ arg] bump_def)
    show ?thesis
      using IH [of d2 False o4 "bump 1 count"] d2 step Some j
      by (simp add: hits_drop bump_bump)
  qed
qed

lemma argz_replace_rep:
  assumes rep: "argz_rep a es" and subst: "NUL \<notin> set subst" and ok: "all_ok os" and "count_ok count"
    and fits: "length (argz_join (map (subst_all s tr subst) es)) < 2 ^ 64"
  obtains a' os' where "argz_replace a (Some (s # tr)) subst count os
      = Some (NOERR, a', bump (hits (s # tr) es) count, os')"
    and "argz_rep a' (map (subst_all s tr subst) es)"
proof -
  let ?dst = "\<lparr>argz_buf = None, argz_len = 0\<rparr>"
  have "argz_next (argz_mem a) (argz_len a) None = Some (if 0 < length es then Some (entry_off es 0) else None)"
    using argz_next_None_rep [OF rep] by simp
  moreover have "replaced s tr subst ?dst True (take 0 es)" by (simp add: replaced_def)
  ultimately obtain dst' delayed' os' where l:
      "replace_loop s tr subst (argz_mem a) (argz_len a) None ?dst True count os
        = Some (NOERR, dst', delayed', bump (hits (s # tr) es) count, os')"
      "replaced s tr subst dst' delayed' es"
    using replace_loop_ok [OF rep subst fits, of 0 None ?dst True os count] ok assms(4) by auto
  let ?a' = "if delayed' then a else a\<lparr>argz_buf := argz_buf dst', argz_len := argz_len dst'\<rparr>"
  have "argz_replace a (Some (s # tr)) subst count os
      = Some (NOERR, ?a', bump (hits (s # tr) es) count, os')"
    using l(1) by (simp add: argz_replace_def argz_mem_def)
  moreover have "argz_rep ?a' (map (subst_all s tr subst) es)"
  proof (cases delayed')
    case True
    with l(2) rep show ?thesis by (simp add: replaced_def map_subst_miss)
  next
    case False
    with l(2) show ?thesis by (auto simp: replaced_def argz_rep_def argz_mem_def)
  qed
  ultimately show ?thesis by (rule that)
qed

text \<open>Whatever fails, the caller's vector is not touched.\<close>

lemma argz_replace_error:
  "argz_replace a str subst count os = Some (err, a', count', os') \<Longrightarrow> err \<noteq> NOERR \<Longrightarrow> a' = a"
  by (auto simp: argz_replace_def split: option.splits list.splits bind_splits)

section \<open>Properties\<close>

abbreviation no_argz :: argz where
  "no_argz \<equiv> \<lparr>argz_buf = None, argz_len = 0\<rparr>"

text \<open>C5: argz_create packs an argument vector so that argz_count and argz_extract give it back:
  the count is the number of strings and the extracted pointers are those of the strings, in
  order.\<close>

theorem argz_create_extract:
  assumes "nul_free argv" and "length (argz_join argv) < 2 ^ 64" and "alloc os = (True, os')"
  shows "\<exists>a' os''. argz_create a argv os = Some (NOERR, a', os'')
    \<and> argz_count (argz_mem a') (argz_len a') = Some (length argv)
    \<and> map_option (map (cstr_at (argz_mem a'))) (argz_extract (argz_mem a') (argz_len a'))
        = Some (map Some argv)"
proof -
  obtain a' os'' where c: "argz_create a argv os = Some (NOERR, a', os'')" "argz_rep a' argv"
    using assms by (rule argz_create_rep)
  have "map (cstr_at (argz_mem a')) (map (entry_off argv) [0..<length argv]) = map Some argv"
    using argz_entry_at(1) [OF c(2)] by (auto intro: nth_equalityI)
  then have "map_option (map (cstr_at (argz_mem a'))) (argz_extract (argz_mem a') (argz_len a'))
      = Some (map Some argv)"
    using argz_extract_rep [OF c(2)] by simp
  with c argz_count_rep [OF c(2)] show ?thesis by blast
qed

theorem argz_create_extract_witness:
  "nul_free [''ab'', [], ''c''] \<and> (\<exists>a' os''. argz_create no_argz [''ab'', [], ''c''] [] = Some (NOERR, a', os'')
    \<and> argz_count (argz_mem a') (argz_len a') = Some 3
    \<and> map_option (map (cstr_at (argz_mem a'))) (argz_extract (argz_mem a') (argz_len a'))
        = Some [Some ''ab'', Some [], Some ''c''])"
  using argz_create_extract [of "[''ab'', [], ''c'']" "[]" "[]" no_argz] by (simp add: numeral_3_eq_3)

text \<open>C0: Starting from NULL, argz_next visits the entries of a vector in order, each once, and
  then returns NULL.\<close>

theorem argz_next_visits:
  assumes "argz_rep a es"
  shows "argz_next (argz_mem a) (argz_len a) None = Some (if es = [] then None else Some (entry_off es 0))
    \<and> (i < length es \<longrightarrow> cstr_at (argz_mem a) (entry_off es i) = Some (es ! i)
        \<and> argz_next (argz_mem a) (argz_len a) (Some (entry_off es i))
            = Some (if Suc i < length es then Some (entry_off es (Suc i)) else None))"
  using argz_next_None_rep [OF assms] argz_next_Some_rep [OF assms] argz_entry_at(1) [OF assms]
  by blast

theorem argz_next_visits_witness:
  "argz_next (argz_mem \<lparr>argz_buf = Some (argz_join [''ab'', ''c'']), argz_len = 5\<rparr>) 5 (Some 0) = Some (Some 3)"
proof -
  let ?a = "\<lparr>argz_buf = Some (argz_join [''ab'', ''c'']), argz_len = 5\<rparr>"
  have "argz_rep ?a [''ab'', ''c'']" by (simp add: argz_rep_def argz_mem_def)
  from argz_next_visits [OF this, of 0] show ?thesis by (simp add: entry_off_def)
qed

text \<open>C3: argz_insert with a pointer into an entry puts the new entry in front of that entry, and
  argz_delete of the entry at that offset takes it out again.\<close>

theorem argz_insert_delete:
  assumes "argz_rep a es" and "insert_point es i bp" and "NUL \<notin> set s"
    and "argz_len a + length s + 1 < 2 ^ 64" and "alloc os = (True, os')"
  shows "\<exists>a' a''. argz_insert a (Some (int bp)) s os = Some (NOERR, a', os')
    \<and> argz_rep a' (take i es @ s # drop i es)
    \<and> argz_delete a' (Some (entry_off es i)) = Some a'' \<and> argz_rep a'' es"
proof -
  obtain a' where i: "argz_insert a (Some (int bp)) s os = Some (NOERR, a', os')"
      "argz_rep a' (take i es @ s # drop i es)"
    using assms by (rule argz_insert_rep)
  have len: "i \<le> length es" using assms(2) by (simp add: insert_point_def)
  then have "i < length (take i es @ s # drop i es)" by simp
  then obtain a'' where "argz_delete a' (Some (entry_off (take i es @ s # drop i es) i)) = Some a''"
    and "argz_rep a'' (take i (take i es @ s # drop i es) @ drop (Suc i) (take i es @ s # drop i es))"
    using argz_delete_rep [OF i(2)] by blast
  with i len show ?thesis by (auto simp: entry_off_def)
qed

theorem argz_insert_delete_witness:
  "\<exists>a' a''. argz_insert \<lparr>argz_buf = Some (argz_join [''ab'', ''cd'']), argz_len = 6\<rparr> (Some 4) ''x'' []
      = Some (NOERR, a', []) \<and> argz_rep a' [''ab'', ''x'', ''cd'']
    \<and> argz_delete a' (Some 3) = Some a'' \<and> argz_rep a'' [''ab'', ''cd'']"
proof -
  let ?a = "\<lparr>argz_buf = Some (argz_join [''ab'', ''cd'']), argz_len = 6\<rparr>"
  have rep: "argz_rep ?a [''ab'', ''cd'']" by (simp add: argz_rep_def argz_mem_def)
  have ip: "insert_point [''ab'', ''cd''] 1 4" by (simp add: insert_point_def entry_off_def)
  from argz_insert_delete [OF rep ip, of "''x''" "[]" "[]"] show ?thesis
    by (simp add: entry_off_def numeral_3_eq_3)
qed

text \<open>C6: argz_insert with a pointer strictly inside the first entry runs its backwards search past
  the start of the block: there is no entry boundary to find.\<close>

theorem argz_insert_underrun:
  assumes "argz_rep a (s # es)" and "0 < bp" and "bp \<le> length s"
  shows "argz_insert a (Some (int bp)) entry os = None"
  using assms by (rule argz_insert_first)

theorem argz_insert_underrun_witness:
  "argz_insert \<lparr>argz_buf = Some (argz_join [''ab'']), argz_len = 3\<rparr> (Some 1) ''x'' [] = None"
proof -
  have "argz_rep \<lparr>argz_buf = Some (argz_join [''ab'']), argz_len = 3\<rparr> [''ab'']"
    by (simp add: argz_rep_def argz_mem_def)
  from argz_insert_underrun [OF this, of 1 "''x''" "[]"] show ?thesis by simp
qed

text \<open>C4: argz_create_sep and argz_add_sep split at the delimiter: of the fields between
  delimiters the empty ones are dropped, save the last one, which is always an entry (so a
  string that ends with the delimiter yields an empty last entry).\<close>

theorem argz_sep_fields:
  assumes "d \<noteq> 0" and "NUL \<notin> set s" and "s \<noteq> []" and "argz_rep a es"
    and "argz_len a + length s + 1 < 2 ^ 64" and "alloc os = (True, os')"
  shows "let fs = filter (\<lambda>e. e \<noteq> []) (butlast (fields d s)) @ [last (fields d s)]
    in (\<exists>a'. argz_create_sep a s d os = Some (NOERR, a', os') \<and> argz_rep a' fs)
     \<and> (\<exists>a'. argz_add_sep a s d os = Some (NOERR, a', os') \<and> argz_rep a' (es @ fs))"
proof -
  obtain f gs where "fields d s = f # gs" by (cases "fields d s") auto
  then have fs: "sep_entries d [] s = filter (\<lambda>e. e \<noteq> []) (butlast (fields d s)) @ [last (fields d s)]"
    by (simp only: sep_entries_fields append_Nil)
  obtain a1 where "argz_create_sep a s d os = Some (NOERR, a1, os')"
    and "argz_rep a1 (sep_entries d [] s)"
    using argz_create_sep_rep [of d s os os' a] assms by auto
  moreover obtain a2 where "argz_add_sep a s d os = Some (NOERR, a2, os')"
    and "argz_rep a2 (es @ sep_entries d [] s)"
    using argz_add_sep_rep [of a es d s os os'] assms by auto
  ultimately show ?thesis unfolding fs Let_def by blast
qed

theorem argz_sep_fields_witness:
  "\<exists>a'. argz_create_sep no_argz '':a::b:'' 58 [] = Some (NOERR, a', []) \<and> argz_rep a' [''a'', ''b'', []]"
proof -
  have "fields 58 '':a::b:'' = [[], ''a'', [], ''b'', []]" by code_simp
  moreover have "let fs = filter (\<lambda>e. e \<noteq> []) (butlast (fields 58 '':a::b:'')) @ [last (fields 58 '':a::b:'')]
    in (\<exists>a'. argz_create_sep no_argz '':a::b:'' 58 [] = Some (NOERR, a', []) \<and> argz_rep a' fs)
     \<and> (\<exists>a'. argz_add_sep no_argz '':a::b:'' 58 [] = Some (NOERR, a', []) \<and> argz_rep a' ([] @ fs))"
    by (rule argz_sep_fields) (simp_all add: argz_rep_empty)
  ultimately show ?thesis by (simp only: Let_def) (simp del: fields.simps)
qed

lemma fields_no_delim: "\<forall>c \<in> set s. schar c \<noteq> d \<Longrightarrow> fields d s = [s]"
  by (induction s) auto

lemma fields_append:
  "\<forall>c \<in> set s. schar c \<noteq> d \<Longrightarrow> schar sep = d \<Longrightarrow> fields d (s @ sep # t) = s # fields d t"
  by (induction s) (auto split: list.split)

definition sep_free :: "char \<Rightarrow> string list \<Rightarrow> bool" where
  "sep_free sep es \<longleftrightarrow> (\<forall>e \<in> set es. e \<noteq> [] \<and> sep \<notin> set e)"

lemma fields_str_join:
  "sep_free sep es \<Longrightarrow> es \<noteq> [] \<Longrightarrow> fields (schar sep) (str_join sep es) = es"
proof (induction sep es rule: str_join.induct)
  case (2 sep s)
  then show ?case by (auto simp: sep_free_def intro!: fields_no_delim)
next
  case (3 sep s t es)
  then have "\<forall>c \<in> set s. schar c \<noteq> schar sep" by (auto simp: sep_free_def)
  with 3 show ?case by (simp add: fields_append sep_free_def)
qed (simp add: sep_free_def)

lemma str_join_nul_free: "nul_free es \<Longrightarrow> sep \<noteq> NUL \<Longrightarrow> NUL \<notin> set (str_join sep es)"
  by (induction sep es rule: str_join.induct) auto

lemma length_str_join: "length (str_join sep es) \<le> length (argz_join es)"
  by (induction sep es rule: str_join.induct) auto

lemma length_str_join_less: "es \<noteq> [] \<Longrightarrow> length (str_join sep es) < length (argz_join es)"
  by (induction sep es rule: str_join.induct) auto

text \<open>C2: argz_stringify turns a vector into one string, the entries joined by the separator and
  terminated where the vector ended; splitting that string with argz_create_sep gives the entries
  back when none is empty and none holds the separator.\<close>

theorem argz_stringify_sep:
  assumes "argz_rep a es" and "es \<noteq> []" and "sep \<noteq> NUL" and "sep_free sep es"
    and "alloc os = (True, os')"
  shows "\<exists>rest a'. argz_stringify (argz_mem a) (argz_len a) sep = Some (str_join sep es @ NUL # rest)
    \<and> argz_create_sep no_argz (str_join sep es) (schar sep) os = Some (NOERR, a', os')
    \<and> argz_rep a' es"
proof -
  obtain rest where r: "argz_stringify (argz_mem a) (argz_len a) sep = Some (str_join sep es @ NUL # rest)"
    using assms(1,2) by (rule argz_stringify_rep)
  have flds: "fields (schar sep) (str_join sep es) = es" using assms by (simp add: fields_str_join)
  then have ne: "str_join sep es \<noteq> []" using assms(2,4) by (cases es) (auto simp: sep_free_def)
  have "filter (\<lambda>e. e \<noteq> []) (butlast es) @ [last es] = es"
  proof -
    have "filter (\<lambda>e. e \<noteq> []) (butlast es) = butlast es"
      using assms(4) by (auto simp: sep_free_def filter_id_conv dest: in_set_butlastD)
    with assms(2) show ?thesis by simp
  qed
  moreover obtain f gs where "fields (schar sep) (str_join sep es) = f # gs"
    by (cases "fields (schar sep) (str_join sep es)") auto
  ultimately have se: "sep_entries (schar sep) [] (str_join sep es) = es"
    using sep_entries_fields [of "schar sep" "str_join sep es" f gs "[]"] flds by simp
  have len: "length (str_join sep es) + 1 < 2 ^ 64"
    using length_str_join_less [OF assms(2), of sep] assms(1) by (simp add: argz_rep_def)
  obtain a' where "argz_create_sep no_argz (str_join sep es) (schar sep) os = Some (NOERR, a', os')"
    and "argz_rep a' (sep_entries (schar sep) [] (str_join sep es))"
    by (rule argz_create_sep_rep [OF _ _ ne len assms(5), of "schar sep" no_argz])
      (use assms str_join_nul_free [of es sep] in \<open>auto simp: argz_rep_def\<close>)
  with r se show ?thesis by auto
qed

theorem argz_stringify_sep_witness:
  "\<exists>a'. argz_create_sep no_argz ''ab:c'' (schar CHR '':'') [] = Some (NOERR, a', [])
    \<and> argz_rep a' [''ab'', ''c'']"
proof -
  have "argz_rep \<lparr>argz_buf = Some (argz_join [''ab'', ''c'']), argz_len = 5\<rparr> [''ab'', ''c'']"
    by (simp add: argz_rep_def argz_mem_def)
  from argz_stringify_sep [OF this, of "CHR '':''" "[]" "[]"] show ?thesis
    by (auto simp: sep_free_def)
qed

text \<open>C1: argz_replace rewrites every entry, all occurrences from left to right, and raises the
  counter by the number of entries that have an occurrence (not by the number of
  occurrences).\<close>

theorem argz_replace_entries:
  assumes "argz_rep a es" and "NUL \<notin> set subst" and "all_ok os" and "count_ok count"
    and "length (argz_join (map (subst_all s tr subst) es)) < 2 ^ 64"
  shows "\<exists>a' os'. argz_replace a (Some (s # tr)) subst count os
      = Some (NOERR, a', bump (hits (s # tr) es) count, os')
    \<and> argz_rep a' (map (subst_all s tr subst) es)"
  using argz_replace_rep [OF assms(1,2,3,4,5)] by metis

theorem argz_replace_entries_witness:
  "\<exists>a' os'. argz_replace \<lparr>argz_buf = Some (argz_join [''aXbX'', ''c'']), argz_len = 7\<rparr>
      (Some ''X'') ''yy'' (Some 0) [] = Some (NOERR, a', Some 1, os')
    \<and> argz_rep a' [''ayybyy'', ''c'']"
proof -
  have rep: "argz_rep \<lparr>argz_buf = Some (argz_join [''aXbX'', ''c'']), argz_len = 7\<rparr> [''aXbX'', ''c'']"
    by (simp add: argz_rep_def argz_mem_def)
  have "map (subst_all CHR ''X'' [] ''yy'') [''aXbX'', ''c''] = [''ayybyy'', ''c'']" by code_simp
  moreover have "hits ''X'' [''aXbX'', ''c''] = 1" by code_simp
  ultimately show ?thesis
    using argz_replace_entries [OF rep, of "''yy''" "[]" "Some 0" "CHR ''X''" "[]"]
    by (simp add: all_ok_def count_ok_def bump_def)
qed

text \<open>C0: When argz_replace reports an error, whichever allocation failed, the caller's vector is
  the one it was.\<close>

theorem argz_replace_atomic:
  assumes "argz_replace a str subst count os = Some (err, a', count', os')" and "err \<noteq> NOERR"
  shows "a' = a"
  using assms by (rule argz_replace_error)

theorem argz_replace_atomic_witness:
  "fst (snd (the (argz_replace \<lparr>argz_buf = Some (argz_join [''aX'']), argz_len = 3\<rparr>
      (Some ''X'') ''y'' None [False])))
    = \<lparr>argz_buf = Some (argz_join [''aX'']), argz_len = 3\<rparr>"
proof -
  have "argz_replace \<lparr>argz_buf = Some (argz_join [''aX'']), argz_len = 3\<rparr>
      (Some ''X'') ''y'' None [False]
    = Some (ENOMEM, \<lparr>argz_buf = Some (argz_join [''aX'']), argz_len = 3\<rparr>, None, [])"
    by (simp add: argz_replace_def replace_loop.simps argz_next_def cstr_at_def c_strlen_def
        c_strstr.simps)
  from argz_replace_atomic [OF this] this show ?thesis by simp
qed

text \<open>C7: When the reallocation of argz_add_sep fails, ENOMEM comes with the vector's pointer set
  to NULL while its length still counts the lost bytes: a vector with entries does not survive the
  error.\<close>

theorem argz_add_sep_loses_vector:
  assumes "argz_rep a es" and "es \<noteq> []" and "s \<noteq> []" and "length s + 1 < 2 ^ 64"
    and "alloc os = (False, os')"
  shows "\<exists>a'. argz_add_sep a s d os = Some (ENOMEM, a', os') \<and> argz_buf a' = None
    \<and> argz_len a' = argz_len a \<and> 0 < argz_len a' \<and> (\<forall>fs. \<not> argz_rep a' fs)"
proof -
  have pos: "0 < argz_len a" using assms(1,2) by (simp add: argz_rep_def)
  have "\<not> argz_rep (a\<lparr>argz_buf := None\<rparr>) fs" for fs
    using pos by (auto simp: argz_rep_def)
  with pos argz_add_sep_fail [OF assms(3-5), of a d] show ?thesis by auto
qed

theorem argz_add_sep_loses_vector_witness:
  "\<exists>a'. argz_add_sep \<lparr>argz_buf = Some (argz_join [''a'']), argz_len = 2\<rparr> ''b'' 58 [False]
      = Some (ENOMEM, a', []) \<and> argz_len a' = 2 \<and> argz_buf a' = None"
proof -
  have "argz_rep \<lparr>argz_buf = Some (argz_join [''a'']), argz_len = 2\<rparr> [''a'']"
    by (simp add: argz_rep_def argz_mem_def)
  from argz_add_sep_loses_vector [OF this, of "''b''" "[False]" "[]" 58] show ?thesis by auto
qed

end
