(* ===== verification/Strings.thy ===== *)
theory Strings
  imports Prelude
begin

unbundle bit_operations_syntax

text \<open>
  The memory routines of src/src/string: memrchr.c, mempcpy.c and strchrnul.c. The last reads a
  machine word at a time, beyond the end of the string; it is modelled on an address space in
  which an address is mapped to a byte or is not mapped at all, reading an unmapped address
  (or looping for ever) being \<open>None\<close>.
\<close>

section \<open>Operations\<close>

subsection \<open>memrchr.c and mempcpy.c\<close>

text \<open>The loop counts \<open>n\<close> down; \<open>cp\<close> is the address behind the byte read next.\<close>

fun memrchr_loop :: "char list \<Rightarrow> nat \<Rightarrow> nat \<Rightarrow> nat \<Rightarrow> nat option option" where
  "memrchr_loop b cp c 0 = Some None"
| "memrchr_loop b cp c (Suc n) =
     (case mem_read b (cp - 1) of None \<Rightarrow> None
      | Some x \<Rightarrow> if uchar x = c then Some (Some (cp - 1)) else memrchr_loop b (cp - 1) c n)"

definition memrchr :: "char list \<Rightarrow> nat \<Rightarrow> int \<Rightarrow> nat \<Rightarrow> nat option option" where
  "memrchr b s c n = (if n \<noteq> 0 then memrchr_loop b (s + n) (nat (c mod 256)) n else Some None)"

text \<open>The destination block after the copy, and the address behind the bytes written.\<close>

definition mempcpy :: "char list \<Rightarrow> nat \<Rightarrow> char list \<Rightarrow> nat \<Rightarrow> nat \<Rightarrow> (char list \<times> nat) option" where
  "mempcpy dst d src s len =
     (if s + len \<le> length src
      then do { b \<leftarrow> mem_write dst d (take len (drop s src)); Some (b, d + len) }
      else None)"

subsection \<open>strchrnul.c\<close>

type_synonym memory = "nat \<Rightarrow> char option"

definition ONES :: "64 word" where
  "ONES = (- 1) div 255"

definition HIGHS :: "64 word" where
  "HIGHS = ONES * (255 div 2 + 1)"

definition HASZERO :: "64 word \<Rightarrow> bool" where
  "HASZERO x \<longleftrightarrow> (x - ONES) AND (NOT x) AND HIGHS \<noteq> 0"

text \<open>The little-endian word at an address.\<close>

fun le_int :: "char list \<Rightarrow> int" where
  "le_int [] = 0"
| "le_int (c # cs) = int (uchar c) + 256 * le_int cs"

definition load_word :: "memory \<Rightarrow> nat \<Rightarrow> 64 word option" where
  "load_word mem w = map_option (\<lambda>bs. word_of_int (le_int bs)) (those (map mem [w..<w + 8]))"

partial_function (option) mem_strlen :: "memory \<Rightarrow> nat \<Rightarrow> nat \<Rightarrow> nat option" where
  "mem_strlen mem s n =
     (case mem (s + n) of None \<Rightarrow> None
      | Some b \<Rightarrow> if b = NUL then Some n else mem_strlen mem s (n + 1))"

text \<open>The first loop, up to an aligned address; \<open>True\<close> when it returned from the function.\<close>

partial_function (option) align_loop :: "memory \<Rightarrow> nat \<Rightarrow> nat \<Rightarrow> (nat \<times> bool) option" where
  "align_loop mem c s =
     (if s mod 8 \<noteq> 0 then
        (case mem s of None \<Rightarrow> None
         | Some b \<Rightarrow> if b = NUL \<or> uchar b = c then Some (s, True) else align_loop mem c (s + 1))
      else Some (s, False))"

partial_function (option) word_loop :: "memory \<Rightarrow> 64 word \<Rightarrow> nat \<Rightarrow> nat option" where
  "word_loop mem k w =
     (case load_word mem w of None \<Rightarrow> None
      | Some x \<Rightarrow> if \<not> HASZERO x \<and> \<not> HASZERO (x XOR k) then word_loop mem k (w + 8) else Some w)"

partial_function (option) byte_loop :: "memory \<Rightarrow> nat \<Rightarrow> nat \<Rightarrow> nat option" where
  "byte_loop mem c s =
     (case mem s of None \<Rightarrow> None
      | Some b \<Rightarrow> if b \<noteq> NUL \<and> uchar b \<noteq> c then byte_loop mem c (s + 1) else Some s)"

definition strchrnul :: "memory \<Rightarrow> nat \<Rightarrow> int \<Rightarrow> nat option" where
  "strchrnul mem s c =
     (let c = nat (c mod 256)
      in if c = 0 then map_option (\<lambda>n. s + n) (mem_strlen mem s 0)
         else do { (s, returned) \<leftarrow> align_loop mem c s;
                   if returned then Some s
                   else do { w \<leftarrow> word_loop mem (ONES * of_nat c) s; byte_loop mem c w } })"

section \<open>memrchr and mempcpy\<close>

lemma memrchr_loop_spec:
  "s + n \<le> length b \<Longrightarrow> memrchr_loop b (s + n) c n = Some
     (if \<exists>i<n. uchar (b ! (s + i)) = c then Some (s + (GREATEST i. i < n \<and> uchar (b ! (s + i)) = c)) else None)"
proof (induction n)
  case (Suc n)
  have rd: "mem_read b (s + n) = Some (b ! (s + n))" using Suc.prems by (simp add: mem_read_def)
  show ?case
  proof (cases "uchar (b ! (s + n)) = c")
    case True
    then have "(GREATEST i. i < Suc n \<and> uchar (b ! (s + i)) = c) = n"
      by (intro Greatest_equality) auto
    with True rd show ?thesis by auto
  next
    case False
    then have "i < Suc n \<and> uchar (b ! (s + i)) = c \<longleftrightarrow> i < n \<and> uchar (b ! (s + i)) = c" for i
      by (auto simp: less_Suc_eq)
    with False rd Suc show ?thesis by simp
  qed
qed simp

text \<open>\<open>memrchr\<close> finds the last occurrence of the byte in the region and nothing outside it.\<close>

theorem memrchr_last:
  assumes "s + n \<le> length b"
  shows "memrchr b s c n = Some
     (if \<exists>i<n. int (uchar (b ! (s + i))) = c mod 256
      then Some (s + (GREATEST i. i < n \<and> int (uchar (b ! (s + i))) = c mod 256)) else None)"
proof -
  have "uchar x = nat (c mod 256) \<longleftrightarrow> int (uchar x) = c mod 256" for x by auto
  with memrchr_loop_spec [OF assms, of "nat (c mod 256)"] show ?thesis
    by (cases "n = 0") (simp_all add: memrchr_def)
qed

theorem memrchr_last_witness:
  "memrchr ''abcabc'' 1 97 4 = Some (Some 3)"
proof -
  have "(GREATEST i. i < 4 \<and> int (uchar (''abcabc'' ! (1 + i))) = 97) = 2"
    by (intro Greatest_equality) (auto simp: uchar_def less_Suc_eq numeral_eq_Suc)
  moreover have "\<exists>i<4. int (uchar (''abcabc'' ! (1 + i))) = 97"
    by (intro exI [of _ 2]) (simp add: uchar_def)
  ultimately show ?thesis
    using memrchr_last [of 1 4 "''abcabc''" 97] by simp
qed

section \<open>The zero test\<close>

lemma int_split: "(x :: int) = take_bit 8 x + 256 * drop_bit 8 x"
  by (simp add: take_bit_eq_mod drop_bit_eq_div)

lemma int_join:
  assumes "0 \<le> b" and "b < (256 :: int)"
  shows "take_bit 8 (b + 256 * y) = b" and "drop_bit 8 (b + 256 * y) = y"
  using assms by (simp_all add: take_bit_eq_mod drop_bit_eq_div)

lemma join_eq_0: "0 \<le> a \<Longrightarrow> a < 256 \<Longrightarrow> a + 256 * b = 0 \<longleftrightarrow> a = 0 \<and> b = (0 :: int)"
  by (cases b "0 :: int" rule: linorder_cases) auto

lemma and_split: "(x AND y :: int) = 0 \<longleftrightarrow> take_bit 8 x AND take_bit 8 y = 0 \<and> drop_bit 8 x AND drop_bit 8 y = 0"
proof -
  have "x AND y = (take_bit 8 x AND take_bit 8 y) + 256 * (drop_bit 8 x AND drop_bit 8 y)"
    using int_split [of "x AND y"] by (simp only: take_bit_and drop_bit_and)
  moreover have "0 \<le> take_bit 8 x AND take_bit 8 y" "take_bit 8 x AND take_bit 8 y < 256"
    using take_bit_int_less_exp [of 8 "x AND y"] by (simp_all flip: take_bit_and)
  ultimately show ?thesis using join_eq_0 by metis
qed

fun ones_int :: "nat \<Rightarrow> int" where
  "ones_int 0 = 0"
| "ones_int (Suc n) = 1 + 256 * ones_int n"

lemma byte_test:
  assumes "0 \<le> b" and "b < (256 :: int)"
  shows "take_bit 8 (b - 1) AND (255 - b) AND 128 = 0 \<longleftrightarrow> b \<noteq> 0"
proof -
  have bit7: "x AND 128 = 0 \<longleftrightarrow> \<not> bit x 7" for x :: int
  proof -
    have p: "(128 :: int) = 2 ^ 7" by simp
    show ?thesis unfolding p by (rule and_exp_eq_0_iff_not_bit)
  qed
  have "odd (take_bit 8 (b - 1) div 128) \<and> odd ((255 - b) div 128) \<longleftrightarrow> b = 0"
  proof (cases "b = 0")
    case True
    then show ?thesis by (simp add: take_bit_eq_mod)
  next
    case False
    then have "take_bit 8 (b - 1) = b - 1" using assms by (simp add: take_bit_eq_mod)
    moreover have "\<not> (odd ((b - 1) div 128) \<and> odd ((255 - b) div 128))"
    proof (cases "b - 1 < 128")
      case True
      with False assms have "(b - 1) div 128 = 0" by simp
      then show ?thesis by simp
    next
      case False
      with assms have "(255 - b) div 128 = 0" by simp
      then show ?thesis by simp
    qed
    ultimately show ?thesis using False by simp
  qed
  then show ?thesis
    unfolding and.assoc [symmetric] bit7 bit_and_iff by (simp add: bit_iff_odd)
qed

lemma pred_byte: "0 < b \<Longrightarrow> b < (256 :: int) \<Longrightarrow> take_bit 8 (b - 1) = b - 1"
  by (simp add: take_bit_int_eq_self)

lemma haszero_int:
  "(le_int cs - ones_int (length cs)) AND (NOT (le_int cs)) AND (128 * ones_int (length cs)) = 0
     \<longleftrightarrow> NUL \<notin> set cs"
proof (induction cs)
  case (Cons c cs)
  let ?b = "int (uchar c)" and ?x = "le_int cs" and ?o = "ones_int (length cs)"
  have b: "0 \<le> ?b" "?b < 256" by simp_all
  have n: "NOT (?b + 256 * ?x) = (255 - ?b) + 256 * NOT ?x" by (simp add: not_int_def)
  have h: "128 * (1 + 256 * ?o) = 128 + 256 * (128 * ?o)" by simp
  have m: "?b + 256 * ?x - (1 + 256 * ?o) = take_bit 8 (?b - 1) + 256 * (?x - ?o - (if ?b = 0 then 1 else 0))"
  proof (cases "?b = 0")
    case True
    then show ?thesis by (simp add: take_bit_eq_mod)
  next
    case False
    then have "take_bit 8 (?b - 1) = ?b - 1" using b by (intro pred_byte) linarith+
    with False show ?thesis by simp
  qed
  have t: "0 \<le> take_bit 8 (?b - 1)" "take_bit 8 (?b - 1) < (256 :: int)"
    by (simp_all add: take_bit_eq_mod)
  have "(?b + 256 * ?x - (1 + 256 * ?o)) AND NOT (?b + 256 * ?x) AND (128 * (1 + 256 * ?o)) = 0
      \<longleftrightarrow> take_bit 8 (?b - 1) AND (255 - ?b) AND 128 = 0
        \<and> (?x - ?o - (if ?b = 0 then 1 else 0)) AND NOT ?x AND (128 * ?o) = 0"
    unfolding m n h and_split [of "take_bit 8 (?b - 1) + _"]
    using t b by (simp only: take_bit_and drop_bit_and int_join)
  also have "\<dots> \<longleftrightarrow> ?b \<noteq> 0 \<and> (?x - ?o) AND NOT ?x AND (128 * ?o) = 0"
    using byte_test [OF b] by auto
  also have "\<dots> \<longleftrightarrow> NUL \<notin> set (c # cs)" using Cons by auto
  finally show ?case by simp
qed simp

lemma ones_int_8: "ones_int 8 = 0x0101010101010101"
  by (simp add: numeral_eq_Suc)

lemma ONES_val: "ONES = 0x0101010101010101"
  unfolding ONES_def by code_simp

lemma HIGHS_val: "HIGHS = 0x8080808080808080"
  unfolding HIGHS_def ONES_val by code_simp

lemma HASZERO_le_int:
  assumes "length cs = 8"
  shows "HASZERO (word_of_int (le_int cs)) \<longleftrightarrow> NUL \<in> set cs"
proof -
  let ?x = "le_int cs" and ?h = "128 * ones_int 8"
  have w0: "(word_of_int k :: 64 word) = 0 \<longleftrightarrow> take_bit 64 k = 0" for k
    by (simp add: word_of_int_eq_0_iff take_bit_eq_0_iff)
  have o: "ONES = word_of_int (ones_int 8)" and h: "HIGHS = word_of_int ?h"
    by (simp_all add: ONES_val HIGHS_val ones_int_8)
  have hb: "0 \<le> ?h" "?h < 2 ^ 64" by (simp_all add: ones_int_8)
  have "(?x - ones_int 8) AND NOT ?x AND ?h = take_bit 64 ((?x - ones_int 8) AND NOT ?x AND ?h)"
  proof (rule sym, rule take_bit_int_eq_self)
    have "0 \<le> NOT ?x AND ?h" "NOT ?x AND ?h \<le> ?h" using hb by (simp_all add: AND_upper2)
    then show "0 \<le> (?x - ones_int 8) AND NOT ?x AND ?h"
      and "(?x - ones_int 8) AND NOT ?x AND ?h < 2 ^ 64"
      using hb AND_upper2 [of "NOT ?x AND ?h" "?x - ones_int 8"] by simp_all
  qed
  moreover have "(word_of_int ?x - ONES) AND NOT (word_of_int ?x) AND HIGHS
      = word_of_int ((?x - ones_int 8) AND NOT ?x AND ?h)"
    unfolding o h by (simp only: of_int_and_eq of_int_not_eq of_int_diff)
  ultimately have "HASZERO (word_of_int ?x) \<longleftrightarrow> (?x - ones_int 8) AND NOT ?x AND ?h \<noteq> 0"
    using w0 [of "(?x - ones_int 8) AND NOT ?x AND ?h"] by (simp only: HASZERO_def)
  then show ?thesis using haszero_int [of cs] assms by simp
qed

text \<open>XOR with the repeated byte makes that byte zero and no other.\<close>

lemma xor_join:
  assumes "0 \<le> a" "a < (256 :: int)" "0 \<le> b" "b < 256"
  shows "(a + 256 * x) XOR (b + 256 * y) = (a XOR b) + 256 * (x XOR y)"
  using int_split [of "(a + 256 * x) XOR (b + 256 * y)"] assms
  by (simp only: take_bit_xor drop_bit_xor int_join)

definition char_xor :: "nat \<Rightarrow> char \<Rightarrow> char" where
  "char_xor c x = char_of (uchar x XOR c)"

lemma uchar_char_xor:
  assumes "c < 256"
  shows "uchar (char_xor c x) = uchar x XOR c"
proof -
  have "int (uchar x) < 256" by simp
  then have "take_bit 8 (uchar x) = uchar x" "take_bit 8 c = c"
    using assms by (simp_all add: take_bit_nat_eq_self_iff)
  then have "take_bit 8 (uchar x XOR c) = uchar x XOR c" by (simp only: take_bit_xor)
  then show ?thesis by (simp add: char_xor_def uchar_def take_bit_eq_mod)
qed

lemma char_xor_NUL: "c < 256 \<Longrightarrow> char_xor c x = NUL \<longleftrightarrow> uchar x = c"
proof -
  assume c: "c < 256"
  have "uchar x XOR c = 0 \<longleftrightarrow> uchar x = c"
    by (metis xor.assoc xor_self_eq xor.left_neutral xor.right_neutral)
  with uchar_eq_0_iff [of "char_xor c x"] c show ?thesis by (simp add: uchar_char_xor)
qed

lemma le_int_xor:
  "c < 256 \<Longrightarrow> le_int bs XOR (ones_int (length bs) * int c) = le_int (map (char_xor c) bs)"
proof (induction bs)
  case (Cons b bs)
  have r: "(1 + 256 * ones_int (length bs)) * int c = int c + 256 * (ones_int (length bs) * int c)"
    by (simp add: algebra_simps)
  have lt: "int (uchar b) < 256" by simp
  have "(int (uchar b) + 256 * le_int bs) XOR (int c + 256 * (ones_int (length bs) * int c))
      = (int (uchar b) XOR int c) + 256 * (le_int bs XOR (ones_int (length bs) * int c))"
    by (rule xor_join) (use lt Cons.prems in simp_all)
  moreover have "int (uchar b) XOR int c = int (uchar (char_xor c b))"
    using Cons.prems by (simp add: uchar_char_xor of_nat_xor_eq)
  ultimately show ?case using Cons r by simp
qed simp

lemma those_map_Some: "\<forall>x \<in> set xs. f x = Some (g x) \<Longrightarrow> those (map f xs) = Some (map g xs)"
  by (induction xs) simp_all

text \<open>The byte that ends the search, and the address where it is.\<close>

definition stop_byte :: "nat \<Rightarrow> char \<Rightarrow> bool" where
  "stop_byte c b \<longleftrightarrow> b = NUL \<or> uchar b = c"

definition stops_at :: "memory \<Rightarrow> nat \<Rightarrow> nat \<Rightarrow> nat \<Rightarrow> bool" where
  "stops_at mem c s e \<longleftrightarrow> s \<le> e \<and> (\<exists>b. mem e = Some b \<and> stop_byte c b) \<and>
     (\<forall>a. s \<le> a \<longrightarrow> a < e \<longrightarrow> (\<exists>b. mem a = Some b \<and> \<not> stop_byte c b))"

lemma stops_at_step: "stops_at mem c s e \<Longrightarrow> s < e \<Longrightarrow> stops_at mem c (Suc s) e"
  by (auto simp: stops_at_def)

lemma align_loop_stops:
  "stops_at mem c s e \<Longrightarrow> \<exists>s' r. align_loop mem c s = Some (s', r) \<and> stops_at mem c s' e
     \<and> (if r then s' = e else s' mod 8 = 0)"
proof (induction "e - s" arbitrary: s)
  case 0
  then have e: "s = e" by (simp add: stops_at_def)
  then obtain b where "mem s = Some b" "b = NUL \<or> uchar b = c"
    using 0(2) by (auto simp: stops_at_def stop_byte_def)
  then have "align_loop mem c s = Some (s, s mod 8 \<noteq> 0)"
    by (simp add: align_loop.simps [of mem c s])
  with 0(2) e show ?case by simp
next
  case (Suc n)
  then have lt: "s < e" by simp
  then obtain b where b: "mem s = Some b" "\<not> stop_byte c b" using Suc.prems by (auto simp: stops_at_def)
  have "n = e - Suc s" using Suc.hyps(2) by simp
  from Suc.hyps(1) [OF this stops_at_step [OF Suc.prems lt]] b Suc.prems show ?case
    by (cases "s mod 8 = 0") (auto simp: align_loop.simps [of _ _ s] stop_byte_def)
qed

text \<open>An aligned word is mapped as a whole or not at all.\<close>

definition words_mapped :: "memory \<Rightarrow> bool" where
  "words_mapped mem \<longleftrightarrow> (\<forall>a a'. a div 8 = a' div 8 \<longrightarrow> mem a \<noteq> None \<longrightarrow> mem a' \<noteq> None)"

lemma load_aligned:
  assumes "words_mapped mem" and "w mod 8 = 0" and "mem w \<noteq> None"
  obtains bs where "load_word mem w = Some (word_of_int (le_int bs))"
    and "length bs = 8" and "\<And>i. i < 8 \<Longrightarrow> mem (w + i) = Some (bs ! i)"
proof -
  have m: "mem a \<noteq> None" if "a \<in> set [w..<w + 8]" for a
  proof -
    have a: "w \<le> a" "a < w + 8" using that by auto
    obtain k where w: "w = 8 * k" using assms(2) by (auto simp: mod_eq_0_iff_dvd)
    with a have "a = 8 * k + (a - w)" "a - w < 8" by simp_all
    then have "a div 8 = k" by (metis div_mult_self4 div_less add_0_right zero_neq_numeral)
    with w have "w div 8 = a div 8" by simp
    with assms(1,3) show ?thesis unfolding words_mapped_def by blast
  qed
  then have th: "those (map mem [w..<w + 8]) = Some (map (\<lambda>a. the (mem a)) [w..<w + 8])"
    by (intro those_map_Some) auto
  show ?thesis
  proof (rule that)
    show "load_word mem w = Some (word_of_int (le_int (map (\<lambda>a. the (mem a)) [w..<w + 8])))"
      by (simp only: load_word_def th option.map)
    show "mem (w + i) = Some (map (\<lambda>a. the (mem a)) [w..<w + 8] ! i)" if "i < 8" for i
      using m [of "w + i"] that by (simp del: upt_Suc)
  qed simp
qed

lemma word_test:
  assumes "length bs = 8" and "c < 256"
  shows "HASZERO (word_of_int (le_int bs)) \<or> HASZERO (word_of_int (le_int bs) XOR (ONES * of_nat c))
    \<longleftrightarrow> (\<exists>b \<in> set bs. stop_byte c b)"
proof -
  have "word_of_int (le_int bs) XOR (ONES * of_nat c)
      = (word_of_int (le_int bs XOR (ones_int 8 * int c)) :: 64 word)"
    by (simp add: ONES_val ones_int_8 of_int_xor_eq)
  also have "\<dots> = word_of_int (le_int (map (char_xor c) bs))"
    using le_int_xor [OF assms(2), of bs] assms(1) by simp
  finally have x: "word_of_int (le_int bs) XOR (ONES * of_nat c)
      = (word_of_int (le_int (map (char_xor c) bs)) :: 64 word)" .
  have "NUL \<in> set (map (char_xor c) bs) \<longleftrightarrow> (\<exists>b \<in> set bs. uchar b = c)"
    unfolding set_map image_iff using char_xor_NUL [OF assms(2)] by metis
  then show ?thesis
    using HASZERO_le_int [of bs] HASZERO_le_int [of "map (char_xor c) bs"] assms(1)
    unfolding x stop_byte_def by auto
qed

lemma word_loop_stops:
  assumes "words_mapped mem" and "c < 256"
  shows "stops_at mem c w e \<Longrightarrow> w mod 8 = 0 \<Longrightarrow>
    \<exists>w'. word_loop mem (ONES * of_nat c) w = Some w' \<and> stops_at mem c w' e"
proof (induction "e - w" arbitrary: w rule: less_induct)
  case less
  have "mem w \<noteq> None" using less.prems(1) by (cases "w = e") (auto simp: stops_at_def)
  then obtain bs where bs: "load_word mem w = Some (word_of_int (le_int bs))" "length bs = 8"
      "\<And>i. i < 8 \<Longrightarrow> mem (w + i) = Some (bs ! i)"
    using load_aligned assms(1) less.prems(2) by metis
  show ?case
  proof (cases "\<exists>b \<in> set bs. stop_byte c b")
    case True
    then show ?thesis
      using word_test [OF bs(2) assms(2)] bs(1) less.prems(1)
      by (auto simp: word_loop.simps [of _ _ w])
  next
    case False
    have far: "w + 8 \<le> e"
    proof (rule ccontr)
      assume "\<not> w + 8 \<le> e"
      then have "e - w < 8" "w + (e - w) = e" using less.prems(1) by (auto simp: stops_at_def)
      with bs(3) [of "e - w"] less.prems(1) have "stop_byte c (bs ! (e - w))"
        by (auto simp: stops_at_def)
      with False \<open>e - w < 8\<close> bs(2) show False by simp
    qed
    then have "stops_at mem c (w + 8) e" using less.prems(1) by (auto simp: stops_at_def)
    moreover have "e - (w + 8) < e - w" using far by simp
    ultimately have "\<exists>w'. word_loop mem (ONES * of_nat c) (w + 8) = Some w' \<and> stops_at mem c w' e"
      using less.hyps less.prems(2) by simp
    then show ?thesis
      using word_test [OF bs(2) assms(2)] bs(1) False by (auto simp: word_loop.simps [of _ _ w])
  qed
qed

lemma byte_loop_stops: "stops_at mem c s e \<Longrightarrow> byte_loop mem c s = Some e"
proof (induction "e - s" arbitrary: s)
  case 0
  then have "s = e" by (simp add: stops_at_def)
  with 0 show ?case by (auto simp: stops_at_def stop_byte_def byte_loop.simps [of _ _ e])
next
  case (Suc n)
  then have lt: "s < e" by simp
  then obtain b where b: "mem s = Some b" "\<not> stop_byte c b" using Suc.prems by (auto simp: stops_at_def)
  have "n = e - Suc s" using Suc.hyps(2) by simp
  from Suc.hyps(1) [OF this stops_at_step [OF Suc.prems lt]] b show ?case
    by (auto simp: byte_loop.simps [of _ _ s] stop_byte_def)
qed

section \<open>strchrnul\<close>

text \<open>A C string at an address.\<close>

definition string_at :: "memory \<Rightarrow> nat \<Rightarrow> string \<Rightarrow> bool" where
  "string_at mem s str \<longleftrightarrow> NUL \<notin> set str \<and> (\<forall>i \<le> length str. mem (s + i) = Some ((str @ [NUL]) ! i))"

lemma string_at_stops:
  assumes "string_at mem s str"
  shows "stops_at mem c s (s + length (takeWhile (\<lambda>x. uchar x \<noteq> c) str))"
proof -
  let ?n = "length (takeWhile (\<lambda>x. uchar x \<noteq> c) str)"
  have le: "?n \<le> length str" by (rule length_takeWhile_le)
  have m: "mem (s + i) = Some ((str @ [NUL]) ! i)" if "i \<le> ?n" for i
    using assms that le by (simp add: string_at_def)
  have hit: "stop_byte c ((str @ [NUL]) ! ?n)"
    using nth_length_takeWhile [of "\<lambda>x. uchar x \<noteq> c" str]
    by (cases "?n < length str") (use le in \<open>simp_all add: stop_byte_def nth_append\<close>)
  have miss: "\<not> stop_byte c ((str @ [NUL]) ! i)" if "i < ?n" for i
  proof -
    have "i < length str" using that le by simp
    moreover have "uchar (str ! i) \<noteq> c"
    proof -
      have "takeWhile (\<lambda>x. uchar x \<noteq> c) str ! i \<in> set (takeWhile (\<lambda>x. uchar x \<noteq> c) str)"
        using that by (rule nth_mem)
      then show ?thesis using takeWhile_nth [OF that] by (auto dest: set_takeWhileD)
    qed
    moreover have "str ! i \<noteq> NUL" using assms nth_mem [OF \<open>i < length str\<close>] by (auto simp: string_at_def)
    ultimately show ?thesis by (simp add: stop_byte_def nth_append)
  qed
  have "\<exists>b. mem a = Some b \<and> \<not> stop_byte c b" if "s \<le> a" "a < s + ?n" for a
    using m [of "a - s"] miss [of "a - s"] that by simp
  with m [of ?n] hit show ?thesis unfolding stops_at_def by simp
qed

lemma mem_strlen_stops: "stops_at mem 0 (s + n) e \<Longrightarrow> mem_strlen mem s n = Some (e - s)"
proof (induction "e - (s + n)" arbitrary: n)
  case 0
  then have e: "s + n = e" by (simp add: stops_at_def)
  then have "mem e = Some NUL" using 0(2) by (auto simp: stops_at_def stop_byte_def)
  with e show ?case by (auto simp: mem_strlen.simps [of mem s n])
next
  case (Suc k)
  then have lt: "s + n < e" by simp
  then obtain b where b: "mem (s + n) = Some b" "b \<noteq> NUL"
    using Suc.prems by (auto simp: stops_at_def stop_byte_def)
  have "stops_at mem 0 (s + Suc n) e" using stops_at_step [OF Suc.prems lt] by simp
  moreover have "k = e - (s + Suc n)" using Suc.hyps(2) by simp
  ultimately have "mem_strlen mem s (Suc n) = Some (e - s)" using Suc.hyps(1) by blast
  with b show ?case by (simp add: mem_strlen.simps [of mem s n])
qed

text \<open>C8: strchrnul returns, without touching an unmapped address although it reads whole words
  beyond the terminator, and its result is the first occurrence of the character or else the
  terminator. All it needs is that an aligned eight-byte word is mapped as a whole or not at all,
  which page granularity gives.\<close>

theorem strchrnul_finds:
  assumes "words_mapped mem" and "string_at mem s str"
  shows "strchrnul mem s c = Some (s + length (takeWhile (\<lambda>x. int (uchar x) \<noteq> c mod 256) str))"
proof -
  let ?c = "nat (c mod 256)"
  let ?e = "s + length (takeWhile (\<lambda>x. uchar x \<noteq> ?c) str)"
  have "uchar x \<noteq> ?c \<longleftrightarrow> int (uchar x) \<noteq> c mod 256" for x by auto
  then have goal: "?e = s + length (takeWhile (\<lambda>x. int (uchar x) \<noteq> c mod 256) str)" by simp
  have st: "stops_at mem ?c s ?e" using string_at_stops [OF assms(2)] .
  have "strchrnul mem s c = Some ?e"
  proof (cases "?c = 0")
    case True
    then have "mem_strlen mem s 0 = Some (?e - s)" using mem_strlen_stops [of mem s 0 ?e] st by simp
    with True show ?thesis by (simp add: strchrnul_def)
  next
    case False
    obtain s' r where a: "align_loop mem ?c s = Some (s', r)" "stops_at mem ?c s' ?e"
        "if r then s' = ?e else s' mod 8 = 0"
      using align_loop_stops [OF st] by blast
    show ?thesis
    proof (cases r)
      case True
      with a False show ?thesis by (simp add: strchrnul_def)
    next
      case no: False
      have "?c < 256" by simp
      then obtain w where "word_loop mem (ONES * of_nat ?c) s' = Some w" "stops_at mem ?c w ?e"
        using word_loop_stops [OF assms(1) _ a(2)] a(3) no by auto
      with a(1) no False byte_loop_stops [of mem ?c w ?e] show ?thesis
        by (simp add: strchrnul_def Let_def)
    qed
  qed
  with goal show ?thesis by simp
qed

theorem strchrnul_finds_witness:
  "strchrnul (\<lambda>a. if 8 \<le> a \<and> a < 16 then Some (''..k=v...'' [2 := CHR ''k'', 5 := NUL] ! (a - 8)) else None) 10 61
    = Some 11"
proof -
  let ?m = "\<lambda>a. if 8 \<le> a \<and> a < 16 then Some (''..k=v...'' [2 := CHR ''k'', 5 := NUL] ! (a - 8)) else None"
  have "8 \<le> a \<and> a < 16 \<longleftrightarrow> a div 8 = (1 :: nat)" for a by presburger
  then have w: "words_mapped ?m" by (simp add: words_mapped_def)
  have "?m (10 + i) = Some ((''k=v'' @ [NUL]) ! i)" if "i \<le> 3" for i
  proof -
    have "i = 0 \<or> i = 1 \<or> i = 2 \<or> i = 3" using that by arith
    then show ?thesis by (elim disjE) simp_all
  qed
  then have "string_at ?m 10 ''k=v''" unfolding string_at_def by simp
  from strchrnul_finds [OF w this, of 61] show ?thesis by (simp add: uchar_def)
qed

end
