(* ===== verification/VersCmp.thy ===== *)
theory VersCmp
  imports Prelude "HOL-Library.Multiset"
begin

text \<open>
  The version comparison of src/src/string/strverscmp.c and the directory comparators of
  src/src/dirent that rest on it. A string argument is the block of its bytes up to and
  including the terminator; stepping past the block is \<open>None\<close>.
\<close>

section \<open>Operations\<close>

text \<open>The two tables, as they stand in the source (states \<open>S_N = 0\<close>, \<open>S_I = 3\<close>, \<open>S_F = 6\<close>,
  \<open>S_Z = 9\<close>; results \<open>CMP = 2\<close>, \<open>LEN = 3\<close>).\<close>

definition next_state :: "nat list" where
  "next_state =
    [0, 3, 9,
     0, 3, 3,
     0, 6, 6,
     0, 6, 9]"

definition result_type :: "int list" where
  "result_type =
    [2,  2,  2,  2, 3, 2,  2, 2, 2,
     2, -1, -1,  1, 3, 3,  1, 3, 3,
     2,  2,  2,  2, 2, 2,  2, 2, 2,
     2,  1,  1, -1, 2, 2, -1, 2, 2]"

text \<open>\<open>(c == '0') + (isdigit (c) != 0)\<close>\<close>

definition digit_class :: "char \<Rightarrow> nat" where
  "digit_class c = (if c = CHR ''0'' then 1 else 0) + (if isdigit c then 1 else 0)"

text \<open>The \<open>LEN\<close> case: the longer run of digits is the larger number.\<close>

fun vers_len :: "int \<Rightarrow> char list \<Rightarrow> char list \<Rightarrow> int option" where
  "vers_len diff [] p2 = None"
| "vers_len diff (a # p1) p2 =
     (if isdigit a then
        (case p2 of [] \<Rightarrow> None | b # p2 \<Rightarrow> if \<not> isdigit b then Some 1 else vers_len diff p1 p2)
      else (case p2 of [] \<Rightarrow> None | b # p2 \<Rightarrow> Some (if isdigit b then -1 else diff)))"

definition vers_result :: "nat \<Rightarrow> char \<Rightarrow> int \<Rightarrow> char list \<Rightarrow> char list \<Rightarrow> int option" where
  "vers_result state c2 diff p1 p2 =
     (let r = result_type ! (state * 3 + digit_class c2)
      in if r = 2 then Some diff
         else if r = 3 then vers_len diff p1 p2
         else Some r)"

text \<open>The first loop, \<open>c1\<close> and \<open>c2\<close> being the heads of the two lists.\<close>

fun vers_loop :: "nat \<Rightarrow> char list \<Rightarrow> char list \<Rightarrow> int option" where
  "vers_loop state (c1 # p1) (c2 # p2) =
     (let diff = int (uchar c1) - int (uchar c2)
      in if diff = 0 then
           if c1 = NUL then Some diff
           else (case p1 of [] \<Rightarrow> None
                 | c1' # _ \<Rightarrow> vers_loop (next_state ! state + digit_class c1') p1 p2)
         else vers_result state c2 diff p1 p2)"
| "vers_loop state _ _ = None"

definition strverscmp_body :: "char list \<Rightarrow> char list \<Rightarrow> int option" where
  "strverscmp_body p1 p2 =
     (case p1 of [] \<Rightarrow> None | c1 # _ \<Rightarrow> vers_loop (0 + digit_class c1) p1 p2)"

text \<open>\<open>same\<close> is the outcome of the pointer comparison \<open>p1 == p2\<close>.\<close>

definition strverscmp :: "bool \<Rightarrow> string \<Rightarrow> string \<Rightarrow> int option" where
  "strverscmp same s1 s2 = (if same then Some 0 else strverscmp_body (s1 @ [NUL]) (s2 @ [NUL]))"

record dirent =
  d_ino :: nat
  d_type :: nat
  d_name :: string

definition versionsort64 :: "dirent \<Rightarrow> dirent \<Rightarrow> int option" where
  "versionsort64 a b = strverscmp False (d_name a) (d_name b)"

definition versionsort :: "dirent \<Rightarrow> dirent \<Rightarrow> int option" where
  "versionsort a b = versionsort64 a b"

section \<open>Reference comparison\<close>

text \<open>
  The same comparison on plain strings: skip the common prefix, keeping the state, and decide
  at the first difference from the two characters and the lengths of the digit runs behind
  them.
\<close>

definition first :: "string \<Rightarrow> char" where
  "first s = (case s of [] \<Rightarrow> NUL | c # _ \<Rightarrow> c)"

definition run :: "string \<Rightarrow> nat" where
  "run s = length (takeWhile isdigit s)"

definition verdict :: "nat \<Rightarrow> char \<Rightarrow> char \<Rightarrow> nat \<Rightarrow> nat \<Rightarrow> int" where
  "verdict st c1 c2 m n =
     (let diff = int (uchar c1) - int (uchar c2);
          r = result_type ! ((st + digit_class c1) * 3 + digit_class c2)
      in if r = 2 then diff
         else if r = 3 then (if n < m then 1 else if m < n then -1 else diff)
         else r)"

fun ver_cmp :: "nat \<Rightarrow> string \<Rightarrow> string \<Rightarrow> int" where
  "ver_cmp st (c # s) (d # t) =
     (if c = d then ver_cmp (next_state ! (st + digit_class c)) s t
      else verdict st c d (run s) (run t))"
| "ver_cmp st [] [] = 0"
| "ver_cmp st (c # s) [] = verdict st c NUL (run s) 0"
| "ver_cmp st [] (d # t) = verdict st NUL d 0 (run t)"

lemma run_simps [simp]:
  "run [] = 0" "run (c # s) = (if isdigit c then Suc (run s) else 0)"
  by (simp_all add: run_def)

lemma digit_class_cases:
  obtains "digit_class c = 0" "\<not> isdigit c" | "digit_class c = 1" "isdigit c" "c \<noteq> CHR ''0''"
    | "digit_class c = 2" "c = CHR ''0''" "isdigit c"
  by (cases "c = CHR ''0''"; cases "isdigit c") (auto simp: digit_class_def isdigit_def uchar_def)

lemma digit_class_NUL [simp]: "digit_class NUL = 0"
  by (simp add: digit_class_def)

lemma vers_len_run:
  "NUL \<notin> set s \<Longrightarrow> NUL \<notin> set t \<Longrightarrow> vers_len diff (s @ [NUL]) (t @ [NUL])
    = Some (if run t < run s then 1 else if run s < run t then -1 else diff)"
proof (induction s arbitrary: t)
  case Nil
  then show ?case by (cases t) auto
next
  case (Cons c s)
  then show ?case by (cases t) auto
qed

text \<open>In the \<open>LEN\<close> case both characters are digits, so neither list ends before its run.\<close>

definition vers_state :: "nat \<Rightarrow> bool" where
  "vers_state st \<longleftrightarrow> st \<in> {0, 3, 6, 9}"

lemma vers_stateE:
  assumes "vers_state st"
  obtains "st = 0" | "st = 3" | "st = 6" | "st = 9"
  using assms by (auto simp: vers_state_def)

lemma vers_state_0 [simp]: "vers_state 0"
  by (simp add: vers_state_def)

lemma result_LEN_digits:
  "vers_state st \<Longrightarrow> result_type ! ((st + digit_class c) * 3 + digit_class d) = 3
    \<Longrightarrow> isdigit c \<and> isdigit d"
  by (cases c rule: digit_class_cases; cases d rule: digit_class_cases)
     (auto simp: result_type_def vers_state_def)

lemma next_state_in [simp]: "vers_state st \<Longrightarrow> vers_state (next_state ! (st + digit_class c))"
  by (cases c rule: digit_class_cases) (auto simp: next_state_def vers_state_def)

lemma vers_result_verdict:
  assumes "vers_state st"
    and "isdigit c \<Longrightarrow> isdigit d \<Longrightarrow> vers_len diff p1 p2
      = Some (if n < m then 1 else if m < n then -1 else diff)"
    and "diff = int (uchar c) - int (uchar d)"
  shows "vers_result (st + digit_class c) d diff p1 p2 = Some (verdict st c d m n)"
  using assms(2,3) result_LEN_digits [OF assms(1), of c d]
  by (auto simp: vers_result_def verdict_def Let_def)

lemma vers_loop_ver_cmp:
  "vers_state st \<Longrightarrow> NUL \<notin> set s \<Longrightarrow> NUL \<notin> set t \<Longrightarrow>
     vers_loop (st + digit_class (first s)) (s @ [NUL]) (t @ [NUL]) = Some (ver_cmp st s t)"
proof (induction st s t rule: ver_cmp.induct)
  case (1 st c s d t)
  show ?case
  proof (cases "c = d")
    case True
    let ?st = "next_state ! (st + digit_class c)"
    have "vers_loop (?st + digit_class (first s)) (s @ [NUL]) (t @ [NUL]) = Some (ver_cmp ?st s t)"
      using 1 True next_state_in by simp
    with True 1(4) show ?thesis by (cases s) (auto simp: first_def)
  next
    case False
    with 1 show ?thesis
      by (auto simp: first_def intro!: vers_result_verdict vers_len_run)
  qed
next
  case (3 st c s)
  then show ?case
    using vers_result_verdict [of st c NUL "int (uchar c)" "s @ [NUL]" "[]" 0 "run s"]
    by (auto simp: first_def)
next
  case (4 st d t)
  then show ?case
    using vers_result_verdict [of st NUL d "int (uchar NUL) - int (uchar d)" "[]" "t @ [NUL]" "run t" 0]
    by (auto simp: first_def)
qed (simp add: first_def)

lemma strverscmp_ver_cmp:
  assumes "NUL \<notin> set s" and "NUL \<notin> set t"
  shows "strverscmp False s t = Some (ver_cmp 0 s t)"
proof -
  have "(case s @ [NUL] of [] \<Rightarrow> None | c1 # _ \<Rightarrow> f c1) = f (first s)" for f :: "char \<Rightarrow> int option"
    by (cases s) (simp_all add: first_def)
  with vers_loop_ver_cmp [of 0 s t] assms show ?thesis
    by (simp add: strverscmp_def strverscmp_body_def)
qed

section \<open>An order\<close>

text \<open>What a client of a comparison function (\<open>qsort\<close>, \<open>scandir\<close>) relies on.\<close>

definition cmp_le :: "('a \<Rightarrow> 'a \<Rightarrow> int) \<Rightarrow> 'a \<Rightarrow> 'a \<Rightarrow> bool" where
  "cmp_le cmp x y \<longleftrightarrow> cmp x y \<le> 0"

locale comparison =
  fixes cmp :: "'a \<Rightarrow> 'a \<Rightarrow> int" and dom :: "'a \<Rightarrow> bool"
  assumes cmp_flip: "dom x \<Longrightarrow> dom y \<Longrightarrow> cmp x y < 0 \<longleftrightarrow> 0 < cmp y x"
    and cmp_zero: "dom x \<Longrightarrow> dom y \<Longrightarrow> cmp x y = 0 \<longleftrightarrow> x = y"
    and cmp_trans: "dom x \<Longrightarrow> dom y \<Longrightarrow> dom z \<Longrightarrow> cmp x y < 0 \<Longrightarrow> cmp y z < 0 \<Longrightarrow> cmp x z < 0"
begin

lemma le_refl: "dom x \<Longrightarrow> cmp_le cmp x x"
  using cmp_zero [of x x] by (simp add: cmp_le_def)

lemma le_antisym: "dom x \<Longrightarrow> dom y \<Longrightarrow> cmp_le cmp x y \<Longrightarrow> cmp_le cmp y x \<Longrightarrow> x = y"
  using cmp_flip [of x y] cmp_zero [of x y] by (simp add: cmp_le_def)

lemma le_trans: "dom x \<Longrightarrow> dom y \<Longrightarrow> dom z \<Longrightarrow> cmp_le cmp x y \<Longrightarrow> cmp_le cmp y z \<Longrightarrow> cmp_le cmp x z"
  using cmp_trans [of x y z] cmp_zero [of x y] cmp_zero [of y z]
  by (auto simp: cmp_le_def order_le_less)

lemma le_total: "dom x \<Longrightarrow> dom y \<Longrightarrow> cmp_le cmp x y \<or> cmp_le cmp y x"
  using cmp_flip [of x y] cmp_flip [of y x] by (auto simp: cmp_le_def)

text \<open>Two orderly arrangements of the same elements are the same list: whatever algorithm
  sorts with the comparison, its result is determined.\<close>

lemma sorted_unique:
  "sorted_wrt (cmp_le cmp) xs \<Longrightarrow> sorted_wrt (cmp_le cmp) ys \<Longrightarrow> mset xs = mset ys \<Longrightarrow> \<forall>x \<in> set xs. dom x \<Longrightarrow> xs = ys"
proof (induction xs arbitrary: ys)
  case (Cons x xs)
  then obtain y zs where ys: "ys = y # zs" by (cases ys) auto
  have sets: "insert x (set xs) = insert y (set zs)"
    using Cons.prems(3) ys by (metis list.simps(15) set_mset_mset)
  have d: "dom x" "dom y" using Cons.prems(4) sets by auto
  have "y = x \<or> y \<in> set xs" "x = y \<or> x \<in> set zs" using sets by auto
  with Cons.prems(1,2) ys d have "cmp_le cmp x y" "cmp_le cmp y x" using le_refl by auto
  moreover note d
  ultimately have xy: "x = y" by (blast intro: le_antisym)
  have "xs = zs" by (rule Cons.IH) (use Cons.prems ys xy in simp_all)
  with xy ys show ?case by simp
qed simp

end

subsection \<open>The version comparison is one\<close>

lemma verdict_flip: "vers_state st \<Longrightarrow> verdict st d c n m = - verdict st c d m n"
  by (cases c rule: digit_class_cases; cases d rule: digit_class_cases)
     (erule vers_stateE; simp add: verdict_def result_type_def Let_def)+

lemma verdict_zero: "vers_state st \<Longrightarrow> verdict st c d m n = 0 \<Longrightarrow> c = d"
  by (cases c rule: digit_class_cases; cases d rule: digit_class_cases)
     (erule vers_stateE; simp add: verdict_def result_type_def Let_def split: if_splits)+

lemma ver_cmp_flip: "vers_state st \<Longrightarrow> ver_cmp st t s = - ver_cmp st s t"
proof (induction st s t rule: ver_cmp.induct)
  case (1 st c s d t)
  then show ?case by (cases "c = d") (simp_all add: verdict_flip [of st c d])
next
  case (3 st c s)
  then show ?case by (simp add: verdict_flip [of st c NUL])
next
  case (4 st d t)
  then show ?case by (simp add: verdict_flip [of st NUL d])
qed simp

lemma ver_cmp_zero:
  "vers_state st \<Longrightarrow> NUL \<notin> set s \<Longrightarrow> NUL \<notin> set t \<Longrightarrow> ver_cmp st s t = 0 \<longleftrightarrow> s = t"
  by (induction st s t rule: ver_cmp.induct) (auto dest!: verdict_zero)

text \<open>Transitivity. Behind a common digit prefix (state \<open>S_I\<close>) the smaller string has no longer a
  run; so the run lengths a \<open>LEN\<close> verdict uses agree with whatever is decided later on.\<close>

definition is_len :: "nat \<Rightarrow> char \<Rightarrow> char \<Rightarrow> bool" where
  "is_len st c d \<longleftrightarrow> result_type ! ((st + digit_class c) * 3 + digit_class d) = 3"

lemma digit_class_range:
  obtains "digit_class c = 0" "\<not> isdigit c" "uchar c < 48 \<or> 57 < uchar c"
    | "digit_class c = 1" "isdigit c" "49 \<le> uchar c" "uchar c \<le> 57"
    | "digit_class c = 2" "isdigit c" "uchar c = 48"
proof -
  have "uchar CHR ''0'' = 48" by (simp add: uchar_def)
  then have "c = CHR ''0'' \<longleftrightarrow> uchar c = 48" using uchar_eq_iff [of c "CHR ''0''"] by simp
  then show thesis
    using that by (cases "uchar c = 48"; cases "isdigit c") (auto simp: digit_class_def isdigit_def)
qed

lemma is_len_next:
  assumes "vers_state st" and "is_len st c d"
  shows "next_state ! (st + digit_class c) = 3 \<and> next_state ! (st + digit_class d) = 3"
  by (insert assms) (cases c rule: digit_class_cases; cases d rule: digit_class_cases;
      erule vers_stateE; simp add: is_len_def result_type_def next_state_def)

lemma is_len_cong: "vers_state st \<Longrightarrow> is_len st c d \<Longrightarrow> is_len st d c"
  by (cases c rule: digit_class_cases; cases d rule: digit_class_cases;
      erule vers_stateE; simp add: is_len_def result_type_def)

lemma verdict_tail:
  assumes "verdict st c d m n < 0" and "is_len st c d \<Longrightarrow> m' \<le> m \<and> n \<le> n'"
  shows "verdict st c d m' n' < 0"
  using assms by (auto simp: verdict_def is_len_def Let_def split: if_splits)

lemma verdict_trans:
  assumes "vers_state st" and "verdict st c d m n < 0" and "verdict st d e n k < 0"
    and "c \<noteq> e"
  shows "verdict st c e m k < 0"
  by (insert assms) (cases c rule: digit_class_range; cases d rule: digit_class_range;
      cases e rule: digit_class_range; erule vers_stateE;
      simp add: verdict_def result_type_def Let_def split: if_splits)

lemma verdict_between:
  assumes "vers_state st" and "verdict st c d m n < 0" and "verdict st d c n k < 0"
  shows "is_len st c d \<and> m < k"
  by (insert assms) (cases c rule: digit_class_range; cases d rule: digit_class_range; erule vers_stateE;
      simp add: verdict_def result_type_def is_len_def Let_def split: if_splits)

lemma ver_cmp_run: "ver_cmp 3 s t < 0 \<Longrightarrow> run s \<le> run t"
proof (induction "3 :: nat" s t rule: ver_cmp.induct)
  case (1 c s d t)
  show ?case
  proof (cases "c = d")
    case True
    have "isdigit d \<Longrightarrow> next_state ! (3 + digit_class d) = 3"
      by (cases d rule: digit_class_cases) (simp_all add: next_state_def)
    with 1 True show ?thesis by auto
  next
    case False
    show ?thesis
      by (insert 1 False) (cases c rule: digit_class_range; cases d rule: digit_class_range;
          simp add: verdict_def result_type_def Let_def split: if_splits)
  qed
next
  case (3 c s)
  then show ?case
    by (cases rule: digit_class_range [of c]) (simp_all add: verdict_def result_type_def Let_def)
qed simp_all

lemma ver_cmp_first:
  assumes "NUL \<notin> set s" and "NUL \<notin> set t" and "s \<noteq> [] \<or> t \<noteq> []"
  shows "ver_cmp st s t = (if first s = first t
      then ver_cmp (next_state ! (st + digit_class (first s))) (tl s) (tl t)
      else verdict st (first s) (first t) (run (tl s)) (run (tl t)))"
  using assms by (cases s; cases t) (auto simp: first_def)

lemma ver_cmp_trans:
  "vers_state st \<Longrightarrow> NUL \<notin> set s \<Longrightarrow> NUL \<notin> set t \<Longrightarrow> NUL \<notin> set u \<Longrightarrow>
     ver_cmp st s t < 0 \<Longrightarrow> ver_cmp st t u < 0 \<Longrightarrow> ver_cmp st s u < 0"
proof (induction "length s" arbitrary: st s t u rule: less_induct)
  case less
  let ?n = "\<lambda>c. next_state ! (st + digit_class c)"
  have ne: "s \<noteq> [] \<or> t \<noteq> []" "t \<noteq> [] \<or> u \<noteq> []" using less.prems(5,6) by auto
  have nul: "NUL \<notin> set (tl s)" "NUL \<notin> set (tl t)" "NUL \<notin> set (tl u)"
    using less.prems(2-4) by (cases s; cases t; cases u; auto)+
  have st: "(if first s = first t then ver_cmp (?n (first s)) (tl s) (tl t)
      else verdict st (first s) (first t) (run (tl s)) (run (tl t))) < 0"
    using less.prems ne(1) ver_cmp_first [of s t st] by simp
  have tu: "(if first t = first u then ver_cmp (?n (first t)) (tl t) (tl u)
      else verdict st (first t) (first u) (run (tl t)) (run (tl u))) < 0"
    using less.prems ne(2) ver_cmp_first [of t u st] by simp
  have su: "ver_cmp st s u < 0" if "s \<noteq> [] \<or> u \<noteq> []"
    and "(if first s = first u then ver_cmp (?n (first s)) (tl s) (tl u)
      else verdict st (first s) (first u) (run (tl s)) (run (tl u))) < 0"
    using that less.prems ver_cmp_first [of s u st] by simp
  have heads: "first v = NUL \<longleftrightarrow> v = []" if "NUL \<notin> set v" for v
    using that by (cases v) (auto simp: first_def)
  show ?case
  proof (cases "first s = first t")
    case True
    show ?thesis
    proof (cases "first t = first u")
      case eq: True
      then have s: "s \<noteq> []" using True ne heads less.prems(2-4) by metis
      moreover have "ver_cmp (?n (first s)) (tl s) (tl u) < 0"
        by (rule less.hyps [of "tl s" _ "tl t"]) (use s True eq st tu nul less.prems(1) in auto)
      ultimately show ?thesis using su True eq by simp
    next
      case False
      have "run (tl s) \<le> run (tl t)" if "is_len st (first t) (first u)"
        using is_len_next [OF less.prems(1) that] st True ver_cmp_run [of "tl s" "tl t"] by simp
      then have "verdict st (first s) (first u) (run (tl s)) (run (tl u)) < 0"
        using tu False True verdict_tail [of st "first t" "first u" "run (tl t)" "run (tl u)"] by simp
      with su False True ne heads less.prems(2-4) show ?thesis by metis
    qed
  next
    case ne_st: False
    show ?thesis
    proof (cases "first t = first u")
      case True
      have "run (tl t) \<le> run (tl u)" if "is_len st (first s) (first t)"
        using is_len_next [OF less.prems(1) that] tu True ver_cmp_run [of "tl t" "tl u"] by simp
      then have "verdict st (first s) (first u) (run (tl s)) (run (tl u)) < 0"
        using st ne_st True verdict_tail [of st "first s" "first t" "run (tl s)" "run (tl t)"] by simp
      with su True ne_st ne heads less.prems(2-4) show ?thesis by metis
    next
      case ne_tu: False
      have v: "verdict st (first s) (first t) (run (tl s)) (run (tl t)) < 0"
          "verdict st (first t) (first u) (run (tl t)) (run (tl u)) < 0"
        using st tu ne_st ne_tu by simp_all
      show ?thesis
      proof (cases "first s = first u")
        case False
        have "s \<noteq> [] \<or> u \<noteq> []" using False by auto
        with su False verdict_trans [OF less.prems(1) v False] show ?thesis by simp
      next
        case True
        with v have b: "is_len st (first s) (first t)" "run (tl s) < run (tl u)"
          using verdict_between [OF less.prems(1) v(1), of "run (tl u)"] by simp_all
        have n3: "?n (first s) = 3" using is_len_next [OF less.prems(1) b(1)] by simp
        have v3: "vers_state 3" by (simp add: vers_state_def)
        have "ver_cmp 3 (tl s) (tl u) \<noteq> 0" using ver_cmp_zero [OF v3 nul(1) nul(3)] b(2) by auto
        moreover have "\<not> ver_cmp 3 (tl u) (tl s) < 0" using ver_cmp_run [of "tl u" "tl s"] b(2) by auto
        ultimately have lt: "ver_cmp 3 (tl s) (tl u) < 0" using ver_cmp_flip [OF v3, of "tl u" "tl s"] by simp
        have "s \<noteq> [] \<or> u \<noteq> []" using b(2) by auto
        with su True n3 lt show ?thesis by simp
      qed
    qed
  qed
qed

definition c_name :: "string \<Rightarrow> bool" where
  "c_name s \<longleftrightarrow> NUL \<notin> set s"

definition vercmp :: "string \<Rightarrow> string \<Rightarrow> int" where
  "vercmp s t = (case strverscmp False s t of Some r \<Rightarrow> r | None \<Rightarrow> 0)"

lemma vercmp_eq: "c_name s \<Longrightarrow> c_name t \<Longrightarrow> vercmp s t = ver_cmp 0 s t"
  by (simp add: vercmp_def c_name_def strverscmp_ver_cmp)

interpretation vc: comparison vercmp c_name
proof unfold_locales
  fix x y z
  assume d: "c_name x" "c_name y"
  then show "vercmp x y < 0 \<longleftrightarrow> 0 < vercmp y x"
    using ver_cmp_flip [of 0 x y] by (simp add: vercmp_eq)
  show "vercmp x y = 0 \<longleftrightarrow> x = y"
    using d ver_cmp_zero [of 0 x y] by (simp add: vercmp_eq c_name_def)
  assume "c_name z" and "vercmp x y < 0" and "vercmp y z < 0"
  with d ver_cmp_trans [of 0 x y z] show "vercmp x z < 0" by (simp add: vercmp_eq c_name_def)
qed

section \<open>Properties\<close>

text \<open>C9: strverscmp returns on every pair of C strings without reading past a terminator, and its
  result is a strict total order: zero for equal strings only, of opposite sign when the arguments
  are swapped, and transitive.\<close>

theorem strverscmp_order:
  assumes "NUL \<notin> set s" and "NUL \<notin> set t" and "NUL \<notin> set u"
  shows "\<exists>x y z. strverscmp False s t = Some x \<and> strverscmp False t u = Some y
    \<and> strverscmp False s u = Some z \<and> strverscmp False t s = Some (- x)
    \<and> (x = 0 \<longleftrightarrow> s = t) \<and> (x < 0 \<and> y < 0 \<longrightarrow> z < 0)"
proof -
  have "c_name s" "c_name t" "c_name u" using assms by (simp_all add: c_name_def)
  with vc.cmp_zero [of s t] vc.cmp_trans [of s t u] show ?thesis
    using strverscmp_ver_cmp [OF assms(1,2)] strverscmp_ver_cmp [OF assms(2,3)]
      strverscmp_ver_cmp [OF assms(1,3)] strverscmp_ver_cmp [OF assms(2,1)] ver_cmp_flip [of 0 t s]
    by (simp add: vercmp_eq)
qed

theorem strverscmp_order_witness:
  "strverscmp False ''a9'' ''a10'' = Some (-1) \<and> strverscmp False ''a10'' ''a9'' = Some 1"
proof -
  have "strverscmp False ''a9'' ''a10'' = Some (-1)" by code_simp
  with strverscmp_order [of "''a9''" "''a10''" "''a10''"] show ?thesis by simp
qed

text \<open>versionsort (the Darwin alias of versionsort64) orders directory entries so that sorting
  is determined: two arrangements of the same names, neither with a pair out of order, are the
  same sequence of names.\<close>

theorem versionsort_determined:
  assumes "\<forall>n \<in> set xs. NUL \<notin> set (d_name n)"
    and "sorted_wrt (\<lambda>a b. \<exists>r. versionsort a b = Some r \<and> r \<le> 0) xs"
    and "sorted_wrt (\<lambda>a b. \<exists>r. versionsort a b = Some r \<and> r \<le> 0) ys"
    and "mset (map d_name xs) = mset (map d_name ys)"
  shows "map d_name xs = map d_name ys"
proof (rule vc.sorted_unique)
  have le: "cmp_le vercmp (d_name a) (d_name b)" if "\<exists>r. versionsort a b = Some r \<and> r \<le> 0" for a b
    using that by (auto simp: cmp_le_def versionsort_def versionsort64_def vercmp_def)
  show "sorted_wrt (cmp_le vercmp) (map d_name xs)" "sorted_wrt (cmp_le vercmp) (map d_name ys)"
    using assms(2,3) by (auto simp: sorted_wrt_map intro: le sorted_wrt_mono_rel [rotated])
  show "mset (map d_name xs) = mset (map d_name ys)" by (rule assms(4))
  show "\<forall>x \<in> set (map d_name xs). c_name x" using assms(1) by (auto simp: c_name_def)
qed

theorem versionsort_determined_witness:
  "map d_name [\<lparr>d_ino = 1, d_type = 8, d_name = ''f2''\<rparr>, \<lparr>d_ino = 2, d_type = 8, d_name = ''f10''\<rparr>]
    = map d_name [\<lparr>d_ino = 5, d_type = 4, d_name = ''f2''\<rparr>, \<lparr>d_ino = 6, d_type = 4, d_name = ''f10''\<rparr>]"
proof (rule versionsort_determined)
  have c: "strverscmp False ''f2'' ''f10'' = Some (-1)" by code_simp
  show "sorted_wrt (\<lambda>a b. \<exists>r. versionsort a b = Some r \<and> r \<le> 0)
      [\<lparr>d_ino = 1, d_type = 8, d_name = ''f2''\<rparr>, \<lparr>d_ino = 2, d_type = 8, d_name = ''f10''\<rparr>]"
    "sorted_wrt (\<lambda>a b. \<exists>r. versionsort a b = Some r \<and> r \<le> 0)
      [\<lparr>d_ino = 5, d_type = 4, d_name = ''f2''\<rparr>, \<lparr>d_ino = 6, d_type = 4, d_name = ''f10''\<rparr>]"
    by (simp_all add: versionsort_def versionsort64_def c)
qed simp_all

end
