(* ===== verification/HSearch.thy ===== *)
theory HSearch
  imports Prelude
begin

text \<open>
  The reentrant hash table of src/src/search/hsearch_r.c: open addressing with double hashing in a
  table of prime size, one slot more than that, slot 0 never used. An \<open>unsigned int\<close> that is only
  an index or a count is a \<open>nat\<close> (its arithmetic modulo \<open>2 ^ 32\<close> written out where it can wrap),
  the hash value is a 32-bit word. Indexing outside the table, and a loop that does not end, are
  \<open>None\<close>.
\<close>

section \<open>Operations\<close>

record ENTRY =
  key :: string
  data :: nat

record table_entry =
  used :: "32 word"
  entry :: ENTRY

record hsearch_data =
  table :: "table_entry list option"
  tsize :: nat
  filled :: nat

datatype ACTION = FIND | ENTER

definition UINT_MAX :: nat where
  "UINT_MAX = 2 ^ 32 - 1"

definition uint_sub :: "nat \<Rightarrow> nat \<Rightarrow> nat" where
  "uint_sub a b = (a + 2 ^ 32 - b) mod 2 ^ 32"

lemma uint_sub_id: "b \<le> a \<Longrightarrow> a - b < 2 ^ 32 \<Longrightarrow> uint_sub a b = a - b"
proof -
  assume "b \<le> a" and lt: "a - b < 2 ^ 32"
  then have "a + 2 ^ 32 - b = (a - b) + 2 ^ 32" by simp
  then have "uint_sub a b = ((a - b) + 2 ^ 32) mod 2 ^ 32" by (simp only: uint_sub_def)
  also have "\<dots> = a - b" using lt by simp
  finally show ?thesis .
qed

function isprime_loop :: "nat \<Rightarrow> nat \<Rightarrow> bool" where
  "isprime_loop number div' =
     (if 0 < div' \<and> div' \<le> number div div' then
        if number mod div' = 0 then False else isprime_loop number (div' + 2)
      else True)"
  by pat_completeness auto
termination
proof (relation "measure (\<lambda>(number, div'). number + 1 - div')", simp, clarsimp)
  fix n d :: nat
  assume "0 < d" and "d \<le> n div d"
  moreover have "n div d \<le> n" by (rule div_le_dividend)
  ultimately show "n - Suc d < Suc n - d" by linarith
qed

declare isprime_loop.simps [simp del]

definition isprime :: "nat \<Rightarrow> bool" where
  "isprime number = isprime_loop number 3"

text \<open>The search for the size, a \<open>size_t\<close>; \<open>None\<close> is the \<open>ENOMEM\<close> return.\<close>

function prime_size :: "nat \<Rightarrow> nat option" where
  "prime_size nel =
     (if UINT_MAX - 2 < nel then None
      else if isprime nel then Some nel else prime_size (nel + 2))"
  by pat_completeness auto
termination by (relation "measure (\<lambda>nel. UINT_MAX - nel)") (auto simp: UINT_MAX_def)

declare prime_size.simps [simp del]

definition zero_entry :: table_entry where
  "zero_entry = \<lparr>used = 0, entry = \<lparr>key = [], data = 0\<rparr>\<rparr>"

text \<open>Result, \<open>errno\<close> when the function sets it itself, the table. \<open>nel |= 1\<close> sets the low bit.\<close>

definition hcreate_r :: "nat \<Rightarrow> hsearch_data option \<Rightarrow> answers
    \<Rightarrow> nat \<times> errno \<times> hsearch_data option \<times> answers" where
  "hcreate_r nel htab os = (case htab of
      None \<Rightarrow> (0, EINVAL, None, os)
    | Some h \<Rightarrow>
        if table h \<noteq> None then (0, NOERR, Some h, os)
        else
          (let nel = (if nel < 3 then 3 else nel)
           in case prime_size (if even nel then nel + 1 else nel) of
                None \<Rightarrow> (0, ENOMEM, Some h, os)
              | Some nel \<Rightarrow>
                  (let h = h\<lparr>tsize := nel, filled := 0\<rparr>; (ok, os) = alloc os
                   in if ok then (1, NOERR, Some (h\<lparr>table := Some (replicate (nel + 1) zero_entry)\<rparr>), os)
                      else (0, NOERR, Some (h\<lparr>table := None\<rparr>), os))))"

definition hdestroy_r :: "hsearch_data option \<Rightarrow> errno \<times> hsearch_data option" where
  "hdestroy_r htab = (case htab of
      None \<Rightarrow> (EINVAL, None)
    | Some h \<Rightarrow> (NOERR, Some (h\<lparr>table := None\<rparr>)))"

text \<open>\<open>while (count-- > 0) \<dots>\<close>: from the last character to the first, each a signed \<open>char\<close>.\<close>

fun hash_loop :: "string \<Rightarrow> nat \<Rightarrow> 32 word \<Rightarrow> 32 word" where
  "hash_loop k 0 hval = hval"
| "hash_loop k (Suc count) hval =
     hash_loop k count (push_bit 4 hval + word_of_int (schar (k ! count)))"

definition hash :: "string \<Rightarrow> 32 word" where
  "hash k = (let len = length k mod 2 ^ 32;
                 hval = hash_loop k len (of_nat len)
             in if hval = 0 then hval + 1 else hval)"

definition next_idx :: "nat \<Rightarrow> nat \<Rightarrow> nat \<Rightarrow> nat" where
  "next_idx sz hval2 idx =
     (if idx \<le> hval2 then uint_sub (sz + idx) hval2 else idx - hval2)"

definition slot :: "table_entry list \<Rightarrow> nat \<Rightarrow> table_entry option" where
  "slot tab idx = (if idx < length tab then Some (tab ! idx) else None)"

text \<open>The \<open>do \<dots> while\<close> loop; \<open>True\<close> when it returned with the entry.\<close>

partial_function (option) probe
  :: "table_entry list \<Rightarrow> nat \<Rightarrow> 32 word \<Rightarrow> nat \<Rightarrow> string \<Rightarrow> nat \<Rightarrow> nat \<Rightarrow> (nat \<times> bool) option" where
  "probe tab sz hval hval2 k first_idx idx =
     (let idx = next_idx sz hval2 idx
      in if idx = first_idx then Some (idx, False)
         else case slot tab idx of None \<Rightarrow> None
         | Some e \<Rightarrow>
             if used e = hval \<and> k = key (entry e) then Some (idx, True)
             else if used e \<noteq> 0 then probe tab sz hval hval2 k first_idx idx
             else Some (idx, False))"

text \<open>Result, \<open>errno\<close>, the index of the entry \<open>*retval\<close> points to, the table.\<close>

definition hsearch_r :: "ENTRY \<Rightarrow> ACTION \<Rightarrow> hsearch_data
    \<Rightarrow> (nat \<times> errno \<times> nat option \<times> hsearch_data) option" where
  "hsearch_r item action h =
     do { tab \<leftarrow> table h;
          let hval = hash (key item);
          let idx = unat hval mod tsize h + 1;
          e \<leftarrow> slot tab idx;
          (idx, found) \<leftarrow>
            (if used e \<noteq> 0 then
               if used e = hval \<and> key item = key (entry e) then Some (idx, True)
               else probe tab (tsize h) hval (1 + unat hval mod (tsize h - 2)) (key item) idx idx
             else Some (idx, False));
          Some (if found then (1, NOERR, Some idx, h)
                else if action = ENTER then
                  if filled h = tsize h then (0, ENOMEM, None, h)
                  else (1, NOERR, Some idx,
                        h\<lparr>table := Some (tab[idx := \<lparr>used = hval, entry = item\<rparr>]),
                          filled := filled h + 1\<rparr>)
                else (0, ESRCH, None, h)) }"

section \<open>The prime test\<close>

text \<open>What the probe sequence needs of the size: no smaller step has a factor in common with it.\<close>

definition prime_like :: "nat \<Rightarrow> bool" where
  "prime_like p \<longleftrightarrow> 3 \<le> p \<and> (\<forall>d. d dvd p \<longrightarrow> d = 1 \<or> d = p)"

lemma isprime_loop_sound:
  "isprime_loop n d \<Longrightarrow> 0 < d \<Longrightarrow> odd d \<Longrightarrow> odd e \<Longrightarrow> d \<le> e \<Longrightarrow> e * e \<le> n \<Longrightarrow> \<not> e dvd n"
proof (induction n d rule: isprime_loop.induct)
  case (1 n d)
  have "d * d \<le> n" using "1.prems"(5,6) mult_le_mono [of d e d e] by linarith
  then have g: "0 < d \<and> d \<le> n div d" using "1.prems"(2) by (simp add: less_eq_div_iff_mult_less_eq)
  with "1.prems"(1) have nd: "n mod d \<noteq> 0" and rest: "isprime_loop n (d + 2)"
    by (simp_all add: isprime_loop.simps [of n d] split: if_splits)
  show ?case
  proof (cases "e = d")
    case True
    with nd show ?thesis by (simp add: dvd_eq_mod_eq_0)
  next
    case False
    then have "d + 2 \<le> e" using "1.prems"(3,4,5) by presburger
    then show ?thesis using "1.IH" [OF g nd rest] "1.prems" by simp
  qed
qed

lemma isprime_loop_complete:
  "\<not> isprime_loop n d \<Longrightarrow> 0 < d \<Longrightarrow> \<exists>e. d \<le> e \<and> e * e \<le> n \<and> e dvd n"
proof (induction n d rule: isprime_loop.induct)
  case (1 n d)
  then have g: "0 < d \<and> d \<le> n div d" by (simp add: isprime_loop.simps [of n d] split: if_splits)
  then have "d * d \<le> d * (n div d)" by simp
  also have "\<dots> \<le> n" by (rule times_div_less_eq_dividend)
  finally have sq: "d * d \<le> n" .
  show ?case
  proof (cases "n mod d = 0")
    case True
    with sq show ?thesis by (auto simp: dvd_eq_mod_eq_0)
  next
    case False
    with "1.IH" [OF g False] "1.prems" g have "\<exists>e. d + 2 \<le> e \<and> e * e \<le> n \<and> e dvd n"
      by (simp add: isprime_loop.simps [of n d])
    then show ?thesis by (meson le_trans le_add1)
  qed
qed

lemma small_factor:
  assumes "d dvd n" and "d \<noteq> 1" and "d \<noteq> (n :: nat)" and "0 < n"
  obtains e where "e dvd n" and "2 \<le> e" and "e * e \<le> n"
proof -
  obtain q where q: "n = d * q" using assms(1) by blast
  with assms have d2: "2 \<le> d" and q2: "2 \<le> q" by (cases d; cases q; auto)+
  show thesis
  proof (cases "d \<le> q")
    case True
    then have "d * d \<le> n" using q by simp
    with assms(1) d2 that show thesis by blast
  next
    case False
    then have "q * q \<le> n" using q by simp
    moreover have "q dvd n" using q by simp
    ultimately show thesis using q2 that by blast
  qed
qed

lemma isprime_iff:
  assumes "odd n" and "3 \<le> n"
  shows "isprime n \<longleftrightarrow> prime_like n"
proof
  assume p: "isprime n"
  have "d = 1 \<or> d = n" if d: "d dvd n" for d
  proof (rule ccontr)
    assume "\<not> (d = 1 \<or> d = n)"
    then have ne: "d \<noteq> 1" "d \<noteq> n" "0 < n" using assms by auto
    obtain e where e: "e dvd n" "2 \<le> e" "e * e \<le> n" by (rule small_factor [OF d ne])
    have "odd e" using e(1) assms(1) by (metis dvd_trans)
    with e(2) have "3 \<le> e" by presburger
    with p e \<open>odd e\<close> isprime_loop_sound [of n 3 e] show False by (simp add: isprime_def)
  qed
  with assms show "prime_like n" by (simp add: prime_like_def)
next
  assume p: "prime_like n"
  show "isprime n"
  proof (rule ccontr)
    assume "\<not> isprime n"
    then obtain e where e: "3 \<le> e" "e * e \<le> n" "e dvd n"
      using isprime_loop_complete [of n 3] by (auto simp: isprime_def)
    with p have "e = n" by (auto simp: prime_like_def)
    with e(1,2) show False by simp
  qed
qed

lemma prime_like_coprime: "prime_like p \<Longrightarrow> 0 < h \<Longrightarrow> h < p \<Longrightarrow> coprime p h"
proof -
  assume p: "prime_like p" and h: "0 < h" "h < p"
  have "gcd p h dvd p" "gcd p h \<le> h" using h by (simp_all add: gcd_le2_nat)
  with p h have "gcd p h = 1" unfolding prime_like_def by (metis not_less)
  then show ?thesis by (simp add: coprime_iff_gcd_eq_1)
qed

lemma prime_size_sound:
  "prime_size n = Some p \<Longrightarrow> odd n \<Longrightarrow> 3 \<le> n \<Longrightarrow> prime_like p \<and> n \<le> p \<and> p \<le> UINT_MAX - 2"
proof (induction n rule: prime_size.induct)
  case (1 n)
  show ?case
  proof (cases "isprime n")
    case True
    with 1 isprime_iff [of n] show ?thesis by (simp add: prime_size.simps [of n] split: if_splits)
  next
    case False
    with "1.prems" have "prime_size (n + 2) = Some p" "\<not> UINT_MAX - 2 < n"
      by (simp_all add: prime_size.simps [of n] split: if_splits)
    with 1 False show ?thesis by simp
  qed
qed

section \<open>The probe sequence\<close>

definition path :: "nat \<Rightarrow> nat \<Rightarrow> nat \<Rightarrow> nat \<Rightarrow> nat" where
  "path sz h2 i j = (next_idx sz h2 ^^ j) i"

lemma path_simps [simp]:
  "path sz h2 i 0 = i" "path sz h2 i (Suc j) = next_idx sz h2 (path sz h2 i j)"
  by (simp_all add: path_def)

locale double_hashing =
  fixes legal :: "nat \<Rightarrow> nat \<Rightarrow> bool"
  assumes prime: "legal sz h2 \<Longrightarrow> prime_like sz" and small: "legal sz h2 \<Longrightarrow> sz \<le> UINT_MAX - 2"
    and step: "legal sz h2 \<Longrightarrow> 0 < h2" "legal sz h2 \<Longrightarrow> h2 < sz"
begin

lemma next_idx_range: "legal sz h2 \<Longrightarrow> 0 < i \<Longrightarrow> i \<le> sz \<Longrightarrow> 0 < next_idx sz h2 i \<and> next_idx sz h2 i \<le> sz"
  using step [of sz h2] small [of sz h2] uint_sub_id [of h2 "sz + i"] by (auto simp: next_idx_def UINT_MAX_def)

lemma next_idx_int:
  assumes l: "legal sz h2" and "0 < i" and "i \<le> sz"
  shows "int (next_idx sz h2 i) mod int sz = (int i - int h2) mod int sz"
proof (cases "i \<le> h2")
  case True
  then have "next_idx sz h2 i = sz + i - h2"
    using step [OF l] small [OF l] assms uint_sub_id [of h2 "sz + i"] by (simp add: next_idx_def UINT_MAX_def)
  moreover have "int (sz + i - h2) = (int i - int h2) + int sz" using step [OF l] by simp
  ultimately show ?thesis by simp
next
  case False
  then show ?thesis by (simp add: next_idx_def of_nat_diff)
qed

lemma path_range: "legal sz h2 \<Longrightarrow> 0 < i \<Longrightarrow> i \<le> sz \<Longrightarrow> 0 < path sz h2 i j \<and> path sz h2 i j \<le> sz"
  by (induction j) (simp_all add: next_idx_range)

lemma path_int:
  assumes l: "legal sz h2" and "0 < i" and "i \<le> sz"
  shows "int (path sz h2 i j) mod int sz = (int i - int j * int h2) mod int sz"
proof (induction j)
  case (Suc j)
  have "int (path sz h2 i (Suc j)) mod int sz = (int (path sz h2 i j) mod int sz - int h2) mod int sz"
    using next_idx_int [OF l] path_range [OF assms] by (simp add: mod_diff_left_eq)
  also have "\<dots> = (int i - int j * int h2 - int h2) mod int sz"
    unfolding Suc.IH by (simp add: mod_diff_left_eq)
  also have "int i - int j * int h2 - int h2 = int i - int (Suc j) * int h2"
    by (simp add: algebra_simps)
  finally show ?case .
qed simp

lemma path_eq_iff:
  assumes l: "legal sz h2" and i: "0 < i" "i \<le> sz"
  shows "path sz h2 i j = path sz h2 i j' \<longleftrightarrow> int sz dvd int j - int j'"
proof -
  have range_eq: "a = b \<longleftrightarrow> int a mod int sz = int b mod int sz"
    if "0 < a" "a \<le> sz" "0 < b" "b \<le> sz" for a b
  proof
    assume "int a mod int sz = int b mod int sz"
    then have "int (a mod sz) = int (b mod sz)" by (simp only: of_nat_mod)
    then have "a mod sz = b mod sz" by simp
    with that show "a = b" by (cases "a = sz"; cases "b = sz") auto
  qed simp
  have "path sz h2 i j = path sz h2 i j'
      \<longleftrightarrow> (int i - int j * int h2) mod int sz = (int i - int j' * int h2) mod int sz"
    using range_eq path_range [OF l i] by (simp add: path_int [OF l i])
  also have "\<dots> \<longleftrightarrow> int sz dvd (int i - int j * int h2) - (int i - int j' * int h2)"
    by (rule mod_eq_dvd_iff)
  also have "(int i - int j * int h2) - (int i - int j' * int h2) = - ((int j - int j') * int h2)"
    by (simp add: algebra_simps)
  also have "int sz dvd - ((int j - int j') * int h2) \<longleftrightarrow> int sz dvd int j - int j'"
    using prime_like_coprime [OF prime [OF l] step [OF l]] by (simp add: coprime_dvd_mult_left_iff)
  finally show ?thesis .
qed

lemma path_inj:
  assumes l: "legal sz h2" and "0 < i" "i \<le> sz" "j < sz" "j' < sz" and eq: "path sz h2 i j = path sz h2 i j'"
  shows "j = j'"
proof -
  have "int sz dvd int j - int j'" using path_eq_iff [OF assms(1-3)] eq by simp
  moreover have "\<bar>int j - int j'\<bar> < int sz" using assms(4,5) by simp
  ultimately show ?thesis using zdvd_imp_le [of "int sz" "\<bar>int j - int j'\<bar>"] by fastforce
qed

lemma path_cycle: "legal sz h2 \<Longrightarrow> 0 < i \<Longrightarrow> i \<le> sz \<Longrightarrow> path sz h2 i sz = i"
  using path_eq_iff [of sz h2 i sz 0] by simp

lemma path_home: "legal sz h2 \<Longrightarrow> 0 < i \<Longrightarrow> i \<le> sz \<Longrightarrow> 0 < j \<Longrightarrow> j < sz \<Longrightarrow> path sz h2 i j \<noteq> i"
  using path_inj [of sz h2 i j 0] by auto

text \<open>The sequence visits every slot.\<close>

lemma path_all:
  assumes l: "legal sz h2" and "0 < i" "i \<le> sz" "0 < s" "s \<le> sz"
  obtains j where "j < sz" and "path sz h2 i j = s"
proof -
  have inj: "inj_on (path sz h2 i) {..<sz}"
    using path_inj [OF assms(1-3)] by (auto intro: inj_onI)
  have sub: "path sz h2 i ` {..<sz} \<subseteq> {1..sz}" by (auto simp: path_range [OF assms(1-3)] Suc_le_eq)
  have c: "card (path sz h2 i ` {..<sz}) = card {1..sz}" using card_image [OF inj] by simp
  have "path sz h2 i ` {..<sz} = {1..sz}" by (rule card_subset_eq [OF finite_atLeastAtMost sub c])
  then have "s \<in> path sz h2 i ` {..<sz}" using assms(4,5) by simp
  then show thesis by (auto intro: that)
qed

lemma probe_stops:
  assumes l: "legal sz h2" and i: "0 < i" "i \<le> sz" and len: "length tab = sz + 1" and j: "cur < j" "j < sz"
    and busy: "\<And>l. 0 < l \<Longrightarrow> l < j \<Longrightarrow>
      used (tab ! path sz h2 i l) \<noteq> 0 \<and> \<not> (used (tab ! path sz h2 i l) = hval \<and> k = key (entry (tab ! path sz h2 i l)))"
    and stop: "used (tab ! path sz h2 i j) = 0
      \<or> (used (tab ! path sz h2 i j) = hval \<and> k = key (entry (tab ! path sz h2 i j)))" and "hval \<noteq> 0"
  shows "probe tab sz hval h2 k i (path sz h2 i cur) = Some (path sz h2 i j, used (tab ! path sz h2 i j) \<noteq> 0)"
  using j
proof (induction "j - cur" arbitrary: cur rule: less_induct)
  case less
  let ?p = "path sz h2 i (Suc cur)"
  have sl: "slot tab ?p = Some (tab ! ?p)"
    using path_range [OF l i, of "Suc cur"] len by (simp add: slot_def del: path_simps)
  have ne: "?p \<noteq> i" using path_home [OF l i, of "Suc cur"] less.prems by simp
  show ?case
  proof (cases "Suc cur = j")
    case True
    with sl ne stop \<open>hval \<noteq> 0\<close> show ?thesis
      by (subst probe.simps) (auto simp: Let_def)
  next
    case False
    then have "Suc cur < j" using less.prems by simp
    then have IH: "probe tab sz hval h2 k i ?p
        = Some (path sz h2 i j, used (tab ! path sz h2 i j) \<noteq> 0)"
      using less.hyps [of "Suc cur"] less.prems by simp
    from sl ne busy [of "Suc cur"] \<open>Suc cur < j\<close> IH show ?thesis
      by (subst probe.simps) (auto simp: Let_def)
  qed
qed

lemma probe_full:
  assumes l: "legal sz h2" and i: "0 < i" "i \<le> sz" and len: "length tab = sz + 1" and cur: "cur < sz"
    and busy: "\<And>l. 0 < l \<Longrightarrow> l < sz \<Longrightarrow>
      used (tab ! path sz h2 i l) \<noteq> 0 \<and> \<not> (used (tab ! path sz h2 i l) = hval \<and> k = key (entry (tab ! path sz h2 i l)))"
  shows "probe tab sz hval h2 k i (path sz h2 i cur) = Some (i, False)"
  using cur
proof (induction "sz - cur" arbitrary: cur rule: less_induct)
  case less
  let ?p = "path sz h2 i (Suc cur)"
  have sl: "slot tab ?p = Some (tab ! ?p)"
    using path_range [OF l i, of "Suc cur"] len by (simp add: slot_def del: path_simps)
  show ?case
  proof (cases "Suc cur = sz")
    case True
    with path_cycle [OF l i] have "?p = i" by (simp del: path_simps)
    then show ?thesis by (subst probe.simps) (simp add: Let_def)
  next
    case False
    then have lt: "Suc cur < sz" using less.prems by simp
    then have ne: "?p \<noteq> i" using path_home [OF l i, of "Suc cur"] by simp
    from lt have IH: "probe tab sz hval h2 k i ?p = Some (i, False)"
      using less.hyps [of "Suc cur"] by simp
    from sl ne IH busy [of "Suc cur"] lt show ?thesis
      by (subst probe.simps) (auto simp: Let_def)
  qed
qed

end

section \<open>Well-formed tables\<close>

text \<open>
  Every slot in use holds the hash of its key, no two hold the same key, and the probe sequence of
  a stored key meets only slots in use before it meets the key. \<open>filled\<close> counts the slots in use.
\<close>

definition home :: "nat \<Rightarrow> string \<Rightarrow> nat" where
  "home sz k = unat (hash k) mod sz + 1"

definition stride :: "nat \<Rightarrow> string \<Rightarrow> nat" where
  "stride sz k = 1 + unat (hash k) mod (sz - 2)"

abbreviation key_path :: "nat \<Rightarrow> string \<Rightarrow> nat \<Rightarrow> nat" where
  "key_path sz k \<equiv> path sz (stride sz k) (home sz k)"

abbreviation slot_key :: "table_entry list \<Rightarrow> nat \<Rightarrow> string" where
  "slot_key tab i \<equiv> key (entry (tab ! i))"

definition in_use :: "nat \<Rightarrow> table_entry list \<Rightarrow> nat set" where
  "in_use sz tab = {i. 0 < i \<and> i \<le> sz \<and> used (tab ! i) \<noteq> 0}"

definition hash_ok :: "hsearch_data \<Rightarrow> bool" where
  "hash_ok h \<longleftrightarrow> (\<exists>tab. table h = Some tab \<and> prime_like (tsize h) \<and> tsize h \<le> UINT_MAX - 2
     \<and> length tab = tsize h + 1 \<and> filled h = card (in_use (tsize h) tab)
     \<and> (\<forall>i \<in> in_use (tsize h) tab. used (tab ! i) = hash (slot_key tab i))
     \<and> (\<forall>i \<in> in_use (tsize h) tab. \<forall>i' \<in> in_use (tsize h) tab. slot_key tab i = slot_key tab i' \<longrightarrow> i = i')
     \<and> (\<forall>i \<in> in_use (tsize h) tab. \<exists>j < tsize h. i = key_path (tsize h) (slot_key tab i) j
          \<and> (\<forall>l < j. used (tab ! key_path (tsize h) (slot_key tab i) l) \<noteq> 0)))"

text \<open>The map a table stands for.\<close>

definition hs_map :: "hsearch_data \<Rightarrow> string \<Rightarrow> nat option" where
  "hs_map h = (case table h of None \<Rightarrow> Map.empty
     | Some tab \<Rightarrow> map_of (map (\<lambda>e. (key (entry e), data (entry e))) (filter (\<lambda>e. used e \<noteq> 0) (tl tab))))"

lemma hash_nonzero [simp]: "hash k \<noteq> 0"
  by (simp add: hash_def Let_def)

lemma finite_in_use [simp]: "finite (in_use sz tab)"
  by (rule finite_subset [of _ "{..sz}"]) (auto simp: in_use_def)

lemma stride_bounds: "3 \<le> sz \<Longrightarrow> 0 < stride sz k \<and> stride sz k < sz"
proof -
  assume "3 \<le> sz"
  moreover from this have "unat (hash k) mod (sz - 2) < sz - 2" by (intro mod_less_divisor) simp
  ultimately show ?thesis unfolding stride_def by linarith
qed

lemma home_bounds: "3 \<le> sz \<Longrightarrow> 0 < home sz k \<and> home sz k \<le> sz"
  using mod_less_divisor [of sz "unat (hash k)"] by (simp add: home_def Suc_le_eq)

text \<open>The sizes and strides the code uses are legal.\<close>

definition legal_probe :: "nat \<Rightarrow> nat \<Rightarrow> bool" where
  "legal_probe sz h2 \<longleftrightarrow> prime_like sz \<and> sz \<le> UINT_MAX - 2 \<and> (\<exists>k. h2 = stride sz k)"

interpretation dh: double_hashing legal_probe
  by unfold_locales (auto simp: legal_probe_def prime_like_def stride_bounds)

lemma legal_key: "prime_like sz \<Longrightarrow> sz \<le> UINT_MAX - 2 \<Longrightarrow> legal_probe sz (stride sz k)"
  by (auto simp: legal_probe_def)

text \<open>What the search comes to, in terms of the probe sequence.\<close>

definition found_at :: "hsearch_data \<Rightarrow> string \<Rightarrow> (nat \<times> bool) option" where
  "found_at h k =
     do { tab \<leftarrow> table h;
          e \<leftarrow> slot tab (home (tsize h) k);
          if used e \<noteq> 0 then
            if used e = hash k \<and> k = key (entry e) then Some (home (tsize h) k, True)
            else probe tab (tsize h) (hash k) (stride (tsize h) k) k (home (tsize h) k) (home (tsize h) k)
          else Some (home (tsize h) k, False) }"

lemma hsearch_r_found_at:
  assumes "table h = Some tab"
  shows "hsearch_r item action h =
     do { (idx, found) \<leftarrow> found_at h (key item);
          Some (if found then (1, NOERR, Some idx, h)
                else if action = ENTER then
                  if filled h = tsize h then (0, ENOMEM, None, h)
                  else (1, NOERR, Some idx,
                        h\<lparr>table := Some (tab[idx := \<lparr>used = hash (key item), entry = item\<rparr>]),
                          filled := filled h + 1\<rparr>)
                else (0, ESRCH, None, h)) }"
  using assms
  by (cases "slot tab (home (tsize h) (key item))")
     (simp_all add: hsearch_r_def found_at_def home_def stride_def Let_def)

lemma found_at_stops:
  assumes p: "prime_like (tsize h)" "tsize h \<le> UINT_MAX - 2"
    and tab: "table h = Some tab" "length tab = tsize h + 1" and j: "j < tsize h"
    and busy: "\<And>l. l < j \<Longrightarrow> used (tab ! key_path (tsize h) k l) \<noteq> 0
      \<and> \<not> (used (tab ! key_path (tsize h) k l) = hash k \<and> k = slot_key tab (key_path (tsize h) k l))"
    and stop: "used (tab ! key_path (tsize h) k j) = 0
      \<or> (used (tab ! key_path (tsize h) k j) = hash k \<and> k = slot_key tab (key_path (tsize h) k j))"
  shows "found_at h k = Some (key_path (tsize h) k j, used (tab ! key_path (tsize h) k j) \<noteq> 0)"
proof (cases "j = 0")
  case True
  have "slot tab (home (tsize h) k) = Some (tab ! home (tsize h) k)"
    using home_bounds [of "tsize h" k] p tab by (simp add: slot_def prime_like_def)
  with True stop tab show ?thesis by (auto simp: found_at_def)
next
  case False
  have b: "0 < home (tsize h) k" "home (tsize h) k \<le> tsize h"
    using home_bounds [of "tsize h" k] p by (simp_all add: prime_like_def)
  then have "slot tab (home (tsize h) k) = Some (tab ! home (tsize h) k)"
    using tab by (simp add: slot_def)
  moreover have "probe tab (tsize h) (hash k) (stride (tsize h) k) k (home (tsize h) k) (key_path (tsize h) k 0)
      = Some (key_path (tsize h) k j, used (tab ! key_path (tsize h) k j) \<noteq> 0)"
    by (rule dh.probe_stops [OF legal_key [OF p] b tab(2) _ j])
      (use False busy stop in simp_all)
  moreover note busy [of 0]
  ultimately show ?thesis using False tab by (auto simp: found_at_def)
qed

lemma found_at_full:
  assumes p: "prime_like (tsize h)" "tsize h \<le> UINT_MAX - 2"
    and tab: "table h = Some tab" "length tab = tsize h + 1"
    and busy: "\<And>l. l < tsize h \<Longrightarrow> used (tab ! key_path (tsize h) k l) \<noteq> 0
      \<and> \<not> (used (tab ! key_path (tsize h) k l) = hash k \<and> k = slot_key tab (key_path (tsize h) k l))"
  shows "found_at h k = Some (home (tsize h) k, False)"
proof -
  have b: "0 < home (tsize h) k" "home (tsize h) k \<le> tsize h" and pos: "0 < tsize h"
    using home_bounds [of "tsize h" k] p by (auto simp: prime_like_def)
  then have "slot tab (home (tsize h) k) = Some (tab ! home (tsize h) k)"
    using tab by (simp add: slot_def)
  moreover have "probe tab (tsize h) (hash k) (stride (tsize h) k) k (home (tsize h) k) (key_path (tsize h) k 0)
      = Some (home (tsize h) k, False)"
    by (rule dh.probe_full [OF legal_key [OF p] b tab(2) pos])
      (use busy in simp_all)
  moreover note busy [of 0]
  ultimately show ?thesis using pos tab by (auto simp: found_at_def)
qed

lemma hash_okD:
  assumes "hash_ok h" and "table h = Some tab"
  shows "prime_like (tsize h)" and "tsize h \<le> UINT_MAX - 2"
    and "length tab = tsize h + 1" and "filled h = card (in_use (tsize h) tab)"
    and "i \<in> in_use (tsize h) tab \<Longrightarrow> used (tab ! i) = hash (slot_key tab i)"
    and "i \<in> in_use (tsize h) tab \<Longrightarrow> i' \<in> in_use (tsize h) tab \<Longrightarrow>
      slot_key tab i = slot_key tab i' \<Longrightarrow> i = i'"
    and "i \<in> in_use (tsize h) tab \<Longrightarrow> \<exists>j < tsize h. i = key_path (tsize h) (slot_key tab i) j
          \<and> (\<forall>l < j. used (tab ! key_path (tsize h) (slot_key tab i) l) \<noteq> 0)"
  using assms unfolding hash_ok_def by force+

lemma hash_ok_table: "hash_ok h \<Longrightarrow> \<exists>tab. table h = Some tab"
  by (auto simp: hash_ok_def)

lemma key_path_range:
  assumes "prime_like sz" and "sz \<le> UINT_MAX - 2"
  shows "0 < key_path sz k j \<and> key_path sz k j \<le> sz"
  using dh.path_range [OF legal_key [OF assms], of "home sz k" k j]
    home_bounds [of sz k] assms(1) by (simp add: prime_like_def)

lemma found_at_hit:
  assumes "hash_ok h" and "table h = Some tab" and i: "i \<in> in_use (tsize h) tab"
  shows "found_at h (slot_key tab i) = Some (i, True)"
proof -
  let ?k = "slot_key tab i"
  note ok = hash_okD [OF assms(1,2)]
  note p = ok(1,2)
  obtain j where j: "j < tsize h" "key_path (tsize h) ?k j = i"
      "\<And>l. l < j \<Longrightarrow> used (tab ! key_path (tsize h) ?k l) \<noteq> 0"
    using ok(7) [OF i] by metis
  have first: "\<not> (used (tab ! key_path (tsize h) ?k l) = hash ?k \<and> ?k = slot_key tab (key_path (tsize h) ?k l))"
    if l: "l < j" for l
  proof
    assume a: "used (tab ! key_path (tsize h) ?k l) = hash ?k \<and> ?k = slot_key tab (key_path (tsize h) ?k l)"
    have "key_path (tsize h) ?k l \<in> in_use (tsize h) tab"
      using key_path_range [OF p] j(3) [OF l] by (simp add: in_use_def)
    with a ok(6) i have "key_path (tsize h) ?k l = key_path (tsize h) ?k j" using j(2) by metis
    with dh.path_inj [OF legal_key [OF p], of "home (tsize h) ?k" l j ?k]
      home_bounds [of "tsize h" ?k] p(1) j(1) l show False by (simp add: prime_like_def)
  qed
  have u: "used (tab ! i) = hash ?k" using ok(5) [OF i] .
  then have "found_at h ?k = Some (key_path (tsize h) ?k j, used (tab ! key_path (tsize h) ?k j) \<noteq> 0)"
    using first j assms(2) ok(3) p by (intro found_at_stops) auto
  with j(2) u show ?thesis by simp
qed

lemma found_at_miss:
  assumes "hash_ok h" and "table h = Some tab"
    and absent: "\<And>i. i \<in> in_use (tsize h) tab \<Longrightarrow> slot_key tab i \<noteq> k"
  obtains j where "j < tsize h" and "found_at h k = Some (key_path (tsize h) k j, False)"
      and "used (tab ! key_path (tsize h) k j) = 0"
      and "\<And>l. l < j \<Longrightarrow> used (tab ! key_path (tsize h) k l) \<noteq> 0"
    | "in_use (tsize h) tab = {1..tsize h}" and "found_at h k = Some (home (tsize h) k, False)"
proof -
  note p = hash_okD(1,2) [OF assms(1,2)] and len = hash_okD(3) [OF assms(1,2)]
  let ?p = "key_path (tsize h) k"
  have other: "\<not> (used (tab ! ?p l) = hash k \<and> k = slot_key tab (?p l))" for l
    using absent [of "?p l"] key_path_range [OF p] by (auto simp: in_use_def)
  show thesis
  proof (cases "\<exists>j < tsize h. used (tab ! ?p j) = 0")
    case True
    then obtain j where j: "j < tsize h" "used (tab ! ?p j) = 0"
        "\<forall>l < j. \<not> (l < tsize h \<and> used (tab ! ?p l) = 0)"
      using exists_least_iff [of "\<lambda>j. j < tsize h \<and> used (tab ! ?p j) = 0"] by blast
    have "found_at h k = Some (?p j, used (tab ! ?p j) \<noteq> 0)"
      using j other p assms(2) len by (intro found_at_stops) auto
    with j that(1) [of j] show thesis by auto
  next
    case False
    have "s \<in> in_use (tsize h) tab" if s: "0 < s" "s \<le> tsize h" for s
    proof -
      obtain j where "j < tsize h" "?p j = s"
        using dh.path_all [OF legal_key [OF p]] home_bounds [of "tsize h" k] p(1) s
        by (metis prime_like_def)
      with False s show ?thesis by (auto simp: in_use_def)
    qed
    then have "in_use (tsize h) tab = {1..tsize h}" by (auto simp: in_use_def)
    moreover have "found_at h k = Some (home (tsize h) k, False)"
      using False other p assms(2) len by (intro found_at_full) auto
    ultimately show thesis by (rule that(2))
  qed
qed

subsection \<open>The map\<close>

lemma used_entries:
  assumes "length tab = sz + 1"
  shows "e \<in> set (filter (\<lambda>e. used e \<noteq> 0) (tl tab)) \<longleftrightarrow> (\<exists>i \<in> in_use sz tab. e = tab ! i)"
proof
  assume "e \<in> set (filter (\<lambda>e. used e \<noteq> 0) (tl tab))"
  then obtain i where i: "i < length (tl tab)" "e = tl tab ! i" "used e \<noteq> 0"
    by (auto simp: in_set_conv_nth)
  then have "tl tab ! i = tab ! Suc i" by (intro nth_tl) simp
  with i assms show "\<exists>i \<in> in_use sz tab. e = tab ! i"
    by (intro bexI [of _ "Suc i"]) (auto simp: in_use_def)
next
  assume "\<exists>i \<in> in_use sz tab. e = tab ! i"
  then obtain i where i: "0 < i" "i \<le> sz" "used e \<noteq> 0" "e = tab ! i" by (auto simp: in_use_def)
  then have "i - 1 < length (tl tab)" "tl tab ! (i - 1) = e" using assms by (auto simp: nth_tl)
  with i(3) show "e \<in> set (filter (\<lambda>e. used e \<noteq> 0) (tl tab))" by (auto simp: in_set_conv_nth)
qed

lemma used_set:
  "length tab = sz + 1 \<Longrightarrow> set (filter (\<lambda>e. used e \<noteq> 0) (tl tab)) = (\<lambda>i. tab ! i) ` in_use sz tab"
  using used_entries by blast

lemma hs_map_in_use:
  assumes "hash_ok h" and tab: "table h = Some tab" and i: "i \<in> in_use (tsize h) tab"
  shows "hs_map h (slot_key tab i) = Some (data (entry (tab ! i)))"
proof -
  let ?es = "filter (\<lambda>e. used e \<noteq> 0) (tl tab)"
  note len = hash_okD(3) [OF assms(1) tab]
  have mem: "tab ! i \<in> set ?es" using used_entries [OF len] i by blast
  then have "hs_map h (slot_key tab i) \<noteq> None"
    unfolding hs_map_def tab option.case map_of_eq_None_iff by force
  then obtain d where d: "hs_map h (slot_key tab i) = Some d" by blast
  then have "(slot_key tab i, d) \<in> set (map (\<lambda>e. (key (entry e), data (entry e))) ?es)"
    unfolding hs_map_def tab option.case by (rule map_of_SomeD)
  then obtain e where e: "e \<in> set ?es" "key (entry e) = slot_key tab i" "data (entry e) = d" by auto
  then obtain i' where "i' \<in> in_use (tsize h) tab" "e = tab ! i'" using used_entries [OF len] by blast
  moreover from this e have "i' = i" using hash_okD(6) [OF assms(1) tab _ i] by simp
  ultimately show ?thesis using d e by simp
qed

lemma hs_map_absent:
  assumes "hash_ok h" and "table h = Some tab"
  shows "hs_map h k = None \<longleftrightarrow> (\<forall>i \<in> in_use (tsize h) tab. slot_key tab i \<noteq> k)"
proof -
  note len = hash_okD(3) [OF assms]
  have "hs_map h k = None \<longleftrightarrow> (\<forall>e \<in> set (filter (\<lambda>e. used e \<noteq> 0) (tl tab)). key (entry e) \<noteq> k)"
    using assms(2) by (auto simp: hs_map_def map_of_eq_None_iff image_iff)
  also have "\<dots> \<longleftrightarrow> (\<forall>i \<in> in_use (tsize h) tab. slot_key tab i \<noteq> k)"
    unfolding used_set [OF len] by simp
  finally show ?thesis .
qed

lemma card_dom_hs_map:
  assumes "hash_ok h"
  shows "card (dom (hs_map h)) = filled h"
proof -
  obtain tab where tab: "table h = Some tab" using hash_ok_table [OF assms] by blast
  have "dom (hs_map h) = slot_key tab ` in_use (tsize h) tab"
    using hs_map_absent [OF assms tab] hs_map_in_use [OF assms tab] by (auto simp: dom_def)
  moreover have "inj_on (slot_key tab) (in_use (tsize h) tab)" using hash_okD(6) [OF assms tab] by (rule inj_onI)
  ultimately show ?thesis using hash_okD(4) [OF assms tab] by (simp add: card_image)
qed

section \<open>Operations on well-formed tables\<close>

lemma insert_ok:
  assumes ok: "hash_ok h" "table h = Some tab" and j: "j < tsize h"
    and free: "used (tab ! key_path (tsize h) (key item) j) = 0"
    and busy: "\<And>l. l < j \<Longrightarrow> used (tab ! key_path (tsize h) (key item) l) \<noteq> 0"
    and absent: "\<And>i. i \<in> in_use (tsize h) tab \<Longrightarrow> slot_key tab i \<noteq> key item"
    and h': "h' = h\<lparr>table := Some (tab[key_path (tsize h) (key item) j :=
      \<lparr>used = hash (key item), entry = item\<rparr>]), filled := filled h + 1\<rparr>"
  shows "hash_ok h'" and "hs_map h' = (hs_map h)(key item \<mapsto> data item)"
proof -
  note D = hash_okD [OF ok]
  let ?idx = "key_path (tsize h) (key item) j"
  let ?tab = "tab[?idx := \<lparr>used = hash (key item), entry = item\<rparr>]"
  have idx: "0 < ?idx" "?idx \<le> tsize h" using key_path_range [OF D(1,2)] by auto
  have at: "?tab ! i = (if i = ?idx then \<lparr>used = hash (key item), entry = item\<rparr> else tab ! i)" for i
    using idx D(3) by (auto simp: nth_list_update)
  have new: "?idx \<notin> in_use (tsize h) tab" using free by (simp add: in_use_def)
  have use: "in_use (tsize h) ?tab = insert ?idx (in_use (tsize h) tab)"
    using idx by (auto simp: in_use_def at)
  have still: "used (?tab ! i) \<noteq> 0" if "used (tab ! i) \<noteq> 0" for i using that by (simp add: at)
  have reach: "\<exists>l < tsize h. i = key_path (tsize h) (slot_key ?tab i) l
      \<and> (\<forall>m < l. used (?tab ! key_path (tsize h) (slot_key ?tab i) m) \<noteq> 0)"
    if i: "i \<in> in_use (tsize h) ?tab" for i
  proof (cases "i = ?idx")
    case True
    then have k: "slot_key ?tab i = key item" by (simp add: at)
    show ?thesis unfolding k using True j busy still by blast
  next
    case False
    then have i': "i \<in> in_use (tsize h) tab" and k: "slot_key ?tab i = slot_key tab i"
      using i use by (simp_all add: at)
    show ?thesis unfolding k using D(7) [OF i'] still by blast
  qed
  have keys: "i = i'" if "i \<in> in_use (tsize h) ?tab" "i' \<in> in_use (tsize h) ?tab"
      and eq: "slot_key ?tab i = slot_key ?tab i'" for i i'
  proof -
    have "i = ?idx \<or> i \<in> in_use (tsize h) tab" "i' = ?idx \<or> i' \<in> in_use (tsize h) tab"
      using that(1,2) use by auto
    moreover have "slot_key ?tab x = (if x = ?idx then key item else slot_key tab x)" for x
      by (simp add: at)
    ultimately show ?thesis using eq D(6) [of i i'] absent [of i] absent [of i'] new by metis
  qed
  have hashes: "used (?tab ! i) = hash (slot_key ?tab i)" if "i \<in> in_use (tsize h) ?tab" for i
    using that use D(5) by (auto simp: at)
  have tab': "table h' = Some ?tab" "tsize h' = tsize h" "filled h' = filled h + 1"
    by (simp_all add: h')
  have card: "filled h + 1 = card (in_use (tsize h) ?tab)" using use new D(4) by simp
  show ok': "hash_ok h'"
    unfolding hash_ok_def tab'
    by (intro exI [of _ ?tab] conjI ballI impI refl)
      (use D(1-3) card hashes keys reach in \<open>simp_all only: length_list_update\<close>)
  show "hs_map h' = (hs_map h)(key item \<mapsto> data item)"
  proof
    fix k
    show "hs_map h' k = ((hs_map h)(key item \<mapsto> data item)) k"
    proof (cases "k = key item")
      case True
      have "?idx \<in> in_use (tsize h') ?tab" using use tab'(2) by simp
      from hs_map_in_use [OF ok' tab'(1) this] True show ?thesis by (simp add: at)
    next
      case k: False
      show ?thesis
      proof (cases "hs_map h k")
        case None
        then have "\<forall>i \<in> in_use (tsize h) tab. slot_key tab i \<noteq> k"
          using hs_map_absent [OF ok] by blast
        then have "\<forall>i \<in> in_use (tsize h') ?tab. slot_key ?tab i \<noteq> k"
          using use k new tab'(2) by (auto simp: at)
        then show ?thesis using hs_map_absent [OF ok' tab'(1)] None k by simp
      next
        case (Some d)
        then obtain i where i: "i \<in> in_use (tsize h) tab" "slot_key tab i = k"
          using hs_map_absent [OF ok] by (metis option.discI)
        then have u: "i \<in> in_use (tsize h') ?tab" and ne: "i \<noteq> ?idx" using use new tab'(2) by auto
        have "?tab ! i = tab ! i" using at [of i] ne by simp
        with hs_map_in_use [OF ok' tab'(1) u] hs_map_in_use [OF ok i(1)] i(2) k show ?thesis by simp
      qed
    qed
  qed
qed

text \<open>Where \<open>*retval\<close> points.\<close>

definition entry_at :: "hsearch_data \<Rightarrow> nat \<Rightarrow> ENTRY option" where
  "entry_at h i = do { tab \<leftarrow> table h; e \<leftarrow> slot tab i; Some (entry e) }"

lemma hsearch_hit:
  assumes "hash_ok h" and "hs_map h (key item) = Some d"
  shows "\<exists>i. hsearch_r item action h = Some (1, NOERR, Some i, h)
    \<and> entry_at h i = Some \<lparr>key = key item, data = d\<rparr>"
proof -
  obtain tab where tab: "table h = Some tab" using hash_ok_table [OF assms(1)] by blast
  obtain i where i: "i \<in> in_use (tsize h) tab" "slot_key tab i = key item"
    using hs_map_absent [OF assms(1) tab] assms(2) by (metis option.discI)
  have "found_at h (key item) = Some (i, True)" using found_at_hit [OF assms(1) tab i(1)] i(2) by simp
  moreover have "data (entry (tab ! i)) = d" using hs_map_in_use [OF assms(1) tab i(1)] i(2) assms(2) by simp
  moreover have "i < length tab" using i(1) hash_okD(3) [OF assms(1) tab] by (simp add: in_use_def)
  ultimately show ?thesis
    using i(2) by (intro exI [of _ i]) (simp add: hsearch_r_found_at [OF tab] entry_at_def tab slot_def)
qed

lemma hsearch_miss:
  assumes "hash_ok h" and "hs_map h (key item) = None"
  shows "hsearch_r item FIND h = Some (0, ESRCH, None, h)"
    and "card (dom (hs_map h)) = tsize h \<Longrightarrow> hsearch_r item ENTER h = Some (0, ENOMEM, None, h)"
    and "card (dom (hs_map h)) \<noteq> tsize h \<Longrightarrow> \<exists>i h'. hsearch_r item ENTER h = Some (1, NOERR, Some i, h')
      \<and> entry_at h' i = Some item \<and> hash_ok h' \<and> tsize h' = tsize h
      \<and> hs_map h' = (hs_map h)(key item \<mapsto> data item)"
proof -
  obtain tab where tab: "table h = Some tab" using hash_ok_table [OF assms(1)] by blast
  note D = hash_okD [OF assms(1) tab]
  have absent: "slot_key tab i \<noteq> key item" if "i \<in> in_use (tsize h) tab" for i
    using hs_map_absent [OF assms(1) tab] assms(2) that by blast
  have filled: "filled h = card (dom (hs_map h))" using card_dom_hs_map [OF assms(1)] by simp
  obtain idx where idx: "found_at h (key item) = Some (idx, False)"
    using found_at_miss [OF assms(1) tab absent] by metis
  then show "hsearch_r item FIND h = Some (0, ESRCH, None, h)"
    by (simp add: hsearch_r_found_at [OF tab])
  show "hsearch_r item ENTER h = Some (0, ENOMEM, None, h)" if "card (dom (hs_map h)) = tsize h"
    using idx that filled by (simp add: hsearch_r_found_at [OF tab])
  assume notfull: "card (dom (hs_map h)) \<noteq> tsize h"
  then have "in_use (tsize h) tab \<noteq> {1..tsize h}" using D(4) filled by auto
  then obtain j where j: "j < tsize h" "found_at h (key item) = Some (key_path (tsize h) (key item) j, False)"
      "used (tab ! key_path (tsize h) (key item) j) = 0"
      "\<And>l. l < j \<Longrightarrow> used (tab ! key_path (tsize h) (key item) l) \<noteq> 0"
    using found_at_miss [OF assms(1) tab absent] by metis
  let ?h' = "h\<lparr>table := Some (tab[key_path (tsize h) (key item) j :=
      \<lparr>used = hash (key item), entry = item\<rparr>]), filled := filled h + 1\<rparr>"
  note ins = insert_ok [OF assms(1) tab j(1) j(3) j(4) absent refl]
  have "hsearch_r item ENTER h = Some (1, NOERR, Some (key_path (tsize h) (key item) j), ?h')"
    using j(2) notfull filled by (simp add: hsearch_r_found_at [OF tab])
  moreover have "entry_at ?h' (key_path (tsize h) (key item) j) = Some item"
    using key_path_range [OF D(1,2), of "key item" j] D(3) by (simp add: entry_at_def slot_def)
  ultimately show "\<exists>i h'. hsearch_r item ENTER h = Some (1, NOERR, Some i, h')
      \<and> entry_at h' i = Some item \<and> hash_ok h' \<and> tsize h' = tsize h
      \<and> hs_map h' = (hs_map h)(key item \<mapsto> data item)"
    using ins by (intro exI [of _ "key_path (tsize h) (key item) j"] exI [of _ ?h']) simp
qed

subsection \<open>Creation\<close>

lemma replicate_zero_ok:
  assumes "prime_like p" and "p \<le> UINT_MAX - 2"
    and "h = \<lparr>table = Some (replicate (p + 1) zero_entry), tsize = p, filled = 0\<rparr>"
  shows "hash_ok h" and "hs_map h = Map.empty"
proof -
  have use: "in_use p (replicate (p + 1) zero_entry) = {}"
    by (auto simp: in_use_def zero_entry_def simp del: replicate_Suc)
  with assms show ok: "hash_ok h" by (simp add: hash_ok_def del: replicate_Suc)
  show "hs_map h = Map.empty"
    using hs_map_absent [OF ok] use assms(3) by (auto simp: fun_eq_iff simp del: replicate_Suc)
qed

lemma prime_size_least:
  "prime_size n = r \<Longrightarrow> odd n \<Longrightarrow> 3 \<le> n \<Longrightarrow> prime_like p \<Longrightarrow> n \<le> p \<Longrightarrow> p \<le> UINT_MAX - 2
    \<Longrightarrow> \<exists>q. r = Some q \<and> q \<le> p"
proof (induction n rule: prime_size.induct)
  case (1 n)
  show ?case
  proof (cases "isprime n")
    case True
    with 1 show ?thesis by (auto simp: prime_size.simps [of n])
  next
    case False
    with "1.prems" isprime_iff [of n] have "n \<noteq> p" by auto
    moreover have "odd p" using "1.prems"(4) by (auto simp: prime_like_def)
    ultimately have "n + 2 \<le> p" using "1.prems"(2,5) by presburger
    moreover have "\<not> UINT_MAX - 2 < n" using "1.prems"(5,6) by simp
    ultimately show ?thesis
      using "1.IH" False "1.prems" by (simp add: prime_size.simps [of n])
  qed
qed

section \<open>The contract\<close>

text \<open>What a program that keeps data under string keys relies on: the first value entered under a
  key stays, entering fails only when all the room is taken, and finding reads the map.\<close>

locale keyed_store =
  fixes valid :: "'s \<Rightarrow> bool" and contents :: "'s \<Rightarrow> string \<Rightarrow> nat option" and room :: "'s \<Rightarrow> nat"
    and enter :: "string \<Rightarrow> nat \<Rightarrow> 's \<Rightarrow> 's" and find :: "string \<Rightarrow> 's \<Rightarrow> nat option"
  assumes valid_enter: "valid s \<Longrightarrow> valid (enter k d s)"
    and room_enter: "valid s \<Longrightarrow> room (enter k d s) = room s"
    and contents_enter: "valid s \<Longrightarrow> contents (enter k d s) =
      (if contents s k \<noteq> None \<or> card (dom (contents s)) = room s then contents s
       else (contents s)(k \<mapsto> d))"
    and find_contents: "valid s \<Longrightarrow> find k s = contents s k"
    and finite_contents: "valid s \<Longrightarrow> finite (dom (contents s))"
begin

lemma valid_enter_all: "valid s \<Longrightarrow> valid (foldl (\<lambda>s (k, d). enter k d s) s kds)"
  by (induction kds arbitrary: s) (auto simp: valid_enter)

lemma find_enter_all:
  "valid s \<Longrightarrow> card (dom (contents s) \<union> fst ` set kds) \<le> room s \<Longrightarrow>
     find k (foldl (\<lambda>s (k, d). enter k d s) s kds) = (map_of kds ++ contents s) k"
proof (induction kds arbitrary: s)
  case Nil
  then show ?case by (simp add: find_contents)
next
  case (Cons kd kds)
  obtain k1 d1 where kd: "kd = (k1, d1)" by force
  let ?s = "enter k1 d1 s"
  note fin = finite_contents [OF Cons.prems(1)]
  have step: "contents ?s = (if contents s k1 \<noteq> None then contents s else (contents s)(k1 \<mapsto> d1))"
  proof (cases "contents s k1")
    case None
    then have "k1 \<notin> dom (contents s)" by auto
    then have "dom (contents s) \<subset> dom (contents s) \<union> fst ` set (kd # kds)" using kd by auto
    then have "card (dom (contents s)) < card (dom (contents s) \<union> fst ` set (kd # kds))"
      using fin by (intro psubset_card_mono) simp_all
    with Cons.prems(2) have "card (dom (contents s)) \<noteq> room s" by simp
    with None show ?thesis using contents_enter [OF Cons.prems(1)] by simp
  next
    case (Some d)
    then show ?thesis using contents_enter [OF Cons.prems(1)] by simp
  qed
  have "dom (contents ?s) \<union> fst ` set kds = dom (contents s) \<union> fst ` set (kd # kds)"
    unfolding step using kd by auto
  with Cons.prems have "find k (foldl (\<lambda>s (k, d). enter k d s) ?s kds) = (map_of kds ++ contents ?s) k"
    by (intro Cons.IH) (simp_all only: valid_enter room_enter)
  also have "\<dots> = (map_of (kd # kds) ++ contents s) k"
    unfolding step kd by (auto simp: map_add_def split: option.split)
  finally show ?case unfolding kd by (simp only: foldl.simps prod.case)
qed

end

definition hs_enter :: "string \<Rightarrow> nat \<Rightarrow> hsearch_data \<Rightarrow> hsearch_data" where
  "hs_enter k d h = (case hsearch_r \<lparr>key = k, data = d\<rparr> ENTER h of
      Some (_, _, _, h') \<Rightarrow> h' | None \<Rightarrow> h)"

definition hs_find :: "string \<Rightarrow> hsearch_data \<Rightarrow> nat option" where
  "hs_find k h = do { (ret, err, idx, h) \<leftarrow> hsearch_r \<lparr>key = k, data = 0\<rparr> FIND h;
                      i \<leftarrow> idx; e \<leftarrow> entry_at h i; Some (data e) }"

lemma hs_enter_cases:
  assumes "hash_ok h"
  shows "hash_ok (hs_enter k d h) \<and> tsize (hs_enter k d h) = tsize h
    \<and> hs_map (hs_enter k d h) = (if hs_map h k \<noteq> None \<or> card (dom (hs_map h)) = tsize h then hs_map h
       else (hs_map h)(k \<mapsto> d))"
proof (cases "hs_map h k")
  case None
  with hsearch_miss(2,3) [OF assms, of "\<lparr>key = k, data = d\<rparr>"] assms show ?thesis
    by (cases "card (dom (hs_map h)) = tsize h") (auto simp: hs_enter_def)
next
  case (Some x)
  with hsearch_hit [OF assms, of "\<lparr>key = k, data = d\<rparr>" x ENTER] assms show ?thesis
    by (auto simp: hs_enter_def)
qed

lemma hs_find_map: "hash_ok h \<Longrightarrow> hs_find k h = hs_map h k"
  using hsearch_hit [of h "\<lparr>key = k, data = 0\<rparr>" _ FIND] hsearch_miss(1) [of h "\<lparr>key = k, data = 0\<rparr>"]
  by (cases "hs_map h k") (auto simp: hs_find_def)

lemma finite_hs_map: "finite (dom (hs_map h))"
  by (cases "table h") (simp_all add: hs_map_def finite_dom_map_of)

interpretation hs: keyed_store hash_ok hs_map tsize hs_enter hs_find
  by unfold_locales (simp_all add: hs_enter_cases hs_find_map finite_hs_map)

section \<open>Properties\<close>

text \<open>C11: On a well-formed table hsearch_r with FIND returns the entry stored under the key, or
  fails with ESRCH exactly when the table's map has none; the probe loop ends, and the table is
  not changed.\<close>

theorem hsearch_find:
  assumes "hash_ok h"
  shows "case hs_map h (key item) of
      None \<Rightarrow> hsearch_r item FIND h = Some (0, ESRCH, None, h)
    | Some d \<Rightarrow> (\<exists>i. hsearch_r item FIND h = Some (1, NOERR, Some i, h)
        \<and> entry_at h i = Some \<lparr>key = key item, data = d\<rparr>)"
  using hsearch_hit [OF assms, of item] hsearch_miss(1) [OF assms, of item]
  by (cases "hs_map h (key item)") simp_all

text \<open>C10: hsearch_r with ENTER keeps the entry that is already stored under the key, reports ENOMEM
  exactly when the key is new and every slot is taken, and otherwise adds the binding to the map and
  points at it; well-formedness is kept. Since the size is prime the probe sequence reaches a free
  slot whenever there is one.\<close>

theorem hsearch_enter:
  assumes "hash_ok h"
  shows "case hs_map h (key item) of
      Some d \<Rightarrow> (\<exists>i. hsearch_r item ENTER h = Some (1, NOERR, Some i, h)
        \<and> entry_at h i = Some \<lparr>key = key item, data = d\<rparr>)
    | None \<Rightarrow>
        if card (dom (hs_map h)) = tsize h then hsearch_r item ENTER h = Some (0, ENOMEM, None, h)
        else (\<exists>i h'. hsearch_r item ENTER h = Some (1, NOERR, Some i, h')
          \<and> entry_at h' i = Some item \<and> hash_ok h' \<and> tsize h' = tsize h
          \<and> hs_map h' = (hs_map h)(key item \<mapsto> data item))"
  using hsearch_hit [OF assms, of item] hsearch_miss(2,3) [OF assms, of item]
  by (cases "hs_map h (key item)") simp_all

lemma hcreate_ok:
  assumes "table h = None" and "prime_like p" and "nel \<le> p" and "p \<le> UINT_MAX - 2"
    and "alloc os = (True, os')"
  shows "\<exists>h'. hcreate_r nel (Some h) os = (1, NOERR, Some h', os') \<and> hash_ok h'
    \<and> hs_map h' = Map.empty \<and> prime_like (tsize h') \<and> nel \<le> tsize h' \<and> tsize h' \<le> p"
proof -
  let ?n = "if nel < 3 then 3 else nel"
  let ?m = "if even ?n then ?n + 1 else ?n"
  have "odd p" "3 \<le> p" using assms(2) by (auto simp: prime_like_def)
  then have m: "odd ?m" "3 \<le> ?m" "?m \<le> p" "nel \<le> ?m" using assms(3) by (auto simp: Suc_le_eq order_less_le)
  obtain q where q: "prime_size ?m = Some q" "q \<le> p"
    using prime_size_least [OF refl m(1,2) assms(2) m(3) assms(4)] by blast
  then have pq: "prime_like q" "?m \<le> q" "q \<le> UINT_MAX - 2" using prime_size_sound m(1,2) by blast+
  let ?h = "h\<lparr>tsize := q, filled := 0, table := Some (replicate (q + 1) zero_entry)\<rparr>"
  have "?h = \<lparr>table = Some (replicate (q + 1) zero_entry), tsize = q, filled = 0\<rparr>" by simp
  note z = replicate_zero_ok [OF pq(1,3) this]
  have "hcreate_r nel (Some h) os = (1, NOERR, Some ?h, os')"
    using assms(1,5) q(1) by (simp add: hcreate_r_def Let_def)
  with z pq q(2) m(4) show ?thesis by (intro exI [of _ ?h]) (auto simp del: replicate_Suc)
qed

text \<open>C13: hcreate_r makes an empty well-formed table whose size is the least odd prime not below the
  requested one, as long as there is one that an unsigned int can hold.\<close>

theorem hcreate_prime:
  assumes "table h = None" and "prime_like p" and "nel \<le> p" and "p \<le> UINT_MAX - 2"
    and "alloc os = (True, os')"
  shows "\<exists>h'. hcreate_r nel (Some h) os = (1, NOERR, Some h', os') \<and> hash_ok h'
    \<and> hs_map h' = Map.empty \<and> prime_like (tsize h') \<and> nel \<le> tsize h' \<and> tsize h' \<le> p"
  using assms by (rule hcreate_ok)

text \<open>C12: A table that hcreate_r made for at least as many keys answers like a map: after any
  sequence of ENTER operations FIND returns for every key the first value entered under it.\<close>

theorem hsearch_sequence:
  assumes "table h = None" and "prime_like p" and "nel \<le> p" and "p \<le> UINT_MAX - 2"
    and "alloc os = (True, os')" and "card (fst ` set kds) \<le> nel"
  shows "\<exists>h'. hcreate_r nel (Some h) os = (1, NOERR, Some h', os')
    \<and> (\<forall>k. hs_find k (foldl (\<lambda>s (k, d). hs_enter k d s) h' kds) = map_of kds k)"
proof -
  obtain h' where h': "hcreate_r nel (Some h) os = (1, NOERR, Some h', os')" "hash_ok h'"
      "hs_map h' = Map.empty" "nel \<le> tsize h'"
    using hcreate_ok assms(1-5) by blast
  then show ?thesis using hs.find_enter_all [of h' kds] assms(6) by (intro exI [of _ h']) simp
qed

subsection \<open>Instances\<close>

lemma prime_like_5: "prime_like 5"
  using isprime_iff [of 5] by (simp add: isprime_def isprime_loop.simps)

abbreviation table5 :: hsearch_data where
  "table5 \<equiv> \<lparr>table = Some (replicate (5 + 1) zero_entry), tsize = 5, filled = 0\<rparr>"

lemma table5: "hash_ok table5" "hs_map table5 = Map.empty"
  using replicate_zero_ok [OF prime_like_5 _ refl] by (simp_all add: UINT_MAX_def)

theorem hsearch_find_witness: "hsearch_r \<lparr>key = ''a'', data = 0\<rparr> FIND table5 = Some (0, ESRCH, None, table5)"
  using hsearch_find [OF table5(1), of "\<lparr>key = ''a'', data = 0\<rparr>"] table5(2) by simp

theorem hsearch_enter_witness:
  "\<exists>i h'. hsearch_r \<lparr>key = ''a'', data = 7\<rparr> ENTER table5 = Some (1, NOERR, Some i, h')
     \<and> hash_ok h' \<and> hs_map h' = [''a'' \<mapsto> 7]"
  using hsearch_enter [OF table5(1), of "\<lparr>key = ''a'', data = 7\<rparr>"] table5(2) by auto

theorem hcreate_prime_witness:
  "\<exists>h'. hcreate_r 4 (Some \<lparr>table = None, tsize = 0, filled = 0\<rparr>) [] = (1, NOERR, Some h', [])
     \<and> hash_ok h' \<and> 4 \<le> tsize h' \<and> tsize h' \<le> 5"
  using hcreate_prime [of "\<lparr>table = None, tsize = 0, filled = 0\<rparr>" 5 4 "[]" "[]"] prime_like_5
  by (auto simp: UINT_MAX_def)

theorem hsearch_sequence_witness:
  "\<exists>h'. hcreate_r 2 (Some \<lparr>table = None, tsize = 0, filled = 0\<rparr>) [] = (1, NOERR, Some h', [])
     \<and> hs_find ''a'' (foldl (\<lambda>s (k, d). hs_enter k d s) h' [(''a'', 1), (''b'', 2), (''a'', 3)]) = Some 1"
proof -
  have "fst ` set [(''a'', 1 :: nat), (''b'', 2), (''a'', 3)] = {''a'', ''b''}" by auto
  then have "card (fst ` set [(''a'', 1 :: nat), (''b'', 2), (''a'', 3)]) \<le> 2" by simp
  from hsearch_sequence [OF _ prime_like_5 _ _ _ this,
    of "\<lparr>table = None, tsize = 0, filled = 0\<rparr>" "[]" "[]"]
  obtain h' where "hcreate_r 2 (Some \<lparr>table = None, tsize = 0, filled = 0\<rparr>) [] = (1, NOERR, Some h', [])"
    and "\<forall>k. hs_find k (foldl (\<lambda>s (k, d). hs_enter k d s) h' [(''a'', 1), (''b'', 2), (''a'', 3)])
      = map_of [(''a'', 1), (''b'', 2), (''a'', 3)] k"
    by (auto simp: UINT_MAX_def)
  then show ?thesis by (intro exI [of _ h']) simp
qed

end
