(* ===== verification/TWalk.thy ===== *)
theory TWalk
  imports Prelude "HOL-Library.Tree"
begin

unbundle bit_operations_syntax

text \<open>
  Walking and destroying the trees of src/src/search/tsearch.c (the file has no insertion; the
  trees come from the system's tsearch). Nodes live in a heap, a partial map from addresses; the low
  bit of the left link is the colour and is masked off when the link is followed. Reading an address
  that holds no node (a stray or freed one) is \<open>None\<close>.
\<close>

section \<open>Operations\<close>

record node_t =
  node_key :: "64 word"
  left_node :: "64 word"
  right_node :: "64 word"

type_synonym heap = "64 word \<Rightarrow> node_t option"

datatype VISIT = preorder | postorder | endorder | leaf

definition LEFT :: "node_t \<Rightarrow> 64 word" where
  "LEFT n = left_node n AND NOT 1"

definition RIGHT :: "node_t \<Rightarrow> 64 word" where
  "RIGHT n = right_node n"

text \<open>The action is called with the node, the kind of visit and the closure, whose state it
  changes.\<close>

type_synonym 's action = "64 word \<Rightarrow> VISIT \<Rightarrow> 's \<Rightarrow> 's"

partial_function (option) trecurse_r :: "'s action \<Rightarrow> heap \<Rightarrow> 64 word \<Rightarrow> 's \<Rightarrow> 's option" where
  "trecurse_r action h root closure =
     (case h root of None \<Rightarrow> None
      | Some n \<Rightarrow>
          if LEFT n = 0 \<and> RIGHT n = 0 then Some (action root leaf closure)
          else
            do { let closure = action root preorder closure;
                 closure \<leftarrow> (if LEFT n \<noteq> 0 then trecurse_r action h (LEFT n) closure else Some closure);
                 let closure = action root postorder closure;
                 closure \<leftarrow> (if RIGHT n \<noteq> 0 then trecurse_r action h (RIGHT n) closure else Some closure);
                 Some (action root endorder closure) })"

definition twalk_r :: "heap \<Rightarrow> 64 word \<Rightarrow> 's action option \<Rightarrow> 's \<Rightarrow> 's option" where
  "twalk_r h root action closure =
     (case action of
        Some act \<Rightarrow> if root \<noteq> 0 then trecurse_r act h root closure else Some closure
      | None \<Rightarrow> Some closure)"

text \<open>The heap after the frees, and the keys in the order \<open>freefct\<close> got them. The right link is
  read only after the left subtree is gone.\<close>

partial_function (option) tdestroy_recurse
  :: "heap \<Rightarrow> 64 word \<Rightarrow> 64 word list \<Rightarrow> (heap \<times> 64 word list) option" where
  "tdestroy_recurse h root freed =
     (case h root of None \<Rightarrow> None
      | Some n \<Rightarrow>
          do { (h, freed) \<leftarrow> (if LEFT n \<noteq> 0 then tdestroy_recurse h (LEFT n) freed else Some (h, freed));
               n \<leftarrow> h root;
               (h, freed) \<leftarrow> (if RIGHT n \<noteq> 0 then tdestroy_recurse h (RIGHT n) freed else Some (h, freed));
               n \<leftarrow> h root;
               Some (h(root := None), freed @ [node_key n]) })"

definition tdestroy :: "heap \<Rightarrow> 64 word \<Rightarrow> (heap \<times> 64 word list) option" where
  "tdestroy h root = (if root \<noteq> 0 then tdestroy_recurse h root [] else Some (h, []))"

section \<open>The tree in the heap\<close>

text \<open>The tree of addresses below a link, colours ignored.\<close>

fun tree_at :: "heap \<Rightarrow> 64 word \<Rightarrow> 64 word tree \<Rightarrow> bool" where
  "tree_at h p Leaf \<longleftrightarrow> p = 0"
| "tree_at h p (Node l a r) \<longleftrightarrow> p \<noteq> 0 \<and> p = a \<and>
     (\<exists>n. h p = Some n \<and> tree_at h (LEFT n) l \<and> tree_at h (RIGHT n) r)"

lemma tree_at_0 [simp]: "tree_at h 0 t \<longleftrightarrow> t = Leaf"
  by (cases t) auto

lemma tree_at_nonzero: "tree_at h p t \<Longrightarrow> p \<noteq> 0 \<longleftrightarrow> t \<noteq> Leaf"
  by (cases t) auto

text \<open>Only the addresses of the tree matter.\<close>

lemma tree_at_cong:
  "tree_at h p t \<Longrightarrow> \<forall>a \<in> set_tree t. h' a = h a \<Longrightarrow> tree_at h' p t"
  by (induction t arbitrary: p) auto

subsection \<open>The walk\<close>

fun visits :: "64 word tree \<Rightarrow> (64 word \<times> VISIT) list" where
  "visits Leaf = []"
| "visits (Node l a r) =
     (if l = Leaf \<and> r = Leaf then [(a, leaf)]
      else [(a, preorder)] @ visits l @ [(a, postorder)] @ visits r @ [(a, endorder)])"

definition run_visits :: "'s action \<Rightarrow> (64 word \<times> VISIT) list \<Rightarrow> 's \<Rightarrow> 's" where
  "run_visits act vs s = foldl (\<lambda>s (a, v). act a v s) s vs"

lemma run_visits_simps [simp]:
  "run_visits act [] s = s" "run_visits act ((a, v) # vs) s = run_visits act vs (act a v s)"
  "run_visits act (vs @ ws) s = run_visits act ws (run_visits act vs s)"
  by (simp_all add: run_visits_def)

lemma trecurse_r_visits:
  "tree_at h p t \<Longrightarrow> t \<noteq> Leaf \<Longrightarrow> trecurse_r act h p s = Some (run_visits act (visits t) s)"
proof (induction t arbitrary: p s)
  case (Node l a r)
  then obtain n where n: "h a = Some n" "tree_at h (LEFT n) l" "tree_at h (RIGHT n) r" "p = a" by auto
  then have z: "LEFT n = 0 \<longleftrightarrow> l = Leaf" "RIGHT n = 0 \<longleftrightarrow> r = Leaf"
    using tree_at_nonzero by blast+
  have L: "(if l \<noteq> Leaf then trecurse_r act h (LEFT n) s else Some s) = Some (run_visits act (visits l) s)" for s
    using Node.IH(1) [OF n(2)] z by (cases "l = Leaf") simp_all
  have R: "(if r \<noteq> Leaf then trecurse_r act h (RIGHT n) s else Some s) = Some (run_visits act (visits r) s)" for s
    using Node.IH(2) [OF n(3)] z by (cases "r = Leaf") simp_all
  show ?case
    using z n(1,4) by (subst trecurse_r.simps) (simp add: L R Let_def)
qed simp

text \<open>The visit that stands between the subtrees (or is the only one) is the inorder visit.\<close>

lemma visits_inorder:
  "map fst (filter (\<lambda>(a, v). v = postorder \<or> v = leaf) (visits t)) = inorder t"
  by (induction t) auto

lemma visits_preorder:
  "map fst (filter (\<lambda>(a, v). v = preorder \<or> v = leaf) (visits t)) = Tree.preorder t"
  by (induction t) auto

lemma visits_endorder:
  "map fst (filter (\<lambda>(a, v). v = endorder \<or> v = leaf) (visits t)) = Tree.postorder t"
  by (induction t) auto

text \<open>twalk_r calls the action on the nodes of the tree in the order of the tree: an inner node
  gets preorder, postorder (between its subtrees) and endorder, a node without children leaf only;
  so the postorder and leaf calls are the inorder traversal, the preorder and leaf calls the preorder
  one, the endorder and leaf calls the postorder one.\<close>

theorem twalk_r_orders:
  assumes "tree_at h root t"
  shows "twalk_r h root (Some act) s = Some (run_visits act (visits t) s)
    \<and> map fst (filter (\<lambda>(a, v). v = postorder \<or> v = leaf) (visits t)) = inorder t
    \<and> map fst (filter (\<lambda>(a, v). v = preorder \<or> v = leaf) (visits t)) = Tree.preorder t
    \<and> map fst (filter (\<lambda>(a, v). v = endorder \<or> v = leaf) (visits t)) = Tree.postorder t"
  using trecurse_r_visits [OF assms] assms
  by (cases "t = Leaf") (auto simp: twalk_r_def visits_inorder visits_preorder visits_endorder
    dest: tree_at_nonzero)

definition sample_heap :: heap where
  "sample_heap = [16 \<mapsto> \<lparr>node_key = 1, left_node = 33, right_node = 48\<rparr>,
                  32 \<mapsto> \<lparr>node_key = 2, left_node = 1, right_node = 0\<rparr>,
                  48 \<mapsto> \<lparr>node_key = 3, left_node = 0, right_node = 0\<rparr>]"

lemma sample_tree: "tree_at sample_heap 16 (Node (Node Leaf 32 Leaf) 16 (Node Leaf 48 Leaf))"
  by (simp add: sample_heap_def LEFT_def RIGHT_def)

theorem twalk_r_orders_witness:
  "twalk_r sample_heap 16 (Some (\<lambda>a v s. s @ [(a, v)])) []
     = Some [(16, preorder), (32, leaf), (16, postorder), (48, leaf), (16, endorder)]"
  using twalk_r_orders [OF sample_tree, of "\<lambda>a v s. s @ [(a, v)]" "[]"] by simp

subsection \<open>The destruction\<close>

fun distinct_tree :: "64 word tree \<Rightarrow> bool" where
  "distinct_tree Leaf = True"
| "distinct_tree (Node l a r) \<longleftrightarrow> distinct_tree l \<and> distinct_tree r \<and>
     a \<notin> set_tree l \<and> a \<notin> set_tree r \<and> set_tree l \<inter> set_tree r = {}"

definition key_of :: "heap \<Rightarrow> 64 word \<Rightarrow> 64 word" where
  "key_of h a = (case h a of Some n \<Rightarrow> node_key n | None \<Rightarrow> 0)"

definition without :: "heap \<Rightarrow> 64 word set \<Rightarrow> heap" where
  "without h A = (\<lambda>a. if a \<in> A then None else h a)"

lemma tdestroy_recurse_tree:
  "tree_at h p t \<Longrightarrow> distinct_tree t \<Longrightarrow> t \<noteq> Leaf \<Longrightarrow>
     tdestroy_recurse h p freed = Some (without h (set_tree t), freed @ map (key_of h) (Tree.postorder t))"
proof (induction t arbitrary: h p freed)
  case (Node l a r)
  then obtain n where n: "h a = Some n" "tree_at h (LEFT n) l" "tree_at h (RIGHT n) r" "p = a" by auto
  have d: "distinct_tree l" "distinct_tree r" "a \<notin> set_tree l" "a \<notin> set_tree r"
      "set_tree l \<inter> set_tree r = {}" using Node.prems(2) by auto
  have z: "LEFT n = 0 \<longleftrightarrow> l = Leaf" "RIGHT n = 0 \<longleftrightarrow> r = Leaf"
    using n tree_at_nonzero by blast+
  let ?h1 = "without h (set_tree l)"
  let ?h2 = "without ?h1 (set_tree r)"
  have L: "(if l \<noteq> Leaf then tdestroy_recurse h (LEFT n) freed else Some (h, freed))
      = Some (?h1, freed @ map (key_of h) (Tree.postorder l))"
    using Node.IH(1) [OF n(2) d(1)] z by (cases "l = Leaf") (simp_all add: without_def)
  have r1: "tree_at ?h1 (RIGHT n) r"
    using n(3) d(5) by (elim tree_at_cong) (auto simp: without_def)
  have R: "(if r \<noteq> Leaf then tdestroy_recurse ?h1 (RIGHT n) f else Some (?h1, f))
      = Some (?h2, f @ map (key_of ?h1) (Tree.postorder r))" for f
    using Node.IH(2) [OF r1 d(2)] z by (cases "r = Leaf") (simp_all add: without_def)
  have keys: "map (key_of ?h1) (Tree.postorder r) = map (key_of h) (Tree.postorder r)"
    using d(5) by (auto simp: key_of_def without_def disjoint_iff)
  have at: "?h1 a = Some n" "?h2 a = Some n" using n(1) d(3,4) by (simp_all add: without_def)
  have heap: "?h2(a := None) = without h (set_tree (Node l a r))" by (auto simp: without_def)
  have "key_of h a = node_key n" using n(1) by (simp add: key_of_def)
  with heap keys at z n(1,4) show ?case
    by (subst tdestroy_recurse.simps) (simp add: L R)
qed simp

text \<open>C14: tdestroy frees every node of the tree exactly once and nothing else, children before their
  parent, handing the keys to the callback in postorder; it never reads a node it has freed.\<close>

theorem tdestroy_frees_all:
  assumes "tree_at h root t" and "distinct_tree t"
  shows "tdestroy h root = Some (without h (set_tree t), map (key_of h) (Tree.postorder t))"
  using tdestroy_recurse_tree [OF assms] assms
  by (cases "t = Leaf") (auto simp: tdestroy_def without_def dest: tree_at_nonzero)

theorem tdestroy_frees_all_witness:
  "tdestroy sample_heap 16 = Some (without sample_heap {16, 32, 48}, [2, 3, 1])"
proof -
  have "set_tree (Node (Node Leaf 32 Leaf) 16 (Node Leaf 48 Leaf)) = {16, 32, 48 :: 64 word}" by auto
  then show ?thesis
    using tdestroy_frees_all [OF sample_tree] by (simp add: key_of_def sample_heap_def)
qed

end
