(* ===== verification/Dynarray.thy ===== *)
theory Dynarray
  imports Prelude
begin

text \<open>
  The dynamic arrays of src/src/malloc: the five \<open>__libc_dynarray_\<close> functions and the operations
  dynarray-skeleton.c generates for an element type. The macros that parametrise the skeleton are
  the fields of \<open>config\<close>. Heap blocks are lists of elements with an identity, so that a use
  after free or a double free is visible: it is \<open>None\<close>, like a read or write outside a block.
\<close>

section \<open>Operations\<close>

text \<open>\<open>DYNARRAY_ELEMENT_INIT\<close> is \<open>elem_init\<close> (the value it stores), \<open>DYNARRAY_ELEMENT_FREE\<close>
  defined or not is \<open>elem_free\<close>; \<open>zero\<close> is the element of all zero bytes, \<open>junk\<close> the content
  of fresh memory.\<close>

record 'a config =
  element_size :: nat
  initial_size :: nat
  elem_init :: "'a option"
  elem_free :: bool
  zero :: 'a
  junk :: 'a

text \<open>The process memory: the live blocks, the identity the next block gets, the answers of the
  allocator, the elements \<open>DYNARRAY_ELEMENT_FREE\<close> was called on, and \<open>errno\<close>.\<close>

record 'a memory =
  blocks :: "nat \<Rightarrow> 'a list option"
  next_id :: nat
  oracle_answers :: answers
  released :: "'a list"
  err :: errno

datatype aptr = NULL | Scratch | Heap nat

record dynarray_header =
  used :: nat
  allocated :: nat
  array :: aptr

record 'a dynarray = dynarray_header +
  scratch :: "'a list"

definition error_marker :: nat where
  "error_marker = 2 ^ 64 - 1"


text \<open>\<open>malloc\<close>, \<open>realloc\<close> and \<open>free\<close>, the sizes in elements. No object is larger than
  \<open>PTRDIFF_MAX\<close> bytes.\<close>

definition heap_malloc :: "'a config \<Rightarrow> nat \<Rightarrow> 'a memory \<Rightarrow> nat option \<times> 'a memory" where
  "heap_malloc cfg n m =
     (let (ok, os) = alloc (oracle_answers m); m = m\<lparr>oracle_answers := os\<rparr>
      in if ok \<and> n * element_size cfg < 2 ^ 63
         then (Some (next_id m), m\<lparr>blocks := (blocks m)(next_id m \<mapsto> replicate n (junk cfg)),
                                   next_id := next_id m + 1\<rparr>)
         else (None, m\<lparr>err := ENOMEM\<rparr>))"

definition heap_realloc :: "'a config \<Rightarrow> nat \<Rightarrow> nat \<Rightarrow> 'a memory \<Rightarrow> (nat option \<times> 'a memory) option" where
  "heap_realloc cfg p n m =
     (case blocks m p of None \<Rightarrow> None
      | Some b \<Rightarrow>
          let (q, m) = heap_malloc cfg n m
          in case q of None \<Rightarrow> Some (None, m)
             | Some q \<Rightarrow> Some (Some q, m\<lparr>blocks := (blocks m)(p := None,
                 q \<mapsto> take n b @ replicate (n - length b) (junk cfg))\<rparr>))"

definition heap_free :: "nat \<Rightarrow> 'a memory \<Rightarrow> 'a memory option" where
  "heap_free p m = (if blocks m p = None then None else Some (m\<lparr>blocks := (blocks m)(p := None)\<rparr>))"

definition array_free :: "aptr \<Rightarrow> 'a memory \<Rightarrow> 'a memory option" where
  "array_free p m = (case p of NULL \<Rightarrow> Some m | Scratch \<Rightarrow> None | Heap p \<Rightarrow> heap_free p m)"

text \<open>The block behind an array pointer, and storing into it.\<close>

definition array_block :: "'a dynarray \<Rightarrow> 'a memory \<Rightarrow> 'a list option" where
  "array_block l m = (case array l of NULL \<Rightarrow> None | Scratch \<Rightarrow> Some (scratch l) | Heap p \<Rightarrow> blocks m p)"

definition array_put :: "'a dynarray \<Rightarrow> 'a memory \<Rightarrow> 'a list \<Rightarrow> ('a dynarray \<times> 'a memory) option" where
  "array_put l m b = (case array l of NULL \<Rightarrow> None
     | Scratch \<Rightarrow> Some (l\<lparr>scratch := b\<rparr>, m)
     | Heap p \<Rightarrow> Some (l, m\<lparr>blocks := (blocks m)(p \<mapsto> b)\<rparr>))"

definition array_write :: "'a dynarray \<Rightarrow> 'a memory \<Rightarrow> nat \<Rightarrow> 'a list \<Rightarrow> ('a dynarray \<times> 'a memory) option" where
  "array_write l m off src =
     do { b \<leftarrow> array_block l m;
          if off + length src \<le> length b
          then array_put l m (take off b @ src @ drop (off + length src) b) else None }"

text \<open>\<open>DYNARRAY_SCRATCH\<close>\<close>

definition SCRATCH :: "'a config \<Rightarrow> aptr" where
  "SCRATCH cfg = (if 0 < initial_size cfg then Scratch else NULL)"

text \<open>The common part of the two enlarging functions: \<open>new_array\<close> for \<open>n\<close> elements, the elements
  in use copied.\<close>

definition new_array :: "'a config \<Rightarrow> 'a dynarray \<Rightarrow> nat \<Rightarrow> 'a memory \<Rightarrow> (nat option \<times> 'a memory) option" where
  "new_array cfg l n m =
     (if array l = SCRATCH cfg then
        let (p, m) = heap_malloc cfg n m
        in case p of None \<Rightarrow> Some (None, m)
           | Some p \<Rightarrow>
               if array l \<noteq> NULL then
                 if used l \<le> length (scratch l) \<and> used l \<le> n
                 then Some (Some p, m\<lparr>blocks := (blocks m)(p \<mapsto>
                        take (used l) (scratch l) @ replicate (n - used l) (junk cfg))\<rparr>)
                 else None
               else Some (Some p, m)
      else case array l of
             NULL \<Rightarrow> Some (heap_malloc cfg n m)
           | Scratch \<Rightarrow> None
           | Heap p \<Rightarrow> heap_realloc cfg p n m)"

text \<open>The new number of elements: a default without a scratch buffer, otherwise half as many
  again.\<close>

definition next_capacity :: "'a config \<Rightarrow> nat \<Rightarrow> nat" where
  "next_capacity cfg a =
     (if a = 0 then (if element_size cfg < 4 then 16 else if element_size cfg < 8 then 8 else 4)
      else size_add (size_add a (a div 2)) 1)"

definition libc_emplace_enlarge :: "'a config \<Rightarrow> 'a dynarray \<Rightarrow> 'a memory
    \<Rightarrow> (bool \<times> 'a dynarray \<times> 'a memory) option" where
  "libc_emplace_enlarge cfg l m =
     (let new_allocated = next_capacity cfg (allocated l)
      in if allocated l \<noteq> 0 \<and> new_allocated \<le> allocated l then Some (False, l, m\<lparr>err := ENOMEM\<rparr>)
         else if 2 ^ 64 \<le> new_allocated * element_size cfg then Some (False, l, m)
         else do { (p, m) \<leftarrow> new_array cfg l new_allocated m;
                   case p of None \<Rightarrow> Some (False, l, m)
                   | Some p \<Rightarrow> Some (True, l\<lparr>array := Heap p, allocated := new_allocated\<rparr>, m) })"

definition libc_resize :: "'a config \<Rightarrow> 'a dynarray \<Rightarrow> nat \<Rightarrow> 'a memory
    \<Rightarrow> (bool \<times> 'a dynarray \<times> 'a memory) option" where
  "libc_resize cfg l sz m =
     (if sz \<le> allocated l then Some (True, l\<lparr>used := sz\<rparr>, m)
      else if 2 ^ 64 \<le> sz * element_size cfg then Some (False, l, m\<lparr>err := ENOMEM\<rparr>)
      else do { (p, m) \<leftarrow> new_array cfg l sz m;
                case p of None \<Rightarrow> Some (False, l, m)
                | Some p \<Rightarrow> Some (True, l\<lparr>array := Heap p, allocated := sz, used := sz\<rparr>, m) })"

definition libc_resize_clear :: "'a config \<Rightarrow> 'a dynarray \<Rightarrow> nat \<Rightarrow> 'a memory
    \<Rightarrow> (bool \<times> 'a dynarray \<times> 'a memory) option" where
  "libc_resize_clear cfg l sz m =
     (let old_size = used l
      in do { (ok, l, m) \<leftarrow> libc_resize cfg l sz m;
              if \<not> ok then Some (False, l, m)
              else do { (l, m) \<leftarrow> array_write l m old_size (replicate (sz - old_size) (zero cfg));
                        Some (True, l, m) } })"


subsection \<open>The generated functions\<close>

definition free_elements :: "'a config \<Rightarrow> 'a dynarray \<Rightarrow> nat \<Rightarrow> nat \<Rightarrow> 'a memory \<Rightarrow> 'a memory option" where
  "free_elements cfg l off n m =
     (if elem_free cfg \<and> 0 < n then
        do { b \<leftarrow> array_block l m;
             if off + n \<le> length b then Some (m\<lparr>released := released m @ take n (drop off b)\<rparr>) else None }
      else Some m)"

definition free_array :: "'a config \<Rightarrow> 'a dynarray \<Rightarrow> 'a memory \<Rightarrow> 'a memory option" where
  "free_array cfg l m =
     (if 0 < initial_size cfg \<and> array l = Scratch then Some m else array_free (array l) m)"

definition dyn_init :: "'a config \<Rightarrow> 'a dynarray \<Rightarrow> 'a dynarray" where
  "dyn_init cfg l = l\<lparr>used := 0, allocated := initial_size cfg, array := SCRATCH cfg\<rparr>"


definition has_failed :: "'a dynarray \<Rightarrow> bool" where
  "has_failed l \<longleftrightarrow> allocated l = error_marker"

definition mark_failed :: "'a config \<Rightarrow> 'a dynarray \<Rightarrow> 'a memory \<Rightarrow> ('a dynarray \<times> 'a memory) option" where
  "mark_failed cfg l m =
     do { m \<leftarrow> free_elements cfg l 0 (used l) m;
          m \<leftarrow> free_array cfg l m;
          Some (l\<lparr>array := SCRATCH cfg, used := 0, allocated := error_marker\<rparr>, m) }"

definition dyn_size :: "'a dynarray \<Rightarrow> nat" where
  "dyn_size l = used l"

text \<open>\<open>None\<close> is the \<open>abort\<close> of \<open>__libc_dynarray_at_failure\<close>; otherwise the element's index.\<close>

definition dyn_at :: "'a dynarray \<Rightarrow> nat \<Rightarrow> nat option" where
  "dyn_at l index = (if dyn_size l \<le> index then None else Some index)"

definition dyn_add_slow :: "'a config \<Rightarrow> 'a dynarray \<Rightarrow> 'a \<Rightarrow> 'a memory \<Rightarrow> ('a dynarray \<times> 'a memory) option" where
  "dyn_add_slow cfg l item m =
     do { (ok, l, m) \<leftarrow> libc_emplace_enlarge cfg l m;
          if \<not> ok then mark_failed cfg l m
          else do { (l, m) \<leftarrow> array_write l m (used l) [item]; Some (l\<lparr>used := used l + 1\<rparr>, m) } }"

definition dyn_add :: "'a config \<Rightarrow> 'a dynarray \<Rightarrow> 'a \<Rightarrow> 'a memory \<Rightarrow> ('a dynarray \<times> 'a memory) option" where
  "dyn_add cfg l item m =
     (if has_failed l then Some (l, m)
      else if used l = allocated l then dyn_add_slow cfg l item m
      else do { (l, m) \<leftarrow> array_write l m (used l) [item]; Some (l\<lparr>used := used l + 1\<rparr>, m) })"

text \<open>The index of the new element.\<close>

definition emplace_tail :: "'a config \<Rightarrow> 'a dynarray \<Rightarrow> 'a memory \<Rightarrow> (nat option \<times> 'a dynarray \<times> 'a memory) option" where
  "emplace_tail cfg l m =
     (let result = used l; l = l\<lparr>used := used l + 1\<rparr>
      in case elem_init cfg of
           Some x \<Rightarrow> do { (l, m) \<leftarrow> array_write l m result [x]; Some (Some result, l, m) }
         | None \<Rightarrow>
             if elem_free cfg
             then do { (l, m) \<leftarrow> array_write l m result [zero cfg]; Some (Some result, l, m) }
             else Some (Some result, l, m))"

definition dyn_emplace :: "'a config \<Rightarrow> 'a dynarray \<Rightarrow> 'a memory \<Rightarrow> (nat option \<times> 'a dynarray \<times> 'a memory) option" where
  "dyn_emplace cfg l m =
     (if has_failed l then Some (None, l, m)
      else if used l = allocated l then
        do { (ok, l, m) \<leftarrow> libc_emplace_enlarge cfg l m;
             if \<not> ok then do { (l, m) \<leftarrow> mark_failed cfg l m; Some (None, l, m) }
             else emplace_tail cfg l m }
      else emplace_tail cfg l m)"

definition dyn_resize :: "'a config \<Rightarrow> 'a dynarray \<Rightarrow> nat \<Rightarrow> 'a memory \<Rightarrow> (bool \<times> 'a dynarray \<times> 'a memory) option" where
  "dyn_resize cfg l sz m =
     (if used l < sz then
        do { (ok, l, m) \<leftarrow>
               (case elem_init cfg of
                  Some x \<Rightarrow>
                    (let old_size = used l
                     in do { (ok, l, m) \<leftarrow> libc_resize cfg l sz m;
                             if ok then
                               do { (l, m) \<leftarrow> array_write l m old_size (replicate (sz - old_size) x);
                                    Some (True, l, m) }
                             else Some (False, l, m) })
                | None \<Rightarrow>
                    if elem_free cfg then libc_resize_clear cfg l sz m else libc_resize cfg l sz m);
             if \<not> ok then do { (l, m) \<leftarrow> mark_failed cfg l m; Some (False, l, m) }
             else Some (True, l, m) }
      else do { m \<leftarrow> free_elements cfg l sz (used l - sz) m;
                Some (True, l\<lparr>used := sz\<rparr>, m) })"

definition dyn_remove_last :: "'a config \<Rightarrow> 'a dynarray \<Rightarrow> 'a memory \<Rightarrow> ('a dynarray \<times> 'a memory) option" where
  "dyn_remove_last cfg l m =
     (if 0 < used l then
        let new_length = used l - 1
        in do { m \<leftarrow> free_elements cfg l new_length 1 m; Some (l\<lparr>used := new_length\<rparr>, m) }
      else Some (l, m))"

definition dyn_clear :: "'a config \<Rightarrow> 'a dynarray \<Rightarrow> 'a memory \<Rightarrow> ('a dynarray \<times> 'a memory) option" where
  "dyn_clear cfg l m =
     do { m \<leftarrow> free_elements cfg l 0 (used l) m; Some (l\<lparr>used := 0\<rparr>, m) }"


section \<open>What an array stands for\<close>

definition mem_ok :: "'a memory \<Rightarrow> bool" where
  "mem_ok m \<longleftrightarrow> (\<forall>p. next_id m \<le> p \<longrightarrow> blocks m p = None)"

text \<open>The heap block the array owns, and all the others.\<close>

definition owned :: "'a dynarray \<Rightarrow> nat set" where
  "owned l = (case array l of Heap p \<Rightarrow> {p} | _ \<Rightarrow> {})"

definition others :: "'a dynarray \<Rightarrow> 'a memory \<Rightarrow> nat \<Rightarrow> 'a list option" where
  "others l m = blocks m |` (- owned l)"

definition array_ok :: "'a config \<Rightarrow> 'a dynarray \<Rightarrow> 'a memory \<Rightarrow> 'a list \<Rightarrow> bool" where
  "array_ok cfg l m xs =
     (case array l of
        NULL \<Rightarrow> initial_size cfg = 0 \<and> allocated l = 0
      | Scratch \<Rightarrow> 0 < initial_size cfg \<and> allocated l = initial_size cfg \<and> take (used l) (scratch l) = xs
      | Heap p \<Rightarrow> \<exists>b. blocks m p = Some b \<and> length b = allocated l \<and> take (used l) b = xs)"

definition config_ok :: "'a config \<Rightarrow> bool" where
  "config_ok cfg \<longleftrightarrow> 0 < element_size cfg \<and> initial_size cfg * element_size cfg < 2 ^ 63"

text \<open>\<open>Some xs\<close>: a sound array with the elements \<open>xs\<close>; \<open>None\<close>: an array marked as failed.\<close>

definition dyn_rep :: "'a config \<Rightarrow> 'a dynarray \<Rightarrow> 'a memory \<Rightarrow> 'a list option \<Rightarrow> bool" where
  "dyn_rep cfg l m v \<longleftrightarrow> config_ok cfg \<and> mem_ok m \<and> length (scratch l) = initial_size cfg \<and>
     (case v of
        Some xs \<Rightarrow> used l = length xs \<and> used l \<le> allocated l \<and> allocated l * element_size cfg < 2 ^ 63
          \<and> array_ok cfg l m xs
      | None \<Rightarrow> used l = 0 \<and> allocated l = error_marker \<and> array l = SCRATCH cfg)"

text \<open>The effect of an operation: the new contents, every other block as it was (so nothing is leaked
  and nothing else touched), the elements released.\<close>

definition dyn_effect :: "'a config \<Rightarrow> 'a dynarray \<Rightarrow> 'a memory \<Rightarrow> 'a dynarray \<Rightarrow> 'a memory
    \<Rightarrow> 'a list option \<Rightarrow> 'a list \<Rightarrow> bool" where
  "dyn_effect cfg l m l' m' v rel \<longleftrightarrow> dyn_rep cfg l' m' v \<and> others l' m' = others l m
     \<and> released m' = released m @ (if elem_free cfg then rel else [])"

lemma config_pos: "config_ok cfg \<Longrightarrow> n \<le> n * element_size cfg"
  by (cases "element_size cfg") (simp_all add: config_ok_def)

lemma alloc_bound: "dyn_rep cfg l m (Some xs) \<Longrightarrow> allocated l < 2 ^ 63"
proof -
  assume r: "dyn_rep cfg l m (Some xs)"
  then have "allocated l \<le> allocated l * element_size cfg"
    by (intro config_pos) (simp add: dyn_rep_def)
  also have "\<dots> < 2 ^ 63" using r by (simp add: dyn_rep_def)
  finally show ?thesis .
qed

lemma not_failed: "dyn_rep cfg l m (Some xs) \<Longrightarrow> \<not> has_failed l"
  using alloc_bound [of cfg l m xs] by (auto simp: has_failed_def error_marker_def)

lemma rep_used: "dyn_rep cfg l m (Some xs) \<Longrightarrow> used l = length xs"
  by (simp add: dyn_rep_def)

lemma rep_block:
  assumes "dyn_rep cfg l m (Some xs)" and "0 < allocated l"
  obtains b where "array_block l m = Some b" and "length b = allocated l" and "take (used l) b = xs"
  using assms by (cases "array l") (auto simp: dyn_rep_def array_ok_def array_block_def)

text \<open>Writing inside the array.\<close>

lemma array_write_ok:
  assumes rep: "dyn_rep cfg l m (Some xs)" and off: "off + length src \<le> allocated l" "src \<noteq> []"
  shows "\<exists>l' m' b. array_block l m = Some b \<and> array_write l m off src = Some (l', m') \<and> used l' = used l \<and>
    (\<forall>n \<le> allocated l. dyn_effect cfg l m (l'\<lparr>used := n\<rparr>) m'
      (Some (take n (take off b @ src @ drop (off + length src) b))) [])"
proof -
  have "0 < allocated l" using off by (cases src) auto
  then obtain b where b: "array_block l m = Some b" "length b = allocated l"
    by (rule rep_block [OF rep])
  let ?b = "take off b @ src @ drop (off + length src) b"
  have len: "length ?b = allocated l" using b off by simp
  show ?thesis
  proof (cases "array l")
    case NULL
    with b show ?thesis by (simp add: array_block_def)
  next
    case Scratch
    then show ?thesis
      using rep b len off
      by (intro exI [of _ "l\<lparr>scratch := ?b\<rparr>"] exI [of _ m] exI [of _ b])
        (auto simp: array_write_def array_put_def array_block_def dyn_effect_def dyn_rep_def
          array_ok_def others_def owned_def)
  next
    case (Heap p)
    then have "p < next_id m"
      using rep b by (auto simp: dyn_rep_def mem_ok_def array_block_def not_less [symmetric])
    with Heap show ?thesis
      using rep b len off
      by (intro exI [of _ l] exI [of _ "m\<lparr>blocks := (blocks m)(p \<mapsto> ?b)\<rparr>"] exI [of _ b])
        (auto simp: array_write_def array_put_def array_block_def dyn_effect_def dyn_rep_def
          array_ok_def others_def owned_def mem_ok_def restrict_map_def fun_eq_iff)
  qed
qed

lemma new_array_ok:
  assumes rep: "dyn_rep cfg l m (Some xs)" and n: "length xs \<le> n"
  obtains (fail) m' where "new_array cfg l n m = Some (None, m')" and "blocks m' = blocks m"
      and "mem_ok m'" and "released m' = released m"
    | (ok) p m' b where "new_array cfg l n m = Some (Some p, m')" and "blocks m' p = Some b"
      and "length b = n" and "take (length xs) b = xs" and "n * element_size cfg < 2 ^ 63"
      and "mem_ok m'" and "released m' = released m"
      and "blocks m' |` (- {p}) = blocks m |` (- owned l)"
proof -
  obtain r m1 where mal: "heap_malloc cfg n m = (r, m1)" by force
  have mok: "mem_ok m" using rep by (simp add: dyn_rep_def)
  show thesis
  proof (cases r)
    case None
    then have m1: "blocks m1 = blocks m" "mem_ok m1" "released m1 = released m"
      using mal mok by (auto simp: heap_malloc_def mem_ok_def Let_def split: prod.splits if_splits)
    have "new_array cfg l n m = Some (None, m1)"
      using mal None rep
      by (cases "array l")
        (auto simp: new_array_def heap_realloc_def SCRATCH_def dyn_rep_def array_ok_def)
    with m1 show thesis by (rule fail [rotated])
  next
    case (Some p)
    then have p: "p = next_id m" "blocks m1 = (blocks m)(p \<mapsto> replicate n (junk cfg))"
        "next_id m1 = p + 1" "released m1 = released m" "n * element_size cfg < 2 ^ 63"
      using mal by (auto simp: heap_malloc_def Let_def split: prod.splits if_splits)
    have fresh: "blocks m p = None" using mok p(1) by (simp add: mem_ok_def)
    have ok1: "mem_ok m1" using mok p by (auto simp: mem_ok_def)
    show thesis
    proof (cases "array l")
      case NULL
      then have "xs = []" "initial_size cfg = 0" using rep by (auto simp: dyn_rep_def array_ok_def)
      with NULL mal Some p fresh ok1 show thesis
        by (intro ok [of p m1 "replicate n (junk cfg)"])
          (auto simp: new_array_def SCRATCH_def owned_def restrict_map_def fun_eq_iff)
    next
      case Scratch
      then have s: "used l = length xs" "take (used l) (scratch l) = xs" "0 < initial_size cfg"
          "used l \<le> length (scratch l)"
        using rep by (auto simp: dyn_rep_def array_ok_def)
      let ?b = "take (used l) (scratch l) @ replicate (n - used l) (junk cfg)"
      have "new_array cfg l n m = Some (Some p, m1\<lparr>blocks := (blocks m1)(p \<mapsto> ?b)\<rparr>)"
        using Scratch mal Some s n by (simp add: new_array_def SCRATCH_def)
      then show thesis
        by (rule ok [of p "m1\<lparr>blocks := (blocks m1)(p \<mapsto> ?b)\<rparr>" ?b])
          (use s n p ok1 fresh Scratch in
            \<open>auto simp: mem_ok_def owned_def restrict_map_def fun_eq_iff\<close>)
    next
      case (Heap q)
      then obtain b where b: "blocks m q = Some b" "length b = allocated l" "take (length xs) b = xs"
          "used l = length xs" "used l \<le> allocated l"
        using rep by (auto simp: dyn_rep_def array_ok_def)
      have ne: "q \<noteq> p" using fresh b by auto
      let ?b = "take n b @ replicate (n - length b) (junk cfg)"
      let ?m = "m1\<lparr>blocks := (blocks m1)(q := None, p \<mapsto> ?b)\<rparr>"
      have len: "take (length xs) ?b = xs" using b n by (simp add: take_append)
      have "new_array cfg l n m = Some (Some p, ?m)"
        using Heap mal Some b by (simp add: new_array_def SCRATCH_def heap_realloc_def)
      then show thesis
        by (rule ok [of p ?m ?b])
          (use len p ok1 fresh Heap ne in
            \<open>auto simp: mem_ok_def owned_def restrict_map_def fun_eq_iff\<close>)
    qed
  qed
qed

lemma dyn_rep_cong:
  "dyn_rep cfg l m v \<Longrightarrow> blocks m' = blocks m \<Longrightarrow> mem_ok m' \<Longrightarrow> dyn_rep cfg l m' v"
  by (auto simp: dyn_rep_def array_ok_def split: option.splits aptr.splits)

lemma dyn_effect_cong:
  "dyn_effect cfg l m1 l' m' v rel \<Longrightarrow> blocks m1 = blocks m \<Longrightarrow> released m1 = released m
    \<Longrightarrow> dyn_effect cfg l m l' m' v rel"
  by (simp add: dyn_effect_def others_def)

lemma dyn_effect_trans:
  "dyn_effect cfg l m l1 m1 v1 [] \<Longrightarrow> dyn_effect cfg l1 m1 l2 m2 v2 rel \<Longrightarrow> dyn_effect cfg l m l2 m2 v2 rel"
  by (simp add: dyn_effect_def)

lemma dyn_effect_rep: "dyn_effect cfg l m l' m' v rel \<Longrightarrow> dyn_rep cfg l' m' v"
  by (simp add: dyn_effect_def)

lemma free_elements_ok:
  assumes "dyn_rep cfg l m (Some xs)" and "off + n \<le> length xs"
  shows "free_elements cfg l off n m =
    Some (m\<lparr>released := released m @ (if elem_free cfg then take n (drop off xs) else [])\<rparr>)"
proof (cases "elem_free cfg \<and> 0 < n")
  case True
  then have "0 < allocated l" "used l = length xs" "used l \<le> allocated l"
    using assms by (auto simp: dyn_rep_def)
  moreover from this obtain b where b: "array_block l m = Some b" "length b = allocated l" "take (used l) b = xs"
    using rep_block [OF assms(1)] by blast
  moreover have "take n (drop off xs) = take n (drop off b)"
  proof -
    have "take n (drop off (take (length xs) b)) = take n (drop off b)"
      using assms(2) by (simp add: drop_take min_def)
    then show ?thesis using b(3) rep_used [OF assms(1)] by simp
  qed
  ultimately show ?thesis using True assms(2) by (simp add: free_elements_def)
next
  case False
  then show ?thesis by (auto simp: free_elements_def)
qed

lemma free_array_ok:
  assumes "dyn_rep cfg l m (Some xs)"
  obtains m' where "free_array cfg l m = Some m'" and "blocks m' = blocks m |` (- owned l)"
    and "next_id m' = next_id m" and "released m' = released m"
proof (cases "array l")
  case NULL
  with assms show thesis
    by (intro that [of m]) (auto simp: free_array_def array_free_def owned_def)
next
  case Scratch
  with assms show thesis
    by (intro that [of m]) (auto simp: free_array_def owned_def dyn_rep_def array_ok_def)
next
  case (Heap p)
  with assms obtain b where "blocks m p = Some b" by (auto simp: dyn_rep_def array_ok_def)
  with Heap show thesis
    by (intro that [of "m\<lparr>blocks := (blocks m)(p := None)\<rparr>"])
      (auto simp: free_array_def array_free_def heap_free_def owned_def restrict_map_def)
qed

lemma restrict_mem_ok: "mem_ok m \<Longrightarrow> blocks m' = blocks m |` A \<Longrightarrow> next_id m' = next_id m \<Longrightarrow> mem_ok m'"
  by (simp add: mem_ok_def restrict_map_def)

text \<open>Releasing all elements and the heap block: the end of \<open>mark_failed\<close> and of \<open>free\<close>.\<close>

lemma release_all:
  assumes rep: "dyn_rep cfg l m (Some xs)"
  obtains m' where "free_elements cfg l 0 (used l) m \<bind> free_array cfg l = Some m'"
    and "blocks m' = blocks m |` (- owned l)" and "mem_ok m'"
    and "released m' = released m @ (if elem_free cfg then xs else [])"
proof -
  let ?m1 = "m\<lparr>released := released m @ (if elem_free cfg then xs else [])\<rparr>"
  have f: "free_elements cfg l 0 (used l) m = Some ?m1"
    using free_elements_ok [OF rep, of 0 "used l"] rep_used [OF rep] by simp
  have rep1: "dyn_rep cfg l ?m1 (Some xs)"
    using rep by (intro dyn_rep_cong [OF rep]) (simp_all add: dyn_rep_def mem_ok_def)
  obtain m' where m': "free_array cfg l ?m1 = Some m'" "blocks m' = blocks ?m1 |` (- owned l)"
      "next_id m' = next_id ?m1" "released m' = released ?m1"
    by (rule free_array_ok [OF rep1])
  have "mem_ok ?m1" using rep1 by (simp add: dyn_rep_def)
  with m' have "mem_ok m'" by (intro restrict_mem_ok [of ?m1 m' "- owned l"])
  with f m' show thesis by (intro that [of m']) simp_all
qed

lemma owned_SCRATCH [simp]: "array l = SCRATCH cfg \<Longrightarrow> owned l = {}"
  by (simp add: owned_def SCRATCH_def split: if_splits)

lemma mark_failed_ok:
  assumes rep: "dyn_rep cfg l m (Some xs)"
  shows "\<exists>l' m'. mark_failed cfg l m = Some (l', m') \<and> dyn_effect cfg l m l' m' None xs"
proof -
  obtain m' where m': "free_elements cfg l 0 (used l) m \<bind> free_array cfg l = Some m'"
      "blocks m' = blocks m |` (- owned l)" "mem_ok m'"
      "released m' = released m @ (if elem_free cfg then xs else [])"
    by (rule release_all [OF rep])
  let ?l = "l\<lparr>array := SCRATCH cfg, used := 0, allocated := error_marker\<rparr>"
  have "mark_failed cfg l m = Some (?l, m')"
    using m'(1) by (auto simp: mark_failed_def bind_eq_Some_conv)
  moreover have "dyn_effect cfg l m ?l m' None xs"
    using m' rep by (auto simp: dyn_effect_def dyn_rep_def others_def)
  ultimately show ?thesis by blast
qed


lemma enlarged_ok:
  assumes rep: "dyn_rep cfg l m (Some xs)" and "blocks m' p = Some b" and "length b = n"
    and "length xs \<le> n" and "take (length xs) b = xs" and "n * element_size cfg < 2 ^ 63" and "mem_ok m'"
    and "released m' = released m" and "blocks m' |` (- {p}) = blocks m |` (- owned l)"
  shows "dyn_effect cfg l m (l\<lparr>array := Heap p, allocated := n\<rparr>) m' (Some xs) []"
  using assms by (auto simp: dyn_effect_def dyn_rep_def array_ok_def others_def owned_def)

text \<open>When the allocation for more room fails the array is not changed.\<close>

definition unchanged :: "'a memory \<Rightarrow> 'a memory \<Rightarrow> bool" where
  "unchanged m m' \<longleftrightarrow> blocks m' = blocks m \<and> released m' = released m \<and> mem_ok m'"

lemma unchanged_rep: "dyn_rep cfg l m v \<Longrightarrow> unchanged m m' \<Longrightarrow> dyn_rep cfg l m' v"
  by (auto simp: unchanged_def intro: dyn_rep_cong)

lemma unchanged_effect: "unchanged m m1 \<Longrightarrow> dyn_effect cfg l m1 l' m' v rel \<Longrightarrow> dyn_effect cfg l m l' m' v rel"
  by (auto simp: unchanged_def intro: dyn_effect_cong)

lemma next_capacity_grows: "a < 2 ^ 63 \<Longrightarrow> a < next_capacity cfg a"
  by (simp add: next_capacity_def size_add_def)

lemma emplace_enlarge_ok:
  assumes rep: "dyn_rep cfg l m (Some xs)" and full: "used l = allocated l"
  obtains (fail) m' where "libc_emplace_enlarge cfg l m = Some (False, l, m')" and "unchanged m m'"
    | (ok) l' m' where "libc_emplace_enlarge cfg l m = Some (True, l', m')"
      and "dyn_effect cfg l m l' m' (Some xs) []" and "used l' < allocated l'"
proof -
  let ?n = "next_capacity cfg (allocated l)"
  have n: "allocated l < ?n" by (rule next_capacity_grows [OF alloc_bound [OF rep]])
  then have xs: "length xs \<le> ?n" using rep_used [OF rep] full by simp
  have mok: "unchanged m (m\<lparr>err := e\<rparr>)" for e using rep by (auto simp: unchanged_def dyn_rep_def mem_ok_def)
  show thesis
  proof (cases "2 ^ 64 \<le> ?n * element_size cfg")
    case True
    then have "libc_emplace_enlarge cfg l m = Some (False, l, m)"
      using n by (simp add: libc_emplace_enlarge_def Let_def)
    moreover have "unchanged m m" using rep by (simp add: unchanged_def dyn_rep_def)
    ultimately show thesis by (rule fail)
  next
    case False
    have e: "libc_emplace_enlarge cfg l m = do { (p, m) \<leftarrow> new_array cfg l ?n m;
                   case p of None \<Rightarrow> Some (False, l, m)
                   | Some p \<Rightarrow> Some (True, l\<lparr>array := Heap p, allocated := ?n\<rparr>, m) }"
      using n False by (simp add: libc_emplace_enlarge_def Let_def)
    show thesis
    proof (cases rule: new_array_ok [OF rep xs])
      case (1 m')
      then show thesis using e by (intro fail [of m']) (simp_all add: unchanged_def)
    next
      case (2 p m' b)
      have "dyn_effect cfg l m (l\<lparr>array := Heap p, allocated := ?n\<rparr>) m' (Some xs) []"
        by (rule enlarged_ok [OF rep 2(2,3) xs 2(4,5,6,7,8)])
      moreover have "used (l\<lparr>array := Heap p, allocated := ?n\<rparr>) < allocated (l\<lparr>array := Heap p, allocated := ?n\<rparr>)"
        using n full by simp
      moreover have "libc_emplace_enlarge cfg l m = Some (True, l\<lparr>array := Heap p, allocated := ?n\<rparr>, m')"
        using e 2(1) by simp
      ultimately show thesis by (intro ok)
    qed
  qed
qed

lemma write_at:
  assumes rep: "dyn_rep cfg l m (Some ys)" and split: "ys = xs @ old" and new: "length (src @ rest) = allocated l - length xs"
    and "src \<noteq> []" "length old \<le> length src"
  shows "\<exists>l' m'. array_write l m (length xs) src = Some (l', m') \<and> used l' = used l
    \<and> dyn_effect cfg l m (l'\<lparr>used := length xs + length src\<rparr>) m' (Some (xs @ src)) []"
proof -
  have le: "length ys \<le> allocated l" "used l = length ys" using rep by (auto simp: dyn_rep_def)
  then have off: "length xs + length src \<le> allocated l" using new split by auto
  obtain l' m' b where w: "array_block l m = Some b" "array_write l m (length xs) src = Some (l', m')"
      "used l' = used l" "\<forall>n \<le> allocated l. dyn_effect cfg l m (l'\<lparr>used := n\<rparr>) m'
        (Some (take n (take (length xs) b @ src @ drop (length xs + length src) b))) []"
    using array_write_ok [OF rep off assms(4)] by blast
  have "0 < allocated l" using off assms(4) by (cases src) auto
  then obtain b' where b': "array_block l m = Some b'" "length b' = allocated l" "take (used l) b' = ys"
    by (rule rep_block [OF rep])
  then have b: "length b = allocated l" "take (length ys) b = ys" using w(1) le by auto
  have "take (length xs) (take (length ys) b) = xs" unfolding b(2) using split by simp
  moreover have "min (length xs) (length ys) = length xs" using split by simp
  ultimately have "take (length xs) b = xs" by (simp only: take_take)
  then have "xs @ src = take (length xs + length src) (take (length xs) b @ src @ drop (length xs + length src) b)"
    by simp
  with w off show ?thesis by metis
qed

lemma write_end:
  assumes rep: "dyn_rep cfg l m (Some xs)" and "used l < allocated l"
  shows "\<exists>l' m'. array_write l m (used l) [x] = Some (l', m') \<and> used l' = used l
    \<and> dyn_effect cfg l m (l'\<lparr>used := used l + 1\<rparr>) m' (Some (xs @ [x])) []"
  using write_at [OF rep, of xs "[]" "[x]" "replicate (allocated l - length xs - 1) x"] rep_used [OF rep] assms(2)
  by simp

lemma array_write_used:
  "array_write (l\<lparr>used := k\<rparr>) m off src = map_option (\<lambda>(l', m'). (l'\<lparr>used := k\<rparr>, m')) (array_write l m off src)"
  by (cases "array l")
    (auto simp: array_write_def array_block_def array_put_def split: option.split bind_splits)

definition add_outcome where
  "add_outcome cfg l m l' m' xs ys \<longleftrightarrow>
     dyn_effect cfg l m l' m' (Some ys) [] \<or> dyn_effect cfg l m l' m' None xs"

lemma failed_outcome:
  assumes "dyn_rep cfg l m (Some xs)" and "unchanged m m1"
  shows "\<exists>l' m'. mark_failed cfg l m1 = Some (l', m') \<and> dyn_effect cfg l m l' m' None xs"
  using mark_failed_ok [OF unchanged_rep [OF assms]] unchanged_effect [OF assms(2)] by blast

lemma dyn_add_ok:
  assumes rep: "dyn_rep cfg l m (Some xs)"
  shows "\<exists>l' m'. dyn_add cfg l x m = Some (l', m') \<and> add_outcome cfg l m l' m' xs (xs @ [x])"
proof (cases "used l = allocated l")
  case True
  then have e: "dyn_add cfg l x m = dyn_add_slow cfg l x m"
    using not_failed [OF rep] by (simp add: dyn_add_def)
  show ?thesis
  proof (cases rule: emplace_enlarge_ok [OF rep True])
    case (1 m1)
    with failed_outcome [OF rep 1(2)] e show ?thesis
      by (auto simp: dyn_add_slow_def add_outcome_def)
  next
    case (2 l1 m1)
    from write_end [OF dyn_effect_rep [OF 2(2)] 2(3), of x]
    obtain l2 m2 where w: "array_write l1 m1 (used l1) [x] = Some (l2, m2)" "used l2 = used l1"
        "dyn_effect cfg l1 m1 (l2\<lparr>used := used l1 + 1\<rparr>) m2 (Some (xs @ [x])) []" by blast
    have "dyn_add cfg l x m = Some (l2\<lparr>used := used l1 + 1\<rparr>, m2)"
      using e 2(1) w by (simp add: dyn_add_slow_def)
    with dyn_effect_trans [OF 2(2) w(3)] show ?thesis by (auto simp: add_outcome_def)
  qed
next
  case False
  then have lt: "used l < allocated l" using rep by (simp add: dyn_rep_def)
  from write_end [OF rep lt, of x] show ?thesis
    using False not_failed [OF rep] by (auto simp: dyn_add_def add_outcome_def)
qed

text \<open>The element \<open>emplace\<close> leaves: the initialiser's, or zero bytes when elements are freed, or
  whatever was there.\<close>

definition new_element :: "'a config \<Rightarrow> 'a \<Rightarrow> bool" where
  "new_element cfg x \<longleftrightarrow> (case elem_init cfg of Some y \<Rightarrow> x = y | None \<Rightarrow> elem_free cfg \<longrightarrow> x = zero cfg)"

lemma emplace_tail_ok:
  assumes rep: "dyn_rep cfg l m (Some xs)" and lt: "used l < allocated l"
  shows "\<exists>l' m' x. emplace_tail cfg l m = Some (Some (length xs), l', m')
    \<and> dyn_effect cfg l m l' m' (Some (xs @ [x])) [] \<and> new_element cfg x"
proof -
  have wr: "\<exists>l' m'. array_write (l\<lparr>used := used l + 1\<rparr>) m (used l) [x] = Some (l', m')
      \<and> dyn_effect cfg l m l' m' (Some (xs @ [x])) []" for x
    using write_end [OF rep lt, of x] array_write_used [where l = l and k = "used l + 1" and m = m and off = "used l" and src = "[x]"] by auto
  show ?thesis
  proof (cases "elem_init cfg")
    case (Some x)
    obtain l' m' where w: "array_write (l\<lparr>used := used l + 1\<rparr>) m (used l) [x] = Some (l', m')"
        "dyn_effect cfg l m l' m' (Some (xs @ [x])) []" using wr by blast
    then have "emplace_tail cfg l m = Some (Some (length xs), l', m')"
      using Some rep_used [OF rep] by (simp add: emplace_tail_def Let_def)
    moreover have "new_element cfg x" using Some by (simp add: new_element_def)
    ultimately show ?thesis using w(2) by blast
  next
    case None
    show ?thesis
    proof (cases "elem_free cfg")
      case True
      obtain l' m' where w: "array_write (l\<lparr>used := used l + 1\<rparr>) m (used l) [zero cfg] = Some (l', m')"
          "dyn_effect cfg l m l' m' (Some (xs @ [zero cfg])) []" using wr by blast
      then have "emplace_tail cfg l m = Some (Some (length xs), l', m')"
        using None True rep_used [OF rep] by (simp add: emplace_tail_def Let_def)
      moreover have "new_element cfg (zero cfg)" using None by (simp add: new_element_def)
      ultimately show ?thesis using w(2) by blast
    next
      case False
      obtain b where b: "array_block l m = Some b" "length b = allocated l" "take (used l) b = xs"
        using rep_block [OF rep] lt by (metis gr_implies_not0 neq0_conv)
      then have "take (used l + 1) b = xs @ [b ! used l]"
        using lt by (simp add: take_Suc_conv_app_nth)
      then have "dyn_effect cfg l m (l\<lparr>used := used l + 1\<rparr>) m (Some (xs @ [b ! used l])) []"
        using rep b lt
        by (cases "array l") (auto simp: dyn_effect_def dyn_rep_def array_ok_def others_def owned_def array_block_def)
      moreover have "emplace_tail cfg l m = Some (Some (length xs), l\<lparr>used := used l + 1\<rparr>, m)"
        using None False rep_used [OF rep] by (simp add: emplace_tail_def Let_def)
      moreover have "new_element cfg (b ! used l)" using None False by (simp add: new_element_def)
      ultimately show ?thesis by blast
    qed
  qed
qed

lemma dyn_emplace_ok:
  assumes rep: "dyn_rep cfg l m (Some xs)"
  shows "\<exists>r l' m' x. dyn_emplace cfg l m = Some (r, l', m') \<and> new_element cfg x
    \<and> (r = Some (length xs) \<and> dyn_effect cfg l m l' m' (Some (xs @ [x])) []
       \<or> r = None \<and> dyn_effect cfg l m l' m' None xs)"
proof -
  obtain x0 where x0: "new_element cfg x0"
    by (cases "elem_init cfg") (auto simp: new_element_def)
  show ?thesis
  proof (cases "used l = allocated l")
    case True
    show ?thesis
    proof (cases rule: emplace_enlarge_ok [OF rep True])
      case (1 m1)
      obtain l' m' where f: "mark_failed cfg l m1 = Some (l', m')" "dyn_effect cfg l m l' m' None xs"
        using failed_outcome [OF rep 1(2)] by blast
      then have "dyn_emplace cfg l m = Some (None, l', m')"
        using 1(1) True not_failed [OF rep] by (simp add: dyn_emplace_def)
      with f(2) x0 show ?thesis by blast
    next
      case (2 l1 m1)
      obtain l' m' x where t: "emplace_tail cfg l1 m1 = Some (Some (length xs), l', m')"
          "dyn_effect cfg l1 m1 l' m' (Some (xs @ [x])) []" "new_element cfg x"
        using emplace_tail_ok [OF dyn_effect_rep [OF 2(2)] 2(3)] by blast
      then have "dyn_emplace cfg l m = Some (Some (length xs), l', m')"
        using 2(1) True not_failed [OF rep] by (simp add: dyn_emplace_def)
      with t dyn_effect_trans [OF 2(2) t(2)] show ?thesis by blast
    qed
  next
    case False
    then have lt: "used l < allocated l" using rep by (simp add: dyn_rep_def)
    from emplace_tail_ok [OF rep lt] False not_failed [OF rep] show ?thesis
      by (auto simp: dyn_emplace_def)
  qed
qed

lemma libc_resize_ok:
  assumes rep: "dyn_rep cfg l m (Some xs)" and sz: "length xs < sz"
  obtains (fail) m' where "libc_resize cfg l sz m = Some (False, l, m')" and "unchanged m m'"
    | (ok) l' m' old where "libc_resize cfg l sz m = Some (True, l', m')"
      and "dyn_effect cfg l m l' m' (Some (xs @ old)) []" and "length (xs @ old) = sz"
proof -
  show thesis
  proof (cases "sz \<le> allocated l")
    case True
    then obtain b where b: "array_block l m = Some b" "length b = allocated l" "take (used l) b = xs"
      using rep_block [OF rep] sz by (metis le_zero_eq not_gr_zero not_less_zero)
    have "take sz b = take (length xs) b @ take (sz - length xs) (drop (length xs) b)"
      using sz by (metis le_add_diff_inverse less_imp_le take_add)
    then have t: "take sz b = xs @ take (sz - length xs) (drop (length xs) b)" (is "_ = _ @ ?old")
      using b(3) rep_used [OF rep] by simp
    then have "dyn_effect cfg l m (l\<lparr>used := sz\<rparr>) m (Some (xs @ ?old)) []"
      using rep b True sz
      by (cases "array l") (auto simp: dyn_effect_def dyn_rep_def array_ok_def others_def owned_def array_block_def)
    moreover have "length (xs @ ?old) = sz" using t b(2) True by (metis length_take min.absorb2)
    moreover have "libc_resize cfg l sz m = Some (True, l\<lparr>used := sz\<rparr>, m)"
      using True by (simp add: libc_resize_def)
    ultimately show thesis by (rule ok [rotated])
  next
    case False
    show thesis
    proof (cases "2 ^ 64 \<le> sz * element_size cfg")
      case True
      with False rep show thesis
        by (intro fail [of "m\<lparr>err := ENOMEM\<rparr>"])
          (auto simp: libc_resize_def unchanged_def dyn_rep_def mem_ok_def)
    next
      case fits: False
      show thesis
      proof (cases rule: new_array_ok [OF rep less_imp_le [OF sz]])
        case (1 m')
        then show thesis using False fits
          by (intro fail [of m']) (simp_all add: libc_resize_def unchanged_def)
      next
        case (2 p m' b)
        let ?l = "l\<lparr>array := Heap p, allocated := sz, used := sz\<rparr>"
        have "b = xs @ drop (length xs) b" using 2(4) by (metis append_take_drop_id)
        moreover have "dyn_effect cfg l m ?l m' (Some b) []"
          using rep 2 by (auto simp: dyn_effect_def dyn_rep_def array_ok_def others_def owned_def)
        moreover have "libc_resize cfg l sz m = Some (True, ?l, m')"
          using 2(1) False fits by (simp add: libc_resize_def)
        ultimately show thesis using ok [of ?l m' "drop (length xs) b"] 2(3) by simp
      qed
    qed
  qed
qed

text \<open>The elements \<open>resize\<close> adds.\<close>

definition fill :: "'a config \<Rightarrow> 'a list \<Rightarrow> bool" where
  "fill cfg ys \<longleftrightarrow> (\<forall>y \<in> set ys. new_element cfg y)"

lemma fill_replicate: "new_element cfg x \<Longrightarrow> fill cfg (replicate n x)"
  by (simp add: fill_def)

lemma write_fill:
  assumes rep: "dyn_effect cfg l0 m0 l m (Some (xs @ old)) []" and len: "length (xs @ old) = sz" "length xs < sz"
  shows "\<exists>l' m'. array_write l m (length xs) (replicate (sz - length xs) x) = Some (l', m')
    \<and> dyn_effect cfg l0 m0 l' m' (Some (xs @ replicate (sz - length xs) x)) []"
proof -
  note r = dyn_effect_rep [OF rep]
  have u: "used l = sz" "sz \<le> allocated l" using r len by (auto simp: dyn_rep_def)
  have o: "length old \<le> length (replicate (sz - length xs) x)" "replicate (sz - length xs) x \<noteq> []"
    "length (replicate (sz - length xs) x @ replicate (allocated l - sz) x) = allocated l - length xs"
    using len u(2) by auto
  obtain l' m' where w: "array_write l m (length xs) (replicate (sz - length xs) x) = Some (l', m')"
      "used l' = used l"
      "dyn_effect cfg l m (l'\<lparr>used := length xs + length (replicate (sz - length xs) x)\<rparr>) m'
        (Some (xs @ replicate (sz - length xs) x)) []"
    using write_at [OF r refl o(3,2,1)] by blast
  have "l'\<lparr>used := length xs + length (replicate (sz - length xs) x)\<rparr> = l'"
    using w(2) u(1) len by simp
  with w dyn_effect_trans [OF rep w(3)] show ?thesis by auto
qed

lemma dyn_truncate_effect:
  assumes rep: "dyn_rep cfg l m (Some xs)" and n: "n \<le> length xs"
    and "m' = m\<lparr>released := released m @ (if elem_free cfg then rel else [])\<rparr>"
  shows "dyn_effect cfg l m (l\<lparr>used := n\<rparr>) m' (Some (take n xs)) rel"
proof -
  have t: "take n b = take n xs" if "take (length xs) b = xs" for b
    using that n by (metis take_take min_absorb1)
  from assms show ?thesis
    by (cases "array l")
      (auto simp: dyn_effect_def dyn_rep_def array_ok_def others_def owned_def mem_ok_def intro: t)
qed

lemma dyn_resize_ok:
  assumes rep: "dyn_rep cfg l m (Some xs)"
  shows "\<exists>ok l' m' new. dyn_resize cfg l sz m = Some (ok, l', m') \<and> fill cfg new \<and>
    length new = sz - length xs \<and>
    (if ok then dyn_effect cfg l m l' m' (Some (take sz xs @ new)) (drop sz xs)
     else length xs < sz \<and> dyn_effect cfg l m l' m' None xs)"
proof (cases "length xs < sz")
  case True
  obtain x0 where x0: "new_element cfg x0"
    by (cases "elem_init cfg") (auto simp: new_element_def)
  have u: "used l = length xs" using rep_used [OF rep] .
  show ?thesis
  proof (cases rule: libc_resize_ok [OF rep True])
    case (1 m1)
    obtain l' m' where f: "mark_failed cfg l m1 = Some (l', m')" "dyn_effect cfg l m l' m' None xs"
      using failed_outcome [OF rep 1(2)] by blast
    have "dyn_resize cfg l sz m = Some (False, l', m')"
      using 1(1) True f(1) u
      by (auto simp: dyn_resize_def libc_resize_clear_def Let_def split: option.split)
    with f(2) True fill_replicate [OF x0, of "sz - length xs"] show ?thesis
      by (intro exI [of _ False] exI [of _ l'] exI [of _ m'] exI [of _ "replicate (sz - length xs) x0"]) simp
  next
    case (2 l1 m1 old)
    have filled: ?thesis if x: "new_element cfg x" and e: "\<And>l' m'. array_write l1 m1 (length xs) (replicate (sz - length xs) x)
        = Some (l', m') \<Longrightarrow> dyn_resize cfg l sz m = Some (True, l', m')" for x
    proof -
      obtain l' m' where w: "array_write l1 m1 (length xs) (replicate (sz - length xs) x) = Some (l', m')"
          "dyn_effect cfg l m l' m' (Some (xs @ replicate (sz - length xs) x)) []"
        using write_fill [OF 2(2,3) True] by blast
      show ?thesis
        by (rule exI [of _ True], rule exI [of _ l'], rule exI [of _ m'],
            rule exI [of _ "replicate (sz - length xs) x"])
          (use e [OF w(1)] w(2) fill_replicate [OF x] True in simp)
    qed
    show ?thesis
    proof (cases "elem_init cfg")
      case (Some x)
      show ?thesis
        by (rule filled [of x]) (use Some 2(1) True u in \<open>auto simp: dyn_resize_def new_element_def Let_def\<close>)
    next
      case None
      show ?thesis
      proof (cases "elem_free cfg")
        case True
        show ?thesis
          by (rule filled [of "zero cfg"])
            (use None 2(1) True \<open>length xs < sz\<close> u in
              \<open>auto simp: dyn_resize_def libc_resize_clear_def new_element_def Let_def\<close>)
      next
        case False
        then have "dyn_resize cfg l sz m = Some (True, l1, m1)"
          using None 2(1) True u by (simp add: dyn_resize_def)
        moreover have "fill cfg old" using None False by (simp add: fill_def new_element_def)
        ultimately show ?thesis
          using 2(2,3) True
          by (intro exI [of _ True] exI [of _ l1] exI [of _ m1] exI [of _ old]) auto
      qed
    qed
  qed
next
  case False
  then have u: "used l = length xs" "sz \<le> length xs" using rep_used [OF rep] by simp_all
  let ?m = "m\<lparr>released := released m @ (if elem_free cfg then drop sz xs else [])\<rparr>"
  have "dyn_resize cfg l sz m = Some (True, l\<lparr>used := sz\<rparr>, ?m)"
    using free_elements_ok [OF rep, of sz "length xs - sz"] u by (simp add: dyn_resize_def)
  moreover have "dyn_effect cfg l m (l\<lparr>used := sz\<rparr>) ?m (Some (take sz xs)) (drop sz xs)"
    by (rule dyn_truncate_effect [OF rep u(2) refl])
  ultimately show ?thesis using u(2)
    by (intro exI [of _ True] exI [of _ "l\<lparr>used := sz\<rparr>"] exI [of _ ?m] exI [of _ "[]"]) (simp add: fill_def)
qed

lemma dyn_remove_last_ok:
  assumes rep: "dyn_rep cfg l m (Some xs)"
  shows "\<exists>l' m'. dyn_remove_last cfg l m = Some (l', m')
    \<and> dyn_effect cfg l m l' m' (Some (butlast xs)) (drop (length xs - 1) xs)"
proof (cases "xs = []")
  case True
  with rep show ?thesis by (auto simp: dyn_remove_last_def dyn_effect_def dyn_rep_def)
next
  case False
  then have u: "used l = length xs" "0 < length xs" using rep_used [OF rep] by simp_all
  have "take 1 (drop (length xs - 1) xs) = drop (length xs - 1) xs" by simp
  with u free_elements_ok [OF rep, of "length xs - 1" 1]
    dyn_truncate_effect [OF rep _ refl, of "length xs - 1" "drop (length xs - 1) xs"]
  show ?thesis by (auto simp: dyn_remove_last_def Let_def butlast_conv_take)
qed

lemma dyn_clear_ok:
  assumes rep: "dyn_rep cfg l m (Some xs)"
  shows "\<exists>l' m'. dyn_clear cfg l m = Some (l', m') \<and> dyn_effect cfg l m l' m' (Some []) xs"
  using free_elements_ok [OF rep, of 0 "used l"] rep_used [OF rep] dyn_truncate_effect [OF rep _ refl, of 0 xs]
  by (auto simp: dyn_clear_def)



lemma dyn_init_ok:
  "config_ok cfg \<Longrightarrow> mem_ok m \<Longrightarrow> length (scratch l) = initial_size cfg \<Longrightarrow> dyn_rep cfg (dyn_init cfg l) m (Some [])"
  by (auto simp: dyn_rep_def dyn_init_def array_ok_def SCRATCH_def config_ok_def)



section \<open>Sequences of operations\<close>

datatype 'a dyn_op = Add 'a | Emplace | Resize nat | Remove_last | Clear

definition run_op :: "'a config \<Rightarrow> 'a dyn_op \<Rightarrow> 'a dynarray \<Rightarrow> 'a memory \<Rightarrow> ('a dynarray \<times> 'a memory) option" where
  "run_op cfg op l m = (case op of
      Add x \<Rightarrow> dyn_add cfg l x m
    | Emplace \<Rightarrow> map_option snd (dyn_emplace cfg l m)
    | Resize n \<Rightarrow> map_option snd (dyn_resize cfg l n m)
    | Remove_last \<Rightarrow> dyn_remove_last cfg l m
    | Clear \<Rightarrow> dyn_clear cfg l m)"

text \<open>The list operations an array implements; the last argument are the elements released.\<close>

inductive list_op :: "'a config \<Rightarrow> 'a dyn_op \<Rightarrow> 'a list \<Rightarrow> 'a list \<Rightarrow> 'a list \<Rightarrow> bool" for cfg where
  add: "list_op cfg (Add x) xs (xs @ [x]) []"
| emplace: "new_element cfg x \<Longrightarrow> list_op cfg Emplace xs (xs @ [x]) []"
| resize: "fill cfg new \<Longrightarrow> length new = n - length xs \<Longrightarrow> list_op cfg (Resize n) xs (take n xs @ new) (drop n xs)"
| remove_last: "list_op cfg Remove_last xs (butlast xs) (drop (length xs - 1) xs)"
| clear: "list_op cfg Clear xs [] xs"

lemma run_op_ok:
  assumes rep: "dyn_rep cfg l m (Some xs)"
  shows "\<exists>l' m'. run_op cfg op l m = Some (l', m') \<and>
    ((\<exists>ys rel. list_op cfg op xs ys rel \<and> dyn_effect cfg l m l' m' (Some ys) rel)
     \<or> dyn_effect cfg l m l' m' None xs)"
proof (cases op)
  case (Add x)
  have "list_op cfg op xs (xs @ [x]) []" unfolding Add by (rule list_op.add)
  with Add dyn_add_ok [OF rep, of x] show ?thesis
    unfolding run_op_def add_outcome_def by (simp del: split_paired_Ex) blast
next
  case Emplace
  obtain r l' m' x where e: "dyn_emplace cfg l m = Some (r, l', m')" "new_element cfg x"
    "r = Some (length xs) \<and> dyn_effect cfg l m l' m' (Some (xs @ [x])) []
       \<or> r = None \<and> dyn_effect cfg l m l' m' None xs"
    using dyn_emplace_ok [OF rep] by blast
  then have "run_op cfg op l m = Some (l', m')" using Emplace by (simp add: run_op_def)
  moreover have "list_op cfg op xs (xs @ [x]) []" unfolding Emplace using e(2) by (rule list_op.emplace)
  ultimately show ?thesis using e(3) by blast
next
  case (Resize n)
  obtain ok l' m' new where e: "dyn_resize cfg l n m = Some (ok, l', m')" "fill cfg new"
    "length new = n - length xs"
    "if ok then dyn_effect cfg l m l' m' (Some (take n xs @ new)) (drop n xs)
     else length xs < n \<and> dyn_effect cfg l m l' m' None xs"
    using dyn_resize_ok [OF rep] by blast
  then have "run_op cfg op l m = Some (l', m')" using Resize by (simp add: run_op_def)
  moreover have "list_op cfg op xs (take n xs @ new) (drop n xs)"
    unfolding Resize using e(2,3) by (rule list_op.resize)
  ultimately show ?thesis using e(4) by (cases ok) auto
next
  case Remove_last
  have "list_op cfg op xs (butlast xs) (drop (length xs - 1) xs)"
    unfolding Remove_last by (rule list_op.remove_last)
  with Remove_last dyn_remove_last_ok [OF rep] show ?thesis
    unfolding run_op_def by (simp del: split_paired_Ex One_nat_def) blast
next
  case Clear
  have "list_op cfg op xs [] xs" unfolding Clear by (rule list_op.clear)
  with Clear dyn_clear_ok [OF rep] show ?thesis
    unfolding run_op_def by (simp del: split_paired_Ex) blast
qed

text \<open>A failed array stays as it is, unless it is asked to grow.\<close>

lemma run_op_failed:
  assumes "dyn_rep cfg l m None" and "\<And>n. op \<noteq> Resize n"
  shows "run_op cfg op l m = Some (l, m)"
  using assms
  by (cases op) (auto simp: run_op_def dyn_rep_def dyn_add_def dyn_emplace_def has_failed_def
    dyn_remove_last_def dyn_clear_def free_elements_def)

fun run_ops :: "'a config \<Rightarrow> 'a dyn_op list \<Rightarrow> 'a dynarray \<Rightarrow> 'a memory \<Rightarrow> ('a dynarray \<times> 'a memory) option" where
  "run_ops cfg [] l m = Some (l, m)"
| "run_ops cfg (op # ops) l m = do { (l, m) \<leftarrow> run_op cfg op l m; run_ops cfg ops l m }"

inductive list_ops :: "'a config \<Rightarrow> 'a dyn_op list \<Rightarrow> 'a list \<Rightarrow> 'a list \<Rightarrow> bool" for cfg where
  nil: "list_ops cfg [] xs xs"
| cons: "list_op cfg op xs ys rel \<Longrightarrow> list_ops cfg ops ys zs \<Longrightarrow> list_ops cfg (op # ops) xs zs"

lemma run_ops_failed:
  "dyn_rep cfg l m None \<Longrightarrow> \<forall>n. Resize n \<notin> set ops \<Longrightarrow> run_ops cfg ops l m = Some (l, m)"
proof (induction ops)
  case (Cons op ops)
  then have "run_op cfg op l m = Some (l, m)" by (intro run_op_failed) auto
  with Cons show ?case by simp
qed simp

lemma run_ops_ok:
  "dyn_rep cfg l m (Some xs) \<Longrightarrow> \<forall>n. Resize n \<notin> set ops \<Longrightarrow>
     \<exists>l' m'. run_ops cfg ops l m = Some (l', m') \<and> others l' m' = others l m \<and>
       ((\<exists>ys. list_ops cfg ops xs ys \<and> dyn_rep cfg l' m' (Some ys)) \<or> dyn_rep cfg l' m' None)"
proof (induction ops arbitrary: l m xs)
  case Nil
  then show ?case by (auto intro: list_ops.nil)
next
  case (Cons op ops)
  obtain l1 m1 where s: "run_op cfg op l m = Some (l1, m1)"
    "(\<exists>ys rel. list_op cfg op xs ys rel \<and> dyn_effect cfg l m l1 m1 (Some ys) rel)
     \<or> dyn_effect cfg l m l1 m1 None xs"
    using run_op_ok [OF Cons.prems(1)] by blast
  have rest: "\<forall>n. Resize n \<notin> set ops" using Cons.prems(2) by simp
  from s(2) show ?case
  proof
    assume "\<exists>ys rel. list_op cfg op xs ys rel \<and> dyn_effect cfg l m l1 m1 (Some ys) rel"
    then obtain ys rel where y: "list_op cfg op xs ys rel" "dyn_rep cfg l1 m1 (Some ys)"
        "others l1 m1 = others l m" by (auto simp: dyn_effect_def)
    from Cons.IH [OF y(2) rest] s(1) y show ?thesis by (auto intro: list_ops.cons)
  next
    assume "dyn_effect cfg l m l1 m1 None xs"
    then have "dyn_rep cfg l1 m1 None" "others l1 m1 = others l m" by (simp_all add: dyn_effect_def)
    with run_ops_failed [OF _ rest] s(1) show ?thesis by simp
  qed
qed

section \<open>Properties\<close>

text \<open>C15: Every operation on a sound dynamic array behaves as the list operation it stands for, or
  marks the array as failed; it never reads or writes outside a block or uses a freed one, touches no
  other heap block, leaks none, and releases exactly the elements that leave the array.\<close>

theorem dyn_op_refines:
  assumes "dyn_rep cfg l m (Some xs)"
  shows "\<exists>l' m'. run_op cfg op l m = Some (l', m') \<and>
    ((\<exists>ys rel. list_op cfg op xs ys rel \<and> dyn_effect cfg l m l' m' (Some ys) rel)
     \<or> dyn_effect cfg l m l' m' None xs)"
  using assms by (rule run_op_ok)

text \<open>C16: Failure is sticky and safe: whatever sequence of add, emplace, remove_last and clear calls
  runs on a fresh array, and wherever the allocator fails, the run goes through; at the end the array
  holds what the list operations give, or it is marked as failed, and no other block has changed.\<close>

theorem dyn_run_safe:
  assumes "config_ok cfg" and "mem_ok m" and "length (scratch l) = initial_size cfg"
    and "\<forall>n. Resize n \<notin> set ops"
  shows "\<exists>l' m'. run_ops cfg ops (dyn_init cfg l) m = Some (l', m') \<and> others l' m' = blocks m \<and>
    ((\<exists>ys. list_ops cfg ops [] ys \<and> dyn_rep cfg l' m' (Some ys)) \<or> (dyn_rep cfg l' m' None \<and> has_failed l'))"
proof -
  have "others (dyn_init cfg l) m = blocks m"
    by (simp add: others_def owned_def dyn_init_def SCRATCH_def restrict_map_def)
  moreover have "has_failed l'" if "dyn_rep cfg l' m' None" for l' m'
    using that by (simp add: dyn_rep_def has_failed_def)
  ultimately show ?thesis
    using run_ops_ok [OF dyn_init_ok [OF assms(1-3)] assms(4)] by metis
qed


text \<open>C18: resize does not respect the failed state. On an array marked as failed, a resize to any size that is not
  zero sets the length and reports success without asking for memory, because the error marker is the largest possible
  allocation size; at then accepts every index below the length. Up to the initial size the elements lie in the scratch
  buffer. Beyond it there is no memory behind them: a write through the last index is outside of the array, and
  when the elements have to be initialised, or cleared because they are freed later, resize itself makes such a write.\<close>

theorem dyn_resize_after_failure:
  assumes "dyn_rep cfg l m None" and "0 < n" and "n \<le> error_marker"
  shows "if n \<le> initial_size cfg \<or> elem_init cfg = None \<and> \<not> elem_free cfg
    then \<exists>l'. dyn_resize cfg l n m = Some (True, l', m) \<and> has_failed l' \<and> dyn_size l' = n
      \<and> dyn_at l' (n - 1) = Some (n - 1) \<and> (array_write l' m (n - 1) [x] = None \<longleftrightarrow> initial_size cfg < n)
    else dyn_resize cfg l n m = None"
proof -
  have l: "used l = 0" "allocated l = error_marker" "array l = SCRATCH cfg" "length (scratch l) = initial_size cfg"
    using assms(1) by (simp_all add: dyn_rep_def)
  have same: "libc_resize cfg l n m = Some (True, l\<lparr>used := n\<rparr>, m)" using l(2) assms(3) by (simp add: libc_resize_def)
  show ?thesis
  proof (cases "n \<le> initial_size cfg")
    case True
    then have a: "array l = Scratch" using l(3) assms(2) by (simp add: SCRATCH_def)
    have w: "array_write (l\<lparr>used := n\<rparr>) m 0 xs = Some (l\<lparr>used := n, scratch := xs @ drop n (scratch l)\<rparr>, m)"
      if "length xs = n" for xs
      using a l(4) True that by (simp add: array_write_def array_block_def array_put_def)
    have "\<exists>sc. length sc = initial_size cfg \<and> dyn_resize cfg l n m = Some (True, l\<lparr>used := n, scratch := sc\<rparr>, m)"
      using True l(1,4) assms(2) same w [of "replicate n z" for z]
      by (intro exI [of _ "case elem_init cfg of Some z \<Rightarrow> replicate n z @ drop n (scratch l)
            | None \<Rightarrow> if elem_free cfg then replicate n (zero cfg) @ drop n (scratch l) else scratch l"])
        (cases "elem_init cfg"; cases "elem_free cfg"; simp add: dyn_resize_def libc_resize_clear_def)
    then obtain sc where sc: "length sc = initial_size cfg" "dyn_resize cfg l n m = Some (True, l\<lparr>used := n, scratch := sc\<rparr>, m)" by blast
    have "array_write (l\<lparr>used := n, scratch := sc\<rparr>) m (n - 1) [x] \<noteq> None"
      using a sc(1) True assms(2) by (simp add: array_write_def array_block_def array_put_def)
    then show ?thesis using True sc(2) l(2) assms(2) by (simp add: has_failed_def dyn_size_def dyn_at_def)
  next
    case False
    have none: "array_write (l\<lparr>used := n\<rparr>) m off xs = None" if "off + length xs = n" for off xs
      using False l(3,4) that by (auto simp: array_write_def array_block_def SCRATCH_def)
    show ?thesis
    proof (cases "elem_init cfg = None \<and> \<not> elem_free cfg")
      case True
      then have "dyn_resize cfg l n m = Some (True, l\<lparr>used := n\<rparr>, m)" using same l(1) assms(2) by (simp add: dyn_resize_def)
      then show ?thesis using False True none [of "n - 1" "[x]"] l(2) assms(2)
        by (simp add: has_failed_def dyn_size_def dyn_at_def)
    next
      case no: False
      then have "dyn_resize cfg l n m = None" using same l(1) assms(2) none [of 0 "replicate n z" for z]
        by (cases "elem_init cfg") (auto simp: dyn_resize_def libc_resize_clear_def Let_def)
      then show ?thesis using False no by simp
    qed
  qed
qed

subsection \<open>Instances\<close>

abbreviation cfg2 :: "nat config" where
  "cfg2 \<equiv> \<lparr>element_size = 8, initial_size = 2, elem_init = None, elem_free = False, zero = 0, junk = 99\<rparr>"

abbreviation mem0 :: "nat memory" where
  "mem0 \<equiv> \<lparr>blocks = Map.empty, next_id = 0, oracle_answers = [], released = [], err = NOERR\<rparr>"

abbreviation arr0 :: "nat dynarray" where
  "arr0 \<equiv> \<lparr>used = 0, allocated = 2, array = Scratch, scratch = [99, 99]\<rparr>"

lemma cfg2_ok: "config_ok cfg2" "mem_ok mem0" "dyn_rep cfg2 arr0 mem0 (Some [])"
  by (simp_all add: config_ok_def mem_ok_def dyn_rep_def array_ok_def)

theorem dyn_op_refines_witness:
  "\<exists>l' m'. run_op cfg2 (Add 7) arr0 mem0 = Some (l', m') \<and>
    ((\<exists>ys rel. list_op cfg2 (Add 7) [] ys rel \<and> dyn_effect cfg2 arr0 mem0 l' m' (Some ys) rel)
     \<or> dyn_effect cfg2 arr0 mem0 l' m' None [])"
  by (rule dyn_op_refines [OF cfg2_ok(3)])

theorem dyn_run_safe_witness:
  "\<exists>l' m'. run_ops cfg2 [Add 1, Add 2, Add 3, Remove_last] (dyn_init cfg2 arr0) mem0 = Some (l', m')
    \<and> others l' m' = blocks mem0"
  using dyn_run_safe [OF cfg2_ok(1,2), of arr0 "[Add 1, Add 2, Add 3, Remove_last]"] by auto


theorem dyn_resize_after_failure_witness:
  "(\<exists>l'. dyn_resize cfg2 (arr0\<lparr>allocated := error_marker\<rparr>) 5 mem0 = Some (True, l', mem0)
      \<and> dyn_at l' 4 = Some 4 \<and> array_write l' mem0 4 [1] = None)
    \<and> dyn_resize (cfg2\<lparr>elem_init := Some 0\<rparr>) (arr0\<lparr>allocated := error_marker\<rparr>) 5 mem0 = None"
proof -
  have "dyn_rep cfg2 (arr0\<lparr>allocated := error_marker\<rparr>) mem0 None"
      "dyn_rep (cfg2\<lparr>elem_init := Some 0\<rparr>) (arr0\<lparr>allocated := error_marker\<rparr>) mem0 None"
    using cfg2_ok(1,2) by (simp_all add: dyn_rep_def SCRATCH_def config_ok_def)
  from this [THEN dyn_resize_after_failure, of 5 1] show ?thesis by (auto simp: error_marker_def)
qed

end
