(* ===== verification/Bitset.thy ===== *)
theory Bitset
  imports Prelude
begin

text \<open>
  The bit sets of src/src/regex/regex_internal.h: four 64-bit words, one bit for each of the 256 byte
  values. \<open>bits\<close> is the set of byte values a bit set stands for; the operations are shown to be
  the set operations, and to stay inside the four words for every byte value.
\<close>

unbundle bit_operations_syntax

type_synonym bitset = "64 word list"

abbreviation BITSET_WORDS :: nat where "BITSET_WORDS \<equiv> 4"

section \<open>Operations\<close>

definition bitset_set :: "bitset \<Rightarrow> nat \<Rightarrow> bitset option" where
  "bitset_set s i =
     do { w \<leftarrow> mem_read s (i div 64); mem_write s (i div 64) [w OR push_bit (i mod 64) 1] }"

definition bitset_clear :: "bitset \<Rightarrow> nat \<Rightarrow> bitset option" where
  "bitset_clear s i =
     do { w \<leftarrow> mem_read s (i div 64); mem_write s (i div 64) [w AND NOT (push_bit (i mod 64) 1)] }"

definition bitset_contain :: "bitset \<Rightarrow> nat \<Rightarrow> bool option" where
  "bitset_contain s i =
     do { w \<leftarrow> mem_read s (i div 64); Some (drop_bit (i mod 64) w AND 1 \<noteq> 0) }"

text \<open>The \<open>memset\<close>s and \<open>memcpy\<close>; \<open>SBC_MAX\<close> is a multiple of the word size, so the branches for a
  remainder are compiled out.\<close>

definition bitset_empty :: "bitset \<Rightarrow> bitset" where
  "bitset_empty s = map (\<lambda>_. 0) s"

definition bitset_set_all :: "bitset \<Rightarrow> bitset" where
  "bitset_set_all s = map (\<lambda>_. - 1) s"

definition bitset_copy :: "bitset \<Rightarrow> bitset \<Rightarrow> bitset" where
  "bitset_copy dest src = src"

text \<open>The loops over the words.\<close>

fun not_loop :: "bitset \<Rightarrow> nat \<Rightarrow> nat \<Rightarrow> bitset option" where
  "not_loop s i 0 = Some s"
| "not_loop s i (Suc n) =
     do { w \<leftarrow> mem_read s i; s \<leftarrow> mem_write s i [NOT w]; not_loop s (i + 1) n }"

definition bitset_not :: "bitset \<Rightarrow> bitset option" where
  "bitset_not s = not_loop s 0 BITSET_WORDS"

fun merge_loop :: "bitset \<Rightarrow> bitset \<Rightarrow> nat \<Rightarrow> nat \<Rightarrow> bitset option" where
  "merge_loop d s i 0 = Some d"
| "merge_loop d s i (Suc n) =
     do { v \<leftarrow> mem_read d i; w \<leftarrow> mem_read s i; d \<leftarrow> mem_write d i [v OR w]; merge_loop d s (i + 1) n }"

definition bitset_merge :: "bitset \<Rightarrow> bitset \<Rightarrow> bitset option" where
  "bitset_merge dest src = merge_loop dest src 0 BITSET_WORDS"

fun mask_loop :: "bitset \<Rightarrow> bitset \<Rightarrow> nat \<Rightarrow> nat \<Rightarrow> bitset option" where
  "mask_loop d s i 0 = Some d"
| "mask_loop d s i (Suc n) =
     do { v \<leftarrow> mem_read d i; w \<leftarrow> mem_read s i; d \<leftarrow> mem_write d i [v AND w]; mask_loop d s (i + 1) n }"

definition bitset_mask :: "bitset \<Rightarrow> bitset \<Rightarrow> bitset option" where
  "bitset_mask dest src = mask_loop dest src 0 BITSET_WORDS"

section \<open>The set a bit set stands for\<close>

definition bits :: "bitset \<Rightarrow> nat set" where
  "bits s = {i. i < 256 \<and> bit (s ! (i div 64)) (i mod 64)}"

lemma in_bits: "j \<in> bits s \<longleftrightarrow> j < 256 \<and> bit (s ! (j div 64)) (j mod 64)"
  by (simp add: bits_def)

lemma word_index: "i < 256 \<Longrightarrow> i div 64 < BITSET_WORDS"
  by simp

lemma bits_contain:
  assumes "length s = BITSET_WORDS" and "i < 256"
  shows "bitset_contain s i = Some (i \<in> bits s)"
proof -
  have "drop_bit (i mod 64) w AND 1 \<noteq> 0 \<longleftrightarrow> bit w (i mod 64)" for w :: "64 word"
    by (simp add: and_one_eq mod_2_eq_odd bit_iff_odd_drop_bit)
  then show ?thesis
    using assms word_index [OF assms(2)] by (simp add: bitset_contain_def bits_def mem_read_lt)
qed

text \<open>Both single-bit updates replace one word; what they do to the bits follows from what they do to it.\<close>

lemma bits_update:
  assumes "length s = BITSET_WORDS" and "i < 256"
    and "\<And>n. n < 64 \<Longrightarrow> bit w n = (if n = i mod 64 then b else bit (s ! (i div 64)) n)"
  shows "bits (s[i div 64 := w]) = (if b then insert i (bits s) else bits s - {i})"
proof -
  have iff: "j \<in> bits (s[i div 64 := w]) \<longleftrightarrow> (if j = i then b else j \<in> bits s)" for j
  proof (cases "j < 256 \<and> j div 64 = i div 64")
    case True
    have eq: "j = i \<longleftrightarrow> j mod 64 = i mod 64" using True by (metis mult_div_mod_eq)
    have "s[i div 64 := w] ! (j div 64) = w" using True assms(1) word_index [OF assms(2)] by simp
    then have "j \<in> bits (s[i div 64 := w]) \<longleftrightarrow> bit w (j mod 64)" using True unfolding bits_def by simp
    also have "\<dots> \<longleftrightarrow> (if j mod 64 = i mod 64 then b else bit (s ! (i div 64)) (j mod 64))"
      by (rule assms(3)) simp
    also have "bit (s ! (i div 64)) (j mod 64) \<longleftrightarrow> j \<in> bits s" using True unfolding bits_def by simp
    finally show ?thesis unfolding eq .
  next
    case False
    then have "j \<noteq> i" using assms(2) by blast
    moreover have "j < 256 \<Longrightarrow> s[i div 64 := w] ! (j div 64) = s ! (j div 64)"
      using False by (simp only: nth_list_update_neq simp_thms not_False_eq_True)
    ultimately show ?thesis by (cases "j < 256") (simp_all only: in_bits simp_thms if_False)
  qed
  show ?thesis
  proof (cases b)
    case True
    show ?thesis by (rule set_eqI) (simp only: iff True if_True insert_iff simp_thms split: if_split, blast)
  next
    case False
    show ?thesis by (rule set_eqI) (simp only: iff False if_False Diff_iff singleton_iff simp_thms split: if_split, blast)
  qed
qed

lemma bitset_set_ok:
  assumes "length s = BITSET_WORDS" and "i < 256"
  shows "\<exists>s'. bitset_set s i = Some s' \<and> length s' = BITSET_WORDS \<and> bits s' = insert i (bits s)"
proof -
  let ?w = "s ! (i div 64) OR push_bit (i mod 64) 1"
  have "bits (s[i div 64 := ?w]) = insert i (bits s)"
    using bits_update [OF assms, of ?w True] by (simp add: bit_or_iff bit_exp_iff cong: if_cong)
  then show ?thesis using assms word_index [OF assms(2)]
    by (simp add: bitset_set_def mem_read_lt mem_write_1)
qed

lemma bitset_clear_ok:
  assumes "length s = BITSET_WORDS" and "i < 256"
  shows "\<exists>s'. bitset_clear s i = Some s' \<and> length s' = BITSET_WORDS \<and> bits s' = bits s - {i}"
proof -
  let ?w = "s ! (i div 64) AND NOT (push_bit (i mod 64) 1)"
  have "bits (s[i div 64 := ?w]) = bits s - {i}"
    using bits_update [OF assms, of ?w False]
    by (auto simp: bit_and_iff bit_not_iff bit_exp_iff)
  then show ?thesis using assms word_index [OF assms(2)]
    by (simp add: bitset_clear_def mem_read_lt mem_write_1)
qed

text \<open>The loops work word by word.\<close>

lemma four_words: "length s = BITSET_WORDS \<Longrightarrow> \<exists>a b c d. s = [a, b, c, d]"
  by (auto simp: numeral_eq_Suc length_Suc_conv)

lemma not_words: "bitset_not [a, b, c, d] = Some [NOT a, NOT b, NOT c, NOT d]"
  by (simp add: bitset_not_def numeral_eq_Suc mem_read_def mem_write_def)

lemma merge_words: "bitset_merge [a, b, c, d] [e, f, g, h] = Some [a OR e, b OR f, c OR g, d OR h]"
  by (simp add: bitset_merge_def numeral_eq_Suc mem_read_def mem_write_def)

lemma mask_words: "bitset_mask [a, b, c, d] [e, f, g, h] = Some [a AND e, b AND f, c AND g, d AND h]"
  by (simp add: bitset_mask_def numeral_eq_Suc mem_read_def mem_write_def)

lemma bits_pointwise:
  assumes "length t = BITSET_WORDS"
    and "\<And>k n. k < BITSET_WORDS \<Longrightarrow> n < 64 \<Longrightarrow> bit (t ! k) n = P (64 * k + n)"
  shows "bits t = {i. i < 256 \<and> P i}"
proof -
  have "bit (t ! (i div 64)) (i mod 64) = P i" if "i < 256" for i
    using assms(2) [OF word_index [OF that], of "i mod 64"] by simp
  then show ?thesis unfolding bits_def by blast
qed


lemma bitset_not_ok:
  assumes "length s = BITSET_WORDS"
  shows "\<exists>s'. bitset_not s = Some s' \<and> length s' = BITSET_WORDS \<and> bits s' = {i. i < 256 \<and> i \<notin> bits s}"
proof -
  obtain a b c d where s: "s = [a, b, c, d]" using four_words [OF assms] by blast
  have "bits (map NOT s) = {i. i < 256 \<and> \<not> bit (s ! (i div 64)) (i mod 64)}"
    by (rule bits_pointwise) (simp_all add: assms bit_not_iff)
  also have "\<dots> = {i. i < 256 \<and> i \<notin> bits s}"
    by (rule set_eqI) (simp only: mem_Collect_eq in_bits, blast)
  also have "map NOT s = [NOT a, NOT b, NOT c, NOT d]" unfolding s by simp
  finally have "bits [NOT a, NOT b, NOT c, NOT d] = {i. i < 256 \<and> i \<notin> bits s}" .
  then show ?thesis unfolding s not_words by simp
qed

lemma bitset_merge_ok:
  assumes "length s = BITSET_WORDS" and "length t = BITSET_WORDS"
  shows "\<exists>u. bitset_merge s t = Some u \<and> length u = BITSET_WORDS \<and> bits u = bits s \<union> bits t"
proof -
  obtain a b c d where s: "s = [a, b, c, d]" using four_words [OF assms(1)] by blast
  obtain e f g h where t: "t = [e, f, g, h]" using four_words [OF assms(2)] by blast
  have "bits (map2 (OR) s t) = {i. i < 256 \<and> (bit (s ! (i div 64)) (i mod 64) \<or> bit (t ! (i div 64)) (i mod 64))}"
    by (rule bits_pointwise) (simp_all add: assms bit_or_iff)
  also have "\<dots> = bits s \<union> bits t"
    by (rule set_eqI) (simp only: mem_Collect_eq in_bits Un_iff, blast)
  also have "map2 (OR) s t = [a OR e, b OR f, c OR g, d OR h]" unfolding s t by simp
  finally have "bits [a OR e, b OR f, c OR g, d OR h] = bits s \<union> bits t" .
  then show ?thesis unfolding s t merge_words by simp
qed

lemma bitset_mask_ok:
  assumes "length s = BITSET_WORDS" and "length t = BITSET_WORDS"
  shows "\<exists>u. bitset_mask s t = Some u \<and> length u = BITSET_WORDS \<and> bits u = bits s \<inter> bits t"
proof -
  obtain a b c d where s: "s = [a, b, c, d]" using four_words [OF assms(1)] by blast
  obtain e f g h where t: "t = [e, f, g, h]" using four_words [OF assms(2)] by blast
  have "bits (map2 (AND) s t) = {i. i < 256 \<and> (bit (s ! (i div 64)) (i mod 64) \<and> bit (t ! (i div 64)) (i mod 64))}"
    by (rule bits_pointwise) (simp_all add: assms bit_and_iff)
  also have "\<dots> = bits s \<inter> bits t"
    by (rule set_eqI) (simp only: mem_Collect_eq in_bits Int_iff, blast)
  also have "map2 (AND) s t = [a AND e, b AND f, c AND g, d AND h]" unfolding s t by simp
  finally have "bits [a AND e, b AND f, c AND g, d AND h] = bits s \<inter> bits t" .
  then show ?thesis unfolding s t mask_words by simp
qed

lemma bitset_empty_ok: "bits (bitset_empty s) = {}" if "length s = BITSET_WORDS"
proof -
  have "bits (bitset_empty s) = {i. i < 256 \<and> False}"
    by (rule bits_pointwise) (simp_all add: bitset_empty_def that)
  then show ?thesis by simp
qed

lemma bitset_set_all_ok: "bits (bitset_set_all s) = {..<256}" if "length s = BITSET_WORDS"
proof -
  have "bits (bitset_set_all s) = {i. i < 256 \<and> True}"
    by (rule bits_pointwise) (simp_all add: bitset_set_all_def that bit_minus_1_iff)
  then show ?thesis by auto
qed


section \<open>Properties\<close>

text \<open>C21: on bit sets of four words and byte values below 256 the operations of the bit sets never leave the words and
  are the set operations: set adds one value, clear removes one, contain tests one, not is the complement
  among the byte values, merge is the union and mask the intersection.\<close>

theorem bitset_ops_are_set_ops:
  assumes "length s = BITSET_WORDS" and "length t = BITSET_WORDS" and "i < 256"
  shows "bitset_contain s i = Some (i \<in> bits s) \<and>
    map_option bits (bitset_set s i) = Some (insert i (bits s)) \<and>
    map_option bits (bitset_clear s i) = Some (bits s - {i}) \<and>
    map_option bits (bitset_not s) = Some {j. j < 256 \<and> j \<notin> bits s} \<and>
    map_option bits (bitset_merge s t) = Some (bits s \<union> bits t) \<and>
    map_option bits (bitset_mask s t) = Some (bits s \<inter> bits t) \<and>
    bits (bitset_empty s) = {} \<and> bits (bitset_set_all s) = {..<256}"
  using bits_contain [OF assms(1,3)] bitset_set_ok [OF assms(1,3)] bitset_clear_ok [OF assms(1,3)]
    bitset_not_ok [OF assms(1)] bitset_merge_ok [OF assms(1,2)] bitset_mask_ok [OF assms(1,2)]
    bitset_empty_ok [OF assms(1)] bitset_set_all_ok [OF assms(1)]
  by auto

theorem bitset_ops_are_set_ops_witness:
  "map_option bits (bitset_set [0, 0, 2, 0] 5) = Some (insert 5 (bits [0, 0, 2, 0]))"
  using bitset_ops_are_set_ops [of "[0, 0, 2, 0]" "[0, 0, 0, 0]" 5] by simp

end
