(* ===== verification/NodeSet.thy ===== *)
theory NodeSet
  imports Prelude "HOL-Library.Multiset"
begin

text \<open>
  The sets of node numbers of src/src/regex/regex_internal.c: sorted arrays without duplicates, with
  room to grow. The definitions work on the array, in place, as the code does; \<open>set_rep\<close> says which
  sorted list an array holds, and the lemmas show every operation to be the set operation it is
  named after. An index that the code lets run down to -1 is kept as its successor, a \<open>nat\<close>;
  reading or writing outside the array is \<open>None\<close>.
\<close>

section \<open>Operations\<close>

datatype reg_errcode = REG_ENOSYS | REG_NOERROR | REG_NOMATCH | REG_BADPAT | REG_ECOLLATE | REG_ECTYPE
  | REG_EESCAPE | REG_ESUBREG | REG_EBRACK | REG_EPAREN | REG_EBRACE | REG_BADBR | REG_ERANGE
  | REG_ESPACE | REG_BADRPT | REG_EEND | REG_ESIZE | REG_ERPAREN

record re_node_set =
  set_alloc :: nat
  nelem :: nat
  elems :: "int list option"

definition init_empty :: re_node_set where
  "init_empty = \<lparr>set_alloc = 0, nelem = 0, elems = None\<rparr>"

abbreviation idx_garbage :: int where "idx_garbage \<equiv> 2863311530"

text \<open>\<open>re_malloc\<close> and \<open>re_realloc\<close> for \<open>n\<close> elements.\<close>

definition re_malloc :: "nat \<Rightarrow> answers \<Rightarrow> int list option \<times> answers" where
  "re_malloc n os = (let (ok, os) = alloc os in (if ok then Some (replicate n idx_garbage) else None, os))"

definition re_realloc :: "int list option \<Rightarrow> nat \<Rightarrow> answers \<Rightarrow> int list option \<times> answers" where
  "re_realloc b n os = (let (ok, os) = alloc os
     in (if ok then Some (case b of None \<Rightarrow> replicate n idx_garbage
                          | Some b \<Rightarrow> take n b @ replicate (n - length b) idx_garbage) else None, os))"

type_synonym set_result = "(reg_errcode \<times> re_node_set \<times> answers) option"

definition node_set_alloc :: "nat \<Rightarrow> answers \<Rightarrow> set_result" where
  "node_set_alloc n os =
     (let (b, os) = re_malloc n os; s = \<lparr>set_alloc = n, nelem = 0, elems = b\<rparr>
      in Some (if b = None then REG_ESPACE else REG_NOERROR, s, os))"

definition node_set_init_1 :: "int \<Rightarrow> answers \<Rightarrow> set_result" where
  "node_set_init_1 elem os =
     (let (b, os) = re_malloc 1 os
      in case b of
           None \<Rightarrow> Some (REG_ESPACE, \<lparr>set_alloc = 0, nelem = 0, elems = None\<rparr>, os)
         | Some b \<Rightarrow> do { b \<leftarrow> mem_write b 0 [elem];
                          Some (REG_NOERROR, \<lparr>set_alloc = 1, nelem = 1, elems = Some b\<rparr>, os) })"

definition node_set_init_2 :: "re_node_set \<Rightarrow> int \<Rightarrow> int \<Rightarrow> answers \<Rightarrow> set_result" where
  "node_set_init_2 s elem1 elem2 os =
     (let (b, os) = re_malloc 2 os; s = s\<lparr>set_alloc := 2, elems := b\<rparr>
      in case b of
           None \<Rightarrow> Some (REG_ESPACE, s, os)
         | Some b \<Rightarrow>
             if elem1 = elem2 then
               do { b \<leftarrow> mem_write b 0 [elem1]; Some (REG_NOERROR, s\<lparr>nelem := 1, elems := Some b\<rparr>, os) }
             else if elem1 < elem2 then
               do { b \<leftarrow> mem_write b 0 [elem1]; b \<leftarrow> mem_write b 1 [elem2];
                    Some (REG_NOERROR, s\<lparr>nelem := 2, elems := Some b\<rparr>, os) }
             else
               do { b \<leftarrow> mem_write b 0 [elem2]; b \<leftarrow> mem_write b 1 [elem1];
                    Some (REG_NOERROR, s\<lparr>nelem := 2, elems := Some b\<rparr>, os) })"

text \<open>\<open>memcpy\<close> of \<open>n\<close> elements between arrays.\<close>

definition elems_copy :: "int list \<Rightarrow> nat \<Rightarrow> int list \<Rightarrow> nat \<Rightarrow> nat \<Rightarrow> int list option" where
  "elems_copy dst d src s n =
     (if s + n \<le> length src then mem_write dst d (take n (drop s src)) else None)"

definition node_set_init_copy :: "re_node_set \<Rightarrow> answers \<Rightarrow> set_result" where
  "node_set_init_copy src os =
     (if 0 < nelem src then
        let (b, os) = re_malloc (nelem src) os
        in case b of
             None \<Rightarrow> Some (REG_ESPACE, \<lparr>set_alloc = 0, nelem = 0, elems = None\<rparr>, os)
           | Some b \<Rightarrow>
               do { e \<leftarrow> elems src; b \<leftarrow> elems_copy b 0 e 0 (nelem src);
                    Some (REG_NOERROR, \<lparr>set_alloc = nelem src, nelem = nelem src, elems = Some b\<rparr>, os) }
      else Some (REG_NOERROR, init_empty, os))"

text \<open>Reading at an index that is kept as its successor.\<close>

definition read_below :: "int list \<Rightarrow> nat \<Rightarrow> int option" where
  "read_below b n = (if n = 0 then None else mem_read b (n - 1))"

text \<open>The loop at the end of \<open>add_intersect\<close> and of \<open>merge\<close>: \<open>delta\<close> new elements lie below index
  \<open>is1\<close>, the old ones below \<open>id1\<close>; the larger of the two last ones goes to \<open>id1 - 1 + delta\<close>.\<close>

function merge_down :: "int list \<Rightarrow> nat \<Rightarrow> nat \<Rightarrow> nat \<Rightarrow> (int list \<times> nat) option" where
  "merge_down b is1 id1 delta =
     (if delta = 0 \<or> id1 = 0 then Some (b, delta)
      else case read_below b is1 of None \<Rightarrow> None
      | Some x \<Rightarrow> (case read_below b id1 of None \<Rightarrow> None
      | Some y \<Rightarrow>
          if y < x then
            (case mem_write b (id1 - 1 + delta) [x] of None \<Rightarrow> None
             | Some b \<Rightarrow> merge_down b (is1 - 1) id1 (delta - 1))
          else
            (case mem_write b (id1 - 1 + delta) [y] of None \<Rightarrow> None
             | Some b \<Rightarrow> merge_down b is1 (id1 - 1) delta)))"
  by pat_completeness auto
termination by (relation "measure (\<lambda>(b, is1, id1, delta). id1 + delta)") auto

declare merge_down.simps [simp del]

text \<open>\<open>while (id >= 0 && dest->elems[id] > x) --id\<close>\<close>

fun seek_down :: "int list \<Rightarrow> nat \<Rightarrow> int \<Rightarrow> nat option" where
  "seek_down b 0 x = Some 0"
| "seek_down b (Suc ix) x =
     (case mem_read b ix of None \<Rightarrow> None
      | Some y \<Rightarrow> if x < y then seek_down b ix x else Some (Suc ix))"

text \<open>The loop that collects the common elements at the top of the destination.\<close>

function inter_loop :: "int list \<Rightarrow> int list \<Rightarrow> int list \<Rightarrow> nat \<Rightarrow> nat \<Rightarrow> nat \<Rightarrow> nat \<Rightarrow> (int list \<times> nat) option" where
  "inter_loop e1 e2 b i1 i2 id1 sbase =
     (if i1 = 0 \<or> i2 = 0 then Some (b, sbase)
      else case mem_read e1 (i1 - 1) of None \<Rightarrow> None
      | Some x \<Rightarrow> (case mem_read e2 (i2 - 1) of None \<Rightarrow> None
      | Some y \<Rightarrow>
          if x = y then
            (case seek_down b id1 x of None \<Rightarrow> None
             | Some id1 \<Rightarrow>
                 if id1 = 0 \<or> b ! (id1 - 1) \<noteq> x then
                   (case (if sbase = 0 then None else mem_write b (sbase - 1) [x]) of None \<Rightarrow> None
                    | Some b \<Rightarrow> inter_loop e1 e2 b (i1 - 1) (i2 - 1) id1 (sbase - 1))
                 else inter_loop e1 e2 b (i1 - 1) (i2 - 1) id1 sbase)
          else if x < y then inter_loop e1 e2 b i1 (i2 - 1) id1 sbase
          else inter_loop e1 e2 b (i1 - 1) i2 id1 sbase))"
  by pat_completeness auto
termination by (relation "measure (\<lambda>(e1, e2, b, i1, i2, id1, sbase). i1 + i2)") auto

declare inter_loop.simps [simp del]

definition grow :: "re_node_set \<Rightarrow> nat \<Rightarrow> nat \<Rightarrow> answers \<Rightarrow> (re_node_set option \<times> answers)" where
  "grow dest need new_alloc os =
     (if set_alloc dest < need then
        let (b, os) = re_realloc (elems dest) new_alloc os
        in (case b of None \<Rightarrow> None | Some b \<Rightarrow> Some (dest\<lparr>elems := Some b, set_alloc := new_alloc\<rparr>), os)
      else (Some dest, os))"

definition inter_elems :: "int list \<Rightarrow> nat \<Rightarrow> int list \<Rightarrow> nat \<Rightarrow> int list \<Rightarrow> nat \<Rightarrow> (int list \<times> nat) option" where
  "inter_elems b n e1 n1 e2 n2 =
     do { let top = n + n1 + n2;
          (b, sbase) \<leftarrow> inter_loop e1 e2 b n1 n2 n top;
          let delta = top - sbase;
          (b, delta') \<leftarrow> merge_down b top n delta;
          b \<leftarrow> elems_copy b 0 b sbase delta';
          Some (b, n + delta) }"

definition node_set_add_intersect :: "re_node_set \<Rightarrow> re_node_set \<Rightarrow> re_node_set \<Rightarrow> answers \<Rightarrow> set_result" where
  "node_set_add_intersect dest src1 src2 os =
     (if nelem src1 = 0 \<or> nelem src2 = 0 then Some (REG_NOERROR, dest, os)
      else
        (case grow dest (nelem src1 + nelem src2 + nelem dest) (nelem src1 + nelem src2 + set_alloc dest) os of
           (None, os) \<Rightarrow> Some (REG_ESPACE, dest, os)
         | (Some dest, os) \<Rightarrow>
             do { e1 \<leftarrow> elems src1; e2 \<leftarrow> elems src2; b \<leftarrow> elems dest;
                  (b, n) \<leftarrow> inter_elems b (nelem dest) e1 (nelem src1) e2 (nelem src2);
                  Some (REG_NOERROR, dest\<lparr>nelem := n, elems := Some b\<rparr>, os) }))"

function union_loop :: "int list \<Rightarrow> nat \<Rightarrow> int list \<Rightarrow> nat \<Rightarrow> int list \<Rightarrow> nat \<Rightarrow> nat \<Rightarrow> nat
    \<Rightarrow> (int list \<times> nat \<times> nat \<times> nat) option" where
  "union_loop e1 n1 e2 n2 b i1 i2 ix =
     (if i1 < n1 \<and> i2 < n2 then
        (case mem_read e1 i1 of None \<Rightarrow> None
         | Some x \<Rightarrow> (case mem_read e2 i2 of None \<Rightarrow> None
         | Some y \<Rightarrow>
             if y < x then
               (case mem_write b ix [y] of None \<Rightarrow> None
                | Some b \<Rightarrow> union_loop e1 n1 e2 n2 b i1 (i2 + 1) (ix + 1))
             else
               (case mem_write b ix [x] of None \<Rightarrow> None
                | Some b \<Rightarrow> union_loop e1 n1 e2 n2 b (i1 + 1) (if x = y then i2 + 1 else i2) (ix + 1))))
      else Some (b, i1, i2, ix))"
  by pat_completeness auto
termination by (relation "measure (\<lambda>(e1, n1, e2, n2, b, i1, i2, ix). (n1 - i1) + (n2 - i2))") auto

declare union_loop.simps [simp del]

definition union_elems :: "int list \<Rightarrow> nat \<Rightarrow> int list \<Rightarrow> nat \<Rightarrow> int list \<Rightarrow> (int list \<times> nat) option" where
  "union_elems e1 n1 e2 n2 b =
     do { (b, i1, i2, ix) \<leftarrow> union_loop e1 n1 e2 n2 b 0 0 0;
          if i1 < n1 then
            do { b \<leftarrow> elems_copy b ix e1 i1 (n1 - i1); Some (b, ix + (n1 - i1)) }
          else if i2 < n2 then
            do { b \<leftarrow> elems_copy b ix e2 i2 (n2 - i2); Some (b, ix + (n2 - i2)) }
          else Some (b, ix) }"

text \<open>A source set may be absent (a NULL pointer).\<close>

definition node_set_init_union ::
    "re_node_set \<Rightarrow> re_node_set option \<Rightarrow> re_node_set option \<Rightarrow> answers \<Rightarrow> set_result" where
  "node_set_init_union dest src1 src2 os =
     (case (src1, src2) of
        (Some s1, Some s2) \<Rightarrow>
          if 0 < nelem s1 \<and> 0 < nelem s2 then
            let (b, os) = re_malloc (nelem s1 + nelem s2) os;
                dest = dest\<lparr>set_alloc := nelem s1 + nelem s2, elems := b\<rparr>
            in case b of
                 None \<Rightarrow> Some (REG_ESPACE, dest, os)
               | Some b \<Rightarrow>
                   do { e1 \<leftarrow> elems s1; e2 \<leftarrow> elems s2;
                        (b, n) \<leftarrow> union_elems e1 (nelem s1) e2 (nelem s2) b;
                        Some (REG_NOERROR, dest\<lparr>nelem := n, elems := Some b\<rparr>, os) }
          else if 0 < nelem s1 then node_set_init_copy s1 os
          else if 0 < nelem s2 then node_set_init_copy s2 os
          else Some (REG_NOERROR, init_empty, os)
      | (Some s1, None) \<Rightarrow> if 0 < nelem s1 then node_set_init_copy s1 os else Some (REG_NOERROR, init_empty, os)
      | (None, Some s2) \<Rightarrow> if 0 < nelem s2 then node_set_init_copy s2 os else Some (REG_NOERROR, init_empty, os)
      | (None, None) \<Rightarrow> Some (REG_NOERROR, init_empty, os))"

text \<open>The first loop of \<open>merge\<close>: the elements of the source that the destination lacks go to the
  top.\<close>

function merge_collect :: "int list \<Rightarrow> int list \<Rightarrow> nat \<Rightarrow> nat \<Rightarrow> nat \<Rightarrow> (int list \<times> nat \<times> nat) option" where
  "merge_collect src b is1 id1 sbase =
     (if is1 = 0 \<or> id1 = 0 then Some (b, is1, sbase)
      else case mem_read b (id1 - 1) of None \<Rightarrow> None
      | Some y \<Rightarrow> (case mem_read src (is1 - 1) of None \<Rightarrow> None
      | Some x \<Rightarrow>
          if y = x then merge_collect src b (is1 - 1) (id1 - 1) sbase
          else if y < x then
            (case (if sbase = 0 then None else mem_write b (sbase - 1) [x]) of None \<Rightarrow> None
             | Some b \<Rightarrow> merge_collect src b (is1 - 1) id1 (sbase - 1))
          else merge_collect src b is1 (id1 - 1) sbase))"
  by pat_completeness auto
termination by (relation "measure (\<lambda>(src, b, is1, id1, sbase). is1 + id1)") auto

declare merge_collect.simps [simp del]

text \<open>The arrays: \<open>n\<close> elements of the destination, \<open>m > 0\<close> of the source.\<close>

definition merge_elems :: "int list \<Rightarrow> nat \<Rightarrow> int list \<Rightarrow> nat \<Rightarrow> (int list \<times> nat) option" where
  "merge_elems b n e m =
     (if n = 0 then do { b \<leftarrow> elems_copy b 0 e 0 m; Some (b, m) }
      else
        do { let top = n + 2 * m;
             (b, is1, sbase) \<leftarrow> merge_collect e b m n top;
             (b, sbase) \<leftarrow>
               (if 0 < is1 then
                  if is1 \<le> sbase then
                    do { b \<leftarrow> elems_copy b (sbase - is1) e 0 is1; Some (b, sbase - is1) }
                  else None
                else Some (b, sbase));
             let delta = top - sbase;
             if delta = 0 then Some (b, n)
             else do { (b, delta') \<leftarrow> merge_down b top n delta;
                       b \<leftarrow> elems_copy b 0 b sbase delta';
                       Some (b, n + delta) } })"

definition node_set_merge :: "re_node_set \<Rightarrow> re_node_set option \<Rightarrow> answers \<Rightarrow> set_result" where
  "node_set_merge dest src os = (case src of
      None \<Rightarrow> Some (REG_NOERROR, dest, os)
    | Some src \<Rightarrow>
        if nelem src = 0 then Some (REG_NOERROR, dest, os)
        else
          (case grow dest (2 * nelem src + nelem dest) (2 * (nelem src + set_alloc dest)) os of
             (None, os) \<Rightarrow> Some (REG_ESPACE, dest, os)
           | (Some dest, os) \<Rightarrow>
               do { b \<leftarrow> elems dest; e \<leftarrow> elems src;
                    (b, n) \<leftarrow> merge_elems b (nelem dest) e (nelem src);
                    Some (REG_NOERROR, dest\<lparr>nelem := n, elems := Some b\<rparr>, os) }))"

text \<open>Moving up the elements that are greater than the new one; in the first loop, those above
  index 0.\<close>

fun shift_all :: "int list \<Rightarrow> nat \<Rightarrow> int list option" where
  "shift_all b 0 = Some b"
| "shift_all b (Suc idx) =
     do { x \<leftarrow> mem_read b idx; b \<leftarrow> mem_write b (Suc idx) [x]; shift_all b idx }"

fun shift_greater :: "int list \<Rightarrow> nat \<Rightarrow> int \<Rightarrow> (int list \<times> nat) option" where
  "shift_greater b 0 elem = None"
| "shift_greater b (Suc idx) elem =
     do { x \<leftarrow> mem_read b idx;
          if elem < x then do { b \<leftarrow> mem_write b (Suc idx) [x]; shift_greater b idx elem }
          else Some (b, Suc idx) }"

definition insert_elems :: "int list \<Rightarrow> nat \<Rightarrow> int \<Rightarrow> (int list \<times> nat) option" where
  "insert_elems b n elem =
     do { x0 \<leftarrow> mem_read b 0;
          (b, idx) \<leftarrow> (if elem < x0 then do { b \<leftarrow> shift_all b n; Some (b, 0) }
                       else shift_greater b n elem);
          b \<leftarrow> mem_write b idx [elem];
          Some (b, n + 1) }"

definition node_set_insert :: "re_node_set \<Rightarrow> int \<Rightarrow> answers \<Rightarrow> (bool \<times> re_node_set \<times> answers) option" where
  "node_set_insert s elem os =
     (if set_alloc s = 0 then
        do { (e, s, os) \<leftarrow> node_set_init_1 elem os; Some (e = REG_NOERROR, s, os) }
      else if nelem s = 0 then
        do { b \<leftarrow> elems s; b \<leftarrow> mem_write b 0 [elem];
             Some (True, s\<lparr>elems := Some b, nelem := nelem s + 1\<rparr>, os) }
      else
        let (b, s, os) =
          (if set_alloc s = nelem s then
             let s = s\<lparr>set_alloc := set_alloc s * 2\<rparr>; (b, os) = re_realloc (elems s) (set_alloc s) os
             in (b, (case b of None \<Rightarrow> s | Some b \<Rightarrow> s\<lparr>elems := Some b\<rparr>), os)
           else (elems s, s, os))
        in case b of
             None \<Rightarrow> Some (False, s, os)
           | Some b \<Rightarrow>
               do { (b, n) \<leftarrow> insert_elems b (nelem s) elem;
                    Some (True, s\<lparr>nelem := n, elems := Some b\<rparr>, os) })"

definition node_set_insert_last :: "re_node_set \<Rightarrow> int \<Rightarrow> answers \<Rightarrow> (bool \<times> re_node_set \<times> answers) option" where
  "node_set_insert_last s elem os =
     (let (b, s, os) =
        (if set_alloc s = nelem s then
           let s = s\<lparr>set_alloc := (set_alloc s + 1) * 2\<rparr>; (b, os) = re_realloc (elems s) (set_alloc s) os
           in (b, (case b of None \<Rightarrow> s | Some b \<Rightarrow> s\<lparr>elems := Some b\<rparr>), os)
         else (elems s, s, os))
      in case b of
           None \<Rightarrow> Some (False, s, os)
         | Some b \<Rightarrow>
             do { b \<leftarrow> mem_write b (nelem s) [elem];
                  Some (True, s\<lparr>nelem := nelem s + 1, elems := Some b\<rparr>, os) })"

fun compare_loop :: "int list \<Rightarrow> int list \<Rightarrow> nat \<Rightarrow> bool option" where
  "compare_loop e1 e2 0 = Some True"
| "compare_loop e1 e2 (Suc i) =
     do { x \<leftarrow> mem_read e1 i; y \<leftarrow> mem_read e2 i;
          if x \<noteq> y then Some False else compare_loop e1 e2 i }"

definition node_set_compare :: "re_node_set option \<Rightarrow> re_node_set option \<Rightarrow> bool option" where
  "node_set_compare set1 set2 = (case (set1, set2) of
      (Some s1, Some s2) \<Rightarrow>
        if nelem s1 \<noteq> nelem s2 then Some False
        else if nelem s1 = 0 then Some True
        else do { e1 \<leftarrow> elems s1; e2 \<leftarrow> elems s2; compare_loop e1 e2 (nelem s1) }
    | _ \<Rightarrow> Some False)"

function contains_loop :: "int list \<Rightarrow> int \<Rightarrow> nat \<Rightarrow> nat \<Rightarrow> nat option" where
  "contains_loop b elem idx right =
     (if idx < right then
        let mid = (idx + right) div 2
        in case mem_read b mid of None \<Rightarrow> None
           | Some x \<Rightarrow> if x < elem then contains_loop b elem (mid + 1) right
                        else contains_loop b elem idx mid
      else Some idx)"
  by pat_completeness auto
termination by (relation "measure (\<lambda>(b, elem, idx, right). right - idx)") auto

declare contains_loop.simps [simp del]

definition node_set_contains :: "re_node_set \<Rightarrow> int \<Rightarrow> nat option" where
  "node_set_contains s elem =
     (if nelem s = 0 then Some 0
      else do { b \<leftarrow> elems s;
                idx \<leftarrow> contains_loop b elem 0 (nelem s - 1);
                x \<leftarrow> mem_read b idx;
                Some (if x = elem then idx + 1 else 0) })"

function remove_loop :: "int list \<Rightarrow> nat \<Rightarrow> nat \<Rightarrow> int list option" where
  "remove_loop b idx n =
     (if idx < n then
        (case mem_read b (idx + 1) of None \<Rightarrow> None
         | Some x \<Rightarrow> (case mem_write b idx [x] of None \<Rightarrow> None
         | Some b \<Rightarrow> remove_loop b (idx + 1) n))
      else Some b)"
  by pat_completeness auto
termination by (relation "measure (\<lambda>(b, idx, n). n - idx)") auto

declare remove_loop.simps [simp del]

definition node_set_remove_at :: "re_node_set \<Rightarrow> int \<Rightarrow> re_node_set option" where
  "node_set_remove_at s idx =
     (if idx < 0 \<or> int (nelem s) \<le> idx then Some s
      else do { b \<leftarrow> elems s;
                b \<leftarrow> remove_loop b (nat idx) (nelem s - 1);
                Some (s\<lparr>nelem := nelem s - 1, elems := Some b\<rparr>) })"

definition node_set_remove :: "re_node_set \<Rightarrow> int \<Rightarrow> re_node_set option" where
  "node_set_remove s elem = do { n \<leftarrow> node_set_contains s elem; node_set_remove_at s (int n - 1) }"

section \<open>The list a set holds\<close>

definition set_rep :: "re_node_set \<Rightarrow> int list \<Rightarrow> bool" where
  "set_rep s xs \<longleftrightarrow> sorted_wrt (<) xs \<and> nelem s = length xs \<and> nelem s \<le> set_alloc s \<and>
     (case elems s of None \<Rightarrow> set_alloc s = 0
      | Some b \<Rightarrow> length b = set_alloc s \<and> take (nelem s) b = xs)"

lemma set_rep_sorted: "set_rep s xs \<Longrightarrow> sorted_wrt (<) xs"
  by (simp add: set_rep_def)

lemma set_rep_nelem: "set_rep s xs \<Longrightarrow> nelem s = length xs"
  by (simp add: set_rep_def)

lemma set_rep_elems:
  assumes "set_rep s xs" and "xs \<noteq> []"
  obtains b where "elems s = Some b" and "length b = set_alloc s" and "length xs \<le> length b"
    and "take (length xs) b = xs" and "\<And>i. i < length xs \<Longrightarrow> b ! i = xs ! i"
proof -
  obtain b where b: "elems s = Some b" "length b = set_alloc s" "length xs \<le> length b" "take (length xs) b = xs"
    using assms by (cases "elems s") (auto simp: set_rep_def)
  moreover have "b ! i = xs ! i" if "i < length xs" for i using b(4) that by (metis nth_take)
  ultimately show thesis using that by blast
qed

lemma set_repI:
  "sorted_wrt (<) xs \<Longrightarrow> nelem s = length xs \<Longrightarrow> elems s = Some b \<Longrightarrow> length b = set_alloc s
    \<Longrightarrow> length xs \<le> length b \<Longrightarrow> take (length xs) b = xs \<Longrightarrow> set_rep s xs"
  by (simp add: set_rep_def)

lemma set_rep_empty: "set_rep init_empty []"
  by (simp add: set_rep_def init_empty_def)

text \<open>A set of numbers is held by one list only.\<close>

lemma strict_sorted_eq: "sorted_wrt (<) xs \<Longrightarrow> sorted_wrt (<) ys \<Longrightarrow> set xs = set ys \<Longrightarrow> xs = (ys :: int list)"
  by (simp add: strict_sorted_equal)

lemma strict_sorted_nth_less: "sorted_wrt (<) xs \<Longrightarrow> i < j \<Longrightarrow> j < length xs \<Longrightarrow> xs ! i < xs ! j"
  by (simp add: sorted_wrt_nth_less)

lemma take_eqI: "length xs \<le> length b \<Longrightarrow> (\<And>i. i < length xs \<Longrightarrow> b ! i = xs ! i) \<Longrightarrow> take (length xs) b = xs"
  by (rule nth_equalityI) simp_all

subsection \<open>Sorting the two parts of an array into one\<close>

lemma sort_snoc_max: "\<forall>y \<in> set xs. y \<le> x \<Longrightarrow> sort (xs @ [x]) = sort xs @ [x :: int]"
  by (rule properties_for_sort) (auto simp: sorted_append)

lemma sort_mset: "mset xs = mset ys \<Longrightarrow> sort xs = sort (ys :: int list)"
  by (metis properties_for_sort mset_sort sorted_sort)

lemma sort_strict: "sorted_wrt (<) xs \<Longrightarrow> sort xs = (xs :: int list)"
  by (simp add: sorted_sort_id strict_sorted_imp_sorted)

lemma take_last: "0 < n \<Longrightarrow> n \<le> length xs \<Longrightarrow> take n xs = take (n - 1) xs @ [xs ! (n - 1)]"
  by (cases n) (simp_all add: take_Suc_conv_app_nth)

lemma sorted_take_le:
  assumes "sorted_wrt (<) xs" and "n \<le> length xs" and "y \<in> set (take n xs)"
  shows "y \<le> (xs ! (n - 1) :: int)"
proof -
  obtain i where i: "i < n" "y = xs ! i" using assms(2,3) by (auto simp: in_set_conv_nth)
  show ?thesis
  proof (cases "i = n - 1")
    case False
    then have "xs ! i < xs ! (n - 1)" using i assms(1,2) by (intro strict_sorted_nth_less) auto
    with i show ?thesis by simp
  qed (use i in simp)
qed

text \<open>
  The loop: the old elements \<open>take id1 D\<close> at the bottom, the new ones \<open>take delta T\<close> from
  \<open>sbase\<close> on, the part \<open>R\<close> of the result already in its place. It ends with the result in
  place, except for the first \<open>delta'\<close> elements, which are still at \<open>sbase\<close>.
\<close>

lemma merge_down_ok:
  assumes D: "sorted_wrt (<) D" and T: "sorted_wrt (<) T"
  shows "id1 \<le> length D \<Longrightarrow> delta \<le> length T \<Longrightarrow> id1 + delta + length R \<le> sbase \<Longrightarrow> sbase + delta \<le> length b
    \<Longrightarrow> (\<And>i. i < id1 \<Longrightarrow> b ! i = D ! i) \<Longrightarrow> (\<And>i. i < delta \<Longrightarrow> b ! (sbase + i) = T ! i)
    \<Longrightarrow> (\<And>i. i < length R \<Longrightarrow> b ! (id1 + delta + i) = R ! i)
    \<Longrightarrow> \<exists>b' d. merge_down b (sbase + delta) id1 delta = Some (b', d) \<and> length b' = length b \<and> d \<le> delta
      \<and> (\<forall>i < d. b' ! (sbase + i) = T ! i \<and> (sort (take id1 D @ take delta T) @ R) ! i = T ! i)
      \<and> (\<forall>i. d \<le> i \<longrightarrow> i < id1 + delta + length R \<longrightarrow> b' ! i = (sort (take id1 D @ take delta T) @ R) ! i)"
proof (induction "id1 + delta" arbitrary: id1 delta b R)
  case 0
  then show ?case by (simp add: merge_down.simps [of b])
next
  case (Suc n)
  note le = Suc.prems(1-4) and at = Suc.prems(5-7)
  let ?S = "sort (take id1 D @ take delta T)"
  show ?case
  proof (cases "delta = 0 \<or> id1 = 0")
    case True
    then show ?thesis
    proof
      assume 0: "delta = 0"
      have S: "?S = take id1 D" using 0 D by (simp add: sort_strict sorted_wrt_take)
      have "b ! i = (take id1 D @ R) ! i" if "i < id1 + length R" for i
        using that 0 le(1) at(1) [of i] at(3) [of "i - id1"] by (cases "i < id1") (auto simp: nth_append)
      then show ?thesis
        using 0 S by (intro exI [of _ b] exI [of _ 0]) (auto simp: merge_down.simps [of b])
    next
      assume 0: "id1 = 0"
      have S: "?S = take delta T" using 0 T by (simp add: sort_strict sorted_wrt_take)
      have "b ! i = (take delta T @ R) ! i" if "delta \<le> i" "i < delta + length R" for i
        using that 0 le(2) at(3) [of "i - delta"] by (auto simp: nth_append)
      then show ?thesis
        using 0 le at(2) S
        by (intro exI [of _ b] exI [of _ delta]) (auto simp: merge_down.simps [of b] nth_append)
    qed
  next
    case False
    then have pos: "0 < delta" "0 < id1" by auto
    let ?x = "T ! (delta - 1)" and ?y = "D ! (id1 - 1)"
    have rx: "read_below b (sbase + delta) = Some ?x"
      using pos le at(2) [of "delta - 1"] by (simp add: read_below_def mem_read_def)
    have ry: "read_below b id1 = Some ?y"
      using pos le at(1) [of "id1 - 1"] by (simp add: read_below_def mem_read_def)
    have wr: "mem_write b (id1 - 1 + delta) [z] = Some (b[id1 - 1 + delta := z])" for z
      using pos le by (intro mem_write_1) simp
    have tD: "take id1 D = take (id1 - 1) D @ [?y]" using pos le by (intro take_last) auto
    have tT: "take delta T = take (delta - 1) T @ [?x]" using pos le by (intro take_last) auto
    have bD: "z \<le> ?y" if "z \<in> set (take id1 D)" for z using D le that by (intro sorted_take_le) auto
    have bT: "z \<le> ?x" if "z \<in> set (take delta T)" for z using T le that by (intro sorted_take_le) auto
    show ?thesis
    proof (cases "?y < ?x")
      case True
      let ?b = "b[id1 - 1 + delta := ?x]"
      have S: "?S = sort (take id1 D @ take (delta - 1) T) @ [?x]"
        unfolding tT append_assoc [symmetric]
        by (rule sort_snoc_max) (use bD bT True tT in \<open>force\<close>)
      have step: "merge_down b (sbase + delta) id1 delta = merge_down ?b (sbase + (delta - 1)) id1 (delta - 1)"
        using pos rx ry wr True by (simp add: merge_down.simps [of b])
      have "\<exists>b' d. merge_down ?b (sbase + (delta - 1)) id1 (delta - 1) = Some (b', d) \<and> length b' = length ?b \<and> d \<le> delta - 1
        \<and> (\<forall>i < d. b' ! (sbase + i) = T ! i \<and> (sort (take id1 D @ take (delta - 1) T) @ (?x # R)) ! i = T ! i)
        \<and> (\<forall>i. d \<le> i \<longrightarrow> i < id1 + (delta - 1) + length (?x # R) \<longrightarrow>
            b' ! i = (sort (take id1 D @ take (delta - 1) T) @ (?x # R)) ! i)"
      proof (rule Suc.hyps(1))
        show "n = id1 + (delta - 1)" using Suc.hyps(2) pos by simp
        show "?b ! (id1 + (delta - 1) + i) = (?x # R) ! i" if "i < length (?x # R)" for i
          using that pos le at(3) [of "i - 1"] by (cases i) (simp_all add: nth_list_update)
      qed (use pos le at in \<open>auto simp: nth_list_update\<close>)
      then show ?thesis using pos unfolding step S by (auto simp: Suc_le_eq)
    next
      case False
      let ?b = "b[id1 - 1 + delta := ?y]"
      have "?S = sort ((take (id1 - 1) D @ take delta T) @ [?y])"
        by (rule sort_mset) (simp add: tD)
      also have "\<dots> = sort (take (id1 - 1) D @ take delta T) @ [?y]"
        by (rule sort_snoc_max) (use bD bT False tD in \<open>force\<close>)
      finally have S: "?S = sort (take (id1 - 1) D @ take delta T) @ [?y]" .
      have step: "merge_down b (sbase + delta) id1 delta = merge_down ?b (sbase + delta) (id1 - 1) delta"
        using pos rx ry wr False by (simp add: merge_down.simps [of b])
      have "\<exists>b' d. merge_down ?b (sbase + delta) (id1 - 1) delta = Some (b', d) \<and> length b' = length ?b \<and> d \<le> delta
        \<and> (\<forall>i < d. b' ! (sbase + i) = T ! i \<and> (sort (take (id1 - 1) D @ take delta T) @ (?y # R)) ! i = T ! i)
        \<and> (\<forall>i. d \<le> i \<longrightarrow> i < id1 - 1 + delta + length (?y # R) \<longrightarrow>
            b' ! i = (sort (take (id1 - 1) D @ take delta T) @ (?y # R)) ! i)"
      proof (rule Suc.hyps(1))
        show "n = id1 - 1 + delta" using Suc.hyps(2) pos by simp
        show "?b ! (id1 - 1 + delta + i) = (?y # R) ! i" if "i < length (?y # R)" for i
          using that pos le at(3) [of "i - 1"] by (cases i) (simp_all add: nth_list_update)
      qed (use pos le at in \<open>auto simp: nth_list_update\<close>)
      then show ?thesis using pos unfolding step S by (auto simp: Suc_le_eq)
    qed
  qed
qed

text \<open>Both callers end with a copy of the elements that are still at the top.\<close>

lemma merge_down_finish:
  assumes D: "sorted_wrt (<) D" and T: "sorted_wrt (<) T" and "length D + length T \<le> sbase"
    and "sbase + length T \<le> length b" and "\<And>i. i < length D \<Longrightarrow> b ! i = D ! i"
    and "\<And>i. i < length T \<Longrightarrow> b ! (sbase + i) = T ! i"
  shows "\<exists>b1 d b2. merge_down b (sbase + length T) (length D) (length T) = Some (b1, d)
    \<and> elems_copy b1 0 b1 sbase d = Some b2 \<and> length b2 = length b
    \<and> take (length D + length T) b2 = sort (D @ T)"
proof -
  obtain b1 d where m: "merge_down b (sbase + length T) (length D) (length T) = Some (b1, d)"
      "length b1 = length b" "d \<le> length T"
      "\<And>i. i < d \<Longrightarrow> b1 ! (sbase + i) = T ! i \<and> sort (D @ T) ! i = T ! i"
      "\<And>i. d \<le> i \<Longrightarrow> i < length D + length T \<Longrightarrow> b1 ! i = sort (D @ T) ! i"
    using merge_down_ok [OF D T, of "length D" "length T" "[]" sbase b] assms(3-6) by auto
  let ?b2 = "take d (drop sbase b1) @ drop d b1"
  have "length (take d (drop sbase b1)) = d" using m(2,3) assms(4) by simp
  then have c: "elems_copy b1 0 b1 sbase d = Some ?b2"
    using m(2,3) assms(3,4) unfolding elems_copy_def mem_write_def by simp
  have len: "length ?b2 = length b" using m(2,3) assms(3,4) by simp
  have "take (length D + length T) ?b2 = sort (D @ T)"
  proof (rule nth_equalityI)
    have l: "length (take (length D + length T) ?b2) = length D + length T"
      unfolding length_take len using assms(3,4) by simp
    then show "length (take (length D + length T) ?b2) = length (sort (D @ T))" by simp
    fix i assume "i < length (take (length D + length T) ?b2)"
    then have i: "i < length D + length T" using l by simp
    show "take (length D + length T) ?b2 ! i = sort (D @ T) ! i"
    proof (cases "i < d")
      case True
      with i m(2,3,4) assms(3,4) show ?thesis by (simp add: nth_append)
    next
      case False
      with i m(2,3,5) assms(3,4) show ?thesis by (simp add: nth_append)
    qed
  qed
  with m(1) c len show ?thesis by blast
qed

lemma sort_disjoint:
  assumes "sorted_wrt (<) D" and "sorted_wrt (<) T" and "set D \<inter> set T = {}"
  shows "sorted_wrt (<) (sort (D @ T) :: int list)"
proof -
  have "distinct D" "distinct T" using assms(1,2) by (simp_all add: strict_sorted_iff)
  then have "distinct (sort (D @ T))" using assms(3) by simp
  then show ?thesis by (simp add: strict_sorted_iff)
qed

subsection \<open>Union into a set\<close>

lemma list_update_region:
  "0 < k \<Longrightarrow> k \<le> N \<Longrightarrow> N \<le> length b \<Longrightarrow> drop (k - 1) (take N (b[k - 1 := x])) = x # drop k (take N b)"
  by (cases k) (auto simp: take_update_swap drop_update_swap Cons_nth_drop_Suc [symmetric])

lemma merge_collect_ok:
  assumes D: "sorted_wrt (<) D" and S: "sorted_wrt (<) S"
  shows "is1 \<le> length S \<Longrightarrow> id1 \<le> length D \<Longrightarrow> length D + is1 \<le> sbase \<Longrightarrow> sbase \<le> N \<Longrightarrow> N \<le> length b
    \<Longrightarrow> length S \<le> length e \<Longrightarrow> (\<And>i. i < length S \<Longrightarrow> e ! i = S ! i)
    \<Longrightarrow> (\<And>i. i < length D \<Longrightarrow> b ! i = D ! i)
    \<Longrightarrow> (\<And>i j. i < is1 \<Longrightarrow> id1 \<le> j \<Longrightarrow> j < length D \<Longrightarrow> S ! i \<noteq> D ! j)
    \<Longrightarrow> drop sbase (take N b) = filter (\<lambda>x. x \<notin> set D) (drop is1 S)
    \<Longrightarrow> \<exists>b' k s. merge_collect e b is1 id1 sbase = Some (b', k, s) \<and> length b' = length b \<and> k \<le> is1
      \<and> length D + k \<le> s \<and> s \<le> N \<and> (\<forall>i < length D. b' ! i = D ! i)
      \<and> take k S @ drop s (take N b') = filter (\<lambda>x. x \<notin> set D) S"
proof (induction "is1 + id1" arbitrary: is1 id1 sbase b rule: less_induct)
  case less
  note le = less.prems(1-6) and at = less.prems(7,8) and apart = less.prems(9) and region = less.prems(10)
  show ?case
  proof (cases "is1 = 0 \<or> id1 = 0")
    case True
    have "filter (\<lambda>x. x \<notin> set D) (take is1 S) = take is1 S"
    proof (cases "is1 = 0")
      case False
      with True have "id1 = 0" by simp
      then have "x \<notin> set D" if "x \<in> set (take is1 S)" for x
        using that apart le(1) by (fastforce simp: in_set_conv_nth)
      then show ?thesis by (simp add: filter_id_conv)
    qed simp
    then have "take is1 S @ drop sbase (take N b) = filter (\<lambda>x. x \<notin> set D) (take is1 S @ drop is1 S)"
      unfolding region by (simp only: filter_append)
    with True le at show ?thesis
      by (intro exI [of _ b] exI [of _ is1] exI [of _ sbase]) (simp add: merge_collect.simps [of e b])
  next
    case False
    then have pos: "0 < is1" "0 < id1" by auto
    let ?x = "S ! (is1 - 1)" and ?y = "D ! (id1 - 1)"
    have rd: "mem_read b (id1 - 1) = Some ?y" "mem_read e (is1 - 1) = Some ?x"
      using pos le at by (auto simp: mem_read_def)
    have dS: "drop (is1 - 1) S = ?x # drop is1 S"
      using pos le(1) by (cases is1) (auto simp: Cons_nth_drop_Suc [symmetric])
    have Sless: "S ! i < ?x" if "i < is1 - 1" for i
      using S that le(1) pos by (intro strict_sorted_nth_less) auto
    consider (eq) "?y = ?x" | (lt) "?y < ?x" | (gt) "?x < ?y" by force
    then show ?thesis
    proof cases
      case eq
      have "?x \<in> set D" using eq pos le(2) by (metis diff_less less_le_trans nth_mem zero_less_one)
      then have "drop sbase (take N b) = filter (\<lambda>x. x \<notin> set D) (drop (is1 - 1) S)"
        unfolding dS using region by simp
      moreover have "S ! i \<noteq> D ! j" if "i < is1 - 1" "id1 - 1 \<le> j" "j < length D" for i j
        using that apart [of i j] Sless [of i] eq pos by (cases "j = id1 - 1") auto
      ultimately have "\<exists>b' k s. merge_collect e b (is1 - 1) (id1 - 1) sbase = Some (b', k, s)
        \<and> length b' = length b \<and> k \<le> is1 - 1 \<and> length D + k \<le> s \<and> s \<le> N \<and> (\<forall>i < length D. b' ! i = D ! i)
        \<and> take k S @ drop s (take N b') = filter (\<lambda>x. x \<notin> set D) S"
        using pos le at by (intro less.hyps) auto
      moreover have "merge_collect e b is1 id1 sbase = merge_collect e b (is1 - 1) (id1 - 1) sbase"
        using pos rd eq by (simp add: merge_collect.simps [of e b])
      ultimately show ?thesis by force
    next
      case lt
      have s0: "0 < sbase" using le(3) pos by simp
      have notin: "?x \<notin> set D"
      proof
        assume "?x \<in> set D"
        then obtain j where j: "j < length D" "D ! j = ?x" by (auto simp: in_set_conv_nth)
        then have "\<not> id1 \<le> j" using apart [of "is1 - 1" j] pos by auto
        then have "j < id1 - 1 \<or> j = id1 - 1" using pos by linarith
        moreover have "id1 - 1 < length D" using le(2) pos by linarith
        ultimately have "D ! j \<le> ?y" using strict_sorted_nth_less [OF D, of j "id1 - 1"] by auto
        with j lt show False by simp
      qed
      let ?b = "b[sbase - 1 := ?x]"
      have reg: "drop (sbase - 1) (take N ?b) = filter (\<lambda>x. x \<notin> set D) (drop (is1 - 1) S)"
        unfolding dS using list_update_region [OF s0 le(4,5), of ?x] region notin by simp
      have "\<exists>b' k s. merge_collect e ?b (is1 - 1) id1 (sbase - 1) = Some (b', k, s)
        \<and> length b' = length ?b \<and> k \<le> is1 - 1 \<and> length D + k \<le> s \<and> s \<le> N \<and> (\<forall>i < length D. b' ! i = D ! i)
        \<and> take k S @ drop s (take N b') = filter (\<lambda>x. x \<notin> set D) S"
      proof (rule less.hyps)
        show "S ! i \<noteq> D ! j" if "i < is1 - 1" "id1 \<le> j" "j < length D" for i j
          using that apart [of i j] by simp
      qed (use pos le at reg in auto)
      moreover have "merge_collect e b is1 id1 sbase = merge_collect e ?b (is1 - 1) id1 (sbase - 1)"
        using pos rd lt s0 le by (simp add: merge_collect.simps [of e b] mem_write_1)
      ultimately show ?thesis by force
    next
      case gt
      have "S ! i \<noteq> D ! j" if "i < is1" "id1 - 1 \<le> j" "j < length D" for i j
      proof -
        have "i = is1 - 1 \<or> i < is1 - 1" "j = id1 - 1 \<or> id1 \<le> j" using that pos by linarith+
        then show ?thesis using that apart [of i j] Sless [of i] gt by auto
      qed
      then have "\<exists>b' k s. merge_collect e b is1 (id1 - 1) sbase = Some (b', k, s)
        \<and> length b' = length b \<and> k \<le> is1 \<and> length D + k \<le> s \<and> s \<le> N \<and> (\<forall>i < length D. b' ! i = D ! i)
        \<and> take k S @ drop s (take N b') = filter (\<lambda>x. x \<notin> set D) S"
        using pos le at region by (intro less.hyps) auto
      moreover have "merge_collect e b is1 id1 sbase = merge_collect e b is1 (id1 - 1) sbase"
        using pos rd gt by (simp add: merge_collect.simps [of e b])
      ultimately show ?thesis by simp
    qed
  qed
qed

lemma re_realloc_ok:
  assumes "alloc os = (True, os')" and "set_rep s xs" and "set_alloc s \<le> n"
  obtains b where "re_realloc (elems s) n os = (Some b, os')" and "length b = n"
    and "take (length xs) b = xs"
proof (cases "elems s")
  case None
  with assms have "xs = []" by (auto simp: set_rep_def)
  with None assms(1) show thesis by (intro that) (auto simp: re_realloc_def)
next
  case (Some e)
  with assms have e: "length e = set_alloc s" "take (length xs) e = xs" "length xs \<le> set_alloc s"
    by (auto simp: set_rep_def)
  then have "take (length xs) (e @ replicate (n - length e) idx_garbage) = xs" by simp
  with Some assms e show thesis
    by (intro that [of "e @ replicate (n - length e) idx_garbage"]) (auto simp: re_realloc_def)
qed

text \<open>\<open>grow\<close>: room for \<open>need\<close> elements, or the set as it was.\<close>

lemma grow_ok:
  assumes rep: "set_rep s xs" and "need \<le> n" and "set_alloc s < need \<Longrightarrow> set_alloc s \<le> n"
  obtains (fail) os' where "\<not> fst (alloc os)" and "grow s need n os = (None, os')"
    | (ok) s' os' where "grow s need n os = (Some s', os')" and "set_rep s' xs" and "need \<le> set_alloc s'"
proof (cases "set_alloc s < need")
  case True
  obtain a os' where a: "alloc os = (a, os')" by force
  show thesis
  proof (cases a)
    case False
    with a True show thesis by (intro fail [of os']) (simp_all add: grow_def re_realloc_def)
  next
    case t: True
    obtain b where b: "re_realloc (elems s) n os = (Some b, os')" "length b = n" "take (length xs) b = xs"
      by (rule re_realloc_ok [OF _ rep assms(3) [OF True], of os os']) (use a t in auto)
    have "set_rep (s\<lparr>elems := Some b, set_alloc := n\<rparr>) xs"
      using rep b True assms(2,3) by (auto simp: set_rep_def)
    with b True assms(2) show thesis by (intro ok) (auto simp: grow_def)
  qed
next
  case False
  with rep show thesis by (intro ok [of s os]) (simp_all add: grow_def)
qed

text \<open>
  The result of an operation that was given the allocation answers \<open>os\<close>: out of memory, and then the
  allocation was refused, or a set that holds the given numbers.
\<close>

definition holds :: "answers \<Rightarrow> set_result \<Rightarrow> int set \<Rightarrow> bool" where
  "holds os r A \<longleftrightarrow> (\<exists>e s os'. r = Some (e, s, os') \<and>
     (e = REG_ESPACE \<and> \<not> fst (alloc os) \<or> e = REG_NOERROR \<and> (\<exists>zs. set_rep s zs \<and> set zs = A)))"

lemma holds_error: "\<not> fst (alloc os) \<Longrightarrow> holds os (Some (REG_ESPACE, s, os')) A"
  unfolding holds_def by blast

lemma holdsI: "set_rep s zs \<Longrightarrow> set zs = A \<Longrightarrow> holds os (Some (REG_NOERROR, s, os')) A"
  unfolding holds_def by blast

text \<open>A set whose array has got a new list of elements.\<close>

definition array_holds :: "(int list \<times> nat) option \<Rightarrow> nat \<Rightarrow> int set \<Rightarrow> bool" where
  "array_holds r n A \<longleftrightarrow> (\<exists>b zs. r = Some (b, length zs) \<and> length b = n \<and> length zs \<le> n
     \<and> take (length zs) b = zs \<and> sorted_wrt (<) zs \<and> set zs = A)"

lemma array_holdsI:
  "r = Some (b, length zs) \<Longrightarrow> length b = n \<Longrightarrow> length zs \<le> n \<Longrightarrow> take (length zs) b = zs \<Longrightarrow>
     sorted_wrt (<) zs \<Longrightarrow> set zs = A \<Longrightarrow> array_holds r n A"
  unfolding array_holds_def by blast

lemma array_holds_set:
  assumes "array_holds r (set_alloc s) A"
  shows "holds os0 (do { (b, n) \<leftarrow> r; Some (REG_NOERROR, s\<lparr>nelem := n, elems := Some b\<rparr>, os) }) A"
proof -
  obtain b zs where r: "r = Some (b, length zs)" "length b = set_alloc s" "length zs \<le> set_alloc s"
      "take (length zs) b = zs" "sorted_wrt (<) zs" "set zs = A"
    using assms unfolding array_holds_def by blast
  have "set_rep (s\<lparr>nelem := length zs, elems := Some b\<rparr>) zs" using r by (simp add: set_rep_def)
  with r show ?thesis by (auto intro: holdsI)
qed

lemma merge_elems_ok:
  assumes sD: "sorted_wrt (<) D" and sS: "sorted_wrt (<) S" and "S \<noteq> []"
    and top: "length D + 2 * length S \<le> length b" and bD: "\<And>i. i < length D \<Longrightarrow> b ! i = D ! i"
    and e: "length S \<le> length e" "take (length S) e = S" "\<And>i. i < length S \<Longrightarrow> e ! i = S ! i"
  shows "array_holds (merge_elems b (length D) e (length S)) (length b) (set D \<union> set S)"
proof (cases "D = []")
  case True
  have "elems_copy b 0 e 0 (length S) = Some (S @ drop (length S) b)"
    using top e(1,2) by (simp add: elems_copy_def mem_write_def)
  then show ?thesis
    using True sS top
    by (intro array_holdsI [where zs = S and b = "S @ drop (length S) b"]) (auto simp: merge_elems_def)
next
  case ne: False
  let ?top = "length D + 2 * length S" and ?T = "filter (\<lambda>x. x \<notin> set D) S"
  have "\<exists>b' k s. merge_collect e b (length S) (length D) ?top = Some (b', k, s) \<and> length b' = length b
    \<and> k \<le> length S \<and> length D + k \<le> s \<and> s \<le> ?top \<and> (\<forall>i < length D. b' ! i = D ! i)
    \<and> take k S @ drop s (take ?top b') = ?T"
    using merge_collect_ok [OF sD sS, of "length S" "length D" ?top ?top b e] top e bD by simp
  then obtain b1 k s where mc: "merge_collect e b (length S) (length D) ?top = Some (b1, k, s)"
      "length b1 = length b" "k \<le> length S" "length D + k \<le> s" "s \<le> ?top"
      "\<And>i. i < length D \<Longrightarrow> b1 ! i = D ! i" "take k S @ drop s (take ?top b1) = ?T" by blast
  let ?s = "s - k"
  let ?b2 = "take ?s b1 @ take k S @ drop s b1"
  have lk: "length (take k S) = k" using mc(3) by simp
  have b2: "length ?b2 = length b" using mc(2,3,4,5) top by simp
  have tk: "take k e = take k S" using e(2) mc(3) by (metis min_absorb1 take_take)
  have copy: "(if 0 < k then if k \<le> s then do { b \<leftarrow> elems_copy b1 ?s e 0 k; Some (b, ?s) } else None
      else Some (b1, s)) = Some (?b2, ?s)"
    using mc(2,3,4,5) top e(1) tk lk by (simp add: elems_copy_def mem_write_def)
  have "length (take k S @ drop s (take ?top b1)) = ?top - ?s" using mc(2,3,4,5) top by simp
  then have T: "length ?T = ?top - ?s" by (simp only: mc(7))
  have at_T: "?b2 ! (?s + i) = ?T ! i" if "i < length ?T" for i
  proof -
    have "length (take ?s b1) = ?s" using mc(2,5) top by simp
    then have "?b2 ! (?s + i) = (take k S @ drop s b1) ! i" by (metis nth_append_length_plus)
    also have "\<dots> = (take k S @ drop s (take ?top b1)) ! i"
      using that T mc(2,3,4,5) top by (simp add: nth_append)
    finally show ?thesis unfolding mc(7) .
  qed
  have at_D: "?b2 ! i = D ! i" if "i < length D" for i
  proof -
    have "i < ?s" using that mc(4) by linarith
    then show ?thesis using that mc(2,5,6) top by (simp add: nth_append)
  qed
  have sT: "sorted_wrt (<) ?T" using sS by (rule sorted_wrt_filter)
  have lT: "length ?T \<le> length S" by simp
  have disj: "set D \<inter> set ?T = {}" by auto
  have un: "set (sort (D @ ?T)) = set D \<union> set S" by auto
  show ?thesis
  proof (cases "?top - ?s = 0")
    case True
    then have "?T = []" using T by simp
    then have sub: "set D \<union> set S = set D" by (auto simp: filter_empty_conv)
    have "merge_elems b (length D) e (length S) = Some (?b2, length D)"
      using ne mc(1) copy True by (simp add: merge_elems_def Let_def)
    moreover have "length D \<le> length b" using top by linarith
    moreover have "take (length D) ?b2 = D"
    proof (rule take_eqI [OF _ at_D])
      show "length D \<le> length ?b2" unfolding b2 using top by simp
    qed
    ultimately show ?thesis by (rule array_holdsI [OF _ b2 _ _ sD sub [symmetric]])
  next
    case False
    have s_le: "?s + length ?T = ?top" using T False by simp
    obtain b3 d b4 where m: "merge_down ?b2 (?s + length ?T) (length D) (length ?T) = Some (b3, d)"
        "elems_copy b3 0 b3 ?s d = Some b4" "length b4 = length ?b2"
        "take (length D + length ?T) b4 = sort (D @ ?T)"
      using merge_down_finish [OF sD sT, of ?s ?b2] at_D at_T b2 top s_le lT by auto
    have "merge_elems b (length D) e (length S) = Some (b4, length D + length ?T)"
      using ne mc(1) copy False m(1,2) s_le T by (simp add: merge_elems_def Let_def)
    moreover have "length D + length ?T \<le> length b" using lT top by linarith
    ultimately show ?thesis
      using m(3,4) b2 un sort_disjoint [OF sD sT disj]
      by (intro array_holdsI [where zs = "sort (D @ ?T)"]) simp_all
  qed
qed

lemma node_set_merge_ok:
  assumes dest: "set_rep dest D" and src: "set_rep src S"
  shows "holds os (node_set_merge dest (Some src) os) (set D \<union> set S)"
proof (cases "S = []")
  case True
  then show ?thesis using src dest by (auto simp: node_set_merge_def set_rep_def intro!: holdsI)
next
  case False
  then have ns: "nelem src = length S" "0 < length S" using set_rep_nelem [OF src] by simp_all
  obtain e where e: "elems src = Some e" "length S \<le> length e" "take (length S) e = S"
      "\<And>i. i < length S \<Longrightarrow> e ! i = S ! i"
    using set_rep_elems [OF src False] by metis
  have nd: "nelem dest = length D" using set_rep_nelem [OF dest] .
  show ?thesis
  proof (cases rule: grow_ok [OF dest, of "2 * length S + length D" "2 * (length S + set_alloc dest)" os])
    case 3
    then show ?thesis using ns by (simp add: node_set_merge_def holds_error nd)
  next
    case (4 s1 os1)
    obtain b where b: "elems s1 = Some b" "length b = set_alloc s1" "take (length D) b = D"
      using 4 ns by (cases "elems s1") (auto simp: set_rep_def)
    have n1: "nelem s1 = length D" using set_rep_nelem [OF 4(2)] .
    have bD: "b ! i = D ! i" if "i < length D" for i using b(3) that by (metis nth_take)
    have "array_holds (merge_elems b (length D) e (length S)) (set_alloc s1) (set D \<union> set S)"
      using merge_elems_ok [OF set_rep_sorted [OF dest] set_rep_sorted [OF src] False, of b e]
        4(3) b(2) bD e by (simp add: add.commute)
    from array_holds_set [OF this, of os os1] show ?thesis
      using 4(1) b(1) e(1) ns nd n1 by (simp add: node_set_merge_def)
  qed (use dest ns in \<open>auto simp: set_rep_def\<close>)
qed

subsection \<open>Adding an intersection\<close>

lemma seek_down_ok:
  assumes D: "sorted_wrt (<) D" and bD: "\<And>i. i < length D \<Longrightarrow> b ! i = D ! i" and len: "length D \<le> length b"
  shows "id1 \<le> length D \<Longrightarrow> \<exists>j. seek_down b id1 x = Some j \<and> j \<le> id1
    \<and> (0 < j \<longrightarrow> D ! (j - 1) \<le> x) \<and> (\<forall>i. j \<le> i \<longrightarrow> i < id1 \<longrightarrow> x < D ! i)"
proof (induction id1)
  case (Suc n)
  have rd: "mem_read b n = Some (D ! n)" using Suc.prems bD len by (simp add: mem_read_def)
  show ?case
  proof (cases "x < D ! n")
    case True
    obtain j where j: "seek_down b n x = Some j" "j \<le> n" "0 < j \<longrightarrow> D ! (j - 1) \<le> x"
        "\<forall>i. j \<le> i \<longrightarrow> i < n \<longrightarrow> x < D ! i" using Suc by auto
    then have "x < D ! i" if "j \<le> i" "i < Suc n" for i using that True by (cases "i = n") auto
    with j rd True show ?thesis by auto
  next
    case False
    with rd show ?thesis by auto
  qed
qed simp

lemma inter_loop_ok:
  assumes D: "sorted_wrt (<) D" and A: "sorted_wrt (<) A" and B: "sorted_wrt (<) B"
    and e1: "length A \<le> length e1" "\<And>i. i < length A \<Longrightarrow> e1 ! i = A ! i"
    and e2: "length B \<le> length e2" "\<And>i. i < length B \<Longrightarrow> e2 ! i = B ! i"
  shows "i1 \<le> length A \<Longrightarrow> i2 \<le> length B \<Longrightarrow> id1 \<le> length D \<Longrightarrow> length D + i1 \<le> sbase \<Longrightarrow> length D + i2 \<le> sbase
    \<Longrightarrow> sbase \<le> N \<Longrightarrow> N \<le> length b
    \<Longrightarrow> (\<And>i. i < length D \<Longrightarrow> b ! i = D ! i)
    \<Longrightarrow> (\<And>i j. i < i1 \<Longrightarrow> i2 \<le> j \<Longrightarrow> j < length B \<Longrightarrow> A ! i \<noteq> B ! j)
    \<Longrightarrow> (\<And>i j. i < i1 \<Longrightarrow> id1 \<le> j \<Longrightarrow> j < length D \<Longrightarrow> i < i1 \<Longrightarrow> A ! i \<noteq> D ! j)
    \<Longrightarrow> drop sbase (take N b) = filter (\<lambda>x. x \<in> set B \<and> x \<notin> set D) (drop i1 A)
    \<Longrightarrow> \<exists>b' s. inter_loop e1 e2 b i1 i2 id1 sbase = Some (b', s) \<and> length b' = length b
      \<and> sbase - min i1 i2 \<le> s \<and> s \<le> N \<and> (\<forall>i < length D. b' ! i = D ! i)
      \<and> drop s (take N b') = filter (\<lambda>x. x \<in> set B \<and> x \<notin> set D) A"
proof (induction "i1 + i2" arbitrary: i1 i2 id1 sbase b rule: less_induct)
  case less
  note le = less.prems(1-7) and bD = less.prems(8) and apB = less.prems(9) and apD = less.prems(10)
    and region = less.prems(11)
  let ?P = "\<lambda>x. x \<in> set B \<and> x \<notin> set D"
  let ?goal = "\<lambda>r b0 sb m. \<exists>b' s. r = Some (b', s) \<and> length b' = length b0
      \<and> sb - m \<le> s \<and> s \<le> N \<and> (\<forall>i < length D. b' ! i = D ! i) \<and> drop s (take N b') = filter ?P A"
  show ?case
  proof (cases "i1 = 0 \<or> i2 = 0")
    case True
    have "filter ?P (take i1 A) = []"
    proof (cases "i1 = 0")
      case False
      then have "i2 = 0" using True by simp
      then have "x \<notin> set B" if "x \<in> set (take i1 A)" for x
        using that apB le(1) by (fastforce simp: in_set_conv_nth)
      then show ?thesis by (auto simp: filter_empty_conv)
    qed simp
    then have "filter ?P (take i1 A @ drop i1 A) = drop sbase (take N b)"
      unfolding region by (simp only: filter_append append_Nil)
    then have "filter ?P A = drop sbase (take N b)" by (simp only: append_take_drop_id)
    with True le bD show ?thesis
      by (intro exI [of _ b] exI [of _ sbase]) (simp add: inter_loop.simps [of e1 e2 b])
  next
    case False
    then have pos: "0 < i1" "0 < i2" by auto
    let ?x = "A ! (i1 - 1)" and ?y = "B ! (i2 - 1)"
    have rd: "mem_read e1 (i1 - 1) = Some ?x" "mem_read e2 (i2 - 1) = Some ?y"
      using pos le e1 e2 by (auto simp: mem_read_def)
    have dA: "drop (i1 - 1) A = ?x # drop i1 A"
      using pos le(1) by (cases i1) (auto simp: Cons_nth_drop_Suc [symmetric])
    have Aless: "A ! i < ?x" if "i < i1 - 1" for i
      using A that le(1) pos by (intro strict_sorted_nth_less) auto
    have Bless: "B ! i < ?y" if "i < i2 - 1" for i
      using B that le(2) pos by (intro strict_sorted_nth_less) auto
    consider (eq) "?x = ?y" | (lt) "?x < ?y" | (gt) "?y < ?x" by force
    then show ?thesis
    proof cases
      case eq
      obtain j where j: "seek_down b id1 ?x = Some j" "j \<le> id1" "0 < j \<Longrightarrow> D ! (j - 1) \<le> ?x"
          "\<And>i. j \<le> i \<Longrightarrow> i < id1 \<Longrightarrow> ?x < D ! i"
        using seek_down_ok [OF D bD, of id1 ?x] le by auto
      have xB: "?x \<in> set B" using eq pos le(2) by (metis diff_less less_le_trans nth_mem zero_less_one)
      have apB': "A ! i \<noteq> B ! l" if "i < i1 - 1" "i2 - 1 \<le> l" "l < length B" for i l
      proof -
        have l: "l = i2 - 1 \<or> i2 \<le> l" and i: "i < i1" using that pos by linarith+
        from l show ?thesis
        proof
          assume "l = i2 - 1"
          then show ?thesis using Aless [OF that(1)] eq by simp
        next
          assume "i2 \<le> l"
          then show ?thesis using apB [OF i] that(3) by blast
        qed
      qed
      have above: "?x < D ! l \<or> ?x \<noteq> D ! l" if "j \<le> l" "l < length D" for l
        using that j(4) [of l] apD [of "i1 - 1" l] pos by (cases "l < id1") auto
      have apD': "A ! i \<noteq> D ! l" if "i < i1 - 1" "j \<le> l" "l < length D" for i l
      proof (cases "l < id1")
        case True
        then show ?thesis using j(4) [OF that(2)] Aless [OF that(1)] by simp
      next
        case False
        moreover have "i < i1" using that(1) by linarith
        ultimately show ?thesis using apD [of i l] that(3) by simp
      qed
      have mem: "?x \<in> set D \<longleftrightarrow> 0 < j \<and> D ! (j - 1) = ?x"
      proof
        assume "?x \<in> set D"
        then obtain l where l: "l < length D" "D ! l = ?x" by (auto simp: in_set_conv_nth)
        then have "l < j" using above [of l] j(4) [of l] apD [of "i1 - 1" l] pos
          by (cases "j \<le> l"; cases "l < id1") auto
        moreover have "l = j - 1"
        proof (rule ccontr)
          assume "l \<noteq> j - 1"
          then have "D ! l < D ! (j - 1)" using \<open>l < j\<close> j(2) le(3) by (intro strict_sorted_nth_less [OF D]) auto
          with l j(3) \<open>l < j\<close> show False by auto
        qed
        ultimately show "0 < j \<and> D ! (j - 1) = ?x" using l by auto
      next
        assume "0 < j \<and> D ! (j - 1) = ?x"
        moreover from this have "j - 1 < length D" using j(2) le(3) by linarith
        ultimately show "?x \<in> set D" by (metis nth_mem)
      qed
      have bj: "j = 0 \<or> b ! (j - 1) \<noteq> ?x \<longleftrightarrow> ?x \<notin> set D"
        unfolding mem using bD [of "j - 1"] j(2) le(3) by (cases "j = 0") auto
      show ?thesis
      proof (cases "?x \<in> set D")
        case True
        have "?goal (inter_loop e1 e2 b (i1 - 1) (i2 - 1) j sbase) b sbase (min (i1 - 1) (i2 - 1))"
          using pos le bD apB' apD' j(2) region dA True by (intro less.hyps) auto
        moreover have "inter_loop e1 e2 b i1 i2 id1 sbase = inter_loop e1 e2 b (i1 - 1) (i2 - 1) j sbase"
          using pos rd eq j(1) bj True by (simp add: inter_loop.simps [of e1 e2 b i1])
        ultimately show ?thesis using pos by fastforce
      next
        case notin: False
        have s0: "0 < sbase" using le(4) pos by simp
        let ?b = "b[sbase - 1 := ?x]"
        have reg: "drop (sbase - 1) (take N ?b) = filter ?P (drop (i1 - 1) A)"
          unfolding dA using list_update_region [OF s0 le(6,7), of ?x] region notin xB by simp
        have "?goal (inter_loop e1 e2 ?b (i1 - 1) (i2 - 1) j (sbase - 1)) ?b (sbase - 1) (min (i1 - 1) (i2 - 1))"
          using pos le bD apB' apD' j(2) reg by (intro less.hyps) auto
        moreover have "inter_loop e1 e2 b i1 i2 id1 sbase = inter_loop e1 e2 ?b (i1 - 1) (i2 - 1) j (sbase - 1)"
          using pos rd eq j(1) bj notin s0 le by (simp add: inter_loop.simps [of e1 e2 b i1] mem_write_1)
        ultimately show ?thesis using pos by fastforce
      qed
    next
      case lt
      have "A ! i \<noteq> B ! l" if "i < i1" "i2 - 1 \<le> l" "l < length B" for i l
      proof -
        have l: "l = i2 - 1 \<or> i2 \<le> l" and i: "i = i1 - 1 \<or> i < i1 - 1" using that pos by linarith+
        from l show ?thesis
        proof
          assume "l = i2 - 1"
          then show ?thesis using i Aless [of i] lt by auto
        next
          assume "i2 \<le> l"
          then show ?thesis using apB [OF that(1)] that(3) by blast
        qed
      qed
      then have "?goal (inter_loop e1 e2 b i1 (i2 - 1) id1 sbase) b sbase (min i1 (i2 - 1))"
        using pos le bD apD region by (intro less.hyps) auto
      moreover have "inter_loop e1 e2 b i1 i2 id1 sbase = inter_loop e1 e2 b i1 (i2 - 1) id1 sbase"
        using pos rd lt by (simp add: inter_loop.simps [of e1 e2 b i1 i2])
      ultimately show ?thesis by fastforce
    next
      case gt
      have "?x \<notin> set B"
      proof
        assume "?x \<in> set B"
        then obtain l where l: "l < length B" "B ! l = ?x" by (auto simp: in_set_conv_nth)
        then have "l < i2" using apB [of "i1 - 1" l] pos by force
        then have "l = i2 - 1 \<or> l < i2 - 1" by linarith
        then show False using l gt Bless [of l] by auto
      qed
      then have "drop sbase (take N b) = filter ?P (drop (i1 - 1) A)" unfolding dA using region by simp
      then have "?goal (inter_loop e1 e2 b (i1 - 1) i2 id1 sbase) b sbase (min (i1 - 1) i2)"
        using pos le bD apD apB by (intro less.hyps) auto
      moreover have "inter_loop e1 e2 b i1 i2 id1 sbase = inter_loop e1 e2 b (i1 - 1) i2 id1 sbase"
        using pos rd gt by (simp add: inter_loop.simps [of e1 e2 b i1 i2])
      ultimately show ?thesis by fastforce
    qed
  qed
qed

lemma inter_elems_ok:
  assumes D: "sorted_wrt (<) D" and A: "sorted_wrt (<) A" and B: "sorted_wrt (<) B"
    and e1: "length A \<le> length e1" "\<And>i. i < length A \<Longrightarrow> e1 ! i = A ! i"
    and e2: "length B \<le> length e2" "\<And>i. i < length B \<Longrightarrow> e2 ! i = B ! i"
    and top: "length D + length A + length B \<le> length b" and bD: "\<And>i. i < length D \<Longrightarrow> b ! i = D ! i"
  shows "array_holds (inter_elems b (length D) e1 (length A) e2 (length B)) (length b)
    (set D \<union> (set A \<inter> set B))"
proof -
  let ?N = "length D + length A + length B"
  let ?T = "filter (\<lambda>x. x \<in> set B \<and> x \<notin> set D) A"
  obtain b1 s where c: "inter_loop e1 e2 b (length A) (length B) (length D) ?N = Some (b1, s)"
      "length b1 = length b" "?N - min (length A) (length B) \<le> s" "s \<le> ?N"
      "\<And>i. i < length D \<Longrightarrow> b1 ! i = D ! i" "drop s (take ?N b1) = ?T"
    using inter_loop_ok [OF D A B e1 e2, of "length A" "length B" "length D" ?N ?N b] top bD by auto
  have "length (drop s (take ?N b1)) = ?N - s" using c(2,4) top by simp
  then have T: "s + length ?T = ?N" using c(4) by (simp only: c(6))
  have at_T: "b1 ! (s + i) = ?T ! i" if "i < length ?T" for i
  proof -
    have "?T ! i = drop s (take ?N b1) ! i" by (simp only: c(6))
    also have "\<dots> = b1 ! (s + i)" using that T c(2) top by simp
    finally show ?thesis by simp
  qed
  have fits: "length D + length ?T \<le> s" using c(3) T by linarith
  have sT: "sorted_wrt (<) ?T" using A by (rule sorted_wrt_filter)
  obtain b2 d b3 where m: "merge_down b1 (s + length ?T) (length D) (length ?T) = Some (b2, d)"
      "elems_copy b2 0 b2 s d = Some b3" "length b3 = length b1"
      "take (length D + length ?T) b3 = sort (D @ ?T)"
    using merge_down_finish [OF D sT fits, of b1] T c(2,5) at_T top by auto
  have "?N - s = length ?T" using T by linarith
  then have "inter_elems b (length D) e1 (length A) e2 (length B) = Some (b3, length D + length ?T)"
    using c(1) m(1,2) T by (simp add: inter_elems_def Let_def)
  moreover have "set (sort (D @ ?T)) = set D \<union> (set A \<inter> set B)" by auto
  moreover have "sorted_wrt (<) (sort (D @ ?T))" by (rule sort_disjoint [OF D sT]) auto
  moreover have "length D + length ?T \<le> length b" using fits c(4) top by linarith
  ultimately show ?thesis
    using m(3,4) c(2) by (intro array_holdsI [where zs = "sort (D @ ?T)"]) simp_all
qed

lemma node_set_add_intersect_ok:
  assumes dest: "set_rep dest D" and s1: "set_rep src1 A" and s2: "set_rep src2 B"
  shows "holds os (node_set_add_intersect dest src1 src2 os) (set D \<union> (set A \<inter> set B))"
proof (cases "A = [] \<or> B = []")
  case True
  then show ?thesis using assms by (auto simp: node_set_add_intersect_def set_rep_def intro!: holdsI)
next
  case False
  then have ne: "A \<noteq> []" "B \<noteq> []" by auto
  have n: "nelem src1 = length A" "nelem src2 = length B" "nelem dest = length D"
    using assms by (simp_all add: set_rep_nelem)
  obtain e1 where e1: "elems src1 = Some e1" "length A \<le> length e1" "\<And>i. i < length A \<Longrightarrow> e1 ! i = A ! i"
    using set_rep_elems [OF s1 ne(1)] by metis
  obtain e2 where e2: "elems src2 = Some e2" "length B \<le> length e2" "\<And>i. i < length B \<Longrightarrow> e2 ! i = B ! i"
    using set_rep_elems [OF s2 ne(2)] by metis
  show ?thesis
  proof (cases rule: grow_ok [OF dest, of "length A + length B + length D" "length A + length B + set_alloc dest" os])
    case 3
    then show ?thesis using n ne by (simp add: node_set_add_intersect_def holds_error)
  next
    case (4 d1 os1)
    obtain b where b: "elems d1 = Some b" "length b = set_alloc d1" "take (length D) b = D"
      using 4 ne by (cases "elems d1") (auto simp: set_rep_def)
    have nd: "nelem d1 = length D" using set_rep_nelem [OF 4(2)] .
    have bD: "b ! i = D ! i" if "i < length D" for i using b(3) that by (metis nth_take)
    have "array_holds (inter_elems b (length D) e1 (length A) e2 (length B)) (set_alloc d1)
        (set D \<union> (set A \<inter> set B))"
      using inter_elems_ok [OF set_rep_sorted [OF dest] set_rep_sorted [OF s1] set_rep_sorted [OF s2] e1(2,3) e2(2,3), of b]
        4(3) b(2) bD by simp
    from array_holds_set [OF this, of os os1] show ?thesis
      using 4(1) b(1) e1(1) e2(1) n nd ne by (simp add: node_set_add_intersect_def)
  qed (use dest n in \<open>auto simp: set_rep_def\<close>)
qed

subsection \<open>Construction\<close>

lemma re_malloc_cases:
  obtains (fail) os' where "\<not> fst (alloc os)" and "re_malloc n os = (None, os')"
    | (ok) os' where "re_malloc n os = (Some (replicate n idx_garbage), os')"
  by (cases "fst (alloc os)") (auto simp: re_malloc_def split_beta)

lemma node_set_init_1_ok: "holds os (node_set_init_1 x os) {x}"
proof (cases rule: re_malloc_cases [of os 1])
  case (ok os')
  then have "node_set_init_1 x os = Some (REG_NOERROR, \<lparr>set_alloc = 1, nelem = 1, elems = Some [x]\<rparr>, os')"
    by (simp add: node_set_init_1_def mem_write_def)
  moreover have "set_rep \<lparr>set_alloc = 1, nelem = 1, elems = Some [x]\<rparr> [x]" by (simp add: set_rep_def)
  ultimately show ?thesis by (auto intro: holdsI)
qed (simp add: node_set_init_1_def holds_error)

lemma node_set_init_2_ok: "holds os (node_set_init_2 s x y os) {x, y}"
proof (cases rule: re_malloc_cases [of os 2])
  case (ok os')
  have r: "replicate 2 idx_garbage = [idx_garbage, idx_garbage]" by (simp add: numeral_2_eq_2)
  have w: "mem_write [a, b] 0 [c] = Some [c, b]" "mem_write [a, b] 1 [c] = Some [a, c]" for a b c :: int
    by (simp_all add: mem_write_def)
  consider "x = y" | "x < y" | "y < x" by force
  then show ?thesis
  proof cases
    case 1
    then have "node_set_init_2 s x y os
        = Some (REG_NOERROR, s\<lparr>set_alloc := 2, elems := Some [x, idx_garbage], nelem := 1\<rparr>, os')"
      using ok r w by (simp add: node_set_init_2_def)
    moreover have "set_rep (s\<lparr>set_alloc := 2, elems := Some [x, idx_garbage], nelem := 1\<rparr>) [x]"
      by (simp add: set_rep_def)
    ultimately show ?thesis using 1 by (auto intro: holdsI)
  next
    case lt: 2
    then have "node_set_init_2 s x y os
        = Some (REG_NOERROR, s\<lparr>set_alloc := 2, elems := Some [x, y], nelem := 2\<rparr>, os')"
      using ok r w by (simp add: node_set_init_2_def)
    moreover have "set_rep (s\<lparr>set_alloc := 2, elems := Some [x, y], nelem := 2\<rparr>) [x, y]"
      using lt by (simp add: set_rep_def)
    ultimately show ?thesis by (auto intro: holdsI)
  next
    case gt: 3
    then have "node_set_init_2 s x y os
        = Some (REG_NOERROR, s\<lparr>set_alloc := 2, elems := Some [y, x], nelem := 2\<rparr>, os')"
      using ok r w by (simp add: node_set_init_2_def)
    moreover have "set_rep (s\<lparr>set_alloc := 2, elems := Some [y, x], nelem := 2\<rparr>) [y, x]"
      using gt by (simp add: set_rep_def)
    ultimately show ?thesis by (auto intro: holdsI)
  qed
qed (simp add: node_set_init_2_def holds_error)

lemma node_set_init_copy_ok:
  assumes "set_rep s xs"
  shows "holds os (node_set_init_copy s os) (set xs)"
proof (cases "xs = []")
  case True
  with assms show ?thesis
    by (auto simp: node_set_init_copy_def set_rep_nelem intro: holdsI [OF set_rep_empty])
next
  case False
  then obtain b where b: "elems s = Some b" "length xs \<le> length b" "take (length xs) b = xs"
    using set_rep_elems [OF assms False] by metis
  show ?thesis
  proof (cases rule: re_malloc_cases [of os "length xs"])
    case fail
    with False set_rep_nelem [OF assms] show ?thesis by (simp add: node_set_init_copy_def holds_error)
  next
    case (ok os')
    let ?s = "\<lparr>set_alloc = length xs, nelem = length xs, elems = Some xs\<rparr>"
    have "node_set_init_copy s os = Some (REG_NOERROR, ?s, os')"
      using ok b False set_rep_nelem [OF assms]
      by (simp add: node_set_init_copy_def elems_copy_def mem_write_def)
    moreover have "set_rep ?s xs" using set_rep_sorted [OF assms] by (simp add: set_rep_def)
    ultimately show ?thesis by (auto intro: holdsI)
  qed
qed

text \<open>The merging loop as a list function.\<close>

fun list_union :: "int list \<Rightarrow> int list \<Rightarrow> int list" where
  "list_union (x # xs) (y # ys) =
     (if y < x then y # list_union (x # xs) ys
      else x # list_union xs (if x = y then ys else y # ys))"
| "list_union [] ys = ys"
| "list_union xs [] = xs"

lemma list_union_Nil [simp]: "list_union xs [] = xs"
  by (cases xs) simp_all

lemma set_list_union [simp]: "set (list_union xs ys) = set xs \<union> set ys"
  by (induction xs ys rule: list_union.induct) auto

lemma sorted_list_union: "sorted_wrt (<) xs \<Longrightarrow> sorted_wrt (<) ys \<Longrightarrow> sorted_wrt (<) (list_union xs ys)"
  by (induction xs ys rule: list_union.induct) force+

lemma length_list_union: "length (list_union xs ys) \<le> length xs + length ys"
  by (induction xs ys rule: list_union.induct) auto

lemma union_loop_ok:
  assumes A: "length A \<le> length e1" "\<And>i. i < length A \<Longrightarrow> e1 ! i = A ! i"
    and B: "length B \<le> length e2" "\<And>i. i < length B \<Longrightarrow> e2 ! i = B ! i"
  shows "i1 \<le> length A \<Longrightarrow> i2 \<le> length B \<Longrightarrow> ix \<le> i1 + i2 \<Longrightarrow> length b = length A + length B
    \<Longrightarrow> \<exists>b' j1 j2 k. union_loop e1 (length A) e2 (length B) b i1 i2 ix = Some (b', j1, j2, k)
      \<and> length b' = length b \<and> j1 \<le> length A \<and> j2 \<le> length B \<and> k \<le> j1 + j2 \<and> ix \<le> k
      \<and> (j1 = length A \<or> j2 = length B)
      \<and> take k b' @ drop j1 A @ drop j2 B = take ix b @ list_union (drop i1 A) (drop i2 B)"
proof (induction "(length A - i1) + (length B - i2)" arbitrary: b i1 i2 ix rule: less_induct)
  case less
  note le = less.prems
  let ?goal = "\<lambda>r ix0 l. \<exists>b' j1 j2 k. r = Some (b', j1, j2, k)
      \<and> length b' = length b \<and> j1 \<le> length A \<and> j2 \<le> length B \<and> k \<le> j1 + j2 \<and> ix0 \<le> k
      \<and> (j1 = length A \<or> j2 = length B) \<and> take k b' @ drop j1 A @ drop j2 B = l"
  show ?case
  proof (cases "i1 < length A \<and> i2 < length B")
    case False
    then show ?thesis
      using le by (intro exI [of _ b] exI [of _ i1] exI [of _ i2] exI [of _ ix])
        (auto simp: union_loop.simps [of e1 "length A"])
  next
    case True
    let ?x = "A ! i1" and ?y = "B ! i2"
    have rd: "mem_read e1 i1 = Some ?x" "mem_read e2 i2 = Some ?y"
      using True A B by (auto simp: mem_read_def)
    have ix: "ix < length b" using le(3,4) True by linarith
    have dA: "drop i1 A = ?x # drop (Suc i1) A" and dB: "drop i2 B = ?y # drop (Suc i2) B"
      using True by (simp_all add: Cons_nth_drop_Suc)
    have tk: "take (Suc ix) (b[ix := z]) = take ix b @ [z]" for z
      using ix by (simp add: take_Suc_conv_app_nth)
    show ?thesis
    proof (cases "?y < ?x")
      case lt: True
      have "?goal (union_loop e1 (length A) e2 (length B) (b[ix := ?y]) i1 (Suc i2) (Suc ix)) (Suc ix)
          (take (Suc ix) (b[ix := ?y]) @ list_union (drop i1 A) (drop (Suc i2) B))"
      proof -
        have m: "(length A - i1) + (length B - Suc i2) < (length A - i1) + (length B - i2)"
          using True by linarith
        show ?thesis using less.hyps [OF m, of "Suc ix" "b[ix := ?y]"] le True by auto
      qed
      moreover have "union_loop e1 (length A) e2 (length B) b i1 i2 ix
          = union_loop e1 (length A) e2 (length B) (b[ix := ?y]) i1 (Suc i2) (Suc ix)"
        using True rd lt ix by (simp add: union_loop.simps [of e1 "length A" e2 "length B" b] mem_write_1)
      moreover have "list_union (drop i1 A) (drop i2 B) = ?y # list_union (drop i1 A) (drop (Suc i2) B)"
        unfolding dA dB using lt by simp
      ultimately show ?thesis unfolding tk by fastforce
    next
      case ge: False
      let ?i2 = "if ?x = ?y then Suc i2 else i2"
      have "?goal (union_loop e1 (length A) e2 (length B) (b[ix := ?x]) (Suc i1) ?i2 (Suc ix)) (Suc ix)
          (take (Suc ix) (b[ix := ?x]) @ list_union (drop (Suc i1) A) (drop ?i2 B))"
      proof -
        have m: "(length A - Suc i1) + (length B - ?i2) < (length A - i1) + (length B - i2)"
          using True by auto
        show ?thesis using less.hyps [OF m, of "Suc ix" "b[ix := ?x]"] le True by auto
      qed
      moreover have "union_loop e1 (length A) e2 (length B) b i1 i2 ix
          = union_loop e1 (length A) e2 (length B) (b[ix := ?x]) (Suc i1) ?i2 (Suc ix)"
        using True rd ge ix by (simp add: union_loop.simps [of e1 "length A" e2 "length B" b] mem_write_1)
      moreover have "list_union (drop i1 A) (drop i2 B) = ?x # list_union (drop (Suc i1) A) (drop ?i2 B)"
        unfolding dA using ge dB by (cases "?x = ?y") simp_all
      ultimately show ?thesis unfolding tk by fastforce
    qed
  qed
qed

lemma union_elems_ok:
  assumes sA: "sorted_wrt (<) A" and sB: "sorted_wrt (<) B"
    and e1: "length A \<le> length e1" "\<And>i. i < length A \<Longrightarrow> e1 ! i = A ! i" "take (length A) e1 = A"
    and e2: "length B \<le> length e2" "\<And>i. i < length B \<Longrightarrow> e2 ! i = B ! i" "take (length B) e2 = B"
    and b: "length b = length A + length B"
  shows "array_holds (union_elems e1 (length A) e2 (length B) b) (length b) (set A \<union> set B)"
proof -
  let ?zs = "list_union A B"
  obtain b1 j1 j2 k where l: "union_loop e1 (length A) e2 (length B) b 0 0 0 = Some (b1, j1, j2, k)"
      "length b1 = length b" "j1 \<le> length A" "j2 \<le> length B" "k \<le> j1 + j2" "j1 = length A \<or> j2 = length B"
      "take k b1 @ drop j1 A @ drop j2 B = ?zs"
    using union_loop_ok [OF e1(1,2) e2(1,2), of 0 0 0 b] b by auto
  have dA: "take (length A - j1) (drop j1 e1) = drop j1 A" using e1(3) by (metis drop_take)
  have dB: "take (length B - j2) (drop j2 e2) = drop j2 B" using e2(3) by (metis drop_take)
  let ?rest = "drop j1 A @ drop j2 B"
  let ?b2 = "take k b1 @ ?rest @ drop (k + length ?rest) b1"
  have "length (take k b1 @ ?rest) = k + length ?rest" using l(2,3,4,5) b by simp
  then have len: "length ?zs = k + length ?rest" by (simp only: l(7))
  have "union_elems e1 (length A) e2 (length B) b = Some (?b2, length ?zs)"
  proof -
    consider (a) "j1 < length A" "j2 = length B" | (b) "j1 = length A" "j2 < length B"
      | (c) "j1 = length A" "j2 = length B" using l(3,4,6) by linarith
    then show ?thesis
    proof cases
      case a
      then show ?thesis using l(1,2,3,4,5) len dA e1(1) b
        by (simp add: union_elems_def elems_copy_def mem_write_def)
    next
      case b
      then show ?thesis using l(1,2,3,4,5) len dB e2(1) \<open>length b = length A + length B\<close>
        by (simp add: union_elems_def elems_copy_def mem_write_def)
    next
      case c
      then show ?thesis using l(1) len by (simp add: union_elems_def)
    qed
  qed
  moreover have eq: "?b2 = ?zs @ drop (k + length ?rest) b1" by (simp only: l(7) [symmetric] append_assoc)
  moreover have "take (length ?zs) ?b2 = ?zs" unfolding eq by simp
  moreover have "length ?b2 = length b" using l(2,3,4,5) b by simp
  moreover have "length ?zs \<le> length b" using length_list_union [of A B] b by simp
  ultimately show ?thesis
    using sorted_list_union [OF sA sB] by (intro array_holdsI [where b = ?b2 and zs = ?zs]) simp_all
qed

lemma node_set_init_union_ok:
  assumes s1: "set_rep src1 A" and s2: "set_rep src2 B"
  shows "holds os (node_set_init_union dest (Some src1) (Some src2) os) (set A \<union> set B)"
proof (cases "A = [] \<or> B = []")
  case True
  then show ?thesis
    using node_set_init_copy_ok [OF s1, of os] node_set_init_copy_ok [OF s2, of os] assms
    by (auto simp: node_set_init_union_def set_rep_nelem intro: holdsI [OF set_rep_empty])
next
  case False
  then have ne: "A \<noteq> []" "B \<noteq> []" by auto
  have n: "nelem src1 = length A" "nelem src2 = length B" using assms by (simp_all add: set_rep_nelem)
  obtain e1 where e1: "elems src1 = Some e1" "length A \<le> length e1" "\<And>i. i < length A \<Longrightarrow> e1 ! i = A ! i"
      "take (length A) e1 = A"
    using set_rep_elems [OF s1 ne(1)] by metis
  obtain e2 where e2: "elems src2 = Some e2" "length B \<le> length e2" "\<And>i. i < length B \<Longrightarrow> e2 ! i = B ! i"
      "take (length B) e2 = B"
    using set_rep_elems [OF s2 ne(2)] by metis
  let ?N = "length A + length B"
  show ?thesis
  proof (cases rule: re_malloc_cases [of os ?N])
    case fail
    then show ?thesis using n ne by (simp add: node_set_init_union_def holds_error)
  next
    case (ok os')
    have "array_holds (union_elems e1 (length A) e2 (length B) (replicate ?N idx_garbage)) ?N (set A \<union> set B)"
      using union_elems_ok [OF set_rep_sorted [OF s1] set_rep_sorted [OF s2] e1(2,3,4) e2(2,3,4), of "replicate ?N idx_garbage"]
      by simp
    from array_holds_set [of _ "dest\<lparr>set_alloc := ?N, elems := Some (replicate ?N idx_garbage)\<rparr>", simplified, OF this, of os os']
    show ?thesis using n ne ok e1(1) e2(1) by (simp add: node_set_init_union_def)
  qed
qed


subsection \<open>Comparison and search\<close>

lemma compare_loop_ok:
  "n \<le> length e1 \<Longrightarrow> n \<le> length e2 \<Longrightarrow> compare_loop e1 e2 n = Some (take n e1 = take n e2)"
proof (induction n)
  case (Suc n)
  then show ?case by (auto simp: mem_read_lt take_Suc_conv_app_nth)
qed simp

lemma node_set_compare_ok:
  assumes s1: "set_rep s1 A" and s2: "set_rep s2 B"
  shows "node_set_compare (Some s1) (Some s2) = Some (set A = set B)"
proof -
  have eq: "set A = set B \<longleftrightarrow> A = B"
    using strict_sorted_eq [OF set_rep_sorted [OF s1] set_rep_sorted [OF s2]] by auto
  have n: "nelem s1 = length A" "nelem s2 = length B" using assms by (simp_all add: set_rep_nelem)
  show ?thesis
  proof (cases "length A = length B \<and> A \<noteq> []")
    case False
    then have "A = B \<longleftrightarrow> length A = length B" by auto
    with False n show ?thesis by (auto simp: node_set_compare_def eq)
  next
    case True
    then have "B \<noteq> []" by auto
    obtain e1 where e1: "elems s1 = Some e1" "length A \<le> length e1" "take (length A) e1 = A"
      using set_rep_elems [OF s1] True by metis
    obtain e2 where e2: "elems s2 = Some e2" "length B \<le> length e2" "take (length B) e2 = B"
      using set_rep_elems [OF s2 \<open>B \<noteq> []\<close>] by metis
    have "compare_loop e1 e2 (length A) = Some (A = B)"
      using compare_loop_ok [of "length A" e1 e2] e1(2,3) e2(2,3) True by simp
    with True \<open>B \<noteq> []\<close> n e1(1) e2(1) show ?thesis by (simp add: node_set_compare_def eq)
  qed
qed

lemma contains_loop_ok:
  assumes "sorted_wrt (<) xs" and "length xs \<le> length b" and "\<And>i. i < length xs \<Longrightarrow> b ! i = xs ! i"
  shows "idx \<le> right \<Longrightarrow> right < length xs \<Longrightarrow>
    \<exists>k. contains_loop b elem idx right = Some k \<and> idx \<le> k \<and> k \<le> right
      \<and> (\<forall>i. idx \<le> i \<longrightarrow> i < k \<longrightarrow> xs ! i < elem) \<and> (\<forall>i. k < i \<longrightarrow> i \<le> right \<longrightarrow> elem < xs ! i)"
proof (induction "right - idx" arbitrary: idx right rule: less_induct)
  case less
  show ?case
  proof (cases "idx < right")
    case False
    with less.prems show ?thesis by (auto simp: contains_loop.simps [of b])
  next
    case True
    define mid where "mid = (idx + right) div 2"
    have mid: "idx \<le> mid" "mid < right" using True by (auto simp: mid_def)
    then have rd: "mem_read b mid = Some (xs ! mid)"
      using less.prems assms(2,3) by (simp add: mem_read_lt)
    have mono: "xs ! i \<le> xs ! j" if "i \<le> j" "j \<le> right" for i j
      using that less.prems(2) strict_sorted_nth_less [OF assms(1), of i j] by (cases "i = j") auto
    show ?thesis
    proof (cases "xs ! mid < elem")
      case lt: True
      obtain k where k: "contains_loop b elem (mid + 1) right = Some k" "mid + 1 \<le> k" "k \<le> right"
        "\<forall>i. mid + 1 \<le> i \<longrightarrow> i < k \<longrightarrow> xs ! i < elem" "\<forall>i. k < i \<longrightarrow> i \<le> right \<longrightarrow> elem < xs ! i"
        using less.hyps [of right "mid + 1"] mid less.prems diff_less_mono2 [of idx "mid + 1" right] by auto
      have "xs ! i < elem" if "i < k" for i
        using that lt mono [of i mid] mid k(4) by (cases "i \<le> mid") auto
      with k mid rd lt True show ?thesis
        by (simp add: contains_loop.simps [of b elem idx] flip: mid_def)
    next
      case ge: False
      obtain k where k: "contains_loop b elem idx mid = Some k" "idx \<le> k" "k \<le> mid"
        "\<forall>i. idx \<le> i \<longrightarrow> i < k \<longrightarrow> xs ! i < elem" "\<forall>i. k < i \<longrightarrow> i \<le> mid \<longrightarrow> elem < xs ! i"
        using less.hyps [of mid idx] mid less.prems diff_less_mono [of mid right idx] by auto
      have "elem < xs ! i" if "k < i" "i \<le> right" for i
      proof (cases "i \<le> mid")
        case False
        then have "xs ! mid < xs ! i"
          using that less.prems(2) by (intro strict_sorted_nth_less [OF assms(1)]) auto
        with ge show ?thesis by simp
      qed (use that k(5) in simp)
      with k mid rd ge True show ?thesis
        by (simp add: contains_loop.simps [of b elem idx] flip: mid_def)
    qed
  qed
qed

lemma node_set_contains_ok:
  assumes s: "set_rep s xs"
  obtains (absent) "x \<notin> set xs" and "node_set_contains s x = Some 0"
    | (present) i where "i < length xs" and "xs ! i = x" and "node_set_contains s x = Some (i + 1)"
proof (cases "xs = []")
  case True
  with s show thesis by (intro absent) (simp_all add: node_set_contains_def set_rep_nelem)
next
  case False
  obtain b where b: "elems s = Some b" "length xs \<le> length b" "\<And>i. i < length xs \<Longrightarrow> b ! i = xs ! i"
    using set_rep_elems [OF s False] by metis
  obtain k where k: "contains_loop b x 0 (length xs - 1) = Some k" "k \<le> length xs - 1"
      "\<forall>i. 0 \<le> i \<longrightarrow> i < k \<longrightarrow> xs ! i < x" "\<forall>i. k < i \<longrightarrow> i \<le> length xs - 1 \<longrightarrow> x < xs ! i"
    using contains_loop_ok [OF set_rep_sorted [OF s] b(2,3), of 0 "length xs - 1" x] False by auto
  have kl: "k < length xs" using k(2) False by (cases xs) auto
  have c: "node_set_contains s x = Some (if xs ! k = x then k + 1 else 0)"
    using False b kl k(1) set_rep_nelem [OF s] by (simp add: node_set_contains_def mem_read_lt)
  show thesis
  proof (cases "xs ! k = x")
    case True
    with c kl show thesis by (intro present) auto
  next
    case ne: False
    have "xs ! i \<noteq> x" if "i < length xs" for i
    proof -
      have "i \<le> length xs - 1" using that by linarith
      then show ?thesis using k(3,4) ne by (cases i k rule: linorder_cases) force+
    qed
    then have "x \<notin> set xs" by (auto simp: in_set_conv_nth)
    with c ne show thesis by (intro absent) auto
  qed
qed


subsection \<open>Insertion and removal of one element\<close>

lemma shift_all_ok:
  "idx < length b \<Longrightarrow> \<exists>b'. shift_all b idx = Some b' \<and> length b' = length b
    \<and> (\<forall>i. b' ! i = (if 0 < i \<and> i \<le> idx then b ! (i - 1) else b ! i))"
proof (induction idx arbitrary: b)
  case (Suc idx)
  let ?b = "b[Suc idx := b ! idx]"
  obtain b' where b': "shift_all ?b idx = Some b'" "length b' = length ?b"
      "\<And>i. b' ! i = (if 0 < i \<and> i \<le> idx then ?b ! (i - 1) else ?b ! i)"
    using Suc.IH [of ?b] Suc.prems by auto
  have "b' ! i = (if 0 < i \<and> i \<le> Suc idx then b ! (i - 1) else b ! i)" for i
    using b'(3) [of i] Suc.prems by (cases "i = Suc idx") (auto simp: nth_list_update not_le less_Suc_eq_le)
  with b'(1,2) Suc.prems show ?case by (auto simp: mem_read_lt mem_write_1)
qed simp

lemma shift_greater_ok:
  assumes "xs \<noteq> []" and "xs ! 0 \<le> elem"
  shows "0 < idx \<Longrightarrow> idx \<le> length xs \<Longrightarrow> length xs < length b \<Longrightarrow> (\<And>i. i < idx \<Longrightarrow> b ! i = xs ! i)
    \<Longrightarrow> \<exists>b' k. shift_greater b idx elem = Some (b', k) \<and> length b' = length b \<and> 0 < k \<and> k \<le> idx
      \<and> xs ! (k - 1) \<le> elem \<and> (\<forall>i. k \<le> i \<longrightarrow> i < idx \<longrightarrow> elem < xs ! i)
      \<and> (\<forall>i. b' ! i = (if k < i \<and> i \<le> idx then b ! (i - 1) else b ! i))"
proof (induction idx arbitrary: b)
  case (Suc n)
  have rd: "mem_read b n = Some (xs ! n)" using Suc.prems by (simp add: mem_read_lt)
  show ?case
  proof (cases "elem < xs ! n")
    case False
    with rd show ?thesis by (intro exI [of _ b] exI [of _ "Suc n"]) auto
  next
    case True
    then have "0 < n" using assms(2) by (cases n) auto
    let ?b = "b[Suc n := xs ! n]"
    have "?b ! i = xs ! i" if "i < n" for i using that Suc.prems(4) [of i] by simp
    then obtain b' k where k: "shift_greater ?b n elem = Some (b', k)" "length b' = length ?b" "0 < k" "k \<le> n"
        "xs ! (k - 1) \<le> elem" "\<And>i. k \<le> i \<Longrightarrow> i < n \<Longrightarrow> elem < xs ! i"
        "\<And>i. b' ! i = (if k < i \<and> i \<le> n then ?b ! (i - 1) else ?b ! i)"
      using Suc.IH [of ?b] Suc.prems(2,3) \<open>0 < n\<close> by auto
    have "b' ! i = (if k < i \<and> i \<le> Suc n then b ! (i - 1) else b ! i)" for i
      using k(4) k(7) [of i] Suc.prems(3,2) Suc.prems(4) [of n] by (auto simp: nth_list_update not_le less_Suc_eq_le)
    moreover have "elem < xs ! i" if "k \<le> i" "i < Suc n" for i
      using that k(6) True by (cases "i = n") auto
    ultimately show ?thesis using k(1-5) rd True Suc.prems(2,3)
      by (intro exI [of _ b'] exI [of _ k]) (simp add: mem_write_1)
  qed
qed simp

text \<open>The array after the shift and the write is the sorted insertion.\<close>

lemma insort_at:
  assumes xs: "sorted_wrt (<) xs" and k: "k \<le> length xs"
    and below: "\<And>i. i < k \<Longrightarrow> xs ! i < x" and above: "\<And>i. k \<le> i \<Longrightarrow> i < length xs \<Longrightarrow> x < xs ! i"
  shows "sorted_wrt (<) (take k xs @ x # drop k xs)"
proof -
  have "y < x" if "y \<in> set (take k xs)" for y using that below k by (auto simp: in_set_conv_nth)
  moreover have "x < y" if "y \<in> set (drop k xs)" for y
    using that above [of "k + i" for i] k by (auto simp: in_set_conv_nth)
  moreover have "sorted_wrt (<) (take k xs @ drop k xs)" using xs by simp
  ultimately show ?thesis unfolding sorted_wrt_append by auto
qed

lemma insert_region:
  assumes "k \<le> length xs" and "length xs < length b" and "length b' = length b" and "take (length xs) b = xs"
    and "\<And>i. b' ! i = (if k < i \<and> i \<le> length xs then b ! (i - 1) else b ! i)"
  shows "take (Suc (length xs)) (b'[k := x]) = take k xs @ x # drop k xs"
proof (rule nth_equalityI)
  fix i assume "i < length (take (Suc (length xs)) (b'[k := x]))"
  then have i: "i \<le> length xs" using assms by simp
  have xi: "b ! j = xs ! j" if "j < length xs" for j using that assms(4) by (metis nth_take)
  consider "i < k" | "i = k" | "k < i" by linarith
  then show "take (Suc (length xs)) (b'[k := x]) ! i = (take k xs @ x # drop k xs) ! i"
  proof cases
    case 3
    then have "b' ! i = xs ! (i - 1)" using i assms(5) [of i] xi [of "i - 1"] by auto
    moreover have "k + (i - k - 1) = i - 1" "i - k = Suc (i - k - 1)" using 3 by simp_all
    ultimately show ?thesis using 3 i assms(1,2,3) by (simp add: nth_append min_def)
  qed (use i assms(1,2,3) assms(5) [of i] xi [of i] in \<open>auto simp: nth_append\<close>)
qed (use assms in simp)

text \<open>The result of an operation that answers whether it succeeded.\<close>

definition holds_if :: "answers \<Rightarrow> (bool \<times> re_node_set \<times> answers) option \<Rightarrow> int set \<Rightarrow> bool" where
  "holds_if os r A \<longleftrightarrow> (\<exists>ok s os'. r = Some (ok, s, os') \<and>
     (\<not> ok \<and> \<not> fst (alloc os) \<or> ok \<and> (\<exists>zs. set_rep s zs \<and> set zs = A)))"

lemma holds_ifI: "set_rep s zs \<Longrightarrow> set zs = A \<Longrightarrow> holds_if os (Some (True, s, os')) A"
  unfolding holds_if_def by blast

lemma holds_if_fail: "\<not> fst (alloc os) \<Longrightarrow> holds_if os (Some (False, s, os')) A"
  unfolding holds_if_def by blast

lemma insert_array:
  assumes s: "sorted_wrt (<) xs" "x \<notin> set xs" "xs \<noteq> []"
    and b: "length xs < length b" "take (length xs) b = xs"
  shows "array_holds (insert_elems b (length xs) x) (length b) (insert x (set xs))"
proof -
  have xi: "b ! j = xs ! j" if "j < length xs" for j using that b(2) by (metis nth_take)
  have mono: "xs ! i \<le> xs ! j" if "i \<le> j" "j < length xs" for i j
    using that strict_sorted_nth_less [OF s(1), of i j] by (cases "i = j") auto
  have "0 < length b" using b(1) by linarith
  then have rd: "mem_read b 0 = Some (xs ! 0)" using xi [of 0] s(3) by (simp add: mem_read_lt)
  have finish: "array_holds (do { b \<leftarrow> mem_write b' k [x]; Some (b, length xs + 1) }) (length b) (insert x (set xs))"
    if k: "k \<le> length xs" "length b' = length b" "\<And>i. i < k \<Longrightarrow> xs ! i < x"
      "\<And>i. k \<le> i \<Longrightarrow> i < length xs \<Longrightarrow> x < xs ! i"
      "\<And>i. b' ! i = (if k < i \<and> i \<le> length xs then b ! (i - 1) else b ! i)" for b' k
  proof (rule array_holdsI [where zs = "take k xs @ x # drop k xs"])
    show "(do { b \<leftarrow> mem_write b' k [x]; Some (b, length xs + 1) })
        = Some (b'[k := x], length (take k xs @ x # drop k xs))"
      using k(1,2) b(1) by (simp add: mem_write_1)
    show "take (length (take k xs @ x # drop k xs)) (b'[k := x]) = take k xs @ x # drop k xs"
      using insert_region [OF k(1) b(1) k(2) b(2) k(5), of x] k(1) by simp
    show "sorted_wrt (<) (take k xs @ x # drop k xs)" using insort_at [OF s(1) k(1)] k(3,4) by simp
    show "set (take k xs @ x # drop k xs) = insert x (set xs)"
      by (metis append_take_drop_id list.simps(15) set_append Un_insert_right)
  qed (use k b(1) in simp_all)
  show ?thesis
  proof (cases "x < xs ! 0")
    case True
    obtain b' where b': "shift_all b (length xs) = Some b'" "length b' = length b"
        "\<And>i. b' ! i = (if 0 < i \<and> i \<le> length xs then b ! (i - 1) else b ! i)"
      using shift_all_ok [OF b(1)] by auto
    have "x < xs ! i" if "i < length xs" for i using True mono [of 0 i] that by simp
    with finish [of 0 b'] b' rd True show ?thesis by (simp add: insert_elems_def)
  next
    case False
    then obtain b' k where k: "shift_greater b (length xs) x = Some (b', k)" "length b' = length b"
        "0 < k" "k \<le> length xs" "xs ! (k - 1) \<le> x" "\<And>i. k \<le> i \<Longrightarrow> i < length xs \<Longrightarrow> x < xs ! i"
        "\<And>i. b' ! i = (if k < i \<and> i \<le> length xs then b ! (i - 1) else b ! i)"
      using shift_greater_ok [OF s(3), of x "length xs" b] b(1) xi s(3) by auto
    have "xs ! i < x" if "i < k" for i
    proof -
      have "xs ! i \<le> xs ! (k - 1)" using that k(3,4) by (intro mono) auto
      moreover have "xs ! i \<noteq> x" using that k(4) s(2) nth_mem [of i xs] by auto
      ultimately show ?thesis using k(5) by simp
    qed
    with finish [of k b'] k rd False show ?thesis by (simp add: insert_elems_def)
  qed
qed


lemma array_holds_if:
  assumes "array_holds r (set_alloc s) A"
  shows "holds_if os0 (do { (b, n) \<leftarrow> r; Some (True, s\<lparr>nelem := n, elems := Some b\<rparr>, os) }) A"
proof -
  obtain b zs where r: "r = Some (b, length zs)" "length b = set_alloc s" "length zs \<le> set_alloc s"
      "take (length zs) b = zs" "sorted_wrt (<) zs" "set zs = A"
    using assms unfolding array_holds_def by blast
  have "set_rep (s\<lparr>nelem := length zs, elems := Some b\<rparr>) zs" using r by (simp add: set_rep_def)
  with r show ?thesis by (auto intro: holds_ifI)
qed

lemma node_set_insert_ok:
  assumes s: "set_rep s xs" and x: "x \<notin> set xs"
  shows "holds_if os (node_set_insert s x os) (insert x (set xs))"
proof -
  have n: "nelem s = length xs" using s by (rule set_rep_nelem)
  consider (fresh) "set_alloc s = 0" | (empty) "set_alloc s \<noteq> 0" "xs = []"
    | (full) "set_alloc s \<noteq> 0" "xs \<noteq> []" "set_alloc s = length xs"
    | (room) "set_alloc s \<noteq> 0" "xs \<noteq> []" "set_alloc s \<noteq> length xs" by blast
  then show ?thesis
  proof cases
    case fresh
    then have xs: "xs = []" using s n by (simp add: set_rep_def)
    obtain e s' os' where r: "node_set_init_1 x os = Some (e, s', os')"
        "e = REG_ESPACE \<and> \<not> fst (alloc os) \<or> e = REG_NOERROR \<and> (\<exists>zs. set_rep s' zs \<and> set zs = {x})"
      using node_set_init_1_ok [of os x] unfolding holds_def by blast
    from fresh r(1) have "node_set_insert s x os = Some (e = REG_NOERROR, s', os')"
      by (simp add: node_set_insert_def)
    with r(2) xs show ?thesis by (auto simp: holds_if_def)
  next
    case empty
    then obtain b where b: "elems s = Some b" "length b = set_alloc s"
      using s by (cases "elems s") (auto simp: set_rep_def)
    have "0 < length b" using b(2) empty by simp
    then have "node_set_insert s x os = Some (True, s\<lparr>elems := Some (b[0 := x]), nelem := 1\<rparr>, os)"
      using empty b n by (simp add: node_set_insert_def mem_write_1)
    moreover have "set_rep (s\<lparr>elems := Some (b[0 := x]), nelem := 1\<rparr>) [x]"
      using b \<open>0 < length b\<close> by (cases b) (simp_all add: set_rep_def)
    ultimately show ?thesis using empty by (auto intro: holds_ifI)
  next
    case full
    obtain a os1 where a: "alloc os = (a, os1)" by force
    show ?thesis
    proof (cases a)
      case False
      with a full n show ?thesis by (simp add: node_set_insert_def re_realloc_def holds_if_fail)
    next
      case True
      obtain b where b: "re_realloc (elems s) (set_alloc s * 2) os = (Some b, os1)"
          "length b = set_alloc s * 2" "take (length xs) b = xs"
        by (rule re_realloc_ok [OF _ s, of os os1 "set_alloc s * 2"]) (use a True in auto)
      have "array_holds (insert_elems b (length xs) x) (set_alloc s * 2) (insert x (set xs))"
        using insert_array [OF set_rep_sorted [OF s] x full(2), of b] b full by simp
      from array_holds_if [of _ "s\<lparr>set_alloc := set_alloc s * 2, elems := Some b\<rparr>", simplified, OF this, of os os1]
      show ?thesis using full b(1) n by (simp add: node_set_insert_def Let_def)
    qed
  next
    case room
    obtain b where b: "elems s = Some b" "length b = set_alloc s" "take (length xs) b = xs" "length xs \<le> length b"
      using set_rep_elems [OF s room(2)] by metis
    have "array_holds (insert_elems b (length xs) x) (set_alloc s) (insert x (set xs))"
      using insert_array [OF set_rep_sorted [OF s] x room(2), of b] b room by simp
    from array_holds_if [OF this, of os os] show ?thesis
      using room b(1) n by (simp add: node_set_insert_def)
  qed
qed

lemma node_set_insert_last_ok:
  assumes s: "set_rep s xs" and x: "\<And>y. y \<in> set xs \<Longrightarrow> y < x"
  shows "holds_if os (node_set_insert_last s x os) (insert x (set xs))"
proof -
  have n: "nelem s = length xs" using s by (rule set_rep_nelem)
  have fill: "array_holds (do { b \<leftarrow> mem_write b (length xs) [x]; Some (b, length xs + 1) }) (length b) (insert x (set xs))"
    if b: "length xs < length b" "take (length xs) b = xs" for b
  proof (rule array_holdsI [where zs = "xs @ [x]"])
    show "(do { b \<leftarrow> mem_write b (length xs) [x]; Some (b, length xs + 1) })
        = Some (b[length xs := x], length (xs @ [x]))"
      using b(1) by (simp add: mem_write_1)
    show "take (length (xs @ [x])) (b[length xs := x]) = xs @ [x]"
      using b by (simp add: take_Suc_conv_app_nth)
    show "sorted_wrt (<) (xs @ [x])" using x set_rep_sorted [OF s] by (simp add: sorted_wrt_append)
  qed (use b in simp_all)
  show ?thesis
  proof (cases "set_alloc s = length xs")
    case True
    obtain a os1 where a: "alloc os = (a, os1)" by force
    show ?thesis
    proof (cases a)
      case False
      with a True n show ?thesis by (simp add: node_set_insert_last_def re_realloc_def holds_if_fail)
    next
      case t: True
      obtain b where b: "re_realloc (elems s) ((set_alloc s + 1) * 2) os = (Some b, os1)"
          "length b = (set_alloc s + 1) * 2" "take (length xs) b = xs"
        by (rule re_realloc_ok [OF _ s, of os os1 "(set_alloc s + 1) * 2"]) (use a t in auto)
      let ?s = "s\<lparr>set_alloc := (set_alloc s + 1) * 2, elems := Some b\<rparr>"
      have "length xs < length b" using b(2) True by simp
      from fill [OF this b(3)] have "holds_if os (do { (b, n) \<leftarrow> (do { b \<leftarrow> mem_write b (length xs) [x]; Some (b, length xs + 1) });
                Some (True, ?s\<lparr>nelem := n, elems := Some b\<rparr>, os1) }) (insert x (set xs))"
        using b(2) by (intro array_holds_if) simp
      then show ?thesis using True t a b(1) n by (simp add: node_set_insert_last_def Let_def)
    qed
  next
    case False
    then have r: "length xs < set_alloc s" using s n by (auto simp: set_rep_def)
    then obtain b where b: "elems s = Some b" "length b = set_alloc s" "take (length xs) b = xs"
      using s n by (cases "elems s") (auto simp: set_rep_def)
    have "array_holds (do { b \<leftarrow> mem_write b (length xs) [x]; Some (b, length xs + 1) }) (set_alloc s) (insert x (set xs))"
      using fill [of b] b r by simp
    from array_holds_if [OF this, of os os] show ?thesis
      using False n b(1) by (simp add: node_set_insert_last_def)
  qed
qed

lemma remove_loop_ok:
  "idx \<le> n \<Longrightarrow> n < length b \<Longrightarrow> \<exists>b'. remove_loop b idx n = Some b' \<and> length b' = length b
    \<and> (\<forall>i. b' ! i = (if idx \<le> i \<and> i < n then b ! (i + 1) else b ! i))"
proof (induction "n - idx" arbitrary: idx b rule: less_induct)
  case less
  show ?case
  proof (cases "idx < n")
    case False
    with less.prems show ?thesis by (simp add: remove_loop.simps [of b])
  next
    case True
    let ?b = "b[idx := b ! (idx + 1)]"
    have "\<exists>b'. remove_loop ?b (idx + 1) n = Some b' \<and> length b' = length ?b
        \<and> (\<forall>i. b' ! i = (if idx + 1 \<le> i \<and> i < n then ?b ! (i + 1) else ?b ! i))"
      using True less.prems by (intro less.hyps) auto
    then obtain b' where b': "remove_loop ?b (idx + 1) n = Some b'" "length b' = length ?b"
        "\<And>i. b' ! i = (if idx + 1 \<le> i \<and> i < n then ?b ! (i + 1) else ?b ! i)" by auto
    have "b' ! i = (if idx \<le> i \<and> i < n then b ! (i + 1) else b ! i)" for i
      using b'(3) [of i] True less.prems by (cases "i = idx") (auto simp: nth_list_update)
    with b'(1,2) True less.prems show ?thesis
      by (simp add: remove_loop.simps [of b idx] mem_read_lt mem_write_1)
  qed
qed

lemma node_set_remove_at_ok:
  assumes s: "set_rep s xs" and i: "i < length xs"
  shows "\<exists>s'. node_set_remove_at s (int i) = Some s' \<and> set_rep s' (take i xs @ drop (Suc i) xs)"
proof -
  have n: "nelem s = length xs" using s by (rule set_rep_nelem)
  have "xs \<noteq> []" using i by auto
  then obtain b where b: "elems s = Some b" "length b = set_alloc s" "length xs \<le> length b"
      "\<And>j. j < length xs \<Longrightarrow> b ! j = xs ! j"
    using set_rep_elems [OF s] by metis
  have le: "i \<le> length xs - 1" "length xs - 1 < length b" using i b(3) by auto
  obtain b' where b': "remove_loop b i (length xs - 1) = Some b'" "length b' = length b"
      "\<And>j. b' ! j = (if i \<le> j \<and> j < length xs - 1 then b ! (j + 1) else b ! j)"
    using remove_loop_ok [OF le] by auto
  let ?zs = "take i xs @ drop (Suc i) xs"
  have len: "length ?zs = length xs - 1" using i by simp
  have "take (length ?zs) b' = ?zs"
  proof (rule take_eqI)
    show "length ?zs \<le> length b'" using len b(3) b'(2) by linarith
    fix j assume "j < length ?zs"
    then have j: "j < length xs - 1" using len by simp
    show "b' ! j = ?zs ! j"
    proof (cases "j < i")
      case False
      with j have "b' ! j = xs ! (j + 1)" using b'(3) [of j] b(4) [of "j + 1"] by simp
      moreover have "Suc i + (j - i) = j + 1" using False by simp
      ultimately show ?thesis using False j i by (simp add: nth_append min_def)
    qed (use j b(4) [of j] b'(3) [of j] i in \<open>simp add: nth_append\<close>)
  qed
  moreover have "sorted_wrt (<) ?zs"
    using set_rep_sorted [OF s] by (auto simp: sorted_wrt_append sorted_wrt_take sorted_wrt_drop
      strict_sorted_nth_less in_set_conv_nth)
  ultimately have "set_rep (s\<lparr>nelem := length xs - 1, elems := Some b'\<rparr>) ?zs"
    using b'(2) b(2,3) len unfolding set_rep_def by simp
  then show ?thesis using i n b(1) b'(1) by (simp add: node_set_remove_at_def)
qed

lemma node_set_remove_ok:
  assumes s: "set_rep s xs"
  shows "\<exists>s' zs. node_set_remove s x = Some s' \<and> set_rep s' zs \<and> set zs = set xs - {x}"
proof (cases rule: node_set_contains_ok [OF s, of x])
  case 1
  have "node_set_remove s x = Some s"
    using 1 by (simp add: node_set_remove_def node_set_remove_at_def)
  with s 1 show ?thesis by auto
next
  case (2 i)
  obtain s' where s': "node_set_remove_at s (int i) = Some s'" "set_rep s' (take i xs @ drop (Suc i) xs)"
    using node_set_remove_at_ok [OF s 2(1)] by auto
  have "distinct xs" using set_rep_sorted [OF s] by (simp add: strict_sorted_iff)
  moreover have xs: "xs = take i xs @ x # drop (Suc i) xs" using 2(1,2) id_take_nth_drop by metis
  ultimately have "x \<notin> set (take i xs @ drop (Suc i) xs)" by (metis distinct.simps(2) distinct_append
      not_distinct_conv_prefix append.assoc disjoint_iff list.set_intros(1) set_append Un_iff)
  moreover have "set xs = insert x (set (take i xs @ drop (Suc i) xs))"
    by (subst xs) auto
  ultimately have "set (take i xs @ drop (Suc i) xs) = set xs - {x}" by auto
  moreover have "node_set_remove s x = Some s'"
    using s'(1) 2(3) by (simp add: node_set_remove_def)
  ultimately show ?thesis using s'(2) by blast
qed


section \<open>The contract of a set that grows one element at a time\<close>

text \<open>
  Most callers ask whether a node is in the set and insert it when it is not. \<open>add_all\<close> does
  so for a list of nodes, over any representation; it stops at the first insertion that fails.
\<close>

fun add_all :: "('s \<Rightarrow> int \<Rightarrow> nat option) \<Rightarrow> ('s \<Rightarrow> int \<Rightarrow> answers \<Rightarrow> (bool \<times> 's \<times> answers) option)
    \<Rightarrow> 's \<Rightarrow> int list \<Rightarrow> answers \<Rightarrow> (bool \<times> 's \<times> answers) option" where
  "add_all has ins s [] os = Some (True, s, os)"
| "add_all has ins s (x # xs) os =
     do { k \<leftarrow> has s x;
          if k \<noteq> 0 then add_all has ins s xs os
          else do { (ok, s, os) \<leftarrow> ins s x os; if ok then add_all has ins s xs os else Some (False, s, os) } }"

lemma alloc_refused: "\<not> fst (alloc os) \<Longrightarrow> False \<in> set os"
  by (cases os) auto

lemma alloc_rest: "alloc os = (ok, os') \<Longrightarrow> set os' \<subseteq> set os"
  by (cases os) auto

lemma node_set_insert_answers:
  "node_set_insert s x os = Some (ok, s', os') \<Longrightarrow> set os' \<subseteq> set os"
proof -
  obtain a os1 where a: "alloc os = (a, os1)" by force
  show "node_set_insert s x os = Some (ok, s', os') \<Longrightarrow> set os' \<subseteq> set os"
    using alloc_rest [OF a]
    by (auto simp: node_set_insert_def node_set_init_1_def re_malloc_def re_realloc_def Let_def a
        split: if_splits Option.bind_splits option.splits)
qed

locale number_set =
  fixes rep :: "'s \<Rightarrow> int set \<Rightarrow> bool"
    and has :: "'s \<Rightarrow> int \<Rightarrow> nat option"
    and ins :: "'s \<Rightarrow> int \<Rightarrow> answers \<Rightarrow> (bool \<times> 's \<times> answers) option"
    and del :: "'s \<Rightarrow> int \<Rightarrow> 's option"
  assumes ins_answers: "ins s x os = Some (ok, s', os') \<Longrightarrow> set os' \<subseteq> set os"
    and has_rep: "rep s A \<Longrightarrow> \<exists>k. has s x = Some k \<and> (k \<noteq> 0 \<longleftrightarrow> x \<in> A)"
    and ins_rep: "rep s A \<Longrightarrow> x \<notin> A \<Longrightarrow> \<exists>ok s' os'. ins s x os = Some (ok, s', os')
      \<and> (ok \<or> \<not> fst (alloc os)) \<and> (ok \<longrightarrow> rep s' (insert x A))"
    and del_rep: "rep s A \<Longrightarrow> \<exists>s'. del s x = Some s' \<and> rep s' (A - {x})"
begin

lemma add_all_rep:
  "rep s A \<Longrightarrow> \<exists>ok s' os'. add_all has ins s xs os = Some (ok, s', os') \<and> (ok \<or> False \<in> set os)
     \<and> (ok \<longrightarrow> rep s' (A \<union> set xs))"
proof (induction xs arbitrary: s A os)
  case (Cons x xs)
  obtain k where k: "has s x = Some k" "k \<noteq> 0 \<longleftrightarrow> x \<in> A" using has_rep [OF Cons.prems] by auto
  show ?case
  proof (cases "x \<in> A")
    case True
    with k Cons.IH [OF Cons.prems, of os] show ?thesis by (simp add: insert_absorb)
  next
    case False
    obtain ok s' os' where i: "ins s x os = Some (ok, s', os')" "ok \<or> \<not> fst (alloc os)"
        "ok \<longrightarrow> rep s' (insert x A)"
      using ins_rep [OF Cons.prems False, of os] by auto
    have "ok \<or> False \<in> set os" using i(2) alloc_refused by blast
    moreover have "set os' \<subseteq> set os" by (rule ins_answers [OF i(1)])
    ultimately show ?thesis using i k False Cons.IH [of s' "insert x A" os'] by (cases ok) auto
  qed
qed auto

lemma del_has: "rep s A \<Longrightarrow> del s x = Some s' \<Longrightarrow> has s' x = Some 0"
  using del_rep [of s A x] has_rep [of s' "A - {x}" x] by auto

end

text \<open>Sorted arrays of node numbers keep the contract.\<close>

definition represents :: "re_node_set \<Rightarrow> int set \<Rightarrow> bool" where
  "represents s A \<longleftrightarrow> (\<exists>xs. set_rep s xs \<and> set xs = A)"

interpretation ns: number_set represents node_set_contains node_set_insert node_set_remove
proof unfold_locales
  show "node_set_insert s x os = Some (ok, s', os') \<Longrightarrow> set os' \<subseteq> set os" for s x os ok s' os'
    by (rule node_set_insert_answers)
next
  fix s A x
  assume "represents s A"
  then obtain xs where xs: "set_rep s xs" "set xs = A" by (auto simp: represents_def)
  show "\<exists>k. node_set_contains s x = Some k \<and> (k \<noteq> 0 \<longleftrightarrow> x \<in> A)"
    by (cases rule: node_set_contains_ok [OF xs(1), of x]) (use xs in auto)
  show "\<exists>s'. node_set_remove s x = Some s' \<and> represents s' (A - {x})"
    using node_set_remove_ok [OF xs(1), of x] xs(2) by (auto simp: represents_def)
next
  fix s A x os
  assume "represents s A" "x \<notin> A"
  then obtain xs where xs: "set_rep s xs" "set xs = A" by (auto simp: represents_def)
  with \<open>x \<notin> A\<close> have "holds_if os (node_set_insert s x os) (insert x A)"
    using node_set_insert_ok [OF xs(1), of x os] by simp
  then show "\<exists>ok s' os'. node_set_insert s x os = Some (ok, s', os')
      \<and> (ok \<or> \<not> fst (alloc os)) \<and> (ok \<longrightarrow> represents s' (insert x A))"
    by (auto simp: holds_if_def represents_def)
qed

section \<open>Properties\<close>

text \<open>C19: \<open>re_node_set_merge\<close> makes the destination the union of the two sets, sorted and without
  duplicates, in its own array, whatever room it had; it fails only when the array has to grow and the
  allocation is refused. No access leaves the array.\<close>

theorem merge_is_union:
  assumes "set_rep dest D" and "set_rep src S"
  shows "holds os (node_set_merge dest (Some src) os) (set D \<union> set S)"
  by (rule node_set_merge_ok [OF assms])

definition example_set :: "int list \<Rightarrow> re_node_set" where
  "example_set xs = \<lparr>set_alloc = length xs, nelem = length xs, elems = Some xs\<rparr>"

lemma set_rep_example: "sorted_wrt (<) xs \<Longrightarrow> set_rep (example_set xs) xs"
  by (simp add: example_set_def set_rep_def)

theorem merge_is_union_witness:
  "holds [] (node_set_merge (example_set [1, 4, 7]) (Some (example_set [2, 4, 9])) []) {1, 2, 4, 7, 9}"
  using merge_is_union [of "example_set [1, 4, 7]" "[1, 4, 7]" "example_set [2, 4, 9]" "[2, 4, 9]" "[]"]
  by (simp add: set_rep_example insert_commute)

text \<open>\<open>re_node_set_add_intersect\<close> adds to the destination exactly the elements the two sources have in
  common, keeping it sorted and without duplicates.\<close>

theorem add_intersect_adds_common:
  assumes "set_rep dest D" and "set_rep src1 A" and "set_rep src2 B"
  shows "holds os (node_set_add_intersect dest src1 src2 os) (set D \<union> (set A \<inter> set B))"
  by (rule node_set_add_intersect_ok [OF assms])

theorem add_intersect_adds_common_witness:
  "holds [] (node_set_add_intersect (example_set [3]) (example_set [1, 4, 7]) (example_set [4, 7, 9]) []) {3, 4, 7}"
proof -
  have "{3} \<union> ({1, 4, 7} \<inter> {4, 7, 9}) = {3, 4, 7 :: int}" by auto
  then show ?thesis
    using add_intersect_adds_common [of "example_set [3]" "[3]" "example_set [1, 4, 7]" "[1, 4, 7]"
        "example_set [4, 7, 9]" "[4, 7, 9]" "[]"]
    by (simp add: set_rep_example)
qed

text \<open>\<open>re_node_set_init_union\<close> builds the union of two sets in one merging pass, whatever the destination
  held before.\<close>

theorem init_union_is_union:
  assumes "set_rep src1 A" and "set_rep src2 B"
  shows "holds os (node_set_init_union dest (Some src1) (Some src2) os) (set A \<union> set B)"
  by (rule node_set_init_union_ok [OF assms])

theorem init_union_is_union_witness:
  "holds [] (node_set_init_union init_empty (Some (example_set [1, 4])) (Some (example_set [2, 4])) []) {1, 2, 4}"
  using init_union_is_union [of "example_set [1, 4]" "[1, 4]" "example_set [2, 4]" "[2, 4]" "[]" init_empty]
  by (simp add: set_rep_example insert_commute)

text \<open>C20: inserting nodes one by one, each only when the binary search of \<open>re_node_set_contains\<close> does not find
  it, starting from any set, ends without leaving the array, and no insertion fails unless an allocation is refused; the search
  then finds exactly the old and the new nodes, and a node taken out by \<open>re_node_set_remove\<close> is no longer
  found.\<close>

theorem insert_search_remove:
  assumes "represents s A"
  shows "\<exists>ok s' os'. add_all node_set_contains node_set_insert s xs os = Some (ok, s', os') \<and>
    (False \<in> set os \<or> ok) \<and> (ok \<longrightarrow> (\<forall>x. (\<exists>k. node_set_contains s' x = Some k \<and> (k \<noteq> 0 \<longleftrightarrow> x \<in> A \<union> set xs))
      \<and> (\<exists>t. node_set_remove s' x = Some t \<and> node_set_contains t x = Some 0)))"
proof -
  obtain ok s' os' where r: "add_all node_set_contains node_set_insert s xs os = Some (ok, s', os')"
      "False \<in> set os \<or> ok" "ok \<longrightarrow> represents s' (A \<union> set xs)"
    using ns.add_all_rep [OF assms] by meson
  have "\<exists>t. node_set_remove s' x = Some t \<and> node_set_contains t x = Some 0" if ok for x
    using that r(3) ns.del_rep [of s' "A \<union> set xs" x] ns.del_has [of s' "A \<union> set xs" x] by auto
  with r ns.has_rep [of s' "A \<union> set xs"] show ?thesis by auto
qed

theorem insert_search_remove_witness:
  "\<exists>ok s' os'. add_all node_set_contains node_set_insert init_empty [5, 2, 5] [] = Some (ok, s', os') \<and>
    ok \<and> (ok \<longrightarrow> (\<forall>x. (\<exists>k. node_set_contains s' x = Some k \<and> (k \<noteq> 0 \<longleftrightarrow> x \<in> {5, 2}))
      \<and> (\<exists>t. node_set_remove s' x = Some t \<and> node_set_contains t x = Some 0)))"
proof -
  have "represents init_empty {}" using set_rep_empty by (auto simp: represents_def)
  from insert_search_remove [OF this, of "[5, 2, 5]" "[]"] show ?thesis by (simp add: insert_commute)
qed

end
