(* ===== verification/StateTable.thy ===== *)
theory StateTable
  imports NodeSet "HOL-Library.Sublist"
begin

text \<open>
  The nodes and the state table of a DFA, from src/src/regex/regex_internal.c: adding a node, and the cache that
  maps a set of nodes (and a context) to its state. States are never moved or freed once they are in
  the table, so a pointer to a state is its number in \<open>heap\<close>, the list of the states in the order of
  their creation; the buckets of the table hold these numbers. The transition tables of a state, which the
  matcher fills in later, are not part of the record.
\<close>

unbundle bit_operations_syntax

section \<open>Nodes\<close>

datatype re_token_type = NON_TYPE | CHARACTER | END_OF_RE | SIMPLE_BRACKET | OP_BACK_REF | OP_PERIOD
  | COMPLEX_BRACKET | OP_UTF8_PERIOD | OP_OPEN_SUBEXP | OP_CLOSE_SUBEXP | OP_ALT | OP_DUP_ASTERISK
  | ANCHOR | CONCAT | SUBEXP | OP_DUP_PLUS | OP_DUP_QUESTION | OP_OPEN_BRACKET | OP_CLOSE_BRACKET
  | OP_CHARSET_RANGE | OP_OPEN_DUP_NUM | OP_CLOSE_DUP_NUM | OP_NON_MATCH_LIST | OP_OPEN_COLL_ELEM
  | OP_CLOSE_COLL_ELEM | OP_OPEN_EQUIV_CLASS | OP_CLOSE_EQUIV_CLASS | OP_OPEN_CHAR_CLASS
  | OP_CLOSE_CHAR_CLASS | OP_WORD | OP_NOTWORD | OP_SPACE | OP_NOTSPACE | BACK_SLASH

text \<open>The number of a type: the enumeration gives the numbers of the first ones, then counts on.\<close>

fun type_number :: "re_token_type \<Rightarrow> nat" where
  "type_number NON_TYPE = 0" | "type_number CHARACTER = 1" | "type_number END_OF_RE = 2"
| "type_number SIMPLE_BRACKET = 3" | "type_number OP_BACK_REF = 4" | "type_number OP_PERIOD = 5"
| "type_number COMPLEX_BRACKET = 6" | "type_number OP_UTF8_PERIOD = 7" | "type_number OP_OPEN_SUBEXP = 8"
| "type_number OP_CLOSE_SUBEXP = 9" | "type_number OP_ALT = 10" | "type_number OP_DUP_ASTERISK = 11"
| "type_number ANCHOR = 12" | "type_number CONCAT = 16" | "type_number SUBEXP = 17"
| "type_number OP_DUP_PLUS = 18" | "type_number OP_DUP_QUESTION = 19" | "type_number OP_OPEN_BRACKET = 20"
| "type_number OP_CLOSE_BRACKET = 21" | "type_number OP_CHARSET_RANGE = 22" | "type_number OP_OPEN_DUP_NUM = 23"
| "type_number OP_CLOSE_DUP_NUM = 24" | "type_number OP_NON_MATCH_LIST = 25" | "type_number OP_OPEN_COLL_ELEM = 26"
| "type_number OP_CLOSE_COLL_ELEM = 27" | "type_number OP_OPEN_EQUIV_CLASS = 28"
| "type_number OP_CLOSE_EQUIV_CLASS = 29" | "type_number OP_OPEN_CHAR_CLASS = 30"
| "type_number OP_CLOSE_CHAR_CLASS = 31" | "type_number OP_WORD = 32" | "type_number OP_NOTWORD = 33"
| "type_number OP_SPACE = 34" | "type_number OP_NOTSPACE = 35" | "type_number BACK_SLASH = 36"

text \<open>The types are ordered as their numbers.\<close>

lemma type_number_inject [simp]: "type_number t = type_number u \<longleftrightarrow> t = u"
  by (cases t; cases u) simp_all

instantiation re_token_type :: linorder
begin

definition less_eq_re_token_type :: "re_token_type \<Rightarrow> re_token_type \<Rightarrow> bool" where
  "less_eq_re_token_type t u \<longleftrightarrow> type_number t \<le> type_number u"

definition less_re_token_type :: "re_token_type \<Rightarrow> re_token_type \<Rightarrow> bool" where
  "less_re_token_type t u \<longleftrightarrow> type_number t < type_number u"

instance
  by standard (auto simp: less_eq_re_token_type_def less_re_token_type_def)

end

definition IS_EPSILON_NODE :: "re_token_type \<Rightarrow> bool" where
  "IS_EPSILON_NODE t \<longleftrightarrow> type_number t AND 8 \<noteq> 0"

datatype token_opr = Char_opr "8 word" | Sbcset "64 word list" | Mbcset nat | Idx_opr int | Ctx_type "32 word"

record re_token =
  opr :: token_opr
  tok_type :: re_token_type
  constraint :: "10 word"
  duplicated :: bool
  opt_subexp :: bool
  tok_accept_mb :: bool
  mb_partial :: bool
  word_char :: bool

text \<open>\<open>NOT_SATISFY_PREV_CONSTRAINT\<close> and \<open>NOT_SATISFY_NEXT_CONSTRAINT\<close>; the constraint bits are
  word 1, not-word 2, newline 16 and begin-of-buffer 64 before, word 4, not-word 8, newline 32 and
  end-of-buffer 128 after; the context bits word 1, newline 2, begin 4, end 8.\<close>

definition NOT_SATISFY_PREV_CONSTRAINT :: "10 word \<Rightarrow> 32 word \<Rightarrow> bool" where
  "NOT_SATISFY_PREV_CONSTRAINT c ctx \<longleftrightarrow>
     (c AND 1 \<noteq> 0 \<and> ctx AND 1 = 0) \<or> (c AND 2 \<noteq> 0 \<and> ctx AND 1 \<noteq> 0)
     \<or> (c AND 16 \<noteq> 0 \<and> ctx AND 2 = 0) \<or> (c AND 64 \<noteq> 0 \<and> ctx AND 4 = 0)"

definition NOT_SATISFY_NEXT_CONSTRAINT :: "10 word \<Rightarrow> 32 word \<Rightarrow> bool" where
  "NOT_SATISFY_NEXT_CONSTRAINT c ctx \<longleftrightarrow>
     (c AND 4 \<noteq> 0 \<and> ctx AND 1 = 0) \<or> (c AND 8 \<noteq> 0 \<and> ctx AND 1 \<noteq> 0)
     \<or> (c AND 32 \<noteq> 0 \<and> ctx AND 2 = 0) \<or> (c AND 128 \<noteq> 0 \<and> ctx AND 8 = 0)"

section \<open>States and the state table\<close>

text \<open>The context of a state is a field of four bits. \<open>entrance_nodes\<close> points to the state's own \<open>nodes\<close>, or to a set of its own.\<close>

datatype entrance = Own_nodes | Separate re_node_set

record re_dfastate =
  hash :: "32 word"
  nodes :: re_node_set
  non_eps_nodes :: re_node_set
  inveclosure :: re_node_set
  entrance_nodes :: entrance
  ctx :: "32 word"
  halt :: bool
  accept_mb :: bool
  has_backref :: bool
  has_constraint :: bool

record state_table_entry =
  num :: nat
  arr_alloc :: nat
  arr :: "nat list"

text \<open>An array of the node table: the live block, or a block that has been freed.\<close>

datatype 'a block = Live "'a list" | Freed

record re_dfa =
  dfa_nodes :: "re_token block"
  nodes_alloc :: nat
  nodes_len :: nat
  nexts :: "int block"
  org_indices :: "int block"
  edests :: "re_node_set block"
  eclosures :: "re_node_set block"
  state_table :: "state_table_entry list"
  state_hash_mask :: "32 word"
  mb_cur_max :: nat
  heap :: "re_dfastate list"

fun live :: "'a block \<Rightarrow> 'a list option" where
  "live (Live b) = Some b"
| "live Freed = None"

definition calloc_state :: re_dfastate where
  "calloc_state = \<lparr>hash = 0, nodes = init_empty, non_eps_nodes = init_empty, inveclosure = init_empty,
     entrance_nodes = Own_nodes, ctx = 0, halt = False, accept_mb = False, has_backref = False,
     has_constraint = False\<rparr>"

definition node_at :: "re_dfa \<Rightarrow> int \<Rightarrow> re_token option" where
  "node_at dfa i = (if i < 0 then None else do { b \<leftarrow> live (dfa_nodes dfa); mem_read b (nat i) })"

text \<open>\<open>realloc\<close> of an array of the node table. When it succeeds the old block has been freed; when it
  does not the old block is as it was. Reallocating or freeing a freed block is undefined.\<close>

definition realloc_block :: "'a \<Rightarrow> 'a block \<Rightarrow> nat \<Rightarrow> answers \<Rightarrow> ('a block option \<times> 'a block \<times> answers) option" where
  "realloc_block x b n os =
     do { xs \<leftarrow> live b;
          let (ok, os) = alloc os
          in Some (if ok then (Some (Live (take n xs @ replicate (n - length xs) x)), Freed, os)
                   else (None, b, os)) }"

definition node_garbage :: re_token where
  "node_garbage = \<lparr>opr = Idx_opr 0, tok_type = NON_TYPE, constraint = 0, duplicated = False, opt_subexp = False,
     tok_accept_mb = False, mb_partial = False, word_char = False\<rparr>"

abbreviation idx_max :: nat where "idx_max \<equiv> 2147483647"

text \<open>The part of \<open>re_dfa_add_node\<close> that enlarges the five arrays. On failure the blocks that were
  reallocated are freed, while the DFA keeps its pointers to the old ones.\<close>

definition enlarge_nodes :: "re_dfa \<Rightarrow> answers \<Rightarrow> (bool \<times> re_dfa \<times> answers) option" where
  "enlarge_nodes dfa os =
     (let n = (nodes_alloc dfa * 2) mod 2 ^ 64
      in if min idx_max (18446744073709551615 div 16) < n then Some (False, dfa, os)
         else
           do { (b1, o1, os) \<leftarrow> realloc_block node_garbage (dfa_nodes dfa) n os;
                (case b1 of
                   None \<Rightarrow> Some (False, dfa, os)
                 | Some b1 \<Rightarrow>
                     do { let dfa = dfa\<lparr>dfa_nodes := b1\<rparr>;
                          (b2, o2, os) \<leftarrow> realloc_block idx_garbage (nexts dfa) n os;
                          (b3, o3, os) \<leftarrow> realloc_block idx_garbage (org_indices dfa) n os;
                          (b4, o4, os) \<leftarrow> realloc_block init_empty (edests dfa) n os;
                          (b5, o5, os) \<leftarrow> realloc_block init_empty (eclosures dfa) n os;
                          (case (b2, b3, b4, b5) of
                             (Some b2, Some b3, Some b4, Some b5) \<Rightarrow>
                               Some (True, dfa\<lparr>nexts := b2, org_indices := b3, edests := b4, eclosures := b5,
                                               nodes_alloc := n\<rparr>, os)
                           | _ \<Rightarrow>
                               Some (False, dfa\<lparr>nexts := o2, org_indices := o3, edests := o4, eclosures := o5\<rparr>, os)) }) })"

definition write_block :: "'a block \<Rightarrow> nat \<Rightarrow> 'a \<Rightarrow> 'a block option" where
  "write_block b i x = do { xs \<leftarrow> live b; xs \<leftarrow> mem_write xs i [x]; Some (Live xs) }"

definition new_token :: "re_dfa \<Rightarrow> re_token \<Rightarrow> re_token" where
  "new_token dfa t = t\<lparr>constraint := 0,
     tok_accept_mb := (tok_type t = OP_PERIOD \<and> 1 < mb_cur_max dfa) \<or> tok_type t = COMPLEX_BRACKET\<rparr>"

definition store_node :: "re_dfa \<Rightarrow> re_token \<Rightarrow> (int \<times> re_dfa) option" where
  "store_node dfa t =
     do { let n = nodes_len dfa;
          b1 \<leftarrow> write_block (dfa_nodes dfa) n (new_token dfa t);
          b2 \<leftarrow> write_block (nexts dfa) n (-1);
          b4 \<leftarrow> write_block (edests dfa) n init_empty;
          b5 \<leftarrow> write_block (eclosures dfa) n init_empty;
          Some (int n, dfa\<lparr>dfa_nodes := b1, nexts := b2, edests := b4, eclosures := b5, nodes_len := n + 1\<rparr>) }"

definition re_dfa_add_node :: "re_dfa \<Rightarrow> re_token \<Rightarrow> answers \<Rightarrow> (int \<times> re_dfa \<times> answers) option" where
  "re_dfa_add_node dfa t os =
     do { (ok, dfa, os) \<leftarrow> (if nodes_alloc dfa \<le> nodes_len dfa then enlarge_nodes dfa os else Some (True, dfa, os));
          if \<not> ok then Some (-1, dfa, os)
          else do { (i, dfa) \<leftarrow> store_node dfa t; Some (i, dfa, os) } }"

text \<open>The release of the node arrays in \<open>free_dfa_content\<close>: it reads the sets of every node, then frees
  the arrays; \<open>None\<close> when it would use or free a freed block.\<close>

fun read_all :: "'a list \<Rightarrow> nat \<Rightarrow> unit option" where
  "read_all xs 0 = Some ()"
| "read_all xs (Suc n) = do { x \<leftarrow> mem_read xs n; read_all xs n }"

definition free_node_arrays :: "re_dfa \<Rightarrow> unit option" where
  "free_node_arrays dfa =
     do { ts \<leftarrow> live (dfa_nodes dfa); read_all ts (nodes_len dfa);
          ns \<leftarrow> live (nexts dfa);
          ecs \<leftarrow> live (eclosures dfa); read_all ecs (nodes_len dfa);
          eds \<leftarrow> live (edests dfa); read_all eds (nodes_len dfa);
          Some () }"

text \<open>What \<open>re_compile_internal\<close> releases of them when it fails: \<open>org_indices\<close> in \<open>free_workarea_compile\<close>, then the others.\<close>

definition free_after_error :: "re_dfa \<Rightarrow> unit option" where
  "free_after_error dfa = do { ois \<leftarrow> live (org_indices dfa); free_node_arrays dfa }"

lemma read_all_some: "n \<le> length xs \<Longrightarrow> read_all xs n = Some ()"
  by (induction n) (simp_all add: mem_read_def)

fun sum_elems :: "int list \<Rightarrow> nat \<Rightarrow> nat \<Rightarrow> 32 word \<Rightarrow> 32 word option" where
  "sum_elems b i 0 h = Some h"
| "sum_elems b i (Suc n) h = do { x \<leftarrow> mem_read b i; sum_elems b (Suc i) n (h + word_of_int x) }"

definition calc_state_hash :: "re_node_set \<Rightarrow> 32 word \<Rightarrow> 32 word option" where
  "calc_state_hash ns context =
     (let h = word_of_nat (nelem ns) + context
      in if nelem ns = 0 then Some h else do { b \<leftarrow> elems ns; sum_elems b 0 (nelem ns) h })"

definition entrance_set :: "re_dfastate \<Rightarrow> re_node_set" where
  "entrance_set s = (case entrance_nodes s of Own_nodes \<Rightarrow> nodes s | Separate e \<Rightarrow> e)"

definition spot_index :: "re_dfa \<Rightarrow> 32 word \<Rightarrow> nat" where
  "spot_index dfa h = unat (h AND state_hash_mask dfa)"

text \<open>The loop of \<open>register_state\<close> that keeps the nodes that are no epsilon nodes.\<close>

fun fill_non_eps :: "re_dfa \<Rightarrow> re_node_set \<Rightarrow> int list \<Rightarrow> answers \<Rightarrow> (bool \<times> re_node_set \<times> answers) option" where
  "fill_non_eps dfa s [] os = Some (True, s, os)"
| "fill_non_eps dfa s (x # xs) os =
     do { t \<leftarrow> node_at dfa x;
          if \<not> IS_EPSILON_NODE (tok_type t)
          then do { (ok, s, os) \<leftarrow> node_set_insert_last s x os;
                    if ok then fill_non_eps dfa s xs os else Some (False, s, os) }
          else fill_non_eps dfa s xs os }"

text \<open>The elements of a set, in the order the loops over it visit them.\<close>

definition elem_list :: "re_node_set \<Rightarrow> int list option" where
  "elem_list s = (if nelem s = 0 then Some []
     else do { b \<leftarrow> elems s; if nelem s \<le> length b then Some (take (nelem s) b) else None })"

text \<open>Room for one more pointer in a bucket.\<close>

definition grow_spot :: "state_table_entry \<Rightarrow> answers \<Rightarrow> state_table_entry option \<times> answers" where
  "grow_spot spot os =
     (if arr_alloc spot \<le> num spot then
        let n = 2 * num spot + 2; (ok, os) = alloc os
        in (if ok then Some (spot\<lparr>arr_alloc := n, arr := take n (arr spot) @ replicate (n - length (arr spot)) 0\<rparr>)
            else None, os)
      else (Some spot, os))"

text \<open>\<open>register_state\<close>: on success the new state has entered the heap and its bucket. The state is
  passed by value; when it is not registered the caller frees it.\<close>

definition register_state :: "re_dfa \<Rightarrow> re_dfastate \<Rightarrow> 32 word \<Rightarrow> answers
    \<Rightarrow> (nat option \<times> re_dfa \<times> answers) option" where
  "register_state dfa newstate h os =
     do { let newstate = newstate\<lparr>hash := h\<rparr>;
          (err, ne, os) \<leftarrow> node_set_alloc (nelem (nodes newstate)) os;
          if err \<noteq> REG_NOERROR then Some (None, dfa, os)
          else
            do { xs \<leftarrow> elem_list (nodes newstate);
                 (ok, ne, os) \<leftarrow> fill_non_eps dfa ne xs os;
                 if \<not> ok then Some (None, dfa, os)
                 else
                   do { spot \<leftarrow> mem_read (state_table dfa) (spot_index dfa h);
                        (case grow_spot spot os of
                           (None, os) \<Rightarrow> Some (None, dfa, os)
                         | (Some spot, os) \<Rightarrow>
                             do { let p = length (heap dfa);
                                  a \<leftarrow> mem_write (arr spot) (num spot) [p];
                                  t \<leftarrow> mem_write (state_table dfa) (spot_index dfa h)
                                        [spot\<lparr>arr := a, num := num spot + 1\<rparr>];
                                  Some (Some p, dfa\<lparr>state_table := t,
                                          heap := heap dfa @ [newstate\<lparr>non_eps_nodes := ne\<rparr>]\<rparr>, os) }) } } }"

text \<open>The flags a node gives the context-independent state it is in.\<close>

definition ci_flags :: "re_token \<Rightarrow> re_dfastate \<Rightarrow> re_dfastate" where
  "ci_flags node s =
     (if tok_type node = CHARACTER \<and> constraint node = 0 then s
      else
        let s = s\<lparr>accept_mb := accept_mb s \<or> tok_accept_mb node\<rparr>
        in if tok_type node = END_OF_RE then s\<lparr>halt := True\<rparr>
           else if tok_type node = OP_BACK_REF then s\<lparr>has_backref := True\<rparr>
           else if tok_type node = ANCHOR \<or> constraint node \<noteq> 0 then s\<lparr>has_constraint := True\<rparr>
           else s)"

fun ci_loop :: "re_dfa \<Rightarrow> int list \<Rightarrow> re_dfastate \<Rightarrow> re_dfastate option" where
  "ci_loop dfa [] s = Some s"
| "ci_loop dfa (x # xs) s = do { node \<leftarrow> node_at dfa x; ci_loop dfa xs (ci_flags node s) }"

definition create_ci_newstate :: "re_dfa \<Rightarrow> re_node_set \<Rightarrow> 32 word \<Rightarrow> answers
    \<Rightarrow> (nat option \<times> re_dfa \<times> answers) option" where
  "create_ci_newstate dfa ns h os =
     (let (ok, os) = alloc os in
      if \<not> ok then Some (None, dfa, os)
      else do { (err, copy, os) \<leftarrow> node_set_init_copy ns os;
                if err \<noteq> REG_NOERROR then Some (None, dfa, os)
                else do { xs \<leftarrow> elem_list ns;
                          s \<leftarrow> ci_loop dfa xs (calloc_state\<lparr>nodes := copy, entrance_nodes := Own_nodes\<rparr>);
                          register_state dfa s h os } })"

text \<open>The flags a node that is not a plain character gives the context-dependent state.\<close>

definition cd_flags :: "re_token \<Rightarrow> re_dfastate \<Rightarrow> re_dfastate" where
  "cd_flags node s =
     (let s = s\<lparr>accept_mb := accept_mb s \<or> tok_accept_mb node\<rparr>
      in if tok_type node = END_OF_RE then s\<lparr>halt := True\<rparr>
         else if tok_type node = OP_BACK_REF then s\<lparr>has_backref := True\<rparr> else s)"

text \<open>
  The loop of \<open>create_cd_newstate\<close> over the nodes it was given, with the index \<open>i\<close> and the number
  \<open>nctx\<close> of nodes taken out so far. \<open>None\<close> as the state: an allocation failed and the state has been freed.
\<close>

fun cd_loop :: "re_dfa \<Rightarrow> re_node_set \<Rightarrow> 32 word \<Rightarrow> int list \<Rightarrow> nat \<Rightarrow> nat \<Rightarrow> re_dfastate \<Rightarrow> answers
    \<Rightarrow> (re_dfastate option \<times> answers) option" where
  "cd_loop dfa ns context [] i nctx s os = Some (Some s, os)"
| "cd_loop dfa ns context (x # xs) i nctx s os =
     do { node \<leftarrow> node_at dfa x;
          let c = constraint node;
          if tok_type node = CHARACTER \<and> c = 0 then cd_loop dfa ns context xs (i + 1) nctx s os
          else
            do { let s = cd_flags node s;
                 if c = 0 then cd_loop dfa ns context xs (i + 1) nctx s os
                 else
                   do { (r, nctx, os) \<leftarrow>
                          (if entrance_nodes s = Own_nodes then
                             let (ok, os) = alloc os in
                             if \<not> ok then Some (None, nctx, os)
                             else do { (err, e, os) \<leftarrow> node_set_init_copy ns os;
                                       if err \<noteq> REG_NOERROR then Some (None, nctx, os)
                                       else Some (Some (s\<lparr>entrance_nodes := Separate e, has_constraint := True\<rparr>), 0, os) }
                           else Some (Some s, nctx, os));
                        (case r of
                           None \<Rightarrow> Some (None, os)
                         | Some s \<Rightarrow>
                             if NOT_SATISFY_PREV_CONSTRAINT c context then
                               do { ns' \<leftarrow> node_set_remove_at (nodes s) (int i - int nctx);
                                    cd_loop dfa ns context xs (i + 1) (nctx + 1) (s\<lparr>nodes := ns'\<rparr>) os }
                             else cd_loop dfa ns context xs (i + 1) nctx s os) } } }"

definition create_cd_newstate :: "re_dfa \<Rightarrow> re_node_set \<Rightarrow> 32 word \<Rightarrow> 32 word \<Rightarrow> answers
    \<Rightarrow> (nat option \<times> re_dfa \<times> answers) option" where
  "create_cd_newstate dfa ns context h os =
     (let (ok, os) = alloc os in
      if \<not> ok then Some (None, dfa, os)
      else do { (err, copy, os) \<leftarrow> node_set_init_copy ns os;
                if err \<noteq> REG_NOERROR then Some (None, dfa, os)
                else do { xs \<leftarrow> elem_list ns;
                          (s, os) \<leftarrow> cd_loop dfa ns context xs 0 0
                             (calloc_state\<lparr>nodes := copy, ctx := context AND 15, entrance_nodes := Own_nodes\<rparr>) os;
                          (case s of None \<Rightarrow> Some (None, dfa, os) | Some s \<Rightarrow> register_state dfa s h os) } })"

text \<open>The search in a bucket: the first state the test accepts.\<close>

fun find_state :: "re_dfa \<Rightarrow> (re_dfastate \<Rightarrow> bool option) \<Rightarrow> nat list \<Rightarrow> nat option option" where
  "find_state dfa test [] = Some None"
| "find_state dfa test (p # ps) =
     do { s \<leftarrow> mem_read (heap dfa) p;
          hit \<leftarrow> test s;
          if hit then Some (Some p) else find_state dfa test ps }"

definition spot_states :: "re_dfa \<Rightarrow> 32 word \<Rightarrow> nat list option" where
  "spot_states dfa h =
     do { spot \<leftarrow> mem_read (state_table dfa) (spot_index dfa h);
          if num spot \<le> length (arr spot) then Some (take (num spot) (arr spot)) else None }"

definition ci_test :: "re_node_set \<Rightarrow> 32 word \<Rightarrow> re_dfastate \<Rightarrow> bool option" where
  "ci_test ns h s = (if h \<noteq> hash s then Some False else node_set_compare (Some (nodes s)) (Some ns))"

definition cd_test :: "re_node_set \<Rightarrow> 32 word \<Rightarrow> 32 word \<Rightarrow> re_dfastate \<Rightarrow> bool option" where
  "cd_test ns context h s =
     (if hash s = h \<and> ctx s = context then node_set_compare (Some (entrance_set s)) (Some ns) else Some False)"

type_synonym acquired = "(reg_errcode \<times> nat option \<times> re_dfa \<times> answers) option"

definition re_acquire_state :: "re_dfa \<Rightarrow> re_node_set \<Rightarrow> answers \<Rightarrow> acquired" where
  "re_acquire_state dfa ns os =
     (if nelem ns = 0 then Some (REG_NOERROR, None, dfa, os)
      else do { h \<leftarrow> calc_state_hash ns 0;
                ps \<leftarrow> spot_states dfa h;
                found \<leftarrow> find_state dfa (ci_test ns h) ps;
                (case found of
                   Some p \<Rightarrow> Some (REG_NOERROR, Some p, dfa, os)
                 | None \<Rightarrow>
                     do { (p, dfa, os) \<leftarrow> create_ci_newstate dfa ns h os;
                          Some (if p = None then REG_ESPACE else REG_NOERROR, p, dfa, os) }) })"

definition re_acquire_state_context :: "re_dfa \<Rightarrow> re_node_set \<Rightarrow> 32 word \<Rightarrow> answers \<Rightarrow> acquired" where
  "re_acquire_state_context dfa ns context os =
     (if nelem ns = 0 then Some (REG_NOERROR, None, dfa, os)
      else do { h \<leftarrow> calc_state_hash ns context;
                ps \<leftarrow> spot_states dfa h;
                found \<leftarrow> find_state dfa (cd_test ns context h) ps;
                (case found of
                   Some p \<Rightarrow> Some (REG_NOERROR, Some p, dfa, os)
                 | None \<Rightarrow>
                     do { (p, dfa, os) \<leftarrow> create_cd_newstate dfa ns context h os;
                          Some (if p = None then REG_ESPACE else REG_NOERROR, p, dfa, os) }) })"

section \<open>The list of nodes decides\<close>

lemma sum_elems_ok:
  "i + n \<le> length b \<Longrightarrow> sum_elems b i n h = Some (h + sum_list (map word_of_int (take n (drop i b))))"
proof (induction n arbitrary: i h)
  case (Suc n)
  then have "drop i b = b ! i # drop (Suc i) b" by (simp add: Cons_nth_drop_Suc)
  with Suc show ?case by (simp add: mem_read_lt)
qed simp

definition key_hash :: "int list \<Rightarrow> 32 word \<Rightarrow> 32 word" where
  "key_hash xs c = word_of_nat (length xs) + c + sum_list (map word_of_int xs)"

lemma calc_state_hash_ok:
  assumes "set_rep ns xs"
  shows "calc_state_hash ns c = Some (key_hash xs c)"
proof (cases "xs = []")
  case True
  with set_rep_nelem [OF assms] show ?thesis by (simp add: calc_state_hash_def key_hash_def)
next
  case False
  obtain b where "elems ns = Some b" "length xs \<le> length b" "take (length xs) b = xs"
    using set_rep_elems [OF assms False] by metis
  with False set_rep_nelem [OF assms] show ?thesis
    by (simp add: calc_state_hash_def key_hash_def sum_elems_ok)
qed

lemma elem_list_ok: "set_rep s xs \<Longrightarrow> elem_list s = Some xs"
  by (cases "elems s") (auto simp: elem_list_def set_rep_def)

section \<open>The table\<close>

definition bucket :: "re_dfa \<Rightarrow> nat \<Rightarrow> nat list" where
  "bucket dfa j = take (num (state_table dfa ! j)) (arr (state_table dfa ! j))"

definition spot_ok :: "nat \<Rightarrow> state_table_entry \<Rightarrow> bool" where
  "spot_ok n e \<longleftrightarrow> num e \<le> arr_alloc e \<and> arr_alloc e = length (arr e) \<and> (\<forall>p \<in> set (take (num e) (arr e)). p < n)"

text \<open>Which nodes a state keeps, and the flags of the nodes.\<close>

definition token :: "re_dfa \<Rightarrow> int \<Rightarrow> re_token" where
  "token dfa x = the (node_at dfa x)"

definition satisfied :: "re_dfa \<Rightarrow> 32 word \<Rightarrow> int \<Rightarrow> bool" where
  "satisfied dfa c x \<longleftrightarrow> \<not> NOT_SATISFY_PREV_CONSTRAINT (constraint (token dfa x)) c"

definition in_type :: "re_dfa \<Rightarrow> re_token_type \<Rightarrow> int list \<Rightarrow> bool" where
  "in_type dfa t xs \<longleftrightarrow> (\<exists>x \<in> set xs. tok_type (token dfa x) = t)"

definition multibyte :: "re_dfa \<Rightarrow> int list \<Rightarrow> bool" where
  "multibyte dfa xs \<longleftrightarrow> (\<exists>x \<in> set xs. tok_accept_mb (token dfa x)
     \<and> \<not> (tok_type (token dfa x) = CHARACTER \<and> constraint (token dfa x) = 0))"

definition valid_nodes :: "re_dfa \<Rightarrow> int list \<Rightarrow> bool" where
  "valid_nodes dfa xs \<longleftrightarrow> (\<forall>x \<in> set xs. node_at dfa x \<noteq> None)"

text \<open>
  What a state is for: the nodes \<open>xs\<close> in the context \<open>ctx\<close>. Its \<open>nodes\<close> are those whose constraint on what
  comes before is satisfied in the context; a state made by \<open>create_ci_newstate\<close> has context 0 and keeps them all.
\<close>

definition state_for :: "re_dfa \<Rightarrow> int list \<Rightarrow> re_dfastate \<Rightarrow> bool" where
  "state_for dfa xs s \<longleftrightarrow> set_rep (entrance_set s) xs \<and>
     (\<exists>ys. set_rep (nodes s) ys \<and> (ys = filter (satisfied dfa (ctx s)) xs \<or> ctx s = 0 \<and> ys = xs)
        \<and> set_rep (non_eps_nodes s) (filter (\<lambda>x. \<not> IS_EPSILON_NODE (tok_type (token dfa x))) ys)) \<and>
     halt s = in_type dfa END_OF_RE xs \<and> has_backref s = in_type dfa OP_BACK_REF xs \<and>
     accept_mb s = multibyte dfa xs"

definition table_ok :: "re_dfa \<Rightarrow> bool" where
  "table_ok dfa \<longleftrightarrow> unat (state_hash_mask dfa) < length (state_table dfa) \<and>
     (\<forall>e \<in> set (state_table dfa). spot_ok (length (heap dfa)) e) \<and>
     (\<forall>s \<in> set (heap dfa). \<exists>xs. state_for dfa xs s)"

text \<open>A later table: the same nodes, states and buckets only added to at the end.\<close>

definition extends :: "re_dfa \<Rightarrow> re_dfa \<Rightarrow> bool" where
  "extends dfa dfa' \<longleftrightarrow> dfa_nodes dfa' = dfa_nodes dfa \<and> state_hash_mask dfa' = state_hash_mask dfa
     \<and> length (state_table dfa') = length (state_table dfa) \<and> prefix (heap dfa) (heap dfa')
     \<and> (\<forall>j < length (state_table dfa). prefix (bucket dfa j) (bucket dfa' j))"

lemma extends_refl: "extends dfa dfa"
  by (simp add: extends_def)

lemma extends_trans: "extends a b \<Longrightarrow> extends b c \<Longrightarrow> extends a c"
  unfolding extends_def by (metis prefix_order.trans)

lemma extends_nodes:
  assumes "extends dfa dfa'"
  shows "node_at dfa' = node_at dfa" "token dfa' = token dfa" "state_for dfa' = state_for dfa"
    "valid_nodes dfa' = valid_nodes dfa"
proof -
  have "dfa_nodes dfa' = dfa_nodes dfa" using assms by (simp add: extends_def)
  then show n: "node_at dfa' = node_at dfa" by (simp add: node_at_def fun_eq_iff)
  then show t: "token dfa' = token dfa" by (simp add: token_def fun_eq_iff)
  have sat: "satisfied dfa' = satisfied dfa" by (simp add: satisfied_def t fun_eq_iff)
  show "state_for dfa' = state_for dfa" "valid_nodes dfa' = valid_nodes dfa"
    by (intro ext, simp add: state_for_def valid_nodes_def in_type_def multibyte_def n t sat)+
qed

lemma spot_index_lt: "table_ok dfa \<Longrightarrow> spot_index dfa h < length (state_table dfa)"
proof -
  assume "table_ok dfa"
  moreover have "h AND state_hash_mask dfa \<le> state_hash_mask dfa" by (rule word_and_le1)
  ultimately show ?thesis unfolding spot_index_def table_ok_def word_le_nat_alt by linarith
qed

lemma extends_spot_index: "extends dfa dfa' \<Longrightarrow> spot_index dfa' h = spot_index dfa h"
  by (simp add: spot_index_def extends_def)

lemma table_ok_spot: "table_ok dfa \<Longrightarrow> j < length (state_table dfa) \<Longrightarrow> spot_ok (length (heap dfa)) (state_table dfa ! j)"
  by (simp add: table_ok_def)

lemma table_ok_state: "table_ok dfa \<Longrightarrow> s \<in> set (heap dfa) \<Longrightarrow> \<exists>xs. state_for dfa xs s"
  by (simp add: table_ok_def)

lemma bucket_lt: "table_ok dfa \<Longrightarrow> j < length (state_table dfa) \<Longrightarrow> p \<in> set (bucket dfa j) \<Longrightarrow> p < length (heap dfa)"
  using table_ok_spot [of dfa j] by (auto simp: bucket_def spot_ok_def)

lemma spot_states_ok: "table_ok dfa \<Longrightarrow> spot_states dfa h = Some (bucket dfa (spot_index dfa h))"
  using table_ok_spot [of dfa "spot_index dfa h"] spot_index_lt [of dfa h]
  by (simp add: spot_states_def bucket_def mem_read_lt spot_ok_def)

subsection \<open>Searching a bucket\<close>

lemma find_state_ok:
  assumes "\<And>p. p \<in> set ps \<Longrightarrow> p < length (heap dfa)"
    and "\<And>p. p \<in> set ps \<Longrightarrow> \<exists>hit. test (heap dfa ! p) = Some hit"
  shows "find_state dfa test ps = Some (find (\<lambda>p. test (heap dfa ! p) = Some True) ps)"
  using assms
proof (induction ps)
  case (Cons p ps)
  obtain hit where hit: "test (heap dfa ! p) = Some hit" using Cons.prems(2) [of p] by auto
  have "find_state dfa test ps = Some (find (\<lambda>p. test (heap dfa ! p) = Some True) ps)"
    using Cons.prems by (intro Cons.IH) auto
  with hit Cons.prems(1) [of p] show ?case by (cases hit) (simp_all add: mem_read_lt)
qed simp

text \<open>The tests as predicates on states, for a set that holds \<open>xs\<close>.\<close>

definition ci_hit :: "int list \<Rightarrow> re_dfastate \<Rightarrow> bool" where
  "ci_hit xs s \<longleftrightarrow> hash s = key_hash xs 0 \<and> set_rep (nodes s) xs"

definition cd_hit :: "int list \<Rightarrow> 32 word \<Rightarrow> re_dfastate \<Rightarrow> bool" where
  "cd_hit xs c s \<longleftrightarrow> hash s = key_hash xs c \<and> ctx s = c \<and> set_rep (entrance_set s) xs"

lemma set_rep_unique: "set_rep s xs \<Longrightarrow> set_rep s ys \<Longrightarrow> xs = ys"
  using elem_list_ok [of s xs] elem_list_ok [of s ys] by simp

lemma compare_iff:
  assumes "set_rep s ys" and "set_rep ns xs"
  shows "node_set_compare (Some s) (Some ns) = Some (set_rep s xs)"
proof -
  have "set ys = set xs \<longleftrightarrow> ys = xs"
    using strict_sorted_eq [OF set_rep_sorted [OF assms(1)] set_rep_sorted [OF assms(2)]] by auto
  with node_set_compare_ok [OF assms] assms(1) set_rep_unique [OF assms(1), of xs] show ?thesis by auto
qed

lemma ci_test_ok: "state_for dfa zs s \<Longrightarrow> set_rep ns xs \<Longrightarrow> ci_test ns (key_hash xs 0) s = Some (ci_hit xs s)"
  by (auto simp: ci_test_def ci_hit_def state_for_def compare_iff)

lemma cd_test_ok: "state_for dfa zs s \<Longrightarrow> set_rep ns xs \<Longrightarrow> cd_test ns c (key_hash xs c) s = Some (cd_hit xs c s)"
  by (auto simp: cd_test_def cd_hit_def state_for_def compare_iff)

text \<open>The state a request finds.\<close>

definition lookup :: "re_dfa \<Rightarrow> 32 word \<Rightarrow> (re_dfastate \<Rightarrow> bool) \<Rightarrow> nat option" where
  "lookup dfa h P = find (\<lambda>p. P (heap dfa ! p)) (bucket dfa (spot_index dfa h))"

lemma find_state_lookup:
  assumes "table_ok dfa" and "\<And>s. s \<in> set (heap dfa) \<Longrightarrow> test s = Some (P s)"
  shows "find_state dfa test (bucket dfa (spot_index dfa h)) = Some (lookup dfa h P)"
proof -
  have lt: "p < length (heap dfa)" if "p \<in> set (bucket dfa (spot_index dfa h))" for p
    using bucket_lt [OF assms(1) spot_index_lt [OF assms(1)] that] .
  then have t: "test (heap dfa ! p) = Some (P (heap dfa ! p))" if "p \<in> set (bucket dfa (spot_index dfa h))" for p
    using that by (intro assms(2)) simp
  have "find (\<lambda>p. test (heap dfa ! p) = Some True) (bucket dfa (spot_index dfa h))
      = find (\<lambda>p. P (heap dfa ! p)) (bucket dfa (spot_index dfa h))"
    by (rule find_cong) (simp_all add: t)
  then show ?thesis using find_state_ok [of "bucket dfa (spot_index dfa h)" dfa test] lt t
    by (simp add: lookup_def)
qed

lemma find_append: "find P (xs @ ys) = (case find P xs of None \<Rightarrow> find P ys | Some x \<Rightarrow> Some x)"
  by (induction xs) auto

text \<open>What a request has found once, it finds in every later table.\<close>

lemma lookup_stable:
  assumes "table_ok dfa" and "extends dfa dfa'" and "lookup dfa h P = Some p"
  shows "lookup dfa' h P = Some p"
proof -
  let ?j = "spot_index dfa h"
  have j: "?j < length (state_table dfa)" by (rule spot_index_lt [OF assms(1)])
  obtain more where more: "bucket dfa' ?j = bucket dfa ?j @ more"
    using assms(2) j by (auto simp: extends_def prefix_def)
  obtain hs where hs: "heap dfa' = heap dfa @ hs" using assms(2) by (auto simp: extends_def prefix_def)
  have "find (\<lambda>p. P (heap dfa' ! p)) (bucket dfa ?j) = find (\<lambda>p. P (heap dfa ! p)) (bucket dfa ?j)"
    by (rule find_cong) (use bucket_lt [OF assms(1) j] hs in \<open>simp_all add: nth_append\<close>)
  with assms(3) more show ?thesis
    by (simp add: lookup_def extends_spot_index [OF assms(2)] find_append)
qed

section \<open>Creating a state\<close>

text \<open>No operation makes up answers of the allocator.\<close>

lemma node_set_alloc_answers: "node_set_alloc n os = Some (e, s, os') \<Longrightarrow> set os' \<subseteq> set os"
  using alloc_rest [of os "fst (alloc os)" "snd (alloc os)"]
  by (auto simp: node_set_alloc_def re_malloc_def split_beta)

lemma init_copy_answers: "node_set_init_copy s os = Some (e, s', os') \<Longrightarrow> set os' \<subseteq> set os"
  using alloc_rest [of os "fst (alloc os)" "snd (alloc os)"]
  by (auto simp: node_set_init_copy_def re_malloc_def split_beta Let_def
      split: if_splits Option.bind_splits)

lemma insert_last_answers: "node_set_insert_last s x os = Some (ok, s', os') \<Longrightarrow> set os' \<subseteq> set os"
  using alloc_rest [of os "fst (alloc os)" "snd (alloc os)"]
  by (auto simp: node_set_insert_last_def re_realloc_def split_beta Let_def
      split: if_splits Option.bind_splits option.splits)

lemma node_set_alloc_ok:
  obtains (fail) s os' where "node_set_alloc n os = Some (REG_ESPACE, s, os')" and "False \<in> set os"
    | (ok) s os' where "node_set_alloc n os = Some (REG_NOERROR, s, os')" and "set_rep s []" and "set os' \<subseteq> set os"
proof (cases rule: re_malloc_cases [of os n])
  case (fail os')
  then show thesis using that(1) alloc_refused by (auto simp: node_set_alloc_def)
next
  case (ok os')
  then have "node_set_alloc n os = Some (REG_NOERROR, \<lparr>set_alloc = n, nelem = 0, elems = Some (replicate n idx_garbage)\<rparr>, os')"
    by (simp add: node_set_alloc_def)
  then show thesis using that(2) node_set_alloc_answers by (auto simp: set_rep_def)
qed

lemma init_copy_cases:
  assumes "set_rep s xs"
  obtains (fail) t os' where "node_set_init_copy s os = Some (REG_ESPACE, t, os')" and "False \<in> set os"
      and "set os' \<subseteq> set os"
    | (ok) t os' where "node_set_init_copy s os = Some (REG_NOERROR, t, os')" and "set_rep t xs" and "set os' \<subseteq> set os"
proof -
  obtain e t os' where r: "node_set_init_copy s os = Some (e, t, os')"
      "e = REG_ESPACE \<and> \<not> fst (alloc os) \<or> e = REG_NOERROR \<and> (\<exists>zs. set_rep t zs \<and> set zs = set xs)"
    using node_set_init_copy_ok [OF assms, of os] unfolding holds_def by blast
  have os: "set os' \<subseteq> set os" by (rule init_copy_answers [OF r(1)])
  from r(2) show thesis
  proof (elim disjE conjE exE)
    fix zs assume "e = REG_NOERROR" "set_rep t zs" "set zs = set xs"
    then show thesis using r(1) os ok strict_sorted_eq [of zs xs] set_rep_sorted [OF assms] set_rep_sorted by blast
  qed (use r(1) os fail alloc_refused in blast)
qed

lemma fill_non_eps_ok:
  "set_rep s zs \<Longrightarrow> sorted_wrt (<) (zs @ xs) \<Longrightarrow> valid_nodes dfa xs \<Longrightarrow>
     \<exists>ok s' os'. fill_non_eps dfa s xs os = Some (ok, s', os') \<and> set os' \<subseteq> set os \<and> (ok \<or> False \<in> set os)
       \<and> (ok \<longrightarrow> set_rep s' (zs @ filter (\<lambda>x. \<not> IS_EPSILON_NODE (tok_type (token dfa x))) xs))"
proof (induction xs arbitrary: s zs os)
  case (Cons x xs)
  have node: "node_at dfa x = Some (token dfa x)" using Cons.prems(3) by (auto simp: valid_nodes_def token_def)
  have valid: "valid_nodes dfa xs" using Cons.prems(3) by (simp add: valid_nodes_def)
  show ?case
  proof (cases "IS_EPSILON_NODE (tok_type (token dfa x))")
    case True
    have "sorted_wrt (<) (zs @ xs)" using Cons.prems(2) by (simp add: sorted_wrt_append)
    with True node Cons.IH [OF Cons.prems(1) this valid] show ?thesis by simp
  next
    case False
    have above: "y < x" if "y \<in> set zs" for y using Cons.prems(2) that by (simp add: sorted_wrt_append)
    obtain ok s1 os1 where i: "node_set_insert_last s x os = Some (ok, s1, os1)"
        "\<not> ok \<and> \<not> fst (alloc os) \<or> ok \<and> (\<exists>ws. set_rep s1 ws \<and> set ws = insert x (set zs))"
      using node_set_insert_last_ok [OF Cons.prems(1) above, of os] unfolding holds_if_def by blast
    have os1: "set os1 \<subseteq> set os" by (rule insert_last_answers [OF i(1)])
    show ?thesis
    proof (cases ok)
      case t: True
      then obtain ws where ws: "set_rep s1 ws" "set ws = insert x (set zs)" using i(2) by blast
      have "sorted_wrt (<) (zs @ [x])" using Cons.prems(2) by (simp add: sorted_wrt_append)
      then have "ws = zs @ [x]"
        using strict_sorted_eq [OF set_rep_sorted [OF ws(1)], of "zs @ [x]"] ws(2) by simp
      then have "set_rep s1 (zs @ [x])" "sorted_wrt (<) ((zs @ [x]) @ xs)" using ws(1) Cons.prems(2) by simp_all
      from Cons.IH [OF this valid, of os1] obtain ok s' os' where "fill_non_eps dfa s1 xs os1 = Some (ok, s', os')"
          "set os' \<subseteq> set os1" "ok \<or> False \<in> set os1"
          "ok \<longrightarrow> set_rep s' ((zs @ [x]) @ filter (\<lambda>x. \<not> IS_EPSILON_NODE (tok_type (token dfa x))) xs)" by auto
      then show ?thesis using t i(1) node False os1 by auto
    qed (use i node False os1 alloc_refused in auto)
  qed
qed auto

lemma grow_spot_ok:
  assumes "spot_ok n e"
  obtains (fail) os' where "grow_spot e os = (None, os')" and "False \<in> set os" and "set os' \<subseteq> set os"
    | (ok) e' os' where "grow_spot e os = (Some e', os')" and "set os' \<subseteq> set os" and "num e' = num e"
      and "num e < arr_alloc e'" and "arr_alloc e' = length (arr e')" and "take (num e) (arr e') = take (num e) (arr e)"
proof (cases "arr_alloc e \<le> num e")
  case False
  with assms show thesis by (intro ok [of e os]) (auto simp: grow_spot_def spot_ok_def)
next
  case True
  obtain a os1 where a: "alloc os = (a, os1)" by force
  show thesis
  proof (cases a)
    case False
    with a True alloc_rest [OF a] alloc_refused [of os] show thesis
      by (intro fail [of os1]) (auto simp: grow_spot_def Let_def)
  next
    case t: True
    with a True alloc_rest [OF a] assms show thesis
      by (intro ok [of "e\<lparr>arr_alloc := 2 * num e + 2,
          arr := take (2 * num e + 2) (arr e) @ replicate (2 * num e + 2 - length (arr e)) 0\<rparr>" os1])
        (auto simp: grow_spot_def spot_ok_def Let_def)
  qed
qed

text \<open>What a registration does to the table.\<close>

definition registered :: "re_dfa \<Rightarrow> re_dfastate \<Rightarrow> 32 word \<Rightarrow> re_dfa \<Rightarrow> bool" where
  "registered dfa s h dfa' \<longleftrightarrow> extends dfa dfa' \<and> heap dfa' = heap dfa @ [s]
     \<and> bucket dfa' (spot_index dfa h) = bucket dfa (spot_index dfa h) @ [length (heap dfa)]
     \<and> (\<forall>e \<in> set (state_table dfa'). spot_ok (Suc (length (heap dfa))) e)"

lemma registered_table_ok:
  "table_ok dfa \<Longrightarrow> registered dfa s h dfa' \<Longrightarrow> state_for dfa xs s \<Longrightarrow> table_ok dfa'"
  using extends_nodes(3) [of dfa dfa'] by (auto simp: table_ok_def registered_def extends_def)

lemma register_state_ok:
  assumes tab: "table_ok dfa" and rep: "set_rep (nodes s) ys" and valid: "valid_nodes dfa ys"
  shows "\<exists>p dfa' os'. register_state dfa s h os = Some (p, dfa', os') \<and> set os' \<subseteq> set os \<and>
    (case p of None \<Rightarrow> dfa' = dfa \<and> False \<in> set os
     | Some q \<Rightarrow> q = length (heap dfa) \<and> (\<exists>ne. set_rep ne (filter (\<lambda>x. \<not> IS_EPSILON_NODE (tok_type (token dfa x))) ys)
         \<and> registered dfa (s\<lparr>hash := h, non_eps_nodes := ne\<rparr>) h dfa'))"
proof (cases rule: node_set_alloc_ok [of "nelem (nodes s)" os])
  case (fail t os1)
  moreover have "set os1 \<subseteq> set os" by (rule node_set_alloc_answers [OF fail(1)])
  ultimately show ?thesis by (simp add: register_state_def)
next
  case al: (ok t os1)
  obtain ok ne os2 where f: "fill_non_eps dfa t ys os1 = Some (ok, ne, os2)" "set os2 \<subseteq> set os1" "ok \<or> False \<in> set os1"
      "ok \<longrightarrow> set_rep ne (filter (\<lambda>x. \<not> IS_EPSILON_NODE (tok_type (token dfa x))) ys)"
    using fill_non_eps_ok [OF al(2), of ys dfa os1] set_rep_sorted [OF rep] valid by auto
  let ?j = "spot_index dfa h" and ?T = "state_table dfa"
  have j: "?j < length ?T" by (rule spot_index_lt [OF tab])
  have spot: "spot_ok (length (heap dfa)) (?T ! ?j)" by (rule table_ok_spot [OF tab j])
  show ?thesis
  proof (cases ok)
    case False
    with al f elem_list_ok [OF rep] show ?thesis by (auto simp: register_state_def)
  next
    case True
    note start = al(1) f(1) True elem_list_ok [OF rep]
    show ?thesis
    proof (cases rule: grow_spot_ok [OF spot, of os2])
      case (1 os3)
      with start al(3) f(2) j show ?thesis by (auto simp: register_state_def mem_read_lt)
    next
      case g: (2 e os3)
      let ?p = "length (heap dfa)" and ?s = "s\<lparr>hash := h, non_eps_nodes := ne\<rparr>"
      let ?a = "(arr e)[num e := ?p]"
      let ?e = "e\<lparr>arr := ?a, num := num e + 1\<rparr>"
      let ?dfa = "dfa\<lparr>state_table := ?T[?j := ?e], heap := heap dfa @ [?s]\<rparr>"
      have "register_state dfa s h os = Some (Some ?p, ?dfa, os3)"
        using start g j by (simp add: register_state_def mem_read_lt mem_write_1 Let_def)
      moreover have "registered dfa ?s h ?dfa"
      proof -
        have b: "bucket ?dfa ?j = bucket dfa ?j @ [?p]"
          using j g by (simp add: bucket_def take_Suc_conv_app_nth)
        moreover have "bucket ?dfa i = bucket dfa i" if "i \<noteq> ?j" for i
          using that by (simp add: bucket_def)
        ultimately have "prefix (bucket dfa i) (bucket ?dfa i)" for i by (cases "i = ?j") simp_all
        then have "extends dfa ?dfa" by (simp add: extends_def)
        moreover have "spot_ok (Suc ?p) ?e"
          using spot g by (auto simp: spot_ok_def take_Suc_conv_app_nth)
        then have "spot_ok (Suc ?p) x" if "x \<in> set (?T[?j := ?e])" for x
          using that tab set_update_subset_insert [of ?T ?j ?e] by (force simp: table_ok_def spot_ok_def)
        ultimately show ?thesis using b by (simp add: registered_def)
      qed
      ultimately show ?thesis using f(2,4) al(3) g(2) True by auto
    qed
  qed
qed


lemma calloc_state_simps [simp]:
  "ctx calloc_state = 0" "halt calloc_state = False" "has_backref calloc_state = False" "accept_mb calloc_state = False"
  by (simp_all add: calloc_state_def)

lemma ci_loop_ok:
  "valid_nodes dfa xs \<Longrightarrow> \<exists>s'. ci_loop dfa xs s = Some s' \<and> nodes s' = nodes s
     \<and> entrance_nodes s' = entrance_nodes s \<and> ctx s' = ctx s
     \<and> halt s' = (halt s \<or> in_type dfa END_OF_RE xs) \<and> has_backref s' = (has_backref s \<or> in_type dfa OP_BACK_REF xs)
     \<and> accept_mb s' = (accept_mb s \<or> multibyte dfa xs)"
proof (induction xs arbitrary: s)
  case (Cons x xs)
  have node: "node_at dfa x = Some (token dfa x)" using Cons.prems by (auto simp: valid_nodes_def token_def)
  have "valid_nodes dfa xs" using Cons.prems by (simp add: valid_nodes_def)
  from Cons.IH [OF this, of "ci_flags (token dfa x) s"] node show ?case
    by (auto simp: ci_flags_def in_type_def multibyte_def Let_def split: if_splits)
qed (simp add: in_type_def multibyte_def)

text \<open>The nodes left after the first ones have been looked at.\<close>

definition cd_state :: "re_dfa \<Rightarrow> int list \<Rightarrow> nat \<Rightarrow> nat \<Rightarrow> re_dfastate \<Rightarrow> bool" where
  "cd_state dfa XS i nctx s \<longleftrightarrow>
     set_rep (nodes s) (filter (satisfied dfa (ctx s)) (take i XS) @ drop i XS) \<and> i \<le> length XS \<and>
     (case entrance_nodes s of
        Own_nodes \<Rightarrow> nctx = 0 \<and> (\<forall>x \<in> set (take i XS). satisfied dfa (ctx s) x)
      | Separate e \<Rightarrow> set_rep e XS \<and> nctx + length (filter (satisfied dfa (ctx s)) (take i XS)) = i)"

lemma satisfied_0: "constraint (token dfa x) = 0 \<Longrightarrow> satisfied dfa c x"
  by (simp add: satisfied_def NOT_SATISFY_PREV_CONSTRAINT_def)

lemma cd_state_keep:
  assumes "cd_state dfa XS i nctx s" and "i < length XS" and "satisfied dfa (ctx s) (XS ! i)"
  shows "cd_state dfa XS (Suc i) nctx s"
proof -
  have "drop i XS = XS ! i # drop (Suc i) XS" using assms(2) by (simp add: Cons_nth_drop_Suc)
  with assms show ?thesis
    by (auto simp: cd_state_def take_Suc_conv_app_nth split: entrance.splits)
qed

lemma cd_state_drop:
  assumes st: "cd_state dfa XS i nctx s" and i: "i < length XS" and "\<not> satisfied dfa (ctx s) (XS ! i)"
    and sep: "entrance_nodes s = Separate e"
  shows "\<exists>ns'. node_set_remove_at (nodes s) (int i - int nctx) = Some ns'
    \<and> cd_state dfa XS (Suc i) (Suc nctx) (s\<lparr>nodes := ns'\<rparr>)"
proof -
  let ?F = "filter (satisfied dfa (ctx s)) (take i XS)"
  have d: "drop i XS = XS ! i # drop (Suc i) XS" using i by (simp add: Cons_nth_drop_Suc)
  have rep: "set_rep (nodes s) (?F @ XS ! i # drop (Suc i) XS)" and n: "nctx + length ?F = i"
    using st sep d by (simp_all add: cd_state_def)
  then have at: "int i - int nctx = int (length ?F)" by linarith
  obtain ns' where ns': "node_set_remove_at (nodes s) (int (length ?F)) = Some ns'"
      "set_rep ns' (?F @ drop (Suc i) XS)"
    using node_set_remove_at_ok [OF rep, of "length ?F"] by auto
  have "cd_state dfa XS (Suc i) (Suc nctx) (s\<lparr>nodes := ns'\<rparr>)"
    using st sep n i assms(3) ns'(2) by (simp add: cd_state_def take_Suc_conv_app_nth)
  with ns'(1) show ?thesis unfolding at by blast
qed

text \<open>The first constraint gives the state a set of entrance nodes of its own.\<close>

lemma cd_state_separate:
  "cd_state dfa XS i nctx s \<Longrightarrow> entrance_nodes s = Own_nodes \<Longrightarrow> set_rep e XS \<Longrightarrow>
     cd_state dfa XS i 0 (s\<lparr>entrance_nodes := Separate e, has_constraint := b\<rparr>)"
  by (auto simp: cd_state_def filter_id_conv)

lemma cd_state_cong:
  "nodes s' = nodes s \<Longrightarrow> ctx s' = ctx s \<Longrightarrow> entrance_nodes s' = entrance_nodes s \<Longrightarrow>
     cd_state dfa XS i nctx s' = cd_state dfa XS i nctx s"
  by (cases "entrance_nodes s") (simp_all add: cd_state_def)

lemma cd_flags_simps [simp]:
  "nodes (cd_flags t s) = nodes s" "ctx (cd_flags t s) = ctx s" "entrance_nodes (cd_flags t s) = entrance_nodes s"
  "halt (cd_flags t s) = (halt s \<or> tok_type t = END_OF_RE)"
  "has_backref (cd_flags t s) = (has_backref s \<or> tok_type t = OP_BACK_REF)"
  "accept_mb (cd_flags t s) = (accept_mb s \<or> tok_accept_mb t)"
  by (auto simp: cd_flags_def Let_def)

definition cd_done :: "re_dfa \<Rightarrow> int list \<Rightarrow> int list \<Rightarrow> re_dfastate \<Rightarrow> answers \<Rightarrow> (re_dfastate option \<times> answers) option \<Rightarrow> bool" where
  "cd_done dfa XS rest s os r \<longleftrightarrow> (\<exists>t os'. r = Some (t, os') \<and> set os' \<subseteq> set os \<and>
     (case t of None \<Rightarrow> False \<in> set os
      | Some s' \<Rightarrow> ctx s' = ctx s \<and> set_rep (nodes s') (filter (satisfied dfa (ctx s)) XS) \<and> set_rep (entrance_set s') XS
          \<and> halt s' = (halt s \<or> in_type dfa END_OF_RE rest) \<and> has_backref s' = (has_backref s \<or> in_type dfa OP_BACK_REF rest)
          \<and> accept_mb s' = (accept_mb s \<or> multibyte dfa rest)))"

lemma cd_done_cong:
  assumes "cd_done dfa XS rest s1 os1 r" and "set os1 \<subseteq> set os" and "ctx s1 = ctx s"
    and "halt s1 = (halt s \<or> tok_type (token dfa x) = END_OF_RE)"
    and "has_backref s1 = (has_backref s \<or> tok_type (token dfa x) = OP_BACK_REF)"
    and "accept_mb s1 = (accept_mb s \<or> tok_accept_mb (token dfa x) \<and>
       \<not> (tok_type (token dfa x) = CHARACTER \<and> constraint (token dfa x) = 0))"
  shows "cd_done dfa XS (x # rest) s os r"
proof -
  obtain t os' where r: "r = Some (t, os')" "set os' \<subseteq> set os1" using assms(1) by (auto simp: cd_done_def)
  have "in_type dfa ty (x # rest) \<longleftrightarrow> tok_type (token dfa x) = ty \<or> in_type dfa ty rest" for ty
    by (simp add: in_type_def)
  moreover have "multibyte dfa (x # rest) \<longleftrightarrow> (tok_accept_mb (token dfa x) \<and>
       \<not> (tok_type (token dfa x) = CHARACTER \<and> constraint (token dfa x) = 0)) \<or> multibyte dfa rest"
    by (simp add: multibyte_def)
  ultimately show ?thesis
    using assms r by (cases t) (auto simp: cd_done_def)
qed

lemma cd_state_end:
  assumes "cd_state dfa XS (length XS) nctx s"
  shows "cd_done dfa XS [] s os (Some (Some s, os))"
proof -
  have "set_rep (entrance_set s) XS"
    using assms by (cases "entrance_nodes s") (auto simp: cd_state_def entrance_set_def filter_id_conv)
  with assms show ?thesis by (simp add: cd_done_def cd_state_def in_type_def multibyte_def)
qed


lemma cd_loop_ok:
  assumes ns: "set_rep ns XS"
  shows "rest = drop i XS \<Longrightarrow> valid_nodes dfa rest \<Longrightarrow> cd_state dfa XS i nctx s
    \<Longrightarrow> cd_done dfa XS rest s os (cd_loop dfa ns (ctx s) rest i nctx s os)"
proof (induction rest arbitrary: i nctx s os)
  case Nil
  have "i \<le> length XS" using Nil.prems(3) by (simp add: cd_state_def)
  then have "i = length XS" using Nil.prems(1) by simp
  then have "cd_state dfa XS (length XS) nctx s" using Nil.prems(3) by simp
  from cd_state_end [OF this] show ?case by simp
next
  case (Cons x rest)
  have i: "i < length XS" using Cons.prems(1) by (metis drop_eq_Nil list.distinct(1) not_le)
  have x: "XS ! i = x" and rest: "rest = drop (Suc i) XS"
    using Cons.prems(1) i by (simp_all add: Cons_nth_drop_Suc [symmetric])
  have node: "node_at dfa x = Some (token dfa x)" and valid: "valid_nodes dfa rest"
    using Cons.prems(2) by (auto simp: valid_nodes_def token_def)
  note IH = Cons.IH [OF rest valid]
  let ?t = "token dfa x" and ?s = "cd_flags (token dfa x) s"
  have keep: "cd_done dfa XS (x # rest) s os (cd_loop dfa ns (ctx s) rest (Suc i) n s' os1)"
    if "cd_state dfa XS (Suc i) n s'" "ctx s' = ctx s" "set os1 \<subseteq> set os"
      "halt s' = (halt s \<or> tok_type ?t = END_OF_RE)" "has_backref s' = (has_backref s \<or> tok_type ?t = OP_BACK_REF)"
      "accept_mb s' = (accept_mb s \<or> tok_accept_mb ?t \<and> \<not> (tok_type ?t = CHARACTER \<and> constraint ?t = 0))" for n s' os1
    using cd_done_cong [OF IH [OF that(1), of os1] that(3,2,4,5,6)] that(2) by simp
  show ?case
  proof (cases "tok_type ?t = CHARACTER \<and> constraint ?t = 0")
    case True
    then have "cd_state dfa XS (Suc i) nctx s"
      using cd_state_keep [OF Cons.prems(3) i] x satisfied_0 [of dfa x] by simp
    then have "cd_done dfa XS (x # rest) s os (cd_loop dfa ns (ctx s) rest (Suc i) nctx s os)"
      by (rule keep) (use True in simp_all)
    with node True show ?thesis by simp
  next
    case plain: False
    have st: "cd_state dfa XS i nctx ?s" using Cons.prems(3) cd_state_cong [of ?s s] by simp
    have step: "cd_loop dfa ns (ctx s) (x # rest) i nctx s os =
        (if constraint ?t = 0 then cd_loop dfa ns (ctx s) rest (Suc i) nctx ?s os
         else do { (r, nctx, os) \<leftarrow>
                          (if entrance_nodes ?s = Own_nodes then
                             let (ok, os) = alloc os in
                             if \<not> ok then Some (None, nctx, os)
                             else do { (err, e, os) \<leftarrow> node_set_init_copy ns os;
                                       if err \<noteq> REG_NOERROR then Some (None, nctx, os)
                                       else Some (Some (?s\<lparr>entrance_nodes := Separate e, has_constraint := True\<rparr>), 0, os) }
                           else Some (Some ?s, nctx, os));
                        (case r of
                           None \<Rightarrow> Some (None, os)
                         | Some s' \<Rightarrow>
                             if NOT_SATISFY_PREV_CONSTRAINT (constraint ?t) (ctx s) then
                               do { ns' \<leftarrow> node_set_remove_at (nodes s') (int i - int nctx);
                                    cd_loop dfa ns (ctx s) rest (i + 1) (nctx + 1) (s'\<lparr>nodes := ns'\<rparr>) os }
                             else cd_loop dfa ns (ctx s) rest (i + 1) nctx s' os) })"
      using node plain by (simp only: cd_loop.simps bind_def Let_def) simp
    show ?thesis
    proof (cases "constraint ?t = 0")
      case True
      then have "cd_state dfa XS (Suc i) nctx ?s"
        using cd_state_keep [OF st i] x satisfied_0 [of dfa x] by simp
      then have "cd_done dfa XS (x # rest) s os (cd_loop dfa ns (ctx s) rest (Suc i) nctx ?s os)"
        by (rule keep) (use plain in simp_all)
      with True show ?thesis unfolding step by simp
    next
      case c: False
      have go: "cd_done dfa XS (x # rest) s os
          (if NOT_SATISFY_PREV_CONSTRAINT (constraint ?t) (ctx s) then
             do { ns' \<leftarrow> node_set_remove_at (nodes s') (int i - int n);
                  cd_loop dfa ns (ctx s) rest (i + 1) (n + 1) (s'\<lparr>nodes := ns'\<rparr>) os1 }
           else cd_loop dfa ns (ctx s) rest (i + 1) n s' os1)"
        if st': "cd_state dfa XS i n s'" "entrance_nodes s' = Separate e" "set os1 \<subseteq> set os"
          and same: "ctx s' = ctx s" "halt s' = halt ?s" "has_backref s' = has_backref ?s" "accept_mb s' = accept_mb ?s"
        for n s' os1 e
      proof (cases "satisfied dfa (ctx s') x")
        case True
        then have "cd_state dfa XS (Suc i) n s'" using cd_state_keep [OF st'(1) i] x by simp
        then have "cd_done dfa XS (x # rest) s os (cd_loop dfa ns (ctx s) rest (Suc i) n s' os1)"
          by (rule keep) (use st'(3) same c in simp_all)
        with True same show ?thesis by (simp add: satisfied_def)
      next
        case False
        then obtain ns' where ns': "node_set_remove_at (nodes s') (int i - int n) = Some ns'"
            "cd_state dfa XS (Suc i) (Suc n) (s'\<lparr>nodes := ns'\<rparr>)"
          using cd_state_drop [OF st'(1) i _ st'(2)] x by auto
        from ns'(2) have "cd_done dfa XS (x # rest) s os
            (cd_loop dfa ns (ctx s) rest (Suc i) (Suc n) (s'\<lparr>nodes := ns'\<rparr>) os1)"
          by (rule keep) (use st'(3) same c in simp_all)
        with False same ns'(1) show ?thesis by (simp add: satisfied_def)
      qed
      show ?thesis
      proof (cases "entrance_nodes ?s")
        case (Separate e)
        from go [OF st Separate order_refl cd_flags_simps(2) refl refl refl] c Separate show ?thesis unfolding step by simp
      next
        case Own_nodes
        obtain a os1 where a: "alloc os = (a, os1)" by force
        have os1: "set os1 \<subseteq> set os" by (rule alloc_rest [OF a])
        show ?thesis
        proof (cases a)
          case False
          with a alloc_refused [of os] os1 c Own_nodes show ?thesis unfolding step by (simp add: cd_done_def)
        next
          case True
          show ?thesis
          proof (cases rule: init_copy_cases [OF ns, of os1])
            case (1 e os2)
            with a True os1 c Own_nodes show ?thesis unfolding step by (auto simp: cd_done_def)
          next
            case (2 e os2)
            have "set os2 \<subseteq> set os" using 2(3) os1 by blast
            from go [OF cd_state_separate [OF st Own_nodes 2(2), of True] _ this, of e] a True 2(1) c Own_nodes
            show ?thesis unfolding step by simp
          qed
        qed
      qed
    qed
  qed
qed


text \<open>A new state in the table, for the nodes \<open>xs\<close>, or no memory.\<close>

definition created :: "re_dfa \<Rightarrow> int list \<Rightarrow> 32 word \<Rightarrow> (re_dfastate \<Rightarrow> bool) \<Rightarrow> answers
    \<Rightarrow> (nat option \<times> re_dfa \<times> answers) option \<Rightarrow> bool" where
  "created dfa xs h P os r \<longleftrightarrow> (\<exists>p dfa' os'. r = Some (p, dfa', os') \<and> set os' \<subseteq> set os \<and>
     (case p of None \<Rightarrow> dfa' = dfa \<and> False \<in> set os
      | Some q \<Rightarrow> q = length (heap dfa) \<and> (\<exists>s. registered dfa s h dfa' \<and> state_for dfa xs s \<and> hash s = h \<and> P s)))"

lemma created_None: "False \<in> set os \<Longrightarrow> set os' \<subseteq> set os \<Longrightarrow> created dfa xs h P os (Some (None, dfa, os'))"
  by (simp add: created_def)

lemma created_mono: "created dfa xs h P os1 r \<Longrightarrow> set os1 \<subseteq> set os \<Longrightarrow> created dfa xs h P os r"
  unfolding created_def by (force split: option.splits)

lemma register_created:
  assumes "table_ok dfa" and "set_rep (nodes s) ys" and "valid_nodes dfa ys"
    and "\<And>ne. set_rep ne (filter (\<lambda>x. \<not> IS_EPSILON_NODE (tok_type (token dfa x))) ys)
      \<Longrightarrow> state_for dfa xs (s\<lparr>hash := h, non_eps_nodes := ne\<rparr>) \<and> P (s\<lparr>hash := h, non_eps_nodes := ne\<rparr>)"
  shows "created dfa xs h P os (register_state dfa s h os)"
proof -
  obtain p dfa' os' where r: "register_state dfa s h os = Some (p, dfa', os')" "set os' \<subseteq> set os"
    "case p of None \<Rightarrow> dfa' = dfa \<and> False \<in> set os
     | Some q \<Rightarrow> q = length (heap dfa) \<and> (\<exists>ne. set_rep ne (filter (\<lambda>x. \<not> IS_EPSILON_NODE (tok_type (token dfa x))) ys)
         \<and> registered dfa (s\<lparr>hash := h, non_eps_nodes := ne\<rparr>) h dfa')"
    using register_state_ok [OF assms(1-3)] by blast
  show ?thesis
  proof (cases p)
    case None
    with r show ?thesis by (simp add: created_None)
  next
    case (Some q)
    then obtain ne where "q = length (heap dfa)" and ne: "set_rep ne (filter (\<lambda>x. \<not> IS_EPSILON_NODE (tok_type (token dfa x))) ys)"
        "registered dfa (s\<lparr>hash := h, non_eps_nodes := ne\<rparr>) h dfa'" using r(3) by auto
    moreover have "hash (s\<lparr>hash := h, non_eps_nodes := ne\<rparr>) = h" by simp
    ultimately show ?thesis using r(1,2) Some assms(4) [OF ne(1)] unfolding created_def by auto
  qed
qed

lemma create_ci_ok:
  assumes tab: "table_ok dfa" and ns: "set_rep ns xs" and valid: "valid_nodes dfa xs"
  shows "created dfa xs h (\<lambda>s. set_rep (nodes s) xs \<and> ctx s = 0) os (create_ci_newstate dfa ns h os)"
proof -
  obtain a os1 where a: "alloc os = (a, os1)" by force
  have os1: "set os1 \<subseteq> set os" by (rule alloc_rest [OF a])
  show ?thesis
  proof (cases a)
    case False
    with a os1 alloc_refused [of os] show ?thesis by (simp add: create_ci_newstate_def created_None)
  next
    case True
    show ?thesis
    proof (cases rule: init_copy_cases [OF ns, of os1])
      case (1 t os2)
      with a True os1 show ?thesis by (auto simp: create_ci_newstate_def intro!: created_None)
    next
      case (2 t os2)
      let ?s0 = "calloc_state\<lparr>nodes := t, entrance_nodes := Own_nodes\<rparr>"
      obtain s where s: "ci_loop dfa xs ?s0 = Some s" "nodes s = t" "entrance_nodes s = Own_nodes" "ctx s = 0"
          "halt s = in_type dfa END_OF_RE xs" "has_backref s = in_type dfa OP_BACK_REF xs" "accept_mb s = multibyte dfa xs"
        using ci_loop_ok [OF valid, of ?s0] by auto
      have "created dfa xs h (\<lambda>s. set_rep (nodes s) xs \<and> ctx s = 0) os2 (register_state dfa s h os2)"
        by (rule register_created [OF tab _ valid]) (use s 2(2) in \<open>auto simp: state_for_def entrance_set_def\<close>)
      moreover have "set os2 \<subseteq> set os" using 2(3) os1 by blast
      ultimately have "created dfa xs h (\<lambda>s. set_rep (nodes s) xs \<and> ctx s = 0) os (register_state dfa s h os2)"
        by (rule created_mono)
      then show ?thesis using a True 2(1) s(1) elem_list_ok [OF ns] by (simp add: create_ci_newstate_def)
    qed
  qed
qed

lemma create_cd_ok:
  assumes tab: "table_ok dfa" and ns: "set_rep ns xs" and valid: "valid_nodes dfa xs" and c: "c AND 15 = c"
  shows "created dfa xs h (\<lambda>s. set_rep (entrance_set s) xs \<and> ctx s = c \<and> set_rep (nodes s) (filter (satisfied dfa c) xs))
    os (create_cd_newstate dfa ns c h os)"
    (is "created _ _ _ ?P _ _")
proof -
  obtain a os1 where a: "alloc os = (a, os1)" by force
  have os1: "set os1 \<subseteq> set os" by (rule alloc_rest [OF a])
  show ?thesis
  proof (cases a)
    case False
    with a os1 alloc_refused [of os] show ?thesis by (simp add: create_cd_newstate_def created_None)
  next
    case True
    show ?thesis
    proof (cases rule: init_copy_cases [OF ns, of os1])
      case (1 t os2)
      with a True os1 show ?thesis by (auto simp: create_cd_newstate_def intro!: created_None)
    next
      case (2 t os2)
      let ?s0 = "calloc_state\<lparr>nodes := t, ctx := c AND 15, entrance_nodes := Own_nodes\<rparr>"
      have os2: "set os2 \<subseteq> set os" using 2(3) os1 by blast
      have "cd_state dfa xs 0 0 ?s0" using 2(2) by (simp add: cd_state_def)
      from cd_loop_ok [OF ns _ valid this, of os2]
      have "cd_done dfa xs xs ?s0 os2 (cd_loop dfa ns c xs 0 0 ?s0 os2)" by (simp add: c)
      then obtain s os3 where s: "cd_loop dfa ns c xs 0 0 ?s0 os2 = Some (s, os3)" "set os3 \<subseteq> set os2"
          "case s of None \<Rightarrow> False \<in> set os2
            | Some s' \<Rightarrow> ctx s' = ctx ?s0 \<and> set_rep (nodes s') (filter (satisfied dfa (ctx ?s0)) xs)
              \<and> set_rep (entrance_set s') xs \<and> halt s' = (halt ?s0 \<or> in_type dfa END_OF_RE xs)
              \<and> has_backref s' = (has_backref ?s0 \<or> in_type dfa OP_BACK_REF xs)
              \<and> accept_mb s' = (accept_mb ?s0 \<or> multibyte dfa xs)"
        unfolding cd_done_def by blast
      note start = a True 2(1) s(1) elem_list_ok [OF ns]
      show ?thesis
      proof (cases s)
        case None
        with start s os2 show ?thesis by (auto simp: create_cd_newstate_def intro!: created_None)
      next
        case (Some s')
        note s' = s(3) [unfolded Some option.case, simplified c, simplified]
        have "created dfa xs h ?P os3 (register_state dfa s' h os3)"
        proof (rule register_created [OF tab])
          show "set_rep (nodes s') (filter (satisfied dfa c) xs)" using s' by simp
          show "valid_nodes dfa (filter (satisfied dfa c) xs)" using valid by (simp add: valid_nodes_def)
        qed (use s' in \<open>auto simp: state_for_def entrance_set_def split: entrance.splits\<close>)
        moreover have "set os3 \<subseteq> set os" using s(2) os2 by blast
        ultimately have "created dfa xs h ?P os (register_state dfa s' h os3)" by (rule created_mono)
        then show ?thesis using start Some by (simp add: create_cd_newstate_def)
      qed
    qed
  qed
qed

section \<open>Acquiring a state\<close>

text \<open>The state a request ends with: found in the table, which stays as it was, or new.\<close>

definition acquires :: "re_dfa \<Rightarrow> int list \<Rightarrow> 32 word \<Rightarrow> (re_dfastate \<Rightarrow> bool) \<Rightarrow> answers \<Rightarrow> acquired \<Rightarrow> bool" where
  "acquires dfa xs h P os r \<longleftrightarrow> (\<exists>e p dfa' os'. r = Some (e, p, dfa', os') \<and> set os' \<subseteq> set os
     \<and> table_ok dfa' \<and> extends dfa dfa' \<and>
     (case p of None \<Rightarrow> e = REG_ESPACE \<and> dfa' = dfa \<and> False \<in> set os
      | Some q \<Rightarrow> e = REG_NOERROR \<and> lookup dfa' h P = Some q \<and> q < length (heap dfa') \<and> P (heap dfa' ! q)
          \<and> (dfa' = dfa \<or> q = length (heap dfa) \<and> state_for dfa xs (heap dfa' ! q))))"

lemma lookup_found:
  assumes "table_ok dfa" and "lookup dfa h P = Some q"
  shows "q < length (heap dfa)" and "P (heap dfa ! q)"
proof -
  have "q \<in> set (bucket dfa (spot_index dfa h)) \<and> P (heap dfa ! q)"
    using assms(2) by (auto simp: lookup_def find_Some_iff in_set_conv_nth)
  then show "q < length (heap dfa)" "P (heap dfa ! q)"
    using bucket_lt [OF assms(1) spot_index_lt [OF assms(1)]] by auto
qed

lemma registered_lookup:
  assumes tab: "table_ok dfa" and reg: "registered dfa s h dfa'" and none: "lookup dfa h P = None" and "P s"
  shows "lookup dfa' h P = Some (length (heap dfa))" and "heap dfa' ! length (heap dfa) = s"
proof -
  let ?j = "spot_index dfa h"
  have h: "heap dfa' = heap dfa @ [s]" and e: "extends dfa dfa'"
    and b: "bucket dfa' ?j = bucket dfa ?j @ [length (heap dfa)]" using reg by (simp_all add: registered_def)
  have "find (\<lambda>p. P (heap dfa' ! p)) (bucket dfa ?j) = find (\<lambda>p. P (heap dfa ! p)) (bucket dfa ?j)"
    by (rule find_cong) (use bucket_lt [OF tab spot_index_lt [OF tab]] h in \<open>simp_all add: nth_append\<close>)
  then show "lookup dfa' h P = Some (length (heap dfa))"
    using none b h \<open>P s\<close> by (simp add: lookup_def extends_spot_index [OF e] find_append)
  show "heap dfa' ! length (heap dfa) = s" using h by simp
qed

lemma acquires_created:
  assumes tab: "table_ok dfa" and none: "lookup dfa h P = None" and cr: "created dfa xs h Q os r"
    and hit: "\<And>s. state_for dfa xs s \<Longrightarrow> hash s = h \<Longrightarrow> Q s \<Longrightarrow> P s"
  shows "acquires dfa xs h P os
    (do { (p, dfa, os) \<leftarrow> r; Some (if p = None then REG_ESPACE else REG_NOERROR, p, dfa, os) })"
proof -
  obtain p dfa' os' where r: "r = Some (p, dfa', os')" "set os' \<subseteq> set os"
     "case p of None \<Rightarrow> dfa' = dfa \<and> False \<in> set os
      | Some q \<Rightarrow> q = length (heap dfa) \<and> (\<exists>s. registered dfa s h dfa' \<and> state_for dfa xs s \<and> hash s = h \<and> Q s)"
    using cr unfolding created_def by blast
  show ?thesis
  proof (cases p)
    case None
    with r tab show ?thesis by (simp add: acquires_def extends_refl)
  next
    case (Some q)
    then obtain s where s: "q = length (heap dfa)" "registered dfa s h dfa'" "state_for dfa xs s" "hash s = h" "Q s"
      using r(3) by auto
    have "P s" by (rule hit) (use s in auto)
    from registered_lookup [OF tab s(2) none this] registered_table_ok [OF tab s(2,3)] s r(1,2) Some \<open>P s\<close>
    show ?thesis by (simp add: acquires_def registered_def)
  qed
qed

lemma acquires_found:
  "table_ok dfa \<Longrightarrow> lookup dfa h P = Some q \<Longrightarrow> acquires dfa xs h P os (Some (REG_NOERROR, Some q, dfa, os))"
  using lookup_found [of dfa h P q] by (simp add: acquires_def extends_refl)

lemma re_acquire_state_ok:
  assumes tab: "table_ok dfa" and ns: "set_rep ns xs" and valid: "valid_nodes dfa xs" and "xs \<noteq> []"
  shows "acquires dfa xs (key_hash xs 0) (ci_hit xs) os (re_acquire_state dfa ns os)"
proof -
  let ?h = "key_hash xs 0"
  have ne: "nelem ns \<noteq> 0" using set_rep_nelem [OF ns] \<open>xs \<noteq> []\<close> by simp
  have "ci_test ns ?h s = Some (ci_hit xs s)" if "s \<in> set (heap dfa)" for s
    using that tab ci_test_ok [OF _ ns] by (auto simp: table_ok_def)
  note find = find_state_lookup [where h = ?h, OF tab this]
  note start = ne calc_state_hash_ok [OF ns] spot_states_ok [OF tab] find
  show ?thesis
  proof (cases "lookup dfa ?h (ci_hit xs)")
    case (Some q)
    with acquires_found [OF tab Some] start show ?thesis by (simp add: re_acquire_state_def)
  next
    case None
    have "acquires dfa xs ?h (ci_hit xs) os (do { (p, dfa, os) \<leftarrow> create_ci_newstate dfa ns ?h os;
        Some (if p = None then REG_ESPACE else REG_NOERROR, p, dfa, os) })"
      by (rule acquires_created [OF tab None create_ci_ok [OF tab ns valid]]) (simp add: ci_hit_def)
    with start None show ?thesis by (simp add: re_acquire_state_def)
  qed
qed

lemma re_acquire_state_context_ok:
  assumes tab: "table_ok dfa" and ns: "set_rep ns xs" and valid: "valid_nodes dfa xs" and "xs \<noteq> []"
    and c: "c AND 15 = c"
  shows "acquires dfa xs (key_hash xs c) (cd_hit xs c) os (re_acquire_state_context dfa ns c os)"
proof -
  let ?h = "key_hash xs c"
  have ne: "nelem ns \<noteq> 0" using set_rep_nelem [OF ns] \<open>xs \<noteq> []\<close> by simp
  have "cd_test ns c ?h s = Some (cd_hit xs c s)" if "s \<in> set (heap dfa)" for s
    using that tab cd_test_ok [OF _ ns] by (auto simp: table_ok_def)
  note find = find_state_lookup [where h = ?h, OF tab this]
  note start = ne calc_state_hash_ok [OF ns] spot_states_ok [OF tab] find
  show ?thesis
  proof (cases "lookup dfa ?h (cd_hit xs c)")
    case (Some q)
    with acquires_found [OF tab Some] start show ?thesis by (simp add: re_acquire_state_context_def)
  next
    case None
    have "acquires dfa xs ?h (cd_hit xs c) os (do { (p, dfa, os) \<leftarrow> create_cd_newstate dfa ns c ?h os;
        Some (if p = None then REG_ESPACE else REG_NOERROR, p, dfa, os) })"
      by (rule acquires_created [OF tab None create_cd_ok [OF tab ns valid c]]) (simp add: cd_hit_def)
    with start None show ?thesis by (simp add: re_acquire_state_context_def)
  qed
qed


section \<open>Adding nodes\<close>

definition nodes_ok :: "re_dfa \<Rightarrow> bool" where
  "nodes_ok dfa \<longleftrightarrow> nodes_len dfa \<le> nodes_alloc dfa \<and> 0 < nodes_alloc dfa \<and>
     (\<exists>ts ns ois eds ecs. dfa_nodes dfa = Live ts \<and> nexts dfa = Live ns \<and> org_indices dfa = Live ois
        \<and> edests dfa = Live eds \<and> eclosures dfa = Live ecs
        \<and> length ts = nodes_alloc dfa \<and> length ns = nodes_alloc dfa \<and> length ois = nodes_alloc dfa
        \<and> length eds = nodes_alloc dfa \<and> length ecs = nodes_alloc dfa)"

text \<open>The tokens in use.\<close>

definition tokens :: "re_dfa \<Rightarrow> re_token list" where
  "tokens dfa = (case dfa_nodes dfa of Live ts \<Rightarrow> take (nodes_len dfa) ts | Freed \<Rightarrow> [])"

lemma store_node_ok:
  assumes "nodes_ok dfa" and "nodes_len dfa < nodes_alloc dfa"
  shows "\<exists>dfa'. store_node dfa t = Some (int (nodes_len dfa), dfa') \<and> nodes_ok dfa'
    \<and> tokens dfa' = tokens dfa @ [new_token dfa t]"
proof -
  obtain ts ns ois eds ecs where b: "dfa_nodes dfa = Live ts" "nexts dfa = Live ns" "org_indices dfa = Live ois"
      "edests dfa = Live eds" "eclosures dfa = Live ecs"
    and len: "length ts = nodes_alloc dfa" "length ns = nodes_alloc dfa" "length ois = nodes_alloc dfa"
      "length eds = nodes_alloc dfa" "length ecs = nodes_alloc dfa"
    using assms(1) unfolding nodes_ok_def by blast
  let ?n = "nodes_len dfa"
  let ?dfa = "dfa\<lparr>dfa_nodes := Live (ts[?n := new_token dfa t]), nexts := Live (ns[?n := -1]),
    edests := Live (eds[?n := init_empty]), eclosures := Live (ecs[?n := init_empty]), nodes_len := ?n + 1\<rparr>"
  have "store_node dfa t = Some (int ?n, ?dfa)"
    using b len assms(2) by (simp add: store_node_def write_block_def mem_write_1 Let_def)
  moreover have "nodes_ok ?dfa" using b len assms(2) by (simp add: nodes_ok_def)
  moreover have "tokens ?dfa = tokens dfa @ [new_token dfa t]"
    using b len assms(2) by (simp add: tokens_def take_Suc_conv_app_nth)
  ultimately show ?thesis by blast
qed

lemma enlarge_nodes_ok:
  assumes "nodes_ok dfa" and "nodes_alloc dfa < 2 ^ 62" and "False \<notin> set os"
  shows "\<exists>ok dfa' os'. enlarge_nodes dfa os = Some (ok, dfa', os') \<and>
    (\<not> ok \<and> dfa' = dfa \<and> idx_max < nodes_alloc dfa * 2 \<or>
     ok \<and> nodes_ok dfa' \<and> nodes_alloc dfa' = nodes_alloc dfa * 2 \<and> nodes_len dfa' = nodes_len dfa
       \<and> tokens dfa' = tokens dfa \<and> mb_cur_max dfa' = mb_cur_max dfa)"
proof -
  obtain ts ns ois eds ecs where b: "dfa_nodes dfa = Live ts" "nexts dfa = Live ns" "org_indices dfa = Live ois"
      "edests dfa = Live eds" "eclosures dfa = Live ecs"
    and len: "length ts = nodes_alloc dfa" "length ns = nodes_alloc dfa" "length ois = nodes_alloc dfa"
      "length eds = nodes_alloc dfa" "length ecs = nodes_alloc dfa"
      "nodes_len dfa \<le> nodes_alloc dfa" "0 < nodes_alloc dfa"
    using assms(1) unfolding nodes_ok_def by blast
  let ?n = "nodes_alloc dfa * 2"
  have n: "?n mod 2 ^ 64 = ?n" using assms(2) by simp
  have granted: "\<exists>os'. alloc os = (True, os') \<and> False \<notin> set os'" if "False \<notin> set os" for os
    using that by (cases os rule: alloc.cases) auto
  have re: "\<exists>os'. realloc_block x (Live xs) ?n os = Some (Some (Live (xs @ replicate (?n - length xs) x)), Freed, os')
      \<and> False \<notin> set os'"
    if "False \<notin> set os" "length xs \<le> ?n" for os and x :: 'b and xs
    using granted [OF that(1)] that(2) by (auto simp: realloc_block_def)
  show ?thesis
  proof (cases "idx_max < ?n")
    case True
    then have "enlarge_nodes dfa os = Some (False, dfa, os)" by (simp add: enlarge_nodes_def n del: power_numeral)
    with True show ?thesis by blast
  next
    case False
    have lts: "length ts \<le> ?n" "length ns \<le> ?n" "length ois \<le> ?n" "length eds \<le> ?n" "length ecs \<le> ?n"
      using len by simp_all
    obtain o1 where o1: "realloc_block node_garbage (Live ts) ?n os
        = Some (Some (Live (ts @ replicate (?n - length ts) node_garbage)), Freed, o1)" "False \<notin> set o1"
      using re [OF assms(3) lts(1)] by blast
    obtain o2 where o2: "realloc_block idx_garbage (Live ns) ?n o1
        = Some (Some (Live (ns @ replicate (?n - length ns) idx_garbage)), Freed, o2)" "False \<notin> set o2"
      using re [OF o1(2) lts(2)] by blast
    obtain o3 where o3: "realloc_block idx_garbage (Live ois) ?n o2
        = Some (Some (Live (ois @ replicate (?n - length ois) idx_garbage)), Freed, o3)" "False \<notin> set o3"
      using re [OF o2(2) lts(3)] by blast
    obtain o4 where o4: "realloc_block init_empty (Live eds) ?n o3
        = Some (Some (Live (eds @ replicate (?n - length eds) init_empty)), Freed, o4)" "False \<notin> set o4"
      using re [OF o3(2) lts(4)] by blast
    obtain o5 where o5: "realloc_block init_empty (Live ecs) ?n o4
        = Some (Some (Live (ecs @ replicate (?n - length ecs) init_empty)), Freed, o5)" "False \<notin> set o5"
      using re [OF o4(2) lts(5)] by blast
    have "\<exists>dfa'. enlarge_nodes dfa os = Some (True, dfa', o5) \<and> nodes_ok dfa' \<and> nodes_alloc dfa' = ?n
        \<and> nodes_len dfa' = nodes_len dfa \<and> tokens dfa' = tokens dfa \<and> mb_cur_max dfa' = mb_cur_max dfa"
      using False n o1(1) o2(1) o3(1) o4(1) o5(1) b len
      by (simp add: enlarge_nodes_def nodes_ok_def tokens_def del: power_numeral)
    then show ?thesis by blast
  qed
qed


section \<open>Requests in sequence\<close>

text \<open>One request of the compiler or the matcher, answered.\<close>

inductive table_step :: "re_dfa \<Rightarrow> re_dfa \<Rightarrow> bool" where
  by_nodes: "set_rep ns xs \<Longrightarrow> valid_nodes dfa xs \<Longrightarrow>
     re_acquire_state dfa ns os = Some (e, p, dfa', os') \<Longrightarrow> table_step dfa dfa'"
| by_context: "set_rep ns xs \<Longrightarrow> valid_nodes dfa xs \<Longrightarrow> c AND 15 = c \<Longrightarrow>
     re_acquire_state_context dfa ns c os = Some (e, p, dfa', os') \<Longrightarrow> table_step dfa dfa'"

inductive_cases table_stepE: "table_step dfa dfa'"

lemma acquires_extends:
  "acquires dfa xs h P os (Some (e, p, dfa', os')) \<Longrightarrow> table_ok dfa' \<and> extends dfa dfa'"
  by (simp add: acquires_def)

lemma re_acquire_state_extends:
  assumes tab: "table_ok dfa" and ns: "set_rep ns xs" and valid: "valid_nodes dfa xs"
    and r: "re_acquire_state dfa ns os = Some (e, p, dfa', os')"
  shows "table_ok dfa' \<and> extends dfa dfa'"
proof (cases "xs = []")
  case True
  then have "dfa' = dfa" using r set_rep_nelem [OF ns] by (simp add: re_acquire_state_def)
  with tab extends_refl show ?thesis by simp
next
  case False
  from re_acquire_state_ok [OF tab ns valid False, of os] r show ?thesis
    by (auto dest: acquires_extends)
qed

lemma re_acquire_state_context_extends:
  assumes tab: "table_ok dfa" and ns: "set_rep ns xs" and valid: "valid_nodes dfa xs" and c: "c AND 15 = c"
    and r: "re_acquire_state_context dfa ns c os = Some (e, p, dfa', os')"
  shows "table_ok dfa' \<and> extends dfa dfa'"
proof (cases "xs = []")
  case True
  then have "dfa' = dfa" using r set_rep_nelem [OF ns] by (simp add: re_acquire_state_context_def)
  with tab extends_refl show ?thesis by simp
next
  case False
  from re_acquire_state_context_ok [OF tab ns valid False c, of os] r show ?thesis
    by (auto dest: acquires_extends)
qed

lemma table_step_extends:
  "table_step dfa dfa' \<Longrightarrow> table_ok dfa \<Longrightarrow> table_ok dfa' \<and> extends dfa dfa'"
  by (erule table_stepE) (erule (3) re_acquire_state_extends, erule (4) re_acquire_state_context_extends)

lemma table_steps_extend: "table_step\<^sup>*\<^sup>* dfa dfa' \<Longrightarrow> table_ok dfa \<Longrightarrow> table_ok dfa' \<and> extends dfa dfa'"
  by (induction rule: rtranclp_induct) (auto intro: extends_refl dest: table_step_extends extends_trans)

lemma context_lookup:
  assumes tab: "table_ok dfa" and ns: "set_rep ns xs" and "xs \<noteq> []" and "lookup dfa (key_hash xs c) (cd_hit xs c) = Some q"
  shows "re_acquire_state_context dfa ns c os = Some (REG_NOERROR, Some q, dfa, os)"
proof -
  have "cd_test ns c (key_hash xs c) s = Some (cd_hit xs c s)" if "s \<in> set (heap dfa)" for s
    using that tab cd_test_ok [OF _ ns] by (auto simp: table_ok_def)
  note find = find_state_lookup [where h = "key_hash xs c", OF tab this]
  show ?thesis
    using find assms(3,4) set_rep_nelem [OF ns] calc_state_hash_ok [OF ns] spot_states_ok [OF tab]
    by (simp add: re_acquire_state_context_def)
qed

section \<open>Properties\<close>

text \<open>C23: a state asked for by its nodes and its context is made once: whatever states are asked for afterwards,
  asking again for the same nodes (in whatever array) in the same context returns the same pointer,
  allocates nothing and leaves the table as it is.\<close>

theorem acquired_state_is_stable:
  assumes "table_ok dfa" and "set_rep ns xs" and "valid_nodes dfa xs" and "xs \<noteq> []"
    and "c AND 15 = c" and "re_acquire_state_context dfa ns c os = Some (e, Some p, dfa1, os')"
    and "table_step\<^sup>*\<^sup>* dfa1 dfa2" and "set_rep ns' xs"
  shows "re_acquire_state_context dfa2 ns' c os2 = Some (REG_NOERROR, Some p, dfa2, os2)"
proof -
  have a: "table_ok dfa1" "lookup dfa1 (key_hash xs c) (cd_hit xs c) = Some p"
    using re_acquire_state_context_ok [OF assms(1-5), of os] assms(6) by (simp_all add: acquires_def)
  have "table_ok dfa2" "extends dfa1 dfa2" using table_steps_extend [OF assms(7) a(1)] by simp_all
  from context_lookup [OF this(1) assms(8,4) lookup_stable [OF a(1) this(2) a(2)]] show ?thesis .
qed

definition example_token :: "re_token_type \<Rightarrow> 10 word \<Rightarrow> re_token" where
  "example_token ty c = \<lparr>opr = Idx_opr 0, tok_type = ty, constraint = c, duplicated = False, opt_subexp = False,
     tok_accept_mb = False, mb_partial = False, word_char = False\<rparr>"

definition example_dfa :: re_dfa where
  "example_dfa = \<lparr>dfa_nodes = Live [example_token CHARACTER 0, example_token END_OF_RE 1], nodes_alloc = 2,
     nodes_len = 2, nexts = Live [1, -1], org_indices = Live [0, 0], edests = Live [init_empty, init_empty],
     eclosures = Live [init_empty, init_empty],
     state_table = [\<lparr>num = 0, arr_alloc = 0, arr = []\<rparr>, \<lparr>num = 0, arr_alloc = 0, arr = []\<rparr>],
     state_hash_mask = 1, mb_cur_max = 1, heap = []\<rparr>"

lemma example_dfa_ok: "table_ok example_dfa" "valid_nodes example_dfa [0, 1]"
  by (simp_all add: table_ok_def spot_ok_def example_dfa_def valid_nodes_def node_at_def mem_read_def)

text \<open>C22: what \<open>re_acquire_state_context\<close> returns: no memory, and then the table is unchanged and an allocation was
  refused, or a state in the table for exactly the nodes and the context asked for. Its \<open>nodes\<close> are
  those whose constraint on what comes before holds in the context (a state made without a context, context 0, keeps
  them all), its \<open>non_eps_nodes\<close> the ones of these that are no epsilon nodes, and its flags say whether the
  nodes include the end of the expression and a back reference.\<close>

theorem acquired_state_is_for_its_nodes:
  assumes "table_ok dfa" and "set_rep ns xs" and "valid_nodes dfa xs" and "xs \<noteq> []" and "c AND 15 = c"
  shows "\<exists>e p dfa' os'. re_acquire_state_context dfa ns c os = Some (e, p, dfa', os') \<and> table_ok dfa' \<and>
    (case p of
       None \<Rightarrow> e = REG_ESPACE \<and> dfa' = dfa \<and> False \<in> set os
     | Some q \<Rightarrow> e = REG_NOERROR \<and> q < length (heap dfa') \<and> ctx (heap dfa' ! q) = c \<and> state_for dfa xs (heap dfa' ! q))"
proof -
  obtain e p dfa' os' where r: "re_acquire_state_context dfa ns c os = Some (e, p, dfa', os')"
      "table_ok dfa'" "extends dfa dfa'"
      "case p of None \<Rightarrow> e = REG_ESPACE \<and> dfa' = dfa \<and> False \<in> set os
       | Some q \<Rightarrow> e = REG_NOERROR \<and> lookup dfa' (key_hash xs c) (cd_hit xs c) = Some q \<and> q < length (heap dfa')
           \<and> cd_hit xs c (heap dfa' ! q) \<and> (dfa' = dfa \<or> q = length (heap dfa) \<and> state_for dfa xs (heap dfa' ! q))"
    using re_acquire_state_context_ok [OF assms, of os] unfolding acquires_def by blast
  have for_xs: "state_for dfa xs s" if "s \<in> set (heap dfa')" "cd_hit xs c s" for s
  proof -
    note hit = that
    obtain zs where zs: "state_for dfa' zs s" using table_ok_state [OF r(2) hit(1)] ..
    then have "set_rep (entrance_set s) zs" by (simp add: state_for_def)
    with hit(2) have "zs = xs" using set_rep_unique by (auto simp: cd_hit_def)
    with zs show ?thesis by (simp add: extends_nodes(3) [OF r(3)])
  qed
  show ?thesis
  proof (cases p)
    case None
    with r show ?thesis by simp
  next
    case (Some q)
    with r(4) have q: "e = REG_NOERROR" "q < length (heap dfa')" "cd_hit xs c (heap dfa' ! q)" by simp_all
    then have "state_for dfa xs (heap dfa' ! q)" by (intro for_xs) simp_all
    moreover have "ctx (heap dfa' ! q) = c" using q(3) by (simp add: cd_hit_def)
    ultimately show ?thesis using Some q(1,2) r(1,2) by simp
  qed
qed

text \<open>\<open>re_dfa_add_node\<close>, when no allocation is refused: it appends the token with its constraint cleared
  and returns its index, keeping the tokens before it and the five arrays in step, or it gives up with -1 because the
  doubled arrays would need more entries than \<open>Idx\<close> can count, and then nothing has changed.\<close>

theorem add_node_appends:
  assumes "nodes_ok dfa" and "nodes_alloc dfa < 2 ^ 62" and "False \<notin> set os"
  shows "\<exists>i dfa' os'. re_dfa_add_node dfa t os = Some (i, dfa', os') \<and>
    (i = -1 \<and> dfa' = dfa \<and> idx_max < nodes_alloc dfa * 2 \<or>
     i = int (nodes_len dfa) \<and> nodes_ok dfa' \<and> tokens dfa' = tokens dfa @ [new_token dfa t])"
proof (cases "nodes_alloc dfa \<le> nodes_len dfa")
  case False
  then show ?thesis using store_node_ok [OF assms(1), of t] by (auto simp: re_dfa_add_node_def)
next
  case True
  obtain ok d1 os1 where e: "enlarge_nodes dfa os = Some (ok, d1, os1)"
    "\<not> ok \<and> d1 = dfa \<and> idx_max < nodes_alloc dfa * 2 \<or>
     ok \<and> nodes_ok d1 \<and> nodes_alloc d1 = nodes_alloc dfa * 2 \<and> nodes_len d1 = nodes_len dfa
       \<and> tokens d1 = tokens dfa \<and> mb_cur_max d1 = mb_cur_max dfa"
    using enlarge_nodes_ok [OF assms] by blast
  show ?thesis
  proof (cases ok)
    case False
    with e True show ?thesis by (auto simp: re_dfa_add_node_def)
  next
    case t: True
    have "nodes_len d1 < nodes_alloc d1" using e(2) t assms(1) by (auto simp: nodes_ok_def)
    moreover have "new_token d1 t = new_token dfa t" using e(2) t by (simp add: new_token_def)
    ultimately show ?thesis using store_node_ok [of d1 t] e t True by (auto simp: re_dfa_add_node_def)
  qed
qed

theorem add_node_appends_witness:
  "\<exists>i dfa' os'. re_dfa_add_node example_dfa (example_token ANCHOR 1) [] = Some (i, dfa', os') \<and> i = 2 \<and> nodes_ok dfa'
     \<and> tokens dfa' = [example_token CHARACTER 0, example_token END_OF_RE 1, example_token ANCHOR 0]"
proof -
  have "nodes_ok example_dfa" by (simp add: nodes_ok_def example_dfa_def)
  moreover have "tokens example_dfa = [example_token CHARACTER 0, example_token END_OF_RE 1]"
    "new_token example_dfa (example_token ANCHOR 1) = example_token ANCHOR 0"
    by (simp_all add: tokens_def example_dfa_def new_token_def example_token_def)
  ultimately show ?thesis using add_node_appends [of example_dfa "[]" "example_token ANCHOR 1"]
    by (simp add: example_dfa_def)
qed


theorem acquired_state_is_for_its_nodes_witness:
  "\<exists>e p dfa' os'. re_acquire_state_context example_dfa (example_set [0, 1]) 2 [] = Some (e, p, dfa', os') \<and> table_ok dfa' \<and>
    (case p of
       None \<Rightarrow> e = REG_ESPACE \<and> dfa' = example_dfa \<and> False \<in> set []
     | Some q \<Rightarrow> e = REG_NOERROR \<and> q < length (heap dfa') \<and> ctx (heap dfa' ! q) = 2
         \<and> state_for example_dfa [0, 1] (heap dfa' ! q))"
  by (rule acquired_state_is_for_its_nodes [OF example_dfa_ok(1) _ example_dfa_ok(2)])
    (simp_all add: set_rep_example)

theorem acquired_state_is_stable_witness:
  "\<exists>p dfa1. re_acquire_state_context dfa1 (example_set [0, 1]) 2 [False] = Some (REG_NOERROR, Some p, dfa1, [False])"
proof -
  have rep: "set_rep (example_set [0, 1]) [0, 1]" by (rule set_rep_example) simp
  from re_acquire_state_context_ok [OF example_dfa_ok(1) rep example_dfa_ok(2), of 2 "[]", simplified]
  obtain e p dfa1 os' where
    "re_acquire_state_context example_dfa (example_set [0, 1]) 2 [] = Some (e, Some p, dfa1, os')"
    by (auto simp: acquires_def split: option.splits)
  from acquired_state_is_stable [OF example_dfa_ok(1) rep example_dfa_ok(2) _ _ this rtranclp.rtrancl_refl rep, of "[False]"]
  show ?thesis by auto
qed

text \<open>C24: when the node array could be enlarged but one of the four arrays enlarged after it could not, \<open>re_dfa_add_node\<close>
  fails and leaves the DFA with its old pointers; those whose reallocation succeeded (the answers \<open>x\<close>, \<open>a\<close>, \<open>b\<close>, \<open>c\<close>) point to
  blocks that \<open>realloc\<close> has freed. The clean-up of the failed compilation then frees a block a second time, unless
  all four reallocations were refused.\<close>

theorem add_node_failure_leaves_freed_arrays:
  assumes "nodes_ok dfa" and "nodes_len dfa = nodes_alloc dfa" and "nodes_alloc dfa * 2 \<le> idx_max" and "\<not> (x \<and> a \<and> b \<and> c)"
  shows "\<exists>dfa' os'. re_dfa_add_node dfa t ([True, x, a, b, c] @ os) = Some (-1, dfa', os')
    \<and> (nexts dfa' = Freed \<longleftrightarrow> x) \<and> (org_indices dfa' = Freed \<longleftrightarrow> a) \<and> (edests dfa' = Freed \<longleftrightarrow> b) \<and> (eclosures dfa' = Freed \<longleftrightarrow> c)
    \<and> (free_after_error dfa' = None \<longleftrightarrow> x \<or> a \<or> b \<or> c)"
proof -
  obtain ts ns ois eds ecs where bl: "dfa_nodes dfa = Live ts" "nexts dfa = Live ns" "org_indices dfa = Live ois"
      "edests dfa = Live eds" "eclosures dfa = Live ecs" and len: "length ts = nodes_alloc dfa" "length eds = nodes_alloc dfa" "length ecs = nodes_alloc dfa"
    using assms(1) unfolding nodes_ok_def by blast
  have n: "nodes_alloc dfa * 2 mod 2 ^ 64 = nodes_alloc dfa * 2" using assms(3) by simp
  let ?b = "\<lambda>freed b. if freed then Freed else b"
  let ?dfa = "dfa\<lparr>dfa_nodes := Live (take (nodes_alloc dfa * 2) ts @ replicate (nodes_alloc dfa * 2 - length ts) node_garbage),
    nexts := ?b x (Live ns), org_indices := ?b a (Live ois), edests := ?b b (Live eds), eclosures := ?b c (Live ecs)\<rparr>"
  have "enlarge_nodes dfa ([True, x, a, b, c] @ os) = Some (False, ?dfa, os)"
    using assms(3,4) n bl by (cases x; cases a; cases b; cases c) (simp_all add: enlarge_nodes_def realloc_block_def Let_def)
  then have "re_dfa_add_node dfa t ([True, x, a, b, c] @ os) = Some (-1, ?dfa, os)" using assms(2) by (simp add: re_dfa_add_node_def)
  moreover have "free_after_error ?dfa = None \<longleftrightarrow> x \<or> a \<or> b \<or> c"
    using assms(2) len by (cases x; cases a; cases b; cases c) (simp_all add: free_after_error_def free_node_arrays_def read_all_some)
  ultimately show ?thesis by (intro exI [of _ ?dfa] exI [of _ os]) simp
qed

theorem add_node_failure_leaves_freed_arrays_witness:
  "\<exists>dfa' os'. re_dfa_add_node example_dfa (example_token CHARACTER 0) ([True, False, True, False, True] @ []) = Some (-1, dfa', os')
     \<and> (nexts dfa' = Freed \<longleftrightarrow> False) \<and> (org_indices dfa' = Freed \<longleftrightarrow> True) \<and> (edests dfa' = Freed \<longleftrightarrow> False) \<and> (eclosures dfa' = Freed \<longleftrightarrow> True)
     \<and> (free_after_error dfa' = None \<longleftrightarrow> False \<or> True \<or> False \<or> True)"
  by (rule add_node_failure_leaves_freed_arrays) (simp_all add: example_dfa_def nodes_ok_def)

end
