(* ===== verification/RegTree.thy ===== *)
theory RegTree
  imports StateTable "HOL-Library.Tree"
begin

text \<open>
  The structure tree of a regular expression: src/src/regex/regcomp.c, the creation and the duplication of its nodes,
  the two visits, and the passes of \<open>analyze\<close> that turn it into the nodes of the DFA.

  \<^item> The nodes are in the storage of the DFA, in the order they were created; a node is given by its place there, and
    a null pointer is \<open>None\<close>. Storage comes in blocks of 15 nodes and is released as a whole, when compiling ends.
  \<^item> Following a null or wild pointer is undefined: the whole computation is \<open>None\<close>. The visits are loops that need
    not end on any heap of nodes, so they are partial functions, and a visit that does not end is \<open>None\<close> too.
  \<^item> A function of the code that may fail returns its \<open>reg_errcode\<close>, or \<open>None\<close> for a null pointer, and the state.
\<close>

section \<open>Nodes\<close>

record bin_tree =
  tree_parent :: "nat option"
  tree_left :: "nat option"
  tree_right :: "nat option"
  tree_first :: "nat option"
  tree_next :: "nat option"
  tree_token :: re_token
  tree_idx :: int

text \<open>
  The multibyte part of a bracket: the characters, the ranges and the classes, in arrays that grow. \<open>ranges_freed\<close> says that one
  of the range arrays has been released although the pointer to it is still there.
\<close>

record re_charset =
  mbchars :: "int list option"
  range_starts :: "int list option"
  range_ends :: "int list option"
  char_classes :: "int list option"
  non_match :: bool
  nmbchars :: nat
  nranges :: nat
  nchar_classes :: nat
  ranges_freed :: bool

text \<open>What compiling works on: the DFA and the fields of \<open>re_dfa_t\<close> and \<open>regex_t\<close> the passes use. The
  sets of a bracket belong to the node that was created for it: \<open>released\<close> has the nodes whose sets have been freed. A
  multibyte set is given by its place in \<open>charsets\<close>.\<close>

record compiler =
  dfa_of :: re_dfa
  tree_nodes :: "bin_tree list"
  storage_idx :: nat
  subexp_map :: "int list option"
  used_bkref_map :: "64 word"
  completed_bkref_map :: "64 word"
  has_plural_match :: bool
  no_sub :: bool
  re_nsub :: nat
  pending :: answers
  charsets :: "re_charset list"
  released :: "nat list"

definition BIN_TREE_STORAGE_SIZE :: nat where "BIN_TREE_STORAGE_SIZE = 15"

definition tree_at :: "compiler \<Rightarrow> nat \<Rightarrow> bin_tree option" where
  "tree_at c a = mem_read (tree_nodes c) a"

definition update_tree :: "nat \<Rightarrow> (bin_tree \<Rightarrow> bin_tree) \<Rightarrow> compiler \<Rightarrow> compiler option" where
  "update_tree a f c = do { n \<leftarrow> tree_at c a; Some (c\<lparr>tree_nodes := (tree_nodes c)[a := f n]\<rparr>) }"

definition set_parent :: "nat option \<Rightarrow> nat \<Rightarrow> compiler \<Rightarrow> compiler option" where
  "set_parent child a c = (case child of None \<Rightarrow> Some c | Some b \<Rightarrow> update_tree b (\<lambda>n. n\<lparr>tree_parent := Some a\<rparr>) c)"

definition new_tree :: "nat option \<Rightarrow> nat option \<Rightarrow> re_token \<Rightarrow> bin_tree" where
  "new_tree l r t = \<lparr>tree_parent = None, tree_left = l, tree_right = r, tree_first = None, tree_next = None,
     tree_token = t\<lparr>duplicated := False, opt_subexp := False\<rparr>, tree_idx = -1\<rparr>"

definition create_token_tree :: "nat option \<Rightarrow> nat option \<Rightarrow> re_token \<Rightarrow> compiler \<Rightarrow> (nat option \<times> compiler) option" where
  "create_token_tree l r t c =
     (let (ok, idx, os) = (if storage_idx c = BIN_TREE_STORAGE_SIZE
                           then let (ok, os) = alloc (pending c) in (ok, if ok then 0 else storage_idx c, os)
                           else (True, storage_idx c, pending c))
      in if \<not> ok then Some (None, c\<lparr>pending := os\<rparr>)
         else do { let a = length (tree_nodes c);
                   let c = c\<lparr>tree_nodes := tree_nodes c @ [new_tree l r t], storage_idx := idx + 1, pending := os\<rparr>;
                   c \<leftarrow> set_parent l a c;
                   c \<leftarrow> set_parent r a c;
                   Some (Some a, c) })"

definition blank_token :: "re_token_type \<Rightarrow> re_token" where
  "blank_token ty = \<lparr>opr = Idx_opr 0, tok_type = ty, constraint = 0, duplicated = False, opt_subexp = False,
     tok_accept_mb = False, mb_partial = False, word_char = False\<rparr>"

definition create_tree :: "nat option \<Rightarrow> nat option \<Rightarrow> re_token_type \<Rightarrow> compiler \<Rightarrow> (nat option \<times> compiler) option" where
  "create_tree l r ty c = create_token_tree l r (blank_token ty) c"

section \<open>The visits\<close>

type_synonym pass = "nat \<Rightarrow> compiler \<Rightarrow> (reg_errcode \<times> compiler) option"

text \<open>
  \<open>postorder\<close>: the loops down to the first child and up again are one loop, which goes on either down at \<open>node\<close> or,
  after \<open>node\<close> has been visited, up from it.
\<close>

partial_function (option) postorder_loop :: "pass \<Rightarrow> bool \<Rightarrow> nat \<Rightarrow> compiler \<Rightarrow> (reg_errcode \<times> compiler) option" where
  "postorder_loop fn down node c =
     (if down then
        do { n \<leftarrow> tree_at c node;
             (case tree_left n of
                Some l \<Rightarrow> postorder_loop fn True l c
              | None \<Rightarrow> (case tree_right n of
                  Some r \<Rightarrow> postorder_loop fn True r c
                | None \<Rightarrow> postorder_loop fn False node c)) }
      else
        do { (err, c) \<leftarrow> fn node c;
             if err \<noteq> REG_NOERROR then Some (err, c)
             else do { n \<leftarrow> tree_at c node;
                       (case tree_parent n of
                          None \<Rightarrow> Some (REG_NOERROR, c)
                        | Some p \<Rightarrow>
                            do { pn \<leftarrow> tree_at c p;
                                 (case tree_right pn of
                                    None \<Rightarrow> postorder_loop fn False p c
                                  | Some r \<Rightarrow> if r = node then postorder_loop fn False p c
                                              else postorder_loop fn True r c) }) } })"

definition visit_postorder :: "pass \<Rightarrow> nat \<Rightarrow> compiler \<Rightarrow> (reg_errcode \<times> compiler) option" where
  "visit_postorder fn root c = postorder_loop fn True root c"

text \<open>The loop of \<open>preorder\<close> up and to the right: from \<open>node\<close>, reached from \<open>prev\<close>, to the next node to visit, if any.\<close>

partial_function (option) climb :: "compiler \<Rightarrow> nat option \<Rightarrow> nat \<Rightarrow> nat option option" where
  "climb c prev node =
     do { n \<leftarrow> tree_at c node;
          if tree_right n = prev \<or> tree_right n = None then
            (case tree_parent n of None \<Rightarrow> Some None | Some p \<Rightarrow> climb c (Some node) p)
          else Some (tree_right n) }"

partial_function (option) preorder_loop :: "pass \<Rightarrow> nat \<Rightarrow> compiler \<Rightarrow> (reg_errcode \<times> compiler) option" where
  "preorder_loop fn node c =
     do { (err, c) \<leftarrow> fn node c;
          if err \<noteq> REG_NOERROR then Some (err, c)
          else do { n \<leftarrow> tree_at c node;
                    (case tree_left n of
                       Some l \<Rightarrow> preorder_loop fn l c
                     | None \<Rightarrow> do { m \<leftarrow> climb c None node;
                                    (case m of None \<Rightarrow> Some (REG_NOERROR, c) | Some b \<Rightarrow> preorder_loop fn b c) }) } }"

definition visit_preorder :: "pass \<Rightarrow> nat \<Rightarrow> compiler \<Rightarrow> (reg_errcode \<times> compiler) option" where
  "visit_preorder fn root c = preorder_loop fn root c"

section \<open>Duplicating a tree\<close>

text \<open>Where the pointer to the next duplicate goes: \<open>*p_new\<close>.\<close>

datatype place = Root | Left_of nat | Right_of nat

definition put_child :: "place \<Rightarrow> nat option \<Rightarrow> nat option \<Rightarrow> compiler \<Rightarrow> (nat option \<times> compiler) option" where
  "put_child p new dup_root c = (case p of
      Root \<Rightarrow> Some (new, c)
    | Left_of a \<Rightarrow> do { c \<leftarrow> update_tree a (\<lambda>n. n\<lparr>tree_left := new\<rparr>) c; Some (dup_root, c) }
    | Right_of a \<Rightarrow> do { c \<leftarrow> update_tree a (\<lambda>n. n\<lparr>tree_right := new\<rparr>) c; Some (dup_root, c) })"

text \<open>The climb, in both trees: the next node to copy and the duplicate of its parent.\<close>

partial_function (option) climb_both :: "compiler \<Rightarrow> nat option \<Rightarrow> nat \<Rightarrow> nat option \<Rightarrow> (nat \<times> nat) option option" where
  "climb_both c prev node dup_node =
     do { n \<leftarrow> tree_at c node;
          d \<leftarrow> dup_node;
          if tree_right n = prev \<or> tree_right n = None then
            do { dn \<leftarrow> tree_at c d;
                 (case tree_parent n of None \<Rightarrow> Some None | Some p \<Rightarrow> climb_both c (Some node) p (tree_parent dn)) }
          else do { r \<leftarrow> tree_right n; Some (Some (r, d)) } }"

partial_function (option) duplicate_loop ::
  "nat \<Rightarrow> nat option \<Rightarrow> place \<Rightarrow> nat option \<Rightarrow> compiler \<Rightarrow> (nat option \<times> compiler) option" where
  "duplicate_loop node dup_node p_new dup_root c =
     do { n \<leftarrow> tree_at c node;
          (new, c) \<leftarrow> create_token_tree None None (tree_token n) c;
          (dup_root, c) \<leftarrow> put_child p_new new dup_root c;
          (case new of
             None \<Rightarrow> Some (None, c)
           | Some a \<Rightarrow>
               do { c \<leftarrow> update_tree a (\<lambda>m. m\<lparr>tree_parent := dup_node, tree_token := (tree_token m)\<lparr>duplicated := True\<rparr>\<rparr>) c;
                    (case tree_left n of
                       Some l \<Rightarrow> duplicate_loop l (Some a) (Left_of a) dup_root c
                     | None \<Rightarrow> do { m \<leftarrow> climb_both c None node (Some a);
                                    (case m of None \<Rightarrow> Some (dup_root, c)
                                     | Some (b, d) \<Rightarrow> duplicate_loop b (Some d) (Right_of d) dup_root c) }) }) }"

definition duplicate_tree :: "nat \<Rightarrow> compiler \<Rightarrow> (nat option \<times> compiler) option" where
  "duplicate_tree root c = do { n \<leftarrow> tree_at c root; duplicate_loop root (tree_parent n) Root None c }"

definition mark_opt_subexp :: "int \<Rightarrow> pass" where
  "mark_opt_subexp idx node c =
     do { n \<leftarrow> tree_at c node;
          if tok_type (tree_token n) = SUBEXP \<and> opr (tree_token n) = Idx_opr idx
          then do { c \<leftarrow> update_tree node (\<lambda>n. n\<lparr>tree_token := (tree_token n)\<lparr>opt_subexp := True\<rparr>\<rparr>) c; Some (REG_NOERROR, c) }
          else Some (REG_NOERROR, c) }"

section \<open>Releasing a tree\<close>

definition free_charset :: "re_charset \<Rightarrow> unit option" where
  "free_charset cset = (if ranges_freed cset then None else Some ())"

definition charset_at :: "token_opr \<Rightarrow> compiler \<Rightarrow> re_charset option" where
  "charset_at o' c = (case o' of Mbcset i \<Rightarrow> mem_read (charsets c) i | _ \<Rightarrow> None)"

definition release :: "nat \<Rightarrow> compiler \<Rightarrow> compiler option" where
  "release node c = (if node \<in> set (released c) then None else Some (c\<lparr>released := node # released c\<rparr>))"

definition free_token :: "nat \<Rightarrow> re_token \<Rightarrow> compiler \<Rightarrow> compiler option" where
  "free_token node t c =
     (if tok_type t = COMPLEX_BRACKET \<and> \<not> duplicated t then
        do { cset \<leftarrow> charset_at (opr t) c; _ \<leftarrow> free_charset cset; release node c }
      else if tok_type t = SIMPLE_BRACKET \<and> \<not> duplicated t then release node c
      else Some c)"

definition free_tree :: pass where
  "free_tree node c = do { n \<leftarrow> tree_at c node; c \<leftarrow> free_token node (tree_token n) c; Some (REG_NOERROR, c) }"

section \<open>The passes\<close>

text \<open>\<open>1 << n\<close> of an \<open>int\<close>, converted to a word of the map: for \<open>n\<close> up to 30, as the index of a back reference is.\<close>

definition int_bit :: "int \<Rightarrow> 64 word" where
  "int_bit n = push_bit (nat n) 1"

fun opr_idx :: "token_opr \<Rightarrow> int option" where
  "opr_idx (Idx_opr i) = Some i"
| "opr_idx _ = None"

definition map_read :: "int list \<Rightarrow> int \<Rightarrow> int option" where
  "map_read m i = (if i < 0 then None else mem_read m (nat i))"

definition map_write :: "int list \<Rightarrow> int \<Rightarrow> int \<Rightarrow> int list option" where
  "map_write m i x = (if i < 0 then None else mem_write m (nat i) [x])"

definition optimize_subexps :: pass where
  "optimize_subexps node c =
     do { n \<leftarrow> tree_at c node;
          (case (tok_type (tree_token n) = OP_BACK_REF, subexp_map c) of
             (True, Some m) \<Rightarrow>
               do { idx \<leftarrow> opr_idx (opr (tree_token n));
                    i \<leftarrow> map_read m idx;
                    c \<leftarrow> update_tree node (\<lambda>n. n\<lparr>tree_token := (tree_token n)\<lparr>opr := Idx_opr i\<rparr>\<rparr>) c;
                    Some (REG_NOERROR, c\<lparr>used_bkref_map := used_bkref_map c OR int_bit i\<rparr>) }
           | _ \<Rightarrow>
             (case (tok_type (tree_token n) = SUBEXP, tree_left n) of
                (True, Some l) \<Rightarrow>
                  do { ln \<leftarrow> tree_at c l;
                       if tok_type (tree_token ln) = SUBEXP then
                         do { other_idx \<leftarrow> opr_idx (opr (tree_token ln));
                              c \<leftarrow> update_tree node (\<lambda>n. n\<lparr>tree_left := tree_left ln\<rparr>) c;
                              c \<leftarrow> set_parent (tree_left ln) node c;
                              m \<leftarrow> subexp_map c;
                              idx \<leftarrow> opr_idx (opr (tree_token n));
                              i \<leftarrow> map_read m idx;
                              m \<leftarrow> map_write m other_idx i;
                              let c = c\<lparr>subexp_map := Some m\<rparr>;
                              Some (REG_NOERROR,
                                if other_idx < 64 then c\<lparr>used_bkref_map := used_bkref_map c AND NOT (push_bit (nat other_idx) 1)\<rparr>
                                else c) }
                       else Some (REG_NOERROR, c) }
              | _ \<Rightarrow> Some (REG_NOERROR, c))) }"

text \<open>The root of the lowered subexpression, or null with \<open>REG_ESPACE\<close>. The code creates the four nodes before it looks
  at any, so a node that could not be had is \<open>None\<close> in the ones built on it.\<close>

definition set_subexp :: "token_opr \<Rightarrow> bool \<Rightarrow> nat \<Rightarrow> compiler \<Rightarrow> compiler option" where
  "set_subexp i opt a c = update_tree a (\<lambda>n. n\<lparr>tree_token := (tree_token n)\<lparr>opr := i, opt_subexp := opt\<rparr>\<rparr>) c"

definition lower_subexp :: "nat \<Rightarrow> compiler \<Rightarrow> (reg_errcode option \<times> nat option \<times> compiler) option" where
  "lower_subexp node c =
     do { n \<leftarrow> tree_at c node;
          i \<leftarrow> opr_idx (opr (tree_token n));
          if no_sub c \<and> tree_left n \<noteq> None \<and> (64 \<le> i \<or> used_bkref_map c AND push_bit (nat i) 1 = 0)
          then Some (None, tree_left n, c)
          else
            do { (op, c) \<leftarrow> create_tree None None OP_OPEN_SUBEXP c;
                 (cls, c) \<leftarrow> create_tree None None OP_CLOSE_SUBEXP c;
                 (tree1, c) \<leftarrow> (if tree_left n \<noteq> None then create_tree (tree_left n) cls CONCAT c else Some (cls, c));
                 (tree, c) \<leftarrow> create_tree op tree1 CONCAT c;
                 (case (tree, tree1, op, cls) of
                    (Some _, Some _, Some op, Some cls) \<Rightarrow>
                      do { c \<leftarrow> set_subexp (opr (tree_token n)) (opt_subexp (tree_token n)) op c;
                           c \<leftarrow> set_subexp (opr (tree_token n)) (opt_subexp (tree_token n)) cls c;
                           Some (None, tree, c) }
                  | _ \<Rightarrow> Some (Some REG_ESPACE, None, c)) } }"

text \<open>One child of a node, lowered if it is a subexpression; \<open>err\<close> is the error so far.\<close>

definition lower_child :: "(bin_tree \<Rightarrow> nat option) \<Rightarrow> (nat option \<Rightarrow> bin_tree \<Rightarrow> bin_tree) \<Rightarrow> reg_errcode \<Rightarrow> pass" where
  "lower_child child put err node c =
     do { n \<leftarrow> tree_at c node;
          (case child n of
             None \<Rightarrow> Some (err, c)
           | Some b \<Rightarrow>
               do { bn \<leftarrow> tree_at c b;
                    if tok_type (tree_token bn) = SUBEXP then
                      do { (e, t, c) \<leftarrow> lower_subexp b c;
                           c \<leftarrow> update_tree node (put t) c;
                           c \<leftarrow> set_parent t node c;
                           Some (case e of Some e \<Rightarrow> e | None \<Rightarrow> err, c) }
                    else Some (err, c) }) }"

definition lower_subexps :: pass where
  "lower_subexps node c =
     do { (err, c) \<leftarrow> lower_child tree_left (\<lambda>t n. n\<lparr>tree_left := t\<rparr>) REG_NOERROR node c;
          lower_child tree_right (\<lambda>t n. n\<lparr>tree_right := t\<rparr>) err node c }"


definition add_node :: "re_token \<Rightarrow> compiler \<Rightarrow> (int \<times> compiler) option" where
  "add_node t c = do { (i, d, os) \<leftarrow> re_dfa_add_node (dfa_of c) t (pending c); Some (i, c\<lparr>dfa_of := d, pending := os\<rparr>) }"

definition update_dfa :: "(re_dfa \<Rightarrow> re_dfa option) \<Rightarrow> compiler \<Rightarrow> compiler option" where
  "update_dfa f c = do { d \<leftarrow> f (dfa_of c); Some (c\<lparr>dfa_of := d\<rparr>) }"

text \<open>The constraint of an anchor is its \<open>ctx_type\<close>, cut to the ten bits of the field.\<close>

fun opr_ctx_type :: "token_opr \<Rightarrow> 10 word option" where
  "opr_ctx_type (Ctx_type w) = Some (ucast w)"
| "opr_ctx_type _ = None"

definition set_constraint :: "nat \<Rightarrow> 10 word \<Rightarrow> re_dfa \<Rightarrow> re_dfa option" where
  "set_constraint i w d =
     do { ts \<leftarrow> live (dfa_nodes d); t \<leftarrow> mem_read ts i;
          b \<leftarrow> write_block (dfa_nodes d) i (t\<lparr>constraint := w\<rparr>); Some (d\<lparr>dfa_nodes := b\<rparr>) }"

definition calc_first :: pass where
  "calc_first node c =
     do { n \<leftarrow> tree_at c node;
          if tok_type (tree_token n) = CONCAT then
            do { l \<leftarrow> tree_left n;
                 ln \<leftarrow> tree_at c l;
                 c \<leftarrow> update_tree node (\<lambda>n. n\<lparr>tree_first := tree_first ln, tree_idx := tree_idx ln\<rparr>) c;
                 Some (REG_NOERROR, c) }
          else
            do { (i, c) \<leftarrow> add_node (tree_token n) c;
                 c \<leftarrow> update_tree node (\<lambda>n. n\<lparr>tree_first := Some node, tree_idx := i\<rparr>) c;
                 if i = -1 then Some (REG_ESPACE, c)
                 else if tok_type (tree_token n) = ANCHOR then
                   do { w \<leftarrow> opr_ctx_type (opr (tree_token n));
                        c \<leftarrow> update_dfa (set_constraint (nat i) w) c;
                        Some (REG_NOERROR, c) }
                 else Some (REG_NOERROR, c) } }"

definition set_next :: "nat option \<Rightarrow> nat option \<Rightarrow> compiler \<Rightarrow> compiler option" where
  "set_next child x c = do { b \<leftarrow> child; update_tree b (\<lambda>n. n\<lparr>tree_next := x\<rparr>) c }"

definition calc_next :: pass where
  "calc_next node c =
     do { n \<leftarrow> tree_at c node;
          c \<leftarrow> (case tok_type (tree_token n) of
                  OP_DUP_ASTERISK \<Rightarrow> set_next (tree_left n) (Some node) c
                | CONCAT \<Rightarrow>
                    do { r \<leftarrow> tree_right n;
                         rn \<leftarrow> tree_at c r;
                         c \<leftarrow> set_next (tree_left n) (tree_first rn) c;
                         n \<leftarrow> tree_at c node;
                         set_next (tree_right n) (tree_next n) c }
                | _ \<Rightarrow>
                    do { c \<leftarrow> (if tree_left n \<noteq> None then set_next (tree_left n) (tree_next n) c else Some c);
                         n \<leftarrow> tree_at c node;
                         if tree_right n \<noteq> None then set_next (tree_right n) (tree_next n) c else Some c });
          Some (REG_NOERROR, c) }"

text \<open>\<open>node->first->node_idx\<close> of a child, or \<open>node->next->node_idx\<close> when it is null.\<close>

definition idx_of :: "compiler \<Rightarrow> nat option \<Rightarrow> int option" where
  "idx_of c p = do { a \<leftarrow> p; n \<leftarrow> tree_at c a; Some (tree_idx n) }"

definition edge_to :: "compiler \<Rightarrow> nat option \<Rightarrow> nat option \<Rightarrow> int option" where
  "edge_to c child nxt = (case child of None \<Rightarrow> idx_of c nxt | Some b \<Rightarrow> do { bn \<leftarrow> tree_at c b; idx_of c (tree_first bn) })"

definition set_edests :: "int \<Rightarrow> (re_node_set \<Rightarrow> answers \<Rightarrow> set_result) \<Rightarrow> pass" where
  "set_edests i init node c =
     (if i < 0 then None
      else do { eds \<leftarrow> live (edests (dfa_of c));
                s \<leftarrow> mem_read eds (nat i);
                (err, s, os) \<leftarrow> init s (pending c);
                b \<leftarrow> write_block (edests (dfa_of c)) (nat i) s;
                Some (err, c\<lparr>dfa_of := (dfa_of c)\<lparr>edests := b\<rparr>, pending := os\<rparr>) })"

definition set_nexts :: "int \<Rightarrow> int \<Rightarrow> compiler \<Rightarrow> compiler option" where
  "set_nexts i j c =
     (if i < 0 then None
      else update_dfa (\<lambda>d. do { b \<leftarrow> write_block (nexts d) (nat i) j; Some (d\<lparr>nexts := b\<rparr>) }) c)"

definition link_nfa_nodes :: pass where
  "link_nfa_nodes node c =
     do { n \<leftarrow> tree_at c node;
          let i = tree_idx n; t = tok_type (tree_token n)
          in if t = CONCAT \<or> t = END_OF_RE then Some (REG_NOERROR, c)
             else if t = OP_DUP_ASTERISK \<or> t = OP_ALT then
               do { let c = c\<lparr>has_plural_match := True\<rparr>;
                    l \<leftarrow> edge_to c (tree_left n) (tree_next n);
                    r \<leftarrow> edge_to c (tree_right n) (tree_next n);
                    set_edests i (\<lambda>s. node_set_init_2 s l r) node c }
             else
               do { j \<leftarrow> idx_of c (tree_next n);
                    if t = ANCHOR \<or> t = OP_OPEN_SUBEXP \<or> t = OP_CLOSE_SUBEXP
                    then set_edests i (\<lambda>s. node_set_init_1 j) node c
                    else if t = OP_BACK_REF
                    then do { c \<leftarrow> set_nexts i j c; set_edests i (\<lambda>s. node_set_init_1 j) node c }
                    else do { c \<leftarrow> set_nexts i j c; Some (REG_NOERROR, c) } } }"

text \<open>The passes of \<open>analyze\<close> over the tree, each one only if those before it succeeded; \<open>calc_next\<close> never fails.\<close>

definition and_then :: "(reg_errcode \<times> compiler) option \<Rightarrow> (compiler \<Rightarrow> (reg_errcode \<times> compiler) option) \<Rightarrow> (reg_errcode \<times> compiler) option" where
  "and_then r f = do { (err, c) \<leftarrow> r; if err \<noteq> REG_NOERROR then Some (err, c) else f c }"

definition build_nfa :: "nat \<Rightarrow> compiler \<Rightarrow> (reg_errcode \<times> compiler) option" where
  "build_nfa root c =
     and_then (visit_postorder calc_first root c)
       (\<lambda>c. and_then (visit_preorder calc_next root c)
              (\<lambda>c. visit_preorder link_nfa_nodes root c))"

end
