(* ===== verification/RegVisit.thy ===== *)
theory RegVisit
  imports RegTree
begin

text \<open>
  The two visits of the structure tree, \<open>postorder\<close> and \<open>preorder\<close> of src/src/regex/regcomp.c: on nodes that are linked
  as a tree, the loops with their parent pointers go through the nodes in postorder and in preorder, and end. The
  interface of a pass is the locale \<open>tree_pass\<close>.
\<close>

section \<open>The order of the visits\<close>

text \<open>The nodes from \<open>p\<close> down are linked as the tree \<open>t\<close> of their places.\<close>

fun linked :: "bin_tree list \<Rightarrow> nat option \<Rightarrow> nat option \<Rightarrow> nat tree \<Rightarrow> bool" where
  "linked ts par p Leaf \<longleftrightarrow> p = None"
| "linked ts par p (Node l a r) \<longleftrightarrow> p = Some a \<and> a < length ts \<and> tree_parent (ts ! a) = par
     \<and> linked ts (Some a) (tree_left (ts ! a)) l \<and> linked ts (Some a) (tree_right (ts ! a)) r"

definition links :: "compiler \<Rightarrow> (nat option \<times> nat option \<times> nat option) list" where
  "links c = map (\<lambda>n. (tree_parent n, tree_left n, tree_right n)) (tree_nodes c)"

text \<open>A pass over a list of nodes, as long as there is no error.\<close>

fun visit_all :: "pass \<Rightarrow> nat list \<Rightarrow> compiler \<Rightarrow> (reg_errcode \<times> compiler) option" where
  "visit_all fn [] c = Some (REG_NOERROR, c)"
| "visit_all fn (a # as) c = and_then (fn a c) (visit_all fn as)"

lemma and_then_simps [simp]:
  "and_then None f = None"
  "and_then (Some (e, c)) f = (if e \<noteq> REG_NOERROR then Some (e, c) else f c)"
  by (simp_all add: and_then_def)

lemma and_then_assoc: "and_then (and_then r f) g = and_then r (\<lambda>c. and_then (f c) g)"
  by (cases r) auto

lemma and_then_return [simp]: "and_then r (\<lambda>c. Some (REG_NOERROR, c)) = r"
  by (cases r) auto

lemma visit_all_append: "visit_all fn (xs @ ys) c = and_then (visit_all fn xs c) (visit_all fn ys)"
proof (induction xs arbitrary: c)
  case (Cons x xs)
  have "visit_all fn (xs @ ys) = (\<lambda>c. and_then (visit_all fn xs c) (visit_all fn ys))" by (rule ext) (rule Cons.IH)
  then show ?case by (simp add: and_then_assoc)
qed simp

lemma visit_all_Nil: "visit_all fn [] = (\<lambda>c. Some (REG_NOERROR, c))"
  by (rule ext) simp

lemma and_then_cong:
  "r = r' \<Longrightarrow> (\<And>c. r' = Some (REG_NOERROR, c) \<Longrightarrow> f c = g c) \<Longrightarrow> and_then r f = and_then r' g"
  by (cases r') auto

lemma linked_links: "links c' = links c \<Longrightarrow> linked (tree_nodes c') par p t = linked (tree_nodes c) par p t"
proof (induction t arbitrary: par p)
  case (Node l a r)
  have len: "length (tree_nodes c') = length (tree_nodes c)"
    using arg_cong [OF Node.prems, of length] by (simp add: links_def)
  show ?case
  proof (cases "a < length (tree_nodes c)")
    case True
    then have "links c' ! a = links c ! a" using Node.prems by simp
    then show ?thesis using True len Node by (simp add: links_def)
  qed (simp add: len)
qed simp

lemma linked_at: "linked (tree_nodes c) par p (Node l a r) \<Longrightarrow> \<exists>n. tree_at c a = Some n \<and> tree_parent n = par
    \<and> linked (tree_nodes c) (Some a) (tree_left n) l \<and> linked (tree_nodes c) (Some a) (tree_right n) r"
  by (simp add: tree_at_def mem_read_def)

text \<open>Going on after the subtree at \<open>a\<close>: upwards, or to the sibling on the right.\<close>

definition post_up :: "pass \<Rightarrow> nat \<Rightarrow> compiler \<Rightarrow> (reg_errcode \<times> compiler) option" where
  "post_up fn a c =
     do { n \<leftarrow> tree_at c a;
          (case tree_parent n of
             None \<Rightarrow> Some (REG_NOERROR, c)
           | Some p \<Rightarrow>
               do { pn \<leftarrow> tree_at c p;
                    (case tree_right pn of
                       None \<Rightarrow> postorder_loop fn False p c
                     | Some r \<Rightarrow> if r = a then postorder_loop fn False p c else postorder_loop fn True r c) }) }"

lemma postorder_loop_up: "postorder_loop fn False a c = and_then (fn a c) (post_up fn a)"
  by (subst postorder_loop.simps) (cases "fn a c"; auto simp: post_up_def)

lemma postorder_loop_down:
  "tree_at c a = Some n \<Longrightarrow> postorder_loop fn True a c =
     (case tree_left n of Some l \<Rightarrow> postorder_loop fn True l c
      | None \<Rightarrow> (case tree_right n of Some r \<Rightarrow> postorder_loop fn True r c | None \<Rightarrow> postorder_loop fn False a c))"
  by (subst postorder_loop.simps) simp

lemma linked_root: "linked ts par (Some a) t \<Longrightarrow> \<exists>l r. t = Node l a r"
  by (cases t) auto

lemma linked_None: "linked ts par None t \<Longrightarrow> t = Leaf"
  by (cases t) auto

abbreviation distinct_tree :: "nat tree \<Rightarrow> bool" where
  "distinct_tree t \<equiv> distinct (Tree.preorder t)"

text \<open>The same for the preorder visit.\<close>

definition climb_up :: "compiler \<Rightarrow> nat option \<Rightarrow> nat \<Rightarrow> nat option option" where
  "climb_up c par a = (case par of None \<Rightarrow> Some None | Some p \<Rightarrow> climb c (Some a) p)"

definition pre_next :: "pass \<Rightarrow> nat option \<Rightarrow> nat \<Rightarrow> compiler \<Rightarrow> (reg_errcode \<times> compiler) option" where
  "pre_next fn par a c =
     do { m \<leftarrow> climb_up c par a; (case m of None \<Rightarrow> Some (REG_NOERROR, c) | Some b \<Rightarrow> preorder_loop fn b c) }"

lemma climb_at:
  "tree_at c a = Some n \<Longrightarrow> climb c prev a =
     (if tree_right n = prev \<or> tree_right n = None then climb_up c (tree_parent n) a else Some (tree_right n))"
  by (subst climb.simps) (simp add: climb_up_def split: option.split)

definition pre_left :: "pass \<Rightarrow> nat \<Rightarrow> compiler \<Rightarrow> (reg_errcode \<times> compiler) option" where
  "pre_left fn a c =
     do { n \<leftarrow> tree_at c a;
          (case tree_left n of
             Some l \<Rightarrow> preorder_loop fn l c
           | None \<Rightarrow> do { m \<leftarrow> climb c None a; (case m of None \<Rightarrow> Some (REG_NOERROR, c) | Some b \<Rightarrow> preorder_loop fn b c) }) }"

lemma preorder_loop_step: "preorder_loop fn a c = and_then (fn a c) (pre_left fn a)"
  by (subst preorder_loop.simps) (cases "fn a c"; auto simp: pre_left_def)

section \<open>Passes that keep the links\<close>

text \<open>What a visit relies on: the pass it carries changes neither the parent nor the children of any node. Then the visit
  is a pass over the list of the nodes, in postorder or preorder, and ends if the pass does.\<close>

locale tree_pass =
  fixes fn :: pass
  assumes keeps: "fn a c = Some (e, c') \<Longrightarrow> links c' = links c"
begin

lemma visit_all_links: "visit_all fn as c = Some (e, c') \<Longrightarrow> links c' = links c"
proof (induction as arbitrary: c)
  case (Cons a as)
  then obtain e1 c1 where f: "fn a c = Some (e1, c1)" by (cases "fn a c") auto
  from f have l: "links c1 = links c" by (rule keeps)
  show ?case
  proof (cases "e1 = REG_NOERROR")
    case True
    then have "visit_all fn as c1 = Some (e, c')" using Cons.prems f by simp
    from Cons.IH [OF this] l show ?thesis by simp
  next
    case False
    then show ?thesis using Cons.prems f l by simp
  qed
qed simp

lemma postorder_right:
  assumes IH: "\<And>par p c a'. linked (tree_nodes c) par p r \<Longrightarrow> distinct_tree r \<Longrightarrow> p = Some a' \<Longrightarrow>
      postorder_loop fn True a' c = and_then (visit_all fn (Tree.postorder r) c) (post_up fn a')"
    and t: "linked (tree_nodes c) par (Some a) (Node l a r)" "distinct_tree r"
    and right: "tree_at c a = Some n" "tree_right n = Some b"
  shows "postorder_loop fn True b c = and_then (visit_all fn (Tree.postorder r) c) (postorder_loop fn False a)"
proof -
  have lr: "linked (tree_nodes c) (Some a) (Some b) r" using t(1) right by (auto simp: tree_at_def mem_read_def split: if_splits)
  obtain l' r' where r: "r = Node l' b r'" using linked_root [OF lr] by blast
  have up: "post_up fn b c1 = postorder_loop fn False a c1" if "links c1 = links c" for c1
  proof -
    have l1: "linked (tree_nodes c1) par (Some a) (Node l a r)" using linked_links [OF that] t(1) by blast
    from linked_at [OF l1] obtain n1 where n1: "tree_at c1 a = Some n1" "linked (tree_nodes c1) (Some a) (tree_right n1) r" by blast
    then have rb: "tree_right n1 = Some b" using r by simp
    from linked_at [OF n1(2) [unfolded r]] obtain m where m: "tree_at c1 b = Some m" "tree_parent m = Some a" by blast
    then show ?thesis using n1 rb by (simp add: post_up_def)
  qed
  show ?thesis
    unfolding IH [OF lr t(2) refl]
    by (rule and_then_cong [OF refl]) (rule up, erule visit_all_links)
qed

lemma postorder_subtree:
  "linked (tree_nodes c) par p t \<Longrightarrow> distinct_tree t \<Longrightarrow> p = Some a \<Longrightarrow>
     postorder_loop fn True a c = and_then (visit_all fn (Tree.postorder t) c) (post_up fn a)"
proof (induction t arbitrary: par p c a)
  case Leaf
  then show ?case by simp
next
  case (Node l b r)
  have b: "b = a" using Node.prems(1,3) by simp
  have lk: "linked (tree_nodes c) par (Some a) (Node l a r)" using Node.prems(1) b by simp
  have d: "distinct_tree l" "distinct_tree r" "set_tree l \<inter> set_tree r = {}" using Node.prems(2) by auto
  from linked_at [OF lk] obtain n where n: "tree_at c a = Some n" "linked (tree_nodes c) (Some a) (tree_left n) l"
    "linked (tree_nodes c) (Some a) (tree_right n) r" by blast
  have right: "postorder_loop fn True b' c1 = and_then (visit_all fn (Tree.postorder r) c1) (postorder_loop fn False a)"
    if "tree_right n = Some b'" "links c1 = links c" for b' c1
  proof -
    have lk1: "linked (tree_nodes c1) par (Some a) (Node l a r)" using linked_links [OF that(2)] lk by blast
    from linked_at [OF lk1] obtain n1 where n1: "tree_at c1 a = Some n1" "linked (tree_nodes c1) (Some a) (tree_right n1) r" by blast
    have "linked (tree_nodes c) (Some a) (Some b') r" using n(3) that(1) by simp
    then have "tree_right n1 = Some b'" using n1(2) linked_root by fastforce
    from postorder_right [OF _ lk1 d(2) n1(1) this] Node.IH(2) show ?thesis by blast
  qed
  have mid: "(case tree_right n of Some b' \<Rightarrow> postorder_loop fn True b' c1 | None \<Rightarrow> postorder_loop fn False a c1)
      = and_then (visit_all fn (Tree.postorder r) c1) (postorder_loop fn False a)"
    if "links c1 = links c" for c1
  proof (cases "tree_right n")
    case None
    then show ?thesis using n(3) linked_None by fastforce
  next
    case (Some b')
    then show ?thesis using right [OF Some that] by simp
  qed
  have last: "postorder_loop fn False a = (\<lambda>c1. and_then (visit_all fn [a] c1) (post_up fn a))"
    by (rule ext) (simp add: postorder_loop_up visit_all_Nil)
  show ?case
  proof (cases "tree_left n")
    case None
    then have l: "l = Leaf" using n(2) linked_None by fastforce
    have "postorder_loop fn True a c = and_then (visit_all fn (Tree.postorder r) c) (postorder_loop fn False a)"
      using postorder_loop_down [OF n(1)] None mid [of c] by simp
    then show ?thesis unfolding b l by (simp add: last visit_all_append and_then_assoc)
  next
    case (Some b')
    then have ll: "linked (tree_nodes c) (Some a) (Some b') l" using n(2) by simp
    obtain l' r' where l: "l = Node l' b' r'" using linked_root [OF ll] by blast
    have up: "post_up fn b' c1 = and_then (visit_all fn (Tree.postorder r) c1) (postorder_loop fn False a)"
      if "links c1 = links c" for c1
    proof -
      have lk1: "linked (tree_nodes c1) par (Some a) (Node l a r)" using linked_links [OF that] lk by blast
      from linked_at [OF lk1] obtain n1 where n1: "tree_at c1 a = Some n1" "linked (tree_nodes c1) (Some a) (tree_left n1) l"
        "linked (tree_nodes c1) (Some a) (tree_right n1) r" by blast
      from linked_at [OF n1(2) [unfolded l]] obtain m where m: "tree_at c1 b' = Some m" "tree_parent m = Some a" by blast
      have same: "tree_right n1 = tree_right n" using n1(3) n(3) by (cases r) auto
      have "tree_right n \<noteq> Some b'"
      proof
        assume "tree_right n = Some b'"
        then have "b' \<in> set_tree r" using n(3) linked_root by fastforce
        then show False using d(3) l by auto
      qed
      then show ?thesis using m n1(1) same mid [OF that] by (auto simp: post_up_def split: option.splits)
    qed
    have "postorder_loop fn True a c = postorder_loop fn True b' c" using postorder_loop_down [OF n(1)] Some by simp
    also have "\<dots> = and_then (visit_all fn (Tree.postorder l) c) (post_up fn b')"
      by (rule Node.IH(1) [OF ll d(1) refl])
    also have "\<dots> = and_then (visit_all fn (Tree.postorder l) c)
        (\<lambda>c1. and_then (visit_all fn (Tree.postorder r) c1) (postorder_loop fn False a))"
      by (rule and_then_cong [OF refl]) (rule up, erule visit_all_links)
    finally show ?thesis unfolding b by (simp add: last visit_all_append and_then_assoc)
  qed
qed

lemma postorder_visits:
  assumes "linked (tree_nodes c) None (Some root) t" and "distinct_tree t"
  shows "visit_postorder fn root c = visit_all fn (Tree.postorder t) c"
proof -
  have up: "post_up fn root c1 = Some (REG_NOERROR, c1)" if "links c1 = links c" for c1
  proof -
    obtain l r where t: "t = Node l root r" using linked_root [OF assms(1)] by blast
    have "linked (tree_nodes c1) None (Some root) (Node l root r)" using linked_links [OF that] assms(1) t by blast
    from linked_at [OF this] show ?thesis by (auto simp: post_up_def)
  qed
  have "visit_postorder fn root c = and_then (visit_all fn (Tree.postorder t) c) (post_up fn root)"
    unfolding visit_postorder_def by (rule postorder_subtree [OF assms refl])
  also have "\<dots> = and_then (visit_all fn (Tree.postorder t) c) (\<lambda>c. Some (REG_NOERROR, c))"
    by (rule and_then_cong [OF refl]) (rule up, erule visit_all_links)
  finally show ?thesis by simp
qed

lemma preorder_subtree:
  "linked (tree_nodes c) par p t \<Longrightarrow> distinct_tree t \<Longrightarrow> p = Some a \<Longrightarrow>
     preorder_loop fn a c = and_then (visit_all fn (Tree.preorder t) c) (pre_next fn par a)"
proof (induction t arbitrary: par p c a)
  case Leaf
  then show ?case by simp
next
  case (Node l b r)
  have b: "b = a" using Node.prems(1,3) by simp
  have lk: "linked (tree_nodes c) par (Some a) (Node l a r)" using Node.prems(1) b by simp
  have d: "distinct_tree l" "distinct_tree r" "set_tree l \<inter> set_tree r = {}" using Node.prems(2) by auto
  have at: "\<exists>n. tree_at c1 a = Some n \<and> tree_parent n = par \<and> linked (tree_nodes c1) (Some a) (tree_left n) l
      \<and> linked (tree_nodes c1) (Some a) (tree_right n) r" if "links c1 = links c" for c1
    using linked_at linked_links [OF that] lk by blast
  have right: "(if tree_right n = None then pre_next fn par a c1 else preorder_loop fn (the (tree_right n)) c1)
      = and_then (visit_all fn (Tree.preorder r) c1) (pre_next fn par a)"
    if c1: "links c1 = links c" and n: "tree_at c1 a = Some n" "linked (tree_nodes c1) (Some a) (tree_right n) r" for c1 n
  proof (cases "tree_right n")
    case None
    then show ?thesis using n(2) linked_None by fastforce
  next
    case (Some b')
    have r: "linked (tree_nodes c1) (Some a) (Some b') r" using n(2) Some by simp
    obtain l' r' where r': "r = Node l' b' r'" using linked_root [OF r] by blast
    have nxt: "pre_next fn (Some a) b' c2 = pre_next fn par a c2" if "links c2 = links c" for c2
    proof -
      from at [OF that] obtain n2 where n2: "tree_at c2 a = Some n2" "tree_parent n2 = par"
        "linked (tree_nodes c2) (Some a) (tree_right n2) r" by blast
      then have "tree_right n2 = Some b'" using r' by simp
      then show ?thesis using climb_at [OF n2(1), of "Some b'"] n2(2) by (simp add: pre_next_def climb_up_def)
    qed
    have "preorder_loop fn b' c1 = and_then (visit_all fn (Tree.preorder r) c1) (pre_next fn (Some a) b')"
      by (rule Node.IH(2) [OF r d(2) refl])
    also have "\<dots> = and_then (visit_all fn (Tree.preorder r) c1) (pre_next fn par a)"
    proof (rule and_then_cong [OF refl])
      fix c2 assume "visit_all fn (Tree.preorder r) c1 = Some (REG_NOERROR, c2)"
      from visit_all_links [OF this] c1 show "pre_next fn (Some a) b' c2 = pre_next fn par a c2" using nxt by simp
    qed
    finally show ?thesis using Some by simp
  qed
  have left: "pre_left fn a c1 = and_then (visit_all fn (Tree.preorder l @ Tree.preorder r) c1) (pre_next fn par a)"
    if c1: "links c1 = links c" for c1
  proof -
    from at [OF c1] obtain n where n: "tree_at c1 a = Some n" "tree_parent n = par" "linked (tree_nodes c1) (Some a) (tree_left n) l"
      "linked (tree_nodes c1) (Some a) (tree_right n) r" by blast
    show ?thesis
    proof (cases "tree_left n")
      case None
      then have l: "l = Leaf" using n(3) linked_None by fastforce
      have "pre_left fn a c1 = (if tree_right n = None then pre_next fn par a c1 else preorder_loop fn (the (tree_right n)) c1)"
        using n(1,2) None climb_at [OF n(1), of None] by (auto simp: pre_left_def pre_next_def)
      then show ?thesis using right [OF c1 n(1,4)] l by simp
    next
      case (Some b')
      have ll: "linked (tree_nodes c1) (Some a) (Some b') l" using n(3) Some by simp
      obtain l' r' where l': "l = Node l' b' r'" using linked_root [OF ll] by blast
      have nxt: "pre_next fn (Some a) b' c2 = and_then (visit_all fn (Tree.preorder r) c2) (pre_next fn par a)" if c2: "links c2 = links c" for c2
      proof -
        from at [OF c2] obtain n2 where n2: "tree_at c2 a = Some n2" "tree_parent n2 = par"
          "linked (tree_nodes c2) (Some a) (tree_right n2) r" by blast
        have "tree_right n2 \<noteq> Some b'"
        proof
          assume "tree_right n2 = Some b'"
          then have "b' \<in> set_tree r" using n2(3) linked_root by fastforce
          then show False using d(3) l' by auto
        qed
        then have "climb c2 (Some b') a = (if tree_right n2 = None then climb_up c2 par a else Some (tree_right n2))"
          using climb_at [OF n2(1), of "Some b'"] n2(2) by auto
        then have "pre_next fn (Some a) b' c2
            = (if tree_right n2 = None then pre_next fn par a c2 else preorder_loop fn (the (tree_right n2)) c2)"
          by (auto simp: pre_next_def climb_up_def)
        then show ?thesis using right [OF c2 n2(1,3)] by simp
      qed
      have "pre_left fn a c1 = preorder_loop fn b' c1" using n(1) Some by (simp add: pre_left_def)
      also have "\<dots> = and_then (visit_all fn (Tree.preorder l) c1) (pre_next fn (Some a) b')"
        by (rule Node.IH(1) [OF ll d(1) refl])
      also have "\<dots> = and_then (visit_all fn (Tree.preorder l) c1)
          (\<lambda>c2. and_then (visit_all fn (Tree.preorder r) c2) (pre_next fn par a))"
      proof (rule and_then_cong [OF refl])
        fix c2 assume "visit_all fn (Tree.preorder l) c1 = Some (REG_NOERROR, c2)"
        from visit_all_links [OF this] c1
        show "pre_next fn (Some a) b' c2 = and_then (visit_all fn (Tree.preorder r) c2) (pre_next fn par a)" using nxt by simp
      qed
      finally show ?thesis by (simp add: visit_all_append and_then_assoc)
    qed
  qed
  have "preorder_loop fn a c = and_then (fn a c) (pre_left fn a)" by (rule preorder_loop_step)
  also have "\<dots> = and_then (fn a c) (\<lambda>c1. and_then (visit_all fn (Tree.preorder l @ Tree.preorder r) c1) (pre_next fn par a))"
  proof (rule and_then_cong [OF refl])
    fix c1 assume "fn a c = Some (REG_NOERROR, c1)"
    then have "links c1 = links c" by (rule keeps)
    then show "pre_left fn a c1 = and_then (visit_all fn (Tree.preorder l @ Tree.preorder r) c1) (pre_next fn par a)" by (rule left)
  qed
  finally show ?case unfolding b by (simp add: and_then_assoc)
qed

lemma preorder_visits:
  assumes "linked (tree_nodes c) None (Some root) t" and "distinct_tree t"
  shows "visit_preorder fn root c = visit_all fn (Tree.preorder t) c"
proof -
  have "visit_preorder fn root c = and_then (visit_all fn (Tree.preorder t) c) (pre_next fn None root)"
    unfolding visit_preorder_def by (rule preorder_subtree [OF assms refl])
  also have "pre_next fn None root = (\<lambda>c. Some (REG_NOERROR, c))" by (rule ext) (simp add: pre_next_def climb_up_def)
  finally show ?thesis by simp
qed


end

end
