(* ===== verification/RegLanguage.thy ===== *)
theory RegLanguage
  imports RegVisit
begin

text \<open>
  Trees and automata apart from the heap: the language of a structure tree, the runs of an automaton, and that an
  automaton wired up along the tree accepts just the language (\<open>run_iff_lang\<close>). RegPasses shows that the passes wire it up.
\<close>


section \<open>The language of a tree\<close>

text \<open>
  What a tree says, as the sequences of leaves that are passed, in order: \<open>CONCAT\<close>, \<open>OP_ALT\<close> and
  \<open>OP_DUP_ASTERISK\<close> combine; anything else is a leaf: a character, a bracket, a period, an anchor, a parenthesis or a
  back reference. A missing operand of \<open>OP_ALT\<close> is empty.
\<close>

inductive_set star :: "'a list set \<Rightarrow> 'a list set" for A where
  star_Nil: "[] \<in> star A"
| star_append: "u \<in> A \<Longrightarrow> v \<in> star A \<Longrightarrow> u @ v \<in> star A"

fun lang :: "(nat \<Rightarrow> re_token_type) \<Rightarrow> nat tree \<Rightarrow> nat list set" where
  "lang ty Leaf = {[]}"
| "lang ty (Node l a r) =
     (if ty a = CONCAT then {u @ v |u v. u \<in> lang ty l \<and> v \<in> lang ty r}
      else if ty a = OP_ALT then lang ty l \<union> lang ty r
      else if ty a = OP_DUP_ASTERISK then star (lang ty l)
      else {[a]})"

definition leaf_types :: "re_token_type set" where
  "leaf_types = {CHARACTER, SIMPLE_BRACKET, COMPLEX_BRACKET, OP_PERIOD, OP_BACK_REF, ANCHOR, OP_OPEN_SUBEXP, OP_CLOSE_SUBEXP}"

fun wf_tree :: "re_token_type set \<Rightarrow> (nat \<Rightarrow> re_token_type) \<Rightarrow> nat tree \<Rightarrow> bool" where
  "wf_tree L ty Leaf \<longleftrightarrow> True"
| "wf_tree L ty (Node l a r) \<longleftrightarrow> wf_tree L ty l \<and> wf_tree L ty r
     \<and> (if ty a = CONCAT then l \<noteq> Leaf \<and> r \<noteq> Leaf
        else if ty a = OP_DUP_ASTERISK then l \<noteq> Leaf \<and> r = Leaf
        else ty a = OP_ALT \<or> ty a \<in> L \<and> l = Leaf \<and> r = Leaf)"

fun first_of :: "(nat \<Rightarrow> re_token_type) \<Rightarrow> nat tree \<Rightarrow> nat" where
  "first_of ty Leaf = 0"
| "first_of ty (Node l a r) = (if ty a = CONCAT then first_of ty l else a)"

section \<open>The automaton\<close>

text \<open>
  An automaton has the type \<open>T i\<close>, the epsilon destinations \<open>E i\<close> and the destination \<open>N i\<close> of each node. A run lists the
  nodes it passes but the branching ones.
\<close>

inductive run :: "(int \<Rightarrow> re_token_type) \<Rightarrow> (int \<Rightarrow> int set) \<Rightarrow> (int \<Rightarrow> int) \<Rightarrow> nat \<Rightarrow> int \<Rightarrow> int list \<Rightarrow> int \<Rightarrow> bool"
  for T E N where
  run_end: "run T E N 0 i [] i"
| run_branch: "T i = OP_ALT \<or> T i = OP_DUP_ASTERISK \<Longrightarrow> j \<in> E i \<Longrightarrow> run T E N n j w k \<Longrightarrow> run T E N (Suc n) i w k"
| run_mark: "T i \<in> {ANCHOR, OP_OPEN_SUBEXP, OP_CLOSE_SUBEXP} \<Longrightarrow> j \<in> E i \<Longrightarrow> run T E N n j w k \<Longrightarrow> run T E N (Suc n) i (i # w) k"
| run_consume: "\<not> IS_EPSILON_NODE (T i) \<Longrightarrow> T i \<noteq> END_OF_RE \<Longrightarrow> run T E N n (N i) w k \<Longrightarrow> run T E N (Suc n) i (i # w) k"

inductive_cases run_SucE: "run T E N n i w k"

text \<open>The nodes of the tree \<open>t\<close> are at \<open>ix\<close> in the automaton, and wired up so as to go on at \<open>k\<close> after \<open>t\<close>.\<close>

fun entry :: "(nat \<Rightarrow> re_token_type) \<Rightarrow> (nat \<Rightarrow> int) \<Rightarrow> nat tree \<Rightarrow> int \<Rightarrow> int" where
  "entry ty ix Leaf k = k"
| "entry ty ix (Node l a r) k = ix (first_of ty (Node l a r))"

fun wired :: "(int \<Rightarrow> re_token_type) \<Rightarrow> (int \<Rightarrow> int set) \<Rightarrow> (int \<Rightarrow> int) \<Rightarrow> (nat \<Rightarrow> re_token_type) \<Rightarrow> (nat \<Rightarrow> int) \<Rightarrow> nat tree \<Rightarrow> int \<Rightarrow> bool" where
  "wired T E N ty ix Leaf k \<longleftrightarrow> True"
| "wired T E N ty ix (Node l a r) k \<longleftrightarrow>
     (if ty a = CONCAT then wired T E N ty ix l (entry ty ix r k) \<and> wired T E N ty ix r k
      else T (ix a) = ty a
        \<and> (if ty a = OP_DUP_ASTERISK then E (ix a) = {entry ty ix l k, k} \<and> wired T E N ty ix l (ix a)
           else if ty a = OP_ALT then E (ix a) = {entry ty ix l k, entry ty ix r k} \<and> wired T E N ty ix l k \<and> wired T E N ty ix r k
           else if IS_EPSILON_NODE (ty a) then E (ix a) = {k}
           else N (ix a) = k))"

lemma first_of_in: "wf_tree L ty t \<Longrightarrow> t \<noteq> Leaf \<Longrightarrow> first_of ty t \<in> set_tree t \<and> ty (first_of ty t) \<noteq> CONCAT"
  by (induction t) (auto split: if_splits)

lemma leaf_types_cases:
  assumes "t \<in> leaf_types"
  shows "t \<noteq> CONCAT" "t \<noteq> OP_ALT" "t \<noteq> OP_DUP_ASTERISK" "t \<noteq> END_OF_RE" "t \<noteq> SUBEXP"
    and "IS_EPSILON_NODE t \<longleftrightarrow> t \<in> {ANCHOR, OP_OPEN_SUBEXP, OP_CLOSE_SUBEXP}"
  using assms by (auto simp: leaf_types_def IS_EPSILON_NODE_def)

text \<open>Every word of the tree is a run.\<close>

lemma lang_run:
  "wired T E N ty ix t k \<Longrightarrow> wf_tree leaf_types ty t \<Longrightarrow> u \<in> lang ty t \<Longrightarrow> run T E N n k v e \<Longrightarrow>
     \<exists>m. run T E N m (entry ty ix t k) (map ix u @ v) e"
proof (induction t arbitrary: k u v n)
  case Leaf
  then show ?case by auto
next
  case (Node l a r)
  consider "ty a = CONCAT" | "ty a = OP_ALT" | "ty a = OP_DUP_ASTERISK" | "ty a \<in> leaf_types"
    using Node.prems(2) by (auto split: if_splits)
  then show ?case
  proof cases
    case 1
    then obtain u1 u2 where u: "u = u1 @ u2" "u1 \<in> lang ty l" "u2 \<in> lang ty r" using Node.prems(3) by auto
    have w: "wired T E N ty ix l (entry ty ix r k)" "wired T E N ty ix r k" "wf_tree leaf_types ty l" "wf_tree leaf_types ty r" "l \<noteq> Leaf"
      using Node.prems 1 by simp_all
    obtain m where "run T E N m (entry ty ix r k) (map ix u2 @ v) e" using Node.IH(2) [OF w(2,4) u(3) Node.prems(4)] by blast
    from Node.IH(1) [OF w(1,3) u(2) this] show ?thesis using u(1) 1 w(5) by (cases l) auto
  next
    case 2
    have w: "E (ix a) = {entry ty ix l k, entry ty ix r k}" "T (ix a) = OP_ALT" "wired T E N ty ix l k" "wired T E N ty ix r k"
      "wf_tree leaf_types ty l" "wf_tree leaf_types ty r" using Node.prems(1,2) 2 by auto
    have "\<exists>m j. j \<in> E (ix a) \<and> run T E N m j (map ix u @ v) e"
    proof -
      have "u \<in> lang ty l \<or> u \<in> lang ty r" using Node.prems(3) 2 by simp
      then show ?thesis unfolding w(1)
        using Node.IH(1) [OF w(3,5) _ Node.prems(4)] Node.IH(2) [OF w(4,6) _ Node.prems(4)] by blast
    qed
    then obtain m j where "j \<in> E (ix a)" "run T E N m j (map ix u @ v) e" by blast
    from run_branch [of T "ix a" j E N m, OF _ this] show ?thesis using 2 w(2) by auto
  next
    case 3
    have w: "E (ix a) = {entry ty ix l k, k}" "T (ix a) = OP_DUP_ASTERISK" "wired T E N ty ix l (ix a)" "wf_tree leaf_types ty l"
      using Node.prems(1,2) 3 by auto
    have "u \<in> star (lang ty l)" using Node.prems(3) 3 by simp
    then have "\<exists>m. run T E N m (ix a) (map ix u @ v) e"
    proof induction
      case star_Nil
      then show ?case using run_branch [of T "ix a" k E N n v e] w(1,2) Node.prems(4) by auto
    next
      case (star_append u1 u2)
      then obtain m where m: "run T E N m (ix a) (map ix u2 @ v) e" by blast
      obtain m' where "run T E N m' (entry ty ix l (ix a)) (map ix u1 @ (map ix u2 @ v)) e"
        using Node.IH(1) [OF w(3,4) star_append(1) m] by blast
      moreover have "entry ty ix l (ix a) \<in> E (ix a)" using w(1) Node.prems(2) 3 by (cases l) auto
      ultimately have "run T E N (Suc m') (ix a) (map ix u1 @ (map ix u2 @ v)) e" using w(2) by (intro run_branch) simp_all
      then show ?case by auto
    qed
    then show ?thesis using 3 by simp
  next
    case 4
    note c = leaf_types_cases [OF 4]
    have "run T E N (Suc n) (ix a) (ix a # v) e"
    proof (cases "IS_EPSILON_NODE (ty a)")
      case True
      then have "E (ix a) = {k}" "T (ix a) = ty a" using Node.prems(1) c by simp_all
      then show ?thesis using run_mark [of T "ix a" k E N n v e] Node.prems(4) c(6) True by auto
    next
      case False
      then have "N (ix a) = k" "T (ix a) = ty a" using Node.prems(1) c by simp_all
      then show ?thesis using run_consume [of T "ix a" E N n v e] Node.prems(4) False c(4) by auto
    qed
    moreover have "u = [a]" using Node.prems(3) c by simp
    ultimately show ?thesis using c(1) by auto
  qed
qed

text \<open>Every run through the tree to a node outside it is a word of the tree.\<close>

lemma run_lang:
  "wired T E N ty ix t k \<Longrightarrow> wf_tree leaf_types ty t \<Longrightarrow> t \<noteq> Leaf \<Longrightarrow> e \<notin> ix ` {b \<in> set_tree t. ty b \<noteq> CONCAT} \<Longrightarrow> run T E N n (entry ty ix t k) w e \<Longrightarrow>
     \<exists>u v m. w = map ix u @ v \<and> u \<in> lang ty t \<and> run T E N m k v e \<and> m < n"
proof (induction t arbitrary: k w n)
  case Leaf
  then show ?case by simp
next
  case (Node l a r)
  have e: "e \<notin> ix ` {b \<in> set_tree l. ty b \<noteq> CONCAT}" "e \<notin> ix ` {b \<in> set_tree r. ty b \<noteq> CONCAT}" "ty a \<noteq> CONCAT \<Longrightarrow> e \<noteq> ix a" using Node.prems(4) by auto
  have wf: "wf_tree leaf_types ty l" "wf_tree leaf_types ty r" using Node.prems(2) by simp_all
  consider "ty a = CONCAT" | "ty a = OP_ALT" | "ty a = OP_DUP_ASTERISK" | "ty a \<in> leaf_types"
    using Node.prems(2) by (auto split: if_splits)
  then show ?case
  proof cases
    case 1
    have w: "wired T E N ty ix l (entry ty ix r k)" "wired T E N ty ix r k" "l \<noteq> Leaf" "r \<noteq> Leaf"
      using Node.prems(1,2) 1 by simp_all
    have "run T E N n (entry ty ix l (entry ty ix r k)) w e" using Node.prems(5) 1 w(3) by (cases l) auto
    from Node.IH(1) [OF w(1) wf(1) w(3) e(1) this] obtain u v m where
      u: "w = map ix u @ v" "u \<in> lang ty l" "run T E N m (entry ty ix r k) v e" "m < n" by blast
    from Node.IH(2) [OF w(2) wf(2) w(4) e(2) u(3)] obtain u' v' m' where
      u': "v = map ix u' @ v'" "u' \<in> lang ty r" "run T E N m' k v' e" "m' < m" by blast
    have "u @ u' \<in> lang ty (Node l a r)" using 1 u(2) u'(2) by auto
    moreover have "w = map ix (u @ u') @ v'" using u(1) u'(1) by simp
    ultimately show ?thesis using u'(3,4) u(4)
      by (intro exI [of _ "u @ u'"] exI [of _ v'] exI [of _ m']) simp
  next
    case 2
    have w: "E (ix a) = {entry ty ix l k, entry ty ix r k}" "T (ix a) = OP_ALT" "wired T E N ty ix l k" "wired T E N ty ix r k"
      using Node.prems(1) 2 by auto
    have "run T E N n (ix a) w e" using Node.prems(5) 2 by simp
    then obtain j n' where j: "j \<in> E (ix a)" "run T E N n' j w e" "n = Suc n'"
      by (cases rule: run.cases) (use e(3) 2 w(2) in \<open>auto simp: IS_EPSILON_NODE_def\<close>)
    have side: ?thesis if c: "j = entry ty ix s k" "wired T E N ty ix s k" "wf_tree leaf_types ty s" "e \<notin> ix ` {b \<in> set_tree s. ty b \<noteq> CONCAT}"
      "\<And>k w n. wired T E N ty ix s k \<Longrightarrow> wf_tree leaf_types ty s \<Longrightarrow> s \<noteq> Leaf \<Longrightarrow> e \<notin> ix ` {b \<in> set_tree s. ty b \<noteq> CONCAT} \<Longrightarrow>
         run T E N n (entry ty ix s k) w e \<Longrightarrow> \<exists>u v m. w = map ix u @ v \<and> u \<in> lang ty s \<and> run T E N m k v e \<and> m < n"
      "lang ty s \<subseteq> lang ty (Node l a r)" for s
    proof (cases "s = Leaf")
      case True
      then have "[] \<in> lang ty (Node l a r)" "run T E N n' k w e" using c(1,6) j(2) by auto
      then show ?thesis using j(3) by (intro exI [of _ "[]"] exI [of _ w] exI [of _ n']) simp
    next
      case False
      from c(5) [OF c(2,3) False c(4) j(2) [unfolded c(1)]] obtain u v m where
        u: "w = map ix u @ v" "u \<in> lang ty s" "run T E N m k v e" "m < n'" by blast
      from c(6) u(2) have "u \<in> lang ty (Node l a r)" by blast
      then show ?thesis using u j(3) by (intro exI [of _ u] exI [of _ v] exI [of _ m]) simp
    qed
    have sub: "lang ty l \<subseteq> lang ty (Node l a r)" "lang ty r \<subseteq> lang ty (Node l a r)" using 2 by simp_all
    from j(1) w(1) consider "j = entry ty ix l k" | "j = entry ty ix r k" by blast
    then show ?thesis
    proof cases
      case 1
      show ?thesis by (rule side [OF 1 w(3) wf(1) e(1) _ sub(1)]) (rule Node.IH(1))
    next
      case 2
      show ?thesis by (rule side [OF 2 w(4) wf(2) e(2) _ sub(2)]) (rule Node.IH(2))
    qed
  next
    case 3
    have w: "E (ix a) = {entry ty ix l k, k}" "T (ix a) = OP_DUP_ASTERISK" "wired T E N ty ix l (ix a)" "l \<noteq> Leaf"
      using Node.prems(1,2) 3 by auto
    have el: "entry ty ix l k = entry ty ix l (ix a)" using w(4) by (cases l) auto
    have "run T E N n (ix a) w e \<Longrightarrow> \<exists>u v m. w = map ix u @ v \<and> u \<in> star (lang ty l) \<and> run T E N m k v e \<and> m < n" for n w
    proof (induction n arbitrary: w rule: less_induct)
      case (less n)
      from less.prems obtain j n' where j: "j \<in> E (ix a)" "run T E N n' j w e" "n = Suc n'"
        by (cases rule: run.cases) (use e(3) 3 w(2) in \<open>auto simp: IS_EPSILON_NODE_def\<close>)
      show ?case
      proof (cases "j = k")
        case True
        then show ?thesis using j(2,3) star_Nil [of "lang ty l"]
          by (intro exI [of _ "[]"] exI [of _ w] exI [of _ n']) simp
      next
        case False
        then have "run T E N n' (entry ty ix l (ix a)) w e" using j w(1) el by auto
        from Node.IH(1) [OF w(3) wf(1) w(4) e(1) this] obtain u v m where
          u: "w = map ix u @ v" "u \<in> lang ty l" "run T E N m (ix a) v e" "m < n'" by blast
        have "m < n" using u(4) j(3) by simp
        from less.IH [OF this u(3)] obtain u' v' m' where
          u': "v = map ix u' @ v'" "u' \<in> star (lang ty l)" "run T E N m' k v' e" "m' < m" by blast
        have "u @ u' \<in> star (lang ty l)" by (rule star_append [OF u(2) u'(2)])
        moreover have "w = map ix (u @ u') @ v'" using u(1) u'(1) by simp
        ultimately show ?thesis using u'(3,4) \<open>m < n\<close>
          by (intro exI [of _ "u @ u'"] exI [of _ v'] exI [of _ m']) simp
      qed
    qed
    then show ?thesis using Node.prems(5) 3 by simp
  next
    case 4
    note c = leaf_types_cases [OF 4]
    have a: "T (ix a) = ty a" "run T E N n (ix a) w e" using Node.prems(1,5) c by simp_all
    have "\<exists>n' v. n = Suc n' \<and> w = ix a # v \<and> run T E N n' k v e"
    proof (cases "IS_EPSILON_NODE (ty a)")
      case True
      then have "E (ix a) = {k}" using Node.prems(1) c by simp
      with a(2) show ?thesis by (cases rule: run.cases) (use a(1) e(3) c True in auto)
    next
      case False
      then have "N (ix a) = k" using Node.prems(1) c by simp
      with a(2) show ?thesis
        by (cases rule: run.cases) (use a(1) e(3) c False in auto)
    qed
    then obtain n' v where n': "n = Suc n'" "w = ix a # v" "run T E N n' k v e" by blast
    have "[a] \<in> lang ty (Node l a r)" using c by simp
    then show ?thesis using n' by (intro exI [of _ "[a]"] exI [of _ v] exI [of _ n']) simp
  qed
qed

lemma run_iff_lang:
  assumes "wired T E N ty ix t e" and "wf_tree leaf_types ty t" and "e \<notin> ix ` {b \<in> set_tree t. ty b \<noteq> CONCAT}" and "T e = END_OF_RE"
  shows "(\<exists>n. run T E N n (entry ty ix t e) w e) \<longleftrightarrow> w \<in> map ix ` lang ty t"
proof
  have stop: "run T E N m e v e \<Longrightarrow> v = []" for m v
    by (cases rule: run.cases) (use assms(4) in \<open>auto simp: IS_EPSILON_NODE_def\<close>)
  assume "\<exists>n. run T E N n (entry ty ix t e) w e"
  then obtain n where n: "run T E N n (entry ty ix t e) w e" by blast
  show "w \<in> map ix ` lang ty t"
  proof (cases "t = Leaf")
    case True
    then show ?thesis using stop n by auto
  next
    case False
    from run_lang [OF assms(1,2) False assms(3) n] obtain u v m where
      u: "w = map ix u @ v" "u \<in> lang ty t" "run T E N m e v e" by blast
    from u(1,2) stop [OF u(3)] show ?thesis by simp
  qed
next
  assume "w \<in> map ix ` lang ty t"
  then obtain u where u: "u \<in> lang ty t" "w = map ix u" by blast
  from lang_run [OF assms(1,2) u(1) run_end] u(2) show "\<exists>n. run T E N n (entry ty ix t e) w e" by auto
qed

end
