(* ===== verification/RegPasses.thy ===== *)
theory RegPasses
  imports RegLanguage
begin

text \<open>
  The passes \<open>calc_first\<close>, \<open>calc_next\<close> and \<open>link_nfa_nodes\<close> of src/src/regex/regcomp.c on a linked tree: what each
  leaves in the nodes of the tree (\<open>first_ok\<close>, \<open>next_ok\<close>) and in the arrays of the DFA (\<open>edges_ok\<close>).
\<close>


section \<open>The first pass: nodes of the DFA\<close>

definition room_ok :: "re_dfa \<Rightarrow> bool" where
  "room_ok d \<longleftrightarrow> nodes_ok d \<and> nodes_alloc d \<le> idx_max"

text \<open>The token a leaf gets in the DFA.\<close>

definition stored :: "re_dfa \<Rightarrow> re_token \<Rightarrow> re_token" where
  "stored d t = (new_token d t)\<lparr>constraint := (case (tok_type t, opr_ctx_type (opr t)) of (ANCHOR, Some w) \<Rightarrow> w | _ \<Rightarrow> 0)\<rparr>"

lemma length_tokens: "nodes_ok d \<Longrightarrow> length (tokens d) = nodes_len d"
  by (auto simp: nodes_ok_def tokens_def)

lemma store_node_fields: "store_node d t = Some (i, d') \<Longrightarrow> nodes_alloc d' = nodes_alloc d \<and> mb_cur_max d' = mb_cur_max d"
  by (auto simp: store_node_def Let_def split: Option.bind_splits)

lemma realloc_block_cases:
  assumes "length xs \<le> n"
  obtains os' where "realloc_block x (Live xs) n os = Some (None, Live xs, os')"
  | os' where "realloc_block x (Live xs) n os = Some (Some (Live (xs @ replicate (n - length xs) x)), Freed, os')"
proof -
  obtain ok os' where "alloc os = (ok, os')" by force
  then show thesis using that assms by (cases ok) (auto simp: realloc_block_def)
qed

lemma enlarge_nodes_any:
  assumes "room_ok d"
  shows "\<exists>ok d' os'. enlarge_nodes d os = Some (ok, d', os') \<and>
    (ok \<longrightarrow> room_ok d' \<and> nodes_alloc d' = nodes_alloc d * 2 \<and> nodes_len d' = nodes_len d
       \<and> tokens d' = tokens d \<and> mb_cur_max d' = mb_cur_max d)"
proof -
  obtain ts ns ois eds ecs where b: "dfa_nodes d = Live ts" "nexts d = Live ns" "org_indices d = Live ois"
      "edests d = Live eds" "eclosures d = Live ecs"
    and len: "length ts = nodes_alloc d" "length ns = nodes_alloc d" "length ois = nodes_alloc d"
      "length eds = nodes_alloc d" "length ecs = nodes_alloc d" "nodes_len d \<le> nodes_alloc d" "0 < nodes_alloc d"
    using assms unfolding room_ok_def nodes_ok_def by blast
  let ?n = "nodes_alloc d * 2"
  have "nodes_alloc d \<le> idx_max" using assms by (simp add: room_ok_def)
  then have n: "?n mod 2 ^ 64 = ?n" by simp
  have lts: "length ts \<le> ?n" "length ns \<le> ?n" "length ois \<le> ?n" "length eds \<le> ?n" "length ecs \<le> ?n"
    using len by simp_all
  show ?thesis
  proof (cases "idx_max < ?n")
    case True
    then have "enlarge_nodes d os = Some (False, d, os)" by (simp add: enlarge_nodes_def n del: power_numeral)
    then show ?thesis by blast
  next
    case False
    show ?thesis
    proof (cases rule: realloc_block_cases [OF lts(1), of node_garbage os])
      case (1 os1)
      then have "enlarge_nodes d os = Some (False, d, os1)"
        using False b by (simp add: enlarge_nodes_def n del: power_numeral)
      then show ?thesis by blast
    next
      case (2 os1)
      obtain r2 o2 os2 where 3: "realloc_block idx_garbage (Live ns) ?n os1 = Some (r2, o2, os2)"
        "r2 = None \<or> r2 = Some (Live (ns @ replicate (?n - length ns) idx_garbage))"
        by (rule realloc_block_cases [OF lts(2), of idx_garbage os1]) blast+
      obtain r3 o3 os3 where 4: "realloc_block idx_garbage (Live ois) ?n os2 = Some (r3, o3, os3)"
        "r3 = None \<or> r3 = Some (Live (ois @ replicate (?n - length ois) idx_garbage))"
        by (rule realloc_block_cases [OF lts(3), of idx_garbage os2]) blast+
      obtain r4 o4 os4 where 5: "realloc_block init_empty (Live eds) ?n os3 = Some (r4, o4, os4)"
        "r4 = None \<or> r4 = Some (Live (eds @ replicate (?n - length eds) init_empty))"
        by (rule realloc_block_cases [OF lts(4), of init_empty os3]) blast+
      obtain r5 o5 os5 where 6: "realloc_block init_empty (Live ecs) ?n os4 = Some (r5, o5, os5)"
        "r5 = None \<or> r5 = Some (Live (ecs @ replicate (?n - length ecs) init_empty))"
        by (rule realloc_block_cases [OF lts(5), of init_empty os4]) blast+
      let ?d = "d\<lparr>dfa_nodes := Live (ts @ replicate (?n - length ts) node_garbage)\<rparr>"
      have e: "enlarge_nodes d os = (case (r2, r3, r4, r5) of
          (Some b2, Some b3, Some b4, Some b5) \<Rightarrow>
            Some (True, ?d\<lparr>nexts := b2, org_indices := b3, edests := b4, eclosures := b5, nodes_alloc := ?n\<rparr>, os5)
        | _ \<Rightarrow> Some (False, ?d\<lparr>nexts := o2, org_indices := o3, edests := o4, eclosures := o5\<rparr>, os5))"
        using False b 2 3(1) 4(1) 5(1) 6(1)
        by (cases r2; cases r3; cases r4; cases r5) (simp_all add: enlarge_nodes_def Let_def n del: power_numeral)
      show ?thesis
      proof (cases "r2 = None \<or> r3 = None \<or> r4 = None \<or> r5 = None")
        case True
        then have "\<exists>d'. enlarge_nodes d os = Some (False, d', os5)" unfolding e by (auto split: option.splits)
        then show ?thesis by blast
      next
        case some: False
        let ?e = "?d\<lparr>nexts := Live (ns @ replicate (?n - length ns) idx_garbage), org_indices := Live (ois @ replicate (?n - length ois) idx_garbage),
          edests := Live (eds @ replicate (?n - length eds) init_empty), eclosures := Live (ecs @ replicate (?n - length ecs) init_empty),
          nodes_alloc := ?n\<rparr>"
        have r: "r2 = Some (Live (ns @ replicate (?n - length ns) idx_garbage))"
          "r3 = Some (Live (ois @ replicate (?n - length ois) idx_garbage))"
          "r4 = Some (Live (eds @ replicate (?n - length eds) init_empty))"
          "r5 = Some (Live (ecs @ replicate (?n - length ecs) init_empty))"
          using some 3(2) 4(2) 5(2) 6(2) by blast+
        have "enlarge_nodes d os = Some (True, ?e, os5)" unfolding e r by simp
        moreover have "room_ok ?e" using len False by (simp add: room_ok_def nodes_ok_def)
        moreover have "tokens ?e = tokens d" using b len by (simp add: tokens_def)
        ultimately show ?thesis by (intro exI [of _ True] exI [of _ ?e] exI [of _ os5]) simp
      qed
    qed
  qed
qed

lemma add_node_any:
  assumes "room_ok d"
  shows "\<exists>i d' os'. re_dfa_add_node d t os = Some (i, d', os') \<and>
    (i = -1 \<or> i = int (nodes_len d) \<and> room_ok d' \<and> tokens d' = tokens d @ [new_token d t] \<and> mb_cur_max d' = mb_cur_max d)"
proof (cases "nodes_alloc d \<le> nodes_len d")
  case False
  then obtain d' where "store_node d t = Some (int (nodes_len d), d')" "nodes_ok d'" "tokens d' = tokens d @ [new_token d t]"
    using store_node_ok [of d t] assms by (auto simp: room_ok_def)
  then show ?thesis using False store_node_fields assms by (fastforce simp: re_dfa_add_node_def room_ok_def)
next
  case True
  obtain ok d1 os1 where e: "enlarge_nodes d os = Some (ok, d1, os1)"
    "ok \<longrightarrow> room_ok d1 \<and> nodes_alloc d1 = nodes_alloc d * 2 \<and> nodes_len d1 = nodes_len d
       \<and> tokens d1 = tokens d \<and> mb_cur_max d1 = mb_cur_max d"
    using enlarge_nodes_any [OF assms, of os] by blast
  show ?thesis
  proof (cases ok)
    case False
    with e True show ?thesis by (simp add: re_dfa_add_node_def)
  next
    case t: True
    have "nodes_len d1 < nodes_alloc d1" using e(2) t assms by (auto simp: room_ok_def nodes_ok_def)
    moreover have "new_token d1 t = new_token d t" using e(2) t by (simp add: new_token_def)
    ultimately obtain d' where d': "store_node d1 t = Some (int (nodes_len d), d')" "nodes_ok d'" "tokens d' = tokens d @ [new_token d t]"
      using store_node_ok [of d1 t] e t by (auto simp: room_ok_def)
    then have "re_dfa_add_node d t os = Some (int (nodes_len d), d', os1)" using e(1) t True by (simp add: re_dfa_add_node_def)
    then show ?thesis using d' store_node_fields [OF d'(1)] e(2) t by (auto simp: room_ok_def)
  qed
qed

lemma set_constraint_ok:
  assumes "room_ok d" and "i < nodes_len d"
  shows "\<exists>d'. set_constraint i w d = Some d' \<and> room_ok d' \<and> mb_cur_max d' = mb_cur_max d
    \<and> tokens d' = (tokens d)[i := (tokens d ! i)\<lparr>constraint := w\<rparr>]"
proof -
  obtain ts where ts: "dfa_nodes d = Live ts" "length ts = nodes_alloc d" "nodes_len d \<le> nodes_alloc d"
    using assms unfolding room_ok_def nodes_ok_def by blast
  let ?d = "d\<lparr>dfa_nodes := Live (ts[i := (ts ! i)\<lparr>constraint := w\<rparr>])\<rparr>"
  have "set_constraint i w d = Some ?d"
    using ts assms(2) by (simp add: set_constraint_def write_block_def mem_read_lt mem_write_1)
  moreover have "room_ok ?d" using assms(1) ts unfolding room_ok_def nodes_ok_def by auto
  moreover have "tokens ?d = (tokens d)[i := (tokens d ! i)\<lparr>constraint := w\<rparr>]"
    using ts assms(2) by (simp add: tokens_def take_update_swap)
  ultimately show ?thesis by auto
qed

lemma update_tree_at: "tree_at c a = Some n \<Longrightarrow> update_tree a f c = Some (c\<lparr>tree_nodes := (tree_nodes c)[a := f n]\<rparr>)"
  by (simp add: update_tree_def)

lemma tree_at_lt: "a < length (tree_nodes c) \<Longrightarrow> tree_at c a = Some (tree_nodes c ! a)"
  by (simp add: tree_at_def mem_read_lt)

lemma tree_at_dfa [simp]: "tree_at (c\<lparr>dfa_of := d, pending := os\<rparr>) a = tree_at c a"
  by (simp add: tree_at_def)

lemma calc_first_leaf:
  assumes a: "a < length (tree_nodes c)" and n: "tree_nodes c ! a = n" and ty: "tok_type (tree_token n) \<noteq> CONCAT"
    and anchor: "tok_type (tree_token n) = ANCHOR \<Longrightarrow> opr_ctx_type (opr (tree_token n)) \<noteq> None" and room: "room_ok (dfa_of c)"
  shows "\<exists>e c'. calc_first a c = Some (e, c') \<and> (e = REG_ESPACE \<or> e = REG_NOERROR
    \<and> tree_nodes c' = (tree_nodes c)[a := n\<lparr>tree_first := Some a, tree_idx := int (nodes_len (dfa_of c))\<rparr>]
    \<and> room_ok (dfa_of c') \<and> mb_cur_max (dfa_of c') = mb_cur_max (dfa_of c)
    \<and> tokens (dfa_of c') = tokens (dfa_of c) @ [stored (dfa_of c) (tree_token n)])"
proof -
  let ?d = "dfa_of c" and ?t = "tree_token n"
  obtain i d' os' where add: "re_dfa_add_node ?d ?t (pending c) = Some (i, d', os')"
    "i = -1 \<or> i = int (nodes_len ?d) \<and> room_ok d' \<and> tokens d' = tokens ?d @ [new_token ?d ?t] \<and> mb_cur_max d' = mb_cur_max ?d"
    using add_node_any [OF room] by blast
  let ?c1 = "c\<lparr>dfa_of := d', pending := os'\<rparr>"
  let ?c2 = "?c1\<lparr>tree_nodes := (tree_nodes c)[a := n\<lparr>tree_first := Some a, tree_idx := i\<rparr>]\<rparr>"
  have at: "tree_at c a = Some n" "tree_at ?c1 a = Some n" using tree_at_lt [OF a] n by simp_all
  have an: "add_node ?t c = Some (i, ?c1)" using add(1) by (simp add: add_node_def)
  have up: "update_tree a (\<lambda>n. n\<lparr>tree_first := Some a, tree_idx := i\<rparr>) ?c1 = Some ?c2" using update_tree_at [OF at(2)] by simp
  show ?thesis
  proof (cases "i = -1")
    case True
    then have "calc_first a c = Some (REG_ESPACE, ?c2)" using at(1) ty an up by (simp add: calc_first_def)
    then show ?thesis by blast
  next
    case False
    then have i: "i = int (nodes_len ?d)" "room_ok d'" "tokens d' = tokens ?d @ [new_token ?d ?t]" "mb_cur_max d' = mb_cur_max ?d"
      using add(2) by simp_all
    have len: "length (tokens ?d) = nodes_len ?d" "length (tokens d') = nodes_len d'"
      using length_tokens room i(2) by (simp_all add: room_ok_def)
    show ?thesis
    proof (cases "tok_type ?t = ANCHOR")
      case True
      then obtain w where w: "opr_ctx_type (opr ?t) = Some w" using anchor by auto
      have lt: "nodes_len ?d < nodes_len d'" using len i(3) by simp
      obtain d2 where d2: "set_constraint (nodes_len ?d) w d' = Some d2" "room_ok d2" "mb_cur_max d2 = mb_cur_max d'"
        "tokens d2 = (tokens d')[nodes_len ?d := (tokens d' ! nodes_len ?d)\<lparr>constraint := w\<rparr>]"
        using set_constraint_ok [OF i(2) lt] by blast
      let ?c3 = "?c2\<lparr>dfa_of := d2\<rparr>"
      have "calc_first a c = Some (REG_NOERROR, ?c3)"
        using at(1) ty an up False True w d2(1) i(1) by (simp add: calc_first_def update_dfa_def)
      moreover have "tokens d2 = tokens ?d @ [stored ?d ?t]"
        using d2(4) i(3) len(1) True w by (simp add: stored_def list_update_append nth_append)
      ultimately show ?thesis using d2(2,3) i(1,4) by (intro exI [of _ REG_NOERROR] exI [of _ ?c3]) simp
    next
      case na: False
      have "calc_first a c = Some (REG_NOERROR, ?c2)" using at(1) ty an up False na by (simp add: calc_first_def)
      moreover have "stored ?d ?t = new_token ?d ?t"
        using na by (cases "tok_type ?t") (simp_all add: stored_def new_token_def)
      ultimately show ?thesis using i by (intro exI [of _ REG_NOERROR] exI [of _ ?c2]) simp
    qed
  qed
qed

lemma calc_first_concat:
  assumes a: "a < length (tree_nodes c)" and l: "tree_left (tree_nodes c ! a) = Some l" "l < length (tree_nodes c)"
    and ty: "tok_type (tree_token (tree_nodes c ! a)) = CONCAT"
  shows "calc_first a c = Some (REG_NOERROR, c\<lparr>tree_nodes := (tree_nodes c)[a := (tree_nodes c ! a)
    \<lparr>tree_first := tree_first (tree_nodes c ! l), tree_idx := tree_idx (tree_nodes c ! l)\<rparr>]\<rparr>)"
  using assms by (simp add: calc_first_def tree_at_lt update_tree_at)

interpretation cf_pass: tree_pass calc_first
proof -
  have "links c' = links c" if "calc_first a c = Some (e, c')" for a c e c'
  proof -
    have u: "links c2 = links c1" if "update_tree a f c1 = Some c2" "\<And>n. tree_parent (f n) = tree_parent n \<and> tree_left (f n) = tree_left n
      \<and> tree_right (f n) = tree_right n" for c1 c2 :: compiler and f a
      using that by (auto simp: update_tree_def tree_at_def mem_read_def links_def map_update split: if_splits
          intro!: nth_equalityI simp: nth_list_update)
    have d: "links (c1\<lparr>dfa_of := d\<rparr>) = links c1" "links (c1\<lparr>dfa_of := d, pending := os\<rparr>) = links c1" for c1 :: compiler and d os
      by (simp_all add: links_def)
    show ?thesis
      using that u
      by (auto simp: calc_first_def add_node_def update_dfa_def d split: Option.bind_splits if_splits)
  qed
  then show "tree_pass calc_first" by unfold_locales blast
qed


text \<open>What \<open>calc_first\<close> leaves in the nodes of a tree.\<close>

fun first_ok :: "(nat \<Rightarrow> re_token_type) \<Rightarrow> bin_tree list \<Rightarrow> nat tree \<Rightarrow> bool" where
  "first_ok ty ts Leaf \<longleftrightarrow> True"
| "first_ok ty ts (Node l a r) \<longleftrightarrow> tree_first (ts ! a) = Some (first_of ty (Node l a r)) \<and> first_ok ty ts l \<and> first_ok ty ts r"

abbreviation ty_of :: "bin_tree list \<Rightarrow> nat \<Rightarrow> re_token_type" where
  "ty_of ts a \<equiv> tok_type (tree_token (ts ! a))"

definition leaves :: "(nat \<Rightarrow> re_token_type) \<Rightarrow> nat tree \<Rightarrow> nat list" where
  "leaves ty t = filter (\<lambda>a. ty a \<noteq> CONCAT) (Tree.postorder t)"

definition anchors_ok :: "bin_tree list \<Rightarrow> nat set \<Rightarrow> bool" where
  "anchors_ok ts A \<longleftrightarrow> (\<forall>a \<in> A. ty_of ts a = ANCHOR \<longrightarrow> opr_ctx_type (opr (tree_token (ts ! a))) \<noteq> None)"

definition same_but_first :: "bin_tree \<Rightarrow> bin_tree \<Rightarrow> bool" where
  "same_but_first n n' \<longleftrightarrow> tree_parent n' = tree_parent n \<and> tree_left n' = tree_left n \<and> tree_right n' = tree_right n
     \<and> tree_next n' = tree_next n \<and> tree_token n' = tree_token n"

lemma same_but_first_refl [simp]: "same_but_first n n"
  by (simp add: same_but_first_def)

lemma first_ok_cong:
  "(\<And>a. a \<in> set_tree t \<Longrightarrow> tree_first (ts' ! a) = tree_first (ts ! a)) \<Longrightarrow> first_ok ty ts' t = first_ok ty ts t"
  by (induction t) auto

lemma linked_cong:
  "length ts' = length ts \<Longrightarrow> (\<And>a. a \<in> set_tree t \<Longrightarrow> tree_parent (ts' ! a) = tree_parent (ts ! a) \<and> tree_left (ts' ! a) = tree_left (ts ! a)
     \<and> tree_right (ts' ! a) = tree_right (ts ! a)) \<Longrightarrow> linked ts' par p t = linked ts par p t"
  by (induction t arbitrary: par p) auto

lemma wf_tree_cong: "(\<And>a. a \<in> set_tree t \<Longrightarrow> ty' a = ty a) \<Longrightarrow> wf_tree L ty' t = wf_tree L ty t"
  by (induction t) auto

lemma first_of_cong: "(\<And>a. a \<in> set_tree t \<Longrightarrow> ty' a = ty a) \<Longrightarrow> first_of ty' t = first_of ty t"
  by (induction t) auto

lemma leaves_cong: "(\<And>a. a \<in> set_tree t \<Longrightarrow> ty' a = ty a) \<Longrightarrow> leaves ty' t = leaves ty t"
  unfolding leaves_def by (rule filter_cong [OF refl]) simp

definition first_rel :: "nat tree \<Rightarrow> compiler \<Rightarrow> compiler \<Rightarrow> bool" where
  "first_rel t c c' \<longleftrightarrow> (let ts = tree_nodes c; ts' = tree_nodes c'; ty = ty_of ts; xs = leaves ty t in
     length ts' = length ts \<and> (\<forall>b. b \<notin> set_tree t \<longrightarrow> ts' ! b = ts ! b) \<and> (\<forall>b. same_but_first (ts ! b) (ts' ! b))
     \<and> first_ok ty ts' t \<and> room_ok (dfa_of c') \<and> mb_cur_max (dfa_of c') = mb_cur_max (dfa_of c)
     \<and> tokens (dfa_of c') = tokens (dfa_of c) @ map (\<lambda>a. stored (dfa_of c) (tree_token (ts ! a))) xs
     \<and> (\<forall>i < length xs. tree_idx (ts' ! (xs ! i)) = int (nodes_len (dfa_of c) + i)))"

lemma linked_in: "linked ts par p t \<Longrightarrow> a \<in> set_tree t \<Longrightarrow> a < length ts"
  by (induction t arbitrary: par p) auto


lemma first_tree:
  "linked (tree_nodes c) par p t \<Longrightarrow> distinct_tree t \<Longrightarrow> wf_tree L (ty_of (tree_nodes c)) t \<Longrightarrow> anchors_ok (tree_nodes c) (set_tree t) \<Longrightarrow>
     room_ok (dfa_of c) \<Longrightarrow>
     \<exists>e c'. visit_all calc_first (Tree.postorder t) c = Some (e, c') \<and> (e = REG_ESPACE \<or> e = REG_NOERROR \<and> first_rel t c c')"
proof (induction t arbitrary: c par p)
  case Leaf
  then show ?case by (simp add: first_rel_def leaves_def)
next
  case (Node l a r)
  let ?ts = "tree_nodes c" and ?ty = "ty_of (tree_nodes c)"
  have dj: "distinct_tree l" "distinct_tree r" "set_tree l \<inter> set_tree r = {}" "a \<notin> set_tree l" "a \<notin> set_tree r"
    using Node.prems(2) by auto
  have lk: "linked ?ts (Some a) (tree_left (?ts ! a)) l" "linked ?ts (Some a) (tree_right (?ts ! a)) r" "a < length ?ts"
    using Node.prems(1) by simp_all
  have wf: "wf_tree L ?ty l" "wf_tree L ?ty r" using Node.prems(3) by simp_all
  have an: "anchors_ok ?ts (set_tree l)" "anchors_ok ?ts (set_tree r)" using Node.prems(4) by (simp_all add: anchors_ok_def)
  from Node.IH(1) [OF lk(1) dj(1) wf(1) an(1) Node.prems(5)] obtain e1 c1 where
    v1: "visit_all calc_first (Tree.postorder l) c = Some (e1, c1)" "e1 = REG_ESPACE \<or> e1 = REG_NOERROR \<and> first_rel l c c1" by blast
  show ?case
  proof (cases "e1 = REG_ESPACE")
    case True
    then show ?thesis using v1(1) by (simp add: visit_all_append)
  next
    case False
    then have e1: "e1 = REG_NOERROR" "first_rel l c c1" using v1(2) by simp_all
    let ?ts1 = "tree_nodes c1"
    note r1 = e1(2) [unfolded first_rel_def Let_def]
    have s1: "same_but_first (?ts ! b) (?ts1 ! b)" for b using r1 by blast
    have ty1: "ty_of ?ts1 = ?ty" using s1 by (auto simp: same_but_first_def)
    have lk1: "linked ?ts1 (Some a) (tree_right (?ts ! a)) r"
      using linked_cong [of ?ts1 ?ts r] s1 r1 lk(2) by (auto simp: same_but_first_def)
    have an1: "anchors_ok ?ts1 (set_tree r)" using an(2) s1 by (auto simp: anchors_ok_def same_but_first_def)
    have wf1: "wf_tree L (ty_of ?ts1) r" unfolding ty1 by (rule wf(2))
    have room1: "room_ok (dfa_of c1)" using r1 by blast
    from Node.IH(2) [OF lk1 dj(2) wf1 an1 room1] obtain e2 c2 where
      v2: "visit_all calc_first (Tree.postorder r) c1 = Some (e2, c2)" "e2 = REG_ESPACE \<or> e2 = REG_NOERROR \<and> first_rel r c1 c2" by blast
    show ?thesis
    proof (cases "e2 = REG_ESPACE")
      case True
      then show ?thesis using v1(1) e1(1) v2(1) by (simp add: visit_all_append)
    next
      case False
      then have e2: "e2 = REG_NOERROR" "first_rel r c1 c2" using v2(2) by simp_all
      let ?ts2 = "tree_nodes c2"
      note r2 = e2(2) [unfolded first_rel_def Let_def ty1]
      have s2: "same_but_first (?ts1 ! b) (?ts2 ! b)" for b using r2 by blast
      have s02: "same_but_first (?ts ! b) (?ts2 ! b)" for b using s1 [of b] s2 [of b] by (auto simp: same_but_first_def)
      have len2: "length ?ts2 = length ?ts" using r1 r2 by simp
      have at2: "?ts2 ! a = ?ts ! a" using r1 r2 dj by auto
      have visit: "visit_all calc_first (Tree.postorder (Node l a r)) c = visit_all calc_first [a] c2"
        using v1(1) e1(1) v2(1) e2(1) by (simp add: visit_all_append)
      have st: "stored (dfa_of c1) = stored (dfa_of c)" "stored (dfa_of c2) = stored (dfa_of c)"
        using r1 r2 by (auto simp: stored_def new_token_def)
      have tok2: "tokens (dfa_of c2) = tokens (dfa_of c)
          @ map (\<lambda>a. stored (dfa_of c) (tree_token (?ts ! a))) (leaves ?ty l @ leaves ?ty r)"
        using r1 r2 st s1 by (simp add: same_but_first_def)
      have nl: "length (tokens (dfa_of c)) = nodes_len (dfa_of c)" "length (tokens (dfa_of c1)) = nodes_len (dfa_of c1)"
        "length (tokens (dfa_of c2)) = nodes_len (dfa_of c2)"
        using Node.prems(5) r1 r2 length_tokens unfolding room_ok_def by blast+
      have n1: "nodes_len (dfa_of c1) = nodes_len (dfa_of c) + length (leaves ?ty l)" using r1 nl(1,2) by simp
      have n2: "nodes_len (dfa_of c2) = nodes_len (dfa_of c) + length (leaves ?ty l @ leaves ?ty r)" using tok2 nl(1,3) by simp
      have inl: "b \<in> set_tree l" if "b \<in> set (leaves ?ty l)" for b using that by (simp add: leaves_def)
      have idx2: "tree_idx (?ts2 ! ((leaves ?ty l @ leaves ?ty r) ! i)) = int (nodes_len (dfa_of c) + i)"
        if i: "i < length (leaves ?ty l @ leaves ?ty r)" for i
      proof (cases "i < length (leaves ?ty l)")
        case True
        then have "leaves ?ty l ! i \<in> set_tree l" using inl by simp
        then have "?ts2 ! (leaves ?ty l ! i) = ?ts1 ! (leaves ?ty l ! i)" using r2 dj(3) by blast
        then show ?thesis using True r1 by (simp add: nth_append)
      next
        case False
        then have "i - length (leaves ?ty l) < length (leaves ?ty r)" using i by simp
        then show ?thesis using False r2 n1 by (simp add: nth_append)
      qed
      have fl: "first_ok ?ty ?ts2 l"
        using first_ok_cong [of l ?ts2 ?ts1 ?ty] r1 r2 dj(3) by (metis disjoint_iff)
      have fr: "first_ok ?ty ?ts2 r" using r2 by blast
      show ?thesis
      proof (cases "?ty a = CONCAT")
        case True
        then obtain l' b l'' where l: "l = Node l' b l''" using Node.prems(3) by (cases l) auto
        have b: "tree_left (?ts ! a) = Some b" "b < length ?ts" using lk(1) l by simp_all
        let ?n = "(?ts ! a)\<lparr>tree_first := tree_first (?ts2 ! b), tree_idx := tree_idx (?ts2 ! b)\<rparr>"
        let ?c3 = "c2\<lparr>tree_nodes := ?ts2[a := ?n]\<rparr>"
        have "calc_first a c2 = Some (REG_NOERROR, ?c3)"
          using calc_first_concat [of a c2 b] lk(3) len2 at2 b True by simp
        moreover have "first_rel (Node l a r) c ?c3"
        proof -
          have lv: "leaves ?ty (Node l a r) = leaves ?ty l @ leaves ?ty r" using True by (simp add: leaves_def)
          have fb: "tree_first (?ts2 ! b) = Some (first_of ?ty l)" using fl l by simp
          have keep: "?ts2[a := ?n] ! x = ?ts2 ! x" if "x \<noteq> a" for x using that by simp
          have "first_ok ?ty (?ts2[a := ?n]) l" using first_ok_cong [of l "?ts2[a := ?n]" ?ts2 ?ty] fl dj(4) keep by metis
          moreover have "first_ok ?ty (?ts2[a := ?n]) r" using first_ok_cong [of r "?ts2[a := ?n]" ?ts2 ?ty] fr dj(5) keep by metis
          ultimately have "first_ok ?ty (?ts2[a := ?n]) (Node l a r)" using fb True lk(3) len2 by simp
          moreover have "same_but_first (?ts ! x) (?ts2[a := ?n] ! x)" for x
            using s02 [of x] lk(3) len2 by (cases "x = a") (simp_all add: same_but_first_def)
          moreover have "\<forall>x. x \<notin> set_tree (Node l a r) \<longrightarrow> ?ts2[a := ?n] ! x = ?ts ! x" using r1 r2 by auto
          moreover have "tree_idx (?ts2[a := ?n] ! ((leaves ?ty l @ leaves ?ty r) ! i)) = int (nodes_len (dfa_of c) + i)"
            if "i < length (leaves ?ty l @ leaves ?ty r)" for i
          proof -
            have "(leaves ?ty l @ leaves ?ty r) ! i \<in> set (leaves ?ty l @ leaves ?ty r)" using that by (rule nth_mem)
            then have "(leaves ?ty l @ leaves ?ty r) ! i \<noteq> a" using dj(4,5) by (auto simp: leaves_def)
            then show ?thesis using idx2 [OF that] keep by simp
          qed
          ultimately show ?thesis using r1 r2 tok2 len2 unfolding first_rel_def Let_def lv by simp
        qed
        ultimately show ?thesis unfolding visit by (intro exI [of _ REG_NOERROR] exI [of _ ?c3]) simp
      next
        case False
        have anc: "?ty a = ANCHOR \<Longrightarrow> opr_ctx_type (opr (tree_token (?ts ! a))) \<noteq> None"
          using Node.prems(4) by (auto simp: anchors_ok_def)
        have room2: "room_ok (dfa_of c2)" using r2 by blast
        have a2: "a < length ?ts2" using lk(3) len2 by simp
        obtain e3 c3 where v3: "calc_first a c2 = Some (e3, c3)" "e3 = REG_ESPACE \<or> e3 = REG_NOERROR
            \<and> tree_nodes c3 = ?ts2[a := (?ts ! a)\<lparr>tree_first := Some a, tree_idx := int (nodes_len (dfa_of c2))\<rparr>]
            \<and> room_ok (dfa_of c3) \<and> mb_cur_max (dfa_of c3) = mb_cur_max (dfa_of c2)
            \<and> tokens (dfa_of c3) = tokens (dfa_of c2) @ [stored (dfa_of c2) (tree_token (?ts ! a))]"
          using calc_first_leaf [OF a2 at2 False anc room2] by blast
        show ?thesis
        proof (cases "e3 = REG_ESPACE")
          case True
          then show ?thesis unfolding visit using v3(1) by simp
        next
          case ne: False
          let ?n = "(?ts ! a)\<lparr>tree_first := Some a, tree_idx := int (nodes_len (dfa_of c2))\<rparr>"
          have c3: "e3 = REG_NOERROR" "tree_nodes c3 = ?ts2[a := ?n]" "room_ok (dfa_of c3)" "mb_cur_max (dfa_of c3) = mb_cur_max (dfa_of c2)"
            "tokens (dfa_of c3) = tokens (dfa_of c2) @ [stored (dfa_of c2) (tree_token (?ts ! a))]" using v3(2) ne by simp_all
          have "first_rel (Node l a r) c c3"
          proof -
            have lv: "leaves ?ty (Node l a r) = (leaves ?ty l @ leaves ?ty r) @ [a]" using False by (simp add: leaves_def)
            have keep: "?ts2[a := ?n] ! x = ?ts2 ! x" if "x \<noteq> a" for x using that by simp
            have "first_ok ?ty (?ts2[a := ?n]) l" using first_ok_cong [of l "?ts2[a := ?n]" ?ts2 ?ty] fl dj(4) keep by metis
            moreover have "first_ok ?ty (?ts2[a := ?n]) r" using first_ok_cong [of r "?ts2[a := ?n]" ?ts2 ?ty] fr dj(5) keep by metis
            ultimately have "first_ok ?ty (?ts2[a := ?n]) (Node l a r)" using False a2 by simp
            moreover have "same_but_first (?ts ! x) (?ts2[a := ?n] ! x)" for x
              using s02 [of x] lk(3) len2 by (cases "x = a") (simp_all add: same_but_first_def)
            moreover have "\<forall>x. x \<notin> set_tree (Node l a r) \<longrightarrow> ?ts2[a := ?n] ! x = ?ts ! x" using r1 r2 by auto
            moreover have "tree_idx (?ts2[a := ?n] ! (((leaves ?ty l @ leaves ?ty r) @ [a]) ! i)) = int (nodes_len (dfa_of c) + i)"
              if "i < length ((leaves ?ty l @ leaves ?ty r) @ [a])" for i
            proof (cases "i < length (leaves ?ty l @ leaves ?ty r)")
              case True
              then have "(leaves ?ty l @ leaves ?ty r) ! i \<in> set (leaves ?ty l @ leaves ?ty r)" by (rule nth_mem)
              then have ne: "(leaves ?ty l @ leaves ?ty r) ! i \<noteq> a" using dj(4,5) by (auto simp: leaves_def)
              show ?thesis unfolding nth_append_left [OF True] keep [OF ne] by (rule idx2 [OF True])
            next
              case False
              then have "i = length (leaves ?ty l @ leaves ?ty r)" using that by simp
              then show ?thesis using n2 a2 by simp
            qed
            ultimately show ?thesis using r1 r2 tok2 len2 c3 st unfolding first_rel_def Let_def lv by simp
          qed
          then show ?thesis unfolding visit using v3(1) c3(1) by simp
        qed
      qed
    qed
  qed
qed


section \<open>The second pass: what comes next\<close>

fun next_ok :: "(nat \<Rightarrow> re_token_type) \<Rightarrow> bin_tree list \<Rightarrow> nat tree \<Rightarrow> nat option \<Rightarrow> bool" where
  "next_ok ty ts Leaf k \<longleftrightarrow> True"
| "next_ok ty ts (Node l a r) k \<longleftrightarrow> tree_next (ts ! a) = k
     \<and> next_ok ty ts l (if ty a = CONCAT then Some (first_of ty r) else if ty a = OP_DUP_ASTERISK then Some a else k)
     \<and> next_ok ty ts r k"

definition same_but_next :: "bin_tree \<Rightarrow> bin_tree \<Rightarrow> bool" where
  "same_but_next n n' \<longleftrightarrow> tree_parent n' = tree_parent n \<and> tree_left n' = tree_left n \<and> tree_right n' = tree_right n
     \<and> tree_first n' = tree_first n \<and> tree_token n' = tree_token n \<and> tree_idx n' = tree_idx n"

lemma same_but_next_refl [simp]: "same_but_next n n"
  by (simp add: same_but_next_def)

lemma same_but_next_set [simp]: "same_but_next n (n\<lparr>tree_next := x\<rparr>)"
  by (simp add: same_but_next_def)

lemma same_but_next_trans: "same_but_next a b \<Longrightarrow> same_but_next b c \<Longrightarrow> same_but_next a c"
  by (simp add: same_but_next_def)

lemma next_ok_cong:
  "(\<And>a. a \<in> set_tree t \<Longrightarrow> tree_next (ts' ! a) = tree_next (ts ! a)) \<Longrightarrow> next_ok ty ts' t k = next_ok ty ts t k"
  by (induction t arbitrary: k) auto

text \<open>The children of \<open>a\<close> in the tree are its children in the heap.\<close>

fun root_of :: "nat tree \<Rightarrow> nat option" where
  "root_of Leaf = None"
| "root_of (Node l a r) = Some a"

lemma linked_root_of: "linked ts par p t \<Longrightarrow> p = root_of t"
  by (cases t) auto

lemma root_of_in: "root_of t = Some b \<Longrightarrow> b \<in> set_tree t"
  by (cases t) auto

lemma first_ok_root: "first_ok ty ts t \<Longrightarrow> root_of t = Some b \<Longrightarrow> tree_first (ts ! b) = Some (first_of ty t)"
  by (cases t) auto

definition upd_next :: "nat option \<Rightarrow> nat option \<Rightarrow> bin_tree list \<Rightarrow> bin_tree list" where
  "upd_next b x ts = (case b of None \<Rightarrow> ts | Some b \<Rightarrow> ts[b := (ts ! b)\<lparr>tree_next := x\<rparr>])"

lemma length_upd_next [simp]: "length (upd_next b x ts) = length ts"
  by (simp add: upd_next_def split: option.split)

lemma same_upd_next: "same_but_next (ts ! i) (upd_next b x ts ! i)"
proof (cases b)
  case (Some j)
  then show ?thesis by (cases "i = j"; cases "i < length ts") (simp_all add: upd_next_def list_update_beyond)
qed (simp add: upd_next_def)

lemma upd_next_other: "b \<noteq> Some i \<Longrightarrow> upd_next b x ts ! i = ts ! i"
  by (cases b) (auto simp: upd_next_def)

lemma upd_next_None [simp]: "upd_next None x ts = ts"
  by (simp add: upd_next_def)

lemma upd_next_at: "b < length ts \<Longrightarrow> tree_next (upd_next (Some b) x ts ! b) = x"
  by (simp add: upd_next_def)

lemma set_next_at: "b < length (tree_nodes c) \<Longrightarrow>
    set_next (Some b) x c = Some (c\<lparr>tree_nodes := upd_next (Some b) x (tree_nodes c)\<rparr>)"
  by (simp add: set_next_def upd_next_def update_tree_at [OF tree_at_lt])

text \<open>What goes on after the left child.\<close>

definition left_next :: "(nat \<Rightarrow> re_token_type) \<Rightarrow> nat \<Rightarrow> nat tree \<Rightarrow> nat option \<Rightarrow> nat option" where
  "left_next ty a r k = (if ty a = CONCAT then Some (first_of ty r) else if ty a = OP_DUP_ASTERISK then Some a else k)"

lemma calc_next_step:
  assumes lk: "linked (tree_nodes c) par (Some a) (Node l a r)" and wf: "wf_tree L (ty_of (tree_nodes c)) (Node l a r)"
    and first: "first_ok (ty_of (tree_nodes c)) (tree_nodes c) (Node l a r)" and k: "tree_next (tree_nodes c ! a) = k"
    and d: "distinct_tree (Node l a r)"
  shows "calc_next a c = Some (REG_NOERROR, c\<lparr>tree_nodes :=
    upd_next (root_of r) k (upd_next (root_of l) (left_next (ty_of (tree_nodes c)) a r k) (tree_nodes c))\<rparr>)"
proof -
  let ?ts = "tree_nodes c" and ?ty = "ty_of (tree_nodes c)"
  have at: "tree_at c a = Some (?ts ! a)" using lk tree_at_lt by simp
  have ch: "tree_left (?ts ! a) = root_of l" "tree_right (?ts ! a) = root_of r" "linked ?ts (Some a) (root_of l) l" "linked ?ts (Some a) (root_of r) r"
    using lk linked_root_of by fastforce+
  have len: "b < length ?ts" if "root_of l = Some b \<or> root_of r = Some b" for b
    using that ch(3,4) linked_in root_of_in by blast
  have na: "root_of l \<noteq> Some a" "root_of r \<noteq> Some a" using d root_of_in by fastforce+
  have at1: "tree_at (c\<lparr>tree_nodes := upd_next (root_of l) x ?ts\<rparr>) a = Some (?ts ! a)" for x
    using tree_at_lt [of a "c\<lparr>tree_nodes := upd_next (root_of l) x ?ts\<rparr>"] lk upd_next_other [OF na(1)] by simp
  have left: "set_next (root_of l) x c = Some (c\<lparr>tree_nodes := upd_next (root_of l) x ?ts\<rparr>)" if "l \<noteq> Leaf" for x
    using that len set_next_at by (cases l) auto
  have right: "set_next (root_of r) k (c\<lparr>tree_nodes := upd_next (root_of l) x ?ts\<rparr>)
      = Some (c\<lparr>tree_nodes := upd_next (root_of r) k (upd_next (root_of l) x ?ts)\<rparr>)" if "r \<noteq> Leaf" for x
    using that len set_next_at [of _ "c\<lparr>tree_nodes := upd_next (root_of l) x ?ts\<rparr>"] by (cases r) auto
  have none: "upd_next (root_of Leaf) x ts = ts" for x ts by (simp add: upd_next_def)
  consider "?ty a = CONCAT" | "?ty a = OP_DUP_ASTERISK" | "?ty a \<noteq> CONCAT" "?ty a \<noteq> OP_DUP_ASTERISK" by blast
  then show ?thesis
  proof cases
    case 1
    then have ne: "l \<noteq> Leaf" "r \<noteq> Leaf" using wf by simp_all
    then obtain b where b: "root_of r = Some b" by (cases r) auto
    then have "tree_at c b = Some (?ts ! b)" "tree_first (?ts ! b) = Some (first_of ?ty r)"
      using len tree_at_lt first_ok_root [of ?ty ?ts r] first by auto
    then show ?thesis
      using 1 at at1 ch(1,2) k left [OF ne(1)] right [OF ne(2)] b by (simp add: calc_next_def left_next_def)
  next
    case 2
    then have ne: "l \<noteq> Leaf" "r = Leaf" using wf by simp_all
    then show ?thesis using 2 at ch(1) left [OF ne(1)] none by (simp add: calc_next_def left_next_def)
  next
    case 3
    have k': "left_next ?ty a r k = k" using 3 by (simp add: left_next_def)
    have "calc_next a c = do { c \<leftarrow> (if root_of l \<noteq> None then set_next (root_of l) k c else Some c);
                         n \<leftarrow> tree_at c a;
                         c \<leftarrow> (if tree_right n \<noteq> None then set_next (tree_right n) (tree_next n) c else Some c);
                         Some (REG_NOERROR, c) }"
      using 3 at ch(1) k by (cases "?ty a") (simp_all add: calc_next_def)
    also have "(if root_of l \<noteq> None then set_next (root_of l) k c else Some c) = Some (c\<lparr>tree_nodes := upd_next (root_of l) k ?ts\<rparr>)"
      using left by (cases l) (simp_all add: none)
    finally show ?thesis unfolding k' using at1 ch(2) k right by (cases r) (simp_all add: none)
  qed
qed

definition next_rel :: "nat tree \<Rightarrow> compiler \<Rightarrow> compiler \<Rightarrow> bool" where
  "next_rel t c c' \<longleftrightarrow> c' = c\<lparr>tree_nodes := tree_nodes c'\<rparr> \<and> length (tree_nodes c') = length (tree_nodes c)
     \<and> (\<forall>b. b \<notin> set_tree t \<longrightarrow> tree_nodes c' ! b = tree_nodes c ! b) \<and> (\<forall>b. same_but_next (tree_nodes c ! b) (tree_nodes c' ! b))"

lemma next_tree:
  "linked (tree_nodes c) par p t \<Longrightarrow> distinct_tree t \<Longrightarrow> wf_tree L (ty_of (tree_nodes c)) t \<Longrightarrow>
     first_ok (ty_of (tree_nodes c)) (tree_nodes c) t \<Longrightarrow> (\<forall>b. root_of t = Some b \<longrightarrow> tree_next (tree_nodes c ! b) = k) \<Longrightarrow>
     \<exists>c'. visit_all calc_next (Tree.preorder t) c = Some (REG_NOERROR, c') \<and> next_rel t c c'
       \<and> next_ok (ty_of (tree_nodes c)) (tree_nodes c') t k"
proof (induction t arbitrary: c par p k)
  case Leaf
  then show ?case by (simp add: next_rel_def)
next
  case (Node l a r)
  let ?ts = "tree_nodes c" and ?ty = "ty_of (tree_nodes c)"
  let ?kl = "left_next ?ty a r k"
  have dj: "distinct_tree l" "distinct_tree r" "set_tree l \<inter> set_tree r = {}" "a \<notin> set_tree l" "a \<notin> set_tree r"
    using Node.prems(2) by auto
  have lk: "linked ?ts par (Some a) (Node l a r)" using Node.prems(1) by simp
  have k: "tree_next (?ts ! a) = k" using Node.prems(5) by simp
  let ?ts1 = "upd_next (root_of r) k (upd_next (root_of l) ?kl ?ts)"
  let ?c1 = "c\<lparr>tree_nodes := ?ts1\<rparr>"
  have step: "calc_next a c = Some (REG_NOERROR, ?c1)"
    by (rule calc_next_step [OF lk Node.prems(3,4) k Node.prems(2)])
  have s1: "same_but_next (?ts ! b) (?ts1 ! b)" for b by (rule same_but_next_trans [OF same_upd_next same_upd_next])
  have ty1: "ty_of ?ts1 = ?ty" using s1 by (auto simp: same_but_next_def)
  have rts: "root_of l \<noteq> Some b" if "b \<notin> set_tree l" for b using that root_of_in by blast
  have rtr: "root_of r \<noteq> Some b" if "b \<notin> set_tree r" for b using that root_of_in by blast
  have out1: "?ts1 ! b = ?ts ! b" if "b \<notin> set_tree l" "b \<notin> set_tree r" for b
    using upd_next_other [OF rts [OF that(1)]] upd_next_other [OF rtr [OF that(2)]] by simp
  have children: "linked ?ts (Some a) (tree_left (?ts ! a)) l" "linked ?ts (Some a) (tree_right (?ts ! a)) r" "a < length ?ts"
    using lk by simp_all
  have lk1: "linked ?ts1 (Some a) (tree_left (?ts ! a)) l" "linked ?ts1 (Some a) (tree_right (?ts ! a)) r"
    using linked_cong [of ?ts1 ?ts] s1 children by (simp_all add: same_but_next_def)
  have wf1: "wf_tree L (ty_of ?ts1) l" "wf_tree L (ty_of ?ts1) r" unfolding ty1 using Node.prems(3) by simp_all
  have f1: "first_ok (ty_of ?ts1) ?ts1 l" "first_ok (ty_of ?ts1) ?ts1 r"
    unfolding ty1 using first_ok_cong [of _ ?ts1 ?ts ?ty] s1 Node.prems(4) by (simp_all add: same_but_next_def)
  have nl: "tree_next (?ts1 ! b) = ?kl" if "root_of l = Some b" for b
  proof -
    have "b \<in> set_tree l" using that by (rule root_of_in)
    then have "b < length ?ts" "root_of r \<noteq> Some b" using linked_in [OF children(1)] dj(3) rtr by blast+
    then show ?thesis using upd_next_at upd_next_other that by simp
  qed
  have nr: "tree_next (?ts1 ! b) = k" if "root_of r = Some b" for b
  proof -
    have "b < length (upd_next (root_of l) ?kl ?ts)" using root_of_in [OF that] linked_in [OF children(2)] by simp
    then show ?thesis using upd_next_at that by simp
  qed
  obtain c2 where v2: "visit_all calc_next (Tree.preorder l) ?c1 = Some (REG_NOERROR, c2)" "next_rel l ?c1 c2"
    "next_ok (ty_of ?ts1) (tree_nodes c2) l ?kl"
    using Node.IH(1) [of ?c1 "Some a" "tree_left (?ts ! a)" ?kl] lk1(1) dj(1) wf1(1) f1(1) nl by auto
  let ?ts2 = "tree_nodes c2"
  note r2 = v2(2) [unfolded next_rel_def, simplified]
  have s2: "same_but_next (?ts1 ! b) (?ts2 ! b)" for b using r2 by blast
  have ty2: "ty_of ?ts2 = ?ty" using s2 s1 by (auto simp: same_but_next_def)
  have lk2: "linked ?ts2 (Some a) (tree_right (?ts ! a)) r"
    using linked_cong [of ?ts2 ?ts1] s2 lk1(2) r2 by (simp add: same_but_next_def)
  have wf2: "wf_tree L (ty_of ?ts2) r" unfolding ty2 using Node.prems(3) by simp
  have f2: "first_ok (ty_of ?ts2) ?ts2 r"
    unfolding ty2 using first_ok_cong [of r ?ts2 ?ts1 ?ty] s2 f1(2) [unfolded ty1] by (simp add: same_but_next_def)
  have nr2: "\<forall>b. root_of r = Some b \<longrightarrow> tree_next (?ts2 ! b) = k"
  proof (intro allI impI)
    fix b assume b: "root_of r = Some b"
    then have "b \<notin> set_tree l" using root_of_in dj(3) by blast
    then show "tree_next (?ts2 ! b) = k" using r2 nr [OF b] by simp
  qed
  from Node.IH(2) [OF lk2 dj(2) wf2 f2 nr2] obtain c3 where v3: "visit_all calc_next (Tree.preorder r) c2 = Some (REG_NOERROR, c3)"
    "next_rel r c2 c3" "next_ok (ty_of ?ts2) (tree_nodes c3) r k" by blast
  note r3 = v3(2) [unfolded next_rel_def]
  have "visit_all calc_next (Tree.preorder (Node l a r)) c = Some (REG_NOERROR, c3)"
    using step v2(1) v3(1) by (simp add: visit_all_append)
  moreover have "next_rel (Node l a r) c c3"
  proof -
    have "c3 = c\<lparr>tree_nodes := tree_nodes c3\<rparr>" using r2 r3 by (metis compiler.surjective compiler.update_convs(2))
    moreover have "\<forall>b. b \<notin> set_tree (Node l a r) \<longrightarrow> tree_nodes c3 ! b = ?ts ! b" using r2 r3 out1 by simp
    moreover have "\<forall>b. same_but_next (?ts ! b) (tree_nodes c3 ! b)"
      using s1 s2 r3 same_but_next_trans by meson
    ultimately show ?thesis using r2 r3 by (simp add: next_rel_def)
  qed
  moreover have "next_ok ?ty (tree_nodes c3) (Node l a r) k"
  proof -
    have "next_ok ?ty (tree_nodes c3) l ?kl"
      using next_ok_cong [of l "tree_nodes c3" ?ts2 ?ty ?kl] r3 dj(3) v2(3) [unfolded ty1] by (metis disjoint_iff)
    moreover have "tree_next (tree_nodes c3 ! a) = k" using r2 r3 out1 dj(4,5) k by simp
    ultimately show ?thesis using v3(3) [unfolded ty2] by (simp add: left_next_def)
  qed
  ultimately show ?case by blast
qed

lemma update_tree_links:
  assumes "update_tree a f c1 = Some c2"
    and "\<And>n. tree_parent (f n) = tree_parent n \<and> tree_left (f n) = tree_left n \<and> tree_right (f n) = tree_right n"
  shows "links c2 = links c1"
  using assms by (auto simp: update_tree_def tree_at_def mem_read_def links_def nth_list_update split: if_splits intro!: nth_equalityI)

interpretation cn_pass: tree_pass calc_next
proof -
  have s: "set_next b x c1 = Some c2 \<Longrightarrow> links c2 = links c1" for b x c1 c2
    by (auto simp: set_next_def split: Option.bind_splits intro: update_tree_links)
  have "links c' = links c" if "calc_next a c = Some (e, c')" for a c e c'
    using that s by (auto simp: calc_next_def split: Option.bind_splits re_token_type.splits if_splits)
  then show "tree_pass calc_next" by unfold_locales blast
qed


section \<open>The third pass: the edges\<close>

definition set_of :: "re_node_set \<Rightarrow> int set" where
  "set_of s = (case elems s of None \<Rightarrow> {} | Some e \<Rightarrow> set (take (nelem s) e))"

definition edest_set :: "re_dfa \<Rightarrow> int \<Rightarrow> int set" where
  "edest_set d i = (case edests d of Freed \<Rightarrow> {} | Live b \<Rightarrow> (if 0 \<le> i \<and> nat i < length b then set_of (b ! nat i) else {}))"

definition next_node :: "re_dfa \<Rightarrow> int \<Rightarrow> int" where
  "next_node d i = (case nexts d of Freed \<Rightarrow> -1 | Live b \<Rightarrow> (if 0 \<le> i \<and> nat i < length b then b ! nat i else -1))"

lemma init_1_any: "\<exists>err s os'. node_set_init_1 j os = Some (err, s, os') \<and> (err = REG_ESPACE \<or> err = REG_NOERROR \<and> set_of s = {j})"
proof -
  obtain ok os' where "alloc os = (ok, os')" by force
  then show ?thesis by (cases ok) (simp_all add: node_set_init_1_def re_malloc_def mem_write_1 set_of_def)
qed

lemma init_2_any: "\<exists>err s' os'. node_set_init_2 s l r os = Some (err, s', os') \<and> (err = REG_ESPACE \<or> err = REG_NOERROR \<and> set_of s' = {l, r})"
proof -
  obtain ok os' where a: "alloc os = (ok, os')" by force
  have two: "replicate 2 x = [x, x]" for x :: int by (simp add: numeral_2_eq_2)
  show ?thesis
    using a by (cases ok) (auto simp: node_set_init_2_def re_malloc_def mem_write_def set_of_def two Let_def numeral_2_eq_2)
qed

text \<open>Only the edges and the destination of node \<open>i\<close> are changed.\<close>

definition changes_only :: "int set \<Rightarrow> compiler \<Rightarrow> compiler \<Rightarrow> bool" where
  "changes_only I c c' \<longleftrightarrow> tree_nodes c' = tree_nodes c \<and> room_ok (dfa_of c') \<and> tokens (dfa_of c') = tokens (dfa_of c)
     \<and> nodes_len (dfa_of c') = nodes_len (dfa_of c)
     \<and> (\<forall>i. i \<notin> I \<longrightarrow> edest_set (dfa_of c') i = edest_set (dfa_of c) i \<and> next_node (dfa_of c') i = next_node (dfa_of c) i)"

lemma changes_only_refl: "room_ok (dfa_of c) \<Longrightarrow> changes_only I c c"
  by (simp add: changes_only_def)

lemma changes_only_trans:
  assumes "changes_only I c c1" and "changes_only J c1 c2" and "I \<subseteq> K" and "J \<subseteq> K"
  shows "changes_only K c c2"
proof -
  have "edest_set (dfa_of c2) i = edest_set (dfa_of c) i \<and> next_node (dfa_of c2) i = next_node (dfa_of c) i" if "i \<notin> K" for i
  proof -
    have "i \<notin> I" "i \<notin> J" using that assms(3,4) by blast+
    then show ?thesis using assms(1,2) by (simp add: changes_only_def)
  qed
  then show ?thesis using assms(1,2) by (simp add: changes_only_def)
qed

lemma changes_only_mono: "changes_only I c c' \<Longrightarrow> I \<subseteq> K \<Longrightarrow> changes_only K c c'"
  by (auto simp: changes_only_def)

lemma set_edests_any:
  assumes room: "room_ok (dfa_of c)" and i: "0 \<le> i" "nat i < nodes_len (dfa_of c)"
    and init: "\<And>s os. \<exists>err s' os'. init s os = Some (err, s', os') \<and> (err = REG_ESPACE \<or> err = REG_NOERROR \<and> set_of s' = X)"
  shows "\<exists>e c'. set_edests i init a c = Some (e, c') \<and> (e = REG_ESPACE \<or> e = REG_NOERROR \<and> changes_only {i} c c'
    \<and> edest_set (dfa_of c') i = X \<and> next_node (dfa_of c') i = next_node (dfa_of c) i)"
proof -
  obtain eds where eds: "edests (dfa_of c) = Live eds" "length eds = nodes_alloc (dfa_of c)" "nodes_len (dfa_of c) \<le> nodes_alloc (dfa_of c)"
    using room unfolding room_ok_def nodes_ok_def by blast
  obtain err s' os' where s: "init (eds ! nat i) (pending c) = Some (err, s', os')" "err = REG_ESPACE \<or> err = REG_NOERROR \<and> set_of s' = X"
    using init by blast
  have lt: "nat i < length eds" using eds i by simp
  let ?c = "c\<lparr>dfa_of := (dfa_of c)\<lparr>edests := Live (eds[nat i := s'])\<rparr>, pending := os'\<rparr>"
  have e: "set_edests i init a c = Some (err, ?c)"
    using i eds s(1) lt by (simp add: set_edests_def write_block_def mem_read_lt mem_write_1)
  have "room_ok (dfa_of ?c)" using room eds unfolding room_ok_def nodes_ok_def by auto
  moreover have "tokens (dfa_of ?c) = tokens (dfa_of c)" by (simp add: tokens_def split: block.split)
  moreover have "edest_set (dfa_of ?c) j = edest_set (dfa_of c) j" if "j \<noteq> i" for j
    using that eds(1) i by (auto simp: edest_set_def nth_list_update)
  moreover have "next_node (dfa_of ?c) = next_node (dfa_of c)" by (rule ext) (simp add: next_node_def)
  moreover have "edest_set (dfa_of ?c) i = set_of s'" using lt i by (simp add: edest_set_def)
  ultimately have "changes_only {i} c ?c \<and> edest_set (dfa_of ?c) i = set_of s' \<and> next_node (dfa_of ?c) i = next_node (dfa_of c) i"
    by (simp add: changes_only_def)
  then show ?thesis unfolding e using s(2) by blast
qed

lemma set_nexts_ok:
  assumes room: "room_ok (dfa_of c)" and i: "0 \<le> i" "nat i < nodes_len (dfa_of c)"
  shows "\<exists>c'. set_nexts i j c = Some c' \<and> changes_only {i} c c' \<and> next_node (dfa_of c') i = j"
proof -
  obtain ns where ns: "nexts (dfa_of c) = Live ns" "length ns = nodes_alloc (dfa_of c)" "nodes_len (dfa_of c) \<le> nodes_alloc (dfa_of c)"
    using room unfolding room_ok_def nodes_ok_def by blast
  have lt: "nat i < length ns" using ns i by simp
  let ?c = "c\<lparr>dfa_of := (dfa_of c)\<lparr>nexts := Live (ns[nat i := j])\<rparr>\<rparr>"
  have "set_nexts i j c = Some ?c" using i ns lt by (simp add: set_nexts_def update_dfa_def write_block_def mem_write_1)
  moreover have "room_ok (dfa_of ?c)" using room ns unfolding room_ok_def nodes_ok_def by auto
  moreover have "tokens (dfa_of ?c) = tokens (dfa_of c)" by (simp add: tokens_def split: block.split)
  moreover have "next_node (dfa_of ?c) l = next_node (dfa_of c) l" if "l \<noteq> i" for l
    using that ns(1) i by (auto simp: next_node_def nth_list_update)
  moreover have "edest_set (dfa_of ?c) = edest_set (dfa_of c)" by (rule ext) (simp add: edest_set_def)
  moreover have "next_node (dfa_of ?c) i = j" using lt i by (simp add: next_node_def)
  ultimately show ?thesis by (auto simp: changes_only_def)
qed

text \<open>What linking a node means.\<close>

definition node_linked :: "re_dfa \<Rightarrow> (nat \<Rightarrow> re_token_type) \<Rightarrow> (nat \<Rightarrow> int) \<Rightarrow> nat tree \<Rightarrow> nat \<Rightarrow> nat tree \<Rightarrow> int \<Rightarrow> bool" where
  "node_linked d ty ix l a r k \<longleftrightarrow>
     (if ty a = CONCAT then True
      else if ty a = OP_DUP_ASTERISK \<or> ty a = OP_ALT then edest_set d (ix a) = {entry ty ix l k, entry ty ix r k}
      else if IS_EPSILON_NODE (ty a) then edest_set d (ix a) = {k}
      else next_node d (ix a) = k)"

lemma link_node:
  assumes lk: "linked (tree_nodes c) par (Some a) (Node l a r)" and wf: "wf_tree leaf_types (ty_of (tree_nodes c)) (Node l a r)"
    and first: "first_ok (ty_of (tree_nodes c)) (tree_nodes c) (Node l a r)"
    and k: "tree_next (tree_nodes c ! a) = Some k" "k < length (tree_nodes c)" and room: "room_ok (dfa_of c)"
    and ix: "ix = (\<lambda>b. tree_idx (tree_nodes c ! b))"
    and i: "ty_of (tree_nodes c) a \<noteq> CONCAT \<Longrightarrow> 0 \<le> ix a \<and> nat (ix a) < nodes_len (dfa_of c)"
  shows "\<exists>e c'. link_nfa_nodes a c = Some (e, c') \<and> (e = REG_ESPACE \<or> e = REG_NOERROR \<and> changes_only {ix a} c c'
    \<and> node_linked (dfa_of c') (ty_of (tree_nodes c)) ix l a r (ix k))"
proof -
  let ?ts = "tree_nodes c" and ?ty = "ty_of (tree_nodes c)"
  have at: "tree_at c a = Some (?ts ! a)" using lk tree_at_lt by simp
  have ch: "tree_left (?ts ! a) = root_of l" "tree_right (?ts ! a) = root_of r" "linked ?ts (Some a) (root_of l) l" "linked ?ts (Some a) (root_of r) r"
    using lk linked_root_of by fastforce+
  have nxt: "idx_of c1 (tree_next (?ts ! a)) = Some (ix k)" if "tree_nodes c1 = ?ts" for c1
    using k ix that by (simp add: idx_of_def tree_at_def mem_read_lt)
  have edge: "edge_to c1 (root_of s) (tree_next (?ts ! a)) = Some (entry ?ty ix s (ix k))"
    if c1: "tree_nodes c1 = ?ts" and s: "linked ?ts (Some a) (root_of s) s" "wf_tree leaf_types ?ty s" "first_ok ?ty ?ts s" for s c1
  proof (cases s)
    case Leaf
    then show ?thesis using nxt [OF c1] by (simp add: edge_to_def)
  next
    case (Node l' b r')
    have "tree_first (?ts ! b) = Some (first_of ?ty s)" using s(3) Node by simp
    moreover have "first_of ?ty s < length ?ts" "b < length ?ts"
      using first_of_in [OF s(2)] linked_in [OF s(1)] Node by (simp_all)
    ultimately show ?thesis using Node c1 ix by (simp add: edge_to_def idx_of_def tree_at_def mem_read_lt)
  qed
  consider "?ty a = CONCAT" | "?ty a = OP_DUP_ASTERISK \<or> ?ty a = OP_ALT" | "?ty a \<in> leaf_types" using wf by (auto split: if_splits)
  then show ?thesis
  proof cases
    case 1
    then have "link_nfa_nodes a c = Some (REG_NOERROR, c)" using at by (simp add: link_nfa_nodes_def)
    then show ?thesis using changes_only_refl [OF room] 1 by (simp add: node_linked_def)
  next
    case 2
    let ?c1 = "c\<lparr>has_plural_match := True\<rparr>"
    have s: "wf_tree leaf_types ?ty l" "wf_tree leaf_types ?ty r" "first_ok ?ty ?ts l" "first_ok ?ty ?ts r" using wf first by simp_all
    have t: "?ty a \<noteq> CONCAT" "?ty a \<noteq> END_OF_RE" using 2 by auto
    have ed: "edge_to ?c1 (tree_left (?ts ! a)) (tree_next (?ts ! a)) = Some (entry ?ty ix l (ix k))"
      "edge_to ?c1 (tree_right (?ts ! a)) (tree_next (?ts ! a)) = Some (entry ?ty ix r (ix k))"
      unfolding ch(1,2) using edge [of ?c1] ch(3,4) s by simp_all
    have l: "link_nfa_nodes a c = set_edests (ix a) (\<lambda>s. node_set_init_2 s (entry ?ty ix l (ix k)) (entry ?ty ix r (ix k))) a ?c1"
      using at 2 t ed by (simp add: link_nfa_nodes_def ix)
    have "room_ok (dfa_of ?c1)" "0 \<le> ix a" "nat (ix a) < nodes_len (dfa_of ?c1)" using room i [OF t(1)] by simp_all
    from set_edests_any [OF this, of "\<lambda>s. node_set_init_2 s (entry ?ty ix l (ix k)) (entry ?ty ix r (ix k))"
        "{entry ?ty ix l (ix k), entry ?ty ix r (ix k)}" a] init_2_any
    obtain e c' where c': "link_nfa_nodes a c = Some (e, c')" "e = REG_ESPACE \<or> e = REG_NOERROR \<and> changes_only {ix a} ?c1 c'
        \<and> edest_set (dfa_of c') (ix a) = {entry ?ty ix l (ix k), entry ?ty ix r (ix k)}" unfolding l by blast
    then show ?thesis using 2 t by (auto simp: changes_only_def node_linked_def)
  next
    case 3
    note ct = leaf_types_cases [OF 3]
    have j: "idx_of c (tree_next (?ts ! a)) = Some (ix k)" using nxt by simp
    have ia: "0 \<le> ix a" "nat (ix a) < nodes_len (dfa_of c)" using i [OF ct(1)] by simp_all
    show ?thesis
    proof (cases "IS_EPSILON_NODE (?ty a)")
      case True
      then have l: "link_nfa_nodes a c = set_edests (ix a) (\<lambda>s. node_set_init_1 (ix k)) a c"
        using at ct j by (auto simp: link_nfa_nodes_def ix)
      from set_edests_any [OF room ia, of "\<lambda>s. node_set_init_1 (ix k)" "{ix k}" a] init_1_any
      obtain e c' where "link_nfa_nodes a c = Some (e, c')" "e = REG_ESPACE \<or> e = REG_NOERROR \<and> changes_only {ix a} c c'
          \<and> edest_set (dfa_of c') (ix a) = {ix k}" unfolding l by blast
      then show ?thesis using ct True by (auto simp: node_linked_def)
    next
      case False
      then have na: "?ty a \<noteq> ANCHOR" "?ty a \<noteq> OP_OPEN_SUBEXP" "?ty a \<noteq> OP_CLOSE_SUBEXP" using ct(6) by auto
      obtain c1 where c1: "set_nexts (ix a) (ix k) c = Some c1" "changes_only {ix a} c c1" "next_node (dfa_of c1) (ix a) = ix k"
        using set_nexts_ok [OF room ia] by blast
      show ?thesis
      proof (cases "?ty a = OP_BACK_REF")
        case False
        then have "link_nfa_nodes a c = Some (REG_NOERROR, c1)" using at ct na j c1(1) by (simp add: link_nfa_nodes_def ix)
        then show ?thesis using c1 ct na \<open>\<not> IS_EPSILON_NODE (?ty a)\<close> by (simp add: node_linked_def)
      next
        case True
        then have l: "link_nfa_nodes a c = set_edests (ix a) (\<lambda>s. node_set_init_1 (ix k)) a c1"
          using at ct na j c1(1) by (simp add: link_nfa_nodes_def ix)
        have "room_ok (dfa_of c1)" "nat (ix a) < nodes_len (dfa_of c1)" using c1(2) ia by (simp_all add: changes_only_def)
        from set_edests_any [OF this(1) ia(1) this(2), of "\<lambda>s. node_set_init_1 (ix k)" "{ix k}" a] init_1_any
        obtain e c' where c': "link_nfa_nodes a c = Some (e, c')" "e = REG_ESPACE \<or> e = REG_NOERROR \<and> changes_only {ix a} c1 c'
            \<and> next_node (dfa_of c') (ix a) = next_node (dfa_of c1) (ix a)" unfolding l by blast
        then show ?thesis
          using c1(2,3) ct \<open>\<not> IS_EPSILON_NODE (?ty a)\<close> changes_only_trans [OF c1(2), of "{ix a}" c' "{ix a}"]
          by (auto simp: node_linked_def)
      qed
    qed
  qed
qed


text \<open>The edges alone: \<open>wired\<close> without the types.\<close>

fun edges_ok :: "re_dfa \<Rightarrow> (nat \<Rightarrow> re_token_type) \<Rightarrow> (nat \<Rightarrow> int) \<Rightarrow> nat tree \<Rightarrow> int \<Rightarrow> bool" where
  "edges_ok d ty ix Leaf k \<longleftrightarrow> True"
| "edges_ok d ty ix (Node l a r) k \<longleftrightarrow> node_linked d ty ix l a r k
     \<and> edges_ok d ty ix l (if ty a = CONCAT then entry ty ix r k else if ty a = OP_DUP_ASTERISK then ix a else k)
     \<and> edges_ok d ty ix r k"

lemma edges_ok_frame:
  assumes "\<And>a. a \<in> set_tree t \<Longrightarrow> ty a \<noteq> CONCAT \<Longrightarrow>
      edest_set d' (ix a) = edest_set d (ix a) \<and> next_node d' (ix a) = next_node d (ix a)"
  shows "edges_ok d' ty ix t k = edges_ok d ty ix t k"
  using assms
proof (induction t arbitrary: k)
  case (Node l a r)
  have "node_linked d' ty ix l a r k = node_linked d ty ix l a r k"
    using Node.prems [of a] by (cases "ty a = CONCAT") (simp_all add: node_linked_def)
  then show ?case using Node by simp
qed simp

lemma edges_wired:
  "edges_ok d ty ix t k \<Longrightarrow> wf_tree leaf_types ty t \<Longrightarrow> (\<And>a. a \<in> set_tree t \<Longrightarrow> ty a \<noteq> CONCAT \<Longrightarrow> T (ix a) = ty a) \<Longrightarrow>
     wired T (edest_set d) (next_node d) ty ix t k"
proof (induction t arbitrary: k)
  case (Node l a r)
  then show ?case by (auto simp: node_linked_def split: if_splits)
qed simp

text \<open>The types and the indices of the leaves are theirs alone.\<close>

definition indexed :: "compiler \<Rightarrow> nat tree \<Rightarrow> bool" where
  "indexed c t \<longleftrightarrow> (\<forall>a \<in> set_tree t. ty_of (tree_nodes c) a \<noteq> CONCAT \<longrightarrow>
       0 \<le> tree_idx (tree_nodes c ! a) \<and> nat (tree_idx (tree_nodes c ! a)) < nodes_len (dfa_of c))
     \<and> inj_on (\<lambda>a. tree_idx (tree_nodes c ! a)) {a \<in> set_tree t. ty_of (tree_nodes c) a \<noteq> CONCAT}"

lemma indexed_sub:
  assumes "indexed c t" and "set_tree s \<subseteq> set_tree t"
  shows "indexed c s"
proof -
  have "inj_on (\<lambda>a. tree_idx (tree_nodes c ! a)) {a \<in> set_tree s. ty_of (tree_nodes c) a \<noteq> CONCAT}"
    by (rule inj_on_subset [of _ "{a \<in> set_tree t. ty_of (tree_nodes c) a \<noteq> CONCAT}"]) (use assms in \<open>auto simp: indexed_def\<close>)
  then show ?thesis using assms unfolding indexed_def by blast
qed

lemma indexed_changes: "changes_only I c c' \<Longrightarrow> indexed c t \<Longrightarrow> indexed c' t"
  by (simp add: changes_only_def indexed_def)

abbreviation own :: "compiler \<Rightarrow> nat tree \<Rightarrow> int set" where
  "own c t \<equiv> (\<lambda>a. tree_idx (tree_nodes c ! a)) ` {a \<in> set_tree t. ty_of (tree_nodes c) a \<noteq> CONCAT}"

lemma own_disjoint:
  assumes "indexed c t" and "set_tree s \<subseteq> set_tree t" and "a \<in> set_tree t" and "ty_of (tree_nodes c) a \<noteq> CONCAT" and "a \<notin> set_tree s"
  shows "tree_idx (tree_nodes c ! a) \<notin> own c s"
proof
  assume "tree_idx (tree_nodes c ! a) \<in> own c s"
  then obtain b where b: "b \<in> set_tree s" "ty_of (tree_nodes c) b \<noteq> CONCAT" "tree_idx (tree_nodes c ! a) = tree_idx (tree_nodes c ! b)" by blast
  then have "a = b" using assms inj_onD [of "\<lambda>a. tree_idx (tree_nodes c ! a)"] unfolding indexed_def by blast
  then show False using b(1) assms(5) by simp
qed

lemma link_CONCAT:
  assumes "a < length (tree_nodes c)" and "ty_of (tree_nodes c) a = CONCAT \<or> ty_of (tree_nodes c) a = END_OF_RE"
  shows "link_nfa_nodes a c = Some (REG_NOERROR, c)"
  using assms by (simp add: link_nfa_nodes_def tree_at_lt Let_def)

lemma link_tree:
  "linked (tree_nodes c) par p t \<Longrightarrow> distinct_tree t \<Longrightarrow> wf_tree leaf_types (ty_of (tree_nodes c)) t \<Longrightarrow>
     first_ok (ty_of (tree_nodes c)) (tree_nodes c) t \<Longrightarrow> next_ok (ty_of (tree_nodes c)) (tree_nodes c) t (Some k) \<Longrightarrow>
     k < length (tree_nodes c) \<Longrightarrow> room_ok (dfa_of c) \<Longrightarrow> indexed c t \<Longrightarrow>
     \<exists>e c'. visit_all link_nfa_nodes (Tree.preorder t) c = Some (e, c') \<and> (e = REG_ESPACE \<or> e = REG_NOERROR \<and> changes_only (own c t) c c'
       \<and> edges_ok (dfa_of c') (ty_of (tree_nodes c)) (\<lambda>a. tree_idx (tree_nodes c ! a)) t (tree_idx (tree_nodes c ! k)))"
proof (induction t arbitrary: c par p k)
  case Leaf
  then show ?case using changes_only_refl by auto
next
  case (Node l a r)
  let ?ts = "tree_nodes c" and ?ty = "ty_of (tree_nodes c)"
  define ix where "ix = (\<lambda>a. tree_idx (?ts ! a))"
  let ?t = "Node l a r"
  have dj: "distinct_tree l" "distinct_tree r" "set_tree l \<inter> set_tree r = {}" "a \<notin> set_tree l" "a \<notin> set_tree r"
    using Node.prems(2) by auto
  have lk: "linked ?ts par (Some a) ?t" using Node.prems(1) by simp
  have children: "linked ?ts (Some a) (tree_left (?ts ! a)) l" "linked ?ts (Some a) (tree_right (?ts ! a)) r" "a < length ?ts"
    using lk by simp_all
  have wf: "wf_tree leaf_types ?ty l" "wf_tree leaf_types ?ty r" using Node.prems(3) by simp_all
  have first: "first_ok ?ty ?ts l" "first_ok ?ty ?ts r" using Node.prems(4) by simp_all
  have nx: "tree_next (?ts ! a) = Some k" using Node.prems(5) by simp
  obtain kl where kl: "next_ok ?ty ?ts l (Some kl)" "kl < length ?ts"
    "l \<noteq> Leaf \<Longrightarrow> ix kl = (if ?ty a = CONCAT then entry ?ty ix r (ix k) else if ?ty a = OP_DUP_ASTERISK then ix a else ix k)"
  proof (cases "?ty a = CONCAT")
    case True
    then have ne: "r \<noteq> Leaf" using Node.prems(3) by simp
    then have "first_of ?ty r < length ?ts" using first_of_in [OF wf(2) ne] linked_in [OF children(2)] by simp
    moreover have "entry ?ty ix r (ix k) = ix (first_of ?ty r)" using ne by (cases r) simp_all
    ultimately show ?thesis using that [of "first_of ?ty r"] True Node.prems(5) by simp
  next
    case False
    then show ?thesis using that [of "if ?ty a = OP_DUP_ASTERISK then a else k"] Node.prems(5,6) children(3) by (auto split: if_splits)
  qed
  have ia: "?ty a \<noteq> CONCAT \<Longrightarrow> 0 \<le> ix a \<and> nat (ix a) < nodes_len (dfa_of c)" using Node.prems(8) by (simp add: indexed_def ix_def)
  obtain e1 c1 where v1: "link_nfa_nodes a c = Some (e1, c1)" "e1 = REG_ESPACE \<or> e1 = REG_NOERROR
      \<and> changes_only {ix a} c c1 \<and> node_linked (dfa_of c1) ?ty ix l a r (ix k)"
    using link_node [OF lk Node.prems(3,4) nx Node.prems(6,7) ix_def ia] by blast
  show ?case
  proof (cases "e1 = REG_ESPACE")
    case True
    then show ?thesis using v1(1) by simp
  next
    case False
    then have r1: "e1 = REG_NOERROR" "changes_only {ix a} c c1" "node_linked (dfa_of c1) ?ty ix l a r (ix k)" using v1(2) by simp_all
    have c1: "changes_only (if ?ty a = CONCAT then {} else {ix a}) c c1"
    proof (cases "?ty a = CONCAT")
      case True
      then have "c1 = c" using link_CONCAT [of a c] children(3) v1(1) by simp
      then show ?thesis using changes_only_refl Node.prems(7) by simp
    qed (simp add: r1(2))
    have t1: "tree_nodes c1 = ?ts" "room_ok (dfa_of c1)" using r1(2) by (simp_all add: changes_only_def)
    have i1: "indexed c1 l" "indexed c1 r"
      using indexed_sub [OF indexed_changes [OF r1(2) Node.prems(8)], of l] indexed_sub [OF indexed_changes [OF r1(2) Node.prems(8)], of r] by auto
    obtain e2 c2 where v2: "visit_all link_nfa_nodes (Tree.preorder l) c1 = Some (e2, c2)" "e2 = REG_ESPACE \<or> e2 = REG_NOERROR
        \<and> changes_only (own c l) c1 c2 \<and> edges_ok (dfa_of c2) ?ty ix l (ix kl)"
      using Node.IH(1) [of c1 "Some a" "tree_left (?ts ! a)" kl] children(1) dj(1) wf(1) first(1) kl(1,2) t1 i1(1) unfolding ix_def by auto
    show ?thesis
    proof (cases "e2 = REG_ESPACE")
      case True
      then show ?thesis using v1(1) r1(1) v2(1) by (simp add: visit_all_append)
    next
      case False
      then have r2: "e2 = REG_NOERROR" "changes_only (own c l) c1 c2" "edges_ok (dfa_of c2) ?ty ix l (ix kl)" using v2(2) by simp_all
      have t2: "tree_nodes c2 = ?ts" "room_ok (dfa_of c2)" using r2(2) t1 by (simp_all add: changes_only_def)
      have nr: "next_ok ?ty ?ts r (Some k)" using Node.prems(5) by simp
      obtain e3 c3 where v3: "visit_all link_nfa_nodes (Tree.preorder r) c2 = Some (e3, c3)" "e3 = REG_ESPACE \<or> e3 = REG_NOERROR
          \<and> changes_only (own c r) c2 c3 \<and> edges_ok (dfa_of c3) ?ty ix r (ix k)"
        using Node.IH(2) [of c2 "Some a" "tree_right (?ts ! a)" k] children(2) dj(2) wf(2) first(2) nr Node.prems(6) t2
          indexed_changes [OF r2(2) i1(2)] unfolding ix_def by auto
      show ?thesis
      proof (cases "e3 = REG_ESPACE")
        case True
        then show ?thesis using v1(1) r1(1) v2(1) r2(1) v3(1) by (simp add: visit_all_append)
      next
        case False
        then have r3: "e3 = REG_NOERROR" "changes_only (own c r) c2 c3" "edges_ok (dfa_of c3) ?ty ix r (ix k)" using v3(2) by simp_all
        have visit: "visit_all link_nfa_nodes (Tree.preorder ?t) c = Some (REG_NOERROR, c3)"
          using v1(1) r1(1) v2(1) r2(1) v3(1) r3(1) by (simp add: visit_all_append)
        have ch: "changes_only (own c ?t) c c3"
        proof -
          have "changes_only (own c ?t) c c2" by (rule changes_only_trans [OF c1 r2(2)]) (auto simp: ix_def)
          then show ?thesis by (rule changes_only_trans [OF _ r3(2)]) auto
        qed
        have frame: "edest_set (dfa_of c') (ix b) = edest_set (dfa_of c'') (ix b) \<and> next_node (dfa_of c') (ix b) = next_node (dfa_of c'') (ix b)"
          if "changes_only (own c s) c'' c'" "set_tree s \<subseteq> set_tree ?t" "b \<in> set_tree ?t" "?ty b \<noteq> CONCAT" "b \<notin> set_tree s" for s b c' c''
          using own_disjoint [OF Node.prems(8) that(2-5)] that(1) unfolding changes_only_def ix_def by blast
        have "edges_ok (dfa_of c3) ?ty ix l (ix kl) = edges_ok (dfa_of c2) ?ty ix l (ix kl)"
          by (rule edges_ok_frame, rule frame [OF r3(2)]) (use dj(3) in auto)
        then have el: "edges_ok (dfa_of c3) ?ty ix l (ix kl)" using r2(3) by simp
        have nl: "node_linked (dfa_of c3) ?ty ix l a r (ix k)"
        proof (cases "?ty a = CONCAT")
          case False
          have "edest_set (dfa_of c2) (ix a) = edest_set (dfa_of c1) (ix a) \<and> next_node (dfa_of c2) (ix a) = next_node (dfa_of c1) (ix a)"
            by (rule frame [OF r2(2)]) (use dj(4) False in auto)
          moreover have "edest_set (dfa_of c3) (ix a) = edest_set (dfa_of c2) (ix a) \<and> next_node (dfa_of c3) (ix a) = next_node (dfa_of c2) (ix a)"
            by (rule frame [OF r3(2)]) (use dj(5) False in auto)
          ultimately show ?thesis using r1(3) by (simp add: node_linked_def)
        qed (simp add: node_linked_def)
        have "edges_ok (dfa_of c3) ?ty ix ?t (ix k)"
          using el nl r3(3) kl(3) by (cases l) simp_all
        then show ?thesis using visit ch unfolding ix_def by blast
      qed
    qed
  qed
qed

interpretation lk_pass: tree_pass link_nfa_nodes
proof -
  have s: "set_edests i f a c1 = Some (e, c2) \<Longrightarrow> links c2 = links c1" for i f a c1 e c2
    by (auto simp: set_edests_def links_def split: Option.bind_splits if_splits)
  have n: "set_nexts i j c1 = Some c2 \<Longrightarrow> links c2 = links c1" for i j c1 c2
    by (auto simp: set_nexts_def update_dfa_def links_def split: Option.bind_splits if_splits)
  have p: "links (c1\<lparr>has_plural_match := True\<rparr>) = links c1" for c1 :: compiler by (simp add: links_def)
  have "links c' = links c" if "link_nfa_nodes a c = Some (e, c')" for a c e c'
    using that s n p by (auto simp: link_nfa_nodes_def Let_def split: Option.bind_splits if_splits)
  then show "tree_pass link_nfa_nodes" by unfold_locales blast
qed

end
