(* ===== verification/RegAutomaton.thy ===== *)
theory RegAutomaton
  imports RegPasses
begin

text \<open>
  The nodes, destinations and edges that \<open>analyze\<close> of src/src/regex/regcomp.c makes from a structure tree are an
  automaton that accepts the language of the tree.
\<close>


section \<open>The automaton accepts the language of the tree\<close>

lemma wf_tree_mono: "wf_tree L ty t \<Longrightarrow> L \<subseteq> M \<Longrightarrow> wf_tree M ty t"
  by (induction t) auto

definition node_type :: "re_dfa \<Rightarrow> int \<Rightarrow> re_token_type" where
  "node_type d i = tok_type (token d i)"

lemma token_nth:
  assumes "nodes_ok d" and "i < length (tokens d)"
  shows "token d (int i) = tokens d ! i"
proof -
  obtain ts where "dfa_nodes d = Live ts" "length ts = nodes_alloc d" "nodes_len d \<le> nodes_alloc d"
    using assms(1) unfolding nodes_ok_def by blast
  then show ?thesis using assms(2) by (simp add: token_def node_at_def tokens_def mem_read_lt)
qed

lemma tok_type_stored [simp]: "tok_type (stored d t) = tok_type t"
  by (simp add: stored_def new_token_def)

text \<open>What \<open>first_rel\<close> says about one leaf.\<close>

lemma first_rel_leaf:
  assumes f: "first_rel t c c'" and room: "room_ok (dfa_of c)" and a: "a \<in> set_tree t" "ty_of (tree_nodes c) a \<noteq> CONCAT"
  shows "token (dfa_of c') (tree_idx (tree_nodes c' ! a)) = stored (dfa_of c) (tree_token (tree_nodes c ! a))"
    and "0 \<le> tree_idx (tree_nodes c' ! a)" and "nat (tree_idx (tree_nodes c' ! a)) < nodes_len (dfa_of c')"
proof -
  note r = f [unfolded first_rel_def Let_def]
  let ?xs = "leaves (ty_of (tree_nodes c)) t" and ?n = "nodes_len (dfa_of c)"
  have "a \<in> set ?xs" using a by (simp add: leaves_def)
  then obtain i where i: "i < length ?xs" "?xs ! i = a" by (auto simp: in_set_conv_nth)
  then have ia: "tree_idx (tree_nodes c' ! a) = int (?n + i)" using r by blast
  have n: "length (tokens (dfa_of c)) = ?n" using length_tokens room by (simp add: room_ok_def)
  have ok: "nodes_ok (dfa_of c')" using r by (simp add: room_ok_def)
  have tok: "tokens (dfa_of c') = tokens (dfa_of c) @ map (\<lambda>a. stored (dfa_of c) (tree_token (tree_nodes c ! a))) ?xs" using r by blast
  then have lt: "?n + i < length (tokens (dfa_of c'))" using n i(1) by simp
  have "token (dfa_of c') (int (?n + i)) = tokens (dfa_of c') ! (?n + i)" by (rule token_nth [OF ok lt])
  also have "\<dots> = stored (dfa_of c) (tree_token (tree_nodes c ! a))" unfolding tok using n i by (simp add: nth_append)
  finally show "token (dfa_of c') (tree_idx (tree_nodes c' ! a)) = stored (dfa_of c) (tree_token (tree_nodes c ! a))" unfolding ia .
  show "0 \<le> tree_idx (tree_nodes c' ! a)" unfolding ia by simp
  show "nat (tree_idx (tree_nodes c' ! a)) < nodes_len (dfa_of c')" unfolding ia using lt length_tokens [OF ok] by simp
qed

lemma distinct_postorder: "distinct_tree t \<Longrightarrow> distinct (Tree.postorder t)"
  by (induction t) auto

lemma first_rel_indexed:
  assumes f: "first_rel t c c'" and room: "room_ok (dfa_of c)" and d: "distinct_tree t"
  shows "indexed c' t"
proof -
  note r = f [unfolded first_rel_def Let_def]
  let ?ty = "ty_of (tree_nodes c)" and ?ix = "\<lambda>a. tree_idx (tree_nodes c' ! a)"
  have ty: "ty_of (tree_nodes c') = ?ty" using r by (auto simp: same_but_first_def)
  let ?xs = "leaves ?ty t"
  have inj: "inj_on ?ix {a \<in> set_tree t. ?ty a \<noteq> CONCAT}"
  proof (rule inj_onI)
    fix a b assume a: "a \<in> {a \<in> set_tree t. ?ty a \<noteq> CONCAT}" "b \<in> {a \<in> set_tree t. ?ty a \<noteq> CONCAT}" "?ix a = ?ix b"
    then have "a \<in> set ?xs" "b \<in> set ?xs" by (simp_all add: leaves_def)
    then obtain i j where i: "i < length ?xs" "?xs ! i = a" "j < length ?xs" "?xs ! j = b" by (auto simp: in_set_conv_nth)
    then have "?ix a = int (nodes_len (dfa_of c) + i)" "?ix b = int (nodes_len (dfa_of c) + j)" using r by blast+
    then have "i = j" using a(3) by simp
    then show "a = b" using i by simp
  qed
  show ?thesis using inj first_rel_leaf(2,3) [OF f room] unfolding indexed_def by (simp add: fun_cong [OF ty])
qed

definition regex_tree :: "compiler \<Rightarrow> nat \<Rightarrow> nat tree \<Rightarrow> nat \<Rightarrow> bool" where
  "regex_tree c root t e \<longleftrightarrow>
     linked (tree_nodes c) None (Some root) (Node t root (Node Leaf e Leaf)) \<and> distinct_tree (Node t root (Node Leaf e Leaf))
     \<and> ty_of (tree_nodes c) root = CONCAT \<and> ty_of (tree_nodes c) e = END_OF_RE \<and> t \<noteq> Leaf
     \<and> wf_tree leaf_types (ty_of (tree_nodes c)) t \<and> anchors_ok (tree_nodes c) (set_tree t) \<and> tree_next (tree_nodes c ! root) = None"

text \<open>The automaton in the DFA.\<close>

definition accepts :: "re_dfa \<Rightarrow> int \<Rightarrow> int list \<Rightarrow> int \<Rightarrow> bool" where
  "accepts d i w e \<longleftrightarrow> (\<exists>n. run (node_type d) (edest_set d) (next_node d) n i w e)"

text \<open>The three visits of a linked tree, as passes over lists.\<close>

definition build_in_order :: "nat tree \<Rightarrow> compiler \<Rightarrow> (reg_errcode \<times> compiler) option" where
  "build_in_order t c =
     and_then (visit_all calc_first (Tree.postorder t) c)
       (\<lambda>c. and_then (visit_all calc_next (Tree.preorder t) c) (visit_all link_nfa_nodes (Tree.preorder t)))"

lemma build_nfa_in_order:
  assumes lk: "linked (tree_nodes c) None (Some root) t" and d: "distinct_tree t"
  shows "build_nfa root c = build_in_order t c"
proof -
  have later: "linked (tree_nodes c1) None (Some root) t" if "links c1 = links c" for c1
    using linked_links [OF that] lk by blast
  have "build_nfa root c = and_then (visit_all calc_first (Tree.postorder t) c)
      (\<lambda>c. and_then (visit_preorder calc_next root c) (\<lambda>c. visit_preorder link_nfa_nodes root c))"
    unfolding build_nfa_def cf_pass.postorder_visits [OF lk d] ..
  also have "\<dots> = build_in_order t c"
    unfolding build_in_order_def
  proof (rule and_then_cong [OF refl])
    fix c1 assume "visit_all calc_first (Tree.postorder t) c = Some (REG_NOERROR, c1)"
    then have l1: "links c1 = links c" by (rule cf_pass.visit_all_links)
    have "and_then (visit_preorder calc_next root c1) (\<lambda>c. visit_preorder link_nfa_nodes root c)
        = and_then (visit_all calc_next (Tree.preorder t) c1) (\<lambda>c. visit_preorder link_nfa_nodes root c)"
      unfolding cn_pass.preorder_visits [OF later [OF l1] d] ..
    also have "\<dots> = and_then (visit_all calc_next (Tree.preorder t) c1) (visit_all link_nfa_nodes (Tree.preorder t))"
    proof (rule and_then_cong [OF refl])
      fix c2 assume "visit_all calc_next (Tree.preorder t) c1 = Some (REG_NOERROR, c2)"
      then have "links c2 = links c1" by (rule cn_pass.visit_all_links)
      then show "visit_preorder link_nfa_nodes root c2 = visit_all link_nfa_nodes (Tree.preorder t) c2"
        using lk_pass.preorder_visits [OF later d] l1 by simp
    qed
    finally show "and_then (visit_preorder calc_next root c1) (\<lambda>c. visit_preorder link_nfa_nodes root c)
        = and_then (visit_all calc_next (Tree.preorder t) c1) (visit_all link_nfa_nodes (Tree.preorder t))" .
  qed
  finally show ?thesis .
qed

text \<open>C25: What the passes of \<open>analyze\<close> make of a lowered structure tree. They always end, and either memory runs out or the
  nodes that they add to the DFA carry the tokens of the leaves, each its own node, and the edges and destinations that they
  set up accept, from the first node of the tree to the end-of-regex node, exactly the words of the tree.\<close>

theorem analyze_builds_automaton:
  assumes tree: "regex_tree c root t e" and room: "room_ok (dfa_of c)"
  shows "\<exists>err c'. build_nfa root c = Some (err, c') \<and> (err = REG_ESPACE \<or> err = REG_NOERROR \<and>
    (let ts = tree_nodes c; ts' = tree_nodes c'; ix = (\<lambda>a. tree_idx (ts' ! a)); d = dfa_of c'; i = ix (first_of (ty_of ts) t)
     in tree_first (ts' ! root) = Some (first_of (ty_of ts) t) \<and> room_ok d \<and> inj_on ix {a \<in> insert e (set_tree t). ty_of ts a \<noteq> CONCAT}
        \<and> (\<forall>a \<in> insert e (set_tree t). ty_of ts a \<noteq> CONCAT \<longrightarrow> token d (ix a) = stored (dfa_of c) (tree_token (ts ! a)))
        \<and> (\<forall>w. accepts d i w (ix e) \<longleftrightarrow> w \<in> map ix ` lang (ty_of ts) t)))"
proof -
  let ?R = "Node t root (Node Leaf e Leaf)" and ?ts = "tree_nodes c" and ?ty = "ty_of (tree_nodes c)"
  let ?L = "insert END_OF_RE leaf_types"
  note tr = tree [unfolded regex_tree_def]
  have lk: "linked ?ts None (Some root) ?R" and d: "distinct_tree ?R" and wft: "wf_tree leaf_types ?ty t" using tr by blast+
  have wf: "wf_tree ?L ?ty ?R" using tr wf_tree_mono [OF wft, of ?L] by auto
  have an: "anchors_ok ?ts (set_tree ?R)" using tr by (auto simp: anchors_ok_def)
  obtain e1 c1 where v1: "visit_all calc_first (Tree.postorder ?R) c = Some (e1, c1)" "e1 = REG_ESPACE \<or> e1 = REG_NOERROR \<and> first_rel ?R c c1"
    using first_tree [OF lk d wf an room] by blast
  have p1: "visit_postorder calc_first root c = Some (e1, c1)"
    using cf_pass.postorder_visits [OF lk d] v1(1) by simp
  show ?thesis
  proof (cases "e1 = REG_ESPACE")
    case True
    then have "build_nfa root c = Some (REG_ESPACE, c1)" using p1 by (simp add: build_nfa_def)
    then show ?thesis by blast
  next
    case False
    then have f: "e1 = REG_NOERROR" "first_rel ?R c c1" using v1(2) by simp_all
    note r1 = f(2) [unfolded first_rel_def Let_def]
    let ?ts1 = "tree_nodes c1"
    have s1: "same_but_first (?ts ! b) (?ts1 ! b)" for b using r1 by blast
    have ty1: "ty_of ?ts1 = ?ty" using s1 by (auto simp: same_but_first_def)
    have lk1: "linked ?ts1 None (Some root) ?R"
      using linked_cong [of ?ts1 ?ts ?R] s1 r1 lk by (auto simp: same_but_first_def)
    have fo1: "first_ok (ty_of ?ts1) ?ts1 ?R" unfolding ty1 using r1 by blast
    have wf1: "wf_tree ?L (ty_of ?ts1) ?R" unfolding ty1 by (rule wf)
    have nx1: "\<forall>b. root_of ?R = Some b \<longrightarrow> tree_next (?ts1 ! b) = None" using tr s1 [of root] by (simp add: same_but_first_def)
    obtain c2 where v2: "visit_all calc_next (Tree.preorder ?R) c1 = Some (REG_NOERROR, c2)" "next_rel ?R c1 c2"
      "next_ok ?ty (tree_nodes c2) ?R None"
      using next_tree [OF lk1 d wf1 fo1 nx1] unfolding ty1 by blast
    have p2: "visit_preorder calc_next root c1 = Some (REG_NOERROR, c2)"
      using cn_pass.preorder_visits [OF lk1 d] v2(1) by simp
    note r2 = v2(2) [unfolded next_rel_def]
    let ?ts2 = "tree_nodes c2"
    have s2: "same_but_next (?ts1 ! b) (?ts2 ! b)" for b using r2 by blast
    have ty2: "ty_of ?ts2 = ?ty" using s2 ty1 by (auto simp: same_but_next_def fun_eq_iff)
    have ix2: "tree_idx (?ts2 ! b) = tree_idx (?ts1 ! b)" for b using s2 [of b] by (simp add: same_but_next_def)
    have dfa2: "dfa_of c2 = dfa_of c1" using r2 by (metis compiler.select_convs(1) compiler.surjective compiler.update_convs(2))
    have lk2: "linked ?ts2 None (Some root) ?R"
      using linked_cong [of ?ts2 ?ts1 ?R] s2 r2 lk1 by (auto simp: same_but_next_def)
    have fo2: "first_ok ?ty ?ts2 ?R"
      using first_ok_cong [of ?R ?ts2 ?ts1 ?ty] s2 fo1 [unfolded ty1] by (simp add: same_but_next_def)
    have room2: "room_ok (dfa_of c2)" unfolding dfa2 using r1 by blast
    have ind1: "indexed c1 ?R" by (rule first_rel_indexed [OF f(2) room d])
    have ind2: "indexed c2 ?R" using ind1 unfolding indexed_def by (simp add: fun_cong [OF ty1] fun_cong [OF ty2] ix2 dfa2)
    have ind2t: "indexed c2 t" by (rule indexed_sub [OF ind2]) auto
    have len2: "root < length ?ts2" "e < length ?ts2" using linked_in [OF lk2] by simp_all
    have rt: "ty_of ?ts2 root = CONCAT" "ty_of ?ts2 e = END_OF_RE" using tr by (simp_all add: fun_cong [OF ty2])
    have l1: "link_nfa_nodes root c2 = Some (REG_NOERROR, c2)" using link_CONCAT len2 rt by simp
    have nt: "next_ok ?ty ?ts2 t (Some e)" using v2(3) tr by simp
    have ltt: "linked ?ts2 (Some root) (tree_left (?ts2 ! root)) t" using lk2 by simp
    have dt: "distinct_tree t" using d by simp
    have wf2: "wf_tree leaf_types (ty_of ?ts2) t" unfolding ty2 by (rule wft)
    have fo2t: "first_ok (ty_of ?ts2) ?ts2 t" unfolding ty2 using fo2 by simp
    obtain e3 c3 where v3: "visit_all link_nfa_nodes (Tree.preorder t) c2 = Some (e3, c3)" "e3 = REG_ESPACE \<or> e3 = REG_NOERROR
        \<and> changes_only (own c2 t) c2 c3 \<and> edges_ok (dfa_of c3) ?ty (\<lambda>a. tree_idx (?ts2 ! a)) t (tree_idx (?ts2 ! e))"
      using link_tree [OF ltt dt wf2 fo2t nt [folded ty2] len2(2) room2 ind2t] unfolding ty2 by blast
    have p3: "visit_preorder link_nfa_nodes root c2 = visit_all link_nfa_nodes (Tree.preorder ?R) c2"
      by (rule lk_pass.preorder_visits [OF lk2 d])
    show ?thesis
    proof (cases "e3 = REG_ESPACE")
      case True
      then have "visit_preorder link_nfa_nodes root c2 = Some (REG_ESPACE, c3)"
        unfolding p3 using l1 v3(1) by (simp add: visit_all_append)
      then have "build_nfa root c = Some (REG_ESPACE, c3)" using p1 f(1) p2 by (simp add: build_nfa_def)
      then show ?thesis by blast
    next
      case False
      then have r3: "e3 = REG_NOERROR" "changes_only (own c2 t) c2 c3"
        "edges_ok (dfa_of c3) ?ty (\<lambda>a. tree_idx (?ts2 ! a)) t (tree_idx (?ts2 ! e))" using v3(2) by simp_all
      have t3: "tree_nodes c3 = ?ts2" "room_ok (dfa_of c3)" "tokens (dfa_of c3) = tokens (dfa_of c2)" "nodes_len (dfa_of c3) = nodes_len (dfa_of c2)"
        using r3(2) by (simp_all add: changes_only_def)
      have "link_nfa_nodes e c3 = Some (REG_NOERROR, c3)" using link_CONCAT [of e c3] len2 rt t3(1) by simp
      then have "visit_preorder link_nfa_nodes root c2 = Some (REG_NOERROR, c3)"
        unfolding p3 using l1 v3(1) r3(1) by (simp add: visit_all_append)
      then have built: "build_nfa root c = Some (REG_NOERROR, c3)" using p1 f(1) p2 by (simp add: build_nfa_def)
      define ix where "ix = (\<lambda>a. tree_idx (tree_nodes c3 ! a))"
      have ix: "ix = (\<lambda>a. tree_idx (?ts2 ! a))" "ix = (\<lambda>a. tree_idx (?ts1 ! a))" unfolding ix_def t3(1) ix2 by simp_all
      have tok3: "token (dfa_of c3) i = token (dfa_of c1) i" if "0 \<le> i" "nat i < nodes_len (dfa_of c1)" for i
      proof -
        have "nodes_ok (dfa_of c3)" "nodes_ok (dfa_of c1)" using t3(2) r1 by (simp_all add: room_ok_def)
        moreover from this have "nat i < length (tokens (dfa_of c3))" "nat i < length (tokens (dfa_of c1))"
          using that t3(3,4) dfa2 length_tokens by simp_all
        ultimately have "token (dfa_of c3) (int (nat i)) = tokens (dfa_of c3) ! nat i" "token (dfa_of c1) (int (nat i)) = tokens (dfa_of c1) ! nat i"
          using token_nth by blast+
        then have "token (dfa_of c3) (int (nat i)) = token (dfa_of c1) (int (nat i))" unfolding t3(3) dfa2 by simp
        then show ?thesis using that(1) by simp
      qed
      have leaf: "token (dfa_of c3) (ix a) = stored (dfa_of c) (tree_token (?ts ! a))" if "a \<in> insert e (set_tree t)" "?ty a \<noteq> CONCAT" for a
      proof -
        have a: "a \<in> set_tree ?R" using that(1) by auto
        note fl = first_rel_leaf [OF f(2) room a that(2)]
        show ?thesis unfolding ix(2) using fl(1) tok3 [OF fl(2,3)] by simp
      qed
      have inj: "inj_on ix {a \<in> set_tree ?R. ?ty a \<noteq> CONCAT}" using ind1 unfolding indexed_def ix(2) by (simp add: fun_cong [OF ty1])
      have inj': "inj_on ix {a \<in> insert e (set_tree t). ?ty a \<noteq> CONCAT}" by (rule inj_on_subset [OF inj]) auto
      have types: "node_type (dfa_of c3) (ix a) = ?ty a" if "a \<in> insert e (set_tree t)" "?ty a \<noteq> CONCAT" for a
        using leaf [OF that] by (simp add: node_type_def)
      have w: "wired (node_type (dfa_of c3)) (edest_set (dfa_of c3)) (next_node (dfa_of c3)) ?ty ix t (ix e)"
        by (rule edges_wired [OF _ wft]) (use r3(3) types ix(1) in auto)
      have T: "node_type (dfa_of c3) (ix e) = END_OF_RE" using types [of e] tr by simp
      have ne: "ix e \<notin> ix ` {b \<in> set_tree t. ?ty b \<noteq> CONCAT}"
      proof
        assume "ix e \<in> ix ` {b \<in> set_tree t. ?ty b \<noteq> CONCAT}"
        then obtain b where b: "b \<in> set_tree t" "?ty b \<noteq> CONCAT" "ix e = ix b" by blast
        have "?ty e \<noteq> CONCAT" using tr by simp
        then have "e = b" using inj_onD [OF inj b(3)] b(1,2) by simp
        then show False using b(1) d by simp
      qed
      have fo: "tree_first (tree_nodes c3 ! root) = Some (first_of ?ty t)" unfolding t3(1) using fo2 tr by simp
      have "entry ?ty ix t (ix e) = ix (first_of ?ty t)" using tr by (cases t) auto
      then have "\<forall>w. accepts (dfa_of c3) (ix (first_of ?ty t)) w (ix e) \<longleftrightarrow> w \<in> map ix ` lang ?ty t"
        using run_iff_lang [OF w wft ne T] unfolding accepts_def by simp
      then show ?thesis
        using built fo t3(2) inj' leaf unfolding ix_def Let_def by (intro exI [of _ REG_NOERROR] exI [of _ c3]) blast
    qed
  qed
qed


section \<open>An example\<close>

definition char_token :: "8 word \<Rightarrow> re_token" where
  "char_token w = (blank_token CHARACTER)\<lparr>opr := Char_opr w\<rparr>"

definition empty_dfa :: re_dfa where
  "empty_dfa = \<lparr>dfa_nodes = Live (replicate 8 node_garbage), nodes_alloc = 8, nodes_len = 0, nexts = Live (replicate 8 0),
     org_indices = Live (replicate 8 0), edests = Live (replicate 8 init_empty), eclosures = Live (replicate 8 init_empty),
     state_table = [], state_hash_mask = 0, mb_cur_max = 1, heap = []\<rparr>"

definition empty_compiler :: compiler where
  "empty_compiler = \<lparr>dfa_of = empty_dfa, tree_nodes = [], storage_idx = 15, subexp_map = None, used_bkref_map = 0,
     completed_bkref_map = 0, has_plural_match = False, no_sub = False, re_nsub = 0, pending = [], charsets = [], released = []\<rparr>"

text \<open>The tree of \<open>(a|b)*\<close>, without its parentheses, made as the parser makes it.\<close>

definition star_tree :: "(nat option \<times> compiler) option" where
  "star_tree =
     do { (a, c) \<leftarrow> create_token_tree None None (char_token 97) empty_compiler;
          (b, c) \<leftarrow> create_token_tree None None (char_token 98) c;
          (alt, c) \<leftarrow> create_tree a b OP_ALT c;
          (st, c) \<leftarrow> create_tree alt None OP_DUP_ASTERISK c;
          (e, c) \<leftarrow> create_tree None None END_OF_RE c;
          create_tree st e CONCAT c }"

definition star_compiler :: compiler where
  "star_compiler = snd (the star_tree)"

abbreviation star_shape :: "nat tree" where
  "star_shape \<equiv> Node (Node (Node Leaf 0 Leaf) 2 (Node Leaf 1 Leaf)) 3 Leaf"

lemma star_regex_tree: "regex_tree star_compiler 5 star_shape 4"
  by code_simp

lemma star_room: "room_ok (dfa_of star_compiler)"
proof -
  have "dfa_of star_compiler = empty_dfa" by code_simp
  then show ?thesis by (simp add: room_ok_def nodes_ok_def empty_dfa_def)
qed

lemma star_builds:
  "map_option (\<lambda>(err, c). (err, map tree_idx (tree_nodes c))) (build_nfa 5 star_compiler) = Some (REG_NOERROR, [0, 1, 2, 3, 4, 3])"
proof -
  have "linked (tree_nodes star_compiler) None (Some 5) (Node star_shape 5 (Node Leaf 4 Leaf))"
    "distinct_tree (Node star_shape 5 (Node Leaf 4 Leaf))" using star_regex_tree by (simp_all add: regex_tree_def)
  then have b: "build_nfa 5 star_compiler = build_in_order (Node star_shape 5 (Node Leaf 4 Leaf)) star_compiler"
    by (rule build_nfa_in_order)
  show ?thesis unfolding b by code_simp
qed

lemma star_types: "map (ty_of (tree_nodes star_compiler)) [0, 1, 2, 3] = [CHARACTER, CHARACTER, OP_ALT, OP_DUP_ASTERISK]"
  by code_simp

lemma succeeded: "\<exists>err c'. x = Some (err, c') \<and> (err = REG_ESPACE \<or> err = REG_NOERROR \<and> Q c') \<Longrightarrow> x = Some (REG_NOERROR, c) \<Longrightarrow> Q c"
  by auto

theorem analyze_builds_automaton_witness:
  "\<exists>c'. build_nfa 5 star_compiler = Some (REG_NOERROR, c') \<and> accepts (dfa_of c') 3 [0, 1, 1] 4
     \<and> tok_type (token (dfa_of c') 1) = CHARACTER"
proof -
  let ?ty = "ty_of (tree_nodes star_compiler)"
  note P = analyze_builds_automaton [OF star_regex_tree star_room]
  obtain c' where c': "build_nfa 5 star_compiler = Some (REG_NOERROR, c')" "map tree_idx (tree_nodes c') = [0, 1, 2, 3, 4, 3]"
    using star_builds by auto
  have "length (map tree_idx (tree_nodes c')) = 6" unfolding c'(2) by simp
  then have len: "length (tree_nodes c') = 6" by simp
  note Q = succeeded [OF P c'(1), unfolded Let_def]
  have ix: "tree_idx (tree_nodes c' ! a) = [0, 1, 2, 3, 4, 3] ! a" if "a < 6" for a
    using arg_cong [OF c'(2), of "\<lambda>xs. xs ! a"] that len by simp
  have ty: "?ty 0 = CHARACTER" "?ty 1 = CHARACTER" "?ty 2 = OP_ALT" "?ty 3 = OP_DUP_ASTERISK" using star_types by simp_all
  have w: "[0, 1, 1] \<in> lang ?ty star_shape"
  proof -
    have "[0] \<in> lang ?ty (Node (Node Leaf 0 Leaf) 2 (Node Leaf 1 Leaf))" "[1] \<in> lang ?ty (Node (Node Leaf 0 Leaf) 2 (Node Leaf 1 Leaf))"
      using ty by simp_all
    then have "[0] @ [1] @ [1] @ [] \<in> star (lang ?ty (Node (Node Leaf 0 Leaf) 2 (Node Leaf 1 Leaf)))"
      by (intro star_append star_Nil)
    then show ?thesis using ty by (simp add: insert_commute)
  qed
  have f: "first_of ?ty star_shape = 3" using ty by simp
  have "accepts (dfa_of c') (tree_idx (tree_nodes c' ! 3)) (map (\<lambda>a. tree_idx (tree_nodes c' ! a)) [0, 1, 1]) (tree_idx (tree_nodes c' ! 4))"
    using Q w unfolding f by blast
  moreover have "token (dfa_of c') (tree_idx (tree_nodes c' ! 1)) = stored (dfa_of star_compiler) (tree_token (tree_nodes star_compiler ! 1))"
  proof -
    have "(1 :: nat) \<in> insert 4 (set_tree star_shape)" "?ty 1 \<noteq> CONCAT" using ty(2) by simp_all
    then show ?thesis using Q by blast
  qed
  ultimately show ?thesis using c'(1) ix [of 0] ix [of 1] ix [of 3] ix [of 4] ty(2) by (intro exI [of _ c']) simp
qed

text \<open>C26: The loops of \<open>postorder\<close> and \<open>preorder\<close>, which find their way by the parent pointers and keep no stack, end on
  every linked tree, and carry a pass that keeps the links to the nodes in postorder and in preorder, each node once, up
  to the first error.\<close>

theorem visits_follow_the_tree:
  assumes "\<And>a c e c'. fn a c = Some (e, c') \<Longrightarrow> links c' = links c"
    and "linked (tree_nodes c) None (Some root) t" and "distinct_tree t"
  shows "visit_postorder fn root c = visit_all fn (Tree.postorder t) c \<and> visit_preorder fn root c = visit_all fn (Tree.preorder t) c"
proof -
  have "tree_pass fn" by (rule tree_pass.intro) (rule assms(1))
  then show ?thesis using tree_pass.postorder_visits tree_pass.preorder_visits assms(2,3) by blast
qed

theorem visits_follow_the_tree_witness:
  "visit_postorder calc_first 5 star_compiler = visit_all calc_first [0, 1, 2, 3, 4, 5] star_compiler
   \<and> visit_preorder calc_first 5 star_compiler = visit_all calc_first [5, 3, 2, 0, 1, 4] star_compiler"
proof -
  have "linked (tree_nodes star_compiler) None (Some 5) (Node star_shape 5 (Node Leaf 4 Leaf))"
    "distinct_tree (Node star_shape 5 (Node Leaf 4 Leaf))" using star_regex_tree by (simp_all add: regex_tree_def)
  from visits_follow_the_tree [OF _ this, of calc_first] show ?thesis using cf_pass.keeps by simp
qed

end
