(* ===== verification/RegClosure.thy ===== *)
theory RegClosure
  imports RegLanguage
begin

text \<open>
  Epsilon closures: src/src/regex/regcomp.c, from \<open>duplicate_node_closure\<close> to \<open>calc_eclosure_iter\<close> and
  \<open>create_initial_state\<close>.

  \<^item> While the closure of a node is being calculated the code keeps -1 as the number of its elements. A set has a natural
    number of elements here, so the nodes under way are the list \<open>busy\<close> of the state: what is read of such a node is -1.
  \<^item> The functions call themselves along the edges of the automaton, which may be circular; they are partial functions,
    \<open>None\<close> when they do not end or use a wild index.
  \<^item> A closure that is freed is dropped.
\<close>

unbundle bit_operations_syntax

section \<open>Duplicating nodes\<close>

definition block_at :: "'a block \<Rightarrow> int \<Rightarrow> 'a option" where
  "block_at b i = (if i < 0 then None else do { xs \<leftarrow> live b; mem_read xs (nat i) })"

definition block_put :: "'a block \<Rightarrow> int \<Rightarrow> 'a \<Rightarrow> 'a block option" where
  "block_put b i x = (if i < 0 then None else write_block b (nat i) x)"

definition set_elem :: "re_node_set \<Rightarrow> nat \<Rightarrow> int option" where
  "set_elem s i = do { e \<leftarrow> elems s; mem_read e i }"

definition duplicate_node :: "re_dfa \<Rightarrow> int \<Rightarrow> 10 word \<Rightarrow> answers \<Rightarrow> (int \<times> re_dfa \<times> answers) option" where
  "duplicate_node d org_idx w os =
     do { t \<leftarrow> node_at d org_idx;
          (i, d, os) \<leftarrow> re_dfa_add_node d t os;
          if i = -1 then Some (-1, d, os)
          else do { n \<leftarrow> node_at d i;
                    org \<leftarrow> node_at d org_idx;
                    b \<leftarrow> block_put (dfa_nodes d) i (n\<lparr>constraint := w OR constraint org, duplicated := True\<rparr>);
                    o' \<leftarrow> block_put (org_indices d) i org_idx;
                    Some (i, d\<lparr>dfa_nodes := b, org_indices := o'\<rparr>, os) } }"

text \<open>The search goes down from the last node, through the duplicated ones.\<close>

fun search_loop :: "re_dfa \<Rightarrow> int \<Rightarrow> 10 word \<Rightarrow> nat \<Rightarrow> int option" where
  "search_loop d org_node w i =
     do { n \<leftarrow> node_at d (int i);
          if duplicated n \<and> 0 < i then
            do { org \<leftarrow> block_at (org_indices d) (int i);
                 if org_node = org \<and> w = constraint n then Some (int i)
                 else (case i of 0 \<Rightarrow> Some (-1) | Suc j \<Rightarrow> search_loop d org_node w j) }
          else Some (-1) }"

declare search_loop.simps [simp del]

definition search_duplicated_node :: "re_dfa \<Rightarrow> int \<Rightarrow> 10 word \<Rightarrow> int option" where
  "search_duplicated_node d org_node w = (if nodes_len d = 0 then None else search_loop d org_node w (nodes_len d - 1))"

definition empty_edests :: "re_dfa \<Rightarrow> int \<Rightarrow> re_dfa option" where
  "empty_edests d i = do { s \<leftarrow> block_at (edests d) i; b \<leftarrow> block_put (edests d) i (s\<lparr>nelem := 0\<rparr>); Some (d\<lparr>edests := b\<rparr>) }"

definition insert_edest :: "re_dfa \<Rightarrow> int \<Rightarrow> int \<Rightarrow> answers \<Rightarrow> (bool \<times> re_dfa \<times> answers) option" where
  "insert_edest d i x os =
     do { s \<leftarrow> block_at (edests d) i;
          (ok, s, os) \<leftarrow> node_set_insert s x os;
          b \<leftarrow> block_put (edests d) i s;
          Some (ok, d\<lparr>edests := b\<rparr>, os) }"

definition copy_next :: "re_dfa \<Rightarrow> int \<Rightarrow> int \<Rightarrow> re_dfa option" where
  "copy_next d clone_node org_node =
     do { x \<leftarrow> block_at (nexts d) org_node; b \<leftarrow> block_put (nexts d) clone_node x; Some (d\<lparr>nexts := b\<rparr>) }"

text \<open>Duplicating a destination and adding the duplicate to the edges of the clone: \<open>None\<close> for the index when that fails.\<close>

definition clone_edge :: "re_dfa \<Rightarrow> int \<Rightarrow> int \<Rightarrow> 10 word \<Rightarrow> answers \<Rightarrow> (int option \<times> re_dfa \<times> answers) option" where
  "clone_edge d clone_node org_dest w os =
     do { (i, d, os) \<leftarrow> duplicate_node d org_dest w os;
          if i = -1 then Some (None, d, os)
          else do { (ok, d, os) \<leftarrow> insert_edest d clone_node i os; Some (if ok then Some i else None, d, os) } }"

type_synonym closure_result = "(reg_errcode \<times> re_dfa \<times> answers) option"

partial_function (option) duplicate_node_closure ::
  "re_dfa \<Rightarrow> int \<Rightarrow> int \<Rightarrow> int \<Rightarrow> 10 word \<Rightarrow> answers \<Rightarrow> closure_result" where
  "duplicate_node_closure d org_node clone_node root_node w os =
     do { n \<leftarrow> node_at d org_node;
          eds \<leftarrow> block_at (edests d) org_node;
          if tok_type n = OP_BACK_REF then
            do { org_dest \<leftarrow> block_at (nexts d) org_node;
                 d \<leftarrow> empty_edests d clone_node;
                 (i, d, os) \<leftarrow> duplicate_node d org_dest w os;
                 if i = -1 then Some (REG_ESPACE, d, os)
                 else do { d \<leftarrow> copy_next d clone_node org_node;
                           (ok, d, os) \<leftarrow> insert_edest d clone_node i os;
                           if \<not> ok then Some (REG_ESPACE, d, os)
                           else duplicate_node_closure d org_dest i root_node w os } }
          else if nelem eds = 0 then
            do { d \<leftarrow> copy_next d clone_node org_node; Some (REG_NOERROR, d, os) }
          else if nelem eds = 1 then
            do { org_dest \<leftarrow> set_elem eds 0;
                 d \<leftarrow> empty_edests d clone_node;
                 if org_node = root_node \<and> clone_node \<noteq> org_node then
                   do { (ok, d, os) \<leftarrow> insert_edest d clone_node org_dest os;
                        Some (if ok then REG_NOERROR else REG_ESPACE, d, os) }
                 else
                   do { let w = w OR constraint n;
                        (i, d, os) \<leftarrow> clone_edge d clone_node org_dest w os;
                        (case i of None \<Rightarrow> Some (REG_ESPACE, d, os)
                         | Some i \<Rightarrow> duplicate_node_closure d org_dest i root_node w os) } }
          else
            do { org_dest \<leftarrow> set_elem eds 0;
                 d \<leftarrow> empty_edests d clone_node;
                 i \<leftarrow> search_duplicated_node d org_dest w;
                 (err, d, os) \<leftarrow>
                   (if i = -1 then
                      do { (i, d, os) \<leftarrow> clone_edge d clone_node org_dest w os;
                           (case i of None \<Rightarrow> Some (REG_ESPACE, d, os)
                            | Some i \<Rightarrow> duplicate_node_closure d org_dest i root_node w os) }
                    else
                      do { (ok, d, os) \<leftarrow> insert_edest d clone_node i os;
                           Some (if ok then REG_NOERROR else REG_ESPACE, d, os) });
                 if err \<noteq> REG_NOERROR then Some (err, d, os)
                 else do { eds \<leftarrow> block_at (edests d) org_node;
                           org_dest \<leftarrow> set_elem eds 1;
                           (i, d, os) \<leftarrow> clone_edge d clone_node org_dest w os;
                           (case i of None \<Rightarrow> Some (REG_ESPACE, d, os)
                            | Some i \<Rightarrow> duplicate_node_closure d org_dest i root_node w os) } } }"

section \<open>Closures\<close>

record closing =
  closed_dfa :: re_dfa
  busy :: "int list"
  answers_left :: answers

definition eclosure_at :: "closing \<Rightarrow> int \<Rightarrow> re_node_set option" where
  "eclosure_at c i = block_at (eclosures (closed_dfa c)) i"

text \<open>The number of elements of a closure: -1, none yet, or some.\<close>

datatype progress = Under_way | Unknown | Known re_node_set

definition progress_of :: "closing \<Rightarrow> int \<Rightarrow> progress option" where
  "progress_of c i =
     do { s \<leftarrow> eclosure_at c i; Some (if i \<in> set (busy c) then Under_way else if nelem s = 0 then Unknown else Known s) }"

definition store_eclosure :: "int \<Rightarrow> re_node_set \<Rightarrow> closing \<Rightarrow> closing option" where
  "store_eclosure i s c =
     do { b \<leftarrow> block_put (eclosures (closed_dfa c)) i s;
          Some (c\<lparr>closed_dfa := (closed_dfa c)\<lparr>eclosures := b\<rparr>, busy := removeAll i (busy c)\<rparr>) }"

definition forget_eclosure :: "int \<Rightarrow> closing \<Rightarrow> closing option" where
  "forget_eclosure i c = do { s \<leftarrow> eclosure_at c i; store_eclosure i (s\<lparr>nelem := 0\<rparr>) c }"

text \<open>A call for a node, or the rest of the loop over its destinations, from the \<open>i\<close>-th on.\<close>

datatype closure_call = Enter int bool | Expand int bool nat re_node_set bool

definition end_closure :: "int \<Rightarrow> bool \<Rightarrow> re_node_set \<Rightarrow> bool \<Rightarrow> closing \<Rightarrow> (reg_errcode \<times> re_node_set \<times> closing) option" where
  "end_closure node is_root eclosure incomplete c =
     do { c \<leftarrow> (if incomplete \<and> \<not> is_root then forget_eclosure node c else store_eclosure node eclosure c);
          Some (REG_NOERROR, eclosure, c) }"

partial_function (option) closure_steps :: "closure_call \<Rightarrow> closing \<Rightarrow> (reg_errcode \<times> re_node_set \<times> closing) option" where
  "closure_steps call c = (case call of
      Enter node is_root \<Rightarrow>
        do { eds \<leftarrow> block_at (edests (closed_dfa c)) node;
             (err, s, os) \<leftarrow> node_set_alloc (nelem eds + 1) (answers_left c);
             let c = c\<lparr>answers_left := os\<rparr>;
             if err \<noteq> REG_NOERROR then Some (err, s, c)
             else
               do { e \<leftarrow> elems s;
                    e \<leftarrow> mem_write e (nelem s) [node];
                    let s = s\<lparr>elems := Some e, nelem := nelem s + 1\<rparr>;
                    s0 \<leftarrow> eclosure_at c node;
                    let c = c\<lparr>busy := node # busy c\<rparr>;
                    n \<leftarrow> node_at (closed_dfa c) node;
                    dup \<leftarrow> (if constraint n \<noteq> 0 \<and> nelem eds \<noteq> 0
                            then do { x \<leftarrow> set_elem eds 0; m \<leftarrow> node_at (closed_dfa c) x; Some (\<not> duplicated m) }
                            else Some False);
                    (err, d, os) \<leftarrow> (if dup then duplicate_node_closure (closed_dfa c) node node node (constraint n) (answers_left c)
                                     else Some (REG_NOERROR, closed_dfa c, answers_left c));
                    let c = c\<lparr>closed_dfa := d, answers_left := os\<rparr>;
                    if err \<noteq> REG_NOERROR then Some (err, s, c)
                    else
                      do { n \<leftarrow> node_at (closed_dfa c) node;
                           if IS_EPSILON_NODE (tok_type n) then closure_steps (Expand node is_root 0 s False) c
                           else end_closure node is_root s False c } } }
    | Expand node is_root i s incomplete \<Rightarrow>
        do { eds \<leftarrow> block_at (edests (closed_dfa c)) node;
             if nelem eds \<le> i then end_closure node is_root s incomplete c
             else
               do { edest \<leftarrow> set_elem eds i;
                    p \<leftarrow> progress_of c edest;
                    if p = Under_way then closure_steps (Expand node is_root (Suc i) s True) c
                    else
                      do { (err, t, c) \<leftarrow> (case p of Known t \<Rightarrow> Some (REG_NOERROR, t, c) | _ \<Rightarrow> closure_steps (Enter edest False) c);
                           if err \<noteq> REG_NOERROR then Some (err, s, c)
                           else
                             do { (err, s, os) \<leftarrow> node_set_merge s (Some t) (answers_left c);
                                  let c = c\<lparr>answers_left := os\<rparr>;
                                  if err \<noteq> REG_NOERROR then Some (err, s, c)
                                  else
                                    do { p \<leftarrow> progress_of c edest;
                                         closure_steps (Expand node is_root (Suc i) s (incomplete \<or> p = Unknown)) c } } } } })"

text \<open>\<open>calc_eclosure\<close>: all the nodes in turn, and again if some closure was left incomplete.
  \<open>nodes_len\<close> is read again for each node, since nodes are added on the way.\<close>

partial_function (option) calc_eclosure_loop :: "nat \<Rightarrow> bool \<Rightarrow> closing \<Rightarrow> (reg_errcode \<times> closing) option" where
  "calc_eclosure_loop node_idx incomplete c =
     (if node_idx = nodes_len (closed_dfa c) \<and> \<not> incomplete then Some (REG_NOERROR, c)
      else
        do { let (node_idx, incomplete) = (if node_idx = nodes_len (closed_dfa c) then (0, False) else (node_idx, incomplete));
             p \<leftarrow> progress_of c (int node_idx);
             if p \<noteq> Unknown then calc_eclosure_loop (Suc node_idx) incomplete c
             else
               do { (err, s, c) \<leftarrow> closure_steps (Enter (int node_idx) True) c;
                    if err \<noteq> REG_NOERROR then Some (err, c)
                    else do { p \<leftarrow> progress_of c (int node_idx);
                              calc_eclosure_loop (Suc node_idx) (incomplete \<or> p = Unknown) c } } })"

definition calc_eclosure :: "re_dfa \<Rightarrow> answers \<Rightarrow> closure_result" where
  "calc_eclosure d os =
     do { (err, c) \<leftarrow> calc_eclosure_loop 0 False \<lparr>closed_dfa = d, busy = [], answers_left = os\<rparr>;
          Some (err, closed_dfa c, answers_left c) }"

text \<open>\<open>calc_inveclosure\<close>; the array it fills is returned.\<close>

fun inv_elems :: "int \<Rightarrow> re_node_set \<Rightarrow> nat \<Rightarrow> nat \<Rightarrow> re_node_set list \<Rightarrow> answers \<Rightarrow> (reg_errcode \<times> re_node_set list \<times> answers) option" where
  "inv_elems src s idx 0 sets os = Some (REG_NOERROR, sets, os)"
| "inv_elems src s idx (Suc n) sets os =
     do { x \<leftarrow> set_elem s idx;
          t \<leftarrow> (if x < 0 then None else mem_read sets (nat x));
          (ok, t, os) \<leftarrow> node_set_insert_last t src os;
          let sets = sets[nat x := t];
          if \<not> ok then Some (REG_ESPACE, sets, os) else inv_elems src s (Suc idx) n sets os }"

fun inv_sources :: "re_dfa \<Rightarrow> nat \<Rightarrow> nat \<Rightarrow> re_node_set list \<Rightarrow> answers \<Rightarrow> (reg_errcode \<times> re_node_set list \<times> answers) option" where
  "inv_sources d src 0 sets os = Some (REG_NOERROR, sets, os)"
| "inv_sources d src (Suc n) sets os =
     do { s \<leftarrow> block_at (eclosures d) (int src);
          (err, sets, os) \<leftarrow> inv_elems (int src) s 0 (nelem s) sets os;
          if err \<noteq> REG_NOERROR then Some (err, sets, os) else inv_sources d (Suc src) n sets os }"

definition calc_inveclosure :: "re_dfa \<Rightarrow> answers \<Rightarrow> (reg_errcode \<times> re_node_set list \<times> answers) option" where
  "calc_inveclosure d os = inv_sources d 0 (nodes_len d) (replicate (nodes_len d) init_empty) os"

end
