(* ===== verification/RegReach.thy ===== *)
theory RegReach
  imports RegClosure RegPasses
begin

text \<open>
  The epsilon closures of RegClosure, for an automaton without anchors (whose nodes have no constraints): the closure of
  a node is what can be reached from it along epsilon edges, and the inverse closures are the converse of that.

  While the recursion goes over a node, its closure is what can be reached without the nodes under way (\<open>avoiding\<close>): a
  closure in which such a node was met is incomplete, and is stored only when nothing is under way any more.
\<close>


section \<open>Reachability along epsilon edges\<close>

definition eps :: "re_dfa \<Rightarrow> (int \<times> int) set" where
  "eps d = {(i, j). IS_EPSILON_NODE (tok_type (token d i)) \<and> j \<in> edest_set d i}"

definition reach :: "re_dfa \<Rightarrow> int \<Rightarrow> int set" where
  "reach d i = {j. (i, j) \<in> (eps d)\<^sup>*}"

text \<open>Reachable without any node of \<open>B\<close>.\<close>

definition avoiding :: "re_dfa \<Rightarrow> int set \<Rightarrow> int \<Rightarrow> int set" where
  "avoiding d B i = {j. (i, j) \<in> (eps d \<inter> (- B) \<times> (- B))\<^sup>*}"

lemma reach_refl [simp]: "i \<in> reach d i"
  by (simp add: reach_def)

lemma reach_step: "(i, j) \<in> eps d \<Longrightarrow> reach d j \<subseteq> reach d i"
  by (auto simp: reach_def intro: converse_rtrancl_into_rtrancl)

lemma avoiding_reach: "avoiding d B i \<subseteq> reach d i"
  unfolding avoiding_def reach_def by (auto intro: rtrancl_mono [THEN subsetD])

lemma avoiding_empty: "avoiding d {} i = reach d i"
  by (simp add: avoiding_def reach_def)

lemma avoiding_outside: "j \<in> avoiding d B i \<Longrightarrow> i \<notin> B \<Longrightarrow> j \<notin> B"
  unfolding avoiding_def by (auto elim: rtranclE)

lemma reach_unfold: "reach d i = insert i (\<Union>j \<in> {j. (i, j) \<in> eps d}. reach d j)"
  unfolding reach_def by (auto elim: converse_rtranclE intro: converse_rtrancl_into_rtrancl)

lemma avoiding_unfold:
  assumes "i \<notin> B"
  shows "avoiding d B i \<subseteq> insert i (\<Union>j \<in> {j. (i, j) \<in> eps d \<and> j \<notin> insert i B}. avoiding d (insert i B) j)"
proof
  fix y assume "y \<in> avoiding d B i"
  then have "(i, y) \<in> (eps d \<inter> (- B) \<times> (- B))\<^sup>*" by (simp add: avoiding_def)
  then show "y \<in> insert i (\<Union>j \<in> {j. (i, j) \<in> eps d \<and> j \<notin> insert i B}. avoiding d (insert i B) j)"
  proof (induction rule: rtrancl_induct)
    case (step y z)
    then have yz: "(y, z) \<in> eps d" "y \<notin> B" "z \<notin> B" by auto
    show ?case
    proof (cases "z = i")
      case False
      then have z: "z \<notin> insert i B" using yz(3) by simp
      show ?thesis
      proof (cases "y = i")
        case True
        have "z \<in> avoiding d (insert i B) z" by (simp add: avoiding_def)
        then show ?thesis using True yz(1) z by auto
      next
        case False
        then obtain j where j: "(i, j) \<in> eps d" "j \<notin> insert i B" "y \<in> avoiding d (insert i B) j" using step.IH by auto
        have "y \<notin> insert i B" by (rule avoiding_outside [OF j(3,2)])
        then have "z \<in> avoiding d (insert i B) j"
          using j(3) yz(1) z unfolding avoiding_def by (auto intro: rtrancl_into_rtrancl)
        then show ?thesis using j(1,2) by auto
      qed
    qed simp
  qed simp
qed

section \<open>The closures of a DFA without anchors\<close>

text \<open>The automaton as the passes leave it: the edges are sets of nodes, and no closure is known.\<close>

definition slot :: "'a block \<Rightarrow> int \<Rightarrow> 'a" where
  "slot b i = (case b of Live xs \<Rightarrow> xs ! nat i | Freed \<Rightarrow> undefined)"

definition is_node :: "re_dfa \<Rightarrow> int \<Rightarrow> bool" where
  "is_node d i \<longleftrightarrow> 0 \<le> i \<and> nat i < nodes_len d"

definition closable :: "re_dfa \<Rightarrow> bool" where
  "closable d \<longleftrightarrow> nodes_ok d
     \<and> (\<forall>i. is_node d i \<longrightarrow> constraint (token d i) = 0
          \<and> (\<exists>el. set_rep (slot (edests d) i) el \<and> (\<forall>j \<in> set el. is_node d j)))"

lemma block_at_slot:
  assumes "b = Live xs" and "length xs = nodes_alloc d" and "nodes_ok d" and "is_node d i"
  shows "block_at b i = Some (slot b i)"
  using assms by (auto simp: block_at_def slot_def is_node_def mem_read_def nodes_ok_def)

lemma node_at_token: "nodes_ok d \<Longrightarrow> is_node d i \<Longrightarrow> node_at d i = Some (token d i)"
  by (auto simp: token_def node_at_def nodes_ok_def is_node_def mem_read_def)

lemma edest_set_slot:
  assumes "nodes_ok d" and "is_node d i" and "set_rep (slot (edests d) i) el"
  shows "edest_set d i = set el"
proof -
  obtain eds where "edests d = Live eds" "length eds = nodes_alloc d" "nodes_len d \<le> nodes_alloc d"
    using assms(1) unfolding nodes_ok_def by blast
  then show ?thesis using assms(2,3) by (auto simp: edest_set_def is_node_def slot_def set_of_def set_rep_def split: option.splits)
qed

text \<open>The state while closures are calculated: \<open>d\<close> but for its closures, and those that are known are right.\<close>

definition closing_ok :: "re_dfa \<Rightarrow> closing \<Rightarrow> bool" where
  "closing_ok d c \<longleftrightarrow> (\<exists>ecs. closed_dfa c = d\<lparr>eclosures := Live ecs\<rparr> \<and> length ecs = nodes_alloc d
     \<and> distinct (busy c) \<and> (\<forall>i \<in> set (busy c). is_node d i)
     \<and> (\<forall>i. is_node d i \<longrightarrow> i \<notin> set (busy c) \<longrightarrow>
          nelem (ecs ! nat i) = 0 \<or> (\<exists>xs. set_rep (ecs ! nat i) xs \<and> set xs = reach d i)))"

definition closure_slot :: "closing \<Rightarrow> int \<Rightarrow> re_node_set" where
  "closure_slot c i = slot (eclosures (closed_dfa c)) i"

definition known :: "closing \<Rightarrow> int \<Rightarrow> bool" where
  "known c i \<longleftrightarrow> i \<notin> set (busy c) \<and> nelem (closure_slot c i) \<noteq> 0"

lemma closing_fields:
  assumes "closing_ok d c"
  shows "edests (closed_dfa c) = edests d" "nodes_len (closed_dfa c) = nodes_len d" "nodes_alloc (closed_dfa c) = nodes_alloc d"
    "node_at (closed_dfa c) i = node_at d i"
  using assms by (auto simp: closing_ok_def node_at_def)

lemma eclosure_at_slot:
  assumes "closing_ok d c" and "nodes_ok d" and "is_node d i"
  shows "eclosure_at c i = Some (closure_slot c i)"
proof -
  obtain ecs where e: "eclosures (closed_dfa c) = Live ecs" "length ecs = nodes_alloc d" using assms(1) by (auto simp: closing_ok_def)
  show ?thesis unfolding eclosure_at_def closure_slot_def by (rule block_at_slot [OF e assms(2,3)])
qed

lemma progress_of_slot:
  assumes "closing_ok d c" and "nodes_ok d" and "is_node d i"
  shows "progress_of c i = Some (if i \<in> set (busy c) then Under_way
    else if nelem (closure_slot c i) = 0 then Unknown else Known (closure_slot c i))"
  using eclosure_at_slot [OF assms] by (simp add: progress_of_def)

lemma known_reach:
  assumes "closing_ok d c" and "is_node d i" and "known c i"
  shows "\<exists>xs. set_rep (closure_slot c i) xs \<and> set xs = reach d i"
proof -
  obtain ecs where e: "closed_dfa c = d\<lparr>eclosures := Live ecs\<rparr>"
    "\<And>i. is_node d i \<Longrightarrow> i \<notin> set (busy c) \<Longrightarrow> nelem (ecs ! nat i) = 0 \<or> (\<exists>xs. set_rep (ecs ! nat i) xs \<and> set xs = reach d i)"
    using assms(1) unfolding closing_ok_def by blast
  have s: "closure_slot c i = ecs ! nat i" using e(1) by (simp add: closure_slot_def slot_def)
  have "i \<notin> set (busy c)" "nelem (ecs ! nat i) \<noteq> 0" using assms(3) unfolding known_def s by blast+
  with e(2) [OF assms(2)] have "\<exists>xs. set_rep (ecs ! nat i) xs \<and> set xs = reach d i" by simp
  then show ?thesis unfolding s .
qed

text \<open>Leaving a node.\<close>

lemma store_eclosure_ok:
  assumes c: "closing_ok d c" and d: "nodes_ok d" and i: "is_node d i" and b: "busy c = i # B"
    and s: "nelem s = 0 \<or> (\<exists>xs. set_rep s xs \<and> set xs = reach d i)"
  shows "\<exists>c'. store_eclosure i s c = Some c' \<and> closing_ok d c' \<and> busy c' = B \<and> closure_slot c' i = s
    \<and> (\<forall>j. is_node d j \<longrightarrow> j \<noteq> i \<longrightarrow> closure_slot c' j = closure_slot c j)"
proof -
  obtain ecs where e: "closed_dfa c = d\<lparr>eclosures := Live ecs\<rparr>" "length ecs = nodes_alloc d" "distinct (i # B)"
    "\<forall>i \<in> set (i # B). is_node d i"
    "\<And>j. is_node d j \<Longrightarrow> j \<notin> set (i # B) \<Longrightarrow> nelem (ecs ! nat j) = 0 \<or> (\<exists>xs. set_rep (ecs ! nat j) xs \<and> set xs = reach d j)"
    using c b unfolding closing_ok_def by auto
  have lt: "nat i < length ecs" "0 \<le> i" using i e(2) d by (auto simp: is_node_def nodes_ok_def)
  let ?ecs = "ecs[nat i := s]"
  let ?c = "c\<lparr>closed_dfa := d\<lparr>eclosures := Live ?ecs\<rparr>, busy := removeAll i (busy c)\<rparr>"
  have st: "store_eclosure i s c = Some ?c"
    using e(1) lt by (simp add: store_eclosure_def block_put_def write_block_def mem_write_1)
  have B: "removeAll i (busy c) = B" using e(3) b by (simp add: removeAll_id)
  have at: "?ecs ! nat j = (if j = i then s else ecs ! nat j)" if "is_node d j" for j
    using that lt by (auto simp: nth_list_update is_node_def)
  have "closing_ok d ?c"
  proof -
    have "nelem (?ecs ! nat j) = 0 \<or> (\<exists>xs. set_rep (?ecs ! nat j) xs \<and> set xs = reach d j)" if "is_node d j" "j \<notin> set B" for j
      using at [OF that(1)] s e(5) [OF that(1)] that(2) by (cases "j = i") simp_all
    then show ?thesis using e(2,3,4) B unfolding closing_ok_def by (intro exI [of _ ?ecs]) simp
  qed
  moreover have "closure_slot ?c i = s" using lt by (simp add: closure_slot_def slot_def)
  moreover have "closure_slot ?c j = closure_slot c j" if "is_node d j" "j \<noteq> i" for j
    using at [OF that(1)] that(2) e(1) by (simp add: closure_slot_def slot_def)
  ultimately show ?thesis using st B by auto
qed

lemma enter_busy:
  assumes "closing_ok d c" and "is_node d i" and "i \<notin> set (busy c)"
  shows "closing_ok d (c\<lparr>busy := i # busy c\<rparr>)"
  using assms by (auto simp: closing_ok_def)

lemma closing_ok_answers [simp]: "closing_ok d (c\<lparr>answers_left := os\<rparr>) = closing_ok d c"
  by (simp add: closing_ok_def)

lemma closure_slot_answers [simp]: "closure_slot (c\<lparr>answers_left := os\<rparr>) = closure_slot c"
  by (simp add: closure_slot_def fun_eq_iff)

lemma closure_slot_busy [simp]: "closure_slot (c\<lparr>busy := B\<rparr>) = closure_slot c"
  by (simp add: closure_slot_def fun_eq_iff)


text \<open>What a call for \<open>node\<close> comes to, when it was made while the nodes \<open>B\<close> were under way.\<close>

definition finished :: "re_dfa \<Rightarrow> int list \<Rightarrow> int \<Rightarrow> bool \<Rightarrow> closing \<Rightarrow> re_node_set \<Rightarrow> closing \<Rightarrow> bool" where
  "finished d B node is_root c s c' \<longleftrightarrow> (\<exists>xs. set_rep s xs \<and> avoiding d (set B) node \<subseteq> set xs \<and> set xs \<subseteq> reach d node
     \<and> (known c' node \<longrightarrow> set xs = reach d node))
     \<and> closing_ok d c' \<and> busy c' = B \<and> (\<forall>i. is_node d i \<longrightarrow> known c i \<longrightarrow> known c' i) \<and> (is_root \<longrightarrow> known c' node)"

definition returns :: "(reg_errcode \<times> re_node_set \<times> closing) option \<Rightarrow> (re_node_set \<Rightarrow> closing \<Rightarrow> bool) \<Rightarrow> bool" where
  "returns r P \<longleftrightarrow> (\<exists>err s c. r = Some (err, s, c) \<and> (err = REG_ESPACE \<or> err = REG_NOERROR \<and> P s c))"

lemma returnsI: "r = Some (REG_NOERROR, s, c) \<Longrightarrow> P s c \<Longrightarrow> returns r P"
  by (simp add: returns_def)

lemma returns_ESPACE: "r = Some (REG_ESPACE, s, c) \<Longrightarrow> returns r P"
  by (simp add: returns_def)

lemma returns_mono:
  assumes "returns r (finished d B node is_root c1)" and "\<And>i. is_node d i \<Longrightarrow> known c i \<Longrightarrow> known c1 i"
  shows "returns r (finished d B node is_root c)"
  using assms unfolding returns_def finished_def by blast

lemma known_answers [simp]: "known (c\<lparr>answers_left := os\<rparr>) = known c"
  by (simp add: known_def fun_eq_iff)

lemma set_rep_elem: "set_rep s xs \<Longrightarrow> i < length xs \<Longrightarrow> set_elem s i = Some (xs ! i)"
  by (auto simp: set_rep_def set_elem_def mem_read_def split: option.splits)

lemma set_rep_count: "set_rep s xs \<Longrightarrow> nelem s = length xs"
  by (simp add: set_rep_def)

lemma end_closure_ok:
  assumes c: "closing_ok d c" and d: "nodes_ok d" and node: "is_node d node" and b: "busy c = node # B"
    and s: "set_rep s xs" "node \<in> set xs" "set xs \<subseteq> reach d node" "avoiding d (set B) node \<subseteq> set xs"
    and whole: "\<not> incomplete \<or> is_root \<Longrightarrow> set xs = reach d node"
  shows "returns (end_closure node is_root s incomplete c) (finished d B node is_root c)"
proof -
  have dist: "node \<notin> set B" using c b by (auto simp: closing_ok_def)
  have ne: "nelem s \<noteq> 0" using s(1,2) by (auto simp: set_rep_def)
  show ?thesis
  proof (cases "incomplete \<and> \<not> is_root")
    case True
    let ?s = "(closure_slot c node)\<lparr>nelem := 0\<rparr>"
    obtain c' where c': "store_eclosure node ?s c = Some c'" "closing_ok d c'" "busy c' = B" "closure_slot c' node = ?s"
      "\<And>j. is_node d j \<Longrightarrow> j \<noteq> node \<Longrightarrow> closure_slot c' j = closure_slot c j"
      using store_eclosure_ok [OF c d node b, of ?s] by auto
    have e: "end_closure node is_root s incomplete c = Some (REG_NOERROR, s, c')"
      using True c'(1) eclosure_at_slot [OF c d node] by (simp add: end_closure_def forget_eclosure_def)
    have "\<not> known c' node" using c'(4) by (simp add: known_def)
    moreover have "known c' i" if "is_node d i" "known c i" for i
      using that b c'(3) c'(5) [OF that(1)] by (auto simp: known_def)
    ultimately have "finished d B node is_root c s c'"
      unfolding finished_def using True s(1,3,4) c'(2,3) by (intro conjI exI [of _ xs]) blast+
    then show ?thesis by (rule returnsI [OF e])
  next
    case False
    then have all: "set xs = reach d node" using whole by blast
    obtain c' where c': "store_eclosure node s c = Some c'" "closing_ok d c'" "busy c' = B" "closure_slot c' node = s"
      "\<And>j. is_node d j \<Longrightarrow> j \<noteq> node \<Longrightarrow> closure_slot c' j = closure_slot c j"
      using store_eclosure_ok [OF c d node b, of s] s(1) all by auto
    have e: "end_closure node is_root s incomplete c = Some (REG_NOERROR, s, c')" using False c'(1) by (auto simp: end_closure_def)
    have "known c' node" using c'(3,4) ne dist by (simp add: known_def)
    moreover have "known c' i" if "is_node d i" "known c i" for i
      using that b c'(3) c'(5) [OF that(1)] by (auto simp: known_def)
    ultimately have "finished d B node is_root c s c'"
      unfolding finished_def using s(1,3,4) all c'(2,3) by (intro conjI exI [of _ xs]) blast+
    then show ?thesis by (rule returnsI [OF e])
  qed
qed

text \<open>The loop over the destinations, given that the calls it makes do what they should.\<close>

lemma expand_ok:
  assumes d: "closable d" and node: "is_node d node" and eps: "IS_EPSILON_NODE (tok_type (token d node))"
    and el: "set_rep (slot (edests d) node) el" and root: "is_root \<Longrightarrow> B = []"
    and calls: "\<And>c j. closing_ok d c \<Longrightarrow> busy c = node # B \<Longrightarrow> is_node d j \<Longrightarrow> j \<notin> set (node # B) \<Longrightarrow> \<not> known c j \<Longrightarrow>
      returns (closure_steps (Enter j False) c) (finished d (node # B) j False c)"
  shows "closing_ok d c \<Longrightarrow> busy c = node # B \<Longrightarrow> i \<le> length el \<Longrightarrow> set_rep s xs \<Longrightarrow> node \<in> set xs \<Longrightarrow> set xs \<subseteq> reach d node \<Longrightarrow>
    (\<And>k. k < i \<Longrightarrow> el ! k \<notin> set (node # B) \<Longrightarrow> avoiding d (set (node # B)) (el ! k) \<subseteq> set xs) \<Longrightarrow>
    (\<And>k. k < i \<Longrightarrow> \<not> incomplete \<Longrightarrow> reach d (el ! k) \<subseteq> set xs) \<Longrightarrow>
    returns (closure_steps (Expand node is_root i s incomplete) c) (finished d B node is_root c)"
proof (induction "length el - i" arbitrary: c i s xs incomplete rule: less_induct)
  case less
  note c = less.prems(1) and b = less.prems(2) and s = less.prems(4)
  have nok: "nodes_ok d" using d by (simp add: closable_def)
  have edges: "edest_set d node = set el" by (rule edest_set_slot [OF nok node el])
  have succ: "(node, j) \<in> eps d \<longleftrightarrow> j \<in> set el" for j using eps edges by (simp add: eps_def)
  have eds: "block_at (edests (closed_dfa c)) node = Some (slot (edests d) node)"
  proof -
    obtain es where es: "edests d = Live es" "length es = nodes_alloc d" using nok unfolding nodes_ok_def by blast
    show ?thesis unfolding closing_fields(1) [OF c] by (rule block_at_slot [OF es nok node])
  qed
  show ?case
  proof (cases "i = length el")
    case True
    have e: "closure_steps (Expand node is_root i s incomplete) c = end_closure node is_root s incomplete c"
      using eds set_rep_count [OF el] True by (subst closure_steps.simps) simp
    have dist: "node \<notin> set B" using c b by (auto simp: closing_ok_def)
    have av: "avoiding d (set B) node \<subseteq> set xs"
    proof -
      have "avoiding d (insert node (set B)) j \<subseteq> set xs" if "(node, j) \<in> eps d" "j \<notin> insert node (set B)" for j
        using less.prems(7) that True unfolding succ by (auto simp: in_set_conv_nth)
      then show ?thesis using avoiding_unfold [OF dist, of d] less.prems(5) by blast
    qed
    have "set xs = reach d node" if "\<not> incomplete \<or> is_root"
    proof (cases "is_root")
      case True
      then show ?thesis using av root avoiding_empty less.prems(6) by auto
    next
      case False
      then have "\<not> incomplete" using that by simp
      then have "reach d j \<subseteq> set xs" if "(node, j) \<in> eps d" for j
        using that less.prems(8) True unfolding succ by (auto simp: in_set_conv_nth)
      then have "insert node (\<Union>j \<in> {j. (node, j) \<in> eps d}. reach d j) \<subseteq> set xs" using less.prems(5) by blast
      then have "reach d node \<subseteq> set xs" by (subst reach_unfold)
      then show ?thesis using less.prems(6) by blast
    qed
    then show ?thesis unfolding e using end_closure_ok [OF c nok node b s less.prems(5,6) av] by blast
  next
    case False
    then have lt: "i < length el" using less.prems(3) by simp
    let ?j = "el ! i"
    have inel: "?j \<in> set el" using lt by simp
    have j: "is_node d ?j"
    proof -
      obtain el' where "set_rep (slot (edests d) node) el'" "\<forall>j \<in> set el'. is_node d j" using d node unfolding closable_def by blast
      moreover have "el' = el" using \<open>set_rep (slot (edests d) node) el'\<close> el by (auto simp: set_rep_def split: option.splits)
      ultimately show ?thesis using inel by blast
    qed
    have rj: "reach d ?j \<subseteq> reach d node" by (rule reach_step) (simp add: succ inel)
    have step: "closure_steps (Expand node is_root i s incomplete) c =
        do { p \<leftarrow> progress_of c ?j;
             if p = Under_way then closure_steps (Expand node is_root (Suc i) s True) c
             else
               do { (err, t, c) \<leftarrow> (case p of Known t \<Rightarrow> Some (REG_NOERROR, t, c) | _ \<Rightarrow> closure_steps (Enter ?j False) c);
                    if err \<noteq> REG_NOERROR then Some (err, s, c)
                    else
                      do { (err, s, os) \<leftarrow> node_set_merge s (Some t) (answers_left c);
                           let c = c\<lparr>answers_left := os\<rparr>;
                           if err \<noteq> REG_NOERROR then Some (err, s, c)
                           else
                             do { p \<leftarrow> progress_of c ?j;
                                  closure_steps (Expand node is_root (Suc i) s (incomplete \<or> p = Unknown)) c } } } }"
      using eds set_rep_count [OF el] lt set_rep_elem [OF el lt] by (subst closure_steps.simps) simp
    have prog: "progress_of c2 ?j = Some (if ?j \<in> set (busy c2) then Under_way
        else if nelem (closure_slot c2 ?j) = 0 then Unknown else Known (closure_slot c2 ?j))" if "closing_ok d c2" for c2
      by (rule progress_of_slot [OF that nok j])
    show ?thesis
    proof (cases "?j \<in> set (node # B)")
      case True
      have e: "closure_steps (Expand node is_root i s incomplete) c = closure_steps (Expand node is_root (Suc i) s True) c"
        unfolding step prog [OF c] using True b by simp
      have "avoiding d (set (node # B)) (el ! k) \<subseteq> set xs" if "k < Suc i" "el ! k \<notin> set (node # B)" for k
        using that less.prems(7) True by (cases "k = i") auto
      then show ?thesis unfolding e
        by (intro less.hyps [OF _ c b _ s less.prems(5,6)]) (use lt in auto)
    next
      case False
      have go: "returns (do { (err, s, os) \<leftarrow> node_set_merge s (Some t) (answers_left c2);
                           let c = c2\<lparr>answers_left := os\<rparr>;
                           if err \<noteq> REG_NOERROR then Some (err, s, c)
                           else
                             do { p \<leftarrow> progress_of c ?j;
                                  closure_steps (Expand node is_root (Suc i) s (incomplete \<or> p = Unknown)) c } })
          (finished d B node is_root c)"
        if c2: "closing_ok d c2" "busy c2 = node # B" and t: "set_rep t ys" "avoiding d (set (node # B)) ?j \<subseteq> set ys"
          "set ys \<subseteq> reach d ?j" "known c2 ?j \<Longrightarrow> set ys = reach d ?j"
          and mono: "\<And>i. is_node d i \<Longrightarrow> known c i \<Longrightarrow> known c2 i" for c2 t ys
      proof -
        from node_set_merge_ok [OF s t(1), of "answers_left c2"] consider
            s' os where "node_set_merge s (Some t) (answers_left c2) = Some (REG_ESPACE, s', os)"
          | s' os zs where "node_set_merge s (Some t) (answers_left c2) = Some (REG_NOERROR, s', os)" "set_rep s' zs" "set zs = set xs \<union> set ys"
          unfolding holds_def by blast
        then show ?thesis
        proof cases
          case 1
          then show ?thesis by (intro returns_ESPACE) simp
        next
          case 2
          let ?c = "c2\<lparr>answers_left := os\<rparr>"
          have ok: "closing_ok d ?c" "busy ?c = node # B" using c2 by simp_all
          have un: "progress_of ?c ?j = Some Unknown \<longleftrightarrow> \<not> known c2 ?j"
            using prog [OF ok(1)] False c2(2) by (simp add: known_def)
          have nu: "progress_of ?c ?j = Some (if known c2 ?j then Known (closure_slot c2 ?j) else Unknown)"
            using prog [OF ok(1)] False c2(2) by (simp add: known_def)
          have "returns (closure_steps (Expand node is_root (Suc i) s' (incomplete \<or> \<not> known c2 ?j)) ?c) (finished d B node is_root ?c)"
          proof (rule less.hyps [OF _ ok _ 2(2)])
            show "length el - Suc i < length el - i" "Suc i \<le> length el" using lt by simp_all
            show "node \<in> set zs" "set zs \<subseteq> reach d node" using 2(3) less.prems(5,6) t(3) rj by auto
            show "avoiding d (set (node # B)) (el ! k) \<subseteq> set zs" if "k < Suc i" "el ! k \<notin> set (node # B)" for k
              using that less.prems(7) [of k] t(2) 2(3) by (cases "k = i") auto
            show "reach d (el ! k) \<subseteq> set zs" if "k < Suc i" "\<not> (incomplete \<or> \<not> known c2 ?j)" for k
              using that less.prems(8) [of k] t(4) 2(3) by (cases "k = i") auto
          qed
          then have fin: "returns (closure_steps (Expand node is_root (Suc i) s' (incomplete \<or> \<not> known c2 ?j)) ?c) (finished d B node is_root c)"
            by (rule returns_mono) (simp add: mono)
          have "(incomplete \<or> (if known c2 ?j then Known (closure_slot c2 ?j) else Unknown) = Unknown) = (incomplete \<or> \<not> known c2 ?j)" by simp
          then show ?thesis using fin 2(1) nu by simp
        qed
      qed
      show ?thesis
      proof (cases "known c ?j")
        case True
        obtain ys where ys: "set_rep (closure_slot c ?j) ys" "set ys = reach d ?j" using known_reach [OF c j True] by blast
        have "progress_of c ?j = Some (Known (closure_slot c ?j))" using prog [OF c] True by (simp add: known_def)
        then show ?thesis unfolding step
          using go [OF c b ys(1)] ys(2) avoiding_reach by simp
      next
        case nk: False
        have p: "progress_of c ?j = Some Unknown" using prog [OF c] nk False b by (simp add: known_def)
        from calls [OF c b j False nk] obtain err t c2 where r: "closure_steps (Enter ?j False) c = Some (err, t, c2)"
          "err = REG_ESPACE \<or> err = REG_NOERROR \<and> finished d (node # B) ?j False c t c2" by (auto simp: returns_def)
        show ?thesis
        proof (cases "err = REG_ESPACE")
          case True
          then show ?thesis unfolding step p using r(1) by (intro returns_ESPACE) simp
        next
          case False
          then have f: "err = REG_NOERROR" "finished d (node # B) ?j False c t c2" using r(2) by simp_all
          from f(2) obtain ys where ys: "set_rep t ys" "avoiding d (set (node # B)) ?j \<subseteq> set ys" "set ys \<subseteq> reach d ?j"
            "known c2 ?j \<longrightarrow> set ys = reach d ?j" and c2: "closing_ok d c2" "busy c2 = node # B"
            "\<And>i. is_node d i \<Longrightarrow> known c i \<Longrightarrow> known c2 i" unfolding finished_def by blast
          show ?thesis unfolding step p using go [OF c2(1,2) ys(1,2,3) _ c2(3)] ys(4) r(1) f(1) by simp
        qed
      qed
    qed
  qed
qed


lemma node_set_alloc_any:
  obtains s os' where "node_set_alloc n os = Some (REG_ESPACE, s, os')"
  | os' where "node_set_alloc n os = Some (REG_NOERROR, \<lparr>set_alloc = n, nelem = 0, elems = Some (replicate n idx_garbage)\<rparr>, os')"
proof -
  obtain ok os' where "alloc os = (ok, os')" by force
  then show thesis using that by (cases ok) (auto simp: node_set_alloc_def re_malloc_def)
qed

lemma enter_ok:
  assumes d: "closable d"
  shows "closing_ok d c \<Longrightarrow> is_node d node \<Longrightarrow> node \<notin> set (busy c) \<Longrightarrow> \<not> known c node \<Longrightarrow> (is_root \<Longrightarrow> busy c = []) \<Longrightarrow>
    returns (closure_steps (Enter node is_root) c) (finished d (busy c) node is_root c)"
proof (induction "nodes_len d - length (busy c)" arbitrary: c node is_root rule: less_induct)
  case less
  note c = less.prems(1) and node = less.prems(2)
  have nok: "nodes_ok d" using d by (simp add: closable_def)
  obtain el where el: "set_rep (slot (edests d) node) el" "\<forall>j \<in> set el. is_node d j" and con: "constraint (token d node) = 0"
    using d node unfolding closable_def by blast
  obtain es where es: "edests d = Live es" "length es = nodes_alloc d" using nok unfolding nodes_ok_def by blast
  have eds: "block_at (edests (closed_dfa c)) node = Some (slot (edests d) node)"
    unfolding closing_fields(1) [OF c] by (rule block_at_slot [OF es nok node])
  let ?n = "nelem (slot (edests d) node) + 1"
  show ?case
  proof (cases rule: node_set_alloc_any [of ?n "answers_left c"])
    case (1 s os)
    then show ?thesis using eds by (intro returns_ESPACE) (subst closure_steps.simps, simp)
  next
    case (2 os)
    let ?s = "\<lparr>set_alloc = ?n, nelem = 1, elems = Some (node # replicate (?n - 1) idx_garbage)\<rparr>"
    let ?c = "c\<lparr>busy := node # busy c, answers_left := os\<rparr>"
    have c1: "closing_ok d ?c" using enter_busy [OF c node less.prems(3)] by simp
    have s: "set_rep ?s [node]" by (simp add: set_rep_def)
    have at: "eclosure_at (c\<lparr>answers_left := os\<rparr>) node = Some (closure_slot c node)"
      using eclosure_at_slot [of d "c\<lparr>answers_left := os\<rparr>" node] c nok node by simp
    have na: "node_at (closed_dfa c) node = Some (token d node)"
      using closing_fields(4) [OF c] node_at_token [OF nok node] by simp
    have step: "closure_steps (Enter node is_root) c =
        (if IS_EPSILON_NODE (tok_type (token d node)) then closure_steps (Expand node is_root 0 ?s False) ?c
         else end_closure node is_root ?s False ?c)"
      using eds 2 at na con by (subst closure_steps.simps) (simp add: mem_write_1 Let_def)
    have know: "known ?c i \<longleftrightarrow> i \<noteq> node \<and> known c i" for i by (auto simp: known_def closure_slot_def)
    have fin: "returns r (finished d (busy c) node is_root ?c) \<Longrightarrow> returns r (finished d (busy c) node is_root c)" for r
      using less.prems(4) unfolding returns_def finished_def know by blast
    have av: "avoiding d (set (busy c)) node \<subseteq> {node}" if "\<not> IS_EPSILON_NODE (tok_type (token d node))"
      using avoiding_unfold [OF less.prems(3), of d] that by (auto simp: eps_def)
    have re: "reach d node = {node}" if "\<not> IS_EPSILON_NODE (tok_type (token d node))"
      using reach_unfold [of d node] that by (auto simp: eps_def)
    have small: "length (busy c) < nodes_len d"
    proof -
      have b: "distinct (node # busy c)" "\<forall>i \<in> set (node # busy c). is_node d i" using c1 by (auto simp: closing_ok_def)
      have "inj_on nat (set (node # busy c))"
      proof (rule inj_onI)
        fix x y assume "x \<in> set (node # busy c)" "y \<in> set (node # busy c)" "nat x = nat y"
        then show "x = y" using b(2) unfolding is_node_def by (metis eq_nat_nat_iff)
      qed
      moreover have "nat ` set (node # busy c) \<subseteq> {..<nodes_len d}" using b(2) by (auto simp: is_node_def)
      ultimately have "card (set (node # busy c)) \<le> nodes_len d" using card_inj_on_le [of nat _ "{..<nodes_len d}"] by fastforce
      then show ?thesis using distinct_card [OF b(1)] by simp
    qed
    show ?thesis
    proof (cases "IS_EPSILON_NODE (tok_type (token d node))")
      case True
      have "returns (closure_steps (Expand node is_root 0 ?s False) ?c) (finished d (busy c) node is_root ?c)"
      proof (rule expand_ok [OF d node True el(1) less.prems(5) _ c1 _ _ s])
        show "returns (closure_steps (Enter j False) c2) (finished d (node # busy c) j False c2)"
          if "closing_ok d c2" "busy c2 = node # busy c" "is_node d j" "j \<notin> set (node # busy c)" "\<not> known c2 j" for c2 j
          using less.hyps [of c2 j False] that small by simp
      qed simp_all
      then show ?thesis unfolding step using True fin by simp
    next
      case False
      have "returns (end_closure node is_root ?s False ?c) (finished d (busy c) node is_root ?c)"
        by (rule end_closure_ok [OF c1 nok node _ s]) (use av [OF False] re [OF False] in simp_all)
      then show ?thesis unfolding step using False fin by simp
    qed
  qed
qed

text \<open>The main loop.\<close>

lemma calc_loop_ok:
  assumes d: "closable d"
  shows "closing_ok d c \<Longrightarrow> busy c = [] \<Longrightarrow> (\<And>i. i < k \<Longrightarrow> known c (int i)) \<Longrightarrow> k \<le> nodes_len d \<Longrightarrow>
    \<exists>err c'. calc_eclosure_loop k False c = Some (err, c') \<and> (err = REG_ESPACE \<or> err = REG_NOERROR \<and> closing_ok d c' \<and> busy c' = []
      \<and> (\<forall>i. is_node d i \<longrightarrow> known c' i))"
proof (induction "nodes_len d - k" arbitrary: k c rule: less_induct)
  case less
  note c = less.prems(1) and b = less.prems(2)
  have nok: "nodes_ok d" using d by (simp add: closable_def)
  have len: "nodes_len (closed_dfa c) = nodes_len d" by (rule closing_fields(2) [OF c])
  show ?case
  proof (cases "k = nodes_len d")
    case True
    have "calc_eclosure_loop k False c = Some (REG_NOERROR, c)" using True len by (subst calc_eclosure_loop.simps) simp
    moreover have "known c i" if "is_node d i" for i using less.prems(3) [of "nat i"] that True by (simp add: is_node_def)
    ultimately show ?thesis using c b by blast
  next
    case False
    then have k: "k < nodes_len d" "is_node d (int k)" using less.prems(4) by (simp_all add: is_node_def)
    have step: "calc_eclosure_loop k False c =
      do { p \<leftarrow> progress_of c (int k);
           if p \<noteq> Unknown then calc_eclosure_loop (Suc k) False c
           else do { (err, s, c) \<leftarrow> closure_steps (Enter (int k) True) c;
                     if err \<noteq> REG_NOERROR then Some (err, c)
                     else do { p \<leftarrow> progress_of c (int k); calc_eclosure_loop (Suc k) (False \<or> p = Unknown) c } } }"
      using False len by (subst calc_eclosure_loop.simps) simp
    have prog: "progress_of c2 (int k) = Some (if known c2 (int k) then Known (closure_slot c2 (int k)) else Unknown)"
      if "closing_ok d c2" "busy c2 = []" for c2
      using progress_of_slot [OF that(1) nok k(2)] that(2) by (simp add: known_def)
    have rest: "\<exists>err c'. calc_eclosure_loop (Suc k) False c2 = Some (err, c') \<and> (err = REG_ESPACE \<or> err = REG_NOERROR \<and> closing_ok d c' \<and> busy c' = []
        \<and> (\<forall>i. is_node d i \<longrightarrow> known c' i))"
      if c2: "closing_ok d c2" "busy c2 = []" "\<And>i. i \<le> k \<Longrightarrow> known c2 (int i)" for c2
      by (rule less.hyps [OF _ c2(1,2)]) (use k c2(3) in auto)
    show ?thesis
    proof (cases "known c (int k)")
      case True
      have "known c (int i)" if "i \<le> k" for i using that True less.prems(3) [of i] by (cases "i = k") auto
      then show ?thesis unfolding step using prog [OF c b] True rest [OF c b] by simp
    next
      case False
      have "int k \<notin> set (busy c)" using b by simp
      from enter_ok [OF d c k(2) this False, of True, OF b] obtain err s c2 where r: "closure_steps (Enter (int k) True) c = Some (err, s, c2)"
        "err = REG_ESPACE \<or> err = REG_NOERROR \<and> finished d (busy c) (int k) True c s c2" by (auto simp: returns_def)
      show ?thesis
      proof (cases "err = REG_ESPACE")
        case True
        then show ?thesis unfolding step using prog [OF c b] False r(1) by simp
      next
        case ne: False
        then have f: "err = REG_NOERROR" "closing_ok d c2" "busy c2 = []" "\<And>i. is_node d i \<Longrightarrow> known c i \<Longrightarrow> known c2 i" "known c2 (int k)"
          using r(2) b unfolding finished_def by auto
        have "known c2 (int i)" if "i \<le> k" for i
          using that f(4) [of "int i"] f(5) less.prems(3) [of i] k(1) by (cases "i = k") (auto simp: is_node_def)
        then show ?thesis unfolding step using prog [OF c b] False r(1) f(1) prog [OF f(2,3)] f(5) rest [OF f(2,3)] by simp
      qed
    qed
  qed
qed


definition no_closures :: "re_dfa \<Rightarrow> bool" where
  "no_closures d \<longleftrightarrow> (\<exists>ecs. eclosures d = Live ecs \<and> length ecs = nodes_alloc d \<and> (\<forall>i < nodes_len d. nelem (ecs ! i) = 0))"

text \<open>The closures of \<open>d\<close> are those of its nodes.\<close>

definition closures_ok :: "re_dfa \<Rightarrow> bool" where
  "closures_ok d \<longleftrightarrow> (\<exists>ecs. eclosures d = Live ecs \<and> length ecs = nodes_alloc d
     \<and> (\<forall>i < nodes_len d. \<exists>xs. set_rep (ecs ! i) xs \<and> set xs = reach d (int i)))"

lemma reach_eclosures [simp]: "reach (d\<lparr>eclosures := b\<rparr>) = reach d"
proof -
  have "token (d\<lparr>eclosures := b\<rparr>) = token d" by (simp add: token_def tokens_def node_at_def fun_eq_iff)
  moreover have "edest_set (d\<lparr>eclosures := b\<rparr>) = edest_set d" by (simp add: edest_set_def fun_eq_iff)
  ultimately show ?thesis by (simp add: reach_def eps_def fun_eq_iff)
qed

lemma closing_start:
  assumes "no_closures d"
  shows "closing_ok d \<lparr>closed_dfa = d, busy = [], answers_left = os\<rparr>"
proof -
  obtain ecs where e: "eclosures d = Live ecs" "length ecs = nodes_alloc d" "\<forall>i < nodes_len d. nelem (ecs ! i) = 0"
    using assms unfolding no_closures_def by blast
  have "d = d\<lparr>eclosures := Live ecs\<rparr>" using e(1) by simp
  then show ?thesis using e(2,3) unfolding closing_ok_def by (intro exI [of _ ecs]) (simp add: is_node_def)
qed

lemma closing_end:
  assumes "closing_ok d c" and "\<forall>i. is_node d i \<longrightarrow> known c i" and "busy c = []"
  shows "\<exists>b. closed_dfa c = d\<lparr>eclosures := b\<rparr> \<and> closures_ok (closed_dfa c)"
proof -
  obtain ecs where e: "closed_dfa c = d\<lparr>eclosures := Live ecs\<rparr>" "length ecs = nodes_alloc d"
    using assms(1) unfolding closing_ok_def by blast
  have "\<exists>xs. set_rep (ecs ! i) xs \<and> set xs = reach d (int i)" if "i < nodes_len d" for i
  proof -
    have n: "is_node d (int i)" using that by (simp add: is_node_def)
    have k: "known c (int i)" using assms(2) n by blast
    have "closure_slot c (int i) = ecs ! i" using e(1) by (simp add: closure_slot_def slot_def)
    then show ?thesis using known_reach [OF assms(1) n k] by simp
  qed
  then have "closures_ok (closed_dfa c)" using e unfolding closures_ok_def by simp
  then show ?thesis using e(1) by blast
qed

text \<open>C27: \<open>calc_eclosure\<close> ends on every automaton without anchors, circular ones too, and unless memory runs out it stores
  as the closure of each node exactly the nodes that can be reached from it along epsilon edges, sorted and without
  repetition; nothing else of the automaton is changed.\<close>

theorem closures_are_reachability:
  assumes "closable d" and "no_closures d"
  shows "\<exists>err d' os'. calc_eclosure d os = Some (err, d', os') \<and> (err = REG_ESPACE \<or> err = REG_NOERROR \<and>
    (\<exists>b. d' = d\<lparr>eclosures := b\<rparr>) \<and> closures_ok d')"
proof -
  obtain err c where r: "calc_eclosure_loop 0 False \<lparr>closed_dfa = d, busy = [], answers_left = os\<rparr> = Some (err, c)"
    "err = REG_ESPACE \<or> err = REG_NOERROR \<and> closing_ok d c \<and> busy c = [] \<and> (\<forall>i. is_node d i \<longrightarrow> known c i)"
    using calc_loop_ok [OF assms(1) closing_start [OF assms(2), of os], where k = 0] by auto
  then show ?thesis using closing_end [of d c] by (auto simp: calc_eclosure_def)
qed

section \<open>The converse\<close>

definition sets_ok :: "nat \<Rightarrow> re_node_set list \<Rightarrow> (nat \<Rightarrow> int set) \<Rightarrow> bool" where
  "sets_ok n sets F \<longleftrightarrow> length sets = n \<and> (\<forall>i < n. \<exists>zs. set_rep (sets ! i) zs \<and> set zs = F i)"

lemma set_rep_nth_less: "set_rep s xs \<Longrightarrow> i < j \<Longrightarrow> j < length xs \<Longrightarrow> xs ! i < xs ! j"
  by (simp add: set_rep_def sorted_wrt_nth_less)

lemma sets_ok_update:
  assumes "sets_ok n sets F" and "x < n" and "set_rep t zs" and "set zs = A"
  shows "sets_ok n (sets[x := t]) (F(x := A))"
  using assms by (auto simp: sets_ok_def nth_list_update)

lemma inv_elems_ok:
  assumes s: "set_rep s xs" and nodes: "\<And>x. x \<in> set xs \<Longrightarrow> 0 \<le> x \<and> nat x < n"
  shows "idx + m = length xs \<Longrightarrow> sets_ok n sets F \<Longrightarrow> (\<And>k y. idx \<le> k \<Longrightarrow> k < length xs \<Longrightarrow> y \<in> F (nat (xs ! k)) \<Longrightarrow> y < src) \<Longrightarrow>
    \<exists>err sets' os'. inv_elems src s idx m sets os = Some (err, sets', os') \<and> (err = REG_ESPACE \<or> err = REG_NOERROR \<and>
      sets_ok n sets' (\<lambda>i. if int i \<in> set (drop idx xs) then insert src (F i) else F i))"
proof (induction m arbitrary: idx sets F os)
  case 0
  then show ?case by simp
next
  case (Suc m)
  let ?x = "xs ! idx"
  have lt: "idx < length xs" using Suc.prems(1) by simp
  have x: "0 \<le> ?x" "nat ?x < n" using nodes [of ?x] lt by simp_all
  have len: "length sets = n" using Suc.prems(2) by (simp add: sets_ok_def)
  obtain zs where zs: "set_rep (sets ! nat ?x) zs" "set zs = F (nat ?x)" using Suc.prems(2) x(2) by (auto simp: sets_ok_def)
  have less: "y < src" if "y \<in> set zs" for y using Suc.prems(3) [of idx y] lt that zs(2) by simp
  from node_set_insert_last_ok [OF zs(1) less, of os] obtain ok t os1 where
    r: "node_set_insert_last (sets ! nat ?x) src os = Some (ok, t, os1)" "ok \<Longrightarrow> \<exists>ws. set_rep t ws \<and> set ws = insert src (set zs)"
    unfolding holds_if_def by blast
  have step: "inv_elems src s idx (Suc m) sets os =
      (if \<not> ok then Some (REG_ESPACE, sets[nat ?x := t], os1) else inv_elems src s (Suc idx) m (sets[nat ?x := t]) os1)"
    using set_rep_elem [OF s lt] x len r(1) by (simp add: mem_read_def)
  show ?case
  proof (cases ok)
    case True
    then obtain ws where ws: "set_rep t ws" "set ws = insert src (F (nat ?x))" using r(2) zs(2) by blast
    let ?F = "F(nat ?x := insert src (F (nat ?x)))"
    have ok': "sets_ok n (sets[nat ?x := t]) ?F" by (rule sets_ok_update [OF Suc.prems(2) x(2) ws])
    have other: "nat (xs ! k) \<noteq> nat ?x" if "Suc idx \<le> k" "k < length xs" for k
      using set_rep_nth_less [OF s, of idx k] that x(1) by simp
    have "\<exists>err sets' os'. inv_elems src s (Suc idx) m (sets[nat ?x := t]) os1 = Some (err, sets', os') \<and>
        (err = REG_ESPACE \<or> err = REG_NOERROR \<and> sets_ok n sets' (\<lambda>i. if int i \<in> set (drop (Suc idx) xs) then insert src (?F i) else ?F i))"
    proof (rule Suc.IH [OF _ ok'])
      show "y < src" if "Suc idx \<le> k" "k < length xs" "y \<in> ?F (nat (xs ! k))" for k y
        using Suc.prems(3) [of k y] other [OF that(1,2)] that by simp
    qed (use Suc.prems(1) in simp)
    moreover have "(if int i \<in> set (drop (Suc idx) xs) then insert src (?F i) else ?F i) =
        (if int i \<in> set (drop idx xs) then insert src (F i) else F i)" for i
    proof -
      have "drop idx xs = ?x # drop (Suc idx) xs" using lt by (simp add: Cons_nth_drop_Suc)
      then show ?thesis using x(1) by auto
    qed
    ultimately show ?thesis unfolding step using True by simp
  qed (use step in simp)
qed

lemma reach_nodes:
  assumes d: "closable d" and i: "is_node d i" and j: "j \<in> reach d i"
  shows "is_node d j"
proof -
  have "(i, j) \<in> (eps d)\<^sup>*" using j by (simp add: reach_def)
  then show ?thesis
  proof (induction rule: rtrancl_induct)
    case (step y z)
    have n: "nodes_ok d" using d by (simp add: closable_def)
    obtain el where el: "set_rep (slot (edests d) y) el" "\<forall>j \<in> set el. is_node d j" using d step.IH unfolding closable_def by blast
    then show ?case using step.hyps(2) edest_set_slot [OF n step.IH el(1)] by (simp add: eps_def)
  qed (rule i)
qed

lemma inv_sources_ok:
  assumes d: "closable d" and cl: "closures_ok d"
  shows "src + m = nodes_len d \<Longrightarrow> sets_ok (nodes_len d) sets (\<lambda>i. {j. \<exists>k < src. j = int k \<and> int i \<in> reach d (int k)}) \<Longrightarrow>
    \<exists>err sets' os'. inv_sources d src m sets os = Some (err, sets', os') \<and> (err = REG_ESPACE \<or> err = REG_NOERROR \<and>
      sets_ok (nodes_len d) sets' (\<lambda>i. {j. \<exists>k < nodes_len d. j = int k \<and> int i \<in> reach d (int k)}))"
proof (induction m arbitrary: src sets os)
  case 0
  then show ?case by simp
next
  case (Suc m)
  let ?F = "\<lambda>i. {j. \<exists>k < src. j = int k \<and> int i \<in> reach d (int k)}"
  have lt: "src < nodes_len d" using Suc.prems(1) by simp
  obtain ecs where e: "eclosures d = Live ecs" "length ecs = nodes_alloc d"
    "\<And>i. i < nodes_len d \<Longrightarrow> \<exists>xs. set_rep (ecs ! i) xs \<and> set xs = reach d (int i)" using cl unfolding closures_ok_def by blast
  obtain xs where xs: "set_rep (ecs ! src) xs" "set xs = reach d (int src)" using e(3) [OF lt] by blast
  have nok: "nodes_ok d" using d by (simp add: closable_def)
  have n: "is_node d (int src)" using lt by (simp add: is_node_def)
  have at: "block_at (eclosures d) (int src) = Some (ecs ! src)"
    using block_at_slot [OF e(1,2) nok n] e(1) by (simp add: slot_def)
  have nodes: "0 \<le> x \<and> nat x < nodes_len d" if "x \<in> set xs" for x
    using reach_nodes [OF d n] that xs(2) by (auto simp: is_node_def)
  have "\<exists>err sets' os'. inv_elems (int src) (ecs ! src) 0 (length xs) sets os = Some (err, sets', os') \<and> (err = REG_ESPACE \<or> err = REG_NOERROR \<and>
      sets_ok (nodes_len d) sets' (\<lambda>i. if int i \<in> set (drop 0 xs) then insert (int src) (?F i) else ?F i))"
    by (rule inv_elems_ok [OF xs(1) nodes _ Suc.prems(2)]) auto
  then obtain err sets' os' where r: "inv_elems (int src) (ecs ! src) 0 (length xs) sets os = Some (err, sets', os')"
    "err = REG_ESPACE \<or> err = REG_NOERROR \<and> sets_ok (nodes_len d) sets' (\<lambda>i. if int i \<in> set xs then insert (int src) (?F i) else ?F i)"
    by auto
  have step: "inv_sources d src (Suc m) sets os = (if err \<noteq> REG_NOERROR then Some (err, sets', os') else inv_sources d (Suc src) m sets' os')"
    using at r(1) set_rep_count [OF xs(1)] by simp
  show ?case
  proof (cases "err = REG_ESPACE")
    case False
    have "(if int i \<in> set xs then insert (int src) (?F i) else ?F i) = {j. \<exists>k < Suc src. j = int k \<and> int i \<in> reach d (int k)}" for i
      unfolding xs(2) by (auto simp: less_Suc_eq)
    then have "sets_ok (nodes_len d) sets' (\<lambda>i. {j. \<exists>k < Suc src. j = int k \<and> int i \<in> reach d (int k)})" using r(2) False by simp
    then show ?thesis unfolding step using Suc.IH [of "Suc src"] Suc.prems(1) r(2) False by simp
  qed (use step in simp)
qed


text \<open>C28: \<open>calc_inveclosure\<close> fills, unless memory runs out, the inverse closure of each node with exactly the nodes from
  whose closures it can be reached, sorted and without repetition.\<close>

theorem inverse_closures_are_the_converse:
  assumes "closable d" and "closures_ok d"
  shows "\<exists>err sets os'. calc_inveclosure d os = Some (err, sets, os') \<and> (err = REG_ESPACE \<or> err = REG_NOERROR \<and>
    length sets = nodes_len d \<and> (\<forall>i < nodes_len d. \<exists>zs. set_rep (sets ! i) zs \<and> set zs = {j. is_node d j \<and> int i \<in> reach d j}))"
proof -
  have "set_rep init_empty []" by (simp add: set_rep_def init_empty_def)
  then have "sets_ok (nodes_len d) (replicate (nodes_len d) init_empty) (\<lambda>i. {j. \<exists>k < 0. j = int k \<and> int i \<in> reach d (int k)})"
    by (auto simp: sets_ok_def)
  then obtain err sets' os' where r: "calc_inveclosure d os = Some (err, sets', os')" "err = REG_ESPACE \<or> err = REG_NOERROR \<and>
      sets_ok (nodes_len d) sets' (\<lambda>i. {j. \<exists>k < nodes_len d. j = int k \<and> int i \<in> reach d (int k)})"
    using inv_sources_ok [OF assms, of 0 "nodes_len d"] unfolding calc_inveclosure_def by fastforce
  have "{j. \<exists>k < nodes_len d. j = int k \<and> int i \<in> reach d (int k)} = {j. is_node d j \<and> int i \<in> reach d j}" for i
    by (auto simp: is_node_def intro: exI [of _ "nat _"])
  then show ?thesis using r unfolding sets_ok_def by auto
qed

section \<open>An example\<close>

text \<open>A repetition that goes on at itself or at the end.\<close>

definition loop_dfa :: re_dfa where
  "loop_dfa = \<lparr>dfa_nodes = Live [blank_token OP_DUP_ASTERISK, blank_token END_OF_RE], nodes_alloc = 2, nodes_len = 2,
     nexts = Live [1, -1], org_indices = Live [0, 0],
     edests = Live [\<lparr>set_alloc = 2, nelem = 2, elems = Some [0, 1]\<rparr>, init_empty], eclosures = Live [init_empty, init_empty],
     state_table = [], state_hash_mask = 0, mb_cur_max = 1, heap = []\<rparr>"

lemma loop_nodes: "is_node loop_dfa i \<longleftrightarrow> i = 0 \<or> i = 1"
  by (auto simp: is_node_def loop_dfa_def)

lemma loop_closable: "closable loop_dfa"
proof -
  have "nodes_ok loop_dfa" by (simp add: nodes_ok_def loop_dfa_def)
  moreover have "constraint (token loop_dfa i) = 0 \<and> (\<exists>el. set_rep (slot (edests loop_dfa) i) el \<and> (\<forall>j \<in> set el. is_node loop_dfa j))"
    if "is_node loop_dfa i" for i
  proof -
    from that consider "i = 0" | "i = 1" using loop_nodes by blast
    then show ?thesis
    proof cases
      case 1
      have "set_rep (slot (edests loop_dfa) i) [0, 1]" unfolding 1 by (simp add: set_rep_def slot_def loop_dfa_def)
      then show ?thesis using 1 loop_nodes by (auto simp: token_def node_at_def mem_read_def loop_dfa_def blank_token_def)
    next
      case 2
      have "set_rep (slot (edests loop_dfa) i) []" unfolding 2 by (simp add: set_rep_def slot_def loop_dfa_def init_empty_def)
      then show ?thesis using 2 by (auto simp: token_def node_at_def mem_read_def loop_dfa_def blank_token_def)
    qed
  qed
  ultimately show ?thesis unfolding closable_def by blast
qed

lemma loop_no_closures: "no_closures loop_dfa"
  by (simp add: no_closures_def loop_dfa_def less_Suc_eq init_empty_def numeral_2_eq_2)

lemma loop_eps: "eps loop_dfa = {(0, 0), (0, 1)}"
proof -
  have out: "node_at loop_dfa i = None" "edest_set loop_dfa i = {}" if "i \<noteq> 0" "i \<noteq> 1" for i
    using that by (auto simp: node_at_def mem_read_def edest_set_def loop_dfa_def)
  have t: "tok_type (token loop_dfa 0) = OP_DUP_ASTERISK" "tok_type (token loop_dfa 1) = END_OF_RE"
    by (simp_all add: token_def node_at_def mem_read_def loop_dfa_def blank_token_def)
  have e: "edest_set loop_dfa 0 = {0, 1}" "edest_set loop_dfa 1 = {}"
    by (simp_all add: edest_set_def set_of_def loop_dfa_def init_empty_def)
  show ?thesis
  proof (rule set_eqI)
    fix p :: "int \<times> int"
    obtain i j where p: "p = (i, j)" by force
    show "p \<in> eps loop_dfa \<longleftrightarrow> p \<in> {(0, 0), (0, 1)}"
      unfolding p using t e out(2) [of i] by (cases "i = 0"; cases "i = 1") (auto simp: eps_def IS_EPSILON_NODE_def)
  qed
qed

lemma loop_reach: "reach loop_dfa 0 = {0, 1}" "reach loop_dfa 1 = {1}"
proof -
  show one: "reach loop_dfa 1 = {1}" by (subst reach_unfold) (simp add: loop_eps)
  have "j = 0 \<or> j = 1" if "(0, j) \<in> {(0, 0), (0, 1 :: int)}\<^sup>*" for j :: int
    using that by (induction rule: rtrancl_induct) auto
  then have "reach loop_dfa 0 \<subseteq> {0, 1}" unfolding reach_def loop_eps by blast
  moreover have "1 \<in> reach loop_dfa 0" unfolding reach_def loop_eps by blast
  ultimately show "reach loop_dfa 0 = {0, 1}" by auto
qed

theorem closures_are_reachability_witness:
  "\<exists>err d' os'. calc_eclosure loop_dfa [] = Some (err, d', os') \<and> (err = REG_ESPACE \<or> err = REG_NOERROR \<and>
     (\<exists>s xs. block_at (eclosures d') 0 = Some s \<and> set_rep s xs \<and> set xs = {0, 1}))"
proof -
  have len: "nodes_len loop_dfa = 2" "nodes_alloc loop_dfa = 2" by (simp_all add: loop_dfa_def)
  obtain err d' os' where r: "calc_eclosure loop_dfa [] = Some (err, d', os')"
    "err = REG_ESPACE \<or> err = REG_NOERROR \<and> (\<exists>b. d' = loop_dfa\<lparr>eclosures := b\<rparr>) \<and> closures_ok d'"
    using closures_are_reachability [OF loop_closable loop_no_closures, of "[]"] by blast
  have "\<exists>s xs. block_at (eclosures d') 0 = Some s \<and> set_rep s xs \<and> set xs = {0, 1}"
    if b: "d' = loop_dfa\<lparr>eclosures := b\<rparr>" and c: "closures_ok d'" for b
  proof -
    obtain ecs where e: "eclosures d' = Live ecs" "length ecs = 2"
      "\<And>i. i < 2 \<Longrightarrow> \<exists>xs. set_rep (ecs ! i) xs \<and> set xs = reach loop_dfa (int i)"
      using c len unfolding closures_ok_def b by auto
    have "\<exists>xs. set_rep (ecs ! 0) xs \<and> set xs = reach loop_dfa 0" using e(3) [of 0] by simp
    with e(1,2) have ?thesis unfolding loop_reach by (auto simp: block_at_def mem_read_def)
    then show ?thesis .
  qed
  then show ?thesis using r by blast
qed

definition closed_loop :: re_dfa where
  "closed_loop = loop_dfa\<lparr>eclosures := Live [\<lparr>set_alloc = 2, nelem = 2, elems = Some [0, 1]\<rparr>, \<lparr>set_alloc = 1, nelem = 1, elems = Some [1]\<rparr>]\<rparr>"

theorem inverse_closures_are_the_converse_witness:
  "\<exists>err sets os'. calc_inveclosure closed_loop [] = Some (err, sets, os') \<and> (err = REG_ESPACE \<or> err = REG_NOERROR \<and>
     (\<exists>zs. set_rep (sets ! 1) zs \<and> set zs = {0, 1}))"
proof -
  have len: "nodes_len closed_loop = 2" "is_node closed_loop = is_node loop_dfa" "nodes_alloc closed_loop = 2"
    by (simp_all add: closed_loop_def loop_dfa_def is_node_def fun_eq_iff)
  have re: "reach closed_loop = reach loop_dfa" by (simp add: closed_loop_def)
  have "nodes_ok closed_loop" by (simp add: nodes_ok_def closed_loop_def loop_dfa_def)
  moreover have "edests closed_loop = edests loop_dfa" "token closed_loop = token loop_dfa"
    by (simp_all add: closed_loop_def token_def node_at_def fun_eq_iff)
  ultimately have cl: "closable closed_loop" using loop_closable unfolding closable_def len(2) by simp
  have "set_rep \<lparr>set_alloc = 2, nelem = 2, elems = Some [0, 1]\<rparr> [0, 1]" "set_rep \<lparr>set_alloc = 1, nelem = 1, elems = Some [1]\<rparr> [1]"
    by (simp_all add: set_rep_def)
  then have ok: "closures_ok closed_loop" unfolding closures_ok_def re len
    using loop_reach by (simp add: closed_loop_def less_Suc_eq numeral_2_eq_2) (metis list.set(1,2))
  have "{j. is_node loop_dfa j \<and> 1 \<in> reach loop_dfa j} = {0, 1}" using loop_nodes loop_reach by auto
  moreover obtain err sets os' where r: "calc_inveclosure closed_loop [] = Some (err, sets, os')"
    "err = REG_ESPACE \<or> err = REG_NOERROR \<and> (\<forall>i < 2. \<exists>zs. set_rep (sets ! i) zs \<and> set zs = {j. is_node loop_dfa j \<and> int i \<in> reach loop_dfa j})"
    using inverse_closures_are_the_converse [OF cl ok, of "[]"] unfolding len re by blast
  ultimately have "\<exists>zs. set_rep (sets ! 1) zs \<and> set zs = {0, 1}" if "err \<noteq> REG_ESPACE"
    using that spec [of _ 1] by (metis of_nat_1 one_less_numeral_iff semiring_norm(76))
  then show ?thesis using r by blast
qed

end
