(* ===== verification/RegDuplicate.thy ===== *)
theory RegDuplicate
  imports RegVisit
begin

text \<open>
  \<open>create_token_tree\<close> and \<open>duplicate_tree\<close> of src/src/regex/regcomp.c: a copy of a tree is made of new nodes with the tokens of the
  original, and the climb over both trees, which keeps no stack, comes to an end where the way up leads nowhere to the right.
\<close>

section \<open>Creating nodes\<close>

definition adopt :: "nat option \<Rightarrow> nat \<Rightarrow> bin_tree list \<Rightarrow> bin_tree list" where
  "adopt x a ns = (case x of None \<Rightarrow> ns | Some b \<Rightarrow> ns[b := (ns ! b)\<lparr>tree_parent := Some a\<rparr>])"

lemma length_adopt [simp]: "length (adopt x a ns) = length ns"
  by (simp add: adopt_def split: option.split)

lemma adopt_None [simp]: "adopt None a ns = ns"
  by (simp add: adopt_def)

lemma adopt_other: "x \<noteq> Some i \<Longrightarrow> adopt x a ns ! i = ns ! i"
  by (cases x) (simp_all add: adopt_def)

lemma adopt_at: "b < length ns \<Longrightarrow> adopt (Some b) a ns ! b = (ns ! b)\<lparr>tree_parent := Some a\<rparr>"
  by (simp add: adopt_def)

text \<open>What creating and duplicating nodes changes of the compiler, apart from the nodes: it takes answers of the allocator.\<close>

definition only_nodes :: "compiler \<Rightarrow> compiler \<Rightarrow> bool" where
  "only_nodes c c' \<longleftrightarrow> set (pending c') \<subseteq> set (pending c) \<and> (\<exists>ns i os. c' = c\<lparr>tree_nodes := ns, storage_idx := i, pending := os\<rparr>)"

lemma only_nodes_refl [simp]: "only_nodes c c"
  unfolding only_nodes_def by (intro conjI exI [of _ "tree_nodes c"] exI [of _ "storage_idx c"] exI [of _ "pending c"]) simp_all

lemma only_nodes_trans: "only_nodes c d \<Longrightarrow> only_nodes d e \<Longrightarrow> only_nodes c e"
  unfolding only_nodes_def by (elim conjE exE) (simp, blast)

lemma only_nodes_update: "update_tree a f c = Some c' \<Longrightarrow> only_nodes c c'"
  by (cases c) (auto simp: update_tree_def tree_at_def mem_read_def only_nodes_def split: if_splits)

lemma only_nodes_fields:
  assumes "only_nodes c c'"
  shows "dfa_of c' = dfa_of c" "charsets c' = charsets c" "released c' = released c" "re_nsub c' = re_nsub c"
    "completed_bkref_map c' = completed_bkref_map c" "used_bkref_map c' = used_bkref_map c" "set (pending c') \<subseteq> set (pending c)"
  using assms by (auto simp: only_nodes_def)

lemma set_parent_adopt:
  "(case x of None \<Rightarrow> True | Some b \<Rightarrow> b < length (tree_nodes c)) \<Longrightarrow>
     set_parent x a c = Some (c\<lparr>tree_nodes := adopt x a (tree_nodes c)\<rparr>)"
  by (cases x) (simp_all add: set_parent_def adopt_def update_tree_def tree_at_def mem_read_def)

abbreviation inside :: "nat option \<Rightarrow> bin_tree list \<Rightarrow> bool" where
  "inside x ns \<equiv> (case x of None \<Rightarrow> True | Some b \<Rightarrow> b < length ns)"

definition grown_with :: "nat option \<Rightarrow> nat option \<Rightarrow> re_token \<Rightarrow> bin_tree list \<Rightarrow> bin_tree list" where
  "grown_with l r t ns = adopt r (length ns) (adopt l (length ns) (ns @ [new_tree l r t]))"

lemma length_grown_with [simp]: "length (grown_with l r t ns) = length ns + 1"
  by (simp add: grown_with_def)

lemma alloc_subset: "set (snd (alloc os)) \<subseteq> set os"
  by (cases os) auto

lemma create_cases:
  assumes "inside l (tree_nodes c)" and "inside r (tree_nodes c)"
  obtains (none) c' where "create_token_tree l r t c = Some (None, c')" "only_nodes c c'" "tree_nodes c' = tree_nodes c"
  | (some) c' where "create_token_tree l r t c = Some (Some (length (tree_nodes c)), c')" "only_nodes c c'"
      "tree_nodes c' = grown_with l r t (tree_nodes c)"
proof -
  obtain ok idx os where a: "(if storage_idx c = BIN_TREE_STORAGE_SIZE
      then let (ok, os) = alloc (pending c) in (ok, if ok then 0 else storage_idx c, os)
      else (True, storage_idx c, pending c)) = (ok, idx, os)" by (rule prod_cases3)
  have os: "set os \<subseteq> set (pending c)"
  proof (cases "storage_idx c = BIN_TREE_STORAGE_SIZE")
    case True
    then have "snd (alloc (pending c)) = os" using a by (simp add: case_prod_unfold Let_def)
    then show ?thesis using alloc_subset [of "pending c"] by simp
  qed (use a in simp)
  show ?thesis
  proof (cases ok)
    case False
    then have "create_token_tree l r t c = Some (None, c\<lparr>pending := os\<rparr>)" unfolding create_token_tree_def a by simp
    moreover have "only_nodes c (c\<lparr>pending := os\<rparr>)"
      unfolding only_nodes_def using os by (intro conjI exI [of _ "tree_nodes c"] exI [of _ "storage_idx c"] exI [of _ os]) simp_all
    ultimately show ?thesis using none by simp
  next
    case True
    let ?c = "c\<lparr>tree_nodes := tree_nodes c @ [new_tree l r t], storage_idx := idx + 1, pending := os\<rparr>"
    have l: "set_parent l (length (tree_nodes c)) ?c
        = Some (?c\<lparr>tree_nodes := adopt l (length (tree_nodes c)) (tree_nodes ?c)\<rparr>)"
      by (rule set_parent_adopt) (use assms(1) in \<open>auto split: option.splits\<close>)
    have r: "set_parent r (length (tree_nodes c)) (?c\<lparr>tree_nodes := adopt l (length (tree_nodes c)) (tree_nodes ?c)\<rparr>)
        = Some (?c\<lparr>tree_nodes := grown_with l r t (tree_nodes c)\<rparr>)"
      by (subst set_parent_adopt) (use assms(2) in \<open>auto simp: grown_with_def split: option.splits\<close>)
    have "create_token_tree l r t c = Some (Some (length (tree_nodes c)), ?c\<lparr>tree_nodes := grown_with l r t (tree_nodes c)\<rparr>)"
      unfolding create_token_tree_def a using True l r by simp
    moreover have "only_nodes c (?c\<lparr>tree_nodes := grown_with l r t (tree_nodes c)\<rparr>)"
      unfolding only_nodes_def using os
      by (intro conjI exI [of _ "grown_with l r t (tree_nodes c)"] exI [of _ "idx + 1"] exI [of _ os]) simp_all
    ultimately show ?thesis using some by simp
  qed
qed

lemma grown_with_new: "inside l ns \<Longrightarrow> inside r ns \<Longrightarrow> grown_with l r t ns ! length ns = new_tree l r t"
  by (simp add: grown_with_def adopt_other split: option.splits)

lemma grown_with_old: "i < length ns \<Longrightarrow> l \<noteq> Some i \<Longrightarrow> r \<noteq> Some i \<Longrightarrow> grown_with l r t ns ! i = ns ! i"
  by (simp add: grown_with_def adopt_other nth_append)

lemma grown_with_child: "i < length ns \<Longrightarrow> l = Some i \<or> r = Some i \<Longrightarrow>
     grown_with l r t ns ! i = (ns ! i)\<lparr>tree_parent := Some (length ns)\<rparr>"
  by (cases "l = Some i"; cases "r = Some i") (simp_all add: grown_with_def adopt_other adopt_at nth_append)

section \<open>Duplicating a tree\<close>

text \<open>The way up from a node leads to the right only where it comes from, so the climb of the duplication ends above the root.\<close>

inductive climbs_out :: "bin_tree list \<Rightarrow> nat \<Rightarrow> nat option \<Rightarrow> bool" for ns where
  top: "climbs_out ns a None"
| up: "p < length ns \<Longrightarrow> tree_right (ns ! p) = None \<or> tree_right (ns ! p) = Some a \<Longrightarrow> climbs_out ns p (tree_parent (ns ! p)) \<Longrightarrow>
     climbs_out ns a (Some p)"

lemma climb_both_at:
  "a < length (tree_nodes c) \<Longrightarrow> d < length (tree_nodes c) \<Longrightarrow> climb_both c prev a (Some d) =
     (let n = tree_nodes c ! a in
      if tree_right n = prev \<or> tree_right n = None
      then (case tree_parent n of None \<Rightarrow> Some None | Some p \<Rightarrow> climb_both c (Some a) p (tree_parent (tree_nodes c ! d)))
      else Some (Some (the (tree_right n), d)))"
  by (subst climb_both.simps) (auto simp: tree_at_def mem_read_def Let_def split: option.split)

lemma climb_both_out: "climbs_out (tree_nodes c) a (Some p) \<Longrightarrow> climb_both c (Some a) p (Some p) = Some None"
proof (induction a "Some p" arbitrary: p rule: climbs_out.induct)
  case (up p a)
  show ?case
  proof (cases "tree_parent (tree_nodes c ! p)")
    case None
    then show ?thesis using up by (auto simp: climb_both_at)
  next
    case (Some q)
    then show ?thesis using up by (auto simp: climb_both_at)
  qed
qed

text \<open>Going on after the subtree at \<open>a\<close> has been copied to the one at \<open>d\<close>.\<close>

definition dup_up :: "nat \<Rightarrow> nat \<Rightarrow> nat option \<Rightarrow> compiler \<Rightarrow> (nat option \<times> compiler) option" where
  "dup_up a d dup_root c =
     do { m \<leftarrow> (case tree_parent (tree_nodes c ! a) of None \<Rightarrow> Some None | Some p \<Rightarrow> climb_both c (Some a) p (tree_parent (tree_nodes c ! d)));
          (case m of None \<Rightarrow> Some (dup_root, c) | Some (b, d) \<Rightarrow> duplicate_loop b (Some d) (Right_of d) dup_root c) }"

definition copied :: "re_token \<Rightarrow> re_token" where
  "copied t = t\<lparr>duplicated := True, opt_subexp := False\<rparr>"

text \<open>The copy of the tree \<open>t\<close>, and what it looks like in the heap: the tokens are those of the original, marked.\<close>

definition copy_ok :: "bin_tree list \<Rightarrow> bin_tree list \<Rightarrow> nat option \<Rightarrow> nat tree \<Rightarrow> nat tree \<Rightarrow> bool" where
  "copy_ok ns ns' dpar t t' \<longleftrightarrow> (\<exists>f. t' = map_tree f t \<and> (\<forall>b \<in> set_tree t. tree_token (ns' ! f b) = copied (tree_token (ns ! b))))
     \<and> linked ns' dpar (case t' of Leaf \<Rightarrow> None | Node l a r \<Rightarrow> Some a) t' \<and> distinct_tree t'"

fun put_in :: "place \<Rightarrow> nat \<Rightarrow> bin_tree list \<Rightarrow> bin_tree list" where
  "put_in Root x ns = ns"
| "put_in (Left_of d) x ns = ns[d := (ns ! d)\<lparr>tree_left := Some x\<rparr>]"
| "put_in (Right_of d) x ns = ns[d := (ns ! d)\<lparr>tree_right := Some x\<rparr>]"

fun root_after :: "place \<Rightarrow> nat \<Rightarrow> nat option \<Rightarrow> nat option" where
  "root_after Root x rt = Some x"
| "root_after _ x rt = rt"

fun place_in :: "nat \<Rightarrow> bin_tree list \<Rightarrow> place \<Rightarrow> nat option \<Rightarrow> bool" where
  "place_in n0 ns Root dpar \<longleftrightarrow> True"
| "place_in n0 ns (Left_of d) dpar \<longleftrightarrow> n0 \<le> d \<and> d < length ns \<and> dpar = Some d"
| "place_in n0 ns (Right_of d) dpar \<longleftrightarrow> n0 \<le> d \<and> d < length ns \<and> dpar = Some d"

lemma length_put_in [simp]: "length (put_in pl x ns) = length ns"
  by (cases pl) simp_all

lemma put_in_old: "place_in n0 ns pl dpar \<Longrightarrow> i < n0 \<Longrightarrow> put_in pl x ns' ! i = ns' ! i"
  by (cases pl) auto


definition dup_next :: "nat option \<Rightarrow> nat \<Rightarrow> nat \<Rightarrow> nat option \<Rightarrow> compiler \<Rightarrow> (nat option \<times> compiler) option" where
  "dup_next prev a d rt c =
     do { m \<leftarrow> climb_both c prev a (Some d);
          (case m of None \<Rightarrow> Some (rt, c) | Some (b, d) \<Rightarrow> duplicate_loop b (Some d) (Right_of d) rt c) }"

lemma dup_next_at:
  "a < length (tree_nodes c) \<Longrightarrow> d < length (tree_nodes c) \<Longrightarrow> dup_next prev a d rt c =
     (if tree_right (tree_nodes c ! a) = prev \<or> tree_right (tree_nodes c ! a) = None then dup_up a d rt c
      else duplicate_loop (the (tree_right (tree_nodes c ! a))) (Some d) (Right_of d) rt c)"
  by (simp add: dup_next_def dup_up_def climb_both_at Let_def)

lemma dup_up_parent:
  "tree_parent (tree_nodes c ! b) = Some a \<Longrightarrow> tree_parent (tree_nodes c ! e) = Some d \<Longrightarrow> dup_up b e rt c = dup_next (Some b) a d rt c"
  by (simp add: dup_next_def dup_up_def)

definition fresh_copy :: "nat option \<Rightarrow> bin_tree \<Rightarrow> bin_tree" where
  "fresh_copy dpar n = (new_tree None None (tree_token n))\<lparr>tree_parent := dpar, tree_token := copied (tree_token n)\<rparr>"

lemma fresh_copy_fields [simp]:
  "tree_parent (fresh_copy dpar n) = dpar" "tree_left (fresh_copy dpar n) = None" "tree_right (fresh_copy dpar n) = None"
  "tree_token (fresh_copy dpar n) = copied (tree_token n)"
  by (simp_all add: fresh_copy_def new_tree_def)

lemma put_child_ok:
  assumes "place_in n0 (tree_nodes c) pl dpar"
  shows "\<exists>c'. put_child pl (Some x) rt c = Some (root_after pl x rt, c') \<and> only_nodes c c' \<and> tree_nodes c' = put_in pl x (tree_nodes c)"
proof (cases pl)
  case (Left_of d)
  then show ?thesis using assms only_nodes_update [of d "\<lambda>n. n\<lparr>tree_left := Some x\<rparr>" c]
    by (auto simp: put_child_def update_tree_def tree_at_def mem_read_def)
next
  case (Right_of d)
  then show ?thesis using assms only_nodes_update [of d "\<lambda>n. n\<lparr>tree_right := Some x\<rparr>" c]
    by (auto simp: put_child_def update_tree_def tree_at_def mem_read_def)
qed (simp add: put_child_def)

lemma put_child_none:
  assumes "place_in n0 (tree_nodes c) pl dpar"
  shows "\<exists>r c'. put_child pl None rt c = Some (r, c') \<and> only_nodes c c' \<and> length (tree_nodes c') = length (tree_nodes c)
     \<and> (\<forall>i < n0. tree_nodes c' ! i = tree_nodes c ! i)"
proof (cases pl)
  case (Left_of d)
  then show ?thesis using assms only_nodes_update [of d "\<lambda>n. n\<lparr>tree_left := None\<rparr>" c]
    by (auto simp: put_child_def update_tree_def tree_at_def mem_read_def)
next
  case (Right_of d)
  then show ?thesis using assms only_nodes_update [of d "\<lambda>n. n\<lparr>tree_right := None\<rparr>" c]
    by (auto simp: put_child_def update_tree_def tree_at_def mem_read_def)
qed (simp add: put_child_def)

lemma put_in_append: "place_in n0 ns pl dpar \<Longrightarrow> put_in pl x (ns @ ms) = put_in pl x ns @ ms"
  by (cases pl) (simp_all add: list_update_append nth_append)

lemma place_in_append: "place_in n0 ns pl dpar \<Longrightarrow> place_in n0 (ns @ ms) pl dpar"
  by (cases pl) auto

abbreviation after_node :: "nat \<Rightarrow> nat \<Rightarrow> bin_tree \<Rightarrow> nat option \<Rightarrow> compiler \<Rightarrow> (nat option \<times> compiler) option" where
  "after_node a d n rt c \<equiv> (case tree_left n of Some l \<Rightarrow> duplicate_loop l (Some d) (Left_of d) rt c | None \<Rightarrow> dup_next None a d rt c)"

lemma dup_step:
  assumes n: "tree_at c a = Some n" and pl: "place_in n0 (tree_nodes c) pl dpar"
  obtains (none) c' where "duplicate_loop a dpar pl rt c = Some (None, c')" "only_nodes c c'" "length (tree_nodes c) \<le> length (tree_nodes c')"
      "\<forall>i < n0. tree_nodes c' ! i = tree_nodes c ! i"
  | (some) c' where "duplicate_loop a dpar pl rt c = after_node a (length (tree_nodes c)) n (root_after pl (length (tree_nodes c)) rt) c'"
      "only_nodes c c'" "tree_nodes c' = put_in pl (length (tree_nodes c)) (tree_nodes c) @ [fresh_copy dpar n]"
proof -
  let ?d = "length (tree_nodes c)"
  show ?thesis
  proof (rule create_cases [where c = c and l = None and r = None and t = "tree_token n"], goal_cases)
    case none: (3 c1)
    obtain r c2 where c2: "put_child pl None rt c1 = Some (r, c2)" "only_nodes c1 c2" "length (tree_nodes c2) = length (tree_nodes c1)"
        "\<forall>i < n0. tree_nodes c2 ! i = tree_nodes c1 ! i" using put_child_none [of n0 c1 pl dpar rt] none(3) pl by auto
    have "duplicate_loop a dpar pl rt c = Some (None, c2)" by (subst duplicate_loop.simps) (simp add: n none(1) c2(1))
    then show ?thesis using that(1) [of c2] only_nodes_trans [OF none(2) c2(2)] c2(3,4) none(3) by simp
  next
    case some: (4 c1)
    have ns1: "tree_nodes c1 = tree_nodes c @ [new_tree None None (tree_token n)]" using some(3) by (simp add: grown_with_def)
    then have pl1: "place_in n0 (tree_nodes c1) pl dpar" using pl place_in_append by simp
    obtain c2 where c2: "put_child pl (Some ?d) rt c1 = Some (root_after pl ?d rt, c2)" "only_nodes c1 c2"
        "tree_nodes c2 = put_in pl ?d (tree_nodes c1)" using put_child_ok [OF pl1] by blast
    have ns2: "tree_nodes c2 = put_in pl ?d (tree_nodes c) @ [new_tree None None (tree_token n)]"
      unfolding c2(3) ns1 by (rule put_in_append [OF pl])
    let ?f = "\<lambda>m. m\<lparr>tree_parent := dpar, tree_token := (tree_token m)\<lparr>duplicated := True\<rparr>\<rparr>"
    let ?c3 = "c2\<lparr>tree_nodes := put_in pl ?d (tree_nodes c) @ [fresh_copy dpar n]\<rparr>"
    have f: "?f (new_tree None None (tree_token n)) = fresh_copy dpar n"
      by (simp add: fresh_copy_def new_tree_def copied_def)
    have up: "update_tree ?d ?f c2 = Some ?c3"
      using ns2 f by (simp add: update_tree_def tree_at_def mem_read_def nth_append list_update_append)
    have "duplicate_loop a dpar pl rt c = after_node a ?d n (root_after pl ?d rt) ?c3"
      by (subst duplicate_loop.simps) (cases "tree_left n"; simp add: n some(1) c2(1) up dup_next_def)
    then show ?thesis
      using that(2) [of ?c3] only_nodes_trans [OF some(2) only_nodes_trans [OF c2(2) only_nodes_update [OF up]]] by simp
  qed simp_all
qed

lemma linked_frame:
  "linked ns par p t \<Longrightarrow> (\<And>i. i \<in> set_tree t \<Longrightarrow> ns' ! i = ns ! i) \<Longrightarrow> length ns \<le> length ns' \<Longrightarrow> linked ns' par p t"
  by (induction t arbitrary: par p) auto

abbreviation root_at :: "nat tree \<Rightarrow> nat option" where
  "root_at t \<equiv> (case t of Leaf \<Rightarrow> None | Node l a r \<Rightarrow> Some a)"

lemma linked_root_at: "linked ns par p t \<Longrightarrow> p = root_at t"
  by (cases t) auto

text \<open>What a step of the duplication that copies \<open>t\<close> to \<open>t'\<close> makes of the nodes.\<close>

definition dup_done :: "bin_tree list \<Rightarrow> compiler \<Rightarrow> nat option \<Rightarrow> place \<Rightarrow> nat tree \<Rightarrow> compiler \<Rightarrow> nat tree \<Rightarrow> bool" where
  "dup_done ns0 c dpar pl t c' t' \<longleftrightarrow>
     (let d = length (tree_nodes c); d' = length (tree_nodes c')
      in only_nodes c c' \<and> d < d' \<and> (\<forall>i < d. tree_nodes c' ! i = put_in pl d (tree_nodes c) ! i)
         \<and> copy_ok ns0 (tree_nodes c') dpar t t' \<and> set_tree t' = {d..<d'} \<and> root_at t' = Some d)"

definition dup_failed :: "nat \<Rightarrow> compiler \<Rightarrow> compiler \<Rightarrow> bool" where
  "dup_failed n0 c c' \<longleftrightarrow> only_nodes c c' \<and> length (tree_nodes c) \<le> length (tree_nodes c') \<and> (\<forall>i < n0. tree_nodes c' ! i = tree_nodes c ! i)"

text \<open>A copied child, or none: the nodes \<open>ks\<close> are new.\<close>

definition child_copied :: "bin_tree list \<Rightarrow> bin_tree list \<Rightarrow> nat \<Rightarrow> nat tree \<Rightarrow> nat tree \<Rightarrow> nat set \<Rightarrow> bool" where
  "child_copied ns0 ns' d t t' ks \<longleftrightarrow> copy_ok ns0 ns' (Some d) t t' \<and> set_tree t' = ks"

lemma copy_ok_Leaf [simp]: "copy_ok ns0 ns' dpar Leaf t' \<longleftrightarrow> t' = Leaf"
  by (auto simp: copy_ok_def)

lemma copy_ok_frame:
  "copy_ok ns0 ns dpar t t' \<Longrightarrow> (\<And>i. i \<in> set_tree t' \<Longrightarrow> ns' ! i = ns ! i) \<Longrightarrow> length ns \<le> length ns' \<Longrightarrow> copy_ok ns0 ns' dpar t t'"
  unfolding copy_ok_def using linked_frame [of ns dpar _ t' ns'] by (auto simp: tree.set_map)

lemma copy_ok_Node:
  assumes l: "copy_ok ns0 ns' (Some d) l l'" and r: "copy_ok ns0 ns' (Some d) r r'" and d: "d < length ns'"
    and root: "tree_parent (ns' ! d) = dpar" "tree_left (ns' ! d) = root_at l'" "tree_right (ns' ! d) = root_at r'"
    and tok: "tree_token (ns' ! d) = copied (tree_token (ns0 ! a))"
    and dist: "distinct_tree (Node l a r)" "d \<notin> set_tree l'" "d \<notin> set_tree r'" "set_tree l' \<inter> set_tree r' = {}"
  shows "copy_ok ns0 ns' dpar (Node l a r) (Node l' d r')"
proof -
  obtain f g where f: "l' = map_tree f l" "\<forall>b \<in> set_tree l. tree_token (ns' ! f b) = copied (tree_token (ns0 ! b))"
    and g: "r' = map_tree g r" "\<forall>b \<in> set_tree r. tree_token (ns' ! g b) = copied (tree_token (ns0 ! b))"
    using l r by (auto simp: copy_ok_def)
  define h where "h = (\<lambda>x. if x = a then d else if x \<in> set_tree l then f x else g x)"
  have "map_tree h l = map_tree f l" by (rule tree.map_cong [OF refl]) (use dist(1) in \<open>auto simp: h_def\<close>)
  moreover have "map_tree h r = map_tree g r" by (rule tree.map_cong [OF refl]) (use dist(1) in \<open>auto simp: h_def\<close>)
  ultimately have "Node l' d r' = map_tree h (Node l a r)" using f(1) g(1) by (simp add: h_def)
  moreover have "\<forall>b \<in> set_tree (Node l a r). tree_token (ns' ! h b) = copied (tree_token (ns0 ! b))"
    using f(2) g(2) tok dist(1) by (auto simp: h_def)
  moreover have "linked ns' dpar (Some d) (Node l' d r')" using l r d root by (simp add: copy_ok_def)
  moreover have "distinct_tree (Node l' d r')" using l r dist(2-4) by (simp add: copy_ok_def)
  ultimately show ?thesis unfolding copy_ok_def by auto
qed

lemma dup_subtree:
  assumes "linked ns0 par (Some a) t" and "distinct_tree t" and "length ns0 \<le> length (tree_nodes c)"
    and "\<forall>i < length ns0. tree_nodes c ! i = ns0 ! i" and "place_in (length ns0) (tree_nodes c) pl dpar"
  shows "(\<exists>c'. duplicate_loop a dpar pl rt c = Some (None, c') \<and> dup_failed (length ns0) c c')
    \<or> (\<exists>c' t'. duplicate_loop a dpar pl rt c
          = dup_up a (length (tree_nodes c)) (root_after pl (length (tree_nodes c)) rt) c' \<and> dup_done ns0 c dpar pl t c' t')"
  using assms
proof (induction t arbitrary: par a c dpar pl rt)
  case (Node l b r)
  let ?d = "length (tree_nodes c)" and ?n0 = "length ns0"
  have b: "b = a" and a: "a < ?n0" "tree_parent (ns0 ! a) = par" using Node.prems(1) by auto
  have ll: "linked ns0 (Some a) (tree_left (ns0 ! a)) l" and lr: "linked ns0 (Some a) (tree_right (ns0 ! a)) r"
    using Node.prems(1) b by auto
  have dl: "distinct_tree l" "distinct_tree r" "set_tree l \<inter> set_tree r = {}" using Node.prems(2) by auto
  have n: "tree_at c a = Some (ns0 ! a)" using a Node.prems(3,4) by (simp add: tree_at_def mem_read_def)
  from n Node.prems(5) show ?case
  proof (rule dup_step [where rt = rt], goal_cases)
    case (1 c1)
    then show ?thesis by (intro disjI1 exI [of _ c1]) (simp add: dup_failed_def)
  next
    case step: (2 c1)
    define rt' where "rt' = root_after pl ?d rt"
    have len1: "length (tree_nodes c1) = ?d + 1" using step(3) by simp
    have at_d: "tree_nodes c1 ! ?d = fresh_copy dpar (ns0 ! a)" unfolding step(3) by (simp add: nth_append)
    have below: "tree_nodes c1 ! i = put_in pl ?d (tree_nodes c) ! i" if "i < ?d" for i unfolding step(3) using that by (simp add: nth_append)
    have old1: "tree_nodes c1 ! i = ns0 ! i" if "i < ?n0" for i
      using below [of i] put_in_old [OF Node.prems(5) that] Node.prems(3,4) that by simp
    have left: "(\<exists>c'. duplicate_loop a dpar pl rt c = Some (None, c') \<and> dup_failed ?n0 c1 c')
      \<or> (\<exists>c2 prev l'. duplicate_loop a dpar pl rt c = dup_next prev a ?d rt' c2 \<and> (tree_right (ns0 ! a) = prev \<longrightarrow> prev = None)
          \<and> only_nodes c1 c2 \<and> length (tree_nodes c1) \<le> length (tree_nodes c2) \<and> (\<forall>i < ?d. tree_nodes c2 ! i = tree_nodes c1 ! i)
          \<and> tree_nodes c2 ! ?d = (fresh_copy dpar (ns0 ! a))\<lparr>tree_left := root_at l'\<rparr>
          \<and> child_copied ns0 (tree_nodes c2) ?d l l' {length (tree_nodes c1)..<length (tree_nodes c2)})"
    proof (cases "tree_left (ns0 ! a)")
      case None
      then have l: "l = Leaf" using ll by (cases l) auto
      have dc: "duplicate_loop a dpar pl rt c = dup_next None a ?d rt' c1" using step(1) None by (simp add: rt'_def)
      have "(fresh_copy dpar (ns0 ! a))\<lparr>tree_left := None\<rparr> = fresh_copy dpar (ns0 ! a)" by (simp add: fresh_copy_def new_tree_def)
      then show ?thesis using dc at_d
        by (intro disjI2 exI [of _ c1] exI [of _ None] exI [of _ Leaf]) (simp add: l child_copied_def)
    next
      case (Some m)
      have pl1: "place_in ?n0 (tree_nodes c1) (Left_of ?d) (Some ?d)" using Node.prems(3) len1 by simp
      have eq: "duplicate_loop a dpar pl rt c = duplicate_loop m (Some ?d) (Left_of ?d) rt' c1" using step(1) Some by (simp add: rt'_def)
      have len01: "?n0 \<le> length (tree_nodes c1)" using Node.prems(3) len1 by simp
      have old1': "\<forall>i < ?n0. tree_nodes c1 ! i = ns0 ! i" using old1 by blast
      from Node.IH(1) [OF ll [unfolded Some] dl(1) len01 old1' pl1, of rt'] show ?thesis
      proof (elim disjE exE conjE)
        fix c' assume "duplicate_loop m (Some ?d) (Left_of ?d) rt' c1 = Some (None, c')" "dup_failed ?n0 c1 c'"
        then show ?thesis using eq by simp
      next
        fix c2 l' assume c2: "duplicate_loop m (Some ?d) (Left_of ?d) rt' c1 = dup_up m (length (tree_nodes c1)) (root_after (Left_of ?d) (length (tree_nodes c1)) rt') c2"
          "dup_done ns0 c1 (Some ?d) (Left_of ?d) l c2 l'"
        note dd = c2(2) [unfolded dup_done_def Let_def]
        have same: "tree_nodes c2 ! i = tree_nodes c1 ! i" if "i < length (tree_nodes c1)" "i \<noteq> ?d" for i using dd that by auto
        have lk: "linked (tree_nodes c2) (Some ?d) (Some (length (tree_nodes c1))) l'" using dd by (auto simp: copy_ok_def split: tree.splits)
        then have p: "tree_parent (tree_nodes c2 ! length (tree_nodes c1)) = Some ?d" by (cases l') auto
        have "m < ?n0" "tree_parent (ns0 ! m) = Some a" using ll Some by (cases l; simp)+
        then have "tree_parent (tree_nodes c2 ! m) = Some a" using same [of m] old1 [of m] Node.prems(3) len1 by simp
        from dup_up_parent [OF this p] have e2: "duplicate_loop a dpar pl rt c = dup_next (Some m) a ?d rt' c2" using eq c2(1) by simp
        have "m \<in> set_tree l" using ll Some by (cases l) auto
        moreover have "x \<in> set_tree r" if "tree_right (ns0 ! a) = Some x" for x using lr that by (cases r) auto
        ultimately have "Some m \<noteq> tree_right (ns0 ! a)" using dl(3) by auto
        moreover have "tree_nodes c2 ! ?d = (fresh_copy dpar (ns0 ! a))\<lparr>tree_left := root_at l'\<rparr>" using dd len1 at_d by auto
        ultimately show ?thesis using e2 dd same len1
          by (intro disjI2 exI [of _ c2] exI [of _ "Some m"] exI [of _ l']) (simp add: child_copied_def)
      qed
    qed
    from left show ?thesis
    proof (elim disjE exE conjE)
      fix c' assume "duplicate_loop a dpar pl rt c = Some (None, c')" "dup_failed ?n0 c1 c'"
      then show ?thesis using step(2) old1 Node.prems(3,4) len1 only_nodes_trans
        by (intro disjI1 exI [of _ c']) (auto simp: dup_failed_def)
    next
      fix c2 prev l' assume e2: "duplicate_loop a dpar pl rt c = dup_next prev a ?d rt' c2" "tree_right (ns0 ! a) = prev \<longrightarrow> prev = None"
        and on2: "only_nodes c1 c2" and len2: "length (tree_nodes c1) \<le> length (tree_nodes c2)"
        and below2: "\<forall>i < ?d. tree_nodes c2 ! i = tree_nodes c1 ! i"
        and at2: "tree_nodes c2 ! ?d = (fresh_copy dpar (ns0 ! a))\<lparr>tree_left := root_at l'\<rparr>"
        and left2: "child_copied ns0 (tree_nodes c2) ?d l l' {length (tree_nodes c1)..<length (tree_nodes c2)}"
      have old2: "tree_nodes c2 ! i = ns0 ! i" if "i < ?n0" for i using below2 old1 [OF that] Node.prems(3) that by simp
      have a2: "a < length (tree_nodes c2)" "?d < length (tree_nodes c2)" using a Node.prems(3) len1 len2 by simp_all
      have "dup_next prev a ?d rt' c2 = (if tree_right (ns0 ! a) = None then dup_up a ?d rt' c2
          else duplicate_loop (the (tree_right (ns0 ! a))) (Some ?d) (Right_of ?d) rt' c2)"
        unfolding dup_next_at [OF a2] old2 [OF a(1)] using e2(2) by auto
      note e3 = e2(1) [unfolded this]
      have right: "(\<exists>c'. duplicate_loop a dpar pl rt c = Some (None, c') \<and> dup_failed ?n0 c2 c')
        \<or> (\<exists>c3 r'. duplicate_loop a dpar pl rt c = dup_up a ?d rt' c3 \<and> only_nodes c2 c3 \<and> length (tree_nodes c2) \<le> length (tree_nodes c3)
            \<and> (\<forall>i < length (tree_nodes c2). i \<noteq> ?d \<longrightarrow> tree_nodes c3 ! i = tree_nodes c2 ! i)
            \<and> tree_nodes c3 ! ?d = (tree_nodes c2 ! ?d)\<lparr>tree_right := root_at r'\<rparr>
            \<and> child_copied ns0 (tree_nodes c3) ?d r r' {length (tree_nodes c2)..<length (tree_nodes c3)})"
      proof (cases "tree_right (ns0 ! a)")
        case None
        then have r: "r = Leaf" using lr by (cases r) auto
        have "(tree_nodes c2 ! ?d)\<lparr>tree_right := None\<rparr> = tree_nodes c2 ! ?d" unfolding at2 by (simp add: fresh_copy_def new_tree_def)
        then show ?thesis using e3 None by (intro disjI2 exI [of _ c2] exI [of _ Leaf]) (simp add: r child_copied_def)
      next
        case (Some m)
        have pl2: "place_in ?n0 (tree_nodes c2) (Right_of ?d) (Some ?d)" using Node.prems(3) a2 by simp
        have eq: "duplicate_loop a dpar pl rt c = duplicate_loop m (Some ?d) (Right_of ?d) rt' c2" using e3 Some by simp
        have len02: "?n0 \<le> length (tree_nodes c2)" using Node.prems(3) a2 by simp
        have old2': "\<forall>i < ?n0. tree_nodes c2 ! i = ns0 ! i" using old2 by blast
        from Node.IH(2) [OF lr [unfolded Some] dl(2) len02 old2' pl2, of rt'] show ?thesis
        proof (elim disjE exE conjE)
          fix c' assume "duplicate_loop m (Some ?d) (Right_of ?d) rt' c2 = Some (None, c')" "dup_failed ?n0 c2 c'"
          then show ?thesis using eq by simp
        next
          fix c3 r' assume c3: "duplicate_loop m (Some ?d) (Right_of ?d) rt' c2 = dup_up m (length (tree_nodes c2)) (root_after (Right_of ?d) (length (tree_nodes c2)) rt') c3"
            "dup_done ns0 c2 (Some ?d) (Right_of ?d) r c3 r'"
          note dd = c3(2) [unfolded dup_done_def Let_def]
          have same: "tree_nodes c3 ! i = tree_nodes c2 ! i" if "i < length (tree_nodes c2)" "i \<noteq> ?d" for i using dd that by auto
          have lk: "linked (tree_nodes c3) (Some ?d) (Some (length (tree_nodes c2))) r'" using dd by (auto simp: copy_ok_def split: tree.splits)
          then have p: "tree_parent (tree_nodes c3 ! length (tree_nodes c2)) = Some ?d" by (cases r') auto
          have "m < ?n0" "tree_parent (ns0 ! m) = Some a" using lr Some by (cases r; simp)+
          then have "tree_parent (tree_nodes c3 ! m) = Some a" using same [of m] old2 [of m] Node.prems(3) a2 by simp
          from dup_up_parent [OF this p] have e4: "duplicate_loop a dpar pl rt c = dup_next (Some m) a ?d rt' c3" using eq c3(1) by simp
          have a3: "a < length (tree_nodes c3)" "?d < length (tree_nodes c3)" using a2 dd by simp_all
          have "tree_nodes c3 ! a = ns0 ! a" using same [of a] old2 [of a] a a2 Node.prems(3) by simp
          then have "dup_next (Some m) a ?d rt' c3 = dup_up a ?d rt' c3" unfolding dup_next_at [OF a3] using Some by simp
          moreover have "tree_nodes c3 ! ?d = (tree_nodes c2 ! ?d)\<lparr>tree_right := root_at r'\<rparr>" using dd a2 by auto
          ultimately show ?thesis using e4 dd same by (intro disjI2 exI [of _ c3] exI [of _ r']) (simp add: child_copied_def)
        qed
      qed
      from right show ?thesis
      proof (elim disjE exE conjE)
        fix c' assume "duplicate_loop a dpar pl rt c = Some (None, c')" "dup_failed ?n0 c2 c'"
        moreover have "only_nodes c c'" if "only_nodes c2 c'" using only_nodes_trans [OF step(2) only_nodes_trans [OF on2 that]] .
        ultimately show ?thesis using old2 Node.prems(3,4) len1 len2
          by (intro disjI1 exI [of _ c']) (auto simp: dup_failed_def)
      next
        fix c3 r' assume e3: "duplicate_loop a dpar pl rt c = dup_up a ?d rt' c3" and on3: "only_nodes c2 c3"
          and len3: "length (tree_nodes c2) \<le> length (tree_nodes c3)"
          and same3: "\<forall>i < length (tree_nodes c2). i \<noteq> ?d \<longrightarrow> tree_nodes c3 ! i = tree_nodes c2 ! i"
          and at3: "tree_nodes c3 ! ?d = (tree_nodes c2 ! ?d)\<lparr>tree_right := root_at r'\<rparr>"
          and right3: "child_copied ns0 (tree_nodes c3) ?d r r' {length (tree_nodes c2)..<length (tree_nodes c3)}"
        have on: "only_nodes c c3" by (rule only_nodes_trans [OF step(2) only_nodes_trans [OF on2 on3]])
        have lset: "set_tree l' = {?d + 1..<length (tree_nodes c2)}" and rset: "set_tree r' = {length (tree_nodes c2)..<length (tree_nodes c3)}"
          using left2 right3 len1 by (simp_all add: child_copied_def)
        have lcopy: "copy_ok ns0 (tree_nodes c3) (Some ?d) l l'"
          by (rule copy_ok_frame [of _ "tree_nodes c2"]) (use left2 lset same3 len3 in \<open>auto simp: child_copied_def\<close>)
        have rcopy: "copy_ok ns0 (tree_nodes c3) (Some ?d) r r'" using right3 by (simp add: child_copied_def)
        have copy: "copy_ok ns0 (tree_nodes c3) dpar (Node l b r) (Node l' ?d r')"
          unfolding b
        proof (rule copy_ok_Node [OF lcopy rcopy])
          show "?d < length (tree_nodes c3)" using a2 len3 by simp
          show "distinct_tree (Node l a r)" using Node.prems(2) b by simp
        qed (use at3 at2 lset rset a2 in auto)
        have below3: "\<forall>i < ?d. tree_nodes c3 ! i = put_in pl ?d (tree_nodes c) ! i" using below below2 same3 len1 len2 by simp
        have "set_tree (Node l' ?d r') = {?d..<length (tree_nodes c3)}" using lset rset a2 len3 by auto
        then have "dup_done ns0 c dpar pl (Node l b r) c3 (Node l' ?d r')"
          unfolding dup_done_def Let_def using on below3 copy a2 len3 by simp
        then show ?thesis using e3 by (intro disjI2 exI [of _ c3] exI [of _ "Node l' ?d r'"]) (simp add: rt'_def)
      qed
    qed
  qed
qed simp


text \<open>A whole duplication: the copy hangs from the parent of the original, which does not point back to it.\<close>

lemma duplicate_tree_ok:
  assumes lk: "linked (tree_nodes c) par (Some a) t" and d: "distinct_tree t" and out: "climbs_out (tree_nodes c) a par"
  obtains (none) c' where "duplicate_tree a c = Some (None, c')" "only_nodes c c'" "length (tree_nodes c) \<le> length (tree_nodes c')"
      "\<forall>i < length (tree_nodes c). tree_nodes c' ! i = tree_nodes c ! i"
  | (some) c' t' where "duplicate_tree a c = Some (Some (length (tree_nodes c)), c')" "only_nodes c c'"
      "length (tree_nodes c) < length (tree_nodes c')" "\<forall>i < length (tree_nodes c). tree_nodes c' ! i = tree_nodes c ! i"
      "copy_ok (tree_nodes c) (tree_nodes c') par t t'" "set_tree t' = {length (tree_nodes c)..<length (tree_nodes c')}"
      "root_at t' = Some (length (tree_nodes c))"
proof -
  let ?ns = "tree_nodes c" and ?d = "length (tree_nodes c)"
  have a: "a < ?d" "tree_parent (?ns ! a) = par" using lk linked_root [OF lk] by auto
  have e: "duplicate_tree a c = duplicate_loop a par Root None c" using a by (simp add: duplicate_tree_def tree_at_def mem_read_def)
  have pl: "place_in (length ?ns) ?ns Root par" by simp
  have self: "\<forall>i < ?d. ?ns ! i = ?ns ! i" by simp
  from dup_subtree [OF lk d order_refl self pl, of None] show ?thesis
  proof (elim disjE exE conjE)
    fix c' assume "duplicate_loop a par Root None c = Some (None, c')" "dup_failed ?d c c'"
    then show ?thesis using none [of c'] e by (simp add: dup_failed_def)
  next
    fix c' t' assume c': "duplicate_loop a par Root None c = dup_up a ?d (root_after Root ?d None) c'" "dup_done ?ns c par Root t c' t'"
    note dd = c'(2) [unfolded dup_done_def Let_def]
    have old: "\<forall>i < ?d. tree_nodes c' ! i = ?ns ! i" using dd by simp
    have lk': "linked (tree_nodes c') par (Some ?d) t'" using dd by (auto simp: copy_ok_def split: tree.splits)
    then have pd: "tree_parent (tree_nodes c' ! ?d) = par" using linked_root [OF lk'] by auto
    have pa: "tree_parent (tree_nodes c' ! a) = par" using a old by simp
    have out': "climbs_out (tree_nodes c') b q" if "climbs_out ?ns b q" for b q
      using that by induction (use old dd in \<open>auto intro!: climbs_out.intros\<close>)
    have "dup_up a ?d (Some ?d) c' = Some (Some ?d, c')"
    proof (cases par)
      case None
      then show ?thesis using pa by (simp add: dup_up_def)
    next
      case (Some p)
      then show ?thesis using pa pd climb_both_out [OF out' [OF out, unfolded Some]] by (simp add: dup_up_def)
    qed
    then show ?thesis using some [of c' t'] c'(1) e dd old by simp
  qed
qed

end
