(* ===== verification/RegShape.thy ===== *)
theory RegShape
  imports RegDuplicate Bitset
begin

text \<open>
  The structure trees that the parser of src/src/regex/regcomp.c makes: what their nodes are (\<open>typed\<close>, \<open>shaped\<close>), that their nodes
  are their own and hold no set that has been released (\<open>sub_ok\<close>), and that joining trees keeps this. The visits \<open>free_tree\<close> and
  \<open>mark_opt_subexp\<close> may start inside of a tree.
\<close>

section \<open>Visits that start inside a tree\<close>

text \<open>What \<open>postorder\<close> visits when it starts at \<open>a\<close> inside of \<open>t\<close>: the subtree and then the rest of the way up.\<close>

fun post_from :: "nat \<Rightarrow> nat tree \<Rightarrow> nat list" where
  "post_from a Leaf = []"
| "post_from a (Node l b r) =
     (if a = b then Tree.postorder (Node l b r)
      else if a \<in> set_tree l then post_from a l @ Tree.postorder r @ [b] else post_from a r @ [b])"

lemma post_from_set: "set (post_from a t) \<subseteq> set_tree t"
  by (induction t) (auto simp: set_postorder)

lemma distinct_post: "distinct_tree t \<Longrightarrow> distinct (Tree.postorder t)"
  by (induction t) auto

lemma post_from_distinct: "distinct_tree t \<Longrightarrow> distinct (post_from a t)"
proof (induction t)
  case (Node l b r)
  then have "distinct (post_from a l)" "distinct (post_from a r)" "distinct (Tree.postorder r)" "distinct (Tree.postorder (Node l b r))"
    using distinct_post [of "Node l b r"] by auto
  then show ?case using post_from_set [of a l] post_from_set [of a r] Node.prems by auto
qed simp

context tree_pass
begin

lemma post_up_left:
  assumes lk: "linked (tree_nodes c) par (Some a) (Node (Node l1 b l2) a r)" and d: "distinct_tree (Node (Node l1 b l2) a r)"
  shows "post_up fn b c = and_then (visit_all fn (Tree.postorder r) c) (postorder_loop fn False a)"
proof -
  from linked_at [OF lk] obtain n where n: "tree_at c a = Some n" "linked (tree_nodes c) (Some a) (tree_left n) (Node l1 b l2)"
    "linked (tree_nodes c) (Some a) (tree_right n) r" by blast
  from linked_at [of c "Some a" "tree_left n" l1 b l2] n(2) obtain m where m: "tree_at c b = Some m" "tree_parent m = Some a" by auto
  show ?thesis
  proof (cases "tree_right n")
    case None
    then have "r = Leaf" using n(3) linked_None by fastforce
    then show ?thesis using m n(1) None by (simp add: post_up_def)
  next
    case (Some b')
    then have "b' \<in> set_tree r" using n(3) linked_root by fastforce
    then have "b' \<noteq> b" using d by auto
    then have "post_up fn b c = postorder_loop fn True b' c" using m n(1) Some by (simp add: post_up_def)
    also have "\<dots> = and_then (visit_all fn (Tree.postorder r) c) (postorder_loop fn False a)"
      by (rule postorder_right [OF postorder_subtree lk _ n(1) Some]) (use d in auto)
    finally show ?thesis .
  qed
qed

lemma post_up_right:
  assumes lk: "linked (tree_nodes c) par (Some a) (Node l a (Node r1 b r2))"
  shows "post_up fn b c = postorder_loop fn False a c"
proof -
  from linked_at [OF lk] obtain n where n: "tree_at c a = Some n" "linked (tree_nodes c) (Some a) (tree_right n) (Node r1 b r2)" by blast
  then have rb: "tree_right n = Some b" by simp
  from linked_at [of c "Some a" "tree_right n" r1 b r2] n(2) obtain m where m: "tree_at c b = Some m" "tree_parent m = Some a" by auto
  then show ?thesis using n rb by (simp add: post_up_def)
qed

lemma postorder_from:
  "linked (tree_nodes c) par (Some b) t \<Longrightarrow> distinct_tree t \<Longrightarrow> a \<in> set_tree t \<Longrightarrow>
     postorder_loop fn True a c = and_then (visit_all fn (post_from a t) c) (post_up fn b)"
proof (induction t arbitrary: par b c)
  case (Node l x r)
  have x: "x = b" using Node.prems(1) by simp
  have lk: "linked (tree_nodes c) par (Some b) (Node l b r)" using Node.prems(1) x by simp
  have last: "postorder_loop fn False b = (\<lambda>c1. and_then (visit_all fn [b] c1) (post_up fn b))"
    by (rule ext) (simp add: postorder_loop_up visit_all_Nil)
  have later: "linked (tree_nodes c1) par (Some b) (Node l b r)" if "visit_all fn as c = Some (REG_NOERROR, c1)" for as c1
    using linked_links [OF visit_all_links [OF that]] lk by blast
  consider "a = b" | "a \<noteq> b" "a \<in> set_tree l" | "a \<noteq> b" "a \<notin> set_tree l" "a \<in> set_tree r" using Node.prems(3) x by auto
  then show ?case
  proof cases
    case 1
    then show ?thesis using postorder_subtree [OF lk] Node.prems(2) x by simp
  next
    case 2
    obtain l1 b' l2 where l: "l = Node l1 b' l2" using 2(2) by (cases l) auto
    have "linked (tree_nodes c) (Some b) (Some b') l" using lk l by auto
    from Node.IH(1) [OF this _ 2(2)] have "postorder_loop fn True a c = and_then (visit_all fn (post_from a l) c) (post_up fn b')"
      using Node.prems(2) by simp
    also have "\<dots> = and_then (visit_all fn (post_from a l) c) (\<lambda>c1. and_then (visit_all fn (Tree.postorder r) c1) (postorder_loop fn False b))"
      by (rule and_then_cong [OF refl], rule post_up_left [OF later [unfolded l]]) (use Node.prems(2) x l in auto)
    finally show ?thesis using 2 x by (simp add: last visit_all_append and_then_assoc)
  next
    case 3
    obtain r1 b' r2 where r: "r = Node r1 b' r2" using 3(3) by (cases r) auto
    have "linked (tree_nodes c) (Some b) (Some b') r" using lk r by auto
    from Node.IH(2) [OF this _ 3(3)] have "postorder_loop fn True a c = and_then (visit_all fn (post_from a r) c) (post_up fn b')"
      using Node.prems(2) by simp
    also have "\<dots> = and_then (visit_all fn (post_from a r) c) (postorder_loop fn False b)"
      by (rule and_then_cong [OF refl], rule post_up_right [OF later [unfolded r]])
    finally show ?thesis using 3 x by (simp add: last visit_all_append and_then_assoc)
  qed
qed simp

lemma post_up_top: "linked (tree_nodes c) None (Some b) t \<Longrightarrow> post_up fn b c = Some (REG_NOERROR, c)"
proof -
  assume lk: "linked (tree_nodes c) None (Some b) t"
  then obtain l r where "t = Node l b r" using linked_root by blast
  with linked_at [of c None "Some b" l b r] lk show "post_up fn b c = Some (REG_NOERROR, c)" by (auto simp: post_up_def)
qed

lemma visit_from:
  assumes "linked (tree_nodes c) None (Some b) t" and "distinct_tree t" and "a \<in> set_tree t"
  shows "visit_postorder fn a c = visit_all fn (post_from a t) c"
proof -
  have "visit_postorder fn a c = and_then (visit_all fn (post_from a t) c) (post_up fn b)"
    unfolding visit_postorder_def by (rule postorder_from [OF assms])
  also have "\<dots> = and_then (visit_all fn (post_from a t) c) (\<lambda>c1. Some (REG_NOERROR, c1))"
  proof (rule and_then_cong [OF refl])
    fix c1 assume "visit_all fn (post_from a t) c = Some (REG_NOERROR, c1)"
    then show "post_up fn b c1 = Some (REG_NOERROR, c1)"
      using post_up_top linked_links [OF visit_all_links] assms(1) by blast
  qed
  finally show ?thesis by simp
qed

text \<open>A copy that hangs beside the right child \<open>b\<close> of its parent: the visit goes on in the tree of the parent.\<close>

lemma visit_beside:
  assumes t: "linked (tree_nodes c) (Some q) (Some a) t" "distinct_tree t"
    and big: "linked (tree_nodes c) None (Some q) (Node l q (Node r1 b r2))" "distinct_tree (Node l q (Node r1 b r2))" and ab: "a \<noteq> b"
  shows "visit_postorder fn a c = visit_all fn (Tree.postorder t @ post_from b (Node l q (Node r1 b r2))) c"
proof -
  let ?big = "Node l q (Node r1 b r2)"
  have "visit_postorder fn a c = and_then (visit_all fn (Tree.postorder t) c) (post_up fn a)"
    unfolding visit_postorder_def by (rule postorder_subtree [OF t refl])
  also have "\<dots> = and_then (visit_all fn (Tree.postorder t) c) (visit_all fn (post_from b ?big))"
  proof (rule and_then_cong [OF refl])
    fix c1 assume v: "visit_all fn (Tree.postorder t) c = Some (REG_NOERROR, c1)"
    have t1: "linked (tree_nodes c1) (Some q) (Some a) t" and big1: "linked (tree_nodes c1) None (Some q) ?big"
      using linked_links [OF visit_all_links [OF v]] t(1) big(1) by blast+
    obtain t2 t3 where tt: "t = Node t2 a t3" using linked_root [OF t1] by blast
    from linked_at [OF t1 [unfolded tt]] obtain m where m: "tree_at c1 a = Some m" "tree_parent m = Some q" by blast
    from linked_at [OF big1] obtain n where n: "tree_at c1 q = Some n" "linked (tree_nodes c1) (Some q) (tree_right n) (Node r1 b r2)" by blast
    have "post_up fn a c1 = postorder_loop fn True b c1" using m n ab by (simp add: post_up_def)
    also have "\<dots> = visit_all fn (post_from b ?big) c1" using visit_from [OF big1 big(2)] by (simp add: visit_postorder_def)
    finally show "post_up fn a c1 = visit_all fn (post_from b ?big) c1" .
  qed
  finally show ?thesis by (simp add: visit_all_append)
qed

end

section \<open>Well-formed trees\<close>

text \<open>The operand a node's token has, by its type; there are \<open>cs\<close> multibyte sets and \<open>subs\<close> subexpressions.\<close>

fun operand_ok :: "nat \<Rightarrow> nat \<Rightarrow> token_opr \<Rightarrow> re_token_type \<Rightarrow> bool" where
  "operand_ok cs subs (Char_opr c) ty \<longleftrightarrow> ty = CHARACTER \<or> ty = OP_PERIOD"
| "operand_ok cs subs (Ctx_type w) ty \<longleftrightarrow> ty = ANCHOR"
| "operand_ok cs subs (Idx_opr i) ty \<longleftrightarrow> ty = OP_BACK_REF \<and> 0 \<le> i \<and> i \<le> 8 \<or> ty = SUBEXP \<and> 0 \<le> i \<and> i < int subs"
| "operand_ok cs subs (Sbcset ws) ty \<longleftrightarrow> ty = SIMPLE_BRACKET \<and> length ws = BITSET_WORDS"
| "operand_ok cs subs (Mbcset i) ty \<longleftrightarrow> ty = COMPLEX_BRACKET \<and> i < cs"

definition typed :: "nat \<Rightarrow> nat \<Rightarrow> re_token \<Rightarrow> bool" where
  "typed cs subs t \<longleftrightarrow> tok_type t \<in> {CONCAT, OP_ALT, OP_DUP_ASTERISK} \<or> operand_ok cs subs (opr t) (tok_type t)"

definition fits :: "re_token_type \<Rightarrow> nat tree \<Rightarrow> nat tree \<Rightarrow> bool" where
  "fits ty l r \<longleftrightarrow> (if ty = CONCAT then l \<noteq> Leaf \<and> r \<noteq> Leaf
     else if ty = OP_DUP_ASTERISK then l \<noteq> Leaf \<and> r = Leaf
     else if ty = SUBEXP then r = Leaf
     else ty = OP_ALT \<or> l = Leaf \<and> r = Leaf)"

lemma fits_map [simp]: "fits ty (map_tree f l) (map_tree f r) = fits ty l r"
  by (simp add: fits_def)

text \<open>\<open>shaped\<close>: the operands, and with \<open>k\<close> also that each node has the children its type calls for.\<close>

fun shaped :: "bool \<Rightarrow> bin_tree list \<Rightarrow> nat \<Rightarrow> nat \<Rightarrow> nat tree \<Rightarrow> bool" where
  "shaped k ns cs subs Leaf \<longleftrightarrow> True"
| "shaped k ns cs subs (Node l a r) \<longleftrightarrow> shaped k ns cs subs l \<and> shaped k ns cs subs r \<and> typed cs subs (tree_token (ns ! a))
     \<and> (k \<longrightarrow> fits (tok_type (tree_token (ns ! a))) l r)"

definition same_token :: "re_token \<Rightarrow> re_token \<Rightarrow> bool" where
  "same_token t u \<longleftrightarrow> tok_type u = tok_type t \<and> opr u = opr t"

lemma typed_same: "same_token t u \<Longrightarrow> typed cs subs u = typed cs subs t"
  by (simp add: typed_def same_token_def)

lemma operand_ok_mono: "operand_ok cs subs x ty \<Longrightarrow> cs \<le> cs' \<Longrightarrow> subs \<le> subs' \<Longrightarrow> operand_ok cs' subs' x ty"
  by (cases x) auto

lemma typed_mono: "typed cs subs t \<Longrightarrow> cs \<le> cs' \<Longrightarrow> subs \<le> subs' \<Longrightarrow> typed cs' subs' t"
  using operand_ok_mono [of cs subs "opr t" "tok_type t" cs' subs'] unfolding typed_def by blast

lemma shaped_map:
  "shaped k ns cs subs t \<Longrightarrow> (\<And>b. b \<in> set_tree t \<Longrightarrow> same_token (tree_token (ns ! b)) (tree_token (ns' ! f b))) \<Longrightarrow> shaped k ns' cs subs (map_tree f t)"
proof (induction t)
  case (Node l a r)
  have s: "same_token (tree_token (ns ! a)) (tree_token (ns' ! f a))" using Node.prems(2) by simp
  have "typed cs subs (tree_token (ns' ! f a)) = typed cs subs (tree_token (ns ! a))" by (rule typed_same [OF s])
  moreover have "tok_type (tree_token (ns' ! f a)) = tok_type (tree_token (ns ! a))" using s by (simp add: same_token_def)
  ultimately show ?case using Node by (simp add: Let_def)
qed simp

lemma shaped_frame:
  "shaped k ns cs subs t \<Longrightarrow> (\<And>b. b \<in> set_tree t \<Longrightarrow> same_token (tree_token (ns ! b)) (tree_token (ns' ! b))) \<Longrightarrow> shaped k ns' cs subs t"
  using shaped_map [of k ns cs subs t ns' "\<lambda>b. b"] by (simp add: tree.map_ident)

lemma shaped_mono: "shaped k ns cs subs t \<Longrightarrow> cs \<le> cs' \<Longrightarrow> subs \<le> subs' \<Longrightarrow> shaped k ns cs' subs' t"
  by (induction t) (auto simp: typed_mono)

lemma same_copied [simp]: "same_token t (copied t)"
  by (simp add: same_token_def copied_def)

lemma same_token_refl [simp]: "same_token t t"
  by (simp add: same_token_def)

lemma shaped_copy: "copy_ok ns ns' dpar t t' \<Longrightarrow> shaped k ns cs subs t \<Longrightarrow> shaped k ns' cs subs t'"
  unfolding copy_ok_def by (auto intro!: shaped_map)

definition charsets_ok :: "compiler \<Rightarrow> bool" where
  "charsets_ok c \<longleftrightarrow> (\<forall>m \<in> set (charsets c). \<not> ranges_freed m)"

text \<open>The nodes from \<open>p\<close> down are the tree \<open>t\<close>, whose nodes are from \<open>n0\<close> on, and no set of the tree has been released.\<close>

definition sub_ok :: "bool \<Rightarrow> nat \<Rightarrow> compiler \<Rightarrow> nat option \<Rightarrow> nat option \<Rightarrow> nat tree \<Rightarrow> bool" where
  "sub_ok k n0 c par p t \<longleftrightarrow> linked (tree_nodes c) par p t \<and> distinct_tree t \<and> set_tree t \<subseteq> {n0..}
     \<and> shaped k (tree_nodes c) (length (charsets c)) (re_nsub c) t \<and> set_tree t \<inter> set (released c) = {}"

abbreviation tree_ok :: "nat \<Rightarrow> compiler \<Rightarrow> nat option \<Rightarrow> nat tree \<Rightarrow> bool" where
  "tree_ok n0 c p t \<equiv> sub_ok True n0 c None p t"

definition heap_ok :: "compiler \<Rightarrow> bool" where
  "heap_ok c \<longleftrightarrow> charsets_ok c \<and> set (released c) \<subseteq> {..<length (tree_nodes c)}"

lemma linked_inside: "linked ns par p t \<Longrightarrow> a \<in> set_tree t \<Longrightarrow> a < length ns"
  by (induction t arbitrary: par p) auto

lemma shaped_typed: "shaped k ns cs subs t \<Longrightarrow> a \<in> set_tree t \<Longrightarrow> typed cs subs (tree_token (ns ! a))"
  by (induction t) auto

section \<open>Releasing and marking\<close>

lemma free_token_links: "free_token a t c = Some c' \<Longrightarrow> tree_nodes c' = tree_nodes c"
  by (cases "charset_at (opr t) c"; auto simp: free_token_def release_def free_charset_def split: if_splits)

interpretation ft_pass: tree_pass free_tree
proof
  fix a c e c' assume "free_tree a c = Some (e, c')"
  then show "links c' = links c"
    using free_token_links by (cases "tree_at c a"; auto simp: free_tree_def links_def elim!: bind_eq_Some_conv [THEN iffD1, elim_format])
qed

lemma free_token_ok:
  assumes "typed (length (charsets c)) subs t" and "charsets_ok c" and "a \<notin> set (released c)"
  shows "\<exists>rs. free_token a t c = Some (c\<lparr>released := rs @ released c\<rparr>) \<and> set rs \<subseteq> {a}"
proof (cases "tok_type t \<in> {COMPLEX_BRACKET, SIMPLE_BRACKET} \<and> \<not> duplicated t")
  case True
  have "\<exists>m. charset_at (opr t) c = Some m \<and> free_charset m = Some ()" if "tok_type t = COMPLEX_BRACKET"
    using assms(1,2) that by (auto simp: typed_def charset_at_def mem_read_def charsets_ok_def free_charset_def split: token_opr.splits)
  then have "free_token a t c = Some (c\<lparr>released := [a] @ released c\<rparr>)"
    using True assms(3) by (auto simp: free_token_def release_def)
  then show ?thesis by (intro exI [of _ "[a]"]) simp
next
  case False
  then have "free_token a t c = Some (c\<lparr>released := [] @ released c\<rparr>)" by (auto simp: free_token_def)
  then show ?thesis by (intro exI [of _ "[]"]) simp
qed

lemma free_all:
  assumes "distinct as" and "\<forall>a \<in> set as. a < length (tree_nodes c) \<and> typed (length (charsets c)) subs (tree_token (tree_nodes c ! a)) \<and> a \<notin> set (released c)"
    and "charsets_ok c"
  shows "\<exists>rs. visit_all free_tree as c = Some (REG_NOERROR, c\<lparr>released := rs @ released c\<rparr>) \<and> set rs \<subseteq> set as"
  using assms
proof (induction as arbitrary: c)
  case Nil
  then show ?case by (intro exI [of _ "[]"]) simp
next
  case (Cons a as)
  have "typed (length (charsets c)) subs (tree_token (tree_nodes c ! a))" "a \<notin> set (released c)" using Cons.prems(2) by simp_all
  from free_token_ok [OF this(1) Cons.prems(3) this(2)] obtain rs where
    rs: "free_token a (tree_token (tree_nodes c ! a)) c = Some (c\<lparr>released := rs @ released c\<rparr>)" "set rs \<subseteq> {a}" by blast
  let ?c = "c\<lparr>released := rs @ released c\<rparr>"
  have f: "free_tree a c = Some (REG_NOERROR, ?c)" using Cons.prems(2) rs(1) by (simp add: free_tree_def tree_at_def mem_read_def)
  have "\<exists>rs'. visit_all free_tree as ?c = Some (REG_NOERROR, ?c\<lparr>released := rs' @ released ?c\<rparr>) \<and> set rs' \<subseteq> set as"
    by (rule Cons.IH) (use Cons.prems rs(2) in \<open>auto simp: charsets_ok_def\<close>)
  then obtain rs' where "visit_all free_tree as ?c = Some (REG_NOERROR, ?c\<lparr>released := rs' @ released ?c\<rparr>)" "set rs' \<subseteq> set as" by blast
  then show ?case using f rs(2) by (intro exI [of _ "rs' @ rs"]) auto
qed

lemma free_visit:
  assumes "sub_ok k n0 c None (Some b) t" and "charsets_ok c" and "a \<in> set_tree t"
  shows "\<exists>rs. visit_postorder free_tree a c = Some (REG_NOERROR, c\<lparr>released := rs @ released c\<rparr>) \<and> set rs \<subseteq> set_tree t"
proof -
  note t = assms(1) [unfolded sub_ok_def]
  have "\<exists>rs. visit_all free_tree (post_from a t) c = Some (REG_NOERROR, c\<lparr>released := rs @ released c\<rparr>) \<and> set rs \<subseteq> set (post_from a t)"
  proof (rule free_all [OF post_from_distinct _ assms(2)])
    show "\<forall>x \<in> set (post_from a t). x < length (tree_nodes c) \<and> typed (length (charsets c)) (re_nsub c) (tree_token (tree_nodes c ! x)) \<and> x \<notin> set (released c)"
    proof
      fix x assume "x \<in> set (post_from a t)"
      then have "x \<in> set_tree t" using post_from_set by blast
      then show "x < length (tree_nodes c) \<and> typed (length (charsets c)) (re_nsub c) (tree_token (tree_nodes c ! x)) \<and> x \<notin> set (released c)"
        using t linked_inside shaped_typed by blast
    qed
  qed (use t in simp)
  then obtain rs where "visit_all free_tree (post_from a t) c = Some (REG_NOERROR, c\<lparr>released := rs @ released c\<rparr>)" "set rs \<subseteq> set (post_from a t)" by blast
  then show ?thesis using ft_pass.visit_from [of c b t a] t assms(3) post_from_set [of a t] by (intro exI [of _ rs]) auto
qed

text \<open>Marking changes a flag of some tokens.\<close>

definition marked :: "nat set \<Rightarrow> bin_tree list \<Rightarrow> bin_tree list \<Rightarrow> bool" where
  "marked A ns ns' \<longleftrightarrow> length ns' = length ns \<and> (\<forall>i. i \<notin> A \<longrightarrow> ns' ! i = ns ! i)
     \<and> (\<forall>i < length ns. \<exists>b. ns' ! i = (ns ! i)\<lparr>tree_token := (tree_token (ns ! i))\<lparr>opt_subexp := b\<rparr>\<rparr>)"

lemma marked_refl [simp]: "marked A ns ns"
proof -
  have "n = n\<lparr>tree_token := (tree_token n)\<lparr>opt_subexp := opt_subexp (tree_token n)\<rparr>\<rparr>" for n :: bin_tree by simp
  then show ?thesis unfolding marked_def by blast
qed

lemma marked_at: "marked A ns ns' \<Longrightarrow> i < length ns \<Longrightarrow> \<exists>b. ns' ! i = (ns ! i)\<lparr>tree_token := (tree_token (ns ! i))\<lparr>opt_subexp := b\<rparr>\<rparr>"
  by (simp add: marked_def)

lemma marked_length: "marked A ns ns' \<Longrightarrow> length ns' = length ns"
  by (simp add: marked_def)

lemma marked_trans:
  assumes "marked A ns ns'" and "marked A ns' ns''"
  shows "marked A ns ns''"
proof -
  have "\<exists>b. ns'' ! i = (ns ! i)\<lparr>tree_token := (tree_token (ns ! i))\<lparr>opt_subexp := b\<rparr>\<rparr>" if i: "i < length ns" for i
  proof -
    obtain b where b: "ns' ! i = (ns ! i)\<lparr>tree_token := (tree_token (ns ! i))\<lparr>opt_subexp := b\<rparr>\<rparr>" using marked_at [OF assms(1) i] by blast
    obtain b' where "ns'' ! i = (ns' ! i)\<lparr>tree_token := (tree_token (ns' ! i))\<lparr>opt_subexp := b'\<rparr>\<rparr>" using marked_at [OF assms(2), of i] marked_length [OF assms(1)] i by auto
    then show ?thesis unfolding b by (intro exI [of _ b']) simp
  qed
  then show ?thesis using assms by (simp add: marked_def)
qed

lemma mark_step:
  assumes "a < length (tree_nodes c)" and "a \<in> A"
  shows "\<exists>c'. mark_opt_subexp i a c = Some (REG_NOERROR, c') \<and> only_nodes c c' \<and> marked A (tree_nodes c) (tree_nodes c') \<and> links c' = links c"
proof (cases "tok_type (tree_token (tree_nodes c ! a)) = SUBEXP \<and> opr (tree_token (tree_nodes c ! a)) = Idx_opr i")
  case True
  let ?f = "\<lambda>n. n\<lparr>tree_token := (tree_token n)\<lparr>opt_subexp := True\<rparr>\<rparr>"
  have "update_tree a ?f c = Some (c\<lparr>tree_nodes := (tree_nodes c)[a := ?f (tree_nodes c ! a)]\<rparr>)"
    using assms(1) by (simp add: update_tree_def tree_at_def mem_read_def)
  moreover have "marked A (tree_nodes c) ((tree_nodes c)[a := ?f (tree_nodes c ! a)])"
    unfolding marked_def
  proof (intro conjI allI impI)
    fix j assume j: "j < length (tree_nodes c)"
    show "\<exists>b. (tree_nodes c)[a := ?f (tree_nodes c ! a)] ! j = (tree_nodes c ! j)\<lparr>tree_token := (tree_token (tree_nodes c ! j))\<lparr>opt_subexp := b\<rparr>\<rparr>"
    proof (cases "j = a")
      case True
      then show ?thesis using j by (intro exI [of _ True]) simp
    next
      case False
      then show ?thesis by (intro exI [of _ "opt_subexp (tree_token (tree_nodes c ! j))"]) simp
    qed
  next
    fix j assume "j \<notin> A"
    then have "a \<noteq> j" using assms(2) by blast
    then show "(tree_nodes c)[a := ?f (tree_nodes c ! a)] ! j = tree_nodes c ! j" by simp
  qed simp
  moreover have "links (c\<lparr>tree_nodes := (tree_nodes c)[a := ?f (tree_nodes c ! a)]\<rparr>) = links c"
    using assms(1) by (simp add: links_def map_update list_update_same_conv)
  ultimately show ?thesis using True assms(1) only_nodes_update [of a ?f c]
    by (simp add: mark_opt_subexp_def tree_at_def mem_read_def)
next
  case False
  then have "mark_opt_subexp i a c = Some (REG_NOERROR, c)" using assms(1) by (auto simp: mark_opt_subexp_def tree_at_def mem_read_def)
  then show ?thesis by simp
qed

interpretation mk_pass: tree_pass "mark_opt_subexp i"
proof
  fix a c e c' assume m: "mark_opt_subexp i a c = Some (e, c')"
  have a: "a < length (tree_nodes c)"
  proof (rule ccontr)
    assume "\<not> a < length (tree_nodes c)"
    then have "mark_opt_subexp i a c = None" by (simp add: mark_opt_subexp_def tree_at_def mem_read_def)
    then show False using m by simp
  qed
  from mark_step [OF a UNIV_I, of i] m show "links c' = links c" by auto
qed

lemma mark_all:
  "\<forall>a \<in> set as. a < length (tree_nodes c) \<Longrightarrow> set as \<subseteq> A \<Longrightarrow>
     \<exists>c'. visit_all (mark_opt_subexp i) as c = Some (REG_NOERROR, c') \<and> only_nodes c c' \<and> marked A (tree_nodes c) (tree_nodes c')"
proof (induction as arbitrary: c)
  case (Cons a as)
  obtain c1 where c1: "mark_opt_subexp i a c = Some (REG_NOERROR, c1)" "only_nodes c c1" "marked A (tree_nodes c) (tree_nodes c1)"
    using mark_step [of a c A i] Cons.prems by auto
  have "\<forall>x \<in> set as. x < length (tree_nodes c1)" using Cons.prems c1(3) by (simp add: marked_def)
  with Cons.IH [of c1] Cons.prems(2) obtain c2 where "visit_all (mark_opt_subexp i) as c1 = Some (REG_NOERROR, c2)" "only_nodes c1 c2"
    "marked A (tree_nodes c1) (tree_nodes c2)" by auto
  then show ?case using c1 only_nodes_trans [OF c1(2), of c2] marked_trans [OF c1(3), of "tree_nodes c2"] by (intro exI [of _ c2]) simp
qed simp

lemma linked_marked: "marked A ns ns' \<Longrightarrow> linked ns par p t \<Longrightarrow> linked ns' par p t"
proof (induction t arbitrary: par p)
  case (Node l a r)
  from Node.prems obtain b where "ns' ! a = (ns ! a)\<lparr>tree_token := (tree_token (ns ! a))\<lparr>opt_subexp := b\<rparr>\<rparr>"
    using marked_at [of A ns ns' a] by auto
  then have "tree_parent (ns' ! a) = tree_parent (ns ! a)" "tree_left (ns' ! a) = tree_left (ns ! a)" "tree_right (ns' ! a) = tree_right (ns ! a)" by simp_all
  then show ?case using Node by (simp add: marked_def)
qed simp

lemma marked_token: "marked A ns ns' \<Longrightarrow> i < length ns \<Longrightarrow> same_token (tree_token (ns ! i)) (tree_token (ns' ! i))"
  using marked_at [of A ns ns' i] by (auto simp: same_token_def)

section \<open>Joining trees\<close>

lemma linked_reparent:
  assumes "linked ns par p t" and "distinct_tree t" and "p = Some a" and "ns' ! a = (ns ! a)\<lparr>tree_parent := par'\<rparr>"
    and "\<And>i. i \<in> set_tree t \<Longrightarrow> i \<noteq> a \<Longrightarrow> ns' ! i = ns ! i" and "length ns \<le> length ns'"
  shows "linked ns' par' p t"
proof (cases t)
  case (Node l b r)
  have "linked ns' (Some a) (tree_left (ns ! a)) l" by (rule linked_frame [of ns]) (use assms Node in auto)
  moreover have "linked ns' (Some a) (tree_right (ns ! a)) r" by (rule linked_frame [of ns]) (use assms Node in auto)
  ultimately show ?thesis using assms Node by auto
qed (use assms in simp)

lemma sub_ok_root: "sub_ok k n0 c par p t \<Longrightarrow> p = root_at t"
  using linked_root_at by (auto simp: sub_ok_def)

lemma root_in: "root_at t = Some a \<Longrightarrow> a \<in> set_tree t"
  by (cases t) auto

lemma sub_ok_inside: "sub_ok k n0 c par p t \<Longrightarrow> inside p (tree_nodes c)"
  using sub_ok_root root_in linked_inside by (fastforce simp: sub_ok_def split: option.split)

lemma sub_ok_lt: "sub_ok k n0 c par p t \<Longrightarrow> i \<in> set_tree t \<Longrightarrow> i < length (tree_nodes c)"
  using linked_inside by (auto simp: sub_ok_def)

lemma sub_ok_Leaf [simp]: "sub_ok k n0 c par p Leaf \<longleftrightarrow> p = None"
  by (simp add: sub_ok_def)

text \<open>A tree stays what it is when only other nodes change, and flags of its tokens.\<close>

lemma sub_ok_frame:
  assumes "sub_ok k n0 c par p t" and "\<And>i. i \<in> set_tree t \<Longrightarrow> tree_nodes c' ! i = tree_nodes c ! i"
    and "length (tree_nodes c) \<le> length (tree_nodes c')" and "length (charsets c) \<le> length (charsets c')" and "re_nsub c \<le> re_nsub c'"
    and "set_tree t \<inter> set (released c') = {}"
  shows "sub_ok k n0 c' par p t"
proof -
  have "shaped k (tree_nodes c') (length (charsets c)) (re_nsub c) t"
    by (rule shaped_frame [of k "tree_nodes c"]) (use assms(1,2) in \<open>auto simp: sub_ok_def\<close>)
  then have "shaped k (tree_nodes c') (length (charsets c')) (re_nsub c') t" by (rule shaped_mono) (rule assms)+
  moreover have "linked (tree_nodes c') par p t" by (rule linked_frame [of "tree_nodes c"]) (use assms(1-3) in \<open>auto simp: sub_ok_def\<close>)
  ultimately show ?thesis using assms(1,6) by (simp add: sub_ok_def)
qed

lemma sub_ok_marked:
  assumes "sub_ok k n0 c par p t" and "marked A (tree_nodes c) (tree_nodes c')" and "only_nodes c c'"
  shows "sub_ok k n0 c' par p t"
proof -
  have "shaped k (tree_nodes c') (length (charsets c)) (re_nsub c) t"
    by (rule shaped_frame [of k "tree_nodes c"])
      (use assms(1) marked_token [OF assms(2)] sub_ok_lt [OF assms(1)] in \<open>auto simp: sub_ok_def\<close>)
  then show ?thesis using assms(1) linked_marked [OF assms(2)] only_nodes_fields [OF assms(3)] by (simp add: sub_ok_def)
qed

lemma only_nodes_heap: "only_nodes c c' \<Longrightarrow> length (tree_nodes c) \<le> length (tree_nodes c') \<Longrightarrow> heap_ok c \<Longrightarrow> heap_ok c'"
  using only_nodes_fields [of c c'] by (fastforce simp: heap_ok_def charsets_ok_def)

lemma child_after:
  assumes c: "sub_ok k n0 c par p t" and new: "tree_nodes c' = grown_with l r tok (tree_nodes c)" and on: "only_nodes c c'"
    and p: "p = l \<or> p = r" and other: "\<And>i. i \<in> set_tree t \<Longrightarrow> l = Some i \<or> r = Some i \<Longrightarrow> p = Some i"
  shows "sub_ok k n0 c' (Some (length (tree_nodes c))) p t"
proof (cases p)
  case None
  then have "t = Leaf" using c sub_ok_root [OF c] by (cases t) auto
  then show ?thesis using None by simp
next
  case (Some a)
  let ?ns = "tree_nodes c" and ?ns' = "tree_nodes c'"
  have a: "a < length ?ns" using sub_ok_inside [OF c] Some by simp
  have at: "?ns' ! a = (?ns ! a)\<lparr>tree_parent := Some (length ?ns)\<rparr>" unfolding new by (rule grown_with_child [OF a]) (use p Some in auto)
  have rest: "?ns' ! i = ?ns ! i" if "i \<in> set_tree t" "i \<noteq> a" for i
    unfolding new by (rule grown_with_old [OF sub_ok_lt [OF c that(1)]]) (use other [OF that(1)] that(2) Some in auto)
  have lk: "linked ?ns' (Some (length ?ns)) p t"
    by (rule linked_reparent [of ?ns par]) (use c Some at rest new in \<open>auto simp: sub_ok_def\<close>)
  have "same_token (tree_token (?ns ! b)) (tree_token (?ns' ! b))" if "b \<in> set_tree t" for b
    using rest [OF that] at by (cases "b = a") simp_all
  then have "shaped k ?ns' (length (charsets c)) (re_nsub c) t"
    using shaped_frame [of k ?ns "length (charsets c)" "re_nsub c" t ?ns'] c by (simp add: sub_ok_def)
  then show ?thesis using lk c only_nodes_fields [OF on] by (simp add: sub_ok_def)
qed

text \<open>A new node over two trees, whatever they hung from before.\<close>

lemma join_ok:
  assumes l: "sub_ok k n0 c parl l u" and r: "sub_ok k n0 c parr r v" and disj: "set_tree u \<inter> set_tree v = {}"
    and heap: "heap_ok c" and n0: "n0 \<le> length (tree_nodes c)"
    and tok: "typed (length (charsets c)) (re_nsub c) tok" "k \<longrightarrow> fits (tok_type tok) u v"
  obtains (none) c' where "create_token_tree l r tok c = Some (None, c')" "only_nodes c c'" "tree_nodes c' = tree_nodes c"
  | (some) c' where "create_token_tree l r tok c = Some (Some (length (tree_nodes c)), c')" "only_nodes c c'"
      "length (tree_nodes c') = length (tree_nodes c) + 1" "sub_ok k n0 c' None (Some (length (tree_nodes c))) (Node u (length (tree_nodes c)) v)"
      "\<forall>i < length (tree_nodes c). l \<noteq> Some i \<longrightarrow> r \<noteq> Some i \<longrightarrow> tree_nodes c' ! i = tree_nodes c ! i"
      "tree_right (tree_nodes c' ! length (tree_nodes c)) = r"
proof (rule create_cases [OF sub_ok_inside [OF l] sub_ok_inside [OF r], of tok], goal_cases)
  case (1 c')
  then show ?thesis using none by blast
next
  case (2 c')
  let ?d = "length (tree_nodes c)"
  have lroot: "i \<in> set_tree u" if "l = Some i" for i using sub_ok_root [OF l] root_in that by auto
  have rroot: "i \<in> set_tree v" if "r = Some i" for i using sub_ok_root [OF r] root_in that by auto
  have l': "sub_ok k n0 c' (Some ?d) l u" by (rule child_after [OF l 2(5) 2(4)]) (use rroot disj in auto)
  have r': "sub_ok k n0 c' (Some ?d) r v" by (rule child_after [OF r 2(5) 2(4)]) (use lroot disj in auto)
  have new: "tree_nodes c' ! ?d = new_tree l r tok" unfolding 2(5)
    by (rule grown_with_new [OF sub_ok_inside [OF l] sub_ok_inside [OF r]])
  note f = only_nodes_fields [OF 2(4)]
  have tk: "same_token tok (tree_token (tree_nodes c' ! ?d))" unfolding new by (simp add: new_tree_def same_token_def)
  have fresh: "?d \<notin> set_tree u" "?d \<notin> set_tree v" "?d \<notin> set (released c')"
    using sub_ok_lt [OF l] sub_ok_lt [OF r] heap f(3) by (auto simp: heap_ok_def)
  have "linked (tree_nodes c') None (Some ?d) (Node u ?d v)"
    using l' r' new 2(5) by (simp add: sub_ok_def new_tree_def)
  moreover have "distinct_tree (Node u ?d v)" using l r disj fresh by (simp add: sub_ok_def)
  moreover have "shaped k (tree_nodes c') (length (charsets c')) (re_nsub c') (Node u ?d v)"
    using l' r' tok typed_same [OF tk] tk f by (simp add: sub_ok_def same_token_def)
  ultimately have "sub_ok k n0 c' None (Some ?d) (Node u ?d v)"
    using l' r' fresh n0 by (auto simp: sub_ok_def)
  moreover have "tree_right (tree_nodes c' ! ?d) = r" unfolding new by (simp add: new_tree_def)
  moreover have "\<forall>i < ?d. l \<noteq> Some i \<longrightarrow> r \<noteq> Some i \<longrightarrow> tree_nodes c' ! i = tree_nodes c ! i"
    unfolding 2(5) using grown_with_old by simp
  ultimately show ?thesis using some [of c'] 2 by simp
qed

end
