(* ===== verification/RegToken.thy ===== *)
theory RegToken
  imports StateTable
begin

text \<open>
  The tokens of a regular expression: src/src/regex/regcomp.c, from \<open>fetch_token\<close> to \<open>peek_token_bracket\<close> and
  \<open>fetch_number\<close>, over the input strings of regex_internal.h.

  \<^item> Of an input string the model has the buffers and indices the parser reads. How the buffers are filled from the
    pattern is not modelled. A wide character is an integer, \<open>WEOF\<close> is -1.
  \<^item> Reading outside a buffer is undefined: the result is \<open>None\<close>.
  \<^item> What the C library says of characters in the current locale is the record \<open>ctype\<close>: the \<open>is\<close> functions by the name of
    their class, \<open>iswalnum\<close>, \<open>btowc\<close> and \<open>wctype\<close>. It also has what an uninitialised token holds.
\<close>

unbundle bit_operations_syntax

section \<open>Input strings\<close>

record ctype =
  in_class :: "string \<Rightarrow> 8 word \<Rightarrow> bool"
  is_walnum :: "int \<Rightarrow> bool"
  byte_wide :: "8 word \<Rightarrow> int"
  wide_class :: "string \<Rightarrow> int"
  uninit :: re_token

abbreviation WEOF :: int where "WEOF \<equiv> -1"

record re_string =
  raw_mbs :: "8 word list"
  mbs :: "8 word list"
  wcs :: "int list"
  offsets :: "nat list"
  raw_mbs_idx :: nat
  valid_len :: nat
  cur_idx :: nat
  str_len :: nat
  stop :: nat
  mbs_allocated :: bool
  offsets_needed :: bool
  str_mb_cur_max :: nat
  str_trans :: "(8 word \<Rightarrow> 8 word) option"

definition peek_byte :: "re_string \<Rightarrow> nat \<Rightarrow> 8 word option" where
  "peek_byte s i = mem_read (mbs s) (cur_idx s + i)"

definition eoi :: "re_string \<Rightarrow> bool" where
  "eoi s \<longleftrightarrow> stop s \<le> cur_idx s"

definition skip_bytes :: "nat \<Rightarrow> re_string \<Rightarrow> re_string" where
  "skip_bytes n s = s\<lparr>cur_idx := cur_idx s + n\<rparr>"

definition fetch_byte :: "re_string \<Rightarrow> (8 word \<times> re_string) option" where
  "fetch_byte s = do { c \<leftarrow> peek_byte s 0; Some (c, skip_bytes 1 s) }"

definition first_byte :: "re_string \<Rightarrow> nat \<Rightarrow> bool option" where
  "first_byte s i = (if i = valid_len s then Some True else do { w \<leftarrow> mem_read (wcs s) i; Some (w \<noteq> WEOF) })"

definition single_byte_char :: "re_string \<Rightarrow> nat \<Rightarrow> bool option" where
  "single_byte_char s i =
     do { w \<leftarrow> mem_read (wcs s) i;
          if w = WEOF then Some False
          else if valid_len s = i + 1 then Some True
          else do { v \<leftarrow> mem_read (wcs s) (i + 1); Some (v \<noteq> WEOF) } }"

definition wchar_at :: "re_string \<Rightarrow> nat \<Rightarrow> int option" where
  "wchar_at s i =
     (if str_mb_cur_max s = 1 then map_option (\<lambda>c. int (unat c)) (mem_read (mbs s) i) else mem_read (wcs s) i)"

function char_size_loop :: "re_string \<Rightarrow> nat \<Rightarrow> nat \<Rightarrow> nat option" where
  "char_size_loop s i n =
     (if i + n < valid_len s then
        do { w \<leftarrow> mem_read (wcs s) (i + n); if w \<noteq> WEOF then Some n else char_size_loop s i (n + 1) }
      else Some n)"
  by pat_completeness auto
termination
  by (relation "measure (\<lambda>(s, i, n). valid_len s - (i + n))") auto

declare char_size_loop.simps [simp del]

definition char_size_at :: "re_string \<Rightarrow> nat \<Rightarrow> nat option" where
  "char_size_at s i = (if str_mb_cur_max s = 1 then Some 1 else char_size_loop s i 1)"

definition is_ascii :: "8 word \<Rightarrow> bool" where
  "is_ascii c \<longleftrightarrow> c < 0x80"

definition peek_byte_case :: "re_string \<Rightarrow> nat \<Rightarrow> 8 word option" where
  "peek_byte_case s i =
     (if \<not> mbs_allocated s then peek_byte s i
      else
        do { single \<leftarrow> (if str_mb_cur_max s > 1 then single_byte_char s (cur_idx s + i) else Some True);
             if \<not> single then peek_byte s i
             else
               do { off \<leftarrow> (if offsets_needed s then mem_read (offsets s) (cur_idx s + i) else Some (cur_idx s + i));
                    ch \<leftarrow> mem_read (raw_mbs s) (raw_mbs_idx s + off);
                    if offsets_needed s \<and> \<not> is_ascii ch then peek_byte s i else Some ch } })"

definition fetch_byte_case :: "re_string \<Rightarrow> (8 word \<times> re_string) option" where
  "fetch_byte_case s =
     (if \<not> mbs_allocated s then fetch_byte s
      else if offsets_needed s then
        do { first \<leftarrow> first_byte s (cur_idx s);
             if \<not> first then fetch_byte s
             else
               do { off \<leftarrow> mem_read (offsets s) (cur_idx s);
                    ch \<leftarrow> mem_read (raw_mbs s) (raw_mbs_idx s + off);
                    if \<not> is_ascii ch then fetch_byte s
                    else do { n \<leftarrow> char_size_at s (cur_idx s); Some (ch, skip_bytes n s) } } }
      else do { ch \<leftarrow> mem_read (raw_mbs s) (raw_mbs_idx s + cur_idx s); Some (ch, skip_bytes 1 s) })"

section \<open>Syntax bits\<close>

type_synonym reg_syntax = "64 word"

abbreviation RE_BACKSLASH_ESCAPE_IN_LISTS :: reg_syntax where "RE_BACKSLASH_ESCAPE_IN_LISTS \<equiv> 0x1"
abbreviation RE_BK_PLUS_QM :: reg_syntax where "RE_BK_PLUS_QM \<equiv> 0x2"
abbreviation RE_CHAR_CLASSES :: reg_syntax where "RE_CHAR_CLASSES \<equiv> 0x4"
abbreviation RE_CONTEXT_INDEP_ANCHORS :: reg_syntax where "RE_CONTEXT_INDEP_ANCHORS \<equiv> 0x8"
abbreviation RE_CONTEXT_INDEP_OPS :: reg_syntax where "RE_CONTEXT_INDEP_OPS \<equiv> 0x10"
abbreviation RE_CONTEXT_INVALID_OPS :: reg_syntax where "RE_CONTEXT_INVALID_OPS \<equiv> 0x20"
abbreviation RE_HAT_LISTS_NOT_NEWLINE :: reg_syntax where "RE_HAT_LISTS_NOT_NEWLINE \<equiv> 0x100"
abbreviation RE_INTERVALS :: reg_syntax where "RE_INTERVALS \<equiv> 0x200"
abbreviation RE_LIMITED_OPS :: reg_syntax where "RE_LIMITED_OPS \<equiv> 0x400"
abbreviation RE_NEWLINE_ALT :: reg_syntax where "RE_NEWLINE_ALT \<equiv> 0x800"
abbreviation RE_NO_BK_BRACES :: reg_syntax where "RE_NO_BK_BRACES \<equiv> 0x1000"
abbreviation RE_NO_BK_PARENS :: reg_syntax where "RE_NO_BK_PARENS \<equiv> 0x2000"
abbreviation RE_NO_BK_REFS :: reg_syntax where "RE_NO_BK_REFS \<equiv> 0x4000"
abbreviation RE_NO_BK_VBAR :: reg_syntax where "RE_NO_BK_VBAR \<equiv> 0x8000"
abbreviation RE_NO_EMPTY_RANGES :: reg_syntax where "RE_NO_EMPTY_RANGES \<equiv> 0x10000"
abbreviation RE_UNMATCHED_RIGHT_PAREN_ORD :: reg_syntax where "RE_UNMATCHED_RIGHT_PAREN_ORD \<equiv> 0x20000"
abbreviation RE_NO_GNU_OPS :: reg_syntax where "RE_NO_GNU_OPS \<equiv> 0x80000"
abbreviation RE_INVALID_INTERVAL_ORD :: reg_syntax where "RE_INVALID_INTERVAL_ORD \<equiv> 0x200000"
abbreviation RE_ICASE :: reg_syntax where "RE_ICASE \<equiv> 0x400000"
abbreviation RE_CARET_ANCHORS_HERE :: reg_syntax where "RE_CARET_ANCHORS_HERE \<equiv> 0x800000"
abbreviation RE_CONTEXT_INVALID_DUP :: reg_syntax where "RE_CONTEXT_INVALID_DUP \<equiv> 0x1000000"

abbreviation syn :: "reg_syntax \<Rightarrow> reg_syntax \<Rightarrow> bool" where
  "syn syntax b \<equiv> syntax AND b \<noteq> 0"

abbreviation INSIDE_WORD :: "32 word" where "INSIDE_WORD \<equiv> 0x05"
abbreviation WORD_FIRST :: "32 word" where "WORD_FIRST \<equiv> 0x06"
abbreviation WORD_LAST :: "32 word" where "WORD_LAST \<equiv> 0x09"
abbreviation INSIDE_NOTWORD :: "32 word" where "INSIDE_NOTWORD \<equiv> 0x0A"
abbreviation LINE_FIRST :: "32 word" where "LINE_FIRST \<equiv> 0x10"
abbreviation LINE_LAST :: "32 word" where "LINE_LAST \<equiv> 0x20"
abbreviation BUF_FIRST :: "32 word" where "BUF_FIRST \<equiv> 0x40"
abbreviation BUF_LAST :: "32 word" where "BUF_LAST \<equiv> 0x80"
abbreviation WORD_DELIM :: "32 word" where "WORD_DELIM \<equiv> 0x100"
abbreviation NOT_WORD_DELIM :: "32 word" where "NOT_WORD_DELIM \<equiv> 0x200"

section \<open>Tokens\<close>

text \<open>A byte of the pattern.\<close>

abbreviation byte :: "char \<Rightarrow> 8 word" where
  "byte c \<equiv> word_of_nat (of_char c)"

definition IS_WORD_CHAR :: "ctype \<Rightarrow> 8 word \<Rightarrow> bool" where
  "IS_WORD_CHAR ct c \<longleftrightarrow> in_class ct ''alnum'' c \<or> c = 0x5F"

definition IS_WIDE_WORD_CHAR :: "ctype \<Rightarrow> int \<Rightarrow> bool" where
  "IS_WIDE_WORD_CHAR ct w \<longleftrightarrow> is_walnum ct w \<or> w = 0x5F"

text \<open>The type and the operand of an escaped character, the operand only when it is not the character.\<close>

definition escaped_token :: "reg_syntax \<Rightarrow> 8 word \<Rightarrow> re_token_type \<times> token_opr option" where
  "escaped_token syntax c =
     (let gnu = (\<lambda>t. if syn syntax RE_NO_GNU_OPS then (CHARACTER, None) else t);
          anchor = (\<lambda>w. gnu (ANCHOR, Some (Ctx_type w)));
          plain = (\<lambda>b t. if b then (t, None) else (CHARACTER, None))
      in if c = 0x7C then plain (\<not> syn syntax RE_LIMITED_OPS \<and> \<not> syn syntax RE_NO_BK_VBAR) OP_ALT
         else if 0x31 \<le> c \<and> c \<le> 0x39 then
           (if syn syntax RE_NO_BK_REFS then (CHARACTER, None) else (OP_BACK_REF, Some (Idx_opr (int (unat c) - 0x31))))
         else if c = 0x3C then anchor WORD_FIRST
         else if c = 0x3E then anchor WORD_LAST
         else if c = 0x62 then anchor WORD_DELIM
         else if c = 0x42 then anchor NOT_WORD_DELIM
         else if c = 0x77 then gnu (OP_WORD, None)
         else if c = 0x57 then gnu (OP_NOTWORD, None)
         else if c = 0x73 then gnu (OP_SPACE, None)
         else if c = 0x53 then gnu (OP_NOTSPACE, None)
         else if c = 0x60 then anchor BUF_FIRST
         else if c = 0x27 then anchor BUF_LAST
         else if c = 0x28 then plain (\<not> syn syntax RE_NO_BK_PARENS) OP_OPEN_SUBEXP
         else if c = 0x29 then plain (\<not> syn syntax RE_NO_BK_PARENS) OP_CLOSE_SUBEXP
         else if c = 0x2B then plain (\<not> syn syntax RE_LIMITED_OPS \<and> syn syntax RE_BK_PLUS_QM) OP_DUP_PLUS
         else if c = 0x3F then plain (\<not> syn syntax RE_LIMITED_OPS \<and> syn syntax RE_BK_PLUS_QM) OP_DUP_QUESTION
         else if c = 0x7B then plain (syn syntax RE_INTERVALS \<and> \<not> syn syntax RE_NO_BK_BRACES) OP_OPEN_DUP_NUM
         else if c = 0x7D then plain (syn syntax RE_INTERVALS \<and> \<not> syn syntax RE_NO_BK_BRACES) OP_CLOSE_DUP_NUM
         else (CHARACTER, None))"

text \<open>The type of a character that is not escaped, anchors apart.\<close>

definition plain_token :: "reg_syntax \<Rightarrow> 8 word \<Rightarrow> re_token_type" where
  "plain_token syntax c =
     (let plain = (\<lambda>b t. if b then t else CHARACTER)
      in if c = 0x0A then plain (syn syntax RE_NEWLINE_ALT) OP_ALT
         else if c = 0x7C then plain (\<not> syn syntax RE_LIMITED_OPS \<and> syn syntax RE_NO_BK_VBAR) OP_ALT
         else if c = 0x2A then OP_DUP_ASTERISK
         else if c = 0x2B then plain (\<not> syn syntax RE_LIMITED_OPS \<and> \<not> syn syntax RE_BK_PLUS_QM) OP_DUP_PLUS
         else if c = 0x3F then plain (\<not> syn syntax RE_LIMITED_OPS \<and> \<not> syn syntax RE_BK_PLUS_QM) OP_DUP_QUESTION
         else if c = 0x7B then plain (syn syntax RE_INTERVALS \<and> syn syntax RE_NO_BK_BRACES) OP_OPEN_DUP_NUM
         else if c = 0x7D then plain (syn syntax RE_INTERVALS \<and> syn syntax RE_NO_BK_BRACES) OP_CLOSE_DUP_NUM
         else if c = 0x28 then plain (syn syntax RE_NO_BK_PARENS) OP_OPEN_SUBEXP
         else if c = 0x29 then plain (syn syntax RE_NO_BK_PARENS) OP_CLOSE_SUBEXP
         else if c = 0x5B then OP_OPEN_BRACKET
         else if c = 0x2E then OP_PERIOD
         else CHARACTER)"

text \<open>The caret: an anchor at the start, where the syntax says so, or behind a newline that separates alternatives.\<close>

definition caret_is_anchor :: "re_string \<Rightarrow> reg_syntax \<Rightarrow> bool option" where
  "caret_is_anchor s syntax =
     (if \<not> syn syntax (RE_CONTEXT_INDEP_ANCHORS OR RE_CARET_ANCHORS_HERE) \<and> cur_idx s \<noteq> 0
      then do { prev \<leftarrow> mem_read (mbs s) (cur_idx s - 1); Some (syn syntax RE_NEWLINE_ALT \<and> prev = 0x0A) }
      else Some True)"

text \<open>The characters are looked at with the whole token, whose other fields stay as they are.\<close>

definition word_char_at :: "ctype \<Rightarrow> re_string \<Rightarrow> nat \<Rightarrow> 8 word \<Rightarrow> bool option" where
  "word_char_at ct s i c =
     (if str_mb_cur_max s > 1 then map_option (IS_WIDE_WORD_CHAR ct) (wchar_at s i) else Some (IS_WORD_CHAR ct c))"

definition mid_char :: "re_string \<Rightarrow> bool option" where
  "mid_char s = (if str_mb_cur_max s > 1 then map_option Not (first_byte s (cur_idx s)) else Some False)"

function peek_token :: "ctype \<Rightarrow> re_token \<Rightarrow> re_string \<Rightarrow> reg_syntax \<Rightarrow> (re_token \<times> nat) option" where
  "peek_token ct t s syntax =
     (if eoi s then Some (t\<lparr>tok_type := END_OF_RE\<rparr>, 0)
      else
        do { c \<leftarrow> peek_byte s 0;
             let t = t\<lparr>opr := Char_opr c, word_char := False, mb_partial := False\<rparr>;
             mid \<leftarrow> mid_char s;
             if mid then Some (t\<lparr>tok_type := CHARACTER, mb_partial := True\<rparr>, 1)
             else if c = 0x5C then
               (if str_len s \<le> cur_idx s + 1 then Some (t\<lparr>tok_type := BACK_SLASH\<rparr>, 1)
                else
                  do { c2 \<leftarrow> peek_byte_case s 1;
                       w \<leftarrow> word_char_at ct s (cur_idx s + 1) c2;
                       let (ty, o') = escaped_token syntax c2;
                       Some (t\<lparr>opr := (case o' of None \<Rightarrow> Char_opr c2 | Some o' \<Rightarrow> o'), word_char := w, tok_type := ty\<rparr>, 2) })
             else
               do { w \<leftarrow> word_char_at ct s (cur_idx s) c;
                    let t = t\<lparr>word_char := w\<rparr>;
                    if c = 0x5E then
                      do { a \<leftarrow> caret_is_anchor s syntax;
                           Some (if a then t\<lparr>opr := Ctx_type LINE_FIRST, tok_type := ANCHOR\<rparr> else t\<lparr>tok_type := CHARACTER\<rparr>, 1) }
                    else if c = 0x24 then
                      do { a \<leftarrow> (if \<not> syn syntax RE_CONTEXT_INDEP_ANCHORS \<and> cur_idx s + 1 \<noteq> str_len s
                                  then map_option (\<lambda>(u, n). tok_type u = OP_ALT \<or> tok_type u = OP_CLOSE_SUBEXP) (peek_token ct t (skip_bytes 1 s) syntax)
                                  else Some True);
                           Some (if a then t\<lparr>opr := Ctx_type LINE_LAST, tok_type := ANCHOR\<rparr> else t\<lparr>tok_type := CHARACTER\<rparr>, 1) }
                    else Some (t\<lparr>tok_type := plain_token syntax c\<rparr>, 1) } })"
  by pat_completeness auto
termination
  by (relation "measure (\<lambda>(ct, t, s, syntax). stop s - cur_idx s)") (auto simp: eoi_def skip_bytes_def)

declare peek_token.simps [simp del]

definition fetch_token :: "ctype \<Rightarrow> re_token \<Rightarrow> re_string \<Rightarrow> reg_syntax \<Rightarrow> (re_token \<times> re_string) option" where
  "fetch_token ct t s syntax = do { (t, n) \<leftarrow> peek_token ct t s syntax; Some (t, skip_bytes n s) }"

text \<open>Inside brackets. An escape skips the backslash at once: the string is part of the result.\<close>

definition peek_token_bracket :: "re_token \<Rightarrow> re_string \<Rightarrow> reg_syntax \<Rightarrow> (re_token \<times> nat \<times> re_string) option" where
  "peek_token_bracket t s syntax =
     (if eoi s then Some (t\<lparr>tok_type := END_OF_RE\<rparr>, 0, s)
      else
        do { c \<leftarrow> peek_byte s 0;
             let t = t\<lparr>opr := Char_opr c\<rparr>;
             mid \<leftarrow> mid_char s;
             if mid then Some (t\<lparr>tok_type := CHARACTER\<rparr>, 1, s)
             else if c = 0x5C \<and> syn syntax RE_BACKSLASH_ESCAPE_IN_LISTS \<and> cur_idx s + 1 < str_len s then
               do { let s = skip_bytes 1 s;
                    c2 \<leftarrow> peek_byte s 0;
                    Some (t\<lparr>opr := Char_opr c2, tok_type := CHARACTER\<rparr>, 1, s) }
             else if c = 0x5B then
               do { c2 \<leftarrow> (if cur_idx s + 1 < str_len s then peek_byte s 1 else Some 0);
                    let t2 = t\<lparr>opr := Char_opr c2\<rparr>;
                    Some (if c2 = 0x2E then (t2\<lparr>tok_type := OP_OPEN_COLL_ELEM\<rparr>, 2, s)
                          else if c2 = 0x3D then (t2\<lparr>tok_type := OP_OPEN_EQUIV_CLASS\<rparr>, 2, s)
                          else if c2 = 0x3A \<and> syn syntax RE_CHAR_CLASSES then (t2\<lparr>tok_type := OP_OPEN_CHAR_CLASS\<rparr>, 2, s)
                          else (t\<lparr>tok_type := CHARACTER\<rparr>, 1, s)) }
             else Some (t\<lparr>tok_type := (if c = 0x2D then OP_CHARSET_RANGE else if c = 0x5D then OP_CLOSE_BRACKET
                                       else if c = 0x5E then OP_NON_MATCH_LIST else CHARACTER)\<rparr>, 1, s) })"

text \<open>The byte of a token's operand, whichever member of the union was written last (the targets are little-endian).\<close>

fun opr_byte :: "token_opr \<Rightarrow> 8 word option" where
  "opr_byte (Char_opr c) = Some c"
| "opr_byte (Idx_opr i) = Some (word_of_int i)"
| "opr_byte (Ctx_type w) = Some (ucast w)"
| "opr_byte _ = None"

abbreviation RE_DUP_MAX :: int where "RE_DUP_MAX \<equiv> 0x7fff"

text \<open>The number of an interval, digit by digit: -1 for none, -2 for anything but a number.\<close>

definition next_num :: "int \<Rightarrow> re_token_type \<Rightarrow> 8 word \<Rightarrow> int" where
  "next_num v ty c =
     (if ty \<noteq> CHARACTER \<or> c < 0x30 \<or> 0x39 < c \<or> v = -2 then -2
      else if v = -1 then int (unat c) - 0x30
      else min (RE_DUP_MAX + 1) (v * 10 + int (unat c) - 0x30))"

partial_function (option) fetch_number_loop ::
  "ctype \<Rightarrow> int \<Rightarrow> re_token \<Rightarrow> re_string \<Rightarrow> reg_syntax \<Rightarrow> (int \<times> re_token \<times> re_string) option" where
  "fetch_number_loop ct v t s syntax =
     do { (t, s) \<leftarrow> fetch_token ct t s syntax;
          c \<leftarrow> opr_byte (opr t);
          if tok_type t = END_OF_RE then Some (-2, t, s)
          else if tok_type t = OP_CLOSE_DUP_NUM \<or> c = 0x2C then Some (v, t, s)
          else fetch_number_loop ct (next_num v (tok_type t) c) t s syntax }"

definition fetch_number :: "ctype \<Rightarrow> re_token \<Rightarrow> re_string \<Rightarrow> reg_syntax \<Rightarrow> (int \<times> re_token \<times> re_string) option" where
  "fetch_number ct t s syntax = fetch_number_loop ct (-1) t s syntax"

section \<open>What the tokenizer delivers\<close>

text \<open>A string that holds a whole pattern: all of it is decoded, and the buffers are as long as they should be.\<close>

definition pattern_ok :: "re_string \<Rightarrow> bool" where
  "pattern_ok s \<longleftrightarrow> stop s = str_len s \<and> valid_len s = str_len s \<and> cur_idx s \<le> str_len s \<and> str_len s \<le> length (mbs s)
     \<and> 1 \<le> str_mb_cur_max s \<and> (1 < str_mb_cur_max s \<longrightarrow> str_len s \<le> length (wcs s))
     \<and> (offsets_needed s \<longrightarrow> 1 < str_mb_cur_max s \<and> str_len s \<le> length (offsets s)
          \<and> (\<forall>i < str_len s. raw_mbs_idx s + offsets s ! i < length (raw_mbs s)))
     \<and> (mbs_allocated s \<and> \<not> offsets_needed s \<longrightarrow> raw_mbs_idx s + str_len s \<le> length (raw_mbs s))"

abbreviation left_over :: "re_string \<Rightarrow> nat" where
  "left_over s \<equiv> str_len s - cur_idx s"

lemma eoi_iff: "pattern_ok s \<Longrightarrow> eoi s \<longleftrightarrow> cur_idx s = str_len s"
  by (auto simp: pattern_ok_def eoi_def)

lemma skip_bytes_ok: "pattern_ok s \<Longrightarrow> cur_idx s + n \<le> str_len s \<Longrightarrow> pattern_ok (skip_bytes n s)"
  by (simp add: pattern_ok_def skip_bytes_def)

lemma skip_fields [simp]:
  "cur_idx (skip_bytes n s) = cur_idx s + n" "str_len (skip_bytes n s) = str_len s" "mbs (skip_bytes n s) = mbs s"
  "stop (skip_bytes n s) = stop s" "valid_len (skip_bytes n s) = valid_len s" "wcs (skip_bytes n s) = wcs s"
  "str_mb_cur_max (skip_bytes n s) = str_mb_cur_max s" "str_trans (skip_bytes n s) = str_trans s"
  by (simp_all add: skip_bytes_def)

lemma peek_byte_ok: "pattern_ok s \<Longrightarrow> cur_idx s + i < str_len s \<Longrightarrow> peek_byte s i = Some (mbs s ! (cur_idx s + i))"
  by (simp add: peek_byte_def pattern_ok_def mem_read_lt)

lemma fetch_byte_ok: "pattern_ok s \<Longrightarrow> cur_idx s < str_len s \<Longrightarrow> fetch_byte s = Some (mbs s ! cur_idx s, skip_bytes 1 s)"
  using peek_byte_ok [of s 0] by (simp add: fetch_byte_def)

lemma single_byte_char_ok: "pattern_ok s \<Longrightarrow> 1 < str_mb_cur_max s \<Longrightarrow> i < str_len s \<Longrightarrow> \<exists>b. single_byte_char s i = Some b"
  by (auto simp: single_byte_char_def pattern_ok_def mem_read_def)

lemma wchar_at_ok: "pattern_ok s \<Longrightarrow> i < str_len s \<Longrightarrow> \<exists>w. wchar_at s i = Some w"
  by (auto simp: wchar_at_def pattern_ok_def mem_read_def)

lemma mid_char_ok: "pattern_ok s \<Longrightarrow> cur_idx s < str_len s \<Longrightarrow> \<exists>b. mid_char s = Some b"
  by (auto simp: mid_char_def first_byte_def pattern_ok_def mem_read_def)

lemma word_char_at_ok: "pattern_ok s \<Longrightarrow> i < str_len s \<Longrightarrow> \<exists>b. word_char_at ct s i c = Some b"
  using wchar_at_ok [of s i] by (auto simp: word_char_at_def)

lemma peek_byte_case_ok:
  assumes "pattern_ok s" and "cur_idx s + i < str_len s"
  shows "\<exists>c. peek_byte_case s i = Some c"
proof -
  obtain b where b: "(if str_mb_cur_max s > 1 then single_byte_char s (cur_idx s + i) else Some True) = Some b"
    using single_byte_char_ok [OF assms(1) _ assms(2)] by (cases "1 < str_mb_cur_max s") auto
  obtain off where off: "(if offsets_needed s then mem_read (offsets s) (cur_idx s + i) else Some (cur_idx s + i)) = Some off"
      "mbs_allocated s \<Longrightarrow> raw_mbs_idx s + off < length (raw_mbs s)"
    using assms by (cases "offsets_needed s") (auto simp: pattern_ok_def mem_read_def)
  show ?thesis
    using peek_byte_ok [OF assms] b off(2) unfolding peek_byte_case_def b off(1) by (auto simp: mem_read_def)
qed

text \<open>The operand that goes with a type.\<close>

definition token_ok :: "re_token \<Rightarrow> bool" where
  "token_ok t \<longleftrightarrow> (case opr t of
      Idx_opr i \<Rightarrow> tok_type t = OP_BACK_REF \<and> 0 \<le> i \<and> i \<le> 8
    | Ctx_type w \<Rightarrow> tok_type t = ANCHOR \<and> w \<in> {WORD_FIRST, WORD_LAST, WORD_DELIM, NOT_WORD_DELIM, LINE_FIRST, LINE_LAST, BUF_FIRST, BUF_LAST}
    | Char_opr c \<Rightarrow> tok_type t \<in> {CHARACTER, BACK_SLASH, OP_ALT, OP_PERIOD, OP_WORD, OP_NOTWORD, OP_SPACE, OP_NOTSPACE, OP_OPEN_BRACKET,
        OP_OPEN_SUBEXP, OP_CLOSE_SUBEXP, OP_DUP_ASTERISK, OP_DUP_PLUS, OP_DUP_QUESTION, OP_OPEN_DUP_NUM, OP_CLOSE_DUP_NUM}
    | _ \<Rightarrow> False)"

lemma escaped_token_ok:
  assumes "escaped_token syntax c = (ty, o')"
  shows "token_ok (t\<lparr>opr := (case o' of None \<Rightarrow> Char_opr c | Some o' \<Rightarrow> o'), word_char := w, tok_type := ty\<rparr>)"
proof (cases "0x31 \<le> c \<and> c \<le> 0x39 \<and> \<not> syn syntax RE_NO_BK_REFS \<and> c \<noteq> 0x7C")
  case True
  then have "(ty, o') = (OP_BACK_REF, Some (Idx_opr (int (unat c) - 0x31)))" using assms by (simp add: escaped_token_def)
  moreover have "49 \<le> uint c" "uint c \<le> 57" using True by (simp_all add: word_le_def)
  ultimately show ?thesis by (simp add: token_ok_def)
next
  case False
  then show ?thesis using assms unfolding escaped_token_def Let_def by (auto simp: token_ok_def split: if_splits)
qed

lemma plain_token_ok: "opr t = Char_opr c \<Longrightarrow> token_ok (t\<lparr>tok_type := plain_token syntax c\<rparr>)"
  by (simp add: token_ok_def plain_token_def Let_def)


lemma plain_token_type: "plain_token syntax c \<noteq> END_OF_RE"
  by (simp add: plain_token_def Let_def)

abbreviation peeked :: "re_token \<Rightarrow> re_string \<Rightarrow> re_token \<times> nat \<Rightarrow> bool" where
  "peeked t s r \<equiv> (if eoi s then r = (t\<lparr>tok_type := END_OF_RE\<rparr>, 0)
     else token_ok (fst r) \<and> tok_type (fst r) \<noteq> END_OF_RE \<and> 1 \<le> snd r \<and> cur_idx s + snd r \<le> str_len s)"

lemma token_ok_type: "token_ok t \<Longrightarrow> tok_type t \<noteq> END_OF_RE"
  by (auto simp: token_ok_def split: token_opr.splits)

lemma peek_token_ok:
  assumes "pattern_ok s"
  shows "\<exists>r. peek_token ct t s syntax = Some r \<and> peeked t s r"
  using assms
proof (induction "left_over s" arbitrary: t s rule: less_induct)
  case less
  show ?case
  proof (cases "eoi s")
    case True
    then show ?thesis by (subst peek_token.simps) simp
  next
    case False
    then have lt: "cur_idx s < str_len s" using less(2) by (auto simp: eoi_iff pattern_ok_def)
    note step = peek_token.simps [of ct t s "syntax"]
    define c where "c = mbs s ! cur_idx s"
    have peek: "peek_byte s 0 = Some c" using peek_byte_ok [OF less(2), of 0] lt by (simp add: c_def)
    obtain mid where mid: "mid_char s = Some mid" using mid_char_ok [OF less(2) lt] by blast
    obtain w where w: "word_char_at ct s (cur_idx s) c = Some w" using word_char_at_ok [OF less(2) lt] by blast
    consider "mid" | "\<not> mid" "c = 0x5C" | "\<not> mid" "c = 0x5E" | "\<not> mid" "c = 0x24" | "\<not> mid" "c \<notin> {0x5C, 0x5E, 0x24}" by auto
    then show ?thesis
    proof cases
      case 1
      then show ?thesis unfolding step using False lt by (simp add: peek mid token_ok_def)
    next
      case 2
      show ?thesis
      proof (cases "str_len s \<le> cur_idx s + 1")
        case True
        then show ?thesis unfolding step using False lt 2 by (simp add: peek mid token_ok_def)
      next
        case next_lt: False
        obtain c2 where c2: "peek_byte_case s 1 = Some c2" using peek_byte_case_ok [OF less(2)] next_lt by fastforce
        obtain w2 where w2: "word_char_at ct s (cur_idx s + 1) c2 = Some w2"
          using word_char_at_ok [OF less(2), of "cur_idx s + 1"] next_lt by fastforce
        obtain ty o' where e: "escaped_token syntax c2 = (ty, o')" by fastforce
        show ?thesis unfolding step using False next_lt 2 c2 w2 escaped_token_ok [OF e] token_ok_type [OF escaped_token_ok [OF e]]
          by (simp add: peek mid e)
      qed
    next
      case 3
      have "\<exists>a. caret_is_anchor s syntax = Some a"
        using less(2) lt by (auto simp: caret_is_anchor_def pattern_ok_def mem_read_def)
      then obtain a where "caret_is_anchor s syntax = Some a" by blast
      then show ?thesis unfolding step using False lt 3 w by (simp add: peek mid token_ok_def Let_def)
    next
      case 4
      show ?thesis
      proof (cases "\<not> syn syntax RE_CONTEXT_INDEP_ANCHORS \<and> cur_idx s + 1 \<noteq> str_len s")
        case True
        obtain u n where "peek_token ct (t\<lparr>opr := Char_opr c, mb_partial := False, word_char := w\<rparr>) (skip_bytes 1 s) syntax = Some (u, n)"
          using less(1) [of "skip_bytes 1 s"] lt skip_bytes_ok [OF less(2), of 1] by fastforce
        then show ?thesis unfolding step using False lt 4 w True by (simp add: peek mid token_ok_def Let_def)
      next
        case anchor: False
        then consider "syn syntax RE_CONTEXT_INDEP_ANCHORS" | "Suc (cur_idx s) = str_len s" by auto
        then show ?thesis
          by cases (use False lt 4 w in \<open>simp_all add: step peek mid token_ok_def Let_def\<close>)
      qed
    next
      case 5
      show ?thesis unfolding step using False lt 5 plain_token_ok plain_token_type by (simp add: peek mid w)
    qed
  qed
qed

text \<open>The number of an interval: the loop stops at the end of the pattern at the latest.\<close>

lemma opr_byte_ok: "token_ok t \<Longrightarrow> \<exists>c. opr_byte (opr t) = Some c"
  by (auto simp: token_ok_def split: token_opr.splits)

lemma next_num_bounds: "-2 \<le> v \<Longrightarrow> v \<le> RE_DUP_MAX + 1 \<Longrightarrow> -2 \<le> next_num v ty c \<and> next_num v ty c \<le> RE_DUP_MAX + 1"
proof -
  assume v: "-2 \<le> v" "v \<le> RE_DUP_MAX + 1"
  have "48 \<le> uint c \<Longrightarrow> uint c \<le> 57 \<Longrightarrow> 0 \<le> uint c - 48 \<and> uint c - 48 \<le> 9" by simp
  then show ?thesis using v by (auto simp: next_num_def word_less_def not_less)
qed

lemma fetch_token_ok:
  assumes "pattern_ok s"
  shows "\<exists>u s'. fetch_token ct t s syntax = Some (u, s') \<and> pattern_ok s' \<and> str_len s' = str_len s
     \<and> (if eoi s then u = t\<lparr>tok_type := END_OF_RE\<rparr> \<and> s' = s else token_ok u \<and> left_over s' < left_over s)"
proof -
  obtain r where r: "peek_token ct t s syntax = Some r" "peeked t s r" using peek_token_ok [OF assms] by blast
  then show ?thesis using assms skip_bytes_ok [OF assms, of "snd r"]
    by (cases r) (auto simp: fetch_token_def skip_bytes_def split: if_splits)
qed

abbreviation number_fetched :: "re_string \<Rightarrow> int \<times> re_token \<times> re_string \<Rightarrow> bool" where
  "number_fetched s r \<equiv> (case r of (v, u, s') \<Rightarrow> -2 \<le> v \<and> v \<le> RE_DUP_MAX + 1 \<and> pattern_ok s' \<and> str_len s' = str_len s \<and>
     cur_idx s \<le> cur_idx s' \<and> (if tok_type u = END_OF_RE then v = -2 else token_ok u))"

lemma fetch_number_loop_ok:
  assumes "pattern_ok s" and "opr_byte (opr t) \<noteq> None" and "-2 \<le> v" and "v \<le> RE_DUP_MAX + 1"
  shows "\<exists>r. fetch_number_loop ct v t s syntax = Some r \<and> number_fetched s r"
  using assms
proof (induction "left_over s" arbitrary: t s v rule: less_induct)
  case less
  obtain u s' where u: "fetch_token ct t s syntax = Some (u, s')" "pattern_ok s'" "str_len s' = str_len s"
      "if eoi s then u = t\<lparr>tok_type := END_OF_RE\<rparr> \<and> s' = s else token_ok u \<and> left_over s' < left_over s"
    using fetch_token_ok [OF less(2)] by blast
  obtain c where c: "opr_byte (opr u) = Some c" using u(4) less(3) opr_byte_ok [of u] by (auto split: if_splits)
  note step = fetch_number_loop.simps [of ct v t s "syntax"]
  show ?case
  proof (cases "eoi s")
    case True
    then show ?thesis using u less(2) c by (subst step) simp
  next
    case False
    then have tok: "token_ok u" "left_over s' < left_over s" "tok_type u \<noteq> END_OF_RE" using u(4) token_ok_type by auto
    show ?thesis
    proof (cases "tok_type u = OP_CLOSE_DUP_NUM \<or> c = 0x2C")
      case True
      then show ?thesis using u(1-3) tok c less(4,5) by (subst step) (simp add: pattern_ok_def)
    next
      case next_token: False
      obtain r where "fetch_number_loop ct (next_num v (tok_type u) c) u s' syntax = Some r" "number_fetched s' r"
        using less(1) [OF tok(2) u(2), of u "next_num v (tok_type u) c"] next_num_bounds [OF less(4,5)] c by auto
      then show ?thesis using u(1-3) tok c next_token by (subst step) auto
    qed
  qed
qed

end
