(* ===== verification/RegBracket.thy ===== *)
theory RegBracket
  imports RegToken RegTree Bitset
begin

text \<open>
  Brackets: src/src/regex/regcomp.c, from \<open>parse_bracket_exp\<close> to \<open>build_charclass_op\<close>, as compiled outside of the C library
  (\<open>_LIBC\<close> is not defined) with \<open>RE_ENABLE_I18N\<close>.

  \<^item> The sets being built are values until they are given to a node. Of the mb set the arrays have their allocated
    length, and the room counters are those of the code.
  \<^item> A name of a class or an element is the list of bytes stored in the name buffer, whose terminator follows them.
\<close>

unbundle bit_operations_syntax

section \<open>The parser\<close>

text \<open>The state of the parser: the input, the token it looks at, the error, and the fields of \<open>re_dfa_t\<close> it changes.\<close>

record parser =
  comp :: compiler
  input :: re_string
  cur_token :: re_token
  perr :: reg_errcode
  dfa_syntax :: reg_syntax
  nbackref :: nat
  has_mb_node :: bool
  is_utf8 :: bool
  map_notascii :: bool
  word_ops_used :: bool
  word_chars :: bitset
  sb_char :: bitset

abbreviation mbmax :: "parser \<Rightarrow> nat" where
  "mbmax p \<equiv> mb_cur_max (dfa_of (comp p))"

type_synonym parsed = "(nat option \<times> parser) option"

definition failed :: "reg_errcode \<Rightarrow> parser \<Rightarrow> parsed" where
  "failed e p = Some (None, p\<lparr>perr := e\<rparr>)"

definition token_tree :: "nat option \<Rightarrow> nat option \<Rightarrow> re_token \<Rightarrow> parser \<Rightarrow> parsed" where
  "token_tree l r t p = do { (x, c) \<leftarrow> create_token_tree l r t (comp p); Some (x, p\<lparr>comp := c\<rparr>) }"

definition type_tree :: "nat option \<Rightarrow> nat option \<Rightarrow> re_token_type \<Rightarrow> parser \<Rightarrow> parsed" where
  "type_tree l r ty p = token_tree l r (blank_token ty) p"

definition parser_alloc :: "parser \<Rightarrow> bool \<times> parser" where
  "parser_alloc p = (let (ok, os) = alloc (pending (comp p)) in (ok, p\<lparr>comp := (comp p)\<lparr>pending := os\<rparr>\<rparr>))"

section \<open>Elements of a bracket\<close>

datatype bracket_elem = SB_CHAR "8 word" | MB_CHAR int | EQUIV_CLASS "8 word list" | COLL_SYM "8 word list" | CHAR_CLASS "8 word list"

abbreviation BRACKET_NAME_BUF_SIZE :: nat where "BRACKET_NAME_BUF_SIZE \<equiv> 32"

definition name_len :: "8 word list \<Rightarrow> nat" where
  "name_len nm = length (takeWhile (\<lambda>c. c \<noteq> 0) nm)"

definition name_char :: "8 word list \<Rightarrow> 8 word" where
  "name_char nm = hd (nm @ [0])"

definition class_name :: "8 word list \<Rightarrow> string" where
  "class_name nm = map (\<lambda>c. char_of (unat c)) (takeWhile (\<lambda>c. c \<noteq> 0) nm)"

text \<open>The bytes of a name up to the closing delimiter, at most as many as the buffer holds (the last argument).\<close>

fun bracket_name :: "bool \<Rightarrow> 8 word \<Rightarrow> 8 word list \<Rightarrow> re_string \<Rightarrow> nat \<Rightarrow> (8 word list option \<times> re_string) option" where
  "bracket_name char_class delim nm s 0 = Some (None, s)"
| "bracket_name char_class delim nm s (Suc n) =
     do { (ch, s) \<leftarrow> (if char_class then fetch_byte_case s else fetch_byte s);
          if eoi s then Some (None, s)
          else do { close \<leftarrow> (if ch = delim then map_option (\<lambda>c. c = 0x5D) (peek_byte s 0) else Some False);
                    if close then Some (Some nm, s) else bracket_name char_class delim (nm @ [ch]) s n } }"

definition parse_bracket_symbol :: "re_token \<Rightarrow> re_string \<Rightarrow> ((reg_errcode + bracket_elem) \<times> re_string) option" where
  "parse_bracket_symbol t s =
     do { delim \<leftarrow> opr_byte (opr t);
          if eoi s then Some (Inl REG_EBRACK, s)
          else
            do { (nm, s) \<leftarrow> bracket_name (tok_type t = OP_OPEN_CHAR_CLASS) delim [] s BRACKET_NAME_BUF_SIZE;
                 (case nm of
                    None \<Rightarrow> Some (Inl REG_EBRACK, s)
                  | Some nm \<Rightarrow>
                      Some (Inr (if tok_type t = OP_OPEN_EQUIV_CLASS then EQUIV_CLASS nm
                                 else if tok_type t = OP_OPEN_CHAR_CLASS then CHAR_CLASS nm else COLL_SYM nm), skip_bytes 1 s)) } }"

definition parse_bracket_element ::
  "ctype \<Rightarrow> re_token \<Rightarrow> nat \<Rightarrow> re_string \<Rightarrow> reg_syntax \<Rightarrow> bool \<Rightarrow> ((reg_errcode + bracket_elem) \<times> re_string) option" where
  "parse_bracket_element ct t token_len s syntax accept_hyphen =
     do { cur_char_size \<leftarrow> char_size_at s (cur_idx s);
          if 1 < cur_char_size then
            do { w \<leftarrow> wchar_at s (cur_idx s); Some (Inr (MB_CHAR w), skip_bytes cur_char_size s) }
          else
            do { let s = skip_bytes token_len s;
                 if tok_type t \<in> {OP_OPEN_COLL_ELEM, OP_OPEN_CHAR_CLASS, OP_OPEN_EQUIV_CLASS} then parse_bracket_symbol t s
                 else
                   do { (bad, s) \<leftarrow> (if tok_type t = OP_CHARSET_RANGE \<and> \<not> accept_hyphen
                                      then do { (t2, _, s) \<leftarrow> peek_token_bracket (uninit ct) s syntax; Some (tok_type t2 \<noteq> OP_CLOSE_BRACKET, s) }
                                      else Some (False, s));
                        if bad then Some (Inl REG_ERANGE, s)
                        else do { c \<leftarrow> opr_byte (opr t); Some (Inr (SB_CHAR c), s) } } } }"

section \<open>Building the sets\<close>

text \<open>The sets of a bracket, with the allocated sizes of the arrays.\<close>

record sets =
  sbcset :: bitset
  mbcset :: re_charset
  range_alloc :: nat
  mbchar_alloc :: nat
  char_class_alloc :: nat
  set_answers :: answers

definition empty_charset :: re_charset where
  "empty_charset = \<lparr>mbchars = None, range_starts = None, range_ends = None, char_classes = None, non_match = False,
     nmbchars = 0, nranges = 0, nchar_classes = 0, ranges_freed = False\<rparr>"

definition no_sets :: "answers \<Rightarrow> sets" where
  "no_sets os = \<lparr>sbcset = [0, 0, 0, 0], mbcset = empty_charset, range_alloc = 0, mbchar_alloc = 0, char_class_alloc = 0, set_answers = os\<rparr>"

type_synonym build_result = "(reg_errcode \<times> sets) option"

text \<open>The values \<open>f i\<close> for the \<open>i\<close> with \<open>P i\<close>, from \<open>i\<close> on, \<open>n\<close> of them.\<close>

fun set_where :: "(nat \<Rightarrow> bool) \<Rightarrow> (nat \<Rightarrow> nat) \<Rightarrow> nat \<Rightarrow> nat \<Rightarrow> bitset \<Rightarrow> bitset option" where
  "set_where P f i 0 s = Some s"
| "set_where P f i (Suc n) s = do { s \<leftarrow> (if P i then bitset_set s (f i) else Some s); set_where P f (i + 1) n s }"

definition update_sbcset :: "(bitset \<Rightarrow> bitset option) \<Rightarrow> sets \<Rightarrow> build_result" where
  "update_sbcset f b = do { s \<leftarrow> f (sbcset b); Some (REG_NOERROR, b\<lparr>sbcset := s\<rparr>) }"

abbreviation SBC_MAX :: nat where "SBC_MAX \<equiv> 256"

definition parse_byte :: "ctype \<Rightarrow> bool \<Rightarrow> 8 word \<Rightarrow> int" where
  "parse_byte ct mb c = (if mb then byte_wide ct c else int (unat c))"

fun elem_wide :: "ctype \<Rightarrow> bool \<Rightarrow> bracket_elem \<Rightarrow> int" where
  "elem_wide ct mb (SB_CHAR c) = parse_byte ct mb c"
| "elem_wide ct mb (COLL_SYM nm) = parse_byte ct mb (name_char nm)"
| "elem_wide ct mb (MB_CHAR w) = w"
| "elem_wide ct mb _ = 0"

fun is_class :: "bracket_elem \<Rightarrow> bool" where
  "is_class (EQUIV_CLASS nm) \<longleftrightarrow> True"
| "is_class (CHAR_CLASS nm) \<longleftrightarrow> True"
| "is_class _ \<longleftrightarrow> False"

fun long_symbol :: "bracket_elem \<Rightarrow> bool" where
  "long_symbol (COLL_SYM nm) \<longleftrightarrow> 1 < name_len nm"
| "long_symbol _ \<longleftrightarrow> False"

text \<open>
  A range in the mb set: both arrays are reallocated before either is looked at. When one of the two fails, what the
  other call returned is freed, and the set still points to the memory that call had released or moved.
\<close>

definition grow_ranges :: "sets \<Rightarrow> reg_errcode \<times> sets" where
  "grow_ranges b =
     (let m = mbcset b in
      if range_alloc b \<noteq> nranges m then (REG_NOERROR, b)
      else let n = 2 * nranges m + 1;
               (starts, os) = re_realloc (range_starts m) n (set_answers b);
               (ends, os) = re_realloc (range_ends m) n os;
               b = b\<lparr>set_answers := os\<rparr>
           in if starts = None \<or> ends = None then
                (REG_ESPACE, b\<lparr>mbcset := m\<lparr>ranges_freed := (starts \<noteq> None \<and> range_starts m \<noteq> None) \<or> (ends \<noteq> None \<and> range_ends m \<noteq> None)\<rparr>\<rparr>)
              else (REG_NOERROR, b\<lparr>mbcset := m\<lparr>range_starts := starts, range_ends := ends\<rparr>, range_alloc := n\<rparr>))"

definition put_at :: "int list option \<Rightarrow> nat \<Rightarrow> int \<Rightarrow> int list option option" where
  "put_at xs i x = do { a \<leftarrow> xs; a \<leftarrow> mem_write a i [x]; Some (Some a) }"

definition add_range :: "int \<Rightarrow> int \<Rightarrow> sets \<Rightarrow> build_result" where
  "add_range start_wc end_wc b =
     (let (ret, b) = grow_ranges b; m = mbcset b in
      if ret \<noteq> REG_NOERROR then Some (ret, b)
      else do { starts \<leftarrow> put_at (range_starts m) (nranges m) start_wc;
                ends \<leftarrow> put_at (range_ends m) (nranges m) end_wc;
                Some (REG_NOERROR, b\<lparr>mbcset := m\<lparr>range_starts := starts, range_ends := ends, nranges := nranges m + 1\<rparr>\<rparr>) })"

definition build_range_exp :: "ctype \<Rightarrow> reg_syntax \<Rightarrow> bool \<Rightarrow> bracket_elem \<Rightarrow> bracket_elem \<Rightarrow> sets \<Rightarrow> build_result" where
  "build_range_exp ct syntax mb start_elem end_elem b =
     (if is_class start_elem \<or> is_class end_elem then Some (REG_ERANGE, b)
      else if long_symbol start_elem \<or> long_symbol end_elem then Some (REG_ECOLLATE, b)
      else
        let start_wc = elem_wide ct mb start_elem; end_wc = elem_wide ct mb end_elem in
        if start_wc = WEOF \<or> end_wc = WEOF then Some (REG_ECOLLATE, b)
        else if syn syntax RE_NO_EMPTY_RANGES \<and> end_wc < start_wc then Some (REG_ERANGE, b)
        else
          do { (ret, b) \<leftarrow> (if mb then add_range start_wc end_wc b else Some (REG_NOERROR, b));
               if ret \<noteq> REG_NOERROR then Some (ret, b)
               else update_sbcset (set_where (\<lambda>i. start_wc \<le> int i \<and> int i \<le> end_wc) (\<lambda>i. i) 0 SBC_MAX) b })"

definition build_collating_symbol :: "8 word list \<Rightarrow> sets \<Rightarrow> build_result" where
  "build_collating_symbol nm b =
     (if name_len nm \<noteq> 1 then Some (REG_ECOLLATE, b) else update_sbcset (\<lambda>s. bitset_set s (unat (name_char nm))) b)"

definition build_equiv_class :: "8 word list \<Rightarrow> sets \<Rightarrow> build_result" where
  "build_equiv_class nm b =
     (if name_len nm \<noteq> 1 then Some (REG_ECOLLATE, b) else update_sbcset (\<lambda>s. bitset_set s (unat (name_char nm))) b)"

text \<open>A character that the single-byte set cannot hold.\<close>

definition add_mbchar :: "int \<Rightarrow> sets \<Rightarrow> build_result" where
  "add_mbchar w b =
     (let m = mbcset b; grow = (mbchar_alloc b = nmbchars m); n = (if grow then 2 * nmbchars m + 1 else mbchar_alloc b);
          (chars, os) = (if grow then re_realloc (mbchars m) n (set_answers b) else (mbchars m, set_answers b));
          b = b\<lparr>mbchar_alloc := n, set_answers := os\<rparr>
      in if grow \<and> chars = None then Some (REG_ESPACE, b)
         else do { chars \<leftarrow> put_at chars (nmbchars m) w;
                   Some (REG_NOERROR, b\<lparr>mbcset := m\<lparr>mbchars := chars, nmbchars := nmbchars m + 1\<rparr>\<rparr>) })"

text \<open>The classes whose characters are put in the single-byte set.\<close>

definition class_names :: "string list" where
  "class_names = [''alnum'', ''cntrl'', ''lower'', ''space'', ''alpha'', ''digit'', ''print'', ''upper'', ''blank'', ''graph'', ''punct'', ''xdigit'']"

definition BUILD_CHARCLASS_LOOP :: "ctype \<Rightarrow> (8 word \<Rightarrow> 8 word) option \<Rightarrow> string \<Rightarrow> bitset \<Rightarrow> bitset option" where
  "BUILD_CHARCLASS_LOOP ct tr nm =
     set_where (\<lambda>i. in_class ct nm (word_of_nat i)) (\<lambda>i. case tr of Some f \<Rightarrow> unat (f (word_of_nat i)) | None \<Rightarrow> i) 0 SBC_MAX"

definition add_class :: "int \<Rightarrow> sets \<Rightarrow> build_result" where
  "add_class w b =
     (let m = mbcset b; grow = (char_class_alloc b = nchar_classes m); n = (if grow then 2 * nchar_classes m + 1 else char_class_alloc b);
          (classes, os) = (if grow then re_realloc (char_classes m) n (set_answers b) else (char_classes m, set_answers b));
          b = b\<lparr>set_answers := os\<rparr>
      in if grow \<and> classes = None then Some (REG_ESPACE, b)
         else do { classes \<leftarrow> put_at classes (nchar_classes m) w;
                   Some (REG_NOERROR, b\<lparr>mbcset := m\<lparr>char_classes := classes, nchar_classes := nchar_classes m + 1\<rparr>, char_class_alloc := n\<rparr>) })"

definition build_charclass :: "ctype \<Rightarrow> (8 word \<Rightarrow> 8 word) option \<Rightarrow> string \<Rightarrow> reg_syntax \<Rightarrow> sets \<Rightarrow> build_result" where
  "build_charclass ct tr nm syntax b =
     (let nm = (if syn syntax RE_ICASE \<and> (nm = ''upper'' \<or> nm = ''lower'') then ''alpha'' else nm)
      in do { (ret, b) \<leftarrow> add_class (wide_class ct nm) b;
              if ret \<noteq> REG_NOERROR then Some (ret, b)
              else if nm \<in> set class_names then update_sbcset (BUILD_CHARCLASS_LOOP ct tr nm) b
              else Some (REG_ECTYPE, b) })"


text \<open>The single element that has been parsed.\<close>

fun add_elem :: "ctype \<Rightarrow> (8 word \<Rightarrow> 8 word) option \<Rightarrow> reg_syntax \<Rightarrow> bracket_elem \<Rightarrow> sets \<Rightarrow> build_result" where
  "add_elem ct tr syntax (SB_CHAR c) b = update_sbcset (\<lambda>s. bitset_set s (unat c)) b"
| "add_elem ct tr syntax (MB_CHAR w) b = add_mbchar w b"
| "add_elem ct tr syntax (EQUIV_CLASS nm) b = build_equiv_class nm b"
| "add_elem ct tr syntax (COLL_SYM nm) b = build_collating_symbol nm b"
| "add_elem ct tr syntax (CHAR_CLASS nm) b = build_charclass ct tr (class_name nm) syntax b"

section \<open>The bracket\<close>

text \<open>Is there a range behind the element? The token and its length where the range ends, if so.\<close>

definition range_follows :: "ctype \<Rightarrow> re_token \<Rightarrow> nat \<Rightarrow> re_string \<Rightarrow> reg_syntax \<Rightarrow> bracket_elem \<Rightarrow>
    (reg_errcode \<times> (re_token \<times> nat) option \<times> re_token \<times> re_string) option" where
  "range_follows ct t token_len s syntax start_elem =
     (if is_class start_elem then Some (REG_NOERROR, None, t, s)
      else if tok_type t = END_OF_RE then Some (REG_EBRACK, None, t, s)
      else if tok_type t = OP_CHARSET_RANGE then
        do { (t2, token_len2, s) \<leftarrow> peek_token_bracket (uninit ct) (skip_bytes token_len s) syntax;
             Some (if tok_type t2 = END_OF_RE then (REG_EBRACK, None, t, s)
                   else if tok_type t2 = OP_CLOSE_BRACKET
                   then (REG_NOERROR, None, t\<lparr>tok_type := CHARACTER\<rparr>, s\<lparr>cur_idx := cur_idx s - token_len\<rparr>)
                   else (REG_NOERROR, Some (t2, token_len2), t, s)) }
      else Some (REG_NOERROR, None, t, s))"

text \<open>One round of the loop.\<close>

type_synonym round = "(reg_errcode \<times> re_token \<times> nat \<times> re_string \<times> sets) option"

definition end_of_range :: "ctype \<Rightarrow> bool \<Rightarrow> reg_syntax \<Rightarrow> bracket_elem \<Rightarrow> re_token \<Rightarrow> nat \<Rightarrow> re_token \<Rightarrow> re_string \<Rightarrow> sets \<Rightarrow> round" where
  "end_of_range ct mb syntax start_elem t2 token_len2 t s b =
     do { (r, s) \<leftarrow> parse_bracket_element ct t2 token_len2 s syntax True;
          (case r of
             Inl e \<Rightarrow> Some (e, t, 0, s, b)
           | Inr end_elem \<Rightarrow>
               do { (t, token_len, s) \<leftarrow> peek_token_bracket t s syntax;
                    (e, b) \<leftarrow> build_range_exp ct syntax mb start_elem end_elem b;
                    Some (e, t, token_len, s, b) }) }"

definition bracket_item ::
  "ctype \<Rightarrow> bool \<Rightarrow> (8 word \<Rightarrow> 8 word) option \<Rightarrow> reg_syntax \<Rightarrow> bool \<Rightarrow> re_token \<Rightarrow> nat \<Rightarrow> re_string \<Rightarrow> sets \<Rightarrow> round" where
  "bracket_item ct mb tr syntax first_round t token_len s b =
     do { (r, s) \<leftarrow> parse_bracket_element ct t token_len s syntax first_round;
          (case r of
             Inl e \<Rightarrow> Some (e, t, token_len, s, b)
           | Inr start_elem \<Rightarrow>
               do { (t, token_len, s) \<leftarrow> peek_token_bracket t s syntax;
                    (e, range, t, s) \<leftarrow> range_follows ct t token_len s syntax start_elem;
                    if e \<noteq> REG_NOERROR then Some (e, t, token_len, s, b)
                    else (case range of
                        Some (t2, token_len2) \<Rightarrow> end_of_range ct mb syntax start_elem t2 token_len2 t s b
                      | None \<Rightarrow> do { (e, b) \<leftarrow> add_elem ct tr syntax start_elem b; Some (e, t, token_len, s, b) }) }) }"

text \<open>The loop: every round takes at least a byte, and the caller gives it as many rounds as there are bytes left.\<close>

fun bracket_loop ::
  "nat \<Rightarrow> ctype \<Rightarrow> bool \<Rightarrow> (8 word \<Rightarrow> 8 word) option \<Rightarrow> reg_syntax \<Rightarrow> bool \<Rightarrow> re_token \<Rightarrow> nat \<Rightarrow> re_string \<Rightarrow> sets \<Rightarrow> round" where
  "bracket_loop 0 ct mb tr syntax first_round t token_len s b = None"
| "bracket_loop (Suc n) ct mb tr syntax first_round t token_len s b =
     do { (e, t, token_len, s, b) \<leftarrow> bracket_item ct mb tr syntax first_round t token_len s b;
          if e \<noteq> REG_NOERROR then Some (e, t, token_len, s, b)
          else if tok_type t = END_OF_RE then Some (REG_EBRACK, t, token_len, s, b)
          else if tok_type t = OP_CLOSE_BRACKET then Some (REG_NOERROR, t, token_len, s, b)
          else bracket_loop n ct mb tr syntax False t token_len s b }"

text \<open>The opening of the bracket, up to the first element.\<close>

definition bracket_start :: "re_token \<Rightarrow> re_string \<Rightarrow> reg_syntax \<Rightarrow> sets \<Rightarrow> round" where
  "bracket_start t s syntax b =
     do { (t, token_len, s) \<leftarrow> peek_token_bracket t s syntax;
          if tok_type t = END_OF_RE then Some (REG_BADPAT, t, token_len, s, b)
          else
            do { (t, token_len, s, b) \<leftarrow>
                   (if tok_type t = OP_NON_MATCH_LIST then
                      do { sb \<leftarrow> (if syn syntax RE_HAT_LISTS_NOT_NEWLINE then bitset_set (sbcset b) 10 else Some (sbcset b));
                           (t, token_len, s) \<leftarrow> peek_token_bracket t (skip_bytes token_len s) syntax;
                           Some (t, token_len, s, b\<lparr>sbcset := sb, mbcset := (mbcset b)\<lparr>non_match := True\<rparr>\<rparr>) }
                    else Some (t, token_len, s, b));
                 if tok_type t = END_OF_RE then Some (REG_BADPAT, t, token_len, s, b)
                 else Some (REG_NOERROR, if tok_type t = OP_CLOSE_BRACKET then t\<lparr>tok_type := CHARACTER\<rparr> else t, token_len, s, b) } }"

definition scan_bracket ::
  "ctype \<Rightarrow> bool \<Rightarrow> (8 word \<Rightarrow> 8 word) option \<Rightarrow> reg_syntax \<Rightarrow> re_token \<Rightarrow> re_string \<Rightarrow> sets \<Rightarrow> round" where
  "scan_bracket ct mb tr syntax t s b =
     do { (e, t, token_len, s, b) \<leftarrow> bracket_start t s syntax b;
          if e \<noteq> REG_NOERROR then Some (e, t, token_len, s, b)
          else bracket_loop (str_len s + 1) ct mb tr syntax True t token_len s b }"

text \<open>The nodes of a bracket.\<close>

definition free_node :: "nat \<Rightarrow> parser \<Rightarrow> parser option" where
  "free_node a p = do { n \<leftarrow> tree_at (comp p) a; c \<leftarrow> free_token a (tree_token n) (comp p); Some (p\<lparr>comp := c\<rparr>) }"

definition add_charset :: "re_charset \<Rightarrow> parser \<Rightarrow> token_opr \<times> parser" where
  "add_charset m p = (Mbcset (length (charsets (comp p))), p\<lparr>comp := (comp p)\<lparr>charsets := charsets (comp p) @ [m]\<rparr>, has_mb_node := True\<rparr>)"

definition complex_tree :: "ctype \<Rightarrow> sets \<Rightarrow> parser \<Rightarrow> parsed" where
  "complex_tree ct b p =
     (let (o', p) = add_charset (mbcset b) p
      in do { (mbc_tree, p) \<leftarrow> token_tree None None ((uninit ct)\<lparr>tok_type := COMPLEX_BRACKET, opr := o'\<rparr>) p;
              (case mbc_tree of
                 None \<Rightarrow> do { _ \<leftarrow> free_charset (mbcset b); failed REG_ESPACE p }
               | Some mbc \<Rightarrow>
                   if \<forall>w \<in> set (sbcset b). w = 0 then Some (Some mbc, p)
                   else
                     do { (work_tree, p) \<leftarrow> token_tree None None ((uninit ct)\<lparr>tok_type := SIMPLE_BRACKET, opr := Sbcset (sbcset b)\<rparr>) p;
                          (case work_tree of
                             None \<Rightarrow> do { p \<leftarrow> free_node mbc p; failed REG_ESPACE p }
                           | Some work \<Rightarrow>
                               do { (alt, p) \<leftarrow> type_tree (Some work) (Some mbc) OP_ALT p;
                                    if alt = None then do { p \<leftarrow> free_node work p; p \<leftarrow> free_node mbc p; failed REG_ESPACE p }
                                    else Some (alt, p) }) }) })"

definition simple_tree :: "re_token \<Rightarrow> bitset \<Rightarrow> parser \<Rightarrow> parsed" where
  "simple_tree t sb p =
     do { (work_tree, p) \<leftarrow> token_tree None None (t\<lparr>tok_type := SIMPLE_BRACKET, opr := Sbcset sb\<rparr>) p;
          if work_tree = None then failed REG_ESPACE p else Some (work_tree, p) }"

definition bracket_tree :: "ctype \<Rightarrow> sets \<Rightarrow> parser \<Rightarrow> parsed" where
  "bracket_tree ct b p =
     do { let m = mbcset b;
          sb \<leftarrow> (if non_match m then bitset_not (sbcset b) else Some (sbcset b));
          sb \<leftarrow> (if 1 < mbmax p then bitset_mask sb (sb_char p) else Some sb);
          if nmbchars m \<noteq> 0 \<or> nranges m \<noteq> 0 \<or> (1 < mbmax p \<and> (nchar_classes m \<noteq> 0 \<or> non_match m))
          then complex_tree ct (b\<lparr>sbcset := sb\<rparr>) p
          else do { _ \<leftarrow> free_charset m; simple_tree (uninit ct) sb p } }"

definition after_scan :: "re_token \<Rightarrow> re_string \<Rightarrow> sets \<Rightarrow> parser \<Rightarrow> parser" where
  "after_scan t s b p = p\<lparr>cur_token := t, input := s, comp := (comp p)\<lparr>pending := set_answers b\<rparr>\<rparr>"

definition parse_bracket_exp :: "ctype \<Rightarrow> reg_syntax \<Rightarrow> parser \<Rightarrow> parsed" where
  "parse_bracket_exp ct syntax p =
     (let (ok1, p) = parser_alloc p; (ok2, p) = parser_alloc p
      in if \<not> ok1 \<or> \<not> ok2 then failed REG_ESPACE p
         else
           do { (e, t, token_len, s, b) \<leftarrow>
                  scan_bracket ct (1 < mbmax p) (str_trans (input p)) syntax (cur_token p) (input p) (no_sets (pending (comp p)));
                if e \<noteq> REG_NOERROR then do { _ \<leftarrow> free_charset (mbcset b); failed e (after_scan t s b p) }
                else bracket_tree ct b (after_scan t (skip_bytes token_len s) b p) })"

text \<open>
  The operators that stand for a class. When the last node cannot be had, the result is a null pointer without an error: the
  code looks at the node of the multibyte set again instead of the last one.
\<close>

fun set_bytes :: "8 word list \<Rightarrow> bitset \<Rightarrow> bitset option" where
  "set_bytes [] s = Some s"
| "set_bytes (c # cs) s = do { s \<leftarrow> bitset_set s (unat c); set_bytes cs s }"

definition charclass_tree :: "bool \<Rightarrow> bitset \<Rightarrow> re_charset \<Rightarrow> parser \<Rightarrow> parsed" where
  "charclass_tree mb sb m p =
     do { (tree, p) \<leftarrow> simple_tree (blank_token SIMPLE_BRACKET) sb p;
          (case tree of
             None \<Rightarrow> do { _ \<leftarrow> free_charset m; Some (None, p) }
           | Some a \<Rightarrow>
               if \<not> mb then do { _ \<leftarrow> free_charset m; Some (tree, p) }
               else
                 do { let (o', p) = add_charset m p;
                      (mbc_tree, p) \<leftarrow> token_tree None None ((blank_token COMPLEX_BRACKET)\<lparr>opr := o'\<rparr>) p;
                      if mbc_tree = None then do { p \<leftarrow> free_node a p; _ \<leftarrow> free_charset m; failed REG_ESPACE p }
                      else type_tree tree mbc_tree OP_ALT p }) }"

definition charclass_sets :: "ctype \<Rightarrow> (8 word \<Rightarrow> 8 word) option \<Rightarrow> string \<Rightarrow> 8 word list \<Rightarrow> bool \<Rightarrow> answers \<Rightarrow> build_result" where
  "charclass_sets ct tr nm extra non os =
     do { let b = (no_sets os)\<lparr>mbcset := empty_charset\<lparr>non_match := non\<rparr>\<rparr>;
          (e, b) \<leftarrow> build_charclass ct tr nm 0 b;
          if e \<noteq> REG_NOERROR then Some (e, b)
          else do { sb \<leftarrow> set_bytes extra (sbcset b);
                    sb \<leftarrow> (if non then bitset_not sb else Some sb);
                    Some (REG_NOERROR, b\<lparr>sbcset := sb\<rparr>) } }"

definition build_charclass_op :: "ctype \<Rightarrow> (8 word \<Rightarrow> 8 word) option \<Rightarrow> string \<Rightarrow> 8 word list \<Rightarrow> bool \<Rightarrow> parser \<Rightarrow> parsed" where
  "build_charclass_op ct tr nm extra non p =
     (let (ok, p) = parser_alloc p in if \<not> ok then failed REG_ESPACE p else
      let (ok, p) = parser_alloc p in if \<not> ok then failed REG_ESPACE p else
      do { (e, b) \<leftarrow> charclass_sets ct tr nm extra non (pending (comp p));
           let p = p\<lparr>comp := (comp p)\<lparr>pending := set_answers b\<rparr>\<rparr>;
           if e \<noteq> REG_NOERROR then do { _ \<leftarrow> free_charset (mbcset b); failed e p }
           else
             do { sb \<leftarrow> (if 1 < mbmax p then bitset_mask (sbcset b) (sb_char p) else Some (sbcset b));
                  charclass_tree (1 < mbmax p) sb (mbcset b) p } })"

end
