(* ===== verification/RegParse.thy ===== *)
theory RegParse
  imports RegBracket
begin

text \<open>
  The parser of regular expressions: src/src/regex/regcomp.c, from \<open>parse\<close> to \<open>parse_dup_op\<close>, and \<open>init_word_char\<close>.

  \<^item> A function that makes a tree returns its root, \<open>None\<close> for a null pointer; the error is in the state, as the code has it
    behind \<open>err\<close>.
  \<^item> The functions call each other, and loop, as long as there are tokens: the first argument of \<open>parser_calls\<close> bounds the depth
    of the recursion, and \<open>parse\<close> passes enough for the length of the pattern.
\<close>

unbundle bit_operations_syntax

definition next_token :: "ctype \<Rightarrow> reg_syntax \<Rightarrow> parser \<Rightarrow> parser option" where
  "next_token ct syntax p =
     do { (t, s) \<leftarrow> fetch_token ct (cur_token p) (input p) syntax; Some (p\<lparr>cur_token := t, input := s\<rparr>) }"

abbreviation token_type :: "parser \<Rightarrow> re_token_type" where
  "token_type p \<equiv> tok_type (cur_token p)"

text \<open>\<open>postorder (tree, free_tree, NULL)\<close>, when there is a tree.\<close>

definition free_parsed :: "nat option \<Rightarrow> parser \<Rightarrow> parser option" where
  "free_parsed t p = (case t of None \<Rightarrow> Some p | Some a \<Rightarrow>
     do { (_, c) \<leftarrow> visit_postorder free_tree a (comp p); Some (p\<lparr>comp := c\<rparr>) })"

section \<open>Single expressions\<close>

definition leaf_tree :: "parser \<Rightarrow> parsed" where
  "leaf_tree p = do { (t, p) \<leftarrow> token_tree None None (cur_token p) p; if t = None then failed REG_ESPACE p else Some (t, p) }"

text \<open>The further bytes of a multibyte character.\<close>

fun more_bytes :: "nat \<Rightarrow> ctype \<Rightarrow> reg_syntax \<Rightarrow> nat option \<Rightarrow> parser \<Rightarrow> parsed" where
  "more_bytes 0 ct syntax tree p = None"
| "more_bytes (Suc n) ct syntax tree p =
     do { more \<leftarrow> (if eoi (input p) then Some False else map_option Not (first_byte (input p) (cur_idx (input p))));
          if \<not> more then Some (tree, p)
          else do { p \<leftarrow> next_token ct syntax p;
                    (mbc_remain, p) \<leftarrow> token_tree None None (cur_token p) p;
                    (tree, p) \<leftarrow> type_tree tree mbc_remain CONCAT p;
                    if mbc_remain = None \<or> tree = None then failed REG_ESPACE p else more_bytes n ct syntax tree p } }"

definition parse_character :: "ctype \<Rightarrow> reg_syntax \<Rightarrow> parser \<Rightarrow> parsed" where
  "parse_character ct syntax p =
     do { (tree, p) \<leftarrow> leaf_tree p;
          if tree = None then Some (None, p)
          else if 1 < mbmax p then more_bytes (str_len (input p) + 1) ct syntax tree p
          else Some (tree, p) }"

definition parse_back_ref :: "parser \<Rightarrow> parsed" where
  "parse_back_ref p =
     do { i \<leftarrow> opr_idx (opr (cur_token p));
          if completed_bkref_map (comp p) AND int_bit i = 0 then failed REG_ESUBREG p
          else do { let p = p\<lparr>comp := (comp p)\<lparr>used_bkref_map := used_bkref_map (comp p) OR int_bit i\<rparr>\<rparr>;
                    (tree, p) \<leftarrow> leaf_tree p;
                    if tree = None then Some (None, p) else Some (tree, p\<lparr>nbackref := nbackref p + 1, has_mb_node := True\<rparr>) } }"

text \<open>The bytes that belong to words. Those of the ASCII half are known, unless the locale maps them otherwise.\<close>

definition init_word_char :: "ctype \<Rightarrow> parser \<Rightarrow> parser option" where
  "init_word_char ct p =
     do { let p = p\<lparr>word_ops_used := True\<rparr>;
          let general_case = (\<lambda>ch ws. set_where (\<lambda>i. IS_WORD_CHAR ct (word_of_nat i)) (\<lambda>i. i) ch (SBC_MAX - ch) ws);
          ws \<leftarrow> (if \<not> map_notascii p then
                   do { ws \<leftarrow> mem_write (word_chars p) 0 [0x03ff000000000000];
                        ws \<leftarrow> mem_write ws 1 [0x07fffffe87fffffe];
                        if is_utf8 p then mem_write ws 2 [0, 0] else general_case 128 ws }
                 else general_case 0 (word_chars p));
          Some (p\<lparr>word_chars := ws\<rparr>) }"

fun anchor_ctx :: "token_opr \<Rightarrow> 32 word option" where
  "anchor_ctx (Ctx_type w) = Some w"
| "anchor_ctx _ = None"

definition with_ctx :: "32 word \<Rightarrow> parser \<Rightarrow> parser" where
  "with_ctx w p = p\<lparr>cur_token := (cur_token p)\<lparr>opr := Ctx_type w\<rparr>\<rparr>"

text \<open>A word delimiter is the start or the end of a word, its opposite two characters inside or outside of one.\<close>

definition delim_tree :: "32 word \<Rightarrow> 32 word \<Rightarrow> parser \<Rightarrow> parsed" where
  "delim_tree w1 w2 p =
     do { let p = with_ctx w1 p;
          (tree_first, p) \<leftarrow> token_tree None None (cur_token p) p;
          let p = with_ctx w2 p;
          (tree_last, p) \<leftarrow> token_tree None None (cur_token p) p;
          (tree, p) \<leftarrow> type_tree tree_first tree_last OP_ALT p;
          if tree_first = None \<or> tree_last = None \<or> tree = None then failed REG_ESPACE p else Some (tree, p) }"

definition parse_anchor :: "ctype \<Rightarrow> reg_syntax \<Rightarrow> parser \<Rightarrow> parsed" where
  "parse_anchor ct syntax p =
     do { w \<leftarrow> anchor_ctx (opr (cur_token p));
          p \<leftarrow> (if w AND (WORD_DELIM OR NOT_WORD_DELIM OR WORD_FIRST OR WORD_LAST) \<noteq> 0 \<and> \<not> word_ops_used p
               then init_word_char ct p else Some p);
          (tree, p) \<leftarrow> (if w = WORD_DELIM then delim_tree WORD_FIRST WORD_LAST p
                       else if w = NOT_WORD_DELIM then delim_tree INSIDE_WORD INSIDE_NOTWORD p
                       else leaf_tree p);
          if tree = None then Some (None, p) else do { p \<leftarrow> next_token ct syntax p; Some (tree, p) } }"

definition parse_period :: "parser \<Rightarrow> parsed" where
  "parse_period p =
     do { (tree, p) \<leftarrow> leaf_tree p;
          if tree = None then Some (None, p) else Some (tree, if 1 < mbmax p then p\<lparr>has_mb_node := True\<rparr> else p) }"

text \<open>A token that is taken as the character it is written with.\<close>

definition parse_as_character :: "parser \<Rightarrow> parsed" where
  "parse_as_character p = leaf_tree (p\<lparr>cur_token := (cur_token p)\<lparr>tok_type := CHARACTER\<rparr>\<rparr>)"

definition parse_atom :: "ctype \<Rightarrow> reg_syntax \<Rightarrow> parser \<Rightarrow> parsed" where
  "parse_atom ct syntax p =
     (let ty = token_type p; tr = str_trans (input p)
      in if ty = CHARACTER then parse_character ct syntax p
         else if ty = OP_OPEN_BRACKET then parse_bracket_exp ct syntax p
         else if ty = OP_BACK_REF then parse_back_ref p
         else if ty = OP_PERIOD then parse_period p
         else if ty \<in> {OP_WORD, OP_NOTWORD} then build_charclass_op ct tr ''alnum'' [0x5F] (ty = OP_NOTWORD) p
         else if ty \<in> {OP_SPACE, OP_NOTSPACE} then build_charclass_op ct tr ''space'' [] (ty = OP_NOTSPACE) p
         else if ty = OP_CLOSE_SUBEXP \<and> \<not> syn syntax RE_UNMATCHED_RIGHT_PAREN_ORD then failed REG_ERPAREN p
         else parse_as_character p)"

section \<open>Repetitions\<close>

datatype bounds = Bounds int int | Rollback | Bad reg_errcode

definition is_comma :: "re_token \<Rightarrow> bool" where
  "is_comma t \<longleftrightarrow> tok_type t = CHARACTER \<and> opr_byte (opr t) = Some 0x2C"

definition interval_end :: "ctype \<Rightarrow> reg_syntax \<Rightarrow> int \<Rightarrow> re_token \<Rightarrow> re_string \<Rightarrow> (int \<times> re_token \<times> re_string) option" where
  "interval_end ct syntax start t s =
     (if start = -2 then Some (0, t, s)
      else if tok_type t = OP_CLOSE_DUP_NUM then Some (start, t, s)
      else if is_comma t then fetch_number ct t s syntax
      else Some (-2, t, s))"

definition judge_interval :: "reg_syntax \<Rightarrow> int \<Rightarrow> int \<Rightarrow> re_token \<Rightarrow> bounds" where
  "judge_interval syntax start end t =
     (if start = -2 \<or> end = -2 then
        (if \<not> syn syntax RE_INVALID_INTERVAL_ORD then Bad (if tok_type t = END_OF_RE then REG_EBRACE else REG_BADBR) else Rollback)
      else if (end \<noteq> -1 \<and> end < start) \<or> tok_type t \<noteq> OP_CLOSE_DUP_NUM then Bad REG_BADBR
      else if RE_DUP_MAX < (if end = -1 then start else end) then Bad REG_ESIZE
      else Bounds start end)"

definition parse_interval :: "ctype \<Rightarrow> reg_syntax \<Rightarrow> re_token \<Rightarrow> re_string \<Rightarrow> (bounds \<times> re_token \<times> re_string) option" where
  "parse_interval ct syntax t s =
     do { (start, t, s) \<leftarrow> fetch_number ct t s syntax;
          if start = -1 \<and> \<not> is_comma t then Some (Bad REG_BADBR, t, s)
          else do { let start = (if start = -1 then 0 else start);
                    (end', t, s) \<leftarrow> interval_end ct syntax start t s;
                    Some (judge_interval syntax start end' t, t, s) } }"

text \<open>The copies that are mandatory: the last one and the tree so far.\<close>

fun mandatory_copies :: "nat \<Rightarrow> nat \<Rightarrow> nat \<Rightarrow> compiler \<Rightarrow> ((nat \<times> nat) option \<times> compiler) option" where
  "mandatory_copies 0 elem tree c = Some (Some (elem, tree), c)"
| "mandatory_copies (Suc n) elem tree c =
     do { (elem', c) \<leftarrow> duplicate_tree elem c;
          (tree', c) \<leftarrow> create_tree (Some tree) elem' CONCAT c;
          (case (elem', tree') of (Some e, Some t) \<Rightarrow> mandatory_copies n e t c | _ \<Rightarrow> Some (None, c)) }"

fun optional_copies :: "nat \<Rightarrow> nat \<Rightarrow> nat \<Rightarrow> compiler \<Rightarrow> (nat option \<times> compiler) option" where
  "optional_copies 0 elem tree c = Some (Some tree, c)"
| "optional_copies (Suc n) elem tree c =
     do { (elem', c) \<leftarrow> duplicate_tree elem c;
          (tree', c) \<leftarrow> create_tree (Some tree) elem' CONCAT c;
          (case (elem', tree') of
             (Some e, Some t) \<Rightarrow>
               do { (tree'', c) \<leftarrow> create_tree (Some t) None OP_ALT c;
                    (case tree'' of Some t \<Rightarrow> optional_copies n e t c | None \<Rightarrow> Some (None, c)) }
           | _ \<Rightarrow> Some (None, c)) }"

definition mark_optional :: "nat \<Rightarrow> compiler \<Rightarrow> compiler option" where
  "mark_optional elem c =
     do { n \<leftarrow> tree_at c elem;
          if tok_type (tree_token n) = SUBEXP then
            do { subidx \<leftarrow> opr_idx (opr (tree_token n)); (_, c) \<leftarrow> visit_postorder (mark_opt_subexp subidx) elem c; Some c }
          else Some c }"

text \<open>What follows the mandatory copies \<open>old_tree\<close>. The last node is created without a look at the result: when it cannot be
  had there is a null pointer and no error.\<close>

type_synonym repeated = "(reg_errcode \<times> nat option \<times> compiler) option"

definition optional_part :: "int \<Rightarrow> int \<Rightarrow> nat \<Rightarrow> nat option \<Rightarrow> compiler \<Rightarrow> repeated" where
  "optional_part start end elem old_tree c =
     do { c \<leftarrow> mark_optional elem c;
          (tree, c) \<leftarrow> create_tree (Some elem) None (if end = -1 then OP_DUP_ASTERISK else OP_ALT) c;
          (case tree of
             None \<Rightarrow> Some (REG_ESPACE, None, c)
           | Some t \<Rightarrow>
               do { (tree, c) \<leftarrow> optional_copies (nat (end - start - 1)) elem t c;
                    if tree = None then Some (REG_ESPACE, None, c)
                    else if old_tree = None then Some (REG_NOERROR, tree, c)
                    else do { (tree, c) \<leftarrow> create_tree old_tree tree CONCAT c; Some (REG_NOERROR, tree, c) } }) }"

definition repeat_tree :: "int \<Rightarrow> int \<Rightarrow> nat \<Rightarrow> compiler \<Rightarrow> repeated" where
  "repeat_tree start end elem c =
     (if 0 < start then
        do { (r, c) \<leftarrow> mandatory_copies (nat (start - 1)) elem elem c;
             (case r of
                None \<Rightarrow> Some (REG_ESPACE, None, c)
              | Some (elem, tree) \<Rightarrow>
                  if start = end then Some (REG_NOERROR, Some tree, c)
                  else do { (elem, c) \<leftarrow> duplicate_tree elem c;
                            (case elem of None \<Rightarrow> Some (REG_ESPACE, None, c) | Some e \<Rightarrow> optional_part start end e (Some tree) c) }) }
      else optional_part start end elem None c)"

definition repeat_parsed :: "int \<Rightarrow> int \<Rightarrow> nat option \<Rightarrow> parser \<Rightarrow> parsed" where
  "repeat_parsed start end elem p =
     (case elem of
        None \<Rightarrow> Some (None, p)
      | Some a \<Rightarrow>
          if start = 0 \<and> end = 0 then do { p \<leftarrow> free_parsed elem p; Some (None, p) }
          else do { (e, tree, c) \<leftarrow> repeat_tree start end a (comp p);
                    let p = p\<lparr>comp := c\<rparr>;
                    if e \<noteq> REG_NOERROR then failed e p else Some (tree, p) })"

definition parse_dup_op :: "ctype \<Rightarrow> reg_syntax \<Rightarrow> nat option \<Rightarrow> parser \<Rightarrow> parsed" where
  "parse_dup_op ct syntax elem p =
     do { let ty = token_type p;
          (b, t, s) \<leftarrow> (if ty = OP_OPEN_DUP_NUM then parse_interval ct syntax (cur_token p) (input p)
                       else Some (Bounds (if ty = OP_DUP_PLUS then 1 else 0) (if ty = OP_DUP_QUESTION then 1 else -1), cur_token p, input p));
          (case b of
             Bad e \<Rightarrow> failed e (p\<lparr>cur_token := t, input := s\<rparr>)
           | Rollback \<Rightarrow> Some (elem, p\<lparr>cur_token := (cur_token p)\<lparr>tok_type := CHARACTER\<rparr>, input := s\<lparr>cur_idx := cur_idx (input p)\<rparr>\<rparr>)
           | Bounds start end' \<Rightarrow>
               do { p \<leftarrow> next_token ct syntax (p\<lparr>cur_token := t, input := s\<rparr>); repeat_parsed start end' elem p }) }"

definition is_repeat :: "re_token_type \<Rightarrow> bool" where
  "is_repeat ty \<longleftrightarrow> ty \<in> {OP_DUP_ASTERISK, OP_DUP_PLUS, OP_DUP_QUESTION, OP_OPEN_DUP_NUM}"

fun dup_loop :: "nat \<Rightarrow> ctype \<Rightarrow> reg_syntax \<Rightarrow> nat option \<Rightarrow> parser \<Rightarrow> parsed" where
  "dup_loop 0 ct syntax tree p = None"
| "dup_loop (Suc n) ct syntax tree p =
     (if \<not> is_repeat (token_type p) then Some (tree, p)
      else do { (dup_tree, p) \<leftarrow> parse_dup_op ct syntax tree p;
                if perr p \<noteq> REG_NOERROR \<and> dup_tree = None then do { p \<leftarrow> free_parsed tree p; Some (None, p) }
                else if syn syntax RE_CONTEXT_INVALID_DUP \<and> token_type p \<in> {OP_DUP_ASTERISK, OP_OPEN_DUP_NUM}
                then do { p \<leftarrow> free_parsed dup_tree p; failed REG_BADRPT p }
                else dup_loop n ct syntax dup_tree p })"

text \<open>The end of \<open>parse_expression\<close>: the next token, and the repetitions.\<close>

definition with_dups :: "ctype \<Rightarrow> reg_syntax \<Rightarrow> parsed \<Rightarrow> parsed" where
  "with_dups ct syntax r =
     do { (tree, p) \<leftarrow> r;
          if perr p \<noteq> REG_NOERROR \<and> tree = None then Some (None, p)
          else do { p \<leftarrow> next_token ct syntax p; dup_loop (str_len (input p) + 2) ct syntax tree p } }"

section \<open>Expressions, branches and alternatives\<close>

definition branch_ends :: "nat \<Rightarrow> re_token_type \<Rightarrow> bool" where
  "branch_ends nest ty \<longleftrightarrow> ty = OP_ALT \<or> ty = END_OF_RE \<or> (nest \<noteq> 0 \<and> ty = OP_CLOSE_SUBEXP)"

text \<open>Two expressions in a row.\<close>

definition join_branch :: "nat option \<Rightarrow> nat option \<Rightarrow> parser \<Rightarrow> parsed" where
  "join_branch tree expr p =
     (if tree \<noteq> None \<and> expr \<noteq> None then
        do { (newtree, p) \<leftarrow> type_tree tree expr CONCAT p;
             if newtree = None then do { p \<leftarrow> free_parsed expr p; p \<leftarrow> free_parsed tree p; failed REG_ESPACE p }
             else Some (newtree, p) }
      else Some (if tree = None then expr else tree, p))"

definition close_sub_exp :: "nat \<Rightarrow> nat option \<Rightarrow> parser \<Rightarrow> parsed" where
  "close_sub_exp cur_nsub tree p =
     do { let p = (if cur_nsub \<le> 8 then p\<lparr>comp := (comp p)\<lparr>completed_bkref_map := completed_bkref_map (comp p) OR int_bit (int cur_nsub)\<rparr>\<rparr> else p);
          (tree, p) \<leftarrow> type_tree tree None SUBEXP p;
          (case tree of
             None \<Rightarrow> failed REG_ESPACE p
           | Some a \<Rightarrow>
               do { c \<leftarrow> update_tree a (\<lambda>n. n\<lparr>tree_token := (tree_token n)\<lparr>opr := Idx_opr (int cur_nsub)\<rparr>\<rparr>) (comp p);
                    Some (tree, p\<lparr>comp := c\<rparr>) }) }"

definition set_completed :: "64 word \<Rightarrow> parser \<Rightarrow> parser" where
  "set_completed w p = p\<lparr>comp := (comp p)\<lparr>completed_bkref_map := w\<rparr>\<rparr>"

abbreviation here :: "reg_syntax \<Rightarrow> reg_syntax" where
  "here syntax \<equiv> syntax OR RE_CARET_ANCHORS_HERE"

text \<open>
  The functions that call each other, with what they call as an argument: \<open>rec c\<close> is the call \<open>c\<close>. \<open>parse_alts\<close> and \<open>parse_exprs\<close>
  are the loops of \<open>parse_reg_exp\<close> and \<open>parse_branch\<close>.
\<close>

datatype call = Reg_exp nat | Alts nat "64 word" "nat option" | Branch nat | Exprs nat "nat option" | Expression nat | Sub_exp nat

type_synonym calls = "call \<Rightarrow> parser \<Rightarrow> parsed"

definition parse_reg_exp :: "calls \<Rightarrow> nat \<Rightarrow> parser \<Rightarrow> parsed" where
  "parse_reg_exp rec nest p =
     do { let initial_bkref_map = completed_bkref_map (comp p);
          (tree, p) \<leftarrow> rec (Branch nest) p;
          if perr p \<noteq> REG_NOERROR \<and> tree = None then Some (None, p) else rec (Alts nest initial_bkref_map tree) p }"

text \<open>The branch behind an \<open>OP_ALT\<close>, if there is one, and whether it failed.\<close>

definition next_branch :: "calls \<Rightarrow> nat \<Rightarrow> 64 word \<Rightarrow> parser \<Rightarrow> (bool \<times> nat option \<times> parser) option" where
  "next_branch rec nest initial_bkref_map p =
     (if branch_ends nest (token_type p) then Some (False, None, p)
      else do { let accumulated_bkref_map = completed_bkref_map (comp p);
                (branch, p) \<leftarrow> rec (Branch nest) (set_completed initial_bkref_map p);
                if perr p \<noteq> REG_NOERROR \<and> branch = None then Some (True, None, p)
                else Some (False, branch, set_completed (completed_bkref_map (comp p) OR accumulated_bkref_map) p) })"

definition parse_alts :: "ctype \<Rightarrow> reg_syntax \<Rightarrow> calls \<Rightarrow> nat \<Rightarrow> 64 word \<Rightarrow> nat option \<Rightarrow> parser \<Rightarrow> parsed" where
  "parse_alts ct syntax rec nest initial_bkref_map tree p =
     (if token_type p \<noteq> OP_ALT then Some (tree, p)
      else
        do { p \<leftarrow> next_token ct (here syntax) p;
             (stop, branch, p) \<leftarrow> next_branch rec nest initial_bkref_map p;
             if stop then do { p \<leftarrow> free_parsed tree p; Some (None, p) }
             else do { (tree, p) \<leftarrow> type_tree tree branch OP_ALT p;
                       if tree = None then failed REG_ESPACE p else rec (Alts nest initial_bkref_map tree) p } })"

definition parse_branch :: "calls \<Rightarrow> nat \<Rightarrow> parser \<Rightarrow> parsed" where
  "parse_branch rec nest p =
     do { (tree, p) \<leftarrow> rec (Expression nest) p;
          if perr p \<noteq> REG_NOERROR \<and> tree = None then Some (None, p) else rec (Exprs nest tree) p }"

definition parse_exprs :: "calls \<Rightarrow> nat \<Rightarrow> nat option \<Rightarrow> parser \<Rightarrow> parsed" where
  "parse_exprs rec nest tree p =
     (if branch_ends nest (token_type p) then Some (tree, p)
      else do { (expr, p) \<leftarrow> rec (Expression nest) p;
                if perr p \<noteq> REG_NOERROR \<and> expr = None then do { p \<leftarrow> free_parsed tree p; Some (None, p) }
                else do { (newtree, p) \<leftarrow> join_branch tree expr p;
                          if perr p \<noteq> REG_NOERROR \<and> newtree = None then Some (None, p) else rec (Exprs nest newtree) p } })"

text \<open>The operators of repetition where there is nothing to repeat.\<close>

definition parse_stray_repeat :: "ctype \<Rightarrow> reg_syntax \<Rightarrow> calls \<Rightarrow> nat \<Rightarrow> parser \<Rightarrow> parsed" where
  "parse_stray_repeat ct syntax rec nest p =
     (if (token_type p = OP_OPEN_DUP_NUM \<and> syn syntax RE_CONTEXT_INVALID_DUP) \<or> syn syntax RE_CONTEXT_INVALID_OPS
      then failed REG_BADRPT p
      else if syn syntax RE_CONTEXT_INDEP_OPS then do { p \<leftarrow> next_token ct syntax p; rec (Expression nest) p }
      else with_dups ct syntax (parse_as_character p))"

definition parse_expression :: "ctype \<Rightarrow> reg_syntax \<Rightarrow> calls \<Rightarrow> nat \<Rightarrow> parser \<Rightarrow> parsed" where
  "parse_expression ct syntax rec nest p =
     (let ty = token_type p
      in if ty = OP_OPEN_SUBEXP then with_dups ct syntax (rec (Sub_exp (nest + 1)) p)
         else if ty = ANCHOR then parse_anchor ct syntax p
         else if ty = OP_ALT \<or> ty = END_OF_RE then Some (None, p)
         else if ty = BACK_SLASH then failed REG_EESCAPE p
         else if is_repeat ty then parse_stray_repeat ct syntax rec nest p
         else with_dups ct syntax (parse_atom ct syntax p))"

definition parse_sub_exp :: "ctype \<Rightarrow> reg_syntax \<Rightarrow> calls \<Rightarrow> nat \<Rightarrow> parser \<Rightarrow> parsed" where
  "parse_sub_exp ct syntax rec nest p =
     do { let cur_nsub = re_nsub (comp p);
          p \<leftarrow> next_token ct (here syntax) (p\<lparr>comp := (comp p)\<lparr>re_nsub := cur_nsub + 1\<rparr>\<rparr>);
          if token_type p = OP_CLOSE_SUBEXP then close_sub_exp cur_nsub None p
          else do { (tree, p) \<leftarrow> rec (Reg_exp nest) p;
                    if perr p = REG_NOERROR \<and> token_type p \<noteq> OP_CLOSE_SUBEXP
                    then do { p \<leftarrow> free_parsed tree p; failed REG_EPAREN p }
                    else if perr p \<noteq> REG_NOERROR then Some (None, p)
                    else close_sub_exp cur_nsub tree p } }"

primrec parser_calls :: "nat \<Rightarrow> ctype \<Rightarrow> reg_syntax \<Rightarrow> calls" where
  "parser_calls 0 ct syntax = (\<lambda>c p. None)"
| "parser_calls (Suc n) ct syntax =
     (\<lambda>c p. case c of
        Reg_exp nest \<Rightarrow> parse_reg_exp (parser_calls n ct syntax) nest p
      | Alts nest m tree \<Rightarrow> parse_alts ct syntax (parser_calls n ct syntax) nest m tree p
      | Branch nest \<Rightarrow> parse_branch (parser_calls n ct syntax) nest p
      | Exprs nest tree \<Rightarrow> parse_exprs (parser_calls n ct syntax) nest tree p
      | Expression nest \<Rightarrow> parse_expression ct syntax (parser_calls n ct syntax) nest p
      | Sub_exp nest \<Rightarrow> parse_sub_exp ct syntax (parser_calls n ct syntax) nest p)"

definition parse :: "ctype \<Rightarrow> reg_syntax \<Rightarrow> parser \<Rightarrow> parsed" where
  "parse ct syntax p =
     do { p \<leftarrow> next_token ct (here syntax) (p\<lparr>dfa_syntax := syntax, cur_token := uninit ct\<rparr>);
          (tree, p) \<leftarrow> parser_calls (4 * str_len (input p) + 8) ct syntax (Reg_exp 0) p;
          if perr p \<noteq> REG_NOERROR \<and> tree = None then Some (None, p)
          else do { (eor, p) \<leftarrow> type_tree None None END_OF_RE p;
                    (root, p) \<leftarrow> (if tree \<noteq> None then type_tree tree eor CONCAT p else Some (eor, p));
                    if eor = None \<or> root = None then failed REG_ESPACE p else Some (root, p) } }"

end
