(* ===== verification/RegRepeat.thy ===== *)
theory RegRepeat
  imports RegShape RegParse
begin

text \<open>
  The repetitions of src/src/regex/regcomp.c (\<open>parse_dup_op\<close> behind the interval): the copies of the element and the nodes over
  them are a well-formed tree, or memory has run out and the element is still part of a tree that can be released.
\<close>

section \<open>Repetitions\<close>

text \<open>The nodes below \<open>n0\<close> are not touched.\<close>

definition kept :: "nat \<Rightarrow> compiler \<Rightarrow> compiler \<Rightarrow> bool" where
  "kept n0 c c' \<longleftrightarrow> only_nodes c c' \<and> length (tree_nodes c) \<le> length (tree_nodes c') \<and> (\<forall>i < n0. tree_nodes c' ! i = tree_nodes c ! i)"

lemma kept_refl [simp]: "kept n0 c c"
  by (simp add: kept_def)

lemma kept_trans: "kept n0 c d \<Longrightarrow> kept n0 d e \<Longrightarrow> kept n0 c e"
  using only_nodes_trans by (auto simp: kept_def)

lemma kept_heap: "kept n0 c c' \<Longrightarrow> heap_ok c \<Longrightarrow> heap_ok c'"
  using only_nodes_heap by (auto simp: kept_def)

lemma sub_ok_weaken: "sub_ok True n0 c par p t \<Longrightarrow> sub_ok False n0 c par p t"
proof -
  have "shaped True ns cs subs t \<Longrightarrow> shaped False ns cs subs t" for ns cs subs by (induction t) auto
  then show "sub_ok True n0 c par p t \<Longrightarrow> sub_ok False n0 c par p t" by (simp add: sub_ok_def)
qed

lemma sub_ok_only_nodes:
  assumes "sub_ok k n0 c par p t" and "only_nodes c c'" and "\<And>i. i \<in> set_tree t \<Longrightarrow> tree_nodes c' ! i = tree_nodes c ! i"
    and "length (tree_nodes c) \<le> length (tree_nodes c')"
  shows "sub_ok k n0 c' par p t"
  by (rule sub_ok_frame [OF assms(1,3,4)]) (use assms(1) only_nodes_fields [OF assms(2)] in \<open>auto simp: sub_ok_def\<close>)

lemma dup_ok:
  assumes t: "sub_ok k n0 c par (Some a) t" and out: "climbs_out (tree_nodes c) a par" and heap: "heap_ok c" and n0: "n0 \<le> length (tree_nodes c)"
  obtains (none) c' where "duplicate_tree a c = Some (None, c')" "kept (length (tree_nodes c)) c c'"
  | (some) c' t' where "duplicate_tree a c = Some (Some (length (tree_nodes c)), c')" "kept (length (tree_nodes c)) c c'"
      "sub_ok k n0 c' par (Some (length (tree_nodes c))) t'" "set_tree t' = {length (tree_nodes c)..<length (tree_nodes c')}"
proof -
  have lk: "linked (tree_nodes c) par (Some a) t" and d: "distinct_tree t" using t by (auto simp: sub_ok_def)
  show ?thesis
  proof (rule duplicate_tree_ok [OF lk d out], goal_cases)
    case (1 c')
    then show ?thesis using none [of c'] by (auto simp: kept_def)
  next
    case (2 c' t')
    then have "sub_ok k n0 c' par (Some (length (tree_nodes c))) t'"
      using t shaped_copy [of "tree_nodes c" "tree_nodes c'" par t t'] only_nodes_fields [of c c'] n0 heap
      by (auto simp: sub_ok_def heap_ok_def copy_ok_def)
    then show ?thesis using some [of c' t'] 2 by (auto simp: kept_def)
  qed
qed

text \<open>The last copy is the tree itself or its right child, so that it can be duplicated again.\<close>

definition last_copy :: "nat \<Rightarrow> compiler \<Rightarrow> nat \<Rightarrow> nat \<Rightarrow> nat tree \<Rightarrow> bool" where
  "last_copy n0 c e T tt \<longleftrightarrow> tree_ok n0 c (Some T) tt \<and> (e = T \<or> (\<exists>l te. tt = Node l T te \<and> root_at te = Some e))"

lemma last_copy_sub:
  assumes "last_copy n0 c e T tt"
  shows "\<exists>par te. sub_ok True n0 c par (Some e) te \<and> climbs_out (tree_nodes c) e par \<and> set_tree te \<subseteq> set_tree tt \<and> te \<noteq> Leaf
     \<and> (if e = T then par = None else par = Some T)"
proof (cases "e = T")
  case True
  then show ?thesis using assms sub_ok_root by (intro exI [of _ None] exI [of _ tt]) (auto simp: last_copy_def intro: climbs_out.top)
next
  case False
  then obtain l te where tt: "tt = Node l T te" "root_at te = Some e" and ok: "tree_ok n0 c (Some T) tt" using assms by (auto simp: last_copy_def)
  have lk: "linked (tree_nodes c) (Some T) (tree_right (tree_nodes c ! T)) te" "tree_parent (tree_nodes c ! T) = None" "T < length (tree_nodes c)"
    using ok tt by (auto simp: sub_ok_def)
  have r: "tree_right (tree_nodes c ! T) = Some e" using linked_root_at [OF lk(1)] tt(2) by simp
  have "sub_ok True n0 c (Some T) (Some e) te" using ok tt lk(1) r by (auto simp: sub_ok_def)
  moreover have "climbs_out (tree_nodes c) e (Some T)" using climbs_out.up [of T "tree_nodes c" e] climbs_out.top [of "tree_nodes c" T] lk r by simp
  ultimately show ?thesis using tt False by (intro exI [of _ "Some T"] exI [of _ te]) auto
qed

abbreviation inside_of :: "nat \<Rightarrow> compiler \<Rightarrow> nat set \<Rightarrow> bool" where
  "inside_of n0 c A \<equiv> (\<exists>R t. sub_ok False n0 c None (Some R) t \<and> A \<subseteq> set_tree t)"

lemma blank_typed [simp]: "ty \<in> {CONCAT, OP_ALT, OP_DUP_ASTERISK} \<Longrightarrow> typed cs subs (blank_token ty)"
  by (auto simp: typed_def blank_token_def)

lemma blank_type [simp]: "tok_type (blank_token ty) = ty"
  by (simp add: blank_token_def)

lemma only_nodes_kept:
  assumes "only_nodes c c'" and "length (tree_nodes c) \<le> length (tree_nodes c')"
    and "\<And>i. i < n0 \<Longrightarrow> tree_nodes c' ! i = tree_nodes c ! i"
  shows "kept n0 c c'"
  using assms by (simp add: kept_def)

lemma root_ge: "sub_ok k n0 c par (Some a) t \<Longrightarrow> n0 \<le> a"
  using sub_ok_root [of k n0 c par "Some a" t] root_in [of t a] by (auto simp: sub_ok_def)

text \<open>A copy that could not be had: the code still makes the node over it.\<close>

lemma join_none:
  assumes t: "tree_ok n0 c (Some T) tt" and heap: "heap_ok c" and n0: "n0 \<le> length (tree_nodes c)"
  shows "\<exists>r c'. create_tree (Some T) None CONCAT c = Some (r, c') \<and> kept n0 c c' \<and> inside_of n0 c' (set_tree tt)"
proof -
  have t': "sub_ok False n0 c None (Some T) tt" by (rule sub_ok_weaken [OF t])
  have leaf: "sub_ok False n0 c None None Leaf" by simp
  have T: "n0 \<le> T" by (rule root_ge [OF t])
  show ?thesis
    unfolding create_tree_def
  proof (rule join_ok [OF t' leaf _ heap n0, of "blank_token CONCAT"], simp_all, goal_cases)
    case (1 c')
    have "sub_ok False n0 c' None (Some T) tt" by (rule sub_ok_only_nodes [OF t' 1(2)]) (use 1(3) in simp_all)
    then show ?case using 1(1-3) by (auto simp: kept_def)
  next
    case (2 c')
    then have "inside_of n0 c' (set_tree tt)"
      by (intro exI [of _ "length (tree_nodes c)"] exI [of _ "Node tt (length (tree_nodes c)) Leaf"]) auto
    then show ?case using 2(1-3,5) T n0 by (auto simp: kept_def)
  qed
qed

lemma mandatory_ok:
  "last_copy n0 c e T tt \<Longrightarrow> heap_ok c \<Longrightarrow> n0 \<le> length (tree_nodes c) \<Longrightarrow>
     \<exists>r c'. mandatory_copies n e T c = Some (r, c') \<and> kept n0 c c'
       \<and> (case r of None \<Rightarrow> inside_of n0 c' (set_tree tt)
          | Some (e', T') \<Rightarrow> \<exists>tt'. last_copy n0 c' e' T' tt' \<and> set_tree tt \<subseteq> set_tree tt')"
proof (induction n arbitrary: c e T tt)
  case 0
  then show ?case by auto
next
  case (Suc n)
  have tt: "tree_ok n0 c (Some T) tt" using Suc.prems(1) by (simp add: last_copy_def)
  obtain par te where te: "sub_ok True n0 c par (Some e) te" "climbs_out (tree_nodes c) e par" using last_copy_sub [OF Suc.prems(1)] by blast
  show ?case
  proof (rule dup_ok [OF te Suc.prems(2,3)], goal_cases)
    case (1 c1)
    have k1: "kept n0 c c1" using 1(2) Suc.prems(3) by (auto simp: kept_def)
    have "tree_ok n0 c1 (Some T) tt"
      by (rule sub_ok_only_nodes [OF tt]) (use 1(2) sub_ok_lt [OF tt] in \<open>auto simp: kept_def\<close>)
    from join_none [OF this kept_heap [OF k1 Suc.prems(2)]] obtain r c2 where
      "create_tree (Some T) None CONCAT c1 = Some (r, c2)" "kept n0 c1 c2" "inside_of n0 c2 (set_tree tt)"
      using k1 Suc.prems(3) by (auto simp: kept_def)
    then show ?thesis using 1(1) kept_trans [OF k1] by (intro exI [of _ None] exI [of _ c2]) simp
  next
    case (2 c1 t1)
    let ?d = "length (tree_nodes c)"
    have k1: "kept n0 c c1" using 2(2) Suc.prems(3) by (auto simp: kept_def)
    have h1: "heap_ok c1" by (rule kept_heap [OF k1 Suc.prems(2)])
    have n1: "n0 \<le> length (tree_nodes c1)" using k1 Suc.prems(3) by (simp add: kept_def)
    have tt1: "tree_ok n0 c1 (Some T) tt"
      by (rule sub_ok_only_nodes [OF tt]) (use 2(2) sub_ok_lt [OF tt] in \<open>auto simp: kept_def\<close>)
    have disj: "set_tree tt \<inter> set_tree t1 = {}" using sub_ok_lt [OF tt] 2(4) by fastforce
    have nl: "tt \<noteq> Leaf" "t1 \<noteq> Leaf" using sub_ok_root [OF tt] sub_ok_root [OF 2(3)] by auto
    have T: "n0 \<le> T" by (rule root_ge [OF tt])
    have "\<exists>r c2. create_token_tree (Some T) (Some ?d) (blank_token CONCAT) c1 = Some (r, c2) \<and> kept n0 c1 c2
        \<and> (case r of None \<Rightarrow> inside_of n0 c2 (set_tree tt) | Some N \<Rightarrow> \<exists>tt'. last_copy n0 c2 ?d N tt' \<and> set_tree tt \<subseteq> set_tree tt')"
    proof (rule join_ok [OF tt1 2(3) disj h1 n1, of "blank_token CONCAT"], goal_cases)
      case (3 c2)
      have "sub_ok False n0 c2 None (Some T) tt"
        by (rule sub_ok_only_nodes [OF sub_ok_weaken [OF tt1] 3(2)]) (use 3(3) in simp_all)
      then show ?case using 3 by (auto simp: kept_def)
    next
      case (4 c2)
      have "root_at t1 = Some ?d" using sub_ok_root [OF 2(3)] by simp
      then have "last_copy n0 c2 ?d (length (tree_nodes c1)) (Node tt (length (tree_nodes c1)) t1)"
        unfolding last_copy_def using 4(4) by auto
      moreover have "kept n0 c1 c2" using 4 T Suc.prems(3) n1 by (auto simp: kept_def)
      ultimately show ?case using 4(1) by (intro exI [of _ "Some (length (tree_nodes c1))"] exI [of _ c2]) auto
    qed (use nl in \<open>simp_all add: fits_def\<close>)
    then obtain r c2 where c2: "create_tree (Some T) (Some ?d) CONCAT c1 = Some (r, c2)" "kept n0 c1 c2"
      "case r of None \<Rightarrow> inside_of n0 c2 (set_tree tt) | Some N \<Rightarrow> \<exists>tt'. last_copy n0 c2 ?d N tt' \<and> set_tree tt \<subseteq> set_tree tt'"
      unfolding create_tree_def by blast
    have k2: "kept n0 c c2" by (rule kept_trans [OF k1 c2(2)])
    show ?thesis
    proof (cases r)
      case None
      then show ?thesis using 2(1) c2 k2 by (intro exI [of _ None] exI [of _ c2]) simp
    next
      case (Some N)
      then obtain tt' where tt': "last_copy n0 c2 ?d N tt'" "set_tree tt \<subseteq> set_tree tt'" using c2(3) by auto
      have "n0 \<le> length (tree_nodes c2)" using k2 Suc.prems(3) by (simp add: kept_def)
      from Suc.IH [OF tt'(1) kept_heap [OF k2 Suc.prems(2)] this] obtain r' c3 where
        c3: "mandatory_copies n ?d N c2 = Some (r', c3)" "kept n0 c2 c3"
          "case r' of None \<Rightarrow> inside_of n0 c3 (set_tree tt') | Some (e', T') \<Rightarrow> \<exists>tt''. last_copy n0 c3 e' T' tt'' \<and> set_tree tt' \<subseteq> set_tree tt''"
        by blast
      have "case r' of None \<Rightarrow> inside_of n0 c3 (set_tree tt) | Some (e', T') \<Rightarrow> \<exists>tt''. last_copy n0 c3 e' T' tt'' \<and> set_tree tt \<subseteq> set_tree tt''"
      proof (cases r')
        case None
        then show ?thesis using c3(3) tt'(2) by simp (meson order_trans)
      next
        case (Some x)
        then show ?thesis using c3(3) tt'(2) by (cases x) (simp, meson order_trans)
      qed
      then show ?thesis using 2(1) c2(1) Some c3(1) kept_trans [OF k2 c3(2)] by (intro exI [of _ r'] exI [of _ c3]) simp
    qed
  qed
qed

text \<open>The element that is optional, below the last \<open>OP_ALT\<close>, directly or at the end of a sequence.\<close>

definition opt_copy :: "nat \<Rightarrow> compiler \<Rightarrow> nat \<Rightarrow> nat \<Rightarrow> nat tree \<Rightarrow> bool" where
  "opt_copy n0 c e t tt \<longleftrightarrow> tree_ok n0 c (Some t) tt
     \<and> (\<exists>te. root_at te = Some e \<and> (tt = Node te t Leaf \<or> (\<exists>l C. tt = Node (Node l C te) t Leaf)))"

lemma opt_copy_sub:
  assumes "opt_copy n0 c e t tt"
  shows "\<exists>par te. sub_ok True n0 c par (Some e) te \<and> climbs_out (tree_nodes c) e par"
proof -
  obtain te where te: "root_at te = Some e" "tt = Node te t Leaf \<or> (\<exists>l C. tt = Node (Node l C te) t Leaf)"
    and ok: "tree_ok n0 c (Some t) tt" using assms by (auto simp: opt_copy_def)
  let ?ns = "tree_nodes c"
  from te(2) have t: "tree_parent (?ns ! t) = None" "tree_right (?ns ! t) = None" "t < length ?ns" using ok by (auto simp: sub_ok_def)
  have top: "climbs_out ?ns x (Some t)" for x using climbs_out.up [of t ?ns x] climbs_out.top [of ?ns t] t by simp
  from te(2) show ?thesis
  proof (elim disjE exE)
    assume tt: "tt = Node te t Leaf"
    have lk: "linked ?ns (Some t) (tree_left (?ns ! t)) te" using ok tt by (auto simp: sub_ok_def)
    then have "tree_left (?ns ! t) = Some e" using linked_root_at [OF lk] te(1) by simp
    then have "sub_ok True n0 c (Some t) (Some e) te" using ok tt lk by (auto simp: sub_ok_def)
    then show ?thesis using top by blast
  next
    fix l C assume tt: "tt = Node (Node l C te) t Leaf"
    have C: "tree_left (?ns ! t) = Some C" "C < length ?ns" "tree_parent (?ns ! C) = Some t" using ok tt by (auto simp: sub_ok_def)
    have lk: "linked ?ns (Some C) (tree_right (?ns ! C)) te" using ok tt by (auto simp: sub_ok_def)
    then have r: "tree_right (?ns ! C) = Some e" using linked_root_at [OF lk] te(1) by simp
    then have "sub_ok True n0 c (Some C) (Some e) te" using ok tt lk by (auto simp: sub_ok_def)
    moreover have "climbs_out ?ns e (Some C)" using climbs_out.up [of C ?ns e] C r top by simp
    ultimately show ?thesis by blast
  qed
qed

lemma join_kept:
  assumes "only_nodes c c'" and "length (tree_nodes c') = length (tree_nodes c) + 1" and "n0 \<le> length (tree_nodes c)"
    and "\<forall>i < length (tree_nodes c). l \<noteq> Some i \<longrightarrow> r \<noteq> Some i \<longrightarrow> tree_nodes c' ! i = tree_nodes c ! i"
    and "case l of None \<Rightarrow> True | Some i \<Rightarrow> n0 \<le> i" and "case r of None \<Rightarrow> True | Some i \<Rightarrow> n0 \<le> i"
  shows "kept n0 c c'"
  unfolding kept_def using assms by (auto split: option.splits)

lemma inside_only:
  assumes t: "sub_ok k n0 c par p t" and "par = None" "p = Some T" and "only_nodes c c'" and "tree_nodes c' = tree_nodes c"
  shows "inside_of n0 c' (set_tree t)"
proof -
  have "sub_ok False n0 c None (Some T) t" using t assms(2,3) sub_ok_weaken by (cases k) auto
  then have "sub_ok False n0 c' None (Some T) t" by (rule sub_ok_only_nodes [OF _ assms(4)]) (use assms(5) in simp_all)
  then show ?thesis by blast
qed

lemma inside_mono: "inside_of n0 c A \<Longrightarrow> B \<subseteq> A \<Longrightarrow> inside_of n0 c B"
  by (meson order_trans)

text \<open>A node over one tree or two, as a step of \<open>create_tree\<close>.\<close>

lemma create_ok:
  assumes l: "sub_ok True n0 c parl l u" and r: "sub_ok True n0 c parr r v" and disj: "set_tree u \<inter> set_tree v = {}"
    and heap: "heap_ok c" and n0: "n0 \<le> length (tree_nodes c)"
    and ty: "ty \<in> {CONCAT, OP_ALT, OP_DUP_ASTERISK}" "fits ty u v"
  shows "\<exists>x c'. create_tree l r ty c = Some (x, c') \<and> kept n0 c c'
    \<and> (case x of None \<Rightarrow> tree_nodes c' = tree_nodes c
       | Some a \<Rightarrow> a = length (tree_nodes c) \<and> tree_ok n0 c' (Some a) (Node u a v) \<and> length (tree_nodes c') = a + 1
           \<and> (\<forall>i < a. l \<noteq> Some i \<longrightarrow> r \<noteq> Some i \<longrightarrow> tree_nodes c' ! i = tree_nodes c ! i))"
  unfolding create_tree_def
proof (rule join_ok [OF l r disj heap n0, of "blank_token ty"], goal_cases)
  case (3 c')
  then show ?case by (auto simp: kept_def)
next
  case (4 c')
  have "case l of None \<Rightarrow> True | Some i \<Rightarrow> n0 \<le> i" "case r of None \<Rightarrow> True | Some i \<Rightarrow> n0 \<le> i"
    using root_ge l r by (auto split: option.split)
  from join_kept [OF 4(2,3) n0 4(5) this] show ?case using 4 by (intro exI [of _ "Some (length (tree_nodes c))"] exI [of _ c']) simp
qed (use ty in simp_all)

lemma optional_ok:
  "opt_copy n0 c e t tt \<Longrightarrow> heap_ok c \<Longrightarrow> n0 \<le> length (tree_nodes c) \<Longrightarrow>
     \<exists>r c'. optional_copies n e t c = Some (r, c') \<and> kept n0 c c'
       \<and> (case r of None \<Rightarrow> inside_of n0 c' (set_tree tt) | Some t' \<Rightarrow> \<exists>tt'. tree_ok n0 c' (Some t') tt' \<and> set_tree tt \<subseteq> set_tree tt')"
proof (induction n arbitrary: c e t tt)
  case 0
  then show ?case by (auto simp: opt_copy_def)
next
  case (Suc n)
  have tt: "tree_ok n0 c (Some t) tt" using Suc.prems(1) by (simp add: opt_copy_def)
  obtain par te where te: "sub_ok True n0 c par (Some e) te" "climbs_out (tree_nodes c) e par" using opt_copy_sub [OF Suc.prems(1)] by blast
  show ?case
  proof (rule dup_ok [OF te Suc.prems(2,3)], goal_cases)
    case (1 c1)
    have k1: "kept n0 c c1" using 1(2) Suc.prems(3) by (auto simp: kept_def)
    have "tree_ok n0 c1 (Some t) tt"
      by (rule sub_ok_only_nodes [OF tt]) (use 1(2) sub_ok_lt [OF tt] in \<open>auto simp: kept_def\<close>)
    from join_none [OF this kept_heap [OF k1 Suc.prems(2)]] obtain r c2 where
      "create_tree (Some t) None CONCAT c1 = Some (r, c2)" "kept n0 c1 c2" "inside_of n0 c2 (set_tree tt)"
      using k1 Suc.prems(3) by (auto simp: kept_def)
    then show ?thesis using 1(1) kept_trans [OF k1] by (intro exI [of _ None] exI [of _ c2]) simp
  next
    case (2 c1 t1)
    let ?d = "length (tree_nodes c)"
    have k1: "kept n0 c c1" using 2(2) Suc.prems(3) by (auto simp: kept_def)
    have h1: "heap_ok c1" by (rule kept_heap [OF k1 Suc.prems(2)])
    have n1: "n0 \<le> length (tree_nodes c1)" using k1 Suc.prems(3) by (simp add: kept_def)
    have tt1: "tree_ok n0 c1 (Some t) tt"
      by (rule sub_ok_only_nodes [OF tt]) (use 2(2) sub_ok_lt [OF tt] in \<open>auto simp: kept_def\<close>)
    have disj: "set_tree tt \<inter> set_tree t1 = {}" using sub_ok_lt [OF tt] 2(4) by fastforce
    have nl: "tt \<noteq> Leaf" "t1 \<noteq> Leaf" using sub_ok_root [OF tt] sub_ok_root [OF 2(3)] by auto
    have f1: "fits CONCAT tt t1" using nl by (simp add: fits_def)
    from create_ok [OF tt1 2(3) disj h1 n1 _ f1] obtain x c2 where
      c2: "create_tree (Some t) (Some ?d) CONCAT c1 = Some (x, c2)" "kept n0 c1 c2"
        "case x of None \<Rightarrow> tree_nodes c2 = tree_nodes c1 | Some a \<Rightarrow> a = length (tree_nodes c1) \<and> tree_ok n0 c2 (Some a) (Node tt a t1)
           \<and> length (tree_nodes c2) = a + 1 \<and> (\<forall>i < a. Some t \<noteq> Some i \<longrightarrow> Some ?d \<noteq> Some i \<longrightarrow> tree_nodes c2 ! i = tree_nodes c1 ! i)"
      by auto
    have k2: "kept n0 c c2" by (rule kept_trans [OF k1 c2(2)])
    show ?thesis
    proof (cases x)
      case None
      have "inside_of n0 c2 (set_tree tt)" by (rule inside_only [OF tt1 refl refl]) (use c2 None in \<open>auto simp: kept_def\<close>)
      then show ?thesis using 2(1) c2(1) None k2 by (intro exI [of _ None] exI [of _ c2]) simp
    next
      case (Some C)
      then have C: "tree_ok n0 c2 (Some C) (Node tt C t1)" using c2(3) unfolding Some option.case by (elim conjE)
      have h2: "heap_ok c2" by (rule kept_heap [OF k2 Suc.prems(2)])
      have n2: "n0 \<le> length (tree_nodes c2)" using k2 Suc.prems(3) by (simp add: kept_def)
      have f2: "fits OP_ALT (Node tt C t1) Leaf" by (simp add: fits_def)
      have leaf: "sub_ok True n0 c2 None None Leaf" by simp
      from create_ok [OF C leaf _ h2 n2 _ f2] obtain y c3 where
        c3: "create_tree (Some C) None OP_ALT c2 = Some (y, c3)" "kept n0 c2 c3"
          "case y of None \<Rightarrow> tree_nodes c3 = tree_nodes c2 | Some a \<Rightarrow> a = length (tree_nodes c2) \<and> tree_ok n0 c3 (Some a) (Node (Node tt C t1) a Leaf)
             \<and> length (tree_nodes c3) = a + 1 \<and> (\<forall>i < a. Some C \<noteq> Some i \<longrightarrow> None \<noteq> Some i \<longrightarrow> tree_nodes c3 ! i = tree_nodes c2 ! i)"
        by auto
      have k3: "kept n0 c c3" by (rule kept_trans [OF k2 c3(2)])
      show ?thesis
      proof (cases y)
        case None
        have "inside_of n0 c3 (set_tree (Node tt C t1))" by (rule inside_only [OF C refl refl]) (use c3 None in \<open>auto simp: kept_def\<close>)
        then have "inside_of n0 c3 (set_tree tt)" by (rule inside_mono) auto
        then show ?thesis using 2(1) c2(1) \<open>x = Some C\<close> c3(1) None k3 by (intro exI [of _ None] exI [of _ c3]) simp
      next
        case (Some A)
        then have A: "tree_ok n0 c3 (Some A) (Node (Node tt C t1) A Leaf)" using c3(3) unfolding Some option.case by (elim conjE)
        have "root_at t1 = Some ?d" using sub_ok_root [OF 2(3)] by simp
        then have oc: "opt_copy n0 c3 ?d A (Node (Node tt C t1) A Leaf)" using A unfolding opt_copy_def by blast
        have n3: "n0 \<le> length (tree_nodes c3)" using k3 Suc.prems(3) by (simp add: kept_def)
        from Suc.IH [OF oc kept_heap [OF k3 Suc.prems(2)] n3] obtain r c4 where
          c4: "optional_copies n ?d A c3 = Some (r, c4)" "kept n0 c3 c4"
            "case r of None \<Rightarrow> inside_of n0 c4 (set_tree (Node (Node tt C t1) A Leaf))
             | Some t' \<Rightarrow> \<exists>tt'. tree_ok n0 c4 (Some t') tt' \<and> set_tree (Node (Node tt C t1) A Leaf) \<subseteq> set_tree tt'" by blast
        have sub: "set_tree tt \<subseteq> set_tree (Node (Node tt C t1) A Leaf)" by auto
        have "case r of None \<Rightarrow> inside_of n0 c4 (set_tree tt) | Some t' \<Rightarrow> \<exists>tt'. tree_ok n0 c4 (Some t') tt' \<and> set_tree tt \<subseteq> set_tree tt'"
        proof (cases r)
          case None
          then show ?thesis using c4(3) inside_mono [OF _ sub] by simp
        next
          case (Some t')
          then show ?thesis using c4(3) sub by (simp, meson order_trans)
        qed
        then show ?thesis using 2(1) c2(1) \<open>x = Some C\<close> c3(1) Some c4(1) kept_trans [OF k3 c4(2)]
          by (intro exI [of _ r] exI [of _ c4]) simp
      qed
    qed
  qed
qed

lemma marked_kept: "only_nodes c c' \<Longrightarrow> marked A (tree_nodes c) (tree_nodes c') \<Longrightarrow> A \<subseteq> {n0..} \<Longrightarrow> kept n0 c c'"
  by (auto simp: kept_def marked_def)

text \<open>The element that is marked stands alone, or it is a copy beside the right child of its parent \<open>T\<close>: then the visit goes on
  into the tree of the parent.\<close>

definition beside :: "nat \<Rightarrow> compiler \<Rightarrow> nat option \<Rightarrow> nat \<Rightarrow> nat option \<Rightarrow> nat tree \<Rightarrow> bool" where
  "beside n0 c par e old tt \<longleftrightarrow> tree_ok n0 c old tt \<and> (par = None \<or>
     (\<exists>l T te e0. par = Some T \<and> old = Some T \<and> tt = Node l T te \<and> root_at te = Some e0 \<and> e0 \<noteq> e))"

lemma typed_SUBEXP: "typed cs subs t \<Longrightarrow> tok_type t = SUBEXP \<Longrightarrow> \<exists>i. opr_idx (opr t) = Some i"
  by (cases "opr t") (simp_all add: typed_def)

lemma mark_ok:
  assumes te: "sub_ok True n1 c par (Some e) te" and b: "beside n0 c par e old tt" and A: "set_tree te \<union> set_tree tt \<subseteq> A"
  shows "\<exists>c'. mark_optional e c = Some c' \<and> only_nodes c c' \<and> marked A (tree_nodes c) (tree_nodes c')"
proof -
  have root: "root_at te = Some e" using sub_ok_root [OF te] by simp
  have e: "e < length (tree_nodes c)" using sub_ok_inside [OF te] by simp
  show ?thesis
  proof (cases "tok_type (tree_token (tree_nodes c ! e)) = SUBEXP")
    case False
    then show ?thesis using e by (simp add: mark_optional_def tree_at_def mem_read_def)
  next
    case True
    have "typed (length (charsets c)) (re_nsub c) (tree_token (tree_nodes c ! e))"
      using te root_in [OF root] shaped_typed by (auto simp: sub_ok_def)
    then obtain i where i: "opr_idx (opr (tree_token (tree_nodes c ! e))) = Some i" using typed_SUBEXP True by blast
    have lk: "linked (tree_nodes c) par (Some e) te" "distinct_tree te" using te by (auto simp: sub_ok_def)
    have "\<exists>as. visit_postorder (mark_opt_subexp i) e c = visit_all (mark_opt_subexp i) as c \<and> set as \<subseteq> set_tree te \<union> set_tree tt
        \<and> (\<forall>a \<in> set as. a < length (tree_nodes c))"
    proof (cases par)
      case None
      then show ?thesis using mk_pass.postorder_visits [OF lk(1) [unfolded None] lk(2)] linked_inside [OF lk(1)]
        by (intro exI [of _ "Tree.postorder te"]) (auto simp: set_postorder)
    next
      case (Some T)
      then obtain l te0 e0 where tt: "tt = Node l T te0" "old = Some T" "root_at te0 = Some e0" "e0 \<noteq> e" and ok: "tree_ok n0 c old tt"
        using b by (auto simp: beside_def)
      then obtain r1 r2 where te0: "te0 = Node r1 e0 r2" by (cases te0) auto
      have big: "linked (tree_nodes c) None (Some T) (Node l T (Node r1 e0 r2))" "distinct_tree (Node l T (Node r1 e0 r2))"
        using ok tt te0 by (simp_all add: sub_ok_def)
      have "e \<noteq> e0" using tt(4) by simp
      from mk_pass.visit_beside [OF lk(1) [unfolded Some] lk(2) big this]
      show ?thesis using linked_inside [OF lk(1)] linked_inside [OF big(1)] post_from_set [of e0 tt] unfolding tt(1) te0
        by (intro exI [of _ "Tree.postorder te @ post_from e0 (Node l T (Node r1 e0 r2))"]) (auto simp: set_postorder)
    qed
    then obtain as where as: "visit_postorder (mark_opt_subexp i) e c = visit_all (mark_opt_subexp i) as c" "set as \<subseteq> A"
      "\<forall>a \<in> set as. a < length (tree_nodes c)" using A by blast
    from mark_all [OF as(3,2), of i] obtain c' where "visit_all (mark_opt_subexp i) as c = Some (REG_NOERROR, c')" "only_nodes c c'"
      "marked A (tree_nodes c) (tree_nodes c')" by blast
    then show ?thesis using e True i as(1) by (simp add: mark_optional_def tree_at_def mem_read_def)
  qed
qed

abbreviation repeated_ok :: "nat \<Rightarrow> compiler \<Rightarrow> nat set \<Rightarrow> reg_errcode \<times> nat option \<times> compiler \<Rightarrow> bool" where
  "repeated_ok n0 c A x \<equiv> (case x of (err, r, c') \<Rightarrow> kept n0 c c' \<and>
     (if err = REG_NOERROR then \<exists>t. tree_ok n0 c' r t else err = REG_ESPACE \<and> r = None \<and> inside_of n0 c' A))"

text \<open>The optional part, over nodes of its own (from \<open>n1\<close> on).\<close>

lemma optional_tree:
  assumes te: "sub_ok True n1 c par (Some e) te" and heap: "heap_ok c" and n1: "n1 \<le> length (tree_nodes c)" and ty: "ty = OP_DUP_ASTERISK \<or> ty = OP_ALT"
    and n: "ty = OP_DUP_ASTERISK \<longrightarrow> n = 0"
  shows "\<exists>x c'. create_tree (Some e) None ty c = Some (x, c') \<and> kept n1 c c'
    \<and> (case x of None \<Rightarrow> tree_nodes c' = tree_nodes c
       | Some t \<Rightarrow> \<exists>r c''. optional_copies n e t c' = Some (r, c'') \<and> kept n1 c c''
           \<and> (case r of None \<Rightarrow> inside_of n1 c'' (set_tree te) | Some t' \<Rightarrow> \<exists>tt. tree_ok n1 c'' (Some t') tt \<and> set_tree te \<subseteq> set_tree tt))"
proof -
  have leaf: "sub_ok True n1 c None None Leaf" by simp
  have nl: "te \<noteq> Leaf" using sub_ok_root [OF te] by auto
  have f: "ty \<in> {CONCAT, OP_ALT, OP_DUP_ASTERISK}" "fits ty te Leaf" using ty nl by (auto simp: fits_def)
  from create_ok [OF te leaf _ heap n1 f] obtain x c' where
    c': "create_tree (Some e) None ty c = Some (x, c')" "kept n1 c c'"
      "case x of None \<Rightarrow> tree_nodes c' = tree_nodes c | Some a \<Rightarrow> a = length (tree_nodes c) \<and> tree_ok n1 c' (Some a) (Node te a Leaf)
         \<and> length (tree_nodes c') = a + 1 \<and> (\<forall>i < a. Some e \<noteq> Some i \<longrightarrow> None \<noteq> Some i \<longrightarrow> tree_nodes c' ! i = tree_nodes c ! i)"
    by auto
  show ?thesis
  proof (cases x)
    case None
    then show ?thesis using c' by auto
  next
    case (Some t)
    have t: "tree_ok n1 c' (Some t) (Node te t Leaf)" using c'(3) unfolding Some option.case by (elim conjE)
    have oc: "opt_copy n1 c' e t (Node te t Leaf)" unfolding opt_copy_def using t sub_ok_root [OF te] by auto
    have "n1 \<le> length (tree_nodes c')" using c'(2) n1 by (simp add: kept_def)
    from optional_ok [OF oc kept_heap [OF c'(2) heap] this, of n] obtain r c'' where
      r: "optional_copies n e t c' = Some (r, c'')" "kept n1 c' c''"
        "case r of None \<Rightarrow> inside_of n1 c'' (set_tree (Node te t Leaf)) | Some t' \<Rightarrow> \<exists>tt'. tree_ok n1 c'' (Some t') tt' \<and> set_tree (Node te t Leaf) \<subseteq> set_tree tt'"
      by blast
    have sub: "set_tree te \<subseteq> set_tree (Node te t Leaf)" by auto
    have "case r of None \<Rightarrow> inside_of n1 c'' (set_tree te) | Some t' \<Rightarrow> \<exists>tt. tree_ok n1 c'' (Some t') tt \<and> set_tree te \<subseteq> set_tree tt"
    proof (cases r)
      case None
      then show ?thesis using r(3) inside_mono [OF _ sub] by simp
    next
      case (Some t')
      then show ?thesis using r(3) sub by (simp, meson order_trans)
    qed
    then show ?thesis using c'(1,2) Some r(1) kept_trans [OF c'(2) r(2)] by (intro exI [of _ "Some t"] exI [of _ c']) simp
  qed
qed

lemma tree_ok_lower: "sub_ok k n1 c par p t \<Longrightarrow> n0 \<le> n1 \<Longrightarrow> sub_ok k n0 c par p t"
  by (auto simp: sub_ok_def)

lemma kept_lower: "kept n1 c c' \<Longrightarrow> n0 \<le> n1 \<Longrightarrow> kept n0 c c'"
  by (simp add: kept_def)

lemma inside_lower: "inside_of n1 c A \<Longrightarrow> n0 \<le> n1 \<Longrightarrow> inside_of n0 c A"
  using tree_ok_lower by blast

text \<open>A tree below \<open>n1\<close> is not touched.\<close>

lemma old_kept: "sub_ok k n0 c par p t \<Longrightarrow> set_tree t \<subseteq> {..<n1} \<Longrightarrow> kept n1 c c' \<Longrightarrow> sub_ok k n0 c' par p t"
  by (erule sub_ok_only_nodes) (auto simp: kept_def)

lemma inside_self: "sub_ok k n0 c None (Some T) t \<Longrightarrow> inside_of n0 c (set_tree t)"
  using sub_ok_weaken [of n0 c None "Some T" t] by (cases k) auto

lemma optional_part_ok:
  assumes te: "sub_ok True n1 c par (Some e) te" and heap: "heap_ok c" and n1: "n0 \<le> n1" "n1 \<le> length (tree_nodes c)"
    and b: "beside n0 c par e old tt" and old: "set_tree tt \<subseteq> {..<n1}" and fin: "end = -1 \<or> start \<le> end" and pos: "0 \<le> start"
  shows "\<exists>x. optional_part start end e old c = Some x \<and> repeated_ok n0 c (if old = None then set_tree te else set_tree tt) x"
proof -
  have A: "set_tree te \<union> set_tree tt \<subseteq> {n0..}" using te b n1(1) by (auto simp: sub_ok_def beside_def)
  obtain c1 where c1: "mark_optional e c = Some c1" "only_nodes c c1" "marked (set_tree te \<union> set_tree tt) (tree_nodes c) (tree_nodes c1)"
    using mark_ok [OF te b order_refl] by blast
  have k1: "kept n0 c c1" by (rule marked_kept [OF c1(2,3) A])
  have te1: "sub_ok True n1 c1 par (Some e) te" by (rule sub_ok_marked [OF te c1(3,2)])
  have tt1: "tree_ok n0 c1 old tt" by (rule sub_ok_marked [OF _ c1(3,2)]) (use b in \<open>simp add: beside_def\<close>)
  have h1: "heap_ok c1" by (rule kept_heap [OF k1 heap])
  have n11: "n1 \<le> length (tree_nodes c1)" using k1 n1(2) by (simp add: kept_def)
  define ty where "ty = (if end = -1 then OP_DUP_ASTERISK else OP_ALT)"
  define n where "n = nat (end - start - 1)"
  have ty: "ty = OP_DUP_ASTERISK \<or> ty = OP_ALT" "ty = OP_DUP_ASTERISK \<longrightarrow> n = 0" using pos by (auto simp: ty_def n_def)
  from optional_tree [OF te1 h1 n11 ty] obtain x c2 where
    x: "create_tree (Some e) None ty c1 = Some (x, c2)" "kept n1 c1 c2"
      "case x of None \<Rightarrow> tree_nodes c2 = tree_nodes c1
       | Some t \<Rightarrow> \<exists>r c''. optional_copies n e t c2 = Some (r, c'') \<and> kept n1 c1 c''
           \<and> (case r of None \<Rightarrow> inside_of n1 c'' (set_tree te) | Some t' \<Rightarrow> \<exists>tt. tree_ok n1 c'' (Some t') tt \<and> set_tree te \<subseteq> set_tree tt)"
    by blast
  let ?A = "if old = None then set_tree te else set_tree tt"
  have lower: "kept n0 c c'" if "kept n1 c1 c'" for c' using kept_trans [OF k1 kept_lower [OF that n1(1)]] .
  have inside_old: "inside_of n0 c' (set_tree tt)" if "kept n1 c1 c'" "old \<noteq> None" for c'
    using inside_self [of True n0 c' _ tt] old_kept [OF tt1 old that(1)] that(2) by auto
  show ?thesis
  proof (cases x)
    case None
    have "inside_of n0 c2 ?A"
    proof (cases "old = None")
      case True
      then have "par = None" using b by (auto simp: beside_def)
      then have "inside_of n1 c2 (set_tree te)" by (rule inside_only [OF te1 _ refl]) (use x None in \<open>auto simp: kept_def\<close>)
      then show ?thesis using True inside_lower [OF _ n1(1)] by simp
    qed (use inside_old [OF x(2)] in auto)
    moreover have "optional_part start end e old c = Some (REG_ESPACE, None, c2)"
      unfolding optional_part_def c1(1) using x(1) None by (simp add: ty_def)
    ultimately show ?thesis using lower [OF x(2)] by simp
  next
    case (Some t)
    then obtain r c3 where r: "optional_copies n e t c2 = Some (r, c3)" "kept n1 c1 c3"
      "case r of None \<Rightarrow> inside_of n1 c3 (set_tree te) | Some t' \<Rightarrow> \<exists>tt. tree_ok n1 c3 (Some t') tt \<and> set_tree te \<subseteq> set_tree tt"
      using x(3) by auto
    have step: "optional_part start end e old c
        = (if r = None then Some (REG_ESPACE, None, c3) else if old = None then Some (REG_NOERROR, r, c3)
           else do { (tree, c) \<leftarrow> create_tree old r CONCAT c3; Some (REG_NOERROR, tree, c) })"
      unfolding optional_part_def c1(1) using x(1) Some r(1) by (simp add: ty_def n_def)
    show ?thesis
    proof (cases r)
      case None
      then have "inside_of n0 c3 ?A" using r(3) inside_lower [OF _ n1(1)] inside_old [OF r(2)] by (cases "old = None") auto
      then show ?thesis using step None lower [OF r(2)] by simp
    next
      case (Some t')
      then obtain tt' where tt': "tree_ok n1 c3 (Some t') tt'" using r(3) by auto
      show ?thesis
      proof (cases old)
        case None
        then show ?thesis using step Some lower [OF r(2)] tree_ok_lower [OF tt' n1(1)] by auto
      next
        case (Some T)
        have tt3: "tree_ok n0 c3 (Some T) tt" using old_kept [OF tt1 old r(2)] Some by simp
        have disj: "set_tree tt \<inter> set_tree tt' = {}" using old tt' by (fastforce simp: sub_ok_def)
        have h3: "heap_ok c3" by (rule kept_heap [OF lower [OF r(2)] heap])
        have n3: "n0 \<le> length (tree_nodes c3)" using lower [OF r(2)] n1 by (simp add: kept_def)
        have f: "fits CONCAT tt tt'" using sub_ok_root [OF tt3] sub_ok_root [OF tt'] by (auto simp: fits_def)
        from create_ok [OF tt3 tree_ok_lower [OF tt' n1(1)] disj h3 n3 _ f] obtain y c4 where
          y: "create_tree (Some T) (Some t') CONCAT c3 = Some (y, c4)" "kept n0 c3 c4"
            "case y of None \<Rightarrow> tree_nodes c4 = tree_nodes c3 | Some a \<Rightarrow> a = length (tree_nodes c3) \<and> tree_ok n0 c4 (Some a) (Node tt a tt')
               \<and> length (tree_nodes c4) = a + 1 \<and> (\<forall>i < a. Some T \<noteq> Some i \<longrightarrow> Some t' \<noteq> Some i \<longrightarrow> tree_nodes c4 ! i = tree_nodes c3 ! i)"
          by auto
        have "optional_part start end e old c = Some (REG_NOERROR, y, c4)" using step Some \<open>r = Some t'\<close> y(1) by simp
        moreover have "\<exists>t. tree_ok n0 c4 y t"
        proof (cases y)
          case None
          then show ?thesis by (intro exI [of _ Leaf]) simp
        next
          case (Some a)
          then show ?thesis using y(3) by auto
        qed
        ultimately show ?thesis using kept_trans [OF lower [OF r(2)] y(2)] by simp
      qed
    qed
  qed
qed

lemma repeat_ok:
  assumes t: "tree_ok n0 c (Some e) t" and heap: "heap_ok c" and n0: "n0 \<le> length (tree_nodes c)"
    and fin: "end = -1 \<or> start \<le> end" and pos: "0 \<le> start"
  shows "\<exists>x. repeat_tree start end e c = Some x \<and> repeated_ok n0 c (set_tree t) x"
proof (cases "0 < start")
  case False
  have "beside n0 c None e None Leaf" by (simp add: beside_def)
  from optional_part_ok [OF t heap order_refl n0 this _ fin pos] obtain x where
    "optional_part start end e None c = Some x" "repeated_ok n0 c (set_tree t) x" unfolding if_P [OF refl] by auto
  then show ?thesis unfolding repeat_tree_def if_not_P [OF False] by (intro exI [of _ x]) simp
next
  case True
  have lc: "last_copy n0 c e e t" using t by (simp add: last_copy_def)
  from mandatory_ok [OF lc heap n0, of "nat (start - 1)"] obtain r c1 where
    r: "mandatory_copies (nat (start - 1)) e e c = Some (r, c1)" "kept n0 c c1"
      "case r of None \<Rightarrow> inside_of n0 c1 (set_tree t) | Some (e', T') \<Rightarrow> \<exists>tt. last_copy n0 c1 e' T' tt \<and> set_tree t \<subseteq> set_tree tt" by blast
  show ?thesis
  proof (cases r)
    case None
    then show ?thesis using r True by (simp add: repeat_tree_def)
  next
    case (Some eT)
    obtain e' T' where eT: "eT = (e', T')" by fastforce
    obtain tt where tt: "last_copy n0 c1 e' T' tt" "set_tree t \<subseteq> set_tree tt" using r(3) Some eT by auto
    have ok: "tree_ok n0 c1 (Some T') tt" using tt(1) by (simp add: last_copy_def)
    have h1: "heap_ok c1" by (rule kept_heap [OF r(2) heap])
    have n1: "n0 \<le> length (tree_nodes c1)" using r(2) n0 by (simp add: kept_def)
    show ?thesis
    proof (cases "start = end")
      case True
      then show ?thesis using r(1,2) Some eT ok \<open>0 < start\<close> by (auto simp: repeat_tree_def)
    next
      case ne: False
      obtain par te where te: "sub_ok True n0 c1 par (Some e') te" "climbs_out (tree_nodes c1) e' par" "if e' = T' then par = None else par = Some T'"
        using last_copy_sub [OF tt(1)] by blast
      have inside_tt: "inside_of n0 c' (set_tree t)" if "kept (length (tree_nodes c1)) c1 c'" for c'
      proof -
        have "set_tree tt \<subseteq> {..<length (tree_nodes c1)}" using sub_ok_lt [OF ok] by auto
        then show ?thesis using inside_mono [OF inside_self [OF old_kept [OF ok _ that]] tt(2)] by blast
      qed
      show ?thesis
      proof (rule dup_ok [OF te(1,2) h1 n1], goal_cases)
        case (1 c2)
        have "kept n0 c c2" by (rule kept_trans [OF r(2) kept_lower [OF 1(2) n1]])
        then show ?thesis using inside_tt [OF 1(2)] 1(1) r(1) Some eT ne \<open>0 < start\<close> by (simp add: repeat_tree_def)
      next
        case (2 c2 t2)
        let ?d = "length (tree_nodes c1)"
        have k2: "kept n0 c c2" by (rule kept_trans [OF r(2) kept_lower [OF 2(2) n1]])
        have t2: "sub_ok True ?d c2 par (Some ?d) t2" using 2(3,4) by (auto simp: sub_ok_def)
        have lt: "set_tree tt \<subseteq> {..<?d}" using sub_ok_lt [OF ok] by auto
        have ok2: "tree_ok n0 c2 (Some T') tt" by (rule old_kept [OF ok lt 2(2)])
        have b: "beside n0 c2 par ?d (Some T') tt"
        proof (cases "e' = T'")
          case True
          then show ?thesis using ok2 te(3) by (simp add: beside_def)
        next
          case False
          then obtain l te0 where te0: "tt = Node l T' te0" "root_at te0 = Some e'" using tt(1) by (auto simp: last_copy_def)
          then have "e' \<in> set_tree tt" using root_in by auto
          then have "e' \<noteq> ?d" using lt by auto
          then show ?thesis using ok2 te(3) te0 False unfolding beside_def by auto
        qed
        have "?d \<le> length (tree_nodes c2)" using 2(2) by (simp add: kept_def)
        from optional_part_ok [OF t2 kept_heap [OF k2 heap] n1 this b lt fin pos] obtain x where
          x: "optional_part start end ?d (Some T') c2 = Some x" "repeated_ok n0 c2 (set_tree tt) x"
          unfolding if_not_P [OF option.distinct(2)] by auto
        have "repeat_tree start end e c = Some x" using x(1) 2(1) r(1) Some eT ne \<open>0 < start\<close> by (simp add: repeat_tree_def)
        moreover have "repeated_ok n0 c (set_tree t) x"
          using x(2) kept_trans [OF k2] inside_mono [OF _ tt(2)] by (cases x) (auto split: if_splits)
        ultimately show ?thesis by blast
      qed
    qed
  qed
qed

end
