(* ===== verification/RegScan.thy ===== *)
theory RegScan
  imports RegRepeat
begin

text \<open>
  The scan of a bracket expression always ends: \<open>scan_bracket\<close> of RegBracket, for a string that holds a whole pattern. It moves
  on in the input (\<open>moves\<close>), the arrays of the sets have the room that their counters say (\<open>sets_ok\<close>), and every round of the
  loop takes at least a byte (\<open>round_ok\<close>).
\<close>

section \<open>Moving on in the input\<close>

definition moves :: "re_string \<Rightarrow> re_string \<Rightarrow> bool" where
  "moves s s' \<longleftrightarrow> (\<exists>n. s' = skip_bytes n s \<and> cur_idx s + n \<le> str_len s)"

lemma skip_skip [simp]: "skip_bytes n (skip_bytes m s) = skip_bytes (m + n) s"
  by (simp add: skip_bytes_def)

lemma skip_0 [simp]: "skip_bytes 0 s = s"
  by (simp add: skip_bytes_def)

lemma moves_refl: "pattern_ok s \<Longrightarrow> moves s s"
  unfolding moves_def by (intro exI [of _ 0]) (simp add: pattern_ok_def)

lemma moves_skip: "cur_idx s + n \<le> str_len s \<Longrightarrow> moves s (skip_bytes n s)"
  by (auto simp: moves_def)

lemma moves_trans: "moves s s' \<Longrightarrow> moves s' s'' \<Longrightarrow> moves s s''"
  unfolding moves_def by (elim exE conjE) (auto simp: add.assoc)

lemma moves_ok: "moves s s' \<Longrightarrow> pattern_ok s \<Longrightarrow> pattern_ok s'"
  by (auto simp: moves_def skip_bytes_ok)

lemma moves_fields: "moves s s' \<Longrightarrow> str_len s' = str_len s \<and> cur_idx s \<le> cur_idx s' \<and> str_mb_cur_max s' = str_mb_cur_max s \<and> str_trans s' = str_trans s"
  by (auto simp: moves_def)

section \<open>Tokens of a bracket\<close>

abbreviation bracket_token :: "re_token \<Rightarrow> nat \<Rightarrow> re_string \<Rightarrow> bool" where
  "bracket_token t n s \<equiv> 1 \<le> n \<and> cur_idx s + n \<le> str_len s \<and> (\<exists>c. opr t = Char_opr c)"

lemma peek_bracket_ok:
  assumes "pattern_ok s"
  shows "\<exists>t' n s'. peek_token_bracket t s syntax = Some (t', n, s') \<and> moves s s'
    \<and> (if tok_type t' = END_OF_RE then s' = s else bracket_token t' n s') \<and> (tok_type t' \<noteq> CHARACTER \<longrightarrow> s' = s)"
proof (cases "eoi s")
  case True
  then show ?thesis using moves_refl [OF assms] by (simp add: peek_token_bracket_def)
next
  case False
  then have lt: "cur_idx s < str_len s" using assms by (auto simp: eoi_iff pattern_ok_def)
  obtain c where c: "peek_byte s 0 = Some c" using peek_byte_ok [OF assms, of 0] lt by simp
  obtain mid where mid: "mid_char s = Some mid" using mid_char_ok [OF assms lt] by blast
  note step = peek_token_bracket_def [of t s "syntax"]
  consider "mid" | "\<not> mid" "c = 0x5C \<and> syn syntax RE_BACKSLASH_ESCAPE_IN_LISTS \<and> cur_idx s + 1 < str_len s"
    | "\<not> mid" "\<not> (c = 0x5C \<and> syn syntax RE_BACKSLASH_ESCAPE_IN_LISTS \<and> cur_idx s + 1 < str_len s)" "c = 0x5B"
    | "\<not> mid" "\<not> (c = 0x5C \<and> syn syntax RE_BACKSLASH_ESCAPE_IN_LISTS \<and> cur_idx s + 1 < str_len s)" "c \<noteq> 0x5B" by blast
  then show ?thesis
  proof cases
    case 1
    then show ?thesis unfolding step using False lt moves_refl [OF assms] by (simp add: c mid)
  next
    case 2
    obtain c2 where c2: "peek_byte (skip_bytes 1 s) 0 = Some c2"
      using peek_byte_ok [OF skip_bytes_ok [OF assms, of 1], of 0] 2(2) by simp
    show ?thesis unfolding step using False lt moves_skip [of s 1] 2 c2 by (simp add: c mid)
  next
    case 3
    show ?thesis
    proof (cases "cur_idx s + 1 < str_len s")
      case True
      obtain c2 where "peek_byte s 1 = Some c2" using peek_byte_ok [OF assms, of 1] True by simp
      then show ?thesis unfolding step using False lt moves_refl [OF assms] 3 True by (auto simp: c mid Let_def)
    next
      case no: False
      show ?thesis unfolding step using False lt moves_refl [OF assms] 3 no by (auto simp: c mid Let_def)
    qed
  next
    case 4
    show ?thesis unfolding step using False lt moves_refl [OF assms] 4 by (auto simp: c mid Let_def)
  qed
qed

lemma char_size_loop_ok:
  "pattern_ok s \<Longrightarrow> 1 < str_mb_cur_max s \<Longrightarrow> i + n \<le> str_len s \<Longrightarrow> \<exists>k. char_size_loop s i n = Some k \<and> n \<le> k \<and> i + k \<le> str_len s"
proof (induction s i n rule: char_size_loop.induct)
  case (1 s i n)
  show ?case
  proof (cases "i + n < valid_len s")
    case False
    then show ?thesis using 1(4) by (subst char_size_loop.simps) simp
  next
    case True
    then have r: "mem_read (wcs s) (i + n) = Some (wcs s ! (i + n))" using 1(2,3) by (simp add: pattern_ok_def mem_read_def)
    show ?thesis
    proof (cases "wcs s ! (i + n) = WEOF")
      case False
      then show ?thesis using 1(4) r True by (subst char_size_loop.simps) simp
    next
      case eof: True
      have "i + (n + 1) \<le> str_len s" using True 1(2) by (simp add: pattern_ok_def)
      then have "\<exists>k. char_size_loop s i (n + 1) = Some k \<and> n + 1 \<le> k \<and> i + k \<le> str_len s" using 1(1) [OF True] 1(2,3) r eof by simp
      then obtain k where "char_size_loop s i (n + 1) = Some k" "n + 1 \<le> k" "i + k \<le> str_len s" by blast
      then show ?thesis using r True eof by (subst char_size_loop.simps) simp
    qed
  qed
qed

lemma char_size_at_ok: "pattern_ok s \<Longrightarrow> cur_idx s < str_len s \<Longrightarrow> \<exists>k. char_size_at s (cur_idx s) = Some k \<and> 1 \<le> k \<and> cur_idx s + k \<le> str_len s"
  using char_size_loop_ok [of s "cur_idx s" 1] by (auto simp: char_size_at_def pattern_ok_def)

lemma fetch_byte_case_ok:
  assumes "pattern_ok s" and "cur_idx s < str_len s"
  shows "\<exists>c n. fetch_byte_case s = Some (c, skip_bytes n s) \<and> 1 \<le> n \<and> cur_idx s + n \<le> str_len s"
proof -
  have plain: "\<exists>c n. fetch_byte s = Some (c, skip_bytes n s) \<and> 1 \<le> n \<and> cur_idx s + n \<le> str_len s"
    using fetch_byte_ok [OF assms] assms(2) by (intro exI [of _ "mbs s ! cur_idx s"] exI [of _ 1]) simp
  consider "\<not> mbs_allocated s" | "mbs_allocated s" "offsets_needed s" | "mbs_allocated s" "\<not> offsets_needed s" by blast
  then show ?thesis
  proof cases
    case 1
    then show ?thesis using plain by (simp add: fetch_byte_case_def)
  next
    case 2
    obtain f where f: "first_byte s (cur_idx s) = Some f" using assms 2 by (auto simp: first_byte_def pattern_ok_def mem_read_def)
    obtain off where off: "mem_read (offsets s) (cur_idx s) = Some off" "raw_mbs_idx s + off < length (raw_mbs s)"
      using assms 2 by (auto simp: pattern_ok_def mem_read_def)
    obtain k where "char_size_at s (cur_idx s) = Some k" "1 \<le> k" "cur_idx s + k \<le> str_len s" using char_size_at_ok [OF assms] by blast
    then show ?thesis using plain 2 f off by (auto simp: fetch_byte_case_def mem_read_def)
  next
    case 3
    have "raw_mbs_idx s + cur_idx s < length (raw_mbs s)" using assms 3 by (auto simp: pattern_ok_def)
    then show ?thesis using 3 assms(2) by (intro exI [of _ "raw_mbs s ! (raw_mbs_idx s + cur_idx s)"] exI [of _ 1]) (simp add: fetch_byte_case_def mem_read_def)
  qed
qed

lemma bracket_name_ok:
  "pattern_ok s \<Longrightarrow> cur_idx s < str_len s \<Longrightarrow> \<exists>r s'. bracket_name cls delim nm s n = Some (r, s') \<and> moves s s' \<and> (r \<noteq> None \<longrightarrow> cur_idx s' + 1 \<le> str_len s')"
proof (induction n arbitrary: s nm)
  case 0
  then show ?case using moves_refl by simp
next
  case (Suc n)
  obtain c k where f: "(if cls then fetch_byte_case s else fetch_byte s) = Some (c, skip_bytes k s)" "1 \<le> k" "cur_idx s + k \<le> str_len s"
    using fetch_byte_case_ok [OF Suc.prems] fetch_byte_ok [OF Suc.prems] Suc.prems(2) by (cases cls) auto
  let ?s = "skip_bytes k s"
  have p: "pattern_ok ?s" "moves s ?s" using skip_bytes_ok [OF Suc.prems(1) f(3)] moves_skip [OF f(3)] .
  show ?case
  proof (cases "eoi ?s")
    case True
    then show ?thesis using f(1) p(2) by simp
  next
    case False
    then have lt: "cur_idx ?s < str_len ?s" using p(1) by (auto simp: eoi_iff pattern_ok_def)
    obtain d where d: "peek_byte ?s 0 = Some d" using peek_byte_ok [OF p(1), of 0] lt by simp
    obtain close where close: "(if c = delim then map_option (\<lambda>c. c = 0x5D) (peek_byte ?s 0) else Some False) = Some close" using d by (cases "c = delim") auto
    show ?thesis
    proof (cases close)
      case True
      then show ?thesis using f(1) False close lt p(2) by (simp split: if_splits)
    next
      case no: False
      obtain r s' where "bracket_name cls delim (nm @ [c]) ?s n = Some (r, s')" "moves ?s s'" "r \<noteq> None \<longrightarrow> cur_idx s' + 1 \<le> str_len s'"
        using Suc.IH [OF p(1) lt, of "nm @ [c]"] by blast
      moreover have "bracket_name cls delim nm s (Suc n) = bracket_name cls delim (nm @ [c]) ?s n"
        unfolding bracket_name.simps f(1) using False close no by simp
      ultimately show ?thesis using moves_trans [OF p(2)] by auto
    qed
  qed
qed

lemma parse_bracket_symbol_ok:
  assumes "pattern_ok s" and "opr t = Char_opr c"
  shows "\<exists>r s'. parse_bracket_symbol t s = Some (r, s') \<and> moves s s' \<and> r \<noteq> Inl REG_NOERROR"
proof (cases "eoi s")
  case True
  then show ?thesis using assms moves_refl by (simp add: parse_bracket_symbol_def)
next
  case False
  then have lt: "cur_idx s < str_len s" using assms(1) by (auto simp: eoi_iff pattern_ok_def)
  from bracket_name_ok [OF assms(1) lt, of "tok_type t = OP_OPEN_CHAR_CLASS" c "[]" BRACKET_NAME_BUF_SIZE] obtain r s' where
    n: "bracket_name (tok_type t = OP_OPEN_CHAR_CLASS) c [] s BRACKET_NAME_BUF_SIZE = Some (r, s')" "moves s s'" "r \<noteq> None \<longrightarrow> cur_idx s' + 1 \<le> str_len s'" by blast
  show ?thesis
  proof (cases r)
    case None
    then show ?thesis using False assms(2) n by (simp add: parse_bracket_symbol_def)
  next
    case (Some nm)
    then have "moves s (skip_bytes 1 s')" using moves_trans [OF n(2) moves_skip [of s' 1]] n(3) by simp
    then show ?thesis using False assms(2) n(1) Some by (simp add: parse_bracket_symbol_def)
  qed
qed

lemma parse_bracket_element_ok:
  assumes p: "pattern_ok s" and t: "bracket_token t n s"
  shows "\<exists>r s'. parse_bracket_element ct t n s syntax hyphen = Some (r, s') \<and> moves s s' \<and> cur_idx s < cur_idx s' \<and> r \<noteq> Inl REG_NOERROR"
proof -
  have lt: "cur_idx s < str_len s" using t by auto
  obtain c where c: "opr t = Char_opr c" using t by blast
  obtain k where k: "char_size_at s (cur_idx s) = Some k" "1 \<le> k" "cur_idx s + k \<le> str_len s" using char_size_at_ok [OF p lt] by blast
  have m: "moves s (skip_bytes n s)" "pattern_ok (skip_bytes n s)" using moves_skip [of s n] skip_bytes_ok [OF p, of n] t by auto
  have less: "cur_idx s < cur_idx s'" if "moves (skip_bytes n s) s'" for s' using moves_fields [OF that] t by auto
  note step = parse_bracket_element_def [of ct t n s "syntax" hyphen]
  show ?thesis
  proof (cases "1 < k")
    case True
    obtain w where "wchar_at s (cur_idx s) = Some w" using wchar_at_ok [OF p lt] by blast
    then show ?thesis unfolding step using k True moves_skip [OF k(3)] by simp
  next
    case False
    show ?thesis
    proof (cases "tok_type t \<in> {OP_OPEN_COLL_ELEM, OP_OPEN_CHAR_CLASS, OP_OPEN_EQUIV_CLASS}")
      case True
      obtain r s' where "parse_bracket_symbol t (skip_bytes n s) = Some (r, s')" "moves (skip_bytes n s) s'" "r \<noteq> Inl REG_NOERROR"
        using parse_bracket_symbol_ok [OF m(2) c] by blast
      then show ?thesis unfolding step using k(1) False True moves_trans [OF m(1)] less by auto
    next
      case plain: False
      obtain t2 n2 s2 where pk: "peek_token_bracket (uninit ct) (skip_bytes n s) syntax = Some (t2, n2, s2)" "moves (skip_bytes n s) s2"
        using peek_bracket_ok [OF m(2)] by blast
      show ?thesis
        unfolding step using k(1) False plain pk c moves_trans [OF m(1) pk(2)] less [OF pk(2)] m(1) t
        by (cases "tok_type t = OP_CHARSET_RANGE \<and> \<not> hyphen") auto
    qed
  qed
qed

section \<open>Building the sets\<close>

text \<open>An array that grows: \<open>n\<close> elements, room for \<open>k\<close>.\<close>

definition array_ok :: "int list option \<Rightarrow> nat \<Rightarrow> nat \<Rightarrow> bool" where
  "array_ok xs n k \<longleftrightarrow> n \<le> k \<and> (case xs of None \<Rightarrow> k = 0 | Some a \<Rightarrow> length a = k)"

definition sets_ok :: "sets \<Rightarrow> bool" where
  "sets_ok b \<longleftrightarrow> length (sbcset b) = BITSET_WORDS \<and> \<not> ranges_freed (mbcset b)
     \<and> array_ok (mbchars (mbcset b)) (nmbchars (mbcset b)) (mbchar_alloc b)
     \<and> array_ok (range_starts (mbcset b)) (nranges (mbcset b)) (range_alloc b)
     \<and> array_ok (range_ends (mbcset b)) (nranges (mbcset b)) (range_alloc b)
     \<and> array_ok (char_classes (mbcset b)) (nchar_classes (mbcset b)) (char_class_alloc b)"

text \<open>In a multibyte locale a refused reallocation of the ranges is a defect, so that no allocation may be refused there.\<close>

definition calm :: "bool \<Rightarrow> answers \<Rightarrow> bool" where
  "calm mb os \<longleftrightarrow> mb \<longrightarrow> False \<notin> set os"

abbreviation built :: "sets \<Rightarrow> reg_errcode \<times> sets \<Rightarrow> bool" where
  "built b x \<equiv> (case x of (e, b') \<Rightarrow> \<not> ranges_freed (mbcset b') \<and> set (set_answers b') \<subseteq> set (set_answers b) \<and> (e = REG_NOERROR \<longrightarrow> sets_ok b'))"

lemma set_where_ok:
  "length s = BITSET_WORDS \<Longrightarrow> (\<And>j. i \<le> j \<Longrightarrow> j < i + n \<Longrightarrow> f j < 256) \<Longrightarrow>
     \<exists>s'. set_where P f i n s = Some s' \<and> length s' = BITSET_WORDS \<and> bits s' = bits s \<union> f ` {j \<in> {i..<i + n}. P j}"
proof (induction n arbitrary: i s)
  case (Suc n)
  have r: "{j \<in> {i..<i + Suc n}. P j} = (if P i then {i} else {}) \<union> {j \<in> {i + 1..<i + 1 + n}. P j}"
    using less_antisym not_less_eq_eq by (auto simp: le_Suc_eq dest: le_neq_implies_less)
  obtain s1 where s1: "(if P i then bitset_set s (f i) else Some s) = Some s1" "length s1 = BITSET_WORDS"
      "bits s1 = bits s \<union> f ` (if P i then {i} else {})"
    using bitset_set_ok [OF Suc.prems(1), of "f i"] Suc.prems(1) Suc.prems(2) [of i] by (cases "P i") auto
  have "\<And>j. i + 1 \<le> j \<Longrightarrow> j < i + 1 + n \<Longrightarrow> f j < 256" using Suc.prems(2) by simp
  from Suc.IH [OF s1(2) this] obtain s2 where "set_where P f (i + 1) n s1 = Some s2" "length s2 = BITSET_WORDS"
    "bits s2 = bits s1 \<union> f ` {j \<in> {i + 1..<i + 1 + n}. P j}" by blast
  then show ?case using s1 unfolding r image_Un by auto
qed simp

lemma update_sbcset_ok:
  assumes "sets_ok b" and "\<And>s. length s = BITSET_WORDS \<Longrightarrow> \<exists>s'. f s = Some s' \<and> length s' = BITSET_WORDS"
  shows "\<exists>x. update_sbcset f b = Some x \<and> built b x"
  using assms by (fastforce simp: update_sbcset_def sets_ok_def)

lemma unat_byte: "unat (c :: 8 word) < 256"
proof -
  have "unat c < 2 ^ LENGTH(8)" by (rule unsigned_less)
  then show ?thesis by simp
qed

lemma realloc_cases:
  assumes "re_realloc xs n os = (r, os')" and "case xs of None \<Rightarrow> True | Some a \<Rightarrow> length a \<le> n"
  shows "set os' \<subseteq> set os \<and> (r = None \<longrightarrow> False \<in> set os) \<and> (\<forall>a. r = Some a \<longrightarrow> length a = n)"
proof (cases os)
  case Nil
  then show ?thesis using assms by (auto simp: re_realloc_def split: option.splits)
next
  case (Cons ok rest)
  then show ?thesis using assms by (cases ok) (auto simp: re_realloc_def split: option.splits)
qed

lemma grow_ranges_ok:
  assumes b: "sets_ok b" and calm: "False \<notin> set (set_answers b)"
  shows "\<exists>b'. grow_ranges b = (REG_NOERROR, b') \<and> sets_ok b' \<and> set (set_answers b') \<subseteq> set (set_answers b)
    \<and> nranges (mbcset b') < range_alloc b'"
proof (cases "range_alloc b = nranges (mbcset b)")
  case False
  then show ?thesis using b by (auto simp: grow_ranges_def Let_def sets_ok_def array_ok_def)
next
  case True
  let ?m = "mbcset b" and ?n = "2 * nranges (mbcset b) + 1"
  obtain xs os where x: "re_realloc (range_starts ?m) ?n (set_answers b) = (xs, os)" by fastforce
  obtain ys os' where y: "re_realloc (range_ends ?m) ?n os = (ys, os')" by fastforce
  have lx: "case range_starts ?m of None \<Rightarrow> True | Some a \<Rightarrow> length a \<le> ?n" and ly: "case range_ends ?m of None \<Rightarrow> True | Some a \<Rightarrow> length a \<le> ?n"
    using b True by (auto simp: sets_ok_def array_ok_def split: option.splits)
  note cx = realloc_cases [OF x lx] and cy = realloc_cases [OF y ly]
  have "False \<notin> set os" using cx calm by blast
  then have "xs \<noteq> None" "ys \<noteq> None" using cx cy calm by auto
  then obtain u v where uv: "xs = Some u" "ys = Some v" by auto
  have "array_ok (Some u) (nranges ?m) ?n" "array_ok (Some v) (nranges ?m) ?n" using cx cy uv by (auto simp: array_ok_def)
  moreover have "set os' \<subseteq> set (set_answers b)" using cx cy by blast
  ultimately show ?thesis using True x y uv b unfolding grow_ranges_def Let_def by (simp add: sets_ok_def)
qed

lemma put_at_ok: "array_ok xs n k \<Longrightarrow> n < k \<Longrightarrow> \<exists>a. put_at xs n x = Some (Some a) \<and> array_ok (Some a) (n + 1) k"
  by (cases xs) (auto simp: put_at_def array_ok_def mem_write_1)

lemma add_range_ok:
  assumes "sets_ok b" and "False \<notin> set (set_answers b)"
  shows "\<exists>x. add_range v w b = Some x \<and> built b x"
proof -
  obtain b' where b': "grow_ranges b = (REG_NOERROR, b')" "sets_ok b'" "set (set_answers b') \<subseteq> set (set_answers b)" "nranges (mbcset b') < range_alloc b'"
    using grow_ranges_ok [OF assms] by blast
  have a: "array_ok (range_starts (mbcset b')) (nranges (mbcset b')) (range_alloc b')" "array_ok (range_ends (mbcset b')) (nranges (mbcset b')) (range_alloc b')"
    using b'(2) by (simp_all add: sets_ok_def)
  obtain xs where "put_at (range_starts (mbcset b')) (nranges (mbcset b')) v = Some (Some xs)" "array_ok (Some xs) (nranges (mbcset b') + 1) (range_alloc b')"
    using put_at_ok [OF a(1) b'(4), of v] by blast
  moreover obtain ys where "put_at (range_ends (mbcset b')) (nranges (mbcset b')) w = Some (Some ys)" "array_ok (Some ys) (nranges (mbcset b') + 1) (range_alloc b')"
    using put_at_ok [OF a(2) b'(4), of w] by blast
  ultimately show ?thesis using b' by (simp add: add_range_def sets_ok_def Let_def)
qed

lemma build_range_ok:
  assumes "sets_ok b" and "calm mb (set_answers b)"
  shows "\<exists>x. build_range_exp ct syntax mb e1 e2 b = Some x \<and> built b x"
proof -
  have nf: "\<not> ranges_freed (mbcset b)" using assms(1) by (simp add: sets_ok_def)
  define v w where "v = elem_wide ct mb e1" and "w = elem_wide ct mb e2"
  note step = build_range_exp_def [of ct "syntax" mb e1 e2 b, folded v_def w_def, unfolded Let_def]
  show ?thesis
  proof (cases "(is_class e1 \<or> is_class e2) \<or> (long_symbol e1 \<or> long_symbol e2) \<or> (v = WEOF \<or> w = WEOF) \<or> (syn syntax RE_NO_EMPTY_RANGES \<and> w < v)")
    case True
    consider "is_class e1 \<or> is_class e2" | "\<not> (is_class e1 \<or> is_class e2)" "long_symbol e1 \<or> long_symbol e2"
      | "\<not> (is_class e1 \<or> is_class e2)" "\<not> (long_symbol e1 \<or> long_symbol e2)" "v = WEOF \<or> w = WEOF"
      | "\<not> (is_class e1 \<or> is_class e2)" "\<not> (long_symbol e1 \<or> long_symbol e2)" "\<not> (v = WEOF \<or> w = WEOF)" "syn syntax RE_NO_EMPTY_RANGES \<and> w < v"
      using True by blast
    then show ?thesis
    proof cases
      case 1
      show ?thesis unfolding step if_P [OF 1] using nf by simp
    next
      case 2
      show ?thesis unfolding step if_not_P [OF 2(1)] if_P [OF 2(2)] using nf by simp
    next
      case 3
      show ?thesis unfolding step if_not_P [OF 3(1)] if_not_P [OF 3(2)] if_P [OF 3(3)] using nf by simp
    next
      case 4
      show ?thesis unfolding step if_not_P [OF 4(1)] if_not_P [OF 4(2)] if_not_P [OF 4(3)] if_P [OF 4(4)] using nf by simp
    qed
  next
    case False
    let ?f = "set_where (\<lambda>i. v \<le> int i \<and> int i \<le> w) (\<lambda>i. i) 0 SBC_MAX"
    have f: "\<exists>s'. ?f s = Some s' \<and> length s' = BITSET_WORDS" if "length s = BITSET_WORDS" for s
      using set_where_ok [OF that, of 0 SBC_MAX "\<lambda>i. i"] by auto
    have no: "\<not> (is_class e1 \<or> is_class e2)" "\<not> (long_symbol e1 \<or> long_symbol e2)" "\<not> (v = WEOF \<or> w = WEOF)" "\<not> (syn syntax RE_NO_EMPTY_RANGES \<and> w < v)"
      using False by blast+
    note eq = step [unfolded if_not_P [OF no(1)] if_not_P [OF no(2)] if_not_P [OF no(3)] if_not_P [OF no(4)]]
    obtain ret b1 where b1: "(if mb then add_range v w b else Some (REG_NOERROR, b)) = Some (ret, b1)" "built b (ret, b1)"
    proof (cases mb)
      case True
      then have "False \<notin> set (set_answers b)" using assms(2) by (simp add: calm_def)
      from add_range_ok [OF assms(1) this, of v w] obtain x where "add_range v w b = Some x" "built b x" by blast
      then show thesis using that [of "fst x" "snd x"] True by simp
    next
      case False
      then show thesis using that [of REG_NOERROR b] assms(1) nf by simp
    qed
    show ?thesis
    proof (cases "ret = REG_NOERROR")
      case True
      then obtain x where "update_sbcset ?f b1 = Some x" "built b1 x" using update_sbcset_ok [of b1 ?f] f b1(2) by auto
      then show ?thesis unfolding eq b1(1) using True b1(2) by auto
    next
      case False
      then show ?thesis unfolding eq b1(1) using b1(2) by simp
    qed
  qed
qed

lemma set_name_ok: "sets_ok b \<Longrightarrow> \<exists>x. update_sbcset (\<lambda>s. bitset_set s (unat (c :: 8 word))) b = Some x \<and> built b x"
  by (erule update_sbcset_ok) (use bitset_set_ok unat_byte in blast)

lemma add_mbchar_ok:
  assumes b: "sets_ok b"
  shows "\<exists>x. add_mbchar w b = Some x \<and> built b x"
proof -
  let ?m = "mbcset b" and ?n = "2 * nmbchars (mbcset b) + 1"
  have a: "array_ok (mbchars ?m) (nmbchars ?m) (mbchar_alloc b)" using b by (simp add: sets_ok_def)
  show ?thesis
  proof (cases "mbchar_alloc b = nmbchars ?m")
    case True
    obtain xs os where x: "re_realloc (mbchars ?m) ?n (set_answers b) = (xs, os)" by fastforce
    have "case mbchars ?m of None \<Rightarrow> True | Some a \<Rightarrow> length a \<le> ?n" using a True by (auto simp: array_ok_def split: option.splits)
    note c = realloc_cases [OF x this]
    show ?thesis
    proof (cases xs)
      case None
      then show ?thesis using True x b c by (simp add: add_mbchar_def Let_def sets_ok_def)
    next
      case (Some u)
      then have "array_ok (Some u) (nmbchars ?m) ?n" using c by (simp add: array_ok_def)
      then obtain v where "put_at (Some u) (nmbchars ?m) w = Some (Some v)" "array_ok (Some v) (nmbchars ?m + 1) ?n" using put_at_ok by fastforce
      then show ?thesis using True x b c Some by (simp add: add_mbchar_def Let_def sets_ok_def)
    qed
  next
    case False
    then have "nmbchars ?m < mbchar_alloc b" using a by (simp add: array_ok_def)
    from put_at_ok [OF a this, of w] obtain v where "put_at (mbchars ?m) (nmbchars ?m) w = Some (Some v)" "array_ok (Some v) (nmbchars ?m + 1) (mbchar_alloc b)" by blast
    then show ?thesis using False b by (simp add: add_mbchar_def Let_def sets_ok_def)
  qed
qed

lemma add_class_ok:
  assumes b: "sets_ok b"
  shows "\<exists>x. add_class w b = Some x \<and> built b x"
proof -
  let ?m = "mbcset b" and ?n = "2 * nchar_classes (mbcset b) + 1"
  have a: "array_ok (char_classes ?m) (nchar_classes ?m) (char_class_alloc b)" using b by (simp add: sets_ok_def)
  show ?thesis
  proof (cases "char_class_alloc b = nchar_classes ?m")
    case True
    obtain xs os where x: "re_realloc (char_classes ?m) ?n (set_answers b) = (xs, os)" by fastforce
    have "case char_classes ?m of None \<Rightarrow> True | Some a \<Rightarrow> length a \<le> ?n" using a True by (auto simp: array_ok_def split: option.splits)
    note c = realloc_cases [OF x this]
    show ?thesis
    proof (cases xs)
      case None
      then show ?thesis using True x b c by (simp add: add_class_def Let_def sets_ok_def)
    next
      case (Some u)
      then have "array_ok (Some u) (nchar_classes ?m) ?n" using c by (simp add: array_ok_def)
      then obtain v where "put_at (Some u) (nchar_classes ?m) w = Some (Some v)" "array_ok (Some v) (nchar_classes ?m + 1) ?n" using put_at_ok by fastforce
      then show ?thesis using True x b c Some by (simp add: add_class_def Let_def sets_ok_def)
    qed
  next
    case False
    then have "nchar_classes ?m < char_class_alloc b" using a by (simp add: array_ok_def)
    from put_at_ok [OF a this, of w] obtain v where "put_at (char_classes ?m) (nchar_classes ?m) w = Some (Some v)" "array_ok (Some v) (nchar_classes ?m + 1) (char_class_alloc b)" by blast
    then show ?thesis using False b by (simp add: add_class_def Let_def sets_ok_def)
  qed
qed

lemma build_charclass_ok:
  assumes b: "sets_ok b"
  shows "\<exists>x. build_charclass ct tr nm syntax b = Some x \<and> built b x"
proof -
  define nm' where "nm' = (if syn syntax RE_ICASE \<and> (nm = ''upper'' \<or> nm = ''lower'') then ''alpha'' else nm)"
  obtain e b1 where b1: "add_class (wide_class ct nm') b = Some (e, b1)" "built b (e, b1)" using add_class_ok [OF b] by fastforce
  have f: "\<exists>s'. BUILD_CHARCLASS_LOOP ct tr nm' s = Some s' \<and> length s' = BITSET_WORDS" if "length s = BITSET_WORDS" for s
  proof -
    define g where "g = (\<lambda>i. case tr of Some f \<Rightarrow> unat (f (word_of_nat i)) | None \<Rightarrow> i)"
    have b: "g j < 256" if "j < 256" for j using that unat_byte by (cases tr) (simp_all add: g_def)
    show ?thesis using set_where_ok [of s 0 256 g "\<lambda>i. in_class ct nm' (word_of_nat i)", OF that b]
      unfolding BUILD_CHARCLASS_LOOP_def g_def [symmetric] by auto
  qed
  have eq: "build_charclass ct tr nm syntax b = (if e \<noteq> REG_NOERROR then Some (e, b1)
      else if nm' \<in> set class_names then update_sbcset (BUILD_CHARCLASS_LOOP ct tr nm') b1 else Some (REG_ECTYPE, b1))"
    unfolding build_charclass_def Let_def nm'_def [symmetric] by (simp add: b1(1))
  show ?thesis
  proof (cases "e = REG_NOERROR \<and> nm' \<in> set class_names")
    case True
    then obtain x where "update_sbcset (BUILD_CHARCLASS_LOOP ct tr nm') b1 = Some x" "built b1 x"
      using update_sbcset_ok [of b1 "BUILD_CHARCLASS_LOOP ct tr nm'"] f b1(2) by auto
    then show ?thesis unfolding eq using True b1(2) by auto
  next
    case False
    then show ?thesis unfolding eq using b1(2) by auto
  qed
qed

lemma add_elem_ok: "sets_ok b \<Longrightarrow> \<exists>x. add_elem ct tr syntax e b = Some x \<and> built b x"
proof (cases e)
  case (EQUIV_CLASS nm)
  assume b: "sets_ok b"
  then show ?thesis using EQUIV_CLASS set_name_ok [OF b, of "name_char nm"] by (cases "name_len nm = 1") (auto simp: build_equiv_class_def sets_ok_def)
next
  case (COLL_SYM nm)
  assume b: "sets_ok b"
  then show ?thesis using COLL_SYM set_name_ok [OF b, of "name_char nm"] by (cases "name_len nm = 1") (auto simp: build_collating_symbol_def sets_ok_def)
next
  case (SB_CHAR c)
  assume "sets_ok b"
  then show ?thesis using SB_CHAR set_name_ok [of b c] by simp
next
  case (MB_CHAR w)
  assume "sets_ok b"
  then show ?thesis using MB_CHAR add_mbchar_ok [of b w] by simp
next
  case (CHAR_CLASS nm)
  assume "sets_ok b"
  then show ?thesis using CHAR_CLASS build_charclass_ok [of b ct tr "class_name nm" "syntax"] by simp
qed

section \<open>The loop over the elements\<close>

lemma range_follows_ok:
  assumes p: "pattern_ok s" and t: "tok_type t = END_OF_RE \<or> bracket_token t n s"
  shows "\<exists>e r t' s'. range_follows ct t n s syntax elem = Some (e, r, t', s') \<and> moves s s'
    \<and> (case r of None \<Rightarrow> s' = s \<and> (e = REG_NOERROR \<longrightarrow> tok_type t' = END_OF_RE \<or> bracket_token t' n s) \<or> e \<noteq> REG_NOERROR
       | Some (t2, n2) \<Rightarrow> bracket_token t2 n2 s')"
proof (cases "is_class elem \<or> tok_type t = END_OF_RE \<or> tok_type t \<noteq> OP_CHARSET_RANGE")
  case True
  then show ?thesis using t moves_refl [OF p] by (auto simp: range_follows_def)
next
  case False
  then have b: "bracket_token t n s" using t by auto
  have m: "moves s (skip_bytes n s)" "pattern_ok (skip_bytes n s)" using moves_skip [of s n] skip_bytes_ok [OF p, of n] b by auto
  obtain t2 n2 s2 where pk: "peek_token_bracket (uninit ct) (skip_bytes n s) syntax = Some (t2, n2, s2)" "moves (skip_bytes n s) s2"
    "if tok_type t2 = END_OF_RE then s2 = skip_bytes n s else bracket_token t2 n2 s2" "tok_type t2 \<noteq> CHARACTER \<longrightarrow> s2 = skip_bytes n s"
    using peek_bracket_ok [OF m(2)] by blast
  show ?thesis
  proof (cases "tok_type t2 = OP_CLOSE_BRACKET")
    case close: True
    then have "s2 = skip_bytes n s" using pk(4) by simp
    then have "s2\<lparr>cur_idx := cur_idx s2 - n\<rparr> = s" by (simp add: skip_bytes_def)
    then show ?thesis using False pk(1) close b moves_refl [OF p] by (simp add: range_follows_def)
  next
    case open': False
    then show ?thesis using False pk moves_trans [OF m(1) pk(2)] by (auto simp: range_follows_def)
  qed
qed

text \<open>A round: it takes at least a byte, and leaves a token of which the length is known.\<close>

definition round_ok :: "re_string \<Rightarrow> sets \<Rightarrow> reg_errcode \<times> re_token \<times> nat \<times> re_string \<times> sets \<Rightarrow> bool" where
  "round_ok s b x \<longleftrightarrow> (case x of (e, t, n, s', b') \<Rightarrow> moves s s' \<and> built b (e, b')
     \<and> (e = REG_NOERROR \<longrightarrow> cur_idx s < cur_idx s' \<and> (tok_type t = END_OF_RE \<or> bracket_token t n s')))"

lemma peeked_token: "(if tok_type t' = END_OF_RE then s' = s else bracket_token t' n s') \<Longrightarrow> tok_type t' = END_OF_RE \<or> bracket_token t' n s'"
  by (auto split: if_splits)

lemma end_of_range_ok:
  assumes p: "pattern_ok s" and t2: "bracket_token t2 n2 s" and b: "sets_ok b" and calm: "calm mb (set_answers b)"
  shows "\<exists>x. end_of_range ct mb syntax elem t2 n2 t s b = Some x \<and> round_ok s b x"
proof -
  obtain r s1 where r: "parse_bracket_element ct t2 n2 s syntax True = Some (r, s1)" "moves s s1" "cur_idx s < cur_idx s1" "r \<noteq> Inl REG_NOERROR"
    using parse_bracket_element_ok [OF p t2] by blast
  show ?thesis
  proof (cases r)
    case (Inl e)
    then show ?thesis using r b by (auto simp: end_of_range_def round_ok_def sets_ok_def)
  next
    case (Inr elem2)
    obtain t' n s2 where pk: "peek_token_bracket t s1 syntax = Some (t', n, s2)" "moves s1 s2"
      "if tok_type t' = END_OF_RE then s2 = s1 else bracket_token t' n s2" using peek_bracket_ok [OF moves_ok [OF r(2) p]] by blast
    obtain e b' where b': "build_range_exp ct syntax mb elem elem2 b = Some (e, b')" "built b (e, b')" using build_range_ok [OF b calm] by fastforce
    have "cur_idx s < cur_idx s2" using r(3) moves_fields [OF pk(2)] by simp
    then have "round_ok s b (e, t', n, s2, b')"
      unfolding round_ok_def prod.case using moves_trans [OF r(2) pk(2)] b'(2) peeked_token [OF pk(3)] by simp
    moreover have "end_of_range ct mb syntax elem t2 n2 t s b = Some (e, t', n, s2, b')"
      using r(1) Inr pk(1) b'(1) by (simp add: end_of_range_def)
    ultimately show ?thesis by blast
  qed
qed

lemma bracket_item_ok:
  assumes p: "pattern_ok s" and t: "bracket_token t n s" and b: "sets_ok b" and calm: "calm mb (set_answers b)"
  shows "\<exists>x. bracket_item ct mb tr syntax first t n s b = Some x \<and> round_ok s b x"
proof -
  obtain r s1 where r: "parse_bracket_element ct t n s syntax first = Some (r, s1)" "moves s s1" "cur_idx s < cur_idx s1" "r \<noteq> Inl REG_NOERROR"
    using parse_bracket_element_ok [OF p t] by blast
  show ?thesis
  proof (cases r)
    case (Inl e)
    then show ?thesis using r b by (auto simp: bracket_item_def round_ok_def sets_ok_def)
  next
    case (Inr elem)
    have p1: "pattern_ok s1" by (rule moves_ok [OF r(2) p])
    obtain t1 n1 s2 where pk: "peek_token_bracket t s1 syntax = Some (t1, n1, s2)" "moves s1 s2"
      "if tok_type t1 = END_OF_RE then s2 = s1 else bracket_token t1 n1 s2" using peek_bracket_ok [OF p1] by blast
    have p2: "pattern_ok s2" by (rule moves_ok [OF pk(2) p1])
    obtain e x t2 s3 where rf: "range_follows ct t1 n1 s2 syntax elem = Some (e, x, t2, s3)" "moves s2 s3"
      "case x of None \<Rightarrow> s3 = s2 \<and> (e = REG_NOERROR \<longrightarrow> tok_type t2 = END_OF_RE \<or> bracket_token t2 n1 s2) \<or> e \<noteq> REG_NOERROR
       | Some (t3, n3) \<Rightarrow> bracket_token t3 n3 s3"
      using range_follows_ok [OF p2 peeked_token [OF pk(3)]] by blast
    have m3: "moves s s3" by (rule moves_trans [OF r(2) moves_trans [OF pk(2) rf(2)]])
    have lt3: "cur_idx s < cur_idx s3" using r(3) moves_fields [OF pk(2)] moves_fields [OF rf(2)] by simp
    note step = bracket_item_def [of ct mb tr "syntax" first t n s b]
    show ?thesis
    proof (cases "e = REG_NOERROR")
      case False
      then show ?thesis unfolding step using r(1) Inr pk(1) rf(1) m3 b by (simp add: round_ok_def sets_ok_def)
    next
      case e: True
      show ?thesis
      proof (cases x)
        case None
        obtain e' b' where b': "add_elem ct tr syntax elem b = Some (e', b')" "built b (e', b')" using add_elem_ok [OF b] by fastforce
        have "round_ok s b (e', t2, n1, s3, b')" unfolding round_ok_def prod.case using m3 lt3 b'(2) rf(3) e None by simp
        then show ?thesis unfolding step using r(1) Inr pk(1) rf(1) e None b'(1) by simp
      next
        case (Some y)
        obtain t3 n3 where y: "y = (t3, n3)" by fastforce
        have "bracket_token t3 n3 s3" using rf(3) Some y by simp
        from end_of_range_ok [OF moves_ok [OF rf(2) p2] this b calm] obtain z where
          z: "end_of_range ct mb syntax elem t3 n3 t2 s3 b = Some z" "round_ok s3 b z" by blast
        have "round_ok s b z" using z(2) moves_trans [OF m3] lt3 unfolding round_ok_def by (cases z) auto
        then show ?thesis unfolding step using r(1) Inr pk(1) rf(1) e Some y z(1) by simp
      qed
    qed
  qed
qed

lemma calm_subset: "calm mb os \<Longrightarrow> set os' \<subseteq> set os \<Longrightarrow> calm mb os'"
  by (auto simp: calm_def)

text \<open>What the scan of a bracket leaves: the input behind the last element, and the sets.\<close>

definition scanned :: "re_string \<Rightarrow> sets \<Rightarrow> reg_errcode \<times> re_token \<times> nat \<times> re_string \<times> sets \<Rightarrow> bool" where
  "scanned s b x \<longleftrightarrow> (case x of (e, t, n, s', b') \<Rightarrow> moves s s' \<and> built b (e, b') \<and> (e = REG_NOERROR \<longrightarrow> bracket_token t n s'))"

lemma bracket_loop_ok:
  "pattern_ok s \<Longrightarrow> bracket_token t n s \<Longrightarrow> sets_ok b \<Longrightarrow> calm mb (set_answers b) \<Longrightarrow> left_over s < k \<Longrightarrow>
     \<exists>x. bracket_loop k ct mb tr syntax first t n s b = Some x \<and> scanned s b x"
proof (induction k arbitrary: first t n s b)
  case (Suc k)
  obtain e t1 n1 s1 b1 where x: "bracket_item ct mb tr syntax first t n s b = Some (e, t1, n1, s1, b1)" "round_ok s b (e, t1, n1, s1, b1)"
    using bracket_item_ok [OF Suc.prems(1-4)] by (metis prod_cases5)
  note r = x(2) [unfolded round_ok_def prod.case]
  show ?case
  proof (cases "e \<noteq> REG_NOERROR \<or> tok_type t1 = END_OF_RE \<or> tok_type t1 = OP_CLOSE_BRACKET")
    case True
    then show ?thesis using x(1) r by (auto simp: scanned_def)
  next
    case False
    then have "bracket_token t1 n1 s1" "sets_ok b1" "calm mb (set_answers b1)" "left_over s1 < k" "pattern_ok s1"
      using r Suc.prems calm_subset [OF Suc.prems(4)] moves_fields [of s s1] moves_ok [of s s1] by auto
    from Suc.IH [OF this(5,1-4)] obtain z where z: "bracket_loop k ct mb tr syntax False t1 n1 s1 b1 = Some z" "scanned s1 b1 z" by blast
    have "scanned s b z" using z(2) r moves_trans [of s s1] unfolding scanned_def by (cases z) auto
    then show ?thesis using x(1) z(1) False by auto
  qed
qed simp

lemma sets_ok_start: "sets_ok b \<Longrightarrow> length sb = BITSET_WORDS \<Longrightarrow> sets_ok (b\<lparr>sbcset := sb, mbcset := (mbcset b)\<lparr>non_match := x\<rparr>\<rparr>)"
  by (simp add: sets_ok_def)

lemma bracket_start_ok:
  assumes p: "pattern_ok s" and b: "sets_ok b"
  shows "\<exists>x. bracket_start t s syntax b = Some x \<and> scanned s b x"
proof -
  obtain t1 n1 s1 where pk: "peek_token_bracket t s syntax = Some (t1, n1, s1)" "moves s s1"
    "if tok_type t1 = END_OF_RE then s1 = s else bracket_token t1 n1 s1" using peek_bracket_ok [OF p] by blast
  have nf: "\<not> ranges_freed (mbcset b)" using b by (simp add: sets_ok_def)
  have len: "length (sbcset b) = BITSET_WORDS" using b by (simp add: sets_ok_def)
  note step = bracket_start_def [of t s "syntax" b]
  consider "tok_type t1 = END_OF_RE" | "tok_type t1 \<noteq> END_OF_RE" "tok_type t1 \<noteq> OP_NON_MATCH_LIST" | "tok_type t1 = OP_NON_MATCH_LIST" by blast
  then show ?thesis
  proof cases
    case 1
    then show ?thesis unfolding step using pk(1,2) nf by (simp add: scanned_def)
  next
    case 2
    then show ?thesis unfolding step using pk b nf by (auto simp: scanned_def)
  next
    case 3
    then have bt: "bracket_token t1 n1 s1" using pk(3) by simp
    have p1: "pattern_ok (skip_bytes n1 s1)" using skip_bytes_ok [OF moves_ok [OF pk(2) p]] bt by blast
    have m1: "moves s (skip_bytes n1 s1)" using moves_trans [OF pk(2) moves_skip] bt by blast
    obtain t2 n2 s2 where pk2: "peek_token_bracket t1 (skip_bytes n1 s1) syntax = Some (t2, n2, s2)" "moves (skip_bytes n1 s1) s2"
      "if tok_type t2 = END_OF_RE then s2 = skip_bytes n1 s1 else bracket_token t2 n2 s2" using peek_bracket_ok [OF p1] by blast
    have m2: "moves s s2" by (rule moves_trans [OF m1 pk2(2)])
    obtain sb where sb: "(if syn syntax RE_HAT_LISTS_NOT_NEWLINE then bitset_set (sbcset b) 10 else Some (sbcset b)) = Some sb" "length sb = BITSET_WORDS"
      using bitset_set_ok [OF len, of 10] len by (cases "syn syntax RE_HAT_LISTS_NOT_NEWLINE") auto
    let ?b = "b\<lparr>sbcset := sb, mbcset := (mbcset b)\<lparr>non_match := True\<rparr>\<rparr>"
    have "bracket_start t s syntax b = (if tok_type t2 = END_OF_RE then Some (REG_BADPAT, t2, n2, s2, ?b)
        else Some (REG_NOERROR, if tok_type t2 = OP_CLOSE_BRACKET then t2\<lparr>tok_type := CHARACTER\<rparr> else t2, n2, s2, ?b))"
      unfolding step using pk(1) 3 sb(1) pk2(1) by simp
    then show ?thesis using m2 pk2(3) sets_ok_start [OF b sb(2), of True] nf by (auto simp: scanned_def)
  qed
qed

lemma sets_ok_no_sets: "sets_ok (no_sets os)"
  by (simp add: sets_ok_def no_sets_def empty_charset_def array_ok_def)

lemma scan_bracket_ok:
  assumes p: "pattern_ok s" and b: "sets_ok b" and calm: "calm mb (set_answers b)"
  shows "\<exists>x. scan_bracket ct mb tr syntax t s b = Some x \<and> scanned s b x"
proof -
  obtain e t1 n1 s1 b1 where x: "bracket_start t s syntax b = Some (e, t1, n1, s1, b1)" "scanned s b (e, t1, n1, s1, b1)"
    using bracket_start_ok [OF p b] by (metis prod_cases5)
  note r = x(2) [unfolded scanned_def prod.case]
  show ?thesis
  proof (cases "e = REG_NOERROR")
    case False
    then show ?thesis using x by (simp add: scan_bracket_def)
  next
    case True
    then have bt: "bracket_token t1 n1 s1" "sets_ok b1" "calm mb (set_answers b1)" "pattern_ok s1" "left_over s1 < str_len s1 + 1"
      using r calm_subset [OF calm] moves_ok [of s s1] p by auto
    from bracket_loop_ok [OF bt(4,1-3,5)] obtain z where z: "bracket_loop (str_len s1 + 1) ct mb tr syntax True t1 n1 s1 b1 = Some z" "scanned s1 b1 z" by blast
    have "scanned s b z" using z(2) r moves_trans [of s s1] unfolding scanned_def by (cases z) auto
    then show ?thesis using x(1) z(1) True by (simp add: scan_bracket_def)
  qed
qed

end
