(* ===== verification/RegAtom.thy ===== *)
theory RegAtom
  imports RegScan
begin

text \<open>
  The single expressions of the parser in RegParse: what holds between its steps (\<open>parser_inv\<close>), what a step does to the nodes that
  are already there (\<open>grown\<close>), and that each of them makes a well-formed tree or fails with the sets it built released (\<open>makes\<close>,
  and \<open>parses\<close> where the next token has been fetched). In a multibyte locale no allocation may be refused: a refused
  reallocation of the ranges is a defect of the code.
\<close>

section \<open>The state of the parser\<close>

definition parser_inv :: "parser \<Rightarrow> bool" where
  "parser_inv p \<longleftrightarrow> pattern_ok (input p) \<and> str_mb_cur_max (input p) = mbmax p \<and> heap_ok (comp p)
     \<and> length (word_chars p) = BITSET_WORDS \<and> length (sb_char p) = BITSET_WORDS \<and> calm (1 < mbmax p) (pending (comp p))"

text \<open>What parsing does to the nodes: those below \<open>n0\<close> stay as they are, and their sets are not released.\<close>

definition grown :: "nat \<Rightarrow> compiler \<Rightarrow> compiler \<Rightarrow> bool" where
  "grown n0 c c' \<longleftrightarrow> length (tree_nodes c) \<le> length (tree_nodes c') \<and> (\<forall>i < n0. tree_nodes c' ! i = tree_nodes c ! i)
     \<and> set (released c') \<subseteq> set (released c) \<union> {n0..} \<and> length (charsets c) \<le> length (charsets c') \<and> re_nsub c \<le> re_nsub c'
     \<and> dfa_of c' = dfa_of c"

lemma grown_refl [simp]: "grown n0 c c"
  by (simp add: grown_def)

lemma grown_trans: "grown n0 c d \<Longrightarrow> grown n0 d e \<Longrightarrow> grown n0 c e"
  by (auto simp: grown_def)

lemma grown_lower: "grown n1 c c' \<Longrightarrow> n0 \<le> n1 \<Longrightarrow> grown n0 c c'"
  by (auto simp: grown_def)

lemma kept_grown: "kept n0 c c' \<Longrightarrow> grown n0 c c'"
  using only_nodes_fields [of c c'] by (simp add: kept_def grown_def)

lemma grown_length: "grown n0 c c' \<Longrightarrow> n1 \<le> length (tree_nodes c) \<Longrightarrow> n1 \<le> length (tree_nodes c')"
  by (simp add: grown_def)

lemma old_grown:
  assumes "sub_ok k n0 c par p t" and "set_tree t \<subseteq> {..<n1}" and "grown n1 c c'"
  shows "sub_ok k n0 c' par p t"
proof (rule sub_ok_frame [OF assms(1)])
  show "tree_nodes c' ! i = tree_nodes c ! i" if "i \<in> set_tree t" for i using assms(2,3) that by (auto simp: grown_def)
  have "set_tree t \<inter> set (released c) = {}" using assms(1) by (simp add: sub_ok_def)
  then show "set_tree t \<inter> set (released c') = {}" using assms(2,3) by (fastforce simp: grown_def)
qed (use assms(3) in \<open>simp_all add: grown_def\<close>)

lemma tree_below: "sub_ok k n0 c par p t \<Longrightarrow> set_tree t \<subseteq> {..<length (tree_nodes c)}"
  using sub_ok_lt by blast

lemma inv_comp:
  assumes "parser_inv p" and "heap_ok c'" and "dfa_of c' = dfa_of (comp p)" and "set (pending c') \<subseteq> set (pending (comp p))"
  shows "parser_inv (p\<lparr>comp := c'\<rparr>)"
  using assms calm_subset [OF _ assms(4)] by (simp add: parser_inv_def)

lemma inv_kept: "parser_inv p \<Longrightarrow> kept n0 (comp p) c' \<Longrightarrow> parser_inv (p\<lparr>comp := c'\<rparr>)"
  by (rule inv_comp) (use only_nodes_fields [of "comp p" c'] kept_heap [of n0 "comp p" c'] in \<open>auto simp: kept_def parser_inv_def\<close>)

text \<open>A new node.\<close>

abbreviation node_made :: "bool \<Rightarrow> nat \<Rightarrow> parser \<Rightarrow> nat tree \<Rightarrow> nat tree \<Rightarrow> nat option \<Rightarrow> compiler \<Rightarrow> bool" where
  "node_made k n0 p u v x c' \<equiv> parser_inv (p\<lparr>comp := c'\<rparr>) \<and> kept n0 (comp p) c'
     \<and> (case x of None \<Rightarrow> tree_nodes c' = tree_nodes (comp p) | Some a \<Rightarrow> a = length (tree_nodes (comp p)) \<and> sub_ok k n0 c' None (Some a) (Node u a v))"

lemma token_tree_ok:
  assumes p: "parser_inv p" and l: "sub_ok k n0 (comp p) parl l u" and r: "sub_ok k n0 (comp p) parr r v" and disj: "set_tree u \<inter> set_tree v = {}"
    and n0: "n0 \<le> length (tree_nodes (comp p))"
    and tok: "typed (length (charsets (comp p))) (re_nsub (comp p)) t" "k \<longrightarrow> fits (tok_type t) u v"
  shows "\<exists>x c'. token_tree l r t p = Some (x, p\<lparr>comp := c'\<rparr>) \<and> node_made k n0 p u v x c'"
proof -
  have heap: "heap_ok (comp p)" using p by (simp add: parser_inv_def)
  show ?thesis
  proof (rule join_ok [OF l r disj heap n0 tok], goal_cases)
    case (1 c')
    then have "kept n0 (comp p) c'" by (simp add: kept_def)
    then show ?case using 1 inv_kept [OF p] by (intro exI [of _ None] exI [of _ c']) (simp add: token_tree_def)
  next
    case (2 c')
    have "case l of None \<Rightarrow> True | Some i \<Rightarrow> n0 \<le> i" "case r of None \<Rightarrow> True | Some i \<Rightarrow> n0 \<le> i"
      using root_ge l r by (auto split: option.split)
    from join_kept [OF 2(2,3) n0 2(5) this] have "kept n0 (comp p) c'" .
    then show ?case using 2 inv_kept [OF p] by (intro exI [of _ "Some (length (tree_nodes (comp p)))"] exI [of _ c']) (simp add: token_tree_def)
  qed
qed

lemma leaf_node_ok:
  assumes p: "parser_inv p" and tok: "typed (length (charsets (comp p))) (re_nsub (comp p)) t" "tok_type t \<notin> {CONCAT, OP_DUP_ASTERISK}"
  shows "\<exists>x c'. token_tree None None t p = Some (x, p\<lparr>comp := c'\<rparr>) \<and> node_made True (length (tree_nodes (comp p))) p Leaf Leaf x c'"
  by (rule token_tree_ok [OF p, where parl = None and parr = None]) (use tok in \<open>auto simp: fits_def\<close>)

section \<open>Tokens\<close>

definition token_ready :: "parser \<Rightarrow> bool" where
  "token_ready p \<longleftrightarrow> token_type p = END_OF_RE \<or> token_ok (cur_token p)"

text \<open>What is left to parse: the current token and the input behind it.\<close>

definition ahead :: "parser \<Rightarrow> nat" where
  "ahead p = left_over (input p) + (if token_type p = END_OF_RE then 0 else 1)"

lemma next_token_ok:
  assumes p: "parser_inv p"
  shows "\<exists>t s. next_token ct syntax p = Some (p\<lparr>cur_token := t, input := s\<rparr>) \<and> parser_inv (p\<lparr>cur_token := t, input := s\<rparr>)
    \<and> (tok_type t = END_OF_RE \<or> token_ok t) \<and> left_over s + (if tok_type t = END_OF_RE then 0 else 1) \<le> left_over (input p)
    \<and> (\<not> eoi (input p) \<longrightarrow> tok_type t \<noteq> END_OF_RE \<and> left_over s < left_over (input p))
    \<and> (\<exists>n. peek_token ct (cur_token p) (input p) syntax = Some (t, n))"
proof -
  have ok: "pattern_ok (input p)" using p by (simp add: parser_inv_def)
  obtain r where r: "peek_token ct (cur_token p) (input p) syntax = Some r" "peeked (cur_token p) (input p) r" using peek_token_ok [OF ok] by blast
  obtain t n where rn: "r = (t, n)" by fastforce
  let ?s = "skip_bytes n (input p)"
  have n: "cur_idx (input p) + n \<le> str_len (input p)" using r(2) rn ok by (auto simp: pattern_ok_def split: if_splits)
  have "parser_inv (p\<lparr>cur_token := t, input := ?s\<rparr>)" using p skip_bytes_ok [OF ok n] by (simp add: parser_inv_def)
  moreover have "next_token ct syntax p = Some (p\<lparr>cur_token := t, input := ?s\<rparr>)" using r(1) rn by (simp add: next_token_def fetch_token_def)
  moreover have "eoi (input p) \<Longrightarrow> n = 0 \<and> tok_type t = END_OF_RE" "\<not> eoi (input p) \<Longrightarrow> 1 \<le> n \<and> token_ok t \<and> tok_type t \<noteq> END_OF_RE"
    using r(2) rn by auto
  moreover have "left_over ?s = left_over (input p) - n" by simp
  ultimately show ?thesis using n r(1) rn by (intro exI [of _ t] exI [of _ ?s]) (cases "eoi (input p)", auto)
qed

lemma mid_token:
  assumes "pattern_ok s" and "\<not> eoi s" and "mid_char s = Some True" and "peek_token ct t s syntax = Some (u, n)"
  shows "tok_type u = CHARACTER \<and> (\<exists>c. opr u = Char_opr c)"
proof -
  have "cur_idx s < str_len s" using assms(1,2) by (auto simp: eoi_iff pattern_ok_def)
  then obtain c where "peek_byte s 0 = Some c" using peek_byte_ok [OF assms(1), of 0] by simp
  then show ?thesis using assms(2-4) by (auto simp: peek_token.simps [of ct t s "syntax"])
qed

section \<open>Single expressions\<close>

text \<open>A computation that makes a tree from \<open>n0\<close> on, with at most \<open>m\<close> bytes left, or an error and a null pointer.\<close>

definition makes :: "nat \<Rightarrow> nat \<Rightarrow> parser \<Rightarrow> parsed \<Rightarrow> bool" where
  "makes n0 m p R \<longleftrightarrow> (\<exists>r p'. R = Some (r, p') \<and> parser_inv p' \<and> grown n0 (comp p) (comp p')
     \<and> (if perr p' = REG_NOERROR then left_over (input p') \<le> m \<and> (\<exists>t. tree_ok n0 (comp p') r t) else r = None))"

lemma makes_failed: "parser_inv p' \<Longrightarrow> grown n0 (comp p) (comp p') \<Longrightarrow> e \<noteq> REG_NOERROR \<Longrightarrow> makes n0 m p (failed e p')"
  by (simp add: makes_def failed_def parser_inv_def)

lemma makes_tree: "parser_inv p' \<Longrightarrow> grown n0 (comp p) (comp p') \<Longrightarrow> perr p' = REG_NOERROR \<Longrightarrow> left_over (input p') \<le> m \<Longrightarrow>
     tree_ok n0 (comp p') r t \<Longrightarrow> makes n0 m p (Some (r, p'))"
  by (auto simp: makes_def)

lemma makes_error: "parser_inv p' \<Longrightarrow> grown n0 (comp p) (comp p') \<Longrightarrow> perr p' \<noteq> REG_NOERROR \<Longrightarrow> makes n0 m p (Some (None, p'))"
  by (simp add: makes_def)

lemma makes_from: "makes n0 m p1 R \<Longrightarrow> grown n0 (comp p) (comp p1) \<Longrightarrow> m \<le> m' \<Longrightarrow> makes n0 m' p R"
  unfolding makes_def by (elim exE conjE, intro exI conjI, assumption, assumption, erule (1) grown_trans) (simp split: if_splits)

lemma inv_perr [simp]: "parser_inv (p\<lparr>perr := e\<rparr>) = parser_inv p"
  by (simp add: parser_inv_def)

lemma leaf_tree_cases:
  assumes p: "parser_inv p" and tok: "typed (length (charsets (comp p))) (re_nsub (comp p)) (cur_token p)" "token_type p \<notin> {CONCAT, OP_DUP_ASTERISK}"
  obtains (none) c' where "leaf_tree p = Some (None, p\<lparr>comp := c', perr := REG_ESPACE\<rparr>)" "parser_inv (p\<lparr>comp := c'\<rparr>)"
      "kept (length (tree_nodes (comp p))) (comp p) c'"
  | (some) a c' where "leaf_tree p = Some (Some a, p\<lparr>comp := c'\<rparr>)" "parser_inv (p\<lparr>comp := c'\<rparr>)"
      "kept (length (tree_nodes (comp p))) (comp p) c'" "sub_ok True (length (tree_nodes (comp p))) c' None (Some a) (Node Leaf a Leaf)"
proof -
  obtain x c' where x: "token_tree None None (cur_token p) p = Some (x, p\<lparr>comp := c'\<rparr>)"
    "node_made True (length (tree_nodes (comp p))) p Leaf Leaf x c'" using leaf_node_ok [OF p tok] by blast
  show thesis
  proof (cases x)
    case None
    show thesis by (rule none [of c']) (use x None in \<open>auto simp: leaf_tree_def failed_def\<close>)
  next
    case (Some a)
    show thesis by (rule some [of a c']) (use x Some in \<open>auto simp: leaf_tree_def\<close>)
  qed
qed

lemma leaf_tree_ok:
  assumes p: "parser_inv p" "perr p = REG_NOERROR" and n0: "n0 \<le> length (tree_nodes (comp p))"
    and tok: "typed (length (charsets (comp p))) (re_nsub (comp p)) (cur_token p)" "token_type p \<notin> {CONCAT, OP_DUP_ASTERISK}"
  shows "makes n0 (left_over (input p)) p (leaf_tree p)"
proof (rule leaf_tree_cases [OF p(1) tok], goal_cases)
  case (1 c')
  then show ?case using grown_lower [OF kept_grown n0] by (simp add: makes_def)
next
  case (2 a c')
  show ?case unfolding 2(1)
    by (rule makes_tree) (use 2 p(2) grown_lower [OF kept_grown n0] tree_ok_lower [OF _ n0] in auto)
qed

text \<open>The same with the state left abstract.\<close>

abbreviation rest_same :: "parser \<Rightarrow> parser \<Rightarrow> bool" where
  "rest_same p p' \<equiv> input p' = input p \<and> cur_token p' = cur_token p \<and> perr p' = perr p"

lemma token_tree_cases:
  assumes "parser_inv p" and "sub_ok k n0 (comp p) parl l u" and "sub_ok k n0 (comp p) parr r v" and "set_tree u \<inter> set_tree v = {}"
    and "n0 \<le> length (tree_nodes (comp p))"
    and "typed (length (charsets (comp p))) (re_nsub (comp p)) t" "k \<longrightarrow> fits (tok_type t) u v"
  obtains x p1 where "token_tree l r t p = Some (x, p1)" "parser_inv p1" "kept n0 (comp p) (comp p1)" "rest_same p p1"
    "case x of None \<Rightarrow> tree_nodes (comp p1) = tree_nodes (comp p)
     | Some a \<Rightarrow> a = length (tree_nodes (comp p)) \<and> sub_ok k n0 (comp p1) None (Some a) (Node u a v)"
proof -
  from token_tree_ok [OF assms] obtain x c' where x: "token_tree l r t p = Some (x, p\<lparr>comp := c'\<rparr>)" "node_made k n0 p u v x c'" by blast
  show thesis by (rule that [OF x(1)]) (use x(2) in \<open>simp_all cong: option.case_cong\<close>)
qed

lemma leaf_cases:
  assumes "parser_inv p" and "typed (length (charsets (comp p))) (re_nsub (comp p)) t" "tok_type t \<notin> {CONCAT, OP_DUP_ASTERISK}"
  obtains x p1 where "token_tree None None t p = Some (x, p1)" "parser_inv p1" "kept (length (tree_nodes (comp p))) (comp p) (comp p1)" "rest_same p p1"
    "case x of None \<Rightarrow> tree_nodes (comp p1) = tree_nodes (comp p)
     | Some a \<Rightarrow> a = length (tree_nodes (comp p)) \<and> tree_ok (length (tree_nodes (comp p))) (comp p1) (Some a) (Node Leaf a Leaf)"
proof -
  from leaf_node_ok [OF assms] obtain x c' where x: "token_tree None None t p = Some (x, p\<lparr>comp := c'\<rparr>)"
    "node_made True (length (tree_nodes (comp p))) p Leaf Leaf x c'" by blast
  show thesis by (rule that [OF x(1)]) (use x(2) in \<open>simp_all cong: option.case_cong\<close>)
qed

lemma type_cases:
  assumes "parser_inv p" and "tree_ok n0 (comp p) l u" and "tree_ok n0 (comp p) r v" and "set_tree u \<inter> set_tree v = {}"
    and "n0 \<le> length (tree_nodes (comp p))" and "ty \<in> {CONCAT, OP_ALT, OP_DUP_ASTERISK}" and "fits ty u v"
  obtains x p1 where "type_tree l r ty p = Some (x, p1)" "parser_inv p1" "kept n0 (comp p) (comp p1)" "rest_same p p1"
    "case x of None \<Rightarrow> tree_nodes (comp p1) = tree_nodes (comp p)
     | Some a \<Rightarrow> a = length (tree_nodes (comp p)) \<and> tree_ok n0 (comp p1) (Some a) (Node u a v)"
  by (rule token_tree_cases [OF assms(1-5), of "blank_token ty"]) (use assms(6,7) that type_tree_def in simp_all)

text \<open>A node that is made although one of its children could not be had.\<close>

lemma type_any:
  assumes p: "parser_inv p" and "tree_ok n0 (comp p) l u" and "tree_ok n0 (comp p) r v" and "set_tree u \<inter> set_tree v = {}"
    and "n0 \<le> length (tree_nodes (comp p))" and "ty \<in> {CONCAT, OP_ALT, OP_DUP_ASTERISK}"
  obtains x p1 where "type_tree l r ty p = Some (x, p1)" "parser_inv p1" "kept n0 (comp p) (comp p1)" "rest_same p p1"
  by (rule token_tree_cases [OF p sub_ok_weaken [OF assms(2)] sub_ok_weaken [OF assms(3)] assms(4,5), of "blank_token ty"])
    (use assms(6) that type_tree_def in auto)

lemma next_token_cases:
  assumes "parser_inv p"
  obtains p1 where "next_token ct syntax p = Some p1" "parser_inv p1" "comp p1 = comp p" "perr p1 = perr p" "token_ready p1"
    "ahead p1 \<le> left_over (input p)" "\<not> eoi (input p) \<Longrightarrow> token_type p1 \<noteq> END_OF_RE \<and> left_over (input p1) < left_over (input p)"
    "\<exists>n. peek_token ct (cur_token p) (input p) syntax = Some (cur_token p1, n)"
proof -
  from next_token_ok [OF assms, of ct "syntax"] obtain t s where
    n: "next_token ct syntax p = Some (p\<lparr>cur_token := t, input := s\<rparr>)" "parser_inv (p\<lparr>cur_token := t, input := s\<rparr>)"
      "tok_type t = END_OF_RE \<or> token_ok t" "left_over s + (if tok_type t = END_OF_RE then 0 else 1) \<le> left_over (input p)"
      "\<not> eoi (input p) \<longrightarrow> tok_type t \<noteq> END_OF_RE \<and> left_over s < left_over (input p)"
      "\<exists>n. peek_token ct (cur_token p) (input p) syntax = Some (t, n)" by blast
  then show thesis by (intro that [OF n(1,2)]) (use n(3-6) in \<open>simp_all add: token_ready_def ahead_def\<close>)
qed

section \<open>Characters\<close>

lemma character_typed: "tok_type t = CHARACTER \<Longrightarrow> opr t = Char_opr c \<Longrightarrow> typed cs subs t"
  by (simp add: typed_def)

lemma first_byte_ok: "pattern_ok s \<Longrightarrow> 1 < str_mb_cur_max s \<Longrightarrow> cur_idx s < str_len s \<Longrightarrow> \<exists>b. first_byte s (cur_idx s) = Some b"
  by (auto simp: first_byte_def pattern_ok_def mem_read_def)

lemma more_bytes_ok:
  "parser_inv p \<Longrightarrow> perr p = REG_NOERROR \<Longrightarrow> 1 < mbmax p \<Longrightarrow> tree_ok n0 (comp p) (Some a) t \<Longrightarrow> n0 \<le> length (tree_nodes (comp p)) \<Longrightarrow>
     left_over (input p) < n \<Longrightarrow> makes n0 (left_over (input p)) p (more_bytes n ct syntax (Some a) p)"
proof (induction n arbitrary: p a t)
  case (Suc n)
  have ok: "pattern_ok (input p)" and mb: "1 < str_mb_cur_max (input p)" using Suc.prems(1,3) by (simp_all add: parser_inv_def)
  obtain more where more: "(if eoi (input p) then Some False else map_option Not (first_byte (input p) (cur_idx (input p)))) = Some more"
  proof (cases "eoi (input p)")
    case False
    then have "cur_idx (input p) < str_len (input p)" using ok by (auto simp: eoi_iff pattern_ok_def)
    from first_byte_ok [OF ok mb this] show thesis using False that by auto
  qed (use that in auto)
  show ?case
  proof (cases more)
    case False
    have "more_bytes (Suc n) ct syntax (Some a) p = Some (Some a, p)" using more False by simp
    then show ?thesis using makes_tree [OF Suc.prems(1) grown_refl Suc.prems(2) order_refl Suc.prems(4)] by simp
  next
    case True
    then have eoi: "\<not> eoi (input p)" using more by (auto split: if_splits)
    then have mid: "mid_char (input p) = Some True" using more True mb by (auto simp: mid_char_def)
    obtain p1 where p1: "next_token ct syntax p = Some p1" "parser_inv p1" "comp p1 = comp p" "perr p1 = perr p"
      "left_over (input p1) < left_over (input p)" "\<exists>k. peek_token ct (cur_token p) (input p) syntax = Some (cur_token p1, k)"
      by (rule next_token_cases [OF Suc.prems(1), of ct "syntax"]) (use eoi in auto)
    then obtain c where c: "tok_type (cur_token p1) = CHARACTER" "opr (cur_token p1) = Char_opr c" using mid_token [OF ok eoi mid] by blast
    obtain x p2 where x: "token_tree None None (cur_token p1) p1 = Some (x, p2)" "parser_inv p2" "kept (length (tree_nodes (comp p1))) (comp p1) (comp p2)"
      "rest_same p1 p2" "case x of None \<Rightarrow> tree_nodes (comp p2) = tree_nodes (comp p1)
       | Some b \<Rightarrow> b = length (tree_nodes (comp p1)) \<and> tree_ok (length (tree_nodes (comp p1))) (comp p2) (Some b) (Node Leaf b Leaf)"
      by (rule leaf_cases [OF p1(2) character_typed [OF c]]) (use c in auto)
    let ?n = "length (tree_nodes (comp p))"
    have k2: "kept ?n (comp p) (comp p2)" using x(3) p1(3) by simp
    have g2: "grown n0 (comp p) (comp p2)" by (rule grown_lower [OF kept_grown [OF k2] Suc.prems(5)])
    have t2: "tree_ok n0 (comp p2) (Some a) t" by (rule old_grown [OF Suc.prems(4) tree_below [OF Suc.prems(4)] kept_grown [OF k2]])
    have n2: "n0 \<le> length (tree_nodes (comp p2))" by (rule grown_length [OF g2 Suc.prems(5)])
    show ?thesis
    proof (cases x)
      case None
      have leaf: "tree_ok n0 (comp p2) None Leaf" by simp
      obtain y p3 where y: "type_tree (Some a) None CONCAT p2 = Some (y, p3)" "parser_inv p3" "kept n0 (comp p2) (comp p3)"
        by (rule type_any [OF x(2) t2 leaf _ n2, of CONCAT]) auto
      have "more_bytes (Suc n) ct syntax (Some a) p = failed REG_ESPACE p3" using more True p1(1) x(1) None y(1) by simp
      then show ?thesis using makes_failed [OF y(2) grown_trans [OF g2 kept_grown [OF y(3)]]] by simp
    next
      case (Some b)
      have b': "b = ?n" "tree_ok ?n (comp p2) (Some b) (Node Leaf b Leaf)" using x(5) unfolding Some p1(3) option.case by blast+
      note b = b'(1) tree_ok_lower [OF b'(2) Suc.prems(5)]
      have "?n \<notin> set_tree t" using tree_below [OF Suc.prems(4)] by auto
      then have disj: "set_tree t \<inter> set_tree (Node Leaf b Leaf) = {}" using b(1) by simp
      have fit: "fits CONCAT t (Node Leaf b Leaf)" using sub_ok_root [OF t2] by (auto simp: fits_def)
      obtain y p3 where y: "type_tree (Some a) (Some b) CONCAT p2 = Some (y, p3)" "parser_inv p3" "kept n0 (comp p2) (comp p3)" "rest_same p2 p3"
        "case y of None \<Rightarrow> tree_nodes (comp p3) = tree_nodes (comp p2)
         | Some d \<Rightarrow> d = length (tree_nodes (comp p2)) \<and> tree_ok n0 (comp p3) (Some d) (Node t d (Node Leaf b Leaf))"
        by (rule type_cases [OF x(2) t2 b(2) disj n2 _ fit]) auto
      have g3: "grown n0 (comp p) (comp p3)" by (rule grown_trans [OF g2 kept_grown [OF y(3)]])
      show ?thesis
      proof (cases y)
        case None
        then have "more_bytes (Suc n) ct syntax (Some a) p = failed REG_ESPACE p3" using more True p1(1) x(1) Some y(1) by simp
        then show ?thesis using makes_failed [OF y(2) g3] by simp
      next
        case (Some d)
        then have d: "tree_ok n0 (comp p3) (Some d) (Node t d (Node Leaf b Leaf))" using y(5) unfolding Some option.case by blast
        have err: "perr p3 = REG_NOERROR" using y(4) x(4) p1(4) Suc.prems(2) by simp
        have mb3: "1 < mbmax p3" using y(2,4) x(4) p1(2) mb Suc.prems(1,3) p1(3) x(2) x(3) only_nodes_fields(1) [of "comp p1" "comp p2"] only_nodes_fields(1) [of "comp p2" "comp p3"] y(3) by (simp add: kept_def)
        have left: "left_over (input p3) < n" using y(4) x(4) p1(5) Suc.prems(6) by simp
        have "more_bytes (Suc n) ct syntax (Some a) p = more_bytes n ct syntax (Some d) p3" using more True p1(1) x(1) \<open>x = Some b\<close> y(1) Some by simp
        moreover have "makes n0 (left_over (input p3)) p3 (more_bytes n ct syntax (Some d) p3)"
          by (rule Suc.IH [OF y(2) err mb3 d grown_length [OF g3 Suc.prems(5)] left])
        ultimately show ?thesis using makes_from [OF _ g3] y(4) x(4) p1(5) by auto
      qed
    qed
  qed
qed simp

lemma parse_character_ok:
  assumes p: "parser_inv p" "perr p = REG_NOERROR" and n0: "n0 \<le> length (tree_nodes (comp p))"
    and tok: "token_type p = CHARACTER" "opr (cur_token p) = Char_opr c"
  shows "makes n0 (left_over (input p)) p (parse_character ct syntax p)"
proof (rule leaf_tree_cases [OF p(1) character_typed [OF tok]], goal_cases)
  case 1
  then show ?case using tok by simp
next
  case (2 c')
  then show ?case using grown_lower [OF kept_grown n0] by (simp add: makes_def parse_character_def)
next
  case (3 a c')
  let ?p = "p\<lparr>comp := c'\<rparr>"
  have t: "tree_ok n0 (comp ?p) (Some a) (Node Leaf a Leaf)" using tree_ok_lower [OF 3(4) n0] by simp
  have g: "grown n0 (comp p) (comp ?p)" using grown_lower [OF kept_grown [OF 3(3)] n0] by simp
  have n: "n0 \<le> length (tree_nodes (comp ?p))" by (rule grown_length [OF g n0])
  have perr: "perr ?p = REG_NOERROR" using p(2) by simp
  show ?case
  proof (cases "1 < mbmax ?p")
    case True
    have left: "left_over (input ?p) < str_len (input ?p) + 1" by simp
    have m: "makes n0 (left_over (input ?p)) ?p (more_bytes (str_len (input ?p) + 1) ct syntax (Some a) ?p)"
      by (rule more_bytes_ok [OF 3(2) perr True t n left])
    have "parse_character ct syntax p = more_bytes (str_len (input ?p) + 1) ct syntax (Some a) ?p"
      unfolding parse_character_def 3(1) bind.bind_lunit prod.case if_P [OF True] by simp
    then show ?thesis using makes_from [OF m g] by simp
  next
    case False
    have "parse_character ct syntax p = Some (Some a, ?p)"
      unfolding parse_character_def 3(1) bind.bind_lunit prod.case if_not_P [OF False] by simp
    then show ?thesis using makes_tree [OF 3(2) g perr _ t] by simp
  qed
qed

lemma parse_as_character_ok:
  assumes p: "parser_inv p" "perr p = REG_NOERROR" and n0: "n0 \<le> length (tree_nodes (comp p))" and tok: "opr (cur_token p) = Char_opr c"
  shows "makes n0 (left_over (input p)) p (parse_as_character p)"
proof -
  let ?p = "p\<lparr>cur_token := (cur_token p)\<lparr>tok_type := CHARACTER\<rparr>\<rparr>"
  have i: "parser_inv ?p" using p(1) by (simp add: parser_inv_def)
  have "makes n0 (left_over (input ?p)) ?p (leaf_tree ?p)"
    by (rule leaf_tree_ok [OF i]) (use p n0 tok in \<open>simp_all add: typed_def\<close>)
  then show ?thesis unfolding parse_as_character_def by (rule makes_from) simp_all
qed

lemma parse_period_ok:
  assumes p: "parser_inv p" "perr p = REG_NOERROR" and n0: "n0 \<le> length (tree_nodes (comp p))"
    and tok: "token_type p = OP_PERIOD" "opr (cur_token p) = Char_opr c"
  shows "makes n0 (left_over (input p)) p (parse_period p)"
proof (rule leaf_tree_cases [OF p(1)], goal_cases)
  case 1
  then show ?case using tok by (simp add: typed_def)
next
  case 2
  then show ?case using tok by simp
next
  case (3 c')
  then show ?case using grown_lower [OF kept_grown n0] by (simp add: makes_def parse_period_def)
next
  case (4 a c')
  let ?p = "p\<lparr>comp := c'\<rparr>"
  have t: "tree_ok n0 c' (Some a) (Node Leaf a Leaf)" by (rule tree_ok_lower [OF 4(4) n0])
  have g: "grown n0 (comp p) c'" by (rule grown_lower [OF kept_grown [OF 4(3)] n0])
  have "parser_inv (?p\<lparr>has_mb_node := True\<rparr>)" using 4(2) by (simp add: parser_inv_def)
  then show ?case unfolding parse_period_def using 4(1,2) t g p(2) by (auto simp: makes_def)
qed

lemma maps_irrelevant:
  "heap_ok (c\<lparr>used_bkref_map := w\<rparr>) = heap_ok c" "heap_ok (c\<lparr>completed_bkref_map := w\<rparr>) = heap_ok c"
  "grown n0 c (c\<lparr>used_bkref_map := w\<rparr>)" "grown n0 c (c\<lparr>completed_bkref_map := w\<rparr>)"
  "sub_ok k n0 (c\<lparr>used_bkref_map := w\<rparr>) = sub_ok k n0 c" "sub_ok k n0 (c\<lparr>completed_bkref_map := w\<rparr>) = sub_ok k n0 c"
  by (simp_all add: heap_ok_def charsets_ok_def grown_def sub_ok_def fun_eq_iff)

lemma parse_back_ref_ok:
  assumes p: "parser_inv p" "perr p = REG_NOERROR" and n0: "n0 \<le> length (tree_nodes (comp p))"
    and tok: "token_type p = OP_BACK_REF" "opr (cur_token p) = Idx_opr i" "0 \<le> i" "i \<le> 8"
  shows "makes n0 (left_over (input p)) p (parse_back_ref p)"
proof (cases "completed_bkref_map (comp p) AND int_bit i = 0")
  case True
  then have "parse_back_ref p = failed REG_ESUBREG p" using tok by (simp add: parse_back_ref_def)
  then show ?thesis using makes_failed [OF p(1) grown_refl] by simp
next
  case False
  let ?p = "p\<lparr>comp := (comp p)\<lparr>used_bkref_map := used_bkref_map (comp p) OR int_bit i\<rparr>\<rparr>"
  have i: "parser_inv ?p" using p(1) by (simp add: parser_inv_def maps_irrelevant)
  have g0: "grown n0 (comp p) (comp ?p)" by (simp add: maps_irrelevant)
  have step: "parse_back_ref p = do { (tree, p) \<leftarrow> leaf_tree ?p;
      if tree = None then Some (None, p) else Some (tree, p\<lparr>nbackref := nbackref p + 1, has_mb_node := True\<rparr>) }"
    using tok False by (simp add: parse_back_ref_def)
  have ty: "typed (length (charsets (comp ?p))) (re_nsub (comp ?p)) (cur_token ?p)" "token_type ?p \<notin> {CONCAT, OP_DUP_ASTERISK}"
    using tok by (simp_all add: typed_def)
  have n: "n0 \<le> length (tree_nodes (comp ?p))" using n0 by simp
  show ?thesis
  proof (rule leaf_tree_cases [OF i ty], goal_cases)
    case (1 c')
    have "grown n0 (comp p) c'" by (rule grown_trans [OF g0 grown_lower [OF kept_grown [OF 1(3)] n]])
    then show ?case unfolding step using 1(1,2) by (simp add: makes_def parser_inv_def)
  next
    case (2 a c')
    have "grown n0 (comp p) c'" by (rule grown_trans [OF g0 grown_lower [OF kept_grown [OF 2(3)] n]])
    moreover have "tree_ok n0 c' (Some a) (Node Leaf a Leaf)" by (rule tree_ok_lower [OF 2(4) n])
    ultimately show ?case unfolding step using 2(1,2) p(2) by (auto simp: makes_def parser_inv_def)
  qed
qed

section \<open>Anchors\<close>

lemma init_word_char_ok:
  assumes p: "parser_inv p"
  shows "\<exists>ws. init_word_char ct p = Some (p\<lparr>word_ops_used := True, word_chars := ws\<rparr>) \<and> length ws = BITSET_WORDS"
proof -
  have len: "length (word_chars p) = BITSET_WORDS" using p by (simp add: parser_inv_def)
  have general: "\<exists>ws'. set_where (\<lambda>i. IS_WORD_CHAR ct (word_of_nat i)) (\<lambda>i. i) ch (SBC_MAX - ch) ws = Some ws' \<and> length ws' = BITSET_WORDS"
    if "length ws = BITSET_WORDS" "ch \<le> SBC_MAX" for ch ws
    using set_where_ok [OF that(1), of ch "SBC_MAX - ch" "\<lambda>i. i" "\<lambda>i. IS_WORD_CHAR ct (word_of_nat i)"] that(2) by auto
  obtain w0 w1 w2 w3 where w: "word_chars p = [w0, w1, w2, w3]" using len by (auto simp: length_Suc_conv numeral_eq_Suc)
  show ?thesis
  proof (cases "map_notascii p")
    case True
    obtain ws where "set_where (\<lambda>i. IS_WORD_CHAR ct (word_of_nat i)) (\<lambda>i. i) 0 (SBC_MAX - 0) (word_chars p) = Some ws" "length ws = BITSET_WORDS"
      using general [OF len, of 0] by auto
    then show ?thesis using True by (intro exI [of _ ws]) (simp add: init_word_char_def)
  next
    case False
    have ascii: "mem_write (word_chars p) 0 [0x03ff000000000000] = Some [0x03ff000000000000, w1, w2, w3]"
      "mem_write [0x03ff000000000000, w1, w2, w3] 1 [0x07fffffe87fffffe] = Some [0x03ff000000000000, 0x07fffffe87fffffe, w2, w3]"
      "mem_write [0x03ff000000000000, 0x07fffffe87fffffe, w2, w3] 2 [0, 0] = Some [0x03ff000000000000, 0x07fffffe87fffffe, 0, 0]"
      by (simp_all add: w mem_write_def)
    show ?thesis
    proof (cases "is_utf8 p")
      case True
      then show ?thesis using False ascii
        by (intro exI [of _ "[0x03ff000000000000, 0x07fffffe87fffffe, 0, 0]"]) (simp add: init_word_char_def)
    next
      case no: False
      obtain ws where "set_where (\<lambda>i. IS_WORD_CHAR ct (word_of_nat i)) (\<lambda>i. i) 128 (SBC_MAX - 128) [0x03ff000000000000, 0x07fffffe87fffffe, w2, w3] = Some ws"
        "length ws = BITSET_WORDS" using general [of "[0x03ff000000000000, 0x07fffffe87fffffe, w2, w3]" 128] by auto
      then show ?thesis using False no ascii by (intro exI [of _ ws]) (simp add: init_word_char_def)
    qed
  qed
qed

lemma anchor_typed: "tok_type t = ANCHOR \<Longrightarrow> opr t = Ctx_type w \<Longrightarrow> typed cs subs t"
  by (simp add: typed_def)

lemma delim_tree_ok:
  assumes p: "parser_inv p" "perr p = REG_NOERROR" and n0: "n0 \<le> length (tree_nodes (comp p))" and tok: "token_type p = ANCHOR"
  shows "makes n0 (left_over (input p)) p (delim_tree w1 w2 p)"
proof -
  have i1: "parser_inv (with_ctx w1 p)" using p(1) by (simp add: with_ctx_def parser_inv_def)
  have t1: "token_type (with_ctx w1 p) = ANCHOR" "opr (cur_token (with_ctx w1 p)) = Ctx_type w1" using tok by (simp_all add: with_ctx_def)
  have c1: "comp (with_ctx w1 p) = comp p" by (simp add: with_ctx_def)
  let ?n = "length (tree_nodes (comp p))"
  obtain x p1 where x: "token_tree None None (cur_token (with_ctx w1 p)) (with_ctx w1 p) = Some (x, p1)" "parser_inv p1"
    "kept ?n (comp p) (comp p1)" "rest_same (with_ctx w1 p) p1"
    "case x of None \<Rightarrow> tree_nodes (comp p1) = tree_nodes (comp p) | Some a \<Rightarrow> a = ?n \<and> tree_ok ?n (comp p1) (Some a) (Node Leaf a Leaf)"
    by (rule leaf_cases [OF i1 anchor_typed [OF t1], unfolded c1]) (simp add: t1, rule that)
  have i2: "parser_inv (with_ctx w2 p1)" using x(2) by (simp add: with_ctx_def parser_inv_def)
  have t2: "token_type (with_ctx w2 p1) = ANCHOR" "opr (cur_token (with_ctx w2 p1)) = Ctx_type w2" using x(4) tok by (simp_all add: with_ctx_def)
  have c2: "comp (with_ctx w2 p1) = comp p1" by (simp add: with_ctx_def)
  let ?m = "length (tree_nodes (comp p1))"
  obtain y p2 where y: "token_tree None None (cur_token (with_ctx w2 p1)) (with_ctx w2 p1) = Some (y, p2)" "parser_inv p2"
    "kept ?m (comp p1) (comp p2)" "rest_same (with_ctx w2 p1) p2"
    "case y of None \<Rightarrow> tree_nodes (comp p2) = tree_nodes (comp p1) | Some a \<Rightarrow> a = ?m \<and> tree_ok ?m (comp p2) (Some a) (Node Leaf a Leaf)"
    by (rule leaf_cases [OF i2 anchor_typed [OF t2], unfolded c2]) (simp add: t2, rule that)
  have nm: "n0 \<le> ?n" "?n \<le> ?m" using n0 x(3) by (simp_all add: kept_def)
  have g1: "grown n0 (comp p) (comp p1)" by (rule grown_lower [OF kept_grown [OF x(3)] n0])
  have g2: "grown n0 (comp p) (comp p2)" using grown_trans [OF g1 grown_lower [OF kept_grown [OF y(3)]]] nm by simp
  have n2: "n0 \<le> length (tree_nodes (comp p2))" by (rule grown_length [OF g2 n0])
  have first: "\<exists>u. tree_ok n0 (comp p2) x u \<and> set_tree u \<subseteq> {..<?m}"
  proof (cases x)
    case None
    then show ?thesis by (intro exI [of _ Leaf]) simp
  next
    case (Some a)
    then have "tree_ok ?n (comp p1) (Some a) (Node Leaf a Leaf)" using x(5) unfolding Some option.case by blast
    then have "tree_ok n0 (comp p1) (Some a) (Node Leaf a Leaf)" by (rule tree_ok_lower [OF _ n0])
    then show ?thesis using old_grown [OF _ tree_below kept_grown [OF y(3)]] tree_below Some by blast
  qed
  then obtain u where u: "tree_ok n0 (comp p2) x u" "set_tree u \<subseteq> {..<?m}" by blast
  have second: "\<exists>v. tree_ok n0 (comp p2) y v \<and> set_tree v \<subseteq> {?m..}"
  proof (cases y)
    case None
    then show ?thesis by (intro exI [of _ Leaf]) simp
  next
    case (Some a)
    have "tree_ok ?m (comp p2) (Some a) (Node Leaf a Leaf)" "a = ?m" using y(5) unfolding Some option.case by blast+
    then show ?thesis using tree_ok_lower [of True ?m "comp p2" None "Some a" "Node Leaf a Leaf" n0] nm Some
      by (intro exI [of _ "Node Leaf a Leaf"]) simp
  qed
  then obtain v where v: "tree_ok n0 (comp p2) y v" "set_tree v \<subseteq> {?m..}" by blast
  have disj: "set_tree u \<inter> set_tree v = {}" using u(2) v(2) by fastforce
  obtain z p3 where z: "type_tree x y OP_ALT p2 = Some (z, p3)" "parser_inv p3" "kept n0 (comp p2) (comp p3)" "rest_same p2 p3"
    "case z of None \<Rightarrow> tree_nodes (comp p3) = tree_nodes (comp p2)
     | Some a \<Rightarrow> a = length (tree_nodes (comp p2)) \<and> tree_ok n0 (comp p3) (Some a) (Node u a v)"
    by (rule type_cases [OF y(2) u(1) v(1) disj n2, of OP_ALT]) (simp_all add: fits_def)
  have g3: "grown n0 (comp p) (comp p3)" by (rule grown_trans [OF g2 kept_grown [OF z(3)]])
  have step: "delim_tree w1 w2 p = (if x = None \<or> y = None \<or> z = None then failed REG_ESPACE p3 else Some (z, p3))"
    unfolding delim_tree_def Let_def x(1) bind.bind_lunit prod.case y(1) z(1) by simp
  show ?thesis
  proof (cases "x = None \<or> y = None \<or> z = None")
    case True
    then show ?thesis unfolding step using makes_failed [OF z(2) g3] by simp
  next
    case False
    then obtain a where a: "z = Some a" by blast
    have t: "tree_ok n0 (comp p3) (Some a) (Node u a v)" using z(5) unfolding a option.case by blast
    have err: "perr p3 = REG_NOERROR" "input p3 = input p" using z(4) y(4) x(4) p(2) by (simp_all add: with_ctx_def)
    have eq: "delim_tree w1 w2 p = Some (z, p3)" unfolding step by (rule if_not_P [OF False])
    show ?thesis unfolding eq a by (rule makes_tree [OF z(2) g3 err(1) _ t]) (simp add: err(2))
  qed
qed

text \<open>A computation that goes on to the next token: there are at most \<open>m\<close> tokens and bytes ahead.\<close>

definition parses :: "nat \<Rightarrow> nat \<Rightarrow> parser \<Rightarrow> parsed \<Rightarrow> bool" where
  "parses n0 m p R \<longleftrightarrow> (\<exists>r p'. R = Some (r, p') \<and> parser_inv p' \<and> grown n0 (comp p) (comp p')
     \<and> (if perr p' = REG_NOERROR then token_ready p' \<and> ahead p' \<le> m \<and> (\<exists>t. tree_ok n0 (comp p') r t) else r = None))"

lemma perr_fix: "(p = p\<lparr>perr := e\<rparr>) = (perr p = e)"
  by (cases p) auto

lemma leaf_none: "leaf_tree p = Some (None, p') \<Longrightarrow> perr p' \<noteq> REG_NOERROR"
  by (auto simp: perr_fix leaf_tree_def failed_def bind_eq_Some_conv split: if_splits)

lemma delim_none: "delim_tree w1 w2 p = Some (None, p') \<Longrightarrow> perr p' \<noteq> REG_NOERROR"
  by (auto simp: perr_fix delim_tree_def failed_def Let_def bind_eq_Some_conv split: if_splits)

lemma parses_error: "parser_inv p' \<Longrightarrow> grown n0 (comp p) (comp p') \<Longrightarrow> perr p' \<noteq> REG_NOERROR \<Longrightarrow> parses n0 m p (Some (None, p'))"
  by (simp add: parses_def)

lemma parses_failed: "parser_inv p' \<Longrightarrow> grown n0 (comp p) (comp p') \<Longrightarrow> e \<noteq> REG_NOERROR \<Longrightarrow> parses n0 m p (failed e p')"
  by (simp add: parses_def failed_def)

lemma parses_tree: "parser_inv p' \<Longrightarrow> grown n0 (comp p) (comp p') \<Longrightarrow> perr p' = REG_NOERROR \<Longrightarrow> token_ready p' \<Longrightarrow> ahead p' \<le> m \<Longrightarrow>
     tree_ok n0 (comp p') r t \<Longrightarrow> parses n0 m p (Some (r, p'))"
  by (auto simp: parses_def)

lemma parses_from: "parses n0 m p1 R \<Longrightarrow> grown n0 (comp p) (comp p1) \<Longrightarrow> m \<le> m' \<Longrightarrow> parses n0 m' p R"
  unfolding parses_def by (elim exE conjE, intro exI conjI, assumption, assumption, erule (1) grown_trans) (simp split: if_splits)

lemma parses_cases:
  assumes "parses n0 m p R"
  obtains (err) p' where "R = Some (None, p')" "parser_inv p'" "grown n0 (comp p) (comp p')" "perr p' \<noteq> REG_NOERROR"
  | (tree) r p' t where "R = Some (r, p')" "parser_inv p'" "grown n0 (comp p) (comp p')" "perr p' = REG_NOERROR"
      "token_ready p'" "ahead p' \<le> m" "tree_ok n0 (comp p') r t"
  using assms unfolding parses_def by (elim exE conjE) (simp split: if_splits, blast+)

lemma makes_cases:
  assumes "makes n0 m p R"
  obtains (err) p' where "R = Some (None, p')" "parser_inv p'" "grown n0 (comp p) (comp p')" "perr p' \<noteq> REG_NOERROR"
  | (tree) r p' t where "R = Some (r, p')" "parser_inv p'" "grown n0 (comp p) (comp p')" "perr p' = REG_NOERROR"
      "left_over (input p') \<le> m" "tree_ok n0 (comp p') r t"
  using assms unfolding makes_def by (elim exE conjE) (simp split: if_splits, blast+)

lemma next_after:
  assumes "makes n0 m p R" and "\<And>p'. R = Some (None, p') \<Longrightarrow> perr p' \<noteq> REG_NOERROR"
  shows "parses n0 m p (do { (tree, p) \<leftarrow> R; if tree = None then Some (None, p) else do { p \<leftarrow> next_token ct syntax p; Some (tree, p) } })"
  using assms(1)
proof (cases rule: makes_cases)
  case (err p')
  then show ?thesis using parses_error by simp
next
  case (tree r p' t)
  then obtain a where a: "r = Some a" using assms(2) [of p'] by (cases r) auto
  obtain p1 where p1: "next_token ct syntax p' = Some p1" "parser_inv p1" "comp p1 = comp p'" "perr p1 = perr p'" "token_ready p1"
    "ahead p1 \<le> left_over (input p')" by (rule next_token_cases [OF tree(2)])
  show ?thesis
    using parses_tree [OF p1(2), of n0 p m r t] p1 tree a by simp
qed

lemma parse_anchor_ok:
  assumes p: "parser_inv p" "perr p = REG_NOERROR" and n0: "n0 \<le> length (tree_nodes (comp p))"
    and tok: "token_type p = ANCHOR" "opr (cur_token p) = Ctx_type w"
  shows "parses n0 (left_over (input p)) p (parse_anchor ct syntax p)"
proof -
  obtain ws where ws: "init_word_char ct p = Some (p\<lparr>word_ops_used := True, word_chars := ws\<rparr>)" "length ws = BITSET_WORDS" using init_word_char_ok [OF p(1)] by blast
  obtain p1 where p1: "(if w AND (WORD_DELIM OR NOT_WORD_DELIM OR WORD_FIRST OR WORD_LAST) \<noteq> 0 \<and> \<not> word_ops_used p then init_word_char ct p else Some p) = Some p1"
    "parser_inv p1" "comp p1 = comp p" "rest_same p p1"
  proof (cases "w AND (WORD_DELIM OR NOT_WORD_DELIM OR WORD_FIRST OR WORD_LAST) \<noteq> 0 \<and> \<not> word_ops_used p")
    case True
    show thesis by (rule that [of "p\<lparr>word_ops_used := True, word_chars := ws\<rparr>"], unfold if_P [OF True], rule ws(1))
      (use p(1) ws(2) in \<open>simp_all add: parser_inv_def\<close>)
  next
    case False
    show thesis by (rule that [of p], unfold if_not_P [OF False]) (simp_all add: p(1))
  qed
  define R where "R = (if w = WORD_DELIM then delim_tree WORD_FIRST WORD_LAST p1 else if w = NOT_WORD_DELIM then delim_tree INSIDE_WORD INSIDE_NOTWORD p1 else leaf_tree p1)"
  have n1: "n0 \<le> length (tree_nodes (comp p1))" and e1: "perr p1 = REG_NOERROR" and t1: "token_type p1 = ANCHOR" "opr (cur_token p1) = Ctx_type w"
    using n0 p(2) tok p1(3,4) by simp_all
  have "makes n0 (left_over (input p1)) p1 R"
    unfolding R_def using delim_tree_ok [OF p1(2) e1 n1 t1(1)] leaf_tree_ok [OF p1(2) e1 n1 anchor_typed [OF t1]] t1 by simp
  then have R: "makes n0 (left_over (input p)) p R" by (rule makes_from) (simp_all add: p1(3,4))
  have none: "perr p' \<noteq> REG_NOERROR" if "R = Some (None, p')" for p'
    using that leaf_none delim_none unfolding R_def by (auto split: if_splits)
  have "parse_anchor ct syntax p = do { (tree, p) \<leftarrow> R; if tree = None then Some (None, p) else do { p \<leftarrow> next_token ct syntax p; Some (tree, p) } }"
    unfolding parse_anchor_def tok(2) anchor_ctx.simps bind.bind_lunit p1(1) R_def [symmetric] ..
  then show ?thesis using next_after [OF R none] by simp
qed

section \<open>Nodes of brackets\<close>

lemma free_node_ok:
  assumes p: "parser_inv p" and a: "n0 \<le> a" "tree_ok n0 (comp p) (Some a) t"
  shows "\<exists>p'. free_node a p = Some p' \<and> parser_inv p' \<and> grown a (comp p) (comp p') \<and> tree_nodes (comp p') = tree_nodes (comp p)
     \<and> charsets (comp p') = charsets (comp p) \<and> re_nsub (comp p') = re_nsub (comp p) \<and> set (released (comp p')) \<subseteq> insert a (set (released (comp p))) \<and> rest_same p p'"
proof -
  have root: "a \<in> set_tree t" using sub_ok_root [OF a(2)] root_in [of t a] by simp
  have lt: "a < length (tree_nodes (comp p))" by (rule sub_ok_lt [OF a(2) root])
  have ty: "typed (length (charsets (comp p))) (re_nsub (comp p)) (tree_token (tree_nodes (comp p) ! a))"
    using a(2) shaped_typed root by (auto simp: sub_ok_def)
  have new: "a \<notin> set (released (comp p))" using a(2) root by (auto simp: sub_ok_def)
  have heap: "heap_ok (comp p)" using p by (simp add: parser_inv_def)
  then have "charsets_ok (comp p)" by (simp add: heap_ok_def)
  from free_token_ok [OF ty this new] obtain rs where
    rs: "free_token a (tree_token (tree_nodes (comp p) ! a)) (comp p) = Some ((comp p)\<lparr>released := rs @ released (comp p)\<rparr>)" "set rs \<subseteq> {a}" by blast
  let ?c = "(comp p)\<lparr>released := rs @ released (comp p)\<rparr>"
  have "heap_ok ?c" using heap rs(2) lt by (auto simp: heap_ok_def charsets_ok_def)
  then have "parser_inv (p\<lparr>comp := ?c\<rparr>)" by (rule inv_comp [OF p]) simp_all
  moreover have "free_node a p = Some (p\<lparr>comp := ?c\<rparr>)" using lt rs(1) by (simp add: free_node_def tree_at_def mem_read_def)
  ultimately show ?thesis using rs(2) by (intro exI [of _ "p\<lparr>comp := ?c\<rparr>"]) (auto simp: grown_def)
qed

lemma add_charset_ok:
  assumes p: "parser_inv p" and m: "\<not> ranges_freed m"
  obtains p1 where "add_charset m p = (Mbcset (length (charsets (comp p))), p1)" "parser_inv p1" "grown (length (tree_nodes (comp p))) (comp p) (comp p1)"
    "tree_nodes (comp p1) = tree_nodes (comp p)" "length (charsets (comp p1)) = length (charsets (comp p)) + 1" "rest_same p p1" "dfa_of (comp p1) = dfa_of (comp p)"
proof -
  let ?c = "(comp p)\<lparr>charsets := charsets (comp p) @ [m]\<rparr>"
  have "heap_ok (comp p)" using p by (simp add: parser_inv_def)
  then have "heap_ok ?c" using m by (auto simp: heap_ok_def charsets_ok_def)
  from inv_comp [OF p this] have i: "parser_inv (p\<lparr>comp := ?c, has_mb_node := True\<rparr>)" by (simp add: parser_inv_def)
  show thesis by (rule that [of "p\<lparr>comp := ?c, has_mb_node := True\<rparr>"]) (use i in \<open>simp_all add: add_charset_def grown_def\<close>)
qed

lemma simple_typed: "length ws = BITSET_WORDS \<Longrightarrow> typed cs subs (t\<lparr>tok_type := SIMPLE_BRACKET, opr := Sbcset ws\<rparr>)"
  by (simp add: typed_def)

lemma complex_typed: "i < cs \<Longrightarrow> typed cs subs (t\<lparr>tok_type := COMPLEX_BRACKET, opr := Mbcset i\<rparr>)"
  by (simp add: typed_def)

lemma simple_tree_ok:
  assumes p: "parser_inv p" "perr p = REG_NOERROR" and n0: "n0 \<le> length (tree_nodes (comp p))" and sb: "length sb = BITSET_WORDS"
  obtains (none) p' where "simple_tree t sb p = Some (None, p')" "parser_inv p'" "grown n0 (comp p) (comp p')" "perr p' \<noteq> REG_NOERROR"
  | (some) a p' where "simple_tree t sb p = Some (Some a, p')" "parser_inv p'" "grown (length (tree_nodes (comp p))) (comp p) (comp p')" "rest_same p p'"
      "a = length (tree_nodes (comp p))" "tree_ok (length (tree_nodes (comp p))) (comp p') (Some a) (Node Leaf a Leaf)" "dfa_of (comp p') = dfa_of (comp p)"
proof -
  let ?n = "length (tree_nodes (comp p))"
  obtain x p1 where x: "token_tree None None (t\<lparr>tok_type := SIMPLE_BRACKET, opr := Sbcset sb\<rparr>) p = Some (x, p1)" "parser_inv p1"
    "kept ?n (comp p) (comp p1)" "rest_same p p1"
    "case x of None \<Rightarrow> tree_nodes (comp p1) = tree_nodes (comp p) | Some a \<Rightarrow> a = ?n \<and> tree_ok ?n (comp p1) (Some a) (Node Leaf a Leaf)"
    by (rule leaf_cases [OF p(1) simple_typed [OF sb]]) (simp, rule that)
  show thesis
  proof (cases x)
    case None
    show thesis by (rule none [of "p1\<lparr>perr := REG_ESPACE\<rparr>"])
      (use x(1,2) None grown_lower [OF kept_grown [OF x(3)] n0] in \<open>simp_all add: simple_tree_def failed_def\<close>)
  next
    case (Some a)
    have a: "a = ?n" "tree_ok ?n (comp p1) (Some a) (Node Leaf a Leaf)" using x(5) unfolding Some option.case by blast+
    show thesis by (rule some [OF _ x(2) kept_grown [OF x(3)] x(4) a])
      (use x(1,3) Some only_nodes_fields(1) [of "comp p" "comp p1"] in \<open>simp_all add: simple_tree_def kept_def\<close>)
  qed
qed

lemma simple_makes:
  assumes p: "parser_inv p" "perr p = REG_NOERROR" and n0: "n0 \<le> length (tree_nodes (comp p))" and sb: "length sb = BITSET_WORDS"
  shows "makes n0 (left_over (input p)) p (simple_tree t sb p)"
proof (rule simple_tree_ok [OF p n0 sb, of t], goal_cases)
  case (1 p')
  then show ?case using makes_error by simp
next
  case (2 a p')
  show ?case unfolding 2(1)
    by (rule makes_tree [OF 2(2) grown_lower [OF 2(3) n0] _ _ tree_ok_lower [OF 2(6) n0]]) (use 2(4) p(2) in simp_all)
qed

text \<open>An alternative of two leaves.\<close>

lemma leaf_alt:
  assumes p: "parser_inv p" "perr p = REG_NOERROR" and n0: "n0 \<le> length (tree_nodes (comp p))"
    and a: "tree_ok n0 (comp p) (Some a) (Node Leaf a Leaf)" and b: "tree_ok n0 (comp p) (Some b) (Node Leaf b Leaf)" and ab: "a \<noteq> b"
  obtains (none) p' where "type_tree (Some a) (Some b) OP_ALT p = Some (None, p')" "parser_inv p'" "kept n0 (comp p) (comp p')" "rest_same p p'"
      "tree_nodes (comp p') = tree_nodes (comp p)"
  | (some) d p' where "type_tree (Some a) (Some b) OP_ALT p = Some (Some d, p')" "parser_inv p'" "grown n0 (comp p) (comp p')" "rest_same p p'"
      "\<exists>t. tree_ok n0 (comp p') (Some d) t"
proof -
  have disj: "set_tree (Node Leaf a Leaf) \<inter> set_tree (Node Leaf b Leaf) = {}" using ab by simp
  obtain x p1 where x: "type_tree (Some a) (Some b) OP_ALT p = Some (x, p1)" "parser_inv p1" "kept n0 (comp p) (comp p1)" "rest_same p p1"
    "case x of None \<Rightarrow> tree_nodes (comp p1) = tree_nodes (comp p)
     | Some d \<Rightarrow> d = length (tree_nodes (comp p)) \<and> tree_ok n0 (comp p1) (Some d) (Node (Node Leaf a Leaf) d (Node Leaf b Leaf))"
    by (rule type_cases [OF p(1) a b disj n0, of OP_ALT]) (simp_all add: fits_def)
  show thesis
  proof (cases x)
    case None
    show thesis by (rule none [OF _ x(2-4)]) (use x(1,5) None in simp_all)
  next
    case (Some d)
    have "tree_ok n0 (comp p1) (Some d) (Node (Node Leaf a Leaf) d (Node Leaf b Leaf))" using x(5) unfolding Some option.case by blast
    then show thesis by (intro some [OF _ x(2) kept_grown [OF x(3)] x(4)]) (use x(1) Some in auto)
  qed
qed

lemma leaf_old: "tree_ok n1 c (Some a) (Node Leaf a Leaf) \<Longrightarrow> n0 \<le> n1 \<Longrightarrow> grown (length (tree_nodes c)) c c' \<Longrightarrow> tree_ok n0 c' (Some a) (Node Leaf a Leaf)"
  using old_grown [OF _ tree_below] tree_ok_lower by blast

lemma complex_tree_ok:
  assumes p: "parser_inv p" "perr p = REG_NOERROR" and n0: "n0 \<le> length (tree_nodes (comp p))"
    and b: "\<not> ranges_freed (mbcset b)" "length (sbcset b) = BITSET_WORDS"
  shows "makes n0 (left_over (input p)) p (complex_tree ct b p)"
proof -
  let ?n = "length (tree_nodes (comp p))" and ?o = "Mbcset (length (charsets (comp p)))"
  obtain p1 where p1: "add_charset (mbcset b) p = (?o, p1)" "parser_inv p1" "grown ?n (comp p) (comp p1)"
    "tree_nodes (comp p1) = tree_nodes (comp p)" "length (charsets (comp p1)) = length (charsets (comp p)) + 1" "rest_same p p1"
    by (rule add_charset_ok [OF p(1) b(1)])
  have ty: "typed (length (charsets (comp p1))) (re_nsub (comp p1)) ((uninit ct)\<lparr>tok_type := COMPLEX_BRACKET, opr := ?o\<rparr>)"
    by (rule complex_typed) (simp add: p1(5))
  obtain x p2 where x: "token_tree None None ((uninit ct)\<lparr>tok_type := COMPLEX_BRACKET, opr := ?o\<rparr>) p1 = Some (x, p2)" "parser_inv p2"
    "kept ?n (comp p1) (comp p2)" "rest_same p1 p2"
    "case x of None \<Rightarrow> tree_nodes (comp p2) = tree_nodes (comp p) | Some a \<Rightarrow> a = ?n \<and> tree_ok ?n (comp p2) (Some a) (Node Leaf a Leaf)"
    by (rule leaf_cases [OF p1(2) ty, unfolded p1(4)]) (simp, rule that)
  have g2: "grown n0 (comp p) (comp p2)" by (rule grown_lower [OF grown_trans [OF p1(3) kept_grown [OF x(3)]] n0])
  have f: "free_charset (mbcset b) = Some ()" using b(1) by (simp add: free_charset_def)
  show ?thesis
  proof (cases x)
    case None
    have "complex_tree ct b p = failed REG_ESPACE p2" unfolding complex_tree_def p1(1) using x(1) None f by simp
    then show ?thesis using makes_failed [OF x(2) g2] by simp
  next
    case (Some mbc)
    have mbc: "mbc = ?n" "tree_ok ?n (comp p2) (Some mbc) (Node Leaf mbc Leaf)" using x(5) unfolding Some option.case by blast+
    have err2: "perr p2 = REG_NOERROR" "input p2 = input p" using x(4) p1(6) p(2) by simp_all
    show ?thesis
    proof (cases "\<forall>w \<in> set (sbcset b). w = 0")
      case True
      have "complex_tree ct b p = Some (Some mbc, p2)" unfolding complex_tree_def p1(1) using x(1) Some True by simp
      then show ?thesis using makes_tree [OF x(2) g2 err2(1) _ tree_ok_lower [OF mbc(2) n0]] err2(2) by simp
    next
      case False
      let ?m = "length (tree_nodes (comp p2))"
      obtain y p3 where y: "token_tree None None ((uninit ct)\<lparr>tok_type := SIMPLE_BRACKET, opr := Sbcset (sbcset b)\<rparr>) p2 = Some (y, p3)" "parser_inv p3"
        "kept ?m (comp p2) (comp p3)" "rest_same p2 p3"
        "case y of None \<Rightarrow> tree_nodes (comp p3) = tree_nodes (comp p2) | Some a \<Rightarrow> a = ?m \<and> tree_ok ?m (comp p3) (Some a) (Node Leaf a Leaf)"
        by (rule leaf_cases [OF x(2) simple_typed [OF b(2)]]) (simp, rule that)
      have n0m: "n0 \<le> ?m" by (rule grown_length [OF g2 n0])
      have g3: "grown n0 (comp p) (comp p3)" by (rule grown_trans [OF g2 grown_lower [OF kept_grown [OF y(3)] n0m]])
      have n3: "n0 \<le> length (tree_nodes (comp p3))" by (rule grown_length [OF g3 n0])
      have mbc3: "tree_ok n0 (comp p3) (Some mbc) (Node Leaf mbc Leaf)" by (rule leaf_old [OF mbc(2) n0 kept_grown [OF y(3)]])
      have n0mbc: "n0 \<le> mbc" using mbc(1) n0 by simp
      show ?thesis
      proof (cases y)
        case None
        obtain p4 where p4: "free_node mbc p3 = Some p4" "parser_inv p4" "grown mbc (comp p3) (comp p4)" using free_node_ok [OF y(2) n0mbc mbc3] by blast
        have "complex_tree ct b p = failed REG_ESPACE p4" unfolding complex_tree_def p1(1) Let_def prod.case x(1) bind.bind_lunit Some option.case if_not_P [OF False] y(1) None p4(1) by simp
        then show ?thesis using makes_failed [OF p4(2) grown_trans [OF g3 grown_lower [OF p4(3) n0mbc]]] by simp
      next
        case (Some work)
        have work: "work = ?m" "tree_ok ?m (comp p3) (Some work) (Node Leaf work Leaf)" using y(5) unfolding Some option.case by blast+
        have err3: "perr p3 = REG_NOERROR" "input p3 = input p" using y(4) err2 by simp_all
        have "mbc < ?m" using sub_ok_lt [OF mbc(2), of mbc] by simp
        then have ne: "work \<noteq> mbc" "mbc < work" using work(1) by simp_all
        note step = complex_tree_def [of ct b p, unfolded p1(1) Let_def prod.case x(1) bind.bind_lunit \<open>x = Some mbc\<close> option.case
            if_not_P [OF False] y(1) Some]
        show ?thesis
        proof (rule leaf_alt [OF y(2) err3(1) n3 tree_ok_lower [OF work(2) n0m] mbc3 ne(1)], goal_cases)
          case (1 p4)
          have g4: "grown n0 (comp p) (comp p4)" by (rule grown_trans [OF g3 kept_grown [OF 1(3)]])
          have same: "tree_ok n0 (comp p4) q (Node Leaf a Leaf)" if "tree_ok n0 (comp p3) q (Node Leaf a Leaf)" for q a
            by (rule sub_ok_only_nodes [OF that]) (use 1(3,5) in \<open>simp_all add: kept_def\<close>)
          have n0w: "n0 \<le> work" using work(1) n0m by simp
          obtain p5 where p5: "free_node work p4 = Some p5" "parser_inv p5" "grown work (comp p4) (comp p5)"
            using free_node_ok [OF 1(2) n0w same [OF tree_ok_lower [OF work(2) n0m]]] by blast
          have g5: "grown n0 (comp p) (comp p5)" by (rule grown_trans [OF g4 grown_lower [OF p5(3) n0w]])
          have mbc5: "tree_ok n0 (comp p5) (Some mbc) (Node Leaf mbc Leaf)" by (rule old_grown [OF same [OF mbc3] _ p5(3)]) (use ne in simp)
          obtain p6 where p6: "free_node mbc p5 = Some p6" "parser_inv p6" "grown mbc (comp p5) (comp p6)" using free_node_ok [OF p5(2) n0mbc mbc5] by blast
          have "complex_tree ct b p = failed REG_ESPACE p6" unfolding step using 1(1) p5(1) p6(1) by simp
          then show ?case using makes_failed [OF p6(2) grown_trans [OF g5 grown_lower [OF p6(3) n0mbc]]] by simp
        next
          case (2 d p4)
          obtain t where t: "tree_ok n0 (comp p4) (Some d) t" using 2(5) by blast
          have "complex_tree ct b p = Some (Some d, p4)" unfolding step using 2(1) by simp
          then show ?case using makes_tree [OF 2(2) grown_trans [OF g3 2(3)] _ _ t] 2(4) err3 by simp
        qed
      qed
    qed
  qed
qed

section \<open>Brackets and classes\<close>

lemma parser_alloc_cases:
  assumes p: "parser_inv p"
  obtains ok p1 where "parser_alloc p = (ok, p1)" "parser_inv p1" "grown (length (tree_nodes (comp p))) (comp p) (comp p1)"
    "tree_nodes (comp p1) = tree_nodes (comp p)" "rest_same p p1"
proof -
  obtain ok os where a: "alloc (pending (comp p)) = (ok, os)" by fastforce
  let ?c = "(comp p)\<lparr>pending := os\<rparr>"
  have "heap_ok ?c" using p by (simp add: parser_inv_def heap_ok_def charsets_ok_def)
  moreover have "set (pending ?c) \<subseteq> set (pending (comp p))" using alloc_subset [of "pending (comp p)"] a by simp
  ultimately have "parser_inv (p\<lparr>comp := ?c\<rparr>)" using inv_comp [OF p, of ?c] by simp
  then show thesis by (intro that [of ok "p\<lparr>comp := ?c\<rparr>"]) (simp_all add: parser_alloc_def a grown_def)
qed

lemma bracket_tree_ok:
  assumes p: "parser_inv p" "perr p = REG_NOERROR" and n0: "n0 \<le> length (tree_nodes (comp p))" and b: "sets_ok b"
  shows "makes n0 (left_over (input p)) p (bracket_tree ct b p)"
proof -
  have nf: "\<not> ranges_freed (mbcset b)" and len: "length (sbcset b) = BITSET_WORDS" using b by (simp_all add: sets_ok_def)
  have chars: "length (sb_char p) = BITSET_WORDS" using p(1) by (simp add: parser_inv_def)
  obtain s1 where s1: "(if non_match (mbcset b) then bitset_not (sbcset b) else Some (sbcset b)) = Some s1" "length s1 = BITSET_WORDS"
    using bitset_not_ok [OF len] len by (cases "non_match (mbcset b)") auto
  obtain s2 where s2: "(if 1 < mbmax p then bitset_mask s1 (sb_char p) else Some s1) = Some s2" "length s2 = BITSET_WORDS"
    using bitset_mask_ok [OF s1(2) chars] s1(2) by (cases "1 < mbmax p") auto
  have f: "free_charset (mbcset b) = Some ()" using nf by (simp add: free_charset_def)
  define mbs where "mbs \<longleftrightarrow> nmbchars (mbcset b) \<noteq> 0 \<or> nranges (mbcset b) \<noteq> 0 \<or> (1 < mbmax p \<and> (nchar_classes (mbcset b) \<noteq> 0 \<or> non_match (mbcset b)))"
  have step: "bracket_tree ct b p = (if mbs then complex_tree ct (b\<lparr>sbcset := s2\<rparr>) p else simple_tree (uninit ct) s2 p)"
    unfolding bracket_tree_def Let_def s1(1) bind.bind_lunit s2(1) mbs_def f ..
  have "makes n0 (left_over (input p)) p (complex_tree ct (b\<lparr>sbcset := s2\<rparr>) p)"
    by (rule complex_tree_ok [OF p n0]) (simp_all add: nf s2(2))
  then show ?thesis unfolding step using simple_makes [OF p n0 s2(2)] by simp
qed

lemma inv_after_scan:
  assumes p: "parser_inv p" and s: "moves (input p) s" and b: "set (set_answers b) \<subseteq> set (pending (comp p))"
  shows "parser_inv (after_scan t s b p)"
  using p moves_ok [OF s] moves_fields [OF s] calm_subset [OF _ b]
  by (simp add: parser_inv_def after_scan_def heap_ok_def charsets_ok_def)

lemma parse_bracket_ok:
  assumes p: "parser_inv p" "perr p = REG_NOERROR" and n0: "n0 \<le> length (tree_nodes (comp p))"
  shows "makes n0 (left_over (input p)) p (parse_bracket_exp ct syntax p)"
proof -
  obtain ok1 p1 where p1: "parser_alloc p = (ok1, p1)" "parser_inv p1" "grown (length (tree_nodes (comp p))) (comp p) (comp p1)"
    "tree_nodes (comp p1) = tree_nodes (comp p)" "rest_same p p1" by (rule parser_alloc_cases [OF p(1)])
  obtain ok2 p2 where p2: "parser_alloc p1 = (ok2, p2)" "parser_inv p2" "grown (length (tree_nodes (comp p1))) (comp p1) (comp p2)"
    "tree_nodes (comp p2) = tree_nodes (comp p1)" "rest_same p1 p2" by (rule parser_alloc_cases [OF p1(2)])
  have g2: "grown n0 (comp p) (comp p2)" using grown_lower [OF grown_trans [OF p1(3) p2(3) [unfolded p1(4)]] n0] .
  have n2: "n0 \<le> length (tree_nodes (comp p2))" by (rule grown_length [OF g2 n0])
  have in2: "input p2 = input p" "perr p2 = REG_NOERROR" using p1(5) p2(5) p(2) by simp_all
  show ?thesis
  proof (cases "\<not> ok1 \<or> \<not> ok2")
    case True
    then have "parse_bracket_exp ct syntax p = failed REG_ESPACE p2" unfolding parse_bracket_exp_def p1(1) Let_def prod.case p2(1) by simp
    then show ?thesis using makes_failed [OF p2(2) g2] by simp
  next
    case False
    have ok: "pattern_ok (input p2)" and calm: "calm (1 < mbmax p2) (set_answers (no_sets (pending (comp p2))))"
      using p2(2) by (simp_all add: parser_inv_def no_sets_def)
    from scan_bracket_ok [OF ok sets_ok_no_sets calm, of ct "str_trans (input p2)" "syntax" "cur_token p2"] obtain x where
      x: "scan_bracket ct (1 < mbmax p2) (str_trans (input p2)) syntax (cur_token p2) (input p2) (no_sets (pending (comp p2))) = Some x"
        "scanned (input p2) (no_sets (pending (comp p2))) x" by blast
    obtain e t n s b where y: "x = (e, t, n, s, b)" by (metis prod_cases5)
    note sc = x(2) [unfolded scanned_def y prod.case]
    have ans: "set (set_answers b) \<subseteq> set (pending (comp p2))" using sc by (simp add: no_sets_def)
    have f: "free_charset (mbcset b) = Some ()" using sc by (simp add: free_charset_def)
    note step = parse_bracket_exp_def [of ct "syntax" p, unfolded p1(1) Let_def prod.case p2(1) if_not_P [OF False] x(1) y bind.bind_lunit]
    show ?thesis
    proof (cases "e = REG_NOERROR")
      case False
      have g: "grown n0 (comp p) (comp (after_scan t s b p2))" using g2 by (simp add: after_scan_def grown_def)
      have "parse_bracket_exp ct syntax p = failed e (after_scan t s b p2)" unfolding step using False f by simp
      then show ?thesis using makes_failed [OF inv_after_scan [OF p2(2) _ ans] g False] sc by simp
    next
      case True
      then have bt: "bracket_token t n s" "sets_ok b" using sc by simp_all
      have m: "moves (input p2) (skip_bytes n s)" using moves_trans [OF _ moves_skip] sc bt(1) by blast
      let ?p = "after_scan t (skip_bytes n s) b p2"
      have g: "grown n0 (comp p) (comp ?p)" using g2 by (simp add: after_scan_def grown_def)
      have nn: "n0 \<le> length (tree_nodes (comp ?p))" by (rule grown_length [OF g n0])
      have "parse_bracket_exp ct syntax p = bracket_tree ct b ?p" unfolding step using True by simp
      moreover have "makes n0 (left_over (input ?p)) ?p (bracket_tree ct b ?p)"
        by (rule bracket_tree_ok [OF inv_after_scan [OF p2(2) m ans] _ nn bt(2)]) (simp add: after_scan_def in2)
      moreover have "left_over (input ?p) \<le> left_over (input p)" using moves_fields [OF m] in2 by (auto simp: after_scan_def)
      ultimately show ?thesis using makes_from [OF _ g] by simp
    qed
  qed
qed

lemma set_bytes_ok: "length s = BITSET_WORDS \<Longrightarrow> \<exists>s'. set_bytes cs s = Some s' \<and> length s' = BITSET_WORDS"
proof (induction cs arbitrary: s)
  case (Cons c cs)
  obtain s1 where "bitset_set s (unat c) = Some s1" "length s1 = BITSET_WORDS" using bitset_set_ok [OF Cons.prems unat_byte [of c]] by blast
  then show ?case using Cons.IH [of s1] by simp
qed simp

lemma charclass_sets_ok: "\<exists>e b. charclass_sets ct tr nm extra non os = Some (e, b) \<and> built (no_sets os) (e, b)"
proof -
  let ?b = "(no_sets os)\<lparr>mbcset := empty_charset\<lparr>non_match := non\<rparr>\<rparr>"
  have "sets_ok ?b" using sets_ok_no_sets [of os] by (simp add: sets_ok_def no_sets_def empty_charset_def)
  from build_charclass_ok [OF this, of ct tr nm 0] obtain e b where b: "build_charclass ct tr nm 0 ?b = Some (e, b)" "built ?b (e, b)" by auto
  show ?thesis
  proof (cases "e = REG_NOERROR")
    case False
    then show ?thesis using b by (simp add: charclass_sets_def)
  next
    case True
    then have ok: "sets_ok b" using b(2) by simp
    then have len: "length (sbcset b) = BITSET_WORDS" by (simp add: sets_ok_def)
    obtain s1 where s1: "set_bytes extra (sbcset b) = Some s1" "length s1 = BITSET_WORDS" using set_bytes_ok [OF len] by blast
    obtain s2 where s2: "(if non then bitset_not s1 else Some s1) = Some s2" "length s2 = BITSET_WORDS"
      using bitset_not_ok [OF s1(2)] s1(2) by (cases non) auto
    have "sets_ok (b\<lparr>sbcset := s2\<rparr>)" using ok s2(2) by (simp add: sets_ok_def)
    moreover have "charclass_sets ct tr nm extra non os = Some (REG_NOERROR, b\<lparr>sbcset := s2\<rparr>)"
      unfolding charclass_sets_def Let_def b(1) using True s1(1) s2(1) by simp
    ultimately show ?thesis using b(2) by simp
  qed
qed

lemma charclass_tree_ok:
  assumes p: "parser_inv p" "perr p = REG_NOERROR" and n0: "n0 \<le> length (tree_nodes (comp p))"
    and sb: "length sb = BITSET_WORDS" and m: "\<not> ranges_freed m"
  shows "makes n0 (left_over (input p)) p (charclass_tree mb sb m p)"
proof -
  have f: "free_charset m = Some ()" using m by (simp add: free_charset_def)
  let ?n = "length (tree_nodes (comp p))"
  show ?thesis
  proof (rule simple_tree_ok [OF p n0 sb, of "blank_token SIMPLE_BRACKET"], goal_cases)
    case (1 p')
    then have "charclass_tree mb sb m p = Some (None, p')" by (simp add: charclass_tree_def f)
    then show ?case using makes_error [OF 1(2,3,4)] by simp
  next
    case (2 a p1)
    have g1: "grown n0 (comp p) (comp p1)" by (rule grown_lower [OF 2(3) n0])
    have n1: "n0 \<le> length (tree_nodes (comp p1))" by (rule grown_length [OF g1 n0])
    have n0a: "n0 \<le> a" using n0 2(5) by simp
    have err1: "perr p1 = REG_NOERROR" "input p1 = input p" using 2(4) p(2) by simp_all
    show ?case
    proof (cases mb)
      case False
      then have "charclass_tree mb sb m p = Some (Some a, p1)" using 2(1) by (simp add: charclass_tree_def f)
      then show ?thesis using makes_tree [OF 2(2) g1 err1(1) _ tree_ok_lower [OF 2(6) n0]] err1(2) by simp
    next
      case True
      let ?o = "Mbcset (length (charsets (comp p1)))" and ?k = "length (tree_nodes (comp p1))"
      obtain p2 where p2: "add_charset m p1 = (?o, p2)" "parser_inv p2" "grown ?k (comp p1) (comp p2)"
        "tree_nodes (comp p2) = tree_nodes (comp p1)" "length (charsets (comp p2)) = length (charsets (comp p1)) + 1" "rest_same p1 p2"
        by (rule add_charset_ok [OF 2(2) m])
      have g2: "grown n0 (comp p) (comp p2)" by (rule grown_trans [OF g1 grown_lower [OF p2(3) n1]])
      have a2: "tree_ok ?n (comp p2) (Some a) (Node Leaf a Leaf)" by (rule leaf_old [OF 2(6) order_refl p2(3)])
      have ty: "typed (length (charsets (comp p2))) (re_nsub (comp p2)) ((blank_token COMPLEX_BRACKET)\<lparr>opr := ?o\<rparr>)"
        by (simp add: typed_def blank_token_def p2(5))
      obtain x p3 where x: "token_tree None None ((blank_token COMPLEX_BRACKET)\<lparr>opr := ?o\<rparr>) p2 = Some (x, p3)" "parser_inv p3"
        "kept ?k (comp p2) (comp p3)" "rest_same p2 p3"
        "case x of None \<Rightarrow> tree_nodes (comp p3) = tree_nodes (comp p1) | Some d \<Rightarrow> d = ?k \<and> tree_ok ?k (comp p3) (Some d) (Node Leaf d Leaf)"
        by (rule leaf_cases [OF p2(2) ty, unfolded p2(4)]) (simp, rule that)
      have g3: "grown n0 (comp p) (comp p3)" by (rule grown_trans [OF g2 grown_lower [OF kept_grown [OF x(3)] n1]])
      have n3: "n0 \<le> length (tree_nodes (comp p3))" by (rule grown_length [OF g3 n0])
      have a3: "tree_ok n0 (comp p3) (Some a) (Node Leaf a Leaf)" using leaf_old [OF a2 n0] kept_grown [OF x(3)] p2(4) by simp
      note step = charclass_tree_def [of mb sb m p, unfolded 2(1) bind.bind_lunit prod.case option.case f p2(1) Let_def x(1)]
      show ?thesis
      proof (cases x)
        case None
        obtain p4 where p4: "free_node a p3 = Some p4" "parser_inv p4" "grown a (comp p3) (comp p4)" using free_node_ok [OF x(2) n0a a3] by blast
        have "charclass_tree mb sb m p = failed REG_ESPACE p4" unfolding step None using True p4(1) by simp
        then show ?thesis using makes_failed [OF p4(2) grown_trans [OF g3 grown_lower [OF p4(3) n0a]]] by simp
      next
        case (Some d)
        have d: "d = ?k" "tree_ok ?k (comp p3) (Some d) (Node Leaf d Leaf)" using x(5) unfolding Some option.case by blast+
        have "a < ?k" using sub_ok_lt [OF 2(6), of a] by simp
        then have ne: "a \<noteq> d" using d(1) by simp
        have err3: "perr p3 = REG_NOERROR" "input p3 = input p" using x(4) p2(6) err1 by simp_all
        have eq: "charclass_tree mb sb m p = type_tree (Some a) (Some d) OP_ALT p3" unfolding step Some using True by simp
        show ?thesis unfolding eq
        proof (rule leaf_alt [OF x(2) err3(1) n3 a3 tree_ok_lower [OF d(2) n1] ne], goal_cases)
          case (1 p4)
          have "tree_ok n0 (comp p4) None Leaf" by simp
          from makes_tree [OF 1(2) grown_trans [OF g3 kept_grown [OF 1(3)]] _ _ this] show ?case unfolding 1(1) using 1(4) err3 by simp
        next
          case (2 e p4)
          obtain t where t: "tree_ok n0 (comp p4) (Some e) t" using 2(5) by blast
          from makes_tree [OF 2(2) grown_trans [OF g3 2(3)] _ _ t] show ?case unfolding 2(1) using 2(4) err3 by simp
        qed
      qed
    qed
  qed
qed

lemma build_charclass_op_ok:
  assumes p: "parser_inv p" "perr p = REG_NOERROR" and n0: "n0 \<le> length (tree_nodes (comp p))"
  shows "makes n0 (left_over (input p)) p (build_charclass_op ct tr nm extra non p)"
proof -
  obtain ok1 p1 where p1: "parser_alloc p = (ok1, p1)" "parser_inv p1" "grown (length (tree_nodes (comp p))) (comp p) (comp p1)"
    "tree_nodes (comp p1) = tree_nodes (comp p)" "rest_same p p1" by (rule parser_alloc_cases [OF p(1)])
  obtain ok2 p2 where p2: "parser_alloc p1 = (ok2, p2)" "parser_inv p2" "grown (length (tree_nodes (comp p1))) (comp p1) (comp p2)"
    "tree_nodes (comp p2) = tree_nodes (comp p1)" "rest_same p1 p2" by (rule parser_alloc_cases [OF p1(2)])
  have g1: "grown n0 (comp p) (comp p1)" by (rule grown_lower [OF p1(3) n0])
  have g2: "grown n0 (comp p) (comp p2)" using grown_lower [OF grown_trans [OF p1(3) p2(3) [unfolded p1(4)]] n0] .
  note step = build_charclass_op_def [of ct tr nm extra non p, unfolded p1(1) Let_def prod.case p2(1)]
  consider "\<not> ok1" | "ok1" "\<not> ok2" | "ok1" "ok2" by blast
  then show ?thesis
  proof cases
    case 1
    show ?thesis unfolding step if_P [OF 1] by (rule makes_failed [OF p1(2) g1]) simp
  next
    case 2
    have n: "\<not> \<not> ok1" using 2 by simp
    show ?thesis unfolding step if_not_P [OF n] if_P [OF 2(2)] by (rule makes_failed [OF p2(2) g2]) simp
  next
    case 3
    have n: "\<not> \<not> ok1" "\<not> \<not> ok2" using 3 by simp_all
    obtain e b where b: "charclass_sets ct tr nm extra non (pending (comp p2)) = Some (e, b)" "built (no_sets (pending (comp p2))) (e, b)"
      using charclass_sets_ok by blast
    let ?p = "p2\<lparr>comp := (comp p2)\<lparr>pending := set_answers b\<rparr>\<rparr>"
    have heap: "heap_ok ((comp p2)\<lparr>pending := set_answers b\<rparr>)" using p2(2) by (simp add: parser_inv_def heap_ok_def charsets_ok_def)
    have i: "parser_inv ?p" by (rule inv_comp [OF p2(2) heap]) (use b(2) in \<open>simp_all add: no_sets_def\<close>)
    have g: "grown n0 (comp p) (comp ?p)" using g2 by (simp add: grown_def)
    have f: "free_charset (mbcset b) = Some ()" using b(2) by (simp add: free_charset_def)
    note step' = step [unfolded if_not_P [OF n(1)] if_not_P [OF n(2)] b(1) bind.bind_lunit prod.case]
    show ?thesis
    proof (cases "e = REG_NOERROR")
      case False
      have "build_charclass_op ct tr nm extra non p = failed e ?p" unfolding step' using False f by simp
      then show ?thesis using makes_failed [OF i g False] by simp
    next
      case True
      then have ok: "sets_ok b" using b(2) by simp
      then have len: "length (sbcset b) = BITSET_WORDS" and nf: "\<not> ranges_freed (mbcset b)" by (simp_all add: sets_ok_def)
      have chars: "length (sb_char ?p) = BITSET_WORDS" using i by (simp add: parser_inv_def)
      obtain s2 where s2: "(if 1 < mbmax ?p then bitset_mask (sbcset b) (sb_char ?p) else Some (sbcset b)) = Some s2" "length s2 = BITSET_WORDS"
        using bitset_mask_ok [OF len chars] len by (cases "1 < mbmax ?p") auto
      have ne: "\<not> e \<noteq> REG_NOERROR" using True by simp
      have eq: "build_charclass_op ct tr nm extra non p = charclass_tree (1 < mbmax ?p) s2 (mbcset b) ?p"
        unfolding step' if_not_P [OF ne] s2(1) bind.bind_lunit ..
      have perr: "perr ?p = REG_NOERROR" using p1(5) p2(5) p(2) by simp
      have "makes n0 (left_over (input ?p)) ?p (charclass_tree (1 < mbmax ?p) s2 (mbcset b) ?p)"
        by (rule charclass_tree_ok [OF i perr grown_length [OF g n0] s2(2) nf])
      then show ?thesis unfolding eq by (rule makes_from [OF _ g]) (use p1(5) p2(5) in simp)
    qed
  qed
qed

text \<open>The single expressions that a token starts.\<close>

lemma parse_atom_ok:
  assumes p: "parser_inv p" "perr p = REG_NOERROR" and n0: "n0 \<le> length (tree_nodes (comp p))" and tok: "token_ok (cur_token p)" "token_type p \<noteq> ANCHOR"
  shows "makes n0 (left_over (input p)) p (parse_atom ct syntax p)"
proof (cases "token_type p = OP_BACK_REF")
  case True
  then obtain i where "opr (cur_token p) = Idx_opr i" "0 \<le> i" "i \<le> 8" using tok(1) by (auto simp: token_ok_def split: token_opr.splits)
  then show ?thesis using parse_back_ref_ok [OF p n0 True] True by (simp add: parse_atom_def)
next
  case False
  then obtain c where c: "opr (cur_token p) = Char_opr c" using tok by (auto simp: token_ok_def split: token_opr.splits)
  note rules = parse_character_ok [OF p n0 _ c] parse_bracket_ok [OF p n0] parse_period_ok [OF p n0 _ c] build_charclass_op_ok [OF p n0]
    parse_as_character_ok [OF p n0 c] makes_failed [OF p(1) grown_refl]
  show ?thesis using False by (simp add: parse_atom_def rules Let_def)
qed

end
