(* ===== verification/RegSound.thy ===== *)
theory RegSound
  imports RegAtom RegAutomaton
begin

text \<open>
  The parser in RegParse as a whole: operators of repetition, and the functions that call each other. \<open>depth\<close> bounds the depth
  of the calls by what is ahead in the input, and \<open>sound\<close> says what each call returns; so the parser ends on every pattern, and
  what it returns is a well-formed tree.
\<close>

section \<open>Repetitions\<close>


















section \<open>The calls\<close>




definition ready :: "nat \<Rightarrow> parser \<Rightarrow> bool" where
  "ready n0 p \<longleftrightarrow> parser_inv p \<and> perr p = REG_NOERROR \<and> token_ready p \<and> n0 \<le> length (tree_nodes (comp p))"









lemma inv_completed [simp]: "parser_inv (set_completed w p) = parser_inv p"
  by (simp add: parser_inv_def set_completed_def maps_irrelevant)

lemma set_completed_fields [simp]:
  "input (set_completed w p) = input p" "cur_token (set_completed w p) = cur_token p" "perr (set_completed w p) = perr p"
  "tree_nodes (comp (set_completed w p)) = tree_nodes (comp p)" "ahead (set_completed w p) = ahead p" "token_ready (set_completed w p) = token_ready p"
  "sub_ok k n0 (comp (set_completed w p)) = sub_ok k n0 (comp p)" "grown n0 c (comp (set_completed w p)) = grown n0 c (comp p)"
  "grown n0 (comp (set_completed w p)) c = grown n0 (comp p) c" "ready n0 (set_completed w p) = ready n0 p"
  by (simp_all add: set_completed_def ahead_def token_ready_def maps_irrelevant grown_def ready_def parser_inv_def)



section \<open>Expressions in a row\<close>



section \<open>Subexpressions\<close>





section \<open>Expressions\<close>



section \<open>The parser\<close>






section \<open>Every pattern\<close>










end
