(* ===== verification/Wordexp.thy ===== *)
theory Wordexp
  imports Prelude
begin

text \<open>
  Word expansion: src/src/wordexp/wordexp.c, as it is built for Darwin (\<open>__APPLE__\<close>).

  \<^item> \<open>we_check\<close> reads the string it is given character by character: the string is the list of its bytes from the
    pointer on, its terminator included; stepping past the end of the list is undefined behaviour and gives \<open>None\<close>.
  \<^item> The shell and the helper it runs are arguments: what the pipes deliver, read by read, and whether the child exited well.
    \<open>err_buf\<close>, which is read even when nothing was written to it, has an argument for what happens to be on the stack.
  \<^item> A pointer into the block of the strings is an offset into it, so moving the block leaves the pointers as they are. The
    array of a \<open>we_int_t\<close> has as many slots as its block has room for.
\<close>

unbundle bit_operations_syntax

section \<open>Flags and results\<close>

abbreviation WRDE_APPEND :: "32 word" where "WRDE_APPEND \<equiv> 0x01"
abbreviation WRDE_DOOFFS :: "32 word" where "WRDE_DOOFFS \<equiv> 0x02"
abbreviation WRDE_NOCMD :: "32 word" where "WRDE_NOCMD \<equiv> 0x04"
abbreviation WRDE_REUSE :: "32 word" where "WRDE_REUSE \<equiv> 0x08"
abbreviation WRDE_SHOWERR :: "32 word" where "WRDE_SHOWERR \<equiv> 0x10"
abbreviation WRDE_UNDEF :: "32 word" where "WRDE_UNDEF \<equiv> 0x20"

abbreviation has_flag :: "32 word \<Rightarrow> 32 word \<Rightarrow> bool" where
  "has_flag flags f \<equiv> flags AND f \<noteq> 0"

datatype we_error = WRDE_OK | WRDE_BADCHAR | WRDE_BADVAL | WRDE_CMDSUB | WRDE_NOSPACE | WRDE_NOSYS | WRDE_SYNTAX

section \<open>Checking the words\<close>

text \<open>The characters that end a word, outside quotes.\<close>

definition special_char :: "char \<Rightarrow> bool" where
  "special_char c \<longleftrightarrow> c \<in> set ''|&;<>{}()'' \<or> c = CHR 0x0A"

text \<open>After a backquote: up to the next one that is not escaped, or the terminator.\<close>

fun skip_backquoted :: "char list \<Rightarrow> (char \<times> char list) option" where
  "skip_backquoted [] = None"
| "skip_backquoted (c # ws) =
     (if c = NUL \<or> c = CHR ''`'' then Some (c, ws)
      else if c = CHR 0x5C then
        (case ws of [] \<Rightarrow> None | c # ws \<Rightarrow> if c = NUL then Some (c, ws) else skip_backquoted ws)
      else skip_backquoted ws)"

text \<open>After an opening bracket: up to the closing one of the outermost level. The level is a machine integer that stays
  below the length of the string.\<close>

fun skip_nested :: "char \<Rightarrow> char \<Rightarrow> nat \<Rightarrow> char list \<Rightarrow> (char \<times> nat \<times> char list) option" where
  "skip_nested opn cls level [] = None"
| "skip_nested opn cls level (c # ws) =
     (if c = NUL then Some (c, level, ws)
      else if c = CHR 0x5C then
        (case ws of [] \<Rightarrow> None | c # ws \<Rightarrow> if c = NUL then Some (c, level, ws) else skip_nested opn cls level ws)
      else if c = opn then skip_nested opn cls (level + 1) ws
      else if c = cls then (if level - 1 = 0 then Some (c, level - 1, ws) else skip_nested opn cls (level - 1) ws)
      else skip_nested opn cls level ws)"

lemma skip_backquoted_shorter: "skip_backquoted ws = Some (c, r) \<Longrightarrow> length r < length ws"
  by (induction ws rule: skip_backquoted.induct) (fastforce split: if_splits list.splits)+

lemma skip_nested_shorter: "skip_nested opn cls level ws = Some (c, l, r) \<Longrightarrow> length r < length ws"
  by (induction opn cls level ws rule: skip_nested.induct) (fastforce split: if_splits list.splits)+

function we_loop :: "32 word \<Rightarrow> bool \<Rightarrow> bool \<Rightarrow> bool \<Rightarrow> char list \<Rightarrow> we_error option" where
  "we_loop flags quote squote dquote [] = None"
| "we_loop flags quote squote dquote (c # ws) =
     (if c = NUL then Some (if quote \<or> squote \<or> dquote then WRDE_SYNTAX else WRDE_OK)
      else if c = CHR 0x5C then we_loop flags (if \<not> squote then \<not> quote else quote) squote dquote ws
      else if c = CHR 0x27 then we_loop flags False (if \<not> quote \<and> \<not> dquote then \<not> squote else squote) dquote ws
      else if c = CHR 0x22 then we_loop flags False squote (if \<not> quote \<and> \<not> squote then \<not> dquote else dquote) ws
      else if c = CHR ''`'' then
        (if quote \<or> squote then we_loop flags False squote dquote ws
         else if has_flag flags WRDE_NOCMD then Some WRDE_CMDSUB
         else (case skip_backquoted ws of
             None \<Rightarrow> None
           | Some (c, ws) \<Rightarrow> if c = NUL then Some WRDE_SYNTAX else we_loop flags False squote dquote ws))
      else if special_char c then
        (if \<not> quote \<and> \<not> squote \<and> \<not> dquote then Some WRDE_BADCHAR else we_loop flags False squote dquote ws)
      else if c = CHR ''$'' then
        (case ws of
           [] \<Rightarrow> None
         | c # ws \<Rightarrow>
             if c = NUL then we_loop flags False squote dquote ws
             else if \<not> quote \<and> \<not> squote \<and> c = CHR ''('' then
               (if has_flag flags WRDE_NOCMD \<and> (case ws of [] \<Rightarrow> False | d # _ \<Rightarrow> d \<noteq> CHR ''('') then Some WRDE_CMDSUB
                else (case skip_nested (CHR ''('') (CHR '')'') 1 ws of
                    None \<Rightarrow> None
                  | Some (c, level, ws) \<Rightarrow>
                      if c = NUL \<or> level \<noteq> 0 then Some WRDE_SYNTAX else we_loop flags False squote dquote ws))
             else if \<not> quote \<and> \<not> squote \<and> c = CHR ''{'' then
               (case skip_nested (CHR ''{'') (CHR ''}'') 1 ws of
                  None \<Rightarrow> None
                | Some (c, level, ws) \<Rightarrow>
                    if c = NUL \<or> level \<noteq> 0 then Some WRDE_SYNTAX else we_loop flags False squote dquote ws)
             else we_loop flags False squote dquote (c # ws))
      else we_loop flags False squote dquote ws)"
  by pat_completeness auto
termination
  by (relation "measure (\<lambda>(flags, quote, squote, dquote, ws). length ws)")
    (auto dest!: skip_backquoted_shorter skip_nested_shorter)

definition we_check :: "char list \<Rightarrow> 32 word \<Rightarrow> we_error option" where
  "we_check words flags = we_loop flags False False False words"


section \<open>The result\<close>

record we_int =
  wi_strings :: "char list option"
  wi_nbytes :: nat
  wi_wordv :: "nat option list"

record wordexp_t =
  we_wordc :: nat
  we_offs :: nat
  we_wordv :: "we_int option"

definition wordfree :: "wordexp_t \<Rightarrow> wordexp_t" where
  "wordfree we = we\<lparr>we_wordv := None, we_wordc := 0\<rparr>"

section \<open>Reading from the child\<close>

datatype read_event = Chunk "char list" | Interrupted | Read_error

fun we_read_fully :: "read_event list \<Rightarrow> nat \<Rightarrow> char list \<times> read_event list" where
  "we_read_fully [] len = ([], [])"
| "we_read_fully (Interrupted # es) len = (if len = 0 then ([], es) else we_read_fully es len)"
| "we_read_fully (Read_error # es) len = ([], es)"
| "we_read_fully (Chunk bs # es) len =
     (if bs = [] then ([], es)
      else if len \<le> length bs then (take len bs, if len = length bs then es else Chunk (drop len bs) # es)
      else (let (r, es) = we_read_fully es (len - length bs) in (bs @ r, es)))"

record child =
  pipes_open :: bool
  spawned :: bool
  child_output :: "read_event list"
  err_read :: "char list option"
  err_stack :: "char list"
  exited_well :: bool

text \<open>\<open>strtol\<close> with base 16 on at most eight characters.\<close>

definition hex_value :: "char \<Rightarrow> int option" where
  "hex_value c =
     (let n = int (uchar c)
      in if isdigit c then Some (n - 48) else if 65 \<le> n \<and> n \<le> 70 then Some (n - 55) else if 97 \<le> n \<and> n \<le> 102 then Some (n - 87)
         else None)"

fun hex_digits :: "int \<Rightarrow> char list \<Rightarrow> int" where
  "hex_digits n [] = n"
| "hex_digits n (c # cs) = (case hex_value c of None \<Rightarrow> n | Some d \<Rightarrow> hex_digits (16 * n + d) cs)"

definition strtol_16 :: "char list \<Rightarrow> int" where
  "strtol_16 s =
     (let s = dropWhile isspace s;
          (sign, s) = (case s of [] \<Rightarrow> (1, s) | c # cs \<Rightarrow> if c = CHR ''-'' then (-1, cs) else if c = CHR ''+'' then (1, cs) else (1, s));
          s = (case s of
              z # x # d # cs \<Rightarrow> if z = CHR ''0'' \<and> x \<in> set ''xX'' \<and> hex_value d \<noteq> None then d # cs else s
            | _ \<Rightarrow> s)
      in sign * hex_digits 0 s)"

section \<open>Asking the shell\<close>

definition to_size :: "int \<Rightarrow> nat" where
  "to_size n = nat (n mod 2 ^ 64)"

text \<open>The slots of the array behind the header of \<open>we_int_t\<close>, which takes 16 bytes.\<close>

definition slot_count :: "nat \<Rightarrow> nat" where
  "slot_count bytes = (bytes - 16) div 8"

abbreviation wild_slot :: "nat option" where "wild_slot \<equiv> Some 0xA5"

definition resize_slots :: "nat option list \<Rightarrow> nat \<Rightarrow> nat option list" where
  "resize_slots v n = take n v @ replicate (n - length v) wild_slot"

text \<open>\<open>memchr\<close> for the terminator: \<open>None\<close> when it reads past the block.\<close>

definition find_NUL :: "char list \<Rightarrow> nat \<Rightarrow> nat \<Rightarrow> nat option option" where
  "find_NUL b p n =
     (let k = length (takeWhile (\<lambda>c. c \<noteq> NUL) (take n (drop p b)))
      in if k < n \<and> p + k < length b then Some (Some (p + k)) else if p + n \<le> length b then Some None else None)"

function split_words :: "int \<Rightarrow> int \<Rightarrow> nat \<Rightarrow> nat \<Rightarrow> char list \<Rightarrow> nat option list \<Rightarrow> (we_error \<times> nat \<times> nat option list) option" where
  "split_words nwords nbytes p vofs strings v =
     (if nwords = 0 then Some (WRDE_OK, vofs, v)
      else if length v \<le> vofs then None
      else
        (case find_NUL strings p (to_size nbytes) of
           None \<Rightarrow> None
         | Some None \<Rightarrow> Some (WRDE_NOSPACE, vofs + 1, v[vofs := Some p])
         | Some (Some np) \<Rightarrow>
             split_words (nwords - 1) (nbytes - (int np - int p + 1)) (np + 1) (vofs + 1) strings (v[vofs := Some p])))"
  by pat_completeness auto
termination
  by (relation "measure (\<lambda>(nwords, nbytes, p, vofs, strings, v). length v - vofs)") auto

declare split_words.simps [simp del]

definition bad_output :: "32 word \<Rightarrow> we_error" where
  "bad_output flags = (if has_flag flags WRDE_UNDEF then WRDE_BADVAL else WRDE_SYNTAX)"

text \<open>The messages of the child that make an expansion fail although it exited well.\<close>

definition err_verdict :: "char list \<Rightarrow> we_error option" where
  "err_verdict err_buf =
     do { s \<leftarrow> cstr_at err_buf 0;
          Some (case c_strstr s ''command substitution'' of
              None \<Rightarrow> WRDE_OK
            | Some i \<Rightarrow>
                if c_strstr (drop (i + length ''command substitution'') s) ''syntax error'' = None then WRDE_OK
                else if c_strstr s '' unbound variable'' \<noteq> None then WRDE_BADVAL else WRDE_SYNTAX) }"


definition err_buf :: "child \<Rightarrow> char list \<Rightarrow> char list" where
  "err_buf ch err = (if err = [] then err_stack ch else err @ NUL # drop (length err + 1) (err_stack ch))"

text \<open>The words are found in the strings, and the vector ends with a null pointer.\<close>

definition place_words :: "int \<Rightarrow> int \<Rightarrow> nat \<Rightarrow> nat \<Rightarrow> nat option \<Rightarrow> char list \<Rightarrow> nat option list \<Rightarrow> (we_error \<times> nat option list) option" where
  "place_words nwords nbytes sofs vofs doofs strings v =
     do { (vofs, v) \<leftarrow> (case doofs of
              Some offs \<Rightarrow> if vofs = 0 then do { v \<leftarrow> mem_write v 0 (replicate offs None); Some (offs, v) } else Some (vofs, v)
            | None \<Rightarrow> Some (vofs, v));
          (e, vofs, v) \<leftarrow> split_words nwords nbytes sofs vofs strings v;
          if e \<noteq> WRDE_OK then Some (e, v) else do { v \<leftarrow> mem_write v vofs [None]; Some (WRDE_OK, v) } }"

text \<open>The strings are read, the child and its messages looked at, and the words placed. \<open>nbytes\<close> counts the terminators too.\<close>

definition read_words :: "child \<Rightarrow> int \<Rightarrow> int \<Rightarrow> read_event list \<Rightarrow> nat \<Rightarrow> nat \<Rightarrow> nat option \<Rightarrow> 32 word \<Rightarrow> we_int \<Rightarrow> (we_error \<times> we_int) option" where
  "read_words ch nwords nbytes es sofs vofs doofs flags wi =
     (let (data, es) = we_read_fully es (to_size nbytes) in
      do { strings \<leftarrow> mem_write (mem_realloc (wi_strings wi) (wi_nbytes wi)) sofs data;
           let wi = wi\<lparr>wi_strings := Some strings\<rparr>;
           if length data \<noteq> to_size nbytes then Some (bad_output flags, wi)
           else case err_read ch of
               None \<Rightarrow> Some (WRDE_NOSPACE, wi)
             | Some err \<Rightarrow>
                 if \<not> exited_well ch then Some (bad_output flags, wi)
                 else
                   do { e \<leftarrow> err_verdict (err_buf ch err);
                        if e \<noteq> WRDE_OK then Some (e, wi)
                        else do { (e, v) \<leftarrow> place_words nwords nbytes sofs vofs doofs strings (wi_wordv wi);
                                  Some (e, wi\<lparr>wi_wordv := v\<rparr>) } } })"

text \<open>The vector and the strings are made larger first.\<close>

definition store_words :: "child \<Rightarrow> int \<Rightarrow> int \<Rightarrow> read_event list \<Rightarrow> wordexp_t \<Rightarrow> 32 word \<Rightarrow> answers \<Rightarrow> (we_error \<times> wordexp_t \<times> answers) option" where
  "store_words ch nwords nbytes es we flags os =
     (let doofs = (if has_flag flags WRDE_DOOFFS then Some (we_offs we) else None);
          vofs = we_wordc we + (if has_flag flags WRDE_DOOFFS \<and> has_flag flags WRDE_APPEND then we_offs we else 0);
          wordc = to_size (int (we_wordc we) + nwords);
          bytes = to_size ((int wordc + 1 + (case doofs of Some offs \<Rightarrow> int offs | None \<Rightarrow> 0)) * 8 + 16);
          (ok, os) = alloc os
      in if \<not> ok then Some (WRDE_NOSPACE, we\<lparr>we_wordc := wordc\<rparr>, os)
         else if bytes < 16 then None
         else
           let wi = (case we_wordv we of None \<Rightarrow> \<lparr>wi_strings = None, wi_nbytes = 0, wi_wordv = []\<rparr> | Some wi \<Rightarrow> wi);
               sofs = wi_nbytes wi;
               wi = wi\<lparr>wi_nbytes := to_size (int sofs + nbytes), wi_wordv := resize_slots (wi_wordv wi) (slot_count bytes)\<rparr>;
               (ok, os) = alloc os
           in if \<not> ok then Some (WRDE_NOSPACE, we\<lparr>we_wordc := wordc, we_wordv := Some wi\<rparr>, os)
              else if length (wi_wordv wi) < vofs then None
              else do { (e, wi) \<leftarrow> read_words ch nwords nbytes es sofs vofs doofs flags wi;
                        Some (e, we\<lparr>we_wordc := wordc, we_wordv := Some wi\<rparr>, os) })"

definition we_askshell :: "child \<Rightarrow> wordexp_t \<Rightarrow> 32 word \<Rightarrow> answers \<Rightarrow> (we_error \<times> wordexp_t \<times> answers) option" where
  "we_askshell ch we flags os =
     (if \<not> pipes_open ch \<or> \<not> spawned ch then Some (WRDE_NOSPACE, we, os)
      else
        let (wbuf, es) = we_read_fully (child_output ch) 8 in
        if length wbuf \<noteq> 8 then Some (bad_output flags, we, os)
        else
          let (bbuf, es) = we_read_fully es 8 in
          if length bbuf \<noteq> 8 then Some (bad_output flags, we, os)
          else store_words ch (strtol_16 wbuf) (strtol_16 bbuf + strtol_16 wbuf) es we flags os)"

section \<open>Expansion\<close>

text \<open>With \<open>WRDE_APPEND\<close> the expansion works on a copy of the old vector; \<open>None\<close> when there is no memory for it.\<close>

definition copy_words :: "wordexp_t \<Rightarrow> 32 word \<Rightarrow> answers \<Rightarrow> (wordexp_t option \<times> answers) option" where
  "copy_words we0 flags os =
     do { wi0 \<leftarrow> we_wordv we0;
          let vofs = we_wordc we0 + (if has_flag flags WRDE_DOOFFS then we_offs we0 else 0);
          let (ok, os) = alloc os;
          if \<not> ok then Some (None, os)
          else if length (wi_wordv wi0) < vofs + 1 then None
          else
            (let (ok, os) = alloc os
             in if \<not> ok then Some (None, os)
                else
                  do { s \<leftarrow> wi_strings wi0;
                       if length s < wi_nbytes wi0 then None
                       else Some (Some (we0\<lparr>we_wordv := Some (wi0\<lparr>wi_strings := Some (take (wi_nbytes wi0) s),
                                                                   wi_wordv := take (vofs + 1) (wi_wordv wi0)\<rparr>)\<rparr>), os) }) }"

definition wordexp :: "(char list \<Rightarrow> child) \<Rightarrow> char list \<Rightarrow> wordexp_t \<Rightarrow> 32 word \<Rightarrow> answers \<Rightarrow> (we_error \<times> wordexp_t \<times> answers) option" where
  "wordexp shell words we0 flags os =
     do { e \<leftarrow> we_check words flags;
          if e \<noteq> WRDE_OK then Some (e, we0, os)
          else
            do { (we, os) \<leftarrow> (if has_flag flags WRDE_APPEND then copy_words we0 flags os
                              else Some (Some (we0\<lparr>we_wordc := 0, we_wordv := None\<rparr>), os));
                 (case we of
                    None \<Rightarrow> Some (WRDE_NOSPACE, we0, os)
                  | Some we \<Rightarrow>
                      do { (e, we, os) \<leftarrow> we_askshell (shell words) we flags os;
                           Some (e, if e = WRDE_OK \<or> e = WRDE_NOSPACE then we else we0, os) }) } }"

end
