(* ===== verification/WordexpSpec.thy ===== *)
theory WordexpSpec
  imports Wordexp
begin

text \<open>
  What wordexp promises, for the definitions of Wordexp: the strings \<open>we_check\<close> lets through, as a grammar of its own, and the
  vector \<open>wordexp\<close> makes of the words a child delivers.
\<close>


section \<open>What is accepted\<close>

text \<open>A string whose brackets are balanced, those that are escaped not counted.\<close>

inductive balanced :: "char \<Rightarrow> char \<Rightarrow> string \<Rightarrow> bool" for opn cls where
  Nil: "balanced opn cls []"
| Char: "balanced opn cls (c # s)" if "c \<noteq> CHR 0x5C" and "c \<noteq> opn" and "c \<noteq> cls" and "balanced opn cls s"
| Escape: "balanced opn cls (CHR 0x5C # c # s)" if "balanced opn cls s"
| Nested: "balanced opn cls (opn # s @ cls # t)" if "balanced opn cls s" and "balanced opn cls t"

text \<open>A string without unescaped backquotes.\<close>

inductive unquoted :: "string \<Rightarrow> bool" where
  Nil: "unquoted []"
| Char: "unquoted (c # s)" if "c \<noteq> CHR 0x5C" and "c \<noteq> CHR ''`''" and "unquoted s"
| Escape: "unquoted (CHR 0x5C # c # s)" if "unquoted s"

text \<open>The strings that may be expanded: \<open>nocmd\<close> forbids command substitutions, \<open>dq\<close> says that the string starts inside
  double quotes.\<close>

inductive expandable :: "bool \<Rightarrow> bool \<Rightarrow> string \<Rightarrow> bool" for nocmd where
  End: "expandable nocmd False []"
| Plain: "expandable nocmd dq (c # s)"
    if "c \<notin> {CHR 0x5C, CHR 0x22, CHR ''`'', CHR ''$''}" and "dq \<or> \<not> special_char c \<and> c \<noteq> CHR 0x27" and "expandable nocmd dq s"
| Escape: "expandable nocmd dq (CHR 0x5C # c # s)" if "expandable nocmd dq s"
| Single_quotes: "expandable nocmd False (CHR 0x27 # s @ CHR 0x27 # t)" if "CHR 0x27 \<notin> set s" and "expandable nocmd False t"
| Double_quote: "expandable nocmd dq (CHR 0x22 # s)" if "expandable nocmd (\<not> dq) s"
| Backquotes: "expandable nocmd dq (CHR ''`'' # s @ CHR ''`'' # t)" if "\<not> nocmd" and "unquoted s" and "expandable nocmd dq t"
| Parens: "expandable nocmd dq (CHR ''$'' # CHR ''('' # s @ CHR '')'' # t)"
    if "nocmd \<longrightarrow> take 1 s = ''(''" and "balanced (CHR ''('') (CHR '')'') s" and "expandable nocmd dq t"
| Braces: "expandable nocmd dq (CHR ''$'' # CHR ''{'' # s @ CHR ''}'' # t)"
    if "balanced (CHR ''{'') (CHR ''}'') s" and "expandable nocmd dq t"
| Dollar: "expandable nocmd dq (CHR ''$'' # c # s)" if "c \<noteq> CHR ''(''" and "c \<noteq> CHR ''{''" and "expandable nocmd dq (c # s)"

inductive_simps expandable_Nil: "expandable nocmd dq []"
inductive_simps expandable_Cons: "expandable nocmd dq (c # s)"

section \<open>Skipping\<close>

lemma skip_backquoted_body: "unquoted s \<Longrightarrow> NUL \<notin> set s \<Longrightarrow> skip_backquoted (s @ ws) = skip_backquoted ws"
  by (induction s rule: unquoted.induct) auto

lemma skip_backquoted_found:
  "NUL \<notin> set s \<Longrightarrow> \<exists>c r. skip_backquoted (s @ [NUL]) = Some (c, r)
     \<and> (c = NUL \<or> (\<exists>t u. c \<noteq> NUL \<and> s = t @ CHR ''`'' # u \<and> unquoted t \<and> r = u @ [NUL]))"
proof (induction s rule: length_induct)
  case (1 s)
  show ?case
  proof (cases s)
    case (Cons c w)
    have c: "c \<noteq> NUL" using 1(2) Cons by auto
    consider (stop) "c = CHR ''`''" | (esc0) "c = CHR 0x5C" "w = []" | (esc) d v where "c = CHR 0x5C" "w = d # v"
      | (char) "c \<noteq> CHR ''`''" "c \<noteq> CHR 0x5C" by (cases w) auto
    then show ?thesis
    proof cases
      case stop
      then show ?thesis using Cons by (auto intro!: exI [of _ "[]"] unquoted.Nil)
    next
      case esc0
      then show ?thesis using Cons by simp
    next
      case esc
      have "length v < length s" "NUL \<notin> set v" "d \<noteq> NUL" using 1(2) Cons esc by auto
      with 1(1) obtain b r where r: "skip_backquoted (v @ [NUL]) = Some (b, r)"
        "b = NUL \<or> (\<exists>t u. b \<noteq> NUL \<and> v = t @ CHR ''`'' # u \<and> unquoted t \<and> r = u @ [NUL])" by blast
      have "skip_backquoted (s @ [NUL]) = Some (b, r)" using Cons esc c \<open>d \<noteq> NUL\<close> r(1) by simp
      moreover have "\<exists>t u. s = t @ CHR ''`'' # u \<and> unquoted t \<and> r = u @ [NUL]" if "b \<noteq> NUL"
      proof -
        from r(2) that obtain t u where "v = t @ CHR ''`'' # u" "unquoted t" "r = u @ [NUL]" by blast
        then show ?thesis using Cons esc by (intro exI [of _ "CHR 0x5C # d # t"] exI [of _ u]) (simp add: unquoted.Escape)
      qed
      ultimately show ?thesis by blast
    next
      case char
      have "length w < length s" "NUL \<notin> set w" using 1(2) Cons by auto
      with 1(1) obtain b r where r: "skip_backquoted (w @ [NUL]) = Some (b, r)"
        "b = NUL \<or> (\<exists>t u. b \<noteq> NUL \<and> w = t @ CHR ''`'' # u \<and> unquoted t \<and> r = u @ [NUL])" by blast
      have "skip_backquoted (s @ [NUL]) = Some (b, r)" using Cons char c r(1) by simp
      moreover have "\<exists>t u. s = t @ CHR ''`'' # u \<and> unquoted t \<and> r = u @ [NUL]" if "b \<noteq> NUL"
      proof -
        from r(2) that obtain t u where "w = t @ CHR ''`'' # u" "unquoted t" "r = u @ [NUL]" by blast
        then show ?thesis using Cons char by (intro exI [of _ "c # t"] exI [of _ u]) (simp add: unquoted.Char)
      qed
      ultimately show ?thesis by blast
    qed
  qed simp
qed

text \<open>What brings the level of brackets down to nothing.\<close>

fun closes_levels :: "char \<Rightarrow> char \<Rightarrow> nat \<Rightarrow> string \<Rightarrow> bool" where
  "closes_levels opn cls 0 s = balanced opn cls s"
| "closes_levels opn cls (Suc n) s = (\<exists>t u. s = t @ cls # u \<and> balanced opn cls t \<and> closes_levels opn cls n u)"

lemma closes_prefix:
  assumes "\<And>t. balanced opn cls t \<Longrightarrow> balanced opn cls (p @ t)" and "closes_levels opn cls n s"
  shows "closes_levels opn cls n (p @ s)"
proof (cases n)
  case (Suc m)
  then obtain t u where "s = t @ cls # u" "balanced opn cls t" "closes_levels opn cls m u" using assms(2) by auto
  then show ?thesis using assms(1) Suc by (simp, intro exI [of _ "p @ t"] exI [of _ u]) simp
qed (use assms in simp)

lemma closes_Char: "closes_levels opn cls n s \<Longrightarrow> c \<noteq> CHR 0x5C \<Longrightarrow> c \<noteq> opn \<Longrightarrow> c \<noteq> cls \<Longrightarrow> closes_levels opn cls n (c # s)"
  using closes_prefix [of opn cls "[c]"] by (simp add: balanced.Char)

lemma closes_Escape: "closes_levels opn cls n s \<Longrightarrow> closes_levels opn cls n (CHR 0x5C # c # s)"
  using closes_prefix [of opn cls "[CHR 0x5C, c]"] by (simp add: balanced.Escape)

lemma closes_opn: "closes_levels opn cls (Suc n) s \<Longrightarrow> closes_levels opn cls n (opn # s)"
proof (cases n)
  case 0
  then show "closes_levels opn cls (Suc n) s \<Longrightarrow> ?thesis" by (auto intro: balanced.Nested)
next
  case (Suc m)
  assume "closes_levels opn cls (Suc n) s"
  then obtain t u v where "s = t @ cls # u @ cls # v" "balanced opn cls t" "balanced opn cls u" "closes_levels opn cls m v"
    unfolding Suc by auto
  moreover have "balanced opn cls (opn # t @ cls # u)" using calculation by (simp add: balanced.Nested)
  ultimately show ?thesis unfolding Suc closes_levels.simps by (intro exI [of _ "opn # t @ cls # u"] exI [of _ v]) simp
qed

lemma skip_nested_body:
  "balanced opn cls s \<Longrightarrow> NUL \<notin> set s \<Longrightarrow> opn \<noteq> CHR 0x5C \<Longrightarrow> cls \<noteq> CHR 0x5C \<Longrightarrow> opn \<noteq> cls \<Longrightarrow>
     skip_nested opn cls (Suc n) (s @ ws) = skip_nested opn cls (Suc n) ws"
proof (induction s arbitrary: n ws rule: balanced.induct)
  case (Nested s t)
  have "skip_nested opn cls (Suc n) ((opn # s @ cls # t) @ ws) = skip_nested opn cls (Suc (Suc n)) (s @ cls # t @ ws)"
    using Nested.prems by auto
  also have "\<dots> = skip_nested opn cls (Suc (Suc n)) (cls # t @ ws)" using Nested.prems by (intro Nested.IH(1)) simp_all
  also have "\<dots> = skip_nested opn cls (Suc n) (t @ ws)" using Nested.prems by auto
  also have "\<dots> = skip_nested opn cls (Suc n) ws" using Nested.prems by (intro Nested.IH(2)) simp_all
  finally show ?case .
qed auto

lemma skip_nested_found:
  assumes "opn \<noteq> CHR 0x5C" and "cls \<noteq> CHR 0x5C" and "opn \<noteq> cls" and "cls \<noteq> NUL"
  shows "NUL \<notin> set s \<Longrightarrow> \<exists>c l r. skip_nested opn cls (Suc n) (s @ [NUL]) = Some (c, l, r)
     \<and> (c = NUL \<or> (\<exists>t u. c \<noteq> NUL \<and> l = 0 \<and> s = t @ cls # u \<and> closes_levels opn cls n t \<and> r = u @ [NUL]))"
proof (induction s arbitrary: n rule: length_induct)
  case (1 s)
  show ?case
  proof (cases s)
    case (Cons c w)
    have c: "c \<noteq> NUL" using 1(2) Cons by auto
    have w: "length w < length s" "NUL \<notin> set w" using 1(2) Cons by auto
    consider (esc0) "c = CHR 0x5C" "w = []" | (esc) d v where "c = CHR 0x5C" "w = d # v" | (opn) "c = opn"
      | (last) "c = cls" "n = 0" | (cls) m where "c = cls" "n = Suc m"
      | (char) "c \<noteq> CHR 0x5C" "c \<noteq> opn" "c \<noteq> cls" by (cases w; cases n) auto
    then show ?thesis
    proof cases
      case esc0
      then show ?thesis using Cons by simp
    next
      case esc
      have "length v < length s" "NUL \<notin> set v" "d \<noteq> NUL" using 1(2) Cons esc by auto
      with 1(1) obtain b l r where r: "skip_nested opn cls (Suc n) (v @ [NUL]) = Some (b, l, r)"
        "b = NUL \<or> (\<exists>t u. b \<noteq> NUL \<and> l = 0 \<and> v = t @ cls # u \<and> closes_levels opn cls n t \<and> r = u @ [NUL])" by blast
      have "skip_nested opn cls (Suc n) (s @ [NUL]) = Some (b, l, r)" using Cons esc c \<open>d \<noteq> NUL\<close> r(1) by simp
      moreover have "\<exists>t u. l = 0 \<and> s = t @ cls # u \<and> closes_levels opn cls n t \<and> r = u @ [NUL]" if "b \<noteq> NUL"
      proof -
        from r(2) that obtain t u where "l = 0" "v = t @ cls # u" "closes_levels opn cls n t" "r = u @ [NUL]" by blast
        then show ?thesis using Cons esc by (intro exI [of _ "CHR 0x5C # d # t"] exI [of _ u]) (simp add: closes_Escape)
      qed
      ultimately show ?thesis by blast
    next
      case opn
      from 1(1) w obtain b l r where r: "skip_nested opn cls (Suc (Suc n)) (w @ [NUL]) = Some (b, l, r)"
        "b = NUL \<or> (\<exists>t u. b \<noteq> NUL \<and> l = 0 \<and> w = t @ cls # u \<and> closes_levels opn cls (Suc n) t \<and> r = u @ [NUL])" by blast
      have "skip_nested opn cls (Suc n) (s @ [NUL]) = Some (b, l, r)" using Cons opn c assms r(1) by simp
      moreover have "\<exists>t u. l = 0 \<and> s = t @ cls # u \<and> closes_levels opn cls n t \<and> r = u @ [NUL]" if "b \<noteq> NUL"
      proof -
        from r(2) that obtain t u where "l = 0" "w = t @ cls # u" "closes_levels opn cls (Suc n) t" "r = u @ [NUL]" by blast
        then show ?thesis using Cons opn by (intro exI [of _ "opn # t"] exI [of _ u]) (simp add: closes_opn del: closes_levels.simps)
      qed
      ultimately show ?thesis by blast
    next
      case last
      then show ?thesis using Cons c assms by (auto intro!: exI [of _ "[]"] balanced.Nil)
    next
      case cls
      from 1(1) w obtain b l r where r: "skip_nested opn cls (Suc m) (w @ [NUL]) = Some (b, l, r)"
        "b = NUL \<or> (\<exists>t u. b \<noteq> NUL \<and> l = 0 \<and> w = t @ cls # u \<and> closes_levels opn cls m t \<and> r = u @ [NUL])" by blast
      have "skip_nested opn cls (Suc n) (s @ [NUL]) = Some (b, l, r)" using Cons cls c assms r(1) by simp
      moreover have "\<exists>t u. l = 0 \<and> s = t @ cls # u \<and> closes_levels opn cls n t \<and> r = u @ [NUL]" if "b \<noteq> NUL"
      proof -
        from r(2) that obtain t u where "l = 0" "w = t @ cls # u" "closes_levels opn cls m t" "r = u @ [NUL]" by blast
        moreover have "closes_levels opn cls n (cls # t)"
          unfolding cls(2) closes_levels.simps using \<open>closes_levels opn cls m t\<close> by (intro exI [of _ "[]"] exI [of _ t]) (simp add: balanced.Nil)
        ultimately show ?thesis using Cons cls(1) by (intro exI [of _ "cls # t"] exI [of _ u]) simp
      qed
      ultimately show ?thesis by blast
    next
      case char
      from 1(1) w obtain b l r where r: "skip_nested opn cls (Suc n) (w @ [NUL]) = Some (b, l, r)"
        "b = NUL \<or> (\<exists>t u. b \<noteq> NUL \<and> l = 0 \<and> w = t @ cls # u \<and> closes_levels opn cls n t \<and> r = u @ [NUL])" by blast
      have "skip_nested opn cls (Suc n) (s @ [NUL]) = Some (b, l, r)" using Cons char c r(1) by simp
      moreover have "\<exists>t u. l = 0 \<and> s = t @ cls # u \<and> closes_levels opn cls n t \<and> r = u @ [NUL]" if "b \<noteq> NUL"
      proof -
        from r(2) that obtain t u where "l = 0" "w = t @ cls # u" "closes_levels opn cls n t" "r = u @ [NUL]" by blast
        then show ?thesis using Cons char by (intro exI [of _ "c # t"] exI [of _ u]) (simp add: closes_Char)
      qed
      ultimately show ?thesis by blast
    qed
  qed simp
qed


text \<open>Both ways: what is skipped, or that there is nothing to skip.\<close>

lemma skip_backquoted_cases:
  assumes "NUL \<notin> set s"
  obtains r where "skip_backquoted (s @ [NUL]) = Some (NUL, r)" and "\<And>t u. s = t @ CHR ''`'' # u \<Longrightarrow> \<not> unquoted t"
  | t u where "skip_backquoted (s @ [NUL]) = Some (CHR ''`'', u @ [NUL])" and "s = t @ CHR ''`'' # u" and "unquoted t"
      and "\<And>t' u'. s = t' @ CHR ''`'' # u' \<Longrightarrow> unquoted t' \<Longrightarrow> u' = u"
proof -
  have body: "skip_backquoted (s @ [NUL]) = Some (CHR ''`'', u @ [NUL])" if "s = t @ CHR ''`'' # u" "unquoted t" for t u
    using skip_backquoted_body [of t "CHR ''`'' # u @ [NUL]"] that assms by simp
  obtain c r where r: "skip_backquoted (s @ [NUL]) = Some (c, r)"
    "c = NUL \<or> (\<exists>t u. c \<noteq> NUL \<and> s = t @ CHR ''`'' # u \<and> unquoted t \<and> r = u @ [NUL])" using skip_backquoted_found [OF assms] by blast
  show ?thesis
  proof (cases "c = NUL")
    case True
    then have "\<not> unquoted t" if "s = t @ CHR ''`'' # u" for t u using body [OF that] r(1) by auto
    then show ?thesis using that(1) r(1) True by blast
  next
    case False
    then obtain t u where tu: "s = t @ CHR ''`'' # u" "unquoted t" using r(2) by blast
    have "u' = u" if "s = t' @ CHR ''`'' # u'" "unquoted t'" for t' u' using body [OF that] body [OF tu] by simp
    then show ?thesis using that(2) [OF body [OF tu] tu] by blast
  qed
qed

lemma skip_nested_cases:
  assumes "NUL \<notin> set s" and br: "opn \<noteq> CHR 0x5C" "cls \<noteq> CHR 0x5C" "opn \<noteq> cls" "cls \<noteq> NUL"
  obtains l r where "skip_nested opn cls 1 (s @ [NUL]) = Some (NUL, l, r)" and "\<And>t u. s = t @ cls # u \<Longrightarrow> \<not> balanced opn cls t"
  | t u where "skip_nested opn cls 1 (s @ [NUL]) = Some (cls, 0, u @ [NUL])" and "s = t @ cls # u" and "balanced opn cls t"
      and "\<And>t' u'. s = t' @ cls # u' \<Longrightarrow> balanced opn cls t' \<Longrightarrow> u' = u"
proof -
  have body: "skip_nested opn cls 1 (s @ [NUL]) = Some (cls, 0, u @ [NUL])" if "s = t @ cls # u" "balanced opn cls t" for t u
    using skip_nested_body [of opn cls t 0 "cls # u @ [NUL]"] that assms by auto
  obtain c l r where r: "skip_nested opn cls 1 (s @ [NUL]) = Some (c, l, r)"
    "c = NUL \<or> (\<exists>t u. c \<noteq> NUL \<and> l = 0 \<and> s = t @ cls # u \<and> balanced opn cls t \<and> r = u @ [NUL])"
    using skip_nested_found [OF br assms(1), of 0] by auto
  show ?thesis
  proof (cases "c = NUL")
    case True
    then have "\<not> balanced opn cls t" if "s = t @ cls # u" for t u using body [OF that] r(1) br(4) by auto
    then show ?thesis using that(1) r(1) True by blast
  next
    case False
    then obtain t u where tu: "s = t @ cls # u" "balanced opn cls t" using r(2) by blast
    have "u' = u" if "s = t' @ cls # u'" "balanced opn cls t'" for t' u' using body [OF that] body [OF tu] by simp
    then show ?thesis using that(2) [OF body [OF tu] tu] by blast
  qed
qed

section \<open>The check\<close>

lemma expandable_simps:
  "expandable nc dq (CHR 0x5C # s) \<longleftrightarrow> (\<exists>c t. s = c # t \<and> expandable nc dq t)"
  "expandable nc True (CHR 0x27 # s) \<longleftrightarrow> expandable nc True s"
  "expandable nc False (CHR 0x27 # s) \<longleftrightarrow> (\<exists>t u. s = t @ CHR 0x27 # u \<and> CHR 0x27 \<notin> set t \<and> expandable nc False u)"
  "expandable nc dq (CHR 0x22 # s) \<longleftrightarrow> expandable nc (\<not> dq) s"
  "expandable nc dq (CHR ''`'' # s) \<longleftrightarrow> \<not> nc \<and> (\<exists>t u. s = t @ CHR ''`'' # u \<and> unquoted t \<and> expandable nc dq u)"
  "\<not> expandable nc dq ''$''"
  by ((subst expandable_Cons, simp; blast?); fail)+

lemma expandable_plain:
  "c \<notin> {CHR 0x5C, CHR 0x22, CHR 0x27, CHR ''`'', CHR ''$''} \<Longrightarrow> expandable nc dq (c # s) \<longleftrightarrow> (dq \<or> \<not> special_char c) \<and> expandable nc dq s"
  by (subst expandable_Cons) auto

lemma expandable_dollar:
  "expandable nc dq (CHR ''$'' # CHR ''('' # s) \<longleftrightarrow>
     (nc \<longrightarrow> take 1 s = ''('') \<and> (\<exists>t u. s = t @ CHR '')'' # u \<and> balanced (CHR ''('') (CHR '')'') t \<and> expandable nc dq u)"
  "expandable nc dq (CHR ''$'' # CHR ''{'' # s) \<longleftrightarrow>
     (\<exists>t u. s = t @ CHR ''}'' # u \<and> balanced (CHR ''{'') (CHR ''}'') t \<and> expandable nc dq u)"
  "c \<noteq> CHR ''('' \<Longrightarrow> c \<noteq> CHR ''{'' \<Longrightarrow> expandable nc dq (CHR ''$'' # c # s) \<longleftrightarrow> expandable nc dq (c # s)"
proof -
  have one: "take 1 (t @ CHR '')'' # u) = ''('' \<longleftrightarrow> take 1 t = ''(''" for t u :: string by (cases t) auto
  show "expandable nc dq (CHR ''$'' # CHR ''('' # s) \<longleftrightarrow>
     (nc \<longrightarrow> take 1 s = ''('') \<and> (\<exists>t u. s = t @ CHR '')'' # u \<and> balanced (CHR ''('') (CHR '')'') t \<and> expandable nc dq u)"
    by (subst expandable_Cons) (simp, metis one One_nat_def)
qed (subst expandable_Cons, simp; blast?)+


definition accepts_from :: "bool \<Rightarrow> bool \<Rightarrow> bool \<Rightarrow> bool \<Rightarrow> string \<Rightarrow> bool" where
  "accepts_from nc quote squote dquote s \<longleftrightarrow>
     (if squote then \<exists>t u. s = t @ CHR 0x27 # u \<and> CHR 0x27 \<notin> set t \<and> expandable nc False u
      else if quote then \<exists>c t. s = c # t \<and> expandable nc dquote t
      else expandable nc dquote s)"

lemma in_single_quotes: "(\<exists>t u. c # s = t @ CHR 0x27 # u \<and> CHR 0x27 \<notin> set t \<and> P u)
   \<longleftrightarrow> (if c = CHR 0x27 then P s else \<exists>t u. s = t @ CHR 0x27 # u \<and> CHR 0x27 \<notin> set t \<and> P u)"
proof (cases "c = CHR 0x27")
  case True
  have "c # s = t @ CHR 0x27 # u \<and> CHR 0x27 \<notin> set t \<longleftrightarrow> t = [] \<and> u = s" for t u using True by (cases t) auto
  then have "(\<exists>t u. c # s = t @ CHR 0x27 # u \<and> CHR 0x27 \<notin> set t \<and> P u) \<longleftrightarrow> (\<exists>t u. (t = [] \<and> u = s) \<and> P u)" by metis
  then show ?thesis using True by simp
next
  case False
  have "(\<exists>t u. c # s = t @ CHR 0x27 # u \<and> CHR 0x27 \<notin> set t \<and> P u) \<longleftrightarrow>
      (\<exists>t' u. s = t' @ CHR 0x27 # u \<and> CHR 0x27 \<notin> set t' \<and> P u)"
  proof
    assume "\<exists>t u. c # s = t @ CHR 0x27 # u \<and> CHR 0x27 \<notin> set t \<and> P u"
    then obtain t u where "c # s = t @ CHR 0x27 # u" "CHR 0x27 \<notin> set t" "P u" by blast
    then show "\<exists>t' u. s = t' @ CHR 0x27 # u \<and> CHR 0x27 \<notin> set t' \<and> P u" using False by (cases t) auto
  next
    assume "\<exists>t' u. s = t' @ CHR 0x27 # u \<and> CHR 0x27 \<notin> set t' \<and> P u"
    then obtain t u where "s = t @ CHR 0x27 # u" "CHR 0x27 \<notin> set t" "P u" by blast
    then show "\<exists>t u. c # s = t @ CHR 0x27 # u \<and> CHR 0x27 \<notin> set t \<and> P u"
      using False by (intro exI [of _ "c # t"] exI [of _ u]) simp
  qed
  then show ?thesis using False by simp
qed

lemma accepts_from_simps:
  "accepts_from nc False True False [] = False"
  "accepts_from nc True False dq [] = False"
  "accepts_from nc False False dq [] = (\<not> dq)"
  "accepts_from nc True False dq (c # s) = accepts_from nc False False dq s"
  "accepts_from nc False True False (c # s) = (if c = CHR 0x27 then accepts_from nc False False False s else accepts_from nc False True False s)"
  "accepts_from nc False False dq (CHR 0x5C # s) = accepts_from nc True False dq s"
  "accepts_from nc False False True (CHR 0x27 # s) = accepts_from nc False False True s"
  "accepts_from nc False False False (CHR 0x27 # s) = accepts_from nc False True False s"
  "accepts_from nc False False dq (CHR 0x22 # s) = accepts_from nc False False (\<not> dq) s"
  "c \<notin> {CHR 0x5C, CHR 0x22, CHR 0x27, CHR ''`'', CHR ''$''} \<Longrightarrow>
     accepts_from nc False False dq (c # s) = ((dq \<or> \<not> special_char c) \<and> accepts_from nc False False dq s)"
  by (simp_all add: accepts_from_def expandable_simps expandable_plain in_single_quotes expandable_Nil)

definition checks :: "we_error option \<Rightarrow> bool \<Rightarrow> bool" where
  "checks r ok \<longleftrightarrow> (\<exists>e. r = Some e \<and> (e = WRDE_OK \<longleftrightarrow> ok))"

lemma we_loop_backquote:
  assumes s: "NUL \<notin> set s" and q: "quote = False" "squote = False"
    and rest: "\<And>u t. s = t @ CHR ''`'' # u \<Longrightarrow> checks (we_loop flags False False dquote (u @ [NUL])) (expandable (has_flag flags WRDE_NOCMD) dquote u)"
  shows "checks (we_loop flags quote squote dquote ((CHR ''`'' # s) @ [NUL])) (expandable (has_flag flags WRDE_NOCMD) dquote (CHR ''`'' # s))"
proof (cases "has_flag flags WRDE_NOCMD")
  case True
  then show ?thesis using q by (simp add: checks_def expandable_simps)
next
  case False
  have sp: "\<not> special_char (CHR ''`'')" by (simp add: special_char_def)
  from s show ?thesis
  proof (cases rule: skip_backquoted_cases)
    case (1 r)
    then have "\<not> expandable (has_flag flags WRDE_NOCMD) dquote (CHR ''`'' # s)" by (auto simp: expandable_simps)
    then show ?thesis using 1(1) False q by (simp add: checks_def)
  next
    case (2 t u)
    have "expandable (has_flag flags WRDE_NOCMD) dquote (CHR ''`'' # s) \<longleftrightarrow> expandable (has_flag flags WRDE_NOCMD) dquote u"
      using False 2(2,3,4) by (auto simp: expandable_simps)
    then show ?thesis using rest [OF 2(2)] 2(1) False q by simp
  qed
qed

lemma we_loop_nested:
  assumes s: "NUL \<notin> set s" and b: "b = CHR ''('' \<or> b = CHR ''{''"
    and rest: "\<And>u t c. s = t @ c # u \<Longrightarrow> checks (we_loop flags False False dquote (u @ [NUL])) (expandable (has_flag flags WRDE_NOCMD) dquote u)"
  shows "checks (we_loop flags False False dquote ((CHR ''$'' # b # s) @ [NUL])) (expandable (has_flag flags WRDE_NOCMD) dquote (CHR ''$'' # b # s))"
proof -
  have sp: "\<not> special_char (CHR ''$'')" by (simp add: special_char_def)
  let ?nc = "has_flag flags WRDE_NOCMD"
  show ?thesis
  proof (cases "b = CHR ''(''")
    case True
    have head: "(case s @ [NUL] of [] \<Rightarrow> False | d # _ \<Rightarrow> d \<noteq> CHR ''('') \<longleftrightarrow> take 1 s \<noteq> ''(''" by (cases s) auto
    show ?thesis
    proof (cases "?nc \<and> take 1 s \<noteq> ''(''")
      case t: True
      then show ?thesis using True sp head by (simp add: checks_def expandable_dollar)
    next
      case nt: False
      have step: "we_loop flags False False dquote ((CHR ''$'' # b # s) @ [NUL]) =
          (case skip_nested (CHR ''('') (CHR '')'') 1 (s @ [NUL]) of None \<Rightarrow> None
           | Some (c, level, ws) \<Rightarrow> if c = NUL \<or> level \<noteq> 0 then Some WRDE_SYNTAX else we_loop flags False False dquote ws)"
      proof -
        have "\<not> (?nc \<and> (case s @ [NUL] of [] \<Rightarrow> False | d # _ \<Rightarrow> d \<noteq> CHR ''(''))" unfolding head using nt by blast
        moreover have "we_loop flags False False dquote ((CHR ''$'' # b # s) @ [NUL]) =
          (if ?nc \<and> (case s @ [NUL] of [] \<Rightarrow> False | d # _ \<Rightarrow> d \<noteq> CHR ''('') then Some WRDE_CMDSUB
           else case skip_nested (CHR ''('') (CHR '')'') 1 (s @ [NUL]) of None \<Rightarrow> None
           | Some (c, level, ws) \<Rightarrow> if c = NUL \<or> level \<noteq> 0 then Some WRDE_SYNTAX else we_loop flags False False dquote ws)"
          using True sp by (simp split del: if_split)
        ultimately show ?thesis by (simp only: if_False)
      qed
      have br: "(CHR ''('') \<noteq> CHR 0x5C" "(CHR '')'') \<noteq> CHR 0x5C" "(CHR ''('') \<noteq> CHR '')''" "(CHR '')'') \<noteq> NUL" by simp_all
      from s br show ?thesis
      proof (cases rule: skip_nested_cases)
        case (1 l r)
        then show ?thesis unfolding step unfolding True using nt by (auto simp: checks_def expandable_dollar)
      next
        case (2 t u)
        then have "expandable ?nc dquote (CHR ''$'' # b # s) \<longleftrightarrow> expandable ?nc dquote u"
          unfolding True expandable_dollar using nt by blast
        then show ?thesis unfolding step using 2(1) rest [OF 2(2)] by simp
      qed
    qed
  next
    case False
    then have b: "b = CHR ''{''" using assms(2) by simp
    have step: "we_loop flags False False dquote ((CHR ''$'' # b # s) @ [NUL]) =
        (case skip_nested (CHR ''{'') (CHR ''}'') 1 (s @ [NUL]) of None \<Rightarrow> None
         | Some (c, level, ws) \<Rightarrow> if c = NUL \<or> level \<noteq> 0 then Some WRDE_SYNTAX else we_loop flags False False dquote ws)"
      using b sp by simp
    have br: "(CHR ''{'') \<noteq> CHR 0x5C" "(CHR ''}'') \<noteq> CHR 0x5C" "(CHR ''{'') \<noteq> CHR ''}''" "(CHR ''}'') \<noteq> NUL" by simp_all
    from s br show ?thesis
    proof (cases rule: skip_nested_cases)
      case (1 l r)
      then show ?thesis unfolding step unfolding b by (auto simp: checks_def expandable_dollar)
    next
      case (2 t u)
      then have "expandable ?nc dquote (CHR ''$'' # b # s) \<longleftrightarrow> expandable ?nc dquote u"
        unfolding b expandable_dollar by blast
      then show ?thesis unfolding step using 2(1) rest [OF 2(2)] by simp
    qed
  qed
qed

lemma we_loop_accepts:
  "NUL \<notin> set s \<Longrightarrow> s = [] \<or> last s \<noteq> CHR ''$'' \<Longrightarrow> \<not> (squote \<and> (quote \<or> dquote)) \<Longrightarrow>
     checks (we_loop flags quote squote dquote (s @ [NUL])) (accepts_from (has_flag flags WRDE_NOCMD) quote squote dquote s)"
proof (induction s arbitrary: quote squote dquote rule: length_induct)
  case (1 s)
  let ?nc = "has_flag flags WRDE_NOCMD"
  show ?case
  proof (cases s)
    case Nil
    then show ?thesis using 1(4) by (cases quote; cases squote; cases dquote) (simp_all add: checks_def accepts_from_simps)
  next
    case (Cons c w)
    have c: "c \<noteq> NUL" "NUL \<noteq> c" and w: "length w < length s" "NUL \<notin> set w" and l: "w \<noteq> [] \<Longrightarrow> last w \<noteq> CHR ''$''"
      using 1(2,3) Cons by auto
    have IH: "checks (we_loop flags q sq dq (w @ [NUL])) (accepts_from ?nc q sq dq w)" if "\<not> (sq \<and> (q \<or> dq))" for q sq dq
      using 1(1) w l that by blast
    have suffix: "checks (we_loop flags False False dq (u @ [NUL])) (expandable ?nc dq u)" if "w = t @ x # u" for t u x dq
      using 1(1)[rule_format, of u False False dq] that w l
      by (cases "u = []") (auto simp: accepts_from_def checks_def expandable_Nil)
    have sp: "\<not> special_char (CHR ''$'')" "\<not> special_char (CHR ''`'')" "\<not> special_char (CHR 0x22)" "\<not> special_char (CHR 0x27)"
      "\<not> special_char (CHR 0x5C)" by (simp_all add: special_char_def)
    consider (bs) "c = CHR 0x5C" | (sq) "c = CHR 0x27" | (dq) "c = CHR 0x22" | (bq) "c = CHR ''`''" | (dollar) "c = CHR ''$''"
      | (other) "c \<notin> {CHR 0x5C, CHR 0x22, CHR 0x27, CHR ''`'', CHR ''$''}" by auto
    then show ?thesis
    proof cases
      case bq
      show ?thesis
      proof (cases "quote \<or> squote")
        case True
        then show ?thesis using Cons bq 1(4) IH by (cases quote; cases squote) (simp_all add: accepts_from_simps)
      next
        case False
        then show ?thesis using we_loop_backquote [OF w(2), of quote squote flags dquote] suffix unfolding Cons bq
          by (simp add: accepts_from_def)
      qed
    next
      case dollar
      then obtain d v where v: "w = d # v" using 1(3) Cons by (cases w) auto
      have d: "d \<noteq> NUL" "NUL \<notin> set v" using w(2) v by auto
      show ?thesis
      proof (cases "\<not> quote \<and> \<not> squote \<and> (d = CHR ''('' \<or> d = CHR ''{'')")
        case True
        have "checks (we_loop flags False False dquote (u @ [NUL])) (expandable ?nc dquote u)" if "v = t @ x # u" for t u x
          using suffix [of "d # t" x u] that v by simp
        then show ?thesis using we_loop_nested [OF d(2), of d flags dquote] True unfolding Cons dollar v by (simp add: accepts_from_def)
      next
        case False
        have "we_loop flags quote squote dquote (s @ [NUL]) = we_loop flags False squote dquote (w @ [NUL])"
          using Cons dollar v d False sp by auto
        moreover have "accepts_from ?nc quote squote dquote s = accepts_from ?nc False squote dquote w"
          using False 1(4) Cons dollar v
          by (cases quote; cases squote) (simp_all add: accepts_from_simps, simp add: accepts_from_def expandable_dollar)
        ultimately show ?thesis using IH 1(4) by simp
      qed
    next
      case bs
      then show ?thesis using Cons IH 1(4) by (cases quote; cases squote) (simp_all add: accepts_from_simps)
    next
      case sq
      then show ?thesis using Cons IH 1(4) by (cases quote; cases squote; cases dquote) (simp_all add: accepts_from_simps)
    next
      case dq
      then show ?thesis using Cons IH 1(4) by (cases quote; cases squote) (simp_all add: accepts_from_simps)
    next
      case other
      have "we_loop flags quote squote dquote (s @ [NUL]) =
          (if special_char c \<and> \<not> quote \<and> \<not> squote \<and> \<not> dquote then Some WRDE_BADCHAR else we_loop flags False squote dquote (w @ [NUL]))"
        using Cons other c by simp
      then show ?thesis using Cons other IH [of squote False dquote] 1(4)
        by (cases quote; cases squote) (auto simp: accepts_from_simps checks_def)
    qed
  qed
qed


text \<open>Behind an accepted string the loop stands as at the start, whatever follows.\<close>

lemma we_loop_single_quotes:
  "CHR 0x27 \<notin> set t \<Longrightarrow> NUL \<notin> set t \<Longrightarrow> we_loop flags False True False (t @ CHR 0x27 # ws) = we_loop flags False False False ws"
proof (induction t)
  case (Cons c t)
  then have IH: "we_loop flags False True False (t @ CHR 0x27 # ws) = we_loop flags False False False ws" by auto
  obtain d v where v: "t @ CHR 0x27 # ws = d # v" "d \<noteq> NUL" using Cons.prems by (cases t) auto
  have "c \<noteq> NUL" "c \<noteq> CHR 0x27" using Cons.prems by auto
  then show ?case using IH v by auto
qed simp

lemma we_loop_consumes:
  "expandable nc dq s \<Longrightarrow> nc = has_flag flags WRDE_NOCMD \<Longrightarrow> NUL \<notin> set s \<Longrightarrow> ws \<noteq> [] \<Longrightarrow> hd ws \<noteq> NUL \<Longrightarrow>
     we_loop flags False False dq (s @ ws) = we_loop flags False False False ws"
proof (induction rule: expandable.induct)
  case (Plain c dq s)
  have c: "c \<noteq> NUL" "NUL \<notin> set s" using Plain.prems by auto
  have "we_loop flags False False dq (c # s @ ws) = we_loop flags False False dq (s @ ws)"
    using Plain.hyps(1,2) c by (cases "c = CHR 0x27"; cases dq) simp_all
  then show ?case using Plain.IH Plain.prems c(2) by simp
next
  case (Escape dq s c)
  have "s @ ws \<noteq> []" "hd (s @ ws) \<noteq> NUL" "c \<noteq> NUL" using Escape.prems by (cases s; auto)+
  then obtain d v where "s @ ws = d # v" "d \<noteq> NUL" by (cases "s @ ws") auto
  then show ?case using Escape \<open>c \<noteq> NUL\<close> by auto
next
  case (Single_quotes s t)
  then show ?case using we_loop_single_quotes [of s flags "t @ ws"] by (simp add: special_char_def)
next
  case (Double_quote dq s)
  then show ?case by (simp add: special_char_def)
next
  case (Backquotes s dq t)
  have "skip_backquoted ((s @ CHR ''`'' # t) @ ws) = Some (CHR ''`'', t @ ws)"
    using skip_backquoted_body [of s "CHR ''`'' # t @ ws"] Backquotes by simp
  then show ?case using Backquotes by (simp add: special_char_def)
next
  case (Parens s dq t)
  have "skip_nested (CHR ''('') (CHR '')'') (Suc 0) (s @ CHR '')'' # t @ ws) = Some (CHR '')'', 0, t @ ws)"
    using skip_nested_body [of "CHR ''(''" "CHR '')''" s 0 "CHR '')'' # t @ ws"] Parens by auto
  moreover have "\<not> (has_flag flags WRDE_NOCMD \<and> (case s @ CHR '')'' # t @ ws of [] \<Rightarrow> False | d # _ \<Rightarrow> d \<noteq> CHR ''(''))"
    using Parens by (cases s) auto
  ultimately show ?case using Parens by (auto simp: special_char_def)
next
  case (Braces s dq t)
  have "skip_nested (CHR ''{'') (CHR ''}'') (Suc 0) (s @ CHR ''}'' # t @ ws) = Some (CHR ''}'', 0, t @ ws)"
    using skip_nested_body [of "CHR ''{''" "CHR ''}''" s 0 "CHR ''}'' # t @ ws"] Braces by auto
  then show ?case using Braces by (auto simp: special_char_def)
next
  case (Dollar c dq s)
  have "we_loop flags False False dq (CHR ''$'' # c # s @ ws) = we_loop flags False False dq (c # s @ ws)"
    using Dollar.hyps Dollar.prems(2) by (subst we_loop.simps(2)) (auto simp: special_char_def simp del: we_loop.simps)
  then show ?case using Dollar.IH Dollar.prems by (simp del: we_loop.simps)
qed simp

text \<open>C39: \<open>we_check\<close> reads no further than the terminator and lets through exactly the strings of the grammar, unless the
  string ends in a dollar sign: then the terminator is taken for the character after it, and the check of an otherwise good
  string runs on past the end of the string.\<close>

theorem we_check_accepts:
  assumes "NUL \<notin> set s"
  shows "(s = [] \<or> last s \<noteq> CHR ''$'' \<longrightarrow>
      (\<exists>e. we_check (s @ [NUL]) flags = Some e \<and> (e = WRDE_OK \<longleftrightarrow> expandable (has_flag flags WRDE_NOCMD) False s)))
    \<and> (expandable (has_flag flags WRDE_NOCMD) False s \<longrightarrow> we_check (s @ ''$'' @ [NUL]) flags = None)"
proof
  show "s = [] \<or> last s \<noteq> CHR ''$'' \<longrightarrow>
      (\<exists>e. we_check (s @ [NUL]) flags = Some e \<and> (e = WRDE_OK \<longleftrightarrow> expandable (has_flag flags WRDE_NOCMD) False s))"
    using we_loop_accepts [OF assms, of False False False flags] by (simp add: checks_def accepts_from_def we_check_def)
  have "we_loop flags False False False (s @ ''$'' @ [NUL]) = we_loop flags False False False (''$'' @ [NUL])"
    if "expandable (has_flag flags WRDE_NOCMD) False s"
    using we_loop_consumes [OF that refl assms] by simp
  then show "expandable (has_flag flags WRDE_NOCMD) False s \<longrightarrow> we_check (s @ ''$'' @ [NUL]) flags = None"
    by (simp add: we_check_def special_char_def)
qed

theorem we_check_accepts_witness:
  "expandable False False ''a$(b)'' \<and> we_check (''a$(b)$'' @ [NUL]) 0 = None"
proof -
  have "we_check (''a$(b)'' @ [NUL]) 0 = Some WRDE_OK" by (simp add: we_check_def special_char_def)
  moreover have "NUL \<notin> set ''a$(b)''" by simp
  ultimately show ?thesis using we_check_accepts [of "''a$(b)''" 0] by simp
qed


section \<open>The words of the vector\<close>






















text \<open>An example: two words, the second read interrupted.\<close>

definition example_child :: child where
  "example_child = \<lparr>pipes_open = True, spawned = True,
     child_output = [Chunk ''0000000'', Chunk ''200000003a'', Interrupted, Chunk (''b'' @ [NUL] @ ''c'' @ [NUL])],
     err_read = Some [], err_stack = [NUL], exited_well = True\<rparr>"


definition fresh_words :: wordexp_t where
  "fresh_words = \<lparr>we_wordc = 0, we_offs = 2, we_wordv = None\<rparr>"


text \<open>When the vector cannot be made larger, the words are counted all the same.\<close>

lemma nospace_counts_missing_words:
  "map_option (\<lambda>(e, we, os). (e, we_wordc we, we_wordv we)) (wordexp (\<lambda>_. example_child) (''$x c'' @ [NUL]) fresh_words 0 [False])
     = Some (WRDE_NOSPACE, 2, None)"
  by code_simp

end
