(* ===== verification/Spec2Isabelle.thy ===== *)
theory Spec2Isabelle
  imports GetoptOrder NetDatabase ObstackClient Argz Strings VersCmp HSearch TWalk Dynarray Bitset RegAutomaton RegReach RegSound WordexpSpec
begin

text \<open>
  librecompat supplies functions of the GNU C library that Darwin lacks. The library is a set of modules under src/src
  that are bound together by little more than the allocator and \<open>errno\<close>; install-include and build-include hold the headers.
  This development models the modules with data structures and algorithms of their own, each as a group of definitions
  that follow the functions of the C code, and proves what makes each of them correct.

  \<^bold>\<open>The program.\<close> String modules: argz vectors (src/argz), searching and copying bytes (src/string), comparing version
  strings (strverscmp.c, used by the directory comparators of src/dirent). Containers: the hash table \<open>hsearch_r\<close>, walking
  and destroying search trees (src/search), dynamic arrays and object stacks (src/malloc; the headers are the templates that
  client code includes). Argument scanning: \<open>getopt\<close> (src/unistd). The network configuration database (src/rpc: getnetconfig.c,
  whose entries the NETPATH iterator of getnetpath.c visits). Word expansion (src/wordexp), which checks the words and lets
  a child process expand them. Regular expressions (src/regex): regcomp.c reads a pattern with the input strings of
  regex_internal.c, makes a structure tree, and turns it into the nodes, destinations and closures of an automaton, whose states
  regex_internal.c caches for the matcher in regexec.c; node sets and bit sets are the containers of all of this.

  \<^bold>\<open>Conventions\<close> (Prelude). A block of memory is the list of its cells, a pointer into it an offset; an access outside, a
  use of freed memory or any other undefined behaviour makes an operation return \<open>None\<close>, so that a theorem whose conclusion is
  \<open>Some\<close> includes memory safety. The allocator is an oracle: a list of answers (or a function of the state), consumed one at a
  time, over which the theorems quantify; so every allocation may fail. Error returns are values. Loops are structural or
  well-founded recursions; where a loop may not end it is a \<open>partial_function\<close> in the option monad, not returning is \<open>None\<close> too,
  and the theorem that it returns is part of the property. A few recursions take a bound as their argument instead, and running
  out of it is \<open>None\<close>: \<open>visible_loop\<close> (one more than the entries), a client that
  repeats a call until it is done (\<open>getopt_scan\<close>, \<open>walk\<close>; the number of calls is in the statement), the calls of the pattern parser (\<open>parser_calls\<close>, \<open>4 * str_len +
  8\<close>, since at most four calls nest before a byte is read) and its loops (\<open>dup_loop\<close>, \<open>bracket_loop\<close>, \<open>more_bytes\<close>, at most a byte of
  the pattern each round); the theorems about them prove that the operations return \<open>Some\<close>, so the bounds are enough. Integers
  have their width (\<open>w word\<close>) where wrap-around matters to the code, and are unbounded where the sizes are bounded by memory the
  model has allocated.

  \<^bold>\<open>Theories and code.\<close>
  \<^item> Argz: src/argz/*.c. A vector is its block and its length; \<open>argz_replace\<close> works on a second vector as the code does. Shown: the
    entries after each operation, round trips, and two defects (the underrun of \<open>argz_insert\<close>, the vector that \<open>argz_add_sep\<close>
    loses).
  \<^item> Strings: memrchr.c, mempcpy.c, strchrnul.c. \<open>strchrnul\<close> reads words beyond the terminator, so its memory is a partial map
    of addresses with page granularity. Shown: results and the absence of faults.
  \<^item> VersCmp: strverscmp.c with its tables, versionsort.c. Shown: a total order, without reading past a terminator.
  \<^item> HSearch: hsearch_r.c. The table is a list of slots with their hash values. Locales: an open-addressing table for a probe
    sequence. Shown: refinement of a finite map, termination of probing, primality of the size.
  \<^item> TWalk: \<open>twalk_r\<close> and \<open>tdestroy\<close> of tsearch.c over a heap of nodes with tagged links.
  \<^item> Dynarray: dynarray-skeleton.c and the functions it calls, over a heap with block identities. Shown: refinement of lists,
    sticky failure, no leaks, and the defect of resizing a failed array.
  \<^item> Obstack, ObstackClient: obstack.c and the macros of obstack.h; a client is a sequence of calls. Shown: refinement of a
    stack of objects at stable aligned addresses.
  \<^item> Getopt, GetoptOrder: getopt.c, getopt1.c, getopt_int.h. The state is the record of \<open>_getopt_data\<close> and the argument vector. Shown: the
    scan ends, never leaves the vector, and leaves it sorted into options with their arguments and operands; long options are found as specified; the exchange is a rotation.
  \<^item> Netconfig, NetOwnership, NetDatabase: getnetconfig.c and getnetpath.c. NetOwnership counts the live blocks through every
    operation; NetDatabase has what is delivered. SystemConfiguration and the file are parameters.
  \<^item> Wordexp, WordexpSpec: \<open>we_check\<close> against a grammar, and \<open>wordexp\<close> on what the child delivers, its pieces and interruptions
    included.
  \<^item> NodeSet, Bitset: the sets of regex_internal.c/.h against mathematical sets; the sorted arrays stay sorted and in bounds.
  \<^item> StateTable: \<open>re_dfa_add_node\<close> and \<open>re_acquire_state(_context)\<close> with the table of states. States do not move, so a pointer to one
    is its number in the order of creation.
  \<^item> RegTree, RegVisit, RegLanguage, RegPasses, RegAutomaton: the structure tree of regcomp.c on a heap of nodes with parent, left,
    right and next links; the stackless visits; \<open>optimize_subexps\<close> to \<open>link_nfa_nodes\<close>. RegLanguage is the abstract side (languages
    and runs), RegPasses relates the heap to it, RegAutomaton composes the passes. Shown: the visits end, and the automaton
    accepts the language of the tree.
  \<^item> RegToken, RegBracket, RegParse: the parser of regcomp.c, from \<open>parse\<close> down to \<open>parse_dup_op\<close>, \<open>parse_bracket_exp\<close>, \<open>peek_token\<close>
    and \<open>fetch_number\<close>, on the input buffers and indices of \<open>re_string_t\<close>. The functions that call each other are one definition
    over the kind of the call. The ctype functions of the C library are a parameter.
  \<^item> RegDuplicate, RegShape, RegRepeat, RegScan, RegAtom, RegSound: what the parser makes. RegShape says what its trees are, RegDuplicate
    and RegRepeat follow copies and repetitions, RegScan shows that the scan of a bracket ends, RegAtom treats single expressions,
    and RegSound puts the calls together. Shown: the parser ends on every pattern and reads nothing beyond its buffers; it
    returns a linked tree whose nodes have the types and operands the passes expect, or an error, and then every set of bytes
    it allocated has been released once. In multibyte locales this needs that no allocation is refused, because
    \<open>build_range_exp\<close> leaves pointers to released arrays in the set when enlarging one of them fails.
  \<^item> RegClosure, RegReach: \<open>calc_eclosure\<close>, \<open>duplicate_node_closure\<close>, \<open>calc_inveclosure\<close>. Shown, for automata without anchors: the
    closures are reachability along epsilon edges, and the inverse closures the converse.

  The properties PROJECT.json lists stand in the theory of their component, after a text block with their number; where a
  property has hypotheses, a theorem of the same name with \<open>_witness\<close> applies it to a concrete input.

  \<^bold>\<open>Not modelled.\<close> The matcher (regexec.c): its backtracking over partial matches, sifting and transition tables rest on the parts
  above but need the decoding of input buffers for their invariants. How \<open>re_string_t\<close> buffers are filled (\<open>mbrtowc\<close>, \<open>towupper\<close>).
  The frame of regcomp.c around the parser and the passes (\<open>regcomp\<close>, \<open>re_compile_internal\<close>, \<open>init_dfa\<close>, the fastmap and
  \<open>optimize_utf8\<close>).
  Starting processes and their pipes (popen.c, the child of wordexp.c), wrappers around system calls
  (fcntl, poll, socket, sysctl, utsname, netdb), setproctitle.c (which depends on the loader's layout of the arguments), and the
  installed headers, which declare or repeat what src/src has. PROJECT.json lists each of them with its reason.
\<close>

end
